(* ===== verification/C_Prelude.thy ===== *)
theory C_Prelude
  imports Main "HOL-Library.Word" "HOL-Library.Monad_Syntax" "HOL-Library.Multiset"
begin

text \<open>
  The part of the C abstract machine that the components share.

  \<^item> Pointers are natural numbers, \<open>NULL\<close> is 0. A heap of nodes of type \<open>'n\<close> maps the
    addresses of the live blocks to their contents.
  \<^item> An operation returns \<open>None\<close> where the C program has undefined behaviour (a
    dereference of \<open>NULL\<close> or of a freed block, a signed overflow, a failed
    \<^verbatim>\<open>assert\<close>) or does not return. A lemma that concludes \<open>f x = Some y\<close> therefore says
    at once that the code returns, that it is memory safe, and what it returns.
  \<^item> \<open>outcome\<close> separates a return from a call of \<^verbatim>\<open>exit\<close>.
\<close>

section \<open>Pointers and heaps\<close>

type_synonym addr = nat
type_synonym 'n heap = "addr \<Rightarrow> 'n option"

abbreviation NULL :: addr where
  "NULL \<equiv> 0"

datatype 'a outcome = Ret 'a | Exit int

definition load :: "'n heap \<Rightarrow> addr \<Rightarrow> 'n option" where
  "load h p = (if p = NULL then None else h p)"

definition deref :: "('n \<Rightarrow> 'a) \<Rightarrow> 'n heap \<Rightarrow> addr \<Rightarrow> 'a option" where
  "deref fld h p = map_option fld (load h p)"

definition store :: "('n \<Rightarrow> 'n) \<Rightarrow> 'n heap \<Rightarrow> addr \<Rightarrow> 'n heap option" where
  "store upd h p = map_option (\<lambda>n. h(p := Some (upd n))) (load h p)"

text \<open>\<^verbatim>\<open>free(p)\<close>: nothing for \<open>NULL\<close>, undefined for a block that is not live.\<close>

definition c_free :: "'n heap \<Rightarrow> addr \<Rightarrow> 'n heap option" where
  "c_free h p = (if p = NULL then Some h else map_option (\<lambda>_. h(p := None)) (h p))"

text \<open>
  \<^verbatim>\<open>malloc\<close> is the argument of every operation that allocates: it is asked with the
  current heap and answers \<open>NULL\<close> or the address of a block that is not live.
\<close>

definition malloc_ok :: "('n heap \<Rightarrow> addr) \<Rightarrow> bool" where
  "malloc_ok malloc \<longleftrightarrow> (\<forall>h. malloc h \<noteq> NULL \<longrightarrow> h (malloc h) = None)"

text \<open>A \<^verbatim>\<open>malloc\<close> that does not run out of memory while the heap is finite.\<close>

definition malloc_total :: "('n heap \<Rightarrow> addr) \<Rightarrow> bool" where
  "malloc_total malloc \<longleftrightarrow> (\<forall>h. finite (dom h) \<longrightarrow> malloc h \<noteq> NULL)"

definition bump_malloc :: "'n heap \<Rightarrow> addr" where
  "bump_malloc h = (if finite (dom h) then Suc (Max (insert 0 (dom h))) else NULL)"

text \<open>The outcome of C++ code that may throw.\<close>

datatype 'a thrown = Val 'a | Throw

text \<open>An element of an array; outside the array the access is undefined.\<close>

definition aget :: "'a list \<Rightarrow> nat \<Rightarrow> 'a option" where
  "aget a i = (if i < length a then Some (a ! i) else None)"

definition aput :: "'a list \<Rightarrow> nat \<Rightarrow> 'a \<Rightarrow> 'a list option" where
  "aput a i v = (if i < length a then Some (a[i := v]) else None)"

definition c_assert :: "bool \<Rightarrow> unit option" where
  "c_assert b = (if b then Some () else None)"

named_theorems c_simps \<open>reading and writing a live block\<close>

lemma load_Some [c_simps]: "p \<noteq> NULL \<Longrightarrow> h p = Some n \<Longrightarrow> load h p = Some n"
  by (simp add: load_def)

lemma load_NULL [simp]: "load h NULL = None"
  by (simp add: load_def)

lemma deref_Some [c_simps]: "p \<noteq> NULL \<Longrightarrow> h p = Some n \<Longrightarrow> deref fld h p = Some (fld n)"
  by (simp add: deref_def load_Some)

lemma deref_NULL [simp]: "deref fld h NULL = None"
  by (simp add: deref_def)

lemma store_Some [c_simps]:
  "p \<noteq> NULL \<Longrightarrow> h p = Some n \<Longrightarrow> store upd h p = Some (h(p := Some (upd n)))"
  by (simp add: store_def load_Some)

lemma store_NULL [simp]: "store upd h NULL = None"
  by (simp add: store_def)

lemma c_free_Some [c_simps]: "p \<noteq> NULL \<Longrightarrow> h p = Some n \<Longrightarrow> c_free h p = Some (h(p := None))"
  by (simp add: c_free_def)

lemma c_assert_True [simp]: "c_assert True = Some ()"
  by (simp add: c_assert_def)

lemma c_assert_False [simp]: "c_assert False = None"
  by (simp add: c_assert_def)

lemma c_assert_Some_iff [simp]: "c_assert b = Some u \<longleftrightarrow> b"
  by (simp add: c_assert_def)

lemma malloc_okD: "malloc_ok malloc \<Longrightarrow> malloc h \<noteq> NULL \<Longrightarrow> h (malloc h) = None"
  by (simp add: malloc_ok_def)

lemma bump_malloc_ok: "malloc_ok bump_malloc" "malloc_total bump_malloc"
proof -
  have "Suc (Max (insert 0 (dom h))) \<notin> dom h" if "finite (dom h)" for h :: "'n heap"
    using that Max_ge [of "insert 0 (dom h)"] by (metis finite_insert insertI2 not_less_eq_eq order_refl)
  then show "malloc_ok (bump_malloc :: 'n heap \<Rightarrow> addr)"
    by (auto simp: malloc_ok_def bump_malloc_def domIff)
qed (simp add: malloc_total_def bump_malloc_def)

section \<open>What holds if an operation returns\<close>

text \<open>
  Rules that follow the structure of an operation; they serve the invariants that hold
  whatever the branch taken.
\<close>

definition ensures :: "'a option \<Rightarrow> ('a \<Rightarrow> bool) \<Rightarrow> bool" where
  "ensures m P \<longleftrightarrow> (\<forall>x. m = Some x \<longrightarrow> P x)"

named_theorems ensures_intros \<open>rules for the control structures\<close>

lemma ensures_bind [ensures_intros]: "ensures m (\<lambda>x. ensures (f x) P) \<Longrightarrow> ensures (m \<bind> f) P"
  by (cases m) (simp_all add: ensures_def)

lemma ensures_Some [ensures_intros]: "P x \<Longrightarrow> ensures (Some x) P"
  by (simp add: ensures_def)

lemma ensures_None [ensures_intros]: "ensures None P"
  by (simp add: ensures_def)

lemma ensures_if [ensures_intros]: "(c \<Longrightarrow> ensures a P) \<Longrightarrow> (\<not> c \<Longrightarrow> ensures b P) \<Longrightarrow> ensures (if c then a else b) P"
  by simp

lemma ensures_case_option [ensures_intros]:
  "(x = None \<Longrightarrow> ensures a P) \<Longrightarrow> (\<And>y. x = Some y \<Longrightarrow> ensures (f y) P) \<Longrightarrow> ensures (case x of None \<Rightarrow> a | Some y \<Rightarrow> f y) P"
  by (cases x) simp_all

lemma ensures_case_prod [ensures_intros]:
  "(\<And>a b. x = (a, b) \<Longrightarrow> ensures (f a b) P) \<Longrightarrow> ensures (case x of (a, b) \<Rightarrow> f a b) P"
  by (cases x) simp

lemma ensuresI: "(\<And>x. m = Some x \<Longrightarrow> P x) \<Longrightarrow> ensures m P"
  by (simp add: ensures_def)

lemma ensuresD: "ensures m P \<Longrightarrow> m = Some x \<Longrightarrow> P x"
  by (simp add: ensures_def)

lemma ensures_mono: "ensures m Q \<Longrightarrow> (\<And>x. Q x \<Longrightarrow> P x) \<Longrightarrow> ensures m P"
  by (simp add: ensures_def)

section \<open>The type int\<close>

definition INT_MAX :: int where
  "INT_MAX = 2147483647"

definition INT_MIN :: int where
  "INT_MIN = - 2147483648"

definition in_int :: "int \<Rightarrow> bool" where
  "in_int x \<longleftrightarrow> INT_MIN \<le> x \<and> x \<le> INT_MAX"

text \<open>A signed operation whose result does not fit in \<^verbatim>\<open>int\<close> is undefined.\<close>

definition c_int :: "int \<Rightarrow> int option" where
  "c_int x = (if in_int x then Some x else None)"

lemma c_int_in [c_simps]: "in_int x \<Longrightarrow> c_int x = Some x"
  by (simp add: c_int_def)

lemma in_int_0 [simp]: "in_int 0"
  by (simp add: in_int_def INT_MIN_def INT_MAX_def)

text \<open>The difference of two non-negative ints is an int.\<close>

lemma in_int_diff: "in_int x \<Longrightarrow> in_int y \<Longrightarrow> 0 \<le> x \<Longrightarrow> 0 \<le> y \<Longrightarrow> in_int (x - y)"
  by (simp add: in_int_def INT_MIN_def INT_MAX_def)

lemma c_int_Some_iff: "c_int x = Some y \<longleftrightarrow> in_int x \<and> y = x"
  by (auto simp: c_int_def)

section \<open>Machine words\<close>

unbundle bit_operations_syntax

named_theorems word_bits \<open>bits of words, for proofs by extensionality\<close>

lemma xor_eq_0_iff: "x XOR y = 0 \<longleftrightarrow> x = y" for x y :: "'a::len word"
  by (metis xor.assoc xor.left_neutral xor.right_neutral xor_self_eq)

lemma xor_right_cancel: "x XOR z = y XOR z \<longleftrightarrow> x = y" for x y z :: "'a::len word"
  by (metis xor.assoc xor.right_neutral xor_self_eq)

lemma mask_8: "(0xFF :: 'a::len word) = mask 8"
  by (simp add: mask_eq_exp_minus_1)

lemma bit_FF [word_bits]: "bit (0xFF :: 'a::len word) n \<longleftrightarrow> n < 8 \<and> n < LENGTH('a)"
  by (auto simp: mask_8 bit_mask_iff)

declare bit_simps [word_bits]

end
