(* ===== verification/RB_Heap.thy ===== *)
theory RB_Heap
  imports C_Prelude
begin

text \<open>
  The red-black tree of \<^verbatim>\<open>src/src/data_struct/btree/rbtree.c\<close>: the node type, the two
  rotations, the two rebalancing loops, search, insertion and erasure, statement by
  statement over a heap of nodes with parent pointers. The loops are
  \<^theory_text>\<open>partial_function (option)\<close>: \<open>None\<close> is an undefined dereference or a loop that does
  not end. Every operation returns the new heap beside the C result.
\<close>

section \<open>Nodes\<close>

datatype color_t = RED | BLACK

record rb_node =
  rb_left :: addr
  rb_right :: addr
  rb_parent :: addr
  rb_key :: int
  rb_data :: int
  rb_color :: color_t

type_synonym rb_heap = "rb_node heap"

abbreviation set_left :: "addr \<Rightarrow> rb_node \<Rightarrow> rb_node" where
  "set_left p \<equiv> rb_left_update (\<lambda>_. p)"

abbreviation set_right :: "addr \<Rightarrow> rb_node \<Rightarrow> rb_node" where
  "set_right p \<equiv> rb_right_update (\<lambda>_. p)"

abbreviation set_parent :: "addr \<Rightarrow> rb_node \<Rightarrow> rb_node" where
  "set_parent p \<equiv> rb_parent_update (\<lambda>_. p)"

abbreviation set_color :: "color_t \<Rightarrow> rb_node \<Rightarrow> rb_node" where
  "set_color c \<equiv> rb_color_update (\<lambda>_. c)"

section \<open>Operations\<close>

text \<open>
  \<open>rb_new_node\<close> asks \<^verbatim>\<open>malloc\<close>; on failure the program exits with -1. The fields that
  the C function leaves uninitialised are arguments (\<open>junk\<close>), the callers write them.
\<close>

definition rb_new_node ::
    "(rb_heap \<Rightarrow> addr) \<Rightarrow> rb_node \<Rightarrow> rb_heap \<Rightarrow> int \<Rightarrow> int \<Rightarrow> (rb_heap \<times> addr) outcome" where
  "rb_new_node malloc junk h key data =
     (let node = malloc h in
      if node = NULL then Exit (- 1)
      else Ret (h(node := Some (junk\<lparr>rb_key := key, rb_data := data\<rparr>)), node))"

definition rb_rotate_left :: "rb_heap \<Rightarrow> addr \<Rightarrow> addr \<Rightarrow> (rb_heap \<times> addr) option" where
  "rb_rotate_left h node root = do {
     right \<leftarrow> deref rb_right h node;
     rl \<leftarrow> deref rb_left h right;
     h \<leftarrow> store (set_right rl) h node;
     h \<leftarrow> (if rl \<noteq> NULL then do {
             q \<leftarrow> deref rb_left h right;
             store (set_parent node) h q }
           else Some h);
     h \<leftarrow> store (set_left node) h right;
     p \<leftarrow> deref rb_parent h node;
     h \<leftarrow> store (set_parent p) h right;
     (h, root) \<leftarrow> (if p \<noteq> NULL then do {
             pr \<leftarrow> deref rb_right h p;
             h \<leftarrow> (if node = pr then store (set_right right) h p
                   else store (set_left right) h p);
             Some (h, root) }
           else Some (h, right));
     h \<leftarrow> store (set_parent right) h node;
     Some (h, root) }"

definition rb_rotate_right :: "rb_heap \<Rightarrow> addr \<Rightarrow> addr \<Rightarrow> (rb_heap \<times> addr) option" where
  "rb_rotate_right h node root = do {
     left \<leftarrow> deref rb_left h node;
     lr \<leftarrow> deref rb_right h left;
     h \<leftarrow> store (set_left lr) h node;
     h \<leftarrow> (if lr \<noteq> NULL then do {
             q \<leftarrow> deref rb_right h left;
             store (set_parent node) h q }
           else Some h);
     h \<leftarrow> store (set_right node) h left;
     p \<leftarrow> deref rb_parent h node;
     h \<leftarrow> store (set_parent p) h left;
     (h, root) \<leftarrow> (if p \<noteq> NULL then do {
             pr \<leftarrow> deref rb_right h p;
             h \<leftarrow> (if node = pr then store (set_right left) h p
                   else store (set_left left) h p);
             Some (h, root) }
           else Some (h, left));
     h \<leftarrow> store (set_parent left) h node;
     Some (h, root) }"

text \<open>
  The loop of \<open>rb_insert_rebalance\<close>. \<open>red_at\<close> is the C condition
  \<^verbatim>\<open>p && p->color == RED\<close>.
\<close>

definition red_at :: "rb_heap \<Rightarrow> addr \<Rightarrow> bool option" where
  "red_at h p = (if p = NULL then Some False else map_option (\<lambda>c. c = RED) (deref rb_color h p))"

partial_function (option) rb_insert_loop ::
    "rb_heap \<Rightarrow> addr \<Rightarrow> addr \<Rightarrow> (rb_heap \<times> addr) option" where
  "rb_insert_loop h node root = do {
     parent \<leftarrow> deref rb_parent h node;
     b \<leftarrow> red_at h parent;
     (if \<not> b then Some (h, root)
      else do {
        gparent \<leftarrow> deref rb_parent h parent;
        gl \<leftarrow> deref rb_left h gparent;
        (if parent = gl then do {
           uncle \<leftarrow> deref rb_right h gparent;
           ub \<leftarrow> red_at h uncle;
           (if ub then do {
              h \<leftarrow> store (set_color BLACK) h uncle;
              h \<leftarrow> store (set_color BLACK) h parent;
              h \<leftarrow> store (set_color RED) h gparent;
              rb_insert_loop h gparent root }
            else do {
              pr \<leftarrow> deref rb_right h parent;
              (h, root, parent, node) \<leftarrow> (if pr = node then do {
                  (h, root) \<leftarrow> rb_rotate_left h parent root;
                  Some (h, root, node, parent) }
                else Some (h, root, parent, node));
              h \<leftarrow> store (set_color BLACK) h parent;
              h \<leftarrow> store (set_color RED) h gparent;
              (h, root) \<leftarrow> rb_rotate_right h gparent root;
              rb_insert_loop h node root }) }
         else do {
           uncle \<leftarrow> deref rb_left h gparent;
           ub \<leftarrow> red_at h uncle;
           (if ub then do {
              h \<leftarrow> store (set_color BLACK) h uncle;
              h \<leftarrow> store (set_color BLACK) h parent;
              h \<leftarrow> store (set_color RED) h gparent;
              rb_insert_loop h gparent root }
            else do {
              pl \<leftarrow> deref rb_left h parent;
              (h, root, parent, node) \<leftarrow> (if pl = node then do {
                  (h, root) \<leftarrow> rb_rotate_right h parent root;
                  Some (h, root, node, parent) }
                else Some (h, root, parent, node));
              h \<leftarrow> store (set_color BLACK) h parent;
              h \<leftarrow> store (set_color RED) h gparent;
              (h, root) \<leftarrow> rb_rotate_left h gparent root;
              rb_insert_loop h node root }) }) }) }"

definition rb_insert_rebalance :: "rb_heap \<Rightarrow> addr \<Rightarrow> addr \<Rightarrow> (rb_heap \<times> addr) option" where
  "rb_insert_rebalance h node root = do {
     (h, root) \<leftarrow> rb_insert_loop h node root;
     h \<leftarrow> store (set_color BLACK) h root;
     Some (h, root) }"

text \<open>
  \<open>rb_search_auxiliary\<close>: \<open>save\<close> is \<open>None\<close> where the caller passes a null pointer, else
  the content of the cell it points to. The difference of the keys is a signed
  subtraction, undefined when it overflows.
\<close>

partial_function (option) rb_search_loop ::
    "rb_heap \<Rightarrow> int \<Rightarrow> addr \<Rightarrow> addr \<Rightarrow> (addr \<times> addr) option" where
  "rb_search_loop h key node parent =
     (if node = NULL then Some (NULL, parent)
      else do {
        k \<leftarrow> deref rb_key h node;
        ret \<leftarrow> c_int (k - key);
        (if 0 < ret then do {
           l \<leftarrow> deref rb_left h node;
           rb_search_loop h key l node }
         else if 0 > ret then do {
           r \<leftarrow> deref rb_right h node;
           rb_search_loop h key r node }
         else Some (node, node)) })"

definition rb_search_auxiliary ::
    "rb_heap \<Rightarrow> int \<Rightarrow> addr \<Rightarrow> addr option \<Rightarrow> (addr \<times> addr option) option" where
  "rb_search_auxiliary h key root save = do {
     (node, parent) \<leftarrow> rb_search_loop h key root NULL;
     (if node \<noteq> NULL then Some (node, save)
      else Some (NULL, map_option (\<lambda>_. parent) save)) }"

definition rb_search :: "rb_heap \<Rightarrow> int \<Rightarrow> addr \<Rightarrow> addr option" where
  "rb_search h key root = map_option fst (rb_search_auxiliary h key root None)"

definition rb_insert ::
    "(rb_heap \<Rightarrow> addr) \<Rightarrow> rb_node \<Rightarrow> rb_heap \<Rightarrow> int \<Rightarrow> int \<Rightarrow> addr \<Rightarrow> (rb_heap \<times> addr) outcome option" where
  "rb_insert malloc junk h key data root = do {
     (node, save) \<leftarrow> rb_search_auxiliary h key root (Some NULL);
     (if node \<noteq> NULL then Some (Ret (h, root))
      else do {
        parent \<leftarrow> save;
        (case rb_new_node malloc junk h key data of
           Exit e \<Rightarrow> Some (Exit e)
         | Ret (h, node) \<Rightarrow> do {
             h \<leftarrow> store (set_parent parent) h node;
             h \<leftarrow> store (set_right NULL) h node;
             h \<leftarrow> store (set_left NULL) h node;
             h \<leftarrow> store (set_color RED) h node;
             (h, root) \<leftarrow> (if parent \<noteq> NULL then do {
                 pk \<leftarrow> deref rb_key h parent;
                 h \<leftarrow> (if pk > key then store (set_left node) h parent
                       else store (set_right node) h parent);
                 Some (h, root) }
               else Some (h, node));
             r \<leftarrow> rb_insert_rebalance h node root;
             Some (Ret r) }) }) }"

text \<open>
  The loop of \<open>rb_erase_rebalance\<close>; \<open>black_at\<close> is \<^verbatim>\<open>!p || p->color == BLACK\<close>. The
  result is the heap with the values of \<open>node\<close> and \<open>root\<close> when the loop is left, by its
  condition or by \<^verbatim>\<open>break\<close>. The two halves of the loop body that end in a
  \<^verbatim>\<open>break\<close> are \<open>rb_erase_finish_left\<close> and \<open>rb_erase_finish_right\<close>.
\<close>

definition black_at :: "rb_heap \<Rightarrow> addr \<Rightarrow> bool option" where
  "black_at h p =
     (if p = NULL then Some True else map_option (\<lambda>c. c = BLACK) (deref rb_color h p))"

definition rb_erase_finish_left ::
    "rb_heap \<Rightarrow> addr \<Rightarrow> addr \<Rightarrow> addr \<Rightarrow> (rb_heap \<times> addr) option" where
  "rb_erase_finish_left h parent other root = do {
     orr \<leftarrow> deref rb_right h other;
     rb \<leftarrow> black_at h orr;
     (h, root, other) \<leftarrow> (if rb then do {
         o_left \<leftarrow> deref rb_left h other;
         h \<leftarrow> (if o_left \<noteq> NULL then store (set_color BLACK) h o_left else Some h);
         h \<leftarrow> store (set_color RED) h other;
         (h, root) \<leftarrow> rb_rotate_right h other root;
         other \<leftarrow> deref rb_right h parent;
         Some (h, root, other) }
       else Some (h, root, other));
     pc \<leftarrow> deref rb_color h parent;
     h \<leftarrow> store (set_color pc) h other;
     h \<leftarrow> store (set_color BLACK) h parent;
     orr \<leftarrow> deref rb_right h other;
     h \<leftarrow> (if orr \<noteq> NULL then store (set_color BLACK) h orr else Some h);
     rb_rotate_left h parent root }"

definition rb_erase_finish_right ::
    "rb_heap \<Rightarrow> addr \<Rightarrow> addr \<Rightarrow> addr \<Rightarrow> (rb_heap \<times> addr) option" where
  "rb_erase_finish_right h parent other root = do {
     ol \<leftarrow> deref rb_left h other;
     lb \<leftarrow> black_at h ol;
     (h, root, other) \<leftarrow> (if lb then do {
         o_right \<leftarrow> deref rb_right h other;
         h \<leftarrow> (if o_right \<noteq> NULL then store (set_color BLACK) h o_right else Some h);
         h \<leftarrow> store (set_color RED) h other;
         (h, root) \<leftarrow> rb_rotate_left h other root;
         other \<leftarrow> deref rb_left h parent;
         Some (h, root, other) }
       else Some (h, root, other));
     pc \<leftarrow> deref rb_color h parent;
     h \<leftarrow> store (set_color pc) h other;
     h \<leftarrow> store (set_color BLACK) h parent;
     ol \<leftarrow> deref rb_left h other;
     h \<leftarrow> (if ol \<noteq> NULL then store (set_color BLACK) h ol else Some h);
     rb_rotate_right h parent root }"

partial_function (option) rb_erase_loop ::
    "rb_heap \<Rightarrow> addr \<Rightarrow> addr \<Rightarrow> addr \<Rightarrow> (rb_heap \<times> addr \<times> addr) option" where
  "rb_erase_loop h node parent root = do {
     nb \<leftarrow> black_at h node;
     (if \<not> (nb \<and> node \<noteq> root) then Some (h, node, root)
      else do {
        pl \<leftarrow> deref rb_left h parent;
        (if pl = node then do {
           other \<leftarrow> deref rb_right h parent;
           oc \<leftarrow> deref rb_color h other;
           (h, root, other) \<leftarrow> (if oc = RED then do {
               h \<leftarrow> store (set_color BLACK) h other;
               h \<leftarrow> store (set_color RED) h parent;
               (h, root) \<leftarrow> rb_rotate_left h parent root;
               other \<leftarrow> deref rb_right h parent;
               Some (h, root, other) }
             else Some (h, root, other));
           ol \<leftarrow> deref rb_left h other;
           lb \<leftarrow> black_at h ol;
           orr \<leftarrow> deref rb_right h other;
           rb \<leftarrow> black_at h orr;
           (if lb \<and> rb then do {
              h \<leftarrow> store (set_color RED) h other;
              gp \<leftarrow> deref rb_parent h parent;
              rb_erase_loop h parent gp root }
            else do {
              (h, root) \<leftarrow> rb_erase_finish_left h parent other root;
              Some (h, root, root) }) }
         else do {
           other \<leftarrow> deref rb_left h parent;
           oc \<leftarrow> deref rb_color h other;
           (h, root, other) \<leftarrow> (if oc = RED then do {
               h \<leftarrow> store (set_color BLACK) h other;
               h \<leftarrow> store (set_color RED) h parent;
               (h, root) \<leftarrow> rb_rotate_right h parent root;
               other \<leftarrow> deref rb_left h parent;
               Some (h, root, other) }
             else Some (h, root, other));
           ol \<leftarrow> deref rb_left h other;
           lb \<leftarrow> black_at h ol;
           orr \<leftarrow> deref rb_right h other;
           rb \<leftarrow> black_at h orr;
           (if lb \<and> rb then do {
              h \<leftarrow> store (set_color RED) h other;
              gp \<leftarrow> deref rb_parent h parent;
              rb_erase_loop h parent gp root }
            else do {
              (h, root) \<leftarrow> rb_erase_finish_right h parent other root;
              Some (h, root, root) }) }) }) }"

definition rb_erase_rebalance ::
    "rb_heap \<Rightarrow> addr \<Rightarrow> addr \<Rightarrow> addr \<Rightarrow> (rb_heap \<times> addr) option" where
  "rb_erase_rebalance h node parent root = do {
     (h, node, root) \<leftarrow> rb_erase_loop h node parent root;
     h \<leftarrow> (if node \<noteq> NULL then store (set_color BLACK) h node else Some h);
     Some (h, root) }"

text \<open>
  \<open>rb_leftmost\<close> is the loop that walks to the successor, \<open>rb_replace_child\<close> the
  statement group \<^verbatim>\<open>if (parent) { if (parent->left == node) ... } else root = child\<close> that
  \<open>rb_erase\<close> contains three times.
\<close>

partial_function (option) rb_leftmost :: "rb_heap \<Rightarrow> addr \<Rightarrow> addr option" where
  "rb_leftmost h node = do {
     left \<leftarrow> deref rb_left h node;
     (if left \<noteq> NULL then rb_leftmost h left else Some node) }"

definition rb_replace_child ::
    "rb_heap \<Rightarrow> addr \<Rightarrow> addr \<Rightarrow> addr \<Rightarrow> addr \<Rightarrow> (rb_heap \<times> addr) option" where
  "rb_replace_child h parent node child root =
     (if parent \<noteq> NULL then do {
        pl \<leftarrow> deref rb_left h parent;
        h \<leftarrow> (if pl = node then store (set_left child) h parent
              else store (set_right child) h parent);
        Some (h, root) }
      else Some (h, child))"

text \<open>The branch of \<open>rb_erase\<close> for a node with two children: the successor takes its place.\<close>

definition rb_erase_two ::
    "rb_heap \<Rightarrow> addr \<Rightarrow> addr \<Rightarrow> (rb_heap \<times> addr \<times> addr \<times> color_t \<times> addr) option" where
  "rb_erase_two h old root = do {
     r \<leftarrow> deref rb_right h old;
     node \<leftarrow> rb_leftmost h r;
     child \<leftarrow> deref rb_right h node;
     parent \<leftarrow> deref rb_parent h node;
     color \<leftarrow> deref rb_color h node;
     h \<leftarrow> (if child \<noteq> NULL then store (set_parent parent) h child else Some h);
     (h, root) \<leftarrow> rb_replace_child h parent node child root;
     np \<leftarrow> deref rb_parent h node;
     parent \<leftarrow> Some (if np = old then node else parent);
     op \<leftarrow> deref rb_parent h old;
     h \<leftarrow> store (set_parent op) h node;
     oc \<leftarrow> deref rb_color h old;
     h \<leftarrow> store (set_color oc) h node;
     orr \<leftarrow> deref rb_right h old;
     h \<leftarrow> store (set_right orr) h node;
     ol \<leftarrow> deref rb_left h old;
     h \<leftarrow> store (set_left ol) h node;
     (h, root) \<leftarrow> rb_replace_child h op old node root;
     ol \<leftarrow> deref rb_left h old;
     h \<leftarrow> store (set_parent node) h ol;
     orr \<leftarrow> deref rb_right h old;
     h \<leftarrow> (if orr \<noteq> NULL then store (set_parent node) h orr else Some h);
     Some (h, child, parent, color, root) }"

text \<open>The other branch: the node has at most one child, which takes its place.\<close>

definition rb_erase_one ::
    "rb_heap \<Rightarrow> addr \<Rightarrow> addr \<Rightarrow> (rb_heap \<times> addr \<times> addr \<times> color_t \<times> addr) option" where
  "rb_erase_one h node root = do {
     l \<leftarrow> deref rb_left h node;
     r \<leftarrow> deref rb_right h node;
     child \<leftarrow> Some (if l = NULL then r else l);
     parent \<leftarrow> deref rb_parent h node;
     color \<leftarrow> deref rb_color h node;
     h \<leftarrow> (if child \<noteq> NULL then store (set_parent parent) h child else Some h);
     (h, root) \<leftarrow> rb_replace_child h parent node child root;
     Some (h, child, parent, color, root) }"

definition rb_erase :: "rb_heap \<Rightarrow> int \<Rightarrow> addr \<Rightarrow> (rb_heap \<times> addr) option" where
  "rb_erase h key root = do {
     (node, _) \<leftarrow> rb_search_auxiliary h key root None;
     (if node = NULL then Some (h, root)
      else do {
        l \<leftarrow> deref rb_left h node;
        r \<leftarrow> deref rb_right h node;
        (h, child, parent, color, root) \<leftarrow>
          (if l \<noteq> NULL \<and> r \<noteq> NULL then rb_erase_two h node root
           else rb_erase_one h node root);
        h \<leftarrow> c_free h node;
        (if color = BLACK then rb_erase_rebalance h child parent root
         else Some (h, root)) }) }"

end
