(* ===== verification/RB_Tree.thy ===== *)
theory RB_Tree
  imports RB_Heap
begin

text \<open>
  The abstract side of the red-black tree: finite trees whose nodes remember the address
  they are stored at, one-hole contexts (the path from a node up to the root, as the
  rebalancing loops climb it), the search-tree and colour invariants, and the
  representation predicate that ties a heap to a tree.
\<close>

section \<open>Trees and contexts\<close>

datatype rbt = Leaf | Node addr color_t rbt int int rbt

datatype crumb =
    LeftHole addr color_t int int rbt
  | RightHole addr color_t rbt int int

fun plug :: "rbt \<Rightarrow> crumb list \<Rightarrow> rbt" where
  "plug t [] = t"
| "plug t (LeftHole a c k d r # cs) = plug (Node a c t k d r) cs"
| "plug t (RightHole a c l k d # cs) = plug (Node a c l k d t) cs"

fun root_of :: "rbt \<Rightarrow> addr" where
  "root_of Leaf = NULL"
| "root_of (Node a c l k d r) = a"

fun ctx_addr :: "crumb list \<Rightarrow> addr" where
  "ctx_addr [] = NULL"
| "ctx_addr (LeftHole a c k d r # cs) = a"
| "ctx_addr (RightHole a c l k d # cs) = a"

fun addrs :: "rbt \<Rightarrow> addr list" where
  "addrs Leaf = []"
| "addrs (Node a c l k d r) = a # addrs l @ addrs r"

fun ctx_addrs :: "crumb list \<Rightarrow> addr list" where
  "ctx_addrs [] = []"
| "ctx_addrs (LeftHole a c k d r # cs) = a # addrs r @ ctx_addrs cs"
| "ctx_addrs (RightHole a c l k d # cs) = a # addrs l @ ctx_addrs cs"

fun inorder :: "rbt \<Rightarrow> (int \<times> int) list" where
  "inorder Leaf = []"
| "inorder (Node a c l k d r) = inorder l @ (k, d) # inorder r"

fun ctx_before :: "crumb list \<Rightarrow> (int \<times> int) list" where
  "ctx_before [] = []"
| "ctx_before (LeftHole a c k d r # cs) = ctx_before cs"
| "ctx_before (RightHole a c l k d # cs) = ctx_before cs @ inorder l @ [(k, d)]"

fun ctx_after :: "crumb list \<Rightarrow> (int \<times> int) list" where
  "ctx_after [] = []"
| "ctx_after (LeftHole a c k d r # cs) = (k, d) # inorder r @ ctx_after cs"
| "ctx_after (RightHole a c l k d # cs) = ctx_after cs"

lemma plug_append: "plug t (cs @ ds) = plug (plug t cs) ds"
  by (induction t cs rule: plug.induct) auto

lemma plug_eq_Leaf [simp]: "plug t cs = Leaf \<longleftrightarrow> cs = [] \<and> t = Leaf"
  by (induction t cs rule: plug.induct) auto

lemma inorder_plug [simp]: "inorder (plug t cs) = ctx_before cs @ inorder t @ ctx_after cs"
  by (induction t cs rule: plug.induct) auto

lemma mset_addrs_plug: "mset (addrs (plug t cs)) = mset (addrs t) + mset (ctx_addrs cs)"
  by (induction t cs rule: plug.induct) auto

lemma set_addrs_plug [simp]: "set (addrs (plug t cs)) = set (addrs t) \<union> set (ctx_addrs cs)"
  using mset_eq_setD [of "addrs (plug t cs)" "addrs t @ ctx_addrs cs"] mset_addrs_plug [of t cs]
  by simp

lemma distinct_addrs_plug [simp]:
  "distinct (addrs (plug t cs)) \<longleftrightarrow>
     distinct (addrs t) \<and> distinct (ctx_addrs cs) \<and> set (addrs t) \<inter> set (ctx_addrs cs) = {}"
  using mset_eq_imp_distinct_iff [of "addrs (plug t cs)" "addrs t @ ctx_addrs cs"]
    mset_addrs_plug [of t cs]
  by simp

lemma ctx_addrs_append [simp]: "ctx_addrs (cs @ ds) = ctx_addrs cs @ ctx_addrs ds"
  by (induction cs rule: ctx_addrs.induct) auto

lemma ctx_before_append: "ctx_before (cs @ ds) = ctx_before ds @ ctx_before cs"
  by (induction cs rule: ctx_before.induct) auto

lemma ctx_after_append: "ctx_after (cs @ ds) = ctx_after cs @ ctx_after ds"
  by (induction cs rule: ctx_after.induct) auto

section \<open>Invariants\<close>

fun color_of :: "rbt \<Rightarrow> color_t" where
  "color_of Leaf = BLACK"
| "color_of (Node a c l k d r) = c"

fun bheight :: "rbt \<Rightarrow> nat" where
  "bheight Leaf = 0"
| "bheight (Node a c l k d r) = (if c = BLACK then bheight l + 1 else bheight l)"

fun invc :: "rbt \<Rightarrow> bool" where
  "invc Leaf = True"
| "invc (Node a c l k d r) =
     ((c = RED \<longrightarrow> color_of l = BLACK \<and> color_of r = BLACK) \<and> invc l \<and> invc r)"

fun invh :: "rbt \<Rightarrow> bool" where
  "invh Leaf = True"
| "invh (Node a c l k d r) = (bheight l = bheight r \<and> invh l \<and> invh r)"

definition rb_inv :: "rbt \<Rightarrow> bool" where
  "rb_inv t \<longleftrightarrow> invc t \<and> invh t \<and> color_of t = BLACK"

fun ctx_invc :: "color_t \<Rightarrow> crumb list \<Rightarrow> bool" where
  "ctx_invc hc [] = True"
| "ctx_invc hc (LeftHole a c k d r # cs) =
     ((c = RED \<longrightarrow> hc = BLACK \<and> color_of r = BLACK) \<and> invc r \<and> ctx_invc c cs)"
| "ctx_invc hc (RightHole a c l k d # cs) =
     ((c = RED \<longrightarrow> color_of l = BLACK \<and> hc = BLACK) \<and> invc l \<and> ctx_invc c cs)"

fun ctx_invh :: "nat \<Rightarrow> crumb list \<Rightarrow> bool" where
  "ctx_invh n [] = True"
| "ctx_invh n (LeftHole a c k d r # cs) =
     (n = bheight r \<and> invh r \<and> ctx_invh (if c = BLACK then n + 1 else n) cs)"
| "ctx_invh n (RightHole a c l k d # cs) =
     (bheight l = n \<and> invh l \<and> ctx_invh (if c = BLACK then n + 1 else n) cs)"

fun ctx_color :: "color_t \<Rightarrow> crumb list \<Rightarrow> color_t" where
  "ctx_color hc [] = hc"
| "ctx_color hc (LeftHole a c k d r # cs) = ctx_color c cs"
| "ctx_color hc (RightHole a c l k d # cs) = ctx_color c cs"

lemma invc_plug [simp]: "invc (plug t cs) \<longleftrightarrow> invc t \<and> ctx_invc (color_of t) cs"
  by (induction t cs rule: plug.induct) auto

lemma invh_plug [simp]: "invh (plug t cs) \<longleftrightarrow> invh t \<and> ctx_invh (bheight t) cs"
  by (induction t cs rule: plug.induct) auto

lemma color_of_plug [simp]: "color_of (plug t cs) = ctx_color (color_of t) cs"
  by (induction t cs rule: plug.induct) auto

lemma color_neq [simp]: "c \<noteq> BLACK \<longleftrightarrow> c = RED" "c \<noteq> RED \<longleftrightarrow> c = BLACK"
  by (cases c; simp)+

lemma ctx_color_cong: "cs \<noteq> [] \<Longrightarrow> ctx_color c cs = ctx_color c' cs"
  by (cases "(c, cs)" rule: ctx_color.cases) auto

lemma ctx_invc_mono: "ctx_invc RED cs \<Longrightarrow> ctx_invc c cs"
  by (cases cs rule: ctx_addr.cases) auto

definition bst :: "rbt \<Rightarrow> bool" where
  "bst t \<longleftrightarrow> sorted_wrt (<) (map fst (inorder t))"

definition keys :: "rbt \<Rightarrow> int set" where
  "keys t = fst ` set (inorder t)"

definition rbt_map :: "rbt \<Rightarrow> int \<rightharpoonup> int" where
  "rbt_map t = map_of (inorder t)"

lemma bst_Node:
  "bst (Node a c l k d r) \<longleftrightarrow>
     bst l \<and> bst r \<and> (\<forall>x \<in> keys l. x < k) \<and> (\<forall>x \<in> keys r. k < x)"
  by (auto simp: bst_def keys_def sorted_wrt_append) (metis fst_conv less_trans)

lemma keys_simps [simp]:
  "keys Leaf = {}" "keys (Node a c l k d r) = insert k (keys l \<union> keys r)"
  by (auto simp: keys_def)

lemma dom_rbt_map: "dom (rbt_map t) = keys t"
  by (simp add: rbt_map_def keys_def dom_map_of_conv_image_fst)

section \<open>Representation\<close>

fun heap_tree :: "rb_heap \<Rightarrow> addr \<Rightarrow> rbt \<Rightarrow> bool" where
  "heap_tree h p Leaf = True"
| "heap_tree h p (Node a c l k d r) =
     (a \<noteq> NULL \<and>
      h a = Some \<lparr>rb_left = root_of l, rb_right = root_of r, rb_parent = p,
                  rb_key = k, rb_data = d, rb_color = c\<rparr> \<and>
      heap_tree h a l \<and> heap_tree h a r)"

fun heap_ctx :: "rb_heap \<Rightarrow> addr \<Rightarrow> crumb list \<Rightarrow> bool" where
  "heap_ctx h q [] = True"
| "heap_ctx h q (LeftHole a c k d r # cs) =
     (a \<noteq> NULL \<and>
      h a = Some \<lparr>rb_left = q, rb_right = root_of r, rb_parent = ctx_addr cs,
                  rb_key = k, rb_data = d, rb_color = c\<rparr> \<and>
      heap_tree h a r \<and> heap_ctx h a cs)"
| "heap_ctx h q (RightHole a c l k d # cs) =
     (a \<noteq> NULL \<and>
      h a = Some \<lparr>rb_left = root_of l, rb_right = q, rb_parent = ctx_addr cs,
                  rb_key = k, rb_data = d, rb_color = c\<rparr> \<and>
      heap_tree h a l \<and> heap_ctx h a cs)"

text \<open>A heap and a root pointer hold the tree \<open>t\<close>: the relation the theorems speak about.\<close>

definition rb_rep :: "rb_heap \<Rightarrow> addr \<Rightarrow> rbt \<Rightarrow> bool" where
  "rb_rep h root t \<longleftrightarrow> root = root_of t \<and> heap_tree h NULL t \<and> distinct (addrs t)"

lemma heap_tree_plug [simp]:
  "heap_tree h NULL (plug t cs) \<longleftrightarrow> heap_tree h (ctx_addr cs) t \<and> heap_ctx h (root_of t) cs"
  by (induction t cs rule: plug.induct) auto

lemma heap_tree_upd [simp]:
  "x \<notin> set (addrs t) \<Longrightarrow> heap_tree (h(x := v)) p t = heap_tree h p t"
  by (induction h p t rule: heap_tree.induct) auto

lemma heap_ctx_upd [simp]:
  "x \<notin> set (ctx_addrs cs) \<Longrightarrow> heap_ctx (h(x := v)) q cs = heap_ctx h q cs"
  by (induction h q cs rule: heap_ctx.induct) auto

lemma root_of_in: "t \<noteq> Leaf \<Longrightarrow> root_of t \<in> set (addrs t)"
  by (cases t) auto

lemma heap_tree_NULL: "heap_tree h p t \<Longrightarrow> NULL \<notin> set (addrs t)"
  by (induction h p t rule: heap_tree.induct) auto

lemma heap_ctx_NULL: "heap_ctx h q cs \<Longrightarrow> NULL \<notin> set (ctx_addrs cs)"
  by (induction h q cs rule: heap_ctx.induct) (auto dest: heap_tree_NULL)

lemma root_of_NULL: "heap_tree h p t \<Longrightarrow> root_of t = NULL \<longleftrightarrow> t = Leaf"
  by (cases t) auto

lemma ctx_addr_NULL: "heap_ctx h q cs \<Longrightarrow> ctx_addr cs = NULL \<longleftrightarrow> cs = []"
  by (cases cs rule: ctx_addr.cases) auto

lemma heap_tree_live: "heap_tree h p t \<Longrightarrow> a \<in> set (addrs t) \<Longrightarrow> h a \<noteq> None"
  by (induction h p t rule: heap_tree.induct) auto

lemma heap_ctx_live: "heap_ctx h q cs \<Longrightarrow> a \<in> set (ctx_addrs cs) \<Longrightarrow> h a \<noteq> None"
  by (induction h q cs rule: heap_ctx.induct) (auto dest: heap_tree_live)

text \<open>The root of a plugged tree depends on the hole only for the empty context.\<close>

fun ctx_root :: "addr \<Rightarrow> crumb list \<Rightarrow> addr" where
  "ctx_root q [] = q"
| "ctx_root q (LeftHole a c k d r # cs) = ctx_root a cs"
| "ctx_root q (RightHole a c l k d # cs) = ctx_root a cs"

lemma root_of_plug [simp]: "root_of (plug t cs) = ctx_root (root_of t) cs"
  by (induction t cs rule: plug.induct) auto

end
