(* ===== verification/RB_Insert.thy ===== *)
theory RB_Insert
  imports RB_Rotate
begin

text \<open>
  Correctness of \<open>rb_search\<close> and \<open>rb_insert\<close>: the descent finds the key or the leaf it
  belongs at, the rebalancing loop ends and restores the colour invariant, and the map the
  tree stands for is extended by the new pair.
\<close>

section \<open>The rebalancing loop, one iteration\<close>

lemma rb_insert_loop_done:
  assumes "deref rb_parent h a = Some p" and "red_at h p = Some False"
  shows "rb_insert_loop h a root = Some (h, root)"
  using assms by (subst rb_insert_loop.simps) simp

lemma rb_insert_loop_recolor_left:
  assumes rep: "rb_rep h root (plug (Node g gc (Node p RED pl pk pd pr) gk gd (Node u RED ul uk ud ur)) cs)"
    and par: "deref rb_parent h a = Some p"
  defines "t \<equiv> plug (Node g gc (Node p RED pl pk pd pr) gk gd (Node u RED ul uk ud ur)) cs"
    and "t' \<equiv> plug (Node g RED (Node p BLACK pl pk pd pr) gk gd (Node u BLACK ul uk ud ur)) cs"
  shows "\<exists>h'. rb_insert_loop h a root = rb_insert_loop h' g (root_of t') \<and> evolves h t h' t'"
proof -
  let ?P = "\<lambda>c. Node p c pl pk pd pr" and ?U = "\<lambda>c. Node u c ul uk ud ur"
  have rp: "rb_rep h root (plug (?P RED) (LeftHole g gc gk gd (?U RED) # cs))"
    and ru: "rb_rep h root (plug (?U RED) (RightHole g gc (?P RED) gk gd # cs))"
    using rep by simp_all
  obtain h1 where h1: "store (set_color BLACK) h u = Some h1"
    "evolves h t h1 (plug (?U BLACK) (RightHole g gc (?P RED) gk gd # cs))"
    using set_color_ok [OF ru, of BLACK] unfolding t_def by auto
  obtain h2 where h2: "store (set_color BLACK) h1 p = Some h2"
    "evolves h1 (plug (?U BLACK) (RightHole g gc (?P RED) gk gd # cs)) h2
       (plug (Node g gc (?P BLACK) gk gd (?U BLACK)) cs)"
    using set_color_ok [of h1 _ p RED pl pk pd pr "LeftHole g gc gk gd (?U BLACK) # cs" BLACK]
      evolves_rep [OF h1(2)] by auto
  obtain h3 where h3: "store (set_color RED) h2 g = Some h3"
    "evolves h2 (plug (Node g gc (?P BLACK) gk gd (?U BLACK)) cs) h3 t'"
    using set_color_ok [OF evolves_rep [OF h2(2)], of RED] unfolding t'_def by auto
  have "evolves h t h3 t'"
    using h1(2) h2(2) h3(2) by (blast intro: evolves_trans)
  moreover have "root = root_of t'"
    using rb_rep_root [OF rep] by (simp add: t'_def)
  ultimately show ?thesis
    using rb_rep_deref [OF rp] rb_rep_deref [OF rep] rb_rep_red_at [OF rp] rb_rep_red_at [OF ru]
      par h1(1) h2(1) h3(1)
    by (subst rb_insert_loop.simps) auto
qed

lemma rb_insert_loop_recolor_right:
  assumes rep: "rb_rep h root (plug (Node g gc (Node u RED ul uk ud ur) gk gd (Node p RED pl pk pd pr)) cs)"
    and par: "deref rb_parent h a = Some p"
  defines "t \<equiv> plug (Node g gc (Node u RED ul uk ud ur) gk gd (Node p RED pl pk pd pr)) cs"
    and "t' \<equiv> plug (Node g RED (Node u BLACK ul uk ud ur) gk gd (Node p BLACK pl pk pd pr)) cs"
  shows "\<exists>h'. rb_insert_loop h a root = rb_insert_loop h' g (root_of t') \<and> evolves h t h' t'"
proof -
  let ?P = "\<lambda>c. Node p c pl pk pd pr" and ?U = "\<lambda>c. Node u c ul uk ud ur"
  have rp: "rb_rep h root (plug (?P RED) (RightHole g gc (?U RED) gk gd # cs))"
    and ru: "rb_rep h root (plug (?U RED) (LeftHole g gc gk gd (?P RED) # cs))"
    using rep by simp_all
  have neq: "p \<noteq> u"
    using rep by (simp add: rb_rep_plug)
  obtain h1 where h1: "store (set_color BLACK) h u = Some h1"
    "evolves h t h1 (plug (?U BLACK) (LeftHole g gc gk gd (?P RED) # cs))"
    using set_color_ok [OF ru, of BLACK] unfolding t_def by auto
  obtain h2 where h2: "store (set_color BLACK) h1 p = Some h2"
    "evolves h1 (plug (?U BLACK) (LeftHole g gc gk gd (?P RED) # cs)) h2
       (plug (Node g gc (?U BLACK) gk gd (?P BLACK)) cs)"
    using set_color_ok [of h1 _ p RED pl pk pd pr "RightHole g gc (?U BLACK) gk gd # cs" BLACK]
      evolves_rep [OF h1(2)] by auto
  obtain h3 where h3: "store (set_color RED) h2 g = Some h3"
    "evolves h2 (plug (Node g gc (?U BLACK) gk gd (?P BLACK)) cs) h3 t'"
    using set_color_ok [OF evolves_rep [OF h2(2)], of RED] unfolding t'_def by auto
  have "evolves h t h3 t'"
    using h1(2) h2(2) h3(2) by (blast intro: evolves_trans)
  moreover have "root = root_of t'"
    using rb_rep_root [OF rep] by (simp add: t'_def)
  ultimately show ?thesis
    using rb_rep_deref [OF rp] rb_rep_deref [OF rep] rb_rep_red_at [OF rp] rb_rep_red_at [OF ru]
      par h1(1) h2(1) h3(1) neq
    by (subst rb_insert_loop.simps) auto
qed

text \<open>
  The last rotation of the loop, with the parent already the outer child: the parent
  becomes black, the grandparent red, and the loop is left at the next test.
\<close>

lemma insert_final_right:
  assumes rep: "rb_rep h root (plug (Node g gc (Node p RED (Node a ac al ak ad ar) pk pd pr) gk gd u) cs)"
  defines "t \<equiv> plug (Node g gc (Node p RED (Node a ac al ak ad ar) pk pd pr) gk gd u) cs"
    and "t' \<equiv> plug (Node p BLACK (Node a ac al ak ad ar) pk pd (Node g RED pr gk gd u)) cs"
  shows "\<exists>h'. do {
       h \<leftarrow> store (set_color BLACK) h p;
       h \<leftarrow> store (set_color RED) h g;
       (h, root) \<leftarrow> rb_rotate_right h g root;
       rb_insert_loop h a root } = Some (h', root_of t') \<and> evolves h t h' t'"
proof -
  let ?A = "Node a ac al ak ad ar"
  let ?P = "\<lambda>c. Node p c ?A pk pd pr"
  have rp: "rb_rep h root (plug (?P RED) (LeftHole g gc gk gd u # cs))"
    using rep by simp
  obtain h1 where h1: "store (set_color BLACK) h p = Some h1"
    "evolves h t h1 (plug (Node g gc (?P BLACK) gk gd u) cs)"
    using set_color_ok [OF rp, of BLACK] unfolding t_def by auto
  obtain h2 where h2: "store (set_color RED) h1 g = Some h2"
    "evolves h1 (plug (Node g gc (?P BLACK) gk gd u) cs) h2 (plug (Node g RED (?P BLACK) gk gd u) cs)"
    using set_color_ok [OF evolves_rep [OF h1(2)], of RED] by auto
  have root: "root_of (plug (Node g RED (?P BLACK) gk gd u) cs) = root"
    using rb_rep_root [OF rep] by simp
  obtain h3 where h3: "rb_rotate_right h2 g root = Some (h3, root_of t')"
    "evolves h2 (plug (Node g RED (?P BLACK) gk gd u) cs) h3 t'"
    using rb_rotate_right_ok [OF evolves_rep [OF h2(2)]] root unfolding t'_def by auto
  have ra: "rb_rep h3 (root_of t') (plug ?A (LeftHole p BLACK pk pd (Node g RED pr gk gd u) # cs))"
    and rq: "rb_rep h3 (root_of t') (plug (Node p BLACK ?A pk pd (Node g RED pr gk gd u)) cs)"
    using evolves_rep [OF h3(2)] by (simp_all add: t'_def)
  have "rb_insert_loop h3 a (root_of t') = Some (h3, root_of t')"
    using rb_rep_deref(3) [OF ra] rb_rep_red_at [OF rq] by (intro rb_insert_loop_done) simp_all
  with h1 h2 h3 show ?thesis
    by (auto intro: evolves_trans)
qed

lemma insert_final_left:
  assumes rep: "rb_rep h root (plug (Node g gc u gk gd (Node p RED pl pk pd (Node a ac al ak ad ar))) cs)"
  defines "t \<equiv> plug (Node g gc u gk gd (Node p RED pl pk pd (Node a ac al ak ad ar))) cs"
    and "t' \<equiv> plug (Node p BLACK (Node g RED u gk gd pl) pk pd (Node a ac al ak ad ar)) cs"
  shows "\<exists>h'. do {
       h \<leftarrow> store (set_color BLACK) h p;
       h \<leftarrow> store (set_color RED) h g;
       (h, root) \<leftarrow> rb_rotate_left h g root;
       rb_insert_loop h a root } = Some (h', root_of t') \<and> evolves h t h' t'"
proof -
  let ?A = "Node a ac al ak ad ar"
  let ?P = "\<lambda>c. Node p c pl pk pd ?A"
  have rp: "rb_rep h root (plug (?P RED) (RightHole g gc u gk gd # cs))"
    using rep by simp
  obtain h1 where h1: "store (set_color BLACK) h p = Some h1"
    "evolves h t h1 (plug (Node g gc u gk gd (?P BLACK)) cs)"
    using set_color_ok [OF rp, of BLACK] unfolding t_def by auto
  obtain h2 where h2: "store (set_color RED) h1 g = Some h2"
    "evolves h1 (plug (Node g gc u gk gd (?P BLACK)) cs) h2 (plug (Node g RED u gk gd (?P BLACK)) cs)"
    using set_color_ok [OF evolves_rep [OF h1(2)], of RED] by auto
  have root: "root_of (plug (Node g RED u gk gd (?P BLACK)) cs) = root"
    using rb_rep_root [OF rep] by simp
  obtain h3 where h3: "rb_rotate_left h2 g root = Some (h3, root_of t')"
    "evolves h2 (plug (Node g RED u gk gd (?P BLACK)) cs) h3 t'"
    using rb_rotate_left_ok [OF evolves_rep [OF h2(2)]] root unfolding t'_def by auto
  have ra: "rb_rep h3 (root_of t') (plug ?A (RightHole p BLACK (Node g RED u gk gd pl) pk pd # cs))"
    and rq: "rb_rep h3 (root_of t') (plug (Node p BLACK (Node g RED u gk gd pl) pk pd ?A) cs)"
    using evolves_rep [OF h3(2)] by (simp_all add: t'_def)
  have "rb_insert_loop h3 a (root_of t') = Some (h3, root_of t')"
    using rb_rep_deref(3) [OF ra] rb_rep_red_at [OF rq] by (intro rb_insert_loop_done) simp_all
  with h1 h2 h3 show ?thesis
    by (auto intro: evolves_trans)
qed

lemma rb_insert_loop_outer_left:
  assumes rep: "rb_rep h root (plug (Node g gc (Node p RED (Node a RED al ak ad ar) pk pd pr) gk gd u) cs)"
    and u: "color_of u = BLACK"
  defines "t \<equiv> plug (Node g gc (Node p RED (Node a RED al ak ad ar) pk pd pr) gk gd u) cs"
    and "t' \<equiv> plug (Node p BLACK (Node a RED al ak ad ar) pk pd (Node g RED pr gk gd u)) cs"
  shows "\<exists>h'. rb_insert_loop h a root = Some (h', root_of t') \<and> evolves h t h' t'"
proof -
  let ?A = "Node a RED al ak ad ar"
  have ra: "rb_rep h root (plug ?A (LeftHole p RED pk pd pr # LeftHole g gc gk gd u # cs))"
    and rp: "rb_rep h root (plug (Node p RED ?A pk pd pr) (LeftHole g gc gk gd u # cs))"
    and ru: "rb_rep h root (plug u (RightHole g gc (Node p RED ?A pk pd pr) gk gd # cs))"
    using rep by simp_all
  have "root_of pr \<noteq> a"
    using rep by (simp add: rb_rep_plug)
  moreover obtain h' where "do {
       h \<leftarrow> store (set_color BLACK) h p;
       h \<leftarrow> store (set_color RED) h g;
       (h, root) \<leftarrow> rb_rotate_right h g root;
       rb_insert_loop h a root } = Some (h', root_of t')" "evolves h t h' t'"
    using insert_final_right [OF rep] unfolding t_def t'_def by blast
  ultimately show ?thesis
    using rb_rep_deref [OF ra] rb_rep_deref [OF rp] rb_rep_deref [OF rep]
      rb_rep_red_at [OF rp] rb_rep_red_at [OF ru] u
    by (subst rb_insert_loop.simps) simp
qed

lemma rb_insert_loop_outer_right:
  assumes rep: "rb_rep h root (plug (Node g gc u gk gd (Node p RED pl pk pd (Node a RED al ak ad ar))) cs)"
    and u: "color_of u = BLACK"
  defines "t \<equiv> plug (Node g gc u gk gd (Node p RED pl pk pd (Node a RED al ak ad ar))) cs"
    and "t' \<equiv> plug (Node p BLACK (Node g RED u gk gd pl) pk pd (Node a RED al ak ad ar)) cs"
  shows "\<exists>h'. rb_insert_loop h a root = Some (h', root_of t') \<and> evolves h t h' t'"
proof -
  let ?A = "Node a RED al ak ad ar"
  have ra: "rb_rep h root (plug ?A (RightHole p RED pl pk pd # RightHole g gc u gk gd # cs))"
    and rp: "rb_rep h root (plug (Node p RED pl pk pd ?A) (RightHole g gc u gk gd # cs))"
    and ru: "rb_rep h root (plug u (LeftHole g gc gk gd (Node p RED pl pk pd ?A) # cs))"
    using rep by simp_all
  have "root_of pl \<noteq> a" "p \<noteq> root_of u"
    using rep by (auto simp: rb_rep_plug)
  moreover obtain h' where "do {
       h \<leftarrow> store (set_color BLACK) h p;
       h \<leftarrow> store (set_color RED) h g;
       (h, root) \<leftarrow> rb_rotate_left h g root;
       rb_insert_loop h a root } = Some (h', root_of t')" "evolves h t h' t'"
    using insert_final_left [OF rep] unfolding t_def t'_def by blast
  ultimately show ?thesis
    using rb_rep_deref [OF ra] rb_rep_deref [OF rp] rb_rep_deref [OF rep]
      rb_rep_red_at [OF rp] rb_rep_red_at [OF ru] u
    by (subst rb_insert_loop.simps) simp
qed

lemma rb_insert_loop_inner_left:
  assumes rep: "rb_rep h root (plug (Node g gc (Node p RED pl pk pd (Node a RED al ak ad ar)) gk gd u) cs)"
    and u: "color_of u = BLACK"
  defines "t \<equiv> plug (Node g gc (Node p RED pl pk pd (Node a RED al ak ad ar)) gk gd u) cs"
    and "t' \<equiv> plug (Node a BLACK (Node p RED pl pk pd al) ak ad (Node g RED ar gk gd u)) cs"
  shows "\<exists>h'. rb_insert_loop h a root = Some (h', root_of t') \<and> evolves h t h' t'"
proof -
  let ?A = "Node a RED al ak ad ar"
  let ?t1 = "plug (Node g gc (Node a RED (Node p RED pl pk pd al) ak ad ar) gk gd u) cs"
  have ra: "rb_rep h root (plug ?A (RightHole p RED pl pk pd # LeftHole g gc gk gd u # cs))"
    and rp: "rb_rep h root (plug (Node p RED pl pk pd ?A) (LeftHole g gc gk gd u # cs))"
    and ru: "rb_rep h root (plug u (RightHole g gc (Node p RED pl pk pd ?A) gk gd # cs))"
    using rep by simp_all
  obtain h0 where h0: "rb_rotate_left h p root = Some (h0, root_of ?t1)" "evolves h t h0 ?t1"
    using rb_rotate_left_ok [OF rp] by (auto simp: t_def)
  moreover obtain h' where "do {
       h \<leftarrow> store (set_color BLACK) h0 a;
       h \<leftarrow> store (set_color RED) h g;
       (h, root) \<leftarrow> rb_rotate_right h g (root_of ?t1);
       rb_insert_loop h p root } = Some (h', root_of t')" and h': "evolves h0 ?t1 h' t'"
    using insert_final_right [OF evolves_rep [OF h0(2)]] unfolding t'_def by blast
  moreover have "evolves h t h' t'"
    using h0(2) h' by (rule evolves_trans)
  ultimately show ?thesis
    using rb_rep_deref [OF ra] rb_rep_deref [OF rp] rb_rep_deref [OF rep]
      rb_rep_red_at [OF rp] rb_rep_red_at [OF ru] u
    by (subst rb_insert_loop.simps) simp
qed

lemma rb_insert_loop_inner_right:
  assumes rep: "rb_rep h root (plug (Node g gc u gk gd (Node p RED (Node a RED al ak ad ar) pk pd pr)) cs)"
    and u: "color_of u = BLACK"
  defines "t \<equiv> plug (Node g gc u gk gd (Node p RED (Node a RED al ak ad ar) pk pd pr)) cs"
    and "t' \<equiv> plug (Node a BLACK (Node g RED u gk gd al) ak ad (Node p RED ar pk pd pr)) cs"
  shows "\<exists>h'. rb_insert_loop h a root = Some (h', root_of t') \<and> evolves h t h' t'"
proof -
  let ?A = "Node a RED al ak ad ar"
  let ?t1 = "plug (Node g gc u gk gd (Node a RED al ak ad (Node p RED ar pk pd pr))) cs"
  have ra: "rb_rep h root (plug ?A (LeftHole p RED pk pd pr # RightHole g gc u gk gd # cs))"
    and rp: "rb_rep h root (plug (Node p RED ?A pk pd pr) (RightHole g gc u gk gd # cs))"
    and ru: "rb_rep h root (plug u (LeftHole g gc gk gd (Node p RED ?A pk pd pr) # cs))"
    using rep by simp_all
  have "p \<noteq> root_of u"
    using rep by (auto simp: rb_rep_plug)
  moreover obtain h0 where h0: "rb_rotate_right h p root = Some (h0, root_of ?t1)" "evolves h t h0 ?t1"
    using rb_rotate_right_ok [OF rp] by (auto simp: t_def)
  moreover obtain h' where "do {
       h \<leftarrow> store (set_color BLACK) h0 a;
       h \<leftarrow> store (set_color RED) h g;
       (h, root) \<leftarrow> rb_rotate_left h g (root_of ?t1);
       rb_insert_loop h p root } = Some (h', root_of t')" and h': "evolves h0 ?t1 h' t'"
    using insert_final_left [OF evolves_rep [OF h0(2)]] unfolding t'_def by blast
  moreover have "evolves h t h' t'"
    using h0(2) h' by (rule evolves_trans)
  ultimately show ?thesis
    using rb_rep_deref [OF ra] rb_rep_deref [OF rp] rb_rep_deref [OF rep]
      rb_rep_red_at [OF rp] rb_rep_red_at [OF ru] u
    by (subst rb_insert_loop.simps) simp
qed

section \<open>The whole loop\<close>

text \<open>
  The loop invariant: only the edge from the red node \<open>a\<close> to its parent may break the
  colour rule, the black heights are balanced, and a parent exists only below a black root.
\<close>

definition ins_inv :: "rbt \<Rightarrow> crumb list \<Rightarrow> bool" where
  "ins_inv t cs \<longleftrightarrow>
     color_of t = RED \<and> invc t \<and> invh (plug t cs) \<and> ctx_invc BLACK cs \<and>
     (cs \<noteq> [] \<longrightarrow> ctx_color RED cs = BLACK)"

definition paint :: "color_t \<Rightarrow> rbt \<Rightarrow> rbt" where
  "paint c t = (case t of Leaf \<Rightarrow> Leaf | Node a _ l k d r \<Rightarrow> Node a c l k d r)"

lemma paint_simps [simp]:
  "paint c Leaf = Leaf" "paint c (Node a c' l k d r) = Node a c l k d r"
  by (simp_all add: paint_def)

lemma invc_paint: "invc t \<Longrightarrow> invc (paint BLACK t)"
  by (cases t) auto

text \<open>What the loop promises from a heap \<open>h\<close> that holds \<open>t\<close>.\<close>

definition ins_result :: "rb_heap \<Rightarrow> rbt \<Rightarrow> addr \<Rightarrow> bool" where
  "ins_result h t node \<longleftrightarrow>
     (\<exists>h' t'. rb_insert_loop h node (root_of t) = Some (h', root_of t') \<and> evolves h t h' t' \<and>
        invh t' \<and> invc (paint BLACK t') \<and> t' \<noteq> Leaf)"

lemma ins_resultI:
  assumes "\<exists>h'. rb_insert_loop h node (root_of t) = Some (h', root_of t') \<and> evolves h t h' t'"
    and "invh t'" and "invc (paint BLACK t')" and "t' \<noteq> Leaf"
  shows "ins_result h t node"
  using assms by (auto simp: ins_result_def)

lemma ins_result_step:
  assumes "\<exists>h'. rb_insert_loop h node (root_of t) = rb_insert_loop h' node' (root_of t') \<and> evolves h t h' t'"
    and "\<And>h'. rb_rep h' (root_of t') t' \<Longrightarrow> ins_result h' t' node'"
  shows "ins_result h t node"
  using assms unfolding ins_result_def by (metis evolves_rep evolves_trans)

lemma ins_result_done:
  assumes "rb_rep h (root_of (plug t cs)) (plug t cs)" and "ins_inv t cs"
    and "red_at h (ctx_addr cs) = Some False" and "invc (paint BLACK (plug t cs))"
  shows "ins_result h (plug t cs) (root_of t)"
proof (rule ins_resultI)
  obtain a l k d r where t: "t = Node a RED l k d r"
    using assms(2) by (cases t) (auto simp: ins_inv_def)
  show "\<exists>h'. rb_insert_loop h (root_of t) (root_of (plug t cs)) = Some (h', root_of (plug t cs)) \<and>
     evolves h (plug t cs) h' (plug t cs)"
    using rb_insert_loop_done [of h a "ctx_addr cs"] rb_rep_deref(3) [OF assms(1) [unfolded t]]
      assms(1,3) evolves_refl by (force simp: t)
qed (use assms in \<open>auto simp: ins_inv_def root_of_NULL\<close>)

lemma ins_result_outer_left:
  assumes rep: "rb_rep h (root_of (plug t (LeftHole p RED pk pd pr # LeftHole g BLACK gk gd u # cs)))
      (plug t (LeftHole p RED pk pd pr # LeftHole g BLACK gk gd u # cs))"
    and inv: "ins_inv t (LeftHole p RED pk pd pr # LeftHole g BLACK gk gd u # cs)"
    and IH: "\<And>h t. rb_rep h (root_of (plug t cs)) (plug t cs) \<Longrightarrow> ins_inv t cs \<Longrightarrow>
       ins_result h (plug t cs) (root_of t)"
  shows "ins_result h (plug t (LeftHole p RED pk pd pr # LeftHole g BLACK gk gd u # cs)) (root_of t)"
proof -
  obtain a l k d r where t: "t = Node a RED l k d r"
    using inv by (cases t) (auto simp: ins_inv_def)
  have par: "deref rb_parent h a = Some p"
    using rb_rep_deref(3) [OF rep [unfolded t]] by simp
  note rep = rep [unfolded t plug.simps]
  show ?thesis
  proof (cases "color_of u")
    case BLACK
    show ?thesis
      using inv BLACK unfolding t plug.simps root_of.simps
      by (intro ins_resultI [OF rb_insert_loop_outer_left [OF rep BLACK]])
        (auto simp: ins_inv_def invc_paint)
  next
    case RED
    then obtain ua ul uk ud ur where u: "u = Node ua RED ul uk ud ur"
      by (cases u) auto
    let ?t' = "Node g RED (Node p BLACK t pk pd pr) gk gd (Node ua BLACK ul uk ud ur)"
    have "ins_inv ?t' cs"
      using inv ctx_color_cong [of cs RED BLACK] by (auto simp: ins_inv_def t u)
    then show ?thesis
      using IH [of _ ?t'] unfolding t u plug.simps root_of.simps
      by (intro ins_result_step [OF rb_insert_loop_recolor_left [OF rep [unfolded u] par]]) simp
  qed
qed

lemma ins_result_inner_left:
  assumes rep: "rb_rep h (root_of (plug t (RightHole p RED pl pk pd # LeftHole g BLACK gk gd u # cs)))
      (plug t (RightHole p RED pl pk pd # LeftHole g BLACK gk gd u # cs))"
    and inv: "ins_inv t (RightHole p RED pl pk pd # LeftHole g BLACK gk gd u # cs)"
    and IH: "\<And>h t. rb_rep h (root_of (plug t cs)) (plug t cs) \<Longrightarrow> ins_inv t cs \<Longrightarrow>
       ins_result h (plug t cs) (root_of t)"
  shows "ins_result h (plug t (RightHole p RED pl pk pd # LeftHole g BLACK gk gd u # cs)) (root_of t)"
proof -
  obtain a l k d r where t: "t = Node a RED l k d r"
    using inv by (cases t) (auto simp: ins_inv_def)
  have par: "deref rb_parent h a = Some p"
    using rb_rep_deref(3) [OF rep [unfolded t]] by simp
  note rep = rep [unfolded t plug.simps]
  show ?thesis
  proof (cases "color_of u")
    case BLACK
    show ?thesis
      using inv BLACK unfolding t plug.simps root_of.simps
      by (intro ins_resultI [OF rb_insert_loop_inner_left [OF rep BLACK]])
        (auto simp: ins_inv_def invc_paint)
  next
    case RED
    then obtain ua ul uk ud ur where u: "u = Node ua RED ul uk ud ur"
      by (cases u) auto
    let ?t' = "Node g RED (Node p BLACK pl pk pd t) gk gd (Node ua BLACK ul uk ud ur)"
    have "ins_inv ?t' cs"
      using inv ctx_color_cong [of cs RED BLACK] by (auto simp: ins_inv_def t u)
    then show ?thesis
      using IH [of _ ?t'] unfolding t u plug.simps root_of.simps
      by (intro ins_result_step [OF rb_insert_loop_recolor_left [OF rep [unfolded u] par]]) simp
  qed
qed

lemma ins_result_outer_right:
  assumes rep: "rb_rep h (root_of (plug t (RightHole p RED pl pk pd # RightHole g BLACK u gk gd # cs)))
      (plug t (RightHole p RED pl pk pd # RightHole g BLACK u gk gd # cs))"
    and inv: "ins_inv t (RightHole p RED pl pk pd # RightHole g BLACK u gk gd # cs)"
    and IH: "\<And>h t. rb_rep h (root_of (plug t cs)) (plug t cs) \<Longrightarrow> ins_inv t cs \<Longrightarrow>
       ins_result h (plug t cs) (root_of t)"
  shows "ins_result h (plug t (RightHole p RED pl pk pd # RightHole g BLACK u gk gd # cs)) (root_of t)"
proof -
  obtain a l k d r where t: "t = Node a RED l k d r"
    using inv by (cases t) (auto simp: ins_inv_def)
  have par: "deref rb_parent h a = Some p"
    using rb_rep_deref(3) [OF rep [unfolded t]] by simp
  note rep = rep [unfolded t plug.simps]
  show ?thesis
  proof (cases "color_of u")
    case BLACK
    show ?thesis
      using inv BLACK unfolding t plug.simps root_of.simps
      by (intro ins_resultI [OF rb_insert_loop_outer_right [OF rep BLACK]])
        (auto simp: ins_inv_def invc_paint)
  next
    case RED
    then obtain ua ul uk ud ur where u: "u = Node ua RED ul uk ud ur"
      by (cases u) auto
    let ?t' = "Node g RED (Node ua BLACK ul uk ud ur) gk gd (Node p BLACK pl pk pd t)"
    have "ins_inv ?t' cs"
      using inv ctx_color_cong [of cs RED BLACK] by (auto simp: ins_inv_def t u)
    then show ?thesis
      using IH [of _ ?t'] unfolding t u plug.simps root_of.simps
      by (intro ins_result_step [OF rb_insert_loop_recolor_right [OF rep [unfolded u] par]]) simp
  qed
qed

lemma ins_result_inner_right:
  assumes rep: "rb_rep h (root_of (plug t (LeftHole p RED pk pd pr # RightHole g BLACK u gk gd # cs)))
      (plug t (LeftHole p RED pk pd pr # RightHole g BLACK u gk gd # cs))"
    and inv: "ins_inv t (LeftHole p RED pk pd pr # RightHole g BLACK u gk gd # cs)"
    and IH: "\<And>h t. rb_rep h (root_of (plug t cs)) (plug t cs) \<Longrightarrow> ins_inv t cs \<Longrightarrow>
       ins_result h (plug t cs) (root_of t)"
  shows "ins_result h (plug t (LeftHole p RED pk pd pr # RightHole g BLACK u gk gd # cs)) (root_of t)"
proof -
  obtain a l k d r where t: "t = Node a RED l k d r"
    using inv by (cases t) (auto simp: ins_inv_def)
  have par: "deref rb_parent h a = Some p"
    using rb_rep_deref(3) [OF rep [unfolded t]] by simp
  note rep = rep [unfolded t plug.simps]
  show ?thesis
  proof (cases "color_of u")
    case BLACK
    show ?thesis
      using inv BLACK unfolding t plug.simps root_of.simps
      by (intro ins_resultI [OF rb_insert_loop_inner_right [OF rep BLACK]])
        (auto simp: ins_inv_def invc_paint)
  next
    case RED
    then obtain ua ul uk ud ur where u: "u = Node ua RED ul uk ud ur"
      by (cases u) auto
    let ?t' = "Node g RED (Node ua BLACK ul uk ud ur) gk gd (Node p BLACK t pk pd pr)"
    have "ins_inv ?t' cs"
      using inv ctx_color_cong [of cs RED BLACK] by (auto simp: ins_inv_def t u)
    then show ?thesis
      using IH [of _ ?t'] unfolding t u plug.simps root_of.simps
      by (intro ins_result_step [OF rb_insert_loop_recolor_right [OF rep [unfolded u] par]]) simp
  qed
qed

lemmas ins_result_cases =
  ins_result_outer_left ins_result_inner_left ins_result_outer_right ins_result_inner_right

text \<open>A black parent ends the loop.\<close>

lemma ins_result_black:
  assumes rep: "rb_rep h (root_of (plug t (c # cs))) (plug t (c # cs))" and inv: "ins_inv t (c # cs)"
    and c: "c = LeftHole p BLACK pk pd pr \<or> c = RightHole p BLACK pr pk pd"
  shows "ins_result h (plug t (c # cs)) (root_of t)"
proof (rule ins_result_done [OF rep inv])
  show "red_at h (ctx_addr (c # cs)) = Some False"
    using c rep rb_rep_red_at [of h _ "Node p BLACK _ _ _ _" cs] by auto
  show "invc (paint BLACK (plug t (c # cs)))"
    using c inv by (auto simp: ins_inv_def intro!: invc_paint)
qed

text \<open>
  Above a red parent there is a black grandparent: together the two crumbs have one of the
  four shapes of the loop body.
\<close>

lemma ins_result_red:
  assumes rep: "rb_rep h (root_of (plug t (c # cs))) (plug t (c # cs))" and inv: "ins_inv t (c # cs)"
    and c: "c = LeftHole p RED pk pd pr \<or> c = RightHole p RED pr pk pd"
    and IH: "\<And>h t cs'. length cs' < length (c # cs) \<Longrightarrow> rb_rep h (root_of (plug t cs')) (plug t cs') \<Longrightarrow>
       ins_inv t cs' \<Longrightarrow> ins_result h (plug t cs') (root_of t)"
  shows "ins_result h (plug t (c # cs)) (root_of t)"
proof -
  obtain g gk gd u ds where cs: "cs = LeftHole g BLACK gk gd u # ds \<or> cs = RightHole g BLACK u gk gd # ds"
    using inv c by (cases "(RED, cs)" rule: ctx_color.cases) (auto simp: ins_inv_def color_neq)
  have IH': "rb_rep h (root_of (plug t ds)) (plug t ds) \<Longrightarrow> ins_inv t ds \<Longrightarrow> ins_result h (plug t ds) (root_of t)" for h t
    using IH [of ds h t] cs by auto
  from c cs show ?thesis
    using rep inv IH' by (elim disjE) (simp_all only: ins_result_cases)
qed

lemma rb_insert_loop_ok:
  assumes "rb_rep h (root_of (plug t cs)) (plug t cs)" and "ins_inv t cs"
  shows "ins_result h (plug t cs) (root_of t)"
  using assms
proof (induction "length cs" arbitrary: h t cs rule: less_induct)
  case less
  show ?case
  proof (cases cs)
    case Nil
    with less.prems show ?thesis
      using ins_result_done [OF less.prems] by (auto simp: ins_inv_def red_at_def invc_paint)
  next
    case (Cons c ds)
    obtain p pc pk pd q where "c = LeftHole p pc pk pd q \<or> c = RightHole p pc q pk pd"
      by (cases c) auto
    then show ?thesis
      using ins_result_black [of h t c ds p pk pd q] ins_result_red [of h t c ds p pk pd q]
        less Cons by (cases pc) auto
  qed
qed

text \<open>
  Inserting a red leaf node into a red-black tree and rebalancing gives a red-black tree
  with the same nodes: \<open>root->color = BLACK\<close> repairs the root.
\<close>

lemma rb_insert_rebalance_ok:
  assumes "rb_rep h (root_of (plug t cs)) (plug t cs)" and "ins_inv t cs"
  shows "\<exists>h' t'. rb_insert_rebalance h (root_of t) (root_of (plug t cs)) = Some (h', root_of t') \<and>
     evolves h (plug t cs) h' t' \<and> rb_inv t'"
proof -
  obtain h1 t1 where 1: "rb_insert_loop h (root_of t) (root_of (plug t cs)) = Some (h1, root_of t1)"
    "evolves h (plug t cs) h1 t1" "invh t1" "invc (paint BLACK t1)" "t1 \<noteq> Leaf"
    using rb_insert_loop_ok [OF assms] by (auto simp: ins_result_def)
  then obtain a c l k d r where t1: "t1 = Node a c l k d r"
    by (cases t1) auto
  obtain h2 where 2: "store (set_color BLACK) h1 a = Some h2" "evolves h1 t1 h2 (paint BLACK t1)"
    using set_color_ok [of h1 _ a c l k d r "[]" BLACK] evolves_rep [OF 1(2)] by (auto simp: t1)
  have "evolves h (plug t cs) h2 (paint BLACK t1)"
    using 1(2) 2(2) by (rule evolves_trans)
  moreover have "rb_inv (paint BLACK t1)"
    using 1 by (cases c) (auto simp: t1 rb_inv_def)
  ultimately show ?thesis
    using 1(1) 2(1) by (intro exI [of _ h2] exI [of _ "paint BLACK t1"])
      (simp add: rb_insert_rebalance_def t1)
qed

section \<open>Searching\<close>

text \<open>The descent of \<open>rb_search_auxiliary\<close> on the tree: where it stops, and under which context.\<close>

fun descend :: "int \<Rightarrow> rbt \<Rightarrow> crumb list \<Rightarrow> rbt \<times> crumb list" where
  "descend key Leaf cs = (Leaf, cs)"
| "descend key (Node a c l k d r) cs =
     (if key < k then descend key l (LeftHole a c k d r # cs)
      else if k < key then descend key r (RightHole a c l k d # cs)
      else (Node a c l k d r, cs))"

definition between :: "int \<Rightarrow> crumb list \<Rightarrow> bool" where
  "between key cs \<longleftrightarrow>
     (\<forall>x \<in> fst ` set (ctx_before cs). x < key) \<and> (\<forall>x \<in> fst ` set (ctx_after cs). key < x)"

lemma descend_plug: "descend key t cs = (t', cs') \<Longrightarrow> plug t' cs' = plug t cs"
  by (induction key t cs rule: descend.induct) (auto split: if_splits)

lemma descend_focus: "descend key t cs = (t', cs') \<Longrightarrow> t' = Leaf \<or> (\<exists>a c l d r. t' = Node a c l key d r)"
  by (induction key t cs rule: descend.induct) (auto split: if_splits)

lemma descend_between:
  "descend key t cs = (t', cs') \<Longrightarrow> bst t \<Longrightarrow> between key cs \<Longrightarrow> between key cs'"
proof (induction key t cs rule: descend.induct)
  case (2 key a c l k d r cs)
  then show ?case
    by (fastforce simp: bst_Node between_def keys_def split: if_splits)
qed simp

text \<open>
  The keys that the key is compared with on its way down; their differences to it must not overflow.
\<close>

fun compared :: "int \<Rightarrow> rbt \<Rightarrow> int list" where
  "compared key Leaf = []"
| "compared key (Node a c l k d r) =
     k # (if key < k then compared key l else if k < key then compared key r else [])"

definition comparable :: "int \<Rightarrow> rbt \<Rightarrow> bool" where
  "comparable key t \<longleftrightarrow> (\<forall>x \<in> set (compared key t). in_int (x - key))"

lemma comparable_simps [simp]:
  "comparable key Leaf"
  "comparable key (Node a c l k d r) \<longleftrightarrow> in_int (k - key) \<and> (key < k \<longrightarrow> comparable key l) \<and> (k < key \<longrightarrow> comparable key r)"
  by (auto simp: comparable_def)

lemma comparable_keys: "\<forall>x \<in> keys t. in_int (x - key) \<Longrightarrow> comparable key t"
  by (induction t) (auto simp: keys_def)

lemma rb_search_loop_overflow:
  assumes "rb_rep h root (plug t cs)" and "\<not> comparable key t"
  shows "rb_search_loop h key (root_of t) (ctx_addr cs) = None"
  using assms
proof (induction key t cs rule: descend.induct)
  case (2 key a c l k d r cs)
  show ?case
    using rb_rep_deref [OF 2(3)] rb_rep_node(1) [OF 2(3)] 2
    by (subst rb_search_loop.simps) (auto simp: c_simps c_int_def)
qed simp

lemma search_overflow:
  assumes "rb_rep h root t" and "\<not> comparable key t"
  shows "rb_search_loop h key root NULL = None"
  using rb_search_loop_overflow [of h root t "[]" key] assms by (auto simp: rb_rep_def)

lemma rb_search_loop_ok:
  assumes "rb_rep h root (plug t cs)" and "comparable key t"
    and "descend key t cs = (t', cs')"
  shows "rb_search_loop h key (root_of t) (ctx_addr cs) =
     Some (root_of t', if t' = Leaf then ctx_addr cs' else root_of t')"
  using assms
proof (induction key t cs rule: descend.induct)
  case (1 key cs)
  then show ?case
    by (subst rb_search_loop.simps) auto
next
  case (2 key a c l k d r cs)
  show ?case
    using rb_rep_deref [OF 2(3)] rb_rep_node(1) [OF 2(3)] 2
    by (subst rb_search_loop.simps) (auto simp: c_simps)
qed

lemma rbt_map_Some_iff:
  assumes "bst t"
  shows "rbt_map t key = Some d \<longleftrightarrow> (key, d) \<in> set (inorder t)"
proof -
  have "distinct (map fst (inorder t))"
    using assms strict_sorted_iff [of "map fst (inorder t)"] by (simp add: bst_def)
  then show ?thesis
    by (auto simp: rbt_map_def)
qed

lemma rbt_map_link:
  "between key cs \<Longrightarrow> rbt_map (plug (Node a c Leaf key d Leaf) cs) = (rbt_map (plug Leaf cs))(key \<mapsto> d)"
  by (simp add: rbt_map_def between_def map_add_upd_left dom_map_of_conv_image_fst)
    (subst map_add_upd_left, auto simp: dom_map_of_conv_image_fst)

lemma bst_link:
  "between key cs \<Longrightarrow> bst (plug Leaf cs) \<Longrightarrow> bst (plug (Node a c Leaf key d Leaf) cs)"
  by (auto simp: bst_def between_def sorted_wrt_append)

lemma key_not_between: "between key cs \<Longrightarrow> key \<notin> keys (plug Leaf cs)"
  by (auto simp: between_def keys_def)

text \<open>The descent from the root of a search tree.\<close>

lemma search_outcome:
  assumes "rb_rep h root t" and "bst t" and "comparable key t"
  obtains (found) a c l d r cs where "t = plug (Node a c l key d r) cs" "rbt_map t key = Some d"
      "rb_search_loop h key root NULL = Some (a, a)" "a \<noteq> NULL" "key \<in> keys t"
  | (missing) cs where "t = plug Leaf cs" "between key cs" "rbt_map t key = None" "key \<notin> keys t"
      "rb_search_loop h key root NULL = Some (NULL, ctx_addr cs)"
proof -
  obtain t' cs where d: "descend key t [] = (t', cs)"
    by (cases "descend key t []") auto
  have t: "t = plug t' cs"
    using descend_plug [OF d] by simp
  have b: "between key cs"
    using descend_between [OF d assms(2)] by (simp add: between_def)
  have s: "rb_search_loop h key root NULL = Some (root_of t', if t' = Leaf then ctx_addr cs else root_of t')"
    using rb_search_loop_ok [of h root t "[]", OF _ assms(3) d] assms(1) by (auto simp: rb_rep_def)
  show thesis
  proof (cases t')
    case Leaf
    then show ?thesis
      using missing [of cs] s t b key_not_between [OF b] dom_rbt_map [of t] by auto
  next
    case (Node a c l k d' r)
    then have t': "t' = Node a c l key d' r"
      using descend_focus [OF d] by auto
    show ?thesis
    proof (rule found)
      show eq: "t = plug (Node a c l key d' r) cs"
        using t t' by simp
      show "rbt_map t key = Some d'" "key \<in> keys t"
        using rbt_map_Some_iff [OF assms(2)] by (auto simp: eq keys_def)
      show "rb_search_loop h key root NULL = Some (a, a)"
        using s t' by simp
      show "a \<noteq> NULL"
        using rb_rep_node(1) [OF assms(1) [unfolded eq]] .
    qed
  qed
qed

lemma rb_search_ok:
  assumes "rb_rep h root t" and "bst t" and "comparable key t"
  shows "\<exists>p. rb_search h key root = Some p \<and> (p = NULL \<longleftrightarrow> key \<notin> keys t) \<and>
     (p \<noteq> NULL \<longrightarrow> p \<in> set (addrs t) \<and> deref rb_key h p = Some key \<and> deref rb_data h p = rbt_map t key)"
  using assms
proof (cases rule: search_outcome)
  case (found a c l d r cs)
  then show ?thesis
    using rb_rep_node [OF assms(1) [unfolded found(1)]]
    by (auto simp: rb_search_def rb_search_auxiliary_def c_simps)
next
  case (missing cs)
  then show ?thesis
    by (auto simp: rb_search_def rb_search_auxiliary_def)
qed

lemma rb_search_overflow: "rb_rep h root t \<Longrightarrow> \<not> comparable key t \<Longrightarrow> rb_search h key root = None"
  by (simp add: rb_search_def rb_search_auxiliary_def search_overflow)

section \<open>Inserting\<close>

text \<open>
  The statements between the search and the rebalancing hang the fresh block \<open>n\<close> at the
  hole the search stopped at; \<open>f\<close> is the rest of the function.
\<close>

lemma insert_link:
  assumes rep: "rb_rep h root (plug Leaf cs)" and b: "between key cs"
    and n: "n \<noteq> NULL" "n \<notin> set (ctx_addrs cs)"
    and h1: "h1 = h(n := Some (junk\<lparr>rb_key := key, rb_data := data\<rparr>))"
  shows "\<exists>h'. do {
       h \<leftarrow> store (set_parent (ctx_addr cs)) h1 n;
       h \<leftarrow> store (set_right NULL) h n;
       h \<leftarrow> store (set_left NULL) h n;
       h \<leftarrow> store (set_color RED) h n;
       (h, root) \<leftarrow> (if ctx_addr cs \<noteq> NULL then do {
           pk \<leftarrow> deref rb_key h (ctx_addr cs);
           h \<leftarrow> (if pk > key then store (set_left n) h (ctx_addr cs)
                 else store (set_right n) h (ctx_addr cs));
           Some (h, root) }
         else Some (h, n));
       f h root } = f h' (ctx_root n cs) \<and>
     rb_rep h' (ctx_root n cs) (plug (Node n RED Leaf key data Leaf) cs) \<and>
     frame (insert n (set (ctx_addrs cs))) h h'"
  using rep b n unfolding rb_rep_plug h1
  by (cases cs rule: ctx_addr.cases) (auto simp: c_simps frame_def between_def rb_rep_plug rb_rep_def)

lemma rb_insert_present:
  assumes "rb_rep h root t" and "bst t" and "comparable key t" and "key \<in> keys t"
  shows "rb_insert malloc junk h key data root = Some (Ret (h, root))"
  using assms(1-3)
  by (cases rule: search_outcome) (use assms(4) in \<open>auto simp: rb_insert_def rb_search_auxiliary_def\<close>)

lemma rb_insert_overflow: "rb_rep h root t \<Longrightarrow> \<not> comparable key t \<Longrightarrow> rb_insert malloc junk h key data root = None"
  by (simp add: rb_insert_def rb_search_auxiliary_def search_overflow)

lemma rb_insert_no_memory:
  assumes "rb_rep h root t" and "bst t" and "comparable key t" and "key \<notin> keys t"
    and "malloc h = NULL"
  shows "rb_insert malloc junk h key data root = Some (Exit (- 1))"
  using assms(1-3)
  by (cases rule: search_outcome)
    (use assms(4,5) in \<open>auto simp: rb_insert_def rb_search_auxiliary_def rb_new_node_def\<close>)

lemma rb_insert_absent:
  assumes rep: "rb_rep h root t" and "rb_inv t" and "bst t"
    and "comparable key t" and absent: "key \<notin> keys t"
    and malloc: "malloc h = n" "n \<noteq> NULL" "h n = None"
  shows "\<exists>h' t'. rb_insert malloc junk h key data root = Some (Ret (h', root_of t')) \<and>
     rb_rep h' (root_of t') t' \<and> rb_inv t' \<and> bst t' \<and> rbt_map t' = (rbt_map t)(key \<mapsto> data) \<and>
     set (addrs t') = insert n (set (addrs t)) \<and> frame (insert n (set (addrs t))) h h'"
proof -
  obtain cs where cs: "t = plug Leaf cs" "between key cs"
      "rb_search_loop h key root NULL = Some (NULL, ctx_addr cs)"
    using rep \<open>bst t\<close> assms(4) by (cases rule: search_outcome) (use absent in auto)
  let ?n = "Node n RED Leaf key data Leaf"
  have n: "n \<notin> set (ctx_addrs cs)"
    using rep malloc(3) by (auto simp: cs(1) rb_rep_plug dest: heap_ctx_live)
  obtain h1 where h1: "rb_insert malloc junk h key data root =
        rb_insert_rebalance h1 n (ctx_root n cs) \<bind> (\<lambda>r. Some (Ret r))"
      "rb_rep h1 (ctx_root n cs) (plug ?n cs)" "frame (insert n (set (ctx_addrs cs))) h h1"
    using insert_link [where junk = junk and data = data and
        f = "\<lambda>h root. rb_insert_rebalance h n root \<bind> (\<lambda>r. Some (Ret r))",
        OF rep [unfolded cs(1)] cs(2) malloc(2) n refl] cs(3) malloc
    by (auto simp: rb_insert_def rb_search_auxiliary_def rb_new_node_def)
  have "ins_inv ?n cs"
    using \<open>rb_inv t\<close> ctx_color_cong [of cs RED BLACK] by (auto simp: cs(1) ins_inv_def rb_inv_def)
  then obtain h' t' where 2: "rb_insert_rebalance h1 n (ctx_root n cs) = Some (h', root_of t')"
      "evolves h1 (plug ?n cs) h' t'" "rb_inv t'"
    using rb_insert_rebalance_ok [of h1 ?n cs] h1(2) by auto
  have "bst t'" "rbt_map t' = (rbt_map t)(key \<mapsto> data)"
    using bst_link [OF cs(2)] rbt_map_link [OF cs(2)] \<open>bst t\<close> 2(2)
    by (simp_all add: evolves_def bst_def rbt_map_def cs(1))
  moreover have "set (addrs t') = insert n (set (addrs t))" "frame (insert n (set (addrs t))) h h'"
    using 2(2) h1(3) by (auto simp: evolves_def cs(1) frame_def)
  ultimately show ?thesis
    using h1(1) 2 evolves_rep [OF 2(2)] by (intro exI [of _ h'] exI [of _ t']) simp
qed

end
