(* ===== verification/RB_Erase.thy ===== *)
theory RB_Erase
  imports RB_Insert
begin

text \<open>
  Correctness of \<open>rb_erase\<close>: unlinking the node, or its successor when it has two
  children, and the rebalancing loop that repairs the missing black node.
\<close>

section \<open>The end of the loop body\<close>

text \<open>
  The recolouring and the rotation that precede \<^verbatim>\<open>break\<close>: the sibling \<open>b\<close> takes the place
  and the colour of the parent, its outer child becomes black.
\<close>

lemma set_color_ok_right:
  assumes "rb_rep h root (plug (Node p pc t pk pd (Node b bc bn bk bd bf)) cs)"
  shows "\<exists>h'. store (set_color c) h b = Some h' \<and>
     evolves h (plug (Node p pc t pk pd (Node b bc bn bk bd bf)) cs) h' (plug (Node p pc t pk pd (Node b c bn bk bd bf)) cs)"
  using set_color_ok [of h root b bc _ bk bd _ "RightHole p pc t pk pd # cs" c] assms by simp

lemma set_color_ok_rightright:
  assumes "rb_rep h root (plug (Node p pc t pk pd (Node b bc bn bk bd (Node z zc zn zk zd zf))) cs)"
  shows "\<exists>h'. store (set_color c) h z = Some h' \<and>
     evolves h (plug (Node p pc t pk pd (Node b bc bn bk bd (Node z zc zn zk zd zf))) cs) h'
       (plug (Node p pc t pk pd (Node b bc bn bk bd (Node z c zn zk zd zf))) cs)"
  using set_color_ok [of h root z zc _ zk zd _ "RightHole b bc bn bk bd # RightHole p pc t pk pd # cs" c] assms by simp

lemma rb_rep_child_right:
  assumes "rb_rep h root (plug (Node p pc t pk pd (Node b bc bn bk bd bf)) cs)"
  shows "deref rb_left h b = Some (root_of bn)" and "deref rb_right h b = Some (root_of bf)"
    and "deref rb_color h b = Some bc" and "deref rb_right h p = Some b" and "b \<noteq> NULL"
    and "black_at h (root_of bn) = Some (color_of bn = BLACK)"
    and "black_at h (root_of bf) = Some (color_of bf = BLACK)"
  using rb_rep_deref [of h root b bc _ bk bd _ "RightHole p pc t pk pd # cs"] rb_rep_node(1) [of h root b bc _ bk bd _ "RightHole p pc t pk pd # cs"]
    rb_rep_deref [OF assms] assms
    rb_rep_black_at [of h root bf "RightHole b bc bn bk bd # RightHole p pc t pk pd # cs"] rb_rep_black_at [of h root bn "LeftHole b bc bk bd bf # RightHole p pc t pk pd # cs"]
  by simp_all

lemma set_color_ok_left:
  assumes "rb_rep h root (plug (Node p pc (Node b bc bf bk bd bn) pk pd t) cs)"
  shows "\<exists>h'. store (set_color c) h b = Some h' \<and>
     evolves h (plug (Node p pc (Node b bc bf bk bd bn) pk pd t) cs) h' (plug (Node p pc (Node b c bf bk bd bn) pk pd t) cs)"
  using set_color_ok [of h root b bc _ bk bd _ "LeftHole p pc pk pd t # cs" c] assms by simp

lemma set_color_ok_leftleft:
  assumes "rb_rep h root (plug (Node p pc (Node b bc (Node z zc zf zk zd zn) bk bd bn) pk pd t) cs)"
  shows "\<exists>h'. store (set_color c) h z = Some h' \<and>
     evolves h (plug (Node p pc (Node b bc (Node z zc zf zk zd zn) bk bd bn) pk pd t) cs) h'
       (plug (Node p pc (Node b bc (Node z c zf zk zd zn) bk bd bn) pk pd t) cs)"
  using set_color_ok [of h root z zc _ zk zd _ "LeftHole b bc bk bd bn # LeftHole p pc pk pd t # cs" c] assms by simp

lemma rb_rep_child_left:
  assumes "rb_rep h root (plug (Node p pc (Node b bc bf bk bd bn) pk pd t) cs)"
  shows "deref rb_left h b = Some (root_of bf)" and "deref rb_right h b = Some (root_of bn)"
    and "deref rb_color h b = Some bc" and "deref rb_left h p = Some b" and "b \<noteq> NULL"
    and "black_at h (root_of bn) = Some (color_of bn = BLACK)"
    and "black_at h (root_of bf) = Some (color_of bf = BLACK)"
  using rb_rep_deref [of h root b bc _ bk bd _ "LeftHole p pc pk pd t # cs"] rb_rep_node(1) [of h root b bc _ bk bd _ "LeftHole p pc pk pd t # cs"]
    rb_rep_deref [OF assms] assms
    rb_rep_black_at [of h root bf "LeftHole b bc bk bd bn # LeftHole p pc pk pd t # cs"] rb_rep_black_at [of h root bn "RightHole b bc bf bk bd # LeftHole p pc pk pd t # cs"]
  by simp_all

lemma finish_tail_left:
  assumes rep: "rb_rep h root (plug (Node p pc t pk pd (Node b bc bn bk bd (Node z zc zn zk zd zf))) cs)"
  defines "t0 \<equiv> plug (Node p pc t pk pd (Node b bc bn bk bd (Node z zc zn zk zd zf))) cs"
    and "t' \<equiv> plug (Node b pc (Node p BLACK t pk pd bn) bk bd (Node z BLACK zn zk zd zf)) cs"
  shows "\<exists>h'. do {
     pc \<leftarrow> deref rb_color h p;
     h \<leftarrow> store (set_color pc) h b;
     h \<leftarrow> store (set_color BLACK) h p;
     bf \<leftarrow> deref rb_right h b;
     h \<leftarrow> (if bf \<noteq> NULL then store (set_color BLACK) h bf else Some h);
     rb_rotate_left h p root } = Some (h', root_of t') \<and> evolves h t0 h' t'"
proof -
  let ?Z = "\<lambda>c. (Node z c zn zk zd zf)"
  let ?t1 = "plug (Node p pc t pk pd (Node b pc bn bk bd (?Z zc))) cs"
    and ?t2 = "plug (Node p BLACK t pk pd (Node b pc bn bk bd (?Z zc))) cs"
    and ?t3 = "plug (Node p BLACK t pk pd (Node b pc bn bk bd (?Z BLACK))) cs"
  obtain h1 where h1: "store (set_color pc) h b = Some h1" "evolves h t0 h1 ?t1"
    using set_color_ok_right [OF rep, of pc] unfolding t0_def by auto
  obtain h2 where h2: "store (set_color BLACK) h1 p = Some h2" "evolves h1 ?t1 h2 ?t2"
    using set_color_ok [OF evolves_rep [OF h1(2)], of BLACK] by auto
  have z: "deref rb_right h2 b = Some z" "z \<noteq> NULL"
    using rb_rep_child_right [OF evolves_rep [OF h2(2)]] evolves_rep [OF h2(2)]
    by (simp_all add: rb_rep_plug)
  obtain h3 where h3: "store (set_color BLACK) h2 z = Some h3" "evolves h2 ?t2 h3 ?t3"
    using set_color_ok_rightright [OF evolves_rep [OF h2(2)], of BLACK] by auto
  obtain h4 where h4: "rb_rotate_left h3 p root = Some (h4, root_of t')" "evolves h3 ?t3 h4 t'"
    using rb_rotate_left_ok [OF evolves_rep [OF h3(2)]] rb_rep_root [OF rep] unfolding t'_def by auto
  have "evolves h t0 h4 t'"
    using h1(2) h2(2) h3(2) h4(2) by (blast intro: evolves_trans)
  then show ?thesis
    using rb_rep_deref(5) [OF rep] h1(1) h2(1) h3(1) h4(1) z by simp
qed

lemma finish_tail_right:
  assumes rep: "rb_rep h root (plug (Node p pc (Node b bc (Node z zc zf zk zd zn) bk bd bn) pk pd t) cs)"
  defines "t0 \<equiv> plug (Node p pc (Node b bc (Node z zc zf zk zd zn) bk bd bn) pk pd t) cs"
    and "t' \<equiv> plug (Node b pc (Node z BLACK zf zk zd zn) bk bd (Node p BLACK bn pk pd t)) cs"
  shows "\<exists>h'. do {
     pc \<leftarrow> deref rb_color h p;
     h \<leftarrow> store (set_color pc) h b;
     h \<leftarrow> store (set_color BLACK) h p;
     bf \<leftarrow> deref rb_left h b;
     h \<leftarrow> (if bf \<noteq> NULL then store (set_color BLACK) h bf else Some h);
     rb_rotate_right h p root } = Some (h', root_of t') \<and> evolves h t0 h' t'"
proof -
  let ?Z = "\<lambda>c. (Node z c zf zk zd zn)"
  let ?t1 = "plug (Node p pc (Node b pc (?Z zc) bk bd bn) pk pd t) cs"
    and ?t2 = "plug (Node p BLACK (Node b pc (?Z zc) bk bd bn) pk pd t) cs"
    and ?t3 = "plug (Node p BLACK (Node b pc (?Z BLACK) bk bd bn) pk pd t) cs"
  obtain h1 where h1: "store (set_color pc) h b = Some h1" "evolves h t0 h1 ?t1"
    using set_color_ok_left [OF rep, of pc] unfolding t0_def by auto
  obtain h2 where h2: "store (set_color BLACK) h1 p = Some h2" "evolves h1 ?t1 h2 ?t2"
    using set_color_ok [OF evolves_rep [OF h1(2)], of BLACK] by auto
  have z: "deref rb_left h2 b = Some z" "z \<noteq> NULL"
    using rb_rep_child_left [OF evolves_rep [OF h2(2)]] evolves_rep [OF h2(2)]
    by (simp_all add: rb_rep_plug)
  obtain h3 where h3: "store (set_color BLACK) h2 z = Some h3" "evolves h2 ?t2 h3 ?t3"
    using set_color_ok_leftleft [OF evolves_rep [OF h2(2)], of BLACK] by auto
  obtain h4 where h4: "rb_rotate_right h3 p root = Some (h4, root_of t')" "evolves h3 ?t3 h4 t'"
    using rb_rotate_right_ok [OF evolves_rep [OF h3(2)]] rb_rep_root [OF rep] unfolding t'_def by auto
  have "evolves h t0 h4 t'"
    using h1(2) h2(2) h3(2) h4(2) by (blast intro: evolves_trans)
  then show ?thesis
    using rb_rep_deref(5) [OF rep] h1(1) h2(1) h3(1) h4(1) z by simp
qed

lemma rb_erase_finish_left_far:
  assumes rep: "rb_rep h root (plug (Node p pc t pk pd (Node b BLACK bn bk bd bf)) cs)"
    and bf: "color_of bf = RED"
  shows "\<exists>h' t'. rb_erase_finish_left h p b root = Some (h', root_of t') \<and>
     evolves h (plug (Node p pc t pk pd (Node b BLACK bn bk bd bf)) cs) h' t' \<and>
     t' = plug (Node b pc (Node p BLACK t pk pd bn) bk bd (paint BLACK bf)) cs"
proof -
  obtain z zn zk zd zf where z: "bf = (Node z RED zn zk zd zf)"
    using bf by (cases bf) auto
  show ?thesis
    using finish_tail_left [OF rep [unfolded z]] rb_rep_child_right [OF rep] bf
    by (simp add: rb_erase_finish_left_def z)
qed

lemma rb_erase_finish_left_near:
  assumes rep: "rb_rep h root (plug (Node p pc t pk pd (Node b BLACK (Node x RED xn xk xd xf) bk bd bf)) cs)"
    and bf: "color_of bf = BLACK"
  defines "t0 \<equiv> plug (Node p pc t pk pd (Node b BLACK (Node x RED xn xk xd xf) bk bd bf)) cs"
    and "t' \<equiv> plug (Node x pc (Node p BLACK t pk pd xn) xk xd (Node b BLACK xf bk bd bf)) cs"
  shows "\<exists>h'. rb_erase_finish_left h p b root = Some (h', root_of t') \<and> evolves h t0 h' t'"
proof -
  let ?t1 = "plug (Node p pc t pk pd (Node b BLACK (Node x BLACK xn xk xd xf) bk bd bf)) cs"
    and ?t2 = "plug (Node p pc t pk pd (Node b RED (Node x BLACK xn xk xd xf) bk bd bf)) cs"
    and ?t3 = "plug (Node p pc t pk pd (Node x BLACK xn xk xd (Node b RED xf bk bd bf))) cs"
  obtain h1 where h1: "store (set_color BLACK) h x = Some h1" "evolves h t0 h1 ?t1"
    using set_color_ok [of h root x RED _ xk xd _ "LeftHole b BLACK bk bd bf # RightHole p pc t pk pd # cs" BLACK] rep unfolding t0_def by auto
  obtain h2 where h2: "store (set_color RED) h1 b = Some h2" "evolves h1 ?t1 h2 ?t2"
    using set_color_ok_right [OF evolves_rep [OF h1(2)], of RED] by auto
  have r2: "rb_rep h2 root (plug (Node b RED (Node x BLACK xn xk xd xf) bk bd bf) (RightHole p pc t pk pd # cs))"
    using evolves_rep [OF h2(2)] rb_rep_root [OF rep] by simp
  obtain h3 where h3: "rb_rotate_right h2 b root = Some (h3, root_of ?t3)" "evolves h2 ?t2 h3 ?t3"
    using rb_rotate_right_ok [OF r2] by auto
  have x: "x \<noteq> NULL" "deref rb_right h3 p = Some x"
    using rep rb_rep_child_right(4) [OF evolves_rep [OF h3(2)]] by (simp_all add: rb_rep_plug)
  obtain h' where h': "rb_erase_finish_left h p b root = Some (h', root_of t')" "evolves h3 ?t3 h' t'"
    using finish_tail_left [OF evolves_rep [OF h3(2)]] rb_rep_child_right [OF rep] bf h1(1) h2(1) h3(1) x
    unfolding t'_def by (auto simp: rb_erase_finish_left_def)
  moreover have "evolves h t0 h' t'"
    using h1(2) h2(2) h3(2) h'(2) by (blast intro: evolves_trans)
  ultimately show ?thesis by blast
qed

lemma rb_erase_finish_right_far:
  assumes rep: "rb_rep h root (plug (Node p pc (Node b BLACK bf bk bd bn) pk pd t) cs)"
    and bf: "color_of bf = RED"
  shows "\<exists>h' t'. rb_erase_finish_right h p b root = Some (h', root_of t') \<and>
     evolves h (plug (Node p pc (Node b BLACK bf bk bd bn) pk pd t) cs) h' t' \<and>
     t' = plug (Node b pc (paint BLACK bf) bk bd (Node p BLACK bn pk pd t)) cs"
proof -
  obtain z zn zk zd zf where z: "bf = (Node z RED zf zk zd zn)"
    using bf by (cases bf) auto
  show ?thesis
    using finish_tail_right [OF rep [unfolded z]] rb_rep_child_left [OF rep] bf
    by (simp add: rb_erase_finish_right_def z)
qed

lemma rb_erase_finish_right_near:
  assumes rep: "rb_rep h root (plug (Node p pc (Node b BLACK bf bk bd (Node x RED xf xk xd xn)) pk pd t) cs)"
    and bf: "color_of bf = BLACK"
  defines "t0 \<equiv> plug (Node p pc (Node b BLACK bf bk bd (Node x RED xf xk xd xn)) pk pd t) cs"
    and "t' \<equiv> plug (Node x pc (Node b BLACK bf bk bd xf) xk xd (Node p BLACK xn pk pd t)) cs"
  shows "\<exists>h'. rb_erase_finish_right h p b root = Some (h', root_of t') \<and> evolves h t0 h' t'"
proof -
  let ?t1 = "plug (Node p pc (Node b BLACK bf bk bd (Node x BLACK xf xk xd xn)) pk pd t) cs"
    and ?t2 = "plug (Node p pc (Node b RED bf bk bd (Node x BLACK xf xk xd xn)) pk pd t) cs"
    and ?t3 = "plug (Node p pc (Node x BLACK (Node b RED bf bk bd xf) xk xd xn) pk pd t) cs"
  obtain h1 where h1: "store (set_color BLACK) h x = Some h1" "evolves h t0 h1 ?t1"
    using set_color_ok [of h root x RED _ xk xd _ "RightHole b BLACK bf bk bd # LeftHole p pc pk pd t # cs" BLACK] rep unfolding t0_def by auto
  obtain h2 where h2: "store (set_color RED) h1 b = Some h2" "evolves h1 ?t1 h2 ?t2"
    using set_color_ok_left [OF evolves_rep [OF h1(2)], of RED] by auto
  have r2: "rb_rep h2 root (plug (Node b RED bf bk bd (Node x BLACK xf xk xd xn)) (LeftHole p pc pk pd t # cs))"
    using evolves_rep [OF h2(2)] rb_rep_root [OF rep] by simp
  obtain h3 where h3: "rb_rotate_left h2 b root = Some (h3, root_of ?t3)" "evolves h2 ?t2 h3 ?t3"
    using rb_rotate_left_ok [OF r2] by auto
  have x: "x \<noteq> NULL" "deref rb_left h3 p = Some x"
    using rep rb_rep_child_left(4) [OF evolves_rep [OF h3(2)]] by (simp_all add: rb_rep_plug)
  obtain h' where h': "rb_erase_finish_right h p b root = Some (h', root_of t')" "evolves h3 ?t3 h' t'"
    using finish_tail_right [OF evolves_rep [OF h3(2)]] rb_rep_child_left [OF rep] bf h1(1) h2(1) h3(1) x
    unfolding t'_def by (auto simp: rb_erase_finish_right_def)
  moreover have "evolves h t0 h' t'"
    using h1(2) h2(2) h3(2) h'(2) by (blast intro: evolves_trans)
  ultimately show ?thesis by blast
qed

section \<open>The whole loop\<close>

text \<open>
  The loop invariant: the subtree at the hole lacks one black node, everything else is as in
  a red-black tree with a black root. A red node at the hole may have a red child: the
  loop stops there and the function blackens it.
\<close>

definition del_inv :: "rbt \<Rightarrow> crumb list \<Rightarrow> bool" where
  "del_inv t cs \<longleftrightarrow>
     invc (paint BLACK t) \<and> invh t \<and> ctx_invc BLACK cs \<and> ctx_invh (bheight t + 1) cs \<and> ctx_color BLACK cs = BLACK"

lemma paint_BLACK [simp]: "color_of t = BLACK \<Longrightarrow> paint BLACK t = t"
  by (cases t) auto

lemma ctx_color_BLACK: "ctx_color c cs = BLACK \<Longrightarrow> ctx_color BLACK cs = BLACK"
  by (cases "(c, cs)" rule: ctx_color.cases) auto

text \<open>What \<open>rb_erase_rebalance\<close> makes of an outcome of the loop.\<close>

definition del_outcome :: "rb_heap \<Rightarrow> rbt \<Rightarrow> (rb_heap \<times> addr \<times> addr) option \<Rightarrow> bool" where
  "del_outcome h t res \<longleftrightarrow> (\<exists>h' t'.
     do {
       (h, node, root) \<leftarrow> res;
       h \<leftarrow> (if node \<noteq> NULL then store (set_color BLACK) h node else Some h);
       Some (h, root) } = Some (h', root_of t') \<and> evolves h t h' t' \<and> rb_inv t')"

lemma del_outcome_trans: "evolves h t h1 t1 \<Longrightarrow> del_outcome h1 t1 res \<Longrightarrow> del_outcome h t res"
  unfolding del_outcome_def by (blast intro: evolves_trans)

lemma del_outcome_paint:
  assumes rep: "rb_rep h (root_of (plug t cs)) (plug t cs)" and inv: "rb_inv (plug (paint BLACK t) cs)"
  shows "del_outcome h (plug t cs) (Some (h, root_of t, root_of (plug t cs)))"
proof (cases t)
  case Leaf
  then show ?thesis
    using evolves_refl [OF rep] inv unfolding del_outcome_def
    by (intro exI [of _ h] exI [of _ "plug Leaf cs"]) simp
next
  case (Node a c l k d r)
  then have rep': "rb_rep h (ctx_root a cs) (plug (Node a c l k d r) cs)"
    using rep by simp
  obtain h' where "store (set_color BLACK) h a = Some h'"
      "evolves h (plug (Node a c l k d r) cs) h' (plug (Node a BLACK l k d r) cs)"
    using set_color_ok [OF rep', of BLACK] by auto
  then show ?thesis
    using Node inv rb_rep_node(1) [OF rep'] unfolding del_outcome_def
    by (intro exI [of _ h'] exI [of _ "plug (Node a BLACK l k d r) cs"]) simp
qed

lemma del_outcome_break:
  assumes ev: "evolves h t h' t'" and inv: "rb_inv t'"
  shows "del_outcome h t (Some (h', root_of t', root_of t'))"
proof -
  have "paint BLACK t' = t'"
    using inv by (cases t') (auto simp: rb_inv_def)
  then have "del_outcome h' t' (Some (h', root_of t', root_of t'))"
    using del_outcome_paint [of h' t' "[]"] evolves_rep [OF ev] inv by simp
  then show ?thesis
    by (rule del_outcome_trans [OF ev])
qed

lemma rb_inv_paint:
  assumes "del_inv t cs" and "color_of t = RED \<or> cs = []"
  shows "rb_inv (plug (paint BLACK t) cs)"
  using assms by (cases t) (auto simp: del_inv_def rb_inv_def invc_paint color_neq)

lemma del_outcome_done:
  assumes rep: "rb_rep h (root_of (plug t cs)) (plug t cs)" and inv: "del_inv t cs"
    and stop: "color_of t = RED \<or> cs = []"
  shows "del_outcome h (plug t cs) (rb_erase_loop h (root_of t) (ctx_addr cs) (root_of (plug t cs)))"
proof -
  have "rb_erase_loop h (root_of t) (ctx_addr cs) (root_of (plug t cs)) = Some (h, root_of t, root_of (plug t cs))"
    using rb_rep_black_at [OF rep] stop by (subst rb_erase_loop.simps) auto
  then show ?thesis
    using del_outcome_paint [OF rep rb_inv_paint [OF inv stop]] by simp
qed

lemma ctx_root_in: "cs \<noteq> [] \<Longrightarrow> ctx_root q cs \<in> set (ctx_addrs cs)"
  by (induction q cs rule: ctx_root.induct) (case_tac [!] cs, auto)

lemma hole_not_root:
  assumes "rb_rep h root (plug t cs)" and "cs \<noteq> []"
  shows "root_of t \<noteq> root"
proof -
  have "root \<in> set (ctx_addrs cs)"
    using assms ctx_root_in [OF assms(2)] by (simp add: rb_rep_plug)
  moreover have "NULL \<notin> set (ctx_addrs cs)"
    using assms(1) heap_ctx_NULL by (auto simp: rb_rep_plug)
  ultimately show ?thesis
    using assms(1) root_of_in [of t] by (cases "t = Leaf") (auto simp: rb_rep_plug intro!: gr0I)
qed

text \<open>The loop body from the test of the sibling's children on, with a black sibling.\<close>

definition erase_rest_left ::
    "rb_heap \<Rightarrow> addr \<Rightarrow> addr \<Rightarrow> addr \<Rightarrow> (rb_heap \<times> addr \<times> addr) option" where
  "erase_rest_left h parent other root = do {
     ol \<leftarrow> deref rb_left h other;
     lb \<leftarrow> black_at h ol;
     orr \<leftarrow> deref rb_right h other;
     rb \<leftarrow> black_at h orr;
     (if lb \<and> rb then do {
        h \<leftarrow> store (set_color RED) h other;
        gp \<leftarrow> deref rb_parent h parent;
        rb_erase_loop h parent gp root }
      else do {
        (h, root) \<leftarrow> rb_erase_finish_left h parent other root;
        Some (h, root, root) }) }"

lemma rb_erase_loop_left_black:
  assumes rep: "rb_rep h root (plug t (LeftHole p pc pk pd (Node b BLACK bn bk bd bf) # cs))"
    and t: "color_of t = BLACK"
  shows "rb_erase_loop h (root_of t) p root = erase_rest_left h p b root"
proof -
  have rp: "rb_rep h root (plug (Node p pc t pk pd (Node b BLACK bn bk bd bf)) cs)"
    using rep by simp
  have "b \<noteq> root_of t"
    using rp by (auto simp: rb_rep_plug)
  then show ?thesis
    using rb_rep_black_at [OF rep] t hole_not_root [OF rep] rb_rep_deref [OF rp] rb_rep_child_right [OF rp]
    by (subst rb_erase_loop.simps) (simp add: erase_rest_left_def)
qed

lemma rb_erase_loop_left_red:
  assumes rep: "rb_rep h root (plug t (LeftHole p pc pk pd (Node b RED (Node x BLACK xn xk xd xf) bk bd bf) # cs))"
    and t: "color_of t = BLACK"
  defines "t0 \<equiv> plug t (LeftHole p pc pk pd (Node b RED (Node x BLACK xn xk xd xf) bk bd bf) # cs)"
    and "t' \<equiv> plug (Node b BLACK (Node p RED t pk pd (Node x BLACK xn xk xd xf)) bk bd bf) cs"
  shows "\<exists>h'. rb_erase_loop h (root_of t) p root = erase_rest_left h' p x (root_of t') \<and> evolves h t0 h' t'"
proof -
  let ?X = "(Node x BLACK xn xk xd xf)"
  let ?t1 = "plug (Node p pc t pk pd (Node b BLACK ?X bk bd bf)) cs"
    and ?t2 = "plug (Node p RED t pk pd (Node b BLACK ?X bk bd bf)) cs"
  have rp: "rb_rep h root (plug (Node p pc t pk pd (Node b RED ?X bk bd bf)) cs)"
    using rep by simp
  have b: "b \<noteq> root_of t"
    using rp by (auto simp: rb_rep_plug)
  obtain h1 where h1: "store (set_color BLACK) h b = Some h1" "evolves h t0 h1 ?t1"
    using set_color_ok_right [OF rp, of BLACK] unfolding t0_def by auto
  obtain h2 where h2: "store (set_color RED) h1 p = Some h2" "evolves h1 ?t1 h2 ?t2"
    using set_color_ok [OF evolves_rep [OF h1(2)], of RED] by auto
  obtain h3 where h3: "rb_rotate_left h2 p root = Some (h3, root_of t')" "evolves h2 ?t2 h3 t'"
    using rb_rotate_left_ok [OF evolves_rep [OF h2(2)]] rb_rep_root [OF rp] unfolding t'_def by auto
  have "deref rb_right h3 p = Some x"
    using rb_rep_child_left(2) [OF evolves_rep [OF h3(2), unfolded t'_def]] by simp
  moreover have "evolves h t0 h3 t'"
    using h1(2) h2(2) h3(2) by (blast intro: evolves_trans)
  ultimately show ?thesis
    using rb_rep_black_at [OF rep] t hole_not_root [OF rep] rb_rep_deref [OF rp] rb_rep_child_right [OF rp]
      h1(1) h2(1) h3(1) b
    by (intro exI [of _ h3], subst rb_erase_loop.simps) (simp add: erase_rest_left_def)
qed

text \<open>The loop body from the test of the sibling's children on, with a black sibling.\<close>

definition erase_rest_right ::
    "rb_heap \<Rightarrow> addr \<Rightarrow> addr \<Rightarrow> addr \<Rightarrow> (rb_heap \<times> addr \<times> addr) option" where
  "erase_rest_right h parent other root = do {
     ol \<leftarrow> deref rb_left h other;
     lb \<leftarrow> black_at h ol;
     orr \<leftarrow> deref rb_right h other;
     rb \<leftarrow> black_at h orr;
     (if lb \<and> rb then do {
        h \<leftarrow> store (set_color RED) h other;
        gp \<leftarrow> deref rb_parent h parent;
        rb_erase_loop h parent gp root }
      else do {
        (h, root) \<leftarrow> rb_erase_finish_right h parent other root;
        Some (h, root, root) }) }"

lemma rb_erase_loop_right_black:
  assumes rep: "rb_rep h root (plug t (RightHole p pc (Node b BLACK bf bk bd bn) pk pd # cs))"
    and t: "color_of t = BLACK"
  shows "rb_erase_loop h (root_of t) p root = erase_rest_right h p b root"
proof -
  have rp: "rb_rep h root (plug (Node p pc (Node b BLACK bf bk bd bn) pk pd t) cs)"
    using rep by simp
  have "b \<noteq> root_of t"
    using rp by (auto simp: rb_rep_plug)
  then show ?thesis
    using rb_rep_black_at [OF rep] t hole_not_root [OF rep] rb_rep_deref [OF rp] rb_rep_child_left [OF rp]
    by (subst rb_erase_loop.simps) (simp add: erase_rest_right_def)
qed

lemma rb_erase_loop_right_red:
  assumes rep: "rb_rep h root (plug t (RightHole p pc (Node b RED bf bk bd (Node x BLACK xf xk xd xn)) pk pd # cs))"
    and t: "color_of t = BLACK"
  defines "t0 \<equiv> plug t (RightHole p pc (Node b RED bf bk bd (Node x BLACK xf xk xd xn)) pk pd # cs)"
    and "t' \<equiv> plug (Node b BLACK bf bk bd (Node p RED (Node x BLACK xf xk xd xn) pk pd t)) cs"
  shows "\<exists>h'. rb_erase_loop h (root_of t) p root = erase_rest_right h' p x (root_of t') \<and> evolves h t0 h' t'"
proof -
  let ?X = "(Node x BLACK xf xk xd xn)"
  let ?t1 = "plug (Node p pc (Node b BLACK bf bk bd ?X) pk pd t) cs"
    and ?t2 = "plug (Node p RED (Node b BLACK bf bk bd ?X) pk pd t) cs"
  have rp: "rb_rep h root (plug (Node p pc (Node b RED bf bk bd ?X) pk pd t) cs)"
    using rep by simp
  have b: "b \<noteq> root_of t"
    using rp by (auto simp: rb_rep_plug)
  obtain h1 where h1: "store (set_color BLACK) h b = Some h1" "evolves h t0 h1 ?t1"
    using set_color_ok_left [OF rp, of BLACK] unfolding t0_def by auto
  obtain h2 where h2: "store (set_color RED) h1 p = Some h2" "evolves h1 ?t1 h2 ?t2"
    using set_color_ok [OF evolves_rep [OF h1(2)], of RED] by auto
  obtain h3 where h3: "rb_rotate_right h2 p root = Some (h3, root_of t')" "evolves h2 ?t2 h3 t'"
    using rb_rotate_right_ok [OF evolves_rep [OF h2(2)]] rb_rep_root [OF rp] unfolding t'_def by auto
  have "deref rb_left h3 p = Some x"
    using rb_rep_child_right(1) [OF evolves_rep [OF h3(2), unfolded t'_def]] by simp
  moreover have "evolves h t0 h3 t'"
    using h1(2) h2(2) h3(2) by (blast intro: evolves_trans)
  ultimately show ?thesis
    using rb_rep_black_at [OF rep] t hole_not_root [OF rep] rb_rep_deref [OF rp] rb_rep_child_left [OF rp]
      h1(1) h2(1) h3(1) b
    by (intro exI [of _ h3], subst rb_erase_loop.simps) (simp add: erase_rest_right_def)
qed

lemma erase_rest_left_recolor:
  assumes rep: "rb_rep h root (plug (Node p pc t pk pd (Node b BLACK bn bk bd bf)) cs)"
    and black: "color_of bn = BLACK" "color_of bf = BLACK"
  defines "t0 \<equiv> plug (Node p pc t pk pd (Node b BLACK bn bk bd bf)) cs"
    and "t' \<equiv> plug (Node p pc t pk pd (Node b RED bn bk bd bf)) cs"
  shows "\<exists>h'. erase_rest_left h p b root = rb_erase_loop h' p (ctx_addr cs) (root_of t') \<and> evolves h t0 h' t'"
proof -
  obtain h' where h': "store (set_color RED) h b = Some h'" "evolves h t0 h' t'"
    using set_color_ok_right [OF rep, of RED] unfolding t0_def t'_def by auto
  then show ?thesis
    using rb_rep_child_right [OF rep] black rb_rep_root [OF rep]
      rb_rep_deref(3) [OF evolves_rep [OF h'(2), unfolded t'_def]]
    by (auto simp: erase_rest_left_def t'_def)
qed

lemma del_outcome_rest_left:
  assumes rep: "rb_rep h root (plug (Node p pc t pk pd (Node b BLACK bn bk bd bf)) cs)"
    and inv: "del_inv t (LeftHole p pc pk pd (Node b BLACK bn bk bd bf) # cs)" and t: "color_of t = BLACK"
    and IH: "\<And>h t. rb_rep h (root_of (plug t cs)) (plug t cs) \<Longrightarrow> del_inv t cs \<Longrightarrow> root_of t = p \<Longrightarrow> color_of t = pc \<Longrightarrow>
       del_outcome h (plug t cs) (rb_erase_loop h (root_of t) (ctx_addr cs) (root_of (plug t cs)))"
  shows "del_outcome h (plug (Node p pc t pk pd (Node b BLACK bn bk bd bf)) cs) (erase_rest_left h p b root)"
proof -
  let ?t0 = "plug (Node p pc t pk pd (Node b BLACK bn bk bd bf)) cs"
  consider "color_of bn = BLACK" "color_of bf = BLACK" | "color_of bf = RED" | "color_of bn = RED" "color_of bf = BLACK"
    by (metis color_t.exhaust)
  then show ?thesis
  proof cases
    case 1
    let ?t' = "(Node p pc t pk pd (Node b RED bn bk bd bf))"
    obtain h' where "erase_rest_left h p b root = rb_erase_loop h' p (ctx_addr cs) (root_of (plug ?t' cs))"
        "evolves h ?t0 h' (plug ?t' cs)"
      using erase_rest_left_recolor [OF rep 1] by auto
    moreover have "del_inv ?t' cs"
      using inv 1 t ctx_color_BLACK [of pc cs] ctx_invc_mono [of cs BLACK]
      by (auto simp: del_inv_def color_neq split: if_splits)
    ultimately show ?thesis
      using del_outcome_trans [OF _ IH [OF evolves_rep]] by (metis color_of.simps(2) root_of.simps(2))
  next
    case 2
    obtain h' t' where "rb_erase_finish_left h p b root = Some (h', root_of t')" "evolves h ?t0 h' t'"
      "t' = plug (Node b pc (Node p BLACK t pk pd bn) bk bd (paint BLACK bf)) cs"
      using rb_erase_finish_left_far [OF rep 2] by auto
    moreover have "rb_inv t'"
      using inv 2 t calculation(3) by (cases bf) (auto simp: del_inv_def rb_inv_def)
    ultimately show ?thesis
      using rb_rep_child_right [OF rep] 2 del_outcome_break [of h ?t0 h' t'] by (simp add: erase_rest_left_def)
  next
    case 3
    then obtain x xn xk xd xf where bn: "bn = (Node x RED xn xk xd xf)"
      by (cases bn) auto
    let ?t' = "plug (Node x pc (Node p BLACK t pk pd xn) xk xd (Node b BLACK xf bk bd bf)) cs"
    obtain h' where "rb_erase_finish_left h p b root = Some (h', root_of ?t')" "evolves h ?t0 h' ?t'"
      using rb_erase_finish_left_near [OF rep [unfolded bn] 3(2)] bn by auto
    moreover have "rb_inv ?t'"
      using inv 3 t bn by (auto simp: del_inv_def rb_inv_def)
    ultimately show ?thesis
      using rb_rep_child_right [OF rep] 3 del_outcome_break [of h ?t0 h' ?t'] by (simp add: erase_rest_left_def)
  qed
qed

lemma erase_rest_right_recolor:
  assumes rep: "rb_rep h root (plug (Node p pc (Node b BLACK bf bk bd bn) pk pd t) cs)"
    and black: "color_of bn = BLACK" "color_of bf = BLACK"
  defines "t0 \<equiv> plug (Node p pc (Node b BLACK bf bk bd bn) pk pd t) cs"
    and "t' \<equiv> plug (Node p pc (Node b RED bf bk bd bn) pk pd t) cs"
  shows "\<exists>h'. erase_rest_right h p b root = rb_erase_loop h' p (ctx_addr cs) (root_of t') \<and> evolves h t0 h' t'"
proof -
  obtain h' where h': "store (set_color RED) h b = Some h'" "evolves h t0 h' t'"
    using set_color_ok_left [OF rep, of RED] unfolding t0_def t'_def by auto
  then show ?thesis
    using rb_rep_child_left [OF rep] black rb_rep_root [OF rep]
      rb_rep_deref(3) [OF evolves_rep [OF h'(2), unfolded t'_def]]
    by (auto simp: erase_rest_right_def t'_def)
qed

lemma del_outcome_rest_right:
  assumes rep: "rb_rep h root (plug (Node p pc (Node b BLACK bf bk bd bn) pk pd t) cs)"
    and inv: "del_inv t (RightHole p pc (Node b BLACK bf bk bd bn) pk pd # cs)" and t: "color_of t = BLACK"
    and IH: "\<And>h t. rb_rep h (root_of (plug t cs)) (plug t cs) \<Longrightarrow> del_inv t cs \<Longrightarrow> root_of t = p \<Longrightarrow> color_of t = pc \<Longrightarrow>
       del_outcome h (plug t cs) (rb_erase_loop h (root_of t) (ctx_addr cs) (root_of (plug t cs)))"
  shows "del_outcome h (plug (Node p pc (Node b BLACK bf bk bd bn) pk pd t) cs) (erase_rest_right h p b root)"
proof -
  let ?t0 = "plug (Node p pc (Node b BLACK bf bk bd bn) pk pd t) cs"
  consider "color_of bn = BLACK" "color_of bf = BLACK" | "color_of bf = RED" | "color_of bn = RED" "color_of bf = BLACK"
    by (metis color_t.exhaust)
  then show ?thesis
  proof cases
    case 1
    let ?t' = "(Node p pc (Node b RED bf bk bd bn) pk pd t)"
    obtain h' where "erase_rest_right h p b root = rb_erase_loop h' p (ctx_addr cs) (root_of (plug ?t' cs))"
        "evolves h ?t0 h' (plug ?t' cs)"
      using erase_rest_right_recolor [OF rep 1] by auto
    moreover have "del_inv ?t' cs"
      using inv 1 t ctx_color_BLACK [of pc cs] ctx_invc_mono [of cs BLACK]
      by (auto simp: del_inv_def color_neq split: if_splits)
    ultimately show ?thesis
      using del_outcome_trans [OF _ IH [OF evolves_rep]] by (metis color_of.simps(2) root_of.simps(2))
  next
    case 2
    obtain h' t' where "rb_erase_finish_right h p b root = Some (h', root_of t')" "evolves h ?t0 h' t'"
      "t' = plug (Node b pc (paint BLACK bf) bk bd (Node p BLACK bn pk pd t)) cs"
      using rb_erase_finish_right_far [OF rep 2] by auto
    moreover have "rb_inv t'"
      using inv 2 t calculation(3) by (cases bf) (auto simp: del_inv_def rb_inv_def)
    ultimately show ?thesis
      using rb_rep_child_left [OF rep] 2 del_outcome_break [of h ?t0 h' t'] by (simp add: erase_rest_right_def)
  next
    case 3
    then obtain x xn xk xd xf where bn: "bn = (Node x RED xf xk xd xn)"
      by (cases bn) auto
    let ?t' = "plug (Node x pc (Node b BLACK bf bk bd xf) xk xd (Node p BLACK xn pk pd t)) cs"
    obtain h' where "rb_erase_finish_right h p b root = Some (h', root_of ?t')" "evolves h ?t0 h' ?t'"
      using rb_erase_finish_right_near [OF rep [unfolded bn] 3(2)] bn by auto
    moreover have "rb_inv ?t'"
      using inv 3 t bn by (auto simp: del_inv_def rb_inv_def)
    ultimately show ?thesis
      using rb_rep_child_left [OF rep] 3 del_outcome_break [of h ?t0 h' ?t'] by (simp add: erase_rest_right_def)
  qed
qed

lemma del_outcome_left:
  assumes rep: "rb_rep h root (plug t (LeftHole p pc pk pd s # cs))"
    and inv: "del_inv t (LeftHole p pc pk pd s # cs)" and t: "color_of t = BLACK"
    and IH: "\<And>h t. rb_rep h (root_of (plug t cs)) (plug t cs) \<Longrightarrow> del_inv t cs \<Longrightarrow>
       del_outcome h (plug t cs) (rb_erase_loop h (root_of t) (ctx_addr cs) (root_of (plug t cs)))"
  shows "del_outcome h (plug t (LeftHole p pc pk pd s # cs)) (rb_erase_loop h (root_of t) p root)"
proof -
  obtain b bc bn bk bd bf where s: "s = (Node b bc bn bk bd bf)"
    using inv by (cases s) (auto simp: del_inv_def)
  note rep = rep [unfolded s] and inv = inv [unfolded s]
  show ?thesis
  proof (cases bc)
    case BLACK
    show ?thesis
      using del_outcome_rest_left [OF _ inv [unfolded BLACK] t IH] rep
      unfolding rb_erase_loop_left_black [OF rep [unfolded BLACK] t] s BLACK by simp
  next
    case RED
    obtain x xn xk xd xf where bn: "bn = (Node x BLACK xn xk xd xf)"
      using inv RED by (cases bn) (auto simp: del_inv_def color_neq split: if_splits)
    let ?t' = "plug (Node p RED t pk pd bn) (LeftHole b BLACK bk bd bf # cs)"
    obtain h' where h': "rb_erase_loop h (root_of t) p root = erase_rest_left h' p x (root_of ?t')"
        and ev: "evolves h (plug t (LeftHole p pc pk pd s # cs)) h' ?t'"
      using rb_erase_loop_left_red [OF rep [unfolded RED bn] t] unfolding s RED bn by auto
    have "del_inv t (LeftHole p RED pk pd bn # LeftHole b BLACK bk bd bf # cs)"
      using inv t by (auto simp: del_inv_def RED bn split: if_splits)
    then have "del_outcome h' ?t' (erase_rest_left h' p x (root_of ?t'))"
      using del_outcome_rest_left [OF evolves_rep [OF ev, unfolded bn] _ t del_outcome_done] by (simp add: bn)
    then show ?thesis
      using del_outcome_trans [OF ev] h' by simp
  qed
qed

lemma del_outcome_right:
  assumes rep: "rb_rep h root (plug t (RightHole p pc s pk pd # cs))"
    and inv: "del_inv t (RightHole p pc s pk pd # cs)" and t: "color_of t = BLACK"
    and IH: "\<And>h t. rb_rep h (root_of (plug t cs)) (plug t cs) \<Longrightarrow> del_inv t cs \<Longrightarrow>
       del_outcome h (plug t cs) (rb_erase_loop h (root_of t) (ctx_addr cs) (root_of (plug t cs)))"
  shows "del_outcome h (plug t (RightHole p pc s pk pd # cs)) (rb_erase_loop h (root_of t) p root)"
proof -
  obtain b bc bn bk bd bf where s: "s = (Node b bc bf bk bd bn)"
    using inv by (cases s) (auto simp: del_inv_def)
  note rep = rep [unfolded s] and inv = inv [unfolded s]
  show ?thesis
  proof (cases bc)
    case BLACK
    show ?thesis
      using del_outcome_rest_right [OF _ inv [unfolded BLACK] t IH] rep
      unfolding rb_erase_loop_right_black [OF rep [unfolded BLACK] t] s BLACK by simp
  next
    case RED
    obtain x xn xk xd xf where bn: "bn = (Node x BLACK xf xk xd xn)"
      using inv RED by (cases bn) (auto simp: del_inv_def color_neq split: if_splits)
    let ?t' = "plug (Node p RED bn pk pd t) (RightHole b BLACK bf bk bd # cs)"
    obtain h' where h': "rb_erase_loop h (root_of t) p root = erase_rest_right h' p x (root_of ?t')"
        and ev: "evolves h (plug t (RightHole p pc s pk pd # cs)) h' ?t'"
      using rb_erase_loop_right_red [OF rep [unfolded RED bn] t] unfolding s RED bn by auto
    have "del_inv t (RightHole p RED bn pk pd # RightHole b BLACK bf bk bd # cs)"
      using inv t by (auto simp: del_inv_def RED bn split: if_splits)
    then have "del_outcome h' ?t' (erase_rest_right h' p x (root_of ?t'))"
      using del_outcome_rest_right [OF evolves_rep [OF ev, unfolded bn] _ t del_outcome_done] by (simp add: bn)
    then show ?thesis
      using del_outcome_trans [OF ev] h' by simp
  qed
qed

theorem rb_erase_loop_ok:
  assumes "rb_rep h (root_of (plug t cs)) (plug t cs)" and "del_inv t cs"
  shows "del_outcome h (plug t cs) (rb_erase_loop h (root_of t) (ctx_addr cs) (root_of (plug t cs)))"
  using assms
proof (induction "length cs" arbitrary: h t cs rule: less_induct)
  case less
  show ?case
  proof (cases "color_of t = RED \<or> cs = []")
    case True
    then show ?thesis
      using del_outcome_done less.prems by blast
  next
    case False
    then obtain c ds where cs: "cs = c # ds" and t: "color_of t = BLACK"
      by (cases cs) (auto simp: color_neq)
    have IH: "rb_rep h (root_of (plug t ds)) (plug t ds) \<Longrightarrow> del_inv t ds \<Longrightarrow>
       del_outcome h (plug t ds) (rb_erase_loop h (root_of t) (ctx_addr ds) (root_of (plug t ds)))" for h t
      using less.hyps cs by simp
    show ?thesis
    proof (cases c)
      case (LeftHole p pc pk pd s)
      then show ?thesis
        using del_outcome_left [OF _ _ t IH, of h _ p pc pk pd s] less.prems cs by simp
    next
      case (RightHole p pc s pk pd)
      then show ?thesis
        using del_outcome_right [OF _ _ t IH, of h _ p pc s pk pd] less.prems cs by simp
    qed
  qed
qed

lemma rb_erase_rebalance_ok:
  assumes "rb_rep h root (plug t cs)" and "del_inv t cs"
  shows "\<exists>h' t'. rb_erase_rebalance h (root_of t) (ctx_addr cs) root = Some (h', root_of t') \<and>
     evolves h (plug t cs) h' t' \<and> rb_inv t'"
  using rb_erase_loop_ok [of h t cs] assms rb_rep_root [OF assms(1)]
  by (simp add: del_outcome_def rb_erase_rebalance_def)

section \<open>Unlinking a node\<close>

lemma frame_same: "frame A h h' \<Longrightarrow> x \<notin> A \<Longrightarrow> h' x = h x"
  by (simp add: frame_def)

lemma frame_mono: "frame A h h' \<Longrightarrow> A \<subseteq> B \<Longrightarrow> frame B h h'"
  by (auto simp: frame_def)

lemma heap_tree_frame:
  "frame A h h' \<Longrightarrow> A \<inter> set (addrs t) = {} \<Longrightarrow> heap_tree h' p t = heap_tree h p t"
  by (induction t arbitrary: p) (auto simp: frame_def)

lemma heap_ctx_frame:
  "frame A h h' \<Longrightarrow> A \<inter> set (ctx_addrs cs) = {} \<Longrightarrow> heap_ctx h' q cs = heap_ctx h q cs"
  by (induction h q cs rule: heap_ctx.induct) (auto simp: frame_same heap_tree_frame Int_Un_distrib)

lemma reparent_ok:
  assumes "heap_tree h p t" and "distinct (addrs t)"
  shows "\<exists>h'. (if root_of t \<noteq> NULL then store (set_parent q) h (root_of t) else Some h) = Some h' \<and>
     heap_tree h' q t \<and> frame (set (addrs t)) h h'"
  using assms by (cases t) (auto simp: c_simps frame_def)

lemma replace_child_ok:
  assumes "heap_ctx h q cs" and "distinct (ctx_addrs cs)" and "q \<noteq> NULL" and "q \<notin> set (ctx_addrs cs)"
  shows "\<exists>h'. rb_replace_child h (ctx_addr cs) q q' (ctx_root q cs) = Some (h', ctx_root q' cs) \<and>
     heap_ctx h' q' cs \<and> frame (set (ctx_addrs cs)) h h'"
  using assms by (cases cs rule: ctx_addr.cases) (auto simp: rb_replace_child_def c_simps frame_def)

text \<open>A node with an empty subtree is replaced by its other subtree.\<close>

lemma unlink_ok:
  assumes rep: "rb_rep h root (plug (Node a c l k d r) cs)"
    and ct: "l = Leaf \<and> ct = r \<or> r = Leaf \<and> ct = l"
  shows "\<exists>h1 h2. (if root_of ct \<noteq> NULL then store (set_parent (ctx_addr cs)) h (root_of ct) else Some h) = Some h1 \<and>
     rb_replace_child h1 (ctx_addr cs) a (root_of ct) root = Some (h2, ctx_root (root_of ct) cs) \<and>
     rb_rep h2 (ctx_root (root_of ct) cs) (plug ct cs) \<and> h2 a = h a \<and>
     frame (set (addrs ct) \<union> set (ctx_addrs cs)) h h2"
proof -
  have ht: "heap_tree h a ct" "heap_ctx h a cs" "distinct (addrs ct)" "distinct (ctx_addrs cs)"
      "set (addrs ct) \<inter> set (ctx_addrs cs) = {}" "a \<notin> set (addrs ct)" "a \<notin> set (ctx_addrs cs)"
      "a \<noteq> NULL" "root = ctx_root a cs"
    using ct rep by (auto simp: rb_rep_plug)
  obtain h1 where h1: "(if root_of ct \<noteq> NULL then store (set_parent (ctx_addr cs)) h (root_of ct) else Some h) = Some h1"
      "heap_tree h1 (ctx_addr cs) ct" "frame (set (addrs ct)) h h1"
    using reparent_ok [OF ht(1,3)] by blast
  obtain h2 where h2: "rb_replace_child h1 (ctx_addr cs) a (root_of ct) root = Some (h2, ctx_root (root_of ct) cs)"
      "heap_ctx h2 (root_of ct) cs" "frame (set (ctx_addrs cs)) h1 h2"
    using replace_child_ok [of h1 a cs "root_of ct"] ht h1(3) by (auto simp: heap_ctx_frame)
  have "heap_tree h2 (ctx_addr cs) ct"
    using heap_tree_frame [OF h2(3)] h1(2) ht(5) by blast
  moreover have "frame (set (addrs ct) \<union> set (ctx_addrs cs)) h h2"
    using h1(3) h2(3) by (auto simp: frame_def)
  moreover from this have "h2 a = h a"
    using ht(6,7) by (simp add: frame_same)
  ultimately show ?thesis
    using h1(1) h2(1,2) ht(3-5) by (auto simp: rb_rep_plug)
qed

lemma rb_erase_one_ok:
  assumes rep: "rb_rep h root (plug (Node a c l k d r) cs)"
    and ct: "l = Leaf \<and> ct = r \<or> r = Leaf \<and> ct = l"
  shows "\<exists>h'. rb_erase_one h a root = Some (h', root_of ct, ctx_addr cs, c, ctx_root (root_of ct) cs) \<and>
     rb_rep h' (ctx_root (root_of ct) cs) (plug ct cs) \<and> h' a = h a \<and>
     frame (set (addrs ct) \<union> set (ctx_addrs cs)) h h'"
proof -
  have "(if root_of l = NULL then root_of r else root_of l) = root_of ct"
    using ct rep by (auto simp: rb_rep_plug root_of_NULL)
  then show ?thesis
    using unlink_ok [OF rep ct] rb_rep_deref [OF rep]
    by (auto simp: rb_erase_one_def)
qed

text \<open>
  The statements that put the block \<open>y\<close> in the place of \<open>n\<close>; \<open>f\<close> is the rest of the function.
\<close>

lemma relocate_ok:
  assumes rep: "rb_rep h root (plug (Node n c l k d r) cs)" and l: "l \<noteq> Leaf"
    and y: "y \<noteq> NULL" "y \<notin> set (addrs (plug (Node n c l k d r) cs))"
      "h y = Some yn" "rb_key yn = yk" "rb_data yn = yd"
  shows "\<exists>h'. do {
     op \<leftarrow> deref rb_parent h n;
     h \<leftarrow> store (set_parent op) h y;
     oc \<leftarrow> deref rb_color h n;
     h \<leftarrow> store (set_color oc) h y;
     orr \<leftarrow> deref rb_right h n;
     h \<leftarrow> store (set_right orr) h y;
     ol \<leftarrow> deref rb_left h n;
     h \<leftarrow> store (set_left ol) h y;
     (h, root) \<leftarrow> rb_replace_child h op n y root;
     ol \<leftarrow> deref rb_left h n;
     h \<leftarrow> store (set_parent y) h ol;
     orr \<leftarrow> deref rb_right h n;
     h \<leftarrow> (if orr \<noteq> NULL then store (set_parent y) h orr else Some h);
     f h root } = f h' (ctx_root y cs) \<and>
     rb_rep h' (ctx_root y cs) (plug (Node y c l yk yd r) cs) \<and> h' n = h n \<and>
     frame (insert y (set (addrs l) \<union> set (addrs r) \<union> set (ctx_addrs cs))) h h'"
proof -
  have ht: "heap_tree h n l" "heap_tree h n r" "heap_ctx h n cs" "n \<noteq> NULL" "root = ctx_root n cs"
      "distinct (addrs l)" "distinct (addrs r)" "distinct (ctx_addrs cs)"
    and dj: "set (addrs l) \<inter> set (addrs r) = {}" "set (addrs l) \<inter> set (ctx_addrs cs) = {}"
      "set (addrs r) \<inter> set (ctx_addrs cs) = {}"
      "n \<notin> set (addrs l)" "n \<notin> set (addrs r)" "n \<notin> set (ctx_addrs cs)"
      "y \<noteq> n" "y \<notin> set (addrs l)" "y \<notin> set (addrs r)" "y \<notin> set (ctx_addrs cs)"
    and n: "h n = Some \<lparr>rb_left = root_of l, rb_right = root_of r, rb_parent = ctx_addr cs,
           rb_key = k, rb_data = d, rb_color = c\<rparr>"
    using rep y by (auto simp: rb_rep_plug)
  let ?y = "\<lparr>rb_left = root_of l, rb_right = root_of r, rb_parent = ctx_addr cs,
           rb_key = yk, rb_data = yd, rb_color = c\<rparr>"
  let ?h1 = "h(y := Some ?y)"
  obtain h2 where h2: "rb_replace_child ?h1 (ctx_addr cs) n y root = Some (h2, ctx_root y cs)"
      "heap_ctx h2 y cs" "frame (set (ctx_addrs cs)) ?h1 h2"
    using replace_child_ok [of ?h1 n cs y] ht dj by auto
  have l2: "heap_tree h2 n l" "heap_tree h2 n r"
    using heap_tree_frame [OF h2(3)] ht(1,2) dj by (auto simp: Int_commute)
  obtain h3 where h3: "store (set_parent y) h2 (root_of l) = Some h3"
      "heap_tree h3 y l" "frame (set (addrs l)) h2 h3"
    using reparent_ok [OF l2(1) ht(6), of y] l ht(1) by (auto simp: root_of_NULL)
  have l3: "heap_tree h3 n r"
    using heap_tree_frame [OF h3(3)] l2 dj by blast
  obtain h4 where h4: "(if root_of r \<noteq> NULL then store (set_parent y) h3 (root_of r) else Some h3) = Some h4"
      "heap_tree h4 y r" "frame (set (addrs r)) h3 h4"
    using reparent_ok [OF l3 ht(7), of y] by blast
  have same: "h2 n = h n" "h3 n = h n" "h4 n = h n" "h4 y = Some ?y"
    using frame_same [OF h2(3)] frame_same [OF h3(3)] frame_same [OF h4(3)] dj by auto
  have "heap_tree h4 y l" "heap_ctx h4 y cs"
    using heap_tree_frame [OF h4(3), of l] h3(2) heap_ctx_frame [OF h4(3), of cs] heap_ctx_frame [OF h3(3), of cs]
      h2(2) dj by (auto simp: Int_commute)
  then have "rb_rep h4 (ctx_root y cs) (plug (Node y c l yk yd r) cs)"
    using h4(2) same(4) y(1) ht dj by (auto simp: rb_rep_plug)
  moreover have "frame (insert y (set (addrs l) \<union> set (addrs r) \<union> set (ctx_addrs cs))) h h4"
    using h2(3) h3(3) h4(3) by (auto simp: frame_def)
  moreover obtain yl yr' yp yc where
      "yn = \<lparr>rb_left = yl, rb_right = yr', rb_parent = yp, rb_key = yk, rb_data = yd, rb_color = yc\<rparr>"
    using y(4,5) by (cases yn) auto
  ultimately show ?thesis
    using h2(1) h3(1) h4(1) same n ht(4) y dj(7) by (intro exI [of _ h4]) (simp add: c_simps)
qed

section \<open>Two children: the successor\<close>

text \<open>The walk to the successor goes through left children only.\<close>

fun spine :: "rbt \<Rightarrow> crumb list \<Rightarrow> rbt \<times> crumb list" where
  "spine Leaf cs = (Leaf, cs)"
| "spine (Node a c l k d r) cs =
     (if l = Leaf then (Node a c l k d r, cs) else spine l (LeftHole a c k d r # cs))"

lemma spine_plug: "spine t cs = (t', cs') \<Longrightarrow> plug t' cs' = plug t cs"
  by (induction t cs rule: spine.induct) (auto split: if_splits)

lemma spine_focus: "spine t cs = (t', cs') \<Longrightarrow> t \<noteq> Leaf \<Longrightarrow> \<exists>y c k d r. t' = Node y c Leaf k d r"
  by (induction t cs rule: spine.induct) (auto split: if_splits)

lemma spine_before: "spine t cs = (t', cs') \<Longrightarrow> ctx_before cs' = ctx_before cs"
  by (induction t cs rule: spine.induct) (auto split: if_splits)

lemma spine_append: "spine t (cs @ ds) = (fst (spine t cs), snd (spine t cs) @ ds)"
  by (induction t cs rule: spine.induct) (auto simp del: append_Cons simp flip: append_Cons)

lemma rb_leftmost_ok:
  assumes "rb_rep h root (plug t cs)" and "t \<noteq> Leaf" and "spine t cs = (t', cs')"
  shows "rb_leftmost h (root_of t) = Some (root_of t')"
  using assms
proof (induction t cs rule: spine.induct)
  case (2 a c l k d r cs)
  have "deref rb_left h a = Some (root_of l)" "root_of l = NULL \<longleftrightarrow> l = Leaf"
    using rb_rep_deref [OF 2(2)] 2(2) by (auto simp: rb_rep_plug root_of_NULL)
  then show ?case
    using 2 by (subst rb_leftmost.simps) (auto split: if_splits)
qed simp

text \<open>The successor and its context below the erased node.\<close>

lemma spine_split:
  assumes "r \<noteq> Leaf"
  obtains y cy yk yd yr cs2 where "r = plug (Node y cy Leaf yk yd yr) cs2" "ctx_before cs2 = []"
    "\<And>ds. spine r ds = (Node y cy Leaf yk yd yr, cs2 @ ds)"
proof -
  obtain t' cs2 where s: "spine r [] = (t', cs2)"
    by fastforce
  then show thesis
    using spine_focus [OF s assms] spine_plug [OF s] spine_before [OF s] spine_append [of r "[]"]
    by (auto intro!: that [of _ _ _ _ _ cs2])
qed

lemma rb_erase_two_ok:
  assumes rep: "rb_rep h root (plug (Node n c l k d (plug (Node y cy Leaf yk yd yr) cs2)) cs)"
    and l: "l \<noteq> Leaf"
    and sp: "\<And>ds. spine (plug (Node y cy Leaf yk yd yr) cs2) ds = (Node y cy Leaf yk yd yr, cs2 @ ds)"
  defines "t' \<equiv> plug (Node y c l yk yd (plug yr cs2)) cs"
    and "cs' \<equiv> cs2 @ RightHole y c l yk yd # cs"
  shows "\<exists>h'. rb_erase_two h n root = Some (h', root_of yr, ctx_addr cs', cy, root_of t') \<and>
     rb_rep h' (root_of t') t' \<and> h' n \<noteq> None \<and>
     frame (set (addrs (plug (Node n c l k d (plug (Node y cy Leaf yk yd yr) cs2)) cs))) h h'"
proof -
  let ?r = "plug (Node y cy Leaf yk yd yr) cs2" and ?cs = "cs2 @ RightHole n c l k d # cs"
  have ry: "rb_rep h root (plug (Node y cy Leaf yk yd yr) ?cs)"
    and rr: "rb_rep h root (plug ?r (RightHole n c l k d # cs))"
    using rep by (simp_all add: plug_append)
  obtain h1 h2 where h1: "(if root_of yr \<noteq> NULL then store (set_parent (ctx_addr ?cs)) h (root_of yr) else Some h) = Some h1"
    and h2: "rb_replace_child h1 (ctx_addr ?cs) y (root_of yr) root = Some (h2, ctx_root (root_of yr) ?cs)"
      "rb_rep h2 (ctx_root (root_of yr) ?cs) (plug yr ?cs)" "h2 y = h y"
      "frame (set (addrs yr) \<union> set (ctx_addrs ?cs)) h h2"
    using unlink_ok [OF ry, of yr] by auto
  have y: "y \<noteq> NULL" "h2 y = Some \<lparr>rb_left = NULL, rb_right = root_of yr, rb_parent = ctx_addr ?cs,
           rb_key = yk, rb_data = yd, rb_color = cy\<rparr>"
    using rb_rep_node [OF ry] h2(3) by simp_all
  have r2: "rb_rep h2 (ctx_root (root_of yr) ?cs) (plug (Node n c l k d (plug yr cs2)) cs)"
    using h2(2) by (simp add: plug_append)
  have yn: "y \<notin> set (addrs (plug (Node n c l k d (plug yr cs2)) cs))"
    using rep by (auto simp: rb_rep_def)
  have lm: "rb_leftmost h (root_of ?r) = Some y"
    using rb_leftmost_ok [OF rr _ sp] by simp
  have par: "(if ctx_addr ?cs = n then y else ctx_addr ?cs) = ctx_addr cs'"
    using rep by (cases cs2 rule: ctx_addr.cases) (auto simp: cs'_def rb_rep_def)
  obtain h3 where h3: "rb_erase_two h n root = Some (h3, root_of yr, ctx_addr cs', cy, ctx_root y cs)"
      "rb_rep h3 (ctx_root y cs) t'" "h3 n = h2 n"
      "frame (insert y (set (addrs l) \<union> set (addrs (plug yr cs2)) \<union> set (ctx_addrs cs))) h2 h3"
    using relocate_ok [OF r2 l y(1) yn y(2) refl refl,
        where f = "\<lambda>h root. Some (h, root_of yr, ctx_addr cs', cy, root)"]
      rb_rep_deref [OF rep] rb_rep_deref [OF ry] lm h1 h2(1) y par
    unfolding rb_erase_two_def t'_def
    by (auto simp: c_simps)
  have "h3 n \<noteq> None"
    using h3(3) rb_rep_node(2) [OF r2] by simp
  moreover have "frame (set (addrs (plug (Node n c l k d ?r) cs))) h h3"
    using h2(4) h3(4) by (auto simp: frame_def)
  ultimately show ?thesis
    using h3(1,2) by (auto simp: t'_def)
qed

section \<open>Erasing\<close>

lemma unlink_inv:
  assumes "rb_inv (plug (Node a c l k d r) cs)" and "l = Leaf \<and> ct = r \<or> r = Leaf \<and> ct = l"
  shows "c = BLACK \<Longrightarrow> del_inv ct cs" and "c = RED \<Longrightarrow> rb_inv (plug ct cs)"
proof -
  have zero: "invh t \<Longrightarrow> invc t \<Longrightarrow> bheight t = 0 \<Longrightarrow> color_of t = BLACK \<Longrightarrow> t = Leaf" for t
    by (cases t) auto
  show "c = BLACK \<Longrightarrow> del_inv ct cs"
    using assms by (auto simp: rb_inv_def del_inv_def invc_paint)
  show "c = RED \<Longrightarrow> rb_inv (plug ct cs)"
    using assms zero [of l] zero [of r] ctx_color_BLACK [of RED cs] ctx_invc_mono [of cs BLACK]
    by (auto simp: rb_inv_def)
qed

text \<open>The invariants of a context do not depend on the pair in a crumb.\<close>

lemma ctx_inv_swap:
  "ctx_invc hc (cs2 @ RightHole a c l k d # cs) = ctx_invc hc (cs2 @ RightHole a' c l k' d' # cs)"
  "ctx_invh n (cs2 @ RightHole a c l k d # cs) = ctx_invh n (cs2 @ RightHole a' c l k' d' # cs)"
  "ctx_color hc (cs2 @ RightHole a c l k d # cs) = ctx_color hc (cs2 @ RightHole a' c l k' d' # cs)"
proof -
  show "ctx_invc hc (cs2 @ RightHole a c l k d # cs) = ctx_invc hc (cs2 @ RightHole a' c l k' d' # cs)"
    by (induction hc cs2 rule: ctx_invc.induct) auto
  show "ctx_invh n (cs2 @ RightHole a c l k d # cs) = ctx_invh n (cs2 @ RightHole a' c l k' d' # cs)"
    by (induction n cs2 rule: ctx_invh.induct) auto
  show "ctx_color hc (cs2 @ RightHole a c l k d # cs) = ctx_color hc (cs2 @ RightHole a' c l k' d' # cs)"
    by (induction hc cs2 rule: ctx_color.induct) auto
qed

lemma rb_inv_swap:
  "rb_inv (plug t (cs2 @ RightHole a c l k d # cs)) = rb_inv (plug t (cs2 @ RightHole a' c l k' d' # cs))"
  unfolding rb_inv_def invc_plug invh_plug color_of_plug
  using ctx_inv_swap [of _ cs2 a c l k d cs a' k' d'] by metis

lemma erase_inorder:
  assumes "bst t" and "inorder t = xs @ (key, d) # ys" and "inorder t' = xs @ ys"
  shows "bst t'" and "rbt_map t' = (rbt_map t)(key := None)"
proof -
  have *: "sorted_wrt (<) (map fst xs @ key # map fst ys)"
    using assms(1,2) by (simp add: bst_def)
  then show "bst t'"
    using assms(3) by (auto simp: bst_def sorted_wrt_append)
  have "key \<notin> fst ` set xs" "key \<notin> fst ` set ys"
    using * by (auto simp: sorted_wrt_append)
  then have "map_of xs key = None" "map_of ys key = None"
    by (simp_all add: map_of_eq_None_iff)
  then show "rbt_map t' = (rbt_map t)(key := None)"
    using assms(2,3) by (auto simp: rbt_map_def map_add_def fun_eq_iff split: option.splits)
qed

text \<open>
  After unlinking: the tree without the node, its hole, and what is left for the rebalancing.
\<close>

definition unlinked ::
    "rb_heap \<Rightarrow> addr \<Rightarrow> int \<times> int \<Rightarrow> rbt \<Rightarrow> (rb_heap \<times> addr \<times> addr \<times> color_t \<times> addr) option \<Rightarrow> bool" where
  "unlinked h n kd t res \<longleftrightarrow> (\<exists>h' ct cs color.
     res = Some (h', root_of ct, ctx_addr cs, color, root_of (plug ct cs)) \<and>
     rb_rep h' (root_of (plug ct cs)) (plug ct cs) \<and> h' n \<noteq> None \<and>
     set (addrs (plug ct cs)) = set (addrs t) - {n} \<and> frame (set (addrs t)) h h' \<and>
     (color = BLACK \<longrightarrow> del_inv ct cs) \<and> (color = RED \<longrightarrow> rb_inv (plug ct cs)) \<and>
     (\<exists>xs ys. inorder t = xs @ kd # ys \<and> inorder (plug ct cs) = xs @ ys))"

lemma unlinkedI:
  assumes "res = Some (h', root_of ct, ctx_addr cs, color, root_of (plug ct cs))"
    and "rb_rep h' (root_of (plug ct cs)) (plug ct cs)" and "h' n \<noteq> None"
    and "set (addrs (plug ct cs)) = set (addrs t) - {n}" and "frame (set (addrs t)) h h'"
    and "color = BLACK \<Longrightarrow> del_inv ct cs" and "color = RED \<Longrightarrow> rb_inv (plug ct cs)"
    and "inorder t = xs @ kd # ys" and "inorder (plug ct cs) = xs @ ys"
  shows "unlinked h n kd t res"
  using assms unfolding unlinked_def by blast

lemma unlinked_one:
  assumes rep: "rb_rep h root (plug (Node n c l k d r) cs)" and inv: "rb_inv (plug (Node n c l k d r) cs)"
    and leaf: "l = Leaf \<or> r = Leaf"
  shows "unlinked h n (k, d) (plug (Node n c l k d r) cs) (rb_erase_one h n root)"
proof -
  obtain ct where ct: "l = Leaf \<and> ct = r \<or> r = Leaf \<and> ct = l"
    using leaf by blast
  obtain h' where h': "rb_erase_one h n root = Some (h', root_of ct, ctx_addr cs, c, ctx_root (root_of ct) cs)"
      "rb_rep h' (ctx_root (root_of ct) cs) (plug ct cs)" "h' n = h n"
      "frame (set (addrs ct) \<union> set (ctx_addrs cs)) h h'"
    using rb_erase_one_ok [OF rep ct] by blast
  show ?thesis
  proof (rule unlinkedI [where xs = "ctx_before cs @ inorder l" and ys = "inorder r @ ctx_after cs"])
    show "rb_erase_one h n root = Some (h', root_of ct, ctx_addr cs, c, root_of (plug ct cs))"
      and "rb_rep h' (root_of (plug ct cs)) (plug ct cs)"
      using h'(1,2) by simp_all
    show "h' n \<noteq> None"
      using h'(3) rb_rep_node(2) [OF rep] by simp
    show "set (addrs (plug ct cs)) = set (addrs (plug (Node n c l k d r) cs)) - {n}"
      using ct rep by (auto simp: rb_rep_def)
    show "frame (set (addrs (plug (Node n c l k d r) cs))) h h'"
      using h'(4) ct by (auto simp: frame_def)
    show "inorder (plug ct cs) = (ctx_before cs @ inorder l) @ inorder r @ ctx_after cs"
      using ct by auto
  qed (use unlink_inv [OF inv ct] in simp_all)
qed

lemma unlinked_two:
  assumes rep: "rb_rep h root (plug (Node n c l k d r) cs)" and inv: "rb_inv (plug (Node n c l k d r) cs)"
    and leaf: "l \<noteq> Leaf" "r \<noteq> Leaf"
  shows "unlinked h n (k, d) (plug (Node n c l k d r) cs) (rb_erase_two h n root)"
proof -
  obtain y cy yk yd yr cs2 where r: "r = plug (Node y cy Leaf yk yd yr) cs2" "ctx_before cs2 = []"
    and sp: "\<And>ds. spine r ds = (Node y cy Leaf yk yd yr, cs2 @ ds)"
    using spine_split [OF leaf(2)] by metis
  let ?cs = "cs2 @ RightHole y c l yk yd # cs" and ?t = "plug (Node n c l k d r) cs"
  have t': "plug (Node y c l yk yd (plug yr cs2)) cs = plug yr ?cs"
    by (simp add: plug_append)
  obtain h' where h': "rb_erase_two h n root = Some (h', root_of yr, ctx_addr ?cs, cy, root_of (plug yr ?cs))"
      "rb_rep h' (root_of (plug yr ?cs)) (plug yr ?cs)" "h' n \<noteq> None" and fr: "frame (set (addrs ?t)) h h'"
    using rb_erase_two_ok [OF rep [unfolded r(1)] leaf(1) sp [unfolded r(1)]] unfolding r(1) t' by blast
  have iy: "rb_inv (plug (Node y cy Leaf yk yd yr) ?cs)"
    using inv rb_inv_swap [of _ cs2 n c l k d cs y yk yd] by (simp add: r(1) plug_append)
  show ?thesis
  proof (rule unlinkedI [OF h' _ fr, where xs = "ctx_before cs @ inorder l" and ys = "inorder r @ ctx_after cs"])
    show "set (addrs (plug yr ?cs)) = set (addrs ?t) - {n}"
      using rep unfolding t' [symmetric] by (auto simp: rb_rep_def r(1))
    show "inorder (plug yr ?cs) = (ctx_before cs @ inorder l) @ inorder r @ ctx_after cs"
      unfolding t' [symmetric] by (simp add: r)
    show "cy = BLACK \<Longrightarrow> del_inv yr ?cs" "cy = RED \<Longrightarrow> rb_inv (plug yr ?cs)"
      using unlink_inv [OF iy, of yr] by simp_all
  qed simp
qed

lemma rb_rep_free: "rb_rep h root t \<Longrightarrow> n \<notin> set (addrs t) \<Longrightarrow> rb_rep (h(n := None)) root t"
  by (simp add: rb_rep_def)

lemma rb_erase_absent:
  assumes "rb_rep h root t" and "bst t" and "comparable key t" and "key \<notin> keys t"
  shows "rb_erase h key root = Some (h, root)"
  using assms(1-3)
  by (cases rule: search_outcome) (use assms(4) in \<open>auto simp: rb_erase_def rb_search_auxiliary_def\<close>)

lemma rb_erase_overflow: "rb_rep h root t \<Longrightarrow> \<not> comparable key t \<Longrightarrow> rb_erase h key root = None"
  by (simp add: rb_erase_def rb_search_auxiliary_def search_overflow)

lemma rb_erase_present:
  assumes rep: "rb_rep h root t" and inv: "rb_inv t" and bst: "bst t"
    and int: "comparable key t" and key: "key \<in> keys t"
  shows "\<exists>n h' t'. rb_erase h key root = Some (h', root_of t') \<and>
     rb_rep h' (root_of t') t' \<and> rb_inv t' \<and> bst t' \<and> rbt_map t' = (rbt_map t)(key := None) \<and>
     n \<in> set (addrs t) \<and> deref rb_key h n = Some key \<and> h' n = None \<and>
     set (addrs t') = set (addrs t) - {n} \<and> frame (set (addrs t)) h h'"
proof -
  obtain n c l d r cs where t: "t = plug (Node n c l key d r) cs"
      and s: "rb_search_loop h key root NULL = Some (n, n)" "n \<noteq> NULL"
    using rep bst int by (cases rule: search_outcome) (use key in auto)
  note rn = rep [unfolded t]
  let ?res = "if root_of l \<noteq> NULL \<and> root_of r \<noteq> NULL then rb_erase_two h n root else rb_erase_one h n root"
  have "root_of l \<noteq> NULL \<longleftrightarrow> l \<noteq> Leaf" "root_of r \<noteq> NULL \<longleftrightarrow> r \<noteq> Leaf"
    using rn by (auto simp: rb_rep_plug root_of_NULL)
  then have "unlinked h n (key, d) t ?res"
    using unlinked_one [OF rn inv [unfolded t]] unlinked_two [OF rn inv [unfolded t]]
    by (simp add: t)
  then obtain h1 ct cs1 color xs ys where res: "?res = Some (h1, root_of ct, ctx_addr cs1, color, root_of (plug ct cs1))"
    and rep1: "rb_rep h1 (root_of (plug ct cs1)) (plug ct cs1)" and live: "h1 n \<noteq> None"
    and a1: "set (addrs (plug ct cs1)) = set (addrs t) - {n}" and fr: "frame (set (addrs t)) h h1"
    and inv1: "color = BLACK \<longrightarrow> del_inv ct cs1" "color = RED \<longrightarrow> rb_inv (plug ct cs1)"
    and io: "inorder t = xs @ (key, d) # ys" "inorder (plug ct cs1) = xs @ ys"
    unfolding unlinked_def by (elim exE conjE) (rule that)
  define h2 where "h2 = h1(n := None)"
  have rep2: "rb_rep h2 (root_of (plug ct cs1)) (plug ct cs1)"
    using rb_rep_free [OF rep1, of n] a1 unfolding h2_def by blast
  have "\<exists>h' t'. (if color = BLACK then rb_erase_rebalance h2 (root_of ct) (ctx_addr cs1) (root_of (plug ct cs1))
        else Some (h2, root_of (plug ct cs1))) = Some (h', root_of t') \<and>
      evolves h2 (plug ct cs1) h' t' \<and> rb_inv t'"
  proof (cases color)
    case RED
    then show ?thesis
      using inv1(2) evolves_refl [OF rep2] by (intro exI [of _ h2] exI [of _ "plug ct cs1"]) simp
  next
    case BLACK
    then show ?thesis
      using rb_erase_rebalance_ok [OF rep2] inv1(1) by simp
  qed
  then obtain h' t' where reb: "(if color = BLACK then rb_erase_rebalance h2 (root_of ct) (ctx_addr cs1) (root_of (plug ct cs1))
        else Some (h2, root_of (plug ct cs1))) = Some (h', root_of t')"
      and ev: "evolves h2 (plug ct cs1) h' t'" and inv': "rb_inv t'"
    by blast
  have free: "c_free h1 n = Some h2"
    using live s(2) by (auto simp: c_free_def h2_def)
  have n: "n \<in> set (addrs t)" "deref rb_key h n = Some key"
    using rb_rep_deref(4) [OF rn] by (simp_all add: t)
  have "rb_erase h key root = Some (h', root_of t')"
    using s res reb rb_rep_deref(1,2) [OF rn] free
    by (cases color) (simp_all add: rb_erase_def rb_search_auxiliary_def)
  moreover have "bst t'" "rbt_map t' = (rbt_map t)(key := None)"
    using erase_inorder [OF bst io(1), of t'] io(2) ev by (simp_all add: evolves_def)
  moreover have fr2: "frame (set (addrs t) - {n}) h2 h'" and at: "set (addrs t') = set (addrs t) - {n}"
    using ev by (simp_all only: evolves_def a1)
  moreover have "h' n = None"
    using frame_same [OF fr2, of n] by (simp add: h2_def)
  moreover have "frame (set (addrs t)) h h'"
    using fr fr2 n(1) unfolding frame_def h2_def by (metis Diff_iff fun_upd_other)
  ultimately show ?thesis
    using n evolves_rep [OF ev] inv' by (intro exI [of _ n] exI [of _ h'] exI [of _ t']) simp
qed

end
