(* ===== verification/RB_Dict.thy ===== *)
theory RB_Dict
  imports RB_Erase
begin

text \<open>
  The contract of the red-black tree, its refinement by the heap operations, the balance
  it guarantees, and the test program \<open>main\<close> of \<^verbatim>\<open>rbtree.c\<close> as its client.
\<close>

section \<open>The contract\<close>

text \<open>
  A dictionary on a heap: \<open>holds h r m\<close> says that the root \<open>r\<close> stands for the map \<open>m\<close>.
  A key fits when its difference to every stored key is an \<^verbatim>\<open>int\<close>.
\<close>

definition fits :: "int \<Rightarrow> (int \<rightharpoonup> int) \<Rightarrow> bool" where
  "fits key m \<longleftrightarrow> (\<forall>x \<in> dom m. in_int (x - key))"

definition add_new :: "int \<Rightarrow> int \<Rightarrow> (int \<rightharpoonup> int) \<Rightarrow> (int \<rightharpoonup> int)" where
  "add_new key data m = (if key \<in> dom m then m else m(key \<mapsto> data))"

datatype dict_cmd = Ins int int | Del int

fun cmd_key :: "dict_cmd \<Rightarrow> int" where
  "cmd_key (Ins key data) = key"
| "cmd_key (Del key) = key"

fun dict_spec :: "dict_cmd \<Rightarrow> (int \<rightharpoonup> int) \<Rightarrow> (int \<rightharpoonup> int)" where
  "dict_spec (Ins key data) m = add_new key data m"
| "dict_spec (Del key) m = m(key := None)"

fun run_cmd ::
    "('h \<Rightarrow> int \<Rightarrow> int \<Rightarrow> addr \<Rightarrow> ('h \<times> addr) outcome option) \<Rightarrow> ('h \<Rightarrow> int \<Rightarrow> addr \<Rightarrow> ('h \<times> addr) option) \<Rightarrow>
     'h \<Rightarrow> addr \<Rightarrow> dict_cmd \<Rightarrow> ('h \<times> addr) outcome option" where
  "run_cmd ins del h r (Ins key data) = ins h key data r"
| "run_cmd ins del h r (Del key) = map_option Ret (del h key r)"

fun run_cmds ::
    "('h \<Rightarrow> int \<Rightarrow> int \<Rightarrow> addr \<Rightarrow> ('h \<times> addr) outcome option) \<Rightarrow> ('h \<Rightarrow> int \<Rightarrow> addr \<Rightarrow> ('h \<times> addr) option) \<Rightarrow>
     'h \<Rightarrow> addr \<Rightarrow> dict_cmd list \<Rightarrow> ('h \<times> addr) outcome option" where
  "run_cmds ins del h r [] = Some (Ret (h, r))"
| "run_cmds ins del h r (c # cs) =
     (case run_cmd ins del h r c of
        None \<Rightarrow> None
      | Some (Exit e) \<Rightarrow> Some (Exit e)
      | Some (Ret (h', r')) \<Rightarrow> run_cmds ins del h' r' cs)"

locale heap_dict =
  fixes ins :: "('n heap \<Rightarrow> addr) \<Rightarrow> 'n heap \<Rightarrow> int \<Rightarrow> int \<Rightarrow> addr \<Rightarrow> ('n heap \<times> addr) outcome option"
    and search :: "'n heap \<Rightarrow> int \<Rightarrow> addr \<Rightarrow> addr option"
    and del :: "'n heap \<Rightarrow> int \<Rightarrow> addr \<Rightarrow> ('n heap \<times> addr) option"
    and data_of :: "'n \<Rightarrow> int"
    and holds :: "'n heap \<Rightarrow> addr \<Rightarrow> (int \<rightharpoonup> int) \<Rightarrow> bool"
  assumes holds_empty: "finite (dom h) \<Longrightarrow> holds h NULL Map.empty"
    and holds_finite: "holds h r m \<Longrightarrow> finite (dom h)"
    and holds_NULL: "holds h NULL m \<Longrightarrow> m = Map.empty"
    and ins_ok: "holds h r m \<Longrightarrow> fits key m \<Longrightarrow> malloc_ok malloc \<Longrightarrow> malloc h \<noteq> NULL \<Longrightarrow>
      \<exists>h' r'. ins malloc h key data r = Some (Ret (h', r')) \<and> holds h' r' (add_new key data m)"
    and search_ok: "holds h r m \<Longrightarrow> fits key m \<Longrightarrow>
      \<exists>p. search h key r = Some p \<and> (p = NULL \<longleftrightarrow> m key = None) \<and>
        (p \<noteq> NULL \<longrightarrow> deref data_of h p = m key)"
    and del_ok: "holds h r m \<Longrightarrow> fits key m \<Longrightarrow>
      \<exists>h' r'. del h key r = Some (h', r') \<and> holds h' r' (m(key := None))"
begin

text \<open>Every sequence of commands refines the corresponding updates of the map.\<close>

lemma run_cmds_ok:
  assumes "holds h r m" and "malloc_ok malloc" and "malloc_total malloc"
    and "\<And>x y. x \<in> dom m \<union> cmd_key ` set cs \<Longrightarrow> y \<in> cmd_key ` set cs \<Longrightarrow> in_int (x - y)"
  shows "\<exists>h' r'. run_cmds (ins malloc) del h r cs = Some (Ret (h', r')) \<and> holds h' r' (fold dict_spec cs m)"
  using assms
proof (induction cs arbitrary: h r m)
  case (Cons c cs)
  have fit: "fits (cmd_key c) m"
    using Cons.prems(4) by (auto simp: fits_def)
  have mem: "malloc h \<noteq> NULL"
    using holds_finite [OF Cons.prems(1)] Cons.prems(3) by (simp add: malloc_total_def)
  have "\<exists>h' r'. run_cmd (ins malloc) del h r c = Some (Ret (h', r')) \<and> holds h' r' (dict_spec c m)"
    using ins_ok [OF Cons.prems(1) _ Cons.prems(2) mem] del_ok [OF Cons.prems(1)] fit by (cases c) fastforce+
  then obtain h' r' where *: "run_cmd (ins malloc) del h r c = Some (Ret (h', r'))" "holds h' r' (dict_spec c m)"
    by blast
  have "dom (dict_spec c m) \<subseteq> insert (cmd_key c) (dom m)"
    by (cases c) (auto simp: add_new_def split: if_splits)
  then have "in_int (x - y)" if "x \<in> dom (dict_spec c m) \<union> cmd_key ` set cs" "y \<in> cmd_key ` set cs" for x y
    using that Cons.prems(4) [of x y] by auto
  then show ?case
    using Cons.IH [OF *(2) Cons.prems(2,3)] * by auto
qed simp

text \<open>A key that was just inserted is found, with the value of its first insertion.\<close>

lemma search_after_ins:
  assumes "holds h r m" and "fits key m" and "malloc_ok malloc" and "malloc h \<noteq> NULL"
  shows "\<exists>h' r' p. ins malloc h key data r = Some (Ret (h', r')) \<and> r' \<noteq> NULL \<and>
     search h' key r' = Some p \<and> p \<noteq> NULL \<and> deref data_of h' p = Some (case m key of None \<Rightarrow> data | Some d \<Rightarrow> d) \<and>
     holds h' r' (add_new key data m)"
proof -
  obtain h' r' where 1: "ins malloc h key data r = Some (Ret (h', r'))" "holds h' r' (add_new key data m)"
    using ins_ok [OF assms(1-4)] by blast
  have fit: "fits key (add_new key data m)" and key: "add_new key data m key = Some (case m key of None \<Rightarrow> data | Some d \<Rightarrow> d)"
    using assms(2) by (auto simp: fits_def add_new_def split: option.splits)
  moreover have "r' \<noteq> NULL"
    using holds_NULL [of h' "add_new key data m"] 1(2) key by (metis option.distinct(1))
  ultimately show ?thesis
    using 1 search_ok [OF 1(2) fit] by auto
qed

end

section \<open>The tree implements it\<close>

definition rb_dict :: "rb_heap \<Rightarrow> addr \<Rightarrow> (int \<rightharpoonup> int) \<Rightarrow> bool" where
  "rb_dict h root m \<longleftrightarrow> finite (dom h) \<and> (\<exists>t. rb_rep h root t \<and> rb_inv t \<and> bst t \<and> rbt_map t = m)"

lemma frame_finite: "frame A h h' \<Longrightarrow> finite A \<Longrightarrow> finite (dom h) \<Longrightarrow> finite (dom h')"
  by (rule finite_subset [of _ "A \<union> dom h"]) (auto simp: frame_def dom_def)

lemma rb_dictI:
  "rb_rep h' root t \<Longrightarrow> rb_inv t \<Longrightarrow> bst t \<Longrightarrow> rbt_map t = m \<Longrightarrow> frame A h h' \<Longrightarrow> finite A \<Longrightarrow>
   finite (dom h) \<Longrightarrow> rb_dict h' root m"
  using frame_finite by (auto simp: rb_dict_def)

lemma rb_dictE:
  assumes "rb_dict h root m" and "fits key m"
  obtains t where "finite (dom h)" "rb_rep h root t" "rb_inv t" "bst t" "rbt_map t = m" "comparable key t"
  using assms comparable_keys by (auto simp: rb_dict_def fits_def dom_rbt_map)

lemma rb_dict_insert:
  assumes "rb_dict h root m" and "fits key m" and "malloc_ok malloc" and "malloc h \<noteq> NULL"
  shows "\<exists>h' root'. rb_insert malloc junk h key data root = Some (Ret (h', root')) \<and>
     rb_dict h' root' (add_new key data m)"
proof -
  obtain t where fin: "finite (dom h)" and t: "rb_rep h root t" "rb_inv t" "bst t" "rbt_map t = m"
      "comparable key t"
    using rb_dictE [OF assms(1,2)] .
  show ?thesis
  proof (cases "key \<in> keys t")
    case True
    then show ?thesis
      using rb_insert_present [OF t(1,3,5)] assms(1) t(4) dom_rbt_map [of t] by (auto simp: add_new_def)
  next
    case False
    then have "add_new key data m = m(key \<mapsto> data)"
      using t(4) dom_rbt_map [of t] by (auto simp: add_new_def)
    then show ?thesis
      using rb_insert_absent [where malloc = malloc, OF t(1-3,5) False refl assms(4) malloc_okD [OF assms(3,4)]]
        t(4) rb_dictI [OF _ _ _ _ _ _ fin] by (metis finite_insert finite_set)
  qed
qed

lemma rb_dict_search:
  assumes "rb_dict h root m" and "fits key m"
  shows "\<exists>p. rb_search h key root = Some p \<and> (p = NULL \<longleftrightarrow> m key = None) \<and>
     (p \<noteq> NULL \<longrightarrow> deref rb_data h p = m key)"
proof -
  obtain t where t: "rb_rep h root t" "bst t" "rbt_map t = m" "comparable key t"
    using rb_dictE [OF assms] .
  show ?thesis
    using rb_search_ok [OF t(1,2,4)] t(3) dom_rbt_map [of t] by (auto simp: domIff)
qed

lemma rb_dict_erase:
  assumes "rb_dict h root m" and "fits key m"
  shows "\<exists>h' root'. rb_erase h key root = Some (h', root') \<and> rb_dict h' root' (m(key := None))"
proof -
  obtain t where fin: "finite (dom h)" and t: "rb_rep h root t" "rb_inv t" "bst t" "rbt_map t = m"
      "comparable key t"
    using rb_dictE [OF assms] .
  show ?thesis
  proof (cases "key \<in> keys t")
    case True
    then show ?thesis
      using rb_erase_present [OF t(1-3,5) True] t(4) rb_dictI [OF _ _ _ _ _ _ fin] by (metis finite_set)
  next
    case False
    then have "m(key := None) = m"
      using t(4) dom_rbt_map [of t] by (auto simp: domIff)
    then show ?thesis
      using rb_erase_absent [OF t(1,3,5) False] assms(1) by auto
  qed
qed

lemma rb_dict_empty: "rb_dict h NULL m \<longleftrightarrow> finite (dom h) \<and> m = Map.empty"
proof -
  have "rb_rep h NULL t \<longleftrightarrow> t = Leaf" for t
    by (cases t) (auto simp: rb_rep_def)
  then show ?thesis
    by (auto simp: rb_dict_def rb_inv_def bst_def rbt_map_def)
qed

lemma rb_dict_finite: "rb_dict h root m \<Longrightarrow> finite (dom h)"
  by (simp add: rb_dict_def)

interpretation rbd: heap_dict "\<lambda>malloc. rb_insert malloc junk" rb_search rb_erase rb_data rb_dict
  by unfold_locales
    ((rule rb_dict_insert rb_dict_search rb_dict_erase rb_dict_finite; assumption) | simp add: rb_dict_empty)+

section \<open>Balance\<close>

fun height :: "rbt \<Rightarrow> nat" where
  "height Leaf = 0"
| "height (Node a c l k d r) = Suc (max (height l) (height r))"

fun nodes :: "rbt \<Rightarrow> nat" where
  "nodes Leaf = 0"
| "nodes (Node a c l k d r) = Suc (nodes l + nodes r)"

lemma height_bheight: "invc t \<Longrightarrow> invh t \<Longrightarrow> height t \<le> 2 * bheight t + (if color_of t = RED then 1 else 0)"
  by (induction t) (auto simp: color_neq split: if_splits)

lemma bheight_nodes: "invh t \<Longrightarrow> 2 ^ bheight t \<le> nodes t + 1"
  by (induction t) auto

lemma nodes_keys: "bst t \<Longrightarrow> nodes t = card (keys t)"
proof -
  assume "bst t"
  then have "distinct (map fst (inorder t))"
    using strict_sorted_iff by (auto simp: bst_def)
  moreover have "nodes t = length (inorder t)"
    by (induction t) auto
  ultimately show ?thesis
    using distinct_card [of "map fst (inorder t)"] by (simp add: keys_def)
qed

lemma height_bound:
  assumes "rb_inv t" and "bst t"
  shows "2 ^ height t \<le> (card (keys t) + 1)\<^sup>2"
proof -
  have "(2::nat) ^ height t \<le> 2 ^ (2 * bheight t)"
    using height_bheight [of t] assms(1) by (intro power_increasing) (auto simp: rb_inv_def)
  also have "\<dots> = (2 ^ bheight t)\<^sup>2"
    by (simp add: power_mult mult.commute flip: power_mult)
  also have "\<dots> \<le> (card (keys t) + 1)\<^sup>2"
    using bheight_nodes [of t] nodes_keys [OF assms(2)] assms(1) by (intro power_mono) (auto simp: rb_inv_def)
  finally show ?thesis .
qed

text \<open>A descent along child pointers: \<open>True\<close> is a step to the left; the last pointer may be NULL.\<close>

fun child_path :: "rb_heap \<Rightarrow> addr \<Rightarrow> bool list \<Rightarrow> addr option" where
  "child_path h p [] = Some p"
| "child_path h p (b # bs) = do { q \<leftarrow> deref (if b then rb_left else rb_right) h p; child_path h q bs }"

lemma child_path_height:
  assumes "rb_rep h root (plug t cs)" and "child_path h (root_of t) ds = Some p"
  shows "length ds \<le> height t"
  using assms
proof (induction ds arbitrary: t cs)
  case (Cons b ds)
  show ?case
  proof (cases t)
    case Leaf
    then show ?thesis
      using Cons.prems(2) by (simp add: deref_def)
  next
    case (Node a c l k d r)
    note rep = Cons.prems(1) [unfolded Node]
    show ?thesis
    proof (cases b)
      case True
      then have "length ds \<le> height l"
        using Cons.IH [of l "LeftHole a c k d r # cs"] Cons.prems rb_rep_deref(1) [OF rep] Node by simp
      then show ?thesis
        using Node by simp
    next
      case False
      then have "length ds \<le> height r"
        using Cons.IH [of r "RightHole a c l k d # cs"] Cons.prems rb_rep_deref(2) [OF rep] Node by simp
      then show ?thesis
        using Node by simp
    qed
  qed
qed simp

lemma rb_dict_paths:
  assumes "rb_dict h root m" and "child_path h root ds = Some p"
  shows "2 ^ length ds \<le> (card (dom m) + 1)\<^sup>2"
proof -
  obtain t where t: "rb_rep h root t" "rb_inv t" "bst t" "rbt_map t = m"
    using assms(1) by (auto simp: rb_dict_def)
  have "length ds \<le> height t"
    using child_path_height [of h root t "[]"] t(1) assms(2) by (auto simp: rb_rep_def)
  then have "(2 :: nat) ^ length ds \<le> 2 ^ height t"
    by simp
  also have "\<dots> \<le> (card (dom m) + 1)\<^sup>2"
    using height_bound [OF t(2,3)] t(4) dom_rbt_map [of t] by simp
  finally show ?thesis .
qed

section \<open>The test program\<close>

datatype rb_event =
  Insert_success nat int | Search_success nat int | Erase_success nat int | Erase_error nat int

text \<open>\<^verbatim>\<open>rand\<close> returns a number between 0 and \<^verbatim>\<open>RAND_MAX\<close>; the key of round \<open>i\<close> is \<^verbatim>\<open>rand() % count\<close>.\<close>

definition rand_ok :: "(nat \<Rightarrow> int) \<Rightarrow> bool" where
  "rand_ok rnd \<longleftrightarrow> (\<forall>i. 0 \<le> rnd i)"

definition main_key :: "(nat \<Rightarrow> int) \<Rightarrow> nat \<Rightarrow> int" where
  "main_key rnd i = rnd i mod 9000"

fun rb_main_loop ::
    "(rb_heap \<Rightarrow> addr) \<Rightarrow> rb_node \<Rightarrow> (nat \<Rightarrow> int) \<Rightarrow> nat list \<Rightarrow> rb_heap \<Rightarrow> addr \<Rightarrow> rb_event list \<Rightarrow>
     (rb_heap \<times> addr \<times> rb_event list) outcome option" where
  "rb_main_loop malloc junk rnd [] h root out = Some (Ret (h, root, out))"
| "rb_main_loop malloc junk rnd (i # is) h root out = do {
     key \<leftarrow> Some (main_key rnd i);
     res \<leftarrow> rb_insert malloc junk h key (int i) root;
     (case res of
        Exit e \<Rightarrow> Some (Exit e)
      | Ret (h, root) \<Rightarrow>
          if root = NULL then Some (Exit (- 1))
          else do {
            node \<leftarrow> rb_search h key root;
            (if node = NULL then Some (Exit (- 1))
             else do {
               out \<leftarrow> Some (out @ [Insert_success i key, Search_success i key]);
               (h, root, out) \<leftarrow> (if i mod 10 = 0 then do {
                   (h, root) \<leftarrow> rb_erase h key root;
                   Some (h, root, out @ [if root \<noteq> NULL then Erase_success i key else Erase_error i key]) }
                 else Some (h, root, out));
               rb_main_loop malloc junk rnd is h root out }) }) }"

definition rb_main ::
    "(rb_heap \<Rightarrow> addr) \<Rightarrow> rb_node \<Rightarrow> (nat \<Rightarrow> int) \<Rightarrow> rb_heap \<Rightarrow> (rb_heap \<times> addr \<times> rb_event list) outcome option" where
  "rb_main malloc junk rnd h = rb_main_loop malloc junk rnd [1..<9000] h NULL []"

definition main_spec :: "(nat \<Rightarrow> int) \<Rightarrow> nat \<Rightarrow> (int \<rightharpoonup> int) \<Rightarrow> (int \<rightharpoonup> int)" where
  "main_spec rnd i m =
     (let key = main_key rnd i; m' = add_new key (int i) m in if i mod 10 = 0 then m'(key := None) else m')"

lemma main_key_range: "rand_ok rnd \<Longrightarrow> main_key rnd i \<in> {0..<9000}"
  by (simp add: main_key_def)

lemma fits_range: "dom m \<subseteq> {0..<9000} \<Longrightarrow> key \<in> {0..<9000} \<Longrightarrow> fits key m"
  by (fastforce simp: fits_def in_int_def INT_MIN_def INT_MAX_def)

lemma main_spec_dom: "rand_ok rnd \<Longrightarrow> dom m \<subseteq> {0..<9000} \<Longrightarrow> dom (main_spec rnd i m) \<subseteq> {0..<9000}"
  using main_key_range [of rnd i] by (auto simp: main_spec_def add_new_def Let_def split: if_splits)

lemma rb_main_loop_ok:
  assumes "rb_dict h root m" and "dom m \<subseteq> {0..<9000}"
    and "rand_ok rnd" and "malloc_ok malloc" and "malloc_total malloc"
  shows "\<exists>h' root' out'. rb_main_loop malloc junk rnd is h root out = Some (Ret (h', root', out')) \<and>
     rb_dict h' root' (fold (main_spec rnd) is m)"
  using assms(1,2)
proof (induction "is" arbitrary: h root m out)
  case (Cons i "is")
  let ?key = "main_key rnd i"
  let ?m = "add_new ?key (int i) m"
  have fit: "fits ?key m" "fits ?key ?m"
    using fits_range [OF _ main_key_range [OF assms(3)], of m i] Cons.prems(2) main_key_range [OF assms(3), of i]
      fits_range [of ?m ?key] by (auto simp: add_new_def split: if_splits)
  have mem: "malloc h \<noteq> NULL"
    using rb_dict_finite [OF Cons.prems(1)] assms(5) by (simp add: malloc_total_def)
  obtain h1 r1 p where 1: "rb_insert malloc junk h ?key (int i) root = Some (Ret (h1, r1))" "r1 \<noteq> NULL"
      "rb_search h1 ?key r1 = Some p" "p \<noteq> NULL" "rb_dict h1 r1 ?m"
    using rbd.search_after_ins [OF Cons.prems(1) fit(1) assms(4) mem, of junk "int i"] by blast
  obtain h2 r2 where 2: "rb_erase h1 ?key r1 = Some (h2, r2)" "rb_dict h2 r2 (?m(?key := None))"
    using rb_dict_erase [OF 1(5) fit(2)] by blast
  have dom: "dom (main_spec rnd i m) \<subseteq> {0..<9000}"
    using main_spec_dom [OF assms(3) Cons.prems(2)] .
  show ?case
  proof (cases "i mod 10 = 0")
    case True
    then have "rb_dict h2 r2 (main_spec rnd i m)"
      using 2(2) by (simp add: main_spec_def Let_def)
    from Cons.IH [OF this dom] show ?thesis
      using 1(1-4) 2(1) True by simp
  next
    case False
    then have "rb_dict h1 r1 (main_spec rnd i m)"
      using 1(5) by (simp add: main_spec_def Let_def)
    from Cons.IH [OF this dom] show ?thesis
      using 1(1-4) False by simp
  qed
qed simp

section \<open>Properties\<close>

text \<open>
  C1: \<open>rb_insert\<close> on any heap that holds a red-black search tree, for any key and data. When the
  difference of the key and a key it is compared with on its way down overflows, the behaviour is
  undefined. Otherwise the call returns the root of a red-black search tree again: a key that is present leaves the
  map as it is, a new key is added with its data, and the only block written outside the
  tree is the one \<^verbatim>\<open>malloc\<close> returned; when \<^verbatim>\<open>malloc\<close> fails for a new key the program ends with \<^verbatim>\<open>exit(-1)\<close>.
\<close>

theorem rb_insert_correct:
  assumes "rb_rep h root t" and "rb_inv t" and "bst t" and "malloc_ok malloc"
  shows "if \<not> comparable key t then rb_insert malloc junk h key data root = None
    else if key \<notin> keys t \<and> malloc h = NULL then rb_insert malloc junk h key data root = Some (Exit (- 1))
    else \<exists>h' t'. rb_insert malloc junk h key data root = Some (Ret (h', root_of t')) \<and>
     rb_rep h' (root_of t') t' \<and> rb_inv t' \<and> bst t' \<and>
     rbt_map t' = (if key \<in> keys t then rbt_map t else (rbt_map t)(key \<mapsto> data)) \<and>
     (if key \<in> keys t then h' = h \<and> t' = t
      else set (addrs t') = insert (malloc h) (set (addrs t)) \<and> frame (insert (malloc h) (set (addrs t))) h h')"
proof (cases "comparable key t")
  case int: True
  show ?thesis
  proof (cases "key \<in> keys t")
    case True
    then have "\<exists>h' t'. rb_insert malloc junk h key data root = Some (Ret (h', root_of t')) \<and> rb_rep h' (root_of t') t' \<and>
        rb_inv t' \<and> bst t' \<and> rbt_map t' = rbt_map t \<and> h' = h \<and> t' = t"
      using rb_insert_present [OF assms(1,3) int True] assms(1-3) by (intro exI [of _ h] exI [of _ t]) (simp add: rb_rep_def)
    then show ?thesis
      using int True by simp
  next
    case new: False
    show ?thesis
    proof (cases "malloc h = NULL")
      case True
      then show ?thesis
        using rb_insert_no_memory [where malloc = malloc, OF assms(1,3) int new] int new by simp
    next
      case False
      then show ?thesis
        using rb_insert_absent [where malloc = malloc, OF assms(1-3) int new refl False malloc_okD [OF assms(4) False]] int new
        by simp
    qed
  qed
qed (simp add: rb_insert_overflow [OF assms(1)])

text \<open>
  C2: \<open>rb_erase\<close> on any such heap, for any key: undefined behaviour when a difference on the way down
  overflows; otherwise it returns the root of a red-black search tree that stands
  for the map without the key. When the key was present exactly its block is freed;
  otherwise heap and root are unchanged.
\<close>

theorem rb_erase_correct:
  assumes "rb_rep h root t" and "rb_inv t" and "bst t"
  shows "if \<not> comparable key t then rb_erase h key root = None
    else \<exists>h' t'. rb_erase h key root = Some (h', root_of t') \<and>
     rb_rep h' (root_of t') t' \<and> rb_inv t' \<and> bst t' \<and> rbt_map t' = (rbt_map t)(key := None) \<and>
     frame (set (addrs t)) h h' \<and>
     (if key \<in> keys t
      then \<exists>n \<in> set (addrs t). deref rb_key h n = Some key \<and> h' n = None \<and> set (addrs t') = set (addrs t) - {n}
      else h' = h \<and> t' = t)"
proof (cases "comparable key t")
  case int: True
  show ?thesis
  proof (cases "key \<in> keys t")
    case True
    then show ?thesis
      using rb_erase_present [OF assms int True] int by auto
  next
    case False
    then have "(rbt_map t)(key := None) = rbt_map t"
      using dom_rbt_map [of t] by (auto simp: domIff)
    moreover have "root = root_of t"
      using assms(1) by (simp add: rb_rep_def)
    ultimately show ?thesis
      using rb_erase_absent [OF assms(1,3) int False] assms False int by (simp add: frame_def)
  qed
qed (simp add: rb_erase_overflow [OF assms(1)])

text \<open>
  C3: \<open>rb_search\<close> on any heap that holds a search tree, for any key: undefined behaviour exactly when
  the difference of the key and a key on its way down overflows; otherwise it ends and returns the node
  with the key, holding the data the map has for it, or \<open>NULL\<close> when the key is absent.
\<close>

theorem rb_search_correct:
  assumes "rb_rep h root t" and "bst t"
  shows "case rb_search h key root of
      None \<Rightarrow> \<not> comparable key t
    | Some p \<Rightarrow> comparable key t \<and>
       (case rbt_map t key of
          None \<Rightarrow> p = NULL
        | Some d \<Rightarrow> p \<in> set (addrs t) \<and> deref rb_key h p = Some key \<and> deref rb_data h p = Some d)"
proof (cases "comparable key t")
  case True
  then obtain p where p: "rb_search h key root = Some p" "p = NULL \<longleftrightarrow> rbt_map t key = None"
      "p \<noteq> NULL \<longrightarrow> p \<in> set (addrs t) \<and> deref rb_key h p = Some key \<and> deref rb_data h p = rbt_map t key"
    using rb_search_ok [OF assms] dom_rbt_map [of t] by (metis domIff)
  then show ?thesis
    using True by (auto split: option.splits)
qed (simp add: rb_search_overflow [OF assms(1)])

text \<open>
  C4: a sequence of insertions and deletions refines the same sequence of updates of a
  finite map, from an empty tree on, provided that the difference of any two of its keys is an \<open>int\<close>
  and that \<^verbatim>\<open>malloc\<close> finds memory as long as finitely many blocks are in use.
\<close>

theorem rb_refines_map:
  assumes "finite (dom h)" and "malloc_ok malloc" and "malloc_total malloc"
    and "\<forall>c \<in> set cs. \<forall>d \<in> set cs. in_int (cmd_key c - cmd_key d)"
  shows "\<exists>h' root'. run_cmds (rb_insert malloc junk) rb_erase h NULL cs = Some (Ret (h', root')) \<and>
     rb_dict h' root' (fold dict_spec cs Map.empty)"
proof (rule rbd.run_cmds_ok [OF _ assms(2,3)])
  show "rb_dict h NULL Map.empty"
    using assms(1) by (simp add: rb_dict_empty)
  show "in_int (x - y)" if "x \<in> dom Map.empty \<union> cmd_key ` set cs" "y \<in> cmd_key ` set cs" for x y
    using that assms(4) by auto
qed

text \<open>
  C5: after any such sequence of insertions and deletions the tree that the program has built is balanced:
  from the root no descent along the child pointers is longer than twice the binary logarithm of
  the number of keys plus one. A search, which makes one step of such a descent per round, is as short.
\<close>

theorem rb_runs_balanced:
  assumes "finite (dom h)" and "malloc_ok malloc" and "malloc_total malloc"
    and "\<forall>c \<in> set cs. \<forall>d \<in> set cs. in_int (cmd_key c - cmd_key d)"
  shows "\<exists>h' root'. run_cmds (rb_insert malloc junk) rb_erase h NULL cs = Some (Ret (h', root')) \<and>
     (\<forall>ds p. child_path h' root' ds = Some p \<longrightarrow> 2 ^ length ds \<le> (card (dom (fold dict_spec cs Map.empty)) + 1)\<^sup>2)"
proof -
  have "\<exists>h' root'. run_cmds (rb_insert malloc junk) rb_erase h NULL cs = Some (Ret (h', root')) \<and>
      rb_dict h' root' (fold dict_spec cs Map.empty)"
  proof (rule rbd.run_cmds_ok [OF _ assms(2,3)])
    show "rb_dict h NULL Map.empty"
      using assms(1) by (simp add: rb_dict_empty)
    show "in_int (x - y)" if "x \<in> dom Map.empty \<union> cmd_key ` set cs" "y \<in> cmd_key ` set cs" for x y
      using that assms(4) by auto
  qed
  then show ?thesis
    using rb_dict_paths by blast
qed

text \<open>
  The test program never takes one of its \<^verbatim>\<open>exit(-1)\<close> branches: every key it inserts is
  found, and after the last round the tree holds the pairs inserted first and not erased.
\<close>

theorem rb_main_correct:
  assumes "finite (dom h)" and "rand_ok rnd" and "malloc_ok malloc" and "malloc_total malloc"
  shows "\<exists>h' root out. rb_main malloc junk rnd h = Some (Ret (h', root, out)) \<and>
     rb_dict h' root (fold (main_spec rnd) [1..<9000] Map.empty)"
  unfolding rb_main_def
  by (rule rb_main_loop_ok) (use assms in \<open>simp_all add: rb_dict_empty\<close>)

text \<open>
  When \<^verbatim>\<open>malloc\<close> fails, inserting a new key ends the program with \<^verbatim>\<open>exit(-1)\<close>; a key that
  is present needs no memory.
\<close>

theorem rb_insert_out_of_memory:
  assumes "rb_rep h root t" and "bst t" and "comparable key t" and "malloc h = NULL"
  shows "rb_insert malloc junk h key data root =
     Some (if key \<in> keys t then Ret (h, root) else Exit (- 1))"
  using rb_insert_present [OF assms(1-3)] rb_insert_no_memory [where malloc = malloc, OF assms(1-3)] assms(4)
  by simp

section \<open>Concrete inputs\<close>

text \<open>
  A tree of two nodes, a red child below a black root, for the statements above. The
  third insertion goes below the red node and needs a rotation.
\<close>

definition two_nodes :: rbt where
  "two_nodes = Node 1 BLACK (Node 2 RED Leaf 10 100 Leaf) 20 200 Leaf"

definition two_heap :: rb_heap where
  "two_heap = [1 \<mapsto> \<lparr>rb_left = 2, rb_right = 0, rb_parent = 0, rb_key = 20, rb_data = 200, rb_color = BLACK\<rparr>,
    2 \<mapsto> \<lparr>rb_left = 0, rb_right = 0, rb_parent = 1, rb_key = 10, rb_data = 100, rb_color = RED\<rparr>]"

definition no_node :: rb_node where
  "no_node = \<lparr>rb_left = 0, rb_right = 0, rb_parent = 0, rb_key = 0, rb_data = 0, rb_color = RED\<rparr>"

lemma two_rep: "rb_rep two_heap 1 two_nodes" "rb_inv two_nodes" "bst two_nodes"
    "x \<in> {5, 10} \<Longrightarrow> comparable x two_nodes"
  by (auto simp: rb_rep_def two_heap_def two_nodes_def rb_inv_def bst_def in_int_def INT_MIN_def INT_MAX_def)

lemma two_finite: "finite (dom two_heap)"
  by (simp add: two_heap_def)

lemma two_map: "rbt_map two_nodes = [10 \<mapsto> 100, 20 \<mapsto> 200]" "keys two_nodes = {10, 20}"
  by (auto simp: two_nodes_def rbt_map_def)

lemma two_malloc: "malloc_ok (\<lambda>h :: rb_heap. if h 3 = None then 3 else NULL)" "two_heap 3 = None"
  by (simp_all add: malloc_ok_def two_heap_def)

theorem rb_insert_correct_witness:
  "\<exists>h' t'. rb_insert (\<lambda>h. if h 3 = None then 3 else NULL) no_node two_heap 5 50 1 = Some (Ret (h', root_of t')) \<and>
     rb_inv t' \<and> bst t' \<and> rbt_map t' = [10 \<mapsto> 100, 20 \<mapsto> 200, 5 \<mapsto> 50] \<and> set (addrs t') = {1, 2, 3}"
proof -
  have "set (addrs two_nodes) = {1, 2}"
    by (auto simp: two_nodes_def)
  then show ?thesis
    using rb_insert_correct [of two_heap 1 two_nodes "\<lambda>h. if h 3 = None then 3 else NULL" 5 no_node 50]
      two_rep two_malloc two_map by (auto simp: insert_commute)
qed

theorem rb_erase_correct_witness:
  "\<exists>h' t'. rb_erase two_heap 10 1 = Some (h', root_of t') \<and> rb_inv t' \<and> rbt_map t' = [20 \<mapsto> 200]"
proof -
  have "[10 :: int \<mapsto> 100 :: int, 20 \<mapsto> 200](10 := None) = [20 \<mapsto> 200]"
    by (auto simp: fun_eq_iff)
  then show ?thesis
    using rb_erase_correct [of two_heap 1 two_nodes 10] two_rep two_map by auto
qed

theorem rb_search_correct_witness:
  "\<exists>p. rb_search two_heap 10 1 = Some p \<and> deref rb_data two_heap p = Some 100"
  using rb_search_correct [of two_heap 1 two_nodes 10] two_rep two_map by (auto split: option.splits)

theorem rb_refines_map_witness:
  "\<exists>h' root'. run_cmds (rb_insert bump_malloc no_node) rb_erase Map.empty NULL [Ins 3 30, Ins 4 40, Del 3] =
     Some (Ret (h', root')) \<and> rb_dict h' root' [4 \<mapsto> 40]"
proof -
  have "fold dict_spec [Ins 3 30, Ins 4 40, Del 3] Map.empty = [4 \<mapsto> 40]"
    by (auto simp: add_new_def fun_eq_iff)
  then show ?thesis
    using rb_refines_map [of Map.empty bump_malloc "[Ins 3 30, Ins 4 40, Del 3]" no_node] bump_malloc_ok
    by (simp add: in_int_def INT_MIN_def INT_MAX_def)
qed

theorem rb_runs_balanced_witness:
  "\<exists>h' root'. run_cmds (rb_insert bump_malloc no_node) rb_erase Map.empty NULL [Ins 3 30, Ins 4 40, Del 3] =
     Some (Ret (h', root')) \<and> (\<forall>ds p. child_path h' root' ds = Some p \<longrightarrow> 2 ^ length ds \<le> (4 :: nat))"
proof -
  have "fold dict_spec [Ins 3 30, Ins 4 40, Del 3] Map.empty = [4 \<mapsto> 40]"
    by (auto simp: add_new_def fun_eq_iff)
  then show ?thesis
    using rb_runs_balanced [of Map.empty bump_malloc "[Ins 3 30, Ins 4 40, Del 3]" no_node] bump_malloc_ok
    by (simp add: in_int_def INT_MIN_def INT_MAX_def power2_eq_square eval_nat_numeral del: run_cmds.simps fold_simps)
qed

theorem rb_main_correct_witness:
  "\<exists>h' root out. rb_main bump_malloc no_node (\<lambda>i. int i) Map.empty = Some (Ret (h', root, out)) \<and>
     rb_dict h' root (fold (main_spec int) [1..<9000] Map.empty)"
  using rb_main_correct [of Map.empty int bump_malloc no_node] bump_malloc_ok by (simp add: rand_ok_def)

theorem rb_insert_out_of_memory_witness:
  "rb_insert (\<lambda>_. NULL) no_node two_heap 5 50 1 = Some (Exit (- 1))"
  using rb_insert_out_of_memory [of two_heap 1 two_nodes 5 "\<lambda>_. NULL" no_node 50] two_rep two_map by auto

end
