(* ===== verification/MB_CRC.thy ===== *)
theory MB_CRC
  imports C_Prelude
begin

unbundle bit_operations_syntax

text \<open>
  The checksum of the Modbus RTU transmission mode (\<^verbatim>\<open>modbus/rtu/mbcrc.c\<close>): the table driven
  routine, its equivalence with the bitwise definition of CRC-16, the residue of a
  frame that carries its own checksum, and the errors the checksum detects.
\<close>

type_synonym byte = "8 word"
type_synonym ushort = "16 word"

section \<open>The routine\<close>

definition aucCRCHi :: "byte list" where
  "aucCRCHi = [
    0x00, 0xC1, 0x81, 0x40, 0x01, 0xC0, 0x80, 0x41, 0x01, 0xC0, 0x80, 0x41,
    0x00, 0xC1, 0x81, 0x40, 0x01, 0xC0, 0x80, 0x41, 0x00, 0xC1, 0x81, 0x40,
    0x00, 0xC1, 0x81, 0x40, 0x01, 0xC0, 0x80, 0x41, 0x01, 0xC0, 0x80, 0x41,
    0x00, 0xC1, 0x81, 0x40, 0x00, 0xC1, 0x81, 0x40, 0x01, 0xC0, 0x80, 0x41,
    0x00, 0xC1, 0x81, 0x40, 0x01, 0xC0, 0x80, 0x41, 0x01, 0xC0, 0x80, 0x41,
    0x00, 0xC1, 0x81, 0x40, 0x01, 0xC0, 0x80, 0x41, 0x00, 0xC1, 0x81, 0x40,
    0x00, 0xC1, 0x81, 0x40, 0x01, 0xC0, 0x80, 0x41, 0x00, 0xC1, 0x81, 0x40,
    0x01, 0xC0, 0x80, 0x41, 0x01, 0xC0, 0x80, 0x41, 0x00, 0xC1, 0x81, 0x40,
    0x00, 0xC1, 0x81, 0x40, 0x01, 0xC0, 0x80, 0x41, 0x01, 0xC0, 0x80, 0x41,
    0x00, 0xC1, 0x81, 0x40, 0x01, 0xC0, 0x80, 0x41, 0x00, 0xC1, 0x81, 0x40,
    0x00, 0xC1, 0x81, 0x40, 0x01, 0xC0, 0x80, 0x41, 0x01, 0xC0, 0x80, 0x41,
    0x00, 0xC1, 0x81, 0x40, 0x00, 0xC1, 0x81, 0x40, 0x01, 0xC0, 0x80, 0x41,
    0x00, 0xC1, 0x81, 0x40, 0x01, 0xC0, 0x80, 0x41, 0x01, 0xC0, 0x80, 0x41,
    0x00, 0xC1, 0x81, 0x40, 0x00, 0xC1, 0x81, 0x40, 0x01, 0xC0, 0x80, 0x41,
    0x01, 0xC0, 0x80, 0x41, 0x00, 0xC1, 0x81, 0x40, 0x01, 0xC0, 0x80, 0x41,
    0x00, 0xC1, 0x81, 0x40, 0x00, 0xC1, 0x81, 0x40, 0x01, 0xC0, 0x80, 0x41,
    0x00, 0xC1, 0x81, 0x40, 0x01, 0xC0, 0x80, 0x41, 0x01, 0xC0, 0x80, 0x41,
    0x00, 0xC1, 0x81, 0x40, 0x01, 0xC0, 0x80, 0x41, 0x00, 0xC1, 0x81, 0x40,
    0x00, 0xC1, 0x81, 0x40, 0x01, 0xC0, 0x80, 0x41, 0x01, 0xC0, 0x80, 0x41,
    0x00, 0xC1, 0x81, 0x40, 0x00, 0xC1, 0x81, 0x40, 0x01, 0xC0, 0x80, 0x41,
    0x00, 0xC1, 0x81, 0x40, 0x01, 0xC0, 0x80, 0x41, 0x01, 0xC0, 0x80, 0x41,
    0x00, 0xC1, 0x81, 0x40]"

definition aucCRCLo :: "byte list" where
  "aucCRCLo = [
    0x00, 0xC0, 0xC1, 0x01, 0xC3, 0x03, 0x02, 0xC2, 0xC6, 0x06, 0x07, 0xC7,
    0x05, 0xC5, 0xC4, 0x04, 0xCC, 0x0C, 0x0D, 0xCD, 0x0F, 0xCF, 0xCE, 0x0E,
    0x0A, 0xCA, 0xCB, 0x0B, 0xC9, 0x09, 0x08, 0xC8, 0xD8, 0x18, 0x19, 0xD9,
    0x1B, 0xDB, 0xDA, 0x1A, 0x1E, 0xDE, 0xDF, 0x1F, 0xDD, 0x1D, 0x1C, 0xDC,
    0x14, 0xD4, 0xD5, 0x15, 0xD7, 0x17, 0x16, 0xD6, 0xD2, 0x12, 0x13, 0xD3,
    0x11, 0xD1, 0xD0, 0x10, 0xF0, 0x30, 0x31, 0xF1, 0x33, 0xF3, 0xF2, 0x32,
    0x36, 0xF6, 0xF7, 0x37, 0xF5, 0x35, 0x34, 0xF4, 0x3C, 0xFC, 0xFD, 0x3D,
    0xFF, 0x3F, 0x3E, 0xFE, 0xFA, 0x3A, 0x3B, 0xFB, 0x39, 0xF9, 0xF8, 0x38,
    0x28, 0xE8, 0xE9, 0x29, 0xEB, 0x2B, 0x2A, 0xEA, 0xEE, 0x2E, 0x2F, 0xEF,
    0x2D, 0xED, 0xEC, 0x2C, 0xE4, 0x24, 0x25, 0xE5, 0x27, 0xE7, 0xE6, 0x26,
    0x22, 0xE2, 0xE3, 0x23, 0xE1, 0x21, 0x20, 0xE0, 0xA0, 0x60, 0x61, 0xA1,
    0x63, 0xA3, 0xA2, 0x62, 0x66, 0xA6, 0xA7, 0x67, 0xA5, 0x65, 0x64, 0xA4,
    0x6C, 0xAC, 0xAD, 0x6D, 0xAF, 0x6F, 0x6E, 0xAE, 0xAA, 0x6A, 0x6B, 0xAB,
    0x69, 0xA9, 0xA8, 0x68, 0x78, 0xB8, 0xB9, 0x79, 0xBB, 0x7B, 0x7A, 0xBA,
    0xBE, 0x7E, 0x7F, 0xBF, 0x7D, 0xBD, 0xBC, 0x7C, 0xB4, 0x74, 0x75, 0xB5,
    0x77, 0xB7, 0xB6, 0x76, 0x72, 0xB2, 0xB3, 0x73, 0xB1, 0x71, 0x70, 0xB0,
    0x50, 0x90, 0x91, 0x51, 0x93, 0x53, 0x52, 0x92, 0x96, 0x56, 0x57, 0x97,
    0x55, 0x95, 0x94, 0x54, 0x9C, 0x5C, 0x5D, 0x9D, 0x5F, 0x9F, 0x9E, 0x5E,
    0x5A, 0x9A, 0x9B, 0x5B, 0x99, 0x59, 0x58, 0x98, 0x88, 0x48, 0x49, 0x89,
    0x4B, 0x8B, 0x8A, 0x4A, 0x4E, 0x8E, 0x8F, 0x4F, 0x8D, 0x4D, 0x4C, 0x8C,
    0x44, 0x84, 0x85, 0x45, 0x87, 0x47, 0x46, 0x86, 0x82, 0x42, 0x43, 0x83,
    0x41, 0x81, 0x80, 0x40]"

text \<open>
  The loop on the bytes of the frame with the two accumulators \<open>ucCRCHi\<close> and \<open>ucCRCLo\<close>.
  The index is an exclusive or of two bytes, so it is below 256.
\<close>

fun crc_loop :: "byte \<Rightarrow> byte \<Rightarrow> byte list \<Rightarrow> ushort" where
  "crc_loop ucCRCHi ucCRCLo [] = push_bit 8 (ucast ucCRCHi) OR ucast ucCRCLo"
| "crc_loop ucCRCHi ucCRCLo (b # bs) =
     (let iIndex = unat (ucCRCLo XOR b) in
      crc_loop (aucCRCLo ! iIndex) (ucCRCHi XOR aucCRCHi ! iIndex) bs)"

definition usMBCRC16 :: "byte list \<Rightarrow> ushort" where
  "usMBCRC16 pucFrame = crc_loop 0xFF 0xFF pucFrame"

section \<open>The bitwise definition\<close>

definition crc_bit :: "ushort \<Rightarrow> ushort" where
  "crc_bit c = (if bit c 0 then drop_bit 1 c XOR 0xA001 else drop_bit 1 c)"

definition crc_byte :: "ushort \<Rightarrow> byte \<Rightarrow> ushort" where
  "crc_byte c b = (crc_bit ^^ 8) (c XOR ucast b)"

definition crc16 :: "byte list \<Rightarrow> ushort" where
  "crc16 bs = foldl crc_byte 0xFFFF bs"

section \<open>Equivalence\<close>

lemma crc_bit_xor: "crc_bit (x XOR y) = crc_bit x XOR crc_bit y"
  by (rule bit_word_eqI) (auto simp: crc_bit_def bit_simps)

lemma crc_bits_xor: "(crc_bit ^^ n) (x XOR y) = (crc_bit ^^ n) x XOR (crc_bit ^^ n) y"
  by (induction n) (simp_all add: crc_bit_xor)

definition crc_entry :: "nat \<Rightarrow> ushort" where
  "crc_entry i = push_bit 8 (ucast (aucCRCLo ! i)) OR ucast (aucCRCHi ! i)"

text \<open>
  The tables are linear: every entry is the exclusive or of the entries at the powers of
  two. \<open>xor_span\<close> lists the combinations of a basis, the last element for bit 0.
\<close>

fun xor_span :: "'a::len word list \<Rightarrow> 'a word list" where
  "xor_span [] = [0]"
| "xor_span (b # bs) = xor_span bs @ map (\<lambda>x. b XOR x) (xor_span bs)"

lemma length_xor_span: "length (xor_span bs) = 2 ^ length bs"
  by (induction bs) auto

lemma aucCRCLo_span: "aucCRCLo = xor_span [0xA0, 0xF0, 0xD8, 0xCC, 0xC6, 0xC3, 0xC1, 0xC0]"
  by (simp add: aucCRCLo_def)

lemma aucCRCHi_span: "aucCRCHi = xor_span [0x01, 0x01, 0x01, 0x01, 0x01, 0x01, 0x81, 0xC1]"
  by (simp add: aucCRCHi_def)

lemma map_xor_span:
  assumes "g 0 = 0" and "\<And>x y. g (x XOR y) = g x XOR g y"
  shows "map g (xor_span bs) = xor_span (map g bs)"
proof (induction bs)
  case (Cons b bs)
  have "map g (map (\<lambda>x. b XOR x) xs) = map (\<lambda>x. g b XOR x) (map g xs)" for xs
    by (simp add: assms(2))
  then show ?case
    by (simp only: xor_span.simps map_append Cons list.map)
qed (simp add: assms(1))

lemma map2_xor_span:
  assumes "g 0 0 = 0" and "\<And>a b x y. g (a XOR x) (b XOR y) = g a b XOR g x y" and "length as = length bs"
  shows "map2 g (xor_span as) (xor_span bs) = xor_span (map2 g as bs)"
  using assms(3)
proof (induction as bs rule: list_induct2)
  case (Cons a as b bs)
  have *: "map2 g (map (\<lambda>x. a XOR x) xs) (map (\<lambda>x. b XOR x) ys) = map (\<lambda>z. g a b XOR z) (map2 g xs ys)"
    if "length xs = length ys" for xs ys
    using that by (induction xs ys rule: list_induct2) (auto simp: assms(2))
  have "length (xor_span as) = length (xor_span bs)"
    using Cons.hyps by (simp add: length_xor_span)
  then show ?case
    by (simp only: xor_span.simps zip_append map_append * Cons.IH list.map zip_Cons_Cons prod.case)
qed (simp add: assms(1))

lemma words_span: "map of_nat [0..<256] = (xor_span [128, 64, 32, 16, 8, 4, 2, 1] :: ushort list)"
  by (simp add: upt_rec)

lemma crc_basis:
  "map (crc_bit ^^ 8) [128, 64, 32, 16, 8, 4, 2, 1] =
     [0xA001, 0xF001, 0xD801, 0xCC01, 0xC601, 0xC301, 0xC181, 0xC0C1]"
  by code_simp

definition crc_join :: "byte \<Rightarrow> byte \<Rightarrow> ushort" where
  "crc_join hi lo = push_bit 8 (ucast hi) OR ucast lo"

lemma crc_join_xor: "crc_join (a XOR x) (b XOR y) = crc_join a b XOR crc_join x y"
  by (rule bit_word_eqI) (auto simp: crc_join_def bit_simps dest: bit_imp_le_length)

lemma crc_bits_0 [simp]: "(crc_bit ^^ n) 0 = 0"
  by (induction n) (simp_all add: crc_bit_def)

lemma crc_tables: "map2 crc_join aucCRCLo aucCRCHi = map (crc_bit ^^ 8) (map of_nat [0..<256])"
proof -
  have "map2 crc_join aucCRCLo aucCRCHi = xor_span (map2 crc_join
      [0xA0, 0xF0, 0xD8, 0xCC, 0xC6, 0xC3, 0xC1, 0xC0] [0x01, 0x01, 0x01, 0x01, 0x01, 0x01, 0x81, 0xC1])"
    unfolding aucCRCLo_span aucCRCHi_span
    by (rule map2_xor_span [where g = crc_join, OF _ crc_join_xor]) (simp_all add: crc_join_def)
  also have "\<dots> = xor_span (map (crc_bit ^^ 8) [128, 64, 32, 16, 8, 4, 2, 1])"
    unfolding crc_basis by (rule arg_cong [where f = xor_span]) (simp add: crc_join_def)
  also have "\<dots> = map (crc_bit ^^ 8) (xor_span [128, 64, 32, 16, 8, 4, 2, 1])"
    by (rule map_xor_span [symmetric, OF crc_bits_0 crc_bits_xor])
  finally show ?thesis
    unfolding words_span .
qed

lemma crc_table_entry:
  fixes b :: byte
  shows "crc_join (aucCRCLo ! unat b) (aucCRCHi ! unat b) = (crc_bit ^^ 8) (ucast b)"
proof -
  have l: "length aucCRCLo = 256" "length aucCRCHi = 256"
    by (simp_all add: aucCRCLo_span aucCRCHi_span length_xor_span)
  have b: "unat b < 256"
    using unsigned_less [of b, where ?'a = nat] by simp
  have "map2 crc_join aucCRCLo aucCRCHi ! unat b = (crc_bit ^^ 8) (of_nat (unat b))"
    unfolding crc_tables using b by (simp del: upt_Suc)
  then show ?thesis
    using b l by simp
qed

lemma crc_bit_shift:
  assumes "0 < m" and "m \<le> 8"
  shows "crc_bit (push_bit m (ucast (hi :: byte))) = push_bit (m - 1) (ucast hi)"
  using assms by (auto simp: crc_bit_def bit_simps Suc_le_eq intro!: bit_word_eqI dest: bit_imp_le_length)
    (linarith | drule bit_imp_le_length, simp)+

lemma crc_bits_high: "k \<le> 8 \<Longrightarrow> (crc_bit ^^ k) (push_bit 8 (ucast (hi :: byte))) = push_bit (8 - k) (ucast hi)"
  by (induction k) (simp_all add: crc_bit_shift)

lemma crc_byte_join:
  "crc_byte (crc_join hi lo) b = crc_join (aucCRCLo ! unat (lo XOR b)) (hi XOR aucCRCHi ! unat (lo XOR b))"
proof -
  have "crc_join hi lo XOR ucast b = push_bit 8 (ucast hi) XOR ucast (lo XOR b)"
    by (rule bit_word_eqI) (auto simp: crc_join_def bit_simps dest: bit_imp_le_length)
  then have "crc_byte (crc_join hi lo) b = ucast hi XOR (crc_bit ^^ 8) (ucast (lo XOR b))"
    by (simp add: crc_byte_def crc_bits_xor crc_bits_high)
  also have "\<dots> = crc_join 0 hi XOR crc_join (aucCRCLo ! unat (lo XOR b)) (aucCRCHi ! unat (lo XOR b))"
    unfolding crc_table_entry by (simp add: crc_join_def)
  finally show ?thesis
    by (simp flip: crc_join_xor)
qed

lemma crc_loop_fold: "crc_loop hi lo bs = foldl crc_byte (crc_join hi lo) bs"
  by (induction hi lo bs rule: crc_loop.induct) (simp_all add: crc_byte_join Let_def flip: crc_join_def)

lemma usMBCRC16_crc16: "usMBCRC16 bs = crc16 bs"
  by (simp add: usMBCRC16_def crc16_def crc_loop_fold crc_join_def)

section \<open>Residue and error detection\<close>

lemma crc_bit_eq_0: "crc_bit z = 0 \<longleftrightarrow> z = 0"
proof
  assume *: "crc_bit z = 0"
  have "bit (crc_bit z) 15 \<longleftrightarrow> bit z 0"
    by (auto simp: crc_bit_def bit_simps dest: bit_imp_le_length)
  then have z: "\<not> bit z 0"
    using * by simp
  then have "drop_bit 1 z = 0"
    using * by (simp add: crc_bit_def)
  then have "bit (drop_bit 1 z) n = False" for n
    by simp
  then have "\<not> bit z (Suc n)" for n
    by (simp add: bit_simps)
  with z have "\<not> bit z n" for n
    by (cases n) auto
  then show "z = 0"
    by (intro bit_word_eqI) simp
qed (simp add: crc_bit_def)

lemma crc_bits_inj: "(crc_bit ^^ n) x = (crc_bit ^^ n) y \<longleftrightarrow> x = y"
proof -
  have "(crc_bit ^^ n) z = 0 \<longleftrightarrow> z = 0" for z
    by (induction n) (auto simp: crc_bit_eq_0)
  from this [of "x XOR y"] show ?thesis
    by (simp add: crc_bits_xor xor_eq_0_iff)
qed

lemma crc_byte_inj: "crc_byte c b = crc_byte d b \<longleftrightarrow> c = d"
  by (simp add: crc_byte_def crc_bits_inj xor_right_cancel)

lemma crc_fold_inj: "foldl crc_byte c bs = foldl crc_byte d bs \<longleftrightarrow> c = d"
  by (induction bs arbitrary: c d) (simp_all add: crc_byte_inj)

definition crc_lo :: "ushort \<Rightarrow> byte" where
  "crc_lo c = ucast (c AND 0xFF)"

definition crc_hi :: "ushort \<Rightarrow> byte" where
  "crc_hi c = ucast (drop_bit 8 c)"

lemma crc_lo_ucast: "crc_lo c = ucast c"
  by (rule bit_word_eqI) (auto simp: crc_lo_def mask_8 bit_simps)

lemma crc_join_split: "crc_join (crc_hi c) (crc_lo c) = c"
  by (rule bit_word_eqI) (auto simp: crc_join_def crc_hi_def crc_lo_ucast bit_simps)

lemma crc_split_join: "crc_hi (crc_join h l) = h" "crc_lo (crc_join h l) = l"
  by (rule bit_word_eqI; auto simp: crc_join_def crc_hi_def crc_lo_ucast bit_simps dest: bit_imp_le_length)+

lemma crc_byte_lo: "crc_byte (crc_join h l) l = crc_join 0 h"
proof -
  have "crc_join h l XOR ucast l = push_bit 8 (ucast h)"
    by (rule bit_word_eqI) (auto simp: crc_join_def bit_simps dest: bit_imp_le_length)
  then show ?thesis
    by (simp add: crc_byte_def crc_bits_high) (simp add: crc_join_def)
qed

lemma crc_residue: "foldl crc_byte c [crc_lo c, crc_hi c] = 0"
proof -
  have "crc_byte c (crc_lo c) = crc_join 0 (crc_hi c)"
    using crc_byte_lo [of "crc_hi c" "crc_lo c"] by (simp add: crc_join_split)
  then show ?thesis
    by (simp add: crc_byte_lo) (simp add: crc_join_def)
qed

text \<open>Two bytes determine, and are determined by, the checksum they lead to.\<close>

lemma crc_bits_low:
  fixes x y :: byte
  assumes "(crc_bit ^^ 8) (ucast x) = ucast y"
  shows "x = 0"
proof -
  have "(crc_bit ^^ 8) (push_bit 8 (ucast y)) = ucast y"
    by (simp add: crc_bits_high)
  then have "(ucast x :: ushort) = push_bit 8 (ucast y)"
    using assms crc_bits_inj [of 8 "ucast x" "push_bit 8 (ucast y)"] by simp
  then have *: "bit (ucast x :: ushort) n = bit (push_bit 8 (ucast y) :: ushort) n" for n
    by (rule arg_cong)
  have "\<not> bit x n" if "n < 8" for n
    using * [of n] that by (simp add: bit_simps)
  then show ?thesis
    by (intro bit_word_eqI) simp
qed

lemma crc_two_bytes:
  assumes "foldl crc_byte c [a, b] = foldl crc_byte c [a', b']"
  shows "a = a' \<and> b = b'"
proof -
  let ?F = "crc_bit ^^ 8"
  have xor: "((c XOR a) XOR b) XOR ((c XOR a') XOR b') = (a XOR a') XOR (b XOR b')" for c a b a' b' :: ushort
    by (rule bit_word_eqI) (auto simp: bit_simps)
  have "?F (c XOR ucast a) XOR ucast b = ?F (c XOR ucast a') XOR ucast b'"
    using assms by (simp add: crc_byte_def crc_bits_inj)
  then have "((?F c XOR ?F (ucast a)) XOR ucast b) XOR ((?F c XOR ?F (ucast a')) XOR ucast b') = 0"
    by (simp only: xor_eq_0_iff crc_bits_xor)
  then have "?F (ucast (a XOR a')) XOR ucast (b XOR b') = 0"
    by (simp only: xor unsigned_xor_eq crc_bits_xor)
  then have F: "?F (ucast (a XOR a')) = ucast (b XOR b')"
    by (simp only: xor_eq_0_iff)
  then have a: "a = a'"
    using crc_bits_low [OF F] by (simp only: xor_eq_0_iff)
  then have "crc_join 0 (b XOR b') = 0"
    using F by (simp add: crc_join_def)
  then have "b XOR b' = 0"
    using crc_split_join(2) [of 0 "b XOR b'"] by (simp add: crc_lo_ucast)
  then show ?thesis
    using a by (simp add: xor_eq_0_iff)
qed

lemma usMBCRC16_append: "usMBCRC16 (as @ bs) = foldl crc_byte (usMBCRC16 as) bs"
  by (simp add: usMBCRC16_crc16 crc16_def)

section \<open>Properties\<close>

text \<open>
  C13: the table driven routine computes CRC-16 as defined bit by bit (reflected polynomial
  0xA001, initial value 0xFFFF), on every byte sequence.
\<close>

theorem usMBCRC16_is_crc16: "usMBCRC16 bs = foldl crc_byte 0xFFFF bs"
  by (simp add: usMBCRC16_crc16 crc16_def)

text \<open>
  The receiver's test \<^verbatim>\<open>usMBCRC16(frame) == 0\<close> accepts a frame exactly when its last two
  bytes are the low and the high byte of the checksum of the bytes before them.
\<close>

theorem usMBCRC16_residue:
  "usMBCRC16 (bs @ [x, y]) = 0 \<longleftrightarrow> x = crc_lo (usMBCRC16 bs) \<and> y = crc_hi (usMBCRC16 bs)"
  using crc_residue [of "usMBCRC16 bs"] crc_two_bytes [of "usMBCRC16 bs" x y]
  by (auto simp: usMBCRC16_append)

text \<open>
  C14: any corruption of a frame that is confined to two adjacent bytes changes the
  checksum, wherever it occurs and whatever the rest of the frame is.
\<close>

theorem usMBCRC16_detects_burst:
  "usMBCRC16 (as @ [a, b] @ bs) = usMBCRC16 (as @ [a', b'] @ bs) \<longleftrightarrow> a = a' \<and> b = b'"
  using crc_two_bytes [of "usMBCRC16 as" a b a' b']
  by (auto simp: usMBCRC16_append crc_fold_inj)

end
