(* ===== verification/MB_Utils.thy ===== *)
theory MB_Utils
  imports MB_CRC
begin

text \<open>
  The bit field helpers of \<^verbatim>\<open>modbus/functions/mbutils.c\<close> on byte buffers, and the translation
  of error codes. A buffer is the list of the bytes that may be accessed: an access beyond
  its end is undefined behaviour, \<open>None\<close>.
\<close>

section \<open>Types of the stack\<close>

datatype eMBErrorCode =
  MB_ENOERR | MB_ENOREG | MB_EINVAL | MB_EPORTERR | MB_ENORES | MB_EIO | MB_EILLSTATE | MB_ETIMEDOUT

datatype eMBException =
  MB_EX_NONE | MB_EX_ILLEGAL_FUNCTION | MB_EX_ILLEGAL_DATA_ADDRESS | MB_EX_ILLEGAL_DATA_VALUE
| MB_EX_SLAVE_DEVICE_FAILURE | MB_EX_ACKNOWLEDGE | MB_EX_SLAVE_BUSY | MB_EX_MEMORY_PARITY_ERROR
| MB_EX_GATEWAY_PATH_FAILED | MB_EX_GATEWAY_TGT_FAILED

fun exception_code :: "eMBException \<Rightarrow> byte" where
  "exception_code MB_EX_NONE = 0x00"
| "exception_code MB_EX_ILLEGAL_FUNCTION = 0x01"
| "exception_code MB_EX_ILLEGAL_DATA_ADDRESS = 0x02"
| "exception_code MB_EX_ILLEGAL_DATA_VALUE = 0x03"
| "exception_code MB_EX_SLAVE_DEVICE_FAILURE = 0x04"
| "exception_code MB_EX_ACKNOWLEDGE = 0x05"
| "exception_code MB_EX_SLAVE_BUSY = 0x06"
| "exception_code MB_EX_MEMORY_PARITY_ERROR = 0x08"
| "exception_code MB_EX_GATEWAY_PATH_FAILED = 0x0A"
| "exception_code MB_EX_GATEWAY_TGT_FAILED = 0x0B"

section \<open>Byte buffers\<close>

definition get_byte :: "byte list \<Rightarrow> nat \<Rightarrow> byte option" where
  "get_byte buf i = (if i < length buf then Some (buf ! i) else None)"

definition set_byte :: "byte list \<Rightarrow> nat \<Rightarrow> byte \<Rightarrow> byte list option" where
  "set_byte buf i b = (if i < length buf then Some (buf[i := b]) else None)"

lemma get_byte_in [c_simps]: "i < length buf \<Longrightarrow> get_byte buf i = Some (buf ! i)"
  by (simp add: get_byte_def)

lemma set_byte_in [c_simps]: "i < length buf \<Longrightarrow> set_byte buf i b = Some (buf[i := b])"
  by (simp add: set_byte_def)

section \<open>The helpers\<close>

text \<open>
  The mask of \<open>xMBUtilGetBits\<close> is computed with an \<^verbatim>\<open>int\<close> shift, undefined from 31 bits on;
  \<open>xMBUtilSetBits\<close> asserts its width first.
\<close>

definition xMBUtilSetBits :: "byte list \<Rightarrow> ushort \<Rightarrow> byte \<Rightarrow> byte \<Rightarrow> byte list option" where
  "xMBUtilSetBits ucByteBuf usBitOffset ucNBits ucValue = do {
     usValue \<leftarrow> Some (ucast ucValue :: ushort);
     c_assert (ucNBits \<le> 8);
     usByteOffset \<leftarrow> Some (unat usBitOffset div 8);
     usNPreBits \<leftarrow> Some (unat usBitOffset - usByteOffset * 8);
     usValue \<leftarrow> Some (push_bit usNPreBits usValue);
     usMask \<leftarrow> Some (push_bit (unat ucNBits) 1 - 1 :: ushort);
     usMask \<leftarrow> Some (push_bit (unat usBitOffset - usByteOffset * 8) usMask);
     lo \<leftarrow> get_byte ucByteBuf usByteOffset;
     hi \<leftarrow> get_byte ucByteBuf (usByteOffset + 1);
     usWordBuf \<leftarrow> Some (ucast lo OR push_bit 8 (ucast hi) :: ushort);
     usWordBuf \<leftarrow> Some ((usWordBuf AND NOT usMask) OR usValue);
     buf \<leftarrow> set_byte ucByteBuf usByteOffset (ucast (usWordBuf AND 0xFF));
     set_byte buf (usByteOffset + 1) (ucast (drop_bit 8 usWordBuf)) }"

definition xMBUtilGetBits :: "byte list \<Rightarrow> ushort \<Rightarrow> byte \<Rightarrow> byte option" where
  "xMBUtilGetBits ucByteBuf usBitOffset ucNBits = do {
     usByteOffset \<leftarrow> Some (unat usBitOffset div 8);
     usNPreBits \<leftarrow> Some (unat usBitOffset - usByteOffset * 8);
     usMask \<leftarrow> (if unat ucNBits < 31 then Some (push_bit (unat ucNBits) 1 - 1 :: ushort) else None);
     lo \<leftarrow> get_byte ucByteBuf usByteOffset;
     hi \<leftarrow> get_byte ucByteBuf (usByteOffset + 1);
     usWordBuf \<leftarrow> Some (ucast lo OR push_bit 8 (ucast hi) :: ushort);
     usWordBuf \<leftarrow> Some (drop_bit usNPreBits usWordBuf);
     usWordBuf \<leftarrow> Some (usWordBuf AND usMask);
     Some (ucast usWordBuf) }"

fun prveMBError2Exception :: "eMBErrorCode \<Rightarrow> eMBException" where
  "prveMBError2Exception MB_ENOERR = MB_EX_NONE"
| "prveMBError2Exception MB_ENOREG = MB_EX_ILLEGAL_DATA_ADDRESS"
| "prveMBError2Exception MB_ETIMEDOUT = MB_EX_SLAVE_BUSY"
| "prveMBError2Exception _ = MB_EX_SLAVE_DEVICE_FAILURE"

section \<open>Bits of a buffer\<close>

definition buf_bit :: "byte list \<Rightarrow> nat \<Rightarrow> bool" where
  "buf_bit buf i = bit (buf ! (i div 8)) (i mod 8)"

definition word_at :: "byte list \<Rightarrow> nat \<Rightarrow> ushort" where
  "word_at buf k = ucast (buf ! k) OR push_bit 8 (ucast (buf ! (k + 1)))"

lemma bit_word_at:
  assumes "j < 16"
  shows "bit (word_at buf k) j = buf_bit buf (8 * k + j)"
proof (cases "j < 8")
  case True
  then show ?thesis
    by (auto simp: word_at_def buf_bit_def bit_simps)
next
  case False
  then have "(8 * k + j) div 8 = k + 1" "(8 * k + j) mod 8 = j - 8"
    using assms by (simp_all add: le_mod_geq le_div_geq)
  then show ?thesis
    using False assms by (auto simp: word_at_def buf_bit_def bit_simps dest: bit_imp_le_length)
qed

definition put_word :: "byte list \<Rightarrow> nat \<Rightarrow> ushort \<Rightarrow> byte list" where
  "put_word buf k w = buf[k := ucast w, k + 1 := ucast (drop_bit 8 w)]"

lemma buf_bit_put_word:
  assumes "k + 1 < length buf"
  shows "buf_bit (put_word buf k w) i = (if 8 * k \<le> i \<and> i < 8 * k + 16 then bit w (i - 8 * k) else buf_bit buf i)"
proof -
  consider "i div 8 = k" | "i div 8 = k + 1" | "i div 8 \<noteq> k" "i div 8 \<noteq> k + 1"
    by blast
  then show ?thesis
  proof cases
    case 1
    then have "i = 8 * k + i mod 8" "i mod 8 < 8"
      by auto
    then show ?thesis
      using assms 1 by (auto simp: buf_bit_def put_word_def bit_simps minus_mult_div_eq_mod)
  next
    case 2
    then have "i = 8 * (k + 1) + i mod 8" "i mod 8 < 8"
      using div_mult_mod_eq [of i 8] by auto
    then have "i - 8 * k = 8 + i mod 8"
      by simp
    then show ?thesis
      using assms 2 by (auto simp: buf_bit_def put_word_def bit_simps)
  next
    case 3
    then have "\<not> (8 * k \<le> i \<and> i < 8 * k + 16)"
      by (auto simp: div_nat_eqI)
    then show ?thesis
      using 3 by (auto simp: buf_bit_def put_word_def)
  qed
qed

lemma set_bits_word:
  assumes "n \<le> 8" and "off div 8 + 1 < length buf" and "off < 2 ^ 16"
  shows "xMBUtilSetBits buf (of_nat off) (of_nat n) v = Some (put_word buf (off div 8)
    ((word_at buf (off div 8) AND NOT (push_bit (off mod 8) (mask n))) OR push_bit (off mod 8) (ucast v)))"
proof -
  have "unat (of_nat off :: ushort) = off" "unat (of_nat n :: byte) = n" "(of_nat n :: byte) \<le> 8"
    using assms by (simp_all add: unat_of_nat take_bit_nat_eq_self word_le_nat_alt)
  moreover have "off - off div 8 * 8 = off mod 8"
    by (simp add: minus_div_mult_eq_mod)
  moreover have "(ucast (w AND 0xFF) :: byte) = ucast w" for w :: ushort
    using crc_lo_ucast [of w] by (simp add: crc_lo_def)
  ultimately show ?thesis
    using assms(2) by (simp add: xMBUtilSetBits_def c_simps mask_eq_exp_minus_1 put_word_def word_at_def)
qed

lemma get_bits_word:
  assumes "n \<le> 8" and "off div 8 + 1 < length buf" and "off < 2 ^ 16"
  shows "xMBUtilGetBits buf (of_nat off) (of_nat n) =
    Some (ucast (drop_bit (off mod 8) (word_at buf (off div 8)) AND mask n))"
proof -
  have "unat (of_nat off :: ushort) = off" "unat (of_nat n :: byte) = n"
    using assms by (simp_all add: unat_of_nat take_bit_nat_eq_self)
  moreover have "off - off div 8 * 8 = off mod 8"
    by (simp add: minus_div_mult_eq_mod)
  ultimately show ?thesis
    using assms by (simp add: xMBUtilGetBits_def c_simps mask_eq_exp_minus_1 word_at_def)
qed

lemma bit_small:
  fixes v :: "'a::len word"
  assumes "unat v < 2 ^ n" and "bit v i"
  shows "i < n"
proof -
  have "take_bit n (unat v) = unat v"
    using assms(1) by (simp add: take_bit_nat_eq_self)
  moreover have "bit (unat v) i"
    using assms(2) by (simp add: bit_unsigned_iff)
  ultimately show ?thesis
    using bit_take_bit_iff [of n "unat v" i] by simp
qed

lemma set_bits_spec:
  fixes k j :: nat
  assumes "n \<le> 8" and "j < 8" and "k + 1 < length buf" and "unat v < 2 ^ n"
  defines "w \<equiv> (word_at buf k AND NOT (push_bit j (mask n))) OR push_bit j (ucast v)"
  shows "buf_bit (put_word buf k w) i =
    (if 8 * k + j \<le> i \<and> i < 8 * k + j + n then bit v (i - (8 * k + j)) else buf_bit buf i)"
proof (cases "8 * k \<le> i \<and> i < 8 * k + 16")
  case True
  then obtain m where i: "i = 8 * k + m" "m < 16"
    by (metis le_Suc_ex nat_add_left_cancel_less)
  have "bit w m = (if j \<le> m \<and> m < j + n then bit v (m - j) else buf_bit buf (8 * k + m))"
    using i assms(1,2) bit_small [OF assms(4), of "m - j"] bit_word_at [OF i(2), of buf k]
    by (auto simp: w_def bit_simps less_diff_conv2)
  then show ?thesis
    using i(2) buf_bit_put_word [OF assms(3), of w i] by (auto simp: i(1))
next
  case False
  then show ?thesis
    using buf_bit_put_word [OF assms(3), of w i] assms(1,2) by auto
qed

section \<open>Properties\<close>

text \<open>
  \<open>xMBUtilSetBits\<close> replaces exactly the addressed bits of the buffer by the value and
  keeps all others, for a value that fits in the width, wherever the bits lie, across a
  byte boundary too, provided the byte after the first one belongs to the buffer;
  \<open>xMBUtilGetBits\<close> at the same place then returns the value.
\<close>

theorem xMBUtilSetBits_bits:
  assumes "n \<le> 8" and "off div 8 + 1 < length buf" and "off < 2 ^ 16" and "unat v < 2 ^ n"
  shows "\<exists>buf'. xMBUtilSetBits buf (of_nat off) (of_nat n) v = Some buf' \<and> length buf' = length buf \<and>
    (\<forall>i. buf_bit buf' i = (if off \<le> i \<and> i < off + n then bit v (i - off) else buf_bit buf i)) \<and>
    xMBUtilGetBits buf' (of_nat off) (of_nat n) = Some v"
proof -
  obtain k j where off: "off div 8 = k" "off mod 8 = j" "off = 8 * k + j" "j < 8"
    by (metis mod_less_divisor mult_div_mod_eq zero_less_numeral)
  let ?w = "(word_at buf k AND NOT (push_bit j (mask n))) OR push_bit j (ucast v)"
  let ?b = "put_word buf k ?w"
  have bits: "buf_bit ?b i = (if off \<le> i \<and> i < off + n then bit v (i - off) else buf_bit buf i)" for i
    using set_bits_spec [OF assms(1) off(4) _ assms(4), of k buf i] assms(2) off by simp
  have "ucast (drop_bit j (word_at ?b k) AND mask n) = v"
  proof (rule bit_word_eqI)
    fix i assume "i < LENGTH(8)"
    then have "bit (ucast (drop_bit j (word_at ?b k) AND mask n) :: byte) i = (i < n \<and> buf_bit ?b (off + i))"
      using bit_word_at [of "j + i" ?b k] off(3,4) by (auto simp: bit_simps add.assoc)
    then show "bit (ucast (drop_bit j (word_at ?b k) AND mask n) :: byte) i = bit v i"
      using bits [of "off + i"] bit_small [OF assms(4), of i] by auto
  qed
  then show ?thesis
    using set_bits_word [OF assms(1-3)] get_bits_word [OF assms(1) _ assms(3), of ?b] bits assms(2) off
    by (intro exI [of _ ?b]) (simp add: put_word_def)
qed

text \<open>
  The last example in the documentation of \<open>xMBUtilSetBits\<close>, eight bits from offset 8
  of a buffer of two bytes, accesses a third byte: the routine always reads and writes the
  byte after the first one, although none of its bits is addressed.
\<close>

theorem xMBUtilSetBits_overrun: "xMBUtilSetBits [0, 0] 8 8 0x5A = None"
  by (simp add: xMBUtilSetBits_def get_byte_def)

theorem xMBUtilSetBits_bits_witness:
  "\<exists>buf'. xMBUtilSetBits [0xFF, 0xFF, 0] 6 4 0x5 = Some buf' \<and> xMBUtilGetBits buf' 6 4 = Some 0x5"
  using xMBUtilSetBits_bits [of 4 6 "[0xFF, 0xFF, 0]" 5] by auto

end
