(* ===== verification/MB_Func.thy ===== *)
theory MB_Func
  imports MB_Utils
begin

text \<open>
  The function handlers of the Modbus stack (\<^verbatim>\<open>modbus/functions/*.c\<close>). A handler receives the
  protocol data unit in the frame buffer, asks the application through a register callback
  and leaves the response in the same buffer. The application is a parameter: its callbacks
  are the fields of \<open>mb_callbacks\<close>, its state is passed through.
\<close>

section \<open>Buffers\<close>

definition get_ushort :: "byte list \<Rightarrow> nat \<Rightarrow> ushort option" where
  "get_ushort frame off = do {
     hi \<leftarrow> get_byte frame off;
     lo \<leftarrow> get_byte frame (off + 1);
     Some (push_bit 8 (ucast hi) OR ucast lo) }"

text \<open>\<^verbatim>\<open>memcpy\<close> to and from a buffer.\<close>

definition get_bytes :: "byte list \<Rightarrow> nat \<Rightarrow> nat \<Rightarrow> byte list option" where
  "get_bytes buf off n = (if off + n \<le> length buf then Some (take n (drop off buf)) else None)"

definition put_bytes :: "byte list \<Rightarrow> nat \<Rightarrow> byte list \<Rightarrow> byte list option" where
  "put_bytes buf off bs =
     (if off + length bs \<le> length buf then Some (take off buf @ bs @ drop (off + length bs) buf) else None)"

section \<open>The application interface\<close>

datatype eMBRegisterMode = MB_REG_READ | MB_REG_WRITE

type_synonym 'a reg_cb = "'a \<Rightarrow> byte list \<Rightarrow> nat \<Rightarrow> ushort \<Rightarrow> ushort \<Rightarrow> ('a \<times> byte list \<times> eMBErrorCode) option"

record 'a mb_callbacks =
  cbInput :: "'a reg_cb"
  cbHolding :: "eMBRegisterMode \<Rightarrow> 'a reg_cb"
  cbCoils :: "eMBRegisterMode \<Rightarrow> 'a reg_cb"
  cbDiscrete :: "'a reg_cb"

record 'a mb_data =
  ucMBSlaveID :: "byte list"
  usMBSlaveIDLen :: ushort
  app :: 'a

text \<open>The result of a handler: state, frame, \<open>*usLen\<close> and the exception.\<close>

type_synonym 'a handler_result = "('a mb_data \<times> byte list \<times> ushort \<times> eMBException) option"

definition with_app :: "'a mb_data \<Rightarrow> ('a \<times> byte list \<times> eMBErrorCode) option \<Rightarrow> ('a mb_data \<times> byte list \<times> eMBErrorCode) option" where
  "with_app s r = map_option (\<lambda>(a, frame, e). (s\<lparr>app := a\<rparr>, frame, e)) r"

definition bit_bytes :: "ushort \<Rightarrow> byte" where
  "bit_bytes n = (if n AND 0x0007 \<noteq> 0 then ucast (n div 8 + 1) else ucast (n div 8))"

section \<open>Coils and discrete inputs\<close>

definition eMBFuncReadCoils :: "'a mb_callbacks \<Rightarrow> 'a mb_data \<Rightarrow> byte list \<Rightarrow> ushort \<Rightarrow> 'a handler_result" where
  "eMBFuncReadCoils cb s pucFrame usLen =
     (if usLen = 4 + 1 then do {
        usRegAddress \<leftarrow> get_ushort pucFrame 1;
        usRegAddress \<leftarrow> Some (usRegAddress + 1);
        usCoilCount \<leftarrow> get_ushort pucFrame 3;
        (if 1 \<le> usCoilCount \<and> usCoilCount < 0x07D0 then do {
           pucFrame \<leftarrow> set_byte pucFrame 0 1;
           ucNBytes \<leftarrow> Some (bit_bytes usCoilCount);
           pucFrame \<leftarrow> set_byte pucFrame 1 ucNBytes;
           (s, pucFrame, eRegStatus) \<leftarrow>
             with_app s (cbCoils cb MB_REG_READ (app s) pucFrame 2 usRegAddress usCoilCount);
           (if eRegStatus \<noteq> MB_ENOERR then Some (s, pucFrame, 2, prveMBError2Exception eRegStatus)
            else Some (s, pucFrame, 2 + ucast ucNBytes, MB_EX_NONE)) }
         else Some (s, pucFrame, usLen, MB_EX_ILLEGAL_DATA_VALUE)) }
      else Some (s, pucFrame, usLen, MB_EX_ILLEGAL_DATA_VALUE))"

definition eMBFuncWriteCoil :: "'a mb_callbacks \<Rightarrow> 'a mb_data \<Rightarrow> byte list \<Rightarrow> ushort \<Rightarrow> 'a handler_result" where
  "eMBFuncWriteCoil cb s pucFrame usLen =
     (if usLen = 4 + 1 then do {
        usRegAddress \<leftarrow> get_ushort pucFrame 1;
        usRegAddress \<leftarrow> Some (usRegAddress + 1);
        v0 \<leftarrow> get_byte pucFrame 3;
        v1 \<leftarrow> get_byte pucFrame 4;
        (if v1 = 0x00 \<and> (v0 = 0xFF \<or> v0 = 0x00) then do {
           ucBuf \<leftarrow> Some [if v0 = 0xFF then 1 else 0, 0];
           (s, _, eRegStatus) \<leftarrow> with_app s (cbCoils cb MB_REG_WRITE (app s) ucBuf 0 usRegAddress 1);
           (if eRegStatus \<noteq> MB_ENOERR then Some (s, pucFrame, usLen, prveMBError2Exception eRegStatus)
            else Some (s, pucFrame, usLen, MB_EX_NONE)) }
         else Some (s, pucFrame, usLen, MB_EX_ILLEGAL_DATA_VALUE)) }
      else Some (s, pucFrame, usLen, MB_EX_ILLEGAL_DATA_VALUE))"

definition eMBFuncWriteMultipleCoils ::
    "'a mb_callbacks \<Rightarrow> 'a mb_data \<Rightarrow> byte list \<Rightarrow> ushort \<Rightarrow> 'a handler_result" where
  "eMBFuncWriteMultipleCoils cb s pucFrame usLen =
     (if usLen > 4 + 1 then do {
        usRegAddress \<leftarrow> get_ushort pucFrame 1;
        usRegAddress \<leftarrow> Some (usRegAddress + 1);
        usCoilCnt \<leftarrow> get_ushort pucFrame 3;
        ucByteCount \<leftarrow> get_byte pucFrame 5;
        ucByteCountVerify \<leftarrow> Some (bit_bytes usCoilCnt);
        (if 1 \<le> usCoilCnt \<and> usCoilCnt \<le> 0x07B0 \<and> ucByteCountVerify = ucByteCount then do {
           (s, pucFrame, eRegStatus) \<leftarrow>
             with_app s (cbCoils cb MB_REG_WRITE (app s) pucFrame 6 usRegAddress usCoilCnt);
           (if eRegStatus \<noteq> MB_ENOERR then Some (s, pucFrame, usLen, prveMBError2Exception eRegStatus)
            else Some (s, pucFrame, 5, MB_EX_NONE)) }
         else Some (s, pucFrame, usLen, MB_EX_ILLEGAL_DATA_VALUE)) }
      else Some (s, pucFrame, usLen, MB_EX_ILLEGAL_DATA_VALUE))"

definition eMBFuncReadDiscreteInputs ::
    "'a mb_callbacks \<Rightarrow> 'a mb_data \<Rightarrow> byte list \<Rightarrow> ushort \<Rightarrow> 'a handler_result" where
  "eMBFuncReadDiscreteInputs cb s pucFrame usLen =
     (if usLen = 4 + 1 then do {
        usRegAddress \<leftarrow> get_ushort pucFrame 1;
        usRegAddress \<leftarrow> Some (usRegAddress + 1);
        usDiscreteCnt \<leftarrow> get_ushort pucFrame 3;
        (if 1 \<le> usDiscreteCnt \<and> usDiscreteCnt < 0x07D0 then do {
           pucFrame \<leftarrow> set_byte pucFrame 0 2;
           ucNBytes \<leftarrow> Some (bit_bytes usDiscreteCnt);
           pucFrame \<leftarrow> set_byte pucFrame 1 ucNBytes;
           (s, pucFrame, eRegStatus) \<leftarrow>
             with_app s (cbDiscrete cb (app s) pucFrame 2 usRegAddress usDiscreteCnt);
           (if eRegStatus \<noteq> MB_ENOERR then Some (s, pucFrame, 2, prveMBError2Exception eRegStatus)
            else Some (s, pucFrame, 2 + ucast ucNBytes, MB_EX_NONE)) }
         else Some (s, pucFrame, usLen, MB_EX_ILLEGAL_DATA_VALUE)) }
      else Some (s, pucFrame, usLen, MB_EX_ILLEGAL_DATA_VALUE))"

section \<open>Registers\<close>

definition eMBFuncReadInputRegister ::
    "'a mb_callbacks \<Rightarrow> 'a mb_data \<Rightarrow> byte list \<Rightarrow> ushort \<Rightarrow> 'a handler_result" where
  "eMBFuncReadInputRegister cb s pucFrame usLen =
     (if usLen = 4 + 1 then do {
        usRegAddress \<leftarrow> get_ushort pucFrame 1;
        usRegAddress \<leftarrow> Some (usRegAddress + 1);
        usRegCount \<leftarrow> get_ushort pucFrame 3;
        (if 1 \<le> usRegCount \<and> usRegCount < 0x007D then do {
           pucFrame \<leftarrow> set_byte pucFrame 0 4;
           pucFrame \<leftarrow> set_byte pucFrame 1 (ucast (usRegCount * 2));
           (s, pucFrame, eRegStatus) \<leftarrow>
             with_app s (cbInput cb (app s) pucFrame 2 usRegAddress usRegCount);
           (if eRegStatus \<noteq> MB_ENOERR then Some (s, pucFrame, 2, prveMBError2Exception eRegStatus)
            else Some (s, pucFrame, 2 + usRegCount * 2, MB_EX_NONE)) }
         else Some (s, pucFrame, usLen, MB_EX_ILLEGAL_DATA_VALUE)) }
      else Some (s, pucFrame, usLen, MB_EX_ILLEGAL_DATA_VALUE))"

definition eMBFuncWriteHoldingRegister ::
    "'a mb_callbacks \<Rightarrow> 'a mb_data \<Rightarrow> byte list \<Rightarrow> ushort \<Rightarrow> 'a handler_result" where
  "eMBFuncWriteHoldingRegister cb s pucFrame usLen =
     (if usLen = 4 + 1 then do {
        usRegAddress \<leftarrow> get_ushort pucFrame 1;
        usRegAddress \<leftarrow> Some (usRegAddress + 1);
        (s, pucFrame, eRegStatus) \<leftarrow>
          with_app s (cbHolding cb MB_REG_WRITE (app s) pucFrame 3 usRegAddress 1);
        (if eRegStatus \<noteq> MB_ENOERR then Some (s, pucFrame, usLen, prveMBError2Exception eRegStatus)
         else Some (s, pucFrame, usLen, MB_EX_NONE)) }
      else Some (s, pucFrame, usLen, MB_EX_ILLEGAL_DATA_VALUE))"

definition eMBFuncWriteMultipleHoldingRegister ::
    "'a mb_callbacks \<Rightarrow> 'a mb_data \<Rightarrow> byte list \<Rightarrow> ushort \<Rightarrow> 'a handler_result" where
  "eMBFuncWriteMultipleHoldingRegister cb s pucFrame usLen =
     (if usLen \<ge> 5 + 1 then do {
        usRegAddress \<leftarrow> get_ushort pucFrame 1;
        usRegAddress \<leftarrow> Some (usRegAddress + 1);
        usRegCount \<leftarrow> get_ushort pucFrame 3;
        ucRegByteCount \<leftarrow> get_byte pucFrame 5;
        (if 1 \<le> usRegCount \<and> usRegCount \<le> 0x0078 \<and> ucRegByteCount = ucast (2 * usRegCount) then do {
           (s, pucFrame, eRegStatus) \<leftarrow>
             with_app s (cbHolding cb MB_REG_WRITE (app s) pucFrame 6 usRegAddress usRegCount);
           (if eRegStatus \<noteq> MB_ENOERR then Some (s, pucFrame, usLen, prveMBError2Exception eRegStatus)
            else Some (s, pucFrame, 5, MB_EX_NONE)) }
         else Some (s, pucFrame, usLen, MB_EX_ILLEGAL_DATA_VALUE)) }
      else Some (s, pucFrame, usLen, MB_EX_ILLEGAL_DATA_VALUE))"

text \<open>
  The count of \<open>eMBFuncReadHoldingRegister\<close> is assigned twice: the second statement is
  an assignment, not \<^verbatim>\<open>|=\<close>, and drops the high byte.
\<close>

definition eMBFuncReadHoldingRegister ::
    "'a mb_callbacks \<Rightarrow> 'a mb_data \<Rightarrow> byte list \<Rightarrow> ushort \<Rightarrow> 'a handler_result" where
  "eMBFuncReadHoldingRegister cb s pucFrame usLen =
     (if usLen = 4 + 1 then do {
        usRegAddress \<leftarrow> get_ushort pucFrame 1;
        usRegAddress \<leftarrow> Some (usRegAddress + 1);
        cntHi \<leftarrow> get_byte pucFrame 3;
        usRegCount \<leftarrow> Some (push_bit 8 (ucast cntHi) :: ushort);
        cntLo \<leftarrow> get_byte pucFrame 4;
        usRegCount \<leftarrow> Some (ucast cntLo :: ushort);
        (if 1 \<le> usRegCount \<and> usRegCount \<le> 0x007D then do {
           pucFrame \<leftarrow> set_byte pucFrame 0 3;
           pucFrame \<leftarrow> set_byte pucFrame 1 (ucast (usRegCount * 2));
           (s, pucFrame, eRegStatus) \<leftarrow>
             with_app s (cbHolding cb MB_REG_READ (app s) pucFrame 2 usRegAddress usRegCount);
           (if eRegStatus \<noteq> MB_ENOERR then Some (s, pucFrame, 2, prveMBError2Exception eRegStatus)
            else Some (s, pucFrame, 2 + usRegCount * 2, MB_EX_NONE)) }
         else Some (s, pucFrame, usLen, MB_EX_ILLEGAL_DATA_VALUE)) }
      else Some (s, pucFrame, usLen, MB_EX_ILLEGAL_DATA_VALUE))"

text \<open>A request that is too short falls through with \<open>MB_EX_NONE\<close> and its own length.\<close>

definition eMBFuncReadWriteMultipleHoldingRegister ::
    "'a mb_callbacks \<Rightarrow> 'a mb_data \<Rightarrow> byte list \<Rightarrow> ushort \<Rightarrow> 'a handler_result" where
  "eMBFuncReadWriteMultipleHoldingRegister cb s pucFrame usLen =
     (if usLen \<ge> 9 + 1 then do {
        usRegReadAddress \<leftarrow> get_ushort pucFrame 1;
        usRegReadAddress \<leftarrow> Some (usRegReadAddress + 1);
        usRegReadCount \<leftarrow> get_ushort pucFrame 3;
        usRegWriteAddress \<leftarrow> get_ushort pucFrame 5;
        usRegWriteAddress \<leftarrow> Some (usRegWriteAddress + 1);
        usRegWriteCount \<leftarrow> get_ushort pucFrame 7;
        ucRegWriteByteCount \<leftarrow> get_byte pucFrame 9;
        (if 1 \<le> usRegReadCount \<and> usRegReadCount \<le> 0x7D \<and> 1 \<le> usRegWriteCount \<and> usRegWriteCount \<le> 0x79 \<and>
            2 * unat usRegWriteCount = unat ucRegWriteByteCount then do {
           (s, pucFrame, eRegStatus) \<leftarrow>
             with_app s (cbHolding cb MB_REG_WRITE (app s) pucFrame 10 usRegWriteAddress usRegWriteCount);
           (if eRegStatus = MB_ENOERR then do {
              pucFrame \<leftarrow> set_byte pucFrame 0 23;
              pucFrame \<leftarrow> set_byte pucFrame 1 (ucast (usRegReadCount * 2));
              (s, pucFrame, eRegStatus) \<leftarrow>
                with_app s (cbHolding cb MB_REG_READ (app s) pucFrame 2 usRegReadAddress usRegReadCount);
              (if eRegStatus = MB_ENOERR then Some (s, pucFrame, 2 + 2 * usRegReadCount, MB_EX_NONE)
               else Some (s, pucFrame, 2, prveMBError2Exception eRegStatus)) }
            else Some (s, pucFrame, usLen, prveMBError2Exception eRegStatus)) }
         else Some (s, pucFrame, usLen, MB_EX_ILLEGAL_DATA_VALUE)) }
      else Some (s, pucFrame, usLen, MB_EX_NONE))"

section \<open>Slave identification\<close>

definition eMBSetSlaveID ::
    "'a mb_data \<Rightarrow> byte \<Rightarrow> bool \<Rightarrow> byte list \<Rightarrow> ushort \<Rightarrow> ('a mb_data \<times> eMBErrorCode) option" where
  "eMBSetSlaveID s ucSlaveID xIsRunning pucAdditional usAdditionalLen =
     (if unat usAdditionalLen + 2 < 32 then do {
        buf \<leftarrow> set_byte (ucMBSlaveID s) 0 ucSlaveID;
        buf \<leftarrow> set_byte buf 1 (if xIsRunning then 0xFF else 0x00);
        (if usAdditionalLen > 0 then do {
           bs \<leftarrow> get_bytes pucAdditional 0 (unat usAdditionalLen);
           buf \<leftarrow> put_bytes buf 2 bs;
           Some (s\<lparr>ucMBSlaveID := buf, usMBSlaveIDLen := 2 + usAdditionalLen\<rparr>, MB_ENOERR) }
         else Some (s\<lparr>ucMBSlaveID := buf, usMBSlaveIDLen := 2\<rparr>, MB_ENOERR)) }
      else Some (s, MB_ENORES))"

definition eMBFuncReportSlaveID :: "'a mb_data \<Rightarrow> byte list \<Rightarrow> ushort \<Rightarrow> 'a handler_result" where
  "eMBFuncReportSlaveID s pucFrame usLen = do {
     bs \<leftarrow> get_bytes (ucMBSlaveID s) 0 (unat (usMBSlaveIDLen s));
     pucFrame \<leftarrow> put_bytes pucFrame 1 bs;
     Some (s, pucFrame, 1 + usMBSlaveIDLen s, MB_EX_NONE) }"

section \<open>Sizes\<close>

lemma unat_regs: "unat c \<le> 125 \<Longrightarrow> unat (2 + c * 2 :: ushort) = 2 + 2 * unat c"
  "unat c \<le> 125 \<Longrightarrow> unat (2 + 2 * c :: ushort) = 2 + 2 * unat c"
  by (simp_all add: unat_word_ariths)

lemma and_7: "n AND 7 = n mod 8" for n :: ushort
  using take_bit_eq_mod [of 3 n] by (simp add: take_bit_eq_mask mask_eq_exp_minus_1)

lemma ceil8: "(n + 7) div 8 = (if n mod 8 = 0 then n div 8 else n div 8 + 1)" for n :: nat
  by presburger

lemma unat_bit_bytes: "unat n \<le> 2000 \<Longrightarrow> unat (bit_bytes n) = (unat n + 7) div 8"
proof -
  assume n: "unat n \<le> 2000"
  have "unat (n div 8) = unat n div 8" "unat (n mod 8) = unat n mod 8"
    by (simp_all add: unat_div unat_mod)
  moreover have "unat (n div 8 + 1) = unat n div 8 + 1"
    using n calculation(1) by (simp add: unat_word_ariths)
  moreover have "n mod 8 = 0 \<longleftrightarrow> unat n mod 8 = 0"
    using calculation(2) by (metis unat_eq_zero)
  ultimately show ?thesis
    using n ceil8 [of "unat n"] unfolding bit_bytes_def and_7
    by (auto simp: unsigned_ucast_eq take_bit_eq_mod)
qed

section \<open>The contract of the application\<close>

text \<open>
  A callback that reads registers fills \<open>m\<close> bytes of the buffer from \<open>off\<close> on and leaves the
  rest; a callback that writes registers leaves the buffer.
\<close>

definition cb_reads ::
    "('a \<Rightarrow> bool) \<Rightarrow> byte list \<Rightarrow> nat \<Rightarrow> nat \<Rightarrow> ('a \<times> byte list \<times> eMBErrorCode) option \<Rightarrow> bool" where
  "cb_reads good buf off m res \<longleftrightarrow> (\<exists>a' buf' e. res = Some (a', buf', e) \<and> good a' \<and>
     length buf' = length buf \<and> take off buf' = take off buf \<and> drop (off + m) buf' = drop (off + m) buf)"

definition cb_writes ::
    "('a \<Rightarrow> bool) \<Rightarrow> byte list \<Rightarrow> ('a \<times> byte list \<times> eMBErrorCode) option \<Rightarrow> bool" where
  "cb_writes good buf res \<longleftrightarrow> (\<exists>a' e. res = Some (a', buf, e) \<and> good a')"

text \<open>The state of the stack around the application, and what every handler guarantees.\<close>

definition data_ok :: "('a \<Rightarrow> bool) \<Rightarrow> 'a mb_data \<Rightarrow> bool" where
  "data_ok good s \<longleftrightarrow> good (app s) \<and> length (ucMBSlaveID s) = 32 \<and> unat (usMBSlaveIDLen s) < 32"

definition handler_ok :: "('a \<Rightarrow> bool) \<Rightarrow> byte list \<Rightarrow> 'a handler_result \<Rightarrow> bool" where
  "handler_ok good frame res \<longleftrightarrow> (\<exists>s' frame' len' ex. res = Some (s', frame', len', ex) \<and>
     data_ok good s' \<and> length frame' = length frame \<and> (ex = MB_EX_NONE \<longrightarrow> unat len' \<le> 253))"

text \<open>One rule for each kind of statement: \<open>f\<close> is the rest of the handler.\<close>

named_theorems ok_rules \<open>the statements of a handler\<close>

lemma data_app [dest]: "data_ok good s \<Longrightarrow> good (app s)"
  by (simp add: data_ok_def)

lemma handler_okI [ok_rules]:
  "data_ok good s \<Longrightarrow> length frame' = length frame \<Longrightarrow> (ex = MB_EX_NONE \<Longrightarrow> unat len \<le> 253) \<Longrightarrow>
   handler_ok good frame (Some (s, frame', len, ex))"
  by (simp add: handler_ok_def)

lemma error_exception: "prveMBError2Exception e = MB_EX_NONE \<longleftrightarrow> e = MB_ENOERR"
  by (cases e) simp_all

lemma ok_get_byte [ok_rules]:
  "i < length buf \<Longrightarrow> (\<And>v. handler_ok good frame (f v)) \<Longrightarrow> handler_ok good frame (get_byte buf i \<bind> f)"
  by (simp add: get_byte_def)

lemma ok_get_ushort [ok_rules]:
  "i + 1 < length buf \<Longrightarrow> (\<And>v. handler_ok good frame (f v)) \<Longrightarrow> handler_ok good frame (get_ushort buf i \<bind> f)"
  by (simp add: get_ushort_def get_byte_def)

lemma ok_set_byte [ok_rules]:
  "i < length buf \<Longrightarrow> (\<And>buf'. length buf' = length buf \<Longrightarrow> handler_ok good frame (f buf')) \<Longrightarrow>
   handler_ok good frame (set_byte buf i b \<bind> f)"
  by (simp add: set_byte_def)

lemma ok_if [ok_rules]:
  "(b \<Longrightarrow> handler_ok good frame r) \<Longrightarrow> (\<not> b \<Longrightarrow> handler_ok good frame r') \<Longrightarrow>
   handler_ok good frame (if b then r else r')"
  by simp

lemma ok_reads:
  assumes "cb_reads good buf off m res" and "data_ok good s"
    and "\<And>s' buf' e. data_ok good s' \<Longrightarrow> length buf' = length buf \<Longrightarrow> handler_ok good frame (f (s', buf', e))"
  shows "handler_ok good frame (with_app s res \<bind> f)"
  using assms by (auto simp: cb_reads_def with_app_def data_ok_def)

lemma ok_writes:
  assumes "cb_writes good buf res" and "data_ok good s"
    and "\<And>s' e. data_ok good s' \<Longrightarrow> handler_ok good frame (f (s', buf, e))"
  shows "handler_ok good frame (with_app s res \<bind> f)"
  using assms by (auto simp: cb_writes_def with_app_def data_ok_def)

lemma len_bits: "n < 0x07D0 \<Longrightarrow> unat (2 + ucast (bit_bytes n) :: ushort) \<le> 253"
proof -
  assume "n < 0x07D0"
  then have "unat n < 2000"
    by (simp add: word_less_nat_alt)
  then have "unat (ucast (bit_bytes n) :: ushort) \<le> 250"
    using unat_bit_bytes [of n] by (simp add: unsigned_ucast_eq take_bit_eq_mod)
  then show ?thesis
    by (simp add: unat_word_ariths)
qed

lemma get_ushort_in: "off + 1 < length buf \<Longrightarrow>
  get_ushort buf off = Some (push_bit 8 (ucast (buf ! off)) OR ucast (buf ! (off + 1)))"
  by (simp add: get_ushort_def c_simps)

locale mb_application =
  fixes cb :: "'a mb_callbacks" and good :: "'a \<Rightarrow> bool"
  assumes input_ok: "good a \<Longrightarrow> off + 2 * unat n \<le> length buf \<Longrightarrow>
      cb_reads good buf off (2 * unat n) (cbInput cb a buf off adr n)"
    and holding_read: "good a \<Longrightarrow> off + 2 * unat n \<le> length buf \<Longrightarrow>
      cb_reads good buf off (2 * unat n) (cbHolding cb MB_REG_READ a buf off adr n)"
    and holding_write: "good a \<Longrightarrow> off + 2 * unat n \<le> length buf \<Longrightarrow>
      cb_writes good buf (cbHolding cb MB_REG_WRITE a buf off adr n)"
    and coils_read: "good a \<Longrightarrow> off + (unat n + 7) div 8 \<le> length buf \<Longrightarrow>
      cb_reads good buf off ((unat n + 7) div 8) (cbCoils cb MB_REG_READ a buf off adr n)"
    and coils_write: "good a \<Longrightarrow> off + (unat n + 7) div 8 \<le> length buf \<Longrightarrow>
      cb_writes good buf (cbCoils cb MB_REG_WRITE a buf off adr n)"
    and discrete_ok: "good a \<Longrightarrow> off + (unat n + 7) div 8 \<le> length buf \<Longrightarrow>
      cb_reads good buf off ((unat n + 7) div 8) (cbDiscrete cb a buf off adr n)"
begin

text \<open>A call of a callback inside a handler.\<close>

lemmas call_rules =
  ok_reads [OF input_ok] ok_reads [OF holding_read] ok_writes [OF holding_write]
  ok_reads [OF coils_read] ok_writes [OF coils_write] ok_reads [OF discrete_ok]

lemmas size_rules = error_exception data_app len_bits unat_regs word_less_nat_alt word_le_nat_alt

lemma read_coils_ok:
  "data_ok good s \<Longrightarrow> 253 \<le> length frame \<Longrightarrow> handler_ok good frame (eMBFuncReadCoils cb s frame len)"
  unfolding eMBFuncReadCoils_def bind.bind_lunit
  by (auto intro!: ok_rules call_rules simp: size_rules split: prod.splits)

lemma write_coil_ok:
  "data_ok good s \<Longrightarrow> 253 \<le> length frame \<Longrightarrow> handler_ok good frame (eMBFuncWriteCoil cb s frame len)"
  unfolding eMBFuncWriteCoil_def bind.bind_lunit
  by (auto intro!: ok_rules call_rules simp: size_rules split: prod.splits)

lemma write_coils_ok:
  "data_ok good s \<Longrightarrow> 253 \<le> length frame \<Longrightarrow> handler_ok good frame (eMBFuncWriteMultipleCoils cb s frame len)"
  unfolding eMBFuncWriteMultipleCoils_def bind.bind_lunit
  by (auto intro!: ok_rules call_rules simp: size_rules split: prod.splits)

lemma read_discrete_ok:
  "data_ok good s \<Longrightarrow> 253 \<le> length frame \<Longrightarrow> handler_ok good frame (eMBFuncReadDiscreteInputs cb s frame len)"
  unfolding eMBFuncReadDiscreteInputs_def bind.bind_lunit
  by (auto intro!: ok_rules call_rules simp: size_rules split: prod.splits)

lemma read_input_ok:
  "data_ok good s \<Longrightarrow> 253 \<le> length frame \<Longrightarrow> handler_ok good frame (eMBFuncReadInputRegister cb s frame len)"
  unfolding eMBFuncReadInputRegister_def bind.bind_lunit
  by (auto intro!: ok_rules call_rules simp: size_rules split: prod.splits)

lemma write_holding_ok:
  "data_ok good s \<Longrightarrow> 253 \<le> length frame \<Longrightarrow> handler_ok good frame (eMBFuncWriteHoldingRegister cb s frame len)"
  unfolding eMBFuncWriteHoldingRegister_def bind.bind_lunit
  by (auto intro!: ok_rules call_rules simp: size_rules split: prod.splits)

lemma write_holdings_ok:
  "data_ok good s \<Longrightarrow> 253 \<le> length frame \<Longrightarrow> handler_ok good frame (eMBFuncWriteMultipleHoldingRegister cb s frame len)"
  unfolding eMBFuncWriteMultipleHoldingRegister_def bind.bind_lunit
  by (auto intro!: ok_rules call_rules simp: size_rules split: prod.splits)

lemma read_holding_ok:
  "data_ok good s \<Longrightarrow> 253 \<le> length frame \<Longrightarrow> handler_ok good frame (eMBFuncReadHoldingRegister cb s frame len)"
  unfolding eMBFuncReadHoldingRegister_def bind.bind_lunit
  by (auto intro!: ok_rules call_rules simp: size_rules split: prod.splits)

lemma read_write_ok:
  "data_ok good s \<Longrightarrow> 253 \<le> length frame \<Longrightarrow> handler_ok good frame (eMBFuncReadWriteMultipleHoldingRegister cb s frame len)"
  unfolding eMBFuncReadWriteMultipleHoldingRegister_def bind.bind_lunit
  by (auto intro!: ok_rules call_rules simp: size_rules split: prod.splits)

end
section \<open>The slave identification stays in its buffer\<close>

lemma report_slave_id_ok:
  "data_ok good s \<Longrightarrow> 253 \<le> length frame \<Longrightarrow> handler_ok good frame (eMBFuncReportSlaveID s frame len)"
  by (auto simp: eMBFuncReportSlaveID_def get_bytes_def put_bytes_def data_ok_def handler_ok_def unat_word_ariths)

lemma set_slave_id_ok:
  assumes "data_ok good s" and "unat n \<le> length bs"
  shows "\<exists>s' e. eMBSetSlaveID s i run bs n = Some (s', e) \<and> data_ok good s' \<and>
    (if unat n < 30 then e = MB_ENOERR \<and> unat (usMBSlaveIDLen s') = unat n + 2 \<and>
       take (unat n + 2) (ucMBSlaveID s') = i # (if run then 0xFF else 0) # take (unat n) bs
     else e = MB_ENORES \<and> s' = s)"
proof (cases "unat n < 30")
  case True
  moreover obtain a b rest where "ucMBSlaveID s = a # b # rest" "length rest = 30"
    using assms(1) by (auto simp: data_ok_def length_Suc_conv numeral_eq_Suc)
  ultimately show ?thesis
    using assms
    by (auto simp: eMBSetSlaveID_def data_ok_def set_byte_def get_bytes_def put_bytes_def unat_word_ariths
      word_less_nat_alt take_Cons')
next
  case False
  then show ?thesis
    using assms by (simp add: eMBSetSlaveID_def)
qed

end
