(* ===== verification/MB_Port.thy ===== *)
theory MB_Port
  imports MB_Func
begin

text \<open>
  The porting layer as the protocol stack sees it. The event queue of
  \<^verbatim>\<open>demo/LINUXTCP/port/portevent.c\<close> holds one event. The serial and timer functions are
  hardware dependent and have no source here: the record keeps the arguments of the last
  calls and the bytes handed to \<^verbatim>\<open>xMBPortSerialPutByte\<close>.
\<close>

datatype eMBEventType = EV_READY | EV_FRAME_RECEIVED | EV_EXECUTE | EV_FRAME_SENT

datatype eMBParity = MB_PAR_NONE | MB_PAR_ODD | MB_PAR_EVEN

record port =
  xEventInQueue :: bool
  eQueuedEvent :: eMBEventType
  rx_on :: bool
  tx_on :: bool
  timer_on :: bool
  sent :: "byte list"

definition xMBPortEventInit :: "'a port_scheme \<Rightarrow> 'a port_scheme \<times> bool" where
  "xMBPortEventInit p = (p\<lparr>xEventInQueue := False\<rparr>, True)"

definition xMBPortEventPost :: "eMBEventType \<Rightarrow> 'a port_scheme \<Rightarrow> 'a port_scheme \<times> bool" where
  "xMBPortEventPost eEvent p = (p\<lparr>xEventInQueue := True, eQueuedEvent := eEvent\<rparr>, True)"

text \<open>\<open>pool\<close> is the effect of \<open>xMBPortTCPPool\<close>, which serves the sockets when no event waits.\<close>

definition xMBPortEventGet ::
    "('a port_scheme \<Rightarrow> 'a port_scheme option) \<Rightarrow> 'a port_scheme \<Rightarrow> ('a port_scheme \<times> eMBEventType option) option" where
  "xMBPortEventGet pool p =
     (if xEventInQueue p then Some (p\<lparr>xEventInQueue := False\<rparr>, Some (eQueuedEvent p))
      else do { p \<leftarrow> pool p; Some (p, None) })"

definition vMBPortSerialEnable :: "bool \<Rightarrow> bool \<Rightarrow> 'a port_scheme \<Rightarrow> 'a port_scheme" where
  "vMBPortSerialEnable xRxEnable xTxEnable p = p\<lparr>rx_on := xRxEnable, tx_on := xTxEnable\<rparr>"

definition vMBPortTimersEnable :: "'a port_scheme \<Rightarrow> 'a port_scheme" where
  "vMBPortTimersEnable p = p\<lparr>timer_on := True\<rparr>"

definition vMBPortTimersDisable :: "'a port_scheme \<Rightarrow> 'a port_scheme" where
  "vMBPortTimersDisable p = p\<lparr>timer_on := False\<rparr>"

definition xMBPortSerialPutByte :: "byte \<Rightarrow> 'a port_scheme \<Rightarrow> 'a port_scheme" where
  "xMBPortSerialPutByte b p = p\<lparr>sent := sent p @ [b]\<rparr>"

lemmas port_defs = xMBPortEventInit_def xMBPortEventPost_def vMBPortSerialEnable_def
  vMBPortTimersEnable_def vMBPortTimersDisable_def xMBPortSerialPutByte_def

text \<open>An event that was posted is the next one that is got.\<close>

lemma event_get_post:
  "xMBPortEventGet pool (fst (xMBPortEventPost e p)) = Some (p\<lparr>xEventInQueue := False, eQueuedEvent := e\<rparr>, Some e)"
  by (simp add: xMBPortEventGet_def xMBPortEventPost_def)

end
