(* ===== verification/MB_RTU.thy ===== *)
theory MB_RTU
  imports MB_Port
begin

text \<open>
  The RTU transmission mode (\<^verbatim>\<open>modbus/rtu/mbrtu.c\<close>): the receiver and transmitter state
  machines driven by the serial interrupts and the 3.5 character timer.
\<close>

section \<open>State and operations\<close>

datatype eMBRcvState = STATE_RX_INIT | STATE_RX_IDLE | STATE_RX_RCV | STATE_RX_ERROR

datatype eMBSndState = STATE_TX_IDLE | STATE_TX_XMIT

record rtu =
  eSndState :: eMBSndState
  eRcvState :: eMBRcvState
  ucRTUBuf :: "byte list"
  pucSndBufferCur :: nat
  usSndBufferCount :: ushort
  usRcvBufferPos :: ushort
  rport :: port

abbreviation do_port :: "(port \<Rightarrow> port) \<Rightarrow> rtu \<Rightarrow> rtu" where
  "do_port f s \<equiv> s\<lparr>rport := f (rport s)\<rparr>"

text \<open>
  Initialisation depends on the serial and timer drivers (\<open>serial_init\<close>, \<open>timers_init\<close>);
  the timer value is an unsigned long division.
\<close>

definition eMBRTUInit ::
    "(byte \<Rightarrow> 64 word \<Rightarrow> byte \<Rightarrow> eMBParity \<Rightarrow> bool) \<Rightarrow> (ushort \<Rightarrow> bool) \<Rightarrow> byte \<Rightarrow> 64 word \<Rightarrow> eMBParity \<Rightarrow> eMBErrorCode option" where
  "eMBRTUInit serial_init timers_init ucPort ulBaudRate eParity =
     (if \<not> serial_init ucPort ulBaudRate 8 eParity then Some MB_EPORTERR
      else do {
        usTimerT35_50us \<leftarrow>
          (if ulBaudRate > 19200 then Some (35 :: 64 word)
           else if 2 * ulBaudRate = 0 then None
           else Some ((7 * 220000) div (2 * ulBaudRate)));
        (if \<not> timers_init (ucast usTimerT35_50us) then Some MB_EPORTERR else Some MB_ENOERR) })"

definition eMBRTUStart :: "rtu \<Rightarrow> rtu" where
  "eMBRTUStart s =
     do_port vMBPortTimersEnable (do_port (vMBPortSerialEnable True False) (s\<lparr>eRcvState := STATE_RX_INIT\<rparr>))"

definition eMBRTUStop :: "rtu \<Rightarrow> rtu" where
  "eMBRTUStop s = do_port vMBPortTimersDisable (do_port (vMBPortSerialEnable False False) s)"

text \<open>On success: the address, the offset of the PDU in the buffer and its length.\<close>

definition eMBRTUReceive :: "rtu \<Rightarrow> (eMBErrorCode \<times> (byte \<times> nat \<times> ushort) option) option" where
  "eMBRTUReceive s = do {
     c_assert (usRcvBufferPos s < 256);
     (if usRcvBufferPos s \<ge> 4 \<and> usMBCRC16 (take (unat (usRcvBufferPos s)) (ucRTUBuf s)) = 0 then do {
        adr \<leftarrow> get_byte (ucRTUBuf s) 0;
        Some (MB_ENOERR, Some (adr, 1, usRcvBufferPos s - 1 - 2)) }
      else Some (MB_EIO, None)) }"

text \<open>
  The frame is given by its offset in \<open>ucRTUBuf\<close>; the byte before it takes the address and
  the checksum goes to the buffer position that the byte count names.
\<close>

definition eMBRTUSend :: "byte \<Rightarrow> nat \<Rightarrow> ushort \<Rightarrow> rtu \<Rightarrow> (rtu \<times> eMBErrorCode) option" where
  "eMBRTUSend ucSlaveAddress pucFrame usLength s =
     (if eRcvState s = STATE_RX_IDLE then do {
        c_assert (1 \<le> pucFrame);
        cur \<leftarrow> Some (pucFrame - 1);
        buf \<leftarrow> set_byte (ucRTUBuf s) cur ucSlaveAddress;
        cnt \<leftarrow> Some (1 + usLength);
        bs \<leftarrow> get_bytes buf cur (unat cnt);
        usCRC16 \<leftarrow> Some (usMBCRC16 bs);
        buf \<leftarrow> set_byte buf (unat cnt) (ucast (usCRC16 AND 0xFF));
        buf \<leftarrow> set_byte buf (unat (cnt + 1)) (ucast (drop_bit 8 usCRC16));
        Some (do_port (vMBPortSerialEnable False True)
          (s\<lparr>ucRTUBuf := buf, pucSndBufferCur := cur, usSndBufferCount := cnt + 1 + 1, eSndState := STATE_TX_XMIT\<rparr>),
          MB_ENOERR) }
      else Some (s, MB_EIO))"

definition xMBRTUReceiveFSM :: "byte \<Rightarrow> rtu \<Rightarrow> (rtu \<times> bool) option" where
  "xMBRTUReceiveFSM ucByte s = do {
     c_assert (eSndState s = STATE_TX_IDLE);
     (case eRcvState s of
        STATE_RX_INIT \<Rightarrow> Some (do_port vMBPortTimersEnable s, False)
      | STATE_RX_ERROR \<Rightarrow> Some (do_port vMBPortTimersEnable s, False)
      | STATE_RX_IDLE \<Rightarrow> do {
          buf \<leftarrow> set_byte (ucRTUBuf s) 0 ucByte;
          Some (do_port vMBPortTimersEnable
            (s\<lparr>ucRTUBuf := buf, usRcvBufferPos := 1, eRcvState := STATE_RX_RCV\<rparr>), False) }
      | STATE_RX_RCV \<Rightarrow>
          if usRcvBufferPos s < 256 then do {
            buf \<leftarrow> set_byte (ucRTUBuf s) (unat (usRcvBufferPos s)) ucByte;
            Some (do_port vMBPortTimersEnable
              (s\<lparr>ucRTUBuf := buf, usRcvBufferPos := usRcvBufferPos s + 1\<rparr>), False) }
          else Some (do_port vMBPortTimersEnable (s\<lparr>eRcvState := STATE_RX_ERROR\<rparr>), False)) }"

definition xMBRTUTransmitFSM :: "rtu \<Rightarrow> (rtu \<times> bool) option" where
  "xMBRTUTransmitFSM s = do {
     c_assert (eRcvState s = STATE_RX_IDLE);
     (case eSndState s of
        STATE_TX_IDLE \<Rightarrow> Some (do_port (vMBPortSerialEnable True False) s, False)
      | STATE_TX_XMIT \<Rightarrow>
          if usSndBufferCount s \<noteq> 0 then do {
            b \<leftarrow> get_byte (ucRTUBuf s) (pucSndBufferCur s);
            Some (do_port (xMBPortSerialPutByte b)
              (s\<lparr>pucSndBufferCur := pucSndBufferCur s + 1, usSndBufferCount := usSndBufferCount s - 1\<rparr>), False) }
          else do {
            (p, xNeedPoll) \<leftarrow> Some (xMBPortEventPost EV_FRAME_SENT (rport s));
            Some (do_port (vMBPortSerialEnable True False) (s\<lparr>rport := p, eSndState := STATE_TX_IDLE\<rparr>), xNeedPoll) }) }"

definition xMBRTUTimerT35Expired :: "rtu \<Rightarrow> (rtu \<times> bool) option" where
  "xMBRTUTimerT35Expired s = do {
     (s, xNeedPoll) \<leftarrow>
       (case eRcvState s of
          STATE_RX_INIT \<Rightarrow> (let (p, b) = xMBPortEventPost EV_READY (rport s) in Some (s\<lparr>rport := p\<rparr>, b))
        | STATE_RX_RCV \<Rightarrow> (let (p, b) = xMBPortEventPost EV_FRAME_RECEIVED (rport s) in Some (s\<lparr>rport := p\<rparr>, b))
        | STATE_RX_ERROR \<Rightarrow> Some (s, False)
        | STATE_RX_IDLE \<Rightarrow> do { c_assert False; Some (s, False) });
     Some (do_port vMBPortTimersDisable (s\<lparr>eRcvState := STATE_RX_IDLE\<rparr>), xNeedPoll) }"

section \<open>The state machine\<close>

text \<open>
  What may happen to the machine while the stack is enabled: a byte arrives while the
  receiver is enabled, the transmitter runs empty while it is enabled, the timer expires
  while it runs, or the main loop sends a response from the buffer. A step leads to \<open>None\<close>
  when an \<^verbatim>\<open>assert\<close> fails or memory outside the buffer is touched.
\<close>

datatype rtu_event = Byte byte | TxEmpty | T35 | Send byte ushort

fun enabled :: "rtu_event \<Rightarrow> rtu \<Rightarrow> bool" where
  "enabled (Byte b) s = rx_on (rport s)"
| "enabled TxEmpty s = tx_on (rport s)"
| "enabled T35 s = timer_on (rport s)"
| "enabled (Send adr len) s = (eSndState s = STATE_TX_IDLE \<and> unat len \<le> 253)"

fun perform :: "rtu_event \<Rightarrow> rtu \<Rightarrow> rtu option" where
  "perform (Byte b) s = map_option fst (xMBRTUReceiveFSM b s)"
| "perform TxEmpty s = map_option fst (xMBRTUTransmitFSM s)"
| "perform T35 s = map_option fst (xMBRTUTimerT35Expired s)"
| "perform (Send adr len) s = map_option fst (eMBRTUSend adr 1 len s)"

inductive rtu_run :: "rtu \<Rightarrow> rtu_event list \<Rightarrow> rtu \<Rightarrow> bool" where
  rtu_start: "rtu_run s [] s"
| rtu_step: "rtu_run s es s' \<Longrightarrow> enabled e s' \<Longrightarrow> perform e s' = Some s'' \<Longrightarrow> rtu_run s (es @ [e]) s''"

definition rtu_inv :: "rtu \<Rightarrow> bool" where
  "rtu_inv s \<longleftrightarrow>
     length (ucRTUBuf s) = 256 \<and> unat (usRcvBufferPos s) \<le> 256 \<and>
     (rx_on (rport s) \<longleftrightarrow> eSndState s = STATE_TX_IDLE) \<and> (tx_on (rport s) \<longleftrightarrow> eSndState s = STATE_TX_XMIT) \<and>
     (timer_on (rport s) \<longleftrightarrow> eRcvState s \<noteq> STATE_RX_IDLE) \<and>
     (eSndState s = STATE_TX_XMIT \<longrightarrow>
        eRcvState s = STATE_RX_IDLE \<and> pucSndBufferCur s + unat (usSndBufferCount s) \<le> 256)"

lemma rtu_inv_start:
  "length (ucRTUBuf s) = 256 \<Longrightarrow> unat (usRcvBufferPos s) \<le> 256 \<Longrightarrow> eSndState s = STATE_TX_IDLE \<Longrightarrow>
   rtu_inv (eMBRTUStart s)"
  by (simp add: rtu_inv_def eMBRTUStart_def port_defs)

lemma rtu_inv_step:
  assumes "rtu_inv s" and "enabled e s"
  shows "\<exists>s'. perform e s = Some s' \<and> rtu_inv s'"
proof (cases e)
  case (Byte b)
  then show ?thesis
    using assms by (auto simp: rtu_inv_def xMBRTUReceiveFSM_def set_byte_def port_defs word_less_nat_alt
      unat_word_ariths split: eMBRcvState.splits)
next
  case TxEmpty
  then show ?thesis
    using assms unat_gt_0 [of "usSndBufferCount s"]
    by (auto simp: rtu_inv_def xMBRTUTransmitFSM_def get_byte_def port_defs unat_minus_one split: eMBSndState.splits)
next
  case T35
  then show ?thesis
    using assms by (auto simp: rtu_inv_def xMBRTUTimerT35Expired_def port_defs Let_def split: eMBRcvState.splits)
next
  case (Send adr len)
  then show ?thesis
    using assms by (auto simp: rtu_inv_def eMBRTUSend_def set_byte_def get_bytes_def port_defs unat_word_ariths)
qed

lemma rtu_run_inv: "rtu_run s es s' \<Longrightarrow> rtu_inv s \<Longrightarrow> rtu_inv s'"
proof (induction rule: rtu_run.induct)
  case (rtu_step s es s' e s'')
  then show ?case
    using rtu_inv_step [of s' e] by auto
qed

section \<open>A frame on the wire\<close>

fun performs :: "rtu_event list \<Rightarrow> rtu \<Rightarrow> rtu option" where
  "performs [] s = Some s"
| "performs (e # es) s = perform e s \<bind> performs es"

lemma performs_append: "performs (es @ es') s = performs es s \<bind> performs es'"
proof (induction es arbitrary: s)
  case (Cons e es)
  then show ?case
    by (cases "perform e s") auto
qed simp

lemma transmit_ok:
  assumes "eRcvState s = STATE_RX_IDLE" and "eSndState s = STATE_TX_XMIT"
    and "unat (usSndBufferCount s) = n" and "pucSndBufferCur s + n \<le> length (ucRTUBuf s)"
  shows "\<exists>s'. performs (replicate (Suc n) TxEmpty) s = Some s' \<and>
    sent (rport s') = sent (rport s) @ take n (drop (pucSndBufferCur s) (ucRTUBuf s)) \<and>
    eSndState s' = STATE_TX_IDLE \<and> xEventInQueue (rport s') \<and> eQueuedEvent (rport s') = EV_FRAME_SENT"
  using assms
proof (induction n arbitrary: s)
  case 0
  then have "usSndBufferCount s = 0"
    by (simp add: unat_eq_zero)
  then show ?case
    using 0 by (simp add: xMBRTUTransmitFSM_def port_defs)
next
  case (Suc n)
  let ?b = "ucRTUBuf s ! pucSndBufferCur s"
  let ?s = "do_port (xMBPortSerialPutByte ?b)
    (s\<lparr>pucSndBufferCur := pucSndBufferCur s + 1, usSndBufferCount := usSndBufferCount s - 1\<rparr>)"
  have nz: "usSndBufferCount s \<noteq> 0"
    using Suc.prems(3) by auto
  have step: "perform TxEmpty s = Some ?s"
    using Suc.prems nz by (simp add: xMBRTUTransmitFSM_def get_byte_def)
  have "take (Suc n) (drop (pucSndBufferCur s) (ucRTUBuf s)) = ?b # take n (drop (pucSndBufferCur s + 1) (ucRTUBuf s))"
    using Suc.prems(4) by (simp add: Cons_nth_drop_Suc [symmetric])
  then show ?case
    using Suc.IH [of ?s] Suc.prems nz step by (simp add: unat_minus_one port_defs del: perform.simps)
qed

lemma receive_more:
  assumes "eRcvState s = STATE_RX_RCV" and "eSndState s = STATE_TX_IDLE" and "length (ucRTUBuf s) = 256"
    and "unat (usRcvBufferPos s) = p" and "p + length bs \<le> 256"
  shows "\<exists>s'. performs (map Byte bs) s = Some s' \<and> eRcvState s' = STATE_RX_RCV \<and> eSndState s' = STATE_TX_IDLE \<and>
    unat (usRcvBufferPos s') = p + length bs \<and> ucRTUBuf s' = take p (ucRTUBuf s) @ bs @ drop (p + length bs) (ucRTUBuf s)"
  using assms
proof (induction bs arbitrary: s p)
  case (Cons b bs)
  let ?s = "do_port vMBPortTimersEnable (s\<lparr>ucRTUBuf := (ucRTUBuf s)[p := b], usRcvBufferPos := usRcvBufferPos s + 1\<rparr>)"
  have "usRcvBufferPos s < 256"
    using Cons.prems by (simp add: word_less_nat_alt)
  then have step: "perform (Byte b) s = Some ?s"
    using Cons.prems by (simp add: xMBRTUReceiveFSM_def set_byte_def)
  have "unat (usRcvBufferPos s + 1) = p + 1"
    using Cons.prems by (simp add: unat_word_ariths)
  then show ?case
    using Cons.IH [of ?s "p + 1"] Cons.prems step
    by (auto simp: take_Suc_conv_app_nth)
qed simp

lemma receive_frame:
  assumes "eRcvState s = STATE_RX_IDLE" and "eSndState s = STATE_TX_IDLE" and "length (ucRTUBuf s) = 256"
    and "bs \<noteq> []" and "length bs \<le> 256"
  shows "\<exists>s'. performs (map Byte bs @ [T35]) s = Some s' \<and> eRcvState s' = STATE_RX_IDLE \<and>
    unat (usRcvBufferPos s') = length bs \<and> length (ucRTUBuf s') = 256 \<and> take (length bs) (ucRTUBuf s') = bs \<and>
    xEventInQueue (rport s') \<and> eQueuedEvent (rport s') = EV_FRAME_RECEIVED"
proof -
  obtain b bs' where bs: "bs = b # bs'"
    using assms(4) by (cases bs) auto
  let ?s = "do_port vMBPortTimersEnable (s\<lparr>ucRTUBuf := (ucRTUBuf s)[0 := b], usRcvBufferPos := 1, eRcvState := STATE_RX_RCV\<rparr>)"
  have step: "perform (Byte b) s = Some ?s"
    using assms(1-3) by (simp add: xMBRTUReceiveFSM_def set_byte_def)
  obtain s' where s': "performs (map Byte bs') ?s = Some s'" "eRcvState s' = STATE_RX_RCV" "eSndState s' = STATE_TX_IDLE"
      "unat (usRcvBufferPos s') = length bs" "ucRTUBuf s' = b # bs' @ drop (length bs) (ucRTUBuf s)"
    using receive_more [of ?s 1 bs'] assms by (auto simp: bs take_Suc_conv_app_nth)
  have "perform T35 s' = Some (do_port vMBPortTimersDisable
      (s'\<lparr>rport := fst (xMBPortEventPost EV_FRAME_RECEIVED (rport s')), eRcvState := STATE_RX_IDLE\<rparr>))"
    using s'(2) by (simp add: xMBRTUTimerT35Expired_def port_defs)
  then show ?thesis
    using step s' assms(3,5) by (simp add: bs performs_append port_defs del: perform.simps)
qed

text \<open>Address, PDU and checksum as they travel.\<close>

definition rtu_frame :: "byte \<Rightarrow> byte list \<Rightarrow> byte list" where
  "rtu_frame adr pdu = adr # pdu @ [crc_lo (usMBCRC16 (adr # pdu)), crc_hi (usMBCRC16 (adr # pdu))]"

lemma rtu_frame_crc: "usMBCRC16 (rtu_frame adr pdu) = 0"
  using usMBCRC16_append [of "adr # pdu"] crc_residue [of "usMBCRC16 (adr # pdu)"]
  by (simp add: rtu_frame_def)

lemma rtu_frame_length: "length (rtu_frame adr pdu) = length pdu + 3"
  by (simp add: rtu_frame_def)

lemma rtu_frame_parts:
  assumes "take (length pdu + 3) buf = rtu_frame adr pdu"
  shows "buf ! 0 = adr" and "take (length pdu) (drop 1 buf) = pdu"
proof -
  have "buf ! 0 = take (length pdu + 3) buf ! 0"
    by simp
  then show "buf ! 0 = adr"
    by (simp add: assms rtu_frame_def)
  have "take (length pdu) (drop 1 buf) = take (length pdu) (drop 1 (take (length pdu + 3) buf))"
    by (simp add: drop_take min_def)
  then show "take (length pdu) (drop 1 buf) = pdu"
    by (simp add: assms rtu_frame_def)
qed

lemma send_ok:
  assumes "eRcvState s = STATE_RX_IDLE" and "length (ucRTUBuf s) = 256" and "len \<le> 253"
  shows "\<exists>s'. eMBRTUSend adr 1 (of_nat len) s = Some (s', MB_ENOERR) \<and> eRcvState s' = STATE_RX_IDLE \<and>
    eSndState s' = STATE_TX_XMIT \<and> pucSndBufferCur s' = 0 \<and> unat (usSndBufferCount s') = len + 3 \<and>
    length (ucRTUBuf s') = 256 \<and> sent (rport s') = sent (rport s) \<and>
    take (len + 3) (ucRTUBuf s') = rtu_frame adr (take len (drop 1 (ucRTUBuf s)))"
proof -
  obtain x rest where buf: "ucRTUBuf s = x # rest" "length rest = 255"
    using assms(2) by (cases "ucRTUBuf s") auto
  have u: "unat (1 + of_nat len :: ushort) = len + 1" "unat (1 + of_nat len + 1 :: ushort) = len + 2"
      "unat (1 + of_nat len + 1 + 1 :: ushort) = len + 3"
    using assms(3) by (simp_all add: unat_word_ariths unat_of_nat take_bit_nat_eq_self)
  define body where "body = adr # take len rest"
  have b: "take (len + 1) (adr # rest) = body" "length body = len + 1"
    using assms(3) buf(2) by (simp_all add: body_def)
  let ?c = "usMBCRC16 body"
  let ?buf = "(adr # rest)[len + 1 := crc_lo ?c, len + 2 := crc_hi ?c]"
  have "eMBRTUSend adr 1 (of_nat len) s = Some (do_port (vMBPortSerialEnable False True)
      (s\<lparr>ucRTUBuf := ?buf, pucSndBufferCur := 0, usSndBufferCount := 1 + of_nat len + 1 + 1, eSndState := STATE_TX_XMIT\<rparr>),
      MB_ENOERR)"
    using assms(1,3) buf u b by (simp add: eMBRTUSend_def set_byte_def get_bytes_def crc_lo_def crc_hi_def)
  moreover have "take (len + 3) ?buf = rtu_frame adr (take len rest)"
    using b buf(2) assms(3)
    by (simp add: rtu_frame_def body_def take_Suc_conv_app_nth numeral_3_eq_3 nth_list_update)
  ultimately show ?thesis
    using assms(1) u buf by (simp add: port_defs)
qed

section \<open>Properties\<close>


text \<open>
  C9: a response sent by one RTU station is received unchanged by another. Sending a PDU of
  1 to 252 bytes puts address, PDU and checksum on the wire and posts \<open>EV_FRAME_SENT\<close>; an
  idle station that gets these bytes followed by the 3.5 character pause posts
  \<open>EV_FRAME_RECEIVED\<close>, and \<open>eMBRTUReceive\<close> returns the address and the same PDU.
\<close>

theorem rtu_frame_roundtrip:
  assumes "eRcvState s = STATE_RX_IDLE" and "length (ucRTUBuf s) = 256" and "sent (rport s) = []"
    and "1 \<le> len" and "len \<le> 252"
    and "eRcvState r = STATE_RX_IDLE" and "eSndState r = STATE_TX_IDLE" and "length (ucRTUBuf r) = 256"
  shows "\<exists>s1 s2 r1. eMBRTUSend adr 1 (of_nat len) s = Some (s1, MB_ENOERR) \<and>
    performs (replicate (len + 4) TxEmpty) s1 = Some s2 \<and> eQueuedEvent (rport s2) = EV_FRAME_SENT \<and>
    performs (map Byte (sent (rport s2)) @ [T35]) r = Some r1 \<and> eQueuedEvent (rport r1) = EV_FRAME_RECEIVED \<and>
    eMBRTUReceive r1 = Some (MB_ENOERR, Some (adr, 1, of_nat len)) \<and>
    take len (drop 1 (ucRTUBuf r1)) = take len (drop 1 (ucRTUBuf s))"
proof -
  define pdu where "pdu = take len (drop 1 (ucRTUBuf s))"
  have len: "length pdu = len"
    using assms(2,5) by (simp add: pdu_def)
  obtain s1 where s1: "eMBRTUSend adr 1 (of_nat len) s = Some (s1, MB_ENOERR)" "eRcvState s1 = STATE_RX_IDLE"
      "eSndState s1 = STATE_TX_XMIT" "pucSndBufferCur s1 = 0" "unat (usSndBufferCount s1) = len + 3"
      "length (ucRTUBuf s1) = 256" "sent (rport s1) = []" "take (len + 3) (ucRTUBuf s1) = rtu_frame adr pdu"
    using send_ok [OF assms(1,2), of len adr] assms(3,5) by (auto simp: pdu_def)
  obtain s2 where s2: "performs (replicate (len + 4) TxEmpty) s1 = Some s2" "sent (rport s2) = rtu_frame adr pdu"
      "eQueuedEvent (rport s2) = EV_FRAME_SENT"
    using transmit_ok [OF s1(2,3,5)] s1(4,6-8) assms(5) by (auto simp: eval_nat_numeral simp del: perform.simps performs.simps)
  have fr: "rtu_frame adr pdu \<noteq> []" "length (rtu_frame adr pdu) \<le> 256"
    using len assms(5) by (simp_all add: rtu_frame_def)
  obtain r1 where r1: "performs (map Byte (rtu_frame adr pdu) @ [T35]) r = Some r1" "unat (usRcvBufferPos r1) = len + 3"
      "length (ucRTUBuf r1) = 256" "take (len + 3) (ucRTUBuf r1) = rtu_frame adr pdu"
      "eQueuedEvent (rport r1) = EV_FRAME_RECEIVED"
    using receive_frame [OF assms(6-8) fr] len by (auto simp: rtu_frame_length)
  have p: "usRcvBufferPos r1 = of_nat (len + 3)"
    using r1(2) by (metis of_nat_unat ucast_id)
  have "4 \<le> usRcvBufferPos r1" "usRcvBufferPos r1 < 256"
    using r1(2) assms(4,5) by (simp_all add: word_le_nat_alt word_less_nat_alt)
  moreover have "ucRTUBuf r1 ! 0 = adr" "take len (drop 1 (ucRTUBuf r1)) = pdu"
    using rtu_frame_parts [of pdu "ucRTUBuf r1" adr] r1(4) len by simp_all
  ultimately have "eMBRTUReceive r1 = Some (MB_ENOERR, Some (adr, 1, of_nat len))"
    using r1(2-4) p rtu_frame_crc by (simp add: eMBRTUReceive_def get_byte_def)
  then show ?thesis
    using s1(1) s2 r1 \<open>take len (drop 1 (ucRTUBuf r1)) = pdu\<close> unfolding pdu_def by metis
qed

text \<open>
  The receiver stores up to 256 bytes, but \<open>eMBRTUReceive\<close> asserts that fewer were
  stored: every frame of the maximal size of 256 bytes makes the assertion fail when the
  main loop collects it.
\<close>

theorem rtu_maximal_frame_asserts:
  assumes "eRcvState r = STATE_RX_IDLE" and "eSndState r = STATE_TX_IDLE" and "length (ucRTUBuf r) = 256"
    and "length bs = 256"
  shows "\<exists>r1. performs (map Byte bs @ [T35]) r = Some r1 \<and> eQueuedEvent (rport r1) = EV_FRAME_RECEIVED \<and>
    eMBRTUReceive r1 = None"
proof -
  have "bs \<noteq> []" "length bs \<le> 256"
    using assms(4) by auto
  from receive_frame [OF assms(1-3) this] obtain r1 where
      r1: "performs (map Byte bs @ [T35]) r = Some r1" "unat (usRcvBufferPos r1) = 256"
        "eQueuedEvent (rport r1) = EV_FRAME_RECEIVED"
    using assms(4) by auto
  then have "eMBRTUReceive r1 = None"
    by (simp add: eMBRTUReceive_def word_less_nat_alt)
  then show ?thesis
    using r1 by blast
qed

definition rtu_idle :: rtu where
  "rtu_idle = \<lparr>eSndState = STATE_TX_IDLE, eRcvState = STATE_RX_IDLE, ucRTUBuf = replicate 256 0, pucSndBufferCur = 0,
     usSndBufferCount = 0, usRcvBufferPos = 0,
     rport = \<lparr>xEventInQueue = False, eQueuedEvent = EV_READY, rx_on = True, tx_on = False, timer_on = False, sent = []\<rparr>\<rparr>"

lemma rtu_idle_simps:
  "eRcvState rtu_idle = STATE_RX_IDLE" "eSndState rtu_idle = STATE_TX_IDLE" "length (ucRTUBuf rtu_idle) = 256"
  "sent (rport rtu_idle) = []" "unat (usRcvBufferPos rtu_idle) \<le> 256"
  by (simp_all add: rtu_idle_def)


theorem rtu_frame_roundtrip_witness:
  "\<exists>s1 s2 r1. eMBRTUSend 17 1 5 rtu_idle = Some (s1, MB_ENOERR) \<and> performs (replicate 9 TxEmpty) s1 = Some s2 \<and>
    performs (map Byte (sent (rport s2)) @ [T35]) rtu_idle = Some r1 \<and>
    eMBRTUReceive r1 = Some (MB_ENOERR, Some (17, 1, 5))"
  using rtu_frame_roundtrip [OF rtu_idle_simps(1,3,4) _ _ rtu_idle_simps(1-3), of 5 17] by auto

theorem rtu_maximal_frame_asserts_witness:
  "\<exists>r1. performs (map Byte (replicate 256 1) @ [T35]) rtu_idle = Some r1 \<and> eMBRTUReceive r1 = None"
  using rtu_maximal_frame_asserts [OF rtu_idle_simps(1-3), of "replicate 256 1"] by auto

end
