(* ===== verification/MB_ASCII.thy ===== *)
theory MB_ASCII
  imports MB_Port
begin

text \<open>
  The ASCII transmission mode (\<^verbatim>\<open>modbus/ascii/mbascii.c\<close>): hexadecimal encoding, the
  longitudinal redundancy check and the two character driven state machines. The buffer
  is the one of the RTU mode, of 256 bytes.
\<close>

section \<open>Characters and the checksum\<close>

definition prvucMBCHAR2BIN :: "byte \<Rightarrow> byte" where
  "prvucMBCHAR2BIN ucCharacter =
     (if 48 \<le> ucCharacter \<and> ucCharacter \<le> 57 then ucCharacter - 48
      else if 65 \<le> ucCharacter \<and> ucCharacter \<le> 70 then ucCharacter - 65 + 10
      else 0xFF)"

definition prvucMBBIN2CHAR :: "byte \<Rightarrow> byte option" where
  "prvucMBBIN2CHAR ucByte =
     (if ucByte \<le> 9 then Some (48 + ucByte)
      else if 10 \<le> ucByte \<and> ucByte \<le> 15 then Some (ucByte - 10 + 65)
      else do { c_assert False; Some 48 })"

fun lrc_loop :: "byte list \<Rightarrow> byte \<Rightarrow> byte" where
  "lrc_loop [] ucLRC = ucLRC"
| "lrc_loop (b # bs) ucLRC = lrc_loop bs (ucLRC + b)"

definition prvucMBLRC :: "byte list \<Rightarrow> byte" where
  "prvucMBLRC pucFrame = - lrc_loop pucFrame 0"

lemma lrc_loop_sum: "lrc_loop bs x = x + sum_list bs"
  by (induction bs arbitrary: x) (simp_all add: add.assoc)

lemma lrc_sum: "prvucMBLRC bs = - sum_list bs"
  by (simp add: prvucMBLRC_def lrc_loop_sum)

lemma lrc_residue: "prvucMBLRC (bs @ [prvucMBLRC bs]) = 0"
  by (simp add: lrc_sum)

definition hexdigit :: "byte \<Rightarrow> byte" where
  "hexdigit n = (if n \<le> 9 then 48 + n else n - 10 + 65)"

definition hexchars :: "byte list \<Rightarrow> byte list" where
  "hexchars bs = concat (map (\<lambda>b. [hexdigit (drop_bit 4 b), hexdigit (b AND 0x0F)]) bs)"

lemma hexchars_simps [simp]:
  "hexchars [] = []" "hexchars (b # bs) = hexdigit (drop_bit 4 b) # hexdigit (b AND 0x0F) # hexchars bs"
  by (simp_all add: hexchars_def)

lemma hexchars_append [simp]: "hexchars (bs @ cs) = hexchars bs @ hexchars cs"
  by (simp add: hexchars_def)

lemma nibble_cases: "n \<le> (15 :: byte) \<Longrightarrow> n \<in> set (map of_nat [0..<16])"
  by (auto simp: word_le_nat_alt image_iff intro!: bexI [of _ "unat n"])

lemma nibbles_all:
  "\<forall>n \<in> set (map of_nat [0..<16]). prvucMBBIN2CHAR n = Some (hexdigit n) \<and> prvucMBCHAR2BIN (hexdigit n) = n \<and>
    hexdigit n \<noteq> 58 \<and> hexdigit n \<noteq> (13 :: byte)"
  by (simp add: upt_rec prvucMBBIN2CHAR_def prvucMBCHAR2BIN_def hexdigit_def)

lemma nibble_digit:
  assumes "n \<le> (15 :: byte)"
  shows "prvucMBBIN2CHAR n = Some (hexdigit n)" "prvucMBCHAR2BIN (hexdigit n) = n"
    "hexdigit n \<noteq> 58" "hexdigit n \<noteq> 13"
  using nibbles_all nibble_cases [OF assms] by blast+

lemma nibble_high: "drop_bit 4 b \<le> (15 :: byte)"
  using unsigned_less [of b, where ?'a = nat]
  unfolding word_le_nat_alt unat_drop_bit_eq by (simp add: drop_bit_eq_div)

lemma nibble_low: "b AND 0x0F \<le> (15 :: byte)"
  by (simp add: word_and_le1)

lemma mask_4: "(0x0F :: byte) = mask 4"
  by (simp add: mask_eq_exp_minus_1)

lemma nibbles_join: "push_bit 4 (drop_bit 4 b) OR (b AND 0x0F) = b" for b :: byte
  by (rule bit_word_eqI) (auto simp: mask_4 bit_simps)

lemmas nibble_chars [simp] = nibble_digit [OF nibble_high] nibble_digit [OF nibble_low]

section \<open>State and operations\<close>

datatype eMBRcvState = STATE_RX_IDLE | STATE_RX_RCV | STATE_RX_WAIT_EOF

datatype eMBSndState = STATE_TX_IDLE | STATE_TX_START | STATE_TX_DATA | STATE_TX_END | STATE_TX_NOTIFY

datatype eMBBytePos = BYTE_HIGH_NIBBLE | BYTE_LOW_NIBBLE

record ascii =
  eSndState :: eMBSndState
  eRcvState :: eMBRcvState
  ucASCIIBuf :: "byte list"
  usRcvBufferPos :: ushort
  eBytePos :: eMBBytePos
  pucSndBufferCur :: nat
  usSndBufferCount :: ushort
  ucMBLFCharacter :: byte
  aport :: port

abbreviation do_aport :: "(port \<Rightarrow> port) \<Rightarrow> ascii \<Rightarrow> ascii" where
  "do_aport f s \<equiv> s\<lparr>aport := f (aport s)\<rparr>"

definition eMBASCIIInit ::
    "(byte \<Rightarrow> 64 word \<Rightarrow> byte \<Rightarrow> eMBParity \<Rightarrow> bool) \<Rightarrow> (ushort \<Rightarrow> bool) \<Rightarrow> byte \<Rightarrow> 64 word \<Rightarrow> eMBParity \<Rightarrow>
     ascii \<Rightarrow> ascii \<times> eMBErrorCode" where
  "eMBASCIIInit serial_init timers_init ucPort ulBaudRate eParity s =
     (s\<lparr>ucMBLFCharacter := 10\<rparr>,
      if \<not> serial_init ucPort ulBaudRate 7 eParity then MB_EPORTERR
      else if \<not> timers_init (1 * 20000) then MB_EPORTERR
      else MB_ENOERR)"

definition eMBASCIIStart :: "ascii \<Rightarrow> ascii" where
  "eMBASCIIStart s =
     do_aport (fst \<circ> xMBPortEventPost EV_READY)
       ((do_aport (vMBPortSerialEnable True False) s)\<lparr>eRcvState := STATE_RX_IDLE\<rparr>)"

definition eMBASCIIStop :: "ascii \<Rightarrow> ascii" where
  "eMBASCIIStop s = do_aport vMBPortTimersDisable (do_aport (vMBPortSerialEnable False False) s)"

definition eMBASCIIReceive :: "ascii \<Rightarrow> (eMBErrorCode \<times> (byte \<times> nat \<times> ushort) option) option" where
  "eMBASCIIReceive s = do {
     c_assert (usRcvBufferPos s < 256);
     (if usRcvBufferPos s \<ge> 3 \<and> prvucMBLRC (take (unat (usRcvBufferPos s)) (ucASCIIBuf s)) = 0 then do {
        adr \<leftarrow> get_byte (ucASCIIBuf s) 0;
        Some (MB_ENOERR, Some (adr, 1, usRcvBufferPos s - 1 - 1)) }
      else Some (MB_EIO, None)) }"

definition eMBASCIISend :: "byte \<Rightarrow> nat \<Rightarrow> ushort \<Rightarrow> ascii \<Rightarrow> (ascii \<times> eMBErrorCode) option" where
  "eMBASCIISend ucSlaveAddress pucFrame usLength s =
     (if eRcvState s = STATE_RX_IDLE then do {
        c_assert (1 \<le> pucFrame);
        cur \<leftarrow> Some (pucFrame - 1);
        buf \<leftarrow> set_byte (ucASCIIBuf s) cur ucSlaveAddress;
        cnt \<leftarrow> Some (1 + usLength);
        bs \<leftarrow> get_bytes buf cur (unat cnt);
        usLRC \<leftarrow> Some (prvucMBLRC bs);
        buf \<leftarrow> set_byte buf (unat cnt) usLRC;
        Some (do_aport (vMBPortSerialEnable False True)
          (s\<lparr>ucASCIIBuf := buf, pucSndBufferCur := cur, usSndBufferCount := cnt + 1, eSndState := STATE_TX_START\<rparr>),
          MB_ENOERR) }
      else Some (s, MB_EIO))"

definition ascii_rcv :: "byte \<Rightarrow> ascii \<Rightarrow> (ascii \<times> bool) option" where
  "ascii_rcv ucByte s =
     (let s = do_aport vMBPortTimersEnable s in
      if ucByte = 58 then Some (s\<lparr>eBytePos := BYTE_HIGH_NIBBLE, usRcvBufferPos := 0\<rparr>, False)
      else if ucByte = 13 then Some (s\<lparr>eRcvState := STATE_RX_WAIT_EOF\<rparr>, False)
      else let ucResult = prvucMBCHAR2BIN ucByte in
        case eBytePos s of
          BYTE_HIGH_NIBBLE \<Rightarrow>
            if usRcvBufferPos s < 256 then do {
              buf \<leftarrow> set_byte (ucASCIIBuf s) (unat (usRcvBufferPos s)) (push_bit 4 ucResult);
              Some (s\<lparr>ucASCIIBuf := buf, eBytePos := BYTE_LOW_NIBBLE\<rparr>, False) }
            else Some (do_aport vMBPortTimersDisable (s\<lparr>eRcvState := STATE_RX_IDLE\<rparr>), False)
        | BYTE_LOW_NIBBLE \<Rightarrow> do {
            b \<leftarrow> get_byte (ucASCIIBuf s) (unat (usRcvBufferPos s));
            buf \<leftarrow> set_byte (ucASCIIBuf s) (unat (usRcvBufferPos s)) (b OR ucResult);
            Some (s\<lparr>ucASCIIBuf := buf, usRcvBufferPos := usRcvBufferPos s + 1, eBytePos := BYTE_HIGH_NIBBLE\<rparr>, False) })"

definition xMBASCIIReceiveFSM :: "byte \<Rightarrow> ascii \<Rightarrow> (ascii \<times> bool) option" where
  "xMBASCIIReceiveFSM ucByte s = do {
     c_assert (eSndState s = STATE_TX_IDLE);
     (case eRcvState s of
        STATE_RX_RCV \<Rightarrow> ascii_rcv ucByte s
      | STATE_RX_WAIT_EOF \<Rightarrow>
          if ucByte = ucMBLFCharacter s then
            (let (p, xNeedPoll) = xMBPortEventPost EV_FRAME_RECEIVED (vMBPortTimersDisable (aport s)) in
             Some (s\<lparr>eRcvState := STATE_RX_IDLE, aport := p\<rparr>, xNeedPoll))
          else if ucByte = 58 then
            Some (do_aport vMBPortTimersEnable
              (s\<lparr>eBytePos := BYTE_HIGH_NIBBLE, usRcvBufferPos := 0, eRcvState := STATE_RX_RCV\<rparr>), False)
          else Some (s\<lparr>eRcvState := STATE_RX_IDLE\<rparr>, False)
      | STATE_RX_IDLE \<Rightarrow>
          if ucByte = 58 then
            Some (do_aport vMBPortTimersEnable
              (s\<lparr>usRcvBufferPos := 0, eBytePos := BYTE_HIGH_NIBBLE, eRcvState := STATE_RX_RCV\<rparr>), False)
          else Some (s, False)) }"

definition xMBASCIITransmitFSM :: "ascii \<Rightarrow> (ascii \<times> bool) option" where
  "xMBASCIITransmitFSM s = do {
     c_assert (eRcvState s = STATE_RX_IDLE);
     (case eSndState s of
        STATE_TX_START \<Rightarrow>
          Some (do_aport (xMBPortSerialPutByte 58) (s\<lparr>eSndState := STATE_TX_DATA, eBytePos := BYTE_HIGH_NIBBLE\<rparr>), False)
      | STATE_TX_DATA \<Rightarrow>
          if usSndBufferCount s > 0 then
            (case eBytePos s of
               BYTE_HIGH_NIBBLE \<Rightarrow> do {
                 b \<leftarrow> get_byte (ucASCIIBuf s) (pucSndBufferCur s);
                 ucByte \<leftarrow> prvucMBBIN2CHAR (drop_bit 4 b);
                 Some (do_aport (xMBPortSerialPutByte ucByte) (s\<lparr>eBytePos := BYTE_LOW_NIBBLE\<rparr>), False) }
             | BYTE_LOW_NIBBLE \<Rightarrow> do {
                 b \<leftarrow> get_byte (ucASCIIBuf s) (pucSndBufferCur s);
                 ucByte \<leftarrow> prvucMBBIN2CHAR (b AND 0x0F);
                 Some (do_aport (xMBPortSerialPutByte ucByte)
                   (s\<lparr>pucSndBufferCur := pucSndBufferCur s + 1, eBytePos := BYTE_HIGH_NIBBLE,
                      usSndBufferCount := usSndBufferCount s - 1\<rparr>), False) })
          else Some (do_aport (xMBPortSerialPutByte 13) (s\<lparr>eSndState := STATE_TX_END\<rparr>), False)
      | STATE_TX_END \<Rightarrow>
          Some (do_aport (xMBPortSerialPutByte (ucMBLFCharacter s)) (s\<lparr>eSndState := STATE_TX_NOTIFY\<rparr>), False)
      | STATE_TX_NOTIFY \<Rightarrow>
          (let (p, xNeedPoll) = xMBPortEventPost EV_FRAME_SENT (aport s) in
           Some (do_aport (vMBPortSerialEnable True False) (s\<lparr>eSndState := STATE_TX_IDLE, aport := p\<rparr>), xNeedPoll))
      | STATE_TX_IDLE \<Rightarrow> Some (do_aport (vMBPortSerialEnable True False) s, False)) }"

definition xMBASCIITimerT1SExpired :: "ascii \<Rightarrow> (ascii \<times> bool) option" where
  "xMBASCIITimerT1SExpired s = do {
     s \<leftarrow> (case eRcvState s of
            STATE_RX_RCV \<Rightarrow> Some (s\<lparr>eRcvState := STATE_RX_IDLE\<rparr>)
          | STATE_RX_WAIT_EOF \<Rightarrow> Some (s\<lparr>eRcvState := STATE_RX_IDLE\<rparr>)
          | STATE_RX_IDLE \<Rightarrow> do { c_assert (eRcvState s = STATE_RX_RCV \<or> eRcvState s = STATE_RX_WAIT_EOF); Some s });
     Some (do_aport vMBPortTimersDisable s, False) }"

section \<open>The state machine\<close>

datatype ascii_event = Recv byte | TxEmpty | T1S | Send byte ushort

fun aenabled :: "ascii_event \<Rightarrow> ascii \<Rightarrow> bool" where
  "aenabled (Recv b) s = rx_on (aport s)"
| "aenabled TxEmpty s = tx_on (aport s)"
| "aenabled T1S s = timer_on (aport s)"
| "aenabled (Send adr len) s = (eSndState s = STATE_TX_IDLE \<and> unat len \<le> 253)"

fun aperform :: "ascii_event \<Rightarrow> ascii \<Rightarrow> ascii option" where
  "aperform (Recv b) s = map_option fst (xMBASCIIReceiveFSM b s)"
| "aperform TxEmpty s = map_option fst (xMBASCIITransmitFSM s)"
| "aperform T1S s = map_option fst (xMBASCIITimerT1SExpired s)"
| "aperform (Send adr len) s = map_option fst (eMBASCIISend adr 1 len s)"

inductive ascii_run :: "ascii \<Rightarrow> ascii_event list \<Rightarrow> ascii \<Rightarrow> bool" where
  ascii_start: "ascii_run s [] s"
| ascii_step: "ascii_run s es s' \<Longrightarrow> aenabled e s' \<Longrightarrow> aperform e s' = Some s'' \<Longrightarrow> ascii_run s (es @ [e]) s''"

definition ascii_inv :: "ascii \<Rightarrow> bool" where
  "ascii_inv s \<longleftrightarrow>
     length (ucASCIIBuf s) = 256 \<and> unat (usRcvBufferPos s) \<le> 256 \<and>
     (eRcvState s = STATE_RX_RCV \<and> eBytePos s = BYTE_LOW_NIBBLE \<longrightarrow> unat (usRcvBufferPos s) < 256) \<and>
     (rx_on (aport s) \<longleftrightarrow> eSndState s = STATE_TX_IDLE) \<and> (tx_on (aport s) \<longleftrightarrow> eSndState s \<noteq> STATE_TX_IDLE) \<and>
     (eSndState s \<noteq> STATE_TX_IDLE \<longrightarrow> eRcvState s = STATE_RX_IDLE \<and>
        pucSndBufferCur s + unat (usSndBufferCount s) \<le> 256) \<and>
     (eRcvState s \<noteq> STATE_RX_IDLE \<longrightarrow> timer_on (aport s))"

lemma ascii_inv_start:
  "length (ucASCIIBuf s) = 256 \<Longrightarrow> unat (usRcvBufferPos s) \<le> 256 \<Longrightarrow> eSndState s = STATE_TX_IDLE \<Longrightarrow>
   ascii_inv (eMBASCIIStart s)"
  by (simp add: ascii_inv_def eMBASCIIStart_def port_defs)

lemma ascii_inv_step:
  assumes "ascii_inv s" and "aenabled e s" and "e = T1S \<longrightarrow> eRcvState s \<noteq> STATE_RX_IDLE"
  shows "\<exists>s'. aperform e s = Some s' \<and> ascii_inv s'"
proof (cases e)
  case (Recv b)
  then show ?thesis
    using assms by (auto simp: ascii_inv_def xMBASCIIReceiveFSM_def ascii_rcv_def set_byte_def get_byte_def port_defs
      word_less_nat_alt unat_word_ariths Let_def split: eMBRcvState.splits eMBBytePos.splits)
next
  case TxEmpty
  then show ?thesis
    using assms unat_gt_0 [of "usSndBufferCount s"]
    by (auto simp: ascii_inv_def xMBASCIITransmitFSM_def get_byte_def port_defs unat_minus_one word_less_nat_alt Let_def
      split: eMBSndState.splits eMBBytePos.splits)
next
  case T1S
  then show ?thesis
    using assms by (auto simp: ascii_inv_def xMBASCIITimerT1SExpired_def port_defs split: eMBRcvState.splits)
next
  case (Send adr len)
  then show ?thesis
    using assms by (auto simp: ascii_inv_def eMBASCIISend_def set_byte_def get_bytes_def port_defs unat_word_ariths)
qed

lemma ascii_run_inv: "ascii_run s es s' \<Longrightarrow> ascii_inv s \<Longrightarrow> ascii_inv s'"
proof (induction rule: ascii_run.induct)
  case (ascii_step s es s' e s'')
  have "e = T1S \<longrightarrow> eRcvState s' \<noteq> STATE_RX_IDLE"
    using ascii_step.hyps(3) by (auto simp: xMBASCIITimerT1SExpired_def)
  then show ?case
    using ascii_inv_step [of s' e] ascii_step by auto
qed

section \<open>A frame on the wire\<close>

fun aperforms :: "ascii_event list \<Rightarrow> ascii \<Rightarrow> ascii option" where
  "aperforms [] s = Some s"
| "aperforms (e # es) s = aperform e s \<bind> aperforms es"

lemma aperforms_append: "aperforms (es @ es') s = aperforms es s \<bind> aperforms es'"
proof (induction es arbitrary: s)
  case (Cons e es)
  then show ?case
    by (cases "aperform e s") auto
qed simp

lemma ascii_transmit_data:
  assumes "eRcvState s = STATE_RX_IDLE" and "eSndState s = STATE_TX_DATA" and "eBytePos s = BYTE_HIGH_NIBBLE"
    and "unat (usSndBufferCount s) = n" and "pucSndBufferCur s + n \<le> length (ucASCIIBuf s)"
  shows "\<exists>s'. aperforms (replicate (2 * n) TxEmpty) s = Some s' \<and>
    sent (aport s') = sent (aport s) @ hexchars (take n (drop (pucSndBufferCur s) (ucASCIIBuf s))) \<and>
    eRcvState s' = STATE_RX_IDLE \<and> eSndState s' = STATE_TX_DATA \<and> usSndBufferCount s' = 0 \<and>
    ucMBLFCharacter s' = ucMBLFCharacter s"
  using assms
proof (induction n arbitrary: s)
  case 0
  then show ?case
    by (simp add: unat_eq_zero)
next
  case (Suc n)
  let ?b = "ucASCIIBuf s ! pucSndBufferCur s"
  let ?s1 = "do_aport (xMBPortSerialPutByte (hexdigit (drop_bit 4 ?b))) (s\<lparr>eBytePos := BYTE_LOW_NIBBLE\<rparr>)"
  let ?s2 = "do_aport (xMBPortSerialPutByte (hexdigit (?b AND 0x0F)))
    (?s1\<lparr>pucSndBufferCur := pucSndBufferCur s + 1, eBytePos := BYTE_HIGH_NIBBLE,
         usSndBufferCount := usSndBufferCount s - 1\<rparr>)"
  have nz: "usSndBufferCount s > 0" "usSndBufferCount s \<noteq> 0"
    using Suc.prems(4) by (auto simp: word_less_nat_alt)
  have "aperform TxEmpty s = Some ?s1"
    using Suc.prems nz by (simp add: xMBASCIITransmitFSM_def get_byte_def)
  moreover have "aperform TxEmpty ?s1 = Some ?s2"
    using Suc.prems nz by (simp add: xMBASCIITransmitFSM_def get_byte_def)
  moreover have "take (Suc n) (drop (pucSndBufferCur s) (ucASCIIBuf s)) =
      ?b # take n (drop (pucSndBufferCur s + 1) (ucASCIIBuf s))"
    using Suc.prems(5) by (simp add: Cons_nth_drop_Suc [symmetric])
  ultimately show ?case
    using Suc.IH [of ?s2] Suc.prems nz by (simp add: unat_minus_one port_defs del: aperform.simps)
qed

lemma ascii_transmit_frame:
  assumes "eRcvState s = STATE_RX_IDLE" and "eSndState s = STATE_TX_START"
    and "unat (usSndBufferCount s) = n" and "pucSndBufferCur s + n \<le> length (ucASCIIBuf s)"
  shows "\<exists>s'. aperforms (TxEmpty # replicate (2 * n) TxEmpty @ [TxEmpty, TxEmpty, TxEmpty]) s = Some s' \<and>
    sent (aport s') = sent (aport s) @ [58] @ hexchars (take n (drop (pucSndBufferCur s) (ucASCIIBuf s))) @
      [13, ucMBLFCharacter s] \<and>
    eSndState s' = STATE_TX_IDLE \<and> eQueuedEvent (aport s') = EV_FRAME_SENT"
proof -
  let ?s = "do_aport (xMBPortSerialPutByte 58) (s\<lparr>eSndState := STATE_TX_DATA, eBytePos := BYTE_HIGH_NIBBLE\<rparr>)"
  have "aperform TxEmpty s = Some ?s"
    using assms by (simp add: xMBASCIITransmitFSM_def)
  moreover obtain s' where s': "aperforms (replicate (2 * n) TxEmpty) ?s = Some s'"
      "sent (aport s') = sent (aport s) @ [58] @ hexchars (take n (drop (pucSndBufferCur s) (ucASCIIBuf s)))"
      "eRcvState s' = STATE_RX_IDLE" "eSndState s' = STATE_TX_DATA" "usSndBufferCount s' = 0"
      "ucMBLFCharacter s' = ucMBLFCharacter s"
    using ascii_transmit_data [of ?s n] assms by (auto simp: port_defs)
  moreover have "aperforms [TxEmpty, TxEmpty, TxEmpty] s' =
      Some (do_aport (vMBPortSerialEnable True False \<circ> fst \<circ> xMBPortEventPost EV_FRAME_SENT \<circ>
        xMBPortSerialPutByte (ucMBLFCharacter s) \<circ> xMBPortSerialPutByte 13) (s'\<lparr>eSndState := STATE_TX_IDLE\<rparr>))"
    using s'(3-6) by (simp add: xMBASCIITransmitFSM_def port_defs)
  ultimately show ?thesis
    by (simp add: aperforms_append port_defs del: aperform.simps)
qed

lemma ascii_receive_data:
  assumes "eRcvState s = STATE_RX_RCV" and "eSndState s = STATE_TX_IDLE" and "eBytePos s = BYTE_HIGH_NIBBLE"
    and "length (ucASCIIBuf s) = 256" and "unat (usRcvBufferPos s) = p" and "p + length bs \<le> 256"
  shows "\<exists>s'. aperforms (map Recv (hexchars bs)) s = Some s' \<and> eRcvState s' = STATE_RX_RCV \<and>
    eSndState s' = STATE_TX_IDLE \<and> unat (usRcvBufferPos s') = p + length bs \<and> ucMBLFCharacter s' = ucMBLFCharacter s \<and>
    ucASCIIBuf s' = take p (ucASCIIBuf s) @ bs @ drop (p + length bs) (ucASCIIBuf s)"
  using assms
proof (induction bs arbitrary: s p)
  case (Cons b bs)
  let ?s1 = "do_aport vMBPortTimersEnable
    (s\<lparr>ucASCIIBuf := (ucASCIIBuf s)[p := push_bit 4 (drop_bit 4 b)], eBytePos := BYTE_LOW_NIBBLE\<rparr>)"
  let ?s2 = "do_aport vMBPortTimersEnable (?s1\<lparr>ucASCIIBuf := (ucASCIIBuf s)[p := b],
    usRcvBufferPos := usRcvBufferPos s + 1, eBytePos := BYTE_HIGH_NIBBLE\<rparr>)"
  have "usRcvBufferPos s < 256"
    using Cons.prems by (simp add: word_less_nat_alt)
  then have "aperform (Recv (hexdigit (drop_bit 4 b))) s = Some ?s1"
    using Cons.prems by (simp add: xMBASCIIReceiveFSM_def ascii_rcv_def set_byte_def Let_def)
  moreover have "aperform (Recv (hexdigit (b AND 0x0F))) ?s1 = Some ?s2"
    using Cons.prems by (simp add: xMBASCIIReceiveFSM_def ascii_rcv_def set_byte_def get_byte_def Let_def nibbles_join)
  moreover have "unat (usRcvBufferPos s + 1) = p + 1"
    using Cons.prems by (simp add: unat_word_ariths)
  ultimately show ?case
    using Cons.IH [of ?s2 "p + 1"] Cons.prems
    by (simp add: take_Suc_conv_app_nth del: aperform.simps)
qed simp

definition ascii_wire :: "byte \<Rightarrow> byte list \<Rightarrow> byte list" where
  "ascii_wire lf bs = [58] @ hexchars bs @ [13, lf]"

lemma ascii_receive_frame:
  assumes "eRcvState s = STATE_RX_IDLE" and "eSndState s = STATE_TX_IDLE" and "length (ucASCIIBuf s) = 256"
    and "length bs \<le> 256"
  shows "\<exists>s'. aperforms (map Recv (ascii_wire (ucMBLFCharacter s) bs)) s = Some s' \<and> eRcvState s' = STATE_RX_IDLE \<and>
    unat (usRcvBufferPos s') = length bs \<and> length (ucASCIIBuf s') = 256 \<and> take (length bs) (ucASCIIBuf s') = bs \<and>
    eQueuedEvent (aport s') = EV_FRAME_RECEIVED"
proof -
  let ?s = "do_aport vMBPortTimersEnable
    (s\<lparr>usRcvBufferPos := 0, eBytePos := BYTE_HIGH_NIBBLE, eRcvState := STATE_RX_RCV\<rparr>)"
  have "aperform (Recv 58) s = Some ?s"
    using assms by (simp add: xMBASCIIReceiveFSM_def)
  moreover obtain s' where s': "aperforms (map Recv (hexchars bs)) ?s = Some s'" "eRcvState s' = STATE_RX_RCV"
      "eSndState s' = STATE_TX_IDLE" "unat (usRcvBufferPos s') = length bs"
      "ucMBLFCharacter s' = ucMBLFCharacter s" "ucASCIIBuf s' = bs @ drop (length bs) (ucASCIIBuf s)"
    using ascii_receive_data [of ?s 0 bs] assms by auto
  moreover have "aperforms [Recv 13, Recv (ucMBLFCharacter s)] s' =
      Some (do_aport (fst \<circ> xMBPortEventPost EV_FRAME_RECEIVED \<circ> vMBPortTimersDisable \<circ> vMBPortTimersEnable)
        (s'\<lparr>eRcvState := STATE_RX_IDLE\<rparr>))"
    using s'(2,3,5) by (simp add: xMBASCIIReceiveFSM_def ascii_rcv_def port_defs Let_def)
  ultimately show ?thesis
    using assms by (simp add: ascii_wire_def aperforms_append port_defs del: aperform.simps)
qed

lemma ascii_send_ok:
  assumes "eRcvState s = STATE_RX_IDLE" and "length (ucASCIIBuf s) = 256" and "len \<le> 254"
  shows "\<exists>s'. eMBASCIISend adr 1 (of_nat len) s = Some (s', MB_ENOERR) \<and> eRcvState s' = STATE_RX_IDLE \<and>
    eSndState s' = STATE_TX_START \<and> pucSndBufferCur s' = 0 \<and> unat (usSndBufferCount s') = len + 2 \<and>
    length (ucASCIIBuf s') = 256 \<and> aport s' = vMBPortSerialEnable False True (aport s) \<and>
    ucMBLFCharacter s' = ucMBLFCharacter s \<and>
    take (len + 2) (ucASCIIBuf s') = (adr # take len (drop 1 (ucASCIIBuf s))) @
      [prvucMBLRC (adr # take len (drop 1 (ucASCIIBuf s)))]"
proof -
  obtain x rest where buf: "ucASCIIBuf s = x # rest" "length rest = 255"
    using assms(2) by (cases "ucASCIIBuf s") auto
  have u: "unat (1 + of_nat len :: ushort) = len + 1" "unat (1 + of_nat len + 1 :: ushort) = len + 2"
    using assms(3) by (simp_all add: unat_word_ariths unat_of_nat take_bit_nat_eq_self)
  define body where "body = adr # take len rest"
  have b: "take (len + 1) (adr # rest) = body" "length body = len + 1"
    using assms(3) buf(2) by (simp_all add: body_def)
  let ?buf = "(adr # rest)[len + 1 := prvucMBLRC body]"
  have "eMBASCIISend adr 1 (of_nat len) s = Some (do_aport (vMBPortSerialEnable False True)
      (s\<lparr>ucASCIIBuf := ?buf, pucSndBufferCur := 0, usSndBufferCount := 1 + of_nat len + 1, eSndState := STATE_TX_START\<rparr>),
      MB_ENOERR)"
    using assms(1,3) buf u b by (simp add: eMBASCIISend_def set_byte_def get_bytes_def)
  moreover have "take (len + 2) ?buf = body @ [prvucMBLRC body]"
    using b buf(2) assms(3) by (simp add: body_def take_Suc_conv_app_nth)
  ultimately show ?thesis
    using assms(1) u buf by (simp add: body_def)
qed

section \<open>Properties\<close>

text \<open>
  C10: a response sent by one ASCII station is received unchanged by another. The sender
  transmits a colon, the hexadecimal digits of address, PDU and LRC, and CR LF, then
  posts \<open>EV_FRAME_SENT\<close>; an idle receiver with the same line feed character posts
  \<open>EV_FRAME_RECEIVED\<close>, and \<open>eMBASCIIReceive\<close> returns the address and the same PDU.
\<close>

theorem ascii_frame_roundtrip:
  assumes "eRcvState s = STATE_RX_IDLE" and "length (ucASCIIBuf s) = 256" and "sent (aport s) = []"
    and "1 \<le> len" and "len \<le> 253"
    and "eRcvState r = STATE_RX_IDLE" and "eSndState r = STATE_TX_IDLE" and "length (ucASCIIBuf r) = 256"
    and "ucMBLFCharacter r = ucMBLFCharacter s"
  shows "\<exists>s1 s2 r1. eMBASCIISend adr 1 (of_nat len) s = Some (s1, MB_ENOERR) \<and>
    aperforms (replicate (2 * len + 8) TxEmpty) s1 = Some s2 \<and> eQueuedEvent (aport s2) = EV_FRAME_SENT \<and>
    aperforms (map Recv (sent (aport s2))) r = Some r1 \<and> eQueuedEvent (aport r1) = EV_FRAME_RECEIVED \<and>
    eMBASCIIReceive r1 = Some (MB_ENOERR, Some (adr, 1, of_nat len)) \<and>
    take len (drop 1 (ucASCIIBuf r1)) = take len (drop 1 (ucASCIIBuf s))"
proof -
  define body where "body = adr # take len (drop 1 (ucASCIIBuf s))"
  define frame where "frame = body @ [prvucMBLRC body]"
  have len: "length frame = len + 2"
    using assms(2,5) by (simp add: frame_def body_def)
  obtain s1 where s1: "eMBASCIISend adr 1 (of_nat len) s = Some (s1, MB_ENOERR)" "eRcvState s1 = STATE_RX_IDLE"
      "eSndState s1 = STATE_TX_START" "pucSndBufferCur s1 = 0" "unat (usSndBufferCount s1) = len + 2"
      "length (ucASCIIBuf s1) = 256" "sent (aport s1) = []" "ucMBLFCharacter s1 = ucMBLFCharacter s"
      "take (len + 2) (ucASCIIBuf s1) = frame"
    using ascii_send_ok [OF assms(1,2), of len adr] assms(3,5) by (auto simp: frame_def body_def port_defs)
  have "TxEmpty # replicate (2 * (len + 2)) TxEmpty @ [TxEmpty, TxEmpty, TxEmpty] = replicate (2 * len + 8) TxEmpty"
    by (simp add: eval_nat_numeral replicate_app_Cons_same)
  then obtain s2 where s2: "aperforms (replicate (2 * len + 8) TxEmpty) s1 = Some s2"
      "sent (aport s2) = ascii_wire (ucMBLFCharacter r) frame" "eQueuedEvent (aport s2) = EV_FRAME_SENT"
    using ascii_transmit_frame [OF s1(2,3,5)] s1(4,6-9) assms(5,9) by (auto simp: ascii_wire_def)
  obtain r1 where r1: "aperforms (map Recv (ascii_wire (ucMBLFCharacter r) frame)) r = Some r1"
      "unat (usRcvBufferPos r1) = len + 2" "length (ucASCIIBuf r1) = 256" "take (len + 2) (ucASCIIBuf r1) = frame"
      "eQueuedEvent (aport r1) = EV_FRAME_RECEIVED"
    using ascii_receive_frame [OF assms(6-8), of frame] len assms(5) by auto
  have p: "usRcvBufferPos r1 = of_nat (len + 2)"
    using r1(2) by (metis of_nat_unat ucast_id)
  have "3 \<le> usRcvBufferPos r1" "usRcvBufferPos r1 < 256"
    using r1(2) assms(4,5) by (simp_all add: word_le_nat_alt word_less_nat_alt)
  moreover have "ucASCIIBuf r1 ! 0 = adr"
    using arg_cong [OF r1(4), of "\<lambda>xs. xs ! 0"] by (simp add: frame_def body_def)
  moreover have "prvucMBLRC frame = 0"
    by (simp add: frame_def lrc_residue)
  ultimately have "eMBASCIIReceive r1 = Some (MB_ENOERR, Some (adr, 1, of_nat len))"
    using r1(2-4) p by (simp add: eMBASCIIReceive_def get_byte_def)
  moreover have "take len (drop 1 (ucASCIIBuf r1)) = take len (drop 1 (ucASCIIBuf s))"
    using arg_cong [OF r1(4), of "\<lambda>xs. take len (drop 1 xs)"] assms(2,5)
    by (simp add: frame_def body_def drop_take min_def)
  ultimately show ?thesis
    using s1(1) s2 r1 by metis
qed


text \<open>
  A timeout can find the receiver idle. When the character after CR is neither the line
  feed nor a colon the frame is dropped and the receiver goes idle, but the character
  timer keeps running, and its expiry fails the \<^verbatim>\<open>assert\<close> of \<open>xMBASCIITimerT1SExpired\<close>.
\<close>

theorem ascii_dropped_frame_then_timeout_asserts:
  assumes "eRcvState s = STATE_RX_IDLE" and "eSndState s = STATE_TX_IDLE" and "c \<noteq> ucMBLFCharacter s" and "c \<noteq> 58"
  shows "\<exists>s'. aperforms [Recv 58, Recv 13, Recv c] s = Some s' \<and> aenabled T1S s' \<and> aperform T1S s' = None"
  using assms
  by (simp add: xMBASCIIReceiveFSM_def ascii_rcv_def xMBASCIITimerT1SExpired_def port_defs)

definition ascii_idle :: ascii where
  "ascii_idle = \<lparr>eSndState = STATE_TX_IDLE, eRcvState = STATE_RX_IDLE, ucASCIIBuf = replicate 256 0, usRcvBufferPos = 0,
     eBytePos = BYTE_HIGH_NIBBLE, pucSndBufferCur = 0, usSndBufferCount = 0, ucMBLFCharacter = 10,
     aport = \<lparr>xEventInQueue = False, eQueuedEvent = EV_READY, rx_on = True, tx_on = False, timer_on = False, sent = []\<rparr>\<rparr>"

lemma ascii_idle_simps:
  "eRcvState ascii_idle = STATE_RX_IDLE" "eSndState ascii_idle = STATE_TX_IDLE" "length (ucASCIIBuf ascii_idle) = 256"
  "sent (aport ascii_idle) = []" "unat (usRcvBufferPos ascii_idle) \<le> 256" "ucMBLFCharacter ascii_idle = 10"
  by (simp_all add: ascii_idle_def)

theorem ascii_frame_roundtrip_witness:
  "\<exists>s1 s2 r1. eMBASCIISend 17 1 5 ascii_idle = Some (s1, MB_ENOERR) \<and>
    aperforms (replicate 18 TxEmpty) s1 = Some s2 \<and> aperforms (map Recv (sent (aport s2))) ascii_idle = Some r1 \<and>
    eMBASCIIReceive r1 = Some (MB_ENOERR, Some (17, 1, 5))"
  using ascii_frame_roundtrip [OF ascii_idle_simps(1,3,4) _ _ ascii_idle_simps(1-3) refl, of 5 17] by auto


theorem ascii_dropped_frame_then_timeout_asserts_witness:
  "\<exists>s'. aperforms [Recv 58, Recv 13, Recv 0] ascii_idle = Some s' \<and> aenabled T1S s' \<and> aperform T1S s' = None"
  using ascii_dropped_frame_then_timeout_asserts [OF ascii_idle_simps(1,2), of 0] by (simp add: ascii_idle_simps)

end
