(* ===== verification/MB_TCP.thy ===== *)
theory MB_TCP
  imports MB_Port
begin

text \<open>
  The TCP mode: the framing of \<^verbatim>\<open>modbus/tcp/mbtcp.c\<close> on the socket port of
  \<^verbatim>\<open>demo/LINUXTCP/port/porttcp.c\<close>. The network is part of the state: the clients that will
  connect with the bytes each of them sends, how many bytes a \<^verbatim>\<open>recv\<close> returns at most, and what
  the calls of \<^verbatim>\<open>send\<close> answer. A wait that never ends is \<open>None\<close>.
\<close>

section \<open>State\<close>

text \<open>
  \<open>pending\<close> lists the byte streams of the clients that will connect, \<open>None\<close> where \<^verbatim>\<open>accept\<close>
  fails. \<open>rstream\<close> is what the connected client still sends before it closes; an entry \<open>k\<close>
  of \<open>rsizes\<close> lets the next \<^verbatim>\<open>recv\<close> return at most \<open>k + 1\<close> bytes. \<open>ssizes\<close> holds the results
  of the next calls of \<^verbatim>\<open>send\<close>; when it is exhausted a call accepts everything. The field
  \<open>sent\<close> of the port collects the bytes that were accepted.
\<close>

record tcp = port +
  aucTCPBuf :: "byte list"
  usTCPBufPos :: ushort
  usTCPFrameBytesLeft :: ushort
  xClientSocket :: bool
  xListenSocket :: bool
  listening :: "ushort option"
  pending :: "byte list option list"
  rstream :: "byte list"
  rsizes :: "nat list"
  ssizes :: "int list"

definition recv_net :: "nat \<Rightarrow> tcp \<Rightarrow> byte list \<times> tcp" where
  "recv_net n s =
     (let m = (case rsizes s of [] \<Rightarrow> n | k # _ \<Rightarrow> min n (Suc k)) in
      (take m (rstream s), s\<lparr>rstream := drop m (rstream s), rsizes := tl (rsizes s)\<rparr>))"

section \<open>The socket port\<close>

text \<open>\<open>os\<close> tells whether \<^verbatim>\<open>socket\<close>, \<^verbatim>\<open>bind\<close> and \<^verbatim>\<open>listen\<close> succeed.\<close>

definition xMBTCPPortInit :: "(ushort \<Rightarrow> bool \<times> bool \<times> bool) \<Rightarrow> ushort \<Rightarrow> tcp \<Rightarrow> tcp \<times> bool" where
  "xMBTCPPortInit os usTCPPort s =
     (let usPort = (if usTCPPort = 0 then 502 else usTCPPort);
          (socket_ok, bind_ok, listen_ok) = os usPort in
      if \<not> socket_ok then (s\<lparr>xListenSocket := False\<rparr>, False)
      else if \<not> bind_ok then (s\<lparr>xListenSocket := True\<rparr>, False)
      else if \<not> listen_ok then (s\<lparr>xListenSocket := True\<rparr>, False)
      else (s\<lparr>xListenSocket := True, listening := Some usPort\<rparr>, True))"

definition prvvMBPortReleaseClient :: "tcp \<Rightarrow> tcp option" where
  "prvvMBPortReleaseClient s = do {
     (bs, s) \<leftarrow> Some (recv_net 263 s);
     buf \<leftarrow> put_bytes (aucTCPBuf s) 0 bs;
     Some (s\<lparr>aucTCPBuf := buf, xClientSocket := False\<rparr>) }"

definition vMBTCPPortDisable :: "tcp \<Rightarrow> tcp option" where
  "vMBTCPPortDisable s = (if xClientSocket s then prvvMBPortReleaseClient s else Some s)"

definition vMBTCPPortClose :: "tcp \<Rightarrow> tcp option" where
  "vMBTCPPortClose s = do {
     s \<leftarrow> (if xClientSocket s then prvvMBPortReleaseClient s else Some s);
     (if xListenSocket s then Some (s\<lparr>listening := None\<rparr>) else Some s) }"

definition prvbMBPortAcceptClient :: "tcp \<Rightarrow> tcp \<times> bool" where
  "prvbMBPortAcceptClient s =
     (if xClientSocket s then (s, False)
      else case pending s of
        Some bs # ps \<Rightarrow>
          (s\<lparr>xClientSocket := True, usTCPBufPos := 0, usTCPFrameBytesLeft := 7, rstream := bs, pending := ps\<rparr>, True)
      | ps \<Rightarrow> (s\<lparr>pending := tl ps\<rparr>, False))"

lemma recv_net_shorter:
  "recv_net n s = (bs, s') \<Longrightarrow> bs \<noteq> [] \<Longrightarrow> length (rstream s') < length (rstream s)"
  by (auto simp: recv_net_def Let_def split: list.splits)

text \<open>
  The ways a call of \<open>xMBPortTCPPool\<close> does not return: \<^verbatim>\<open>recv\<close> stores bytes behind the end of
  \<open>aucTCPBuf\<close>, an \<^verbatim>\<open>assert\<close> fails, a descriptor that is not open goes to \<^verbatim>\<open>FD_SET\<close>, or the wait has no end.
\<close>

datatype pool_fault = Overrun | Assert_failed | Bad_descriptor | Endless_wait

text \<open>The loop of \<open>xMBPortTCPPool\<close> from one successful \<^verbatim>\<open>select\<close> to the next.\<close>

function pool_loop :: "tcp \<Rightarrow> pool_fault + tcp" where
  "pool_loop s0 =
     (let (bs, s) = recv_net (unat (usTCPFrameBytesLeft s0)) s0 in
      if bs = [] then Inr (s\<lparr>xClientSocket := False\<rparr>)
      else case put_bytes (aucTCPBuf s) (unat (usTCPBufPos s)) bs of
        None \<Rightarrow> Inl Overrun
      | Some buf \<Rightarrow>
          (let s = s\<lparr>aucTCPBuf := buf, usTCPBufPos := usTCPBufPos s + of_nat (length bs),
                     usTCPFrameBytesLeft := usTCPFrameBytesLeft s - of_nat (length bs)\<rparr> in
           if usTCPBufPos s \<ge> 7 then
             (case get_ushort (aucTCPBuf s) 4 of
                None \<Rightarrow> Inl Overrun
              | Some usLength \<Rightarrow>
                  if unat (usTCPBufPos s) < 6 + unat usLength then
                    pool_loop (s\<lparr>usTCPFrameBytesLeft := usLength + 6 - usTCPBufPos s\<rparr>)
                  else if unat (usTCPBufPos s) = 6 + unat usLength then
                    Inr (fst (xMBPortEventPost EV_FRAME_RECEIVED s))
                  else if unat (usTCPBufPos s) \<le> 6 + unat usLength then pool_loop s else Inl Assert_failed)
           else pool_loop s))"
  by pat_completeness auto

termination
  by (relation "measure (\<lambda>s. length (rstream s))") (auto intro: recv_net_shorter [OF sym])

declare pool_loop.simps [simp del]

definition pool_call :: "tcp \<Rightarrow> pool_fault + tcp" where
  "pool_call s =
     (if xClientSocket s then pool_loop s
      else if listening s = None \<or> pending s = [] then Inl Endless_wait
      else let s = fst (prvbMBPortAcceptClient s) in if xClientSocket s then pool_loop s else Inl Bad_descriptor)"

text \<open>For the callers only whether it returns counts.\<close>

definition xMBPortTCPPool :: "tcp \<Rightarrow> tcp option" where
  "xMBPortTCPPool s = (case pool_call s of Inl _ \<Rightarrow> None | Inr s \<Rightarrow> Some s)"

definition xMBTCPPortGetRequest :: "tcp \<Rightarrow> tcp \<times> nat \<times> ushort" where
  "xMBTCPPortGetRequest s = (s\<lparr>usTCPBufPos := 0, usTCPFrameBytesLeft := 7\<rparr>, 0, usTCPBufPos s)"

fun send_loop :: "byte list \<Rightarrow> int \<Rightarrow> int list \<Rightarrow> tcp \<Rightarrow> (tcp \<times> byte list) option" where
  "send_loop bs iTimeOut [] s =
     (if bs = [] then do { s \<leftarrow> prvvMBPortReleaseClient (s\<lparr>ssizes := []\<rparr>); Some (s, bs) }
      else Some (s\<lparr>sent := sent s @ bs, ssizes := []\<rparr>, []))"
| "send_loop bs iTimeOut (res # rs) s =
     (if res < 0 then
        (if iTimeOut > 0 then send_loop bs (iTimeOut - 100) rs s else Some (s\<lparr>ssizes := rs\<rparr>, bs))
      else let n = min (nat res) (length bs) in
        if n = 0 then do { s \<leftarrow> prvvMBPortReleaseClient (s\<lparr>ssizes := rs\<rparr>); Some (s, bs) }
        else let s = s\<lparr>sent := sent s @ take n bs\<rparr> in
          if n < length bs then send_loop (drop n bs) iTimeOut rs s else Some (s\<lparr>ssizes := rs\<rparr>, []))"

definition xMBTCPPortSendResponse :: "nat \<Rightarrow> ushort \<Rightarrow> tcp \<Rightarrow> (tcp \<times> bool) option" where
  "xMBTCPPortSendResponse pucMBTCPFrame usTCPLength s = do {
     bs \<leftarrow> get_bytes (aucTCPBuf s) pucMBTCPFrame (unat usTCPLength);
     (s, unsent) \<leftarrow> send_loop bs 1000 (ssizes s) s;
     Some (s, unsent = []) }"

section \<open>Framing\<close>

definition eMBTCPDoInit :: "(ushort \<Rightarrow> bool \<times> bool \<times> bool) \<Rightarrow> ushort \<Rightarrow> tcp \<Rightarrow> tcp \<times> eMBErrorCode" where
  "eMBTCPDoInit os ucTCPPort s =
     (let (s, ok) = xMBTCPPortInit os ucTCPPort s in (s, if ok then MB_ENOERR else MB_EPORTERR))"

definition eMBTCPStart :: "tcp \<Rightarrow> tcp" where
  "eMBTCPStart s = s"

definition eMBTCPStop :: "tcp \<Rightarrow> tcp option" where
  "eMBTCPStop s = vMBTCPPortDisable s"

definition eMBTCPReceive :: "tcp \<Rightarrow> (tcp \<times> eMBErrorCode \<times> (byte \<times> nat \<times> ushort) option) option" where
  "eMBTCPReceive s = do {
     (s, pucMBTCPFrame, usLength) \<leftarrow> Some (xMBTCPPortGetRequest s);
     usPID \<leftarrow> get_ushort (aucTCPBuf s) (pucMBTCPFrame + 2);
     (if usPID = 0 then Some (s, MB_ENOERR, Some (255, pucMBTCPFrame + 7, usLength - 7))
      else Some (s, MB_EIO, None)) }"

definition eMBTCPSend :: "byte \<Rightarrow> nat \<Rightarrow> ushort \<Rightarrow> tcp \<Rightarrow> (tcp \<times> eMBErrorCode) option" where
  "eMBTCPSend unused pucFrame usLength s = do {
     c_assert (7 \<le> pucFrame);
     pucMBTCPFrame \<leftarrow> Some (pucFrame - 7);
     usTCPLength \<leftarrow> Some (usLength + 7);
     buf \<leftarrow> set_byte (aucTCPBuf s) (pucMBTCPFrame + 4) (ucast (drop_bit 8 (usLength + 1)));
     buf \<leftarrow> set_byte buf (pucMBTCPFrame + 5) (ucast ((usLength + 1) AND 0xFF));
     (s, ok) \<leftarrow> xMBTCPPortSendResponse pucMBTCPFrame usTCPLength (s\<lparr>aucTCPBuf := buf\<rparr>);
     Some (s, if ok then MB_ENOERR else MB_EIO) }"

section \<open>Assembling a frame\<close>

text \<open>A complete frame: header, unit identifier and PDU, with the length field its size demands.\<close>

definition mbap_frame :: "byte list \<Rightarrow> bool" where
  "mbap_frame frame \<longleftrightarrow> 7 \<le> length frame \<and> length frame \<le> 263 \<and>
     (\<exists>l. get_ushort frame 4 = Some l \<and> unat l + 6 = length frame)"

text \<open>\<open>p\<close> bytes of the frame are in the buffer, the others are still to come.\<close>

definition pool_inv :: "byte list \<Rightarrow> byte list \<Rightarrow> nat \<Rightarrow> tcp \<Rightarrow> bool" where
  "pool_inv frame rest p s \<longleftrightarrow>
     p < length frame \<and> unat (usTCPBufPos s) = p \<and> length (aucTCPBuf s) = 263 \<and> take p (aucTCPBuf s) = take p frame \<and>
     rstream s = drop p frame @ rest \<and>
     unat (usTCPFrameBytesLeft s) = (if p < 7 then 7 - p else length frame - p)"

definition pool_done :: "byte list \<Rightarrow> byte list \<Rightarrow> tcp \<Rightarrow> tcp \<Rightarrow> bool" where
  "pool_done frame rest s s' \<longleftrightarrow>
     usTCPBufPos s' = of_nat (length frame) \<and> length (aucTCPBuf s') = 263 \<and> take (length frame) (aucTCPBuf s') = frame \<and>
     rstream s' = rest \<and> xEventInQueue s' \<and> eQueuedEvent s' = EV_FRAME_RECEIVED \<and>
     xClientSocket s' = xClientSocket s \<and> sent s' = sent s \<and> ssizes s' = ssizes s"

lemma recv_net_some:
  assumes "0 < n" and "rstream s \<noteq> []"
  shows "\<exists>m ks. 0 < m \<and> m \<le> n \<and> m \<le> length (rstream s) \<and>
    recv_net n s = (take m (rstream s), s\<lparr>rstream := drop m (rstream s), rsizes := ks\<rparr>)"
proof -
  let ?k = "case rsizes s of [] \<Rightarrow> n | k # _ \<Rightarrow> min n (Suc k)"
  have "0 < ?k" "?k \<le> n"
    using assms(1) by (auto split: list.splits)
  then show ?thesis
    using assms(2) by (intro exI [of _ "min ?k (length (rstream s))"] exI [of _ "tl (rsizes s)"])
      (auto simp: recv_net_def Let_def min_def)
qed

lemma get_ushort_take: "off + 2 \<le> n \<Longrightarrow> get_ushort (take n buf) off = Some l \<Longrightarrow> get_ushort buf off = Some l"
  by (auto simp: get_ushort_def get_byte_def split: if_splits)

text \<open>One turn of the loop stores \<open>m\<close> bytes.\<close>

definition pool_stored :: "nat \<Rightarrow> nat list \<Rightarrow> tcp \<Rightarrow> tcp" where
  "pool_stored m ks s =
     (let p = unat (usTCPBufPos s) in
      s\<lparr>rstream := drop m (rstream s), rsizes := ks,
        aucTCPBuf := take p (aucTCPBuf s) @ take m (rstream s) @ drop (p + m) (aucTCPBuf s),
        usTCPBufPos := usTCPBufPos s + of_nat m, usTCPFrameBytesLeft := usTCPFrameBytesLeft s - of_nat m\<rparr>)"

lemma pool_loop_stored:
  assumes "recv_net (unat (usTCPFrameBytesLeft s)) s = (take m (rstream s), s\<lparr>rstream := drop m (rstream s), rsizes := ks\<rparr>)"
    and "0 < m" and "m \<le> length (rstream s)" and "unat (usTCPBufPos s) + m \<le> length (aucTCPBuf s)"
  shows "pool_loop s =
    (let s = pool_stored m ks s in
     if usTCPBufPos s \<ge> 7 then
       (case get_ushort (aucTCPBuf s) 4 of
          None \<Rightarrow> Inl Overrun
        | Some l \<Rightarrow>
            if unat (usTCPBufPos s) < 6 + unat l then pool_loop (s\<lparr>usTCPFrameBytesLeft := l + 6 - usTCPBufPos s\<rparr>)
            else if unat (usTCPBufPos s) = 6 + unat l then Inr (fst (xMBPortEventPost EV_FRAME_RECEIVED s))
            else if unat (usTCPBufPos s) \<le> 6 + unat l then pool_loop s else Inl Assert_failed)
     else pool_loop s)"
proof -
  have "take m (rstream s) \<noteq> []" "length (take m (rstream s)) = m"
    using assms(2,3) by auto
  then show ?thesis
    using assms(4) by (subst pool_loop.simps) (simp add: assms(1) put_bytes_def pool_stored_def Let_def)
qed

lemma pool_stored_bytes:
  assumes "unat (usTCPBufPos s) = p" and "length (aucTCPBuf s) = 263" and "take p (aucTCPBuf s) = take p bytes"
    and "rstream s = drop p bytes" and "p + m \<le> length bytes" and "p + m \<le> 263"
    and "m \<le> unat (usTCPFrameBytesLeft s)"
  shows "unat (usTCPBufPos (pool_stored m ks s)) = p + m"
    and "length (aucTCPBuf (pool_stored m ks s)) = 263"
    and "take (p + m) (aucTCPBuf (pool_stored m ks s)) = take (p + m) bytes"
    and "rstream (pool_stored m ks s) = drop (p + m) bytes"
    and "unat (usTCPFrameBytesLeft (pool_stored m ks s)) = unat (usTCPFrameBytesLeft s) - m"
proof -
  have "of_nat m \<le> usTCPFrameBytesLeft s" "unat (of_nat m :: ushort) = m"
    using assms(6,7) by (simp_all add: word_le_nat_alt unat_of_nat take_bit_nat_eq_self)
  then show "unat (usTCPFrameBytesLeft (pool_stored m ks s)) = unat (usTCPFrameBytesLeft s) - m"
    by (simp add: pool_stored_def Let_def unat_sub)
  have "take (p + m) (aucTCPBuf (pool_stored m ks s)) = take p bytes @ take m (drop p bytes)"
    using assms by (simp add: pool_stored_def)
  then show "take (p + m) (aucTCPBuf (pool_stored m ks s)) = take (p + m) bytes"
    by (simp add: take_add)
qed (use assms in \<open>simp_all add: pool_stored_def Let_def unat_word_ariths unat_of_nat take_bit_nat_eq_self
  add.commute [of m]\<close>)

lemma pool_stored_inv:
  assumes "pool_inv frame rest p s" and "mbap_frame frame" and "m \<le> unat (usTCPFrameBytesLeft s)"
  shows "p + m \<le> length frame" and "unat (usTCPBufPos (pool_stored m ks s)) = p + m"
    and "length (aucTCPBuf (pool_stored m ks s)) = 263"
    and "take (p + m) (aucTCPBuf (pool_stored m ks s)) = take (p + m) frame"
    and "rstream (pool_stored m ks s) = drop (p + m) frame @ rest"
    and "p + m < 7 \<Longrightarrow> unat (usTCPFrameBytesLeft (pool_stored m ks s)) = 7 - (p + m)"
proof -
  show le: "p + m \<le> length frame"
    using assms by (auto simp: pool_inv_def mbap_frame_def split: if_splits)
  have inv: "unat (usTCPBufPos s) = p" "length (aucTCPBuf s) = 263" "take p (aucTCPBuf s) = take p (frame @ rest)"
      "rstream s = drop p (frame @ rest)" "p + m \<le> length (frame @ rest)" "p + m \<le> 263"
    using assms le by (simp_all add: pool_inv_def mbap_frame_def)
  note st = pool_stored_bytes [OF inv assms(3), where ks = ks]
  show "unat (usTCPBufPos (pool_stored m ks s)) = p + m" "length (aucTCPBuf (pool_stored m ks s)) = 263"
      "take (p + m) (aucTCPBuf (pool_stored m ks s)) = take (p + m) frame"
      "rstream (pool_stored m ks s) = drop (p + m) frame @ rest"
    using st(1-4) le by simp_all
  show "p + m < 7 \<Longrightarrow> unat (usTCPFrameBytesLeft (pool_stored m ks s)) = 7 - (p + m)"
    using st(5) assms(1) by (simp add: pool_inv_def)
qed

lemma pool_stored_same:
  "xClientSocket (pool_stored m ks s) = xClientSocket s" "sent (pool_stored m ks s) = sent s"
  "ssizes (pool_stored m ks s) = ssizes s"
  by (simp_all add: pool_stored_def Let_def)

text \<open>One part of the frame arrives: the loop goes on with a later position, or it posts the complete frame.\<close>

lemma pool_loop_part:
  assumes fr: "mbap_frame frame" and inv: "pool_inv frame rest p s"
  shows "(\<exists>m s1. 0 < m \<and> p + m \<le> length frame \<and> pool_loop s = pool_loop s1 \<and> pool_inv frame rest (p + m) s1 \<and> (\<forall>s'. pool_done frame rest s1 s' \<longrightarrow> pool_done frame rest s s')) \<or>
    (\<exists>s'. pool_loop s = Inr s' \<and> pool_done frame rest s s')"
proof -
  have "0 < unat (usTCPFrameBytesLeft s)" "rstream s \<noteq> []" "unat (usTCPBufPos s) = p" "length (aucTCPBuf s) = 263"
    using inv by (auto simp: pool_inv_def)
  then obtain m ks where m: "0 < m" "m \<le> unat (usTCPFrameBytesLeft s)" "m \<le> length (rstream s)"
      and r: "recv_net (unat (usTCPFrameBytesLeft s)) s = (take m (rstream s), s\<lparr>rstream := drop m (rstream s), rsizes := ks\<rparr>)"
    using recv_net_some by blast
  define s1 where "s1 = pool_stored m ks s"
  note st = pool_stored_inv(1) [OF inv fr m(2)]
    pool_stored_inv(2-6) [OF inv fr m(2), where ks = ks, folded s1_def]
  note same = pool_stored_same [of m ks s, folded s1_def]
  have le: "length frame \<le> 263"
    using fr by (simp add: mbap_frame_def)
  have "unat (usTCPBufPos s) + m \<le> length (aucTCPBuf s)"
    using st(1) le \<open>unat (usTCPBufPos s) = p\<close> \<open>length (aucTCPBuf s) = 263\<close> by linarith
  note loop = pool_loop_stored [OF r m(1,3) this, folded s1_def, unfolded Let_def]
  have ge: "usTCPBufPos s1 \<ge> 7 \<longleftrightarrow> 7 \<le> p + m"
    using st(2) by (simp add: word_le_nat_alt)
  obtain l where l: "get_ushort frame 4 = Some l" "unat l + 6 = length frame"
    using fr by (auto simp: mbap_frame_def)
  have l1: "get_ushort (aucTCPBuf s1) 4 = Some l" if "7 \<le> p + m"
    using get_ushort_take [of 4 "p + m" "aucTCPBuf s1" l] st(4) l(1) that
    by (auto simp: get_ushort_def get_byte_def split: if_splits)
  consider (short) "p + m < 7" | (more) "7 \<le> p + m" "p + m < length frame" | (complete) "7 \<le> p + m" "p + m = length frame"
    using st(1) by linarith
  then show ?thesis
  proof cases
    case short
    then have "pool_inv frame rest (p + m) s1" "pool_loop s = pool_loop s1"
      using st fr loop ge by (simp_all add: pool_inv_def mbap_frame_def)
    then show ?thesis
      using m(1) st(1) same by (intro disjI1 exI [of _ m] exI [of _ s1]) (simp add: pool_done_def)
  next
    case more
    let ?s = "s1\<lparr>usTCPFrameBytesLeft := l + 6 - usTCPBufPos s1\<rparr>"
    have "usTCPBufPos s1 \<le> l + 6" "unat (l + 6) = length frame" "unat (usTCPBufPos s1) < 6 + unat l"
      using st(1,2) l(2) le more(2) by (simp_all add: word_le_nat_alt unat_word_ariths)
    then have "pool_inv frame rest (p + m) ?s" "pool_loop s = pool_loop ?s"
      using st(1-5) more loop ge l1 by (simp_all add: pool_inv_def unat_sub)
    then show ?thesis
      using m(1) st(1) same by (intro disjI1 exI [of _ m] exI [of _ ?s]) (simp add: pool_done_def)
  next
    case complete
    have "of_nat (unat (usTCPBufPos s1)) = usTCPBufPos s1"
      by simp
    then have "usTCPBufPos s1 = of_nat (length frame)"
      unfolding st(2) complete(2) by (rule sym)
    moreover have pos: "unat (usTCPBufPos s1) = 6 + unat l"
      using st(2) complete(2) l(2) by linarith
    moreover have "pool_loop s = Inr (fst (xMBPortEventPost EV_FRAME_RECEIVED s1))"
      using loop ge complete(1) l1 pos by simp
    ultimately show ?thesis
      using st complete same by (simp add: pool_done_def xMBPortEventPost_def)
  qed
qed

lemma pool_loop_assembles:
  assumes "mbap_frame frame" and "pool_inv frame rest p s"
  shows "\<exists>s'. pool_loop s = Inr s' \<and> pool_done frame rest s s'"
  using assms(2)
proof (induction "length frame - p" arbitrary: p s rule: less_induct)
  case less
  have "p < length frame"
    using less.prems by (simp add: pool_inv_def)
  then have dec: "length frame - (p + m) < length frame - p" if "0 < m" for m
    using that by linarith
  show ?case
    using pool_loop_part [OF assms(1) less.prems] less.hyps [OF dec] by metis
qed

text \<open>A length field that does not fit: the bytes run over the end of the buffer.\<close>

definition over_inv :: "byte list \<Rightarrow> ushort \<Rightarrow> nat \<Rightarrow> tcp \<Rightarrow> bool" where
  "over_inv bytes l p s \<longleftrightarrow>
     p \<le> 263 \<and> unat (usTCPBufPos s) = p \<and> length (aucTCPBuf s) = 263 \<and> take p (aucTCPBuf s) = take p bytes \<and>
     rstream s = drop p bytes \<and> unat (usTCPFrameBytesLeft s) = (if p < 7 then 7 - p else unat l + 6 - p)"

lemma bytes_left: "unat pos = p \<Longrightarrow> 7 \<le> p \<Longrightarrow> p < 6 + unat l \<Longrightarrow> unat (l + 6 - pos) = unat l + 6 - p" for l pos :: ushort
proof -
  assume p: "unat pos = p" "7 \<le> p" "p < 6 + unat l"
  have "of_nat (unat pos) = pos"
    by simp
  then have "l + 6 - pos = of_nat (unat l + 6 - p)"
    using p by (simp add: of_nat_diff)
  moreover have "unat l + 6 - p < 65536"
    using unsigned_less [of l, where ?'a = nat] p by simp
  ultimately show ?thesis
    by (simp add: unat_of_nat take_bit_nat_eq_self)
qed

lemma pool_loop_overflows:
  assumes "get_ushort bytes 4 = Some l" and "263 < unat l + 6" and "264 \<le> length bytes" and "over_inv bytes l p s"
  shows "pool_loop s = Inl Overrun"
  using assms(4)
proof (induction "264 - p" arbitrary: p s rule: less_induct)
  case less
  have inv: "p \<le> 263" "unat (usTCPBufPos s) = p" "length (aucTCPBuf s) = 263" "take p (aucTCPBuf s) = take p bytes"
      "rstream s = drop p bytes" "unat (usTCPFrameBytesLeft s) = (if p < 7 then 7 - p else unat l + 6 - p)"
    using less.prems by (simp_all add: over_inv_def)
  then have "0 < unat (usTCPFrameBytesLeft s)" "rstream s \<noteq> []"
    using assms(2,3) by auto
  then obtain m ks where m: "0 < m" "m \<le> unat (usTCPFrameBytesLeft s)" "m \<le> length (rstream s)"
      and r: "recv_net (unat (usTCPFrameBytesLeft s)) s = (take m (rstream s), s\<lparr>rstream := drop m (rstream s), rsizes := ks\<rparr>)"
    using recv_net_some by blast
  show ?case
  proof (cases "p + m \<le> 263")
    case False
    moreover have "take m (rstream s) \<noteq> []" "length (take m (rstream s)) = m"
      using m by auto
    ultimately show ?thesis
      using inv(2,3) by (subst pool_loop.simps) (simp add: r put_bytes_def)
  next
    case True
    define s1 where "s1 = pool_stored m ks s"
    have "p + m \<le> length bytes"
      using True assms(3) by linarith
    note s1 = pool_stored_bytes [OF inv(2-5) this True m(2), where ks = ks, folded s1_def]
    have fit: "unat (usTCPBufPos s) + m \<le> length (aucTCPBuf s)"
      using inv True by simp
    note loop = pool_loop_stored [OF r m(1,3) fit, folded s1_def, unfolded Let_def]
    have dec: "264 - (p + m) < 264 - p"
      using m(1) inv(1) by linarith
    show ?thesis
    proof (cases "p + m < 7")
      case short: True
      then have "over_inv bytes l (p + m) s1"
        using s1 inv(6) True by (simp add: over_inv_def)
      moreover have "pool_loop s = pool_loop s1"
        using loop s1(1) short by (simp add: word_le_nat_alt)
      ultimately show ?thesis
        using less.hyps [OF dec] by simp
    next
      case False
      let ?s = "s1\<lparr>usTCPFrameBytesLeft := l + 6 - usTCPBufPos s1\<rparr>"
      have l1: "get_ushort (aucTCPBuf s1) 4 = Some l"
        using get_ushort_take [of 4 "p + m" "aucTCPBuf s1" l] s1(3) assms(1) False
        by (auto simp: get_ushort_def get_byte_def split: if_splits)
      have "over_inv bytes l (p + m) ?s"
        using s1(1-4) bytes_left [OF s1(1)] False True assms(2) by (simp add: over_inv_def)
      moreover have "unat (usTCPBufPos s1) < 6 + unat l"
        using s1(1) True assms(2) by linarith
      then have "pool_loop s = pool_loop ?s"
        using loop s1(1) False l1 by (simp add: word_le_nat_alt)
      ultimately show ?thesis
        using less.hyps [OF dec] by simp
    qed
  qed
qed

section \<open>Sending a response\<close>

text \<open>The client stays and \<^verbatim>\<open>send\<close> fails at most ten times.\<close>

definition client_stays :: "int list \<Rightarrow> bool" where
  "client_stays rs \<longleftrightarrow> 0 \<notin> set rs \<and> length (filter (\<lambda>r. r < 0) rs) \<le> 10"

lemma send_loop_all:
  assumes "bs \<noteq> []" and "0 \<notin> set rs" and "100 * int (length (filter (\<lambda>r. r < 0) rs)) \<le> t"
  shows "\<exists>rs'. send_loop bs t rs s = Some (s\<lparr>sent := sent s @ bs, ssizes := rs'\<rparr>, [])"
  using assms
proof (induction rs arbitrary: bs t s)
  case (Cons r rs)
  have rs: "0 \<notin> set rs"
    using Cons.prems(2) by simp
  define n where "n = min (nat r) (length bs)"
  consider (failed) "r < 0" | (part) "0 \<le> r" "n < length bs" | (all) "0 \<le> r" "n = length bs"
    unfolding n_def by linarith
  then show ?case
  proof cases
    case failed
    then have t: "100 * int (length (filter (\<lambda>r. r < 0) rs)) \<le> t - 100" "0 < t"
      using Cons.prems(3) by simp_all
    then have "send_loop bs t (r # rs) s = send_loop bs (t - 100) rs s"
      using failed by simp
    then show ?thesis
      using Cons.IH [OF Cons.prems(1) rs t(1)] by metis
  next
    case part
    define s1 where "s1 = s\<lparr>sent := sent s @ take n bs\<rparr>"
    have "n \<noteq> 0"
      using part Cons.prems(1,2) by (simp add: n_def)
    then have "send_loop bs t (r # rs) s = send_loop (drop n bs) t rs s1"
      using part by (simp add: n_def [symmetric] s1_def)
    moreover have "drop n bs \<noteq> []" "100 * int (length (filter (\<lambda>r. r < 0) rs)) \<le> t"
      using part Cons.prems(3) by simp_all
    then obtain rs' where "send_loop (drop n bs) t rs s1 = Some (s1\<lparr>sent := sent s1 @ drop n bs, ssizes := rs'\<rparr>, [])"
      using Cons.IH [OF _ rs] by blast
    ultimately show ?thesis
      by (intro exI [of _ rs']) (simp add: s1_def)
  next
    case all
    then show ?thesis
      using Cons.prems(1) by (intro exI [of _ rs]) (simp add: n_def [symmetric])
  qed
next
  case Nil
  then show ?case
    by (intro exI [of _ "[]"]) simp
qed

text \<open>The frame that answers from the buffer: its header with the new length field, and the PDU.\<close>

definition mbap_answer :: "byte list \<Rightarrow> ushort \<Rightarrow> byte list" where
  "mbap_answer buf len = take 4 buf @ [ucast (drop_bit 8 (len + 1)), ucast ((len + 1) AND 0xFF)] @
     take (1 + unat len) (drop 6 buf)"

lemma eMBTCPSend_ok:
  assumes "length (aucTCPBuf s) = 263" and "unat len \<le> 256" and "client_stays (ssizes s)"
  shows "\<exists>s'. eMBTCPSend adr 7 len s = Some (s', MB_ENOERR) \<and>
    sent s' = sent s @ mbap_answer (aucTCPBuf s) len \<and> length (aucTCPBuf s') = 263 \<and>
    usTCPBufPos s' = usTCPBufPos s \<and> usTCPFrameBytesLeft s' = usTCPFrameBytesLeft s \<and>
    xClientSocket s' = xClientSocket s \<and> rstream s' = rstream s \<and> xEventInQueue s' = xEventInQueue s"
proof -
  define buf where "buf = (aucTCPBuf s)[4 := ucast (drop_bit 8 (len + 1)), 5 := ucast ((len + 1) AND 0xFF)]"
  have u: "unat (len + 7) = unat len + 7"
    using assms(2) by (simp add: unat_word_ariths)
  have "Suc (Suc (Suc (Suc (Suc (Suc 0))))) \<le> length (aucTCPBuf s)"
    using assms(1) by simp
  then obtain b0 b1 b2 b3 b4 b5 rest where b: "aucTCPBuf s = b0 # b1 # b2 # b3 # b4 # b5 # rest"
    by (auto simp: Suc_le_length_iff)
  have answer: "take (unat len + 7) buf = mbap_answer (aucTCPBuf s) len"
    by (simp add: buf_def b mbap_answer_def eval_nat_numeral)
  moreover have "mbap_answer (aucTCPBuf s) len \<noteq> []"
    by (simp add: mbap_answer_def)
  then obtain rs where "send_loop (mbap_answer (aucTCPBuf s) len) 1000 (ssizes s) (s\<lparr>aucTCPBuf := buf\<rparr>) =
      Some (s\<lparr>aucTCPBuf := buf, sent := sent s @ mbap_answer (aucTCPBuf s) len, ssizes := rs\<rparr>, [])"
    using send_loop_all [of "mbap_answer (aucTCPBuf s) len" "ssizes s" 1000 "s\<lparr>aucTCPBuf := buf\<rparr>"] assms(3)
    by (auto simp: client_stays_def)
  moreover have "length buf = 263"
    using assms(1) by (simp add: buf_def)
  ultimately show ?thesis
    using assms(1,2) u
    by (simp add: eMBTCPSend_def set_byte_def get_bytes_def xMBTCPPortSendResponse_def buf_def [symmetric])
qed

lemma eMBTCPReceive_eq:
  "get_ushort (aucTCPBuf s) 2 = Some v \<Longrightarrow>
   eMBTCPReceive s = Some (s\<lparr>usTCPBufPos := 0, usTCPFrameBytesLeft := 7\<rparr>,
     if v = 0 then (MB_ENOERR, Some (255, 7, usTCPBufPos s - 7)) else (MB_EIO, None))"
  by (simp add: eMBTCPReceive_def xMBTCPPortGetRequest_def numeral_2_eq_2)

section \<open>Properties\<close>

text \<open>
  However the network cuts the stream into pieces, the port reassembles a request: when
  the bytes of a complete frame arrive on the connection, \<open>xMBPortTCPPool\<close> returns with
  exactly this frame in its buffer and \<open>EV_FRAME_RECEIVED\<close> posted, without touching the
  bytes that follow; \<open>eMBTCPReceive\<close> then hands out the PDU, its length and the pseudo
  address 255 when the protocol identifier is 0, fails with \<open>MB_EIO\<close> otherwise, and is
  ready for the next frame.
\<close>

theorem tcp_frame_assembled:
  assumes "mbap_frame frame" and "xClientSocket s" and "usTCPBufPos s = 0" and "usTCPFrameBytesLeft s = 7"
    and "length (aucTCPBuf s) = 263" and "rstream s = frame @ rest"
  shows "\<exists>s' s''. xMBPortTCPPool s = Some s' \<and> xEventInQueue s' \<and> eQueuedEvent s' = EV_FRAME_RECEIVED \<and>
    eMBTCPReceive s' =
      (if get_ushort frame 2 = Some 0 then Some (s'', MB_ENOERR, Some (255, 7, of_nat (length frame) - 7))
       else Some (s'', MB_EIO, None)) \<and>
    take (length frame) (aucTCPBuf s'') = frame \<and> rstream s'' = rest \<and> usTCPBufPos s'' = 0 \<and> usTCPFrameBytesLeft s'' = 7"
proof -
  have "pool_inv frame rest 0 s"
    using assms by (auto simp: pool_inv_def mbap_frame_def)
  then obtain s' where s': "pool_loop s = Inr s'" "pool_done frame rest s s'"
    using pool_loop_assembles [OF assms(1)] by blast
  obtain v where v: "get_ushort frame 2 = Some v"
    using assms(1) by (auto simp: mbap_frame_def get_ushort_def get_byte_def)
  then have v': "get_ushort (aucTCPBuf s') 2 = Some v"
    using get_ushort_take [of 2 "length frame" "aucTCPBuf s'" v] s'(2) assms(1)
    by (simp add: pool_done_def mbap_frame_def)
  show ?thesis
    using s' assms(2) v
    by (intro exI [of _ s'] exI [of _ "s'\<lparr>usTCPBufPos := 0, usTCPFrameBytesLeft := 7\<rparr>"])
      (simp add: xMBPortTCPPool_def pool_call_def eMBTCPReceive_eq [OF v'] pool_done_def)
qed

text \<open>
  C12: the length field of the header is not checked against the size of the buffer. When it
  announces more than 257 bytes and the client sends 264 bytes or more, \<open>recv\<close> stores bytes behind
  the end of \<open>aucTCPBuf\<close>, however the stream is cut: undefined behaviour that any client
  can cause. Neither the failing \<^verbatim>\<open>assert\<close> nor a wait without end is meant: they are other results
  of the model.
\<close>

theorem tcp_length_field_overflows:
  assumes "get_ushort bytes 4 = Some l" and "257 < unat l" and "264 \<le> length bytes" and "xClientSocket s"
    and "usTCPBufPos s = 0" and "usTCPFrameBytesLeft s = 7" and "length (aucTCPBuf s) = 263" and "rstream s = bytes"
  shows "pool_call s = Inl Overrun"
proof -
  have "over_inv bytes l 0 s"
    using assms by (simp add: over_inv_def)
  then show ?thesis
    using pool_loop_overflows [OF assms(1) _ assms(3)] assms(2,4) by (simp add: pool_call_def)
qed

definition tcp_connected :: "byte list \<Rightarrow> nat list \<Rightarrow> tcp" where
  "tcp_connected bytes ks = \<lparr>xEventInQueue = False, eQueuedEvent = EV_READY, rx_on = False, tx_on = False, timer_on = False,
     sent = [], aucTCPBuf = replicate 263 0, usTCPBufPos = 0, usTCPFrameBytesLeft = 7, xClientSocket = True,
     xListenSocket = True, listening = Some 502, pending = [], rstream = bytes, rsizes = ks, ssizes = []\<rparr>"

lemma tcp_connected_simps:
  "xClientSocket (tcp_connected bytes ks)" "usTCPBufPos (tcp_connected bytes ks) = 0"
  "usTCPFrameBytesLeft (tcp_connected bytes ks) = 7" "length (aucTCPBuf (tcp_connected bytes ks)) = 263"
  "rstream (tcp_connected bytes ks) = bytes" "ssizes (tcp_connected bytes ks) = []" "sent (tcp_connected bytes ks) = []"
  "\<not> xEventInQueue (tcp_connected bytes ks)"
  by (simp_all add: tcp_connected_def)

theorem tcp_frame_assembled_witness:
  "\<exists>s' s''. xMBPortTCPPool (tcp_connected ([0, 1, 0, 0, 0, 2, 1, 17] @ [0, 2]) [2, 0, 9]) = Some s' \<and>
    eMBTCPReceive s' = Some (s'', MB_ENOERR, Some (255, 7, 1)) \<and> rstream s'' = [0, 2]"
proof -
  have frame: "mbap_frame [0, 1, 0, 0, 0, 2, 1, 17]" "get_ushort [0, 1, 0, 0, 0, 2, 1, 17] 2 = Some 0"
    by (simp_all add: mbap_frame_def get_ushort_def get_byte_def)
  show ?thesis
    using tcp_frame_assembled [OF frame(1) tcp_connected_simps(1-5), of "[0, 2]" "[2, 0, 9]"] frame(2) by auto
qed

theorem tcp_length_field_overflows_witness:
  "pool_call (tcp_connected ([0, 1, 0, 0, 255, 255, 1] @ replicate 300 0) [2, 0, 9]) = Inl Overrun"
  by (rule tcp_length_field_overflows [of _ "0xFFFF"])
    (simp_all add: tcp_connected_simps get_ushort_def get_byte_def)

end
