(* ===== verification/MB_Demo.thy ===== *)
theory MB_Demo
  imports MB_Func
begin

text \<open>
  The application of \<^verbatim>\<open>demo/LINUXTCP/demo.c\<close>: four input registers from address 1000 and 130
  holding registers from address 2000, its callbacks as the implementation of the
  application interface, and what a client of the stack reads and writes through them.
\<close>

record demo_regs =
  usRegInputBuf :: "ushort list"
  usRegHoldingBuf :: "ushort list"

section \<open>The callbacks\<close>

fun reg_read_loop :: "ushort list \<Rightarrow> nat \<Rightarrow> nat \<Rightarrow> byte list \<Rightarrow> nat \<Rightarrow> byte list option" where
  "reg_read_loop regs iRegIndex 0 buf p = Some buf"
| "reg_read_loop regs iRegIndex (Suc usNRegs) buf p =
     (if iRegIndex < length regs then do {
        buf \<leftarrow> set_byte buf p (ucast (drop_bit 8 (regs ! iRegIndex)));
        buf \<leftarrow> set_byte buf (p + 1) (ucast (regs ! iRegIndex AND 0xFF));
        reg_read_loop regs (iRegIndex + 1) usNRegs buf (p + 2) }
      else None)"

fun reg_write_loop :: "ushort list \<Rightarrow> nat \<Rightarrow> nat \<Rightarrow> byte list \<Rightarrow> nat \<Rightarrow> ushort list option" where
  "reg_write_loop regs iRegIndex 0 buf p = Some regs"
| "reg_write_loop regs iRegIndex (Suc usNRegs) buf p =
     (if iRegIndex < length regs then do {
        hi \<leftarrow> get_byte buf p;
        lo \<leftarrow> get_byte buf (p + 1);
        reg_write_loop (regs[iRegIndex := push_bit 8 (ucast hi) OR ucast lo]) (iRegIndex + 1) usNRegs buf (p + 2) }
      else None)"

definition eMBRegInputCB :: "demo_regs reg_cb" where
  "eMBRegInputCB d pucRegBuffer p usAddress usNRegs =
     (if usAddress \<ge> 1000 \<and> unat usAddress + unat usNRegs \<le> 1000 + 4 then do {
        iRegIndex \<leftarrow> Some (unat usAddress - 1000);
        buf \<leftarrow> reg_read_loop (usRegInputBuf d) iRegIndex (unat usNRegs) pucRegBuffer p;
        Some (d, buf, MB_ENOERR) }
      else Some (d, pucRegBuffer, MB_ENOREG))"

definition eMBRegHoldingCB :: "eMBRegisterMode \<Rightarrow> demo_regs reg_cb" where
  "eMBRegHoldingCB eMode d pucRegBuffer p usAddress usNRegs =
     (if usAddress \<ge> 2000 \<and> unat usAddress + unat usNRegs \<le> 2000 + 130 then do {
        iRegIndex \<leftarrow> Some (unat usAddress - 2000);
        (case eMode of
           MB_REG_READ \<Rightarrow> do {
             buf \<leftarrow> reg_read_loop (usRegHoldingBuf d) iRegIndex (unat usNRegs) pucRegBuffer p;
             Some (d, buf, MB_ENOERR) }
         | MB_REG_WRITE \<Rightarrow> do {
             regs \<leftarrow> reg_write_loop (usRegHoldingBuf d) iRegIndex (unat usNRegs) pucRegBuffer p;
             Some (d\<lparr>usRegHoldingBuf := regs\<rparr>, pucRegBuffer, MB_ENOERR) }) }
      else Some (d, pucRegBuffer, MB_ENOREG))"

definition eMBRegCoilsCB :: "eMBRegisterMode \<Rightarrow> demo_regs reg_cb" where
  "eMBRegCoilsCB eMode d pucRegBuffer p usAddress usNCoils = Some (d, pucRegBuffer, MB_ENOREG)"

definition eMBRegDiscreteCB :: "demo_regs reg_cb" where
  "eMBRegDiscreteCB d pucRegBuffer p usAddress usNDiscrete = Some (d, pucRegBuffer, MB_ENOREG)"

definition demo_cb :: "demo_regs mb_callbacks" where
  "demo_cb = \<lparr>cbInput = eMBRegInputCB, cbHolding = eMBRegHoldingCB, cbCoils = eMBRegCoilsCB,
     cbDiscrete = eMBRegDiscreteCB\<rparr>"

definition demo_ok :: "demo_regs \<Rightarrow> bool" where
  "demo_ok d \<longleftrightarrow> length (usRegInputBuf d) = 4 \<and> length (usRegHoldingBuf d) = 130"

section \<open>The loops\<close>

text \<open>The wire format of registers: high byte first.\<close>

definition reg_bytes :: "ushort \<Rightarrow> byte list" where
  "reg_bytes r = [crc_hi r, crc_lo r]"

lemma reg_read_loop_ok:
  assumes "i + n \<le> length regs" and "p + 2 * n \<le> length buf"
  shows "reg_read_loop regs i n buf p =
    Some (take p buf @ concat (map reg_bytes (take n (drop i regs))) @ drop (p + 2 * n) buf)"
  using assms
proof (induction n arbitrary: i buf p)
  case (Suc n)
  let ?r = "regs ! i"
  let ?buf = "buf[p := crc_hi ?r, p + 1 := crc_lo ?r]"
  have "reg_read_loop regs i (Suc n) buf p = reg_read_loop regs (i + 1) n ?buf (p + 2)"
    using Suc.prems by (simp add: c_simps crc_hi_def crc_lo_def)
  also have "\<dots> = Some (take (p + 2) ?buf @ concat (map reg_bytes (take n (drop (i + 1) regs))) @ drop (p + 2 + 2 * n) ?buf)"
    using Suc.prems by (intro Suc.IH) auto
  also have "take (p + 2) ?buf = take p buf @ reg_bytes ?r"
    using Suc.prems by (simp add: reg_bytes_def take_Suc_conv_app_nth)
  also have "drop (p + 2 + 2 * n) ?buf = drop (p + 2 * Suc n) buf"
    by simp
  also have "take (Suc n) (drop i regs) = ?r # take n (drop (i + 1) regs)"
    using Suc.prems by (simp add: Cons_nth_drop_Suc [symmetric])
  ultimately show ?case
    by simp
qed simp

lemma reg_write_loop_ok:
  assumes "i + length vs \<le> length regs" and "take (2 * length vs) (drop p buf) = concat (map reg_bytes vs)"
    and "p + 2 * length vs \<le> length buf"
  shows "reg_write_loop regs i (length vs) buf p = Some (take i regs @ vs @ drop (i + length vs) regs)"
  using assms
proof (induction vs arbitrary: i regs p)
  case (Cons v vs)
  have "take (2 * length (v # vs)) (drop p buf) = buf ! p # buf ! (p + 1) # take (2 * length vs) (drop (p + 2) buf)"
    using Cons.prems(3) by (simp add: take_Suc_conv_app_nth Cons_nth_drop_Suc [symmetric])
  then have b: "buf ! p = crc_hi v" "buf ! (p + 1) = crc_lo v"
      "take (2 * length vs) (drop (p + 2) buf) = concat (map reg_bytes vs)"
    using Cons.prems(2) by (simp_all add: reg_bytes_def [of v])
  have v: "push_bit 8 (ucast (crc_hi v)) OR ucast (crc_lo v) = v"
    using crc_join_split [of v] by (simp add: crc_join_def)
  have "reg_write_loop regs i (length (v # vs)) buf p =
      reg_write_loop (regs[i := v]) (i + 1) (length vs) buf (p + 2)"
    using Cons.prems b(1,2) v by (simp add: c_simps)
  also have "\<dots> = Some (take (i + 1) (regs[i := v]) @ vs @ drop (i + 1 + length vs) (regs[i := v]))"
    using Cons.prems b(3) by (intro Cons.IH) auto
  finally show ?case
    using Cons.prems(1) by (simp add: take_Suc_conv_app_nth)
qed simp

text \<open>Without a format assumption: the loop stays in range and keeps the number of registers.\<close>

lemma reg_write_loop_length:
  assumes "i + n \<le> length regs" and "p + 2 * n \<le> length buf"
  shows "\<exists>regs'. reg_write_loop regs i n buf p = Some regs' \<and> length regs' = length regs"
  using assms
proof (induction n arbitrary: i regs p)
  case (Suc n)
  then show ?case
    using Suc.IH [of "i + 1" "regs[i := push_bit 8 (ucast (buf ! p)) OR ucast (buf ! (p + 1))]" "p + 2"]
    by (simp add: c_simps)
qed simp

lemma word_range: "1000 \<le> adr \<longleftrightarrow> 1000 \<le> unat adr" "2000 \<le> adr \<longleftrightarrow> 2000 \<le> unat adr" for adr :: ushort
  by (simp_all add: word_le_nat_alt)

lemma reg_read_reads:
  assumes "demo_ok d" and "i + n \<le> length regs" and "p + 2 * n \<le> length buf"
  shows "cb_reads demo_ok buf p (2 * n)
    (reg_read_loop regs i n buf p \<bind> (\<lambda>buf. Some (d, buf, MB_ENOERR)))"
proof -
  have "length (concat (map reg_bytes (take n (drop i regs)))) = 2 * n"
    using assms(2) by (simp add: length_concat comp_def reg_bytes_def sum_list_triv)
  then show ?thesis
    using assms by (simp add: reg_read_loop_ok cb_reads_def)
qed

interpretation demo: mb_application demo_cb demo_ok
proof
  fix a :: demo_regs and off :: nat and n adr :: ushort and buf :: "byte list"
  assume a: "demo_ok a"
  have none: "cb_reads demo_ok buf off m (Some (a, buf, MB_ENOREG))" for m
    using a by (simp add: cb_reads_def)
  show "cb_reads demo_ok buf off ((unat n + 7) div 8) (cbCoils demo_cb MB_REG_READ a buf off adr n)"
    and "cb_reads demo_ok buf off ((unat n + 7) div 8) (cbDiscrete demo_cb a buf off adr n)"
    using none by (simp_all add: demo_cb_def eMBRegCoilsCB_def eMBRegDiscreteCB_def)
  show "cb_writes demo_ok buf (cbCoils demo_cb MB_REG_WRITE a buf off adr n)"
    using a by (simp add: demo_cb_def eMBRegCoilsCB_def cb_writes_def)
  assume room: "off + 2 * unat n \<le> length buf"
  show "cb_reads demo_ok buf off (2 * unat n) (cbInput demo_cb a buf off adr n)"
    using a room none reg_read_reads [OF a, of "unat adr - 1000" "unat n" "usRegInputBuf a" off buf]
    by (auto simp: demo_cb_def eMBRegInputCB_def demo_ok_def word_range)
  show "cb_reads demo_ok buf off (2 * unat n) (cbHolding demo_cb MB_REG_READ a buf off adr n)"
    using a room none reg_read_reads [OF a, of "unat adr - 2000" "unat n" "usRegHoldingBuf a" off buf]
    by (auto simp: demo_cb_def eMBRegHoldingCB_def demo_ok_def word_range)
  show "cb_writes demo_ok buf (cbHolding demo_cb MB_REG_WRITE a buf off adr n)"
  proof (cases "2000 \<le> unat adr \<and> unat adr + unat n \<le> 2130")
    case True
    then have "unat adr - 2000 + unat n \<le> length (usRegHoldingBuf a)"
      using a unfolding demo_ok_def by linarith
    from reg_write_loop_length [OF this room]
    obtain regs where "reg_write_loop (usRegHoldingBuf a) (unat adr - 2000) (unat n) buf off = Some regs"
        "length regs = 130"
      using a by (auto simp: demo_ok_def)
    then show ?thesis
      using a True by (simp add: demo_cb_def eMBRegHoldingCB_def demo_ok_def word_range cb_writes_def)
  next
    case False
    then show ?thesis
      using a by (auto simp: demo_cb_def eMBRegHoldingCB_def word_range cb_writes_def)
  qed
qed

section \<open>Requests\<close>

lemma get_ushort_reg: "get_ushort (as @ reg_bytes v @ bs) (length as) = Some v"
proof -
  have "get_ushort (as @ reg_bytes v @ bs) (length as) = Some (crc_join (crc_hi v) (crc_lo v))"
    by (simp add: get_ushort_def get_byte_def reg_bytes_def nth_append crc_join_def)
  then show ?thesis
    by (simp add: crc_join_split)
qed

definition write_request :: "ushort \<Rightarrow> ushort list \<Rightarrow> byte list \<Rightarrow> byte list" where
  "write_request adr vs rest =
     [16] @ reg_bytes adr @ reg_bytes (of_nat (length vs)) @ [of_nat (2 * length vs)] @ concat (map reg_bytes vs) @ rest"

definition read_request :: "ushort \<Rightarrow> ushort \<Rightarrow> byte list \<Rightarrow> byte list" where
  "read_request adr n rest = [3] @ reg_bytes adr @ reg_bytes n @ rest"

lemma length_reg_bytes: "length (concat (map reg_bytes vs)) = 2 * length vs"
  by (simp add: length_concat comp_def reg_bytes_def sum_list_triv)

lemma write_request_fields:
  "get_ushort (write_request adr vs rest) 1 = Some adr"
  "get_ushort (write_request adr vs rest) 3 = Some (of_nat (length vs))"
  "get_byte (write_request adr vs rest) 5 = Some (of_nat (2 * length vs))"
  "take (2 * length vs) (drop 6 (write_request adr vs rest)) = concat (map reg_bytes vs)"
  "length (write_request adr vs rest) = 6 + 2 * length vs + length rest"
proof -
  show "get_ushort (write_request adr vs rest) 1 = Some adr"
    using get_ushort_reg [of "[16]" adr] by (simp add: write_request_def)
  show "get_ushort (write_request adr vs rest) 3 = Some (of_nat (length vs))"
    using get_ushort_reg [of "[16] @ reg_bytes adr" "of_nat (length vs)"]
    by (simp add: write_request_def reg_bytes_def eval_nat_numeral)
  show "take (2 * length vs) (drop 6 (write_request adr vs rest)) = concat (map reg_bytes vs)"
    using length_reg_bytes [of vs] by (simp add: write_request_def reg_bytes_def)
qed (simp_all add: write_request_def reg_bytes_def [of adr] reg_bytes_def [of "of_nat _"] get_byte_def length_reg_bytes)

lemma holding_write_spec:
  assumes "demo_ok d" and "1999 \<le> adr" and "adr + length vs \<le> 2129"
    and "take (2 * length vs) (drop p buf) = concat (map reg_bytes vs)" and "p + 2 * length vs \<le> length buf"
  shows "eMBRegHoldingCB MB_REG_WRITE d buf p (of_nat adr + 1) (of_nat (length vs)) =
    Some (d\<lparr>usRegHoldingBuf := take (adr - 1999) (usRegHoldingBuf d) @ vs @
        drop (adr - 1999 + length vs) (usRegHoldingBuf d)\<rparr>, buf, MB_ENOERR)"
proof -
  have u: "unat (of_nat adr + 1 :: ushort) = adr + 1" "unat (of_nat (length vs) :: ushort) = length vs"
    using assms(2,3) by (simp_all add: unat_word_ariths unat_of_nat take_bit_nat_eq_self)
  then show ?thesis
    using assms reg_write_loop_ok [of "adr - 1999" vs "usRegHoldingBuf d" p buf]
    by (simp add: eMBRegHoldingCB_def word_range demo_ok_def)
qed

lemma holding_read_spec:
  assumes "demo_ok d" and "1999 \<le> adr" and "adr + n \<le> 2129" and "p + 2 * n \<le> length buf"
  shows "eMBRegHoldingCB MB_REG_READ d buf p (of_nat adr + 1) (of_nat n) =
    Some (d, take p buf @ concat (map reg_bytes (take n (drop (adr - 1999) (usRegHoldingBuf d)))) @ drop (p + 2 * n) buf,
      MB_ENOERR)"
proof -
  have u: "unat (of_nat adr + 1 :: ushort) = adr + 1" "unat (of_nat n :: ushort) = n"
    using assms(2,3) by (simp_all add: unat_word_ariths unat_of_nat take_bit_nat_eq_self)
  then show ?thesis
    using assms reg_read_loop_ok [of "adr - 1999" n "usRegHoldingBuf d" p buf]
    by (simp add: eMBRegHoldingCB_def word_range demo_ok_def)
qed

lemma ucast_of_nat: "ucast (of_nat k :: ushort) = (of_nat k :: byte)"
  by (simp add: unsigned_of_nat word_of_nat_eq_iff)

lemma write_request_ok:
  assumes s: "data_ok demo_ok s" and n: "1 \<le> length vs" "length vs \<le> 120"
    and adr: "1999 \<le> adr" "adr + length vs \<le> 2129" and len: "6 \<le> len"
  shows "eMBFuncWriteMultipleHoldingRegister demo_cb s (write_request (of_nat adr) vs rest) len =
    Some (s\<lparr>app := (app s)\<lparr>usRegHoldingBuf := take (adr - 1999) (usRegHoldingBuf (app s)) @ vs @
        drop (adr - 1999 + length vs) (usRegHoldingBuf (app s))\<rparr>\<rparr>,
      write_request (of_nat adr) vs rest, 5, MB_EX_NONE)"
proof -
  have "unat (of_nat (length vs) :: ushort) = length vs"
    using n by (simp add: unat_of_nat take_bit_nat_eq_self)
  then have c: "1 \<le> (of_nat (length vs) :: ushort)" "(of_nat (length vs) :: ushort) \<le> 0x78"
    using n by (simp_all add: word_le_nat_alt)
  have u: "(of_nat (2 * length vs) :: byte) = ucast (2 * (of_nat (length vs) :: ushort))"
    using ucast_of_nat [of "2 * length vs"] by simp
  show ?thesis
    using c len u s write_request_fields [where adr = "of_nat adr" and vs = vs and rest = rest]
      holding_write_spec [of "app s" adr vs 6 "write_request (of_nat adr) vs rest"] adr
    by (auto simp: eMBFuncWriteMultipleHoldingRegister_def demo_cb_def with_app_def data_ok_def)
qed

lemma read_request_ok:
  assumes s: "data_ok demo_ok s" and n: "1 \<le> n" "n \<le> 125"
    and adr: "1999 \<le> adr" "adr + n \<le> 2129" and room: "2 * n + 2 \<le> 5 + length rest"
    and c: "crc_lo c = of_nat n"
  shows "\<exists>frame'. eMBFuncReadHoldingRegister demo_cb s (read_request (of_nat adr) c rest) 5 =
      Some (s, frame', of_nat (2 + 2 * n), MB_EX_NONE) \<and>
    take (2 + 2 * n) frame' = [3, of_nat (2 * n)] @ concat (map reg_bytes (take n (drop (adr - 1999) (usRegHoldingBuf (app s)))))"
proof -
  let ?f = "[3, of_nat (2 * n)] @ [crc_lo (of_nat adr)] @ reg_bytes c @ rest"
  let ?regs = "concat (map reg_bytes (take n (drop (adr - 1999) (usRegHoldingBuf (app s)))))"
  have f: "get_ushort (read_request (of_nat adr) c rest) 1 = Some (of_nat adr)"
      "get_byte (read_request (of_nat adr) c rest) 3 = Some (crc_hi c)"
      "get_byte (read_request (of_nat adr) c rest) 4 = Some (of_nat n)"
    using get_ushort_reg [of "[3]" "of_nat adr"] c by (simp_all add: read_request_def reg_bytes_def get_byte_def)
  have b: "ucast (of_nat n :: byte) = (of_nat n :: ushort)"
    using n by (simp add: unsigned_of_nat take_bit_nat_eq_self)
  have w: "set_byte (read_request (of_nat adr) c rest) 0 3 = Some (read_request (of_nat adr) c rest)"
      "set_byte (read_request (of_nat adr) c rest) 1 (of_nat (2 * n)) = Some ?f"
    by (simp_all add: set_byte_def read_request_def reg_bytes_def)
  have u: "ucast ((of_nat n :: ushort) * 2) = (of_nat (2 * n) :: byte)"
    using ucast_of_nat [of "2 * n"] by (simp add: mult.commute)
  have un: "unat (of_nat n :: ushort) = n"
    using n by (simp add: unat_of_nat take_bit_nat_eq_self)
  then have r: "1 \<le> (of_nat n :: ushort)" "(of_nat n :: ushort) \<le> 0x7D"
    using n by (simp_all add: word_le_nat_alt)
  have cb: "eMBRegHoldingCB MB_REG_READ (app s) ?f 2 (of_nat adr + 1) (of_nat n) =
      Some (app s, take 2 ?f @ ?regs @ drop (2 + 2 * n) ?f, MB_ENOERR)"
    using s adr room n by (intro holding_read_spec) (auto simp: data_ok_def reg_bytes_def)
  have "length ?regs = 2 * n"
    using s adr by (simp add: length_reg_bytes data_ok_def demo_ok_def)
  then show ?thesis
    using f b w u r cb
    by (intro exI [of _ "take 2 ?f @ ?regs @ drop (2 + 2 * n) ?f"])
      (auto simp: eMBFuncReadHoldingRegister_def demo_cb_def with_app_def bind_assoc mult.commute)
qed

section \<open>Properties\<close>

text \<open>
  C15: registers written with Write Multiple Registers are read back by Read Holding
  Registers: on the demo application a write request for 1 to 120 registers in the range
  2000..2129 succeeds, and the following read request is answered with exactly the bytes
  that were written.
\<close>

theorem holding_registers_roundtrip:
  assumes "data_ok demo_ok s" and "1 \<le> length vs" and "length vs \<le> 120"
    and "1999 \<le> adr" and "adr + length vs \<le> 2129" and "6 \<le> len" and "2 * length vs \<le> length rest + 3"
  shows "\<exists>s' f f'. eMBFuncWriteMultipleHoldingRegister demo_cb s (write_request (of_nat adr) vs rest') len = Some (s', f, 5, MB_EX_NONE) \<and>
    eMBFuncReadHoldingRegister demo_cb s' (read_request (of_nat adr) (of_nat (length vs)) rest) 5 =
      Some (s', f', of_nat (2 + 2 * length vs), MB_EX_NONE) \<and>
    take (2 + 2 * length vs) f' = [3, of_nat (2 * length vs)] @ concat (map reg_bytes vs)"
proof -
  let ?regs = "usRegHoldingBuf (app s)"
  let ?regs' = "take (adr - 1999) ?regs @ vs @ drop (adr - 1999 + length vs) ?regs"
  define s' where "s' = s\<lparr>app := (app s)\<lparr>usRegHoldingBuf := ?regs'\<rparr>\<rparr>"
  have "length ?regs = 130"
    using assms(1) by (simp add: data_ok_def demo_ok_def)
  then have s': "data_ok demo_ok s'" and vs: "take (length vs) (drop (adr - 1999) (usRegHoldingBuf (app s'))) = vs"
    using assms(1,4,5) by (auto simp: s'_def data_ok_def demo_ok_def)
  have "crc_lo (of_nat (length vs)) = of_nat (length vs)"
    by (simp add: crc_lo_ucast ucast_of_nat)
  then obtain f' where
      "eMBFuncReadHoldingRegister demo_cb s' (read_request (of_nat adr) (of_nat (length vs)) rest) 5 =
        Some (s', f', of_nat (2 + 2 * length vs), MB_EX_NONE)"
      "take (2 + 2 * length vs) f' = [3, of_nat (2 * length vs)] @ concat (map reg_bytes vs)"
    using read_request_ok [OF s', of "length vs" adr rest "of_nat (length vs)"] assms(2-7) vs by auto
  then show ?thesis
    using write_request_ok [OF assms(1-6), of rest', folded s'_def] by blast
qed

text \<open>
  Read Holding Registers ignores the high byte of the register count: a request for
  258 registers, far beyond the 125 the handler means to allow, is answered as if it
  asked for 2.
\<close>

theorem read_holding_drops_high_byte:
  assumes "data_ok demo_ok s" and "3 \<le> length rest"
  shows "\<exists>f. eMBFuncReadHoldingRegister demo_cb s (read_request 1999 258 rest) 5 = Some (s, f, 6, MB_EX_NONE) \<and>
    take 6 f = [3, 4] @ concat (map reg_bytes (take 2 (usRegHoldingBuf (app s))))"
proof -
  have "crc_lo 258 = of_nat 2"
    by (simp add: crc_lo_ucast)
  then show ?thesis
    using read_request_ok [OF assms(1), of 2 1999 rest 258] assms(2) by simp
qed

definition demo_data :: "demo_regs mb_data" where
  "demo_data = \<lparr>ucMBSlaveID = replicate 32 0, usMBSlaveIDLen = 0,
     app = \<lparr>usRegInputBuf = replicate 4 0, usRegHoldingBuf = replicate 130 0\<rparr>\<rparr>"

lemma demo_data_ok: "data_ok demo_ok demo_data"
  by (simp add: demo_data_def data_ok_def demo_ok_def)

text \<open>
  Write Multiple Registers does not compare its byte count with the length of the
  request: a request of 6 bytes that announces one register is accepted, and the register
  is set from the two bytes that an earlier frame left behind in the buffer.
\<close>

theorem write_multiple_reads_stale_bytes:
  "\<exists>s' f. eMBFuncWriteMultipleHoldingRegister demo_cb demo_data (write_request 1999 [0xDEAD] rest) 6 =
      Some (s', f, 5, MB_EX_NONE) \<and> usRegHoldingBuf (app s') ! 0 = 0xDEAD"
  using write_request_ok [OF demo_data_ok, of "[0xDEAD]" 1999 6 rest] by simp

theorem holding_registers_roundtrip_witness:
  "\<exists>s' f f'. eMBFuncWriteMultipleHoldingRegister demo_cb demo_data (write_request 2000 [7, 8] []) 10 = Some (s', f, 5, MB_EX_NONE) \<and>
    eMBFuncReadHoldingRegister demo_cb s' (read_request 2000 2 [0]) 5 = Some (s', f', 6, MB_EX_NONE) \<and>
    take 6 f' = [3, 4, 0, 7, 0, 8]"
proof -
  have "concat (map reg_bytes [7, 8]) = [0, 7, 0, 8]"
    by (simp add: reg_bytes_def crc_hi_def crc_lo_def)
  then show ?thesis
    using holding_registers_roundtrip [OF demo_data_ok, of "[7, 8]" 2000 10 "[0]" "[]"] by simp
qed

theorem read_holding_drops_high_byte_witness:
  "\<exists>f. eMBFuncReadHoldingRegister demo_cb demo_data (read_request 1999 258 [0, 0, 0]) 5 = Some (demo_data, f, 6, MB_EX_NONE)"
  using read_holding_drops_high_byte [OF demo_data_ok, of "[0, 0, 0]"] by auto

end
