(* ===== verification/MB_Poll.thy ===== *)
theory MB_Poll
  imports MB_RTU MB_ASCII MB_TCP MB_Demo
begin

text \<open>
  The protocol stack (\<^verbatim>\<open>modbus/mb.c\<close>): initialisation, the table of function handlers and the
  main loop \<open>eMBPoll\<close>. The function pointers that \<open>eMBInit\<close> and \<open>eMBTCPInit\<close> set are the
  record \<open>frame_ops\<close>; the event queue and the memory that the frame pointer points to
  belong to the device state \<open>'t\<close> and are reached through the record \<open>platform\<close>.
\<close>

section \<open>State\<close>

datatype eMBMode = MB_RTU | MB_ASCII | MB_TCP

datatype mb_state = STATE_ENABLED | STATE_DISABLED | STATE_NOT_INITIALIZED

datatype mb_handler = ReportSlaveID | ReadInputRegister | ReadHoldingRegister | WriteMultipleHoldingRegister
  | WriteHoldingRegister | ReadWriteMultipleHoldingRegister | ReadCoils | WriteCoil | WriteMultipleCoils
  | ReadDiscreteInputs | User nat

record 't frame_ops =
  pvMBFrameStartCur :: "'t \<Rightarrow> 't option"
  pvMBFrameStopCur :: "'t \<Rightarrow> 't option"
  peMBFrameSendCur :: "byte \<Rightarrow> nat \<Rightarrow> ushort \<Rightarrow> 't \<Rightarrow> ('t \<times> eMBErrorCode) option"
  peMBFrameReceiveCur :: "'t \<Rightarrow> ('t \<times> eMBErrorCode \<times> (byte \<times> nat \<times> ushort) option) option"
  pvMBFrameCloseCur :: "('t \<Rightarrow> 't option) option"

record 't platform =
  event_init :: "'t \<Rightarrow> 't \<times> bool"
  event_get :: "'t \<Rightarrow> ('t \<times> eMBEventType option) option"
  event_post :: "eMBEventType \<Rightarrow> 't \<Rightarrow> 't \<times> bool"
  mem :: "'t \<Rightarrow> byte list"
  mem_upd :: "byte list \<Rightarrow> 't \<Rightarrow> 't"

record ('t, 'a) stack =
  ucMBAddress :: byte
  eMBCurrentMode :: eMBMode
  eMBState :: mb_state
  frame_cur :: "'t frame_ops option"
  xFuncHandlers :: "(byte \<times> mb_handler option) list"
  ucMBFrame :: "nat option"
  ucRcvAddress :: byte
  usLength :: ushort
  dev :: 't
  mdata :: "'a mb_data"

text \<open>The table as it is initialised; the remaining entries are zero.\<close>

definition init_handlers :: "(byte \<times> mb_handler option) list" where
  "init_handlers =
     [(17, Some ReportSlaveID), (4, Some ReadInputRegister), (3, Some ReadHoldingRegister),
      (16, Some WriteMultipleHoldingRegister), (6, Some WriteHoldingRegister),
      (23, Some ReadWriteMultipleHoldingRegister), (1, Some ReadCoils), (5, Some WriteCoil),
      (15, Some WriteMultipleCoils), (2, Some ReadDiscreteInputs)] @ replicate 6 (0, None)"

text \<open>Calling a handler; \<open>user\<close> are the handlers that the application registers.\<close>

fun call_handler ::
    "'a mb_callbacks \<Rightarrow> (nat \<Rightarrow> 'a mb_data \<Rightarrow> byte list \<Rightarrow> ushort \<Rightarrow> 'a handler_result) \<Rightarrow> mb_handler \<Rightarrow>
     'a mb_data \<Rightarrow> byte list \<Rightarrow> ushort \<Rightarrow> 'a handler_result" where
  "call_handler cb user ReportSlaveID = eMBFuncReportSlaveID"
| "call_handler cb user ReadInputRegister = eMBFuncReadInputRegister cb"
| "call_handler cb user ReadHoldingRegister = eMBFuncReadHoldingRegister cb"
| "call_handler cb user WriteMultipleHoldingRegister = eMBFuncWriteMultipleHoldingRegister cb"
| "call_handler cb user WriteHoldingRegister = eMBFuncWriteHoldingRegister cb"
| "call_handler cb user ReadWriteMultipleHoldingRegister = eMBFuncReadWriteMultipleHoldingRegister cb"
| "call_handler cb user ReadCoils = eMBFuncReadCoils cb"
| "call_handler cb user WriteCoil = eMBFuncWriteCoil cb"
| "call_handler cb user WriteMultipleCoils = eMBFuncWriteMultipleCoils cb"
| "call_handler cb user ReadDiscreteInputs = eMBFuncReadDiscreteInputs cb"
| "call_handler cb user (User n) = user n"

section \<open>Initialisation and control\<close>

text \<open>
  \<open>modes\<close> gives for each mode that is compiled in its functions and its initialisation.
  The configuration of the demo compiles neither RTU nor ASCII in.
\<close>

type_synonym 't mode_table =
  "eMBMode \<Rightarrow> ('t frame_ops \<times> (byte \<Rightarrow> byte \<Rightarrow> 64 word \<Rightarrow> eMBParity \<Rightarrow> 't \<Rightarrow> ('t \<times> eMBErrorCode) option)) option"

definition eMBInit ::
    "'t platform \<Rightarrow> 't mode_table \<Rightarrow> eMBMode \<Rightarrow> byte \<Rightarrow> byte \<Rightarrow> 64 word \<Rightarrow> eMBParity \<Rightarrow> ('t, 'a) stack \<Rightarrow>
     (('t, 'a) stack \<times> eMBErrorCode) option" where
  "eMBInit pf modes eMode ucSlaveAddress ucPort ulBaudRate eParity s =
     (if ucSlaveAddress = 0 \<or> ucSlaveAddress < 1 \<or> ucSlaveAddress > 247 then Some (s, MB_EINVAL)
      else do {
        s \<leftarrow> Some (s\<lparr>ucMBAddress := ucSlaveAddress\<rparr>);
        (s, eStatus) \<leftarrow>
          (case modes eMode of
             None \<Rightarrow> Some (s, MB_EINVAL)
           | Some (ops, ini) \<Rightarrow> do {
               (t, eStatus) \<leftarrow> ini ucSlaveAddress ucPort ulBaudRate eParity (dev s);
               Some (s\<lparr>frame_cur := Some ops, dev := t\<rparr>, eStatus) });
        (if eStatus = MB_ENOERR then
           (let (t, ok) = event_init pf (dev s) in
            if \<not> ok then Some (s\<lparr>dev := t\<rparr>, MB_EPORTERR)
            else Some (s\<lparr>dev := t, eMBCurrentMode := eMode, eMBState := STATE_DISABLED\<rparr>, eStatus))
         else Some (s, eStatus)) })"

text \<open>\<open>do_init\<close> is \<open>eMBTCPDoInit\<close> and \<open>ops\<close> the functions of the TCP mode.\<close>

definition eMBTCPInit ::
    "'t platform \<Rightarrow> 't frame_ops \<Rightarrow> (ushort \<Rightarrow> 't \<Rightarrow> 't \<times> eMBErrorCode) \<Rightarrow> ushort \<Rightarrow> ('t, 'a) stack \<Rightarrow>
     ('t, 'a) stack \<times> eMBErrorCode" where
  "eMBTCPInit pf ops do_init ucTCPPort s =
     (let (t, eStatus) = do_init ucTCPPort (dev s) in
      if eStatus \<noteq> MB_ENOERR then (s\<lparr>dev := t, eMBState := STATE_DISABLED\<rparr>, eStatus)
      else let (t, ok) = event_init pf t in
        if \<not> ok then (s\<lparr>dev := t\<rparr>, MB_EPORTERR)
        else (s\<lparr>dev := t, frame_cur := Some ops, ucMBAddress := 255, eMBCurrentMode := MB_TCP,
               eMBState := STATE_DISABLED\<rparr>, MB_ENOERR))"

fun register_handler :: "byte \<Rightarrow> mb_handler \<Rightarrow> (byte \<times> mb_handler option) list \<Rightarrow> (byte \<times> mb_handler option) list option" where
  "register_handler fc h [] = None"
| "register_handler fc h ((c, g) # hs) =
     (if g = None \<or> g = Some h then Some ((fc, Some h) # hs)
      else map_option (Cons (c, g)) (register_handler fc h hs))"

fun remove_handler :: "byte \<Rightarrow> (byte \<times> mb_handler option) list \<Rightarrow> (byte \<times> mb_handler option) list" where
  "remove_handler fc [] = []"
| "remove_handler fc ((c, g) # hs) = (if c = fc then (0, None) # hs else (c, g) # remove_handler fc hs)"

definition eMBRegisterCB :: "byte \<Rightarrow> mb_handler option \<Rightarrow> ('t, 'a) stack \<Rightarrow> ('t, 'a) stack \<times> eMBErrorCode" where
  "eMBRegisterCB ucFunctionCode pxHandler s =
     (if 0 < ucFunctionCode \<and> ucFunctionCode \<le> 127 then
        (case pxHandler of
           Some h \<Rightarrow>
             (case register_handler ucFunctionCode h (xFuncHandlers s) of
                Some hs \<Rightarrow> (s\<lparr>xFuncHandlers := hs\<rparr>, MB_ENOERR)
              | None \<Rightarrow> (s, MB_ENORES))
         | None \<Rightarrow> (s\<lparr>xFuncHandlers := remove_handler ucFunctionCode (xFuncHandlers s)\<rparr>, MB_ENOERR))
      else (s, MB_EINVAL))"

definition eMBClose :: "('t, 'a) stack \<Rightarrow> (('t, 'a) stack \<times> eMBErrorCode) option" where
  "eMBClose s =
     (if eMBState s = STATE_DISABLED then
        (case Option.bind (frame_cur s) pvMBFrameCloseCur of
           Some close \<Rightarrow> do { t \<leftarrow> close (dev s); Some (s\<lparr>dev := t\<rparr>, MB_ENOERR) }
         | None \<Rightarrow> Some (s, MB_ENOERR))
      else Some (s, MB_EILLSTATE))"

text \<open>A function pointer that was never set is NULL: calling it is undefined.\<close>

definition eMBEnable :: "('t, 'a) stack \<Rightarrow> (('t, 'a) stack \<times> eMBErrorCode) option" where
  "eMBEnable s =
     (if eMBState s = STATE_DISABLED then do {
        ops \<leftarrow> frame_cur s;
        t \<leftarrow> pvMBFrameStartCur ops (dev s);
        Some (s\<lparr>dev := t, eMBState := STATE_ENABLED\<rparr>, MB_ENOERR) }
      else Some (s, MB_EILLSTATE))"

definition eMBDisable :: "('t, 'a) stack \<Rightarrow> (('t, 'a) stack \<times> eMBErrorCode) option" where
  "eMBDisable s =
     (if eMBState s = STATE_ENABLED then do {
        ops \<leftarrow> frame_cur s;
        t \<leftarrow> pvMBFrameStopCur ops (dev s);
        Some (s\<lparr>dev := t, eMBState := STATE_DISABLED\<rparr>, MB_ENOERR) }
      else if eMBState s = STATE_DISABLED then Some (s, MB_ENOERR)
      else Some (s, MB_EILLSTATE))"

section \<open>The main loop\<close>

fun dispatch ::
    "(mb_handler \<Rightarrow> 'a mb_data \<Rightarrow> byte list \<Rightarrow> ushort \<Rightarrow> 'a handler_result) \<Rightarrow> (byte \<times> mb_handler option) list \<Rightarrow>
     byte \<Rightarrow> 'a mb_data \<Rightarrow> byte list \<Rightarrow> ushort \<Rightarrow> 'a handler_result" where
  "dispatch call [] fc d frame len = Some (d, frame, len, MB_EX_ILLEGAL_FUNCTION)"
| "dispatch call ((c, h) # hs) fc d frame len =
     (if c = 0 then Some (d, frame, len, MB_EX_ILLEGAL_FUNCTION)
      else if c = fc then do { h \<leftarrow> h; call h d frame len }
      else dispatch call hs fc d frame len)"

text \<open>The event \<open>EV_EXECUTE\<close>: run the handler and answer, unless the request was broadcast.\<close>

definition poll_execute ::
    "'t platform \<Rightarrow> (mb_handler \<Rightarrow> 'a mb_data \<Rightarrow> byte list \<Rightarrow> ushort \<Rightarrow> 'a handler_result) \<Rightarrow> ('t, 'a) stack \<Rightarrow>
     ('t, 'a) stack option" where
  "poll_execute pf call s = do {
     off \<leftarrow> ucMBFrame s;
     ucFunctionCode \<leftarrow> get_byte (mem pf (dev s)) off;
     (d, frame, len, eException) \<leftarrow>
       dispatch call (xFuncHandlers s) ucFunctionCode (mdata s) (drop off (mem pf (dev s))) (usLength s);
     s \<leftarrow> Some (s\<lparr>mdata := d, usLength := len, dev := mem_upd pf (take off (mem pf (dev s)) @ frame) (dev s)\<rparr>);
     (if ucRcvAddress s \<noteq> 0 then do {
        s \<leftarrow> (if eException \<noteq> MB_EX_NONE then do {
                buf \<leftarrow> set_byte (mem pf (dev s)) off (ucFunctionCode OR 128);
                buf \<leftarrow> set_byte buf (off + 1) (exception_code eException);
                Some (s\<lparr>usLength := 2, dev := mem_upd pf buf (dev s)\<rparr>) }
              else Some s);
        ops \<leftarrow> frame_cur s;
        (t, eStatus) \<leftarrow> peMBFrameSendCur ops (ucMBAddress s) off (usLength s) (dev s);
        Some (s\<lparr>dev := t\<rparr>) }
      else Some s) }"

definition poll_received :: "'t platform \<Rightarrow> ('t, 'a) stack \<Rightarrow> ('t, 'a) stack option" where
  "poll_received pf s = do {
     ops \<leftarrow> frame_cur s;
     (t, eStatus, r) \<leftarrow> peMBFrameReceiveCur ops (dev s);
     s \<leftarrow> (case r of
            Some (adr, off, len) \<Rightarrow> Some (s\<lparr>dev := t, ucRcvAddress := adr, ucMBFrame := Some off, usLength := len\<rparr>)
          | None \<Rightarrow> Some (s\<lparr>dev := t\<rparr>));
     (if eStatus = MB_ENOERR then
        (if ucRcvAddress s = ucMBAddress s \<or> ucRcvAddress s = 0
         then Some (s\<lparr>dev := fst (event_post pf EV_EXECUTE (dev s))\<rparr>) else Some s)
      else Some s) }"

definition eMBPoll ::
    "'t platform \<Rightarrow> (mb_handler \<Rightarrow> 'a mb_data \<Rightarrow> byte list \<Rightarrow> ushort \<Rightarrow> 'a handler_result) \<Rightarrow> ('t, 'a) stack \<Rightarrow>
     (('t, 'a) stack \<times> eMBErrorCode) option" where
  "eMBPoll pf call s =
     (if eMBState s \<noteq> STATE_ENABLED then Some (s, MB_EILLSTATE)
      else do {
        (t, e) \<leftarrow> event_get pf (dev s);
        s \<leftarrow> Some (s\<lparr>dev := t\<rparr>);
        s \<leftarrow> (case e of
               Some EV_FRAME_RECEIVED \<Rightarrow> poll_received pf s
             | Some EV_EXECUTE \<Rightarrow> poll_execute pf call s
             | _ \<Rightarrow> Some s);
        Some (s, MB_ENOERR) })"

section \<open>What the loop needs of a transmission mode\<close>

definition handlers_ok :: "(byte \<times> mb_handler option) list \<Rightarrow> bool" where
  "handlers_ok hs \<longleftrightarrow> (\<forall>(c, h) \<in> set hs. c \<noteq> 0 \<longrightarrow> h \<noteq> None)"

definition stack_ok ::
    "'t frame_ops \<Rightarrow> ('t \<Rightarrow> bool) \<Rightarrow> ('t \<Rightarrow> eMBEventType option) \<Rightarrow> nat \<Rightarrow> ('a \<Rightarrow> bool) \<Rightarrow> ('t, 'a) stack \<Rightarrow> bool" where
  "stack_ok ops ok queued foff good s \<longleftrightarrow>
     ok (dev s) \<and> data_ok good (mdata s) \<and> handlers_ok (xFuncHandlers s) \<and>
     (eMBState s = STATE_ENABLED \<longrightarrow> frame_cur s = Some ops) \<and>
     (queued (dev s) = Some EV_EXECUTE \<longrightarrow> ucMBFrame s = Some foff)"

locale frame_layer =
  fixes pf :: "'t platform" and ops :: "'t frame_ops" and ok :: "'t \<Rightarrow> bool" and queued :: "'t \<Rightarrow> eMBEventType option"
    and foff :: nat and fits :: "'t \<Rightarrow> bool"
  assumes mem_size: "ok t \<Longrightarrow> foff + 253 \<le> length (mem pf t)"
    and mem_write: "ok t \<Longrightarrow> length b = length (mem pf t) \<Longrightarrow>
      ok (mem_upd pf b t) \<and> mem pf (mem_upd pf b t) = b \<and> queued (mem_upd pf b t) = queued t"
    and get: "ok t \<Longrightarrow> queued t = Some e \<Longrightarrow> \<exists>t'. event_get pf t = Some (t', Some e) \<and> ok t' \<and> queued t' = None \<and> (fits t' \<longleftrightarrow> fits t)"
    and post: "ok t \<Longrightarrow> ok (fst (event_post pf e t))"
    and receive: "ok t \<Longrightarrow> fits t \<Longrightarrow> \<exists>t' e r. peMBFrameReceiveCur ops t = Some (t', e, r) \<and> ok t' \<and> queued t' = queued t \<and>
      (case r of None \<Rightarrow> e \<noteq> MB_ENOERR | Some (adr, off, len) \<Rightarrow> off = foff)"
    and full: "ok t \<Longrightarrow> \<not> fits t \<Longrightarrow> peMBFrameReceiveCur ops t = None"
    and send: "ok t \<Longrightarrow> unat len \<le> 253 \<Longrightarrow>
      \<exists>t' e. peMBFrameSendCur ops adr foff len t = Some (t', e) \<and> ok t' \<and> queued t' = queued t"

locale poll_stack = frame_layer pf ops ok queued foff fits + mb_application cb good
  for pf :: "'t platform" and ops :: "'t frame_ops" and ok :: "'t \<Rightarrow> bool" and queued :: "'t \<Rightarrow> eMBEventType option"
    and foff :: nat and fits :: "'t \<Rightarrow> bool" and cb :: "'a mb_callbacks" and good :: "'a \<Rightarrow> bool" +
  fixes user :: "nat \<Rightarrow> 'a mb_data \<Rightarrow> byte list \<Rightarrow> ushort \<Rightarrow> 'a handler_result"
  assumes user_ok: "data_ok good d \<Longrightarrow> 253 \<le> length frame \<Longrightarrow> handler_ok good frame (user n d frame len)"
begin

lemma call_ok:
  "data_ok good d \<Longrightarrow> 253 \<le> length frame \<Longrightarrow> handler_ok good frame (call_handler cb user h d frame len)"
  by (cases h) (simp_all add: read_coils_ok write_coil_ok write_coils_ok read_discrete_ok read_input_ok write_holding_ok
    write_holdings_ok read_holding_ok read_write_ok report_slave_id_ok user_ok)

lemma dispatch_ok:
  assumes "data_ok good d" and "253 \<le> length frame" and "handlers_ok hs"
  shows "handler_ok good frame (dispatch (call_handler cb user) hs fc d frame len)"
  using assms(3)
proof (induction hs)
  case (Cons x hs)
  then show ?case
    using assms(1,2) call_ok by (cases x) (auto simp: handlers_ok_def handler_ok_def)
qed (use assms in \<open>simp add: handler_ok_def\<close>)

lemma execute_ok:
  assumes "stack_ok ops ok queued foff good s" and "eMBState s = STATE_ENABLED" and "ucMBFrame s = Some foff"
    and "queued (dev s) = None"
  shows "\<exists>s'. poll_execute pf (call_handler cb user) s = Some s' \<and> stack_ok ops ok queued foff good s' \<and>
    eMBState s' = STATE_ENABLED"
proof -
  let ?m = "mem pf (dev s)" and ?call = "call_handler cb user"
  have s: "ok (dev s)" "data_ok good (mdata s)" "handlers_ok (xFuncHandlers s)" "frame_cur s = Some ops"
    using assms(1,2) by (simp_all add: stack_ok_def)
  have m: "foff + 253 \<le> length ?m"
    using mem_size [OF s(1)] .
  then have "253 \<le> length (drop foff ?m)"
    by simp
  then obtain d frame len ex where disp:
      "dispatch ?call (xFuncHandlers s) (?m ! foff) (mdata s) (drop foff ?m) (usLength s) = Some (d, frame, len, ex)"
      and d: "data_ok good d" "length frame = length ?m - foff" "ex = MB_EX_NONE \<longrightarrow> unat len \<le> 253"
    using dispatch_ok [OF s(2) _ s(3), of "drop foff ?m" "?m ! foff" "usLength s"]
    unfolding handler_ok_def length_drop by blast
  define t where "t = mem_upd pf (take foff ?m @ frame) (dev s)"
  have t: "ok t" "mem pf t = take foff ?m @ frame" "queued t = None"
    using mem_write [OF s(1), of "take foff ?m @ frame"] d(2) m assms(4) by (simp_all add: t_def)
  define t' where "t' = (if ex \<noteq> MB_EX_NONE
    then mem_upd pf ((mem pf t)[foff := ?m ! foff OR 128, foff + 1 := exception_code ex]) t else t)"
  define len' where "len' = (if ex \<noteq> MB_EX_NONE then 2 else len)"
  have t': "ok t'" "queued t' = None" "unat len' \<le> 253"
    using mem_write [OF t(1), of "(mem pf t)[foff := ?m ! foff OR 128, foff + 1 := exception_code ex]"] t d(3)
    by (auto simp: t'_def len'_def)
  obtain t'' e where send: "peMBFrameSendCur ops (ucMBAddress s) foff len' t' = Some (t'', e)" "ok t''" "queued t'' = None"
    using frame_layer.send [OF frame_layer_axioms t'(1,3)] t'(2) by metis
  have "foff + 1 < length (mem pf t)" "foff < length ?m"
    using t(2) d(2) m by simp_all
  then have "poll_execute pf ?call s = Some (s\<lparr>mdata := d, usLength := if ucRcvAddress s \<noteq> 0 then len' else len,
      dev := if ucRcvAddress s \<noteq> 0 then t'' else t\<rparr>)"
    using disp send(1) s(4) assms(3)
    by (cases "ex = MB_EX_NONE") (simp_all add: poll_execute_def get_byte_def set_byte_def t_def [symmetric] t'_def len'_def)
  then show ?thesis
    using s d send t assms(2,3) by (simp add: stack_ok_def)
qed

lemma received_ok:
  assumes "stack_ok ops ok queued foff good s" and "eMBState s = STATE_ENABLED" and "queued (dev s) = None" and "fits (dev s)"
  shows "\<exists>s'. poll_received pf s = Some s' \<and> stack_ok ops ok queued foff good s' \<and> eMBState s' = STATE_ENABLED"
proof -
  have s: "ok (dev s)" "data_ok good (mdata s)" "handlers_ok (xFuncHandlers s)" "frame_cur s = Some ops"
    using assms(1,2) by (simp_all add: stack_ok_def)
  obtain t e r where r: "peMBFrameReceiveCur ops (dev s) = Some (t, e, r)" "ok t" "queued t = None"
      "case r of None \<Rightarrow> e \<noteq> MB_ENOERR | Some (adr, off, len) \<Rightarrow> off = foff"
    using receive [OF s(1) assms(4)] assms(3) by metis
  then show ?thesis
    using s assms(2) post [of t EV_EXECUTE] by (cases r) (auto simp: poll_received_def stack_ok_def)
qed

text \<open>The one turn that does not return collects a frame for which the receiver had no room.\<close>

lemma poll_outcome_of:
  assumes "stack_ok ops ok queued foff good s" and "queued (dev s) \<noteq> None"
  shows "case eMBPoll pf (call_handler cb user) s of
      None \<Rightarrow> eMBState s = STATE_ENABLED \<and> queued (dev s) = Some EV_FRAME_RECEIVED \<and> \<not> fits (dev s)
    | Some (s', e) \<Rightarrow> \<not> (eMBState s = STATE_ENABLED \<and> queued (dev s) = Some EV_FRAME_RECEIVED \<and> \<not> fits (dev s)) \<and>
        e = (if eMBState s = STATE_ENABLED then MB_ENOERR else MB_EILLSTATE) \<and>
        stack_ok ops ok queued foff good s' \<and> eMBState s' = eMBState s"
proof (cases "eMBState s = STATE_ENABLED")
  case True
  obtain e where e: "queued (dev s) = Some e"
    using assms(2) by blast
  obtain t where t: "event_get pf (dev s) = Some (t, Some e)" "ok t" "queued t = None" "fits t \<longleftrightarrow> fits (dev s)"
    using get [OF _ e] assms(1) by (auto simp: stack_ok_def)
  have inv: "stack_ok ops ok queued foff good (s\<lparr>dev := t\<rparr>)"
    using assms(1) t by (simp add: stack_ok_def)
  show ?thesis
  proof (cases "e = EV_FRAME_RECEIVED \<and> \<not> fits t")
    case stuck: True
    then have "poll_received pf (s\<lparr>dev := t\<rparr>) = None"
      using full [OF t(2)] inv True by (simp add: poll_received_def stack_ok_def)
    then show ?thesis
      using True t(1,4) e stuck by (simp add: eMBPoll_def)
  next
    case False
    then show ?thesis
      using True t inv received_ok [OF inv] execute_ok [OF inv] e assms(1)
      by (cases e) (auto simp: eMBPoll_def stack_ok_def)
  qed
qed (use assms in \<open>simp add: eMBPoll_def\<close>)

end

section \<open>The three modes\<close>

definition port_event :: "'a port_scheme \<Rightarrow> eMBEventType option" where
  "port_event p = (if xEventInQueue p then Some (eQueuedEvent p) else None)"

text \<open>A serial port has no sockets to pool.\<close>

definition rtu_pf :: "rtu platform" where
  "rtu_pf = \<lparr>
     event_init = (\<lambda>t. let (p, b) = xMBPortEventInit (rport t) in (t\<lparr>rport := p\<rparr>, b)),
     event_get = (\<lambda>t. do { (p, e) \<leftarrow> xMBPortEventGet Some (rport t); Some (t\<lparr>rport := p\<rparr>, e) }),
     event_post = (\<lambda>e t. let (p, b) = xMBPortEventPost e (rport t) in (t\<lparr>rport := p\<rparr>, b)),
     mem = ucRTUBuf, mem_upd = (\<lambda>b t. t\<lparr>ucRTUBuf := b\<rparr>)\<rparr>"

definition rtu_ops :: "(rtu \<Rightarrow> rtu option) option \<Rightarrow> rtu frame_ops" where
  "rtu_ops close = \<lparr>
     pvMBFrameStartCur = Some \<circ> eMBRTUStart, pvMBFrameStopCur = Some \<circ> eMBRTUStop, peMBFrameSendCur = eMBRTUSend,
     peMBFrameReceiveCur = (\<lambda>t. do { (e, r) \<leftarrow> eMBRTUReceive t; Some (t, e, r) }), pvMBFrameCloseCur = close\<rparr>"

definition rtu_ok :: "rtu \<Rightarrow> bool" where
  "rtu_ok t \<longleftrightarrow> length (ucRTUBuf t) = 256"

definition rtu_fits :: "rtu \<Rightarrow> bool" where
  "rtu_fits t \<longleftrightarrow> rtu.usRcvBufferPos t < 256"

definition ascii_pf :: "ascii platform" where
  "ascii_pf = \<lparr>
     event_init = (\<lambda>t. let (p, b) = xMBPortEventInit (aport t) in (t\<lparr>aport := p\<rparr>, b)),
     event_get = (\<lambda>t. do { (p, e) \<leftarrow> xMBPortEventGet Some (aport t); Some (t\<lparr>aport := p\<rparr>, e) }),
     event_post = (\<lambda>e t. let (p, b) = xMBPortEventPost e (aport t) in (t\<lparr>aport := p\<rparr>, b)),
     mem = ucASCIIBuf, mem_upd = (\<lambda>b t. t\<lparr>ucASCIIBuf := b\<rparr>)\<rparr>"

definition ascii_ops :: "(ascii \<Rightarrow> ascii option) option \<Rightarrow> ascii frame_ops" where
  "ascii_ops close = \<lparr>
     pvMBFrameStartCur = Some \<circ> eMBASCIIStart, pvMBFrameStopCur = Some \<circ> eMBASCIIStop, peMBFrameSendCur = eMBASCIISend,
     peMBFrameReceiveCur = (\<lambda>t. do { (e, r) \<leftarrow> eMBASCIIReceive t; Some (t, e, r) }), pvMBFrameCloseCur = close\<rparr>"

definition ascii_ok :: "ascii \<Rightarrow> bool" where
  "ascii_ok t \<longleftrightarrow> length (ucASCIIBuf t) = 256"

definition ascii_fits :: "ascii \<Rightarrow> bool" where
  "ascii_fits t \<longleftrightarrow> ascii.usRcvBufferPos t < 256"

definition tcp_pf :: "tcp platform" where
  "tcp_pf = \<lparr>
     event_init = xMBPortEventInit, event_get = xMBPortEventGet xMBPortTCPPool, event_post = xMBPortEventPost,
     mem = aucTCPBuf, mem_upd = (\<lambda>b t. t\<lparr>aucTCPBuf := b\<rparr>)\<rparr>"

definition tcp_ops :: "tcp frame_ops" where
  "tcp_ops = \<lparr>
     pvMBFrameStartCur = Some \<circ> eMBTCPStart, pvMBFrameStopCur = eMBTCPStop, peMBFrameSendCur = eMBTCPSend,
     peMBFrameReceiveCur = eMBTCPReceive, pvMBFrameCloseCur = Some vMBTCPPortClose\<rparr>"

definition tcp_ok :: "tcp \<Rightarrow> bool" where
  "tcp_ok t \<longleftrightarrow> length (aucTCPBuf t) = 263"

lemmas mode_defs = rtu_pf_def rtu_ops_def ascii_pf_def ascii_ops_def tcp_pf_def tcp_ops_def
lemmas port_event_defs = port_event_def xMBPortEventGet_def xMBPortEventPost_def

text \<open>No handler is registered by the application.\<close>

definition no_user :: "nat \<Rightarrow> 'a mb_data \<Rightarrow> byte list \<Rightarrow> ushort \<Rightarrow> 'a handler_result" where
  "no_user n d frame len = Some (d, frame, len, MB_EX_ILLEGAL_FUNCTION)"

lemma no_user_ok: "data_ok good d \<Longrightarrow> handler_ok good frame (no_user n d frame len)"
  by (simp add: no_user_def handler_ok_def)

lemma port_event_upd [simp]:
  "port_event (t\<lparr>ssizes := rs\<rparr>) = port_event t" "port_event (p\<lparr>sent := bs\<rparr>) = port_event p"
  "port_event (t\<lparr>aucTCPBuf := buf\<rparr>) = port_event t"
  "port_event (t\<lparr>usTCPBufPos := u, usTCPFrameBytesLeft := v\<rparr>) = port_event t"
  by (simp_all add: port_event_def)

lemma release_client:
  "length (aucTCPBuf s) = 263 \<Longrightarrow> \<exists>s'. prvvMBPortReleaseClient s = Some s' \<and> length (aucTCPBuf s') = 263 \<and>
     port_event s' = port_event s \<and> \<not> xClientSocket s'"
  by (auto simp: prvvMBPortReleaseClient_def recv_net_def put_bytes_def port_event_def Let_def split: list.splits)

lemma send_loop_total:
  "length (aucTCPBuf s) = 263 \<Longrightarrow> \<exists>s' bs'. send_loop bs t rs s = Some (s', bs') \<and> length (aucTCPBuf s') = 263 \<and>
     port_event s' = port_event s"
proof (induction bs t rs s rule: send_loop.induct)
  case (1 bs t s)
  then show ?case
    using release_client [of "s\<lparr>ssizes := []\<rparr>"] by auto
next
  case (2 bs t res rs s)
  show ?case
  proof (cases "res < 0")
    case True
    then show ?thesis
      using 2(1) 2(3) by (cases "t > 0") auto
  next
    case False
    define n where "n = min (nat res) (length bs)"
    then show ?thesis
      using 2(2) [OF False n_def] 2(3) False release_client [of "s\<lparr>ssizes := rs\<rparr>"]
      by (cases "n = 0") (auto simp: n_def [symmetric] Let_def)
  qed
qed

lemma tcp_send_total:
  assumes "length (aucTCPBuf t) = 263" and "unat len \<le> 256"
  shows "\<exists>t' e. eMBTCPSend adr 7 len t = Some (t', e) \<and> length (aucTCPBuf t') = 263 \<and> port_event t' = port_event t"
proof -
  have u: "unat (len + 7) = unat len + 7"
    using assms(2) by (simp add: unat_word_ariths)
  define buf where "buf = (aucTCPBuf t)[4 := ucast (drop_bit 8 (len + 1)), 5 := ucast ((len + 1) AND 0xFF)]"
  have buf: "length buf = 263"
    using assms(1) by (simp add: buf_def)
  then obtain t' bs' where "send_loop (take (unat len + 7) buf) 1000 (ssizes t) (t\<lparr>aucTCPBuf := buf\<rparr>) = Some (t', bs')"
      "length (aucTCPBuf t') = 263" "port_event t' = port_event t"
    using send_loop_total [of "t\<lparr>aucTCPBuf := buf\<rparr>" "take (unat len + 7) buf" 1000 "ssizes t"]
    by auto
  then show ?thesis
    using assms u buf
    by (simp add: eMBTCPSend_def set_byte_def get_bytes_def xMBTCPPortSendResponse_def buf_def [symmetric])
qed

interpretation rtu_demo: poll_stack rtu_pf "rtu_ops close" rtu_ok "\<lambda>t. port_event (rport t)" 1 rtu_fits demo_cb demo_ok no_user
proof unfold_locales
  fix t :: rtu and len :: ushort and adr :: byte
  assume t: "rtu_ok t"
  show "peMBFrameReceiveCur (rtu_ops close) t = None" if "\<not> rtu_fits t"
    using that by (simp add: mode_defs rtu_fits_def eMBRTUReceive_def)
  show "\<exists>t' e r. peMBFrameReceiveCur (rtu_ops close) t = Some (t', e, r) \<and> rtu_ok t' \<and>
      port_event (rport t') = port_event (rport t) \<and>
      (case r of None \<Rightarrow> e \<noteq> MB_ENOERR | Some (adr, off, len) \<Rightarrow> off = 1)" if "rtu_fits t"
    using t that by (auto simp: mode_defs rtu_ok_def rtu_fits_def eMBRTUReceive_def get_byte_def)
  assume "unat len \<le> 253"
  then show "\<exists>t' e. peMBFrameSendCur (rtu_ops close) adr 1 len t = Some (t', e) \<and> rtu_ok t' \<and>
      port_event (rport t') = port_event (rport t)"
    using t by (auto simp: mode_defs rtu_ok_def eMBRTUSend_def set_byte_def get_bytes_def port_defs port_event_def
      unat_word_ariths)
qed (auto simp: mode_defs rtu_ok_def rtu_fits_def port_event_defs no_user_ok split: if_splits)

interpretation ascii_demo: poll_stack ascii_pf "ascii_ops close" ascii_ok "\<lambda>t. port_event (aport t)" 1 ascii_fits demo_cb demo_ok no_user
proof unfold_locales
  fix t :: ascii and len :: ushort and adr :: byte
  assume t: "ascii_ok t"
  show "peMBFrameReceiveCur (ascii_ops close) t = None" if "\<not> ascii_fits t"
    using that by (simp add: mode_defs ascii_fits_def eMBASCIIReceive_def)
  show "\<exists>t' e r. peMBFrameReceiveCur (ascii_ops close) t = Some (t', e, r) \<and> ascii_ok t' \<and>
      port_event (aport t') = port_event (aport t) \<and>
      (case r of None \<Rightarrow> e \<noteq> MB_ENOERR | Some (adr, off, len) \<Rightarrow> off = 1)" if "ascii_fits t"
    using t that by (auto simp: mode_defs ascii_ok_def ascii_fits_def eMBASCIIReceive_def get_byte_def)
  assume "unat len \<le> 253"
  then show "\<exists>t' e. peMBFrameSendCur (ascii_ops close) adr 1 len t = Some (t', e) \<and> ascii_ok t' \<and>
      port_event (aport t') = port_event (aport t)"
    using t by (auto simp: mode_defs ascii_ok_def eMBASCIISend_def set_byte_def get_bytes_def port_defs port_event_def
      unat_word_ariths)
qed (auto simp: mode_defs ascii_ok_def ascii_fits_def port_event_defs no_user_ok split: if_splits)

interpretation tcp_demo: poll_stack tcp_pf tcp_ops tcp_ok port_event 7 "\<lambda>_. True" demo_cb demo_ok no_user
proof unfold_locales
  fix t :: tcp and len :: ushort and adr :: byte
  assume t: "tcp_ok t"
  obtain v where "get_ushort (aucTCPBuf t) 2 = Some v"
    using t by (auto simp: tcp_ok_def get_ushort_def get_byte_def)
  from eMBTCPReceive_eq [OF this]
  show "\<exists>t' e r. peMBFrameReceiveCur tcp_ops t = Some (t', e, r) \<and> tcp_ok t' \<and> port_event t' = port_event t \<and>
      (case r of None \<Rightarrow> e \<noteq> MB_ENOERR | Some (adr, off, len) \<Rightarrow> off = 7)"
    using t by (auto simp: mode_defs tcp_ok_def port_event_def)
  assume "unat len \<le> 253"
  then show "\<exists>t' e. peMBFrameSendCur tcp_ops adr 7 len t = Some (t', e) \<and> tcp_ok t' \<and> port_event t' = port_event t"
    using tcp_send_total [of t len adr] t by (simp add: mode_defs tcp_ok_def)
qed (auto simp: mode_defs tcp_ok_def port_event_defs no_user_ok split: if_splits)

section \<open>A TCP request from the socket to the answer\<close>

abbreviation demo_call :: "mb_handler \<Rightarrow> demo_regs mb_data \<Rightarrow> byte list \<Rightarrow> ushort \<Rightarrow> demo_regs handler_result" where
  "demo_call \<equiv> call_handler demo_cb no_user"

text \<open>The response PDU: what the handler left in the frame, or the exception.\<close>

definition response :: "byte \<Rightarrow> byte list \<times> ushort \<times> eMBException \<Rightarrow> byte list" where
  "response fc = (\<lambda>(frame, len, ex). if ex = MB_EX_NONE then take (unat len) frame else [fc OR 128, exception_code ex])"

text \<open>The bytes on the wire for a request header and a response PDU.\<close>

definition mbap_response :: "byte list \<Rightarrow> byte list \<Rightarrow> byte list" where
  "mbap_response request pdu =
     take 4 request @ reg_bytes (of_nat (length pdu + 1)) @ [request ! 6] @ pdu"

lemma mbap_answer_response:
  assumes "length buf = 263" and "length frame = 256" and "unat len \<le> 253"
  shows "mbap_answer (take 7 buf @ frame) len = mbap_response buf (take (unat len) frame)"
proof -
  have "Suc (Suc (Suc (Suc (Suc (Suc (Suc 0)))))) \<le> length buf"
    using assms(1) by simp
  then obtain b0 b1 b2 b3 b4 b5 b6 rest where b: "buf = b0 # b1 # b2 # b3 # b4 # b5 # b6 # rest"
    by (auto simp: Suc_le_length_iff)
  have "of_nat (unat len + 1) = len + 1"
    by simp
  then show ?thesis
    using assms by (simp add: b mbap_answer_def mbap_response_def reg_bytes_def crc_hi_def crc_lo_def min_def
      eval_nat_numeral add.commute)
qed

lemma tcp_execute:
  assumes "ucMBFrame s = Some 7" and "ucRcvAddress s \<noteq> 0" and "frame_cur s = Some tcp_ops"
    and "length (aucTCPBuf (dev s)) = 263" and "client_stays (ssizes (dev s))"
    and "dispatch call (xFuncHandlers s) (aucTCPBuf (dev s) ! 7) (mdata s) (drop 7 (aucTCPBuf (dev s))) (usLength s) =
      Some (d, frame, len, ex)"
    and "length frame = 256" and "ex = MB_EX_NONE \<longrightarrow> unat len \<le> 253"
  shows "\<exists>t n. poll_execute tcp_pf call s = Some (s\<lparr>mdata := d, usLength := n, dev := t\<rparr>) \<and>
    sent t = sent (dev s) @ mbap_response (aucTCPBuf (dev s)) (response (aucTCPBuf (dev s) ! 7) (frame, len, ex)) \<and>
    length (aucTCPBuf t) = 263 \<and> usTCPBufPos t = usTCPBufPos (dev s) \<and>
    usTCPFrameBytesLeft t = usTCPFrameBytesLeft (dev s) \<and> xClientSocket t = xClientSocket (dev s) \<and>
    rstream t = rstream (dev s) \<and> xEventInQueue t = xEventInQueue (dev s)"
proof -
  let ?buf = "aucTCPBuf (dev s)"
  define frame' where "frame' = (if ex = MB_EX_NONE then frame else frame[0 := ?buf ! 7 OR 128, 1 := exception_code ex])"
  define len' where "len' = (if ex = MB_EX_NONE then len else 2)"
  obtain x y rest where "frame = x # y # rest"
    using assms(7) by (cases frame; cases "tl frame") auto
  then have resp: "response (?buf ! 7) (frame, len, ex) = take (unat len') frame'"
    by (simp add: response_def frame'_def len'_def)
  have fr: "length frame' = 256" "unat len' \<le> 253"
    using assms(7,8) by (simp_all add: frame'_def len'_def)
  define t where "t = (dev s)\<lparr>aucTCPBuf := take 7 ?buf @ frame'\<rparr>"
  obtain t' where t': "eMBTCPSend (ucMBAddress s) 7 len' t = Some (t', MB_ENOERR)"
      "sent t' = sent t @ mbap_answer (aucTCPBuf t) len'" "length (aucTCPBuf t') = 263" "usTCPBufPos t' = usTCPBufPos t"
      "usTCPFrameBytesLeft t' = usTCPFrameBytesLeft t" "xClientSocket t' = xClientSocket t" "rstream t' = rstream t"
      "xEventInQueue t' = xEventInQueue t"
    using eMBTCPSend_ok [of t len' "ucMBAddress s"] assms(4,5) fr by (auto simp: t_def)
  have "(take 7 ?buf @ frame)[7 := ?buf ! 7 OR 128, Suc 7 := exception_code ex] =
      take 7 ?buf @ frame[0 := ?buf ! 7 OR 128, 1 := exception_code ex]"
    using assms(4) by (simp add: list_update_append)
  then have "poll_execute tcp_pf call s = Some (s\<lparr>mdata := d, usLength := len', dev := t'\<rparr>)"
    using assms(1-4,6,7) t'(1)
    by (cases "ex = MB_EX_NONE") (simp_all add: poll_execute_def mode_defs get_byte_def set_byte_def t_def frame'_def len'_def)
  moreover have "mbap_answer (aucTCPBuf t) len' = mbap_response ?buf (take (unat len') frame')"
    using mbap_answer_response [OF assms(4) fr] by (simp add: t_def)
  ultimately show ?thesis
    using t' resp by (intro exI [of _ t'] exI [of _ len']) (simp add: t_def)
qed

text \<open>The stack waits for the next request of a connected client.\<close>

definition tcp_serving :: "(tcp, demo_regs) stack \<Rightarrow> bool" where
  "tcp_serving s \<longleftrightarrow>
     eMBState s = STATE_ENABLED \<and> frame_cur s = Some tcp_ops \<and> ucMBAddress s = 255 \<and> handlers_ok (xFuncHandlers s) \<and>
     data_ok demo_ok (mdata s) \<and> xClientSocket (dev s) \<and> usTCPBufPos (dev s) = 0 \<and> usTCPFrameBytesLeft (dev s) = 7 \<and>
     length (aucTCPBuf (dev s)) = 263 \<and> \<not> xEventInQueue (dev s)"

lemma tcp_poll_pool:
  assumes "tcp_serving s" and "mbap_frame frame" and "rstream (dev s) = frame @ rest"
  shows "\<exists>t. eMBPoll tcp_pf call s = Some (s\<lparr>dev := t\<rparr>, MB_ENOERR) \<and> pool_done frame rest (dev s) t"
proof -
  have s: "eMBState s = STATE_ENABLED" "xClientSocket (dev s)" "\<not> xEventInQueue (dev s)"
    using assms(1) by (simp_all add: tcp_serving_def)
  have "pool_inv frame rest 0 (dev s)"
    using assms by (auto simp: tcp_serving_def pool_inv_def mbap_frame_def)
  then obtain t where "pool_loop (dev s) = Inr t" "pool_done frame rest (dev s) t"
    using pool_loop_assembles [OF assms(2)] by blast
  then show ?thesis
    using s by (auto simp: eMBPoll_def mode_defs xMBPortEventGet_def xMBPortTCPPool_def pool_call_def)
qed

lemma tcp_poll_receive:
  assumes "eMBState s = STATE_ENABLED" and "frame_cur s = Some tcp_ops" and "ucMBAddress s = 255"
    and "pool_done frame rest t0 (dev s)" and "mbap_frame frame" and "get_ushort frame 2 = Some 0"
  shows "eMBPoll tcp_pf call s = Some (s\<lparr>ucRcvAddress := 255, ucMBFrame := Some 7, usLength := of_nat (length frame) - 7,
      dev := (dev s)\<lparr>xEventInQueue := True, eQueuedEvent := EV_EXECUTE, usTCPBufPos := 0, usTCPFrameBytesLeft := 7\<rparr>\<rparr>, MB_ENOERR)"
proof -
  let ?t = "(dev s)\<lparr>xEventInQueue := False\<rparr>"
  have t: "take (length frame) (aucTCPBuf (dev s)) = frame" "xEventInQueue (dev s)" "eQueuedEvent (dev s) = EV_FRAME_RECEIVED"
      "usTCPBufPos (dev s) = of_nat (length frame)"
    using assms(4) by (simp_all add: pool_done_def)
  have "get_ushort (aucTCPBuf ?t) 2 = Some 0"
    using get_ushort_take [of 2 "length frame" "aucTCPBuf ?t" 0] t(1) assms(5,6) by (simp add: mbap_frame_def)
  from eMBTCPReceive_eq [OF this] show ?thesis
    using t assms(1-3)
    by (simp add: eMBPoll_def poll_received_def mode_defs xMBPortEventGet_def xMBPortEventPost_def)
qed

lemma mbap_response_frame:
  assumes "take (length frame) buf = frame" and "7 \<le> length frame"
  shows "mbap_response buf pdu = mbap_response frame pdu"
proof -
  have "take 4 frame = take 4 buf" "frame ! 6 = buf ! 6"
    using arg_cong [OF assms(1), of "take 4"] arg_cong [OF assms(1), of "\<lambda>xs. xs ! 6"] assms(2) by (simp_all add: min_def)
  then show ?thesis
    by (simp add: mbap_response_def)
qed

section \<open>Properties\<close>

text \<open>
  C6: a request that a TCP client sends is answered, however the network cuts it. Three
  turns of the main loop assemble the frame, hand it to the stack and execute it: the
  function handler that is registered for its function code runs on exactly the bytes of
  the request, the application state is what the handler left, and the client gets the
  header of its own request with the length of the response, followed by the response of
  the handler or by the exception reply. The stack is then ready for the next request.
\<close>

theorem tcp_request_answered:
  assumes "tcp_serving s" and "client_stays (ssizes (dev s))" and "mbap_frame frame" and "8 \<le> length frame"
    and "get_ushort frame 2 = Some 0" and "rstream (dev s) = frame @ rest"
  shows "\<exists>s1 s2 s3 memory d f len ex. eMBPoll tcp_pf demo_call s = Some (s1, MB_ENOERR) \<and>
    eMBPoll tcp_pf demo_call s1 = Some (s2, MB_ENOERR) \<and> eMBPoll tcp_pf demo_call s2 = Some (s3, MB_ENOERR) \<and>
    take (length frame - 7) memory = drop 7 frame \<and>
    dispatch demo_call (xFuncHandlers s) (frame ! 7) (mdata s) memory (of_nat (length frame) - 7) = Some (d, f, len, ex) \<and>
    mdata s3 = d \<and> sent (dev s3) = sent (dev s) @ mbap_response frame (response (frame ! 7) (f, len, ex)) \<and>
    tcp_serving s3 \<and> rstream (dev s3) = rest"
proof -
  obtain t where t: "eMBPoll tcp_pf demo_call s = Some (s\<lparr>dev := t\<rparr>, MB_ENOERR)" "pool_done frame rest (dev s) t"
    using tcp_poll_pool [OF assms(1,3,6)] by blast
  have s: "eMBState s = STATE_ENABLED" "frame_cur s = Some tcp_ops" "ucMBAddress s = 255" "handlers_ok (xFuncHandlers s)"
      "data_ok demo_ok (mdata s)" "xClientSocket (dev s)"
    using assms(1) by (simp_all add: tcp_serving_def)
  have td: "length (aucTCPBuf t) = 263" "take (length frame) (aucTCPBuf t) = frame" "rstream t = rest"
      "xClientSocket t" "sent t = sent (dev s)" "client_stays (ssizes t)"
    using t(2) s(6) assms(2) by (simp_all add: pool_done_def)
  define t1 where "t1 = t\<lparr>xEventInQueue := True, eQueuedEvent := EV_EXECUTE, usTCPBufPos := 0, usTCPFrameBytesLeft := 7\<rparr>"
  define s2 where "s2 = s\<lparr>ucRcvAddress := 255, ucMBFrame := Some 7, usLength := of_nat (length frame) - 7, dev := t1\<rparr>"
  have p2: "eMBPoll tcp_pf demo_call (s\<lparr>dev := t\<rparr>) = Some (s2, MB_ENOERR)"
    using tcp_poll_receive [of "s\<lparr>dev := t\<rparr>" frame rest "dev s"] s t(2) assms(3,5) by (simp add: s2_def t1_def)
  define memory where "memory = drop 7 (aucTCPBuf t)"
  have "253 \<le> length memory"
    using td(1) by (simp add: memory_def)
  from tcp_demo.dispatch_ok [OF s(5) this s(4)]
  obtain d f len ex where disp:
      "dispatch demo_call (xFuncHandlers s) (frame ! 7) (mdata s) memory (of_nat (length frame) - 7) = Some (d, f, len, ex)"
      and d: "data_ok demo_ok d" "length f = length memory" "ex = MB_EX_NONE \<longrightarrow> unat len \<le> 253"
    unfolding handler_ok_def by metis
  have fc: "aucTCPBuf t ! 7 = frame ! 7"
    using arg_cong [OF td(2), of "\<lambda>xs. xs ! 7"] assms(4) by simp
  define s2' where "s2' = s2\<lparr>dev := t1\<lparr>xEventInQueue := False\<rparr>\<rparr>"
  have "dispatch demo_call (xFuncHandlers s2') (aucTCPBuf (dev s2') ! 7) (mdata s2') (drop 7 (aucTCPBuf (dev s2'))) (usLength s2') =
      Some (d, f, len, ex)"
    using disp fc by (simp add: s2'_def s2_def t1_def memory_def)
  from tcp_execute [OF _ _ _ _ _ this _ d(3)] obtain t3 n where
      e: "poll_execute tcp_pf demo_call s2' = Some (s2'\<lparr>mdata := d, usLength := n, dev := t3\<rparr>)"
        "sent t3 = sent t @ mbap_response (aucTCPBuf t) (response (frame ! 7) (f, len, ex))"
        "length (aucTCPBuf t3) = 263" "usTCPBufPos t3 = 0" "usTCPFrameBytesLeft t3 = 7" "xClientSocket t3" "rstream t3 = rest"
        "\<not> xEventInQueue t3"
    using td s(2) d(2) fc by (auto simp: s2'_def s2_def t1_def memory_def)
  have "eMBPoll tcp_pf demo_call s2 = Some (s2'\<lparr>mdata := d, usLength := n, dev := t3\<rparr>, MB_ENOERR)"
    using e(1) s(1) by (simp add: eMBPoll_def mode_defs xMBPortEventGet_def s2'_def s2_def t1_def)
  moreover have "tcp_serving (s2'\<lparr>mdata := d, usLength := n, dev := t3\<rparr>)"
    using s d e by (simp add: tcp_serving_def s2'_def s2_def)
  moreover have "take (length frame - 7) memory = drop 7 frame"
    using arg_cong [OF td(2), of "drop 7"] by (simp add: memory_def drop_take)
  moreover have "mbap_response (aucTCPBuf t) pdu = mbap_response frame pdu" for pdu
    using mbap_response_frame [OF td(2)] assms(4) by simp
  ultimately show ?thesis
    using t(1) p2 disp e(2,7) td(5)
    by (intro exI [of _ "s\<lparr>dev := t\<rparr>"] exI [of _ s2] exI [of _ "s2'\<lparr>mdata := d, usLength := n, dev := t3\<rparr>"]
      exI [of _ memory] exI [of _ d] exI [of _ f] exI [of _ len] exI [of _ ex]) simp
qed

text \<open>
  C7: whatever event waits, a turn of the main loop of the demo returns in every transmission mode
  and leaves the stack in a state where this holds again: no access leaves the frame buffer, no NULL
  pointer is followed. The only exception is exact: an enabled serial stack whose receiver stored 256
  bytes or more before the frame is collected; there the assertion at the head of the receive function fails.
\<close>

theorem poll_outcome:
  "(stack_ok (rtu_ops rc) rtu_ok (\<lambda>t. port_event (rport t)) 1 demo_ok r \<and> port_event (rport (dev r)) \<noteq> None \<longrightarrow>
     (case eMBPoll rtu_pf demo_call r of
        None \<Rightarrow> eMBState r = STATE_ENABLED \<and> port_event (rport (dev r)) = Some EV_FRAME_RECEIVED \<and> 256 \<le> rtu.usRcvBufferPos (dev r)
      | Some (r', e) \<Rightarrow>
          \<not> (eMBState r = STATE_ENABLED \<and> port_event (rport (dev r)) = Some EV_FRAME_RECEIVED \<and> 256 \<le> rtu.usRcvBufferPos (dev r)) \<and>
          stack_ok (rtu_ops rc) rtu_ok (\<lambda>t. port_event (rport t)) 1 demo_ok r')) \<and>
   (stack_ok (ascii_ops ac) ascii_ok (\<lambda>t. port_event (aport t)) 1 demo_ok a \<and> port_event (aport (dev a)) \<noteq> None \<longrightarrow>
     (case eMBPoll ascii_pf demo_call a of
        None \<Rightarrow> eMBState a = STATE_ENABLED \<and> port_event (aport (dev a)) = Some EV_FRAME_RECEIVED \<and> 256 \<le> ascii.usRcvBufferPos (dev a)
      | Some (a', e) \<Rightarrow>
          \<not> (eMBState a = STATE_ENABLED \<and> port_event (aport (dev a)) = Some EV_FRAME_RECEIVED \<and> 256 \<le> ascii.usRcvBufferPos (dev a)) \<and>
          stack_ok (ascii_ops ac) ascii_ok (\<lambda>t. port_event (aport t)) 1 demo_ok a')) \<and>
   (stack_ok tcp_ops tcp_ok port_event 7 demo_ok s \<and> port_event (dev s) \<noteq> None \<longrightarrow>
     (\<exists>s' e. eMBPoll tcp_pf demo_call s = Some (s', e) \<and> stack_ok tcp_ops tcp_ok port_event 7 demo_ok s'))"
  (is "(?r \<longrightarrow> ?r') \<and> (?a \<longrightarrow> ?a') \<and> (?s \<longrightarrow> ?s')")
proof (intro conjI impI)
  show ?r' if ?r
    using rtu_demo.poll_outcome_of [of rc r] that by (auto simp: rtu_fits_def not_less split: option.splits)
  show ?a' if ?a
    using ascii_demo.poll_outcome_of [of ac a] that by (auto simp: ascii_fits_def not_less split: option.splits)
  show ?s' if ?s
    using tcp_demo.poll_outcome_of [of s] that by (auto split: option.splits)
qed

lemma dispatch_zeros: "dispatch call (replicate k (0, None)) fc d frame len = Some (d, frame, len, MB_EX_ILLEGAL_FUNCTION)"
  by (cases k) simp_all

lemma register_append:
  assumes "\<forall>(c, g) \<in> set used. g \<noteq> None \<and> g \<noteq> Some h"
  shows "register_handler fc h (used @ (c, None) # hs) = Some (used @ (fc, Some h) # hs)"
  using assms by (induction used) (auto split: if_splits)

lemma dispatch_append:
  assumes "\<forall>(c, g) \<in> set used. c \<noteq> 0 \<and> c \<noteq> fc"
  shows "dispatch call (used @ hs) fc = dispatch call hs fc"
proof -
  have "dispatch call (used @ hs) fc d frame len = dispatch call hs fc d frame len" for d frame len
    using assms by (induction used) auto
  then show ?thesis
    by (intro ext)
qed

lemma dispatch_found:
  assumes "\<forall>(c, g) \<in> set used. c \<noteq> 0" and "fc' \<in> fst ` set used"
  shows "dispatch call (used @ hs) fc' d frame len = dispatch call (used @ hs') fc' d frame len"
  using assms by (induction used) (auto simp: image_iff, force)

text \<open>
  Registering a handler for a new function code in a table without holes makes exactly
  this code reach the handler: requests with the code are executed by it, requests with
  any other code behave as before.
\<close>

theorem register_handler_reached:
  assumes "xFuncHandlers s = used @ replicate (Suc k) (0, None)" and "\<forall>(c, g) \<in> set used. c \<noteq> 0 \<and> g \<noteq> None"
    and "0 < fc" and "fc \<le> 127" and "fc \<notin> fst ` set used" and "Some h \<notin> snd ` set used"
  shows "\<exists>s'. eMBRegisterCB fc (Some h) s = (s', MB_ENOERR) \<and>
    dispatch call (xFuncHandlers s') fc d frame len = call h d frame len \<and>
    (\<forall>fc'. fc' \<noteq> fc \<longrightarrow>
      dispatch call (xFuncHandlers s') fc' d frame len = dispatch call (xFuncHandlers s) fc' d frame len)"
proof -
  let ?hs = "used @ (fc, Some h) # replicate k (0, None)"
  have free: "\<forall>(c, g) \<in> set used. g \<noteq> None \<and> g \<noteq> Some h" and nz: "\<forall>(c, g) \<in> set used. c \<noteq> 0"
    using assms(2,6) by (auto simp: image_iff)
  have reg: "eMBRegisterCB fc (Some h) s = (s\<lparr>xFuncHandlers := ?hs\<rparr>, MB_ENOERR)"
    using register_append [OF free, of fc 0 "replicate k (0, None)"] assms(1,3,4) by (simp add: eMBRegisterCB_def)
  have new: "dispatch call ?hs fc d frame len = call h d frame len"
    using assms(2,3,5) by (subst dispatch_append) (auto simp: image_iff)
  have "dispatch call ?hs fc' d frame len = dispatch call (xFuncHandlers s) fc' d frame len" if "fc' \<noteq> fc" for fc'
  proof (cases "fc' \<in> fst ` set used")
    case True
    then show ?thesis
      unfolding assms(1) by (rule dispatch_found [OF nz])
  next
    case False
    then have "\<forall>(c, g) \<in> set used. c \<noteq> 0 \<and> c \<noteq> fc'"
      using assms(2) by force
    then show ?thesis
      using dispatch_append [of used fc' call] assms(1,3) that by (cases k) auto
  qed
  then show ?thesis
    using reg new by simp
qed

text \<open>
  Removing a handler makes the handlers behind it unreachable. \<open>eMBRegisterCB\<close> with a
  NULL handler clears the entry, and \<open>eMBPoll\<close> stops its search at the first cleared
  entry: once function code 17, the first of the table, is removed, every request is
  answered with \<open>MB_EX_ILLEGAL_FUNCTION\<close>, although nine handlers are still registered.
\<close>

theorem removed_handler_hides_others:
  assumes "xFuncHandlers s = init_handlers"
  shows "\<exists>s'. eMBRegisterCB 17 None s = (s', MB_ENOERR) \<and> (3, Some ReadHoldingRegister) \<in> set (xFuncHandlers s') \<and>
    (\<forall>fc. dispatch call (xFuncHandlers s') fc d frame len = Some (d, frame, len, MB_EX_ILLEGAL_FUNCTION))"
  using assms by (simp add: eMBRegisterCB_def init_handlers_def)

text \<open>
  The control functions follow their state machine. Starting from a stack that is not
  initialised, \<open>eMBEnable\<close>, \<open>eMBDisable\<close>, \<open>eMBClose\<close> and \<open>eMBPoll\<close> are refused; after
  \<open>eMBTCPInit\<close> the stack can be enabled, polls, refuses a second \<open>eMBEnable\<close> and a
  \<open>eMBClose\<close>, and can be disabled again.
\<close>

theorem tcp_control_states:
  assumes "eMBState s = STATE_NOT_INITIALIZED" and "os (if port = 0 then 502 else port) = (True, True, True)"
    and "length (aucTCPBuf (dev s)) = 263"
  shows "eMBEnable s = Some (s, MB_EILLSTATE) \<and> eMBDisable s = Some (s, MB_EILLSTATE) \<and>
    eMBClose s = Some (s, MB_EILLSTATE) \<and> eMBPoll tcp_pf call s = Some (s, MB_EILLSTATE) \<and>
    (\<exists>s1 s2 s3. eMBTCPInit tcp_pf tcp_ops (eMBTCPDoInit os) port s = (s1, MB_ENOERR) \<and> eMBState s1 = STATE_DISABLED \<and>
      listening (dev s1) = Some (if port = 0 then 502 else port) \<and>
      eMBEnable s1 = Some (s2, MB_ENOERR) \<and> eMBState s2 = STATE_ENABLED \<and>
      eMBEnable s2 = Some (s2, MB_EILLSTATE) \<and> eMBClose s2 = Some (s2, MB_EILLSTATE) \<and>
      eMBDisable s2 = Some (s3, MB_ENOERR) \<and> eMBState s3 = STATE_DISABLED \<and> \<not> xClientSocket (dev s3))"
proof -
  define t where "t = (dev s)\<lparr>xListenSocket := True, listening := Some (if port = 0 then 502 else port), xEventInQueue := False\<rparr>"
  define s1 where "s1 = s\<lparr>dev := t, frame_cur := Some tcp_ops, ucMBAddress := 255, eMBCurrentMode := MB_TCP,
    eMBState := STATE_DISABLED\<rparr>"
  have "length (aucTCPBuf t) = 263"
    using assms(3) by (simp add: t_def)
  then obtain t' where t': "eMBTCPStop t = Some t'" "\<not> xClientSocket t'"
    using release_client [of t] by (cases "xClientSocket t") (auto simp: eMBTCPStop_def vMBTCPPortDisable_def)
  have "eMBTCPInit tcp_pf tcp_ops (eMBTCPDoInit os) port s = (s1, MB_ENOERR)"
    using assms(2) by (simp add: eMBTCPInit_def eMBTCPDoInit_def xMBTCPPortInit_def xMBPortEventInit_def mode_defs s1_def t_def Let_def)
  moreover have "eMBEnable s1 = Some (s1\<lparr>eMBState := STATE_ENABLED\<rparr>, MB_ENOERR)"
    by (simp add: eMBEnable_def s1_def mode_defs eMBTCPStart_def)
  moreover have "eMBDisable (s1\<lparr>eMBState := STATE_ENABLED\<rparr>) = Some (s1\<lparr>dev := t', eMBState := STATE_DISABLED\<rparr>, MB_ENOERR)"
    using t'(1) by (simp add: eMBDisable_def s1_def mode_defs)
  ultimately show ?thesis
    using assms(1) t'(2) by (simp add: eMBEnable_def eMBDisable_def eMBClose_def eMBPoll_def s1_def t_def)
qed

text \<open>
  A failed \<open>eMBTCPInit\<close> leaves a trap. When the socket cannot be opened it reports
  \<open>MB_EPORTERR\<close> but sets the state to \<open>STATE_DISABLED\<close> although no function pointer is set:
  the following \<open>eMBEnable\<close> calls through a NULL pointer instead of returning
  \<open>MB_EILLSTATE\<close>.
\<close>

theorem failed_tcp_init_then_enable_crashes:
  assumes "frame_cur s = None" and "\<not> fst (os (if port = 0 then 502 else port))"
  shows "\<exists>s'. eMBTCPInit tcp_pf tcp_ops (eMBTCPDoInit os) port s = (s', MB_EPORTERR) \<and> eMBEnable s' = None"
proof -
  let ?s = "s\<lparr>dev := (dev s)\<lparr>xListenSocket := False\<rparr>, eMBState := STATE_DISABLED\<rparr>"
  obtain b l where "os (if port = 0 then 502 else port) = (False, b, l)"
    using assms(2) by (cases "os (if port = 0 then 502 else port)") auto
  then have "eMBTCPInit tcp_pf tcp_ops (eMBTCPDoInit os) port s = (?s, MB_EPORTERR)"
    by (simp add: eMBTCPInit_def eMBTCPDoInit_def xMBTCPPortInit_def Let_def)
  moreover have "eMBEnable ?s = None"
    using assms(1) by (simp add: eMBEnable_def)
  ultimately show ?thesis
    by blast
qed

definition demo_stack :: "'t \<Rightarrow> ('t, demo_regs) stack" where
  "demo_stack t = \<lparr>ucMBAddress = 0, eMBCurrentMode = MB_RTU, eMBState = STATE_NOT_INITIALIZED, frame_cur = None,
     xFuncHandlers = init_handlers, ucMBFrame = None, ucRcvAddress = 0, usLength = 0, dev = t, mdata = demo_data\<rparr>"

definition serving_stack :: "tcp \<Rightarrow> (tcp, demo_regs) stack" where
  "serving_stack t = (demo_stack t)\<lparr>ucMBAddress := 255, eMBCurrentMode := MB_TCP, eMBState := STATE_ENABLED,
     frame_cur := Some tcp_ops\<rparr>"

lemma serving_stack_ok: "tcp_serving (serving_stack (tcp_connected bytes ks))"
  by (simp add: tcp_serving_def serving_stack_def demo_stack_def tcp_connected_simps demo_data_ok handlers_ok_def
    init_handlers_def)

theorem tcp_request_answered_witness:
  "\<exists>s1 s2 s3. eMBPoll tcp_pf demo_call (serving_stack (tcp_connected [0, 1, 0, 0, 0, 2, 9, 0x41] [2, 0, 9])) = Some (s1, MB_ENOERR) \<and>
    eMBPoll tcp_pf demo_call s1 = Some (s2, MB_ENOERR) \<and> eMBPoll tcp_pf demo_call s2 = Some (s3, MB_ENOERR) \<and>
    sent (dev s3) = [0, 1, 0, 0, 0, 3, 9, 0xC1, 1]"
proof -
  let ?frame = "[0, 1, 0, 0, 0, 2, 9, 0x41] :: byte list"
  let ?s = "serving_stack (tcp_connected ?frame [2, 0, 9])"
  have frame: "mbap_frame ?frame" "get_ushort ?frame 2 = Some 0"
    by (simp_all add: mbap_frame_def get_ushort_def get_byte_def)
  have s: "client_stays (ssizes (dev ?s))" "rstream (dev ?s) = ?frame @ []" "xFuncHandlers ?s = init_handlers"
      "sent (dev ?s) = []"
    by (simp_all add: serving_stack_def demo_stack_def tcp_connected_simps client_stays_def)
  have d: "dispatch demo_call init_handlers 0x41 d f len = Some (d, f, len, MB_EX_ILLEGAL_FUNCTION)" for d f len
    by (simp add: init_handlers_def dispatch_zeros)
  have r: "mbap_response ?frame (response 0x41 (f, len, MB_EX_ILLEGAL_FUNCTION)) = [0, 1, 0, 0, 0, 3, 9, 0xC1, 1]" for f len
    by (simp add: mbap_response_def response_def reg_bytes_def crc_hi_def crc_lo_def)
  have "8 \<le> length ?frame"
    by simp
  from tcp_request_answered [OF serving_stack_ok s(1) frame(1) this frame(2) s(2)]
  obtain s1 s2 s3 m d' f len ex where polls: "eMBPoll tcp_pf demo_call ?s = Some (s1, MB_ENOERR)"
      "eMBPoll tcp_pf demo_call s1 = Some (s2, MB_ENOERR)" "eMBPoll tcp_pf demo_call s2 = Some (s3, MB_ENOERR)"
      and disp: "dispatch demo_call (xFuncHandlers ?s) (?frame ! 7) (mdata ?s) m (of_nat (length ?frame) - 7) = Some (d', f, len, ex)"
      and ans: "sent (dev s3) = sent (dev ?s) @ mbap_response ?frame (response (?frame ! 7) (f, len, ex))"
    by (elim exE conjE) (rule that)
  have "ex = MB_EX_ILLEGAL_FUNCTION"
    using disp d by (simp add: s(3))
  then have "sent (dev s3) = [0, 1, 0, 0, 0, 3, 9, 0xC1, 1]"
    using ans r by (simp add: s(4))
  then show ?thesis
    using polls by blast
qed

text \<open>A station in RTU mode that has received a frame of the given size.\<close>

definition rtu_stack :: "ushort \<Rightarrow> (rtu, demo_regs) stack" where
  "rtu_stack n = (demo_stack (rtu_idle\<lparr>rtu.usRcvBufferPos := n, rport := fst (xMBPortEventPost EV_FRAME_RECEIVED (rport rtu_idle))\<rparr>))
     \<lparr>ucMBAddress := 17, eMBState := STATE_ENABLED, frame_cur := Some (rtu_ops None)\<rparr>"

lemma rtu_stack_ok:
  "stack_ok (rtu_ops None) rtu_ok (\<lambda>t. port_event (rport t)) 1 demo_ok (rtu_stack n)" "eMBState (rtu_stack n) = STATE_ENABLED"
  "port_event (rport (dev (rtu_stack n))) = Some EV_FRAME_RECEIVED" "rtu.usRcvBufferPos (dev (rtu_stack n)) = n"
  by (simp_all add: rtu_stack_def stack_ok_def demo_stack_def port_event_def xMBPortEventPost_def rtu_ok_def rtu_idle_def
      demo_data_ok handlers_ok_def init_handlers_def)

theorem poll_outcome_witness:
  "(\<exists>s' e. eMBPoll tcp_pf demo_call
      (serving_stack (fst (xMBPortEventPost EV_FRAME_RECEIVED (tcp_connected [] [])))) = Some (s', e)) \<and>
   (\<exists>r' e. eMBPoll rtu_pf demo_call (rtu_stack 8) = Some (r', e)) \<and> eMBPoll rtu_pf demo_call (rtu_stack 256) = None"
proof -
  let ?s = "serving_stack (fst (xMBPortEventPost EV_FRAME_RECEIVED (tcp_connected [] [])))"
  have "stack_ok tcp_ops tcp_ok port_event 7 demo_ok ?s \<and> port_event (dev ?s) \<noteq> None"
    by (simp add: stack_ok_def serving_stack_def demo_stack_def port_event_def xMBPortEventPost_def tcp_ok_def
      tcp_connected_simps demo_data_ok handlers_ok_def init_handlers_def)
  then have "\<exists>s' e. eMBPoll tcp_pf demo_call ?s = Some (s', e)"
    using poll_outcome [where s = ?s, THEN conjunct2, THEN conjunct2] by blast
  moreover have "port_event (rport (dev (rtu_stack n))) \<noteq> None" for n
    by (simp add: rtu_stack_ok(3))
  note poll_outcome [THEN conjunct1, THEN mp, OF conjI, OF rtu_stack_ok(1) this]
  note this [of 8] this [of 256]
  then have "\<exists>r' e. eMBPoll rtu_pf demo_call (rtu_stack 8) = Some (r', e)" "eMBPoll rtu_pf demo_call (rtu_stack 256) = None"
    by (simp_all add: rtu_stack_ok(2-4) split: option.splits)
  ultimately show ?thesis
    by blast
qed

theorem register_handler_reached_witness:
  "\<exists>s'. eMBRegisterCB 100 (Some (User 0)) (demo_stack (tcp_connected [] [])) = (s', MB_ENOERR) \<and>
    dispatch demo_call (xFuncHandlers s') 100 demo_data [] 0 = demo_call (User 0) demo_data [] 0"
proof -
  have "xFuncHandlers (demo_stack (tcp_connected [] [])) = take 10 init_handlers @ replicate (Suc 5) (0, None)"
    by (simp add: demo_stack_def init_handlers_def)
  from register_handler_reached [OF this, of 100 "User 0" demo_call demo_data "[]" 0] show ?thesis
    by (simp add: init_handlers_def) (elim exE conjE, rule exI, rule conjI, assumption, assumption)
qed

theorem removed_handler_hides_others_witness:
  "\<exists>s'. eMBRegisterCB 17 None (demo_stack (tcp_connected [] [])) = (s', MB_ENOERR) \<and>
    dispatch demo_call (xFuncHandlers s') 3 demo_data [] 0 = Some (demo_data, [], 0, MB_EX_ILLEGAL_FUNCTION)"
  using removed_handler_hides_others [of "demo_stack (tcp_connected [] [])" demo_call demo_data "[]" 0]
  by (auto simp: demo_stack_def)

theorem tcp_control_states_witness:
  "\<exists>s1. eMBTCPInit tcp_pf tcp_ops (eMBTCPDoInit (\<lambda>_. (True, True, True))) 0 (demo_stack (tcp_connected [] [])) =
    (s1, MB_ENOERR) \<and> listening (dev s1) = Some 502"
  using tcp_control_states [of "demo_stack (tcp_connected [] [])" "\<lambda>_. (True, True, True)" 0]
  by (auto simp: demo_stack_def tcp_connected_simps)

theorem failed_tcp_init_then_enable_crashes_witness:
  "\<exists>s'. eMBTCPInit tcp_pf tcp_ops (eMBTCPDoInit (\<lambda>_. (False, True, True))) 0 (demo_stack (tcp_connected [] [])) =
    (s', MB_EPORTERR) \<and> eMBEnable s' = None"
  using failed_tcp_init_then_enable_crashes [of "demo_stack (tcp_connected [] [])" "\<lambda>_. (False, True, True)" 0]
  by (simp add: demo_stack_def)

end
