(* ===== verification/Timer_Spec.thy ===== *)
theory Timer_Spec
  imports C_Prelude
begin

text \<open>
  What a container of timers promises to the event loop that owns it: the interface that
  the sorted list and the heap of \<^verbatim>\<open>codes/11\<close> share. A tick at time \<open>cur\<close> runs the
  callbacks of exactly the timers that are due, earliest first, and forgets them.
\<close>

text \<open>The event loop around a container: ticks at the given times, in order.\<close>

fun ticks :: "(int \<Rightarrow> 's \<Rightarrow> 's option) \<Rightarrow> int list \<Rightarrow> 's \<Rightarrow> 's option" where
  "ticks tick [] s = Some s"
| "ticks tick (c # cs) s = do { s \<leftarrow> tick c s; ticks tick cs s }"

lemma map_filter_eqI:
  "\<forall>x \<in> set xs. f x = g x \<Longrightarrow> List.map_filter f xs = List.map_filter g xs"
  by (induction xs) (auto simp: map_filter_simps split: option.splits)

lemma restrict_free: "m(p := None) |` (- A) = m |` (- insert p A)"
  by (auto simp: restrict_map_def)

locale timer_container =
  fixes ok :: "'s \<Rightarrow> bool" and elems :: "'s \<Rightarrow> addr set" and due :: "'s \<Rightarrow> addr \<Rightarrow> int"
    and callback :: "'s \<Rightarrow> addr \<Rightarrow> (nat \<times> nat) option" and called :: "'s \<Rightarrow> (nat \<times> nat) list"
    and fresh :: "addr \<Rightarrow> 's \<Rightarrow> bool" and add :: "addr \<Rightarrow> 's \<Rightarrow> 's option" and tick :: "int \<Rightarrow> 's \<Rightarrow> 's option"
  assumes add_ok: "ok s \<Longrightarrow> fresh p s \<Longrightarrow>
      \<exists>s'. add p s = Some s' \<and> ok s' \<and> elems s' = insert p (elems s) \<and> called s' = called s \<and>
        (\<forall>q \<in> elems s'. due s' q = due s q \<and> callback s' q = callback s q)"
    and tick_ok: "ok s \<Longrightarrow>
      \<exists>s' ts. tick cur s = Some s' \<and> ok s' \<and> distinct ts \<and> set ts = {p \<in> elems s. due s p \<le> cur} \<and>
        sorted (map (due s) ts) \<and> elems s' = elems s - set ts \<and> called s' = called s @ List.map_filter (callback s) ts \<and>
        (\<forall>q \<in> elems s'. due s' q = due s q \<and> callback s' q = callback s q)"
begin

text \<open>
  Over any number of ticks with a clock that does not run backwards every timer fires
  exactly once, at the first tick that is not before its expiry, and never earlier.
\<close>

lemma ticks_fire:
  assumes "ok s" and "sorted cs"
  shows "\<exists>s' ts. ticks tick cs s = Some s' \<and> ok s' \<and> distinct ts \<and>
    set ts = {p \<in> elems s. \<exists>c \<in> set cs. due s p \<le> c} \<and> sorted (map (due s) ts) \<and> elems s' = elems s - set ts \<and>
    called s' = called s @ List.map_filter (callback s) ts"
  using assms
proof (induction cs arbitrary: s)
  case Nil
  then show ?case
    by (auto intro!: exI [of _ "[]"] simp: map_filter_simps)
next
  case (Cons c cs)
  obtain s1 t1 where s1: "tick c s = Some s1" "ok s1" "distinct t1" "set t1 = {p \<in> elems s. due s p \<le> c}"
      "sorted (map (due s) t1)" "elems s1 = elems s - set t1" "called s1 = called s @ List.map_filter (callback s) t1"
      "\<forall>q \<in> elems s1. due s1 q = due s q \<and> callback s1 q = callback s q"
    using tick_ok [OF Cons.prems(1)] by blast
  obtain s2 t2 where s2: "ticks tick cs s1 = Some s2" "ok s2" "distinct t2" "set t2 = {p \<in> elems s1. \<exists>c \<in> set cs. due s1 p \<le> c}"
      "sorted (map (due s1) t2)" "elems s2 = elems s1 - set t2" "called s2 = called s1 @ List.map_filter (callback s1) t2"
    using Cons.IH [OF s1(2)] Cons.prems(2) by auto
  have same: "\<forall>p \<in> set t2. due s1 p = due s p \<and> callback s1 p = callback s p" "set t2 \<subseteq> elems s1"
    using s1(8) s2(4) by auto
  then have t2: "sorted (map (due s) t2)" "List.map_filter (callback s1) t2 = List.map_filter (callback s) t2"
    using s2(5) by (simp_all add: map_filter_eqI cong: map_cong)
  show ?case
  proof (intro exI conjI)
    show "ticks tick (c # cs) s = Some s2" "ok s2"
      using s1 s2 by simp_all
    show "distinct (t1 @ t2)"
      using s1(3,6) s2(3,4) by auto
    show "set (t1 @ t2) = {p \<in> elems s. \<exists>c \<in> set (c # cs). due s p \<le> c}"
      using s1(4,6,8) s2(4) by auto
    have "due s p \<le> due s q" if "p \<in> set t1" "q \<in> set t2" for p q
      using that s1(4,6) same(2) by fastforce
    then show "sorted (map (due s) (t1 @ t2))"
      using s1(5) t2(1) by (auto simp: sorted_append)
    show "elems s2 = elems s - set (t1 @ t2)"
      using s1(6) s2(6) by auto
    show "called s2 = called s @ List.map_filter (callback s) (t1 @ t2)"
      using s1(7) s2(7) t2(2) by (simp add: map_filter_def)
  qed
qed

text \<open>A timer that is added fires at the next tick if it is due by then, and stays otherwise.\<close>

lemma add_then_tick:
  assumes "ok s" and "fresh p s"
  shows "\<exists>s1 s2. add p s = Some s1 \<and> tick cur s1 = Some s2 \<and> ok s2 \<and> (p \<in> elems s2 \<longleftrightarrow> cur < due s p)"
proof -
  obtain s1 where s1: "add p s = Some s1" "ok s1" "elems s1 = insert p (elems s)" "due s1 p = due s p"
    using add_ok [OF assms] by auto
  obtain s2 where "tick cur s1 = Some s2" "ok s2" "elems s2 = elems s1 - {q \<in> elems s1. due s1 q \<le> cur}"
    using tick_ok [OF s1(2)] by metis
  then show ?thesis
    using s1 by (auto simp: not_le)
qed

end

end
