(* ===== verification/Timer_Heap.thy ===== *)
theory Timer_Heap
  imports Timer_Spec
begin

text \<open>
  The timer heap of \<^verbatim>\<open>codes/11/11-6time_heap.h\<close>: an array of pointers to timers, ordered as a
  binary heap by expiry time. \<open>None\<close> is undefined behaviour, \<open>Throw\<close> an exception. Indices are natural
  numbers; the index \<^verbatim>\<open>hole*2+1\<close> of \<^verbatim>\<open>percolate_down\<close> leaves the range of int only beyond \<^verbatim>\<open>2^30\<close> timers.
\<close>

section \<open>State and operations\<close>

text \<open>A callback is known by a number, \<open>None\<close> is a NULL pointer; so is the client data.\<close>

record heap_timer =
  expire :: int
  cb_func :: "nat option"
  user_data :: nat

text \<open>\<open>timers\<close> are the live timer objects, \<open>calls\<close> the callbacks that ran with their arguments.\<close>

record time_heap =
  array :: "addr list"
  capacity :: nat
  cur_size :: nat
  timers :: "heap_timer heap"
  calls :: "(nat \<times> nat) list"

text \<open>\<open>new_ok\<close> tells whether \<^verbatim>\<open>new\<close> finds memory for that many pointers.\<close>

definition time_heap_new :: "(nat \<Rightarrow> bool) \<Rightarrow> int \<Rightarrow> heap_timer heap \<Rightarrow> time_heap thrown" where
  "time_heap_new new_ok cap h =
     (if cap < 0 \<or> \<not> new_ok (nat cap) then Throw
      else Val \<lparr>array = replicate (nat cap) NULL, capacity = nat cap, cur_size = 0, timers = h, calls = []\<rparr>)"

partial_function (option) down_loop ::
    "heap_timer heap \<Rightarrow> addr \<Rightarrow> nat \<Rightarrow> addr list \<Rightarrow> nat \<Rightarrow> (addr list \<times> nat) option" where
  "down_loop h temp n a hole =
     (if hole * 2 + 1 < n then do {
        child \<leftarrow> Some (hole * 2 + 1);
        c \<leftarrow> aget a child;
        child \<leftarrow>
          (if child + 1 < n then do {
             r \<leftarrow> aget a (child + 1);
             er \<leftarrow> deref expire h r;
             ec \<leftarrow> deref expire h c;
             Some (if er < ec then child + 1 else child) }
           else Some child);
        c \<leftarrow> aget a child;
        ec \<leftarrow> deref expire h c;
        et \<leftarrow> deref expire h temp;
        (if ec < et then do {
           a \<leftarrow> aput a hole c;
           down_loop h temp n a child }
         else Some (a, hole)) }
      else Some (a, hole))"

definition percolate_down :: "heap_timer heap \<Rightarrow> nat \<Rightarrow> addr list \<Rightarrow> nat \<Rightarrow> addr list option" where
  "percolate_down h n a hole = do {
     temp \<leftarrow> aget a hole;
     (a, hole) \<leftarrow> down_loop h temp n a hole;
     aput a hole temp }"

text \<open>The loop over \<open>i = (cur_size - 1) / 2 .. 0\<close> of the second constructor.\<close>

fun build_loop :: "heap_timer heap \<Rightarrow> nat \<Rightarrow> addr list \<Rightarrow> nat \<Rightarrow> addr list option" where
  "build_loop h n a 0 = percolate_down h n a 0"
| "build_loop h n a (Suc i) = do { a \<leftarrow> percolate_down h n a (Suc i); build_loop h n a i }"

definition time_heap_init :: "(nat \<Rightarrow> bool) \<Rightarrow> addr list \<Rightarrow> nat \<Rightarrow> nat \<Rightarrow> heap_timer heap \<Rightarrow> time_heap thrown option" where
  "time_heap_init new_ok init_array sz cap h =
     (if cap < sz \<or> \<not> new_ok cap then Some Throw
      else do {
        c_assert (sz \<le> length init_array);
        a \<leftarrow> Some (take sz init_array @ replicate (cap - sz) NULL);
        a \<leftarrow> (if sz \<noteq> 0 then build_loop h sz a ((sz - 1) div 2) else Some a);
        Some (Val \<lparr>array = a, capacity = cap, cur_size = sz, timers = h, calls = []\<rparr>) })"

definition resize :: "(nat \<Rightarrow> bool) \<Rightarrow> time_heap \<Rightarrow> time_heap thrown option" where
  "resize new_ok s = do {
     c_int (2 * int (capacity s));
     (if \<not> new_ok (2 * capacity s) then Some Throw
      else do {
        c_assert (cur_size s \<le> length (array s) \<and> cur_size s \<le> 2 * capacity s);
        Some (Val (s\<lparr>array := take (cur_size s) (array s) @ replicate (2 * capacity s - cur_size s) NULL,
                     capacity := 2 * capacity s\<rparr>)) }) }"

partial_function (option) up_loop ::
    "heap_timer heap \<Rightarrow> addr \<Rightarrow> addr list \<Rightarrow> nat \<Rightarrow> (addr list \<times> nat) option" where
  "up_loop h timer a hole =
     (if hole > 0 then do {
        parent \<leftarrow> Some ((hole - 1) div 2);
        p \<leftarrow> aget a parent;
        ep \<leftarrow> deref expire h p;
        et \<leftarrow> deref expire h timer;
        (if ep \<le> et then Some (a, hole)
         else do {
           a \<leftarrow> aput a hole p;
           up_loop h timer a parent }) }
      else Some (a, hole))"

definition add_timer :: "(nat \<Rightarrow> bool) \<Rightarrow> addr \<Rightarrow> time_heap \<Rightarrow> time_heap thrown option" where
  "add_timer new_ok timer s =
     (if timer = NULL then Some (Val s)
      else do {
        r \<leftarrow> (if cur_size s \<ge> capacity s then resize new_ok s else Some (Val s));
        (case r of
           Throw \<Rightarrow> Some Throw
         | Val s \<Rightarrow> do {
             (a, hole) \<leftarrow> up_loop (timers s) timer (array s) (cur_size s);
             a \<leftarrow> aput a hole timer;
             Some (Val (s\<lparr>array := a, cur_size := cur_size s + 1\<rparr>)) }) })"

definition del_timer :: "addr \<Rightarrow> time_heap \<Rightarrow> time_heap option" where
  "del_timer timer s =
     (if timer = NULL then Some s
      else do { h \<leftarrow> store (\<lambda>t. t\<lparr>cb_func := None\<rparr>) (timers s) timer; Some (s\<lparr>timers := h\<rparr>) })"

definition time_heap_top :: "time_heap \<Rightarrow> addr option" where
  "time_heap_top s = (if cur_size s = 0 then Some NULL else aget (array s) 0)"

definition pop_timer :: "time_heap \<Rightarrow> time_heap option" where
  "pop_timer s =
     (if cur_size s = 0 then Some s
      else do {
        p \<leftarrow> aget (array s) 0;
        (if p \<noteq> NULL then do {
           h \<leftarrow> c_free (timers s) p;
           q \<leftarrow> aget (array s) (cur_size s - 1);
           a \<leftarrow> aput (array s) 0 q;
           a \<leftarrow> percolate_down h (cur_size s - 1) a 0;
           Some (s\<lparr>array := a, cur_size := cur_size s - 1, timers := h\<rparr>) }
         else Some s) })"

partial_function (option) tick_loop :: "int \<Rightarrow> addr \<Rightarrow> time_heap \<Rightarrow> time_heap option" where
  "tick_loop cur tmp s =
     (if cur_size s = 0 then Some s
      else if tmp = NULL then Some s
      else do {
        e \<leftarrow> deref expire (timers s) tmp;
        (if e > cur then Some s
         else do {
           p \<leftarrow> aget (array s) 0;
           cb \<leftarrow> deref cb_func (timers s) p;
           ud \<leftarrow> deref user_data (timers s) p;
           s \<leftarrow> pop_timer (case cb of Some f \<Rightarrow> s\<lparr>calls := calls s @ [(f, ud)]\<rparr> | None \<Rightarrow> s);
           tmp \<leftarrow> aget (array s) 0;
           tick_loop cur tmp s }) })"

text \<open>\<open>cur\<close> is the answer of \<^verbatim>\<open>time\<close>.\<close>

definition tick :: "int \<Rightarrow> time_heap \<Rightarrow> time_heap option" where
  "tick cur s = do { tmp \<leftarrow> aget (array s) 0; tick_loop cur tmp s }"

fun delete_all :: "addr list \<Rightarrow> heap_timer heap \<Rightarrow> heap_timer heap option" where
  "delete_all [] h = Some h"
| "delete_all (p # ps) h = do { h \<leftarrow> c_free h p; delete_all ps h }"

text \<open>The destructor.\<close>

definition time_heap_delete :: "time_heap \<Rightarrow> heap_timer heap option" where
  "time_heap_delete s = do {
     c_assert (cur_size s \<le> length (array s));
     delete_all (take (cur_size s) (array s)) (timers s) }"

section \<open>Heap order\<close>

abbreviation par :: "nat \<Rightarrow> nat" where
  "par j \<equiv> (j - 1) div 2"

text \<open>Every element with a parent at \<open>m\<close> or behind is not smaller than its parent.\<close>

definition heap_from :: "('a \<Rightarrow> int) \<Rightarrow> 'a list \<Rightarrow> nat \<Rightarrow> nat \<Rightarrow> bool" where
  "heap_from k a n m \<longleftrightarrow> (\<forall>j<n. 0 < j \<and> m \<le> par j \<longrightarrow> k (a ! par j) \<le> k (a ! j))"

definition up_inv :: "('a \<Rightarrow> int) \<Rightarrow> 'a list \<Rightarrow> nat \<Rightarrow> nat \<Rightarrow> bool" where
  "up_inv k a n i \<longleftrightarrow> (\<forall>j<n. 0 < j \<and> j \<noteq> i \<longrightarrow> k (a ! par j) \<le> k (a ! j)) \<and>
     (0 < i \<longrightarrow> (\<forall>j<n. 0 < j \<and> par j = i \<longrightarrow> k (a ! par i) \<le> k (a ! j)))"

definition down_inv :: "('a \<Rightarrow> int) \<Rightarrow> 'a list \<Rightarrow> nat \<Rightarrow> nat \<Rightarrow> nat \<Rightarrow> bool" where
  "down_inv k a n m i \<longleftrightarrow> m \<le> i \<and> (\<forall>j<n. 0 < j \<and> m \<le> par j \<and> par j \<noteq> i \<longrightarrow> k (a ! par j) \<le> k (a ! j)) \<and>
     (0 < i \<and> m \<le> par i \<longrightarrow> (\<forall>j<n. 0 < j \<and> par j = i \<longrightarrow> k (a ! par i) \<le> k (a ! j)))"

definition swap :: "'a list \<Rightarrow> nat \<Rightarrow> nat \<Rightarrow> 'a list" where
  "swap a i j = a[i := a ! j, j := a ! i]"

lemma length_swap [simp]: "length (swap a i j) = length a"
  by (simp add: swap_def)

lemma swap_nth: "i < length a \<Longrightarrow> j < length a \<Longrightarrow>
  swap a i j ! l = (if l = j then a ! i else if l = i then a ! j else a ! l)"
  by (simp add: swap_def nth_list_update)

lemma mset_take_swap:
  assumes "i < n" and "j < n" and "n \<le> length a"
  shows "mset (take n (swap a i j)) = mset (take n a)"
proof -
  have "take n (swap a i j) = (take n a)[i := take n a ! j, j := take n a ! i]"
    using assms by (simp add: swap_def take_update_swap)
  then show ?thesis
    using assms mset_swap [of j "take n a" i] by simp
qed

lemma drop_swap: "i < n \<Longrightarrow> j < n \<Longrightarrow> drop n (swap a i j) = drop n a"
  by (simp add: swap_def)

lemma up_inv_stop: "up_inv k a n i \<Longrightarrow> (0 < i \<Longrightarrow> k (a ! par i) \<le> k (a ! i)) \<Longrightarrow> heap_from k a n 0"
  unfolding up_inv_def heap_from_def by blast

lemma up_inv_swap:
  assumes "up_inv k a n i" and "0 < i" and "i < n" and "n \<le> length a" and "k (a ! i) < k (a ! par i)"
  shows "up_inv k (swap a i (par i)) n (par i)"
proof -
  have p: "par i < i" "i < length a" "par i < length a"
    using assms(2-4) by auto
  have other: "k (a ! par j) \<le> k (a ! j)" if "j < n" "0 < j" "j \<noteq> i" for j
    using assms(1) that by (simp add: up_inv_def)
  have child: "k (a ! par i) \<le> k (a ! j)" if "j < n" "0 < j" "par j = i" for j
    using assms(1,2) that by (simp add: up_inv_def)
  have "k (swap a i (par i) ! par j) \<le> k (swap a i (par i) ! j)" if j: "j < n" "0 < j" "j \<noteq> par i" for j
  proof (cases "j = i")
    case True
    then show ?thesis
      using p assms(5) by (simp add: swap_nth)
  next
    case False
    then show ?thesis
      using other [OF j(1,2) False] child [OF j(1,2)] j p assms(5) by (auto simp: swap_nth)
  qed
  moreover have "k (swap a i (par i) ! par (par i)) \<le> k (swap a i (par i) ! j)"
    if j: "0 < par i" "j < n" "0 < j" "par j = par i" for j
  proof -
    have "par (par i) < par i"
      using j(1) by linarith
    moreover have "k (a ! par (par i)) \<le> k (a ! par i)"
      using other [of "par i"] j(1) p(1) assms(3) by simp
    moreover have "j \<noteq> i \<Longrightarrow> k (a ! par i) \<le> k (a ! j)"
      using other [OF j(2,3)] j(4) by simp
    moreover have "j \<noteq> par i"
      using j(1,4) by linarith
    ultimately show ?thesis
      using p by (auto simp: swap_nth)
  qed
  ultimately show ?thesis
    by (simp add: up_inv_def)
qed

lemma down_inv_stop:
  "down_inv k a n m i \<Longrightarrow> (\<And>j. j < n \<Longrightarrow> 0 < j \<Longrightarrow> par j = i \<Longrightarrow> k (a ! i) \<le> k (a ! j)) \<Longrightarrow> heap_from k a n m"
  unfolding down_inv_def heap_from_def by metis

text \<open>\<open>c\<close> is the smallest child of \<open>i\<close>.\<close>

lemma down_inv_swap:
  assumes "down_inv k a n m i" and "c < n" and "0 < c" and "par c = i" and "n \<le> length a"
    and "\<And>j. j < n \<Longrightarrow> 0 < j \<Longrightarrow> par j = i \<Longrightarrow> k (a ! c) \<le> k (a ! j)" and "k (a ! c) < k (a ! i)"
  shows "down_inv k (swap a i c) n m c"
proof -
  have p: "i < c" "i < length a" "c < length a"
    using assms(2-5) by auto
  have mi: "m \<le> i"
    using assms(1) by (simp add: down_inv_def)
  have other: "k (a ! par j) \<le> k (a ! j)" if "j < n" "0 < j" "m \<le> par j" "par j \<noteq> i" for j
    using assms(1) that by (simp add: down_inv_def)
  have top: "k (a ! par i) \<le> k (a ! j)" if "0 < i" "m \<le> par i" "j < n" "0 < j" "par j = i" for j
    using assms(1) that by (simp add: down_inv_def)
  have "k (swap a i c ! par j) \<le> k (swap a i c ! j)" if j: "j < n" "0 < j" "m \<le> par j" "par j \<noteq> c" for j
  proof (cases "par j = i")
    case True
    then show ?thesis
      using assms(6) [OF j(1,2) True] assms(7) p j by (auto simp: swap_nth)
  next
    case False
    have "j = i \<Longrightarrow> k (a ! par i) \<le> k (a ! c)"
      using top [of c] j assms(2-4) by simp
    moreover have "j \<noteq> c"
      using False assms(4) by auto
    ultimately show ?thesis
      using other [OF j(1-3) False] j p False by (auto simp: swap_nth)
  qed
  moreover have "k (swap a i c ! par c) \<le> k (swap a i c ! j)" if j: "j < n" "0 < j" "par j = c" for j
  proof -
    have "c < j"
      using j(2,3) p(1) by linarith
    moreover have "k (a ! c) \<le> k (a ! j)"
      using other [OF j(1,2)] j(3) mi p(1) by simp
    ultimately show ?thesis
      using p assms(4) by (auto simp: swap_nth)
  qed
  ultimately show ?thesis
    using mi p(1) by (simp add: down_inv_def)
qed

lemma heap_root_least:
  assumes "heap_from k a n 0" and "i < n"
  shows "k (a ! 0) \<le> k (a ! i)"
  using assms(2)
proof (induction i rule: less_induct)
  case (less i)
  show ?case
  proof (cases "i = 0")
    case False
    then have "k (a ! 0) \<le> k (a ! par i)" "k (a ! par i) \<le> k (a ! i)"
      using less assms(1) by (auto simp: heap_from_def)
    then show ?thesis
      by simp
  qed simp
qed

section \<open>The loops\<close>

definition key :: "heap_timer heap \<Rightarrow> addr \<Rightarrow> int" where
  "key h p = expire (the (h p))"

definition live :: "heap_timer heap \<Rightarrow> addr \<Rightarrow> bool" where
  "live h p \<longleftrightarrow> p \<noteq> NULL \<and> h p \<noteq> None"

lemma deref_key: "live h p \<Longrightarrow> deref expire h p = Some (key h p)"
  by (auto simp: live_def key_def deref_Some)

text \<open>What both loops keep: a permutation of the first \<open>n\<close> pointers.\<close>

definition rearranged :: "nat \<Rightarrow> 'a list \<Rightarrow> 'a list \<Rightarrow> bool" where
  "rearranged n a a' \<longleftrightarrow> length a' = length a \<and> mset (take n a') = mset (take n a) \<and> drop n a' = drop n a"

lemma rearranged_refl [simp]: "rearranged n a a"
  by (simp add: rearranged_def)

lemma rearranged_trans: "rearranged n a b \<Longrightarrow> rearranged n b c \<Longrightarrow> rearranged n a c"
  by (simp add: rearranged_def)

lemma rearranged_swap: "i < n \<Longrightarrow> j < n \<Longrightarrow> n \<le> length a \<Longrightarrow> rearranged n a (swap a i j)"
  by (simp add: rearranged_def mset_take_swap drop_swap)

lemma rearranged_live:
  assumes "rearranged n a a'" and "\<forall>p \<in> set (take n a). live h p"
  shows "\<forall>p \<in> set (take n a'). live h p"
  using assms by (metis rearranged_def mset_eq_setD)

lemma live_nth: "\<forall>p \<in> set (take n a). live h p \<Longrightarrow> i < n \<Longrightarrow> n \<le> length a \<Longrightarrow> live h (a ! i)"
  by (metis in_set_conv_nth length_take min.absorb2 nth_take)

lemma up_loop_ok:
  assumes "hole < n" and "n \<le> length a" and "\<forall>p \<in> set (take n (a[hole := timer])). live h p"
    and "up_inv (key h) (a[hole := timer]) n hole"
  shows "\<exists>a' hole'. up_loop h timer a hole = Some (a', hole') \<and> hole' < length a \<and> length a' = length a \<and>
    heap_from (key h) (a'[hole' := timer]) n 0 \<and> rearranged n (a[hole := timer]) (a'[hole' := timer])"
  using assms
proof (induction hole arbitrary: a rule: less_induct)
  case (less hole)
  let ?b = "a[hole := timer]"
  have len: "n \<le> length ?b" "hole < length a"
    using less.prems(1,2) by simp_all
  have t: "live h timer"
    using live_nth [OF less.prems(3,1) len(1)] len(2) by simp
  show ?case
  proof (cases "hole = 0 \<or> key h (a ! par hole) \<le> key h timer")
    case True
    have "up_loop h timer a hole = Some (a, hole)"
    proof (cases "hole = 0")
      case False
      moreover have "live h (a ! par hole)"
        using live_nth [OF less.prems(3), of "par hole"] less.prems(1,2) False by (simp add: nth_list_update)
      ultimately show ?thesis
        using True less.prems(1,2) t by (subst up_loop.simps) (simp add: aget_def deref_key)
    qed (subst up_loop.simps, simp)
    moreover have "heap_from (key h) ?b n 0"
      using up_inv_stop [OF less.prems(4)] True len(2) by (force simp: nth_list_update)
    ultimately show ?thesis
      using len(2) by simp
  next
    case False
    let ?p = "par hole"
    have p: "?p < hole" "?p \<noteq> hole" "?p < n" "0 < hole"
      using False less.prems(1) by auto
    have live_p: "live h (a ! ?p)"
      using live_nth [OF less.prems(3), of ?p] less.prems(2) p by (simp add: nth_list_update)
    define a1 where "a1 = a[hole := a ! ?p]"
    have sw: "a1[?p := timer] = swap ?b hole ?p"
      using p len(2) by (simp add: a1_def swap_def list_update_swap)
    have step: "up_loop h timer a hole = up_loop h timer a1 ?p"
      using p(4) False less.prems(1,2) p t live_p
      by (subst up_loop.simps) (simp add: aget_def aput_def deref_key a1_def)
    have re: "rearranged n ?b (a1[?p := timer])"
      unfolding sw using rearranged_swap [OF less.prems(1) p(3) len(1)] .
    have "up_inv (key h) (a1[?p := timer]) n ?p"
      unfolding sw using up_inv_swap [OF less.prems(4) p(4) less.prems(1) len(1)] False len(2) p(2) by simp
    with less.IH [OF p(1) p(3), of a1] rearranged_live [OF re less.prems(3)] less.prems(2)
    obtain a' hole' where "up_loop h timer a1 ?p = Some (a', hole')" "hole' < length a1" "length a' = length a1"
        "heap_from (key h) (a'[hole' := timer]) n 0" "rearranged n (a1[?p := timer]) (a'[hole' := timer])"
      by (auto simp: a1_def)
    then show ?thesis
      using step rearranged_trans [OF re] by (auto simp: a1_def)
  qed
qed

text \<open>The child that the loop compares with: the smaller one, the left one on a tie.\<close>

definition min_child :: "('a \<Rightarrow> int) \<Rightarrow> 'a list \<Rightarrow> nat \<Rightarrow> nat \<Rightarrow> nat" where
  "min_child k a n i = (if 2 * i + 2 < n \<and> k (a ! (2 * i + 2)) < k (a ! (2 * i + 1)) then 2 * i + 2 else 2 * i + 1)"

lemma min_child_props:
  assumes "2 * i + 1 < n"
  shows "min_child k a n i < n" "0 < min_child k a n i" "par (min_child k a n i) = i" "i < min_child k a n i"
  using assms by (auto simp: min_child_def)

lemma min_child_least:
  assumes "j < n" and "0 < j" and "par j = i"
  shows "k (a ! min_child k a n i) \<le> k (a ! j)"
proof -
  have "j = 2 * i + 1 \<or> j = 2 * i + 2"
    using assms(2,3) by linarith
  then show ?thesis
    using assms(1) by (auto simp: min_child_def)
qed

lemma down_loop_step:
  assumes "2 * hole + 1 < n" and "n \<le> length a" and "\<forall>j<n. j \<noteq> hole \<longrightarrow> live h (a ! j)" and "live h temp"
  defines "c \<equiv> min_child (key h) a n hole"
  shows "down_loop h temp n a hole =
    (if key h (a ! c) < key h temp then down_loop h temp n (a[hole := a ! c]) c else Some (a, hole))"
proof -
  have "live h (a ! (2 * hole + 1))" "2 * hole + 2 < n \<Longrightarrow> live h (a ! (2 * hole + 2))"
    using assms(1,3) by auto
  then show ?thesis
    using assms(1,2,4)
    by (subst down_loop.simps) (auto simp: aget_def aput_def deref_key c_def min_child_def mult.commute)
qed

lemma down_loop_ok:
  assumes "hole < n" and "n \<le> length a" and "\<forall>p \<in> set (take n (a[hole := temp])). live h p"
    and "down_inv (key h) (a[hole := temp]) n m hole"
  shows "\<exists>a' hole'. down_loop h temp n a hole = Some (a', hole') \<and> hole' < length a \<and> length a' = length a \<and>
    heap_from (key h) (a'[hole' := temp]) n m \<and> rearranged n (a[hole := temp]) (a'[hole' := temp])"
  using assms
proof (induction "n - hole" arbitrary: a hole rule: less_induct)
  case less
  let ?b = "a[hole := temp]"
  have len: "n \<le> length ?b" "hole < length a"
    using less.prems(1,2) by simp_all
  have t: "live h temp"
    using live_nth [OF less.prems(3,1) len(1)] len(2) by simp
  have live_a: "\<forall>j<n. j \<noteq> hole \<longrightarrow> live h (a ! j)"
    using live_nth [OF less.prems(3) _ len(1)] by (metis nth_list_update_neq)
  define c where "c = min_child (key h) a n hole"
  have cb: "c = min_child (key h) ?b n hole"
    by (simp add: c_def min_child_def)
  show ?case
  proof (cases "2 * hole + 1 < n \<and> key h (a ! c) < key h temp")
    case False
    have stop: "down_loop h temp n a hole = Some (a, hole)"
    proof (cases "2 * hole + 1 < n")
      case True
      then show ?thesis
        using down_loop_step [OF True less.prems(2) live_a t] False by (simp add: c_def)
    qed (subst down_loop.simps, simp)
    have "key h (?b ! hole) \<le> key h (?b ! j)" if j: "j < n" "0 < j" "par j = hole" for j
    proof -
      have "2 * hole + 1 < n"
        using j by linarith
      then have "key h temp \<le> key h (?b ! c)" "c \<noteq> hole"
        using False min_child_props(4) [of hole n "key h" a] by (auto simp: c_def)
      then show ?thesis
        using min_child_least [OF j, of "key h" ?b] len(2) by (simp add: cb)
    qed
    then show ?thesis
      using stop down_inv_stop [OF less.prems(4)] len(2) by simp
  next
    case True
    have c: "c < n" "0 < c" "par c = hole" "hole < c"
      using min_child_props [of hole n "key h" a] True by (simp_all add: c_def)
    define a1 where "a1 = a[hole := a ! c]"
    have sw: "a1[c := temp] = swap ?b hole c"
      using c(4) len(2) by (simp add: a1_def swap_def list_update_swap)
    have step: "down_loop h temp n a hole = down_loop h temp n a1 c"
      using down_loop_step [OF _ less.prems(2) live_a t] True by (simp add: c_def a1_def)
    have re: "rearranged n ?b (a1[c := temp])"
      unfolding sw using rearranged_swap [OF less.prems(1) c(1) len(1)] .
    have lt: "key h (?b ! c) < key h (?b ! hole)"
      using True c(4) len(2) by simp
    have least: "\<And>j. j < n \<Longrightarrow> 0 < j \<Longrightarrow> par j = hole \<Longrightarrow> key h (?b ! c) \<le> key h (?b ! j)"
      unfolding cb by (rule min_child_least)
    have "down_inv (key h) (a1[c := temp]) n m c"
      unfolding sw by (rule down_inv_swap [OF less.prems(4) c(1-3) len(1) least lt])
    moreover have "n - c < n - hole" "n \<le> length a1"
      using c(1,4) less.prems(2) by (simp_all add: a1_def)
    ultimately obtain a' hole' where "down_loop h temp n a1 c = Some (a', hole')" "hole' < length a1" "length a' = length a1"
        "heap_from (key h) (a'[hole' := temp]) n m" "rearranged n (a1[c := temp]) (a'[hole' := temp])"
      using less.hyps [of c a1] c(1) rearranged_live [OF re less.prems(3)] by blast
    then show ?thesis
      using step rearranged_trans [OF re] by (auto simp: a1_def)
  qed
qed

lemma percolate_down_ok:
  assumes "hole < n" and "n \<le> length a" and "\<forall>p \<in> set (take n a). live h p" and "heap_from (key h) a n (Suc hole)"
  shows "\<exists>a'. percolate_down h n a hole = Some a' \<and> heap_from (key h) a' n hole \<and> rearranged n a a'"
proof -
  have "down_inv (key h) a n hole hole"
    using assms(4) by (auto simp: down_inv_def heap_from_def)
  then obtain a' hole' where "down_loop h (a ! hole) n a hole = Some (a', hole')" "hole' < length a" "length a' = length a"
      "heap_from (key h) (a'[hole' := a ! hole]) n hole" "rearranged n a (a'[hole' := a ! hole])"
    using down_loop_ok [OF assms(1,2), of "a ! hole" h hole] assms(3) by auto
  then show ?thesis
    using assms(1,2) by (auto simp: percolate_down_def aget_def aput_def)
qed

lemma percolate_down_empty: "hole < length a \<Longrightarrow> percolate_down h 0 a hole = Some a"
  by (simp add: percolate_down_def aget_def aput_def) (subst down_loop.simps, simp)

lemma build_loop_ok:
  assumes "i < n" and "n \<le> length a" and "\<forall>p \<in> set (take n a). live h p" and "heap_from (key h) a n (Suc i)"
  shows "\<exists>a'. build_loop h n a i = Some a' \<and> heap_from (key h) a' n 0 \<and> rearranged n a a'"
  using assms
proof (induction i arbitrary: a)
  case 0
  then show ?case
    using percolate_down_ok [of 0 n a h] by simp
next
  case (Suc i)
  obtain a1 where a1: "percolate_down h n a (Suc i) = Some a1" "heap_from (key h) a1 n (Suc i)" "rearranged n a a1"
    using percolate_down_ok [OF Suc.prems] by blast
  then obtain a' where "build_loop h n a1 i = Some a'" "heap_from (key h) a' n 0" "rearranged n a1 a'"
    using Suc.IH [of a1] Suc.prems rearranged_live [OF a1(3)] by (auto simp: rearranged_def)
  then show ?case
    using a1 rearranged_trans by auto
qed

section \<open>The operations\<close>

text \<open>The invariant: live, distinct timers in heap order in an array of the given capacity.\<close>

definition heap_ok :: "time_heap \<Rightarrow> bool" where
  "heap_ok s \<longleftrightarrow> length (array s) = capacity s \<and> cur_size s \<le> capacity s \<and> 0 < capacity s \<and>
     int (capacity s) \<le> INT_MAX \<and>
     distinct (take (cur_size s) (array s)) \<and> (\<forall>p \<in> set (take (cur_size s) (array s)). live (timers s) p) \<and>
     heap_from (key (timers s)) (array s) (cur_size s) 0"

text \<open>What it stores.\<close>

definition heap_set :: "time_heap \<Rightarrow> addr set" where
  "heap_set s = set (take (cur_size s) (array s))"

lemma heap_set_finite [simp]: "finite (heap_set s)"
  by (simp add: heap_set_def)

lemma rearranged_set: "rearranged n a a' \<Longrightarrow> set (take n a') = set (take n a)"
  by (metis rearranged_def mset_eq_setD)

lemma rearranged_distinct: "rearranged n a a' \<Longrightarrow> distinct (take n a') = distinct (take n a)"
  by (metis rearranged_def mset_eq_imp_distinct_iff)

lemma heap_top:
  assumes "heap_ok s" and "cur_size s \<noteq> 0"
  shows "time_heap_top s = Some (array s ! 0)" and "array s ! 0 \<in> heap_set s" and "live (timers s) (array s ! 0)"
    and "\<forall>p \<in> heap_set s. key (timers s) (array s ! 0) \<le> key (timers s) p"
proof -
  show "time_heap_top s = Some (array s ! 0)"
    using assms by (auto simp: time_heap_top_def heap_ok_def aget_def)
  show 0: "array s ! 0 \<in> heap_set s"
    using assms by (auto simp: heap_set_def heap_ok_def in_set_conv_nth intro!: exI [of _ 0])
  then show "live (timers s) (array s ! 0)"
    using assms(1) by (simp add: heap_ok_def heap_set_def)
  show "\<forall>p \<in> heap_set s. key (timers s) (array s ! 0) \<le> key (timers s) p"
    using assms(1) heap_root_least by (auto simp: heap_set_def in_set_conv_nth heap_ok_def)
qed

lemma resize_ok:
  assumes "heap_ok s" and "new_ok (2 * capacity s)" and "2 * int (capacity s) \<le> INT_MAX"
  shows "\<exists>s'. resize new_ok s = Some (Val s') \<and> heap_ok s' \<and> heap_set s' = heap_set s \<and> cur_size s' = cur_size s \<and>
    timers s' = timers s \<and> calls s' = calls s \<and> capacity s' = 2 * capacity s"
proof -
  have "in_int (2 * int (capacity s))"
    using assms(3) by (simp add: in_int_def INT_MIN_def)
  then have "resize new_ok s = Some (Val (s\<lparr>array := take (cur_size s) (array s) @ replicate (2 * capacity s - cur_size s) NULL,
      capacity := 2 * capacity s\<rparr>))"
    using assms by (simp add: resize_def c_int_in heap_ok_def)
  then show ?thesis
    using assms(1,3) by (auto simp: heap_ok_def heap_set_def heap_from_def nth_append)
qed

lemma add_timer_room:
  assumes "heap_ok s" and "live (timers s) timer" and "timer \<notin> heap_set s" and "cur_size s < capacity s"
  shows "\<exists>s'. add_timer new_ok timer s = Some (Val s') \<and> heap_ok s' \<and> heap_set s' = insert timer (heap_set s) \<and>
    timers s' = timers s \<and> calls s' = calls s \<and> capacity s' = capacity s"
proof -
  let ?n = "cur_size s" and ?k = "key (timers s)"
  let ?b = "(array s)[?n := timer]"
  have s: "length (array s) = capacity s" "distinct (take ?n (array s))" "\<forall>p \<in> set (take ?n (array s)). live (timers s) p"
      "heap_from ?k (array s) ?n 0"
    using assms(1) by (simp_all add: heap_ok_def)
  have b: "take (Suc ?n) ?b = take ?n (array s) @ [timer]"
    using s(1) assms(4) by (simp add: take_Suc_conv_app_nth)
  have "up_inv ?k ?b (Suc ?n) ?n"
  proof -
    have "?k (?b ! par j) \<le> ?k (?b ! j)" if "j < Suc ?n" "0 < j" "j \<noteq> ?n" for j
    proof -
      have "j < ?n" "par j < ?n"
        using that by linarith+
      then show ?thesis
        using s(4) that(2) by (simp add: heap_from_def)
    qed
    moreover have False if "j < Suc ?n" "0 < j" "par j = ?n" for j
      using that by linarith
    ultimately show ?thesis
      by (auto simp: up_inv_def)
  qed
  then obtain a hole where a: "up_loop (timers s) timer (array s) ?n = Some (a, hole)" "hole < capacity s"
      "length a = capacity s" "heap_from ?k (a[hole := timer]) (Suc ?n) 0" "rearranged (Suc ?n) ?b (a[hole := timer])"
    using up_loop_ok [of ?n "Suc ?n" "array s" timer "timers s"] assms(2,4) s(1,3) b by auto
  then have "add_timer new_ok timer s = Some (Val (s\<lparr>array := a[hole := timer], cur_size := Suc ?n\<rparr>))"
    using assms(2,4) by (simp add: add_timer_def aput_def live_def)
  moreover have "set (take (Suc ?n) (a[hole := timer])) = insert timer (heap_set s)"
    "distinct (take (Suc ?n) (a[hole := timer]))"
    using rearranged_set [OF a(5)] rearranged_distinct [OF a(5)] b s(2) assms(3) by (simp_all add: heap_set_def)
  ultimately show ?thesis
    using a s assms by (simp add: heap_ok_def heap_set_def)
qed

lemma add_timer_ok:
  assumes "heap_ok s" and "live (timers s) timer" and "timer \<notin> heap_set s" and "new_ok (2 * capacity s)"
    and "2 * int (capacity s) \<le> INT_MAX"
  shows "\<exists>s'. add_timer new_ok timer s = Some (Val s') \<and> heap_ok s' \<and> heap_set s' = insert timer (heap_set s) \<and>
    timers s' = timers s \<and> calls s' = calls s"
proof (cases "cur_size s < capacity s")
  case True
  then show ?thesis
    using add_timer_room [OF assms(1-3), of new_ok] by blast
next
  case False
  obtain s1 where s1: "resize new_ok s = Some (Val s1)" "heap_ok s1" "heap_set s1 = heap_set s" "cur_size s1 = cur_size s"
      "timers s1 = timers s" "calls s1 = calls s" "capacity s1 = 2 * capacity s"
    using resize_ok [where new_ok = new_ok, OF assms(1,4,5)] by blast
  have "cur_size s1 < capacity s1"
    using assms(1) s1(4,7) by (simp add: heap_ok_def)
  moreover have "timer \<noteq> NULL"
    using assms(2) by (simp add: live_def)
  then have "add_timer new_ok timer s = add_timer new_ok timer s1"
    using False s1(1) \<open>cur_size s1 < capacity s1\<close> by (simp add: add_timer_def)
  ultimately show ?thesis
    using add_timer_room [OF s1(2), of timer new_ok] assms(2,3) s1 by auto
qed

lemma key_free [simp]: "q \<noteq> p \<Longrightarrow> key (h(p := None)) q = key h q"
  by (simp add: key_def)

lemma live_free [simp]: "q \<noteq> p \<Longrightarrow> live (h(p := None)) q = live h q"
  by (simp add: live_def)

lemma c_free_live: "live h p \<Longrightarrow> c_free h p = Some (h(p := None))"
  by (auto simp: live_def c_free_def)

text \<open>Moving the last pointer to the root and dropping the old root.\<close>

lemma take_move_last:
  assumes "Suc n \<le> length a" and "0 < n"
  obtains ys where "take (Suc n) a = a ! 0 # ys @ [a ! n]" and "take n (a[0 := a ! n]) = a ! n # ys"
proof
  show "take (Suc n) a = a ! 0 # take (n - 1) (tl a) @ [a ! n]" "take n (a[0 := a ! n]) = a ! n # take (n - 1) (tl a)"
    using assms by (cases a; cases n; simp add: take_Suc_conv_app_nth)+
qed

lemma pop_timer_ok:
  assumes "heap_ok s" and "cur_size s \<noteq> 0"
  shows "\<exists>s'. pop_timer s = Some s' \<and> heap_ok s' \<and> heap_set s' = heap_set s - {array s ! 0} \<and>
    timers s' = (timers s)(array s ! 0 := None) \<and> calls s' = calls s \<and> cur_size s' = cur_size s - 1"
proof -
  obtain n where n: "cur_size s = Suc n"
    using assms(2) not0_implies_Suc by blast
  let ?a = "array s" and ?p = "array s ! 0"
  let ?h = "(timers s)(?p := None)" and ?b = "?a[0 := ?a ! n]"
  have s: "length ?a = capacity s" "Suc n \<le> length ?a" "distinct (take (Suc n) ?a)"
      "\<forall>p \<in> set (take (Suc n) ?a). live (timers s) p" "heap_from (key (timers s)) ?a (Suc n) 0"
    using assms(1) n by (simp_all add: heap_ok_def)
  have p: "live (timers s) ?p" "?p \<noteq> NULL"
    using heap_top(3) [OF assms] by (auto simp: live_def)
  have "\<exists>a. percolate_down ?h n ?b 0 = Some a \<and> heap_from (key ?h) a n 0 \<and> rearranged n ?b a \<and>
    set (take n ?b) = set (take (Suc n) ?a) - {?p} \<and> distinct (take n ?b)"
  proof (cases "n = 0")
    case True
    then have "take (Suc n) ?a = [?p]"
      using s(2) by (cases ?a) simp_all
    then show ?thesis
      using True percolate_down_empty [OF Suc_le_lessD, of 0 ?a ?h] s(2) by (auto simp: heap_from_def intro!: exI [of _ ?a])
  next
    case False
    then obtain ys where ys: "take (Suc n) ?a = ?p # ys @ [?a ! n]" "take n ?b = ?a ! n # ys"
      using take_move_last [OF s(2)] by auto
    then have d: "set (take n ?b) = set (take (Suc n) ?a) - {?p}" "distinct (take n ?b)"
      using s(3) by auto
    have ne: "?a ! j \<noteq> ?p" if "0 < j" "j < Suc n" for j
      using s(2,3) that nth_eq_iff_index_eq [of "take (Suc n) ?a" j 0] by simp
    have "heap_from (key ?h) ?b n (Suc 0)"
      unfolding heap_from_def
    proof (intro allI impI)
      fix j assume j: "j < n" "0 < j \<and> Suc 0 \<le> par j"
      then have "par j < Suc n" "0 < par j"
        by linarith+
      then show "key ?h (?b ! par j) \<le> key ?h (?b ! j)"
        using j s(5) ne by (simp add: heap_from_def)
    qed
    moreover have "\<forall>p \<in> set (take n ?b). live ?h p"
      using d(1) s(4) by auto
    ultimately show ?thesis
      using percolate_down_ok [of 0 n ?b ?h] False s(2) d by auto
  qed
  then obtain a where a: "percolate_down ?h n ?b 0 = Some a" "heap_from (key ?h) a n 0" "rearranged n ?b a"
      "set (take n ?b) = set (take (Suc n) ?a) - {?p}" "distinct (take n ?b)"
    by (elim exE conjE)
  note b = rearranged_set [OF a(3)] rearranged_distinct [OF a(3)]
  have "pop_timer s = Some (s\<lparr>array := a, cur_size := n, timers := ?h\<rparr>)"
    using a(1) p n s(2) by (auto simp: pop_timer_def aget_def aput_def c_free_live)
  moreover have "heap_ok (s\<lparr>array := a, cur_size := n, timers := ?h\<rparr>)"
  proof -
    have "length a = capacity s" "\<forall>p \<in> set (take n a). live ?h p"
      using a(3) s(1,4) unfolding b(1) a(4) by (auto simp: rearranged_def)
    then show ?thesis
      using a(2,5) b(2) n assms(1) by (simp add: heap_ok_def)
  qed
  moreover have "heap_set (s\<lparr>array := a, cur_size := n, timers := ?h\<rparr>) = heap_set s - {?p}"
    using a(4) b(1) n by (simp add: heap_set_def)
  ultimately show ?thesis
    by (simp add: n)
qed

text \<open>The call that a timer stands for.\<close>

definition call_of :: "heap_timer heap \<Rightarrow> addr \<Rightarrow> (nat \<times> nat) option" where
  "call_of h p = map_option (\<lambda>f. (f, user_data (the (h p)))) (cb_func (the (h p)))"

lemma call_of_free [simp]: "q \<noteq> p \<Longrightarrow> call_of (h(p := None)) q = call_of h q"
  by (simp add: call_of_def)

text \<open>One round of the loop of \<^verbatim>\<open>tick\<close>.\<close>

lemma tick_loop_round:
  assumes "heap_ok s" and "cur_size s \<noteq> 0" and "key (timers s) (array s ! 0) \<le> cur"
  shows "\<exists>s'. tick_loop cur (array s ! 0) s = tick_loop cur (array s' ! 0) s' \<and> heap_ok s' \<and>
    heap_set s' = heap_set s - {array s ! 0} \<and> timers s' = (timers s)(array s ! 0 := None) \<and>
    calls s' = calls s @ List.map_filter (call_of (timers s)) [array s ! 0] \<and> cur_size s' = cur_size s - 1"
proof -
  let ?p = "array s ! 0"
  obtain t where t: "timers s ?p = Some t" "?p \<noteq> NULL"
    using heap_top(3) [OF assms(1,2)] by (auto simp: live_def)
  let ?s = "case cb_func t of Some f \<Rightarrow> s\<lparr>calls := calls s @ [(f, user_data t)]\<rparr> | None \<Rightarrow> s"
  have same: "array ?s = array s" "cur_size ?s = cur_size s" "timers ?s = timers s" "heap_set ?s = heap_set s" "heap_ok ?s"
    using assms(1) by (auto simp: heap_set_def heap_ok_def split: option.splits)
  then obtain s' where s': "pop_timer ?s = Some s'" "heap_ok s'" "heap_set s' = heap_set s - {?p}"
      "timers s' = (timers s)(?p := None)" "calls s' = calls ?s" "cur_size s' = cur_size s - 1"
    using pop_timer_ok [of ?s] assms(2) unfolding same by blast
  have len: "0 < length (array s)" "0 < length (array s')"
    using assms(1) s'(2) by (simp_all add: heap_ok_def)
  have "tick_loop cur ?p s = tick_loop cur (array s' ! 0) s'"
    by (subst tick_loop.simps) (use assms(2,3) t len s'(1) in \<open>simp add: deref_Some aget_def key_def\<close>)
  moreover have "calls ?s = calls s @ List.map_filter (call_of (timers s)) [?p]"
    by (simp add: map_filter_simps call_of_def t split: option.splits)
  ultimately show ?thesis
    using s' by auto
qed

text \<open>The timers \<open>ts\<close> are exactly those due in \<open>s\<close>, in order, and \<open>s'\<close> is what remains after their callbacks.\<close>

definition taken :: "int \<Rightarrow> time_heap \<Rightarrow> time_heap \<Rightarrow> nat list \<Rightarrow> bool" where
  "taken cur s s' ts \<longleftrightarrow> heap_ok s' \<and> distinct ts \<and>
    set ts = {p \<in> heap_set s. key (timers s) p \<le> cur} \<and> sorted (map (key (timers s)) ts) \<and>
    heap_set s' = heap_set s - set ts \<and> timers s' = timers s |` (- set ts) \<and>
    calls s' = calls s @ List.map_filter (call_of (timers s)) ts"

lemma taken_none: "heap_ok s \<Longrightarrow> {p \<in> heap_set s. key (timers s) p \<le> cur} = {} \<Longrightarrow> taken cur s s []"
  by (auto simp: taken_def map_filter_simps)

lemma taken_first:
  assumes top: "p \<in> heap_set s" "\<forall>q \<in> heap_set s. key (timers s) p \<le> key (timers s) q" "key (timers s) p \<le> cur"
    and s1: "heap_set s1 = heap_set s - {p}" "timers s1 = (timers s)(p := None)" "calls s1 = calls s @ List.map_filter (call_of (timers s)) [p]"
    and s': "taken cur s1 s' ts"
  shows "taken cur s s' (p # ts)"
proof -
  have t: "heap_ok s'" "distinct ts" "set ts = {q \<in> heap_set s1. key (timers s1) q \<le> cur}" "sorted (map (key (timers s1)) ts)"
      "heap_set s' = heap_set s1 - set ts" "timers s' = timers s1 |` (- set ts)" "calls s' = calls s1 @ List.map_filter (call_of (timers s1)) ts"
    using s' by (auto simp: taken_def)
  have new: "\<forall>q \<in> set ts. q \<noteq> p"
    using t(3) s1(1) by auto
  have "key (timers s1) q = key (timers s) q" if "q \<noteq> p" for q
    using that by (simp add: s1(2))
  then have "set (p # ts) = {p \<in> heap_set s. key (timers s) p \<le> cur}"
    unfolding list.set t(3) s1(1) using top(1,3) by auto
  moreover have "map (key (timers s1)) ts = map (key (timers s)) ts"
    using new s1(2) by simp
  then have "sorted (map (key (timers s)) (p # ts))"
    using t(4) top(2) by (simp del: map_eq_conv) (use t(3) s1(1) in blast)
  moreover have "List.map_filter (call_of (timers s1)) ts = List.map_filter (call_of (timers s)) ts"
    using new s1(2) by (intro map_filter_eqI) simp
  then have "calls s' = calls s @ List.map_filter (call_of (timers s)) (p # ts)"
    using t(7) s1(3) by (simp add: map_filter_def)
  moreover have "timers s' = timers s |` (- set (p # ts))"
    using t(6) s1(2) by (auto simp: restrict_map_def)
  ultimately show ?thesis
    using t(1,2,5) s1(1) new by (auto simp: taken_def)
qed

lemma tick_loop_taken: "heap_ok s \<Longrightarrow> \<exists>s' ts. tick_loop cur (array s ! 0) s = Some s' \<and> taken cur s s' ts"
proof (induction "cur_size s" arbitrary: s rule: less_induct)
  case less
  let ?p = "array s ! 0"
  consider "cur_size s = 0" | "cur_size s \<noteq> 0" "cur < key (timers s) ?p" | "cur_size s \<noteq> 0" "key (timers s) ?p \<le> cur"
    by linarith
  then show ?case
  proof cases
    case 1
    then have "tick_loop cur ?p s = Some s" "heap_set s = {}"
      by (simp_all add: tick_loop.simps heap_set_def)
    then show ?thesis
      using taken_none [OF less.prems] by auto
  next
    case 2
    then have "tick_loop cur ?p s = Some s"
      using heap_top(3) [OF less.prems 2(1)] by (subst tick_loop.simps) (auto simp: live_def deref_Some key_def)
    moreover have "{p \<in> heap_set s. key (timers s) p \<le> cur} = {}"
      using heap_top(4) [OF less.prems 2(1)] 2(2) by fastforce
    ultimately show ?thesis
      using taken_none [OF less.prems] by blast
  next
    case 3
    obtain s1 where s1: "tick_loop cur ?p s = tick_loop cur (array s1 ! 0) s1" "heap_ok s1" "heap_set s1 = heap_set s - {?p}"
        "timers s1 = (timers s)(?p := None)" "calls s1 = calls s @ List.map_filter (call_of (timers s)) [?p]"
        "cur_size s1 = cur_size s - 1"
      using tick_loop_round [OF less.prems 3] by blast
    then obtain s' ts where s': "tick_loop cur (array s1 ! 0) s1 = Some s'" "taken cur s1 s' ts"
      using less.hyps [OF _ s1(2)] 3(1) by fastforce
    then show ?thesis
      using taken_first [OF heap_top(2,4) [OF less.prems 3(1)] 3(2) s1(3-5) s'(2)] s1(1) by auto
  qed
qed

lemma tick_loop_ok:
  assumes "heap_ok s"
  shows "\<exists>s' ts. tick_loop cur (array s ! 0) s = Some s' \<and> heap_ok s' \<and> distinct ts \<and>
    set ts = {p \<in> heap_set s. key (timers s) p \<le> cur} \<and> sorted (map (key (timers s)) ts) \<and>
    heap_set s' = heap_set s - set ts \<and> timers s' = timers s |` (- set ts) \<and>
    calls s' = calls s @ List.map_filter (call_of (timers s)) ts"
  using tick_loop_taken [OF assms, of cur] unfolding taken_def by blast

lemma tick_frees:
  assumes "heap_ok s"
  shows "\<exists>s' ts. tick cur s = Some s' \<and> heap_ok s' \<and> distinct ts \<and>
    set ts = {p \<in> heap_set s. key (timers s) p \<le> cur} \<and> sorted (map (key (timers s)) ts) \<and>
    heap_set s' = heap_set s - set ts \<and> timers s' = timers s |` (- set ts) \<and>
    calls s' = calls s @ List.map_filter (call_of (timers s)) ts"
proof -
  have "tick cur s = tick_loop cur (array s ! 0) s"
    using assms by (auto simp: tick_def aget_def heap_ok_def)
  then show ?thesis
    using tick_loop_ok [OF assms] by simp
qed

lemma add_timer_Val:
  assumes "heap_ok s" and "live (timers s) timer" and "timer \<notin> heap_set s" and "add_timer new_ok timer s = Some (Val s')"
  shows "heap_ok s' \<and> heap_set s' = insert timer (heap_set s) \<and> timers s' = timers s \<and> calls s' = calls s"
proof (cases "cur_size s < capacity s")
  case True
  then show ?thesis
    using add_timer_room [OF assms(1-3), of new_ok] assms(4) by auto
next
  case False
  then have "2 * int (capacity s) \<le> INT_MAX" "new_ok (2 * capacity s)"
    using assms(2,4) by (auto simp: add_timer_def resize_def live_def c_int_def in_int_def bind_eq_Some_conv split: if_splits)
  then show ?thesis
    using add_timer_ok [OF assms(1-3), of new_ok] assms(4) by auto
qed

lemma add_timer_returns:
  assumes "heap_ok s" and "live (timers s) timer" and "timer \<notin> heap_set s" and "2 * int (capacity s) \<le> INT_MAX"
  shows "\<exists>r. add_timer new_ok timer s = Some r"
proof (cases "cur_size s < capacity s \<or> new_ok (2 * capacity s)")
  case True
  then show ?thesis
    using add_timer_room [OF assms(1-3), of new_ok] add_timer_ok [OF assms(1-3) _ assms(4), of new_ok] by auto
next
  case False
  then have "resize new_ok s = Some Throw"
    using assms(4) by (simp add: resize_def c_int_in in_int_def INT_MIN_def)
  then show ?thesis
    using False by (simp add: add_timer_def)
qed

lemma del_timer_ok:
  assumes "heap_ok s" and "live (timers s) timer"
  shows "\<exists>s'. del_timer timer s = Some s' \<and> heap_ok s' \<and> heap_set s' = heap_set s \<and> calls s' = calls s \<and>
    key (timers s') = key (timers s) \<and> call_of (timers s') = (call_of (timers s))(timer := None)"
proof -
  obtain t where t: "timers s timer = Some t" "timer \<noteq> NULL"
    using assms(2) by (auto simp: live_def)
  let ?h = "(timers s)(timer \<mapsto> t\<lparr>cb_func := None\<rparr>)"
  have "del_timer timer s = Some (s\<lparr>timers := ?h\<rparr>)"
    using t by (simp add: del_timer_def store_Some)
  moreover have h: "key ?h = key (timers s)" "live ?h = live (timers s)" "call_of ?h = (call_of (timers s))(timer := None)"
    using t by (auto simp: key_def live_def call_of_def fun_eq_iff)
  ultimately show ?thesis
    using assms(1) by (simp add: heap_ok_def heap_set_def)
qed

lemma time_heap_new_ok:
  assumes "time_heap_new new_ok cap h = Val s" and "0 < cap" and "cap \<le> INT_MAX"
  shows "heap_ok s \<and> heap_set s = {}"
  using assms by (auto simp: time_heap_new_def heap_ok_def heap_set_def heap_from_def split: if_splits)

lemma time_heap_init_heap:
  assumes "n \<le> cap" and "0 < cap" and "int cap \<le> INT_MAX" and "new_ok cap" and "n \<le> length ps" and "distinct (take n ps)"
    and "\<forall>p \<in> set (take n ps). live h p"
  shows "\<exists>s. time_heap_init new_ok ps n cap h = Some (Val s) \<and> heap_ok s \<and> heap_set s = set (take n ps) \<and>
    timers s = h \<and> calls s = []"
proof -
  let ?a = "take n ps @ replicate (cap - n) NULL"
  have len: "length ?a = cap" "n \<le> length ?a" "take n ?a = take n ps"
    using assms(1,5) by auto
  have "\<exists>a. (if n \<noteq> 0 then build_loop h n ?a ((n - 1) div 2) else Some ?a) = Some a \<and> heap_from (key h) a n 0 \<and> rearranged n ?a a"
  proof (cases "n = 0")
    case True
    then show ?thesis
      by (simp add: heap_from_def)
  next
    case False
    have "heap_from (key h) ?a n (Suc ((n - 1) div 2))"
      unfolding heap_from_def by (intro allI impI) (elim conjE, linarith)
    then show ?thesis
      using build_loop_ok [of "(n - 1) div 2" n ?a h] False len assms(7) by auto
  qed
  then obtain a where a: "(if n \<noteq> 0 then build_loop h n ?a ((n - 1) div 2) else Some ?a) = Some a"
      "heap_from (key h) a n 0" "rearranged n ?a a"
    by (elim exE conjE)
  then have "time_heap_init new_ok ps n cap h =
      Some (Val \<lparr>array = a, capacity = cap, cur_size = n, timers = h, calls = []\<rparr>)"
    using assms(1,4,5) by (simp add: time_heap_init_def)
  moreover have "length a = cap" "set (take n a) = set (take n ps)" "distinct (take n a)"
    using rearranged_set [OF a(3)] rearranged_distinct [OF a(3)] a(3) len assms(6) by (simp_all add: rearranged_def)
  ultimately show ?thesis
    using a(2) assms by (simp add: heap_ok_def heap_set_def)
qed

lemma delete_all_ok:
  "distinct ps \<Longrightarrow> \<forall>p \<in> set ps. live h p \<Longrightarrow> delete_all ps h = Some (h |` (- set ps))"
proof (induction ps arbitrary: h)
  case Nil
  then show ?case
    by (simp add: restrict_map_def)
next
  case (Cons p ps)
  have "\<forall>q \<in> set ps. live (h(p := None)) q"
    using Cons.prems by (auto simp: live_def)
  then have "delete_all (p # ps) h = Some (h(p := None) |` (- set ps))"
    using Cons by (simp add: c_free_live del: restrict_fun_upd)
  then show ?case
    by (simp add: restrict_map_def fun_eq_iff del: restrict_fun_upd)
qed

section \<open>The contract\<close>

definition can_add :: "addr \<Rightarrow> time_heap \<Rightarrow> bool" where
  "can_add p s \<longleftrightarrow> live (timers s) p \<and> p \<notin> heap_set s \<and> 2 * int (capacity s) \<le> INT_MAX"

text \<open>\<^verbatim>\<open>add_timer\<close> of a client that never runs out of memory.\<close>

definition add_ample :: "addr \<Rightarrow> time_heap \<Rightarrow> time_heap option" where
  "add_ample p s = (case add_timer (\<lambda>_. True) p s of Some (Val s') \<Rightarrow> Some s' | _ \<Rightarrow> None)"

interpretation th: timer_container heap_ok heap_set "\<lambda>s. key (timers s)" "\<lambda>s. call_of (timers s)" calls can_add add_ample tick
proof
  fix s p
  assume "heap_ok s" and "can_add p s"
  then show "\<exists>s'. add_ample p s = Some s' \<and> heap_ok s' \<and> heap_set s' = insert p (heap_set s) \<and> calls s' = calls s \<and>
      (\<forall>q \<in> heap_set s'. key (timers s') q = key (timers s) q \<and> call_of (timers s') q = call_of (timers s) q)"
    using add_timer_ok [of s p "\<lambda>_. True"] by (auto simp: add_ample_def can_add_def)
next
  fix s cur
  assume "heap_ok s"
  from tick_frees [OF this, of cur] obtain s' ts where t: "tick cur s = Some s'" "heap_ok s'" "distinct ts"
      "set ts = {p \<in> heap_set s. key (timers s) p \<le> cur}" "sorted (map (key (timers s)) ts)"
      "heap_set s' = heap_set s - set ts" "timers s' = timers s |` (- set ts)"
      "calls s' = calls s @ List.map_filter (call_of (timers s)) ts"
    by (elim exE conjE)
  then have "\<forall>q \<in> heap_set s'. key (timers s') q = key (timers s) q \<and> call_of (timers s') q = call_of (timers s) q"
    by (simp add: key_def call_of_def)
  with t show "\<exists>s' ts. tick cur s = Some s' \<and> heap_ok s' \<and> distinct ts \<and> set ts = {p \<in> heap_set s. key (timers s) p \<le> cur} \<and>
      sorted (map (key (timers s)) ts) \<and> heap_set s' = heap_set s - set ts \<and>
      calls s' = calls s @ List.map_filter (call_of (timers s)) ts \<and>
      (\<forall>q \<in> heap_set s'. key (timers s') q = key (timers s) q \<and> call_of (timers s') q = call_of (timers s) q)"
    by blast
qed

text \<open>
  What a client can do with a heap: create it, create timer objects, add one that is not
  stored, cancel one, pop, and tick.
\<close>

inductive heap_reach :: "(nat \<Rightarrow> bool) \<Rightarrow> time_heap \<Rightarrow> bool" for new_ok where
  new: "time_heap_new new_ok cap h = Val s \<Longrightarrow> cap \<le> INT_MAX \<Longrightarrow> heap_reach new_ok s"
| init: "time_heap_init new_ok ps n cap h = Some (Val s) \<Longrightarrow> int cap \<le> INT_MAX \<Longrightarrow> distinct (take n ps) \<Longrightarrow>
    \<forall>p \<in> set (take n ps). live h p \<Longrightarrow> heap_reach new_ok s"
| timer: "heap_reach new_ok s \<Longrightarrow> timers s p = None \<Longrightarrow> heap_reach new_ok (s\<lparr>timers := (timers s)(p \<mapsto> t)\<rparr>)"
| add: "heap_reach new_ok s \<Longrightarrow> live (timers s) p \<Longrightarrow> p \<notin> heap_set s \<Longrightarrow> add_timer new_ok p s = Some (Val s') \<Longrightarrow>
    heap_reach new_ok s'"
| del: "heap_reach new_ok s \<Longrightarrow> live (timers s) p \<Longrightarrow> del_timer p s = Some s' \<Longrightarrow> heap_reach new_ok s'"
| pop: "heap_reach new_ok s \<Longrightarrow> pop_timer s = Some s' \<Longrightarrow> heap_reach new_ok s'"
| tick: "heap_reach new_ok s \<Longrightarrow> tick cur s = Some s' \<Longrightarrow> heap_reach new_ok s'"

lemma heap_ok_new_timer:
  assumes "heap_ok s" and "timers s p = None"
  shows "heap_ok (s\<lparr>timers := (timers s)(p \<mapsto> t)\<rparr>)"
proof -
  let ?h = "(timers s)(p \<mapsto> t)"
  have live: "\<forall>q \<in> set (take (cur_size s) (array s)). live (timers s) q" and n: "cur_size s \<le> length (array s)"
    using assms(1) by (auto simp: heap_ok_def)
  then have same: "\<forall>q \<in> set (take (cur_size s) (array s)). q \<noteq> p"
    using assms(2) by (auto simp: live_def)
  have "key ?h (array s ! j) = key (timers s) (array s ! j)" if "j < cur_size s" for j
  proof -
    have "array s ! j \<in> set (take (cur_size s) (array s))"
      using that n by (auto simp: in_set_conv_nth)
    then show ?thesis
      using same by (auto simp: key_def)
  qed
  moreover have "par j < cur_size s" if "j < cur_size s" for j
    using that by linarith
  ultimately have "heap_from (key ?h) (array s) (cur_size s) 0"
    using assms(1) by (simp add: heap_ok_def heap_from_def)
  moreover have "\<forall>q \<in> set (take (cur_size s) (array s)). live ?h q"
    using live same by (simp add: live_def)
  ultimately show ?thesis
    using assms(1) by (simp add: heap_ok_def)
qed

text \<open>A heap that was created without room for a timer never gets any.\<close>

definition no_room :: "time_heap \<Rightarrow> bool" where
  "no_room s \<longleftrightarrow> capacity s = 0 \<and> array s = [] \<and> cur_size s = 0"

lemma no_room_ops:
  assumes "no_room s"
  shows "tick cur s = None" and "pop_timer s = Some s" and "heap_set s = {}" and "time_heap_delete s = Some (timers s)"
    and "p \<noteq> NULL \<Longrightarrow> add_timer new_ok p s = (if new_ok 0 then None else Some Throw)"
proof -
  have s: "capacity s = 0" "array s = []" "cur_size s = 0"
    using assms by (simp_all add: no_room_def)
  show "tick cur s = None" "pop_timer s = Some s" "heap_set s = {}" "time_heap_delete s = Some (timers s)"
    using s by (simp_all add: tick_def aget_def pop_timer_def heap_set_def time_heap_delete_def)
  have "up_loop h p [] 0 = Some ([], 0)" for h
    by (subst up_loop.simps) simp
  then show "add_timer new_ok p s = (if new_ok 0 then None else Some Throw)" if "p \<noteq> NULL"
    using s that by (simp add: add_timer_def resize_def c_int_def in_int_def INT_MIN_def INT_MAX_def aput_def)
qed

lemma heap_reach_ok: "heap_reach new_ok s \<Longrightarrow> heap_ok s \<or> no_room s"
proof (induction rule: heap_reach.induct)
  case (new cap h s)
  then show ?case
    using time_heap_new_ok [of new_ok cap h s] by (cases "cap = 0") (auto simp: time_heap_new_def no_room_def split: if_splits)
next
  case (init ps n cap h s)
  then have "n \<le> cap" "new_ok cap" "n \<le> length ps"
    by (auto simp: time_heap_init_def c_assert_def split: if_splits)
  then show ?case
    using time_heap_init_heap [of n cap new_ok ps h] init
    by (cases "cap = 0") (auto simp: time_heap_init_def no_room_def)
next
  case (timer s p t)
  then show ?case
    using heap_ok_new_timer by (auto simp: no_room_def)
next
  case (add s p s')
  then have "p \<noteq> NULL"
    by (auto simp: live_def)
  then show ?case
    using add add_timer_Val no_room_ops(5) [of s p new_ok] by (auto split: if_splits)
next
  case (del s p s')
  then show ?case
    using del_timer_ok [of s p] by (auto simp: no_room_def del_timer_def split: if_splits bind_splits)
next
  case (pop s s')
  then show ?case
    using pop_timer_ok [of s] no_room_ops(2) [of s]
    by (cases "cur_size s = 0") (auto simp: pop_timer_def no_room_def)
next
  case (tick s cur s')
  then show ?case
    using tick_frees [of s cur] no_room_ops(1) by auto
qed

section \<open>Properties\<close>

text \<open>A heap with two timers, for the concrete runs.\<close>

definition sample_heap :: time_heap where
  "sample_heap = \<lparr>array = [8, 16, NULL], capacity = 3, cur_size = 2,
     timers = [8 \<mapsto> \<lparr>expire = 5, cb_func = Some 1, user_data = 100\<rparr>, 16 \<mapsto> \<lparr>expire = 7, cb_func = Some 2, user_data = 200\<rparr>],
     calls = []\<rparr>"

lemma sample_heap_ok: "heap_ok sample_heap"
  by (simp add: sample_heap_def heap_ok_def INT_MAX_def live_def heap_from_def key_def numeral_2_eq_2 All_less_Suc)

text \<open>
  C17: whatever times the event loop ticks at, as long as the clock does not run backwards,
  every stored timer fires exactly once, by the first tick that is not before its expiry
  and never earlier, and the callbacks run in the order of the expiry times.
\<close>

theorem heap_ticks_fire_once:
  assumes "heap_ok s" and "sorted cs"
  shows "\<exists>s' ts. ticks tick cs s = Some s' \<and> heap_ok s' \<and> distinct ts \<and>
    set ts = {p \<in> heap_set s. \<exists>c \<in> set cs. key (timers s) p \<le> c} \<and> sorted (map (key (timers s)) ts) \<and>
    heap_set s' = heap_set s - set ts \<and> calls s' = calls s @ List.map_filter (call_of (timers s)) ts"
  using th.ticks_fire [OF assms] .

theorem heap_ticks_fire_once_witness:
  "\<exists>s' ts. ticks tick [4, 6] sample_heap = Some s' \<and> distinct ts \<and>
    set ts = {p \<in> heap_set sample_heap. \<exists>c \<in> {4, 6}. key (timers sample_heap) p \<le> c}"
  using heap_ticks_fire_once [OF sample_heap_ok, of "[4, 6]"] by auto

text \<open>
  C16: in every state a client can reach, from either constructor with any capacity, by creating, adding and
  cancelling timers, popping and ticking: if the capacity is not 0, the array is a heap of live, distinct timers and
  no operation touches memory it must not: ticking and popping return, adding returns or
  throws unless the doubled capacity would leave the range of int. With capacity 0 the heap stays empty and
  every tick, and every addition unless it throws, accesses memory outside the array. In both cases the destructor frees
  exactly the stored timers.
\<close>

theorem heap_reach_safe:
  assumes "heap_reach new_ok s"
  shows "(if capacity s = 0
      then heap_set s = {} \<and> tick cur s = None \<and> pop_timer s = Some s \<and>
        (live (timers s) p \<longrightarrow> add_timer new_ok p s = (if new_ok 0 then None else Some Throw))
      else heap_ok s \<and> (\<exists>s'. tick cur s = Some s') \<and> (\<exists>s'. pop_timer s = Some s') \<and>
        (can_add p s \<longrightarrow> (\<exists>r. add_timer new_ok p s = Some r))) \<and>
    time_heap_delete s = Some (timers s |` (- heap_set s))"
  using heap_reach_ok [OF assms]
proof
  assume ok: "heap_ok s"
  have "time_heap_delete s = Some (timers s |` (- heap_set s))" "capacity s \<noteq> 0"
    using ok delete_all_ok by (simp_all add: time_heap_delete_def heap_ok_def heap_set_def)
  moreover have "\<exists>s'. pop_timer s = Some s'"
    using pop_timer_ok [OF ok] by (cases "cur_size s = 0") (auto simp: pop_timer_def)
  moreover have "\<exists>s'. tick cur s = Some s'"
    using tick_frees [OF ok] by blast
  moreover have "\<exists>r. add_timer new_ok p s = Some r" if "can_add p s"
    using add_timer_returns [OF ok] that by (auto simp: can_add_def)
  ultimately show ?thesis
    using ok by simp
next
  assume "no_room s"
  note ops = no_room_ops [OF this]
  have "capacity s = 0" "p \<noteq> NULL" if "live (timers s) p"
    using \<open>no_room s\<close> that by (auto simp: no_room_def live_def)
  then show ?thesis
    using ops \<open>no_room s\<close> by (simp add: no_room_def restrict_map_def)
qed

theorem heap_reach_safe_witness:
  "(\<exists>s. heap_reach (\<lambda>_. True) s \<and> heap_ok s \<and> (\<exists>s'. tick 3 s = Some s')) \<and> (\<exists>s. heap_reach (\<lambda>_. True) s \<and> tick 3 s = None)"
proof -
  let ?s = "\<lambda>n. \<lparr>array = replicate n NULL, capacity = n, cur_size = 0, timers = Map.empty, calls = []\<rparr>"
  have "heap_reach (\<lambda>_. True) (?s 3)" "heap_reach (\<lambda>_. True) (?s 0)"
    by (rule heap_reach.new [of _ 3 Map.empty] heap_reach.new [of _ 0 Map.empty]; simp add: time_heap_new_def INT_MAX_def)+
  then show ?thesis
    using heap_reach_safe [of "\<lambda>_. True" "?s 3" 3 8] heap_reach_safe [of "\<lambda>_. True" "?s 0" 3 8] by fastforce
qed

text \<open>
  Cancelling is lazy. A cancelled timer keeps its place, so the heap stays in order; its
  callback never runs, and the tick that finds it due frees it with the others.
\<close>

theorem heap_del_lazy:
  assumes "heap_ok s" and "p \<in> heap_set s" and "key (timers s) p \<le> cur"
  shows "\<exists>s1 s2 ts. del_timer p s = Some s1 \<and> heap_ok s1 \<and> heap_set s1 = heap_set s \<and> tick cur s1 = Some s2 \<and>
    p \<notin> heap_set s2 \<and> timers s2 p = None \<and> set ts = {q \<in> heap_set s. key (timers s) q \<le> cur} \<and>
    calls s2 = calls s @ List.map_filter ((call_of (timers s))(p := None)) ts"
proof -
  have "live (timers s) p"
    using assms(1,2) by (simp add: heap_ok_def heap_set_def)
  then obtain s1 where s1: "del_timer p s = Some s1" "heap_ok s1" "heap_set s1 = heap_set s" "calls s1 = calls s"
      "key (timers s1) = key (timers s)" "call_of (timers s1) = (call_of (timers s))(p := None)"
    using del_timer_ok [OF assms(1)] by blast
  obtain s2 ts where s2: "tick cur s1 = Some s2" "set ts = {q \<in> heap_set s1. key (timers s1) q \<le> cur}"
      "heap_set s2 = heap_set s1 - set ts" "timers s2 = timers s1 |` (- set ts)"
      "calls s2 = calls s1 @ List.map_filter (call_of (timers s1)) ts"
    using tick_frees [OF s1(2), of cur] by (elim exE conjE)
  have "p \<in> set ts"
    using s2(2) s1(3,5) assms(2,3) by simp
  then have "p \<notin> heap_set s2" "timers s2 p = None"
    using s2(3,4) by auto
  then show ?thesis
    using s1 s2 by auto
qed

theorem heap_del_lazy_witness:
  "\<exists>s1 s2. del_timer 8 sample_heap = Some s1 \<and> tick 6 s1 = Some s2 \<and> 8 \<notin> heap_set s2 \<and> timers s2 8 = None"
  using heap_del_lazy [OF sample_heap_ok, of 8 6] by (auto simp: sample_heap_def heap_set_def key_def)

end
