(* ===== verification/Timer_Links.thy ===== *)
theory Timer_Links
  imports C_Prelude
begin

text \<open>
  Doubly linked lists in memory, for any node type with two link fields. The sorted list
  and the slots of the wheel both chain their timers this way.
\<close>

text \<open>\<open>dseg\<close>: the nodes \<open>xs\<close> in order, with \<open>p\<close> before the first and \<open>q\<close> after the last.\<close>

fun dseg :: "('n \<Rightarrow> addr) \<Rightarrow> ('n \<Rightarrow> addr) \<Rightarrow> 'n heap \<Rightarrow> addr \<Rightarrow> addr list \<Rightarrow> addr \<Rightarrow> bool" where
  "dseg nxt prv h p [] q \<longleftrightarrow> True"
| "dseg nxt prv h p (x # xs) q \<longleftrightarrow> x \<noteq> NULL \<and>
     (case h x of None \<Rightarrow> False | Some n \<Rightarrow> prv n = p \<and> nxt n = hd (xs @ [q])) \<and> dseg nxt prv h x xs q"

lemma dseg_append:
  "dseg nxt prv h p (xs @ ys) q \<longleftrightarrow> dseg nxt prv h p xs (hd (ys @ [q])) \<and> dseg nxt prv h (last (p # xs)) ys q"
  by (induction xs arbitrary: p) (auto simp: hd_append split: option.splits)

lemma dseg_cong:
  "\<forall>x \<in> set xs. h' x = h x \<Longrightarrow> dseg nxt prv h' p xs q = dseg nxt prv h p xs q"
  by (induction xs arbitrary: p) simp_all

lemma dseg_other [simp]: "x \<notin> set xs \<Longrightarrow> dseg nxt prv (h(x := v)) p xs q = dseg nxt prv h p xs q"
  by (rule dseg_cong) auto

lemma dseg_live: "dseg nxt prv h p xs q \<Longrightarrow> x \<in> set xs \<Longrightarrow> x \<noteq> NULL \<and> (\<exists>n. h x = Some n)"
  by (induction xs arbitrary: p) (auto split: option.splits)

lemma dseg_NULL: "dseg nxt prv h p xs q \<Longrightarrow> NULL \<notin> set xs"
  using dseg_live by fastforce

lemma dseg_nextD: "dseg nxt prv h p (x # xs) q \<Longrightarrow> x \<noteq> NULL \<and> (\<exists>n. h x = Some n \<and> prv n = p \<and> nxt n = hd (xs @ [q]))"
  by (auto split: option.splits)

text \<open>The nodes are determined by the first link.\<close>

lemma dseg_unique:
  assumes "dseg nxt prv h p xs NULL" and "dseg nxt prv h p' ys NULL" and "hd (xs @ [NULL]) = hd (ys @ [NULL])"
  shows "xs = ys"
  using assms
proof (induction xs arbitrary: p p' ys)
  case Nil
  then show ?case
    by (cases ys) auto
next
  case (Cons x xs)
  then show ?case
    by (cases ys) (auto split: option.splits)
qed

text \<open>What the record type of the nodes provides.\<close>

locale link_fields =
  fixes nxt prv :: "'n \<Rightarrow> addr" and set_nxt set_prv :: "addr \<Rightarrow> 'n \<Rightarrow> 'n"
  assumes nxt_set [simp]: "nxt (set_nxt a n) = a" "nxt (set_prv a n) = nxt n"
    and prv_set [simp]: "prv (set_prv a n) = a" "prv (set_nxt a n) = prv n"
begin

lemma relink_last:
  assumes "dseg nxt prv h p (xs @ [a]) q" and "distinct (xs @ [a])" and "h a = Some n"
  shows "dseg nxt prv (h(a \<mapsto> set_nxt q' n)) p (xs @ [a]) q'"
  using assms by (auto simp: dseg_append)

lemma relink_first:
  assumes "dseg nxt prv h p (b # xs) q" and "distinct (b # xs)" and "h b = Some n"
  shows "dseg nxt prv (h(b \<mapsto> set_prv p' n)) p' (b # xs) q"
  using assms by auto

text \<open>Linking a node that is in no list between two neighbours.\<close>

lemma link_between:
  assumes "dseg nxt prv h p (xs @ a # b # ys) q" and "distinct (xs @ a # b # ys)" and "x \<notin> set (xs @ a # b # ys)"
    and "x \<noteq> NULL" and "h a = Some na" and "h b = Some nb" and "nxt nx = b" and "prv nx = a"
  shows "dseg nxt prv (h(a \<mapsto> set_nxt x na, b \<mapsto> set_prv x nb, x \<mapsto> nx)) p (xs @ a # x # b # ys) q"
  using assms by (auto simp: dseg_append)

lemma link_last:
  assumes "dseg nxt prv h p (xs @ [a]) NULL" and "distinct (xs @ [a])" and "x \<notin> set (xs @ [a])" and "x \<noteq> NULL"
    and "h a = Some na" and "nxt nx = NULL" and "prv nx = a"
  shows "dseg nxt prv (h(a \<mapsto> set_nxt x na, x \<mapsto> nx)) p (xs @ [a, x]) NULL"
  using assms by (auto simp: dseg_append)

lemma link_first:
  assumes "dseg nxt prv h NULL (b # ys) q" and "distinct (b # ys)" and "x \<notin> set (b # ys)" and "x \<noteq> NULL"
    and "h b = Some nb" and "nxt nx = b" and "prv nx = NULL"
  shows "dseg nxt prv (h(b \<mapsto> set_prv x nb, x \<mapsto> nx)) NULL (x # b # ys) q"
  using assms by auto

text \<open>Unlinking a node in the middle; the node itself may keep any value or be freed.\<close>

lemma unlink_between:
  assumes "dseg nxt prv h p (xs @ a # x # b # ys) q" and "distinct (xs @ a # x # b # ys)" and "h a = Some na" and "h b = Some nb"
  shows "dseg nxt prv (h(a \<mapsto> set_nxt b na, b \<mapsto> set_prv a nb, x := v)) p (xs @ a # b # ys) q"
  using assms by (auto simp: dseg_append)

lemma unlink_last:
  assumes "dseg nxt prv h p (xs @ [a, x]) q" and "distinct (xs @ [a, x])" and "h a = Some na"
  shows "dseg nxt prv (h(a \<mapsto> set_nxt q na, x := v)) p (xs @ [a]) q"
  using assms by (auto simp: dseg_append)

lemma unlink_first:
  assumes "dseg nxt prv h p (x # b # ys) q" and "distinct (x # b # ys)" and "h b = Some nb"
  shows "dseg nxt prv (h(b \<mapsto> set_prv p nb, x := v)) p (b # ys) q"
  using assms by auto

end

end
