(* ===== verification/Timer_List.thy ===== *)
theory Timer_List
  imports Timer_Spec Timer_Links
begin

text \<open>
  The sorted timer list of \<^verbatim>\<open>codes/11/11-2lst_timer.h\<close>: a doubly linked list in ascending
  order of the expiry times. \<open>None\<close> is undefined behaviour, which includes calling a NULL
  callback.
\<close>

section \<open>State and operations\<close>

record util_timer =
  expire :: int
  cb_func :: "nat option"
  user_data :: nat
  prevp :: addr
  nextp :: addr

record sort_timer_lst =
  head :: addr
  tail :: addr
  nodes :: "util_timer heap"
  calls :: "(nat \<times> nat) list"

definition set_next :: "addr \<Rightarrow> addr \<Rightarrow> sort_timer_lst \<Rightarrow> sort_timer_lst option" where
  "set_next p v s = map_option (\<lambda>h. s\<lparr>nodes := h\<rparr>) (store (nextp_update (\<lambda>_. v)) (nodes s) p)"

definition set_prev :: "addr \<Rightarrow> addr \<Rightarrow> sort_timer_lst \<Rightarrow> sort_timer_lst option" where
  "set_prev p v s = map_option (\<lambda>h. s\<lparr>nodes := h\<rparr>) (store (prevp_update (\<lambda>_. v)) (nodes s) p)"

definition delete :: "addr \<Rightarrow> sort_timer_lst \<Rightarrow> sort_timer_lst option" where
  "delete p s = map_option (\<lambda>h. s\<lparr>nodes := h\<rparr>) (c_free (nodes s) p)"

definition sort_timer_lst_new :: "util_timer heap \<Rightarrow> sort_timer_lst" where
  "sort_timer_lst_new h = \<lparr>head = NULL, tail = NULL, nodes = h, calls = []\<rparr>"

text \<open>The private \<^verbatim>\<open>add_timer\<close>: the loop with the two ways out of it.\<close>

partial_function (option) add_loop :: "addr \<Rightarrow> addr \<Rightarrow> addr \<Rightarrow> sort_timer_lst \<Rightarrow> sort_timer_lst option" where
  "add_loop timer prev tmp s =
     (if tmp \<noteq> NULL then do {
        et \<leftarrow> deref expire (nodes s) timer;
        em \<leftarrow> deref expire (nodes s) tmp;
        (if et < em then do {
           s \<leftarrow> set_next prev timer s;
           s \<leftarrow> set_next timer tmp s;
           s \<leftarrow> set_prev tmp timer s;
           set_prev timer prev s }
         else do {
           nx \<leftarrow> deref nextp (nodes s) tmp;
           add_loop timer tmp nx s }) }
      else do {
        s \<leftarrow> set_next prev timer s;
        s \<leftarrow> set_prev timer prev s;
        s \<leftarrow> set_next timer NULL s;
        Some (s\<lparr>tail := timer\<rparr>) })"

definition add_timer_after :: "addr \<Rightarrow> addr \<Rightarrow> sort_timer_lst \<Rightarrow> sort_timer_lst option" where
  "add_timer_after timer lst_head s = do {
     tmp \<leftarrow> deref nextp (nodes s) lst_head;
     add_loop timer lst_head tmp s }"

definition add_timer :: "addr \<Rightarrow> sort_timer_lst \<Rightarrow> sort_timer_lst option" where
  "add_timer timer s =
     (if timer = NULL then Some s
      else if head s = NULL then Some (s\<lparr>head := timer, tail := timer\<rparr>)
      else do {
        et \<leftarrow> deref expire (nodes s) timer;
        eh \<leftarrow> deref expire (nodes s) (head s);
        (if et < eh then do {
           s \<leftarrow> set_next timer (head s) s;
           s \<leftarrow> set_prev (head s) timer s;
           Some (s\<lparr>head := timer\<rparr>) }
         else add_timer_after timer (head s) s) })"

definition adjust_timer :: "addr \<Rightarrow> sort_timer_lst \<Rightarrow> sort_timer_lst option" where
  "adjust_timer timer s =
     (if timer = NULL then Some s
      else do {
        tmp \<leftarrow> deref nextp (nodes s) timer;
        in_order \<leftarrow>
          (if tmp = NULL then Some True
           else do { et \<leftarrow> deref expire (nodes s) timer; em \<leftarrow> deref expire (nodes s) tmp; Some (et < em) });
        (if in_order then Some s
         else if timer = head s then do {
           nx \<leftarrow> deref nextp (nodes s) (head s);
           s \<leftarrow> Some (s\<lparr>head := nx\<rparr>);
           s \<leftarrow> set_prev (head s) NULL s;
           s \<leftarrow> set_next timer NULL s;
           add_timer_after timer (head s) s }
         else do {
           pv \<leftarrow> deref prevp (nodes s) timer;
           nx \<leftarrow> deref nextp (nodes s) timer;
           s \<leftarrow> set_next pv nx s;
           nx \<leftarrow> deref nextp (nodes s) timer;
           pv \<leftarrow> deref prevp (nodes s) timer;
           s \<leftarrow> set_prev nx pv s;
           nx \<leftarrow> deref nextp (nodes s) timer;
           add_timer_after timer nx s }) })"

definition del_timer :: "addr \<Rightarrow> sort_timer_lst \<Rightarrow> sort_timer_lst option" where
  "del_timer timer s =
     (if timer = NULL then Some s
      else if timer = head s \<and> timer = tail s then do {
        s \<leftarrow> delete timer s;
        Some (s\<lparr>head := NULL, tail := NULL\<rparr>) }
      else if timer = head s then do {
        nx \<leftarrow> deref nextp (nodes s) (head s);
        s \<leftarrow> Some (s\<lparr>head := nx\<rparr>);
        s \<leftarrow> set_prev (head s) NULL s;
        delete timer s }
      else if timer = tail s then do {
        pv \<leftarrow> deref prevp (nodes s) (tail s);
        s \<leftarrow> Some (s\<lparr>tail := pv\<rparr>);
        s \<leftarrow> set_next (tail s) NULL s;
        delete timer s }
      else do {
        pv \<leftarrow> deref prevp (nodes s) timer;
        nx \<leftarrow> deref nextp (nodes s) timer;
        s \<leftarrow> set_next pv nx s;
        nx \<leftarrow> deref nextp (nodes s) timer;
        pv \<leftarrow> deref prevp (nodes s) timer;
        s \<leftarrow> set_prev nx pv s;
        delete timer s })"

partial_function (option) tick_loop :: "int \<Rightarrow> addr \<Rightarrow> sort_timer_lst \<Rightarrow> sort_timer_lst option" where
  "tick_loop cur tmp s =
     (if tmp \<noteq> NULL then do {
        e \<leftarrow> deref expire (nodes s) tmp;
        (if cur < e then Some s
         else do {
           cb \<leftarrow> deref cb_func (nodes s) tmp;
           f \<leftarrow> cb;
           ud \<leftarrow> deref user_data (nodes s) tmp;
           s \<leftarrow> Some (s\<lparr>calls := calls s @ [(f, ud)]\<rparr>);
           nx \<leftarrow> deref nextp (nodes s) tmp;
           s \<leftarrow> Some (s\<lparr>head := nx\<rparr>);
           s \<leftarrow> (if head s \<noteq> NULL then set_prev (head s) NULL s else Some s);
           s \<leftarrow> delete tmp s;
           tick_loop cur (head s) s }) }
      else Some s)"

text \<open>\<open>cur\<close> is the answer of \<^verbatim>\<open>time\<close>.\<close>

definition tick :: "int \<Rightarrow> sort_timer_lst \<Rightarrow> sort_timer_lst option" where
  "tick cur s = (if head s = NULL then Some s else tick_loop cur (head s) s)"

text \<open>The loop of the destructor.\<close>

partial_function (option) delete_loop :: "addr \<Rightarrow> sort_timer_lst \<Rightarrow> sort_timer_lst option" where
  "delete_loop tmp s =
     (if tmp \<noteq> NULL then do {
        nx \<leftarrow> deref nextp (nodes s) tmp;
        s \<leftarrow> delete tmp (s\<lparr>head := nx\<rparr>);
        delete_loop (head s) s }
      else Some s)"

definition sort_timer_lst_delete :: "sort_timer_lst \<Rightarrow> sort_timer_lst option" where
  "sort_timer_lst_delete s = delete_loop (head s) s"

section \<open>Representation\<close>

abbreviation chain :: "util_timer heap \<Rightarrow> addr \<Rightarrow> addr list \<Rightarrow> addr \<Rightarrow> bool" where
  "chain \<equiv> dseg nextp prevp"

interpretation ut: link_fields nextp prevp "\<lambda>a. nextp_update (\<lambda>_. a)" "\<lambda>a. prevp_update (\<lambda>_. a)"
  by unfold_locales simp_all

text \<open>What a timer holds beside its links; no operation changes it.\<close>

definition data :: "util_timer heap \<Rightarrow> addr \<Rightarrow> (int \<times> nat option \<times> nat) option" where
  "data h p = map_option (\<lambda>n. (expire n, cb_func n, user_data n)) (h p)"

definition key :: "util_timer heap \<Rightarrow> addr \<Rightarrow> int" where
  "key h p = fst (the (data h p))"

definition call_of :: "util_timer heap \<Rightarrow> addr \<Rightarrow> (nat \<times> nat) option" where
  "call_of h p = (case data h p of Some (_, Some f, u) \<Rightarrow> Some (f, u) | _ \<Rightarrow> None)"

definition links :: "sort_timer_lst \<Rightarrow> addr list \<Rightarrow> bool" where
  "links s xs \<longleftrightarrow> chain (nodes s) NULL xs NULL \<and> distinct xs \<and> head s = hd (xs @ [NULL]) \<and>
     (xs \<noteq> [] \<longrightarrow> tail s = last xs) \<and> (\<forall>x \<in> set xs. call_of (nodes s) x \<noteq> None)"

definition rep :: "sort_timer_lst \<Rightarrow> addr list \<Rightarrow> bool" where
  "rep s xs \<longleftrightarrow> links s xs \<and> sorted (map (key (nodes s)) xs)"

text \<open>The specification of an insertion: before the first that expires later.\<close>

fun ins :: "('a \<Rightarrow> int) \<Rightarrow> 'a \<Rightarrow> 'a list \<Rightarrow> 'a list" where
  "ins k x [] = [x]"
| "ins k x (y # ys) = (if k x < k y then x # y # ys else y # ins k x ys)"

lemma set_ins [simp]: "set (ins k x ys) = insert x (set ys)"
  by (induction ys) auto

lemma distinct_ins [simp]: "distinct (ins k x ys) \<longleftrightarrow> x \<notin> set ys \<and> distinct ys"
  by (induction ys) auto

lemma ins_not_Nil [simp]: "ins k x ys \<noteq> []"
  by (cases ys) auto

lemma sorted_ins: "sorted (map k ys) \<Longrightarrow> sorted (map k (ins k x ys))"
  by (induction ys) auto

lemma data_upd [simp]:
  "h p = Some n \<Longrightarrow> data (h(p \<mapsto> nextp_update f n)) = data h"
  "h p = Some n \<Longrightarrow> data (h(p \<mapsto> prevp_update f n)) = data h"
  by (auto simp: data_def fun_eq_iff)

lemma data_same: "data h' = data h \<Longrightarrow> key h' = key h" "data h' = data h \<Longrightarrow> call_of h' = call_of h"
  by (simp_all add: key_def call_of_def fun_eq_iff)

lemma key_Some: "h p = Some n \<Longrightarrow> key h p = expire n"
  by (simp add: key_def data_def)

lemma lst_set_next_Some [c_simps]:
  "p \<noteq> NULL \<Longrightarrow> nodes s p = Some n \<Longrightarrow> set_next p v s = Some (s\<lparr>nodes := (nodes s)(p \<mapsto> n\<lparr>nextp := v\<rparr>)\<rparr>)"
  by (simp add: set_next_def store_Some)

lemma lst_set_prev_Some [c_simps]:
  "p \<noteq> NULL \<Longrightarrow> nodes s p = Some n \<Longrightarrow> set_prev p v s = Some (s\<lparr>nodes := (nodes s)(p \<mapsto> n\<lparr>prevp := v\<rparr>)\<rparr>)"
  by (simp add: set_prev_def store_Some)

lemma lst_delete_Some [c_simps]:
  "p \<noteq> NULL \<Longrightarrow> nodes s p = Some n \<Longrightarrow> delete p s = Some (s\<lparr>nodes := (nodes s)(p := None)\<rparr>)"
  by (simp add: delete_def c_free_Some)

section \<open>Insertion\<close>

lemma add_loop_break:
  assumes "chain (nodes s) NULL (xs @ a # b # ys) NULL" and "distinct (xs @ a # b # ys)" and "timer \<notin> set (xs @ a # b # ys)"
    and "timer \<noteq> NULL" and "nodes s timer = Some t" and "key (nodes s) timer < key (nodes s) b"
  shows "\<exists>h. add_loop timer a b s = Some (s\<lparr>nodes := h\<rparr>) \<and> chain h NULL (xs @ a # timer # b # ys) NULL \<and> data h = data (nodes s)"
proof -
  obtain na nb where n: "a \<noteq> NULL" "nodes s a = Some na" "b \<noteq> NULL" "nodes s b = Some nb"
    using dseg_live [OF assms(1), of a] dseg_live [OF assms(1), of b] by auto
  have ne: "a \<noteq> b" "timer \<noteq> a" "timer \<noteq> b"
    using assms(2,3) by auto
  let ?h = "(nodes s)(a \<mapsto> na\<lparr>nextp := timer\<rparr>, b \<mapsto> nb\<lparr>prevp := timer\<rparr>, timer \<mapsto> t\<lparr>nextp := b, prevp := a\<rparr>)"
  have "expire t < expire nb"
    using assms(5,6) n(4) by (simp add: key_Some)
  then have "add_loop timer a b s = Some (s\<lparr>nodes := ?h\<rparr>)"
    by (subst add_loop.simps) (use assms(4,5) n ne in \<open>simp add: c_simps fun_upd_twist [of b timer]\<close>)
  moreover have "chain ?h NULL (xs @ a # timer # b # ys) NULL"
    using ut.link_between [OF assms(1-4) n(2,4)] by simp
  moreover have "data ?h = data (nodes s)"
    using n assms(5) ne by (auto simp: data_def fun_eq_iff)
  ultimately show ?thesis
    by blast
qed

lemma add_loop_end:
  assumes "chain (nodes s) NULL (xs @ [a]) NULL" and "distinct (xs @ [a])" and "timer \<notin> set (xs @ [a])"
    and "timer \<noteq> NULL" and "nodes s timer = Some t"
  shows "\<exists>h. add_loop timer a NULL s = Some (s\<lparr>nodes := h, tail := timer\<rparr>) \<and> chain h NULL (xs @ [a, timer]) NULL \<and>
    data h = data (nodes s)"
proof -
  obtain na where n: "a \<noteq> NULL" "nodes s a = Some na"
    using dseg_live [OF assms(1), of a] by auto
  have ne: "timer \<noteq> a"
    using assms(3) by auto
  let ?h = "(nodes s)(a \<mapsto> na\<lparr>nextp := timer\<rparr>, timer \<mapsto> t\<lparr>prevp := a, nextp := NULL\<rparr>)"
  have "add_loop timer a NULL s = Some (s\<lparr>nodes := ?h, tail := timer\<rparr>)"
    by (subst add_loop.simps) (use assms(4,5) n ne in \<open>simp add: c_simps\<close>)
  moreover have "chain ?h NULL (xs @ [a, timer]) NULL"
    using ut.link_last [OF assms(1-4) n(2)] by simp
  moreover have "data ?h = data (nodes s)"
    using n assms(5) ne by (auto simp: data_def fun_eq_iff)
  ultimately show ?thesis
    by blast
qed

lemma add_loop_ok:
  assumes "chain (nodes s) NULL (xs @ a # ys) NULL" and "distinct (xs @ a # ys)" and "timer \<notin> set (xs @ a # ys)"
    and "timer \<noteq> NULL" and "nodes s timer = Some t" and "tail s = last (a # ys)"
  shows "\<exists>h. add_loop timer a (hd (ys @ [NULL])) s = Some (s\<lparr>nodes := h, tail := last (ins (key (nodes s)) timer ys)\<rparr>) \<and>
    chain h NULL (xs @ a # ins (key (nodes s)) timer ys) NULL \<and> data h = data (nodes s)"
  using assms
proof (induction ys arbitrary: xs a)
  case Nil
  then show ?case
    using add_loop_end [of s xs a timer t] by simp
next
  case (Cons b ys)
  show ?case
  proof (cases "key (nodes s) timer < key (nodes s) b")
    case True
    have "s\<lparr>nodes := h, tail := last (timer # b # ys)\<rparr> = s\<lparr>nodes := h\<rparr>" for h
      using Cons.prems(6) by (cases s) simp
    then show ?thesis
      using add_loop_break [OF Cons.prems(1-5) True] True by simp
  next
    case False
    obtain nb where n: "b \<noteq> NULL" "nodes s b = Some nb" "nextp nb = hd (ys @ [NULL])"
      using Cons.prems(1) by (auto simp: dseg_append split: option.splits)
    then have "\<not> expire t < expire nb"
      using False Cons.prems(5) by (simp add: key_Some)
    then have "add_loop timer a b s = add_loop timer b (hd (ys @ [NULL])) s"
      by (subst add_loop.simps) (use Cons.prems(4,5) n in \<open>simp add: c_simps\<close>)
    then show ?thesis
      using Cons.IH [of "xs @ [a]" b] Cons.prems False by simp
  qed
qed

lemma add_timer_after_links:
  assumes "links s (xs @ a # ys)" and "timer \<notin> set (xs @ a # ys)" and "timer \<noteq> NULL" and "call_of (nodes s) timer \<noteq> None"
  shows "\<exists>s'. add_timer_after timer a s = Some s' \<and> links s' (xs @ a # ins (key (nodes s)) timer ys) \<and>
    data (nodes s') = data (nodes s) \<and> calls s' = calls s"
proof -
  let ?zs = "xs @ a # ins (key (nodes s)) timer ys"
  have s: "chain (nodes s) NULL (xs @ a # ys) NULL" "distinct (xs @ a # ys)" "tail s = last (a # ys)"
      "head s = hd (xs @ [a])" "\<forall>x \<in> set (xs @ a # ys). call_of (nodes s) x \<noteq> None"
    using assms(1) by (auto simp: links_def hd_append split: if_splits)
  obtain t where t: "nodes s timer = Some t"
    using assms(4) by (auto simp: call_of_def data_def split: option.splits)
  obtain h where h: "add_loop timer a (hd (ys @ [NULL])) s = Some (s\<lparr>nodes := h, tail := last (ins (key (nodes s)) timer ys)\<rparr>)"
      "chain h NULL ?zs NULL" "data h = data (nodes s)"
    using add_loop_ok [OF s(1,2) assms(2,3) t s(3)] by blast
  have "deref nextp (nodes s) a = Some (hd (ys @ [NULL]))"
    using s(1) by (auto simp: dseg_append deref_Some split: option.splits)
  then have "add_timer_after timer a s = Some (s\<lparr>nodes := h, tail := last (ins (key (nodes s)) timer ys)\<rparr>)"
    using h(1) by (simp add: add_timer_after_def)
  moreover have "distinct ?zs" "head s = hd (?zs @ [NULL])" "\<forall>x \<in> set ?zs. call_of h x \<noteq> None"
    using s(2,4,5) assms(2,4) data_same(2) [OF h(3)] by (auto simp: hd_append)
  ultimately show ?thesis
    using h(2,3) by (simp add: links_def)
qed

text \<open>A timer object as its constructor leaves it, with its callback set.\<close>

definition unlinked :: "addr \<Rightarrow> sort_timer_lst \<Rightarrow> bool" where
  "unlinked p s \<longleftrightarrow> p \<noteq> NULL \<and> call_of (nodes s) p \<noteq> None \<and>
     (case nodes s p of None \<Rightarrow> False | Some t \<Rightarrow> prevp t = NULL \<and> nextp t = NULL)"

lemma lst_add_timer_rep:
  assumes "rep s xs" and "unlinked timer s" and "timer \<notin> set xs"
  shows "\<exists>s'. add_timer timer s = Some s' \<and> rep s' (ins (key (nodes s)) timer xs) \<and> data (nodes s') = data (nodes s) \<and>
    calls s' = calls s"
proof -
  let ?k = "key (nodes s)"
  obtain t where t: "timer \<noteq> NULL" "nodes s timer = Some t" "prevp t = NULL" "nextp t = NULL" "call_of (nodes s) timer \<noteq> None"
    using assms(2) by (auto simp: unlinked_def split: option.splits)
  have sorted: "sorted (map ?k (ins ?k timer xs))"
    using assms(1) sorted_ins by (auto simp: rep_def)
  have "\<exists>s'. add_timer timer s = Some s' \<and> links s' (ins ?k timer xs) \<and> data (nodes s') = data (nodes s) \<and> calls s' = calls s"
  proof (cases xs)
    case Nil
    then show ?thesis
      using assms(1) t by (auto simp: add_timer_def rep_def links_def)
  next
    case (Cons b ys)
    have l: "links s (b # ys)" "chain (nodes s) NULL (b # ys) NULL" "distinct (b # ys)" "head s = b"
      using assms(1) Cons by (auto simp: rep_def links_def)
    obtain nb where n: "b \<noteq> NULL" "nodes s b = Some nb"
      using dseg_live [OF l(2), of b] by auto
    show ?thesis
    proof (cases "?k timer < ?k b")
      case True
      let ?h = "(nodes s)(b \<mapsto> nb\<lparr>prevp := timer\<rparr>, timer \<mapsto> t\<lparr>nextp := b\<rparr>)"
      have ne: "timer \<noteq> b"
        using True by auto
      then have "add_timer timer s = Some (s\<lparr>nodes := ?h, head := timer\<rparr>)"
        using True t n l(4) by (simp add: add_timer_def c_simps key_Some fun_upd_twist [of b timer])
      moreover have "chain ?h NULL (timer # b # ys) NULL"
        by (rule ut.link_first [OF l(2,3) _ t(1) n(2)]) (use assms(3) Cons t(3) in simp_all)
      moreover have d: "data ?h = data (nodes s)"
        using n t(2) ne by (auto simp: data_def fun_eq_iff)
      ultimately show ?thesis
        using l(1) True Cons assms(3) t(5) data_same(2) [OF d] by (simp add: links_def)
    next
      case False
      then have "add_timer timer s = add_timer_after timer b s"
        using t n l(4) by (simp add: add_timer_def c_simps key_Some)
      then show ?thesis
        using add_timer_after_links [of s "[]" b ys timer] l(1) Cons assms(3) t(1,5) False by simp
    qed
  qed
  then obtain s' where s': "add_timer timer s = Some s'" "links s' (ins ?k timer xs)" "data (nodes s') = data (nodes s)"
      "calls s' = calls s"
    by blast
  then show ?thesis
    using sorted data_same(1) [OF s'(3)] by (simp add: rep_def)
qed

section \<open>Removal\<close>

lemma links_node:
  assumes "links s (xs @ p # ys)"
  obtains n where "p \<noteq> NULL" and "nodes s p = Some n" and "prevp n = last (NULL # xs)" and "nextp n = hd (ys @ [NULL])"
  using assms by (auto simp: links_def dseg_append split: option.splits if_splits)

lemma lst_data_free: "data (h(p := None)) = (data h)(p := None)"
  by (auto simp: data_def fun_eq_iff)

lemma lst_call_of_free: "call_of (h(p := None)) = (call_of h)(p := None)"
  by (auto simp: call_of_def lst_data_free fun_eq_iff)

lemma call_of_links [simp]:
  "h p = Some n \<Longrightarrow> call_of (h(p \<mapsto> nextp_update f n)) = call_of h"
  "h p = Some n \<Longrightarrow> call_of (h(p \<mapsto> prevp_update f n)) = call_of h"
  by (rule data_same(2), simp)+

lemma del_timer_links:
  assumes "links s (xs @ p # ys)"
  shows "\<exists>s'. del_timer p s = Some s' \<and> links s' (xs @ ys) \<and> data (nodes s') = (data (nodes s))(p := None) \<and> calls s' = calls s"
proof -
  obtain n where n: "p \<noteq> NULL" "nodes s p = Some n" "prevp n = last (NULL # xs)" "nextp n = hd (ys @ [NULL])"
    using links_node [OF assms] .
  have s: "chain (nodes s) NULL (xs @ p # ys) NULL" "distinct (xs @ p # ys)" "head s = hd (xs @ [p])" "tail s = last (p # ys)"
      "\<forall>x \<in> set (xs @ p # ys). call_of (nodes s) x \<noteq> None"
    using assms by (auto simp: links_def hd_append split: if_splits)
  consider "xs = []" "ys = []" | b zs where "xs = []" "ys = b # zs" | a as where "xs = as @ [a]" "ys = []"
    | a as b zs where "xs = as @ [a]" "ys = b # zs"
    by (cases xs rule: rev_cases; cases ys) auto
  then show ?thesis
  proof cases
    case 1
    then show ?thesis
      using n s by (auto simp: del_timer_def c_simps links_def lst_data_free)
  next
    case (2 b zs)
    obtain m where m: "b \<noteq> NULL" "nodes s b = Some m"
      using dseg_live [OF s(1), of b] 2 by auto
    have "p \<noteq> last (b # zs)" "p \<noteq> b"
      using s(2) 2 by auto
    then have "del_timer p s = Some (s\<lparr>head := b, nodes := (nodes s)(b \<mapsto> m\<lparr>prevp := NULL\<rparr>, p := None)\<rparr>)"
      using n m s(3,4) 2 by (simp add: del_timer_def c_simps)
    moreover have "chain ((nodes s)(b \<mapsto> m\<lparr>prevp := NULL\<rparr>, p := None)) NULL (b # zs) NULL"
      by (rule ut.unlink_first) (use s(1,2) 2 m(2) in simp_all)
    ultimately show ?thesis
      using 2 m(2) s by (auto simp: links_def lst_data_free lst_call_of_free simp del: dseg.simps)
  next
    case (3 a as)
    obtain m where m: "a \<noteq> NULL" "nodes s a = Some m"
      using dseg_live [OF s(1), of a] 3 by auto
    have "p \<noteq> head s" "p \<noteq> a"
      using s(2,3) 3 by (auto simp: hd_append)
    then have "del_timer p s = Some (s\<lparr>tail := a, nodes := (nodes s)(a \<mapsto> m\<lparr>nextp := NULL\<rparr>, p := None)\<rparr>)"
      using n m s(4) 3 by (simp add: del_timer_def c_simps)
    moreover have "chain ((nodes s)(a \<mapsto> m\<lparr>nextp := NULL\<rparr>, p := None)) NULL (as @ [a]) NULL"
      by (rule ut.unlink_last) (use s(1,2) 3 m(2) in simp_all)
    ultimately show ?thesis
      using 3 m(2) s by (auto simp: links_def lst_data_free lst_call_of_free hd_append simp del: dseg_other)
  next
    case (4 a as b zs)
    obtain m m' where m: "a \<noteq> NULL" "nodes s a = Some m" "b \<noteq> NULL" "nodes s b = Some m'"
      using dseg_live [OF s(1), of a] dseg_live [OF s(1), of b] 4 by auto
    have ne: "p \<noteq> head s" "p \<noteq> tail s" "p \<noteq> a" "p \<noteq> b" "a \<noteq> b"
      using s(2-4) 4 by (auto simp: hd_append)
    let ?h = "(nodes s)(a \<mapsto> m\<lparr>nextp := b\<rparr>, b \<mapsto> m'\<lparr>prevp := a\<rparr>, p := None)"
    have "del_timer p s = Some (s\<lparr>nodes := ?h\<rparr>)"
      using n m 4 ne by (simp add: del_timer_def c_simps)
    moreover have "chain ?h NULL (as @ a # b # zs) NULL"
      by (rule ut.unlink_between) (use s(1,2) 4 m in simp_all)
    ultimately show ?thesis
      using s(2-5) 4 m(2,4) ne by (auto simp: links_def lst_data_free lst_call_of_free hd_append simp del: dseg_other)
  qed
qed

section \<open>Adjustment\<close>

text \<open>Taking a timer out of its place without freeing it, as \<^verbatim>\<open>adjust_timer\<close> does before it inserts it again.\<close>

lemma adjust_unlink_head:
  assumes "links s (p # b # ys)" and "\<not> key (nodes s) p < key (nodes s) b"
  shows "\<exists>s'. adjust_timer p s = add_timer_after p b s' \<and> links s' (b # ys) \<and> data (nodes s') = data (nodes s) \<and>
    calls s' = calls s"
proof -
  have s: "chain (nodes s) NULL (p # b # ys) NULL" "distinct (p # b # ys)" "head s = p" "tail s = last (b # ys)"
      "\<forall>x \<in> set (b # ys). call_of (nodes s) x \<noteq> None"
    using assms(1) by (auto simp: links_def)
  obtain n m where n: "p \<noteq> NULL" "nodes s p = Some n" "nextp n = b" "b \<noteq> NULL" "nodes s b = Some m"
    using s(1) by (auto split: option.splits)
  let ?h = "(nodes s)(b \<mapsto> m\<lparr>prevp := NULL\<rparr>, p \<mapsto> n\<lparr>nextp := NULL\<rparr>)"
  have ne: "b \<noteq> p" "\<not> expire n < expire m"
    using s(2) assms(2) n by (auto simp: key_Some)
  then have "adjust_timer p s = add_timer_after p b (s\<lparr>head := b, nodes := ?h\<rparr>)"
    using n s(3) by (simp add: adjust_timer_def c_simps)
  moreover have "chain ?h NULL (b # ys) NULL"
    by (rule ut.unlink_first) (use s(1,2) n(5) in simp_all)
  moreover have "data ?h = data (nodes s)"
    using n ne(1) by simp
  ultimately show ?thesis
    using s data_same(2) [of ?h "nodes s"] by (intro exI [of _ "s\<lparr>head := b, nodes := ?h\<rparr>"]) (simp add: links_def del: dseg.simps)
qed

lemma adjust_unlink_middle:
  assumes "links s (xs @ a # p # b # ys)" and "\<not> key (nodes s) p < key (nodes s) b"
  shows "\<exists>s'. adjust_timer p s = add_timer_after p b s' \<and> links s' (xs @ a # b # ys) \<and> data (nodes s') = data (nodes s) \<and>
    calls s' = calls s"
proof -
  have s: "chain (nodes s) NULL (xs @ a # p # b # ys) NULL" "distinct (xs @ a # p # b # ys)" "head s = hd (xs @ [a])"
      "tail s = last (b # ys)" "\<forall>x \<in> set (xs @ a # b # ys). call_of (nodes s) x \<noteq> None"
    using assms(1) by (auto simp: links_def hd_append)
  obtain n where n: "p \<noteq> NULL" "nodes s p = Some n" "prevp n = a" "nextp n = b"
    using links_node [of s "xs @ [a]" p "b # ys"] assms(1) by auto
  obtain m m' where m: "a \<noteq> NULL" "nodes s a = Some m" "b \<noteq> NULL" "nodes s b = Some m'"
    using dseg_live [OF s(1), of a] dseg_live [OF s(1), of b] by auto
  let ?h = "(nodes s)(a \<mapsto> m\<lparr>nextp := b\<rparr>, b \<mapsto> m'\<lparr>prevp := a\<rparr>)"
  have ne: "p \<noteq> head s" "p \<noteq> a" "p \<noteq> b" "a \<noteq> b" "\<not> expire n < expire m'"
    using s(2,3) assms(2) n(2) m(4) by (auto simp: key_Some hd_append)
  then have "adjust_timer p s = add_timer_after p b (s\<lparr>nodes := ?h\<rparr>)"
    using n m by (simp add: adjust_timer_def c_simps)
  moreover have "chain ?h NULL (xs @ a # b # ys) NULL"
  proof -
    have "?h(p := Some n) = ?h"
      using n(2) ne by auto
    moreover have "chain (?h(p := Some n)) NULL (xs @ a # b # ys) NULL"
      by (rule ut.unlink_between) (use s(1,2) m in simp_all)
    ultimately show ?thesis
      by metis
  qed
  moreover have "data ?h = data (nodes s)"
    using m ne by simp
  ultimately show ?thesis
    using s data_same(2) [of ?h "nodes s"] by (intro exI [of _ "s\<lparr>nodes := ?h\<rparr>"]) (simp add: links_def hd_append)
qed

lemma adjust_timer_links:
  assumes "links s (xs @ p # ys)"
  shows "\<exists>s'. adjust_timer p s = Some s' \<and> links s' (xs @ ins (key (nodes s)) p ys) \<and> data (nodes s') = data (nodes s) \<and>
    calls s' = calls s"
proof (cases "ys = [] \<or> key (nodes s) p < key (nodes s) (hd ys)")
  case True
  obtain n where n: "p \<noteq> NULL" "nodes s p = Some n" "nextp n = hd (ys @ [NULL])"
    using links_node [OF assms] .
  have "\<exists>m. nodes s y = Some m \<and> y \<noteq> NULL" if "y \<in> set ys" for y
    using assms that dseg_live [of nextp prevp "nodes s" NULL _ NULL y] by (auto simp: links_def)
  then have "adjust_timer p s = Some s" "ins (key (nodes s)) p ys = p # ys"
    using True n by (cases ys; force simp: adjust_timer_def c_simps key_Some)+
  then show ?thesis
    using assms by simp
next
  case False
  then obtain b zs where ys: "ys = b # zs" "\<not> key (nodes s) p < key (nodes s) b"
    by (cases ys) auto
  have "\<exists>s'. adjust_timer p s = add_timer_after p b s' \<and> links s' (xs @ b # zs) \<and> data (nodes s') = data (nodes s) \<and>
    calls s' = calls s"
    using adjust_unlink_head [of s p b zs] adjust_unlink_middle [of s _ _ p b zs] assms ys
    by (cases xs rule: rev_cases) auto
  then obtain s' where s': "adjust_timer p s = add_timer_after p b s'" "links s' (xs @ b # zs)"
      "data (nodes s') = data (nodes s)" "calls s' = calls s"
    by blast
  have "p \<notin> set (xs @ b # zs)" "p \<noteq> NULL" "call_of (nodes s') p \<noteq> None"
    using assms ys(1) data_same(2) [OF s'(3)] dseg_NULL by (auto simp: links_def dseg_append)
  then show ?thesis
    using add_timer_after_links [OF s'(2)] s' ys data_same(1) [OF s'(3)] by simp
qed

section \<open>Ticking\<close>

lemma lst_tick_loop_round:
  assumes "links s (p # ys)" and "key (nodes s) p \<le> cur"
  shows "\<exists>s'. tick_loop cur p s = tick_loop cur (head s') s' \<and> links s' ys \<and> data (nodes s') = (data (nodes s))(p := None) \<and>
    calls s' = calls s @ List.map_filter (call_of (nodes s)) [p]"
proof -
  obtain n where n: "p \<noteq> NULL" "nodes s p = Some n" "nextp n = hd (ys @ [NULL])"
    using links_node [of s "[]" p ys] assms(1) by auto
  have s: "chain (nodes s) NULL (p # ys) NULL" "distinct (p # ys)" "\<forall>x \<in> set (p # ys). call_of (nodes s) x \<noteq> None"
      "ys \<noteq> [] \<longrightarrow> tail s = last ys"
    using assms(1) by (auto simp: links_def)
  obtain f where f: "cb_func n = Some f" "call_of (nodes s) p = Some (f, user_data n)"
    using s(3) n(2) by (auto simp: call_of_def data_def split: option.splits)
  have e: "\<not> cur < expire n"
    using assms(2) n(2) by (simp add: key_Some)
  show ?thesis
  proof (cases ys)
    case Nil
    let ?s = "s\<lparr>calls := calls s @ [(f, user_data n)], head := NULL, nodes := (nodes s)(p := None)\<rparr>"
    have "tick_loop cur p s = tick_loop cur NULL ?s"
      by (subst tick_loop.simps) (use n f e Nil in \<open>simp add: c_simps\<close>)
    then show ?thesis
      using Nil f by (intro exI [of _ ?s]) (simp add: links_def lst_data_free map_filter_simps)
  next
    case (Cons b zs)
    obtain m where m: "b \<noteq> NULL" "nodes s b = Some m"
      using dseg_live [OF s(1), of b] Cons by auto
    let ?h = "(nodes s)(b \<mapsto> m\<lparr>prevp := NULL\<rparr>, p := None)"
    let ?s = "s\<lparr>calls := calls s @ [(f, user_data n)], head := b, nodes := ?h\<rparr>"
    have "p \<noteq> b"
      using s(2) Cons by auto
    then have "tick_loop cur p s = tick_loop cur b ?s"
      by (subst tick_loop.simps) (use n f e Cons m in \<open>simp add: c_simps\<close>)
    moreover have "chain ?h NULL (b # zs) NULL"
      by (rule ut.unlink_first) (use s(1,2) Cons m(2) in simp_all)
    moreover have "\<forall>x \<in> set (b # zs). call_of ?h x \<noteq> None"
      using s(2,3) Cons m(2) by (auto simp: lst_call_of_free)
    ultimately show ?thesis
      using Cons f m(2) s(2,4) by (intro exI [of _ ?s]) (simp add: links_def lst_data_free map_filter_simps del: dseg.simps)
  qed
qed

lemma lst_tick_loop_ok:
  assumes "links s xs"
  shows "\<exists>s'. tick_loop cur (head s) s = Some s' \<and> links s' (dropWhile (\<lambda>p. key (nodes s) p \<le> cur) xs) \<and>
    data (nodes s') = data (nodes s) |` (- set (takeWhile (\<lambda>p. key (nodes s) p \<le> cur) xs)) \<and>
    calls s' = calls s @ List.map_filter (call_of (nodes s)) (takeWhile (\<lambda>p. key (nodes s) p \<le> cur) xs)"
  using assms
proof (induction xs arbitrary: s)
  case Nil
  then have "tick_loop cur (head s) s = Some s"
    by (simp add: links_def tick_loop.simps)
  then show ?case
    using Nil by (simp add: restrict_map_def map_filter_simps)
next
  case (Cons p ys)
  then have hd: "head s = p" and d: "p \<notin> set ys"
    by (simp_all add: links_def)
  show ?case
  proof (cases "key (nodes s) p \<le> cur")
    case False
    obtain n where "p \<noteq> NULL" "nodes s p = Some n"
      using links_node [of s "[]" p ys] Cons.prems by auto
    then have "tick_loop cur p s = Some s"
      by (subst tick_loop.simps) (use False in \<open>simp add: c_simps key_Some\<close>)
    then show ?thesis
      using Cons.prems False hd by (simp add: restrict_map_def map_filter_simps)
  next
    case True
    obtain s1 where s1: "tick_loop cur p s = tick_loop cur (head s1) s1" "links s1 ys" "data (nodes s1) = (data (nodes s))(p := None)"
        "calls s1 = calls s @ List.map_filter (call_of (nodes s)) [p]"
      using lst_tick_loop_round [OF Cons.prems True] by blast
    have same: "\<forall>q \<in> set ys. key (nodes s1) q = key (nodes s) q" "\<forall>q \<in> set ys. call_of (nodes s1) q = call_of (nodes s) q"
      using d s1(3) by (auto simp: key_def call_of_def)
    let ?t = "takeWhile (\<lambda>p. key (nodes s) p \<le> cur) ys"
    have w: "takeWhile (\<lambda>p. key (nodes s1) p \<le> cur) ys = ?t"
        "dropWhile (\<lambda>p. key (nodes s1) p \<le> cur) ys = dropWhile (\<lambda>p. key (nodes s) p \<le> cur) ys"
      using same(1) by (auto cong: takeWhile_cong dropWhile_cong)
    have "List.map_filter (call_of (nodes s1)) ?t = List.map_filter (call_of (nodes s)) ?t"
      using same(2) set_takeWhileD by (intro map_filter_eqI) fastforce
    moreover obtain s' where "tick_loop cur (head s1) s1 = Some s'" "links s' (dropWhile (\<lambda>p. key (nodes s) p \<le> cur) ys)"
        "data (nodes s') = data (nodes s) |` (- insert p (set ?t))"
        "calls s' = calls s1 @ List.map_filter (call_of (nodes s1)) ?t"
      using Cons.IH [OF s1(2)] unfolding w s1(3) restrict_free by blast
    ultimately show ?thesis
      using s1(1,4) True hd by (simp add: map_filter_def)
  qed
qed

lemma lst_tick_rep:
  assumes "rep s xs"
  shows "\<exists>s'. tick cur s = Some s' \<and> rep s' (dropWhile (\<lambda>p. key (nodes s) p \<le> cur) xs) \<and>
    data (nodes s') = data (nodes s) |` (- set (takeWhile (\<lambda>p. key (nodes s) p \<le> cur) xs)) \<and>
    calls s' = calls s @ List.map_filter (call_of (nodes s)) (takeWhile (\<lambda>p. key (nodes s) p \<le> cur) xs)"
proof -
  let ?P = "\<lambda>p. key (nodes s) p \<le> cur"
  have x: "links s xs" "sorted (map (key (nodes s)) xs)" "distinct xs"
    using assms by (auto simp: rep_def links_def)
  obtain s' where s': "tick_loop cur (head s) s = Some s'" "links s' (dropWhile ?P xs)"
      "data (nodes s') = data (nodes s) |` (- set (takeWhile ?P xs))"
      "calls s' = calls s @ List.map_filter (call_of (nodes s)) (takeWhile ?P xs)"
    using lst_tick_loop_ok [OF x(1)] by blast
  have "tick cur s = tick_loop cur (head s) s"
    by (simp add: tick_def tick_loop.simps)
  moreover have "key (nodes s') q = key (nodes s) q" if "q \<in> set (dropWhile ?P xs)" for q
  proof -
    have "q \<notin> set (takeWhile ?P xs)"
      using that x(3) distinct_append [of "takeWhile ?P xs" "dropWhile ?P xs"] by auto
    then show ?thesis
      unfolding key_def s'(3) by simp
  qed
  then have "sorted (map (key (nodes s')) (dropWhile ?P xs))"
    using x(2) sorted_append [of "map (key (nodes s)) (takeWhile ?P xs)" "map (key (nodes s)) (dropWhile ?P xs)"]
    by (simp flip: map_append cong: map_cong)
  ultimately show ?thesis
    using s' by (simp add: rep_def)
qed

lemma lst_delete_loop_ok:
  assumes "chain (nodes s) p xs NULL" and "distinct xs"
  shows "\<exists>s'. delete_loop (hd (xs @ [NULL])) s = Some s' \<and> nodes s' = nodes s |` (- set xs)"
  using assms
proof (induction xs arbitrary: s p)
  case Nil
  then show ?case
    by (simp add: delete_loop.simps restrict_map_def)
next
  case (Cons x xs)
  obtain n where n: "x \<noteq> NULL" "nodes s x = Some n" "nextp n = hd (xs @ [NULL])"
    using Cons.prems(1) by (auto split: option.splits)
  let ?s = "s\<lparr>head := hd (xs @ [NULL]), nodes := (nodes s)(x := None)\<rparr>"
  have "delete_loop x s = delete_loop (hd (xs @ [NULL])) ?s"
    by (subst delete_loop.simps) (use n in \<open>simp add: c_simps\<close>)
  moreover have "\<exists>s'. delete_loop (hd (xs @ [NULL])) ?s = Some s' \<and> nodes s' = nodes ?s |` (- set xs)"
  proof (rule Cons.IH [of _ x])
    show "chain (nodes ?s) x xs NULL"
      by (subst dseg_cong [where h = "nodes s"]) (use Cons.prems in auto)
  qed (use Cons.prems in simp)
  moreover have "nodes ?s |` (- set xs) = nodes s |` (- set (x # xs))"
    by (simp add: restrict_free del: restrict_fun_upd)
  ultimately show ?case
    by simp
qed

lemma lst_del_timer_rep:
  assumes "rep s xs" and "p \<in> set xs"
  shows "\<exists>s'. del_timer p s = Some s' \<and> rep s' (remove1 p xs) \<and> data (nodes s') = (data (nodes s))(p := None) \<and> calls s' = calls s"
proof -
  obtain as bs where x: "xs = as @ p # bs"
    using assms(2) split_list by metis
  have l: "links s (as @ p # bs)" "p \<notin> set (as @ bs)" "sorted (map (key (nodes s)) (as @ bs))"
    using assms x by (auto simp: rep_def links_def sorted_append)
  obtain s' where s': "del_timer p s = Some s'" "links s' (as @ bs)" "data (nodes s') = (data (nodes s))(p := None)" "calls s' = calls s"
    using del_timer_links [OF l(1)] by blast
  have "map (key (nodes s')) (as @ bs) = map (key (nodes s)) (as @ bs)"
    using l(2) by (auto simp: key_def s'(3))
  then have "rep s' (as @ bs)"
    using s'(2) l(3) by (simp only: rep_def)
  moreover have "remove1 p xs = as @ bs"
    using l(2) x by (simp add: remove1_append)
  ultimately show ?thesis
    using s' by simp
qed

lemma ins_append: "\<forall>a \<in> set as. k a \<le> k x \<Longrightarrow> ins k x (as @ bs) = as @ ins k x bs"
  by (induction as) auto

section \<open>The contract\<close>

definition list_ok :: "sort_timer_lst \<Rightarrow> bool" where
  "list_ok s \<longleftrightarrow> (\<exists>xs. rep s xs)"

definition list_set :: "sort_timer_lst \<Rightarrow> addr set" where
  "list_set s = {p. \<exists>xs. rep s xs \<and> p \<in> set xs}"

lemma rep_unique: "rep s xs \<Longrightarrow> rep s ys \<Longrightarrow> xs = ys"
  by (rule dseg_unique [of nextp prevp "nodes s" NULL _ NULL]) (simp_all add: rep_def links_def)

lemma list_set_rep: "rep s xs \<Longrightarrow> list_set s = set xs"
  using rep_unique by (auto simp: list_set_def)

definition can_add :: "addr \<Rightarrow> sort_timer_lst \<Rightarrow> bool" where
  "can_add p s \<longleftrightarrow> unlinked p s \<and> p \<notin> list_set s"

lemma takeWhile_sorted_set:
  "sorted (map k xs) \<Longrightarrow> set (takeWhile (\<lambda>p. k p \<le> cur) xs) = {p \<in> set xs. k p \<le> (cur :: int)}"
  by (induction xs) auto

interpretation tl: timer_container list_ok list_set "\<lambda>s. key (nodes s)" "\<lambda>s. call_of (nodes s)" calls can_add add_timer tick
proof
  fix s p
  assume "list_ok s" and "can_add p s"
  then obtain xs where xs: "rep s xs" "unlinked p s" "p \<notin> set xs"
    using list_set_rep by (auto simp: list_ok_def can_add_def)
  then obtain s' where s': "add_timer p s = Some s'" "rep s' (ins (key (nodes s)) p xs)" "data (nodes s') = data (nodes s)"
      "calls s' = calls s"
    using lst_add_timer_rep by blast
  then have "list_ok s'" "list_set s' = insert p (list_set s)"
    using list_set_rep [OF s'(2)] list_set_rep [OF xs(1)] by (auto simp: list_ok_def)
  then show "\<exists>s'. add_timer p s = Some s' \<and> list_ok s' \<and> list_set s' = insert p (list_set s) \<and> calls s' = calls s \<and>
      (\<forall>q \<in> list_set s'. key (nodes s') q = key (nodes s) q \<and> call_of (nodes s') q = call_of (nodes s) q)"
    using s' data_same [OF s'(3)] by simp
next
  fix s cur
  assume "list_ok s"
  then obtain xs where xs: "rep s xs"
    by (auto simp: list_ok_def)
  let ?P = "\<lambda>p. key (nodes s) p \<le> cur"
  let ?t = "takeWhile ?P xs"
  obtain s' where s': "tick cur s = Some s'" "rep s' (dropWhile ?P xs)" "data (nodes s') = data (nodes s) |` (- set ?t)"
      "calls s' = calls s @ List.map_filter (call_of (nodes s)) ?t"
    using lst_tick_rep [OF xs] by blast
  have d: "distinct xs" and sorted: "sorted (map (key (nodes s)) xs)"
    using xs by (simp_all add: rep_def links_def)
  have split: "xs = ?t @ dropWhile ?P xs"
    by simp
  have "distinct ?t" "set (dropWhile ?P xs) = set xs - set ?t"
    using d distinct_append [of ?t "dropWhile ?P xs"] set_append [of ?t "dropWhile ?P xs"] by auto
  moreover have "set ?t = {p \<in> set xs. key (nodes s) p \<le> cur}"
    using takeWhile_sorted_set [OF sorted] .
  moreover have "sorted (map (key (nodes s)) ?t)"
    using sorted sorted_append [of "map (key (nodes s)) ?t" "map (key (nodes s)) (dropWhile ?P xs)"] by (simp flip: map_append)
  moreover have "\<forall>q \<in> set xs - set ?t. key (nodes s') q = key (nodes s) q \<and> call_of (nodes s') q = call_of (nodes s) q"
    unfolding key_def call_of_def s'(3) by simp
  moreover have "list_set s = set xs" "list_set s' = set (dropWhile ?P xs)" "list_ok s'"
    using list_set_rep [OF xs] list_set_rep [OF s'(2)] s'(2) by (auto simp: list_ok_def)
  ultimately show "\<exists>s' ts. tick cur s = Some s' \<and> list_ok s' \<and> distinct ts \<and> set ts = {p \<in> list_set s. key (nodes s) p \<le> cur} \<and>
      sorted (map (key (nodes s)) ts) \<and> list_set s' = list_set s - set ts \<and>
      calls s' = calls s @ List.map_filter (call_of (nodes s)) ts \<and>
      (\<forall>q \<in> list_set s'. key (nodes s') q = key (nodes s) q \<and> call_of (nodes s') q = call_of (nodes s) q)"
    using s'(1,4) by (intro exI [of _ s'] exI [of _ ?t]) simp
qed

section \<open>Properties\<close>

text \<open>A list with two timers, for the concrete runs.\<close>

definition sample_list :: sort_timer_lst where
  "sample_list = \<lparr>head = 8, tail = 16,
     nodes = [8 \<mapsto> \<lparr>expire = 5, cb_func = Some 1, user_data = 100, prevp = NULL, nextp = 16\<rparr>,
              16 \<mapsto> \<lparr>expire = 7, cb_func = Some 2, user_data = 200, prevp = 8, nextp = NULL\<rparr>,
              24 \<mapsto> \<lparr>expire = 6, cb_func = Some 3, user_data = 300, prevp = NULL, nextp = NULL\<rparr>],
     calls = []\<rparr>"

lemma sample_list_rep: "rep sample_list [8, 16]"
  by (simp add: sample_list_def rep_def links_def key_def data_def call_of_def)

text \<open>
  C18: the pointer surgery of the list implements the operations on the sorted sequence of
  timers. Adding inserts a timer behind all that do not expire later, deleting removes and
  frees exactly that timer, and a tick runs the callbacks of the due prefix in order and
  frees it; all links, the head and the tail are right afterwards.
\<close>

theorem list_ops_refine:
  assumes "rep s xs"
  shows "(unlinked p s \<and> p \<notin> set xs \<longrightarrow>
      (\<exists>s'. add_timer p s = Some s' \<and> rep s' (ins (key (nodes s)) p xs) \<and> data (nodes s') = data (nodes s) \<and> calls s' = calls s)) \<and>
    (p \<in> set xs \<longrightarrow>
      (\<exists>s'. del_timer p s = Some s' \<and> rep s' (remove1 p xs) \<and> data (nodes s') = (data (nodes s))(p := None) \<and> calls s' = calls s)) \<and>
    (\<exists>s'. tick cur s = Some s' \<and> rep s' (dropWhile (\<lambda>p. key (nodes s) p \<le> cur) xs) \<and>
      data (nodes s') = data (nodes s) |` (- set (takeWhile (\<lambda>p. key (nodes s) p \<le> cur) xs)) \<and>
      calls s' = calls s @ List.map_filter (call_of (nodes s)) (takeWhile (\<lambda>p. key (nodes s) p \<le> cur) xs))"
  using lst_add_timer_rep [OF assms] lst_del_timer_rep [OF assms] lst_tick_rep [OF assms] by blast

theorem list_ops_refine_witness:
  "\<exists>s'. add_timer 24 sample_list = Some s' \<and> rep s' [8, 24, 16]"
proof -
  have "unlinked 24 sample_list" "ins (key (nodes sample_list)) 24 [8, 16] = [8, 24, 16]"
    by (simp_all add: unlinked_def sample_list_def call_of_def data_def key_def)
  then show ?thesis
    using list_ops_refine [OF sample_list_rep, of 24] by auto
qed

text \<open>
  Over ticks of a clock that does not run backwards every timer of the sorted list fires
  exactly once, by the first tick that is not before its expiry, in the order of expiry.
\<close>

theorem list_ticks_fire_once:
  assumes "list_ok s" and "sorted cs"
  shows "\<exists>s' ts. ticks tick cs s = Some s' \<and> list_ok s' \<and> distinct ts \<and>
    set ts = {p \<in> list_set s. \<exists>c \<in> set cs. key (nodes s) p \<le> c} \<and> sorted (map (key (nodes s)) ts) \<and>
    list_set s' = list_set s - set ts \<and> calls s' = calls s @ List.map_filter (call_of (nodes s)) ts"
  using tl.ticks_fire [OF assms] .

theorem list_ticks_fire_once_witness:
  "\<exists>s' ts. ticks tick [4, 6] sample_list = Some s' \<and> distinct ts \<and> set ts = {p \<in> {8, 16}. \<exists>c \<in> {4, 6}. key (nodes sample_list) p \<le> c}"
proof -
  have "list_ok sample_list" "list_set sample_list = {8, 16}"
    using sample_list_rep list_set_rep [OF sample_list_rep] by (auto simp: list_ok_def)
  then show ?thesis
    using list_ticks_fire_once [of sample_list "[4, 6]"] by auto
qed

text \<open>
  When a client has put off the expiry of a stored timer, \<^verbatim>\<open>adjust_timer\<close> moves it to
  the place that the new expiry asks for and changes nothing else: the list is sorted again.
\<close>

theorem list_adjust_restores:
  assumes "rep s xs" and "p \<in> set xs" and "nodes s p = Some t" and "expire t \<le> e"
    and "s1 = s\<lparr>nodes := (nodes s)(p \<mapsto> t\<lparr>expire := e\<rparr>)\<rparr>"
  shows "\<exists>s'. adjust_timer p s1 = Some s' \<and> rep s' (ins (key (nodes s1)) p (remove1 p xs)) \<and>
    data (nodes s') = data (nodes s1) \<and> calls s' = calls s"
proof -
  obtain as bs where x: "xs = as @ p # bs"
    using assms(2) split_list by metis
  let ?k = "key (nodes s1)"
  have keys: "\<forall>q. q \<noteq> p \<longrightarrow> ?k q = key (nodes s) q" "?k p = e"
    by (auto simp: key_def data_def assms(5))
  have l: "links s xs" "sorted (map (key (nodes s)) xs)" "p \<notin> set (as @ bs)"
    using assms(1) x by (auto simp: rep_def links_def)
  have "links s1 (as @ p # bs)"
    using l(1,3) assms(3,5) x by (auto simp: links_def dseg_append call_of_def data_def split: option.splits)
  then obtain s' where s': "adjust_timer p s1 = Some s'" "links s' (as @ ins ?k p bs)" "data (nodes s') = data (nodes s1)"
      "calls s' = calls s1"
    using adjust_timer_links by blast
  have "map ?k (as @ bs) = map (key (nodes s)) (as @ bs)"
    using keys(1) l(3) by auto
  then have sorted: "sorted (map ?k (as @ bs))"
    using l(2) x by (simp only:) (simp add: sorted_append)
  have "\<forall>a \<in> set as. key (nodes s) a \<le> e" "\<forall>a \<in> set as. a \<noteq> p"
    using l(2,3) x assms(3,4) by (auto simp: sorted_append key_Some)
  then have "\<forall>a \<in> set as. ?k a \<le> ?k p"
    using keys by simp
  then have "as @ ins ?k p bs = ins ?k p (remove1 p xs)"
    using l(3) x by (simp add: ins_append remove1_append)
  moreover have "sorted (map ?k (ins ?k p (remove1 p xs)))"
    using sorted_ins [OF sorted] l(3) x by (simp add: remove1_append)
  ultimately show ?thesis
    using s' data_same(1) [OF s'(3)] assms(5) by (simp add: rep_def)
qed

theorem list_adjust_restores_witness:
  "\<exists>s'. adjust_timer 8 (sample_list\<lparr>nodes := (nodes sample_list)(8 \<mapsto> (the (nodes sample_list 8))\<lparr>expire := 9\<rparr>)\<rparr>) = Some s' \<and>
    rep s' [16, 8]"
proof -
  let ?s = "sample_list\<lparr>nodes := (nodes sample_list)(8 \<mapsto> (the (nodes sample_list 8))\<lparr>expire := 9\<rparr>)\<rparr>"
  have "nodes sample_list 8 = Some (the (nodes sample_list 8))" "expire (the (nodes sample_list 8)) \<le> 9"
      "ins (key (nodes ?s)) 8 (remove1 8 [8, 16]) = [16, 8]"
    by (simp_all add: sample_list_def key_def data_def)
  then show ?thesis
    using list_adjust_restores [OF sample_list_rep, of 8 "the (nodes sample_list 8)" 9 ?s] by (metis list.set_intros(1))
qed

end
