(* ===== verification/Timer_Pair.thy ===== *)
theory Timer_Pair
  imports Timer_Heap Timer_List "HOL-Library.Multiset"
begin

text \<open>
  Two containers of timers side by side: what a client can observe does not depend on which
  of them it uses. The argument needs only what both promise, so it is given once for two
  containers of the interface and then used for the heap and the sorted list.
\<close>

locale timer_pair =
  one: timer_container ok1 elems1 due1 callback1 called1 fresh1 add1 tick1 +
  two: timer_container ok2 elems2 due2 callback2 called2 fresh2 add2 tick2
  for ok1 :: "'s \<Rightarrow> bool" and elems1 due1 callback1 called1 fresh1 add1 tick1
    and ok2 :: "'r \<Rightarrow> bool" and elems2 due2 callback2 called2 fresh2 add2 tick2
begin

definition same_timers :: "'s \<Rightarrow> 'r \<Rightarrow> bool" where
  "same_timers s r \<longleftrightarrow> ok1 s \<and> ok2 r \<and> elems1 s = elems2 r \<and>
     (\<forall>p\<in>elems1 s. due1 s p = due2 r p \<and> callback1 s p = callback2 r p)"

text \<open>The same callbacks; in the same order when no two timers expire together.\<close>

definition same_calls :: "'s \<Rightarrow> (nat \<times> nat) list \<Rightarrow> (nat \<times> nat) list \<Rightarrow> bool" where
  "same_calls s k1 k2 \<longleftrightarrow> mset k1 = mset k2 \<and> (inj_on (due1 s) (elems1 s) \<longrightarrow> k1 = k2)"

lemma mset_map_filter: "mset xs = mset ys \<Longrightarrow> mset (List.map_filter f xs) = mset (List.map_filter f ys)"
  by (simp add: map_filter_def)

lemma same_order:
  assumes "distinct ts" and "distinct us" and "set ts = set us" and "sorted (map f ts)" and "sorted (map f us)"
    and "inj_on f (set ts)"
  shows "ts = us"
proof -
  have "map f ts = map f us"
    using assms by (intro sorted_distinct_set_unique) (simp_all add: distinct_map)
  then show ?thesis
    using assms(3,6) by (metis map_inj_on sup.idem)
qed

lemma tick_same:
  assumes "same_timers s r"
  shows "\<exists>s' r' k1 k2. tick1 c s = Some s' \<and> tick2 c r = Some r' \<and> same_timers s' r' \<and>
    called1 s' = called1 s @ k1 \<and> called2 r' = called2 r @ k2 \<and> same_calls s k1 k2 \<and>
    elems1 s' \<subseteq> elems1 s \<and> (\<forall>p\<in>elems1 s'. due1 s' p = due1 s p)"
proof -
  obtain s' ts where s': "tick1 c s = Some s'" "ok1 s'" "distinct ts" "set ts = {p \<in> elems1 s. due1 s p \<le> c}"
      "sorted (map (due1 s) ts)" "elems1 s' = elems1 s - set ts" "called1 s' = called1 s @ List.map_filter (callback1 s) ts"
      "\<forall>q \<in> elems1 s'. due1 s' q = due1 s q \<and> callback1 s' q = callback1 s q"
    using one.tick_ok [of s c] assms unfolding same_timers_def by blast
  obtain r' us where r': "tick2 c r = Some r'" "ok2 r'" "distinct us" "set us = {p \<in> elems2 r. due2 r p \<le> c}"
      "sorted (map (due2 r) us)" "elems2 r' = elems2 r - set us" "called2 r' = called2 r @ List.map_filter (callback2 r) us"
      "\<forall>q \<in> elems2 r'. due2 r' q = due2 r q \<and> callback2 r' q = callback2 r q"
    using two.tick_ok [of r c] assms unfolding same_timers_def by blast
  have agree: "elems1 s = elems2 r" "\<forall>p\<in>elems1 s. due1 s p = due2 r p \<and> callback1 s p = callback2 r p"
    using assms by (simp_all add: same_timers_def)
  have set: "set ts = set us"
    using s'(4) r'(4) agree by auto
  have "map (due1 s) us = map (due2 r) us"
    using r'(4) agree by (intro map_cong) auto
  then have "sorted (map (due1 s) us)"
    using r'(5) by (simp only:)
  moreover have "List.map_filter (callback2 r) us = List.map_filter (callback1 s) us"
    using r'(4) agree by (intro map_filter_eqI) auto
  ultimately have us: "sorted (map (due1 s) us)" "List.map_filter (callback2 r) us = List.map_filter (callback1 s) us" .
  have "ts = us" if "inj_on (due1 s) (elems1 s)"
    using s'(4) by (intro same_order [OF s'(3) r'(3) set s'(5) us(1)] inj_on_subset [OF that]) auto
  moreover have "mset ts = mset us"
    using s'(3) r'(3) set by (simp add: set_eq_iff_mset_eq_distinct)
  ultimately have "same_calls s (List.map_filter (callback1 s) ts) (List.map_filter (callback2 r) us)"
    by (auto simp: same_calls_def us(2) intro!: mset_map_filter)
  moreover have "same_timers s' r'"
    using s' r' agree set by (auto simp: same_timers_def)
  ultimately show ?thesis
    using s'(1,6,7,8) r'(1,7) by blast
qed

lemma ticks_same:
  assumes "same_timers s r"
  shows "\<exists>s' r' k1 k2. ticks tick1 cs s = Some s' \<and> ticks tick2 cs r = Some r' \<and> same_timers s' r' \<and>
    called1 s' = called1 s @ k1 \<and> called2 r' = called2 r @ k2 \<and> same_calls s k1 k2"
  using assms
proof (induction cs arbitrary: s r)
  case Nil
  then show ?case
    by (simp add: same_calls_def)
next
  case (Cons c cs)
  obtain s1 r1 k1 k2 where one: "tick1 c s = Some s1" "tick2 c r = Some r1" "same_timers s1 r1"
      "called1 s1 = called1 s @ k1" "called2 r1 = called2 r @ k2" "same_calls s k1 k2"
      "elems1 s1 \<subseteq> elems1 s" "\<forall>p\<in>elems1 s1. due1 s1 p = due1 s p"
    using tick_same [OF Cons.prems] by blast
  obtain s2 r2 l1 l2 where two: "ticks tick1 cs s1 = Some s2" "ticks tick2 cs r1 = Some r2" "same_timers s2 r2"
      "called1 s2 = called1 s1 @ l1" "called2 r2 = called2 r1 @ l2" "same_calls s1 l1 l2"
    using Cons.IH [OF one(3)] by blast
  have "inj_on (due1 s1) (elems1 s1)" if "inj_on (due1 s) (elems1 s)"
    using inj_on_subset [OF that one(7)] one(8) by (auto simp: inj_on_def)
  then have "same_calls s (k1 @ l1) (k2 @ l2)"
    using one(6) two(6) by (auto simp: same_calls_def)
  then show ?case
    using one two by auto
qed

end

interpretation hl: timer_pair
  Timer_Heap.heap_ok Timer_Heap.heap_set "\<lambda>s. Timer_Heap.key (time_heap.timers s)"
  "\<lambda>s. Timer_Heap.call_of (time_heap.timers s)" time_heap.calls Timer_Heap.can_add Timer_Heap.add_ample Timer_Heap.tick
  Timer_List.list_ok Timer_List.list_set "\<lambda>s. Timer_List.key (sort_timer_lst.nodes s)"
  "\<lambda>s. Timer_List.call_of (sort_timer_lst.nodes s)" sort_timer_lst.calls Timer_List.can_add Timer_List.add_timer Timer_List.tick
  by unfold_locales

end
