(* ===== verification/Timer_Wheel.thy ===== *)
theory Timer_Wheel
  imports Timer_Links Timer_Spec
begin

text \<open>
  The timing wheel of \<^verbatim>\<open>codes/11/11-5tw_timer.h\<close>: 60 slots, each a doubly linked list of
  timers; a tick serves the current slot and moves on. \<open>None\<close> is undefined behaviour.
\<close>

section \<open>State and operations\<close>

record tw_timer =
  rotation :: int
  time_slot :: nat
  cb_func :: "nat option"
  user_data :: nat
  nextp :: addr
  prevp :: addr

record time_wheel =
  slots :: "addr list"
  cur_slot :: nat
  nodes :: "tw_timer heap"
  calls :: "(nat \<times> nat) list"

definition N_slots :: nat where
  "N_slots = 60"

definition TI :: int where
  "TI = 1"

definition set_next :: "addr \<Rightarrow> addr \<Rightarrow> time_wheel \<Rightarrow> time_wheel option" where
  "set_next p v s = map_option (\<lambda>h. s\<lparr>nodes := h\<rparr>) (store (nextp_update (\<lambda>_. v)) (nodes s) p)"

definition set_prev :: "addr \<Rightarrow> addr \<Rightarrow> time_wheel \<Rightarrow> time_wheel option" where
  "set_prev p v s = map_option (\<lambda>h. s\<lparr>nodes := h\<rparr>) (store (prevp_update (\<lambda>_. v)) (nodes s) p)"

definition set_slot :: "nat \<Rightarrow> addr \<Rightarrow> time_wheel \<Rightarrow> time_wheel option" where
  "set_slot i v s = map_option (\<lambda>a. s\<lparr>slots := a\<rparr>) (aput (slots s) i v)"

definition delete :: "addr \<Rightarrow> time_wheel \<Rightarrow> time_wheel option" where
  "delete p s = map_option (\<lambda>h. s\<lparr>nodes := h\<rparr>) (c_free (nodes s) p)"

definition time_wheel_new :: "tw_timer heap \<Rightarrow> time_wheel" where
  "time_wheel_new h = \<lparr>slots = replicate N_slots NULL, cur_slot = 0, nodes = h, calls = []\<rparr>"

text \<open>The constructor of a timer; it leaves the callback and its argument as \<^verbatim>\<open>new\<close> found them.\<close>

definition tw_timer_new :: "int \<Rightarrow> nat \<Rightarrow> nat \<Rightarrow> tw_timer" where
  "tw_timer_new rot ts junk = \<lparr>rotation = rot, time_slot = ts, cb_func = None, user_data = junk, nextp = NULL, prevp = NULL\<rparr>"

text \<open>\<open>malloc\<close> stands for \<^verbatim>\<open>new\<close>, which throws where it has no memory.\<close>

definition add_timer :: "(tw_timer heap \<Rightarrow> addr) \<Rightarrow> nat \<Rightarrow> int \<Rightarrow> time_wheel \<Rightarrow> (addr \<times> time_wheel) thrown option" where
  "add_timer malloc junk timeout s =
     (if timeout < 0 then Some (Val (NULL, s))
      else
        let ticks = (if timeout < TI then 1 else timeout div TI);
            rot = ticks div int N_slots;
            ts = (cur_slot s + nat (ticks mod int N_slots)) mod N_slots;
            timer = malloc (nodes s)
        in if timer = NULL then Some Throw
           else do {
             s \<leftarrow> Some (s\<lparr>nodes := (nodes s)(timer \<mapsto> tw_timer_new rot ts junk)\<rparr>);
             hd \<leftarrow> aget (slots s) ts;
             s \<leftarrow> (if hd = NULL then set_slot ts timer s
                  else do {
                    s \<leftarrow> set_next timer hd s;
                    s \<leftarrow> set_prev hd timer s;
                    set_slot ts timer s });
             Some (Val (timer, s)) })"

definition del_timer :: "addr \<Rightarrow> time_wheel \<Rightarrow> time_wheel option" where
  "del_timer timer s =
     (if timer = NULL then Some s
      else do {
        ts \<leftarrow> deref time_slot (nodes s) timer;
        hd \<leftarrow> aget (slots s) ts;
        (if timer = hd then do {
           nx \<leftarrow> deref nextp (nodes s) hd;
           s \<leftarrow> set_slot ts nx s;
           hd \<leftarrow> aget (slots s) ts;
           s \<leftarrow> (if hd \<noteq> NULL then set_prev hd NULL s else Some s);
           delete timer s }
         else do {
           pv \<leftarrow> deref prevp (nodes s) timer;
           nx \<leftarrow> deref nextp (nodes s) timer;
           s \<leftarrow> set_next pv nx s;
           nx \<leftarrow> deref nextp (nodes s) timer;
           s \<leftarrow> (if nx \<noteq> NULL then do { pv \<leftarrow> deref prevp (nodes s) timer; set_prev nx pv s } else Some s);
           delete timer s }) })"

text \<open>\<open>cb_func\<close> being \<open>None\<close>, a pointer nobody has set, makes the call undefined.\<close>

definition run_callback :: "addr \<Rightarrow> time_wheel \<Rightarrow> time_wheel option" where
  "run_callback tmp s = do {
     cb \<leftarrow> deref cb_func (nodes s) tmp;
     f \<leftarrow> cb;
     ud \<leftarrow> deref user_data (nodes s) tmp;
     Some (s\<lparr>calls := calls s @ [(f, ud)]\<rparr>) }"

partial_function (option) tick_loop :: "addr \<Rightarrow> time_wheel \<Rightarrow> time_wheel option" where
  "tick_loop tmp s =
     (if tmp \<noteq> NULL then do {
        r \<leftarrow> deref rotation (nodes s) tmp;
        (if r > 0 then do {
           h \<leftarrow> store (rotation_update (\<lambda>r. r - 1)) (nodes s) tmp;
           nx \<leftarrow> deref nextp h tmp;
           tick_loop nx (s\<lparr>nodes := h\<rparr>) }
         else do {
           s \<leftarrow> run_callback tmp s;
           hd \<leftarrow> aget (slots s) (cur_slot s);
           (if tmp = hd then do {
              nx \<leftarrow> deref nextp (nodes s) tmp;
              s \<leftarrow> set_slot (cur_slot s) nx s;
              s \<leftarrow> delete tmp s;
              hd \<leftarrow> aget (slots s) (cur_slot s);
              s \<leftarrow> (if hd \<noteq> NULL then set_prev hd NULL s else Some s);
              tmp \<leftarrow> aget (slots s) (cur_slot s);
              tick_loop tmp s }
            else do {
              pv \<leftarrow> deref prevp (nodes s) tmp;
              nx \<leftarrow> deref nextp (nodes s) tmp;
              s \<leftarrow> set_next pv nx s;
              nx \<leftarrow> deref nextp (nodes s) tmp;
              s \<leftarrow> (if nx \<noteq> NULL then do { pv \<leftarrow> deref prevp (nodes s) tmp; set_prev nx pv s } else Some s);
              tmp2 \<leftarrow> deref nextp (nodes s) tmp;
              s \<leftarrow> delete tmp s;
              tick_loop tmp2 s }) }) }
      else Some s)"

definition tick :: "time_wheel \<Rightarrow> time_wheel option" where
  "tick s = do {
     tmp \<leftarrow> aget (slots s) (cur_slot s);
     s \<leftarrow> tick_loop tmp s;
     Some (s\<lparr>cur_slot := (cur_slot s + 1) mod N_slots\<rparr>) }"

text \<open>The destructor: the loop over a slot, and over the slots.\<close>

partial_function (option) delete_loop :: "nat \<Rightarrow> addr \<Rightarrow> time_wheel \<Rightarrow> time_wheel option" where
  "delete_loop i tmp s =
     (if tmp \<noteq> NULL then do {
        nx \<leftarrow> deref nextp (nodes s) tmp;
        s \<leftarrow> set_slot i nx s;
        s \<leftarrow> delete tmp s;
        tmp \<leftarrow> aget (slots s) i;
        delete_loop i tmp s }
      else Some s)"

fun delete_slots :: "nat list \<Rightarrow> time_wheel \<Rightarrow> time_wheel option" where
  "delete_slots [] s = Some s"
| "delete_slots (i # is) s = do {
     tmp \<leftarrow> aget (slots s) i;
     s \<leftarrow> delete_loop i tmp s;
     delete_slots is s }"

definition time_wheel_delete :: "time_wheel \<Rightarrow> time_wheel option" where
  "time_wheel_delete s = delete_slots [0..<N_slots] s"

section \<open>Representation\<close>

abbreviation chain :: "tw_timer heap \<Rightarrow> addr \<Rightarrow> addr list \<Rightarrow> addr \<Rightarrow> bool" where
  "chain \<equiv> dseg nextp prevp"

interpretation tw: link_fields nextp prevp "\<lambda>a. nextp_update (\<lambda>_. a)" "\<lambda>a. prevp_update (\<lambda>_. a)"
  by unfold_locales simp_all

text \<open>A node without its links.\<close>

definition data :: "tw_timer heap \<Rightarrow> addr \<Rightarrow> (int \<times> nat \<times> nat option \<times> nat) option" where
  "data h p = map_option (\<lambda>n. (rotation n, time_slot n, cb_func n, user_data n)) (h p)"

definition rot :: "tw_timer heap \<Rightarrow> addr \<Rightarrow> int" where
  "rot h p = fst (the (data h p))"

definition call_of :: "tw_timer heap \<Rightarrow> addr \<Rightarrow> (nat \<times> nat) option" where
  "call_of h p = (case data h p of Some (_, _, Some f, u) \<Rightarrow> Some (f, u) | _ \<Rightarrow> None)"

text \<open>The timers \<open>xss ! i\<close> hang in slot \<open>i\<close>.\<close>

definition rep :: "time_wheel \<Rightarrow> addr list list \<Rightarrow> bool" where
  "rep s xss \<longleftrightarrow> length xss = N_slots \<and> length (slots s) = N_slots \<and> cur_slot s < N_slots \<and>
     (\<forall>i < N_slots. slots s ! i = hd (xss ! i @ [NULL]) \<and> chain (nodes s) NULL (xss ! i) NULL \<and> distinct (xss ! i) \<and>
        (\<forall>x \<in> set (xss ! i). \<exists>r c. data (nodes s) x = Some (r, i, c) \<and> 0 \<le> r))"

definition armed :: "time_wheel \<Rightarrow> addr list list \<Rightarrow> bool" where
  "armed s xss \<longleftrightarrow> (\<forall>x \<in> set (concat xss). call_of (nodes s) x \<noteq> None)"

text \<open>The number of ticks that pass before the tick that fires a timer.\<close>

definition left :: "time_wheel \<Rightarrow> addr \<Rightarrow> int" where
  "left s p = rot (nodes s) p * int N_slots + (int (fst (snd (the (data (nodes s) p)))) - int (cur_slot s)) mod int N_slots"

section \<open>Unlinking\<close>

text \<open>The memory after the neighbours of a node have been linked to each other.\<close>

definition relink :: "tw_timer heap \<Rightarrow> addr list \<Rightarrow> addr list \<Rightarrow> tw_timer heap" where
  "relink h ks rs =
     (let h = (if ks = [] then h else h(last ks := map_option (nextp_update (\<lambda>_. hd (rs @ [NULL]))) (h (last ks))))
      in if rs = [] then h else h(hd rs := map_option (prevp_update (\<lambda>_. last (NULL # ks))) (h (hd rs))))"

lemma data_relink [simp]: "data (relink h ks rs) = data h"
  by (auto simp: relink_def data_def fun_eq_iff Let_def option.map_comp comp_def)

lemma relink_other:
  assumes "p \<notin> set ks" and "p \<notin> set rs"
  shows "relink h ks rs p = h p"
proof -
  have "ks \<noteq> [] \<longrightarrow> p \<noteq> last ks" "rs \<noteq> [] \<longrightarrow> p \<noteq> hd rs"
    using assms by (metis last_in_set, metis hd_in_set)
  then show ?thesis
    by (simp add: relink_def)
qed

lemma relink_chain:
  assumes "chain h NULL (ks @ x # rs) NULL" and "distinct (ks @ x # rs)"
  shows "chain ((relink h ks rs)(x := None)) NULL (ks @ rs) NULL"
proof -
  consider "ks = []" "rs = []" | b zs where "ks = []" "rs = b # zs" | a as where "ks = as @ [a]" "rs = []"
    | a as b zs where "ks = as @ [a]" "rs = b # zs"
    by (cases ks rule: rev_cases; cases rs) auto
  then show ?thesis
  proof cases
    case (2 b zs)
    then obtain m where m: "h b = Some m"
      using dseg_live [OF assms(1), of b] by auto
    have "chain (h(b \<mapsto> m\<lparr>prevp := NULL\<rparr>, x := None)) NULL (b # zs) NULL"
      by (rule tw.unlink_first) (use assms 2 m in simp_all)
    then show ?thesis
      using 2 m by (simp add: relink_def del: dseg.simps dseg_other)
  next
    case (3 a as)
    then obtain m where m: "h a = Some m"
      using dseg_live [OF assms(1), of a] by auto
    have "chain (h(a \<mapsto> m\<lparr>nextp := NULL\<rparr>, x := None)) NULL (as @ [a]) NULL"
      by (rule tw.unlink_last) (use assms 3 m in simp_all)
    then show ?thesis
      using 3 m by (simp add: relink_def del: dseg_other)
  next
    case (4 a as b zs)
    then obtain m m' where m: "h a = Some m" "h b = Some m'"
      using dseg_live [OF assms(1), of a] dseg_live [OF assms(1), of b] by auto
    have ne: "a \<noteq> b"
      using assms(2) 4 by auto
    have "chain (h(a \<mapsto> m\<lparr>nextp := b\<rparr>, b \<mapsto> m'\<lparr>prevp := a\<rparr>, x := None)) NULL (as @ a # b # zs) NULL"
      by (rule tw.unlink_between) (use assms 4 m in simp_all)
    then show ?thesis
      using 4 m ne by (simp add: relink_def del: dseg_other)
  qed simp
qed

lemma chain_node:
  assumes "chain h NULL (ks @ x # rs) NULL"
  obtains n where "x \<noteq> NULL" and "h x = Some n" and "prevp n = last (NULL # ks)" and "nextp n = hd (rs @ [NULL])"
  using assms by (auto simp: dseg_append split: option.splits if_splits)

lemma wheel_set_next_Some [c_simps]:
  "p \<noteq> NULL \<Longrightarrow> nodes s p = Some n \<Longrightarrow> set_next p v s = Some (s\<lparr>nodes := (nodes s)(p \<mapsto> n\<lparr>nextp := v\<rparr>)\<rparr>)"
  by (simp add: set_next_def store_Some)

lemma wheel_set_prev_Some [c_simps]:
  "p \<noteq> NULL \<Longrightarrow> nodes s p = Some n \<Longrightarrow> set_prev p v s = Some (s\<lparr>nodes := (nodes s)(p \<mapsto> n\<lparr>prevp := v\<rparr>)\<rparr>)"
  by (simp add: set_prev_def store_Some)

lemma wheel_delete_Some [c_simps]:
  "p \<noteq> NULL \<Longrightarrow> nodes s p = Some n \<Longrightarrow> delete p s = Some (s\<lparr>nodes := (nodes s)(p := None)\<rparr>)"
  by (simp add: delete_def c_free_Some)

lemma set_slot_Some [c_simps]: "i < length (slots s) \<Longrightarrow> set_slot i v s = Some (s\<lparr>slots := (slots s)[i := v]\<rparr>)"
  by (simp add: set_slot_def aput_def)

lemma aget_Some [c_simps]: "i < length a \<Longrightarrow> aget a i = Some (a ! i)"
  by (simp add: aget_def)

text \<open>The first and the other nodes of a slot are unlinked by different code, with the same effect.\<close>

definition unlinked :: "nat \<Rightarrow> addr list \<Rightarrow> addr \<Rightarrow> addr list \<Rightarrow> time_wheel \<Rightarrow> time_wheel" where
  "unlinked i ks x rs s = s\<lparr>slots := (slots s)[i := hd (ks @ rs @ [NULL])], nodes := (relink (nodes s) ks rs)(x := None)\<rparr>"

lemma hd_slot: "ks \<noteq> [] \<Longrightarrow> a ! i = hd (ks @ xs) \<Longrightarrow> a[i := hd (ks @ ys)] = a"
  by (metis hd_append2 list_update_id)

lemma del_timer_unlinks:
  assumes "chain (nodes s) NULL (ks @ x # rs) NULL" and "distinct (ks @ x # rs)" and "i < length (slots s)"
    and "slots s ! i = hd (ks @ [x])" and "deref time_slot (nodes s) x = Some i"
  shows "del_timer x s = Some (unlinked i ks x rs s)"
proof -
  obtain n where n: "x \<noteq> NULL" "nodes s x = Some n" "prevp n = last (NULL # ks)" "nextp n = hd (rs @ [NULL])"
    using chain_node [OF assms(1)] .
  have live: "\<exists>m. nodes s y = Some m" "y \<noteq> NULL" "y \<noteq> x" if "y \<in> set ks \<or> y \<in> set rs" for y
    using dseg_live [OF assms(1), of y] assms(2) that by auto
  show ?thesis
  proof (cases "ks = []")
    case True
    then show ?thesis
      using n assms(3-5) live [of "hd rs"]
      by (cases rs) (auto simp: del_timer_def unlinked_def relink_def c_simps)
  next
    case False
    then obtain m where m: "nodes s (last ks) = Some m" "last ks \<noteq> NULL" "last ks \<noteq> x"
      using live [of "last ks"] by auto
    have a: "slots s ! i \<noteq> x" "(slots s)[i := hd (ks @ rs @ [NULL])] = slots s"
      using False live [of "hd ks"] assms(4) hd_slot [OF False assms(4)] by auto
    show ?thesis
    proof (cases rs)
      case Nil
      then show ?thesis
        using n False a m assms(3,5) by (simp add: del_timer_def unlinked_def relink_def c_simps)
    next
      case (Cons b zs)
      then obtain m' where "nodes s b = Some m'" "b \<noteq> NULL" "b \<noteq> x"
        using live [of b] by auto
      moreover have "last ks \<noteq> b"
        using assms(2) False Cons by auto
      ultimately show ?thesis
        using n False a m assms(3,5) Cons by (simp add: del_timer_def unlinked_def relink_def c_simps)
    qed
  qed
qed

section \<open>Ticking\<close>

lemma tick_fire:
  assumes "chain (nodes s) NULL (ks @ x # rs) NULL" and "distinct (ks @ x # rs)" and "cur_slot s < length (slots s)"
    and "slots s ! cur_slot s = hd (ks @ [x])" and "\<not> rot (nodes s) x > 0" and "call_of (nodes s) x = Some c"
  shows "tick_loop x s = tick_loop (hd (rs @ [NULL])) (unlinked (cur_slot s) ks x rs (s\<lparr>calls := calls s @ [c]\<rparr>))"
proof -
  obtain n where n: "x \<noteq> NULL" "nodes s x = Some n" "prevp n = last (NULL # ks)" "nextp n = hd (rs @ [NULL])"
    using chain_node [OF assms(1)] .
  have c: "\<not> rotation n > 0" "run_callback x s = Some (s\<lparr>calls := calls s @ [c]\<rparr>)"
    using assms(5,6) n(1,2) by (auto simp: rot_def call_of_def data_def run_callback_def c_simps split: option.splits)
  have live: "\<exists>m. nodes s y = Some m" "y \<noteq> NULL" "y \<noteq> x" if "y \<in> set ks \<or> y \<in> set rs" for y
    using dseg_live [OF assms(1), of y] assms(2) that by auto
  consider "ks = []" "rs = []" | b zs where "ks = []" "rs = b # zs" | "ks \<noteq> []" "rs = []"
    | b zs where "ks \<noteq> []" "rs = b # zs"
    by (cases ks; cases rs) auto
  then show ?thesis
  proof cases
    case 1
    then show ?thesis
      by (subst tick_loop.simps) (use n c assms(3,4) in \<open>simp add: unlinked_def relink_def c_simps\<close>)
  next
    case (2 b zs)
    then obtain m where m: "nodes s b = Some m" "b \<noteq> NULL" "b \<noteq> x"
      using live [of b] by auto
    show ?thesis
      by (subst tick_loop.simps)
        (use n c m 2 assms(3,4) in \<open>simp add: unlinked_def relink_def c_simps fun_upd_twist [of x b]\<close>)
  next
    case 3
    then obtain m where m: "nodes s (last ks) = Some m" "last ks \<noteq> NULL" "last ks \<noteq> x"
      using live [of "last ks"] by auto
    have a: "slots s ! cur_slot s \<noteq> x" "(slots s)[cur_slot s := hd (ks @ rs @ [NULL])] = slots s"
      using 3 live [of "hd ks"] assms(4) hd_slot [OF 3(1) assms(4)] by auto
    show ?thesis
      by (subst tick_loop.simps) (use n c m 3 a assms(3) in \<open>simp add: unlinked_def relink_def c_simps\<close>)
  next
    case (4 b zs)
    then obtain m m' where m: "nodes s (last ks) = Some m" "last ks \<noteq> NULL" "last ks \<noteq> x"
        "nodes s b = Some m'" "b \<noteq> NULL" "b \<noteq> x"
      using live [of "last ks"] live [of b] by auto
    have a: "slots s ! cur_slot s \<noteq> x" "(slots s)[cur_slot s := hd (ks @ rs @ [NULL])] = slots s" "last ks \<noteq> b"
      using 4 live [of "hd ks"] assms(2,4) hd_slot [OF 4(1) assms(4)] by auto
    show ?thesis
      by (subst tick_loop.simps) (use n c m 4 a assms(3) in \<open>simp add: unlinked_def relink_def c_simps\<close>)
  qed
qed

text \<open>What a tick does to the data of a timer of the current slot.\<close>

definition aged :: "(int \<times> 'b) option \<Rightarrow> (int \<times> 'b) option" where
  "aged d = (case d of None \<Rightarrow> None | Some (r, x) \<Rightarrow> if r > 0 then Some (r - 1, x) else None)"

lemma wheel_data_free: "data (h(p := None)) = (data h)(p := None)"
  by (auto simp: data_def fun_eq_iff)

definition turn_ok :: "time_wheel \<Rightarrow> addr list \<Rightarrow> addr list \<Rightarrow> time_wheel \<Rightarrow> bool" where
  "turn_ok s ks rs s' \<longleftrightarrow>
     (let zs = ks @ filter (\<lambda>x. rot (nodes s) x > 0) rs in
      cur_slot s' = cur_slot s \<and> slots s' = (slots s)[cur_slot s := hd (zs @ [NULL])] \<and> chain (nodes s') NULL zs NULL \<and>
      data (nodes s') = (\<lambda>p. if p \<in> set rs then aged (data (nodes s) p) else data (nodes s) p) \<and>
      (\<forall>p. p \<notin> set (ks @ rs) \<longrightarrow> nodes s' p = nodes s p) \<and>
      calls s' = calls s @ List.map_filter (call_of (nodes s)) (filter (\<lambda>x. \<not> rot (nodes s) x > 0) rs))"

lemma turn_frame:
  assumes "data h' = (data h)(x := d)" and "x \<notin> set rs"
  shows "filter (\<lambda>y. rot h' y > 0) rs = filter (\<lambda>y. rot h y > 0) rs"
    and "filter (\<lambda>y. \<not> rot h' y > 0) rs = filter (\<lambda>y. \<not> rot h y > 0) rs"
    and "List.map_filter (call_of h') (filter (\<lambda>y. \<not> rot h y > 0) rs) =
      List.map_filter (call_of h) (filter (\<lambda>y. \<not> rot h y > 0) rs)"
    and "\<forall>y \<in> set rs. call_of h y \<noteq> None \<Longrightarrow> \<forall>y \<in> set rs. call_of h' y \<noteq> None"
proof -
  have "rot h' y = rot h y" "call_of h' y = call_of h y" if "y \<in> set rs" for y
    using that assms by (auto simp: rot_def call_of_def)
  then show "filter (\<lambda>y. rot h' y > 0) rs = filter (\<lambda>y. rot h y > 0) rs"
      "filter (\<lambda>y. \<not> rot h' y > 0) rs = filter (\<lambda>y. \<not> rot h y > 0) rs"
      "List.map_filter (call_of h') (filter (\<lambda>y. \<not> rot h y > 0) rs) =
       List.map_filter (call_of h) (filter (\<lambda>y. \<not> rot h y > 0) rs)"
      "\<forall>y \<in> set rs. call_of h y \<noteq> None \<Longrightarrow> \<forall>y \<in> set rs. call_of h' y \<noteq> None"
    by (auto intro!: filter_cong map_filter_eqI simp del: not_less)
qed

lemma turn_wait:
  assumes "turn_ok s1 (ks @ [x]) rs s'" and "s1 = s\<lparr>nodes := h\<rparr>" and "data h = (data (nodes s))(x := aged (data (nodes s) x))"
    and "\<forall>p. p \<noteq> x \<longrightarrow> h p = nodes s p" and "rot (nodes s) x > 0" and "x \<notin> set ks" and "x \<notin> set rs"
  shows "turn_ok s ks (x # rs) s'"
  using assms(1,2,4-7) turn_frame [OF assms(3,7)] assms(3) by (auto simp: turn_ok_def fun_eq_iff Let_def)

lemma turn_unlinked:
  assumes "turn_ok (unlinked (cur_slot s) ks x rs (s\<lparr>calls := calls s @ [c]\<rparr>)) ks rs s'" and "\<not> rot (nodes s) x > 0"
    and "call_of (nodes s) x = Some c" and "x \<notin> set ks" and "x \<notin> set rs"
  shows "turn_ok s ks (x # rs) s'"
proof -
  let ?s = "unlinked (cur_slot s) ks x rs (s\<lparr>calls := calls s @ [c]\<rparr>)"
  have data: "data (nodes ?s) = (data (nodes s))(x := None)"
    by (simp add: unlinked_def wheel_data_free)
  have "aged (data (nodes s) x) = None" "\<forall>p. p \<notin> set (ks @ x # rs) \<longrightarrow> nodes ?s p = nodes s p"
    using assms(2) by (auto simp: aged_def rot_def unlinked_def relink_other split: option.splits)
  then show ?thesis
    using assms unfolding turn_ok_def turn_frame(1-3) [OF data assms(5)] data
    by (auto simp: fun_eq_iff Let_def map_filter_simps unlinked_def)
qed

lemma wheel_tick_loop_ok:
  assumes "chain (nodes s) NULL (ks @ rs) NULL" and "distinct (ks @ rs)" and "cur_slot s < length (slots s)"
    and "slots s ! cur_slot s = hd (ks @ rs @ [NULL])" and "\<forall>x \<in> set rs. call_of (nodes s) x \<noteq> None"
  shows "\<exists>s'. tick_loop (hd (rs @ [NULL])) s = Some s' \<and> turn_ok s ks rs s'"
  using assms
proof (induction rs arbitrary: s ks)
  case Nil
  then have "tick_loop NULL s = Some s" "(slots s)[cur_slot s := hd (ks @ [NULL])] = slots s"
    by (simp add: tick_loop.simps, metis append_Nil list_update_id)
  then show ?case
    using Nil by (simp add: turn_ok_def map_filter_simps)
next
  case (Cons x rs)
  obtain n where n: "x \<noteq> NULL" "nodes s x = Some n" "prevp n = last (NULL # ks)" "nextp n = hd (rs @ [NULL])"
    using chain_node [OF Cons.prems(1)] .
  have x: "x \<notin> set ks" "x \<notin> set rs" "rot (nodes s) x = rotation n"
    using Cons.prems(2) n(2) by (auto simp: rot_def data_def)
  show ?case
  proof (cases "rot (nodes s) x > 0")
    case True
    let ?h = "(nodes s)(x \<mapsto> rotation_update (\<lambda>r. r - 1) n)"
    let ?s = "s\<lparr>nodes := ?h\<rparr>"
    have data: "data ?h = (data (nodes s))(x := aged (data (nodes s) x))"
      using n(2) True x(3) by (auto simp: data_def aged_def fun_eq_iff)
    have "tick_loop x s = tick_loop (hd (rs @ [NULL])) ?s"
      by (subst tick_loop.simps) (use n True x(3) in \<open>simp add: c_simps\<close>)
    moreover have "\<exists>s'. tick_loop (hd (rs @ [NULL])) ?s = Some s' \<and> turn_ok ?s (ks @ [x]) rs s'"
    proof (rule Cons.IH)
      show "chain (nodes ?s) NULL ((ks @ [x]) @ rs) NULL"
        using Cons.prems(1) n x by (simp add: dseg_append)
      show "\<forall>y \<in> set rs. call_of (nodes ?s) y \<noteq> None"
        using turn_frame(4) [OF data x(2)] Cons.prems(5) by simp
    qed (use Cons.prems in simp_all)
    ultimately show ?thesis
      using turn_wait [OF _ refl data _ True x(1,2)] by auto
  next
    case False
    obtain c where c: "call_of (nodes s) x = Some c"
      using Cons.prems(5) by auto
    let ?s = "unlinked (cur_slot s) ks x rs (s\<lparr>calls := calls s @ [c]\<rparr>)"
    have "tick_loop x s = tick_loop (hd (rs @ [NULL])) ?s"
      by (rule tick_fire) (use Cons.prems False c in \<open>simp_all add: hd_append\<close>)
    moreover have "\<exists>s'. tick_loop (hd (rs @ [NULL])) ?s = Some s' \<and> turn_ok ?s ks rs s'"
    proof (rule Cons.IH)
      show "chain (nodes ?s) NULL (ks @ rs) NULL"
        using relink_chain [OF Cons.prems(1,2)] by (simp add: unlinked_def)
      have "data (nodes ?s) = (data (nodes s))(x := None)"
        by (simp add: unlinked_def wheel_data_free)
      then show "\<forall>y \<in> set rs. call_of (nodes ?s) y \<noteq> None"
        using turn_frame(4) [OF _ x(2)] Cons.prems(5) by simp
    qed (use Cons.prems in \<open>simp_all add: unlinked_def\<close>)
    ultimately show ?thesis
      using turn_unlinked [OF _ False c x(1,2)] by auto
  qed
qed

lemma repD:
  assumes "rep s xss" and "i < N_slots"
  shows "slots s ! i = hd (xss ! i @ [NULL])" and "chain (nodes s) NULL (xss ! i) NULL" and "distinct (xss ! i)"
    and "x \<in> set (xss ! i) \<Longrightarrow> \<exists>r c. data (nodes s) x = Some (r, i, c) \<and> 0 \<le> r"
  using assms by (auto simp: rep_def)

lemma rep_lengths: "rep s xss \<Longrightarrow> length xss = N_slots \<and> length (slots s) = N_slots \<and> cur_slot s < N_slots"
  by (simp add: rep_def)

text \<open>A timer knows its slot, so the slots are disjoint.\<close>

lemma rep_slot_unique: "rep s xss \<Longrightarrow> i < N_slots \<Longrightarrow> j < N_slots \<Longrightarrow> x \<in> set (xss ! i) \<Longrightarrow> x \<in> set (xss ! j) \<Longrightarrow> i = j"
  using repD(4) [of s xss i x] repD(4) [of s xss j x] by auto

lemma stored_iff: "length xss = N_slots \<Longrightarrow> p \<in> set (concat xss) \<longleftrightarrow> (\<exists>i < N_slots. p \<in> set (xss ! i))"
  by (auto simp: in_set_conv_nth) (metis nth_mem)+

lemma N_pos [simp]: "0 < N_slots"
  by (simp add: N_slots_def)

lemma left_Some: "data (nodes s) p = Some (r, i, c) \<Longrightarrow>
    left s p = r * int N_slots + (int i - int (cur_slot s)) mod int N_slots"
  by (simp add: left_def rot_def)

text \<open>The countdown: one step of \<open>cur_slot\<close>, seen from another slot and from the same one.\<close>

lemma countdown_other:
  assumes "i < N_slots" and "c < N_slots" and "i \<noteq> c"
  shows "(int i - int ((c + 1) mod N_slots)) mod int N_slots = (int i - int c) mod int N_slots - 1"
    and "0 < (int i - int c) mod int N_slots"
proof -
  let ?N = "int N_slots"
  have "(int i - int c) mod ?N \<noteq> 0"
  proof
    assume "(int i - int c) mod ?N = 0"
    then have "int i mod ?N = int c mod ?N"
      by (metis mod_eq_dvd_iff mod_0_imp_dvd)
    then show False
      using assms by simp
  qed
  moreover have "0 \<le> (int i - int c) mod ?N" "(int i - int c) mod ?N < ?N"
    by simp_all
  ultimately show pos: "0 < (int i - int c) mod ?N"
    by linarith
  have "(int i - int ((c + 1) mod N_slots)) mod ?N = ((int i - int c) mod ?N - 1) mod ?N"
    by (simp add: zmod_int mod_diff_right_eq mod_diff_left_eq algebra_simps)
  also have "\<dots> = (int i - int c) mod ?N - 1"
    using pos \<open>(int i - int c) mod ?N < ?N\<close> by (intro mod_pos_pos_trivial) linarith+
  finally show "(int i - int ((c + 1) mod N_slots)) mod ?N = (int i - int c) mod ?N - 1" .
qed

lemma countdown_same: "c < N_slots \<Longrightarrow> (int c - int ((c + 1) mod N_slots)) mod int N_slots = int N_slots - 1"
  by (cases "c + 1 = N_slots") (auto simp: N_slots_def)

lemma data_None: "data h p = None \<longleftrightarrow> h p = None"
  by (simp add: data_def)

lemma aged_call: "0 < rot h p \<Longrightarrow> data h' p = aged (data h p) \<Longrightarrow> call_of h' p = call_of h p"
  by (auto simp: call_of_def aged_def rot_def split: option.splits)

text \<open>Changing one slot.\<close>

lemma rep_update:
  assumes "rep s xss" and "c < N_slots" and "slots s' = (slots s)[c := hd (zs @ [NULL])]" and "cur_slot s' < N_slots"
    and "chain (nodes s') NULL zs NULL" and "distinct zs" and "\<forall>x \<in> set zs. \<exists>r d. data (nodes s') x = Some (r, c, d) \<and> 0 \<le> r"
    and "\<forall>i < N_slots. i \<noteq> c \<longrightarrow> (\<forall>x \<in> set (xss ! i). nodes s' x = nodes s x)"
  shows "rep s' (xss[c := zs])"
  unfolding rep_def
proof (intro conjI allI impI)
  fix i assume i: "i < N_slots"
  note len = rep_lengths [OF assms(1)] and r = repD [OF assms(1) i]
  have "i \<noteq> c \<longrightarrow> chain (nodes s') NULL (xss ! i) NULL" "i \<noteq> c \<longrightarrow> (\<forall>x \<in> set (xss ! i). data (nodes s') x = data (nodes s) x)"
    using r(2) assms(8) i dseg_cong [of "xss ! i" "nodes s'" "nodes s"] by (auto simp: data_def)
  then show "slots s' ! i = hd ((xss[c := zs]) ! i @ [NULL])" "chain (nodes s') NULL ((xss[c := zs]) ! i) NULL"
      "distinct ((xss[c := zs]) ! i)" "\<forall>x \<in> set ((xss[c := zs]) ! i). \<exists>r d. data (nodes s') x = Some (r, i, d) \<and> 0 \<le> r"
    using i len r assms(3,5-7) by (cases "i = c"; simp)+
qed (use rep_lengths [OF assms(1)] assms(3,4) in simp_all)

text \<open>The state after a tick, slot by slot.\<close>

lemma tick_slots:
  assumes "rep s xss" and "armed s xss" and "c = cur_slot s" and "zs = filter (\<lambda>x. rot (nodes s) x > 0) (xss ! c)"
  shows "\<exists>s'. tick s = Some s' \<and> cur_slot s' = (c + 1) mod N_slots \<and> rep s' (xss[c := zs]) \<and>
    data (nodes s') = (\<lambda>p. if p \<in> set (xss ! c) then aged (data (nodes s) p) else data (nodes s) p) \<and>
    calls s' = calls s @ List.map_filter (call_of (nodes s)) (filter (\<lambda>x. \<not> rot (nodes s) x > 0) (xss ! c))"
proof -
  note len = rep_lengths [OF assms(1)]
  have c: "c < N_slots"
    using len assms(3) by simp
  note slot = repD [OF assms(1) c]
  have "\<forall>x \<in> set (xss ! c). call_of (nodes s) x \<noteq> None"
    using assms(2) c len stored_iff [of xss] unfolding armed_def by blast
  then obtain s1 where s1: "tick_loop (hd (xss ! c @ [NULL])) s = Some s1" "turn_ok s [] (xss ! c) s1"
    using wheel_tick_loop_ok [of s "[]" "xss ! c"] slot len assms(3) by auto
  have t: "cur_slot s1 = c" "slots s1 = (slots s)[c := hd (zs @ [NULL])]" "chain (nodes s1) NULL zs NULL"
      "data (nodes s1) = (\<lambda>p. if p \<in> set (xss ! c) then aged (data (nodes s) p) else data (nodes s) p)"
      "\<forall>p. p \<notin> set (xss ! c) \<longrightarrow> nodes s1 p = nodes s p"
      "calls s1 = calls s @ List.map_filter (call_of (nodes s)) (filter (\<lambda>x. \<not> rot (nodes s) x > 0) (xss ! c))"
    using s1(2) assms(3,4) by (auto simp: turn_ok_def Let_def)
  have same: "\<exists>r d. data (nodes s1) x = Some (r, c, d) \<and> 0 \<le> r" if "x \<in> set zs" for x
    using slot(4) [of x] that t(4) assms(4) by (auto simp: aged_def rot_def)
  let ?s = "s1\<lparr>cur_slot := (c + 1) mod N_slots\<rparr>"
  have "rep ?s (xss[c := zs])"
  proof (rule rep_update [OF assms(1) c])
    show "\<forall>i < N_slots. i \<noteq> c \<longrightarrow> (\<forall>x \<in> set (xss ! i). nodes ?s x = nodes s x)"
      using t(5) rep_slot_unique [OF assms(1) _ c] by auto
  qed (use same t slot(3) assms(4) in auto)
  moreover have "tick s = Some ?s"
    using s1(1) len slot(1) assms(3) t(1) by (simp add: tick_def aget_Some)
  ultimately show ?thesis
    using t(4,6) by simp
qed

text \<open>The countdown of a timer in another slot and of one in the current slot.\<close>

lemma tick_away:
  assumes "rep s xss" and "cur_slot s' = (cur_slot s + 1) mod N_slots"
    and "data (nodes s') = (\<lambda>p. if p \<in> set (xss ! cur_slot s) then aged (data (nodes s) p) else data (nodes s) p)"
    and "i < N_slots" and "i \<noteq> cur_slot s" and "p \<in> set (xss ! i)"
  shows "0 < left s p \<and> left s' p = left s p - 1 \<and> call_of (nodes s') p = call_of (nodes s) p"
proof -
  obtain r d where d: "data (nodes s) p = Some (r, i, d)" "0 \<le> r"
    using repD(4) [OF assms(1,4,6)] by blast
  have c: "cur_slot s < N_slots"
    using rep_lengths [OF assms(1)] by simp
  then have "p \<notin> set (xss ! cur_slot s)"
    using rep_slot_unique [OF assms(1,4) c assms(6)] assms(5) by auto
  then have d': "data (nodes s') p = Some (r, i, d)"
    using d(1) assms(3) by simp
  have "0 \<le> r * int N_slots"
    using d(2) by simp
  moreover note left_Some [OF d(1)] left_Some [OF d'] countdown_other [OF assms(4) c assms(5)]
  moreover have "call_of (nodes s') p = call_of (nodes s) p"
    using d(1) d' by (simp add: call_of_def)
  ultimately show ?thesis
    unfolding assms(2) by linarith
qed

lemma left_here:
  assumes "rep s xss" and "p \<in> set (xss ! cur_slot s)"
  shows "0 \<le> rot (nodes s) p \<and> left s p = rot (nodes s) p * int N_slots"
  using repD(4) [OF assms(1) _ assms(2)] rep_lengths [OF assms(1)] by (auto simp: left_Some rot_def)

lemma tick_kept:
  assumes "rep s xss" and "cur_slot s' = (cur_slot s + 1) mod N_slots"
    and "data (nodes s') = (\<lambda>p. if p \<in> set (xss ! cur_slot s) then aged (data (nodes s) p) else data (nodes s) p)"
    and p: "p \<in> set (xss ! cur_slot s)" "0 < rot (nodes s) p"
  shows "left s' p = left s p - 1 \<and> call_of (nodes s') p = call_of (nodes s) p"
proof -
  have c: "cur_slot s < N_slots"
    using rep_lengths [OF assms(1)] by simp
  obtain r d where d: "data (nodes s) p = Some (r, cur_slot s, d)"
    using repD(4) [OF assms(1) c p(1)] by blast
  then have d': "data (nodes s') p = Some (r - 1, cur_slot s, d)"
    using p assms(3) by (auto simp: aged_def rot_def)
  have "left s' p = (r - 1) * int N_slots + (int N_slots - 1)" "left s p = r * int N_slots"
    using left_Some [OF d] left_Some [OF d'] countdown_same [OF c] assms(2) by simp_all
  then have "left s' p = left s p - 1"
    by (simp add: left_diff_distrib)
  then show ?thesis
    using aged_call [OF p(2), of "nodes s'"] p(1) assms(3) by simp
qed

lemma stored_update:
  assumes "length xss = N_slots" and "c < N_slots"
  shows "p \<in> set (concat (xss[c := zs])) \<longleftrightarrow> (\<exists>i < N_slots. i \<noteq> c \<and> p \<in> set (xss ! i)) \<or> p \<in> set zs"
proof -
  have "p \<in> set (concat (xss[c := zs])) \<longleftrightarrow> (\<exists>i < N_slots. p \<in> set ((xss[c := zs]) ! i))"
    using stored_iff [of "xss[c := zs]"] assms(1) by simp
  also have "\<dots> \<longleftrightarrow> (\<exists>i < N_slots. i \<noteq> c \<and> p \<in> set (xss ! i)) \<or> p \<in> set zs"
    using assms by (metis nth_list_update_eq nth_list_update_neq)
  finally show ?thesis .
qed

lemma wheel_tick_rep:
  assumes "rep s xss" and "armed s xss"
  shows "\<exists>s' xss' ts. tick s = Some s' \<and> rep s' xss' \<and> armed s' xss' \<and> distinct ts \<and>
    set ts = {p \<in> set (concat xss). left s p = 0} \<and> set (concat xss') = set (concat xss) - set ts \<and>
    (\<forall>p \<in> set (concat xss'). left s' p = left s p - 1 \<and> call_of (nodes s') p = call_of (nodes s) p) \<and>
    calls s' = calls s @ List.map_filter (call_of (nodes s)) ts \<and> (\<forall>p \<in> set ts. nodes s' p = None)"
proof -
  define c where "c = cur_slot s"
  define zs where "zs = filter (\<lambda>x. rot (nodes s) x > 0) (xss ! c)"
  define ts where "ts = filter (\<lambda>x. \<not> rot (nodes s) x > 0) (xss ! c)"
  obtain s' where s': "tick s = Some s'" "cur_slot s' = (c + 1) mod N_slots" "rep s' (xss[c := zs])"
      "data (nodes s') = (\<lambda>p. if p \<in> set (xss ! c) then aged (data (nodes s) p) else data (nodes s) p)"
      "calls s' = calls s @ List.map_filter (call_of (nodes s)) ts"
    using tick_slots [OF assms c_def zs_def] unfolding ts_def by blast
  note len = rep_lengths [OF assms(1)]
  have c: "c < N_slots"
    using len c_def by simp
  note away = tick_away [OF assms(1) s'(2,4) [unfolded c_def]] and kept = tick_kept [OF assms(1) s'(2,4) [unfolded c_def]]
  have all: "p \<in> set (concat xss) \<longleftrightarrow> (\<exists>i < N_slots. i \<noteq> c \<and> p \<in> set (xss ! i)) \<or> p \<in> set (xss ! c)" for p
    using stored_update [of xss c p "xss ! c"] len c by simp
  have new: "p \<in> set (concat (xss[c := zs])) \<longleftrightarrow> (\<exists>i < N_slots. i \<noteq> c \<and> p \<in> set (xss ! i)) \<or> p \<in> set zs" for p
    using stored_update [of xss c p zs] len c by simp
  have ts: "set ts = {p \<in> set (concat xss). left s p = 0}"
  proof (intro set_eqI)
    fix p
    show "p \<in> set ts \<longleftrightarrow> p \<in> {p \<in> set (concat xss). left s p = 0}"
      using all [of p] away [of _ p] left_here [OF assms(1), of p] by (fastforce simp: ts_def c_def N_slots_def)
  qed
  have keep: "left s' p = left s p - 1 \<and> call_of (nodes s') p = call_of (nodes s) p" "p \<in> set (concat xss)" "p \<notin> set ts"
    if "p \<in> set (concat (xss[c := zs]))" for p
    using that away [of _ p] kept [of p] all [of p] ts unfolding new by (auto simp: zs_def c_def ts_def simp del: set_concat)
  have "set (concat (xss[c := zs])) = set (concat xss) - set ts"
  proof (intro set_eqI iffI)
    fix p assume "p \<in> set (concat xss) - set ts"
    moreover have "p \<in> set zs \<longleftrightarrow> p \<in> set (xss ! c) \<and> p \<notin> set ts"
      by (auto simp: zs_def ts_def)
    ultimately show "p \<in> set (concat (xss[c := zs]))"
      using new [of p] all [of p] by blast
  qed (use keep(2,3) in blast)
  moreover have "armed s' (xss[c := zs])"
    using assms(2) keep(1,2) unfolding armed_def by metis
  moreover have "\<forall>p \<in> set ts. nodes s' p = None"
    using s'(4) by (auto simp: ts_def aged_def rot_def simp flip: data_None split: option.splits)
  moreover have "distinct ts"
    using repD(3) [OF assms(1) c] by (simp add: ts_def)
  ultimately show ?thesis
    using s' ts keep(1) by blast
qed

section \<open>Adding and deleting\<close>

lemma wheel_del_timer_rep:
  assumes "rep s xss" and "i < N_slots" and "p \<in> set (xss ! i)"
  shows "\<exists>s'. del_timer p s = Some s' \<and> rep s' (xss[i := remove1 p (xss ! i)]) \<and>
    data (nodes s') = (data (nodes s))(p := None) \<and> calls s' = calls s \<and> cur_slot s' = cur_slot s"
proof -
  obtain ks rs where x: "xss ! i = ks @ p # rs"
    using assms(3) split_list by metis
  note r = repD [OF assms(1,2)] and len = rep_lengths [OF assms(1)]
  have chain: "chain (nodes s) NULL (ks @ p # rs) NULL" "distinct (ks @ p # rs)"
    using r(2,3) x by simp_all
  have "deref time_slot (nodes s) p = Some i"
    using r(4) [OF assms(3)] dseg_live [OF chain(1), of p] by (auto simp: data_def deref_Some)
  then have del: "del_timer p s = Some (unlinked i ks p rs s)"
    using del_timer_unlinks [OF chain] len r(1) x assms(2) by (simp add: hd_append)
  let ?s = "unlinked i ks p rs s"
  have data: "data (nodes ?s) = (data (nodes s))(p := None)"
    by (simp add: unlinked_def wheel_data_free)
  have "rep ?s (xss[i := ks @ rs])"
  proof (rule rep_update [OF assms(1,2)])
    show "chain (nodes ?s) NULL (ks @ rs) NULL"
      using relink_chain [OF chain] by (simp add: unlinked_def)
    show "\<forall>x \<in> set (ks @ rs). \<exists>r d. data (nodes ?s) x = Some (r, i, d) \<and> 0 \<le> r"
      using r(4) chain(2) x unfolding data by auto
    show "\<forall>j < N_slots. j \<noteq> i \<longrightarrow> (\<forall>x \<in> set (xss ! j). nodes ?s x = nodes s x)"
      using rep_slot_unique [OF assms(1) _ assms(2)] x by (auto simp: unlinked_def intro!: relink_other)
  qed (use len chain(2) in \<open>simp_all add: unlinked_def\<close>)
  moreover have "remove1 p (xss ! i) = ks @ rs"
    using chain(2) x by (simp add: remove1_append)
  ultimately show ?thesis
    using del data by (simp add: unlinked_def)
qed

text \<open>Hanging a new node in front of a slot.\<close>

definition pushed :: "nat \<Rightarrow> addr \<Rightarrow> tw_timer \<Rightarrow> time_wheel \<Rightarrow> time_wheel" where
  "pushed i p n s = s\<lparr>slots := (slots s)[i := p],
     nodes := (if slots s ! i = NULL then nodes s
       else (nodes s)(slots s ! i := map_option (prevp_update (\<lambda>_. p)) (nodes s (slots s ! i))))(p \<mapsto> n\<lparr>nextp := slots s ! i\<rparr>)\<rparr>"

lemma pushed_rep:
  assumes "rep s xss" and "i < N_slots" and "p \<noteq> NULL" and "nodes s p = None" and "prevp n = NULL" and "time_slot n = i" and "0 \<le> rotation n"
  shows "rep (pushed i p n s) (xss[i := p # xss ! i])"
    and "data (nodes (pushed i p n s)) = (data (nodes s))(p \<mapsto> (rotation n, i, cb_func n, user_data n))"
proof -
  note r = repD [OF assms(1,2)] and len = rep_lengths [OF assms(1)]
  have fresh: "p \<notin> set (xss ! j)" if "j < N_slots" for j
    using dseg_live [OF repD(2) [OF assms(1) that], of p] assms(4) by auto
  show data: "data (nodes (pushed i p n s)) = (data (nodes s))(p \<mapsto> (rotation n, i, cb_func n, user_data n))"
    using assms(6) by (auto simp: pushed_def data_def fun_eq_iff option.map_comp comp_def)
  show "rep (pushed i p n s) (xss[i := p # xss ! i])"
  proof (rule rep_update [OF assms(1,2)])
    show "chain (nodes (pushed i p n s)) NULL (p # xss ! i) NULL"
    proof (cases "xss ! i")
      case Nil
      then show ?thesis
        using r(1) assms(3,5) by (simp add: pushed_def)
    next
      case (Cons b zs)
      then obtain m where m: "nodes s b = Some m" "b \<noteq> NULL"
        using dseg_live [OF r(2), of b] by auto
      have "chain ((nodes s)(b \<mapsto> m\<lparr>prevp := p\<rparr>, p \<mapsto> n\<lparr>nextp := b\<rparr>)) NULL (p # b # zs) NULL"
        by (rule tw.link_first) (use r(2,3) fresh [OF assms(2)] Cons m assms(3,5) in simp_all)
      then show ?thesis
        using r(1) Cons m by (simp add: pushed_def del: dseg.simps)
    qed
    show "\<forall>x \<in> set (p # xss ! i). \<exists>r d. data (nodes (pushed i p n s)) x = Some (r, i, d) \<and> 0 \<le> r"
      unfolding data using r(4) assms(7) fresh [OF assms(2)] by auto
    have "slots s ! i \<in> set (xss ! i) \<or> slots s ! i = NULL"
      using r(1) by (cases "xss ! i") auto
    then show "\<forall>j < N_slots. j \<noteq> i \<longrightarrow> (\<forall>x \<in> set (xss ! j). nodes (pushed i p n s) x = nodes s x)"
      using rep_slot_unique [OF assms(1) _ assms(2)] fresh by (auto simp: pushed_def)
  qed (use len r(3) fresh [OF assms(2)] in \<open>simp_all add: pushed_def\<close>)
qed

lemma slot_distance:
  assumes "0 \<le> k"
  shows "(int ((c + nat (k mod int N_slots)) mod N_slots) - int c) mod int N_slots = k mod int N_slots"
proof -
  have "int ((c + nat (k mod int N_slots)) mod N_slots) = (int c + k mod int N_slots) mod int N_slots"
    by (simp add: zmod_int)
  then show ?thesis
    by (simp add: mod_diff_left_eq mod_add_right_eq)
qed

lemma add_timer_pushed:
  assumes "rep s xss" and "0 \<le> timeout" and "malloc (nodes s) = p" and "p \<noteq> NULL" and "nodes s p = None"
    and "k = max 1 timeout" and "i = (cur_slot s + nat (k mod int N_slots)) mod N_slots"
  shows "add_timer malloc junk timeout s = Some (Val (p, pushed i p (tw_timer_new (k div int N_slots) i junk) s))"
proof -
  have ticks: "(if timeout < TI then 1 else timeout div TI) = k"
    using assms(2,6) by (simp add: TI_def max_def)
  have i: "i < N_slots"
    using assms(7) by simp
  note r = repD [OF assms(1) i] and len = rep_lengths [OF assms(1)]
  show ?thesis
  proof (cases "xss ! i")
    case Nil
    then show ?thesis
      using assms(2-5) r(1) len i unfolding add_timer_def ticks Let_def assms(7) [symmetric]
      by (simp add: c_simps pushed_def tw_timer_new_def)
  next
    case (Cons b zs)
    then obtain m where m: "slots s ! i = b" "nodes s b = Some m" "b \<noteq> NULL"
      using dseg_live [OF r(2), of b] r(1) by auto
    moreover have "b \<noteq> p"
      using m(2) assms(5) by auto
    ultimately show ?thesis
      using assms(2-5) len i unfolding add_timer_def ticks Let_def assms(7) [symmetric]
      by (simp add: c_simps pushed_def tw_timer_new_def fun_upd_twist [of p b])
  qed
qed

lemma wheel_add_timer_rep:
  assumes "rep s xss" and "0 \<le> timeout" and "malloc_ok malloc" and "malloc (nodes s) = p" and "p \<noteq> NULL"
  shows "\<exists>s' xss' r i. add_timer malloc junk timeout s = Some (Val (p, s')) \<and> rep s' xss' \<and>
    set (concat xss') = insert p (set (concat xss)) \<and> p \<notin> set (concat xss) \<and> left s' p = max 1 timeout \<and>
    data (nodes s') = (data (nodes s))(p \<mapsto> (r, i, None, junk)) \<and> calls s' = calls s \<and> cur_slot s' = cur_slot s"
proof -
  define k where "k = max 1 timeout"
  define i where "i = (cur_slot s + nat (k mod int N_slots)) mod N_slots"
  let ?n = "tw_timer_new (k div int N_slots) i junk"
  have free: "nodes s p = None"
    using malloc_okD [OF assms(3)] assms(4,5) by metis
  have k: "0 \<le> k" "i < N_slots" "0 \<le> k div int N_slots"
    using assms(2) by (simp_all add: k_def i_def pos_imp_zdiv_nonneg_iff)
  have n: "prevp ?n = NULL" "time_slot ?n = i" "0 \<le> rotation ?n"
    using k(3) by (simp_all add: tw_timer_new_def)
  note pu = pushed_rep [OF assms(1) k(2) assms(5) free n]
  have "left (pushed i p ?n s) p = k div int N_slots * int N_slots + k mod int N_slots"
    using left_Some [of "pushed i p ?n s" p] pu(2) slot_distance [OF k(1), of "cur_slot s"]
    by (simp add: tw_timer_new_def pushed_def i_def)
  then have "left (pushed i p ?n s) p = k"
    by (simp only: div_mult_mod_eq)
  moreover have "p \<notin> set (concat xss)"
    using stored_iff [of xss p] rep_lengths [OF assms(1)] repD(4) [OF assms(1), of _ p] free by (fastforce simp: data_def)
  moreover have "set (concat (xss[i := p # xss ! i])) = insert p (set (concat xss))"
    using stored_update [of xss i _ "p # xss ! i"] stored_update [of xss i _ "xss ! i"] rep_lengths [OF assms(1)] k(2)
    by (auto simp del: set_concat)
  moreover have "calls (pushed i p ?n s) = calls s" "cur_slot (pushed i p ?n s) = cur_slot s"
    by (simp_all add: pushed_def)
  moreover have "data (nodes (pushed i p ?n s)) = (data (nodes s))(p \<mapsto> (k div int N_slots, i, None, junk))"
    using pu(2) by (simp add: tw_timer_new_def)
  ultimately show ?thesis
    using add_timer_pushed [where malloc = malloc, OF assms(1,2,4,5) free k_def i_def, of junk] pu(1)
    unfolding k_def by blast
qed

section \<open>Running the wheel\<close>

fun wheel_ticks :: "nat \<Rightarrow> time_wheel \<Rightarrow> time_wheel option" where
  "wheel_ticks 0 s = Some s"
| "wheel_ticks (Suc n) s = do { s \<leftarrow> tick s; wheel_ticks n s }"

lemma left_nonneg:
  assumes "rep s xss" and "p \<in> set (concat xss)"
  shows "0 \<le> left s p"
proof -
  obtain i where "i < N_slots" "p \<in> set (xss ! i)"
    using assms(2) stored_iff [of xss p] rep_lengths [OF assms(1)] by auto
  then show ?thesis
    using repD(4) [OF assms(1)] by (fastforce simp: left_Some)
qed

lemma wheel_ticks_rep:
  assumes "rep s xss" and "armed s xss"
  shows "\<exists>s' xss' ts. wheel_ticks n s = Some s' \<and> rep s' xss' \<and> armed s' xss' \<and> distinct ts \<and>
    set ts = {p \<in> set (concat xss). left s p < int n} \<and> sorted (map (left s) ts) \<and>
    set (concat xss') = set (concat xss) - set ts \<and> calls s' = calls s @ List.map_filter (call_of (nodes s)) ts"
  using assms
proof (induction n arbitrary: s xss)
  case 0
  then have "{p \<in> set (concat xss). left s p < int 0} = {}"
    using left_nonneg [OF 0(1)] by fastforce
  then show ?case
    using 0 by (intro exI [of _ s] exI [of _ xss] exI [of _ "[]"]) (simp add: map_filter_simps)
next
  case (Suc n)
  obtain s1 xss1 t1 where 1: "tick s = Some s1" "rep s1 xss1" "armed s1 xss1" "distinct t1"
      "set t1 = {p \<in> set (concat xss). left s p = 0}" "set (concat xss1) = set (concat xss) - set t1"
      "\<forall>p \<in> set (concat xss1). left s1 p = left s p - 1 \<and> call_of (nodes s1) p = call_of (nodes s) p"
      "calls s1 = calls s @ List.map_filter (call_of (nodes s)) t1"
    using wheel_tick_rep [OF Suc.prems] by (elim exE conjE)
  obtain s2 xss2 t2 where 2: "wheel_ticks n s1 = Some s2" "rep s2 xss2" "armed s2 xss2" "distinct t2"
      "set t2 = {p \<in> set (concat xss1). left s1 p < int n}" "sorted (map (left s1) t2)"
      "set (concat xss2) = set (concat xss1) - set t2" "calls s2 = calls s1 @ List.map_filter (call_of (nodes s1)) t2"
    using Suc.IH [OF 1(2,3)] by (elim exE conjE)
  have t2: "left s1 p = left s p - 1" "call_of (nodes s1) p = call_of (nodes s) p" "p \<in> set (concat xss)" "p \<notin> set t1"
    if "p \<in> set t2" for p
    using that 1(6,7) 2(5) by auto
  have all: "set (t1 @ t2) = {p \<in> set (concat xss). left s p < int (Suc n)}"
  proof (intro set_eqI)
    fix p
    show "p \<in> set (t1 @ t2) \<longleftrightarrow> p \<in> {p \<in> set (concat xss). left s p < int (Suc n)}"
      using 1(5-7) 2(5) left_nonneg [OF Suc.prems(1), of p] by (fastforce simp del: set_concat)
  qed
  have "sorted (map (left s) t2)"
    unfolding sorted_map by (rule sorted_wrt_mono_rel [OF _ 2(6) [unfolded sorted_map]]) (simp add: t2(1))
  moreover have "sorted (map (left s) t1)"
    unfolding sorted_map by (rule sorted_wrt_mono_rel [OF _ sorted_wrt_true]) (simp add: 1(5))
  ultimately have "sorted (map (left s) (t1 @ t2))"
    using 1(5) left_nonneg [OF Suc.prems(1)] t2(3) by (auto simp: sorted_append simp del: set_concat)
  moreover have "List.map_filter (call_of (nodes s1)) t2 = List.map_filter (call_of (nodes s)) t2"
    using t2(2) by (intro map_filter_eqI) auto
  then have "calls s2 = calls s @ List.map_filter (call_of (nodes s)) (t1 @ t2)"
    using 1(8) 2(8) by (simp add: map_filter_def)
  moreover have "distinct (t1 @ t2)" "set (concat xss2) = set (concat xss) - set (t1 @ t2)"
    using 1(4,6) 2(4,7) t2(4) by auto
  ultimately show ?case
    using 1(1) 2(1-3) all by (intro exI [of _ s2] exI [of _ xss2] exI [of _ "t1 @ t2"]) simp
qed

section \<open>The destructor\<close>

lemma wheel_delete_loop_ok:
  assumes "chain (nodes s) p xs NULL" and "distinct xs" and "i < length (slots s)"
  shows "\<exists>s'. delete_loop i (hd (xs @ [NULL])) s = Some s' \<and> nodes s' = nodes s |` (- set xs) \<and> length (slots s') = length (slots s) \<and>
    (\<forall>j. j \<noteq> i \<longrightarrow> slots s' ! j = slots s ! j)"
  using assms
proof (induction xs arbitrary: s p)
  case Nil
  then show ?case
    by (simp add: delete_loop.simps restrict_map_def)
next
  case (Cons x xs)
  obtain n where n: "x \<noteq> NULL" "nodes s x = Some n" "nextp n = hd (xs @ [NULL])"
    using Cons.prems(1) by (auto split: option.splits)
  let ?s = "s\<lparr>slots := (slots s)[i := hd (xs @ [NULL])], nodes := (nodes s)(x := None)\<rparr>"
  have "delete_loop i x s = delete_loop i (hd (xs @ [NULL])) ?s"
    by (subst delete_loop.simps) (use n Cons.prems(3) in \<open>simp add: c_simps\<close>)
  moreover have "chain (nodes ?s) x xs NULL"
    by (subst dseg_cong [where h = "nodes s"]) (use Cons.prems in auto)
  then obtain s' where "delete_loop i (hd (xs @ [NULL])) ?s = Some s'" "nodes s' = nodes ?s |` (- set xs)"
      "length (slots s') = length (slots ?s)" "\<forall>j. j \<noteq> i \<longrightarrow> slots s' ! j = slots ?s ! j"
    using Cons.IH [of ?s x] Cons.prems(2,3) unfolding distinct.simps by (auto simp del: fun_upd_apply)
  moreover have "nodes ?s |` (- set xs) = nodes s |` (- set (x # xs))"
    by (simp add: restrict_free del: restrict_fun_upd)
  ultimately show ?case
    by simp
qed

lemma delete_slots_ok:
  assumes "distinct is" and "\<forall>i \<in> set is. i < length (slots s) \<and> slots s ! i = hd (xss ! i @ [NULL]) \<and>
      chain (nodes s) NULL (xss ! i) NULL \<and> distinct (xss ! i)"
    and "\<forall>i \<in> set is. \<forall>j \<in> set is. i \<noteq> j \<longrightarrow> set (xss ! i) \<inter> set (xss ! j) = {}"
  shows "\<exists>s'. delete_slots is s = Some s' \<and> nodes s' = nodes s |` (- (\<Union>i \<in> set is. set (xss ! i)))"
  using assms
proof (induction "is" arbitrary: s)
  case Nil
  then show ?case
    by (simp add: restrict_map_def)
next
  case (Cons i "is")
  obtain s1 where s1: "delete_loop i (hd (xss ! i @ [NULL])) s = Some s1" "nodes s1 = nodes s |` (- set (xss ! i))"
      "length (slots s1) = length (slots s)" "\<forall>j. j \<noteq> i \<longrightarrow> slots s1 ! j = slots s ! j"
    using wheel_delete_loop_ok [of s NULL "xss ! i" i] Cons.prems(2) by auto
  have "j < length (slots s1) \<and> slots s1 ! j = hd (xss ! j @ [NULL]) \<and> chain (nodes s1) NULL (xss ! j) NULL \<and> distinct (xss ! j)"
    if "j \<in> set is" for j
  proof -
    have "j \<noteq> i" "\<forall>x \<in> set (xss ! j). nodes s1 x = nodes s x"
      using that Cons.prems(1,3) s1(2) by (auto simp: restrict_map_def)
    then show ?thesis
      using Cons.prems(2) that s1(3,4) dseg_cong [of "xss ! j" "nodes s1" "nodes s"] by simp
  qed
  then obtain s' where "delete_slots is s1 = Some s'" "nodes s' = nodes s1 |` (- (\<Union>i \<in> set is. set (xss ! i)))"
    using Cons.IH [of s1] Cons.prems by auto
  then show ?case
    using Cons.prems(2) s1(1,2) by (simp add: aget_Some Int_commute Int_assoc)
qed

lemma time_wheel_delete_ok:
  assumes "rep s xss"
  shows "\<exists>s'. time_wheel_delete s = Some s' \<and> nodes s' = nodes s |` (- set (concat xss))"
proof -
  have "set (concat xss) = (\<Union>i \<in> set [0..<N_slots]. set (xss ! i))"
    using stored_iff [of xss] rep_lengths [OF assms] by (intro set_eqI) (auto simp del: set_concat)
  moreover have "set (xss ! i) \<inter> set (xss ! j) = {}" if "i < N_slots" "j < N_slots" "i \<noteq> j" for i j
    using rep_slot_unique [OF assms that(1,2)] that(3) by auto
  ultimately show ?thesis
    using delete_slots_ok [of "[0..<N_slots]" s xss] repD(1-3) [OF assms] rep_lengths [OF assms]
    by (auto simp: time_wheel_delete_def)
qed

section \<open>Properties\<close>

lemma time_wheel_new_rep: "rep (time_wheel_new h) (replicate N_slots [])" "armed (time_wheel_new h) (replicate N_slots [])"
  by (simp_all add: rep_def armed_def time_wheel_new_def)

text \<open>One timer in the wheel, for the concrete runs.\<close>

definition sample_wheel :: time_wheel where
  "sample_wheel = pushed 3 8 ((tw_timer_new 0 3 0)\<lparr>cb_func := Some 1\<rparr>) (time_wheel_new Map.empty)"

lemma sample_wheel_rep: "rep sample_wheel ((replicate N_slots [])[3 := [8]])" "armed sample_wheel ((replicate N_slots [])[3 := [8]])"
proof -
  show "rep sample_wheel ((replicate N_slots [])[3 := [8]])"
    using pushed_rep(1) [OF time_wheel_new_rep(1), of 3 8 Map.empty "(tw_timer_new 0 3 0)\<lparr>cb_func := Some 1\<rparr>"]
    by (simp add: sample_wheel_def tw_timer_new_def time_wheel_new_def N_slots_def)
  have all: "set (concat ((replicate N_slots [])[3 := [8]])) = {8}"
    using stored_update [of "replicate N_slots []" 3 _ "[8]"] by (intro set_eqI) (auto simp: N_slots_def simp del: set_concat)
  show "armed sample_wheel ((replicate N_slots [])[3 := [8]])"
    unfolding armed_def all
    by (simp add: sample_wheel_def pushed_def tw_timer_new_def time_wheel_new_def call_of_def data_def N_slots_def)
qed

text \<open>
  C21: a wheel that is ticked \<open>n\<close> times runs the callbacks of exactly the timers whose
  countdown, full rotations and distance of the slot together, is below \<open>n\<close>, each once and
  in the order of the countdowns; the others stay in the wheel. Unlinking timers while the
  slot is being walked never loses or revisits one.
\<close>

theorem wheel_ticks_fire:
  assumes "rep s xss" and "armed s xss"
  shows "\<exists>s' xss' ts. wheel_ticks n s = Some s' \<and> rep s' xss' \<and> armed s' xss' \<and> distinct ts \<and>
    set ts = {p \<in> set (concat xss). left s p < int n} \<and> sorted (map (left s) ts) \<and>
    set (concat xss') = set (concat xss) - set ts \<and> calls s' = calls s @ List.map_filter (call_of (nodes s)) ts"
  using wheel_ticks_rep [OF assms] .

theorem wheel_ticks_fire_witness:
  "\<exists>s' ts. wheel_ticks 4 sample_wheel = Some s' \<and>
    set ts = {p \<in> set (concat ((replicate N_slots [])[3 := [8]])). left sample_wheel p < 4} \<and>
    calls s' = calls sample_wheel @ List.map_filter (call_of (nodes sample_wheel)) ts"
  using wheel_ticks_fire [OF sample_wheel_rep, of 4] by (elim exE conjE) (intro exI conjI, simp_all)

text \<open>The client sets the callback of the timer it got.\<close>

definition set_callback :: "addr \<Rightarrow> nat \<Rightarrow> nat \<Rightarrow> time_wheel \<Rightarrow> time_wheel option" where
  "set_callback p f u s =
     map_option (\<lambda>h. s\<lparr>nodes := h\<rparr>) (store (\<lambda>n. n\<lparr>cb_func := Some f, user_data := u\<rparr>) (nodes s) p)"

lemma set_callback_ok:
  assumes "rep s xss" and "data (nodes s) p = Some (r, i, c, v)" and "p \<noteq> NULL"
  shows "\<exists>s'. set_callback p f u s = Some s' \<and> rep s' xss \<and> data (nodes s') = (data (nodes s))(p \<mapsto> (r, i, Some f, u)) \<and>
    left s' = left s \<and> calls s' = calls s"
proof -
  obtain n where n: "nodes s p = Some n" "rotation n = r" "time_slot n = i"
    using assms(2) by (auto simp: data_def)
  let ?h = "(nodes s)(p \<mapsto> n\<lparr>cb_func := Some f, user_data := u\<rparr>)"
  have d: "data ?h = (data (nodes s))(p \<mapsto> (r, i, Some f, u))"
    using n by (auto simp: data_def fun_eq_iff)
  have c: "chain ?h q xs NULL = chain (nodes s) q xs NULL" for q xs
    using n(1) by (induction xs arbitrary: q) auto
  have "rep (s\<lparr>nodes := ?h\<rparr>) xss"
    using assms(1,2) unfolding rep_def by (fastforce simp: c d)
  moreover have "left (s\<lparr>nodes := ?h\<rparr>) = left s"
    using assms(2) by (auto simp: left_def rot_def d fun_eq_iff)
  moreover have "set_callback p f u s = Some (s\<lparr>nodes := ?h\<rparr>)"
    using n(1) assms(3) by (simp add: set_callback_def store_Some)
  ultimately show ?thesis
    using d by simp
qed

text \<open>
  C20: a timer that is added with timeout \<open>t\<close>, and given its callback, is still pending after
  any number of ticks up to the greater of 1 and \<open>t\<close>, and has run its callback and left the
  wheel after one more, whatever the position of the wheel and however many rotations the
  timeout needs.
\<close>

theorem wheel_timeout:
  assumes "rep s xss" and "armed s xss" and "0 \<le> t" and "malloc_ok malloc" and "malloc (nodes s) \<noteq> NULL"
  shows "\<exists>p s1 s2 s3 xss3 ts. add_timer malloc junk t s = Some (Val (p, s1)) \<and> set_callback p f u s1 = Some s2 \<and>
    wheel_ticks n s2 = Some s3 \<and> rep s3 xss3 \<and> (p \<in> set (concat xss3) \<longleftrightarrow> int n \<le> max 1 t) \<and>
    calls s3 = calls s @ List.map_filter (call_of (nodes s2)) ts \<and> distinct ts \<and> call_of (nodes s2) p = Some (f, u) \<and>
    (p \<in> set ts \<longleftrightarrow> max 1 t < int n)"
proof -
  let ?p = "malloc (nodes s)"
  obtain s1 xss1 r i where 1: "add_timer malloc junk t s = Some (Val (?p, s1))" "rep s1 xss1"
      "set (concat xss1) = insert ?p (set (concat xss))" "left s1 ?p = max 1 t"
      "data (nodes s1) = (data (nodes s))(?p \<mapsto> (r, i, None, junk))" "calls s1 = calls s"
    using wheel_add_timer_rep [OF assms(1,3,4) refl assms(5), of junk] by (elim exE conjE)
  then have p: "data (nodes s1) ?p = Some (r, i, None, junk)"
    by simp
  obtain s2 where 2: "set_callback ?p f u s1 = Some s2" "rep s2 xss1" "data (nodes s2) = (data (nodes s))(?p \<mapsto> (r, i, Some f, u))"
      "left s2 = left s1" "calls s2 = calls s"
    using set_callback_ok [OF 1(2) p assms(5), of f u] 1(5,6) by auto
  have call: "call_of (nodes s2) ?p = Some (f, u)" and "armed s2 xss1"
    using assms(2) 1(3) 2(3) by (auto simp: armed_def call_of_def simp del: set_concat)
  obtain s3 xss3 ts where 3: "wheel_ticks n s2 = Some s3" "rep s3 xss3" "distinct ts"
      "set ts = {p \<in> set (concat xss1). left s2 p < int n}" "set (concat xss3) = set (concat xss1) - set ts"
      "calls s3 = calls s2 @ List.map_filter (call_of (nodes s2)) ts"
    using wheel_ticks_rep [OF 2(2) \<open>armed s2 xss1\<close>, of n] by (elim exE conjE)
  have "?p \<in> set (concat xss1)" "left s2 ?p = max 1 t"
    using 1(3,4) 2(4) by auto
  then have ts: "?p \<in> set ts \<longleftrightarrow> max 1 t < int n" "?p \<in> set (concat xss3) \<longleftrightarrow> int n \<le> max 1 t"
    using 3(4,5) by auto
  show ?thesis
    using 1(1) 2(1,5) 3(1-3,6) call ts by (intro exI conjI) simp_all
qed

theorem wheel_timeout_witness:
  "\<exists>p s1 s2 s3. add_timer bump_malloc 0 61 (time_wheel_new Map.empty) = Some (Val (p, s1)) \<and>
    set_callback p 1 7 s1 = Some s2 \<and> wheel_ticks 62 s2 = Some s3"
  using wheel_timeout [OF time_wheel_new_rep, of 61 bump_malloc Map.empty 0 1 7 62] bump_malloc_ok(1)
  by (fastforce simp: bump_malloc_def time_wheel_new_def)

text \<open>
  Deleting a stored timer unlinks and frees exactly that timer, wherever it hangs in
  its slot, and leaves the countdown of every other one alone; the destructor frees every
  timer that is still stored and nothing else.
\<close>

theorem wheel_del_frees:
  assumes "rep s xss" and "p \<in> set (concat xss)"
  shows "\<exists>s1 xss1 s2. del_timer p s = Some s1 \<and> rep s1 xss1 \<and> set (concat xss1) = set (concat xss) - {p} \<and>
    data (nodes s1) = (data (nodes s))(p := None) \<and> (\<forall>q. q \<noteq> p \<longrightarrow> left s1 q = left s q) \<and> calls s1 = calls s \<and>
    time_wheel_delete s1 = Some s2 \<and> nodes s2 = nodes s1 |` (- set (concat xss1))"
proof -
  note len = rep_lengths [OF assms(1)]
  obtain i where i: "i < N_slots" "p \<in> set (xss ! i)"
    using assms(2) stored_iff [of xss p] len by auto
  obtain s1 where s1: "del_timer p s = Some s1" "rep s1 (xss[i := remove1 p (xss ! i)])"
      "data (nodes s1) = (data (nodes s))(p := None)" "calls s1 = calls s" "cur_slot s1 = cur_slot s"
    using wheel_del_timer_rep [OF assms(1) i] by blast
  have "set (remove1 p (xss ! i)) = set (xss ! i) - {p}"
    using repD(3) [OF assms(1) i(1)] by simp
  moreover have "p \<notin> set (xss ! j)" if "j < N_slots" "j \<noteq> i" for j
    using rep_slot_unique [OF assms(1) that(1) i(1) _ i(2)] that(2) by auto
  ultimately have "set (concat (xss[i := remove1 p (xss ! i)])) = set (concat xss) - {p}"
    using stored_update [of xss i _ "remove1 p (xss ! i)"] stored_update [of xss i _ "xss ! i"] len i(1)
    by (intro set_eqI) (auto simp del: set_concat)
  moreover have "\<forall>q. q \<noteq> p \<longrightarrow> left s1 q = left s q"
    by (simp add: left_def rot_def s1(3,5))
  ultimately show ?thesis
    using s1(1-4) time_wheel_delete_ok [OF s1(2)] by blast
qed

theorem wheel_del_frees_witness: "\<exists>s1. del_timer 8 sample_wheel = Some s1"
proof -
  have "8 \<in> set (concat ((replicate N_slots [])[3 := [8]]))"
    using stored_update [of "replicate N_slots []" 3 8 "[8]"] by (simp add: N_slots_def)
  then show ?thesis
    using wheel_del_frees [OF sample_wheel_rep(1)] by blast
qed

end
