(* ===== verification/C_String.thy ===== *)
theory C_String
  imports C_Prelude
begin

text \<open>
  Strings in a byte buffer: an offset into the buffer stands for the pointer, the string
  ends before the next zero byte. The functions are those of \<^verbatim>\<open>string.h\<close> that the HTTP
  parsers call; \<open>None\<close> is reading past the end of the buffer.
\<close>

abbreviation NUL :: char where "NUL \<equiv> CHR 0x00"
abbreviation CR :: char where "CR \<equiv> CHR 0x0D"
abbreviation LF :: char where "LF \<equiv> CHR 0x0A"

definition cstr :: "char list \<Rightarrow> nat \<Rightarrow> string option" where
  "cstr b i = (if NUL \<in> set (drop i b) then Some (takeWhile (\<lambda>c. c \<noteq> NUL) (drop i b)) else None)"

text \<open>\<^verbatim>\<open>tolower\<close> in the C locale.\<close>

definition lower :: "char \<Rightarrow> char" where
  "lower c = (let n = of_char c :: nat in if 65 \<le> n \<and> n \<le> 90 then char_of (n + 32) else c)"

text \<open>Equal up to the case of letters.\<close>

definition same_ci :: "string \<Rightarrow> string \<Rightarrow> bool" where
  "same_ci s t \<longleftrightarrow> map lower s = map lower t"

definition strpbrk :: "char list \<Rightarrow> nat \<Rightarrow> string \<Rightarrow> nat option option" where
  "strpbrk b i acc = do {
     s \<leftarrow> cstr b i;
     let k = length (takeWhile (\<lambda>c. c \<notin> set acc) s) in
     Some (if k < length s then Some (i + k) else None) }"

definition strspn :: "char list \<Rightarrow> nat \<Rightarrow> string \<Rightarrow> nat option" where
  "strspn b i acc = map_option (\<lambda>s. length (takeWhile (\<lambda>c. c \<in> set acc) s)) (cstr b i)"

definition strchr :: "char list \<Rightarrow> nat \<Rightarrow> char \<Rightarrow> nat option option" where
  "strchr b i ch = do {
     s \<leftarrow> cstr b i;
     let k = length (takeWhile (\<lambda>c. c \<noteq> ch) s) in
     Some (if k < length s then Some (i + k) else None) }"

text \<open>Whether \<^verbatim>\<open>strcasecmp\<close> and \<^verbatim>\<open>strncasecmp\<close> return 0.\<close>

definition strcasecmp_eq :: "char list \<Rightarrow> nat \<Rightarrow> string \<Rightarrow> bool option" where
  "strcasecmp_eq b i t = map_option (\<lambda>s. same_ci s t) (cstr b i)"

definition strncasecmp_eq :: "char list \<Rightarrow> nat \<Rightarrow> string \<Rightarrow> nat \<Rightarrow> bool option" where
  "strncasecmp_eq b i t n = map_option (\<lambda>s. same_ci (take n s) (take n t)) (cstr b i)"

section \<open>Laws\<close>

named_theorems cstr_simps \<open>what is read of a string whose contents are known\<close>

lemma takeWhile_NUL: "NUL \<notin> set s \<Longrightarrow> takeWhile (\<lambda>c. c \<noteq> NUL) (s @ NUL # post) = s"
  by (subst takeWhile_append2) auto

lemma cstr_iff: "cstr b i = Some s \<longleftrightarrow> NUL \<notin> set s \<and> (\<exists>post. drop i b = s @ NUL # post)"
proof
  assume c: "cstr b i = Some s"
  then have "NUL \<in> set (drop i b)"
    by (simp add: cstr_def split: if_splits)
  then obtain ys post where y: "drop i b = ys @ NUL # post" "NUL \<notin> set ys"
    using split_list_first by metis
  then have "s = ys"
    using c takeWhile_NUL [of ys post] by (simp add: cstr_def)
  then show "NUL \<notin> set s \<and> (\<exists>post. drop i b = s @ NUL # post)"
    using y by blast
qed (auto simp: cstr_def takeWhile_NUL)

lemma cstrE:
  assumes "cstr b i = Some s"
  obtains post where "NUL \<notin> set s" and "drop i b = s @ NUL # post" and "i + length s < length b"
proof -
  obtain post where p: "NUL \<notin> set s" "drop i b = s @ NUL # post"
    using assms cstr_iff by blast
  then have "length b - i = length s + Suc (length post)"
    using length_drop [of i b] by simp
  then have "i + length s < length b"
    by linarith
  then show ?thesis
    using that p by blast
qed

lemma cstr_length: "cstr b i = Some s \<Longrightarrow> i + length s < length b"
  by (erule cstrE)

lemma cstr_no_NUL: "cstr b i = Some s \<Longrightarrow> NUL \<notin> set s"
  by (erule cstrE)

lemma cstr_nth:
  assumes "cstr b i = Some s" and "k < length s"
  shows "b ! (i + k) = s ! k"
proof -
  obtain post where p: "drop i b = s @ NUL # post" "i + length s < length b"
    using cstrE [OF assms(1)] by metis
  then have "b ! (i + k) = drop i b ! k"
    by (subst nth_drop) simp_all
  then show ?thesis
    using p(1) assms(2) by (simp add: nth_append)
qed

lemma cstr_end:
  assumes "cstr b i = Some s"
  shows "b ! (i + length s) = NUL"
proof -
  obtain post where p: "drop i b = s @ NUL # post" "i + length s < length b"
    using cstrE [OF assms(1)] by metis
  then have "b ! (i + length s) = drop i b ! length s"
    by (subst nth_drop) simp_all
  then show ?thesis
    using p(1) by simp
qed

lemma cstr_cong:
  assumes "cstr b i = Some s" and "length b' = length b" and "\<forall>j. i \<le> j \<and> j \<le> i + length s \<longrightarrow> b' ! j = b ! j"
  shows "cstr b' i = Some s"
proof -
  have len: "i + length s < length b'"
    using cstr_length [OF assms(1)] assms(2) by simp
  have "take (length s) (drop i b') = s"
    by (rule nth_equalityI) (use len assms(3) cstr_nth [OF assms(1)] in auto)
  moreover have "drop (length s) (drop i b') = drop (i + length s) b'"
    by (simp add: add.commute)
  moreover have "drop (i + length s) b' = NUL # drop (Suc (i + length s)) b'"
    using Cons_nth_drop_Suc [OF len] assms(3) cstr_end [OF assms(1)] by simp
  ultimately have "drop i b' = s @ NUL # drop (Suc (i + length s)) b'"
    using append_take_drop_id [of "length s" "drop i b'"] by simp
  then show ?thesis
    using cstr_no_NUL [OF assms(1)] cstr_iff by blast
qed

lemma cstr_drop:
  assumes "cstr b i = Some s" and "k \<le> length s"
  shows "cstr b (i + k) = Some (drop k s)"
proof -
  obtain post where p: "NUL \<notin> set s" "drop i b = s @ NUL # post"
    using cstrE [OF assms(1)] by metis
  have "drop (i + k) b = drop k (drop i b)"
    by (simp add: add.commute)
  also have "\<dots> = drop k s @ NUL # post"
    using p(2) assms(2) by simp
  finally show ?thesis
    using p(1) by (auto simp: cstr_iff dest: in_set_dropD)
qed

lemma cstr_upd_before: "j < i \<Longrightarrow> cstr (b[j := x]) i = cstr b i"
  by (simp add: cstr_def drop_update_cancel)

lemma cstr_cut:
  assumes "cstr b i = Some s" and "k < length s"
  shows "cstr (b[i + k := NUL]) i = Some (take k s)"
proof -
  obtain post where s: "drop i b = s @ NUL # post" "NUL \<notin> set s"
    using assms(1) cstr_iff by blast
  have "drop i (b[i + k := NUL]) = (s @ NUL # post)[k := NUL]"
    using s(1) by (simp add: drop_update_swap)
  also have "\<dots> = take k s @ NUL # (drop (Suc k) s @ NUL # post)"
    using assms(2) by (simp add: list_update_append upd_conv_take_nth_drop)
  finally show ?thesis
    using s(2) by (auto simp: cstr_iff dest: in_set_takeD)
qed

lemma strpbrk_Some [cstr_simps]: "cstr b i = Some s \<Longrightarrow> strpbrk b i acc =
    Some (if length (takeWhile (\<lambda>c. c \<notin> set acc) s) < length s then Some (i + length (takeWhile (\<lambda>c. c \<notin> set acc) s)) else None)"
  by (simp add: strpbrk_def)

lemma strspn_Some [cstr_simps]: "cstr b i = Some s \<Longrightarrow> strspn b i acc = Some (length (takeWhile (\<lambda>c. c \<in> set acc) s))"
  by (simp add: strspn_def)

lemma strchr_Some [cstr_simps]: "cstr b i = Some s \<Longrightarrow> strchr b i ch =
    Some (if length (takeWhile (\<lambda>c. c \<noteq> ch) s) < length s then Some (i + length (takeWhile (\<lambda>c. c \<noteq> ch) s)) else None)"
  by (simp add: strchr_def)

lemma strcasecmp_Some [cstr_simps]: "cstr b i = Some s \<Longrightarrow> strcasecmp_eq b i t = Some (same_ci s t)"
  by (simp add: strcasecmp_eq_def)

lemma strncasecmp_Some [cstr_simps]:
  "cstr b i = Some s \<Longrightarrow> strncasecmp_eq b i t n = Some (same_ci (take n s) (take n t))"
  by (simp add: strncasecmp_eq_def)

lemma same_ci_length: "same_ci s t \<Longrightarrow> length s = length t"
  by (auto simp: same_ci_def dest: map_eq_imp_length_eq)

lemma same_ci_take: "same_ci (take n s) t \<Longrightarrow> length t = n \<Longrightarrow> n \<le> length s"
  by (drule same_ci_length) simp

lemma length_takeWhile_less_iff: "length (takeWhile P s) < length s \<longleftrightarrow> (\<exists>c \<in> set s. \<not> P c)"
  by (induction s) auto

lemma drop_length_takeWhile: "drop (length (takeWhile P s)) s = dropWhile P s"
  by (simp add: dropWhile_eq_drop)

end
