(* ===== verification/HTTP_Line.thy ===== *)
theory HTTP_Line
  imports C_String
begin

text \<open>
  What the two HTTP parsers share: the line scanner, which both sources have in the same
  words, its specification, and the analysis of a request line.
\<close>

section \<open>The line scanner\<close>

datatype CHECK_STATE = CHECK_STATE_REQUESTLINE | CHECK_STATE_HEADER | CHECK_STATE_CONTENT

datatype LINE_STATUS = LINE_OK | LINE_BAD | LINE_OPEN

text \<open>Returns the status, the buffer and \<open>checked_index\<close>.\<close>

function parse_line :: "char list \<Rightarrow> nat \<Rightarrow> nat \<Rightarrow> (LINE_STATUS \<times> char list \<times> nat) option" where
  "parse_line b checked_index read_index =
     (if checked_index < read_index then do {
        temp \<leftarrow> aget b checked_index;
        (if temp = CR then
           if checked_index + 1 = read_index then Some (LINE_OPEN, b, checked_index)
           else do {
             t \<leftarrow> aget b (checked_index + 1);
             (if t = LF then do {
                b \<leftarrow> aput b checked_index NUL;
                b \<leftarrow> aput b (checked_index + 1) NUL;
                Some (LINE_OK, b, checked_index + 2) }
              else Some (LINE_BAD, b, checked_index)) }
         else if temp = LF then do {
           after_cr \<leftarrow>
             (if checked_index > 1 then do { t \<leftarrow> aget b (checked_index - 1); Some (t = CR) } else Some False);
           (if after_cr then do {
              b \<leftarrow> aput b (checked_index - 1) NUL;
              b \<leftarrow> aput b checked_index NUL;
              Some (LINE_OK, b, checked_index + 1) }
            else Some (LINE_BAD, b, checked_index)) }
         else parse_line b (checked_index + 1) read_index) }
      else Some (LINE_OPEN, b, checked_index))"
  by pat_completeness auto
termination
  by (relation "measure (\<lambda>(b, c, r). r - c)") auto

declare parse_line.simps [simp del]

text \<open>The separators \<^verbatim>\<open>" \t"\<close>.\<close>

definition BLANKS :: string where
  "BLANKS = [CHR 0x20, CHR 0x09]"

section \<open>The specification\<close>

text \<open>The first line of the bytes so far, and the rest: a line ends with CR LF, and neither occurs alone.\<close>

datatype cut = Open | Bad | Line string string

fun cut_line :: "string \<Rightarrow> cut" where
  "cut_line [] = Open"
| "cut_line (c # cs) =
     (if c = CR then (case cs of [] \<Rightarrow> Open | d # ds \<Rightarrow> if d = LF then Line [] ds else Bad)
      else if c = LF then Bad
      else (case cut_line cs of Line l r \<Rightarrow> Line (c # l) r | x \<Rightarrow> x))"

text \<open>A line ends at a zero byte inside it.\<close>

abbreviation visible :: "string \<Rightarrow> string" where
  "visible l \<equiv> takeWhile (\<lambda>c. c \<noteq> NUL) l"

definition blank :: "char \<Rightarrow> bool" where
  "blank c \<longleftrightarrow> c = CHR 0x20 \<or> c = CHR 0x09"

text \<open>An absolute URL stands for its path.\<close>

definition url_of :: "string \<Rightarrow> string" where
  "url_of u = (if same_ci (take 7 u) ''http://'' then dropWhile (\<lambda>c. c \<noteq> CHR ''/'') (drop 7 u) else u)"

definition url_ok :: "string \<Rightarrow> bool" where
  "url_ok u \<longleftrightarrow> url_of u \<noteq> [] \<and> hd (url_of u) = CHR ''/''"

definition request_ok :: "string \<Rightarrow> bool" where
  "request_ok l \<longleftrightarrow>
     (let m = takeWhile (\<lambda>c. \<not> blank c) l;
          r = dropWhile blank (tl (dropWhile (\<lambda>c. \<not> blank c) l));
          u = takeWhile (\<lambda>c. \<not> blank c) r;
          v = dropWhile blank (tl (dropWhile (\<lambda>c. \<not> blank c) r))
      in (\<exists>c \<in> set l. blank c) \<and> same_ci m ''GET'' \<and> (\<exists>c \<in> set r. blank c) \<and> same_ci v ''HTTP/1.1'' \<and> url_ok u)"

text \<open>The second word of a line.\<close>

definition target :: "string \<Rightarrow> string" where
  "target l = takeWhile (\<lambda>c. \<not> blank c) (dropWhile blank (tl (dropWhile (\<lambda>c. \<not> blank c) l)))"

lemma cut_line_shorter: "cut_line bs = Line l r \<Longrightarrow> length r < length bs"
  by (induction bs arbitrary: l) (auto split: if_splits list.splits cut.splits)

lemma cut_line_append:
  "cut_line xs = Bad \<Longrightarrow> cut_line (xs @ ys) = Bad"
  "cut_line xs = Line l r \<Longrightarrow> cut_line (xs @ ys) = Line l (r @ ys)"
  by (induction xs arbitrary: l) (auto split: if_splits list.splits cut.splits)

section \<open>The request line\<close>

lemma blanks [simp]: "c \<in> set BLANKS \<longleftrightarrow> blank c"
  by (auto simp: BLANKS_def blank_def)

text \<open>Cutting a string at its first blank.\<close>

lemma cut_at_blank:
  assumes "cstr b i = Some s" and "\<exists>c \<in> set s. blank c" and "k = length (takeWhile (\<lambda>c. \<not> blank c) s)"
    and "r = dropWhile blank (tl (dropWhile (\<lambda>c. \<not> blank c) s))"
    and "j = length (takeWhile blank (tl (dropWhile (\<lambda>c. \<not> blank c) s)))" and "b' = b[i + k := NUL]"
  shows "strpbrk b i BLANKS = Some (Some (i + k))" and "aput b (i + k) NUL = Some b'"
    and "cstr b' i = Some (takeWhile (\<lambda>c. \<not> blank c) s)" and "strspn b' (i + k + 1) BLANKS = Some j"
    and "cstr b' (i + k + 1 + j) = Some r" and "k + 1 + j + length r = length s"
proof -
  have k: "k < length s"
    using assms(2,3) length_takeWhile_less_iff [of "\<lambda>c. \<not> blank c" s] by auto
  then show "strpbrk b i BLANKS = Some (Some (i + k))"
    using assms(1,3) by (simp add: strpbrk_Some)
  have "i + length s < length b"
    using cstrE [OF assms(1)] by blast
  then show "aput b (i + k) NUL = Some b'"
    using k assms(6) by (simp add: aput_def)
  have "take k s = takeWhile (\<lambda>c. \<not> blank c) s"
    unfolding assms(3) by (rule takeWhile_eq_take [symmetric])
  then show "cstr b' i = Some (takeWhile (\<lambda>c. \<not> blank c) s)"
    using cstr_cut [OF assms(1) k] assms(6) by simp
  have t: "tl (dropWhile (\<lambda>c. \<not> blank c) s) = drop (k + 1) s"
    using drop_length_takeWhile [of "\<lambda>c. \<not> blank c" s] assms(3) by (simp add: drop_Suc drop_tl tl_drop)
  have "cstr b' (i + k + 1) = cstr b (i + (k + 1))"
    using assms(6) by (simp add: cstr_upd_before)
  then have c: "cstr b' (i + k + 1) = Some (drop (k + 1) s)"
    using cstr_drop [OF assms(1), of "k + 1"] k by simp
  then show "strspn b' (i + k + 1) BLANKS = Some j"
    using assms(5) t by (simp add: strspn_Some)
  have j: "j \<le> length (drop (k + 1) s)" "r = drop j (drop (k + 1) s)"
    using length_takeWhile_le [of blank "drop (k + 1) s"] drop_length_takeWhile [of blank "drop (k + 1) s"]
    unfolding assms(4,5) t by simp_all
  then show "cstr b' (i + k + 1 + j) = Some r"
    using cstr_drop [OF c, of j] by simp
  show "k + 1 + j + length r = length s"
    using j k by simp
qed

text \<open>The last step: an absolute URL loses its scheme and host.\<close>

lemma url_check:
  assumes "cstr b i = Some u"
  shows "(do {
      absolute \<leftarrow> strncasecmp_eq b i ''http://'' 7;
      szURL \<leftarrow> (if absolute then strchr b (i + 7) (CHR ''/'') else Some (Some i));
      (case szURL of
         None \<Rightarrow> Some x
       | Some szURL \<Rightarrow> do { c \<leftarrow> aget b szURL; (if c \<noteq> CHR ''/'' then Some (z szURL) else Some (y szURL)) }) }) =
    Some (if url_of u = [] \<and> same_ci (take 7 u) ''http://'' then x
      else if url_ok u then y (i + (length u - length (url_of u))) else z (i + (length u - length (url_of u))))"
proof (cases "same_ci (take 7 u) ''http://''")
  case True
  then have len: "7 \<le> length u"
    using same_ci_take by simp
  then have c: "cstr b (i + 7) = Some (drop 7 u)"
    using cstr_drop [OF assms, of 7] by simp
  let ?k = "length (takeWhile (\<lambda>c. c \<noteq> CHR ''/'') (drop 7 u))" and ?u = "dropWhile (\<lambda>c. c \<noteq> CHR ''/'') (drop 7 u)"
  show ?thesis
  proof (cases "?k < length (drop 7 u)")
    case True
    then have "b ! (i + 7 + ?k) = CHR ''/''" "i + 7 + ?k < length b"
      using cstr_nth [OF c True] nth_length_takeWhile [OF True] cstr_length [OF c] True by auto
    moreover have "?u \<noteq> []"
      using True length_takeWhile_less_iff [of _ "drop 7 u"] by (auto simp: dropWhile_eq_Nil_conv)
    moreover from this have "hd ?u = CHR ''/''"
      using hd_dropWhile by blast
    moreover have "length u - length ?u = 7 + ?k"
      using len takeWhile_dropWhile_id [of "\<lambda>c. c \<noteq> CHR ''/''" "drop 7 u"]
        length_append [of "takeWhile (\<lambda>c. c \<noteq> CHR ''/'') (drop 7 u)" ?u] by simp
    ultimately show ?thesis
      using \<open>same_ci (take 7 u) ''http://''\<close> True c assms
      by (simp add: strncasecmp_Some strchr_Some aget_def url_ok_def url_of_def add.assoc del: dropWhile_eq_Nil_conv)
  next
    case False
    then have "?u = []"
      using length_takeWhile_less_iff [of "\<lambda>c. c \<noteq> CHR ''/''" "drop 7 u"] by (auto simp: dropWhile_eq_Nil_conv)
    then show ?thesis
      using \<open>same_ci (take 7 u) ''http://''\<close> False c assms
      by (simp add: strncasecmp_Some strchr_Some url_of_def del: dropWhile_eq_Nil_conv)
  qed
next
  case False
  have "i < length b" "b ! i = (if u = [] then NUL else hd u)"
    using cstr_length [OF assms] cstr_nth [OF assms, of 0] cstr_end [OF assms] by (auto simp: hd_conv_nth)
  then show ?thesis
    using False assms by (auto simp: strncasecmp_Some aget_def url_ok_def url_of_def)
qed

lemma url_ok_not_Nil: "url_of u = [] \<Longrightarrow> \<not> url_ok u"
  by (simp add: url_ok_def)

lemma url_of_suffix: "drop (length u - length (url_of u)) u = url_of u" "length (url_of u) \<le> length u"
proof -
  obtain pre where pre: "u = pre @ url_of u"
  proof (cases "same_ci (take 7 u) ''http://''")
    case True
    then have "u = (take 7 u @ takeWhile (\<lambda>c. c \<noteq> CHR ''/'') (drop 7 u)) @ url_of u"
      by (simp add: url_of_def)
    then show ?thesis
      using that by blast
  next
    case False
    then show ?thesis
      using that [of "[]"] by (simp add: url_of_def)
  qed
  then have "length u = length pre + length (url_of u)"
    using length_append by metis
  then show "drop (length u - length (url_of u)) u = url_of u" "length (url_of u) \<le> length u"
    using pre append_eq_conv_conj [of pre "url_of u" u] by simp_all
qed

lemma no_blank: "cstr b i = Some s \<Longrightarrow> \<not> (\<exists>c \<in> set s. blank c) \<Longrightarrow> strpbrk b i BLANKS = Some None"
  using length_takeWhile_less_iff [of "\<lambda>c. \<not> blank c" s] by (simp add: strpbrk_Some)

section \<open>Lines\<close>

definition segment :: "'a list \<Rightarrow> nat \<Rightarrow> nat \<Rightarrow> 'a list" where
  "segment b i j = take (j - i) (drop i b)"

lemma segment_Cons: "i < j \<Longrightarrow> j \<le> length b \<Longrightarrow> segment b i j = b ! i # segment b (Suc i) j"
  by (simp add: segment_def take_Cons' Cons_nth_drop_Suc [symmetric])

lemma segment_append: "i \<le> k \<Longrightarrow> k \<le> j \<Longrightarrow> j \<le> length b \<Longrightarrow> segment b i j = segment b i k @ segment b k j"
proof -
  assume a: "i \<le> k" "k \<le> j" "j \<le> length b"
  have "take (j - i) (drop i b) = take (k - i) (drop i b) @ take (j - i - (k - i)) (drop (k - i) (drop i b))"
    using a by (metis diff_le_mono le_add_diff_inverse take_add)
  then show ?thesis
    using a by (simp add: segment_def)
qed

lemma segment_empty [simp]: "segment b i i = []"
  by (simp add: segment_def)

lemma length_segment [simp]: "j \<le> length b \<Longrightarrow> length (segment b i j) = j - i"
  by (simp add: segment_def)

lemma set_segment: "j \<le> length b \<Longrightarrow> x \<in> set (segment b i j) \<longleftrightarrow> (\<exists>k. i \<le> k \<and> k < j \<and> b ! k = x)"
proof
  assume j: "j \<le> length b" and "x \<in> set (segment b i j)"
  then obtain m where "m < j - i" "segment b i j ! m = x"
    by (auto simp: in_set_conv_nth)
  then show "\<exists>k. i \<le> k \<and> k < j \<and> b ! k = x"
    using j by (intro exI [of _ "i + m"]) (simp add: segment_def)
next
  assume j: "j \<le> length b" and "\<exists>k. i \<le> k \<and> k < j \<and> b ! k = x"
  then obtain k where "i \<le> k" "k < j" "b ! k = x"
    by blast
  then show "x \<in> set (segment b i j)"
    using j by (auto simp: in_set_conv_nth segment_def intro!: exI [of _ "k - i"])
qed

lemma segment_cong: "\<forall>k. i \<le> k \<and> k < j \<longrightarrow> b' ! k = b ! k \<Longrightarrow> length b' = length b \<Longrightarrow> j \<le> length b \<Longrightarrow> segment b' i j = segment b i j"
  by (rule nth_equalityI) (auto simp: segment_def)

text \<open>The bytes from \<open>start_line\<close> to \<open>checked_index\<close> hold no line end, and none is cut in two before them.\<close>

definition line_inv :: "char list \<Rightarrow> nat \<Rightarrow> nat \<Rightarrow> nat \<Rightarrow> bool" where
  "line_inv b start c r \<longleftrightarrow> start \<le> c \<and> c \<le> r \<and> r \<le> length b \<and>
     (\<forall>j. start \<le> j \<and> j < c \<longrightarrow> b ! j \<noteq> CR \<and> b ! j \<noteq> LF) \<and> (0 < start \<longrightarrow> b ! (start - 1) \<noteq> CR)"

lemma cut_line_prefix:
  "CR \<notin> set xs \<Longrightarrow> LF \<notin> set xs \<Longrightarrow> cut_line (xs @ ys) = (case cut_line ys of Line l r \<Rightarrow> Line (xs @ l) r | x \<Rightarrow> x)"
  by (induction xs) (auto split: cut.splits)

lemma line_inv_cut:
  assumes "line_inv b start c r"
  shows "cut_line (segment b start r) = (case cut_line (segment b c r) of Line l r \<Rightarrow> Line (segment b start c @ l) r | x \<Rightarrow> x)"
proof -
  have "CR \<notin> set (segment b start c)" "LF \<notin> set (segment b start c)"
    using assms set_segment [of c b _ start] by (auto simp: line_inv_def)
  then show ?thesis
    using assms segment_append [of start c r b] cut_line_prefix by (simp add: line_inv_def)
qed

text \<open>The branch for a line feed whose carriage return came with an earlier piece is never taken.\<close>

lemma no_late_lf: "line_inv b start c r \<Longrightarrow> 1 < c \<Longrightarrow> b ! (c - 1) \<noteq> CR"
  by (cases "c = start") (auto simp: line_inv_def)

definition line_result :: "char list \<Rightarrow> nat \<Rightarrow> nat \<Rightarrow> (LINE_STATUS \<times> char list \<times> nat) option \<Rightarrow> bool" where
  "line_result b start r res \<longleftrightarrow> (case cut_line (segment b start r) of
     Open \<Rightarrow> \<exists>c. res = Some (LINE_OPEN, b, c) \<and> line_inv b start c r
   | Bad \<Rightarrow> \<exists>c. res = Some (LINE_BAD, b, c) \<and> line_inv b start c r
   | Line l rest \<Rightarrow> res = Some (LINE_OK, b[start + length l := NUL, start + length l + 1 := NUL], start + length l + 2) \<and>
       start + length l + 2 \<le> r \<and> segment b start (start + length l) = l \<and> segment b (start + length l + 2) r = rest)"

lemma parse_line_ok: "line_inv b start c r \<Longrightarrow> line_result b start r (parse_line b c r)"
proof (induction b c r rule: parse_line.induct)
  case (1 b c r)
  note inv = "1.prems" and cut = line_inv_cut [OF "1.prems"]
  have i: "start \<le> c" "c \<le> r" "r \<le> length b"
    using inv by (auto simp: line_inv_def)
  show ?case
  proof (cases "c < r")
    case False
    then have "segment b c r = []" "parse_line b c r = Some (LINE_OPEN, b, c)"
      using i by (simp add: segment_def) (subst parse_line.simps, simp add: False)
    then show ?thesis
      using inv cut by (auto simp: line_result_def)
  next
    case True
    then have c: "aget b c = Some (b ! c)" "segment b c r = b ! c # segment b (Suc c) r"
      using i segment_Cons [of c r b] by (auto simp: aget_def)
    consider "b ! c = CR" "Suc c = r" | "b ! c = CR" "Suc c < r" | "b ! c = LF" | "b ! c \<noteq> CR" "b ! c \<noteq> LF"
      using True by linarith
    then show ?thesis
    proof cases
      case 1
      then show ?thesis
        using inv cut c True by (auto simp: line_result_def parse_line.simps [of b c r])
    next
      case 2
      then have n: "aget b (c + 1) = Some (b ! Suc c)" "segment b (Suc c) r = b ! Suc c # segment b (Suc (Suc c)) r"
        using i segment_Cons [of "Suc c" r b] by (auto simp: aget_def)
      show ?thesis
      proof (cases "b ! Suc c = LF")
        case True
        have "start + length (segment b start c) = c"
          using i by simp
        then show ?thesis
          using 2 True c(2) n(2) cut i c(1) n(1) \<open>c < r\<close>
          by (simp add: line_result_def parse_line.simps [of b c r] aput_def)
      next
        case False
        then show ?thesis
          using 2 c n cut inv \<open>c < r\<close> by (simp add: line_result_def parse_line.simps [of b c r])
      qed
    next
      case 3
      have "aget b (c - 1) = Some (b ! (c - 1))"
        using True i by (simp add: aget_def)
      then show ?thesis
        using 3 c cut True inv no_late_lf [OF inv] by (auto simp: line_result_def parse_line.simps [of b c r])
    next
      case 4
      have "line_inv b start (c + 1) r"
        using inv True 4 by (auto simp: line_inv_def less_Suc_eq)
      then show ?thesis
        using "1.IH" [OF True c(1) 4] True c(1) 4 by (simp add: parse_line.simps [of b c r])
    qed
  qed
qed

lemma visible_append: "visible (l @ NUL # post) = visible l"
  by (induction l) auto

lemma cstr_visible: "drop i b = l @ NUL # post \<Longrightarrow> cstr b i = Some (visible l)"
  by (simp add: cstr_def visible_append)

text \<open>A line that was cut off, as a C string, and the bytes behind it.\<close>

lemma cut_off:
  assumes "segment b i (i + length l) = l" and "i + length l + 2 \<le> length b" and "e = i + length l"
    and "b' = b[e := NUL, e + 1 := NUL]"
  shows "cstr b' i = Some (visible l)"
proof -
  have "drop i b = l @ drop e b"
    using assms(1,3) append_take_drop_id [of "length l" "drop i b"] by (simp add: segment_def add.commute)
  then have "drop i b' = (l @ drop e b)[length l := NUL, length l + 1 := NUL]"
    using assms(3,4) by (simp add: drop_update_swap)
  also have "\<dots> = l @ NUL # NUL # drop (e + 2) b"
    using assms(2,3) by (simp add: list_update_append Cons_nth_drop_Suc [symmetric])
  finally show ?thesis
    using cstr_visible by blast
qed

text \<open>A whole line: what \<^verbatim>\<open>parse_line\<close> returns, and the bytes in which the next line is looked for.\<close>

lemma whole_line:
  assumes "line_inv b i c r" and "cut_line (segment b i r) = Line l rest"
  obtains b' e where "parse_line b c r = Some (LINE_OK, b', e)" and "cstr b' i = Some (visible l)" and "length b' = length b"
    and "i + length l + 2 = e" and "e \<le> r"
    and "\<And>b2. length b2 = length b \<Longrightarrow> \<forall>j. i + length (visible l) \<le> j \<longrightarrow> b2 ! j = b' ! j \<Longrightarrow>
      line_inv b2 e e r \<and> segment b2 e r = rest"
    and "\<forall>j < i. b' ! j = b ! j"
proof -
  define e where "e = i + length l"
  define b1 where "b1 = b[e := NUL, e + 1 := NUL]"
  have r: "r \<le> length b"
    using assms(1) by (auto simp: line_inv_def)
  have l: "parse_line b c r = Some (LINE_OK, b1, e + 2)" "e + 2 \<le> r" "segment b i e = l" "segment b (e + 2) r = rest"
    using parse_line_ok [OF assms(1)] assms(2) by (simp_all add: line_result_def e_def b1_def)
  have b1: "length b1 = length b" "cstr b1 i = Some (visible l)" "b1 ! (e + 1) = NUL" "\<forall>j < i. b1 ! j = b ! j"
    using cut_off [of b i l e b1] l(2,3) r by (simp_all add: b1_def e_def)
  have "line_inv b2 (e + 2) (e + 2) r \<and> segment b2 (e + 2) r = rest"
    if b2: "length b2 = length b" "\<forall>j. i + length (visible l) \<le> j \<longrightarrow> b2 ! j = b1 ! j" for b2
  proof -
    have "length (visible l) \<le> length l"
      by (rule length_takeWhile_le)
    then have same: "\<forall>j. e \<le> j \<longrightarrow> b2 ! j = b1 ! j"
      using b2(2) by (simp add: e_def)
    then have "b2 ! (e + 1) = NUL" "\<forall>j. e + 2 \<le> j \<longrightarrow> b2 ! j = b ! j"
      using b1(3) by (simp_all add: b1_def)
    moreover from this have "segment b2 (e + 2) r = segment b (e + 2) r"
      by (intro segment_cong) (use b2(1) r in auto)
    ultimately show ?thesis
      using b2(1) l(2,4) r by (auto simp: line_inv_def)
  qed
  then show ?thesis
    using that [of b1 "e + 2"] l(1,2) b1(1,2,4) by (simp add: e_def)
qed

section \<open>Plain text\<close>

text \<open>Text without line ends and zero bytes.\<close>

definition plain :: "string \<Rightarrow> bool" where
  "plain s \<longleftrightarrow> CR \<notin> set s \<and> LF \<notin> set s \<and> NUL \<notin> set s"

lemma cut_plain: "plain l \<Longrightarrow> cut_line (l @ CR # LF # rest) = Line l rest"
  by (simp add: plain_def cut_line_prefix)

lemma visible_plain: "plain l \<Longrightarrow> visible l = l"
  by (auto simp: plain_def takeWhile_eq_all_conv)

fun header_lines :: "string list \<Rightarrow> string" where
  "header_lines [] = [CR, LF]"
| "header_lines (h # hs) = h @ CR # LF # header_lines hs"

definition request_line :: "string \<Rightarrow> string" where
  "request_line u = ''GET '' @ u @ '' HTTP/1.1''"

lemma request_line_ok:
  assumes "plain u" and "\<forall>c \<in> set u. \<not> blank c" and "u \<noteq> []" and "hd u = CHR ''/''"
  shows "request_ok (request_line u)" and "plain (request_line u)" and "target (request_line u) = u" and "url_of u = u"
proof -
  have lit: "\<not> blank (CHR ''G'')" "\<not> blank (CHR ''E'')" "\<not> blank (CHR ''T'')" "blank (CHR '' '')" "\<not> blank (CHR ''H'')"
    by (simp_all add: blank_def)
  obtain cs where u: "u = CHR ''/'' # cs"
    using assms(3,4) by (cases u) auto
  have "\<not> same_ci (take 7 u) ''http://''"
    by (simp add: u same_ci_def lower_def)
  then have "url_ok u"
    using u by (simp add: url_ok_def url_of_def)
  moreover have "takeWhile (\<lambda>c. \<not> blank c) (u @ '' HTTP/1.1'') = u" "dropWhile (\<lambda>c. \<not> blank c) (u @ '' HTTP/1.1'') = '' HTTP/1.1''"
    using assms(2) lit by (simp_all add: takeWhile_append2 dropWhile_append2)
  moreover have "dropWhile blank (u @ '' HTTP/1.1'') = u @ '' HTTP/1.1''"
    using assms(2) u by simp
  ultimately show "request_ok (request_line u)" "target (request_line u) = u"
    using lit by (simp_all add: request_ok_def target_def request_line_def Let_def same_ci_def)
  show "url_of u = u"
    using \<open>\<not> same_ci (take 7 u) ''http://''\<close> by (simp add: url_of_def)
  show "plain (request_line u)"
    using assms(1) by (simp add: plain_def request_line_def)
qed

end
