(* ===== verification/HTTP_Parser.thy ===== *)
theory HTTP_Parser
  imports HTTP_Line
begin

text \<open>
  The incremental HTTP request parser of \<^verbatim>\<open>codes/8/8-3httpparser.cpp\<close>: bytes arrive in
  pieces in a buffer of 4096 bytes, lines are cut in place by zero bytes, and two states
  tell the request line from the headers. \<open>None\<close> is an access outside the buffer.
\<close>

section \<open>The parser\<close>

definition BUFFER_SIZE :: nat where
  "BUFFER_SIZE = 4096"

datatype HTTP_CODE = NO_REQUEST | GET_REQUEST | BAD_REQUEST | FORBIDDEN_REQUEST | INTERNAL_ERROR | CLOSED_CONNECTION

text \<open>
  Returns the code, the buffer and \<open>checkstate\<close>; \<open>szTemp\<close> is the offset of the line. The
  messages that are printed are left out.
\<close>

definition parse_requestline :: "char list \<Rightarrow> nat \<Rightarrow> CHECK_STATE \<Rightarrow> (HTTP_CODE \<times> char list \<times> CHECK_STATE) option" where
  "parse_requestline b szTemp checkstate = do {
     szURL \<leftarrow> strpbrk b szTemp BLANKS;
     (case szURL of
        None \<Rightarrow> Some (BAD_REQUEST, b, checkstate)
      | Some szURL \<Rightarrow> do {
          b \<leftarrow> aput b szURL NUL;
          szURL \<leftarrow> Some (szURL + 1);
          is_get \<leftarrow> strcasecmp_eq b szTemp ''GET'';
          (if \<not> is_get then Some (BAD_REQUEST, b, checkstate)
           else do {
             k \<leftarrow> strspn b szURL BLANKS;
             szURL \<leftarrow> Some (szURL + k);
             szVersion \<leftarrow> strpbrk b szURL BLANKS;
             (case szVersion of
                None \<Rightarrow> Some (BAD_REQUEST, b, checkstate)
              | Some szVersion \<Rightarrow> do {
                  b \<leftarrow> aput b szVersion NUL;
                  szVersion \<leftarrow> Some (szVersion + 1);
                  k \<leftarrow> strspn b szVersion BLANKS;
                  szVersion \<leftarrow> Some (szVersion + k);
                  is_11 \<leftarrow> strcasecmp_eq b szVersion ''HTTP/1.1'';
                  (if \<not> is_11 then Some (BAD_REQUEST, b, checkstate)
                   else do {
                     absolute \<leftarrow> strncasecmp_eq b szURL ''http://'' 7;
                     szURL \<leftarrow> (if absolute then strchr b (szURL + 7) (CHR ''/'') else Some (Some szURL));
                     (case szURL of
                        None \<Rightarrow> Some (BAD_REQUEST, b, checkstate)
                      | Some szURL \<Rightarrow> do {
                          c \<leftarrow> aget b szURL;
                          (if c \<noteq> CHR ''/'' then Some (BAD_REQUEST, b, checkstate)
                           else Some (NO_REQUEST, b, CHECK_STATE_HEADER)) }) }) }) }) }) }"

definition parse_headers :: "char list \<Rightarrow> nat \<Rightarrow> HTTP_CODE option" where
  "parse_headers b szTemp = do {
     c \<leftarrow> aget b szTemp;
     (if c = NUL then Some GET_REQUEST
      else do {
        host \<leftarrow> strncasecmp_eq b szTemp ''Host:'' 5;
        (if host then do { strspn b (szTemp + 5) BLANKS; Some NO_REQUEST } else Some NO_REQUEST) }) }"

record http_parser =
  buffer :: "char list"
  checked_index :: nat
  checkstate :: CHECK_STATE
  read_index :: nat
  start_line :: nat

partial_function (option) parse_content :: "http_parser \<Rightarrow> (HTTP_CODE \<times> http_parser) option" where
  "parse_content p = do {
     (linestatus, b, c) \<leftarrow> parse_line (buffer p) (checked_index p) (read_index p);
     p \<leftarrow> Some (p\<lparr>buffer := b, checked_index := c\<rparr>);
     (case linestatus of
        LINE_OK \<Rightarrow> do {
          szTemp \<leftarrow> Some (start_line p);
          p \<leftarrow> Some (p\<lparr>start_line := checked_index p\<rparr>);
          (case checkstate p of
             CHECK_STATE_REQUESTLINE \<Rightarrow> do {
               (retcode, b, st) \<leftarrow> parse_requestline (buffer p) szTemp (checkstate p);
               p \<leftarrow> Some (p\<lparr>buffer := b, checkstate := st\<rparr>);
               (if retcode = BAD_REQUEST then Some (BAD_REQUEST, p) else parse_content p) }
           | CHECK_STATE_HEADER \<Rightarrow> do {
               retcode \<leftarrow> parse_headers (buffer p) szTemp;
               (if retcode = BAD_REQUEST then Some (BAD_REQUEST, p)
                else if retcode = GET_REQUEST then Some (GET_REQUEST, p)
                else parse_content p) }
           | _ \<Rightarrow> Some (INTERNAL_ERROR, p)) }
      | LINE_OPEN \<Rightarrow> Some (NO_REQUEST, p)
      | LINE_BAD \<Rightarrow> Some (BAD_REQUEST, p)) }"

text \<open>
  \<^verbatim>\<open>recv\<close> for at most \<open>n\<close> bytes: \<open>cs\<close> are the pieces in which the bytes of the peer come, the
  empty answer is the end of the connection (or a full buffer, \<open>n = 0\<close>).
\<close>

fun recv :: "nat \<Rightarrow> char list list \<Rightarrow> char list \<times> char list list" where
  "recv n [] = ([], [])"
| "recv n (c # cs) = (take n c, if length c \<le> n then cs else drop n c # cs)"

text \<open>What the peer gets: nothing before the connection ends, or one of the two messages.\<close>

datatype reply = Closed | Sent nat

definition http_start :: http_parser where
  "http_start = \<lparr>buffer = replicate BUFFER_SIZE NUL, checked_index = 0, checkstate = CHECK_STATE_REQUESTLINE,
     read_index = 0, start_line = 0\<rparr>"

text \<open>The loop of \<^verbatim>\<open>main\<close> over one connection.\<close>

partial_function (option) serve :: "http_parser \<Rightarrow> char list list \<Rightarrow> reply option" where
  "serve p cs = (case recv (BUFFER_SIZE - read_index p) cs of (dat, cs) \<Rightarrow>
     if dat = [] then Some Closed
     else do {
       c_assert (read_index p + length dat \<le> length (buffer p));
       p \<leftarrow> Some (p\<lparr>buffer := take (read_index p) (buffer p) @ dat @ drop (read_index p + length dat) (buffer p),
                    read_index := read_index p + length dat\<rparr>);
       (result, p) \<leftarrow> parse_content p;
       (if result = NO_REQUEST then serve p cs
        else if result = GET_REQUEST then Some (Sent 0)
        else Some (Sent 1)) })"

section \<open>The specification\<close>

text \<open>What is known of a request: decided, or more bytes needed in a state with an unfinished line.\<close>

datatype progress = Decided HTTP_CODE | More CHECK_STATE string

function scan :: "CHECK_STATE \<Rightarrow> string \<Rightarrow> progress" where
  "scan st bs = (case cut_line bs of
     Open \<Rightarrow> More st bs
   | Bad \<Rightarrow> Decided BAD_REQUEST
   | Line l r \<Rightarrow>
       (case st of
          CHECK_STATE_REQUESTLINE \<Rightarrow> if request_ok (visible l) then scan CHECK_STATE_HEADER r else Decided BAD_REQUEST
        | CHECK_STATE_HEADER \<Rightarrow> if visible l = [] then Decided GET_REQUEST else scan st r
        | CHECK_STATE_CONTENT \<Rightarrow> Decided INTERNAL_ERROR))"
  by pat_completeness auto
termination
  by (relation "measure (\<lambda>(st, bs). length bs)") (auto dest: cut_line_shorter)

declare scan.simps [simp del]

text \<open>The specification can be fed piece by piece.\<close>

lemma scan_append:
  "scan st (xs @ ys) = (case scan st xs of Decided c \<Rightarrow> Decided c | More st' r \<Rightarrow> scan st' (r @ ys))"
proof (induction st xs rule: scan.induct)
  case (1 st xs)
  show ?case
  proof (cases "cut_line xs")
    case Open
    then show ?thesis
      by (subst (2) scan.simps) simp
  next
    case Bad
    then have "cut_line (xs @ ys) = Bad"
      using cut_line_append by simp
    then show ?thesis
      using Bad by (subst (1 2) scan.simps) simp
  next
    case (Line l r)
    then have "cut_line (xs @ ys) = Line l (r @ ys)"
      using cut_line_append by simp
    then show ?thesis
      using Line 1 by (subst (1 2) scan.simps) (auto split: CHECK_STATE.split)
  qed
qed

section \<open>The request line\<close>

lemma parse_requestline_ok:
  assumes "cstr b i = Some l"
  shows "\<exists>b'. parse_requestline b i st =
      Some (if request_ok l then (NO_REQUEST, b', CHECK_STATE_HEADER) else (BAD_REQUEST, b', st)) \<and>
    length b' = length b \<and> (\<forall>j. j < i \<or> i + length l \<le> j \<longrightarrow> b' ! j = b ! j)"
proof (cases "\<exists>c \<in> set l. blank c")
  case False
  then show ?thesis
    using no_blank [OF assms] by (simp add: parse_requestline_def request_ok_def Let_def)
next
  case True
  define k where "k = length (takeWhile (\<lambda>c. \<not> blank c) l)"
  define j where "j = length (takeWhile blank (tl (dropWhile (\<lambda>c. \<not> blank c) l)))"
  define r where "r = dropWhile blank (tl (dropWhile (\<lambda>c. \<not> blank c) l))"
  define b1 where "b1 = b[i + k := NUL]"
  note 1 = cut_at_blank [OF assms True k_def r_def j_def b1_def]
  define i2 where "i2 = i + k + 1 + j"
  then have i2: "Suc (i + k + j) = i2" "8 + (i + (k + j)) = i2 + 7"
    by simp_all
  have b1: "length b1 = length b" "\<forall>j. j < i \<or> i + length l \<le> j \<longrightarrow> b1 ! j = b ! j"
    using 1(6) by (auto simp: b1_def)
  show ?thesis
  proof (cases "same_ci (takeWhile (\<lambda>c. \<not> blank c) l) ''GET'' \<and> (\<exists>c \<in> set r. blank c)")
    case False
    then have "parse_requestline b i st = Some (BAD_REQUEST, b1, st)"
      using 1(1-4) no_blank [OF 1(5) [folded i2_def]] by (auto simp: parse_requestline_def strcasecmp_Some i2)
    moreover have "\<not> request_ok l"
      using False by (auto simp: request_ok_def Let_def r_def [symmetric])
    ultimately show ?thesis
      using b1 by simp
  next
    case get: True
    then have r: "\<exists>c \<in> set r. blank c"
      by blast
    define ku where "ku = length (takeWhile (\<lambda>c. \<not> blank c) r)"
    define jv where "jv = length (takeWhile blank (tl (dropWhile (\<lambda>c. \<not> blank c) r)))"
    define v where "v = dropWhile blank (tl (dropWhile (\<lambda>c. \<not> blank c) r))"
    define b2 where "b2 = b1[i2 + ku := NUL]"
    note 2 = cut_at_blank [OF 1(5) [folded i2_def] r ku_def v_def jv_def b2_def]
    have b2: "length b2 = length b" "\<forall>j. j < i \<or> i + length l \<le> j \<longrightarrow> b2 ! j = b ! j"
      using b1 1(6) 2(6) by (auto simp: b2_def i2_def)
    have "parse_requestline b i st =
        Some (if same_ci v ''HTTP/1.1'' \<and> url_ok (takeWhile (\<lambda>c. \<not> blank c) r) then (NO_REQUEST, b2, CHECK_STATE_HEADER)
              else (BAD_REQUEST, b2, st))"
      using 1(1-4) 2(1-5) get url_check [OF 2(3), of "(BAD_REQUEST, b2, st)" "\<lambda>_. (BAD_REQUEST, b2, st)" "\<lambda>_. (NO_REQUEST, b2, CHECK_STATE_HEADER)"]
      by (simp add: parse_requestline_def strcasecmp_Some i2 cong del: if_weak_cong) (use url_ok_not_Nil in blast)
    moreover have "request_ok l \<longleftrightarrow> same_ci v ''HTTP/1.1'' \<and> url_ok (takeWhile (\<lambda>c. \<not> blank c) r)"
      using True get by (simp add: request_ok_def Let_def r_def [symmetric] v_def)
    ultimately show ?thesis
      using b2 by (intro exI [of _ b2]) simp
  qed
qed

lemma parse_headers_ok:
  assumes "cstr b i = Some l"
  shows "parse_headers b i = Some (if l = [] then GET_REQUEST else NO_REQUEST)"
proof -
  have "NUL \<notin> set l" "i < length b"
    using cstr_no_NUL [OF assms] cstr_length [OF assms] by auto
  moreover have "b ! i = NUL \<longleftrightarrow> l = []"
  proof (cases l)
    case Nil
    then show ?thesis
      using cstr_end [OF assms] by simp
  next
    case (Cons c cs)
    then show ?thesis
      using cstr_nth [OF assms, of 0] calculation(1) by auto
  qed
  moreover have "\<exists>k. strspn b (i + 5) BLANKS = Some k" if "same_ci (take 5 l) ''Host:''"
    using cstr_drop [OF assms same_ci_take [OF that]] strspn_Some by simp
  ultimately show ?thesis
    using assms by (auto simp: parse_headers_def aget_def strncasecmp_Some)
qed

section \<open>The parser refines the specification\<close>

definition pinv :: "http_parser \<Rightarrow> bool" where
  "pinv p \<longleftrightarrow> length (buffer p) = BUFFER_SIZE \<and> line_inv (buffer p) (start_line p) (checked_index p) (read_index p) \<and>
     checkstate p \<noteq> CHECK_STATE_CONTENT"

definition pending :: "http_parser \<Rightarrow> string" where
  "pending p = segment (buffer p) (start_line p) (read_index p)"

definition content_result :: "http_parser \<Rightarrow> (HTTP_CODE \<times> http_parser) option \<Rightarrow> bool" where
  "content_result p res \<longleftrightarrow> (case scan (checkstate p) (pending p) of
     Decided c \<Rightarrow> \<exists>p'. res = Some (c, p')
   | More st r \<Rightarrow> \<exists>p'. res = Some (NO_REQUEST, p') \<and> pinv p' \<and> checkstate p' = st \<and> pending p' = r \<and> read_index p' = read_index p)"

lemma parser_line:
  assumes "pinv p" and "cut_line (pending p) = Line l rest"
  obtains b e where "parse_line (buffer p) (checked_index p) (read_index p) = Some (LINE_OK, b, e)"
    and "cstr b (start_line p) = Some (visible l)" and "length b = BUFFER_SIZE"
    and "\<And>q. length (buffer q) = BUFFER_SIZE \<Longrightarrow> \<forall>j. start_line p + length (visible l) \<le> j \<longrightarrow> buffer q ! j = b ! j \<Longrightarrow>
      checked_index q = e \<Longrightarrow> start_line q = e \<Longrightarrow> read_index q = read_index p \<Longrightarrow> checkstate q \<noteq> CHECK_STATE_CONTENT \<Longrightarrow>
      pinv q \<and> pending q = rest"
proof -
  have inv: "line_inv (buffer p) (start_line p) (checked_index p) (read_index p)" "length (buffer p) = BUFFER_SIZE"
    using assms(1) by (simp_all add: pinv_def)
  obtain b e where "parse_line (buffer p) (checked_index p) (read_index p) = Some (LINE_OK, b, e)"
      "cstr b (start_line p) = Some (visible l)" "length b = length (buffer p)"
      "\<And>b2. length b2 = length (buffer p) \<Longrightarrow> \<forall>j. start_line p + length (visible l) \<le> j \<longrightarrow> b2 ! j = b ! j \<Longrightarrow>
        line_inv b2 e e (read_index p) \<and> segment b2 e (read_index p) = rest"
    by (rule whole_line [OF inv(1) assms(2) [unfolded pending_def]], rule that) assumption+
  with inv show ?thesis
    by (intro that [of b e]) (simp_all add: pinv_def pending_def)
qed

lemma content_request_line:
  assumes "pinv p" and "cut_line (pending p) = Line l rest" and "checkstate p = CHECK_STATE_REQUESTLINE"
  shows "if request_ok (visible l)
    then \<exists>q. parse_content p = parse_content q \<and> pinv q \<and> pending q = rest \<and> checkstate q = CHECK_STATE_HEADER \<and> read_index q = read_index p
    else \<exists>q. parse_content p = Some (BAD_REQUEST, q)"
proof -
  obtain b e where line: "parse_line (buffer p) (checked_index p) (read_index p) = Some (LINE_OK, b, e)"
      "cstr b (start_line p) = Some (visible l)" "length b = BUFFER_SIZE"
      "\<And>q. length (buffer q) = BUFFER_SIZE \<Longrightarrow> \<forall>j. start_line p + length (visible l) \<le> j \<longrightarrow> buffer q ! j = b ! j \<Longrightarrow>
        checked_index q = e \<Longrightarrow> start_line q = e \<Longrightarrow> read_index q = read_index p \<Longrightarrow> checkstate q \<noteq> CHECK_STATE_CONTENT \<Longrightarrow>
        pinv q \<and> pending q = rest"
    using parser_line [OF assms(1,2)] by blast
  obtain b2 where b2: "parse_requestline b (start_line p) CHECK_STATE_REQUESTLINE =
      Some (if request_ok (visible l) then (NO_REQUEST, b2, CHECK_STATE_HEADER) else (BAD_REQUEST, b2, CHECK_STATE_REQUESTLINE))"
      "length b2 = length b" "\<forall>j. j < start_line p \<or> start_line p + length (visible l) \<le> j \<longrightarrow> b2 ! j = b ! j"
    using parse_requestline_ok [OF line(2)] by blast
  show ?thesis
  proof (cases "request_ok (visible l)")
    case True
    let ?q = "p\<lparr>checked_index := e, start_line := e, buffer := b2, checkstate := CHECK_STATE_HEADER\<rparr>"
    have "parse_content p = parse_content ?q"
      by (subst parse_content.simps) (simp add: line(1) b2(1) assms(3) True)
    moreover have "pinv ?q \<and> pending ?q = rest"
      by (rule line(4)) (use b2(2,3) line(3) in simp_all)
    ultimately show ?thesis
      using True by (auto intro!: exI [of _ ?q])
  next
    case False
    have "\<exists>q. parse_content p = Some (BAD_REQUEST, q)"
      by (subst parse_content.simps) (simp add: line(1) b2(1) assms(3) False)
    then show ?thesis
      using False by simp
  qed
qed

lemma content_header_line:
  assumes "pinv p" and "cut_line (pending p) = Line l rest" and "checkstate p = CHECK_STATE_HEADER"
  shows "if visible l = [] then \<exists>q. parse_content p = Some (GET_REQUEST, q)
    else \<exists>q. parse_content p = parse_content q \<and> pinv q \<and> pending q = rest \<and> checkstate q = CHECK_STATE_HEADER \<and> read_index q = read_index p"
proof -
  obtain b e where line: "parse_line (buffer p) (checked_index p) (read_index p) = Some (LINE_OK, b, e)"
      "cstr b (start_line p) = Some (visible l)" "length b = BUFFER_SIZE"
      "\<And>q. length (buffer q) = BUFFER_SIZE \<Longrightarrow> \<forall>j. start_line p + length (visible l) \<le> j \<longrightarrow> buffer q ! j = b ! j \<Longrightarrow>
        checked_index q = e \<Longrightarrow> start_line q = e \<Longrightarrow> read_index q = read_index p \<Longrightarrow> checkstate q \<noteq> CHECK_STATE_CONTENT \<Longrightarrow>
        pinv q \<and> pending q = rest"
    using parser_line [OF assms(1,2)] by blast
  let ?q = "p\<lparr>buffer := b, checked_index := e, start_line := e\<rparr>"
  have "parse_content p = (if visible l = [] then Some (GET_REQUEST, ?q) else parse_content ?q)"
    by (subst parse_content.simps) (simp add: line(1) assms(3) parse_headers_ok [OF line(2)])
  moreover have "pinv ?q \<and> pending ?q = rest"
    by (rule line(4)) (use line(3) assms(3) in simp_all)
  ultimately show ?thesis
    using assms(3) by (auto intro!: exI [of _ ?q])
qed

lemma parse_content_no_line:
  assumes p: "pinv p" and no: "\<forall>l r. cut_line (pending p) \<noteq> Line l r"
  shows "content_result p (parse_content p)"
proof -
  have line: "line_result (buffer p) (start_line p) (read_index p) (parse_line (buffer p) (checked_index p) (read_index p))"
    using p by (simp add: pinv_def parse_line_ok)
  note scan = scan.simps [of "checkstate p" "pending p"]
  show ?thesis
  proof (cases "cut_line (pending p)")
    case Open
    then obtain c where c: "parse_line (buffer p) (checked_index p) (read_index p) = Some (LINE_OPEN, buffer p, c)"
        "line_inv (buffer p) (start_line p) c (read_index p)"
      using line by (auto simp: line_result_def pending_def)
    have "parse_content p = Some (NO_REQUEST, p\<lparr>buffer := buffer p, checked_index := c\<rparr>)"
      by (subst parse_content.simps) (simp add: c(1))
    then show ?thesis
      using Open c(2) p scan by (simp add: content_result_def pinv_def pending_def)
  next
    case Bad
    then obtain c where "parse_line (buffer p) (checked_index p) (read_index p) = Some (LINE_BAD, buffer p, c)"
      using line by (auto simp: line_result_def pending_def)
    then have "parse_content p = Some (BAD_REQUEST, p\<lparr>buffer := buffer p, checked_index := c\<rparr>)"
      by (subst parse_content.simps) simp
    then show ?thesis
      using Bad scan by (simp add: content_result_def)
  qed (use no in blast)
qed

lemma parse_content_ok: "pinv p \<Longrightarrow> content_result p (parse_content p)"
proof (induction "length (pending p)" arbitrary: p rule: less_induct)
  case less
  note scan = scan.simps [of "checkstate p" "pending p"]
  show ?case
  proof (cases "\<forall>l r. cut_line (pending p) \<noteq> Line l r")
    case True
    then show ?thesis
      by (rule parse_content_no_line [OF less.prems])
  next
    case False
    then obtain l rest where l: "cut_line (pending p) = Line l rest"
      by blast
    have rec: "content_result p (parse_content p)"
      if "parse_content p = parse_content q" "pinv q" "pending q = rest" "checkstate q = CHECK_STATE_HEADER"
        "read_index q = read_index p" "scan (checkstate p) (pending p) = scan CHECK_STATE_HEADER rest" for q
      using less.hyps [of q] that cut_line_shorter [OF l] by (simp add: content_result_def split: progress.splits)
    show ?thesis
    proof (cases "checkstate p")
      case CHECK_STATE_REQUESTLINE
      note step = content_request_line [OF less.prems l CHECK_STATE_REQUESTLINE]
      show ?thesis
      proof (cases "request_ok (visible l)")
        case True
        then show ?thesis
          using step scan l CHECK_STATE_REQUESTLINE by (auto intro: rec)
      next
        case False
        then show ?thesis
          using step scan l CHECK_STATE_REQUESTLINE by (simp add: content_result_def)
      qed
    next
      case CHECK_STATE_HEADER
      note step = content_header_line [OF less.prems l CHECK_STATE_HEADER]
      show ?thesis
      proof (cases "visible l = []")
        case True
        then show ?thesis
          using step scan l CHECK_STATE_HEADER by (simp add: content_result_def)
      next
        case False
        then show ?thesis
          using step scan l CHECK_STATE_HEADER by (auto intro: rec)
      qed
    next
      case CHECK_STATE_CONTENT
      then show ?thesis
        using less.prems by (simp add: pinv_def)
    qed
  qed
qed

section \<open>Serving a connection\<close>

definition reply_of :: "progress \<Rightarrow> reply" where
  "reply_of g = (case g of Decided c \<Rightarrow> if c = GET_REQUEST then Sent 0 else Sent 1 | More _ _ \<Rightarrow> Closed)"

lemma scan_More: "scan st bs = More st' r \<Longrightarrow> scan st' r = More st' r"
proof (induction st bs rule: scan.induct)
  case (1 st bs)
  show ?case
  proof (cases "cut_line bs")
    case Open
    then show ?thesis
      using "1.prems" scan.simps [of st bs] by simp
  next
    case Bad
    then show ?thesis
      using "1.prems" scan.simps [of st bs] by simp
  next
    case (Line l rest)
    then show ?thesis
      using 1 scan.simps [of st bs] by (cases st) (auto split: if_splits)
  qed
qed

lemma scan_not_none: "scan st bs \<noteq> Decided NO_REQUEST"
proof (induction st bs rule: scan.induct)
  case (1 st bs)
  then show ?case
    by (subst scan.simps) (auto split: cut.splits CHECK_STATE.splits if_splits)
qed

text \<open>Storing a piece behind the bytes that are already there.\<close>

lemma store_piece:
  assumes "pinv p" and "read_index p + length d \<le> BUFFER_SIZE"
    and "q = p\<lparr>buffer := take (read_index p) (buffer p) @ d @ drop (read_index p + length d) (buffer p),
      read_index := read_index p + length d\<rparr>"
  shows "pinv q" and "pending q = pending p @ d" and "checkstate q = checkstate p"
proof -
  let ?b = "buffer p" and ?r = "read_index p"
  have i: "length ?b = BUFFER_SIZE" "start_line p \<le> checked_index p" "checked_index p \<le> ?r" "?r \<le> BUFFER_SIZE"
    using assms(1) by (auto simp: pinv_def line_inv_def)
  have b: "length (buffer q) = BUFFER_SIZE" "\<forall>j < ?r. buffer q ! j = ?b ! j"
    using i assms(2,3) by (auto simp: nth_append)
  have "start_line p - 1 < ?r" if "0 < start_line p"
    using that i by linarith
  then show "pinv q"
    using assms(1-3) b i by (auto simp: pinv_def line_inv_def)
  have "segment (buffer q) (start_line p) ?r = segment ?b (start_line p) ?r"
    by (rule segment_cong) (use b i in auto)
  moreover have "segment (buffer q) ?r (?r + length d) = d"
    using i assms(2,3) by (simp add: segment_def)
  ultimately show "pending q = pending p @ d"
    using segment_append [of "start_line p" ?r "?r + length d" "buffer q"] b(1) i assms(2,3) by (simp add: pending_def)
  show "checkstate q = checkstate p"
    by (simp add: assms(3))
qed

lemma recv_piece:
  assumes "recv n cs = (d, cs')" and "[] \<notin> set cs"
  shows "concat cs = d @ concat cs'" and "length d \<le> n" and "d = [] \<longleftrightarrow> take n (concat cs) = []" and "d \<noteq> [] \<Longrightarrow> [] \<notin> set cs'"
  using assms by (cases cs; auto split: if_splits)+

lemma serve_ok:
  assumes "pinv p" and "[] \<notin> set cs" and "scan (checkstate p) (pending p) = More (checkstate p) (pending p)"
  shows "serve p cs = Some (reply_of (scan (checkstate p) (pending p @ take (BUFFER_SIZE - read_index p) (concat cs))))"
  using assms
proof (induction "length (concat cs)" arbitrary: p cs rule: less_induct)
  case less
  let ?n = "BUFFER_SIZE - read_index p"
  obtain d cs' where r: "recv ?n cs = (d, cs')"
    by fastforce
  note piece = recv_piece [OF r less.prems(2)]
  show ?case
  proof (cases "d = []")
    case True
    then have "serve p cs = Some Closed"
      by (subst serve.simps) (simp add: r)
    moreover have "take ?n (concat cs) = []"
      using True piece(3) by blast
    ultimately show ?thesis
      using less.prems(3) by (simp add: reply_of_def del: take_eq_Nil)
  next
    case False
    have len: "length (buffer p) = BUFFER_SIZE" "read_index p + length d \<le> BUFFER_SIZE"
      using less.prems(1) piece(2) by (auto simp: pinv_def line_inv_def)
    define q where "q = p\<lparr>buffer := take (read_index p) (buffer p) @ d @ drop (read_index p + length d) (buffer p),
      read_index := read_index p + length d\<rparr>"
    note q = store_piece [OF less.prems(1) len(2) q_def]
    have all: "take ?n (concat cs) = d @ take (?n - length d) (concat cs')"
      using piece(1,2) by simp
    have step: "serve p cs = do { (result, p) \<leftarrow> parse_content q;
        (if result = NO_REQUEST then serve p cs' else if result = GET_REQUEST then Some (Sent 0) else Some (Sent 1)) }"
      by (subst serve.simps) (use False len r in \<open>simp add: q_def\<close>)
    show ?thesis
    proof (cases "scan (checkstate p) (pending p @ d)")
      case (Decided c)
      then obtain p' where "parse_content q = Some (c, p')"
        using parse_content_ok [OF q(1)] q(2,3) by (auto simp: content_result_def)
      moreover have "c \<noteq> NO_REQUEST"
        using scan_not_none Decided by metis
      moreover have "scan (checkstate p) (pending p @ take ?n (concat cs)) = Decided c"
        using scan_append [of "checkstate p" "pending p @ d"] Decided all by simp
      ultimately show ?thesis
        using step by (simp add: reply_of_def)
    next
      case (More st r)
      then obtain p' where p': "parse_content q = Some (NO_REQUEST, p')" "pinv p'" "checkstate p' = st" "pending p' = r"
          "read_index p' = read_index p + length d"
        using parse_content_ok [OF q(1)] q(2,3) by (auto simp: content_result_def q_def)
      have "serve p' cs' = Some (reply_of (scan st (r @ take (?n - length d) (concat cs'))))"
        using less.hyps [of cs' p'] p' piece(1,4) False scan_More [OF More] by simp
      moreover have "scan (checkstate p) (pending p @ take ?n (concat cs)) = scan st (r @ take (?n - length d) (concat cs'))"
        using scan_append [of "checkstate p" "pending p @ d"] More all by simp
      ultimately show ?thesis
        using step p'(1) by simp
    qed
  qed
qed

lemma start_inv: "pinv http_start" "pending http_start = []" "checkstate http_start = CHECK_STATE_REQUESTLINE" "read_index http_start = 0"
  by (simp_all add: pinv_def line_inv_def http_start_def pending_def)

section \<open>Well-formed requests\<close>

lemma scan_headers:
  "\<forall>h \<in> set hs. plain h \<and> h \<noteq> [] \<Longrightarrow> scan CHECK_STATE_HEADER (header_lines hs @ rest) = Decided GET_REQUEST"
proof (induction hs)
  case Nil
  then show ?case
    by (subst scan.simps) simp
next
  case (Cons h hs)
  then have "cut_line (header_lines (h # hs) @ rest) = Line h (header_lines hs @ rest)" "visible h = h"
    using cut_plain [of h] visible_plain [of h] by simp_all
  then show ?case
    using Cons by (subst scan.simps) simp
qed

section \<open>Properties\<close>

text \<open>
  C22: the answer of the server depends only on the first 4096 bytes the peer sends and not
  on how they are split over calls of \<^verbatim>\<open>recv\<close>: it is the one the specification gives for the
  whole text. No access leaves the buffer and the loop ends, for every input.
\<close>

theorem serve_refines_spec:
  assumes "[] \<notin> set cs"
  shows "serve http_start cs = Some (reply_of (scan CHECK_STATE_REQUESTLINE (take BUFFER_SIZE (concat cs))))"
  using serve_ok [OF start_inv(1) assms] start_inv(2-4) by (simp add: scan.simps [of _ "[]"])

theorem serve_refines_spec_witness:
  "serve http_start [''GET'', '' /'', [CR], [LF]] =
    Some (reply_of (scan CHECK_STATE_REQUESTLINE (take BUFFER_SIZE (''GET /'' @ [CR, LF]))))"
  using serve_refines_spec [of "[''GET'', '' /'', [CR], [LF]]"] by simp

text \<open>
  A request for a path, with any headers that are not empty, is answered with the
  success message however its bytes arrive, as long as it fits in the buffer, and whatever
  follows it.
\<close>

theorem get_request_accepted:
  assumes "plain u" and "\<forall>c \<in> set u. \<not> blank c" and "u \<noteq> []" and "hd u = CHR ''/''"
    and "\<forall>h \<in> set hs. plain h \<and> h \<noteq> []"
    and "length (request_line u @ CR # LF # header_lines hs) \<le> BUFFER_SIZE" and "[] \<notin> set cs"
    and "concat cs = (request_line u @ CR # LF # header_lines hs) @ rest"
  shows "serve http_start cs = Some (Sent 0)"
proof -
  note ok = request_line_ok [OF assms(1-4)]
  let ?q = "request_line u @ CR # LF # header_lines hs"
  have "scan CHECK_STATE_REQUESTLINE (request_line u @ CR # LF # header_lines hs @ r) = Decided GET_REQUEST" for r
    using scan_headers [OF assms(5)] cut_plain [OF ok(2)] visible_plain [OF ok(2)] ok(1)
    by (subst scan.simps) (simp del: takeWhile_eq_all_conv)
  moreover have "take BUFFER_SIZE (concat cs) = ?q @ take (BUFFER_SIZE - length ?q) rest"
    using assms(6) unfolding assms(8) take_append by simp
  ultimately have "reply_of (scan CHECK_STATE_REQUESTLINE (take BUFFER_SIZE (concat cs))) = Sent 0"
    by (simp add: reply_of_def)
  then show ?thesis
    using serve_ok [OF start_inv(1) assms(7)] start_inv(2-4) by (simp add: scan.simps [of _ "[]"])
qed

theorem get_request_accepted_witness:
  "serve http_start [''GET /x HT'', ''TP/1.1'' @ [CR], [LF, CR], [LF]] = Some (Sent 0)"
  by (rule get_request_accepted [where u = "''/x''" and hs = "[]" and rest = "[]"])
    (simp_all add: plain_def blank_def request_line_def BUFFER_SIZE_def)

end
