(* ===== verification/Thread_Pool.thy ===== *)
theory Thread_Pool
  imports C_Prelude "HOL-Library.Multiset"
begin

text \<open>
  The thread pool of the web server (\<^verbatim>\<open>codes/15/15-3threadpool.h\<close> with the lock and the
  semaphore of \<^verbatim>\<open>codes/14/14-2locker.h\<close>). Every thread is at a program point of \<^verbatim>\<open>append\<close> or
  \<^verbatim>\<open>run\<close>; a step of the pool is a step of one thread, so that all interleavings are covered.
  A request is an address, which may be NULL.
\<close>

section \<open>State\<close>

text \<open>
  The points of \<^verbatim>\<open>append\<close> (\<open>A_\<dots>\<close>) and \<^verbatim>\<open>run\<close> (\<open>W_\<dots>\<close>), named by what is done next; \<open>Idle\<close> is a
  thread outside the pool, \<open>W_exit\<close> a worker that has left its loop.
\<close>

datatype pc = Idle
  | A_lock addr | A_test addr | A_reject addr | A_unlock addr | A_post addr
  | W_while | W_wait | W_lock | W_test | W_empty | W_pop addr | W_unlock addr | W_run addr | W_exit

text \<open>
  The members of the class with the state of the lock (its holder) and of the semaphore
  (its value), the threads, and the history: the requests that were pushed, turned away, popped
  and processed.
\<close>

record pool =
  m_max_requests :: int
  m_workqueue :: "addr list"
  m_queuelocker :: "nat option"
  m_queuestat :: nat
  m_stop :: bool
  threads :: "pc list"
  accepted :: "addr list"
  rejected :: "addr list"
  taken :: "addr list"
  processed :: "addr list"

text \<open>
  The constructor: \<open>created\<close> tells whether all threads could be created and detached. The \<open>n\<close>
  threads of the clients come first.
\<close>

definition threadpool_new :: "nat \<Rightarrow> int \<Rightarrow> int \<Rightarrow> bool \<Rightarrow> pool thrown" where
  "threadpool_new n thread_number max_requests created =
     (if thread_number \<le> 0 \<or> max_requests \<le> 0 then Throw
      else if \<not> created then Throw
      else Val \<lparr>m_max_requests = max_requests, m_workqueue = [], m_queuelocker = None, m_queuestat = 0, m_stop = False,
        threads = replicate n Idle @ replicate (nat thread_number) W_while, accepted = [], rejected = [], taken = [], processed = []\<rparr>)"

section \<open>Steps\<close>

text \<open>The label tells the calls of the clients, interrupted waits and the destructor from the pool's own work.\<close>

datatype label = Call | Work | Interrupted | Destroy

definition goto :: "nat \<Rightarrow> pc \<Rightarrow> pool \<Rightarrow> pool" where
  "goto t p s = s\<lparr>threads := (threads s)[t := p]\<rparr>"

text \<open>
  \<^verbatim>\<open>lock\<close> waits until nobody holds the lock, \<^verbatim>\<open>wait\<close> until the semaphore is positive; a signal makes
  \<^verbatim>\<open>wait\<close> return without taking a token, which \<^verbatim>\<open>run\<close> does not notice.
\<close>

inductive pool_step :: "label \<Rightarrow> nat \<Rightarrow> pool \<Rightarrow> pool \<Rightarrow> bool" where
  call: "t < length (threads s) \<Longrightarrow> threads s ! t = Idle \<Longrightarrow> pool_step Call t s (goto t (A_lock r) s)"
| append_lock: "t < length (threads s) \<Longrightarrow> threads s ! t = A_lock r \<Longrightarrow> m_queuelocker s = None \<Longrightarrow>
    pool_step Work t s (goto t (A_test r) (s\<lparr>m_queuelocker := Some t\<rparr>))"
| append_full: "t < length (threads s) \<Longrightarrow> threads s ! t = A_test r \<Longrightarrow> int (length (m_workqueue s)) > m_max_requests s \<Longrightarrow>
    pool_step Work t s (goto t (A_reject r) s)"
| append_reject: "t < length (threads s) \<Longrightarrow> threads s ! t = A_reject r \<Longrightarrow>
    pool_step Work t s (goto t Idle (s\<lparr>m_queuelocker := None, rejected := rejected s @ [r]\<rparr>))"
| append_push: "t < length (threads s) \<Longrightarrow> threads s ! t = A_test r \<Longrightarrow> \<not> int (length (m_workqueue s)) > m_max_requests s \<Longrightarrow>
    pool_step Work t s (goto t (A_unlock r) (s\<lparr>m_workqueue := m_workqueue s @ [r], accepted := accepted s @ [r]\<rparr>))"
| append_unlock: "t < length (threads s) \<Longrightarrow> threads s ! t = A_unlock r \<Longrightarrow>
    pool_step Work t s (goto t (A_post r) (s\<lparr>m_queuelocker := None\<rparr>))"
| append_post: "t < length (threads s) \<Longrightarrow> threads s ! t = A_post r \<Longrightarrow>
    pool_step Work t s (goto t Idle (s\<lparr>m_queuestat := m_queuestat s + 1\<rparr>))"
| run_while: "t < length (threads s) \<Longrightarrow> threads s ! t = W_while \<Longrightarrow> \<not> m_stop s \<Longrightarrow> pool_step Work t s (goto t W_wait s)"
| run_exit: "t < length (threads s) \<Longrightarrow> threads s ! t = W_while \<Longrightarrow> m_stop s \<Longrightarrow> pool_step Work t s (goto t W_exit s)"
| run_wait: "t < length (threads s) \<Longrightarrow> threads s ! t = W_wait \<Longrightarrow> 0 < m_queuestat s \<Longrightarrow>
    pool_step Work t s (goto t W_lock (s\<lparr>m_queuestat := m_queuestat s - 1\<rparr>))"
| run_interrupted: "t < length (threads s) \<Longrightarrow> threads s ! t = W_wait \<Longrightarrow> pool_step Interrupted t s (goto t W_lock s)"
| run_lock: "t < length (threads s) \<Longrightarrow> threads s ! t = W_lock \<Longrightarrow> m_queuelocker s = None \<Longrightarrow>
    pool_step Work t s (goto t W_test (s\<lparr>m_queuelocker := Some t\<rparr>))"
| run_empty: "t < length (threads s) \<Longrightarrow> threads s ! t = W_test \<Longrightarrow> m_workqueue s = [] \<Longrightarrow> pool_step Work t s (goto t W_empty s)"
| run_continue: "t < length (threads s) \<Longrightarrow> threads s ! t = W_empty \<Longrightarrow>
    pool_step Work t s (goto t W_while (s\<lparr>m_queuelocker := None\<rparr>))"
| run_front: "t < length (threads s) \<Longrightarrow> threads s ! t = W_test \<Longrightarrow> m_workqueue s = r # q \<Longrightarrow> pool_step Work t s (goto t (W_pop r) s)"
| run_pop: "t < length (threads s) \<Longrightarrow> threads s ! t = W_pop r \<Longrightarrow>
    pool_step Work t s (goto t (W_unlock r) (s\<lparr>m_workqueue := tl (m_workqueue s), taken := taken s @ [r]\<rparr>))"
| run_unlock: "t < length (threads s) \<Longrightarrow> threads s ! t = W_unlock r \<Longrightarrow>
    pool_step Work t s (goto t (W_run r) (s\<lparr>m_queuelocker := None\<rparr>))"
| run_null: "t < length (threads s) \<Longrightarrow> threads s ! t = W_run r \<Longrightarrow> r = NULL \<Longrightarrow> pool_step Work t s (goto t W_while s)"
| run_process: "t < length (threads s) \<Longrightarrow> threads s ! t = W_run r \<Longrightarrow> r \<noteq> NULL \<Longrightarrow>
    pool_step Work t s (goto t W_while (s\<lparr>processed := processed s @ [r]\<rparr>))"
| threadpool_delete: "pool_step Destroy t s (s\<lparr>m_stop := True\<rparr>)"

inductive pool_reach :: "pool \<Rightarrow> bool" where
  new: "threadpool_new n thread_number max_requests created = Val s \<Longrightarrow> pool_reach s"
| step: "pool_reach s \<Longrightarrow> pool_step l t s s' \<Longrightarrow> pool_reach s'"

text \<open>Work of the pool alone, in any order, with the number of steps.\<close>

inductive works :: "nat \<Rightarrow> pool \<Rightarrow> pool \<Rightarrow> bool" where
  rest: "works 0 s s"
| work: "pool_step Work t s s' \<Longrightarrow> works n s' s'' \<Longrightarrow> works (Suc n) s s''"

section \<open>Invariant\<close>

fun locked :: "pc \<Rightarrow> bool" where
  "locked (A_test r) = True" | "locked (A_reject r) = True" | "locked (A_unlock r) = True"
| "locked W_test = True" | "locked W_empty = True" | "locked (W_pop r) = True" | "locked (W_unlock r) = True"
| "locked p = False"

text \<open>Threads on whose account a request may be in the queue without a token of the semaphore.\<close>

fun token :: "pc \<Rightarrow> nat" where
  "token (A_unlock r) = 1" | "token (A_post r) = 1" | "token W_lock = 1" | "token W_test = 1" | "token (W_pop r) = 1"
| "token p = 0"

text \<open>The request that a worker holds.\<close>

fun carried :: "pc \<Rightarrow> addr multiset" where
  "carried (W_unlock r) = (if r = NULL then {#} else {#r#})" | "carried (W_run r) = (if r = NULL then {#} else {#r#})"
| "carried p = {#}"

definition total :: "(pc \<Rightarrow> 'a::comm_monoid_add) \<Rightarrow> pool \<Rightarrow> 'a" where
  "total f s = sum_list (map f (threads s))"

definition lock_ok :: "pool \<Rightarrow> bool" where
  "lock_ok s \<longleftrightarrow> (\<forall>t. m_queuelocker s = Some t \<longleftrightarrow> t < length (threads s) \<and> locked (threads s ! t))"

definition pop_ok :: "pool \<Rightarrow> bool" where
  "pop_ok s \<longleftrightarrow> (\<forall>t r. t < length (threads s) \<and> threads s ! t = W_pop r \<longrightarrow> m_workqueue s \<noteq> [] \<and> hd (m_workqueue s) = r)"

definition queue_ok :: "pool \<Rightarrow> bool" where
  "queue_ok s \<longleftrightarrow> accepted s = taken s @ m_workqueue s \<and> int (length (m_workqueue s)) \<le> m_max_requests s + 1 \<and>
     length (m_workqueue s) \<le> m_queuestat s + total token s \<and>
     mset (filter (\<lambda>r. r \<noteq> NULL) (taken s)) = mset (processed s) + total carried s"

definition pool_inv :: "pool \<Rightarrow> bool" where
  "pool_inv s \<longleftrightarrow> lock_ok s \<and> pop_ok s \<and> queue_ok s"

lemma goto_simps [simp]:
  "threads (goto t p s) = (threads s)[t := p]" "m_workqueue (goto t p s) = m_workqueue s" "m_queuelocker (goto t p s) = m_queuelocker s"
  "m_queuestat (goto t p s) = m_queuestat s" "m_stop (goto t p s) = m_stop s" "m_max_requests (goto t p s) = m_max_requests s"
  "accepted (goto t p s) = accepted s" "rejected (goto t p s) = rejected s" "taken (goto t p s) = taken s" "processed (goto t p s) = processed s"
  by (simp_all add: goto_def)

lemma total_frame [simp]:
  "total f (s\<lparr>m_queuelocker := x\<rparr>) = total f s" "total f (s\<lparr>m_workqueue := q\<rparr>) = total f s" "total f (s\<lparr>m_queuestat := n\<rparr>) = total f s"
  "total f (s\<lparr>m_stop := b\<rparr>) = total f s" "total f (s\<lparr>accepted := q\<rparr>) = total f s" "total f (s\<lparr>rejected := q\<rparr>) = total f s"
  "total f (s\<lparr>taken := q\<rparr>) = total f s" "total f (s\<lparr>processed := q\<rparr>) = total f s"
  by (simp_all add: total_def)

lemma total_split:
  fixes f :: "pc \<Rightarrow> 'a::cancel_comm_monoid_add"
  assumes "t < length (threads s)"
  obtains rest where "total f s = rest + f (threads s ! t)" and "\<And>p. total f (goto t p s) = rest + f p"
proof -
  have "\<exists>rest. sum_list (map f xs) = rest + f (xs ! t) \<and> (\<forall>p. sum_list (map f (xs[t := p])) = rest + f p)" if "t < length xs" for xs
    using that
  proof (induction xs arbitrary: t)
    case (Cons x xs)
    show ?case
    proof (cases t)
      case 0
      then show ?thesis
        by (intro exI [of _ "sum_list (map f xs)"]) (simp add: add.commute)
    next
      case (Suc n)
      then obtain rest where "sum_list (map f xs) = rest + f (xs ! n)" "\<forall>p. sum_list (map f (xs[n := p])) = rest + f p"
        using Cons by auto
      then show ?thesis
        using Suc by (intro exI [of _ "f x + rest"]) (simp add: add.assoc)
    qed
  qed simp
  then show ?thesis
    using assms that by (auto simp: total_def)
qed

lemma total_goto [simp]:
  fixes f :: "pc \<Rightarrow> 'a::cancel_comm_monoid_add"
  shows "t < length (threads s) \<Longrightarrow> total f (goto t p s) = total f s - f (threads s ! t) + f p"
  by (rule total_split [of t s f]) auto

lemma carried_in: "t < length (threads s) \<Longrightarrow> carried (threads s ! t) \<subseteq># total carried s"
  by (rule total_split [of t s carried]) auto

lemma lock_frame [simp]:
  "lock_ok (s\<lparr>m_workqueue := q\<rparr>) = lock_ok s" "lock_ok (s\<lparr>m_queuestat := n\<rparr>) = lock_ok s" "lock_ok (s\<lparr>m_stop := b\<rparr>) = lock_ok s"
  "lock_ok (s\<lparr>accepted := q\<rparr>) = lock_ok s" "lock_ok (s\<lparr>taken := q\<rparr>) = lock_ok s" "lock_ok (s\<lparr>processed := q\<rparr>) = lock_ok s"
  by (simp_all add: lock_ok_def)

lemma lock_same: "lock_ok s \<Longrightarrow> t < length (threads s) \<Longrightarrow> locked p = locked (threads s ! t) \<Longrightarrow> lock_ok (goto t p s)"
  by (simp add: lock_ok_def nth_list_update)

lemma lock_taken:
  assumes "lock_ok s" and "t < length (threads s)" and "m_queuelocker s = None" and "locked p"
    and "threads s' = (threads s)[t := p]" and "m_queuelocker s' = Some t"
  shows "lock_ok s'"
proof -
  have "\<not> locked (threads s ! t')" if "t' < length (threads s)" for t'
    using assms(1,3) that by (simp add: lock_ok_def)
  then show ?thesis
    unfolding lock_ok_def using assms(2,4-6) by (simp add: nth_list_update)
qed

lemma locked_unique: "lock_ok s \<Longrightarrow> t < length (threads s) \<Longrightarrow> t' < length (threads s) \<Longrightarrow> locked (threads s ! t) \<Longrightarrow> locked (threads s ! t') \<Longrightarrow> t = t'"
  unfolding lock_ok_def by (metis option.inject)

lemma lock_released:
  assumes "lock_ok s" and "t < length (threads s)" and "locked (threads s ! t)" and "\<not> locked p"
    and "threads s' = (threads s)[t := p]" and "m_queuelocker s' = None"
  shows "lock_ok s'"
proof -
  have "\<not> locked (threads s ! t')" if "t' < length (threads s)" "t' \<noteq> t" for t'
    using locked_unique [OF assms(1,2) that(1) assms(3)] that(2) by blast
  then show ?thesis
    unfolding lock_ok_def using assms(2,4-6) by (simp add: nth_list_update)
qed

lemma lock_step:
  assumes "pool_step l t s s'" and "lock_ok s"
  shows "lock_ok s'"
  using assms
proof cases
  case (append_lock r)
  show ?thesis
    by (rule lock_taken [of s t "A_test r"]) (use append_lock assms(2) in simp_all)
next
  case run_lock
  show ?thesis
    by (rule lock_taken [of s t W_test]) (use run_lock assms(2) in simp_all)
next
  case (append_reject r)
  show ?thesis
    by (rule lock_released [of s t Idle]) (use append_reject assms(2) in simp_all)
next
  case (append_unlock r)
  show ?thesis
    by (rule lock_released [of s t "A_post r"]) (use append_unlock assms(2) in simp_all)
next
  case run_continue
  show ?thesis
    by (rule lock_released [of s t W_while]) (use run_continue assms(2) in simp_all)
next
  case (run_unlock r)
  show ?thesis
    by (rule lock_released [of s t "W_run r"]) (use run_unlock assms(2) in simp_all)
qed (use assms(2) in \<open>auto intro!: lock_same\<close>)

lemma pop_step: "pool_step l t s s' \<Longrightarrow> lock_ok s \<Longrightarrow> pop_ok s \<Longrightarrow> pop_ok s'"
proof (induction rule: pool_step.induct)
  case (run_pop t s r)
  have "threads s ! t' \<noteq> W_pop r'" if "t' < length (threads s)" "t' \<noteq> t" for t' r'
    using locked_unique [of s t t'] run_pop that by auto
  then have "(threads s)[t := W_unlock r] ! t' \<noteq> W_pop r'" if "t' < length (threads s)" for t' r'
    using that by (cases "t' = t") auto
  then show ?case
    by (auto simp: pop_ok_def)
qed (auto simp: pop_ok_def nth_list_update)

lemma queue_step:
  assumes "pool_step l t s s'" and "pop_ok s" and "queue_ok s"
  shows "queue_ok s'"
  using assms
proof (induction rule: pool_step.induct)
  case (run_pop t s r)
  then obtain q where "m_workqueue s = r # q"
    by (cases "m_workqueue s") (auto simp: pop_ok_def)
  then show ?case
    using run_pop by (auto simp: queue_ok_def)
next
  case (run_unlock t s r)
  then show ?case
    using carried_in [of t s] by (auto simp: queue_ok_def)
next
  case (run_process t s r)
  then show ?case
    using carried_in [of t s] by (auto simp: queue_ok_def)
qed (auto simp: queue_ok_def)

lemma pool_inv_step: "pool_step l t s s' \<Longrightarrow> pool_inv s \<Longrightarrow> pool_inv s'"
  unfolding pool_inv_def using lock_step pop_step queue_step by blast

lemma total_replicate [simp]: "sum_list (replicate n (0 :: 'a::comm_monoid_add)) = 0"
  by (induction n) auto

lemma pool_inv_new:
  assumes "threadpool_new n thread_number max_requests created = Val s"
  shows "pool_inv s"
proof -
  have s: "threads s = replicate n Idle @ replicate (nat thread_number) W_while" "m_queuelocker s = None" "m_workqueue s = []"
      "accepted s = []" "taken s = []" "processed s = []" "0 < m_max_requests s"
    using assms by (auto simp: threadpool_new_def split: if_splits)
  have "threads s ! t = Idle \<or> threads s ! t = W_while" if "t < length (threads s)" for t
    using nth_mem [OF that] s(1) by auto
  then have "\<not> locked (threads s ! t)" "threads s ! t \<noteq> W_pop r" if "t < length (threads s)" for t r
    using that by fastforce+
  then have "lock_ok s" "pop_ok s"
    unfolding lock_ok_def pop_ok_def using s(2) by auto
  moreover have "queue_ok s"
    using s by (simp add: queue_ok_def total_def)
  ultimately show ?thesis
    by (simp add: pool_inv_def)
qed

lemma pool_reach_inv: "pool_reach s \<Longrightarrow> pool_inv s"
  by (induction rule: pool_reach.induct) (auto intro: pool_inv_new pool_inv_step)

section \<open>Draining\<close>

text \<open>Every step of the pool's own work uses up some of what is to be done.\<close>

fun weight :: "pc \<Rightarrow> nat" where
  "weight (A_lock r) = 11" | "weight (A_test r) = 10" | "weight (A_reject r) = 1" | "weight (A_unlock r) = 9" | "weight (A_post r) = 8"
| "weight W_lock = 6" | "weight W_test = 5" | "weight (W_pop r) = 4" | "weight (W_unlock r) = 3" | "weight (W_run r) = 2"
| "weight W_empty = 2" | "weight W_while = 1" | "weight p = 0"

definition todo :: "pool \<Rightarrow> nat" where
  "todo s = 7 * m_queuestat s + total weight s"

lemma weight_le: "t < length (threads s) \<Longrightarrow> weight (threads s ! t) \<le> total weight s"
  by (rule total_split [of t s weight]) auto

lemma work_less: "pool_step l t s s' \<Longrightarrow> l = Work \<Longrightarrow> todo s' < todo s"
  by (induction rule: pool_step.induct) (use weight_le in \<open>fastforce simp: todo_def\<close>)+

lemma works_bound: "works n s s' \<Longrightarrow> todo s' + n \<le> todo s"
  by (induction rule: works.induct) (use work_less in fastforce)+

text \<open>A worker that is there stays in its loop as long as the pool is not destroyed.\<close>

fun worker :: "pc \<Rightarrow> bool" where
  "worker W_while = True" | "worker W_wait = True" | "worker W_lock = True" | "worker W_test = True" | "worker W_empty = True"
| "worker (W_pop r) = True" | "worker (W_unlock r) = True" | "worker (W_run r) = True" | "worker p = False"

definition staffed :: "pool \<Rightarrow> bool" where
  "staffed s \<longleftrightarrow> m_stop s \<or> (\<exists>t < length (threads s). worker (threads s ! t))"

lemma staffed_step:
  assumes "pool_step l t s s'" and "staffed s"
  shows "staffed s'"
proof (cases "m_stop s'")
  case False
  have "length (threads s') = length (threads s)" "\<not> m_stop s"
      "\<forall>t' < length (threads s). worker (threads s ! t') \<longrightarrow> worker (threads s' ! t')"
    using assms(1) False by (cases; auto simp: nth_list_update)+
  then show ?thesis
    using assms(2) by (auto simp: staffed_def)
qed (simp add: staffed_def)

lemma pool_reach_staffed: "pool_reach s \<Longrightarrow> staffed s"
proof (induction rule: pool_reach.induct)
  case (new n thread_number max_requests created s)
  then have "threads s = replicate n Idle @ replicate (nat thread_number) W_while" "0 < nat thread_number"
    by (auto simp: threadpool_new_def split: if_splits)
  then show ?case
    by (auto simp: staffed_def nth_append intro!: exI [of _ n])
qed (auto intro: staffed_step)

text \<open>A pool at rest: no thread can do any of the pool's work.\<close>

definition at_rest :: "pool \<Rightarrow> bool" where
  "at_rest s \<longleftrightarrow> (\<nexists>t s'. pool_step Work t s s')"

lemma rest_pc:
  assumes "at_rest s" and "t < length (threads s)"
  shows "threads s ! t \<in> {Idle, W_exit, W_wait, W_lock} \<union> range A_lock"
proof -
  have no: "\<not> pool_step Work t s s'" for s'
    using assms(1) by (simp add: at_rest_def)
  show ?thesis
  proof (cases "threads s ! t")
    case (A_test r)
    then show ?thesis
      using no pool_step.append_full [OF assms(2) A_test] pool_step.append_push [OF assms(2) A_test] by blast
  next
    case (A_reject r)
    then show ?thesis
      using no pool_step.append_reject [OF assms(2) A_reject] by blast
  next
    case (A_unlock r)
    then show ?thesis
      using no pool_step.append_unlock [OF assms(2) A_unlock] by blast
  next
    case (A_post r)
    then show ?thesis
      using no pool_step.append_post [OF assms(2) A_post] by blast
  next
    case W_while
    then show ?thesis
      using no pool_step.run_while [OF assms(2) W_while] pool_step.run_exit [OF assms(2) W_while] by blast
  next
    case W_test
    then show ?thesis
      using no pool_step.run_empty [OF assms(2) W_test] pool_step.run_front [OF assms(2) W_test] by (cases "m_workqueue s") blast+
  next
    case W_empty
    then show ?thesis
      using no pool_step.run_continue [OF assms(2) W_empty] by blast
  next
    case (W_pop r)
    then show ?thesis
      using no pool_step.run_pop [OF assms(2) W_pop] by blast
  next
    case (W_unlock r)
    then show ?thesis
      using no pool_step.run_unlock [OF assms(2) W_unlock] by blast
  next
    case (W_run r)
    then show ?thesis
      using no pool_step.run_null [OF assms(2) W_run] pool_step.run_process [OF assms(2) W_run] by blast
  qed simp_all
qed

lemma rest_done:
  assumes "pool_inv s" and "staffed s" and "\<not> m_stop s" and "at_rest s"
  shows "m_workqueue s = []" and "mset (processed s) = mset (filter (\<lambda>r. r \<noteq> NULL) (accepted s))"
    and "\<forall>t < length (threads s). threads s ! t \<in> {Idle, W_exit, W_wait}"
proof -
  have no: "\<not> pool_step Work t s s'" for t s'
    using assms(4) by (simp add: at_rest_def)
  have "\<not> locked (threads s ! t)" if "t < length (threads s)" for t
    using rest_pc [OF assms(4) that] by auto
  then have "m_queuelocker s = None"
    using assms(1) by (cases "m_queuelocker s") (auto simp: pool_inv_def lock_ok_def)
  then have pc: "threads s ! t \<in> {Idle, W_exit, W_wait}" if "t < length (threads s)" for t
    using rest_pc [OF assms(4) that] no pool_step.append_lock [OF that] pool_step.run_lock [OF that] by blast
  then show "\<forall>t < length (threads s). threads s ! t \<in> {Idle, W_exit, W_wait}"
    by blast
  obtain t where t: "t < length (threads s)" "worker (threads s ! t)"
    using assms(2,3) by (auto simp: staffed_def)
  then have "threads s ! t = W_wait"
    using pc by fastforce
  then have "m_queuestat s = 0"
    using no pool_step.run_wait [OF t(1)] by blast
  moreover have "p \<in> {Idle, W_exit, W_wait}" if "p \<in> set (threads s)" for p
    using that pc by (metis in_set_conv_nth)
  then have "token p = 0" "carried p = {#}" if "p \<in> set (threads s)" for p
    using that by fastforce+
  then have "map token (threads s) = map (\<lambda>_. 0) (threads s)" "map carried (threads s) = map (\<lambda>_. {#}) (threads s)"
    by simp_all
  then have tot: "total token s = 0" "total carried s = {#}"
    by (simp_all add: total_def map_replicate_const)
  ultimately show q: "m_workqueue s = []"
    using assms(1) by (simp add: pool_inv_def queue_ok_def)
  then show "mset (processed s) = mset (filter (\<lambda>r. r \<noteq> NULL) (accepted s))"
    using assms(1) tot by (simp add: pool_inv_def queue_ok_def)
qed

lemma works_keep: "works n s s' \<Longrightarrow> pool_reach s \<Longrightarrow> \<not> m_stop s \<Longrightarrow> pool_reach s' \<and> \<not> m_stop s'"
proof (induction rule: works.induct)
  case (work t s s' n s'')
  then have "pool_reach s'"
    by (blast intro: pool_reach.step)
  moreover have "\<not> m_stop s'"
    using work.hyps(1) work.prems(2) by cases simp_all
  ultimately show ?case
    by (rule work.IH)
qed simp

lemma works_to_rest: "\<exists>n s'. works n s s' \<and> at_rest s'"
proof (induction "todo s" arbitrary: s rule: less_induct)
  case less
  show ?case
  proof (cases "at_rest s")
    case False
    then obtain t s1 where "pool_step Work t s s1"
      by (auto simp: at_rest_def)
    then show ?thesis
      using less [of s1] work_less [of Work t s s1] works.work by blast
  qed (blast intro: works.rest)
qed

text \<open>The destructor wakes no worker: one that waits stays in \<^verbatim>\<open>wait\<close>.\<close>

lemma delete_wakes_nobody:
  assumes "pool_inv s" and "staffed s" and "\<not> m_stop s" and "at_rest s"
  shows "at_rest (s\<lparr>m_stop := True\<rparr>)"
proof -
  have "pool_step Work t (s\<lparr>m_stop := True\<rparr>) s' \<Longrightarrow> False" for t s'
  proof (induction "Work" t "s\<lparr>m_stop := True\<rparr>" s' rule: pool_step.induct)
    case (run_wait t)
    then have "pool_step Work t s (goto t W_lock (s\<lparr>m_queuestat := m_queuestat s - 1\<rparr>))"
      by (intro pool_step.run_wait) simp_all
    then show ?case
      using assms(4) by (auto simp: at_rest_def)
  qed (use rest_done(3) [OF assms] in fastforce)+
  then show ?thesis
    by (auto simp: at_rest_def)
qed

section \<open>Properties\<close>

text \<open>
  C25: in every state that any interleaving of the threads can reach, with interrupted waits
  and the destructor among the steps, at most one thread is between lock and unlock, no
  worker takes the front of an empty queue, requests leave the queue in the order in which they
  were accepted and none is lost or doubled: each that was popped and is not NULL was processed
  once or is in the hands of exactly one worker. The queue never holds more than
  \<open>max_requests + 1\<close> requests.
\<close>

theorem pool_safe:
  assumes "pool_reach s"
  shows "(\<forall>t t'. t < length (threads s) \<and> t' < length (threads s) \<and> locked (threads s ! t) \<and> locked (threads s ! t') \<longrightarrow> t = t') \<and>
    (\<forall>t r. t < length (threads s) \<and> threads s ! t = W_pop r \<longrightarrow> m_workqueue s \<noteq> [] \<and> hd (m_workqueue s) = r) \<and>
    accepted s = taken s @ m_workqueue s \<and>
    mset (filter (\<lambda>r. r \<noteq> NULL) (taken s)) = mset (processed s) + total carried s \<and>
    int (length (m_workqueue s)) \<le> m_max_requests s + 1"
  using pool_reach_inv [OF assms] locked_unique [of s] unfolding pool_inv_def pop_ok_def queue_ok_def by blast

theorem pool_safe_witness:
  "let s = goto 0 (A_lock 7) \<lparr>m_max_requests = 1, m_workqueue = [], m_queuelocker = None, m_queuestat = 0, m_stop = False,
     threads = [Idle, W_while], accepted = [], rejected = [], taken = [], processed = []\<rparr>
   in pool_reach s \<and> accepted s = taken s @ m_workqueue s \<and> int (length (m_workqueue s)) \<le> m_max_requests s + 1"
proof -
  let ?s = "\<lparr>m_max_requests = 1, m_workqueue = [], m_queuelocker = None, m_queuestat = 0, m_stop = False, threads = [Idle, W_while],
     accepted = [], rejected = [], taken = [], processed = []\<rparr> :: pool"
  have "pool_reach ?s"
    by (rule pool_reach.new [of 1 1 1 True]) (simp add: threadpool_new_def)
  moreover have "pool_step Call 0 ?s (goto 0 (A_lock 7) ?s)"
    by (rule pool_step.call) simp_all
  ultimately have "pool_reach (goto 0 (A_lock 7) ?s)"
    by (rule pool_reach.step)
  then show ?thesis
    using pool_safe [of "goto 0 (A_lock 7) ?s"] by (simp only: Let_def simp_thms)
qed

text \<open>
  C24: when no new request is submitted and no wait is interrupted, the pool comes to rest
  whatever the scheduler does: no run of its threads is longer than \<open>todo\<close>, and every run that
  cannot be continued has processed every accepted request that is not NULL exactly once, has
  emptied the queue and left the workers waiting. So no wake-up is ever lost.
\<close>

theorem pool_drains:
  assumes "pool_reach s" and "\<not> m_stop s"
  shows "(\<forall>n s'. works n s s' \<longrightarrow> n \<le> todo s) \<and> (\<exists>n s'. works n s s' \<and> at_rest s') \<and>
    (\<forall>n s'. works n s s' \<and> at_rest s' \<longrightarrow> m_workqueue s' = [] \<and> mset (processed s') = mset (filter (\<lambda>r. r \<noteq> NULL) (accepted s')) \<and>
      (\<forall>t < length (threads s'). threads s' ! t \<in> {Idle, W_exit, W_wait}))"
proof (intro conjI allI impI)
  fix n s' assume "works n s s'"
  then show "n \<le> todo s"
    using works_bound by fastforce
next
  show "\<exists>n s'. works n s s' \<and> at_rest s'"
    by (rule works_to_rest)
next
  fix n s' assume w: "works n s s' \<and> at_rest s'"
  then have s': "pool_reach s'" "\<not> m_stop s'"
    using works_keep assms by blast+
  note d = rest_done [OF pool_reach_inv [OF s'(1)] pool_reach_staffed [OF s'(1)] s'(2)]
  show "m_workqueue s' = []" "mset (processed s') = mset (filter (\<lambda>r. r \<noteq> NULL) (accepted s'))"
    using d(1,2) w by blast+
  fix t assume "t < length (threads s')"
  then show "threads s' ! t \<in> {Idle, W_exit, W_wait}"
    using d(3) w by blast
qed

theorem pool_drains_witness:
  "\<exists>n s'. works n \<lparr>m_max_requests = 1, m_workqueue = [], m_queuelocker = None, m_queuestat = 0, m_stop = False, threads = [A_lock 7, W_while],
     accepted = [], rejected = [], taken = [], processed = []\<rparr> s' \<and> n \<le> 12 \<and> at_rest s' \<and> m_workqueue s' = []"
proof -
  let ?s = "\<lparr>m_max_requests = 1, m_workqueue = [], m_queuelocker = None, m_queuestat = 0, m_stop = False, threads = [Idle, W_while],
     accepted = [], rejected = [], taken = [], processed = []\<rparr> :: pool"
  have "pool_reach ?s"
    by (rule pool_reach.new [of 1 1 1 True]) (simp add: threadpool_new_def)
  moreover have "pool_step Call 0 ?s (goto 0 (A_lock 7) ?s)"
    by (rule pool_step.call) simp_all
  ultimately have "pool_reach (goto 0 (A_lock 7) ?s)"
    by (rule pool_reach.step)
  moreover have "todo (goto 0 (A_lock 7) ?s) = 12"
    by (simp add: todo_def goto_def total_def)
  ultimately show ?thesis
    using pool_drains [of "goto 0 (A_lock 7) ?s"] by (simp add: goto_def) metis
qed

end
