(* ===== verification/HTTP_Conn.thy ===== *)
theory HTTP_Conn
  imports HTTP_Line
begin

text \<open>
  The connection class of the web server of \<^verbatim>\<open>codes/15\<close> (\<^verbatim>\<open>15-4http_conn.h\<close>, \<^verbatim>\<open>15-5http_conn.cpp\<close>):
  reading a request piece by piece, finding the file, and composing the response. The file
  system and the answers of the socket are arguments. \<open>None\<close> is undefined behaviour: an
  access outside a buffer, a NULL pointer, or a signed overflow.
\<close>

section \<open>State\<close>

definition FILENAME_LEN :: nat where "FILENAME_LEN = 200"
definition READ_BUFFER_SIZE :: nat where "READ_BUFFER_SIZE = 2048"
definition WRITE_BUFFER_SIZE :: nat where "WRITE_BUFFER_SIZE = 1024"

datatype METHOD = GET | POST | HEAD | PUT | DELETE | TRACE | OPTIONS | CONNECT | PATCH

datatype HTTP_CODE = NO_REQUEST | GET_REQUEST | BAD_REQUEST | NO_RESOURCE | FORBIDDEN_REQUEST | FILE_REQUEST |
  INTERNAL_ERROR | CLOSED_CONNECTION

text \<open>What epoll is asked to wait for, and what \<^verbatim>\<open>stat\<close> tells of a file.\<close>

datatype interest = EPOLLIN | EPOLLOUT

record file_stat =
  st_size :: int
  read_by_others :: bool
  is_dir :: bool

text \<open>
  A file of the file system: what \<^verbatim>\<open>stat\<close> tells, and the bytes that its mapping shows; \<open>None\<close> when
  \<^verbatim>\<open>open\<close> or \<^verbatim>\<open>mmap\<close> fail. The code checks neither of them, and then holds \<^verbatim>\<open>MAP_FAILED\<close>, which is not NULL.
\<close>

record served_file =
  file_meta :: file_stat
  file_data :: "char list option"

datatype file_address = Null | Map_failed | Mapped "char list"

text \<open>What \<^verbatim>\<open>writev\<close> is to send: the address and the length of a piece.\<close>

datatype iov_base = Write_buf | File_at file_address

type_synonym iovec = "iov_base \<times> int"

text \<open>
  A \<^verbatim>\<open>char*\<close> into the read buffer is an offset, \<open>None\<close> is NULL. \<open>m_iv\<close> has the \<^verbatim>\<open>m_iv_count\<close> pieces
  in use; \<open>m_wire\<close> is no member but records all bytes that were written to the socket.
\<close>

record http_conn =
  m_user_count :: int
  m_sockfd :: int
  m_interest :: "interest option"
  m_read_buf :: "char list"
  m_read_idx :: nat
  m_checked_idx :: nat
  m_start_line :: nat
  m_write_buf :: "char list"
  m_write_idx :: nat
  m_check_state :: CHECK_STATE
  m_method :: METHOD
  m_real_file :: "char list"
  m_url :: "nat option"
  m_version :: "nat option"
  m_host :: "nat option"
  m_content_length :: int
  m_linger :: bool
  m_file_address :: file_address
  m_file_stat :: file_stat
  m_iv :: "iovec list"
  m_wire :: "char list"

definition init :: "http_conn \<Rightarrow> http_conn" where
  "init s = s\<lparr>m_check_state := CHECK_STATE_REQUESTLINE, m_linger := False, m_method := GET, m_url := None, m_version := None,
     m_content_length := 0, m_host := None, m_start_line := 0, m_checked_idx := 0, m_read_idx := 0, m_write_idx := 0,
     m_read_buf := replicate READ_BUFFER_SIZE NUL, m_write_buf := replicate WRITE_BUFFER_SIZE NUL,
     m_real_file := replicate FILENAME_LEN NUL\<rparr>"

text \<open>\<^verbatim>\<open>addfd\<close> and \<^verbatim>\<open>modfd\<close> leave the descriptor watched for one event.\<close>

definition init_conn :: "int \<Rightarrow> http_conn \<Rightarrow> http_conn" where
  "init_conn sockfd s = init (s\<lparr>m_sockfd := sockfd, m_interest := Some EPOLLIN, m_user_count := m_user_count s + 1, m_wire := []\<rparr>)"

definition close_conn :: "bool \<Rightarrow> http_conn \<Rightarrow> http_conn" where
  "close_conn real_close s =
     (if real_close \<and> m_sockfd s \<noteq> - 1 then s\<lparr>m_interest := None, m_sockfd := - 1, m_user_count := m_user_count s - 1\<rparr> else s)"

text \<open>On a descriptor that is closed \<^verbatim>\<open>epoll_ctl\<close> fails and changes nothing.\<close>

definition modfd :: "interest \<Rightarrow> http_conn \<Rightarrow> http_conn" where
  "modfd ev s = (if m_sockfd s = - 1 then s else s\<lparr>m_interest := Some ev\<rparr>)"

section \<open>Reading a request\<close>

text \<open>The scanner is the one of \<^verbatim>\<open>8-3httpparser.cpp\<close> on the members of the class.\<close>

definition conn_parse_line :: "http_conn \<Rightarrow> (LINE_STATUS \<times> http_conn) option" where
  "conn_parse_line s = do {
     (st, b, c) \<leftarrow> parse_line (m_read_buf s) (m_checked_idx s) (m_read_idx s);
     Some (st, s\<lparr>m_read_buf := b, m_checked_idx := c\<rparr>) }"

text \<open>
  The answers of the non-blocking socket, one for each call of \<^verbatim>\<open>recv\<close>: at least one byte and at
  most as many as fit, the end, an error; when there is no further answer it would block.
\<close>

datatype recv_result = Data string | Eof | Error

fun read_loop :: "recv_result list \<Rightarrow> http_conn \<Rightarrow> (bool \<times> http_conn) option" where
  "read_loop [] s = Some (True, s)"
| "read_loop (Error # rs) s = Some (False, s)"
| "read_loop (Eof # rs) s = Some (False, s)"
| "read_loop (Data d # rs) s = do {
     c_assert (d \<noteq> [] \<and> m_read_idx s + length d \<le> READ_BUFFER_SIZE \<and> READ_BUFFER_SIZE \<le> length (m_read_buf s));
     read_loop rs (s\<lparr>m_read_buf := take (m_read_idx s) (m_read_buf s) @ d @ drop (m_read_idx s + length d) (m_read_buf s),
                     m_read_idx := m_read_idx s + length d\<rparr>) }"

definition conn_read :: "recv_result list \<Rightarrow> http_conn \<Rightarrow> (bool \<times> http_conn) option" where
  "conn_read rs s = (if m_read_idx s \<ge> READ_BUFFER_SIZE then Some (False, s) else read_loop rs s)"

definition parse_request_line :: "nat \<Rightarrow> http_conn \<Rightarrow> (HTTP_CODE \<times> http_conn) option" where
  "parse_request_line txt s = do {
     url \<leftarrow> strpbrk (m_read_buf s) txt BLANKS;
     s \<leftarrow> Some (s\<lparr>m_url := url\<rparr>);
     (case url of
        None \<Rightarrow> Some (BAD_REQUEST, s)
      | Some url \<Rightarrow> do {
          b \<leftarrow> aput (m_read_buf s) url NUL;
          url \<leftarrow> Some (url + 1);
          s \<leftarrow> Some (s\<lparr>m_read_buf := b, m_url := Some url\<rparr>);
          is_get \<leftarrow> strcasecmp_eq b txt ''GET'';
          (if \<not> is_get then Some (BAD_REQUEST, s)
           else do {
             s \<leftarrow> Some (s\<lparr>m_method := GET\<rparr>);
             k \<leftarrow> strspn b url BLANKS;
             url \<leftarrow> Some (url + k);
             version \<leftarrow> strpbrk b url BLANKS;
             s \<leftarrow> Some (s\<lparr>m_url := Some url, m_version := version\<rparr>);
             (case version of
                None \<Rightarrow> Some (BAD_REQUEST, s)
              | Some version \<Rightarrow> do {
                  b \<leftarrow> aput b version NUL;
                  version \<leftarrow> Some (version + 1);
                  k \<leftarrow> strspn b version BLANKS;
                  version \<leftarrow> Some (version + k);
                  s \<leftarrow> Some (s\<lparr>m_read_buf := b, m_version := Some version\<rparr>);
                  is_11 \<leftarrow> strcasecmp_eq b version ''HTTP/1.1'';
                  (if \<not> is_11 then Some (BAD_REQUEST, s)
                   else do {
                     absolute \<leftarrow> strncasecmp_eq b url ''http://'' 7;
                     url \<leftarrow> (if absolute then strchr b (url + 7) (CHR ''/'') else Some (Some url));
                     (case url of
                        None \<Rightarrow> Some (BAD_REQUEST, s\<lparr>m_url := None\<rparr>)
                      | Some url \<Rightarrow> do {
                          c \<leftarrow> aget b url;
                          (if c \<noteq> CHR ''/'' then Some (BAD_REQUEST, s\<lparr>m_url := Some url\<rparr>)
                           else Some (NO_REQUEST, s\<lparr>m_url := Some url, m_check_state := CHECK_STATE_HEADER\<rparr>)) }) }) }) }) }) }"

text \<open>\<^verbatim>\<open>atol\<close>: white space, a sign, digits; the value is kept within \<^verbatim>\<open>long\<close>.\<close>

definition is_space :: "char \<Rightarrow> bool" where
  "is_space c \<longleftrightarrow> c = CHR 0x20 \<or> (let n = of_char c :: nat in 9 \<le> n \<and> n \<le> 13)"

definition digit :: "char \<Rightarrow> int option" where
  "digit c = (let n = of_char c :: nat in if 48 \<le> n \<and> n \<le> 57 then Some (int n - 48) else None)"

fun digits :: "int \<Rightarrow> string \<Rightarrow> int" where
  "digits v [] = v"
| "digits v (c # cs) = (case digit c of None \<Rightarrow> v | Some d \<Rightarrow> digits (10 * v + d) cs)"

definition LONG_MAX :: int where "LONG_MAX = 2 ^ 63 - 1"

definition atol :: "string \<Rightarrow> int" where
  "atol s =
     (let t = dropWhile is_space s
      in case t of
        [] \<Rightarrow> 0
      | c # cs \<Rightarrow>
          if c = CHR ''-'' then max (- LONG_MAX - 1) (- digits 0 cs)
          else if c = CHR ''+'' then min LONG_MAX (digits 0 cs)
          else min LONG_MAX (digits 0 t))"

text \<open>The conversion of a \<^verbatim>\<open>long\<close> to \<^verbatim>\<open>int\<close> on the usual machines.\<close>

definition to_int :: "int \<Rightarrow> int" where
  "to_int x = (x + 2147483648) mod 4294967296 - 2147483648"

definition parse_headers :: "nat \<Rightarrow> http_conn \<Rightarrow> (HTTP_CODE \<times> http_conn) option" where
  "parse_headers txt s = do {
     b \<leftarrow> Some (m_read_buf s);
     c \<leftarrow> aget b txt;
     (if c = NUL then
        if m_method s = HEAD then Some (GET_REQUEST, s)
        else if m_content_length s \<noteq> 0 then Some (NO_REQUEST, s\<lparr>m_check_state := CHECK_STATE_CONTENT\<rparr>)
        else Some (GET_REQUEST, s)
      else do {
        connection \<leftarrow> strncasecmp_eq b txt ''Connection:'' 11;
        (if connection then do {
           k \<leftarrow> strspn b (txt + 11) BLANKS;
           keep \<leftarrow> strcasecmp_eq b (txt + 11 + k) ''keep-alive'';
           Some (NO_REQUEST, if keep then s\<lparr>m_linger := True\<rparr> else s) }
         else do {
           content_length \<leftarrow> strncasecmp_eq b txt ''Content-Length:'' 15;
           (if content_length then do {
              k \<leftarrow> strspn b (txt + 15) BLANKS;
              v \<leftarrow> cstr b (txt + 15 + k);
              Some (NO_REQUEST, s\<lparr>m_content_length := to_int (atol v)\<rparr>) }
            else do {
              host \<leftarrow> strncasecmp_eq b txt ''Host:'' 5;
              (if host then do {
                 k \<leftarrow> strspn b (txt + 5) BLANKS;
                 Some (NO_REQUEST, s\<lparr>m_host := Some (txt + 5 + k)\<rparr>) }
               else Some (NO_REQUEST, s)) }) }) }) }"

definition parse_content :: "nat \<Rightarrow> http_conn \<Rightarrow> (HTTP_CODE \<times> http_conn) option" where
  "parse_content txt s = do {
     lim \<leftarrow> c_int (m_content_length s + int (m_checked_idx s));
     (if int (m_read_idx s) \<ge> lim then do {
        c_assert (0 \<le> int txt + m_content_length s);
        b \<leftarrow> aput (m_read_buf s) (nat (int txt + m_content_length s)) NUL;
        Some (GET_REQUEST, s\<lparr>m_read_buf := b\<rparr>) }
      else Some (NO_REQUEST, s)) }"

definition doc_root :: string where
  "doc_root = ''/var/www/html''"

text \<open>A mapping of no bytes fails.\<close>

definition mmap_file :: "served_file \<Rightarrow> file_address" where
  "mmap_file f = (case file_data f of Some d \<Rightarrow> if 0 < st_size (file_meta f) then Mapped d else Map_failed | None \<Rightarrow> Map_failed)"

text \<open>\<open>fs\<close> is the file system: what is found at a path, \<open>None\<close> when \<^verbatim>\<open>stat\<close> fails.\<close>

definition do_request :: "(string \<Rightarrow> served_file option) \<Rightarrow> http_conn \<Rightarrow> (HTTP_CODE \<times> http_conn) option" where
  "do_request fs s = do {
     url \<leftarrow> m_url s;
     u \<leftarrow> cstr (m_read_buf s) url;
     n \<leftarrow> Some (FILENAME_LEN - length doc_root - 1);
     c_assert (length (m_real_file s) = FILENAME_LEN);
     s \<leftarrow> Some (s\<lparr>m_real_file := doc_root @ take n (u @ replicate n NUL) @ drop (length doc_root + n) (m_real_file s)\<rparr>);
     path \<leftarrow> cstr (m_real_file s) 0;
     (case fs path of
        None \<Rightarrow> Some (NO_RESOURCE, s)
      | Some f \<Rightarrow>
          let st = file_meta f; s = s\<lparr>m_file_stat := st\<rparr> in
          if \<not> read_by_others st then Some (FORBIDDEN_REQUEST, s)
          else if is_dir st then Some (BAD_REQUEST, s)
          else Some (FILE_REQUEST, s\<lparr>m_file_address := mmap_file f\<rparr>)) }"

text \<open>Every round prints its line, which ends at the next zero byte.\<close>

partial_function (option) process_read_loop ::
    "(string \<Rightarrow> served_file option) \<Rightarrow> LINE_STATUS \<Rightarrow> http_conn \<Rightarrow> (HTTP_CODE \<times> http_conn) option" where
  "process_read_loop fs line_status s = do {
     (line_status, s) \<leftarrow>
       (if m_check_state s = CHECK_STATE_CONTENT \<and> line_status = LINE_OK then Some (LINE_OK, s) else conn_parse_line s);
     (if line_status \<noteq> LINE_OK then Some (NO_REQUEST, s)
      else do {
        txt \<leftarrow> Some (m_start_line s);
        s \<leftarrow> Some (s\<lparr>m_start_line := m_checked_idx s\<rparr>);
        printed \<leftarrow> cstr (m_read_buf s) txt;
        (case m_check_state s of
           CHECK_STATE_REQUESTLINE \<Rightarrow> do {
             (ret, s) \<leftarrow> parse_request_line txt s;
             (if ret = BAD_REQUEST then Some (BAD_REQUEST, s) else process_read_loop fs LINE_OK s) }
         | CHECK_STATE_HEADER \<Rightarrow> do {
             (ret, s) \<leftarrow> parse_headers txt s;
             (if ret = BAD_REQUEST then Some (BAD_REQUEST, s)
              else if ret = GET_REQUEST then do_request fs s
              else process_read_loop fs LINE_OK s) }
         | CHECK_STATE_CONTENT \<Rightarrow> do {
             (ret, s) \<leftarrow> parse_content txt s;
             (if ret = GET_REQUEST then do_request fs s else process_read_loop fs LINE_OPEN s) }) }) }"

definition process_read :: "(string \<Rightarrow> served_file option) \<Rightarrow> http_conn \<Rightarrow> (HTTP_CODE \<times> http_conn) option" where
  "process_read fs s = process_read_loop fs LINE_OK s"

section \<open>The response\<close>

definition ok_200_title :: string where "ok_200_title = ''OK''"
definition error_400_title :: string where "error_400_title = ''Bad Request''"
definition error_400_form :: string where
  "error_400_form = ''Your request has bad syntax or is inherently impossible to satisfy.'' @ [LF]"
definition error_403_title :: string where "error_403_title = ''Forbidden''"
definition error_403_form :: string where "error_403_form = ''You do not have permission to get file from this server.'' @ [LF]"
definition error_404_title :: string where "error_404_title = ''Not Found''"
definition error_404_form :: string where "error_404_form = ''The requested file was not found on this server.'' @ [LF]"
definition error_500_title :: string where "error_500_title = ''Internal Error''"
definition error_500_form :: string where "error_500_form = ''There was an unusual problem serving the requested file.'' @ [LF]"

text \<open>The conversion \<^verbatim>\<open>%d\<close>.\<close>

fun dec :: "nat \<Rightarrow> string" where
  "dec n = (if n < 10 then [char_of (48 + n)] else dec (n div 10) @ [char_of (48 + n mod 10)])"

declare dec.simps [simp del]

definition show_int :: "int \<Rightarrow> string" where
  "show_int x = (if x < 0 then CHR ''-'' # dec (nat (- x)) else dec (nat x))"

text \<open>\<open>txt\<close> is the text that the format and its arguments give; \<^verbatim>\<open>vsnprintf\<close> cuts it to the room there is.\<close>

definition add_response :: "string \<Rightarrow> http_conn \<Rightarrow> (bool \<times> http_conn) option" where
  "add_response txt s =
     (if m_write_idx s \<ge> WRITE_BUFFER_SIZE then Some (False, s)
      else do {
        room \<leftarrow> Some (WRITE_BUFFER_SIZE - 1 - m_write_idx s);
        c_assert (length (m_write_buf s) = WRITE_BUFFER_SIZE);
        out \<leftarrow> Some (if room = 0 then [] else take (room - 1) txt @ [NUL]);
        s \<leftarrow> Some (s\<lparr>m_write_buf := take (m_write_idx s) (m_write_buf s) @ out @ drop (m_write_idx s + length out) (m_write_buf s)\<rparr>);
        (if length txt \<ge> room then Some (False, s)
         else Some (True, s\<lparr>m_write_idx := m_write_idx s + length txt\<rparr>)) })"

definition add_status_line :: "int \<Rightarrow> string \<Rightarrow> http_conn \<Rightarrow> (bool \<times> http_conn) option" where
  "add_status_line status title s = add_response (''HTTP/1.1'' @ '' '' @ show_int status @ '' '' @ title @ [CR, LF]) s"

definition add_content_length :: "int \<Rightarrow> http_conn \<Rightarrow> (bool \<times> http_conn) option" where
  "add_content_length content_len s = add_response (''Content-Length: '' @ show_int content_len @ [CR, LF]) s"

definition add_linger :: "http_conn \<Rightarrow> (bool \<times> http_conn) option" where
  "add_linger s = add_response (''Connection: '' @ (if m_linger s then ''keep-alive'' else ''close'') @ [CR, LF]) s"

definition add_blank_line :: "http_conn \<Rightarrow> (bool \<times> http_conn) option" where
  "add_blank_line s = add_response [CR, LF] s"

definition add_content :: "string \<Rightarrow> http_conn \<Rightarrow> (bool \<times> http_conn) option" where
  "add_content content s = add_response content s"

text \<open>Its result is never looked at (and the code returns none).\<close>

definition add_headers :: "int \<Rightarrow> http_conn \<Rightarrow> http_conn option" where
  "add_headers content_len s = do {
     (_, s) \<leftarrow> add_content_length content_len s;
     (_, s) \<leftarrow> add_linger s;
     (_, s) \<leftarrow> add_blank_line s;
     Some s }"

definition ok_string :: string where
  "ok_string = ''<html><body></body></html>''"

text \<open>The four error branches differ in their texts only.\<close>

definition write_error :: "int \<Rightarrow> string \<Rightarrow> string \<Rightarrow> http_conn \<Rightarrow> (bool \<times> http_conn) option" where
  "write_error status title form s = do {
     (_, s) \<leftarrow> add_status_line status title s;
     s \<leftarrow> add_headers (int (length form)) s;
     (ok, s) \<leftarrow> add_content form s;
     (if \<not> ok then Some (False, s) else Some (True, s\<lparr>m_iv := [(Write_buf, int (m_write_idx s))]\<rparr>)) }"

definition process_write :: "HTTP_CODE \<Rightarrow> http_conn \<Rightarrow> (bool \<times> http_conn) option" where
  "process_write ret s = (case ret of
     INTERNAL_ERROR \<Rightarrow> write_error 500 error_500_title error_500_form s
   | BAD_REQUEST \<Rightarrow> write_error 400 error_400_title error_400_form s
   | NO_RESOURCE \<Rightarrow> write_error 404 error_404_title error_404_form s
   | FORBIDDEN_REQUEST \<Rightarrow> write_error 403 error_403_title error_403_form s
   | FILE_REQUEST \<Rightarrow> do {
       (_, s) \<leftarrow> add_status_line 200 ok_200_title s;
       (if st_size (m_file_stat s) \<noteq> 0 then do {
          s \<leftarrow> add_headers (to_int (st_size (m_file_stat s))) s;
          Some (True, s\<lparr>m_iv := [(Write_buf, int (m_write_idx s)), (File_at (m_file_address s), st_size (m_file_stat s))]\<rparr>) }
        else do {
          s \<leftarrow> add_headers (int (length ok_string)) s;
          (ok, s) \<leftarrow> add_content ok_string s;
          Some (False, s) }) }
   | _ \<Rightarrow> Some (False, s))"

definition unmap :: "http_conn \<Rightarrow> http_conn" where
  "unmap s = s\<lparr>m_file_address := Null\<rparr>"

text \<open>
  The bytes of the pieces; \<open>None\<close> when an address is not valid, so that \<^verbatim>\<open>writev\<close> fails with \<^verbatim>\<open>EFAULT\<close>:
  a mapping that failed, that is gone, or that is shorter than the piece.
\<close>

definition iov_bytes :: "http_conn \<Rightarrow> iovec \<Rightarrow> char list option" where
  "iov_bytes s v = (case v of
     (Write_buf, n) \<Rightarrow> if nat n \<le> length (m_write_buf s) then Some (take (nat n) (m_write_buf s)) else None
   | (File_at (Mapped d), n) \<Rightarrow> if m_file_address s = Mapped d \<and> nat n \<le> length d then Some (take (nat n) d) else None
   | _ \<Rightarrow> None)"

fun gather :: "http_conn \<Rightarrow> iovec list \<Rightarrow> char list option" where
  "gather s [] = Some []"
| "gather s (v # vs) = do { d \<leftarrow> iov_bytes s v; ds \<leftarrow> gather s vs; Some (d @ ds) }"

text \<open>
  The answers of \<^verbatim>\<open>writev\<close>, one for each call: a number of bytes, which are the first ones of the pieces, or an error; when there is
  no further answer it would block. The loop keeps the two counters of the code, and \<open>m_iv\<close> as it is.
\<close>

datatype send_result = Sent int | Send_error

fun write_loop :: "send_result list \<Rightarrow> int \<Rightarrow> int \<Rightarrow> http_conn \<Rightarrow> bool \<times> http_conn" where
  "write_loop [] bytes_to_send bytes_have_send s = (True, modfd EPOLLOUT s)"
| "write_loop (Send_error # rs) bytes_to_send bytes_have_send s = (False, unmap s)"
| "write_loop (Sent temp # rs) bytes_to_send bytes_have_send s =
     (case gather s (m_iv s) of
        None \<Rightarrow> (False, unmap s)
      | Some d \<Rightarrow>
          let s = s\<lparr>m_wire := m_wire s @ take (nat temp) d\<rparr> in
          if bytes_to_send - temp \<le> bytes_have_send + temp then
            let s = unmap s in
            if m_linger s then (True, modfd EPOLLIN (init s)) else (False, modfd EPOLLIN s)
          else write_loop rs (bytes_to_send - temp) (bytes_have_send + temp) s)"

definition conn_write :: "send_result list \<Rightarrow> http_conn \<Rightarrow> bool \<times> http_conn" where
  "conn_write rs s =
     (if m_write_idx s = 0 then (True, init (modfd EPOLLIN s))
      else write_loop rs (int (m_write_idx s)) 0 s)"

definition process :: "(string \<Rightarrow> served_file option) \<Rightarrow> http_conn \<Rightarrow> http_conn option" where
  "process fs s = do {
     (read_ret, s) \<leftarrow> process_read fs s;
     (if read_ret = NO_REQUEST then Some (modfd EPOLLIN s)
      else do {
        (write_ret, s) \<leftarrow> process_write read_ret s;
        Some (modfd EPOLLOUT (if write_ret then s else close_conn True s)) }) }"

section \<open>The steps of the parser\<close>

text \<open>What reading and parsing leave alone: all that belongs to the response and to the socket.\<close>

definition kept :: "http_conn \<Rightarrow> http_conn \<Rightarrow> bool" where
  "kept s' s \<longleftrightarrow> m_write_buf s' = m_write_buf s \<and> m_write_idx s' = m_write_idx s \<and> m_sockfd s' = m_sockfd s \<and>
     m_interest s' = m_interest s \<and> m_user_count s' = m_user_count s \<and> m_wire s' = m_wire s"

lemma kept_trans: "kept s'' s' \<Longrightarrow> kept s' s \<Longrightarrow> kept s'' s"
  by (simp add: kept_def)

lemma parse_request_line_ok:
  assumes "cstr (m_read_buf s) i = Some l" and "request_ok l"
  shows "\<exists>b u v. parse_request_line i s = Some (NO_REQUEST, s\<lparr>m_method := GET, m_read_buf := b, m_version := v,
      m_url := Some u, m_check_state := CHECK_STATE_HEADER\<rparr>) \<and> length b = length (m_read_buf s) \<and>
    cstr b u = Some (url_of (target l)) \<and> u + length (url_of (target l)) < i + length l \<and>
    (\<forall>j. i + length l \<le> j \<longrightarrow> b ! j = m_read_buf s ! j)"
proof -
  let ?b = "m_read_buf s"
  define k where "k = length (takeWhile (\<lambda>c. \<not> blank c) l)"
  define j where "j = length (takeWhile blank (tl (dropWhile (\<lambda>c. \<not> blank c) l)))"
  define r where "r = dropWhile blank (tl (dropWhile (\<lambda>c. \<not> blank c) l))"
  define b1 where "b1 = ?b[i + k := NUL]"
  define v where "v = dropWhile blank (tl (dropWhile (\<lambda>c. \<not> blank c) r))"
  define u where "u = takeWhile (\<lambda>c. \<not> blank c) r"
  have ok: "\<exists>c \<in> set l. blank c" "same_ci (takeWhile (\<lambda>c. \<not> blank c) l) ''GET''" "\<exists>c \<in> set r. blank c"
      "same_ci v ''HTTP/1.1''" "url_ok u" "u = target l"
    using assms(2) by (simp_all add: request_ok_def Let_def r_def v_def u_def target_def)
  note 1 = cut_at_blank [OF assms(1) ok(1) k_def r_def j_def b1_def]
  define i2 where "i2 = i + k + 1 + j"
  then have i2: "Suc (i + k + j) = i2" "8 + (i + (k + j)) = i2 + 7"
    by simp_all
  define ku where "ku = length (takeWhile (\<lambda>c. \<not> blank c) r)"
  define jv where "jv = length (takeWhile blank (tl (dropWhile (\<lambda>c. \<not> blank c) r)))"
  define b2 where "b2 = b1[i2 + ku := NUL]"
  note 2 = cut_at_blank [OF 1(5) [folded i2_def] ok(3) ku_def v_def jv_def b2_def]
  define off where "off = i2 + (length u - length (url_of u))"
  let ?s = "s\<lparr>m_method := GET, m_read_buf := b2, m_version := Some (Suc (i2 + ku + jv))\<rparr>"
  have "url_of u \<noteq> []"
    using ok(5) by (simp add: url_ok_def)
  then have "parse_request_line i s = Some (NO_REQUEST, ?s\<lparr>m_url := Some off, m_check_state := CHECK_STATE_HEADER\<rparr>)"
    using 1(1-4) 2(1-5) ok(2,4,5) url_check [OF 2(3) [folded u_def], of "(BAD_REQUEST, ?s\<lparr>m_url := None\<rparr>)"
      "\<lambda>url. (BAD_REQUEST, ?s\<lparr>m_url := Some url\<rparr>)" "\<lambda>url. (NO_REQUEST, ?s\<lparr>m_url := Some url, m_check_state := CHECK_STATE_HEADER\<rparr>)"]
    by (simp add: parse_request_line_def strcasecmp_Some i2 off_def cong del: if_weak_cong)
  moreover have "cstr b2 off = Some (url_of u)"
    using cstr_drop [OF 2(3) [folded u_def], of "length u - length (url_of u)"] url_of_suffix [of u] by (simp add: off_def)
  moreover have "off + length (url_of u) < i + length l"
    using 1(6) 2(6) url_of_suffix(2) [of u] by (simp add: off_def i2_def u_def ku_def)
  moreover have "length b2 = length ?b" "\<forall>j. i + length l \<le> j \<longrightarrow> b2 ! j = ?b ! j"
    using 1(6) 2(6) by (auto simp: b2_def b1_def i2_def)
  ultimately show ?thesis
    using ok(6) by (intro exI [of _ b2] exI [of _ off] exI [of _ "Some (Suc (i2 + ku + jv))"]) simp
qed

lemma parse_request_line_bad:
  assumes "cstr (m_read_buf s) i = Some l" and "\<not> request_ok l"
  shows "\<exists>s'. parse_request_line i s = Some (BAD_REQUEST, s') \<and> kept s' s \<and> m_linger s' = m_linger s"
proof (cases "\<exists>c \<in> set l. blank c")
  case False
  then show ?thesis
    using no_blank [OF assms(1)] by (simp add: parse_request_line_def kept_def)
next
  case True
  let ?b = "m_read_buf s"
  define k where "k = length (takeWhile (\<lambda>c. \<not> blank c) l)"
  define j where "j = length (takeWhile blank (tl (dropWhile (\<lambda>c. \<not> blank c) l)))"
  define r where "r = dropWhile blank (tl (dropWhile (\<lambda>c. \<not> blank c) l))"
  define b1 where "b1 = ?b[i + k := NUL]"
  note 1 = cut_at_blank [OF assms(1) True k_def r_def j_def b1_def]
  define i2 where "i2 = i + k + 1 + j"
  then have i2: "Suc (i + k + j) = i2" "8 + (i + (k + j)) = i2 + 7"
    by simp_all
  show ?thesis
  proof (cases "same_ci (takeWhile (\<lambda>c. \<not> blank c) l) ''GET'' \<and> (\<exists>c \<in> set r. blank c)")
    case False
    then show ?thesis
      using 1(1-4) no_blank [OF 1(5) [folded i2_def]] by (auto simp: parse_request_line_def strcasecmp_Some kept_def i2)
  next
    case get: True
    then have r: "\<exists>c \<in> set r. blank c"
      by blast
    define ku where "ku = length (takeWhile (\<lambda>c. \<not> blank c) r)"
    define jv where "jv = length (takeWhile blank (tl (dropWhile (\<lambda>c. \<not> blank c) r)))"
    define v where "v = dropWhile blank (tl (dropWhile (\<lambda>c. \<not> blank c) r))"
    define u where "u = takeWhile (\<lambda>c. \<not> blank c) r"
    define b2 where "b2 = b1[i2 + ku := NUL]"
    note 2 = cut_at_blank [OF 1(5) [folded i2_def] r ku_def v_def jv_def b2_def]
    have bad: "same_ci v ''HTTP/1.1'' \<Longrightarrow> \<not> url_ok u"
      using assms(2) True get by (auto simp: request_ok_def Let_def r_def [symmetric] v_def u_def)
    let ?s = "s\<lparr>m_method := GET, m_read_buf := b2, m_version := Some (Suc (i2 + ku + jv))\<rparr>"
    show ?thesis
      using 1(1-4) 2(1-5) get bad url_check [OF 2(3) [folded u_def], of "(BAD_REQUEST, ?s\<lparr>m_url := None\<rparr>)"
        "\<lambda>url. (BAD_REQUEST, ?s\<lparr>m_url := Some url\<rparr>)" "\<lambda>url. (NO_REQUEST, ?s\<lparr>m_url := Some url, m_check_state := CHECK_STATE_HEADER\<rparr>)"]
      by (simp add: parse_request_line_def strcasecmp_Some kept_def i2 cong del: if_weak_cong)
  qed
qed

text \<open>What a header line says.\<close>

definition keeps :: "string \<Rightarrow> bool" where
  "keeps h \<longleftrightarrow> same_ci (take 11 h) ''Connection:'' \<and> same_ci (dropWhile blank (drop 11 h)) ''keep-alive''"

definition gives_length :: "string \<Rightarrow> bool" where
  "gives_length h \<longleftrightarrow> \<not> same_ci (take 11 h) ''Connection:'' \<and> same_ci (take 15 h) ''Content-Length:''"

lemma field_value:
  assumes "cstr b i = Some h" and "same_ci (take n h) t" and "length t = n"
  shows "strspn b (i + n) BLANKS = Some (length (takeWhile blank (drop n h)))"
    and "cstr b (i + n + length (takeWhile blank (drop n h))) = Some (dropWhile blank (drop n h))"
proof -
  have c: "cstr b (i + n) = Some (drop n h)"
    using cstr_drop [OF assms(1) same_ci_take [OF assms(2,3)]] .
  then show "strspn b (i + n) BLANKS = Some (length (takeWhile blank (drop n h)))"
    by (simp add: strspn_Some)
  show "cstr b (i + n + length (takeWhile blank (drop n h))) = Some (dropWhile blank (drop n h))"
    using cstr_drop [OF c length_takeWhile_le [of blank]] drop_length_takeWhile [of blank "drop n h"] by simp
qed

definition length_of :: "string \<Rightarrow> int" where
  "length_of h = to_int (atol (dropWhile blank (drop 15 h)))"

lemma parse_headers_line:
  assumes "cstr (m_read_buf s) i = Some h" and "h \<noteq> []"
  shows "\<exists>host. parse_headers i s = Some (NO_REQUEST, s\<lparr>m_linger := m_linger s \<or> keeps h,
    m_content_length := if gives_length h then length_of h else m_content_length s, m_host := host\<rparr>)"
proof -
  have first: "aget (m_read_buf s) i = Some (hd h)" "hd h \<noteq> NUL"
    using cstr_length [OF assms(1)] cstr_nth [OF assms(1), of 0] cstr_no_NUL [OF assms(1)] assms(2)
    by (cases h; auto simp: aget_def)+
  note v = field_value [OF assms(1)]
  note defs = parse_headers_def strncasecmp_Some strcasecmp_Some keeps_def gives_length_def
  consider "same_ci (take 11 h) ''Connection:''"
    | "\<not> same_ci (take 11 h) ''Connection:''" "same_ci (take 15 h) ''Content-Length:''"
    | "\<not> same_ci (take 11 h) ''Connection:''" "\<not> same_ci (take 15 h) ''Content-Length:''" "same_ci (take 5 h) ''Host:''"
    | "\<not> same_ci (take 11 h) ''Connection:''" "\<not> same_ci (take 15 h) ''Content-Length:''" "\<not> same_ci (take 5 h) ''Host:''"
    by blast
  then show ?thesis
  proof cases
    case 1
    have "parse_headers i s = Some (NO_REQUEST, if keeps h then s\<lparr>m_linger := True\<rparr> else s)"
      using 1 first assms(1) v [OF 1] by (simp add: defs)
    then show ?thesis
      using 1 by (intro exI [of _ "m_host s"]) (cases "keeps h"; simp add: gives_length_def)
  next
    case 2
    have "parse_headers i s = Some (NO_REQUEST, s\<lparr>m_content_length := length_of h\<rparr>)"
      using 2 first assms(1) v [OF 2(2)] by (simp add: defs length_of_def)
    then show ?thesis
      using 2 by (intro exI [of _ "m_host s"]) (simp add: gives_length_def keeps_def)
  next
    case 3
    let ?host = "Some (i + 5 + length (takeWhile blank (drop 5 h)))"
    have "parse_headers i s = Some (NO_REQUEST, s\<lparr>m_host := ?host\<rparr>)"
      using 3 first assms(1) v [OF 3(3)] by (simp add: defs)
    then show ?thesis
      using 3 by (intro exI [of _ ?host]) (simp add: gives_length_def keeps_def)
  next
    case 4
    then have "parse_headers i s = Some (NO_REQUEST, s)"
      using first assms(1) by (simp add: defs)
    then show ?thesis
      using 4 by (intro exI [of _ "m_host s"]) (simp add: gives_length_def keeps_def)
  qed
qed

lemma parse_headers_end:
  assumes "cstr (m_read_buf s) i = Some []" and "m_method s = GET"
  shows "parse_headers i s = Some (if m_content_length s = 0 then (GET_REQUEST, s)
    else (NO_REQUEST, s\<lparr>m_check_state := CHECK_STATE_CONTENT\<rparr>))"
  using assms cstr_length [OF assms(1)] cstr_end [OF assms(1)] by (simp add: parse_headers_def aget_def)

text \<open>The path that is looked up, and what the file system's answer means.\<close>

definition path_of :: "string \<Rightarrow> string" where
  "path_of u = doc_root @ take (FILENAME_LEN - length doc_root - 1) u"

definition file_code :: "served_file option \<Rightarrow> HTTP_CODE" where
  "file_code f = (case f of None \<Rightarrow> NO_RESOURCE | Some f \<Rightarrow>
     if \<not> read_by_others (file_meta f) then FORBIDDEN_REQUEST else if is_dir (file_meta f) then BAD_REQUEST else FILE_REQUEST)"

lemma do_request_ok:
  assumes "m_url s = Some k" and "cstr (m_read_buf s) k = Some u" and "length (m_real_file s) = FILENAME_LEN"
    and "m_real_file s ! (FILENAME_LEN - 1) = NUL"
  shows "\<exists>s'. do_request fs s = Some (file_code (fs (path_of u)), s') \<and> kept s' s \<and> m_linger s' = m_linger s \<and>
    (\<forall>f. fs (path_of u) = Some f \<longrightarrow> m_file_stat s' = file_meta f \<and> (file_code (Some f) = FILE_REQUEST \<longrightarrow> m_file_address s' = mmap_file f))"
proof -
  let ?n = "FILENAME_LEN - length doc_root - 1"
  let ?f = "doc_root @ take ?n (u @ replicate ?n NUL) @ drop (length doc_root + ?n) (m_real_file s)"
  have len: "length doc_root = 13" "?n = 186" "length doc_root + ?n = 199"
    by (simp_all add: doc_root_def FILENAME_LEN_def)
  have "drop 199 (m_real_file s) = [NUL]"
    using assms(3,4) Cons_nth_drop_Suc [of 199 "m_real_file s"] by (simp add: FILENAME_LEN_def)
  moreover have "NUL \<notin> set (path_of u)"
    using cstr_no_NUL [OF assms(2)] by (auto simp: path_of_def doc_root_def dest: in_set_takeD)
  moreover have "?f = path_of u @ replicate (?n - length u) NUL @ [NUL]"
    using len calculation(1) by (simp add: path_of_def)
  moreover have "replicate (?n - length u) NUL @ [NUL] = NUL # replicate (?n - length u) NUL"
    by (simp add: replicate_append_same)
  ultimately have "cstr ?f 0 = Some (path_of u)"
    by (auto simp: cstr_iff)
  then show ?thesis
    using assms(1-3) by (auto simp: do_request_def file_code_def kept_def Let_def split: option.split)
qed

section \<open>The specification of a request\<close>

text \<open>
  Where the parser is: before the request line, or among the headers with the path found,
  whether the connection is to be kept and the length announced so far. A line that is
  broken off or malformed leaves it waiting.
\<close>

datatype phase = Req | Hdr string bool int

datatype verdict = Reject | Find string bool | Body string bool int string | Wait phase string

function conn_scan :: "phase \<Rightarrow> string \<Rightarrow> verdict" where
  "conn_scan ph bs = (case cut_line bs of
     Line l r \<Rightarrow> let h = visible l in
       (case ph of
          Req \<Rightarrow> if request_ok h then conn_scan (Hdr (url_of (target h)) False 0) r else Reject
        | Hdr u k n \<Rightarrow>
            if h = [] then if n = 0 then Find u k else Body u k n r
            else conn_scan (Hdr u (k \<or> keeps h) (if gives_length h then length_of h else n)) r)
   | _ \<Rightarrow> Wait ph bs)"
  by pat_completeness auto
termination
  by (relation "measure (\<lambda>(ph, bs). length bs)") (auto dest: cut_line_shorter)

declare conn_scan.simps [simp del]

fun phase_ok :: "phase \<Rightarrow> http_conn \<Rightarrow> bool" where
  "phase_ok Req s \<longleftrightarrow> m_check_state s = CHECK_STATE_REQUESTLINE \<and> \<not> m_linger s \<and> m_content_length s = 0"
| "phase_ok (Hdr u k n) s \<longleftrightarrow> m_check_state s = CHECK_STATE_HEADER \<and> m_linger s = k \<and> m_content_length s = n \<and> m_method s = GET \<and>
     (\<exists>p. m_url s = Some p \<and> cstr (m_read_buf s) p = Some u \<and> p + length u < m_start_line s)"

definition cinv :: "phase \<Rightarrow> http_conn \<Rightarrow> bool" where
  "cinv ph s \<longleftrightarrow> length (m_read_buf s) = READ_BUFFER_SIZE \<and> length (m_write_buf s) = WRITE_BUFFER_SIZE \<and>
     length (m_real_file s) = FILENAME_LEN \<and> m_real_file s ! (FILENAME_LEN - 1) = NUL \<and>
     line_inv (m_read_buf s) (m_start_line s) (m_checked_idx s) (m_read_idx s) \<and> phase_ok ph s"

definition conn_pending :: "http_conn \<Rightarrow> string" where
  "conn_pending s = segment (m_read_buf s) (m_start_line s) (m_read_idx s)"

text \<open>Whatever the verdict, this is how \<^verbatim>\<open>process_read\<close> ends.\<close>

definition read_result :: "(string \<Rightarrow> served_file option) \<Rightarrow> http_conn \<Rightarrow> verdict \<Rightarrow> (HTTP_CODE \<times> http_conn) option \<Rightarrow> bool" where
  "read_result fs s v res \<longleftrightarrow> (case v of
     Reject \<Rightarrow> \<exists>s'. res = Some (BAD_REQUEST, s') \<and> kept s' s \<and> m_linger s' = False
   | Find u k \<Rightarrow> \<exists>s'. res = Some (file_code (fs (path_of u)), s') \<and> kept s' s \<and> m_linger s' = k \<and>
       (\<forall>f. fs (path_of u) = Some f \<longrightarrow> m_file_stat s' = file_meta f \<and> (file_code (Some f) = FILE_REQUEST \<longrightarrow> m_file_address s' = mmap_file f))
   | Body u k n r \<Rightarrow> \<exists>s'. res = process_read_loop fs LINE_OK s' \<and> kept s' s \<and> cinv (Hdr u k n) (s'\<lparr>m_check_state := CHECK_STATE_HEADER\<rparr>) \<and>
       m_check_state s' = CHECK_STATE_CONTENT \<and> m_start_line s' = m_checked_idx s' \<and> m_read_idx s' = m_read_idx s \<and> conn_pending s' = r
   | Wait ph r \<Rightarrow> \<exists>s'. res = Some (NO_REQUEST, s') \<and> kept s' s \<and> cinv ph s' \<and> m_read_idx s' = m_read_idx s \<and> conn_pending s' = r)"

section \<open>The parser refines the specification\<close>

text \<open>A whole line: what the scanner returns, and the state in which the next line is looked for.\<close>

lemma conn_line:
  assumes "cinv ph s" and "cut_line (conn_pending s) = Line l rest"
  obtains b e where "conn_parse_line s = Some (LINE_OK, s\<lparr>m_read_buf := b, m_checked_idx := e\<rparr>)"
    and "cstr b (m_start_line s) = Some (visible l)" and "length b = READ_BUFFER_SIZE" and "m_start_line s + length (visible l) < e"
    and "\<forall>j < m_start_line s. b ! j = m_read_buf s ! j"
    and "\<And>q ph'. length (m_read_buf q) = READ_BUFFER_SIZE \<Longrightarrow>
      \<forall>j. m_start_line s + length (visible l) \<le> j \<longrightarrow> m_read_buf q ! j = b ! j \<Longrightarrow> m_checked_idx q = e \<Longrightarrow> m_start_line q = e \<Longrightarrow>
      m_read_idx q = m_read_idx s \<Longrightarrow> m_write_buf q = m_write_buf s \<Longrightarrow> m_real_file q = m_real_file s \<Longrightarrow> phase_ok ph' q \<Longrightarrow>
      cinv ph' q \<and> conn_pending q = rest"
proof -
  have inv: "line_inv (m_read_buf s) (m_start_line s) (m_checked_idx s) (m_read_idx s)" "length (m_read_buf s) = READ_BUFFER_SIZE"
    using assms(1) by (simp_all add: cinv_def)
  obtain b e where w: "parse_line (m_read_buf s) (m_checked_idx s) (m_read_idx s) = Some (LINE_OK, b, e)"
      "cstr b (m_start_line s) = Some (visible l)" "length b = length (m_read_buf s)" "m_start_line s + length l + 2 = e"
      "\<And>b2. length b2 = length (m_read_buf s) \<Longrightarrow> \<forall>j. m_start_line s + length (visible l) \<le> j \<longrightarrow> b2 ! j = b ! j \<Longrightarrow>
        line_inv b2 e e (m_read_idx s) \<and> segment b2 e (m_read_idx s) = rest"
      "\<forall>j < m_start_line s. b ! j = m_read_buf s ! j"
    by (rule whole_line [OF inv(1) assms(2) [unfolded conn_pending_def]], rule that) assumption+
  have "length (visible l) \<le> length l"
    by (rule length_takeWhile_le)
  with w inv(2) assms(1) show ?thesis
    by (intro that [of e b]) (auto simp: conn_parse_line_def cinv_def conn_pending_def)
qed

lemma read_request_line:
  assumes "cinv Req s" and "cut_line (conn_pending s) = Line l rest"
  shows "if request_ok (visible l)
    then \<exists>q. process_read_loop fs LINE_OK s = process_read_loop fs LINE_OK q \<and> cinv (Hdr (url_of (target (visible l))) False 0) q \<and>
      conn_pending q = rest \<and> kept q s \<and> m_read_idx q = m_read_idx s
    else \<exists>q. process_read_loop fs LINE_OK s = Some (BAD_REQUEST, q) \<and> kept q s \<and> \<not> m_linger q"
proof -
  have ph: "m_check_state s = CHECK_STATE_REQUESTLINE" "\<not> m_linger s" "m_content_length s = 0"
    using assms(1) by (simp_all add: cinv_def)
  let ?i = "m_start_line s" and ?h = "visible l"
  obtain b e where line: "conn_parse_line s = Some (LINE_OK, s\<lparr>m_read_buf := b, m_checked_idx := e\<rparr>)"
      "cstr b ?i = Some ?h" "length b = READ_BUFFER_SIZE" "?i + length ?h < e"
      "\<And>q ph'. length (m_read_buf q) = READ_BUFFER_SIZE \<Longrightarrow> \<forall>j. ?i + length ?h \<le> j \<longrightarrow> m_read_buf q ! j = b ! j \<Longrightarrow>
        m_checked_idx q = e \<Longrightarrow> m_start_line q = e \<Longrightarrow> m_read_idx q = m_read_idx s \<Longrightarrow> m_write_buf q = m_write_buf s \<Longrightarrow>
        m_real_file q = m_real_file s \<Longrightarrow> phase_ok ph' q \<Longrightarrow> cinv ph' q \<and> conn_pending q = rest"
    by (rule conn_line [OF assms], rule that) assumption+
  let ?s = "s\<lparr>m_read_buf := b, m_checked_idx := e, m_start_line := e\<rparr>"
  have c: "cstr (m_read_buf ?s) ?i = Some ?h"
    using line(2) by simp
  show ?thesis
  proof (cases "request_ok ?h")
    case True
    obtain b2 u v where p: "parse_request_line ?i ?s = Some (NO_REQUEST, ?s\<lparr>m_method := GET, m_read_buf := b2, m_version := v,
        m_url := Some u, m_check_state := CHECK_STATE_HEADER\<rparr>)" "length b2 = length (m_read_buf ?s)"
        "cstr b2 u = Some (url_of (target ?h))" "u + length (url_of (target ?h)) < ?i + length ?h"
        "\<forall>j. ?i + length ?h \<le> j \<longrightarrow> b2 ! j = m_read_buf ?s ! j"
      using parse_request_line_ok [OF c True] by blast
    let ?q = "?s\<lparr>m_method := GET, m_read_buf := b2, m_version := v, m_url := Some u, m_check_state := CHECK_STATE_HEADER\<rparr>"
    have "process_read_loop fs LINE_OK s = process_read_loop fs LINE_OK ?q"
      by (subst process_read_loop.simps) (use line(1) c p(1) ph in simp)
    moreover have "cinv (Hdr (url_of (target ?h)) False 0) ?q \<and> conn_pending ?q = rest"
      by (rule line(5)) (use p(2-5) line(3,4) ph in simp_all)
    ultimately show ?thesis
      using True by (auto simp: kept_def intro!: exI [of _ ?q])
  next
    case False
    then obtain s' where "parse_request_line ?i ?s = Some (BAD_REQUEST, s')" "kept s' ?s" "m_linger s' = m_linger ?s"
      using parse_request_line_bad [OF c False] by blast
    moreover from this have "process_read_loop fs LINE_OK s = Some (BAD_REQUEST, s')"
      by (subst process_read_loop.simps) (use line(1) c ph in simp)
    ultimately show ?thesis
      using False ph by (auto simp: kept_def)
  qed
qed

lemma read_header_line:
  assumes "cinv (Hdr u k n) s" and "cut_line (conn_pending s) = Line l rest" and "h = visible l"
  shows "\<exists>q. cinv (Hdr u (k \<or> keeps h) (if gives_length h then length_of h else n)) q \<and> conn_pending q = rest \<and> kept q s \<and>
      m_read_idx q = m_read_idx s \<and> m_start_line q = m_checked_idx q \<and>
      process_read_loop fs LINE_OK s = (if h \<noteq> [] then process_read_loop fs LINE_OK q
        else if n = 0 then do_request fs q else process_read_loop fs LINE_OK (q\<lparr>m_check_state := CHECK_STATE_CONTENT\<rparr>))"
proof -
  obtain p where ph: "m_check_state s = CHECK_STATE_HEADER" "m_linger s = k" "m_content_length s = n" "m_method s = GET"
      "m_url s = Some p" "cstr (m_read_buf s) p = Some u" "p + length u < m_start_line s"
    using assms(1) by (auto simp: cinv_def)
  let ?i = "m_start_line s"
  obtain b e where line: "conn_parse_line s = Some (LINE_OK, s\<lparr>m_read_buf := b, m_checked_idx := e\<rparr>)"
      "cstr b ?i = Some (visible l)" "length b = READ_BUFFER_SIZE" "?i + length (visible l) < e" "\<forall>j < ?i. b ! j = m_read_buf s ! j"
      "\<And>q ph'. length (m_read_buf q) = READ_BUFFER_SIZE \<Longrightarrow> \<forall>j. ?i + length (visible l) \<le> j \<longrightarrow> m_read_buf q ! j = b ! j \<Longrightarrow>
        m_checked_idx q = e \<Longrightarrow> m_start_line q = e \<Longrightarrow> m_read_idx q = m_read_idx s \<Longrightarrow> m_write_buf q = m_write_buf s \<Longrightarrow>
        m_real_file q = m_real_file s \<Longrightarrow> phase_ok ph' q \<Longrightarrow> cinv ph' q \<and> conn_pending q = rest"
    by (rule conn_line [OF assms(1,2)], rule that) assumption+
  let ?s = "s\<lparr>m_read_buf := b, m_checked_idx := e, m_start_line := e\<rparr>"
  have c: "cstr (m_read_buf ?s) ?i = Some h" "cstr b ?i = Some h"
    using line(2) assms(3) by simp_all
  have u: "cstr b p = Some u"
    using ph(7) line(3,5) assms(1) by (intro cstr_cong [OF ph(6)]) (auto simp: cinv_def)
  have step: "process_read_loop fs LINE_OK s = do {
      (ret, s) \<leftarrow> parse_headers ?i ?s;
      (if ret = BAD_REQUEST then Some (BAD_REQUEST, s)
       else if ret = GET_REQUEST then do_request fs s else process_read_loop fs LINE_OK s) }"
    by (subst process_read_loop.simps) (use line(1) c(2) ph(1) in simp)
  show ?thesis
  proof (cases "h = []")
    case True
    have "cinv (Hdr u k n) ?s \<and> conn_pending ?s = rest"
      by (rule line(6)) (use u line(3,4) ph in simp_all)
    moreover have "\<not> keeps h" "\<not> gives_length h"
      by (simp_all add: True keeps_def gives_length_def same_ci_def)
    ultimately show ?thesis
      using True step parse_headers_end [OF c(1) [unfolded True]] ph by (intro exI [of _ ?s]) (simp add: kept_def)
  next
    case False
    obtain host where hd: "parse_headers ?i ?s = Some (NO_REQUEST, ?s\<lparr>m_linger := m_linger ?s \<or> keeps h,
        m_content_length := if gives_length h then length_of h else m_content_length ?s, m_host := host\<rparr>)"
      using parse_headers_line [OF c(1) False] by blast
    let ?q = "?s\<lparr>m_linger := k \<or> keeps h, m_content_length := if gives_length h then length_of h else n, m_host := host\<rparr>"
    have "process_read_loop fs LINE_OK s = process_read_loop fs LINE_OK ?q"
      using step hd ph(2,3) by simp
    moreover have "cinv (Hdr u (k \<or> keeps h) (if gives_length h then length_of h else n)) ?q \<and> conn_pending ?q = rest"
      by (rule line(6)) (use u line(3,4) ph in simp_all)
    ultimately show ?thesis
      using False by (intro exI [of _ ?q]) (simp add: kept_def)
  qed
qed

lemma read_result_rec:
  assumes "read_result fs q v res" and "kept q s" and "m_read_idx q = m_read_idx s"
  shows "read_result fs s v res"
  using assms kept_trans [OF _ assms(2)] by (fastforce simp: read_result_def split: verdict.splits)

lemma do_request_found:
  assumes "cinv (Hdr u k n) q"
  shows "read_result fs q (Find u k) (do_request fs q)"
proof -
  obtain p where "m_url q = Some p" "cstr (m_read_buf q) p = Some u" "m_linger q = k"
    using assms by (auto simp: cinv_def)
  then show ?thesis
    using do_request_ok [of q p u fs] assms by (simp add: read_result_def cinv_def)
qed

lemma no_line_waits:
  assumes "cinv ph s" and "\<forall>l r. cut_line (conn_pending s) \<noteq> Line l r"
  shows "\<exists>s'. process_read_loop fs LINE_OK s = Some (NO_REQUEST, s') \<and> kept s' s \<and> cinv ph s' \<and> m_read_idx s' = m_read_idx s \<and>
    conn_pending s' = conn_pending s"
proof -
  have "line_result (m_read_buf s) (m_start_line s) (m_read_idx s) (parse_line (m_read_buf s) (m_checked_idx s) (m_read_idx s))"
    using assms(1) by (simp add: cinv_def parse_line_ok)
  then obtain st c where l: "parse_line (m_read_buf s) (m_checked_idx s) (m_read_idx s) = Some (st, m_read_buf s, c)" "st \<noteq> LINE_OK"
      "line_inv (m_read_buf s) (m_start_line s) c (m_read_idx s)"
    using assms(2) by (auto simp: line_result_def conn_pending_def split: cut.splits)
  have "m_check_state s \<noteq> CHECK_STATE_CONTENT"
    using assms(1) by (cases ph) (auto simp: cinv_def)
  then have "process_read_loop fs LINE_OK s = Some (NO_REQUEST, s\<lparr>m_checked_idx := c\<rparr>)"
    by (subst process_read_loop.simps) (simp add: conn_parse_line_def l)
  moreover have "cinv ph (s\<lparr>m_checked_idx := c\<rparr>)"
    using assms(1) l(3) by (cases ph) (simp_all add: cinv_def)
  ultimately show ?thesis
    by (simp add: kept_def conn_pending_def)
qed

text \<open>The empty line that ends the headers: the request is done, or its body is awaited.\<close>

lemma read_headers_end:
  assumes s: "cinv (Hdr u k n) s" and l: "cut_line (conn_pending s) = Line l r" and h: "visible l = []"
  shows "read_result fs s (conn_scan (Hdr u k n) (conn_pending s)) (process_read_loop fs LINE_OK s)"
proof -
  have no: "\<not> keeps (visible l)" "\<not> gives_length (visible l)"
    unfolding h by (simp_all add: keeps_def gives_length_def same_ci_def)
  obtain q where q: "cinv (Hdr u k n) q" "conn_pending q = r" "kept q s"
      "m_read_idx q = m_read_idx s" "m_start_line q = m_checked_idx q"
      "process_read_loop fs LINE_OK s = (if n = 0 then do_request fs q else process_read_loop fs LINE_OK (q\<lparr>m_check_state := CHECK_STATE_CONTENT\<rparr>))"
    using read_header_line [OF s l refl, of fs] no h by auto
  note scan = conn_scan.simps [of "Hdr u k n" "conn_pending s"]
  show ?thesis
  proof (cases "n = 0")
    case True
    then show ?thesis
      using read_result_rec [OF do_request_found [OF q(1)] q(3,4)] q(6) scan l h by simp
  next
    case False
    then show ?thesis
      using q scan l h
      by (auto simp: read_result_def kept_def conn_pending_def cinv_def intro!: exI [of _ "q\<lparr>m_check_state := CHECK_STATE_CONTENT\<rparr>"])
  qed
qed

lemma process_read_ok: "cinv ph s \<Longrightarrow> read_result fs s (conn_scan ph (conn_pending s)) (process_read_loop fs LINE_OK s)"
proof (induction "length (conn_pending s)" arbitrary: ph s rule: less_induct)
  case less
  note scan = conn_scan.simps [of ph "conn_pending s"]
  show ?case
  proof (cases "\<forall>l r. cut_line (conn_pending s) \<noteq> Line l r")
    case True
    then have "conn_scan ph (conn_pending s) = Wait ph (conn_pending s)"
      using scan by (auto split: cut.splits)
    then show ?thesis
      using no_line_waits [OF less.prems True] by (simp add: read_result_def)
  next
    case False
    then obtain l r where l: "cut_line (conn_pending s) = Line l r"
      by blast
    have rec: "read_result fs s (conn_scan ph' r) (process_read_loop fs LINE_OK q)"
      if "cinv ph' q" "conn_pending q = r" "kept q s" "m_read_idx q = m_read_idx s" for q ph'
      using less.hyps [of q ph'] that cut_line_shorter [OF l] read_result_rec by metis
    show ?thesis
    proof (cases ph)
      case Req
      note step = read_request_line [OF less.prems [unfolded Req] l, of fs]
      show ?thesis
      proof (cases "request_ok (visible l)")
        case True
        then show ?thesis
          using step rec scan l Req by (auto simp: Let_def)
      next
        case False
        then show ?thesis
          using step scan l Req by (simp add: read_result_def Let_def)
      qed
    next
      case (Hdr u k n)
      note s = less.prems [unfolded Hdr]
      show ?thesis
      proof (cases "visible l = []")
        case True
        then show ?thesis
          using read_headers_end [OF s l] Hdr by simp
      next
        case False
        then show ?thesis
          using read_header_line [OF s l refl, of fs] rec scan l Hdr by (auto simp: Let_def)
      qed
    qed
  qed
qed

end
