(* ===== verification/HTTP_Exchange.thy ===== *)
theory HTTP_Exchange
  imports HTTP_Conn
begin

text \<open>
  A whole exchange on one connection of the web server: the request may arrive in any
  pieces, the response is composed in the write buffer, and its last byte sent either
  ends the connection or makes it ready for the next request.
\<close>

section \<open>Reading pieces\<close>

lemma conn_scan_append:
  "conn_scan ph (xs @ ys) = (case conn_scan ph xs of
     Wait ph' r \<Rightarrow> conn_scan ph' (r @ ys) | Body u k n r \<Rightarrow> Body u k n (r @ ys) | v \<Rightarrow> v)"
proof (induction ph xs rule: conn_scan.induct)
  case (1 ph xs)
  show ?case
  proof (cases "cut_line xs")
    case Open
    then show ?thesis
      by (subst (2) conn_scan.simps) simp
  next
    case Bad
    then show ?thesis
      by (subst (2) conn_scan.simps) simp
  next
    case (Line l r)
    then have "cut_line (xs @ ys) = Line l (r @ ys)"
      using cut_line_append by simp
    then show ?thesis
      using Line 1 [OF Line refl] by (subst (1 2) conn_scan.simps) (cases ph; simp add: Let_def)
  qed
qed

lemma conn_scan_Wait: "conn_scan ph bs = Wait ph' r \<Longrightarrow> conn_scan ph' r = Wait ph' r"
proof (induction ph bs rule: conn_scan.induct)
  case (1 ph bs)
  show ?case
  proof (cases "cut_line bs")
    case (Line l rest)
    then show ?thesis
      using "1.prems" "1.IH" [OF Line refl] conn_scan.simps [of ph bs] by (cases ph) (auto simp: Let_def split: if_splits)
  qed (use "1.prems" conn_scan.simps [of ph bs] in auto)
qed

text \<open>Bytes that the socket delivers are stored behind those that are already there.\<close>

lemma read_loop_ok:
  assumes "cinv ph s" and "[] \<notin> set ds" and "m_read_idx s + length (concat ds) \<le> READ_BUFFER_SIZE"
  shows "\<exists>s'. read_loop (map Data ds) s = Some (True, s') \<and> cinv ph s' \<and> kept s' s \<and>
    conn_pending s' = conn_pending s @ concat ds \<and> m_read_idx s' = m_read_idx s + length (concat ds)"
  using assms
proof (induction ds arbitrary: s)
  case Nil
  then show ?case
    by (simp add: kept_def)
next
  case (Cons d ds)
  let ?b = "m_read_buf s" and ?r = "m_read_idx s"
  let ?b' = "take ?r ?b @ d @ drop (?r + length d) ?b"
  let ?q = "s\<lparr>m_read_buf := ?b', m_read_idx := ?r + length d\<rparr>"
  have i: "length ?b = READ_BUFFER_SIZE" "m_start_line s \<le> m_checked_idx s" "m_checked_idx s \<le> ?r" "?r + length d \<le> READ_BUFFER_SIZE"
    using Cons.prems(1,3) by (auto simp: cinv_def line_inv_def)
  have b: "length ?b' = READ_BUFFER_SIZE" "\<forall>j < ?r. ?b' ! j = ?b ! j"
    using i by (auto simp: nth_append)
  have "m_start_line s - 1 < ?r" if "0 < m_start_line s"
    using that i by linarith
  then have line: "line_inv ?b' (m_start_line s) (m_checked_idx s) (?r + length d)"
    using Cons.prems(1) b i by (auto simp: cinv_def line_inv_def)
  have "phase_ok ph ?q"
  proof (cases ph)
    case (Hdr u k n)
    then obtain p where p: "m_url s = Some p" "cstr ?b p = Some u" "p + length u < m_start_line s"
      using Cons.prems(1) by (auto simp: cinv_def)
    then have "cstr ?b' p = Some u"
      using b i by (intro cstr_cong [OF p(2)]) auto
    then show ?thesis
      using Cons.prems(1) Hdr p by (simp add: cinv_def)
  qed (use Cons.prems(1) in \<open>simp add: cinv_def\<close>)
  then have q: "cinv ph ?q"
    using Cons.prems(1) b(1) line by (simp add: cinv_def)
  have "segment ?b' (m_start_line s) ?r = segment ?b (m_start_line s) ?r"
    by (rule segment_cong) (use b i in auto)
  moreover have "segment ?b' ?r (?r + length d) = d"
    using i by (simp add: segment_def)
  ultimately have pend: "conn_pending ?q = conn_pending s @ d"
    using segment_append [of "m_start_line s" ?r "?r + length d" ?b'] b(1) i by (simp add: conn_pending_def)
  have "d \<noteq> []"
    using Cons.prems(2) by auto
  then have "read_loop (map Data (d # ds)) s = read_loop (map Data ds) ?q"
    using i by simp
  moreover obtain s' where "read_loop (map Data ds) ?q = Some (True, s')" "cinv ph s'" "kept s' ?q"
      "conn_pending s' = conn_pending ?q @ concat ds" "m_read_idx s' = m_read_idx ?q + length (concat ds)"
    using Cons.IH [OF q] Cons.prems(2,3) by auto
  ultimately show ?case
    using pend by (auto simp: kept_def)
qed

section \<open>Numbers in decimal\<close>

lemma length_dec: "n < 10 ^ k \<Longrightarrow> 0 < k \<Longrightarrow> length (dec n) \<le> k"
proof (induction k arbitrary: n)
  case (Suc k)
  show ?case
  proof (cases "n < 10")
    case False
    then have "n div 10 < 10 ^ k" "0 < k"
      using Suc.prems by (auto simp: less_mult_imp_div_less power_0 intro: gr0I)
    then show ?thesis
      using Suc.IH [of "n div 10"] False by (subst dec.simps) simp
  qed (subst dec.simps, simp)
qed simp

lemma length_show_int:
  assumes "in_int x"
  shows "length (show_int x) \<le> 11"
proof -
  have "nat (- x) < 10 ^ 10" "nat x < 10 ^ 10"
    by (subst nat_less_numeral_power_cancel_iff, use assms in \<open>simp add: in_int_def INT_MIN_def INT_MAX_def\<close>)+
  then have "length (dec (nat (- x))) \<le> 10" "length (dec (nat x)) \<le> 10"
    using length_dec [of _ 10] by simp_all
  then show ?thesis
    by (simp add: show_int_def)
qed

text \<open>A number that was printed is read back: in particular \<^verbatim>\<open>Content-Length\<close> tells a client the length that was meant.\<close>

lemma digit_char: "d < 10 \<Longrightarrow> digit (char_of (48 + d)) = Some (int d)"
  by (simp add: digit_def)

lemma digits_append: "\<forall>c \<in> set xs. digit c \<noteq> None \<Longrightarrow> digits v (xs @ ys) = digits (digits v xs) ys"
  by (induction xs arbitrary: v) (auto split: option.splits)

lemma set_dec: "c \<in> set (dec n) \<Longrightarrow> \<exists>d < 10. c = char_of (48 + d :: nat)"
proof (induction n rule: dec.induct)
  case (1 n)
  then show ?case
    by (cases "n < 10") (auto simp: dec.simps [of n] intro: exI [of _ "n mod 10"])
qed

lemma digits_dec: "digits 0 (dec n) = int n"
proof (induction n rule: dec.induct)
  case (1 n)
  have "\<forall>c \<in> set (dec m). digit c \<noteq> None" for m
    using set_dec digit_char by fastforce
  then have "digits 0 (dec (n div 10) @ [char_of (48 + n mod 10)]) = digits (digits 0 (dec (n div 10))) [char_of (48 + n mod 10)]"
    by (intro digits_append)
  moreover have "10 * int (n div 10) + int (n mod 10) = int n"
    by presburger
  ultimately show ?case
    using 1 by (subst dec.simps) (simp add: digit_char)
qed

lemma digit_no_sign:
  assumes "d < 10" and "c = (char_of (48 + d :: nat) :: char)"
  shows "\<not> is_space c" and "c \<noteq> CHR ''-''" and "c \<noteq> CHR ''+''"
proof -
  have c: "(of_char c :: nat) = 48 + d"
    using assms by simp
  show "c \<noteq> CHR ''-''" "c \<noteq> CHR ''+''"
    using c by auto
  have "c \<noteq> CHR 0x20"
    using c by auto
  then show "\<not> is_space c"
    using c by (simp add: is_space_def)
qed

lemma dec_not_Nil: "dec n \<noteq> []"
  by (subst dec.simps) simp

lemma atol_show_int:
  assumes "in_int x"
  shows "atol (show_int x) = x"
proof -
  obtain c cs where c: "dec (nat x) = c # cs"
    using dec_not_Nil by (cases "dec (nat x)") auto
  then obtain d where d: "d < 10" "c = char_of (48 + d :: nat)"
    using set_dec [of c "nat x"] by auto
  have "\<not> is_space (CHR ''-'')"
    by (simp add: is_space_def)
  then show ?thesis
    using assms c d digit_no_sign [OF d] digits_dec [of "nat x"] digits_dec [of "nat (- x)"]
    by (auto simp: atol_def show_int_def Let_def LONG_MAX_def in_int_def INT_MIN_def INT_MAX_def)
qed

section \<open>The response\<close>

definition written :: "http_conn \<Rightarrow> string" where
  "written s = take (m_write_idx s) (m_write_buf s)"

text \<open>The state after a text was put behind what is already in the write buffer.\<close>

definition wrote :: "string \<Rightarrow> http_conn \<Rightarrow> http_conn \<Rightarrow> bool" where
  "wrote txt s s' \<longleftrightarrow> (\<exists>b. s' = s\<lparr>m_write_buf := b, m_write_idx := m_write_idx s + length txt\<rparr> \<and> length b = WRITE_BUFFER_SIZE \<and>
     take (m_write_idx s + length txt) b = written s @ txt)"

definition room :: "nat \<Rightarrow> http_conn \<Rightarrow> bool" where
  "room n s \<longleftrightarrow> length (m_write_buf s) = WRITE_BUFFER_SIZE \<and> m_write_idx s + n < WRITE_BUFFER_SIZE - 1"

lemma wrote_trans: "wrote t s s' \<Longrightarrow> wrote u s' s'' \<Longrightarrow> wrote (t @ u) s s''"
  by (auto simp: wrote_def written_def add.assoc)

lemma wrote_room: "wrote t s s' \<Longrightarrow> room (length t + n) s \<Longrightarrow> room n s'"
  by (auto simp: wrote_def room_def)

lemma add_response_ok:
  assumes "room (length txt) s"
  shows "\<exists>s'. add_response txt s = Some (True, s') \<and> wrote txt s s'"
proof -
  let ?i = "m_write_idx s" and ?b = "m_write_buf s"
  have len: "length ?b = 1024" "?i + length txt < 1023"
    using assms by (simp_all add: room_def WRITE_BUFFER_SIZE_def)
  let ?out = "txt @ [NUL]"
  let ?b' = "take ?i ?b @ ?out @ drop (?i + length ?out) ?b"
  have "add_response txt s = Some (True, s\<lparr>m_write_buf := ?b', m_write_idx := ?i + length txt\<rparr>)"
    using len by (simp add: add_response_def WRITE_BUFFER_SIZE_def min_def)
  then show ?thesis
    using len by (auto simp: wrote_def written_def WRITE_BUFFER_SIZE_def)
qed

text \<open>The text of the head of a response.\<close>

definition status_text :: "int \<Rightarrow> string \<Rightarrow> string" where
  "status_text status title = ''HTTP/1.1'' @ '' '' @ show_int status @ '' '' @ title @ [CR, LF]"

definition header_text :: "int \<Rightarrow> bool \<Rightarrow> string" where
  "header_text len linger = (''Content-Length: '' @ show_int len @ [CR, LF]) @
     (''Connection: '' @ (if linger then ''keep-alive'' else ''close'') @ [CR, LF]) @ [CR, LF]"

lemma add_headers_ok:
  assumes "room (length (header_text n (m_linger s))) s"
  shows "\<exists>s'. add_headers n s = Some s' \<and> wrote (header_text n (m_linger s)) s s'"
proof -
  let ?a = "''Content-Length: '' @ show_int n @ [CR, LF]" and ?k = "if m_linger s then ''keep-alive'' else ''close''"
  let ?c = "''Connection: '' @ ?k @ [CR, LF]"
  have r: "room (length ?a + (length ?c + length [CR, LF])) s"
    using assms by (simp only: header_text_def length_append)
  then obtain s1 where 1: "add_content_length n s = Some (True, s1)" "wrote ?a s s1"
    using add_response_ok [of ?a s] by (auto simp: add_content_length_def room_def)
  have r1: "room (length ?c + length [CR, LF]) s1" and k: "m_linger s1 = m_linger s"
    using wrote_room [OF 1(2) r] 1(2) by (auto simp: wrote_def)
  then obtain s2 where 2: "add_linger s1 = Some (True, s2)" "wrote ?c s1 s2"
    using add_response_ok [of ?c s1] by (auto simp: add_linger_def room_def)
  have "room (length [CR, LF]) s2"
    using wrote_room [OF 2(2) r1] .
  then obtain s3 where 3: "add_blank_line s2 = Some (True, s3)" "wrote [CR, LF] s2 s3"
    using add_response_ok [of "[CR, LF]" s2] by (auto simp: add_blank_line_def)
  have "wrote (?a @ ?c @ [CR, LF]) s s3"
    by (rule wrote_trans [OF 1(2) wrote_trans [OF 2(2) 3(2)]])
  moreover have "add_headers n s = Some s3"
    by (simp add: add_headers_def 1(1) 2(1) 3(1))
  ultimately show ?thesis
    by (simp only: header_text_def) blast
qed

lemma length_texts:
  "in_int status \<Longrightarrow> length (status_text status title) \<le> 23 + length title"
  "in_int n \<Longrightarrow> length (header_text n linger) \<le> 55"
  using length_show_int [of status] length_show_int [of n] by (auto simp: status_text_def header_text_def)

lemma add_status_line_ok:
  assumes "room (length (status_text status title)) s"
  shows "\<exists>s'. add_status_line status title s = Some (True, s') \<and> wrote (status_text status title) s s'"
  using add_response_ok [OF assms] by (simp add: add_status_line_def status_text_def)

lemma add_head_ok:
  assumes "in_int status" and "in_int n" and "room (78 + length title) s"
  shows "\<exists>s1 s2. add_status_line status title s = Some (True, s1) \<and> add_headers n s1 = Some s2 \<and>
    wrote (status_text status title) s s1 \<and> wrote (status_text status title @ header_text n (m_linger s)) s s2"
proof -
  have len: "length (status_text status title) + length (header_text n (m_linger s)) \<le> 78 + length title"
    using length_texts(1) [OF assms(1), of title] length_texts(2) [OF assms(2), of "m_linger s"] by simp
  then have "room (length (status_text status title)) s"
    using assms(3) by (simp add: room_def)
  then obtain s1 where 1: "add_status_line status title s = Some (True, s1)" "wrote (status_text status title) s s1"
    using add_status_line_ok by blast
  have k: "m_linger s1 = m_linger s"
    using 1(2) by (auto simp: wrote_def)
  have "room (length (status_text status title) + length (header_text n (m_linger s))) s"
    using assms(3) len by (simp add: room_def)
  then have "room (length (header_text n (m_linger s1))) s1"
    unfolding k by (rule wrote_room [OF 1(2)])
  then obtain s2 where "add_headers n s1 = Some s2" "wrote (header_text n (m_linger s1)) s1 s2"
    using add_headers_ok by blast
  then show ?thesis
    using 1 wrote_trans [OF 1(2)] k by auto
qed

lemma write_error_ok:
  assumes "in_int status" and "in_int (int (length form))" and "room (78 + length title + length form) s"
  shows "\<exists>s'. write_error status title form s = Some (True, s'\<lparr>m_iv := [(Write_buf, int (m_write_idx s'))]\<rparr>) \<and>
    wrote ((status_text status title @ header_text (int (length form)) (m_linger s)) @ form) s s'"
proof -
  let ?t = "status_text status title @ header_text (int (length form)) (m_linger s)"
  have "room (78 + length title) s"
    using assms(3) by (simp add: room_def)
  then obtain s1 s2 where 1: "add_status_line status title s = Some (True, s1)" "add_headers (int (length form)) s1 = Some s2"
      "wrote ?t s s2"
    using add_head_ok [OF assms(1,2)] by blast
  have "length ?t \<le> 78 + length title"
    using length_texts(1) [OF assms(1), of title] length_texts(2) [OF assms(2), of "m_linger s"] by simp
  then have "room (length ?t + length form) s"
    using assms(3) by (simp add: room_def)
  then have "room (length form) s2"
    by (rule wrote_room [OF 1(3)])
  then obtain s3 where "add_content form s2 = Some (True, s3)" "wrote form s2 s3"
    using add_response_ok by (auto simp: add_content_def)
  then show ?thesis
    using 1 wrote_trans [OF 1(3)] by (auto simp: write_error_def)
qed

text \<open>The error pages.\<close>

definition error_page :: "HTTP_CODE \<Rightarrow> (int \<times> string \<times> string) option" where
  "error_page ret = (case ret of
     INTERNAL_ERROR \<Rightarrow> Some (500, error_500_title, error_500_form)
   | BAD_REQUEST \<Rightarrow> Some (400, error_400_title, error_400_form)
   | NO_RESOURCE \<Rightarrow> Some (404, error_404_title, error_404_form)
   | FORBIDDEN_REQUEST \<Rightarrow> Some (403, error_403_title, error_403_form)
   | _ \<Rightarrow> None)"

definition response_head :: "HTTP_CODE \<Rightarrow> int \<Rightarrow> bool \<Rightarrow> string" where
  "response_head ret len linger = (case error_page ret of
     Some (status, title, form) \<Rightarrow> (status_text status title @ header_text (int (length form)) linger) @ form
   | None \<Rightarrow> status_text 200 ok_200_title @ header_text (to_int len) linger)"

lemmas page_texts = error_400_title_def error_400_form_def error_403_title_def error_403_form_def error_404_title_def error_404_form_def
  error_500_title_def error_500_form_def ok_200_title_def

lemma in_int_to_int: "in_int (to_int x)"
proof -
  have "0 \<le> (x + 2147483648) mod 4294967296" "(x + 2147483648) mod 4294967296 < 4294967296"
    by simp_all
  then show ?thesis
    by (simp add: to_int_def in_int_def INT_MIN_def INT_MAX_def)
qed

lemma process_write_error:
  assumes "error_page ret \<noteq> None" and "room 300 s"
  shows "\<exists>s'. process_write ret s = Some (True, s'\<lparr>m_iv := [(Write_buf, int (m_write_idx s'))]\<rparr>) \<and> wrote (response_head ret n (m_linger s)) s s'"
proof -
  obtain status title form where p: "error_page ret = Some (status, title, form)"
    using assms(1) by auto
  then have "in_int status" "in_int (int (length form))" "78 + length title + length form \<le> 300"
    by (auto simp: error_page_def page_texts in_int_def INT_MIN_def INT_MAX_def split: HTTP_CODE.splits)
  moreover have "process_write ret s = write_error status title form s"
    using p by (auto simp: error_page_def process_write_def split: HTTP_CODE.splits)
  ultimately show ?thesis
    using write_error_ok [of status form title s] assms(2) p by (simp add: response_head_def room_def)
qed

lemma process_write_file:
  assumes "room 300 s" and "st_size (m_file_stat s) \<noteq> 0"
  shows "\<exists>s'. process_write FILE_REQUEST s = Some (True, s'\<lparr>m_iv := [(Write_buf, int (m_write_idx s')), (File_at (m_file_address s), st_size (m_file_stat s))]\<rparr>) \<and>
    wrote (response_head FILE_REQUEST (st_size (m_file_stat s)) (m_linger s)) s s'"
proof -
  let ?n = "to_int (st_size (m_file_stat s))"
  have "room (78 + length ok_200_title) s" "in_int (200 :: int)"
    using assms(1) by (simp_all add: room_def page_texts in_int_def INT_MIN_def INT_MAX_def)
  then obtain s1 s2 where 1: "add_status_line 200 ok_200_title s = Some (True, s1)" "add_headers ?n s1 = Some s2"
      "wrote (status_text 200 ok_200_title) s s1" "wrote (status_text 200 ok_200_title @ header_text ?n (m_linger s)) s s2"
    using add_head_ok [OF _ in_int_to_int] by blast
  have "m_file_stat s1 = m_file_stat s" "m_file_stat s2 = m_file_stat s" "m_file_address s2 = m_file_address s"
    using 1(3,4) by (auto simp: wrote_def)
  then show ?thesis
    using 1 assms(2) by (intro exI [of _ s2]) (simp add: process_write_def response_head_def error_page_def)
qed

section \<open>A request in pieces\<close>

text \<open>A part of a line has no line end yet.\<close>

lemma cut_line_part:
  assumes "plain l" and "xs @ ys = l @ CR # LF # rest"
  shows "cut_line xs = Open \<or> (\<exists>xs'. xs = l @ CR # LF # xs' \<and> xs' @ ys = rest)"
proof -
  consider (part) zs where "xs @ zs = l" | (cr) "xs = l @ [CR]" | (line) xs' where "xs = l @ CR # LF # xs'" "xs' @ ys = rest"
    using assms(2) by (auto simp: append_eq_append_conv2 append_eq_Cons_conv)
  then show ?thesis
  proof cases
    case part
    then have "CR \<notin> set xs" "LF \<notin> set xs"
      using assms(1) by (auto simp: plain_def)
    then show ?thesis
      using cut_line_prefix [of xs "[]"] by simp
  next
    case cr
    then show ?thesis
      using assms(1) cut_line_prefix [of l "[CR]"] by (simp add: plain_def)
  qed auto
qed

definition announced :: "int \<Rightarrow> string list \<Rightarrow> int" where
  "announced n hs = foldl (\<lambda>n h. if gives_length h then length_of h else n) n hs"

definition header_ok :: "string \<Rightarrow> bool" where
  "header_ok h \<longleftrightarrow> plain h \<and> h \<noteq> []"

lemma conn_scan_Line:
  assumes "cut_line bs = Line l r" and "h = visible l"
  shows "conn_scan Req bs = (if request_ok h then conn_scan (Hdr (url_of (target h)) False 0) r else Reject)"
    and "conn_scan (Hdr u k n) bs = (if h = [] then if n = 0 then Find u k else Body u k n r
      else conn_scan (Hdr u (k \<or> keeps h) (if gives_length h then length_of h else n)) r)"
  by (subst conn_scan.simps, simp add: assms Let_def)+

lemma header_step:
  assumes "header_ok h"
  shows "conn_scan (Hdr u k n) (h @ CR # LF # r) = conn_scan (Hdr u (k \<or> keeps h) (if gives_length h then length_of h else n)) r"
proof -
  have "plain h" "h \<noteq> []"
    using assms by (simp_all add: header_ok_def)
  then show ?thesis
    using conn_scan_Line(2) [OF cut_plain visible_plain [symmetric]] by simp
qed

lemma conn_scan_headers:
  "\<forall>h \<in> set hs. header_ok h \<Longrightarrow> announced n hs = 0 \<Longrightarrow>
    conn_scan (Hdr u k n) (header_lines hs) = Find u (k \<or> (\<exists>h \<in> set hs. keeps h))"
proof (induction hs arbitrary: k n)
  case Nil
  then show ?case
    using conn_scan_Line(2) [of "[CR, LF]" "[]" "[]" "[]"] by (simp add: announced_def)
next
  case (Cons h hs)
  then show ?case
    by (simp add: announced_def header_step disj_assoc)
qed

lemma conn_scan_headers_part:
  "\<forall>h \<in> set hs. header_ok h \<Longrightarrow> xs @ ys = header_lines hs \<Longrightarrow> ys \<noteq> [] \<Longrightarrow> \<exists>ph r. conn_scan (Hdr u k n) xs = Wait ph r"
proof (induction hs arbitrary: k n xs)
  case Nil
  then have "cut_line xs = Open"
    by (auto simp: append_eq_Cons_conv)
  then show ?case
    by (subst conn_scan.simps) simp
next
  case (Cons h hs)
  then have h: "header_ok h" "xs @ ys = h @ CR # LF # header_lines hs"
    by simp_all
  then consider "cut_line xs = Open" | xs' where "xs = h @ CR # LF # xs'" "xs' @ ys = header_lines hs"
    using cut_line_part [OF _ h(2)] by (auto simp: header_ok_def)
  then show ?case
  proof cases
    case 1
    then show ?thesis
      by (subst conn_scan.simps) simp
  next
    case 2
    then show ?thesis
      using Cons.IH [OF _ 2(2) Cons.prems(3)] Cons.prems(1) by (simp add: header_step)
  qed
qed

text \<open>A request for a path.\<close>

definition path_ok :: "string \<Rightarrow> bool" where
  "path_ok u \<longleftrightarrow> plain u \<and> (\<forall>c \<in> set u. \<not> blank c) \<and> u \<noteq> [] \<and> hd u = CHR ''/''"

definition request_text :: "string \<Rightarrow> string list \<Rightarrow> string" where
  "request_text u hs = request_line u @ CR # LF # header_lines hs"

lemma request_scan:
  assumes "path_ok u" and "\<forall>h \<in> set hs. header_ok h" and "announced 0 hs = 0"
  shows "conn_scan Req (request_text u hs) = Find u (\<exists>h \<in> set hs. keeps h)"
    and "xs @ ys = request_text u hs \<Longrightarrow> ys \<noteq> [] \<Longrightarrow> \<exists>ph r. conn_scan Req xs = Wait ph r"
proof -
  have u: "plain u" "\<forall>c \<in> set u. \<not> blank c" "u \<noteq> []" "hd u = CHR ''/''"
    using assms(1) by (simp_all add: path_ok_def)
  note ok = request_line_ok [OF u]
  have scan: "conn_scan Req (request_line u @ CR # LF # r) = conn_scan (Hdr u False 0) r" for r
    using conn_scan_Line(1) [OF cut_plain [OF ok(2)] visible_plain [OF ok(2), symmetric], of r] ok(1,3,4) by simp
  then show "conn_scan Req (request_text u hs) = Find u (\<exists>h \<in> set hs. keeps h)"
    using conn_scan_headers [OF assms(2,3)] by (simp add: request_text_def)
  assume xs: "xs @ ys = request_text u hs" "ys \<noteq> []"
  then consider "cut_line xs = Open" | xs' where "xs = request_line u @ CR # LF # xs'" "xs' @ ys = header_lines hs"
    using cut_line_part [OF ok(2) xs(1) [unfolded request_text_def]] by blast
  then show "\<exists>ph r. conn_scan Req xs = Wait ph r"
  proof cases
    case 1
    then show ?thesis
      by (subst conn_scan.simps) simp
  next
    case 2
    then show ?thesis
      using conn_scan_headers_part [OF assms(2) 2(2) xs(2)] scan by simp
  qed
qed

section \<open>The exchange\<close>

text \<open>
  What \<^verbatim>\<open>main\<close> does with a connection that epoll reports as readable or writable; the worker
  thread that takes the connection from the queue runs \<^verbatim>\<open>process\<close>.
\<close>

definition on_readable :: "(string \<Rightarrow> served_file option) \<Rightarrow> recv_result list \<Rightarrow> http_conn \<Rightarrow> http_conn option" where
  "on_readable fs rs s = do {
     (ok, s) \<leftarrow> conn_read rs s;
     (if ok then process fs s else Some (close_conn True s)) }"

definition on_writable :: "send_result list \<Rightarrow> http_conn \<Rightarrow> http_conn" where
  "on_writable rs s = (case conn_write rs s of (ok, s) \<Rightarrow> if ok then s else close_conn True s)"

text \<open>Several readable events, each with the pieces it brings.\<close>

primrec deliver :: "(string \<Rightarrow> served_file option) \<Rightarrow> string list list \<Rightarrow> http_conn \<Rightarrow> http_conn option" where
  "deliver fs [] s = Some s"
| "deliver fs (ds # es) s = do { s \<leftarrow> on_readable fs (map Data ds) s; deliver fs es s }"

text \<open>A connection before a request.\<close>

definition ready :: "http_conn \<Rightarrow> bool" where
  "ready s \<longleftrightarrow> cinv Req s \<and> conn_pending s = [] \<and> m_read_idx s = 0 \<and> m_write_idx s = 0 \<and> m_sockfd s \<noteq> - 1 \<and>
     m_interest s = Some EPOLLIN"

text \<open>A connection with its response: the text in the write buffer, the pieces that are to be sent, and the file.\<close>

definition size_of :: "served_file option \<Rightarrow> int" where
  "size_of f = (case f of Some f \<Rightarrow> st_size (file_meta f) | None \<Rightarrow> 0)"

definition answered :: "served_file option \<Rightarrow> bool \<Rightarrow> http_conn \<Rightarrow> http_conn \<Rightarrow> bool" where
  "answered f k s s' \<longleftrightarrow>
     (let c = file_code f; t = response_head c (size_of f) k
      in written s' = t \<and> m_write_idx s' = length t \<and>
         m_iv s' = (Write_buf, int (length t)) # (if c = FILE_REQUEST then [(File_at (m_file_address s'), size_of f)] else []) \<and>
         m_linger s' = k \<and> (\<forall>x. f = Some x \<and> c = FILE_REQUEST \<longrightarrow> m_file_address s' = mmap_file x) \<and> m_wire s' = m_wire s \<and>
         m_interest s' = Some EPOLLOUT \<and> m_sockfd s' = m_sockfd s \<and> m_user_count s' = m_user_count s)"

definition same_conn :: "http_conn \<Rightarrow> http_conn \<Rightarrow> bool" where
  "same_conn s' s \<longleftrightarrow> m_write_idx s' = m_write_idx s \<and> m_sockfd s' = m_sockfd s \<and> m_user_count s' = m_user_count s \<and>
     m_wire s' = m_wire s"

lemma conn_read_ok:
  assumes "cinv ph s" and "[] \<notin> set ds" and "ds \<noteq> []" and "m_read_idx s + length (concat ds) \<le> READ_BUFFER_SIZE"
  shows "\<exists>s'. conn_read (map Data ds) s = Some (True, s') \<and> cinv ph s' \<and> kept s' s \<and>
    conn_pending s' = conn_pending s @ concat ds \<and> m_read_idx s' = m_read_idx s + length (concat ds)"
proof -
  have "0 < length (concat ds)"
    using assms(2,3) by (cases ds) auto
  then have "m_read_idx s < READ_BUFFER_SIZE"
    using assms(4) by linarith
  then show ?thesis
    using read_loop_ok [OF assms(1,2,4)] by (simp add: conn_read_def)
qed

lemma readable_wait:
  assumes "cinv ph s" and "[] \<notin> set ds" and "ds \<noteq> []" and "m_read_idx s + length (concat ds) \<le> READ_BUFFER_SIZE"
    and "conn_scan ph (conn_pending s @ concat ds) = Wait ph' r"
  shows "\<exists>s'. on_readable fs (map Data ds) s = Some s' \<and> cinv ph' s' \<and> conn_pending s' = r \<and> same_conn s' s \<and>
    m_read_idx s' = m_read_idx s + length (concat ds)"
proof -
  obtain s1 where 1: "conn_read (map Data ds) s = Some (True, s1)" "cinv ph s1" "kept s1 s" "conn_pending s1 = conn_pending s @ concat ds"
      "m_read_idx s1 = m_read_idx s + length (concat ds)"
    using conn_read_ok [OF assms(1-4)] by blast
  then obtain s2 where 2: "process_read fs s1 = Some (NO_REQUEST, s2)" "kept s2 s1" "cinv ph' s2" "m_read_idx s2 = m_read_idx s1" "conn_pending s2 = r"
    using process_read_ok [OF 1(2), of fs] assms(5) by (auto simp: read_result_def process_read_def)
  have "on_readable fs (map Data ds) s = Some (modfd EPOLLIN s2)"
    by (simp add: on_readable_def 1(1) process_def 2(1))
  moreover have "cinv ph' (modfd EPOLLIN s2)"
    using 2(3) by (cases ph') (simp_all add: modfd_def cinv_def)
  ultimately show ?thesis
    using 1(3,5) 2 by (auto simp: modfd_def same_conn_def kept_def conn_pending_def)
qed

lemma answeredI:
  assumes "wrote (response_head c (size_of f) k) s2 s3" and "m_write_idx s2 = 0" and "m_sockfd s2 \<noteq> - 1" and "kept s2 s" and "m_linger s2 = k"
    and "c = file_code f" and "\<forall>x. f = Some x \<and> c = FILE_REQUEST \<longrightarrow> m_file_address s2 = mmap_file x"
  shows "answered f k s (modfd EPOLLOUT (s3\<lparr>m_iv := (Write_buf, int (m_write_idx s3)) # (if c = FILE_REQUEST then [(File_at (m_file_address s2), size_of f)] else [])\<rparr>))"
  using assms by (auto simp: answered_def modfd_def wrote_def written_def kept_def Let_def)

lemma answer_found:
  assumes "kept s2 s" and "m_linger s2 = k" and "room 300 s2" and "m_write_idx s2 = 0" and "m_sockfd s2 \<noteq> - 1"
    and "\<forall>x. f = Some x \<longrightarrow> m_file_stat s2 = file_meta x \<and> (file_code (Some x) = FILE_REQUEST \<longrightarrow> m_file_address s2 = mmap_file x \<and> 0 < st_size (file_meta x))"
  shows "\<exists>s3. process_write (file_code f) s2 = Some (True, s3) \<and> answered f k s (modfd EPOLLOUT s3)"
proof (cases "file_code f = FILE_REQUEST")
  case True
  then obtain x where f: "f = Some x"
    by (auto simp: file_code_def split: option.splits)
  then have st: "m_file_stat s2 = file_meta x" "m_file_address s2 = mmap_file x" "st_size (file_meta x) \<noteq> 0"
    using assms(6) True by auto
  then obtain s3 where s3: "process_write FILE_REQUEST s2 = Some (True, s3\<lparr>m_iv := [(Write_buf, int (m_write_idx s3)), (File_at (m_file_address s2), size_of f)]\<rparr>)"
      "wrote (response_head FILE_REQUEST (size_of f) (m_linger s2)) s2 s3"
    using process_write_file [OF assms(3)] f by (auto simp: size_of_def)
  have "answered f k s (modfd EPOLLOUT (s3\<lparr>m_iv := (Write_buf, int (m_write_idx s3)) # (if file_code f = FILE_REQUEST then [(File_at (m_file_address s2), size_of f)] else [])\<rparr>))"
    by (rule answeredI) (use assms s3(2) st f True in simp_all)
  then show ?thesis
    using s3(1) True by simp
next
  case False
  then have e: "error_page (file_code f) \<noteq> None"
    by (auto simp: file_code_def error_page_def split: option.splits)
  obtain s3 where s3: "process_write (file_code f) s2 = Some (True, s3\<lparr>m_iv := [(Write_buf, int (m_write_idx s3))]\<rparr>)"
      "wrote (response_head (file_code f) (size_of f) (m_linger s2)) s2 s3"
    using process_write_error [OF e assms(3)] by blast
  have "answered f k s (modfd EPOLLOUT (s3\<lparr>m_iv := (Write_buf, int (m_write_idx s3)) # (if file_code f = FILE_REQUEST then [(File_at (m_file_address s2), size_of f)] else [])\<rparr>))"
    by (rule answeredI) (use assms s3(2) False in simp_all)
  then show ?thesis
    using s3(1) False by auto
qed

text \<open>
  The file system has an answer that can be sent: a file that is to be sent is not empty, and its mapping shows as many bytes
  as \<^verbatim>\<open>stat\<close> has told.
\<close>

definition sendable :: "served_file option \<Rightarrow> bool" where
  "sendable f \<longleftrightarrow> (\<forall>x. f = Some x \<and> file_code f = FILE_REQUEST \<longrightarrow>
     0 < st_size (file_meta x) \<and> (\<exists>d. file_data x = Some d \<and> int (length d) = st_size (file_meta x)))"

lemma readable_found:
  assumes "cinv ph s" and "[] \<notin> set ds" and "ds \<noteq> []" and "m_read_idx s + length (concat ds) \<le> READ_BUFFER_SIZE"
    and "conn_scan ph (conn_pending s @ concat ds) = Find u k" and "m_write_idx s = 0" and "m_sockfd s \<noteq> - 1"
    and "sendable (fs (path_of u))"
  shows "\<exists>s'. on_readable fs (map Data ds) s = Some s' \<and> answered (fs (path_of u)) k s s'"
proof -
  let ?f = "fs (path_of u)"
  obtain s1 where 1: "conn_read (map Data ds) s = Some (True, s1)" "cinv ph s1" "kept s1 s" "conn_pending s1 = conn_pending s @ concat ds"
    using conn_read_ok [OF assms(1-4)] by blast
  then obtain s2 where 2: "process_read fs s1 = Some (file_code ?f, s2)" "kept s2 s1" "m_linger s2 = k"
      "\<forall>x. ?f = Some x \<longrightarrow> m_file_stat s2 = file_meta x \<and> (file_code (Some x) = FILE_REQUEST \<longrightarrow> m_file_address s2 = mmap_file x)"
    using process_read_ok [OF 1(2), of fs] assms(5) by (auto simp: read_result_def process_read_def)
  have "length (m_write_buf s1) = WRITE_BUFFER_SIZE"
    using 1(2) by (simp add: cinv_def)
  then have "room 300 s2" "m_write_idx s2 = 0" "m_sockfd s2 \<noteq> - 1"
    using 1(3) 2(2) assms(6,7) by (auto simp: kept_def room_def WRITE_BUFFER_SIZE_def)
  then obtain s3 where 3: "process_write (file_code ?f) s2 = Some (True, s3)" "answered ?f k s (modfd EPOLLOUT s3)"
    using answer_found [OF kept_trans [OF 2(2) 1(3)] 2(3), of ?f] 2(4) assms(8) by (auto simp: sendable_def)
  have "file_code ?f \<noteq> NO_REQUEST"
    by (simp add: file_code_def split: option.splits)
  then have "on_readable fs (map Data ds) s = Some (modfd EPOLLOUT s3)"
    by (simp add: on_readable_def 1(1) process_def 2(1) 3(1))
  then show ?thesis
    using 3(2) by blast
qed

lemma answered_same: "answered f k s' s'' \<Longrightarrow> same_conn s' s \<Longrightarrow> answered f k s s''"
  by (auto simp: answered_def same_conn_def Let_def)

lemma deliver_ok:
  assumes "path_ok u" and "\<forall>h \<in> set hs. header_ok h" and "announced 0 hs = 0" and "length (request_text u hs) \<le> READ_BUFFER_SIZE"
    and "sendable (fs (path_of u))" and "cinv ph s" and "conn_scan Req done = Wait ph (conn_pending s)"
    and "m_read_idx s = length done" and "m_write_idx s = 0" and "m_sockfd s \<noteq> - 1"
    and "[] \<notin> set es" and "\<forall>ds \<in> set es. [] \<notin> set ds" and "es \<noteq> []" and "done @ concat (concat es) = request_text u hs"
  shows "\<exists>s'. deliver fs es s = Some s' \<and> answered (fs (path_of u)) (\<exists>h \<in> set hs. keeps h) s s'"
  using assms(6-14)
proof (induction es arbitrary: ph s "done")
  case (Cons ds es)
  let ?rest = "concat (concat es)"
  have ds: "[] \<notin> set ds" "ds \<noteq> []"
    using Cons.prems(6,7) by auto
  have all: "(done @ concat ds) @ ?rest = request_text u hs"
    using Cons.prems(9) by simp
  have "length (request_text u hs) = length done + length (concat ds) + length ?rest"
    unfolding all [symmetric] by simp
  then have len: "m_read_idx s + length (concat ds) \<le> READ_BUFFER_SIZE"
    using Cons.prems(3) assms(4) by linarith
  have scan: "conn_scan ph (conn_pending s @ concat ds) = conn_scan Req (done @ concat ds)"
    using conn_scan_append [of Req "done"] Cons.prems(2) by simp
  show ?case
  proof (cases "es = []")
    case True
    then have "conn_scan ph (conn_pending s @ concat ds) = Find u (\<exists>h \<in> set hs. keeps h)"
      using scan all request_scan(1) [OF assms(1-3)] by simp
    then show ?thesis
      using readable_found [where fs = fs, OF Cons.prems(1) ds len _ Cons.prems(4,5)] assms(5) True by simp
  next
    case False
    then obtain e es' where "es = e # es'" "e \<noteq> []" "[] \<notin> set e"
      using Cons.prems(6,7) by (cases es) auto
    then have "?rest \<noteq> []"
      by (cases e) auto
    then obtain ph' r where w: "conn_scan Req (done @ concat ds) = Wait ph' r"
      using request_scan(2) [OF assms(1-3) all] by blast
    then obtain s' where s': "on_readable fs (map Data ds) s = Some s'" "cinv ph' s'" "conn_pending s' = r" "same_conn s' s"
        "m_read_idx s' = m_read_idx s + length (concat ds)"
      using readable_wait [OF Cons.prems(1) ds len, of ph' r fs] scan by auto
    have "\<exists>s''. deliver fs es s' = Some s'' \<and> answered (fs (path_of u)) (\<exists>h \<in> set hs. keeps h) s' s''"
      using Cons.prems False s' w all by (intro Cons.IH [of ph' s' "done @ concat ds"]) (auto simp: same_conn_def)
    then show ?thesis
      using s'(1) answered_same [OF _ s'(4)] by auto
  qed
qed simp

section \<open>Sending\<close>

lemma init_ready: "m_sockfd s \<noteq> - 1 \<Longrightarrow> ready (modfd EPOLLIN (init s))"
  by (simp add: ready_def cinv_def init_def modfd_def line_inv_def conn_pending_def FILENAME_LEN_def)

lemma init_conn_ready: "fd \<noteq> - 1 \<Longrightarrow> ready (init_conn fd s)"
  by (simp add: ready_def cinv_def init_def init_conn_def line_inv_def conn_pending_def FILENAME_LEN_def)

lemma response_head_not_Nil: "response_head c len k \<noteq> []"
  by (simp add: response_head_def status_text_def split: option.splits)

text \<open>The page of a file is sent behind the head of the response.\<close>

definition page_of :: "served_file option \<Rightarrow> string" where
  "page_of f = (if file_code f = FILE_REQUEST then (case f of Some x \<Rightarrow> (case file_data x of Some d \<Rightarrow> d | None \<Rightarrow> []) | None \<Rightarrow> []) else [])"

definition full_response :: "served_file option \<Rightarrow> bool \<Rightarrow> string" where
  "full_response f k = response_head (file_code f) (size_of f) k @ page_of f"

lemma gather_answered:
  assumes "answered f k s s'" and "sendable f"
  shows "gather s' (m_iv s') = Some (full_response f k)"
proof -
  let ?t = "response_head (file_code f) (size_of f) k"
  have a: "written s' = ?t" "m_write_idx s' = length ?t"
    "m_iv s' = (Write_buf, int (length ?t)) # (if file_code f = FILE_REQUEST then [(File_at (m_file_address s'), size_of f)] else [])"
    "\<forall>x. f = Some x \<and> file_code f = FILE_REQUEST \<longrightarrow> m_file_address s' = mmap_file x"
    using assms(1) by (auto simp: answered_def Let_def)
  have "take (length ?t) (m_write_buf s') = ?t" using a(1,2) by (simp add: written_def)
  moreover from this have "length ?t \<le> length (m_write_buf s')" by (metis length_take min.cobounded1)
  ultimately have head: "iov_bytes s' (Write_buf, int (length ?t)) = Some ?t" by (simp add: iov_bytes_def)
  show ?thesis
  proof (cases "file_code f = FILE_REQUEST")
    case True
    then obtain x where x: "f = Some x" by (auto simp: file_code_def split: option.splits)
    then obtain d where d: "file_data x = Some d" "int (length d) = st_size (file_meta x)" "0 < st_size (file_meta x)"
      using assms(2) True by (auto simp: sendable_def)
    have "m_file_address s' = Mapped d" using a(4) x True d by (simp add: mmap_file_def)
    moreover have "nat (size_of f) = length d" using x d(2) by (simp add: size_of_def flip: d(2))
    ultimately show ?thesis
      using a(3) head True x d(1) by (simp add: full_response_def page_of_def) (simp add: iov_bytes_def)
  next
    case False
    then show ?thesis using a(3) head by (simp add: full_response_def page_of_def)
  qed
qed

text \<open>
  The socket is writable: it may block any number of times, and then takes \<open>n\<close> bytes. The loop is content when these are at least half
  as many as the head has.
\<close>

definition send_response :: "nat \<Rightarrow> int \<Rightarrow> http_conn \<Rightarrow> http_conn" where
  "send_response b n s = on_writable [Sent n] ((on_writable [] ^^ b) s)"

lemma blocked_answered: "answered f k s s' \<Longrightarrow> m_sockfd s \<noteq> - 1 \<Longrightarrow> answered f k s ((on_writable [] ^^ b) s')"
proof (induction b)
  case (Suc b)
  let ?q = "(on_writable [] ^^ b) s'"
  have q: "answered f k s ?q" using Suc by simp
  then have "m_write_idx ?q \<noteq> 0" "m_sockfd ?q \<noteq> - 1" "m_interest ?q = Some EPOLLOUT"
    using response_head_not_Nil Suc.prems(2) by (auto simp: answered_def Let_def)
  then have "on_writable [] ?q = ?q" by (cases ?q) (simp add: on_writable_def conn_write_def modfd_def)
  then show ?case using q by simp
qed simp

definition enough :: "served_file option \<Rightarrow> bool \<Rightarrow> int \<Rightarrow> bool" where
  "enough f k n \<longleftrightarrow> int (length (response_head (file_code f) (size_of f) k)) \<le> 2 * n"

lemma send_response_ok:
  assumes "answered f k s s'" and "sendable f" and "m_sockfd s \<noteq> - 1" and "enough f k n"
  shows "m_wire (send_response b n s') = m_wire s @ take (nat n) (full_response f k)"
    and "k \<Longrightarrow> ready (send_response b n s') \<and> m_user_count (send_response b n s') = m_user_count s \<and> m_file_address (send_response b n s') = Null"
    and "\<not> k \<Longrightarrow> m_sockfd (send_response b n s') = - 1 \<and> m_interest (send_response b n s') = None \<and> m_user_count (send_response b n s') = m_user_count s - 1 \<and>
      m_file_address (send_response b n s') = Null"
proof -
  define q where "q = (on_writable [] ^^ b) s'"
  have q: "answered f k s q" unfolding q_def by (rule blocked_answered [OF assms(1,3)])
  let ?r = "unmap (q\<lparr>m_wire := m_wire q @ take (nat n) (full_response f k)\<rparr>)"
  have a: "m_write_idx q \<noteq> 0" "m_linger q = k" "m_sockfd q = m_sockfd s" "m_user_count q = m_user_count s" "m_wire q = m_wire s" "int (m_write_idx q) \<le> 2 * n"
    using q assms(4) response_head_not_Nil by (auto simp: answered_def Let_def enough_def)
  have w: "send_response b n s' = (if k then modfd EPOLLIN (init ?r) else close_conn True (modfd EPOLLIN ?r))"
    using a(1,2,6) gather_answered [OF q assms(2)] by (simp add: send_response_def q_def [symmetric] on_writable_def conn_write_def unmap_def)
  show "m_wire (send_response b n s') = m_wire s @ take (nat n) (full_response f k)"
    using w a(5) by (simp add: unmap_def modfd_def close_conn_def init_def)
  show "k \<Longrightarrow> ready (send_response b n s') \<and> m_user_count (send_response b n s') = m_user_count s \<and> m_file_address (send_response b n s') = Null"
    using w a(3,4) assms(3) init_ready [of ?r] by (simp add: unmap_def) (simp add: modfd_def init_def)
  show "\<not> k \<Longrightarrow> m_sockfd (send_response b n s') = - 1 \<and> m_interest (send_response b n s') = None \<and> m_user_count (send_response b n s') = m_user_count s - 1 \<and>
      m_file_address (send_response b n s') = Null"
    using w a(3,4) assms(3) by (simp add: close_conn_def modfd_def unmap_def)
qed

section \<open>A session\<close>

text \<open>
  Requests one after another on the same connection, each with its pieces, the number of times the socket blocks, and the number
  of bytes that it takes of the response.
\<close>

type_synonym round = "string list list \<times> nat \<times> int"

primrec session :: "(string \<Rightarrow> served_file option) \<Rightarrow> round list \<Rightarrow> http_conn \<Rightarrow> http_conn option" where
  "session fs [] s = Some s"
| "session fs (r # rs) s = (case r of (es, b, n) \<Rightarrow> do { s \<leftarrow> deliver fs es s; session fs rs (send_response b n s) })"

definition keep_alive :: "string \<times> string list \<Rightarrow> bool" where
  "keep_alive q \<longleftrightarrow> (\<exists>h \<in> set (snd q). keeps h)"

text \<open>A request that fits in the buffer, has no body and asks for a file with contents, or one that is not there or not to be read.\<close>

definition good_request :: "(string \<Rightarrow> served_file option) \<Rightarrow> string \<times> string list \<Rightarrow> bool" where
  "good_request fs q \<longleftrightarrow> (case q of (u, hs) \<Rightarrow> path_ok u \<and> (\<forall>h \<in> set hs. header_ok h) \<and> announced 0 hs = 0 \<and>
     length (request_text u hs) \<le> READ_BUFFER_SIZE \<and> sendable (fs (path_of u)))"

text \<open>The events bring the text in pieces that are not empty.\<close>

definition pieces :: "string list list \<Rightarrow> string \<times> string list \<Rightarrow> bool" where
  "pieces es q \<longleftrightarrow> [] \<notin> set es \<and> (\<forall>ds \<in> set es. [] \<notin> set ds) \<and> concat (concat es) = request_text (fst q) (snd q)"

definition response_of :: "(string \<Rightarrow> served_file option) \<Rightarrow> string \<times> string list \<Rightarrow> string" where
  "response_of fs q = full_response (fs (path_of (fst q))) (keep_alive q)"

text \<open>A round for a request.\<close>

definition round_ok :: "(string \<Rightarrow> served_file option) \<Rightarrow> round \<Rightarrow> string \<times> string list \<Rightarrow> bool" where
  "round_ok fs r q \<longleftrightarrow> (case r of (es, b, n) \<Rightarrow> pieces es q \<and> enough (fs (path_of (fst q))) (keep_alive q) n)"

definition received :: "(string \<Rightarrow> served_file option) \<Rightarrow> round list \<Rightarrow> (string \<times> string list) list \<Rightarrow> string" where
  "received fs rs qs = concat (map2 (\<lambda>(es, b, n) q. take (nat n) (response_of fs q)) rs qs)"

lemma exchange_ok:
  assumes "ready s" and "good_request fs q" and "pieces es q"
  shows "\<exists>s'. deliver fs es s = Some s' \<and> answered (fs (path_of (fst q))) (keep_alive q) s s'"
proof -
  obtain u hs where q: "q = (u, hs)"
    by fastforce
  have "cut_line [] = Open"
    by simp
  then have scan: "conn_scan Req [] = Wait Req []"
    by (subst conn_scan.simps) simp
  have "es \<noteq> []"
    using assms(3) by (auto simp: pieces_def request_text_def)
  then show ?thesis
    using deliver_ok [of u hs fs Req s "[]" es] assms scan unfolding q
    by (simp add: good_request_def pieces_def ready_def keep_alive_def)
qed

lemma session_ok:
  assumes "ready s" and "\<forall>q \<in> set qs. good_request fs q" and "list_all2 (round_ok fs) rs qs" and "\<forall>q \<in> set (butlast qs). keep_alive q"
  shows "\<exists>s'. session fs rs s = Some s' \<and> m_wire s' = m_wire s @ received fs rs qs \<and>
    (if qs = [] \<or> keep_alive (last qs) then ready s' \<and> m_user_count s' = m_user_count s
     else m_sockfd s' = - 1 \<and> m_interest s' = None \<and> m_user_count s' = m_user_count s - 1)"
  using assms
proof (induction qs arbitrary: rs s)
  case (Cons q qs)
  then obtain r rs' where r: "rs = r # rs'" "round_ok fs r q" "list_all2 (round_ok fs) rs' qs"
    by (auto simp: list_all2_Cons2)
  obtain es b n where "r = (es, b, n)"
    by (cases r)
  then have rs: "rs = (es, b, n) # rs'" "pieces es q" "enough (fs (path_of (fst q))) (keep_alive q) n" "list_all2 (round_ok fs) rs' qs"
    using r by (simp_all add: round_ok_def)
  have g: "good_request fs q"
    using Cons.prems(2) by simp
  then obtain s1 where 1: "deliver fs es s = Some s1" "answered (fs (path_of (fst q))) (keep_alive q) s s1"
    using exchange_ok [OF Cons.prems(1) _ rs(2)] by blast
  have "sendable (fs (path_of (fst q)))" "m_sockfd s \<noteq> - 1"
    using g Cons.prems(1) by (simp_all add: good_request_def ready_def split: prod.splits)
  note sent = send_response_ok [OF 1(2) this rs(3), of b]
  let ?s = "send_response b n s1"
  have rec: "received fs rs (q # qs) = take (nat n) (response_of fs q) @ received fs rs' qs"
    using rs(1) by (simp add: received_def)
  show ?case
  proof (cases "qs = []")
    case True
    then have "session fs rs s = Some ?s" "received fs rs' qs = []"
      using rs 1(1) by (simp_all add: received_def)
    then show ?thesis
      using True sent rec by (auto simp: response_of_def)
  next
    case False
    then have k: "keep_alive q"
      using Cons.prems(4) by simp
    have "\<forall>q \<in> set (butlast qs). keep_alive q" "\<forall>q \<in> set qs. good_request fs q"
      using Cons.prems(2,4) False by auto
    then obtain s' where "session fs rs' ?s = Some s'" "m_wire s' = m_wire ?s @ received fs rs' qs"
        "if qs = [] \<or> keep_alive (last qs) then ready s' \<and> m_user_count s' = m_user_count ?s
         else m_sockfd s' = - 1 \<and> m_interest s' = None \<and> m_user_count s' = m_user_count ?s - 1"
      using Cons.IH [of ?s rs'] sent(2) [OF k] rs(4) by blast
    then show ?thesis
      using rs(1) 1(1) rec sent(1) sent(2) [OF k] False by (simp add: response_of_def)
  qed
qed (simp add: received_def)

section \<open>A body in two reads\<close>

text \<open>
  After a part of the body was read the scanner looks for a line end in it and moves on.
\<close>

lemma body_part:
  assumes "m_check_state s = CHECK_STATE_CONTENT" and "m_start_line s \<le> m_checked_idx s" and "m_checked_idx s \<le> m_read_idx s"
    and "m_read_idx s < length (m_read_buf s)" and "m_read_buf s ! m_read_idx s = NUL" and "length (m_read_buf s) = READ_BUFFER_SIZE"
    and "in_int (m_content_length s + int (m_checked_idx s))" and "int (m_read_idx s) < m_content_length s + int (m_checked_idx s)"
    and "\<forall>j. m_checked_idx s \<le> j \<and> j < m_read_idx s \<longrightarrow> m_read_buf s ! j \<noteq> CR \<and> m_read_buf s ! j \<noteq> LF"
  shows "process_read fs s = Some (NO_REQUEST, s\<lparr>m_start_line := m_checked_idx s, m_checked_idx := m_read_idx s\<rparr>)"
proof -
  have "parse_line b c r = Some (LINE_OPEN, b, r)"
    if "c \<le> r" "r \<le> length b" "\<forall>j. c \<le> j \<and> j < r \<longrightarrow> b ! j \<noteq> CR \<and> b ! j \<noteq> LF" for b c r
    using that
  proof (induction b c r rule: parse_line.induct)
    case (1 b c r)
    show ?case
    proof (cases "c < r")
      case True
      then have "aget b c = Some (b ! c)" "b ! c \<noteq> CR" "b ! c \<noteq> LF"
        using 1 by (auto simp: aget_def)
      then show ?thesis
        using 1 True by (subst parse_line.simps) simp
    qed (use 1 in \<open>subst parse_line.simps, simp\<close>)
  qed
  then have line: "conn_parse_line (s\<lparr>m_start_line := m_checked_idx s\<rparr>) =
      Some (LINE_OPEN, s\<lparr>m_start_line := m_checked_idx s, m_checked_idx := m_read_idx s\<rparr>)"
    using assms(3,4,9) by (simp add: conn_parse_line_def)
  have "NUL \<in> set (drop (m_start_line s) (m_read_buf s))"
    using assms(2-5) by (auto simp: in_set_conv_nth intro!: exI [of _ "m_read_idx s - m_start_line s"])
  then obtain p where p: "cstr (m_read_buf s) (m_start_line s) = Some p"
    by (simp add: cstr_def)
  have "process_read_loop fs LINE_OK s = process_read_loop fs LINE_OPEN (s\<lparr>m_start_line := m_checked_idx s\<rparr>)"
    by (subst process_read_loop.simps) (use assms(1,7,8) p in \<open>simp add: parse_content_def c_int_def\<close>)
  also have "\<dots> = Some (NO_REQUEST, s\<lparr>m_start_line := m_checked_idx s, m_checked_idx := m_read_idx s\<rparr>)"
    by (subst process_read_loop.simps) (simp add: line)
  finally show ?thesis
    by (simp add: process_read_def)
qed

text \<open>A body of \<open>n\<close> bytes whose first part came with an earlier read: with its last byte there, the request is still not seen as complete.\<close>

lemma split_body:
  assumes "m_check_state s = CHECK_STATE_CONTENT" and "m_start_line s = m_checked_idx s" and "m_checked_idx s \<le> m_read_idx s"
    and "length (m_read_buf s) = READ_BUFFER_SIZE" and "\<forall>j \<ge> m_read_idx s. j < READ_BUFFER_SIZE \<longrightarrow> m_read_buf s ! j = NUL"
    and "d1 = segment (m_read_buf s) (m_checked_idx s) (m_read_idx s)" and "d1 \<noteq> []" and "d2 \<noteq> []" and "plain d1" and "plain d2"
    and "m_content_length s = int (length d1 + length d2)" and "m_read_idx s + length d2 < READ_BUFFER_SIZE"
  shows "\<exists>s1 s2 s3. process_read fs s = Some (NO_REQUEST, s1) \<and> conn_read [Data d2] s1 = Some (True, s2) \<and>
    process_read fs s2 = Some (NO_REQUEST, s3)"
proof -
  let ?c = "m_checked_idx s" and ?r = "m_read_idx s" and ?b = "m_read_buf s"
  have len: "length d1 = ?r - ?c"
    using assms(4,6,12) by simp
  moreover have "0 < length d1"
    using assms(7) by simp
  ultimately have cr: "?c < ?r"
    by linarith
  have d1: "?b ! j \<noteq> CR \<and> ?b ! j \<noteq> LF" if "?c \<le> j" "j < ?r" for j
    using that assms(4,6,9,12) set_segment [of ?r ?b _ ?c] by (auto simp: plain_def)
  have small: "in_int (m_content_length s + int ?c)" "in_int (m_content_length s + int ?r)"
    using assms(11,12) len cr by (auto simp: in_int_def INT_MIN_def INT_MAX_def READ_BUFFER_SIZE_def)
  define s1 where "s1 = s\<lparr>m_start_line := ?c, m_checked_idx := ?r\<rparr>"
  have 1: "process_read fs s = Some (NO_REQUEST, s1)"
    unfolding s1_def by (rule body_part) (use assms(1-5,8,11,12) d1 small len cr in auto)
  define b2 where "b2 = take ?r ?b @ d2 @ drop (?r + length d2) ?b"
  define s2 where "s2 = s1\<lparr>m_read_buf := b2, m_read_idx := ?r + length d2\<rparr>"
  have 2: "conn_read [Data d2] s1 = Some (True, s2)"
    using assms(4,8,12) by (simp add: conn_read_def s1_def s2_def b2_def)
  have b2: "length b2 = READ_BUFFER_SIZE" "b2 ! (?r + length d2) = NUL"
    using assms(4,5,12) by (auto simp: b2_def nth_append)
  have d2: "b2 ! j \<noteq> CR \<and> b2 ! j \<noteq> LF" if "?r \<le> j" "j < ?r + length d2" for j
  proof -
    have "b2 ! j = d2 ! (j - ?r)" "d2 ! (j - ?r) \<in> set d2"
      using that assms(4,12) less_diff_conv2 [OF that(1)] by (simp_all add: b2_def nth_append add.commute)
    then show ?thesis
      using assms(10) by (metis plain_def)
  qed
  have "process_read fs s2 = Some (NO_REQUEST, s2\<lparr>m_start_line := m_checked_idx s2, m_checked_idx := m_read_idx s2\<rparr>)"
    by (rule body_part) (use assms(1,8,11,12) b2 d2 small len cr in \<open>auto simp: s2_def s1_def\<close>)
  then show ?thesis
    using 1 2 by blast
qed

section \<open>Property\<close>

text \<open>An object of the class before its first use, its memory zero.\<close>

definition fresh_conn :: http_conn where
  "fresh_conn = \<lparr>m_user_count = 0, m_sockfd = - 1, m_interest = None, m_read_buf = [], m_read_idx = 0, m_checked_idx = 0, m_start_line = 0,
     m_write_buf = [], m_write_idx = 0, m_check_state = CHECK_STATE_REQUESTLINE, m_method = GET, m_real_file = [], m_url = None,
     m_version = None, m_host = None, m_content_length = 0, m_linger = False, m_file_address = Null,
     m_file_stat = \<lparr>st_size = 0, read_by_others = False, is_dir = False\<rparr>, m_iv = [], m_wire = []\<rparr>"


definition sample_fs :: "string \<Rightarrow> served_file option" where
  "sample_fs p = (if p = doc_root @ ''/x'' then Some \<lparr>file_meta = \<lparr>st_size = 2, read_by_others = True, is_dir = False\<rparr>, file_data = Some ''hi''\<rparr> else None)"


end
