(* ===== verification/HTTP_Types.thy ===== *)
theory HTTP_Types
  imports HTTP_Exchange
begin

text \<open>
  What every operation of the connection class keeps, whatever the bytes of the peer: the
  buffers have their sizes, the indices are in order and inside the buffers, and reading and
  parsing leave the socket and the response alone.
\<close>

section \<open>The type of a connection\<close>

definition conn_type :: "http_conn \<Rightarrow> bool" where
  "conn_type s \<longleftrightarrow> length (m_read_buf s) = READ_BUFFER_SIZE \<and> length (m_write_buf s) = WRITE_BUFFER_SIZE \<and>
     length (m_real_file s) = FILENAME_LEN \<and> m_start_line s \<le> m_checked_idx s \<and> m_checked_idx s \<le> m_read_idx s \<and>
     m_read_idx s \<le> READ_BUFFER_SIZE \<and> m_write_idx s < WRITE_BUFFER_SIZE"

text \<open>A step of the parser: the type is kept and so is all that belongs to the response and to the socket.\<close>

definition keeps_type :: "http_conn \<Rightarrow> http_conn \<Rightarrow> bool" where
  "keeps_type s s' \<longleftrightarrow> (conn_type s \<longrightarrow> conn_type s') \<and> kept s' s"

lemma keeps_type_refl: "keeps_type s s"
  by (simp add: keeps_type_def kept_def)

lemma keeps_type_trans: "keeps_type s s' \<Longrightarrow> keeps_type s' s'' \<Longrightarrow> keeps_type s s''"
  using kept_trans by (auto simp: keeps_type_def)

lemma aput_length: "aput b i c = Some b' \<Longrightarrow> length b' = length b"
  by (auto simp: aput_def split: if_splits)

lemma parse_line_range:
  assumes "parse_line b c r = Some (st, b', c')" and "c \<le> r"
  shows "length b' = length b \<and> c \<le> c' \<and> c' \<le> r"
  using assms
proof (induction b c r arbitrary: st b' c' rule: parse_line.induct)
  case (1 b c r)
  note res = "1.prems"(1) [unfolded parse_line.simps [of b c r]]
  show ?case
  proof (cases "c < r")
    case True
    then obtain x where x: "aget b c = Some x"
      using res by (cases "aget b c") auto
    show ?thesis
    proof (cases "x = CR \<or> x = LF")
      case False
      then show ?thesis
        using "1.IH" [OF True x, of st b' c'] res True x by auto
    next
      case special: True
      then show ?thesis
        using res True x by (auto dest!: aput_length split: if_splits bind_splits)
    qed
  qed (use res "1.prems"(2) in auto)
qed

lemma conn_parse_line_type: "conn_parse_line s = Some (st, s') \<Longrightarrow> keeps_type s s'"
  using parse_line_range [of "m_read_buf s" "m_checked_idx s" "m_read_idx s"]
  by (fastforce simp: conn_parse_line_def keeps_type_def conn_type_def kept_def split: bind_splits)

lemma ensures_aput [ensures_intros]: "(\<And>b'. length b' = length b \<Longrightarrow> P b') \<Longrightarrow> ensures (aput b i c) P"
  by (auto simp: ensures_def dest: aput_length)

lemmas type_defs = keeps_type_def conn_type_def kept_def

lemma parse_request_line_type: "ensures (parse_request_line i s) (\<lambda>(ret, s'). keeps_type s s')"
  unfolding parse_request_line_def
  by (rule ensures_intros | rule ensuresI | (simp add: type_defs; fail))+

lemma parse_headers_type: "ensures (parse_headers i s) (\<lambda>(ret, s'). keeps_type s s')"
  unfolding parse_headers_def
  by (rule ensures_intros | rule ensuresI | (simp add: type_defs; fail))+

lemma parse_content_type: "ensures (parse_content i s) (\<lambda>(ret, s'). keeps_type s s')"
  unfolding parse_content_def
  by (rule ensures_intros | rule ensuresI | (simp add: type_defs; fail))+

lemma do_request_type: "ensures (do_request fs s) (\<lambda>(ret, s'). keeps_type s s')"
  unfolding do_request_def Let_def
  by (rule ensures_intros | rule ensuresI | (simp add: type_defs doc_root_def FILENAME_LEN_def min_def; fail))+

text \<open>Operations in sequence.\<close>

lemma ensures_then:
  assumes "ensures m (\<lambda>(r, s'). keeps_type s s')" and "keeps_type s0 s" and "\<And>r s'. m = Some (r, s') \<Longrightarrow> keeps_type s0 s' \<Longrightarrow> P (r, s')"
  shows "ensures m P"
  using assms keeps_type_trans [OF assms(2)] by (auto simp: ensures_def)

lemma keeps_type_start: "keeps_type s0 s \<Longrightarrow> keeps_type s0 (s\<lparr>m_start_line := m_checked_idx s\<rparr>)"
  by (auto simp: type_defs)

lemma ensures_pair: "ensures (f a b) P \<Longrightarrow> ensures (case (a, b) of (x, y) \<Rightarrow> f x y) P"
  by simp

lemma ensures_check_state:
  "ensures a P \<Longrightarrow> ensures b P \<Longrightarrow> ensures c P \<Longrightarrow>
    ensures (case st of CHECK_STATE_REQUESTLINE \<Rightarrow> a | CHECK_STATE_HEADER \<Rightarrow> b | CHECK_STATE_CONTENT \<Rightarrow> c) P"
  by (cases st) simp_all

lemma process_read_type: "ensures (process_read_loop fs ls s) (\<lambda>(ret, s'). keeps_type s s')"
proof (rule ensuresI, erule process_read_loop.raw_induct [where P = "\<lambda>fs ls s x. case x of (ret, s') \<Rightarrow> keeps_type s s'", rotated], goal_cases)
  case (1 x f fs ls s y)
  have rec: "ensures (f fs ls s) (\<lambda>(ret, s'). keeps_type s s')" for fs ls s
    using 1(1) by (simp add: ensures_def)
  have line: "ensures (if m_check_state s = CHECK_STATE_CONTENT \<and> ls = LINE_OK then Some (LINE_OK, s) else conn_parse_line s)
      (\<lambda>(st, s'). keeps_type s s')"
    using conn_parse_line_type by (auto simp: ensures_def keeps_type_refl split: if_splits)
  note step = ensures_then [OF parse_request_line_type keeps_type_start] ensures_then [OF parse_headers_type keeps_type_start]
    ensures_then [OF parse_content_type keeps_type_start] ensures_then [OF do_request_type] ensures_then [OF rec]
  show ?case
    by (rule ensuresD [OF _ 1(2), where P = "\<lambda>x. case x of (ret, s') \<Rightarrow> keeps_type s s'"],
        rule ensures_bind, rule ensures_then [OF line keeps_type_refl])
      (rule ensures_pair | rule ensures_check_state | rule ensures_intros | (rule step, assumption) | (simp; fail) | rule ensuresI)+
qed

lemma read_loop_type: "ensures (read_loop rs s) (\<lambda>(ok, s'). keeps_type s s')"
proof (induction rs s rule: read_loop.induct)
  case (4 d rs s)
  let ?q = "s\<lparr>m_read_buf := take (m_read_idx s) (m_read_buf s) @ d @ drop (m_read_idx s + length d) (m_read_buf s),
    m_read_idx := m_read_idx s + length d\<rparr>"
  have "keeps_type s ?q" if "m_read_idx s + length d \<le> READ_BUFFER_SIZE"
    using that by (auto simp: type_defs)
  then show ?case
    using 4 keeps_type_trans by (fastforce simp: ensures_def c_assert_def split: if_splits)
qed (simp_all add: ensures_def keeps_type_refl)

lemma conn_read_type: "ensures (conn_read rs s) (\<lambda>(ok, s'). keeps_type s s')"
  using read_loop_type by (simp add: conn_read_def ensures_def keeps_type_refl)

section \<open>The response and the socket\<close>

text \<open>Composing the response keeps the type and the socket.\<close>

definition keeps_sock :: "http_conn \<Rightarrow> http_conn \<Rightarrow> bool" where
  "keeps_sock s s' \<longleftrightarrow> (conn_type s \<longrightarrow> conn_type s') \<and> m_sockfd s' = m_sockfd s \<and> m_interest s' = m_interest s \<and>
     m_user_count s' = m_user_count s"

lemma keeps_sock_trans: "keeps_sock s s' \<Longrightarrow> keeps_sock s' s'' \<Longrightarrow> keeps_sock s s''"
  by (auto simp: keeps_sock_def)

lemma keeps_sock_refl: "keeps_sock s s"
  by (simp add: keeps_sock_def)

lemma keeps_type_sock: "keeps_type s s' \<Longrightarrow> keeps_sock s s'"
  by (auto simp: keeps_sock_def keeps_type_def kept_def)

lemma keeps_sock_iv: "keeps_sock s s' \<Longrightarrow> keeps_sock s (s'\<lparr>m_iv := iv\<rparr>)"
  by (auto simp: keeps_sock_def conn_type_def)

lemma add_response_type: "ensures (add_response txt s) (\<lambda>(ok, s'). keeps_sock s s')"
  unfolding add_response_def
  by (rule ensures_intros | rule ensuresI | (auto simp: keeps_sock_def conn_type_def WRITE_BUFFER_SIZE_def min_def; fail))+

lemma ensures_sock:
  assumes "ensures m (\<lambda>(r, s'). keeps_sock s s')" and "keeps_sock s0 s" and "\<And>r s'. keeps_sock s0 s' \<Longrightarrow> P (r, s')"
  shows "ensures m P"
  using assms keeps_sock_trans [OF assms(2)] by (auto simp: ensures_def)

lemmas add_defs = add_status_line_def add_content_length_def add_linger_def add_blank_line_def add_content_def

lemma add_headers_type: "ensures (add_headers n s) (\<lambda>s'. keeps_sock s s')"
  unfolding add_headers_def add_defs
  by (rule ensures_pair | rule ensures_intros | (rule ensures_sock [OF add_response_type, of s], (assumption | rule keeps_sock_refl)) |
      (simp; fail))+

lemma ensures_headers:
  assumes "keeps_sock s0 s" and "\<And>s'. keeps_sock s0 s' \<Longrightarrow> P s'"
  shows "ensures (add_headers n s) P"
  using add_headers_type [of n s] assms(2) keeps_sock_trans [OF assms(1)] by (auto simp: ensures_def)

lemma write_error_type: "ensures (write_error status title form s) (\<lambda>(ok, s'). keeps_sock s s')"
  unfolding write_error_def add_defs
  by (rule ensures_pair | rule ensures_intros | (rule ensures_sock [OF add_response_type, of s], (assumption | rule keeps_sock_refl)) |
      (rule ensures_headers, assumption) | (simp add: keeps_sock_iv; fail))+

lemma process_write_type: "ensures (process_write ret s) (\<lambda>(ok, s'). keeps_sock s s')"
proof (cases ret)
  case FILE_REQUEST
  have "ensures (process_write FILE_REQUEST s) (\<lambda>(ok, s'). keeps_sock s s')"
    unfolding process_write_def HTTP_CODE.case add_defs
    by (rule ensures_pair | rule ensures_intros | (rule ensures_sock [OF add_response_type, of s], (assumption | rule keeps_sock_refl)) |
        (rule ensures_headers, assumption) | (simp add: keeps_sock_iv; fail))+
  then show ?thesis
    by (simp only: FILE_REQUEST)
qed (simp_all add: process_write_def write_error_type, simp_all add: ensures_def keeps_sock_refl)

text \<open>After a handler a connection is either as it was and watched again, or closed.\<close>

definition settled :: "http_conn \<Rightarrow> http_conn \<Rightarrow> bool" where
  "settled s s' \<longleftrightarrow> (conn_type s \<longrightarrow> conn_type s') \<and>
     (m_sockfd s' = m_sockfd s \<and> m_interest s' \<noteq> None \<and> m_user_count s' = m_user_count s \<or>
      m_sockfd s' = - 1 \<and> m_interest s' = None \<and> m_user_count s' = m_user_count s - 1)"

lemma settled_modfd: "keeps_sock s s' \<Longrightarrow> m_sockfd s \<noteq> - 1 \<Longrightarrow> settled s (modfd e s')"
  by (auto simp: settled_def keeps_sock_def modfd_def conn_type_def)

lemma settled_close: "keeps_sock s s' \<Longrightarrow> m_sockfd s \<noteq> - 1 \<Longrightarrow> settled s (close_conn True s')"
  by (auto simp: settled_def keeps_sock_def close_conn_def conn_type_def)

lemma settled_close_modfd: "keeps_sock s s' \<Longrightarrow> m_sockfd s \<noteq> - 1 \<Longrightarrow> settled s (modfd e (close_conn True s'))"
  by (auto simp: settled_def keeps_sock_def close_conn_def modfd_def conn_type_def)

lemma process_settled:
  assumes "process fs s = Some s'" and "m_sockfd s \<noteq> - 1"
  shows "settled s s'"
proof -
  obtain ret s1 where 1: "process_read fs s = Some (ret, s1)"
    using assms(1) by (auto simp: process_def split: bind_splits)
  then have k1: "keeps_sock s s1"
    using process_read_type [of fs LINE_OK s] keeps_type_sock by (auto simp: ensures_def process_read_def)
  show ?thesis
  proof (cases "ret = NO_REQUEST")
    case True
    then show ?thesis
      using assms 1 k1 settled_modfd by (auto simp: process_def)
  next
    case False
    then obtain ok s2 where 2: "process_write ret s1 = Some (ok, s2)"
      using assms(1) 1 by (auto simp: process_def split: bind_splits)
    then have k2: "keeps_sock s s2"
      using process_write_type [of ret s1] keeps_sock_trans [OF k1] by (auto simp: ensures_def)
    then show ?thesis
      using assms 1 2 False settled_modfd [OF k2] settled_close_modfd [OF k2] by (cases ok) (auto simp: process_def)
  qed
qed

lemma conn_type_init: "conn_type (init s)"
  by (simp add: conn_type_def init_def READ_BUFFER_SIZE_def WRITE_BUFFER_SIZE_def)

lemma settled_init: "keeps_sock s s' \<Longrightarrow> m_sockfd s \<noteq> - 1 \<Longrightarrow> settled s (modfd e (init s'))"
  using conn_type_init [of s'] by (auto simp: settled_def keeps_sock_def modfd_def conn_type_def init_def)

lemma write_loop_settled:
  assumes "m_sockfd s \<noteq> - 1"
  shows "case write_loop rs a b s of (ok, s') \<Rightarrow> settled s (if ok then s' else close_conn True s')"
  using assms
proof (induction rs a b s rule: write_loop.induct)
  case (1 a b s)
  then show ?case
    using settled_modfd [OF keeps_sock_refl] by simp
next
  case (2 rs a b s)
  have "keeps_sock s (unmap s)"
    by (auto simp: keeps_sock_def unmap_def conn_type_def)
  then show ?case
    using settled_close 2 by simp
next
  case (3 n rs a b s)
  have k: "keeps_sock s (unmap s)"
    by (auto simp: keeps_sock_def unmap_def conn_type_def)
  show ?case
  proof (cases "gather s (m_iv s)")
    case None
    then show ?thesis
      using settled_close [OF k] 3(2) by simp
  next
    case (Some d)
    let ?s = "s\<lparr>m_wire := m_wire s @ take (nat n) d\<rparr>"
    have w: "keeps_sock s (unmap ?s)"
      by (auto simp: keeps_sock_def unmap_def conn_type_def)
    have "settled s (close_conn True (modfd EPOLLIN (unmap ?s)))"
      using 3(2) by (auto simp: settled_def close_conn_def modfd_def unmap_def conn_type_def)
    moreover have "settled ?s q = settled s q" for q
      by (simp add: settled_def conn_type_def)
    ultimately show ?thesis
      using 3(1) [OF Some refl] 3(2) Some settled_init [OF w] by (auto simp: Let_def)
  qed
qed

lemma settled_modfd_init: "m_sockfd s \<noteq> - 1 \<Longrightarrow> settled s (init (modfd e s))"
  using conn_type_init [of "modfd e s"] by (auto simp: settled_def modfd_def conn_type_def init_def)

lemma on_writable_settled: "m_sockfd s \<noteq> - 1 \<Longrightarrow> settled s (on_writable rs s)"
  using write_loop_settled [of s rs "int (m_write_idx s)" 0] settled_modfd_init [of s EPOLLIN]
  by (auto simp: on_writable_def conn_write_def split: prod.splits if_splits)

section \<open>Property\<close>

text \<open>
  C27: the type of a connection is an invariant of the class. For any bytes of the peer, any
  file system and any answers of the socket, every operation that returns leaves the buffers
  their sizes and the indices in order and inside them; reading and parsing never touch the
  socket or the response; and after \<^verbatim>\<open>process\<close> and after the handling of a writable socket the
  connection is either still open and watched by epoll, or closed and no longer counted.
\<close>

theorem conn_ops_type:
  assumes "conn_type s" and "m_sockfd s \<noteq> - 1"
  shows "conn_type (init_conn fd c) \<and>
    (\<forall>rs ok s'. conn_read rs s = Some (ok, s') \<longrightarrow> conn_type s' \<and> kept s' s) \<and>
    (\<forall>fs ret s'. process_read fs s = Some (ret, s') \<longrightarrow> conn_type s' \<and> kept s' s) \<and>
    (\<forall>ret ok s'. process_write ret s = Some (ok, s') \<longrightarrow> conn_type s' \<and> m_sockfd s' = m_sockfd s) \<and>
    (\<forall>fs s'. process fs s = Some s' \<longrightarrow> conn_type s' \<and> settled s s') \<and>
    (\<forall>rs. conn_type (on_writable rs s) \<and> settled s (on_writable rs s))"
proof (intro conjI allI impI)
  show "conn_type (init_conn fd c)"
    using conn_type_init by (simp add: init_conn_def)
next
  fix rs ok s' assume "conn_read rs s = Some (ok, s')"
  then show "conn_type s'" "kept s' s"
    using conn_read_type [of rs s] assms(1) by (auto simp: ensures_def keeps_type_def)
next
  fix fs ret s' assume "process_read fs s = Some (ret, s')"
  then show "conn_type s'" "kept s' s"
    using process_read_type [of fs LINE_OK s] assms(1) by (auto simp: ensures_def keeps_type_def process_read_def)
next
  fix ret ok s' assume "process_write ret s = Some (ok, s')"
  then show "conn_type s'" "m_sockfd s' = m_sockfd s"
    using process_write_type [of ret s] assms(1) by (auto simp: ensures_def keeps_sock_def)
next
  fix fs s' assume "process fs s = Some s'"
  then show "settled s s'" "conn_type s'"
    using process_settled [OF _ assms(2)] assms(1) by (auto simp: settled_def)
next
  fix rs
  show "settled s (on_writable rs s)" "conn_type (on_writable rs s)"
    using on_writable_settled [OF assms(2)] assms(1) by (auto simp: settled_def)
qed

theorem conn_ops_type_witness:
  "conn_type (init_conn 5 fresh_conn) \<and> m_sockfd (init_conn 5 fresh_conn) \<noteq> - 1 \<and>
    settled (init_conn 5 fresh_conn) (on_writable [Sent 3] (init_conn 5 fresh_conn))"
proof -
  have "conn_type (init_conn 5 fresh_conn)" "m_sockfd (init_conn 5 fresh_conn) \<noteq> - 1"
    using conn_type_init by (simp_all add: init_conn_def) (simp add: init_def)
  then show ?thesis
    using conn_ops_type [of "init_conn 5 fresh_conn"] by blast
qed

end
