(* ===== verification/Web_Server.thy ===== *)
theory Web_Server
  imports HTTP_Types "HOL-Library.Multiset"
begin

text \<open>
  The web server (\<^verbatim>\<open>codes/15/15-6main.cpp\<close>) with the connections of all users, its main thread and the workers of
  the pool. A thread is the list of what it still has to do; a step is one access to what the threads share: the
  descriptors, the set of epoll, the member \<^verbatim>\<open>m_sockfd\<close> of a connection, and the counter of users, which is incremented by a load
  and a store. The work on the buffers of a connection is one step; that no other thread
  uses them meanwhile is a part of what is shown. That the queue behaves as the list that it is here is shown for \<^verbatim>\<open>threadpool\<close> itself.
\<close>

section \<open>State\<close>

definition MAX_FD :: nat where "MAX_FD = 65536"

definition max_requests :: nat where "max_requests = 10000"

text \<open>What epoll reports: the listening socket, or a connection that was hung up or is readable or writable.\<close>

datatype event = New | Hangup nat | Readable nat | Writable nat

text \<open>
  The numbers are indices of \<^verbatim>\<open>users\<close>: \<open>Admit\<close> is the test behind \<^verbatim>\<open>accept\<close>, \<open>Close_conn\<close> the call of
  \<^verbatim>\<open>close_conn\<close>, \<open>Remove_fd\<close> and \<open>Mod_fd\<close> are calls with the member \<^verbatim>\<open>m_sockfd\<close> of the connection, \<open>Init\<close> is
  \<^verbatim>\<open>init\<close> without arguments, and \<open>Process\<close> are \<^verbatim>\<open>process_read\<close> and \<^verbatim>\<open>process_write\<close> of \<^verbatim>\<open>process\<close>.
\<close>

datatype instr = Dispatch event | Admit nat | Set_sockfd nat int | Add_fd nat | Load_count | Store_count int | Init nat |
  Close_conn nat | Remove_fd nat | Process nat | Mod_fd nat interest

text \<open>\<open>loaded\<close> is the value of the counter that the thread has read.\<close>

record thread =
  todo :: "instr list"
  loaded :: int

text \<open>Undefined behaviour: a descriptor that is no index of \<^verbatim>\<open>users\<close>, or a request that makes the parser leave a buffer.\<close>

datatype fault = No_such_user nat | Undefined_request nat

text \<open>
  \<open>users\<close> is the array of connections, \<open>user_count\<close> the static member \<^verbatim>\<open>m_user_count\<close>, \<open>opened\<close> the
  descriptors of connections that the kernel has open, \<open>epoll\<close> the set of epoll with what a descriptor is armed for, \<open>work\<close> the queue of the pool;
  \<open>dropped\<close> records the connections that \<^verbatim>\<open>append\<close> turned away.
\<close>

record server =
  users :: "nat \<Rightarrow> http_conn"
  user_count :: int
  opened :: "nat set"
  epoll :: "nat \<rightharpoonup> interest option"
  work :: "nat list"
  dropped :: "nat list"
  main :: thread
  workers :: "thread list"
  fault :: "fault option"

definition server_new :: "(nat \<Rightarrow> http_conn) \<Rightarrow> nat \<Rightarrow> server" where
  "server_new us n = \<lparr>users = us, user_count = 0, opened = {}, epoll = Map.empty, work = [], dropped = [],
     main = \<lparr>todo = [], loaded = 0\<rparr>, workers = replicate n \<lparr>todo = [], loaded = 0\<rparr>, fault = None\<rparr>"

section \<open>Steps\<close>

definition put_user :: "nat \<Rightarrow> http_conn \<Rightarrow> server \<Rightarrow> server" where
  "put_user fd c s = s\<lparr>users := (users s)(fd := c)\<rparr>"

text \<open>\<^verbatim>\<open>addfd\<close>, \<^verbatim>\<open>removefd\<close> and \<^verbatim>\<open>modfd\<close>; on a descriptor that is not in the set \<^verbatim>\<open>epoll_ctl\<close> fails and changes nothing.\<close>

definition addfd :: "nat \<Rightarrow> server \<Rightarrow> server" where
  [simp]: "addfd fd s = s\<lparr>epoll := (epoll s)(fd \<mapsto> Some EPOLLIN)\<rparr>"

definition removefd :: "int \<Rightarrow> server \<Rightarrow> server" where
  "removefd k s = (if k < 0 then s else s\<lparr>epoll := (epoll s)(nat k := None), opened := opened s - {nat k}\<rparr>)"

definition epoll_mod :: "int \<Rightarrow> interest \<Rightarrow> server \<Rightarrow> server" where
  "epoll_mod k ev s = (if 0 \<le> k \<and> nat k \<in> dom (epoll s) then s\<lparr>epoll := (epoll s)(nat k \<mapsto> Some ev)\<rparr> else s)"

text \<open>
  \<^verbatim>\<open>init\<close> of a new connection and \<^verbatim>\<open>close_conn\<close>, access by access; the increment and the decrement of the counter are a load and a store.
\<close>

definition init_prog :: "nat \<Rightarrow> instr list" where
  [simp]: "init_prog fd = [Set_sockfd fd (int fd), Add_fd fd, Load_count, Store_count 1, Init fd]"

definition close_prog :: "nat \<Rightarrow> server \<Rightarrow> instr list" where
  [simp]: "close_prog fd s = (if m_sockfd (users s fd) \<noteq> - 1 then [Remove_fd fd, Set_sockfd fd (- 1), Load_count, Store_count (- 1)] else [])"

text \<open>The test behind \<^verbatim>\<open>accept\<close>: a client too many is told so and closed at once.\<close>

definition admit :: "nat \<Rightarrow> server \<Rightarrow> instr list \<times> server" where
  [simp]: "admit fd s =
     (if user_count s \<ge> int MAX_FD then ([], s\<lparr>opened := opened s - {fd}\<rparr>)
      else if fd \<ge> MAX_FD then ([], s\<lparr>fault := Some (No_such_user fd)\<rparr>)
      else (init_prog fd, s))"

text \<open>\<^verbatim>\<open>process\<close>, with the accesses that remain after the request was read and the response composed.\<close>

definition process_prog :: "(string \<Rightarrow> served_file option) \<Rightarrow> nat \<Rightarrow> server \<Rightarrow> instr list \<times> server" where
  [simp]: "process_prog fs fd s = (case process_read fs (users s fd) of
     None \<Rightarrow> ([], s\<lparr>fault := Some (Undefined_request fd)\<rparr>)
   | Some (read_ret, c) \<Rightarrow>
       (if read_ret = NO_REQUEST then ([Mod_fd fd EPOLLIN], put_user fd c s)
        else (case process_write read_ret c of
            None \<Rightarrow> ([], s\<lparr>fault := Some (Undefined_request fd)\<rparr>)
          | Some (write_ret, c) \<Rightarrow> ((if write_ret then [] else [Close_conn fd]) @ [Mod_fd fd EPOLLOUT], put_user fd c s))))"

text \<open>
  One step of a thread: what it has to do next, the value it has loaded, and the new state. Events are dispatched below.
\<close>

fun exec :: "(string \<Rightarrow> served_file option) \<Rightarrow> instr \<Rightarrow> int \<Rightarrow> server \<Rightarrow> instr list \<times> int \<times> server" where
  "exec fs (Admit fd) l s = (case admit fd s of (is, s) \<Rightarrow> (is, l, s))"
| "exec fs (Set_sockfd fd k) l s = ([], l, put_user fd ((users s fd)\<lparr>m_sockfd := k\<rparr>) s)"
| "exec fs (Add_fd fd) l s = ([], l, addfd fd s)"
| "exec fs Load_count l s = ([], user_count s, s)"
| "exec fs (Store_count d) l s = ([], l, s\<lparr>user_count := l + d\<rparr>)"
| "exec fs (Init fd) l s = ([], l, put_user fd (init (users s fd)) s)"
| "exec fs (Close_conn fd) l s = (close_prog fd s, l, s)"
| "exec fs (Remove_fd fd) l s = ([], l, removefd (m_sockfd (users s fd)) s)"
| "exec fs (Process fd) l s = (case process_prog fs fd s of (is, s) \<Rightarrow> (is, l, s))"
| "exec fs (Mod_fd fd ev) l s = ([], l, epoll_mod (m_sockfd (users s fd)) ev s)"
| "exec fs (Dispatch e) l s = ([Dispatch e], l, s)"

definition set_main :: "instr list \<Rightarrow> server \<Rightarrow> server" where
  "set_main is s = s\<lparr>main := (main s)\<lparr>todo := is\<rparr>\<rparr>"

text \<open>\<^verbatim>\<open>main\<close> does not look at the result of \<^verbatim>\<open>append\<close>.\<close>

definition append_work :: "nat \<Rightarrow> server \<Rightarrow> server" where
  "append_work fd s = (if length (work s) > max_requests then s\<lparr>dropped := fd # dropped s\<rparr> else s\<lparr>work := work s @ [fd]\<rparr>)"

text \<open>A connection is readable or writable; \<open>is\<close> is what \<^verbatim>\<open>main\<close> does afterwards.\<close>

definition on_epollin :: "nat \<Rightarrow> recv_result list \<Rightarrow> instr list \<Rightarrow> server \<Rightarrow> server option" where
  "on_epollin fd rs is s = do {
     (ok, c) \<leftarrow> conn_read rs (users s fd);
     Some (if ok then append_work fd (set_main is (put_user fd c s)) else set_main (Close_conn fd # is) (put_user fd c s)) }"

definition on_epollout :: "nat \<Rightarrow> send_result list \<Rightarrow> instr list \<Rightarrow> server \<Rightarrow> server" where
  "on_epollout fd rs is s = (case conn_write rs ((users s fd)\<lparr>m_interest := None\<rparr>) of (ok, c) \<Rightarrow>
     let s = put_user fd c (case m_interest c of Some ev \<Rightarrow> epoll_mod (m_sockfd (users s fd)) ev s | None \<Rightarrow> s) in
     set_main (if ok then is else Close_conn fd # is) s)"

text \<open>Events of epoll: each connection at most once, for what it is armed for; their delivery disarms them (\<^verbatim>\<open>EPOLLONESHOT\<close>).\<close>

fun event_fds :: "event \<Rightarrow> nat list" where
  "event_fds New = []" | "event_fds (Hangup fd) = [fd]" | "event_fds (Readable fd) = [fd]" | "event_fds (Writable fd) = [fd]"

fun can_report :: "event \<Rightarrow> server \<Rightarrow> bool" where
  "can_report New s \<longleftrightarrow> True"
| "can_report (Hangup fd) s \<longleftrightarrow> (\<exists>ev. epoll s fd = Some (Some ev))"
| "can_report (Readable fd) s \<longleftrightarrow> epoll s fd = Some (Some EPOLLIN)"
| "can_report (Writable fd) s \<longleftrightarrow> epoll s fd = Some (Some EPOLLOUT)"

definition events_fds :: "event list \<Rightarrow> nat list" where
  "events_fds evs = concat (map event_fds evs)"

definition deliver_events :: "event list \<Rightarrow> server \<Rightarrow> server" where
  "deliver_events evs s = set_main (map Dispatch evs)
     (s\<lparr>epoll := (\<lambda>fd. if fd \<in> set (events_fds evs) then Some None else epoll s fd)\<rparr>)"

text \<open>
  The steps of the server. \<^verbatim>\<open>accept\<close> fails or returns a descriptor that is not open; the answers of the socket are those for which
  \<open>conn_read\<close> is defined.
\<close>

inductive server_step :: "(string \<Rightarrow> served_file option) \<Rightarrow> server \<Rightarrow> server \<Rightarrow> bool" for fs where
  wait: "fault s = None \<Longrightarrow> todo (main s) = [] \<Longrightarrow> distinct (events_fds evs) \<Longrightarrow> \<forall>e\<in>set evs. can_report e s \<Longrightarrow>
    server_step fs s (deliver_events evs s)"
| accept_error: "fault s = None \<Longrightarrow> todo (main s) = Dispatch New # is \<Longrightarrow> server_step fs s (set_main is s)"
| accept: "fault s = None \<Longrightarrow> todo (main s) = Dispatch New # is \<Longrightarrow> fd \<notin> opened s \<Longrightarrow>
    server_step fs s (set_main (Admit fd # is) (s\<lparr>opened := insert fd (opened s)\<rparr>))"
| hangup: "fault s = None \<Longrightarrow> todo (main s) = Dispatch (Hangup fd) # is \<Longrightarrow> server_step fs s (set_main (Close_conn fd # is) s)"
| epollin: "fault s = None \<Longrightarrow> todo (main s) = Dispatch (Readable fd) # is \<Longrightarrow> on_epollin fd rs is s = Some s' \<Longrightarrow> server_step fs s s'"
| epollout: "fault s = None \<Longrightarrow> todo (main s) = Dispatch (Writable fd) # is \<Longrightarrow> server_step fs s (on_epollout fd rs is s)"
| main_step: "fault s = None \<Longrightarrow> todo (main s) = i # is \<Longrightarrow> \<forall>e. i \<noteq> Dispatch e \<Longrightarrow> exec fs i (loaded (main s)) s = (js, l, s') \<Longrightarrow>
    server_step fs s (s'\<lparr>main := \<lparr>todo = js @ is, loaded = l\<rparr>\<rparr>)"
| take_work: "fault s = None \<Longrightarrow> work s = fd # fds \<Longrightarrow> w < length (workers s) \<Longrightarrow> todo (workers s ! w) = [] \<Longrightarrow>
    server_step fs s (s\<lparr>work := fds, workers := (workers s)[w := (workers s ! w)\<lparr>todo := [Process fd]\<rparr>]\<rparr>)"
| worker_step: "fault s = None \<Longrightarrow> w < length (workers s) \<Longrightarrow> todo (workers s ! w) = i # is \<Longrightarrow>
    exec fs i (loaded (workers s ! w)) s = (js, l, s') \<Longrightarrow>
    server_step fs s (s'\<lparr>workers := (workers s)[w := \<lparr>todo = js @ is, loaded = l\<rparr>]\<rparr>)"

inductive server_reach :: "(string \<Rightarrow> served_file option) \<Rightarrow> nat \<Rightarrow> server \<Rightarrow> bool" for fs n where
  start: "server_reach fs n (server_new us n)"
| step: "server_reach fs n s \<Longrightarrow> server_step fs s s' \<Longrightarrow> server_reach fs n s'"

section \<open>What the parts keep\<close>

text \<open>Every file that is sent has contents, so that \<^verbatim>\<open>process_write\<close> succeeds.\<close>

definition no_empty_file :: "(string \<Rightarrow> served_file option) \<Rightarrow> bool" where
  "no_empty_file fs \<longleftrightarrow> (\<forall>p f. fs p = Some f \<and> file_code (Some f) = FILE_REQUEST \<longrightarrow> st_size (file_meta f) \<noteq> 0)"

definition answerable :: "HTTP_CODE \<Rightarrow> http_conn \<Rightarrow> bool" where
  "answerable ret s \<longleftrightarrow> ret = NO_REQUEST \<or> error_page ret \<noteq> None \<or> ret = FILE_REQUEST \<and> st_size (m_file_stat s) \<noteq> 0"

lemma do_request_answerable: "no_empty_file fs \<Longrightarrow> ensures (do_request fs s) (\<lambda>(ret, s'). answerable ret s')"
  by (auto simp: do_request_def ensures_def answerable_def error_page_def no_empty_file_def file_code_def Let_def split: bind_splits option.splits if_splits)

lemma process_read_answerable:
  assumes "no_empty_file fs"
  shows "ensures (process_read_loop fs ls s) (\<lambda>(ret, s'). answerable ret s')"
proof (rule ensuresI, erule process_read_loop.raw_induct [where P = "\<lambda>fs' ls s x. fs' = fs \<longrightarrow> (case x of (ret, s') \<Rightarrow> answerable ret s')", rotated, THEN mp], goal_cases)
  case (1 x f fs' ls s y)
  show ?case
  proof
    assume fs': "fs' = fs"
    have rec: "ensures (f fs ls s) (\<lambda>(ret, s'). answerable ret s')" for ls s
      using 1(1) by (simp add: ensures_def)
    note req = do_request_answerable [OF assms]
    have simple: "answerable NO_REQUEST q" "answerable BAD_REQUEST q" for q
      by (simp_all add: answerable_def error_page_def)
    show "case y of (ret, s') \<Rightarrow> answerable ret s'"
      by (rule ensuresD [OF _ 1(2) [unfolded fs'], where P = "\<lambda>x. case x of (ret, s') \<Rightarrow> answerable ret s'"])
        (rule ensures_pair | rule ensures_check_state | rule ensures_intros | rule rec req | (simp add: simple; fail) | rule ensuresI)+
  qed
qed (simp)

lemma process_write_answers:
  assumes "answerable ret c" and "ret \<noteq> NO_REQUEST" and "conn_type c" and "m_write_idx c = 0"
  shows "\<exists>c'. process_write ret c = Some (True, c') \<and> conn_type c' \<and> m_sockfd c' = m_sockfd c"
proof -
  have "room 300 c" using assms(3,4) by (simp add: room_def conn_type_def WRITE_BUFFER_SIZE_def)
  then obtain c' where c': "process_write ret c = Some (True, c')"
    using assms(1,2) process_write_error [of ret c 0] process_write_file [of c] by (auto simp: answerable_def)
  then show ?thesis using process_write_type [of ret c] assms(3) by (auto simp: ensures_def keeps_sock_def)
qed

lemma write_loop_keeps:
  assumes "m_sockfd s \<noteq> - 1"
  shows "case write_loop rs a b s of (ok, s') \<Rightarrow> m_sockfd s' = m_sockfd s \<and> (conn_type s \<longrightarrow> conn_type s') \<and>
    (ok \<longrightarrow> m_interest s' = Some EPOLLIN \<and> m_write_idx s' = 0 \<or> m_interest s' = Some EPOLLOUT)"
  using assms
proof (induction rs a b s rule: write_loop.induct)
  case (3 n rs a b s)
  show ?case
  proof (cases "gather s (m_iv s)")
    case (Some d)
    let ?s = "s\<lparr>m_wire := m_wire s @ take (nat n) d\<rparr>"
    have "conn_type (init (unmap ?s))" by (rule conn_type_init)
    moreover have "conn_type ?s = conn_type s" by (simp add: conn_type_def)
    ultimately show ?thesis
      using 3(1) [OF Some refl] 3(2) Some by (auto simp: Let_def modfd_def unmap_def conn_type_def init_def)
  qed (simp add: unmap_def conn_type_def)
qed (simp_all add: modfd_def unmap_def conn_type_def)

lemma conn_write_keeps:
  assumes "m_sockfd s \<noteq> - 1" and "conn_write rs s = (ok, s')"
  shows "m_sockfd s' = m_sockfd s" and "conn_type s \<Longrightarrow> conn_type s'"
    and "ok \<Longrightarrow> m_interest s' = Some EPOLLIN \<and> m_write_idx s' = 0 \<or> m_interest s' = Some EPOLLOUT"
  using write_loop_keeps [OF assms(1), of rs "int (m_write_idx s)" 0] conn_type_init [of "modfd EPOLLIN s"] assms
  by (auto simp: conn_write_def modfd_def init_def split: if_splits)

section \<open>Invariant\<close>

text \<open>The connections that are mentioned in what a thread still has to do.\<close>

fun instr_fds :: "instr \<Rightarrow> nat list" where
  "instr_fds (Dispatch e) = event_fds e" | "instr_fds (Admit fd) = [fd]" | "instr_fds (Set_sockfd fd k) = [fd]" | "instr_fds (Add_fd fd) = [fd]"
| "instr_fds Load_count = []" | "instr_fds (Store_count d) = []" | "instr_fds (Init fd) = [fd]" | "instr_fds (Close_conn fd) = [fd]"
| "instr_fds (Remove_fd fd) = [fd]" | "instr_fds (Process fd) = [fd]" | "instr_fds (Mod_fd fd ev) = [fd]"

definition in_hand :: "thread \<Rightarrow> nat list" where
  "in_hand t = concat (map instr_fds (todo t))"

text \<open>Where the main thread is: before an event, or in the middle of opening or closing a connection.\<close>

datatype stage = Between | Admitting nat | Opening nat nat | Closing nat nat

fun prog :: "stage \<Rightarrow> instr list" where
  "prog Between = []"
| "prog (Admitting fd) = [Admit fd]"
| "prog (Opening fd k) = drop k [Set_sockfd fd (int fd), Add_fd fd, Load_count, Store_count 1, Init fd]"
| "prog (Closing fd k) = (if k = 0 then [Close_conn fd] else drop (k - 1) [Remove_fd fd, Set_sockfd fd (- 1), Load_count, Store_count (- 1)])"

fun stage_fd :: "stage \<Rightarrow> nat set" where
  "stage_fd Between = {}" | "stage_fd (Admitting fd) = {fd}" | "stage_fd (Opening fd k) = {fd}" | "stage_fd (Closing fd k) = {fd}"

fun stage_ok :: "stage \<Rightarrow> server \<Rightarrow> bool" where
  "stage_ok Between s \<longleftrightarrow> user_count s = int (card (opened s))"
| "stage_ok (Admitting fd) s \<longleftrightarrow> fd \<in> opened s \<and> fd \<notin> dom (epoll s) \<and> user_count s + 1 = int (card (opened s))"
| "stage_ok (Opening fd k) s \<longleftrightarrow> k < 5 \<and> fd < MAX_FD \<and> fd \<in> opened s \<and> (0 < k \<longrightarrow> m_sockfd (users s fd) = int fd) \<and>
     epoll s fd = (if k < 2 then None else Some (Some EPOLLIN)) \<and> (k = 3 \<longrightarrow> loaded (main s) = user_count s) \<and>
     int (card (opened s)) = user_count s + (if k < 4 then 1 else 0)"
| "stage_ok (Closing fd k) s \<longleftrightarrow> k < 5 \<and> (if k < 2 then fd \<in> opened s \<and> m_sockfd (users s fd) = int fd else fd \<notin> opened s) \<and>
     (k = 4 \<longrightarrow> loaded (main s) = user_count s) \<and> user_count s = int (card (opened s)) + (if k < 2 then 0 else 1)"

text \<open>The connections that somebody holds: an event is pending, or they are queued, with a worker, or turned away.\<close>

definition held :: "event list \<Rightarrow> server \<Rightarrow> nat list" where
  "held evs s = events_fds evs @ work s @ concat (map in_hand (workers s)) @ dropped s"

fun event_ready :: "server \<Rightarrow> event \<Rightarrow> bool" where
  "event_ready s (Readable fd) \<longleftrightarrow> m_write_idx (users s fd) = 0"
| "event_ready s e \<longleftrightarrow> True"

definition worker_ok :: "server \<Rightarrow> thread \<Rightarrow> bool" where
  "worker_ok s t \<longleftrightarrow> todo t = [] \<or> (\<exists>fd. todo t = [Process fd] \<and> m_write_idx (users s fd) = 0) \<or>
     (\<exists>fd ev. todo t = [Mod_fd fd ev] \<and> (ev = EPOLLIN \<longrightarrow> m_write_idx (users s fd) = 0))"

definition conn_ok :: "nat set \<Rightarrow> server \<Rightarrow> nat \<Rightarrow> bool" where
  "conn_ok h s fd \<longleftrightarrow> fd < MAX_FD \<and> m_sockfd (users s fd) = int fd \<and> conn_type (users s fd) \<and>
     (if fd \<in> h then epoll s fd = Some None
      else epoll s fd = Some (Some EPOLLIN) \<and> m_write_idx (users s fd) = 0 \<or> epoll s fd = Some (Some EPOLLOUT))"

definition inv_at :: "stage \<Rightarrow> event list \<Rightarrow> server \<Rightarrow> bool" where
  "inv_at ph evs s \<longleftrightarrow> todo (main s) = prog ph @ map Dispatch evs \<and> finite (opened s) \<and> dom (epoll s) \<subseteq> opened s \<and>
     (\<forall>fd\<in>opened s - stage_fd ph. conn_ok (set (held evs s)) s fd) \<and>
     distinct (held evs s) \<and> set (held evs s) \<subseteq> opened s - stage_fd ph \<and>
     (\<forall>e\<in>set evs. event_ready s e) \<and> (\<forall>fd\<in>set (work s). m_write_idx (users s fd) = 0) \<and> (\<forall>t\<in>set (workers s). worker_ok s t) \<and> stage_ok ph s"

definition server_inv :: "server \<Rightarrow> bool" where
  "server_inv s \<longleftrightarrow> fault s = None \<longrightarrow> (\<exists>ph evs. inv_at ph evs s)"

lemma inv_atD:
  assumes "inv_at ph evs s"
  shows "todo (main s) = prog ph @ map Dispatch evs" "finite (opened s)" "dom (epoll s) \<subseteq> opened s"
    "\<And>fd. fd \<in> opened s \<Longrightarrow> fd \<notin> stage_fd ph \<Longrightarrow> conn_ok (set (held evs s)) s fd"
    "distinct (held evs s)" "\<And>fd. fd \<in> set (held evs s) \<Longrightarrow> fd \<in> opened s \<and> fd \<notin> stage_fd ph"
    "\<And>e. e \<in> set evs \<Longrightarrow> event_ready s e" "\<And>fd. fd \<in> set (work s) \<Longrightarrow> m_write_idx (users s fd) = 0"
    "\<And>t. t \<in> set (workers s) \<Longrightarrow> worker_ok s t" "stage_ok ph s"
  using assms by (auto simp: inv_at_def)

text \<open>Holding is counted, so that moving a connection keeps everything.\<close>

lemma mset_update: "w < length ws \<Longrightarrow> mset (concat (map f (ws[w := t]))) + mset (f (ws ! w)) = mset (concat (map f ws)) + mset (f t)"
proof (induction ws arbitrary: w)
  case (Cons a ws)
  then show ?case by (cases w) (auto simp: ac_simps)
qed simp

lemma held_moved:
  assumes "mset xs = mset ys" and "distinct xs"
  shows "distinct ys" and "set ys = set xs"
  using assms mset_eq_imp_distinct_iff mset_eq_setD by metis+

lemma held_left:
  assumes "mset xs = add_mset fd (mset ys)" and "distinct xs"
  shows "distinct ys" and "fd \<notin> set ys" and "set xs = insert fd (set ys)"
proof -
  have m: "mset xs = mset (fd # ys)" using assms(1) by simp
  show "distinct ys" "fd \<notin> set ys" using held_moved(1) [OF m assms(2)] by auto
  show "set xs = insert fd (set ys)" using mset_eq_setD [OF m] by simp
qed

text \<open>A step changes one connection; the others and those who hold them are as before.\<close>

definition others_same :: "nat \<Rightarrow> server \<Rightarrow> server \<Rightarrow> bool" where
  "others_same fd s s' \<longleftrightarrow> (\<forall>x. x \<noteq> fd \<longrightarrow> users s' x = users s x \<and> epoll s' x = epoll s x \<and> (x \<in> opened s' \<longleftrightarrow> x \<in> opened s))"

lemma events_others: "others_same fd s s' \<Longrightarrow> \<forall>e\<in>set evs. event_ready s e \<Longrightarrow> fd \<notin> set (events_fds evs) \<Longrightarrow> \<forall>e\<in>set evs. event_ready s' e"
proof
  fix e assume a: "others_same fd s s'" "\<forall>e\<in>set evs. event_ready s e" "fd \<notin> set (events_fds evs)" "e \<in> set evs"
  then show "event_ready s' e" by (cases e) (force simp: others_same_def events_fds_def)+
qed

lemma workers_others:
  "others_same fd s s' \<Longrightarrow> \<forall>t\<in>set ws. worker_ok s t \<Longrightarrow> fd \<notin> set (concat (map in_hand ws)) \<Longrightarrow> \<forall>t\<in>set ws. worker_ok s' t"
proof
  fix t assume a: "others_same fd s s'" "\<forall>t\<in>set ws. worker_ok s t" "fd \<notin> set (concat (map in_hand ws))" "t \<in> set ws"
  then have "fd \<notin> set (in_hand t)" "worker_ok s t" by auto
  then show "worker_ok s' t" using a(1) by (auto simp: worker_ok_def in_hand_def others_same_def)
qed

lemma update_one:
  assumes inv: "inv_at ph evs s" and o: "others_same fd s s'" and "todo (main s') = prog ph' @ map Dispatch evs'"
    and h: "distinct (held evs' s')" "set (held evs' s') - {fd} = set (held evs s) - {fd}"
    and p: "stage_fd ph' - {fd} = stage_fd ph - {fd}"
    and own: "fd \<in> opened s' \<Longrightarrow> fd \<notin> stage_fd ph' \<Longrightarrow> conn_ok (set (held evs' s')) s' fd"
      "fd \<in> dom (epoll s') \<Longrightarrow> fd \<in> opened s'" "fd \<in> set (held evs' s') \<Longrightarrow> fd \<in> opened s' \<and> fd \<notin> stage_fd ph'"
    and "\<forall>e\<in>set evs'. event_ready s' e" and "\<forall>x\<in>set (work s'). m_write_idx (users s' x) = 0" and "\<forall>t\<in>set (workers s'). worker_ok s' t"
    and "stage_ok ph' s'"
  shows "inv_at ph' evs' s'"
proof -
  note i = inv_atD [OF inv]
  have "opened s' \<subseteq> insert fd (opened s)" using o by (auto simp: others_same_def)
  then have fin: "finite (opened s')" using i(2) finite_subset by blast
  have dom: "dom (epoll s') \<subseteq> opened s'"
  proof
    fix x assume "x \<in> dom (epoll s')"
    then show "x \<in> opened s'" using own(2) o i(3) by (cases "x = fd") (auto simp: others_same_def)
  qed
  have conn: "conn_ok (set (held evs' s')) s' x" if "x \<in> opened s'" "x \<notin> stage_fd ph'" for x
  proof (cases "x = fd")
    case False
    then have "x \<in> opened s" "x \<notin> stage_fd ph" "x \<in> set (held evs' s') \<longleftrightarrow> x \<in> set (held evs s)" using that o p h(2) by (auto simp: others_same_def)
    then show ?thesis using i(4) [of x] o False by (auto simp: conn_ok_def others_same_def)
  qed (use own(1) that in simp)
  have held: "x \<in> opened s' \<and> x \<notin> stage_fd ph'" if "x \<in> set (held evs' s')" for x
  proof (cases "x = fd")
    case False
    then have "x \<in> set (held evs s)" using that h(2) by auto
    then show ?thesis using i(6) [of x] o p False by (auto simp: others_same_def)
  qed (use own(3) that in simp)
  show ?thesis
    unfolding inv_at_def using assms(3,9-) fin dom conn held h(1) by (auto simp: subset_iff)
qed

text \<open>A step of the main thread in the middle of opening or closing a connection.\<close>

lemma stage_step:
  assumes inv: "inv_at ph evs s" and o: "others_same fd s s'" and "todo (main s') = prog ph' @ map Dispatch evs"
    and same: "work s' = work s" "workers s' = workers s" "dropped s' = dropped s" and p: "stage_fd ph' - {fd} = stage_fd ph - {fd}" and free: "fd \<notin> set (held evs s)"
    and own: "fd \<in> opened s' \<Longrightarrow> fd \<notin> stage_fd ph' \<Longrightarrow> conn_ok {} s' fd" "fd \<in> dom (epoll s') \<Longrightarrow> fd \<in> opened s'"
    and "stage_ok ph' s'"
  shows "inv_at ph' evs s'"
proof (rule update_one [OF inv o assms(3)])
  note i = inv_atD [OF inv]
  have h: "held evs s' = held evs s" using same by (simp add: held_def)
  show "distinct (held evs s')" "set (held evs s') - {fd} = set (held evs s) - {fd}" using i(5) h by simp_all
  show "fd \<in> opened s' \<Longrightarrow> fd \<notin> stage_fd ph' \<Longrightarrow> conn_ok (set (held evs s')) s' fd" using own(1) free h by (simp add: conn_ok_def)
  show "fd \<in> set (held evs s') \<Longrightarrow> fd \<in> opened s' \<and> fd \<notin> stage_fd ph'" using free h by simp
  have f: "fd \<notin> set (events_fds evs)" "fd \<notin> set (work s)" "fd \<notin> set (concat (map in_hand (workers s)))" using free by (auto simp: held_def)
  show "\<forall>e\<in>set evs. event_ready s' e" using events_others [OF o _ f(1)] i(7) by blast
  show "\<forall>t\<in>set (workers s'). worker_ok s' t" using workers_others [OF o _ f(3)] i(9) same(2) by simp
  show "\<forall>x\<in>set (work s'). m_write_idx (users s' x) = 0" using i(8) f(2) o same(1) by (simp add: others_same_def) metis
qed (use assms in auto)

section \<open>The main thread\<close>

lemma stage_free: "inv_at ph evs s \<Longrightarrow> fd \<in> stage_fd ph \<Longrightarrow> fd \<notin> set (held evs s)"
  using inv_atD(6) by blast

lemma server_invI: "inv_at ph evs s \<Longrightarrow> server_inv s"
  unfolding server_inv_def by blast

lemma admit_inv:
  assumes "inv_at (Admitting fd) evs s" and "exec fs (Admit fd) (loaded (main s)) s = (js, l, s')"
  shows "server_inv (s'\<lparr>main := \<lparr>todo = js @ map Dispatch evs, loaded = l\<rparr>\<rparr>)"
proof -
  note i = inv_atD [OF assms(1)]
  have free: "fd \<notin> set (held evs s)" using stage_free [OF assms(1)] by simp
  have fd: "fd \<in> opened s" "fd \<notin> dom (epoll s)" "user_count s + 1 = int (card (opened s))" using i(10) by simp_all
  have card: "int (card (opened s - {fd})) + 1 = int (card (opened s))" using card_Suc_Diff1 [OF i(2) fd(1)] by linarith
  consider (full) "user_count s \<ge> int MAX_FD" | (big) "user_count s < int MAX_FD" "fd \<ge> MAX_FD" | (ok) "user_count s < int MAX_FD" "fd < MAX_FD" by linarith
  then show ?thesis
  proof cases
    case full
    then have s': "js = []" "l = loaded (main s)" "s' = s\<lparr>opened := opened s - {fd}\<rparr>" using assms(2) by simp_all
    show ?thesis
      by (rule server_invI [of Between evs], rule stage_step [OF assms(1), of fd])
        (use fd free card in \<open>simp_all add: s' others_same_def domIff\<close>)
  next
    case big
    then show ?thesis using assms(2) by (auto simp: server_inv_def)
  next
    case ok
    then have s': "js = prog (Opening fd 0)" "l = loaded (main s)" "s' = s" using assms(2) by auto
    show ?thesis
      by (rule server_invI [of "Opening fd 0" evs], rule stage_step [OF assms(1), of fd])
        (use fd free ok in \<open>simp_all add: s' others_same_def domIff\<close>)
  qed
qed

lemma less_5: "(k :: nat) < 5 \<Longrightarrow> k = 0 \<or> k = 1 \<or> k = 2 \<or> k = 3 \<or> k = 4"
  by linarith

lemma opening_inv:
  assumes "inv_at (Opening fd k) evs s" and "prog (Opening fd k) = i # is" and "exec fs i (loaded (main s)) s = (js, l, s')"
  shows "server_inv (s'\<lparr>main := \<lparr>todo = js @ is @ map Dispatch evs, loaded = l\<rparr>\<rparr>)"
proof -
  note inv = inv_atD [OF assms(1)]
  have free: "fd \<notin> set (held evs s)" using stage_free [OF assms(1)] by simp
  have st: "k < 5" "fd < MAX_FD" "fd \<in> opened s" "0 < k \<longrightarrow> m_sockfd (users s fd) = int fd" "epoll s fd = (if k < 2 then None else Some (Some EPOLLIN))"
    "k = 3 \<longrightarrow> loaded (main s) = user_count s" "int (card (opened s)) = user_count s + (if k < 4 then 1 else 0)"
    using inv(10) by simp_all
  have ty: "conn_type (init c)" "m_write_idx (init c) = 0" "m_sockfd (init c) = m_sockfd c" for c using conn_type_init by (simp_all add: init_def)
  consider "k = 0" | "k = 1" | "k = 2" | "k = 3" | "k = 4" using less_5 [OF st(1)] by blast
  then show ?thesis
  proof cases
    case 1
    show ?thesis
      by (rule server_invI [of "Opening fd 1" evs], rule stage_step [OF assms(1), of fd]) (use 1 assms(2,3) st free in \<open>auto simp: others_same_def put_user_def\<close>)
  next
    case 2
    show ?thesis
      by (rule server_invI [of "Opening fd 2" evs], rule stage_step [OF assms(1), of fd]) (use 2 assms(2,3) st free in \<open>auto simp: others_same_def\<close>)
  next
    case 3
    show ?thesis
      by (rule server_invI [of "Opening fd 3" evs], rule stage_step [OF assms(1), of fd]) (use 3 assms(2,3) st free in \<open>auto simp: others_same_def\<close>)
  next
    case 4
    show ?thesis
      by (rule server_invI [of "Opening fd 4" evs], rule stage_step [OF assms(1), of fd]) (use 4 assms(2,3) st free in \<open>auto simp: others_same_def\<close>)
  next
    case 5
    show ?thesis
      by (rule server_invI [of Between evs], rule stage_step [OF assms(1), of fd])
        (use 5 assms(2,3) st free ty in \<open>auto simp: others_same_def put_user_def conn_ok_def\<close>)
  qed
qed

lemma closing_inv:
  assumes "inv_at (Closing fd k) evs s" and "prog (Closing fd k) = i # is" and "exec fs i (loaded (main s)) s = (js, l, s')"
  shows "server_inv (s'\<lparr>main := \<lparr>todo = js @ is @ map Dispatch evs, loaded = l\<rparr>\<rparr>)"
proof -
  note inv = inv_atD [OF assms(1)]
  have free: "fd \<notin> set (held evs s)" using stage_free [OF assms(1)] by simp
  have st: "k < 5" "k < 2 \<Longrightarrow> fd \<in> opened s \<and> m_sockfd (users s fd) = int fd" "\<not> k < 2 \<Longrightarrow> fd \<notin> opened s \<and> fd \<notin> dom (epoll s)"
    "k = 4 \<longrightarrow> loaded (main s) = user_count s" "user_count s = int (card (opened s)) + (if k < 2 then 0 else 1)"
    using inv(3,10) by (auto split: if_splits)
  have card: "fd \<in> opened s \<Longrightarrow> int (card (opened s - {fd})) + 1 = int (card (opened s))"
    using card_Suc_Diff1 [OF inv(2), of fd] by linarith
  consider "k = 0" | "k = 1" | "k = 2" | "k = 3" | "k = 4" using less_5 [OF st(1)] by blast
  then show ?thesis
  proof cases
    case 1
    show ?thesis
      by (rule server_invI [of "Closing fd 1" evs], rule stage_step [OF assms(1), of fd]) (use 1 assms(2,3) st free in \<open>auto simp: others_same_def\<close>)
  next
    case 2
    show ?thesis
      by (rule server_invI [of "Closing fd 2" evs], rule stage_step [OF assms(1), of fd]) (use 2 assms(2,3) st free card in \<open>auto simp: others_same_def removefd_def\<close>)
  next
    case 3
    show ?thesis
      by (rule server_invI [of "Closing fd 3" evs], rule stage_step [OF assms(1), of fd]) (use 3 assms(2,3) st free in \<open>auto simp: others_same_def put_user_def\<close>)
  next
    case 4
    show ?thesis
      by (rule server_invI [of "Closing fd 4" evs], rule stage_step [OF assms(1), of fd]) (use 4 assms(2,3) st free in \<open>auto simp: others_same_def\<close>)
  next
    case 5
    show ?thesis
      by (rule server_invI [of Between evs], rule stage_step [OF assms(1), of fd]) (use 5 assms(2,3) st free in \<open>auto simp: others_same_def\<close>)
  qed
qed

lemma prog_head: "stage_ok ph s \<Longrightarrow> prog ph \<noteq> [] \<Longrightarrow> hd (prog ph) \<noteq> Dispatch e"
  by (cases ph) (auto dest!: less_5)

lemma prog_Nil: "stage_ok ph s \<Longrightarrow> prog ph = [] \<longleftrightarrow> ph = Between"
  by (cases ph) (auto dest!: less_5)

lemma dispatch_between:
  assumes "inv_at ph evs s" and "todo (main s) = Dispatch e # is"
  obtains evs' where "inv_at Between (e # evs') s" and "is = map Dispatch evs'"
proof -
  note i = inv_atD(1,10) [OF assms(1)]
  have "prog ph = []" using i prog_head [OF i(2), of e] assms(2) by (cases "prog ph") auto
  then have "ph = Between" using prog_Nil [OF i(2)] by simp
  then obtain evs' where "evs = e # evs'" "is = map Dispatch evs'" using i(1) assms(2) by auto
  then show thesis using that assms(1) \<open>ph = Between\<close> by blast
qed

lemma wait_inv:
  assumes "inv_at ph evs s" and "todo (main s) = []" and "distinct (events_fds es)" and "\<forall>e\<in>set es. can_report e s"
  shows "inv_at Between es (deliver_events es s)"
proof -
  note i = inv_atD [OF assms(1)]
  have b: "ph = Between" "evs = []" using i(1,10) assms(2) prog_Nil [OF i(10)] by auto
  let ?s = "deliver_events es s"
  have eqs: "users ?s = users s" "opened ?s = opened s" "work ?s = work s" "workers ?s = workers s" "dropped ?s = dropped s" "user_count ?s = user_count s"
    "todo (main ?s) = map Dispatch es"
    by (simp_all add: deliver_events_def set_main_def)
  have h: "held es ?s = events_fds es @ held [] s" by (simp add: held_def eqs events_fds_def)
  have armed: "\<exists>ev. epoll s fd = Some (Some ev)" if fd: "fd \<in> set (events_fds es)" for fd
  proof -
    obtain e where e: "e \<in> set es" "fd \<in> set (event_fds e)" using fd by (auto simp: events_fds_def)
    then have "can_report e s" using assms(4) by simp
    then show ?thesis using e(2) by (cases e) auto
  qed
  have op: "fd \<in> opened s" if "fd \<in> set (events_fds es)" for fd using armed [OF that] i(3) by auto
  have free: "fd \<notin> set (held [] s)" if "fd \<in> set (events_fds es)" for fd
    using armed [OF that] op [OF that] i(4) [of fd] b by (auto simp: conn_ok_def)
  have ready: "event_ready ?s e" if "e \<in> set es" for e
  proof (cases e)
    case (Readable fd)
    then have "epoll s fd = Some (Some EPOLLIN)" "fd \<in> set (events_fds es)" using assms(4) that by (auto simp: events_fds_def) (force)
    then show ?thesis using i(4) [of fd] op [of fd] free [of fd] b Readable by (auto simp: conn_ok_def eqs)
  qed simp_all
  have conn: "conn_ok (set (held es ?s)) ?s fd" if "fd \<in> opened s" for fd
    using i(4) [of fd] that b by (auto simp: conn_ok_def h eqs) (auto simp: deliver_events_def set_main_def)
  have dom: "dom (epoll ?s) \<subseteq> opened s" using i(3) op by (auto simp: deliver_events_def set_main_def dom_def)
  have wk: "worker_ok ?s t" if "t \<in> set (workers s)" for t using i(9) [OF that] by (simp add: worker_ok_def eqs)
  show ?thesis
    unfolding inv_at_def eqs h using i(2,5,6,8,10) b dom conn ready wk assms(3) op free by (auto simp: eqs h)
qed

lemma set_main_simps [simp]:
  "users (set_main is s) = users s" "opened (set_main is s) = opened s" "epoll (set_main is s) = epoll s" "work (set_main is s) = work s"
  "dropped (set_main is s) = dropped s" "workers (set_main is s) = workers s" "user_count (set_main is s) = user_count s"
  "todo (main (set_main is s)) = is" "loaded (main (set_main is s)) = loaded (main s)" "fault (set_main is s) = fault s"
  by (simp_all add: set_main_def)

lemma accept_error_inv:
  assumes "inv_at Between (New # evs) s"
  shows "inv_at Between evs (set_main (map Dispatch evs) s)"
proof -
  have h: "held evs (set_main (map Dispatch evs) s) = held (New # evs) s" by (simp add: held_def events_fds_def)
  have c: "conn_ok X (set_main is s) = conn_ok X s" "worker_ok (set_main is s) = worker_ok s" "event_ready (set_main is s) e = event_ready s e" for X "is" e
    by (auto simp: fun_eq_iff conn_ok_def worker_ok_def) (cases e; simp)+
  show ?thesis using assms unfolding inv_at_def h by (auto simp: c)
qed

lemma accept_inv:
  assumes "inv_at Between (New # evs) s" and "fd \<notin> opened s"
  shows "inv_at (Admitting fd) evs (set_main (Admit fd # map Dispatch evs) (s\<lparr>opened := insert fd (opened s)\<rparr>))"
proof -
  let ?s = "set_main (map Dispatch evs) s"
  have inv: "inv_at Between evs ?s" by (rule accept_error_inv [OF assms(1)])
  note i = inv_atD [OF inv]
  have "fd \<notin> set (held evs ?s)" "fd \<notin> dom (epoll s)" using i(3,6) assms(2) by auto
  then show ?thesis
    using i(2,10) assms(2) by (intro stage_step [OF inv, of fd]) (auto simp: others_same_def)
qed

text \<open>An event of a connection: it leaves the pending events.\<close>

lemma pending_event:
  assumes "inv_at Between (e # evs) s" and "event_fds e = [fd]"
  shows "fd \<in> opened s" "fd < MAX_FD" "m_sockfd (users s fd) = int fd" "conn_type (users s fd)" "epoll s fd = Some None"
    "distinct (fd # held evs s)" "fd \<notin> set (events_fds evs)" "fd \<notin> set (work s)" "fd \<notin> set (concat (map in_hand (workers s)))"
    "set (held (e # evs) s) = insert fd (set (held evs s))"
proof -
  note i = inv_atD [OF assms(1)]
  have h: "held (e # evs) s = fd # held evs s" using assms(2) by (simp add: held_def events_fds_def)
  show "fd \<in> opened s" using i(6) h by simp
  then have "conn_ok (set (held (e # evs) s)) s fd" using i(4) by simp
  then show "fd < MAX_FD" "m_sockfd (users s fd) = int fd" "conn_type (users s fd)" "epoll s fd = Some None" by (simp_all add: conn_ok_def h)
  show "distinct (fd # held evs s)" using i(5) h by simp
  then show "fd \<notin> set (events_fds evs)" "fd \<notin> set (work s)" "fd \<notin> set (concat (map in_hand (workers s)))" by (auto simp: held_def)
  show "set (held (e # evs) s) = insert fd (set (held evs s))" by (simp add: h)
qed

lemma event_step:
  assumes inv: "inv_at Between (e # evs) s" and fd: "event_fds e = [fd]" and o: "others_same fd s s'" and "todo (main s') = prog ph' @ map Dispatch evs"
    and h: "distinct (held evs s')" "set (held evs s') - {fd} = set (held evs s)" and p: "stage_fd ph' \<subseteq> {fd}"
    and own: "fd \<notin> stage_fd ph' \<Longrightarrow> conn_ok (set (held evs s')) s' fd" "fd \<in> opened s'" "fd \<in> set (held evs s') \<Longrightarrow> fd \<notin> stage_fd ph'"
    and work: "set (work s') \<subseteq> insert fd (set (work s))" "fd \<in> set (work s') \<Longrightarrow> m_write_idx (users s' fd) = 0" and "workers s' = workers s" and "stage_ok ph' s'"
  shows "inv_at ph' evs s'"
proof (rule update_one [OF inv o assms(4)])
  note i = inv_atD [OF inv] and q = pending_event [OF inv fd]
  show "distinct (held evs s')" "set (held evs s') - {fd} = set (held (e # evs) s) - {fd}" using h q(6,10) by auto
  show "\<forall>e\<in>set evs. event_ready s' e" by (rule events_others [OF o _ q(7)]) (use i(7) in simp)
  show "\<forall>t\<in>set (workers s'). worker_ok s' t" using workers_others [OF o _ q(9)] i(9) assms(13) by simp
  show "\<forall>x\<in>set (work s'). m_write_idx (users s' x) = 0"
  proof
    fix x assume x: "x \<in> set (work s')"
    show "m_write_idx (users s' x) = 0"
      using x work i(8) [of x] o by (cases "x = fd") (auto simp: others_same_def)
  qed
qed (use assms in auto)

lemma put_user_simps [simp]:
  "users (put_user fd c s) = (users s)(fd := c)" "opened (put_user fd c s) = opened s" "epoll (put_user fd c s) = epoll s" "work (put_user fd c s) = work s"
  "dropped (put_user fd c s) = dropped s" "workers (put_user fd c s) = workers s" "user_count (put_user fd c s) = user_count s"
  "main (put_user fd c s) = main s" "fault (put_user fd c s) = fault s"
  by (simp_all add: put_user_def)

lemma close_inv:
  assumes "inv_at Between (e # evs) s" and "event_fds e = [fd]" and "others_same fd s s'" and "todo (main s') = Close_conn fd # map Dispatch evs"
    and "opened s' = opened s" "work s' = work s" "workers s' = workers s" "dropped s' = dropped s" "user_count s' = user_count s" "m_sockfd (users s' fd) = int fd"
  shows "inv_at (Closing fd 0) evs s'"
proof -
  note q = pending_event [OF assms(1,2)]
  have "user_count s = int (card (opened s))" using inv_atD(10) [OF assms(1)] by simp
  moreover have "held evs s' = held evs s" using assms by (simp add: held_def)
  ultimately show ?thesis using assms q by (intro event_step [OF assms(1,2)]) auto
qed

lemma epollin_inv:
  assumes inv: "inv_at Between (Readable fd # evs) s" and "on_epollin fd rs (map Dispatch evs) s = Some s'"
  shows "server_inv s'"
proof -
  have e: "event_fds (Readable fd) = [fd]" by simp
  note i = inv_atD [OF inv] and q = pending_event [OF inv e]
  obtain ok c where c: "conn_read rs (users s fd) = Some (ok, c)"
    using assms(2) by (auto simp: on_epollin_def split: bind_splits)
  then have k: "conn_type c" "m_sockfd c = int fd" "m_write_idx c = m_write_idx (users s fd)"
    using conn_read_type [of rs "users s fd"] q(3,4) by (auto simp: ensures_def keeps_type_def kept_def)
  have idx: "m_write_idx (users s fd) = 0" using i(7) [of "Readable fd"] by simp
  have o: "others_same fd s (append_work fd (set_main (map Dispatch evs) (put_user fd c s)))" "others_same fd s (set_main (Close_conn fd # map Dispatch evs) (put_user fd c s))"
    by (simp_all add: others_same_def append_work_def)
  show ?thesis
  proof (cases ok)
    case True
    then have s': "s' = append_work fd (set_main (map Dispatch evs) (put_user fd c s))" using assms(2) c by (simp add: on_epollin_def)
    have m: "mset (held evs s') = mset (fd # held evs s)" by (simp add: s' append_work_def held_def)
    have h: "distinct (held evs s')" "set (held evs s') = insert fd (set (held evs s))" using held_moved [OF m [symmetric] q(6)] by simp_all
    have "inv_at Between evs s'"
      by (rule event_step [OF inv e o(1) [folded s']]) (use h q i(10) k idx in \<open>auto simp: s' append_work_def conn_ok_def\<close>)
    then show ?thesis by (rule server_invI)
  next
    case False
    then have s': "s' = set_main (Close_conn fd # map Dispatch evs) (put_user fd c s)" using assms(2) c by (simp add: on_epollin_def)
    show ?thesis by (rule server_invI, rule close_inv [OF inv e o(2) [folded s']]) (use k in \<open>simp_all add: s'\<close>)
  qed
qed

lemma epoll_mod_simps [simp]:
  "users (epoll_mod k ev s) = users s" "opened (epoll_mod k ev s) = opened s" "work (epoll_mod k ev s) = work s"
  "dropped (epoll_mod k ev s) = dropped s" "workers (epoll_mod k ev s) = workers s" "user_count (epoll_mod k ev s) = user_count s"
  "main (epoll_mod k ev s) = main s" "fault (epoll_mod k ev s) = fault s"
  by (simp_all add: epoll_mod_def)

lemma epoll_mod_epoll: "epoll s fd = Some i \<Longrightarrow> epoll (epoll_mod (int fd) ev s) = (epoll s)(fd \<mapsto> Some ev)"
  by (auto simp: epoll_mod_def)

lemma epollout_inv:
  assumes inv: "inv_at Between (Writable fd # evs) s"
  shows "server_inv (on_epollout fd rs (map Dispatch evs) s)"
proof -
  have e: "event_fds (Writable fd) = [fd]" by simp
  note i = inv_atD [OF inv] and q = pending_event [OF inv e]
  let ?c = "(users s fd)\<lparr>m_interest := None\<rparr>"
  obtain ok c where c: "conn_write rs ?c = (ok, c)" by fastforce
  have "m_sockfd ?c \<noteq> - 1" "conn_type ?c" using q(3,4) by (simp_all add: conn_type_def)
  note k = conn_write_keeps [OF this(1) c]
  have ty: "conn_type c" "m_sockfd c = int fd" using k(1,2) q(3) \<open>conn_type ?c\<close> by simp_all
  define s1 where "s1 = (case m_interest c of Some ev \<Rightarrow> epoll_mod (int fd) ev s | None \<Rightarrow> s)"
  have s1: "users s1 = users s" "opened s1 = opened s" "work s1 = work s" "dropped s1 = dropped s" "workers s1 = workers s" "user_count s1 = user_count s"
    "main s1 = main s" "epoll s1 = (epoll s)(fd \<mapsto> m_interest c)"
    using q(5) epoll_mod_epoll [OF q(5)] by (simp_all add: s1_def split: option.split) auto
  let ?s = "set_main (if ok then map Dispatch evs else Close_conn fd # map Dispatch evs) (put_user fd c s1)"
  have s': "on_epollout fd rs (map Dispatch evs) s = ?s" using c q(3) by (auto simp: on_epollout_def s1_def split: option.split)
  have o: "others_same fd s ?s" by (simp add: others_same_def s1)
  show ?thesis
  proof (cases ok)
    case True
    have h: "held evs ?s = held evs s" by (simp add: held_def s1)
    have "inv_at Between evs ?s"
      by (rule event_step [OF inv e o]) (use h q i(10) k(3) [OF True] ty True in \<open>auto simp: conn_ok_def s1\<close>)
    then show ?thesis using s' server_invI by simp
  next
    case False
    have "inv_at (Closing fd 0) evs ?s"
      by (rule close_inv [OF inv e o]) (use ty False in \<open>simp_all add: s1\<close>)
    then show ?thesis using s' server_invI by simp
  qed
qed

section \<open>The workers\<close>

lemma worker_hold:
  assumes "inv_at ph evs s" and "w < length (workers s)" and "in_hand (workers s ! w) = [fd]"
  shows "fd \<in> set (held evs s)" "fd \<in> opened s" "fd \<notin> stage_fd ph" "m_sockfd (users s fd) = int fd" "conn_type (users s fd)" "epoll s fd = Some None" "fd < MAX_FD"
    "fd \<notin> set (events_fds evs)" "fd \<notin> set (work s)" "\<And>v. v < length (workers s) \<Longrightarrow> v \<noteq> w \<Longrightarrow> fd \<notin> set (in_hand (workers s ! v))"
proof -
  note i = inv_atD [OF assms(1)]
  have "fd \<in> set (in_hand (workers s ! w))" using assms(3) by simp
  then have "fd \<in> set (concat (map in_hand (workers s)))" using nth_mem [OF assms(2)] by auto
  then show h: "fd \<in> set (held evs s)" by (simp add: held_def)
  then show o: "fd \<in> opened s" "fd \<notin> stage_fd ph" using i(6) by auto
  then show "m_sockfd (users s fd) = int fd" "conn_type (users s fd)" "epoll s fd = Some None" "fd < MAX_FD" using i(4) [of fd] h by (auto simp: conn_ok_def)
  let ?ws = "(workers s)[w := (workers s ! w)\<lparr>todo := []\<rparr>]"
  have c: "mset (concat (map in_hand (workers s))) = add_mset fd (mset (concat (map in_hand ?ws)))"
    using mset_update [OF assms(2), of in_hand "(workers s ! w)\<lparr>todo := []\<rparr>"] assms(3) by (simp add: in_hand_def)
  have m: "mset (held evs s) = add_mset fd (mset (events_fds evs @ work s @ concat (map in_hand ?ws) @ dropped s))"
    by (simp only: held_def mset_append c union_mset_add_mset_left union_mset_add_mset_right)
  note l = held_left(2) [OF m i(5)]
  then show "fd \<notin> set (events_fds evs)" "fd \<notin> set (work s)" by auto
  fix v assume v: "v < length (workers s)" "v \<noteq> w"
  then have "in_hand (workers s ! v) \<in> set (map in_hand ?ws)" using nth_mem [of v "map in_hand ?ws"] by simp
  then show "fd \<notin> set (in_hand (workers s ! v))" using l by auto
qed

text \<open>A worker that goes on with its connection, or is done with it.\<close>

lemma worker_moves:
  assumes inv: "inv_at ph evs s" and w: "w < length (workers s)" "in_hand (workers s ! w) = [fd]" and o: "others_same fd s s'"
    and s': "workers s' = (workers s)[w := t]" "work s' = work s" "dropped s' = dropped s" "main s' = main s" "opened s' = opened s" "user_count s' = user_count s"
    and t: "worker_ok s' t" "in_hand t = [fd] \<or> in_hand t = []"
    and own: "fd < MAX_FD" "m_sockfd (users s' fd) = int fd" "conn_type (users s' fd)" "in_hand t = [fd] \<Longrightarrow> epoll s' fd = Some None"
      "in_hand t = [] \<Longrightarrow> epoll s' fd = Some (Some EPOLLIN) \<and> m_write_idx (users s' fd) = 0 \<or> epoll s' fd = Some (Some EPOLLOUT)"
  shows "inv_at ph evs s'"
proof (rule update_one [OF inv o])
  note i = inv_atD [OF inv] and q = worker_hold [OF inv w]
  note c = mset_update [OF w(1), of in_hand t, folded s'(1), unfolded w(2)]
  have h: "distinct (held evs s') \<and> set (held evs s') = (if in_hand t = [] then set (held evs s) - {fd} else set (held evs s))"
  proof (cases "in_hand t = []")
    case True
    then have "mset (concat (map in_hand (workers s))) = add_mset fd (mset (concat (map in_hand (workers s'))))" using c by simp
    then have "mset (held evs s) = add_mset fd (mset (held evs s'))"
      by (simp only: held_def s' mset_append union_mset_add_mset_left union_mset_add_mset_right)
    then show ?thesis using held_left [OF _ i(5)] True by auto
  next
    case False
    then have "mset (concat (map in_hand (workers s'))) = mset (concat (map in_hand (workers s)))" using c t(2) by simp
    then have m: "mset (held evs s) = mset (held evs s')" by (simp only: held_def s' mset_append)
    show ?thesis using held_moved [OF m i(5)] False by simp
  qed
  then show "distinct (held evs s')" "set (held evs s') - {fd} = set (held evs s) - {fd}" by (auto split: if_splits)
  show "conn_ok (set (held evs s')) s' fd" using h own t(2) q(1) by (auto simp: conn_ok_def)
  show "\<forall>e\<in>set evs. event_ready s' e" by (rule events_others [OF o _ q(8)]) (use i(7) in simp)
  show "\<forall>x\<in>set (work s'). m_write_idx (users s' x) = 0" using i(8) q(9) o s'(2) by (simp add: others_same_def) metis
  have old: "worker_ok s' (workers s ! v)" if v: "v < length (workers s)" "v \<noteq> w" for v
    using workers_others [OF o, of "[workers s ! v]"] i(9) [OF nth_mem [OF v(1)]] q(10) [OF v] by simp
  show "\<forall>x\<in>set (workers s'). worker_ok s' x"
  proof
    fix x assume "x \<in> set (workers s')"
    then obtain v where "v < length (workers s)" "x = (if v = w then t else workers s ! v)" unfolding s'(1) by (auto simp: in_set_conv_nth nth_list_update)
    then show "worker_ok s' x" using old t(1) by simp
  qed
  show "stage_ok ph s'"
  proof (cases "stage_fd ph = {}")
    case False
    then obtain x where x: "stage_fd ph = {x}" "x \<noteq> fd" using q(3) by (cases ph) auto
    then have "users s' x = users s x" "epoll s' x = epoll s x" "x \<in> dom (epoll s') \<longleftrightarrow> x \<in> dom (epoll s)" using o by (auto simp: others_same_def domIff)
    then show ?thesis using i(10) x(1) by (cases ph) (simp_all add: s' split: if_splits)
  qed (use i(10) s' in \<open>cases ph; simp\<close>)
  show "todo (main s') = prog ph @ map Dispatch evs" using i(1) s' by simp
  show "fd \<in> set (held evs s') \<Longrightarrow> fd \<in> opened s' \<and> fd \<notin> stage_fd ph" using q(2,3) s' by simp
  show "fd \<in> dom (epoll s') \<Longrightarrow> fd \<in> opened s'" using q(2) s' by simp
qed simp

lemma process_inv:
  assumes inv: "inv_at ph evs s" and w: "w < length (workers s)" and t: "todo (workers s ! w) = Process fd # is" and "no_empty_file fs"
    and x: "exec fs (Process fd) (loaded (workers s ! w)) s = (js, l, s')"
  shows "server_inv (s'\<lparr>workers := (workers s)[w := \<lparr>todo = js @ is, loaded = l\<rparr>]\<rparr>)"
proof -
  have ok: "is = []" "m_write_idx (users s fd) = 0" using inv_atD(9) [OF inv nth_mem [OF w]] t by (auto simp: worker_ok_def)
  have hand: "in_hand (workers s ! w) = [fd]" using t ok by (simp add: in_hand_def)
  note q = worker_hold [OF inv w hand]
  show ?thesis
  proof (cases "process_read fs (users s fd)")
    case None
    then show ?thesis using x by (auto simp: server_inv_def)
  next
    case (Some y)
    then obtain ret c where c: "process_read fs (users s fd) = Some (ret, c)" by (cases y) auto
    then have k: "conn_type c" "m_sockfd c = int fd" "m_write_idx c = 0" "answerable ret c"
      using process_read_type [of fs LINE_OK "users s fd"] process_read_answerable [OF assms(4), of LINE_OK "users s fd"] q(4,5) ok(2)
      by (auto simp: ensures_def process_read_def keeps_type_def kept_def)
    have done_: "\<exists>c' ev. s' = put_user fd c' s \<and> js = [Mod_fd fd ev] \<and> conn_type c' \<and> m_sockfd c' = int fd \<and> (ev = EPOLLIN \<longrightarrow> m_write_idx c' = 0)"
    proof (cases "ret = NO_REQUEST")
      case True
      then show ?thesis using x c k by auto
    next
      case False
      then obtain c' where "process_write ret c = Some (True, c')" "conn_type c'" "m_sockfd c' = m_sockfd c" using process_write_answers [OF k(4) _ k(1,3)] by blast
      then show ?thesis using x c k False by auto
    qed
    then obtain c' ev where s': "s' = put_user fd c' s" "js = [Mod_fd fd ev]" "conn_type c'" "m_sockfd c' = int fd" "ev = EPOLLIN \<longrightarrow> m_write_idx c' = 0" by blast
    let ?s = "s'\<lparr>workers := (workers s)[w := \<lparr>todo = [Mod_fd fd ev], loaded = l\<rparr>]\<rparr>"
    have "inv_at ph evs ?s"
      by (rule worker_moves [OF inv w hand, of _ "\<lparr>todo = [Mod_fd fd ev], loaded = l\<rparr>"])
        (use s' q in \<open>simp_all add: others_same_def worker_ok_def in_hand_def\<close>)
    then show ?thesis using s'(2) ok(1) server_invI by simp
  qed
qed

lemma modfd_inv:
  assumes inv: "inv_at ph evs s" and w: "w < length (workers s)" and t: "todo (workers s ! w) = Mod_fd fd ev # is"
    and x: "exec fs (Mod_fd fd ev) (loaded (workers s ! w)) s = (js, l, s')"
  shows "server_inv (s'\<lparr>workers := (workers s)[w := \<lparr>todo = js @ is, loaded = l\<rparr>]\<rparr>)"
proof -
  have ok: "is = []" "ev = EPOLLIN \<longrightarrow> m_write_idx (users s fd) = 0" using inv_atD(9) [OF inv nth_mem [OF w]] t by (auto simp: worker_ok_def)
  have hand: "in_hand (workers s ! w) = [fd]" using t ok by (simp add: in_hand_def)
  note q = worker_hold [OF inv w hand]
  have s': "js = []" "s' = epoll_mod (int fd) ev s" using x q(4) by auto
  have e: "epoll s' = (epoll s)(fd \<mapsto> Some ev)" using epoll_mod_epoll [OF q(6)] s'(2) by simp
  let ?s = "s'\<lparr>workers := (workers s)[w := \<lparr>todo = [], loaded = l\<rparr>]\<rparr>"
  have "inv_at ph evs ?s"
    by (rule worker_moves [OF inv w hand, of _ "\<lparr>todo = [], loaded = l\<rparr>"])
      (use s'(2) e q ok(2) in \<open>cases ev; simp add: others_same_def worker_ok_def in_hand_def\<close>)+
  then show ?thesis using s'(1) ok(1) server_invI by simp
qed

lemma take_inv:
  assumes inv: "inv_at ph evs s" and "work s = fd # fds" and w: "w < length (workers s)" and t: "todo (workers s ! w) = []"
  shows "inv_at ph evs (s\<lparr>work := fds, workers := (workers s)[w := (workers s ! w)\<lparr>todo := [Process fd]\<rparr>]\<rparr>)"
proof -
  note i = inv_atD [OF inv]
  let ?t = "(workers s ! w)\<lparr>todo := [Process fd]\<rparr>"
  let ?s = "s\<lparr>work := fds, workers := (workers s)[w := ?t]\<rparr>"
  have f: "work ?s = fds" "workers ?s = (workers s)[w := ?t]" "dropped ?s = dropped s" by simp_all
  have e: "event_ready ?s e = event_ready s e" "stage_ok ph ?s = stage_ok ph s" for e by (cases e, simp_all) (cases ph, simp_all)
  have "mset (concat (map in_hand ((workers s)[w := ?t]))) = add_mset fd (mset (concat (map in_hand (workers s))))"
    using mset_update [OF w, of in_hand ?t] t by (simp add: in_hand_def)
  then have m: "mset (held evs s) = mset (held evs ?s)"
    by (simp only: held_def assms(2) f mset_append mset.simps union_mset_add_mset_left union_mset_add_mset_right)
  have h: "distinct (held evs ?s)" "set (held evs ?s) = set (held evs s)" using held_moved [OF m i(5)] by blast+
  have fd: "fd \<in> set (work s)" "fd \<in> set (held evs s)" using assms(2) by (simp_all add: held_def)
  have wk: "worker_ok ?s x" if "x \<in> set ((workers s)[w := ?t])" for x
  proof -
    have "x = ?t \<or> x \<in> set (workers s)" using that set_update_subset_insert [of "workers s" w ?t] by auto
    then show ?thesis using i(8) [OF fd(1)] i(9) [of x] by (auto simp: worker_ok_def)
  qed
  show ?thesis
    by (rule update_one [OF inv, of fd]) (use h i(1,3,4,6,7,8,10) fd wk e assms(2) in \<open>auto simp: others_same_def conn_ok_def\<close>)
qed

lemma main_inv:
  assumes inv: "inv_at ph evs s" and "todo (main s) = i # is" and "\<forall>e. i \<noteq> Dispatch e" and "exec fs i (loaded (main s)) s = (js, l, s')"
  shows "server_inv (s'\<lparr>main := \<lparr>todo = js @ is, loaded = l\<rparr>\<rparr>)"
proof -
  note d = inv_atD(1,10) [OF inv]
  have "prog ph \<noteq> []" using d(1) assms(2,3) by (cases evs) auto
  then obtain js' where p: "prog ph = i # js'" "is = js' @ map Dispatch evs" using d(1) assms(2) by (cases "prog ph") auto
  show ?thesis
  proof (cases ph)
    case (Admitting fd)
    then show ?thesis using admit_inv [of fd evs s fs] inv assms(4) p by auto
  next
    case (Opening fd k)
    show ?thesis using opening_inv [OF inv [unfolded Opening] p(1) [unfolded Opening] assms(4)] p(2) by simp
  next
    case (Closing fd k)
    show ?thesis using closing_inv [OF inv [unfolded Closing] p(1) [unfolded Closing] assms(4)] p(2) by simp
  qed (use p in simp)
qed

lemma worker_inv:
  assumes inv: "inv_at ph evs s" and w: "w < length (workers s)" and t: "todo (workers s ! w) = i # is" and "no_empty_file fs"
    and x: "exec fs i (loaded (workers s ! w)) s = (js, l, s')"
  shows "server_inv (s'\<lparr>workers := (workers s)[w := \<lparr>todo = js @ is, loaded = l\<rparr>]\<rparr>)"
proof -
  have "(\<exists>fd. i = Process fd) \<or> (\<exists>fd ev. i = Mod_fd fd ev)" using inv_atD(9) [OF inv nth_mem [OF w]] t by (auto simp: worker_ok_def)
  then show ?thesis using process_inv [OF inv w] modfd_inv [OF inv w] t assms(4) x by blast
qed

lemma server_step_inv:
  assumes "server_step fs s s'" and "server_inv s" and "no_empty_file fs"
  shows "server_inv s'"
proof -
  have "fault s = None" using assms(1) by cases auto
  then obtain ph evs where inv: "inv_at ph evs s" using assms(2) by (auto simp: server_inv_def)
  show ?thesis
    using assms(1)
  proof cases
    case (wait es)
    then show ?thesis using wait_inv [OF inv] server_invI by blast
  next
    case (accept_error "is")
    then show ?thesis using dispatch_between [OF inv] accept_error_inv server_invI by metis
  next
    case (accept "is" fd)
    then show ?thesis using dispatch_between [OF inv] accept_inv server_invI by metis
  next
    case (hangup fd "is")
    obtain es where es: "inv_at Between (Hangup fd # es) s" "is = map Dispatch es" using dispatch_between [OF inv hangup(3)] by blast
    have "m_sockfd (users s fd) = int fd" using pending_event(3) [OF es(1)] by simp
    then have "inv_at (Closing fd 0) es (set_main (Close_conn fd # is) s)"
      by (intro close_inv [OF es(1)]) (simp_all add: others_same_def es(2))
    then show ?thesis using hangup server_invI by blast
  next
    case (epollin fd "is" rs)
    then show ?thesis using dispatch_between [OF inv epollin(2)] epollin_inv by metis
  next
    case (epollout fd "is" rs)
    then show ?thesis using dispatch_between [OF inv epollout(3)] epollout_inv by metis
  next
    case (main_step i "is" js l s1)
    then show ?thesis using main_inv [OF inv] by blast
  next
    case (take_work fd fds w)
    then show ?thesis using take_inv [OF inv] server_invI by blast
  next
    case (worker_step w i "is" js l s1)
    then show ?thesis using worker_inv [OF inv] assms(3) by blast
  qed
qed

lemma server_reach_inv:
  assumes "server_reach fs n s" and "no_empty_file fs"
  shows "server_inv s"
  using assms(1)
proof induction
  case (start us)
  have "inv_at Between [] (server_new us n)"
    by (auto simp: inv_at_def server_new_def held_def events_fds_def in_hand_def worker_ok_def)
  then show ?case by (rule server_invI)
qed (use server_step_inv assms(2) in blast)

section \<open>Property\<close>

lemma in_hand_main: "inv_at ph evs s \<Longrightarrow> set (in_hand (main s)) \<subseteq> stage_fd ph \<union> set (events_fds evs)"
proof -
  assume inv: "inv_at ph evs s"
  have "set (concat (map instr_fds (prog ph))) \<subseteq> stage_fd ph"
    using inv_atD(10) [OF inv] by (cases ph) (auto dest!: less_5)
  then show ?thesis using inv_atD(1) [OF inv] by (auto simp: in_hand_def events_fds_def)
qed

text \<open>
  C26: for every file system without empty files, any clients and any schedule of the main thread and the workers, in every state that
  the server reaches without undefined behaviour: the connections that are queued, with a worker or turned away by a full queue are
  all different, open and disarmed, and well typed, and the main thread is doing nothing with
  them nor has an event of them pending, so that no two threads ever work on one connection; no worker is about to close one; and whenever the main thread waits for events, the
  counter of users is the number of open connections, these are below the limit and well typed, and every one that nobody holds is armed.
\<close>

theorem server_safe:
  assumes "server_reach fs n s" and "no_empty_file fs" and "fault s = None" and "parked = work s @ concat (map in_hand (workers s)) @ dropped s"
  shows "distinct parked \<and> set parked \<inter> set (in_hand (main s)) = {} \<and>
    (\<forall>fd\<in>set parked. fd \<in> opened s \<and> fd < MAX_FD \<and> epoll s fd = Some None \<and> m_sockfd (users s fd) = int fd \<and> conn_type (users s fd)) \<and>
    (\<forall>t\<in>set (workers s). \<forall>fd. Close_conn fd \<notin> set (todo t)) \<and>
    (todo (main s) = [] \<longrightarrow> user_count s = int (card (opened s)) \<and> opened s \<subseteq> {..<MAX_FD} \<and>
      (\<forall>fd\<in>opened s. m_sockfd (users s fd) = int fd \<and> conn_type (users s fd) \<and>
        (if fd \<in> set parked then epoll s fd = Some None else \<exists>ev. epoll s fd = Some (Some ev))))"
proof -
  obtain ph evs where inv: "inv_at ph evs s" using server_reach_inv [OF assms(1,2)] assms(3) by (auto simp: server_inv_def)
  note i = inv_atD [OF inv]
  have h: "held evs s = events_fds evs @ parked" by (simp add: held_def assms(4))
  have main: "set parked \<inter> set (in_hand (main s)) = {}"
    using in_hand_main [OF inv] i(5,6) unfolding h by fastforce
  have parked: "fd \<in> opened s \<and> fd < MAX_FD \<and> epoll s fd = Some None \<and> m_sockfd (users s fd) = int fd \<and> conn_type (users s fd)" if "fd \<in> set parked" for fd
    using i(4,6) [of fd] that by (auto simp: h conn_ok_def)
  have close: "Close_conn fd \<notin> set (todo t)" if "t \<in> set (workers s)" for t fd using i(9) [OF that] by (auto simp: worker_ok_def)
  have waiting: "user_count s = int (card (opened s)) \<and> opened s \<subseteq> {..<MAX_FD} \<and>
      (\<forall>fd\<in>opened s. m_sockfd (users s fd) = int fd \<and> conn_type (users s fd) \<and>
        (if fd \<in> set parked then epoll s fd = Some None else \<exists>ev. epoll s fd = Some (Some ev)))" if "todo (main s) = []"
  proof -
    have b: "ph = Between" "evs = []" using i(1,10) that prog_Nil [OF i(10)] by auto
    have "held [] s = parked" by (simp add: held_def assms(4) events_fds_def)
    then have "conn_ok (set parked) s fd" if "fd \<in> opened s" for fd using i(4) [of fd] that b by simp
    then show ?thesis using i(10) b by (fastforce simp: conn_ok_def)
  qed
  show ?thesis using i(5) main parked close waiting by (auto simp: h)
qed

text \<open>A new connection is opened without an interruption.\<close>

definition after_open :: "nat \<Rightarrow> server \<Rightarrow> server" where
  "after_open fd s = s\<lparr>users := (users s)(fd := init ((users s fd)\<lparr>m_sockfd := int fd\<rparr>)), user_count := user_count s + 1,
     opened := insert fd (opened s), epoll := (epoll s)(fd \<mapsto> Some EPOLLIN), main := \<lparr>todo = [], loaded = user_count s\<rparr>\<rparr>"

lemma reach_main:
  "server_reach fs n s \<Longrightarrow> fault s = None \<Longrightarrow> todo (main s) = i # is \<Longrightarrow> \<forall>e. i \<noteq> Dispatch e \<Longrightarrow>
    t = (case exec fs i (loaded (main s)) s of (js, l, s') \<Rightarrow> s'\<lparr>main := \<lparr>todo = js @ is, loaded = l\<rparr>\<rparr>) \<Longrightarrow> server_reach fs n t"
  using server_reach.step server_step.main_step by (cases "exec fs i (loaded (main s)) s") fastforce

lemma reach_open:
  assumes "server_reach fs n s" and "fault s = None" and "todo (main s) = []" and "fd \<notin> opened s" and "fd < MAX_FD" and "user_count s < int MAX_FD"
  shows "server_reach fs n (after_open fd s)"
proof -
  let ?m = "\<lambda>is l. \<lparr>todo = is, loaded = l\<rparr>" and ?l = "loaded (main s)" and ?u = "users s" and ?c = "user_count s" and ?e = "epoll s"
  let ?s = "\<lambda>m u c e. s\<lparr>users := u, user_count := c, opened := insert fd (opened s), epoll := e, main := m\<rparr>"
  let ?u1 = "?u(fd := (?u fd)\<lparr>m_sockfd := int fd\<rparr>)" and ?e1 = "?e(fd \<mapsto> Some EPOLLIN)"
  have 1: "server_reach fs n (s\<lparr>main := ?m [Dispatch New] ?l\<rparr>)"
    using server_reach.step [OF assms(1) server_step.wait [OF assms(2,3), of "[New]"]] by (cases "main s") (simp add: deliver_events_def set_main_def events_fds_def)
  have 2: "server_reach fs n (?s (?m [Admit fd] ?l) ?u ?c ?e)"
    using server_reach.step [OF 1 server_step.accept [of "s\<lparr>main := ?m [Dispatch New] ?l\<rparr>" "[]" fd]] assms(2,4) by (simp add: set_main_def)
  have 3: "server_reach fs n (?s (?m [Set_sockfd fd (int fd), Add_fd fd, Load_count, Store_count 1, Init fd] ?l) ?u ?c ?e)"
    by (rule reach_main [OF 2]) (use assms in \<open>simp\<close>)+
  have 4: "server_reach fs n (?s (?m [Add_fd fd, Load_count, Store_count 1, Init fd] ?l) ?u1 ?c ?e)"
    by (rule reach_main [OF 3]) (simp add: assms put_user_def)+
  have 5: "server_reach fs n (?s (?m [Load_count, Store_count 1, Init fd] ?l) ?u1 ?c ?e1)"
    by (rule reach_main [OF 4]) (simp add: assms put_user_def)+
  have 6: "server_reach fs n (?s (?m [Store_count 1, Init fd] ?c) ?u1 ?c ?e1)"
    by (rule reach_main [OF 5]) (simp add: assms put_user_def)+
  have 7: "server_reach fs n (?s (?m [Init fd] ?c) ?u1 (?c + 1) ?e1)"
    by (rule reach_main [OF 6]) (simp add: assms put_user_def)+
  have "server_reach fs n (?s (?m [] ?c) (?u1(fd := init (?u1 fd))) (?c + 1) ?e1)"
    by (rule reach_main [OF 7]) (simp add: assms put_user_def)+
  then show ?thesis by (simp add: after_open_def)
qed

theorem server_safe_witness:
  "let s = after_open 5 (server_new (\<lambda>_. fresh_conn) 8) in server_reach (\<lambda>_. None) 8 s \<and> fault s = None \<and> todo (main s) = [] \<and> opened s = {5} \<and>
    user_count s = int (card (opened s)) \<and> m_sockfd (users s 5) = 5 \<and> conn_type (users s 5) \<and> (\<exists>ev. epoll s 5 = Some (Some ev))"
proof -
  let ?s = "after_open 5 (server_new (\<lambda>_. fresh_conn) 8)"
  have r: "server_reach (\<lambda>_. None) 8 ?s"
    by (rule reach_open [OF server_reach.start]) (simp_all add: server_new_def MAX_FD_def)
  have s: "fault ?s = None" "todo (main ?s) = []" "opened ?s = {5}" "no_empty_file (\<lambda>_. None)" "work ?s @ concat (map in_hand (workers ?s)) @ dropped ?s = []"
    by (simp_all add: after_open_def server_new_def no_empty_file_def in_hand_def)
  show ?thesis
    using server_safe [OF r s(4,1) refl] r s by (simp only: Let_def) auto
qed

section \<open>A worker that closes a connection\<close>

text \<open>
  For an empty file \<^verbatim>\<open>process_write\<close> fails, and the worker closes the connection. When the main thread accepts a new client between the
  \<^verbatim>\<open>close\<close> and the assignment of \<^verbatim>\<open>m_sockfd\<close>, it gets the same descriptor, and the worker takes it away from the new connection, which
  stays open and armed without a descriptor: it can never be closed.
\<close>

lemma reach_worker:
  "server_reach fs n s \<Longrightarrow> fault s = None \<Longrightarrow> w < length (workers s) \<Longrightarrow> todo (workers s ! w) = i # is \<Longrightarrow>
    t = (case exec fs i (loaded (workers s ! w)) s of (js, l, s') \<Rightarrow> s'\<lparr>workers := (workers s)[w := \<lparr>todo = js @ is, loaded = l\<rparr>]\<rparr>) \<Longrightarrow> server_reach fs n t"
  using server_reach.step server_step.worker_step by (cases "exec fs i (loaded (workers s ! w)) s") fastforce

lemma close_race:
  assumes r: "server_reach fs n s" and "fault s = None" and "todo (main s) = []" and w: "w < length (workers s)" "todo (workers s ! w) = Close_conn fd # is"
    and "m_sockfd (users s fd) = int fd" and "fd < MAX_FD" and "user_count s < int MAX_FD"
  shows "\<exists>s'. server_reach fs n s' \<and> fault s' = None \<and> todo (main s') = [] \<and> fd \<in> opened s' \<and> epoll s' fd = Some (Some EPOLLIN) \<and> m_sockfd (users s' fd) = - 1"
proof -
  let ?l = "loaded (workers s ! w)"
  let ?ws = "\<lambda>js. (workers s)[w := \<lparr>todo = js @ is, loaded = ?l\<rparr>]"
  have 1: "server_reach fs n (s\<lparr>workers := ?ws [Remove_fd fd, Set_sockfd fd (- 1), Load_count, Store_count (- 1)]\<rparr>)"
    by (rule reach_worker [OF r assms(2) w]) (simp add: assms)
  let ?s2 = "s\<lparr>epoll := (epoll s)(fd := None), opened := opened s - {fd}, workers := ?ws [Set_sockfd fd (- 1), Load_count, Store_count (- 1)]\<rparr>"
  have 2: "server_reach fs n ?s2"
    by (rule reach_worker [OF 1, of w]) (simp add: assms removefd_def)+
  have 3: "server_reach fs n (after_open fd ?s2)"
    by (rule reach_open [OF 2]) (use assms in simp_all)
  let ?s4 = "put_user fd ((users (after_open fd ?s2) fd)\<lparr>m_sockfd := - 1\<rparr>) (after_open fd ?s2)\<lparr>workers := ?ws [Load_count, Store_count (- 1)]\<rparr>"
  have "server_reach fs n ?s4"
    by (rule reach_worker [OF 3, of w]) (simp add: assms after_open_def put_user_def)+
  then show ?thesis by (rule exI [of _ ?s4, OF conjI]) (simp add: after_open_def assms)
qed

definition empty_file :: served_file where
  "empty_file = \<lparr>file_meta = \<lparr>st_size = 0, read_by_others = True, is_dir = False\<rparr>, file_data = Some []\<rparr>"

lemma empty_file_refused:
  assumes "m_write_idx c = 0" and "conn_type c" and "st_size (m_file_stat c) = 0"
  shows "\<exists>c'. process_write FILE_REQUEST c = Some (False, c') \<and> m_sockfd c' = m_sockfd c"
proof -
  have "room 300 c" using assms(1,2) by (simp add: room_def conn_type_def WRITE_BUFFER_SIZE_def)
  then have "room (78 + length ok_200_title + length ok_string) c" by (simp add: room_def page_texts ok_string_def)
  then obtain s1 s2 where 1: "add_status_line 200 ok_200_title c = Some (True, s1)" "add_headers (int (length ok_string)) s1 = Some s2"
      "wrote (status_text 200 ok_200_title) c s1" "wrote (status_text 200 ok_200_title @ header_text (int (length ok_string)) (m_linger c)) c s2"
    using add_head_ok [of 200 "int (length ok_string)" ok_200_title c] by (auto simp: in_int_def INT_MIN_def INT_MAX_def ok_string_def room_def)
  have "length (m_write_buf s2) = WRITE_BUFFER_SIZE" "m_write_idx s2 \<le> 200"
    using 1(4) assms(1) length_texts(1) [of 200 ok_200_title] length_texts(2) [of "int (length ok_string)" "m_linger c"]
    by (auto simp: wrote_def in_int_def INT_MIN_def INT_MAX_def page_texts ok_string_def)
  then have "room (length ok_string) s2" by (simp add: room_def WRITE_BUFFER_SIZE_def ok_string_def)
  then obtain s3 where 3: "add_content ok_string s2 = Some (True, s3)" using add_response_ok by (auto simp: add_content_def)
  have "m_file_stat s1 = m_file_stat c" using 1(3) by (auto simp: wrote_def)
  then have p: "process_write FILE_REQUEST c = Some (False, s3)" using 1 3 assms(3) by (simp add: process_write_def)
  then show ?thesis using process_write_type [of FILE_REQUEST c] by (auto simp: ensures_def keeps_sock_def)
qed

lemma empty_file_request:
  assumes "cinv Req c" and "conn_pending c = []" and "m_read_idx c = 0" and "m_write_idx c = 0" and "conn_type c"
  shows "\<exists>c1 c2 c3. conn_read [Data (request_text ''/'' [])] c = Some (True, c1) \<and> process_read (\<lambda>_. Some empty_file) c1 = Some (FILE_REQUEST, c2) \<and>
    process_write FILE_REQUEST c2 = Some (False, c3) \<and> m_sockfd c1 = m_sockfd c \<and> m_sockfd c3 = m_sockfd c"
proof -
  let ?r = "request_text ''/'' []" and ?fs = "\<lambda>_ :: string. Some empty_file"
  have r: "?r \<noteq> []" "length ?r \<le> READ_BUFFER_SIZE" by (simp_all add: request_text_def request_line_def READ_BUFFER_SIZE_def)
  obtain c1 where 1: "conn_read [Data ?r] c = Some (True, c1)" "cinv Req c1" "kept c1 c" "conn_pending c1 = ?r"
    using conn_read_ok [OF assms(1), of "[?r]"] r assms(2,3) by auto
  have "conn_scan Req ?r = Find ''/'' False"
    using request_scan(1) [of "''/''" "[]"] by (simp add: path_ok_def plain_def blank_def announced_def)
  then obtain c2 where 2: "process_read ?fs c1 = Some (FILE_REQUEST, c2)" "kept c2 c1" "m_file_stat c2 = file_meta empty_file"
    using process_read_ok [OF 1(2), of ?fs] 1(4) by (auto simp: read_result_def process_read_def file_code_def empty_file_def)
  have "conn_type c1" using conn_read_type [of "[Data ?r]" c] 1(1) assms(5) by (auto simp: ensures_def keeps_type_def)
  then have "conn_type c2" using process_read_type [of ?fs LINE_OK c1] 2(1) by (auto simp: ensures_def keeps_type_def process_read_def)
  then obtain c3 where "process_write FILE_REQUEST c2 = Some (False, c3)" "m_sockfd c3 = m_sockfd c2"
    using empty_file_refused [of c2] 1(3) 2(2,3) assms(4) by (auto simp: kept_def empty_file_def)
  then show ?thesis using 1 2 by (auto simp: kept_def)
qed

lemma empty_file_race:
  "\<exists>s. server_reach (\<lambda>_. Some empty_file) 1 s \<and> fault s = None \<and> todo (main s) = [] \<and> 5 \<in> opened s \<and> epoll s 5 = Some (Some EPOLLIN) \<and> m_sockfd (users s 5) = - 1"
proof -
  let ?fs = "\<lambda>_ :: string. Some empty_file" and ?n = "server_new (\<lambda>_. fresh_conn) 1" and ?idle = "\<lparr>todo = [], loaded = 0\<rparr>"
  define s1 where "s1 = after_open 5 ?n"
  have r1: "server_reach ?fs 1 s1"
    unfolding s1_def by (rule reach_open [OF server_reach.start]) (simp_all add: server_new_def MAX_FD_def)
  have s1: "fault s1 = None" "main s1 = ?idle" "work s1 = []" "workers s1 = [?idle]" "epoll s1 5 = Some (Some EPOLLIN)" "user_count s1 = 1"
    "users s1 5 = init (fresh_conn\<lparr>m_sockfd := 5\<rparr>)"
    by (simp_all add: s1_def after_open_def server_new_def)
  have c: "cinv Req (users s1 5)" "conn_pending (users s1 5) = []" "m_read_idx (users s1 5) = 0" "m_write_idx (users s1 5) = 0" "m_sockfd (users s1 5) = 5"
    by (simp_all add: s1(7) cinv_def init_def line_inv_def conn_pending_def FILENAME_LEN_def)
  have ct: "conn_type (users s1 5)" by (simp add: s1(7) conn_type_init)
  obtain c1 c2 c3 where 1: "conn_read [Data (request_text ''/'' [])] (users s1 5) = Some (True, c1)" "process_read ?fs c1 = Some (FILE_REQUEST, c2)"
      "process_write FILE_REQUEST c2 = Some (False, c3)" "m_sockfd c1 = 5" "m_sockfd c3 = 5"
    using empty_file_request [OF c(1-4) ct] c(5) by auto
  let ?s2 = "s1\<lparr>epoll := (epoll s1)(5 \<mapsto> None), main := \<lparr>todo = [Dispatch (Readable 5)], loaded = 0\<rparr>\<rparr>"
  have "deliver_events [Readable 5] s1 = ?s2"
    by (auto simp: deliver_events_def set_main_def events_fds_def s1(2) fun_eq_iff)
  then have r2: "server_reach ?fs 1 ?s2"
    using server_reach.step [OF r1 server_step.wait [of s1 "[Readable 5]"]] s1 by (simp add: events_fds_def)
  let ?s3 = "s1\<lparr>epoll := (epoll s1)(5 \<mapsto> None), main := ?idle, users := (users s1)(5 := c1), work := [5]\<rparr>"
  have "on_epollin 5 [Data (request_text ''/'' [])] [] ?s2 = Some ?s3"
    using 1(1) s1(3) by (simp add: on_epollin_def append_work_def set_main_def put_user_def)
  then have r3: "server_reach ?fs 1 ?s3"
    using server_reach.step [OF r2 server_step.epollin [of ?s2 5 "[]" "[Data (request_text ''/'' [])]" ?s3]] s1(1) by simp
  let ?s4 = "?s3\<lparr>work := [], workers := [\<lparr>todo = [Process 5], loaded = 0\<rparr>]\<rparr>"
  have r4: "server_reach ?fs 1 ?s4"
    using server_reach.step [OF r3 server_step.take_work [of ?s3 5 "[]" 0]] s1(1,4) by simp
  let ?s5 = "put_user 5 c3 ?s4\<lparr>workers := [\<lparr>todo = [Close_conn 5, Mod_fd 5 EPOLLOUT], loaded = 0\<rparr>]\<rparr>"
  have r5: "server_reach ?fs 1 ?s5"
    by (rule reach_worker [OF r4, of 0]) (simp add: 1 s1(1) put_user_def)+
  show ?thesis
    by (rule close_race [OF r5, of 0 5 "[Mod_fd 5 EPOLLOUT]"]) (simp_all add: s1 1(5) MAX_FD_def)
qed

end
