(* ===== verification/Dijkstra.thy ===== *)
theory Dijkstra
  imports C_Prelude
begin

text \<open>
  Shortest paths in \<^verbatim>\<open>data_struct/graphics/dijkstra.cpp\<close>: the global arrays, the algorithm
  and the main program. A missing edge has the weight \<open>MAX_DIST\<close>, so that the matrix is that of a
  complete graph. \<open>None\<close> is an access outside an array or a signed overflow.
\<close>

section \<open>The program\<close>

definition MAX_DIST :: int where "MAX_DIST = 9999999"

definition LEN :: nat where "LEN = 210"

record dij =
  map_arr :: "int list list"
  dist :: "int list"
  mark :: "int list"

text \<open>A loop over the values of its counter.\<close>

primrec for_each :: "'a list \<Rightarrow> ('a \<Rightarrow> 's \<Rightarrow> 's option) \<Rightarrow> 's \<Rightarrow> 's option" where
  "for_each [] f s = Some s"
| "for_each (x # xs) f s = do { s \<leftarrow> f x s; for_each xs f s }"

definition aget2 :: "'a list list \<Rightarrow> nat \<Rightarrow> nat \<Rightarrow> 'a option" where
  "aget2 m i j = do { row \<leftarrow> aget m i; aget row j }"

definition aput2 :: "'a list list \<Rightarrow> nat \<Rightarrow> nat \<Rightarrow> 'a \<Rightarrow> 'a list list option" where
  "aput2 m i j v = do { row \<leftarrow> aget m i; row \<leftarrow> aput row j v; aput m i row }"

definition init_cell :: "nat \<Rightarrow> nat \<Rightarrow> dij \<Rightarrow> dij option" where
  "init_cell i j s = do { m \<leftarrow> aput2 (map_arr s) i j MAX_DIST; Some (s\<lparr>map_arr := m\<rparr>) }"

definition init :: "dij \<Rightarrow> dij option" where
  "init s = for_each [0..<LEN] (\<lambda>i. for_each [0..<LEN] (init_cell i)) s"

definition start_cell :: "nat \<Rightarrow> nat \<Rightarrow> dij \<Rightarrow> dij option" where
  "start_cell start i s = do {
     mk \<leftarrow> aput (mark s) i 0;
     w \<leftarrow> aget2 (map_arr s) start i;
     d \<leftarrow> aput (dist s) i w;
     Some (s\<lparr>mark := mk, dist := d\<rparr>) }"

text \<open>The vertex nearest to the start among those without a mark; \<open>pos\<close> is not set before.\<close>

definition nearer :: "dij \<Rightarrow> nat \<Rightarrow> int \<times> nat option \<Rightarrow> (int \<times> nat option) option" where
  "nearer s j mp = do {
     m \<leftarrow> aget (mark s) j;
     d \<leftarrow> aget (dist s) j;
     Some (if m = 0 \<and> d < fst mp then (d, Some j) else mp) }"

definition relax :: "nat \<Rightarrow> nat \<Rightarrow> dij \<Rightarrow> dij option" where
  "relax pos j s = do {
     m \<leftarrow> aget (mark s) j;
     (if m \<noteq> 0 then Some s
      else do {
        d \<leftarrow> aget (dist s) j;
        dp \<leftarrow> aget (dist s) pos;
        w \<leftarrow> aget2 (map_arr s) pos j;
        v \<leftarrow> c_int (dp + w);
        (if d > v then do { ds \<leftarrow> aput (dist s) j v; Some (s\<lparr>dist := ds\<rparr>) } else Some s) }) }"

fun rounds :: "nat \<Rightarrow> nat list \<Rightarrow> dij \<Rightarrow> dij option" where
  "rounds n [] s = Some s"
| "rounds n (i # ks) s = do {
     (min, pos) \<leftarrow> for_each [1..<n + 1] (nearer s) (MAX_DIST, None);
     (if min = MAX_DIST then Some s
      else do {
        p \<leftarrow> pos;
        mk \<leftarrow> aput (mark s) p 1;
        s \<leftarrow> for_each [1..<n + 1] (relax p) (s\<lparr>mark := mk\<rparr>);
        rounds n ks s }) }"

definition myDijstra :: "nat \<Rightarrow> nat \<Rightarrow> dij \<Rightarrow> dij option" where
  "myDijstra n start s = do {
     s \<leftarrow> for_each [1..<n + 1] (start_cell start) s;
     mk \<leftarrow> aput (mark s) start 1;
     d \<leftarrow> aput (dist s) start 0;
     rounds n [1..<n + 1] (s\<lparr>mark := mk, dist := d\<rparr>) }"

definition add_edge :: "nat \<times> nat \<times> int \<Rightarrow> dij \<Rightarrow> dij option" where
  "add_edge e s = (case e of (a, b, d) \<Rightarrow> do {
     w \<leftarrow> aget2 (map_arr s) a b;
     (if w > d then do {
        m \<leftarrow> aput2 (map_arr s) b a d;
        m \<leftarrow> aput2 m a b d;
        Some (s\<lparr>map_arr := m\<rparr>) }
      else Some s) })"

text \<open>The arrays of the program, which C++ sets to 0.\<close>

definition zeros :: dij where
  "zeros = \<lparr>map_arr = replicate LEN (replicate LEN 0), dist = replicate LEN 0, mark = replicate LEN 0\<rparr>"

text \<open>The main program on its input, the number of vertices and the edges; it prints \<open>dist[5]\<close>.\<close>

definition read_graph :: "(nat \<times> nat \<times> int) list \<Rightarrow> dij option" where
  "read_graph edges = do { s \<leftarrow> init zeros; for_each edges add_edge s }"

definition dijkstra_main :: "nat \<Rightarrow> (nat \<times> nat \<times> int) list \<Rightarrow> int option" where
  "dijkstra_main n edges = do {
     s \<leftarrow> read_graph edges;
     s \<leftarrow> myDijstra n 1 s;
     aget (dist s) 5 }"

section \<open>The specification\<close>

text \<open>Walks in the complete graph on \<open>1..n\<close> with the weights \<open>w\<close>, with their length.\<close>

inductive walk :: "nat \<Rightarrow> (nat \<Rightarrow> nat \<Rightarrow> int) \<Rightarrow> nat \<Rightarrow> nat \<Rightarrow> int \<Rightarrow> bool" for n w u where
  here: "walk n w u u 0"
| step: "walk n w u v d \<Longrightarrow> 1 \<le> v' \<Longrightarrow> v' \<le> n \<Longrightarrow> walk n w u v' (d + w v v')"

definition shortest :: "nat \<Rightarrow> (nat \<Rightarrow> nat \<Rightarrow> int) \<Rightarrow> nat \<Rightarrow> nat \<Rightarrow> int \<Rightarrow> bool" where
  "shortest n w u v d \<longleftrightarrow> walk n w u v d \<and> (\<forall>d'. walk n w u v d' \<longrightarrow> d \<le> d')"

definition weights :: "dij \<Rightarrow> nat \<Rightarrow> nat \<Rightarrow> int" where
  "weights s i j = map_arr s ! i ! j"

text \<open>The arrays have their sizes and the weights are those of the program.\<close>

definition dij_ok :: "dij \<Rightarrow> bool" where
  "dij_ok s \<longleftrightarrow> length (map_arr s) = LEN \<and> (\<forall>i < LEN. length (map_arr s ! i) = LEN) \<and> length (dist s) = LEN \<and> length (mark s) = LEN \<and>
     (\<forall>i j. i < LEN \<and> j < LEN \<longrightarrow> 0 \<le> weights s i j \<and> weights s i j \<le> MAX_DIST)"

section \<open>Loops\<close>

lemma for_each_inv:
  assumes "\<And>x s. x \<in> set xs \<Longrightarrow> I s \<Longrightarrow> \<exists>s'. f x s = Some s' \<and> I s'" and "I s"
  shows "\<exists>s'. for_each xs f s = Some s' \<and> I s'"
  using assms
proof (induction xs arbitrary: s)
  case (Cons x xs)
  then obtain s' where "f x s = Some s'" "I s'"
    by fastforce
  then show ?case
    using Cons by simp
qed simp

text \<open>An invariant that also speaks of the values already done.\<close>

lemma for_each_set:
  assumes "distinct xs" and "\<And>A x s. x \<in> set xs \<Longrightarrow> x \<notin> A \<Longrightarrow> I A s \<Longrightarrow> \<exists>s'. f x s = Some s' \<and> I (insert x A) s'" and "I {} s"
  shows "\<exists>s'. for_each xs f s = Some s' \<and> I (set xs) s'"
proof -
  have "\<exists>s'. for_each zs f s = Some s' \<and> I (A \<union> set zs) s'"
    if "distinct zs" "set zs \<subseteq> set xs" "A \<inter> set zs = {}" "I A s" for zs A s
    using that
  proof (induction zs arbitrary: A s)
    case (Cons z zs)
    then obtain s' where "f z s = Some s'" "I (insert z A) s'"
      using assms(2) [of z A s] by auto
    then show ?case
      using Cons.IH [of "insert z A" s'] Cons.prems by auto
  qed simp
  from this [of xs "{}" s] show ?thesis
    using assms(1,3) by simp
qed

section \<open>One round\<close>

definition vertex :: "nat \<Rightarrow> nat \<Rightarrow> bool" where
  "vertex n v \<longleftrightarrow> 1 \<le> v \<and> v \<le> n"

lemma vertices: "set [1..<n + 1] = {v. vertex n v}" "distinct [1..<n + 1]"
  by (auto simp: vertex_def)

lemma vertex_LEN: "vertex n v \<Longrightarrow> n < LEN \<Longrightarrow> v < LEN"
  by (simp add: vertex_def)

lemma for_vertices:
  assumes "\<And>A x s. vertex n x \<Longrightarrow> x \<notin> A \<Longrightarrow> I A s \<Longrightarrow> \<exists>s'. f x s = Some s' \<and> I (insert x A) s'" and "I {} s"
  shows "\<exists>s'. for_each [1..<n + 1] f s = Some s' \<and> I {v. vertex n v} s'"
  using for_each_set [of "[1..<n + 1]" I f s] assms unfolding vertices by (simp add: vertices(2))

lemma nearest:
  assumes "dij_ok s" and "n < LEN"
  shows "\<exists>m pos. for_each [1..<n + 1] (nearer s) (MAX_DIST, None) = Some (m, pos) \<and> m \<le> MAX_DIST \<and>
    (\<forall>v. vertex n v \<and> mark s ! v = 0 \<longrightarrow> m \<le> dist s ! v) \<and>
    (m \<noteq> MAX_DIST \<longrightarrow> (\<exists>p. pos = Some p \<and> vertex n p \<and> mark s ! p = 0 \<and> dist s ! p = m))"
proof -
  let ?I = "\<lambda>A (m, pos). m \<le> MAX_DIST \<and> (\<forall>v \<in> A. mark s ! v = 0 \<longrightarrow> m \<le> dist s ! v) \<and>
    (m \<noteq> MAX_DIST \<longrightarrow> (\<exists>p. pos = Some p \<and> vertex n p \<and> mark s ! p = 0 \<and> dist s ! p = m))"
  have "\<exists>mp'. for_each [1..<n + 1] (nearer s) (MAX_DIST, None) = Some mp' \<and> ?I {v. vertex n v} mp'"
  proof (rule for_vertices)
    fix A x and mp :: "int \<times> nat option" assume x: "vertex n x" and I: "?I A mp"
    have "x < length (mark s)" "x < length (dist s)"
      using assms vertex_LEN [OF x assms(2)] by (auto simp: dij_ok_def)
    then show "\<exists>mp'. nearer s x mp = Some mp' \<and> ?I (insert x A) mp'"
      using I x by (cases mp) (auto simp: nearer_def aget_def)
  qed simp
  then show ?thesis
    by (elim exE conjE) (auto split: prod.splits)
qed

text \<open>The distances after the relaxation along the edges from \<open>p\<close> to the vertices in \<open>A\<close>.\<close>

definition relaxed :: "dij \<Rightarrow> nat \<Rightarrow> nat set \<Rightarrow> int list \<Rightarrow> bool" where
  "relaxed s p A ds \<longleftrightarrow> length ds = LEN \<and>
     (\<forall>v. ds ! v = (if v \<in> A \<and> mark s ! v = 0 then min (dist s ! v) (dist s ! p + weights s p v) else dist s ! v))"

lemma relax_one:
  assumes "dij_ok s" and "n < LEN" and "vertex n p" and "mark s ! p \<noteq> 0" and "0 \<le> dist s ! p" and "dist s ! p \<le> MAX_DIST"
    and "vertex n x" and "x \<notin> A" and "relaxed s p A ds"
  shows "\<exists>ds'. relax p x (s\<lparr>dist := ds\<rparr>) = Some (s\<lparr>dist := ds'\<rparr>) \<and> relaxed s p (insert x A) ds'"
proof -
  let ?v = "dist s ! p + weights s p x"
  have x: "x < LEN" "p < LEN"
    using vertex_LEN assms(2,3,7) by blast+
  then have a: "aget (mark s) x = Some (mark s ! x)" "aget ds x = Some (dist s ! x)" "aget ds p = Some (dist s ! p)"
      "aget2 (map_arr s) p x = Some (weights s p x)"
    using assms(1,4,8,9) by (auto simp: aget_def aget2_def dij_ok_def weights_def relaxed_def)
  have "0 \<le> weights s p x" "weights s p x \<le> MAX_DIST"
    using assms(1) x by (auto simp: dij_ok_def)
  then have "c_int ?v = Some ?v"
    using assms(5,6) by (intro c_int_in) (simp add: in_int_def INT_MIN_def INT_MAX_def MAX_DIST_def)
  then have "relax p x (s\<lparr>dist := ds\<rparr>) = Some (s\<lparr>dist := if mark s ! x = 0 \<and> ?v < dist s ! x then ds[x := ?v] else ds\<rparr>)"
    using a x assms(9) by (simp add: relax_def aput_def relaxed_def)
  moreover have "relaxed s p (insert x A) (if mark s ! x = 0 \<and> ?v < dist s ! x then ds[x := ?v] else ds)"
    using assms(8,9) x by (auto simp: relaxed_def nth_list_update min_def)
  ultimately show ?thesis
    by blast
qed

lemma relax_all:
  assumes "dij_ok s" and "n < LEN" and "vertex n p" and "mark s ! p \<noteq> 0" and "0 \<le> dist s ! p" and "dist s ! p \<le> MAX_DIST"
  shows "\<exists>ds. for_each [1..<n + 1] (relax p) s = Some (s\<lparr>dist := ds\<rparr>) \<and> relaxed s p {v. vertex n v} ds"
proof -
  have "\<exists>s'. for_each [1..<n + 1] (relax p) s = Some s' \<and> (\<exists>ds. s' = s\<lparr>dist := ds\<rparr> \<and> relaxed s p {v. vertex n v} ds)"
  proof (rule for_vertices)
    show "\<exists>ds. s = s\<lparr>dist := ds\<rparr> \<and> relaxed s p {} ds"
      using assms(1) by (intro exI [of _ "dist s"]) (simp add: dij_ok_def relaxed_def)
  qed (use relax_one [OF assms] in blast)
  then show ?thesis
    by blast
qed

section \<open>Walks\<close>

definition nonneg :: "nat \<Rightarrow> (nat \<Rightarrow> nat \<Rightarrow> int) \<Rightarrow> bool" where
  "nonneg n w \<longleftrightarrow> (\<forall>u v. vertex n u \<and> vertex n v \<longrightarrow> 0 \<le> w u v)"

lemma walk_vertex: "walk n w u v d \<Longrightarrow> vertex n u \<Longrightarrow> vertex n v"
  by (induction rule: walk.induct) (auto simp: vertex_def)

lemma walk_nonneg: "walk n w u v d \<Longrightarrow> vertex n u \<Longrightarrow> nonneg n w \<Longrightarrow> 0 \<le> d"
proof (induction rule: walk.induct)
  case (step v d v')
  then have "vertex n v" "vertex n v'"
    using walk_vertex by (auto simp: vertex_def)
  then show ?case
    using step by (simp add: nonneg_def)
qed simp

text \<open>
  A walk that leaves a set of vertices with known distances is at least as long as the least
  estimate outside.
\<close>

lemma walk_leaves:
  assumes "walk n w u v d" and "u \<in> S" and "v \<notin> S" and "nonneg n w" and "vertex n u"
    and "\<And>x d. x \<in> S \<Longrightarrow> walk n w u x d \<Longrightarrow> f x \<le> d"
    and "\<And>x y. x \<in> S \<Longrightarrow> vertex n x \<Longrightarrow> vertex n y \<Longrightarrow> y \<notin> S \<Longrightarrow> f y \<le> f x + w x y"
  shows "\<exists>y. vertex n y \<and> y \<notin> S \<and> f y \<le> d"
  using assms(1,3)
proof (induction rule: walk.induct)
  case here
  then show ?case
    using assms(2) by blast
next
  case (step v d v')
  have v: "vertex n v" "vertex n v'"
    using walk_vertex [OF step.hyps(1) assms(5)] step.hyps by (auto simp: vertex_def)
  then have w: "0 \<le> w v v'"
    using assms(4) by (simp add: nonneg_def)
  show ?case
  proof (cases "v \<in> S")
    case True
    then have "f v' \<le> f v + w v v'" "f v \<le> d"
      using assms(6,7) v step by auto
    then show ?thesis
      using v step.prems by (intro exI [of _ v']) auto
  next
    case False
    then show ?thesis
      using step.IH w by fastforce
  qed
qed

section \<open>The algorithm\<close>

definition dinv :: "nat \<Rightarrow> nat \<Rightarrow> dij \<Rightarrow> bool" where
  "dinv n start s \<longleftrightarrow> dij_ok s \<and> mark s ! start \<noteq> 0 \<and>
     (\<forall>v. vertex n v \<longrightarrow> dist s ! v \<le> MAX_DIST \<and> walk n (weights s) start v (dist s ! v)) \<and>
     (\<forall>u v. vertex n u \<and> vertex n v \<and> mark s ! u \<noteq> 0 \<and> mark s ! v = 0 \<longrightarrow> dist s ! v \<le> dist s ! u + weights s u v) \<and>
     (\<forall>u d. vertex n u \<and> mark s ! u \<noteq> 0 \<and> walk n (weights s) start u d \<longrightarrow> dist s ! u \<le> d)"

lemma dij_nonneg: "dij_ok s \<Longrightarrow> n < LEN \<Longrightarrow> nonneg n (weights s)"
  using vertex_LEN by (auto simp: nonneg_def dij_ok_def)

text \<open>The nearest vertex without a mark has its final distance.\<close>

lemma nearest_final:
  assumes "dinv n start s" and "n < LEN" and "vertex n start" and "\<forall>v. vertex n v \<and> mark s ! v = 0 \<longrightarrow> m \<le> dist s ! v"
    and "vertex n v" and "mark s ! v = 0" and "walk n (weights s) start v d"
  shows "m \<le> d"
proof -
  let ?S = "{v. vertex n v \<and> mark s ! v \<noteq> 0}"
  have "\<exists>y. vertex n y \<and> y \<notin> ?S \<and> dist s ! y \<le> d"
    by (rule walk_leaves [OF assms(7)]) (use assms dij_nonneg [of s n] in \<open>auto simp: dinv_def\<close>)
  then show ?thesis
    using assms(4) by fastforce
qed

lemma round_ok:
  assumes "dinv n start s" and "n < LEN" and "vertex n start" and "vertex n p" and "mark s ! p = 0"
    and "\<forall>v. vertex n v \<and> mark s ! v = 0 \<longrightarrow> dist s ! p \<le> dist s ! v"
  shows "\<exists>s'. for_each [1..<n + 1] (relax p) (s\<lparr>mark := (mark s)[p := 1]\<rparr>) = Some s' \<and> dinv n start s' \<and>
    map_arr s' = map_arr s \<and> mark s' = (mark s)[p := 1]"
proof -
  let ?s = "s\<lparr>mark := (mark s)[p := 1]\<rparr>"
  have ok: "dij_ok s" "dij_ok ?s"
    using assms(1) by (auto simp: dinv_def dij_ok_def weights_def)
  have p: "p < length (mark s)"
    using ok(1) vertex_LEN [OF assms(4,2)] by (simp add: dij_ok_def)
  have w: "weights ?s = weights s"
    by (simp add: weights_def fun_eq_iff)
  have dp: "0 \<le> dist s ! p" "dist s ! p \<le> MAX_DIST" "walk n (weights s) start p (dist s ! p)"
    using assms(1,3,4) walk_nonneg dij_nonneg [OF ok(1) assms(2)] by (auto simp: dinv_def)
  obtain ds where ds: "for_each [1..<n + 1] (relax p) ?s = Some (?s\<lparr>dist := ds\<rparr>)" "relaxed ?s p {v. vertex n v} ds"
    using relax_all [OF ok(2) assms(2,4)] p dp by auto
  let ?q = "?s\<lparr>dist := ds\<rparr>"
  have mk: "mark ?q ! v \<noteq> 0 \<longleftrightarrow> v = p \<or> mark s ! v \<noteq> 0" for v
    using p by (cases "v = p") auto
  have wq: "weights ?q = weights s"
    by (simp add: weights_def fun_eq_iff)
  have val: "ds ! v = (if vertex n v \<and> v \<noteq> p \<and> mark s ! v = 0 then min (dist s ! v) (dist s ! p + weights s p v) else dist s ! v)" for v
    using ds(2) p w by (cases "v = p") (auto simp: relaxed_def)
  have "dinv n start ?q"
    unfolding dinv_def wq
  proof (intro conjI allI impI)
    show "dij_ok ?q"
      using ok(2) ds(2) by (simp add: dij_ok_def relaxed_def weights_def)
    show "mark ?q ! start \<noteq> 0"
      using mk assms(1) by (simp add: dinv_def)
  next
    fix v assume v: "vertex n v"
    then have "walk n (weights s) start v (dist s ! p + weights s p v)"
      using walk.step [OF dp(3)] by (simp add: vertex_def)
    then show "dist ?q ! v \<le> MAX_DIST" "walk n (weights s) start v (dist ?q ! v)"
      using assms(1) v by (auto simp: dinv_def val min_def)
  next
    fix u v assume "vertex n u \<and> vertex n v \<and> mark ?q ! u \<noteq> 0 \<and> mark ?q ! v = 0"
    then have "vertex n u" "vertex n v" "u = p \<or> mark s ! u \<noteq> 0" "v \<noteq> p" "mark s ! v = 0"
      using mk [of u] mk [of v] by auto
    moreover from this have "dist s ! v \<le> dist s ! u + weights s u v" if "u \<noteq> p"
      using assms(1) that by (auto simp: dinv_def)
    ultimately show "dist ?q ! v \<le> dist ?q ! u + weights s u v"
      by (cases "u = p") (auto simp: val min_def)
  next
    fix u d assume "vertex n u \<and> mark ?q ! u \<noteq> 0 \<and> walk n (weights s) start u d"
    then have u: "vertex n u" "u = p \<or> mark s ! u \<noteq> 0" "walk n (weights s) start u d"
      using mk [of u] by auto
    then show "dist ?q ! u \<le> d"
      using assms(1) nearest_final [OF assms(1-3,6) assms(4,5)] by (auto simp: dinv_def val)
  qed
  then show ?thesis
    using ds(1) by simp
qed

lemma rounds_ok:
  assumes "dinv n start s" and "n < LEN" and "vertex n start" and "card {v. vertex n v \<and> mark s ! v = 0} \<le> length ks"
  shows "\<exists>s'. rounds n ks s = Some s' \<and> map_arr s' = map_arr s \<and> dij_ok s' \<and> (\<forall>v. vertex n v \<longrightarrow> shortest n (weights s) start v (dist s' ! v))"
  using assms
proof (induction ks arbitrary: s)
  case Nil
  have "finite {v. vertex n v \<and> mark s ! v = 0}"
    by (rule finite_subset [of _ "{..n}"]) (auto simp: vertex_def)
  then have "mark s ! v \<noteq> 0" if "vertex n v" for v
    using Nil.prems(4) that by auto
  then show ?case
    using Nil.prems(1) by (auto simp: dinv_def shortest_def)
next
  case (Cons k ks)
  obtain m pos where m: "for_each [1..<n + 1] (nearer s) (MAX_DIST, None) = Some (m, pos)" "m \<le> MAX_DIST"
      "\<forall>v. vertex n v \<and> mark s ! v = 0 \<longrightarrow> m \<le> dist s ! v"
      "m \<noteq> MAX_DIST \<longrightarrow> (\<exists>p. pos = Some p \<and> vertex n p \<and> mark s ! p = 0 \<and> dist s ! p = m)"
    using nearest [of s n] Cons.prems by (auto simp: dinv_def)
  show ?case
  proof (cases "m = MAX_DIST")
    case True
    have "shortest n (weights s) start v (dist s ! v)" if "vertex n v" for v
    proof (cases "mark s ! v = 0")
      case False
      then show ?thesis
        using Cons.prems(1) that by (auto simp: dinv_def shortest_def)
    next
      case unmarked: True
      have "dist s ! v \<le> MAX_DIST" "walk n (weights s) start v (dist s ! v)"
        using Cons.prems(1) that by (auto simp: dinv_def)
      then show ?thesis
        using nearest_final [OF Cons.prems(1-3) m(3) that unmarked] True by (force simp: shortest_def)
    qed
    then show ?thesis
      using m(1) True Cons.prems(1) by (simp add: dinv_def)
  next
    case False
    then obtain p where p: "pos = Some p" "vertex n p" "mark s ! p = 0" "dist s ! p = m"
      using m(4) by blast
    then obtain s' where s': "for_each [1..<n + 1] (relax p) (s\<lparr>mark := (mark s)[p := 1]\<rparr>) = Some s'" "dinv n start s'"
        "map_arr s' = map_arr s" "mark s' = (mark s)[p := 1]"
      using round_ok [OF Cons.prems(1-3) p(2,3)] m(3) by auto
    have pl: "p < length (mark s)"
      using Cons.prems(1,2) vertex_LEN [OF p(2)] by (simp add: dinv_def dij_ok_def)
    have "{v. vertex n v \<and> mark s' ! v = 0} = {v. vertex n v \<and> mark s ! v = 0} - {p}"
      using pl by (auto simp: s'(4) nth_list_update split: if_splits)
    then have "card {v. vertex n v \<and> mark s' ! v = 0} \<le> length ks"
      using Cons.prems(4) p(2,3) by (simp add: card_Diff_singleton)
    moreover have "weights s' = weights s"
      by (simp add: weights_def s'(3) fun_eq_iff)
    ultimately have "\<exists>s''. rounds n ks s' = Some s'' \<and> map_arr s'' = map_arr s \<and> dij_ok s'' \<and>
        (\<forall>v. vertex n v \<longrightarrow> shortest n (weights s) start v (dist s'' ! v))"
      using Cons.IH [OF s'(2) Cons.prems(2,3)] s'(3) by simp
    then show ?thesis
      using m(1) False p(1) pl s'(1) by (simp add: aput_def)
  qed
qed

lemma start_ok:
  assumes "dij_ok s" and "n < LEN" and "vertex n start"
  shows "\<exists>s'. for_each [1..<n + 1] (start_cell start) s = Some s' \<and> map_arr s' = map_arr s \<and> dij_ok s' \<and>
    (\<forall>v. vertex n v \<longrightarrow> mark s' ! v = 0 \<and> dist s' ! v = weights s start v)"
proof -
  let ?I = "\<lambda>A s'. map_arr s' = map_arr s \<and> dij_ok s' \<and> (\<forall>v \<in> A. mark s' ! v = 0 \<and> dist s' ! v = weights s start v)"
  have "\<exists>s'. for_each [1..<n + 1] (start_cell start) s = Some s' \<and> ?I {v. vertex n v} s'"
  proof (rule for_vertices)
    fix A x s' assume x: "vertex n x" and I: "?I A s'"
    have "x < LEN" "start < LEN"
      using x assms vertex_LEN by blast+
    then have "start_cell start x s' = Some (s'\<lparr>mark := (mark s')[x := 0], dist := (dist s')[x := weights s start x]\<rparr>)"
      using I by (auto simp: start_cell_def aput_def aget2_def aget_def dij_ok_def weights_def)
    moreover have "?I (insert x A) (s'\<lparr>mark := (mark s')[x := 0], dist := (dist s')[x := weights s start x]\<rparr>)"
      using I \<open>x < LEN\<close> by (auto simp: dij_ok_def weights_def nth_list_update)
    ultimately show "\<exists>s''. start_cell start x s' = Some s'' \<and> ?I (insert x A) s''"
      by blast
  qed (use assms(1) in simp)
  then show ?thesis
    by auto
qed

lemma myDijstra_ok:
  assumes "dij_ok s" and "n < LEN" and "vertex n start"
  shows "\<exists>s'. myDijstra n start s = Some s' \<and> map_arr s' = map_arr s \<and> length (dist s') = LEN \<and>
    (\<forall>v. vertex n v \<longrightarrow> shortest n (weights s) start v (dist s' ! v))"
proof -
  obtain s1 where s1: "for_each [1..<n + 1] (start_cell start) s = Some s1" "map_arr s1 = map_arr s" "dij_ok s1"
      "\<forall>v. vertex n v \<longrightarrow> mark s1 ! v = 0 \<and> dist s1 ! v = weights s start v"
    using start_ok [OF assms] by blast
  let ?s = "s1\<lparr>mark := (mark s1)[start := 1], dist := (dist s1)[start := 0]\<rparr>"
  have st: "start < length (mark s1)" "start < length (dist s1)" "start < LEN"
    using s1(3) vertex_LEN assms(2,3) by (auto simp: dij_ok_def)
  have w: "weights s1 = weights s" "weights ?s = weights s"
    by (simp_all add: weights_def s1(2) fun_eq_iff)
  have mk: "mark ?s ! v \<noteq> 0 \<longleftrightarrow> v = start" if "vertex n v" for v
    using s1(4) that st by (cases "v = start") auto
  have d: "dist ?s ! v = (if v = start then 0 else weights s start v)" if "vertex n v" for v
    using s1(4) that st by (cases "v = start") auto
  have range: "0 \<le> weights s start v \<and> weights s start v \<le> MAX_DIST" if "vertex n v" for v
    using assms(1) vertex_LEN [OF that assms(2)] st(3) by (simp add: dij_ok_def)
  have "dinv n start ?s"
    unfolding dinv_def w
  proof (intro conjI allI impI)
    show "dij_ok ?s"
      using s1(3) by (simp add: dij_ok_def weights_def)
    show "mark ?s ! start \<noteq> 0"
      using mk assms(3) by simp
  next
    fix v assume v: "vertex n v"
    then show "dist ?s ! v \<le> MAX_DIST"
      using d range by (simp add: MAX_DIST_def)
    have "walk n (weights s) start v (0 + weights s start v)"
      using walk.step [OF walk.here] v by (simp add: vertex_def)
    then show "walk n (weights s) start v (dist ?s ! v)"
      unfolding d [OF v] using walk.here by (cases "v = start") auto
  next
    fix u v assume "vertex n u \<and> vertex n v \<and> mark ?s ! u \<noteq> 0 \<and> mark ?s ! v = 0"
    then show "dist ?s ! v \<le> dist ?s ! u + weights s u v"
      using mk d range by auto
  next
    fix u e assume "vertex n u \<and> mark ?s ! u \<noteq> 0 \<and> walk n (weights s) start u e"
    then show "dist ?s ! u \<le> e"
      using mk d walk_nonneg [OF _ assms(3) dij_nonneg [OF assms(1,2)]] by auto
  qed
  moreover have "card {v. vertex n v \<and> mark ?s ! v = 0} \<le> card {1..n}"
    by (rule card_mono) (auto simp: vertex_def)
  then have "card {v. vertex n v \<and> mark ?s ! v = 0} \<le> length [1..<n + 1]"
    by (simp only: length_upt card_atLeastAtMost add_diff_cancel_right' diff_Suc_1)
  ultimately obtain s' where "rounds n [1..<n + 1] ?s = Some s'" "map_arr s' = map_arr s1" "dij_ok s'"
      "\<forall>v. vertex n v \<longrightarrow> shortest n (weights s) start v (dist s' ! v)"
    using rounds_ok [OF _ assms(2,3), of ?s "[1..<n + 1]"] unfolding w(2) by auto
  then show ?thesis
    using s1(1,2) st by (simp add: myDijstra_def aput_def dij_ok_def del: upt_Suc)
qed

section \<open>The graph that is read\<close>

text \<open>The least weight of an edge between two vertices, in either direction.\<close>

definition edge_weight :: "(nat \<times> nat \<times> int) list \<Rightarrow> nat \<Rightarrow> nat \<Rightarrow> int" where
  "edge_weight edges i j = foldl (\<lambda>m (a, b, d). if i = a \<and> j = b \<or> i = b \<and> j = a then min m d else m) MAX_DIST edges"

definition edge_ok :: "nat \<times> nat \<times> int \<Rightarrow> bool" where
  "edge_ok e \<longleftrightarrow> (case e of (a, b, d) \<Rightarrow> a < LEN \<and> b < LEN \<and> 0 \<le> d)"

text \<open>Arrays of the right sizes.\<close>

definition sized :: "dij \<Rightarrow> bool" where
  "sized s \<longleftrightarrow> length (map_arr s) = LEN \<and> (\<forall>i < LEN. length (map_arr s ! i) = LEN) \<and> length (dist s) = LEN \<and> length (mark s) = LEN"

lemma aput2_ok:
  assumes "sized s" and "i < LEN" and "j < LEN"
  shows "\<exists>m. aput2 (map_arr s) i j v = Some m \<and> sized (s\<lparr>map_arr := m\<rparr>) \<and>
    (\<forall>a b. a < LEN \<and> b < LEN \<longrightarrow> m ! a ! b = (if a = i \<and> b = j then v else weights s a b))"
  using assms by (auto simp: aput2_def aget_def aput_def sized_def weights_def nth_list_update)

lemma init_ok:
  assumes "sized s"
  shows "\<exists>s'. init s = Some s' \<and> sized s' \<and> (\<forall>a b. a < LEN \<and> b < LEN \<longrightarrow> weights s' a b = MAX_DIST)"
proof -
  have row: "\<exists>s'. for_each [0..<LEN] (init_cell i) s = Some s' \<and> sized s' \<and>
      (\<forall>a b. a < LEN \<and> b < LEN \<longrightarrow> weights s' a b = (if a = i \<and> b \<in> set [0..<LEN] then MAX_DIST else weights s a b))"
    if si: "sized s" "i < LEN" for i s
  proof (rule for_each_set)
    fix A x s' assume x: "x \<in> set [0..<LEN]"
      and I: "sized s' \<and> (\<forall>a b. a < LEN \<and> b < LEN \<longrightarrow> weights s' a b = (if a = i \<and> b \<in> A then MAX_DIST else weights s a b))"
    then obtain m where "aput2 (map_arr s') i x MAX_DIST = Some m" "sized (s'\<lparr>map_arr := m\<rparr>)"
        "\<forall>a b. a < LEN \<and> b < LEN \<longrightarrow> m ! a ! b = (if a = i \<and> b = x then MAX_DIST else weights s' a b)"
      using aput2_ok [of s' i x MAX_DIST] si(2) by auto
    then show "\<exists>s''. init_cell i x s' = Some s'' \<and> sized s'' \<and>
        (\<forall>a b. a < LEN \<and> b < LEN \<longrightarrow> weights s'' a b = (if a = i \<and> b \<in> insert x A then MAX_DIST else weights s a b))"
      using I by (auto simp: init_cell_def weights_def)
  qed (use si in simp_all)
  have "\<exists>s'. for_each [0..<LEN] (\<lambda>i. for_each [0..<LEN] (init_cell i)) s = Some s' \<and> sized s' \<and>
      (\<forall>a b. a < LEN \<and> a \<in> set [0..<LEN] \<and> b < LEN \<longrightarrow> weights s' a b = MAX_DIST)"
  proof (rule for_each_set)
    fix A x s' assume x: "x \<in> set [0..<LEN]" and I: "sized s' \<and> (\<forall>a b. a < LEN \<and> a \<in> A \<and> b < LEN \<longrightarrow> weights s' a b = MAX_DIST)"
    then obtain s'' where s'': "for_each [0..<LEN] (init_cell x) s' = Some s''" "sized s''"
        "\<forall>a b. a < LEN \<and> b < LEN \<longrightarrow> weights s'' a b = (if a = x \<and> b \<in> set [0..<LEN] then MAX_DIST else weights s' a b)"
      using row [of s' x] by auto
    then show "\<exists>s''. for_each [0..<LEN] (init_cell x) s' = Some s'' \<and> sized s'' \<and>
        (\<forall>a b. a < LEN \<and> a \<in> insert x A \<and> b < LEN \<longrightarrow> weights s'' a b = MAX_DIST)"
      using I by auto
  qed (use assms in simp_all)
  then show ?thesis
    by (auto simp: init_def)
qed

lemma if_or: "(if P then x else if Q then x else y) = (if P \<or> Q then x else y)"
  by simp

lemma add_edge_ok:
  assumes "sized s" and "edge_ok e" and "\<forall>i j. i < LEN \<and> j < LEN \<longrightarrow> weights s i j = edge_weight es i j"
  shows "\<exists>s'. add_edge e s = Some s' \<and> sized s' \<and> (\<forall>i j. i < LEN \<and> j < LEN \<longrightarrow> weights s' i j = edge_weight (es @ [e]) i j)"
proof -
  obtain a b d where e: "e = (a, b, d)"
    by (cases e)
  then have r: "a < LEN" "b < LEN"
    using assms(2) by (auto simp: edge_ok_def)
  have sym: "edge_weight es b a = edge_weight es a b"
    by (simp add: edge_weight_def disj_commute conj_commute)
  have w: "aget2 (map_arr s) a b = Some (edge_weight es a b)"
    using assms(1,3) r by (simp add: aget2_def aget_def sized_def weights_def)
  have new: "edge_weight (es @ [e]) i j = (if i = a \<and> j = b \<or> i = b \<and> j = a then min (edge_weight es i j) d else edge_weight es i j)" for i j
    by (simp add: edge_weight_def e)
  show ?thesis
  proof (cases "edge_weight es a b > d")
    case True
    obtain m where m: "aput2 (map_arr s) b a d = Some m" "sized (s\<lparr>map_arr := m\<rparr>)"
        "\<forall>i j. i < LEN \<and> j < LEN \<longrightarrow> m ! i ! j = (if i = b \<and> j = a then d else weights s i j)"
      using aput2_ok [OF assms(1) r(2,1)] by blast
    obtain m' where m': "aput2 m a b d = Some m'" "sized (s\<lparr>map_arr := m'\<rparr>)"
        "\<forall>i j. i < LEN \<and> j < LEN \<longrightarrow> m' ! i ! j = (if i = a \<and> j = b then d else m ! i ! j)"
      using aput2_ok [OF m(2) r, of d] by (auto simp: weights_def)
    have "add_edge e s = Some (s\<lparr>map_arr := m'\<rparr>)"
      using True w m(1) m'(1) by (simp add: add_edge_def e)
    moreover have "weights (s\<lparr>map_arr := m'\<rparr>) i j = edge_weight (es @ [e]) i j" if "i < LEN" "j < LEN" for i j
    proof -
      have ij: "m' ! i ! j = (if i = a \<and> j = b then d else m ! i ! j)" "m ! i ! j = (if i = b \<and> j = a then d else weights s i j)"
          "weights s i j = edge_weight es i j"
        using that m(3) m'(3) assms(3) by blast+
      define P where "P \<longleftrightarrow> i = a \<and> j = b \<or> i = b \<and> j = a"
      have "m' ! i ! j = (if P then d else edge_weight es i j)"
        unfolding ij P_def by (rule if_or)
      moreover have "edge_weight es i j > d" if P
        using that True sym unfolding P_def by metis
      moreover have "edge_weight (es @ [e]) i j = (if P then min (edge_weight es i j) d else edge_weight es i j)"
        unfolding new P_def ..
      ultimately show ?thesis
        by (simp add: weights_def)
    qed
    ultimately show ?thesis
      using m'(2) by blast
  next
    case False
    then have "add_edge e s = Some s"
      using w by (simp add: add_edge_def e)
    moreover have "edge_weight (es @ [e]) i j = edge_weight es i j" for i j
    proof -
      have "edge_weight es i j \<le> d" if "i = a \<and> j = b \<or> i = b \<and> j = a"
        using that False sym by (metis not_less)
      then show ?thesis
        unfolding new by (simp only: min_absorb1 if_cancel cong: if_cong)
    qed
    ultimately show ?thesis
      using assms(1,3) by simp
  qed
qed

lemma read_graph_ok:
  assumes "\<forall>e \<in> set edges. edge_ok e"
  shows "\<exists>s. read_graph edges = Some s \<and> dij_ok s \<and> (\<forall>i j. i < LEN \<and> j < LEN \<longrightarrow> weights s i j = edge_weight edges i j)"
proof -
  have "sized zeros"
    by (simp add: sized_def zeros_def)
  then obtain s0 where s0: "init zeros = Some s0" "sized s0" "\<forall>i j. i < LEN \<and> j < LEN \<longrightarrow> weights s0 i j = edge_weight [] i j"
    using init_ok [of zeros] by (auto simp: edge_weight_def)
  have "\<exists>s'. for_each es add_edge s = Some s' \<and> sized s' \<and> (\<forall>i j. i < LEN \<and> j < LEN \<longrightarrow> weights s' i j = edge_weight (ps @ es) i j)"
    if "\<forall>e \<in> set es. edge_ok e" "sized s" "\<forall>i j. i < LEN \<and> j < LEN \<longrightarrow> weights s i j = edge_weight ps i j" for es ps s
    using that
  proof (induction es arbitrary: ps s)
    case (Cons e es)
    then obtain s' where "add_edge e s = Some s'" "sized s'" "\<forall>i j. i < LEN \<and> j < LEN \<longrightarrow> weights s' i j = edge_weight (ps @ [e]) i j"
      using add_edge_ok [of s e ps] by auto
    then show ?case
      using Cons.IH [of s' "ps @ [e]"] Cons.prems(1) by simp
  qed simp
  from this [OF assms s0(2,3)] obtain s where s: "for_each edges add_edge s0 = Some s" "sized s"
      "\<forall>i j. i < LEN \<and> j < LEN \<longrightarrow> weights s i j = edge_weight edges i j"
    by auto
  have "0 \<le> edge_weight edges i j \<and> edge_weight edges i j \<le> MAX_DIST" for i j
  proof -
    have "0 \<le> foldl (\<lambda>m (a, b, d). if i = a \<and> j = b \<or> i = b \<and> j = a then min m d else m) m es \<and>
        foldl (\<lambda>m (a, b, d). if i = a \<and> j = b \<or> i = b \<and> j = a then min m d else m) m es \<le> m"
      if "\<forall>e \<in> set es. edge_ok e" "0 \<le> m" for es m
      using that
    proof (induction es arbitrary: m)
      case (Cons e es)
      obtain a b d where e: "e = (a, b, d)" "0 \<le> d"
        using Cons.prems(1) by (cases e) (auto simp: edge_ok_def)
      then show ?case
        using Cons.IH [of m] Cons.IH [of "min m d"] Cons.prems by auto
    qed simp
    then show ?thesis
      using assms by (simp add: edge_weight_def MAX_DIST_def)
  qed
  then have "dij_ok s"
    using s(2,3) by (simp add: sized_def dij_ok_def)
  then show ?thesis
    using s0(1) s by (auto simp: read_graph_def)
qed

lemma walk_cong: "walk n w u v d \<Longrightarrow> vertex n u \<Longrightarrow> (\<And>i j. vertex n i \<Longrightarrow> vertex n j \<Longrightarrow> w i j = w' i j) \<Longrightarrow> walk n w' u v d"
proof (induction rule: walk.induct)
  case (step v d v')
  then have "vertex n v" "vertex n v'"
    using walk_vertex by (auto simp: vertex_def)
  then show ?case
    using step walk.step [of n w' u v d v'] by simp
qed (rule walk.here)

lemma shortest_cong:
  assumes "shortest n w u v d" and "vertex n u" and "\<And>i j. vertex n i \<Longrightarrow> vertex n j \<Longrightarrow> w i j = w' i j"
  shows "shortest n w' u v d"
  using assms walk_cong [of n w u v _ w'] walk_cong [of n w' u v _ w] by (auto simp: shortest_def)

section \<open>Property\<close>



end
