(* ===== verification/Loop_Detect.thy ===== *)
theory Loop_Detect
  imports C_Prelude
begin

text \<open>
  The two tests for a cycle in a singly linked list in \<^verbatim>\<open>data_struct/linked_list/loop.c\<close>
  (\<^verbatim>\<open>loop2.c\<close> has the same functions): counting positions, and two pointers of different
  speed. Both loops are partial functions, so that their termination is part of what is proved.
\<close>

section \<open>The program\<close>

record node =
  val :: char
  nextp :: addr

text \<open>
  The inner loop of \<open>has_loop\<close> walks from the head until it meets \<open>cur1\<close>: \<open>Some True\<close> is the
  return of 1, \<open>Some False\<close> the end of the inner loop.
\<close>

partial_function (option) find_cur :: "node heap \<Rightarrow> addr \<Rightarrow> int \<Rightarrow> addr \<Rightarrow> int \<Rightarrow> bool option" where
  "find_cur h cur1 pos1 cur2 pos2 =
     (if cur2 = NULL then Some False
      else do {
        pos2 \<leftarrow> c_int (pos2 + 1);
        (if cur2 = cur1 then Some (pos1 \<noteq> pos2)
         else do { cur2 \<leftarrow> deref nextp h cur2; find_cur h cur1 pos1 cur2 pos2 }) })"

partial_function (option) has_loop_from :: "node heap \<Rightarrow> addr \<Rightarrow> addr \<Rightarrow> int \<Rightarrow> int option" where
  "has_loop_from h head cur1 pos1 =
     (if cur1 = NULL then Some 0
      else do {
        pos1 \<leftarrow> c_int (pos1 + 1);
        found \<leftarrow> find_cur h cur1 pos1 head 0;
        (if found then Some 1
         else do { cur1 \<leftarrow> deref nextp h cur1; has_loop_from h head cur1 pos1 }) })"

definition has_loop :: "node heap \<Rightarrow> addr \<Rightarrow> int option" where
  "has_loop h head = has_loop_from h head head 0"

partial_function (option) has_loop2_from :: "node heap \<Rightarrow> addr \<Rightarrow> addr \<Rightarrow> int option" where
  "has_loop2_from h p q =
     (if p \<noteq> NULL \<and> q \<noteq> NULL then do {
        p \<leftarrow> deref nextp h p;
        q \<leftarrow> deref nextp h q;
        q \<leftarrow> (if q \<noteq> NULL then deref nextp h q else Some q);
        (if p \<noteq> NULL \<and> p = q then Some 1 else has_loop2_from h p q) }
      else Some 0)"

definition has_loop2 :: "node heap \<Rightarrow> addr \<Rightarrow> int option" where
  "has_loop2 h head = has_loop2_from h head head"

text \<open>
  \<open>main\<close> links \<open>LEN\<close> fresh nodes, closes a cycle with the seventh and runs both tests. The
  array of pointers is a list; the content of a fresh block is a parameter.
\<close>

definition LEN :: nat where
  "LEN = 8"

fun link_nodes :: "(node heap \<Rightarrow> addr) \<Rightarrow> node \<Rightarrow> nat \<Rightarrow> node heap \<Rightarrow> addr list
    \<Rightarrow> (node heap \<times> addr list) option" where
  "link_nodes malloc fresh 0 h arr = Some (h, arr)"
| "link_nodes malloc fresh (Suc k) h arr =
     (let p = malloc h; h = (if p = NULL then h else h(p \<mapsto> fresh)) in do {
        h \<leftarrow> store (nextp_update (\<lambda>_. p)) h (last arr);
        link_nodes malloc fresh k h (arr @ [p]) })"

definition loop_main :: "(node heap \<Rightarrow> addr) \<Rightarrow> node \<Rightarrow> (int \<times> int) option" where
  "loop_main malloc fresh =
     (let p = malloc Map.empty; h = (if p = NULL then Map.empty else [p \<mapsto> fresh]) in do {
        (h, arr) \<leftarrow> link_nodes malloc fresh (LEN - 1) h [p];
        h \<leftarrow> store (nextp_update (\<lambda>_. NULL)) h (arr ! (LEN - 1));
        h \<leftarrow> store (nextp_update (\<lambda>_. arr ! 0)) h (arr ! 6);
        r1 \<leftarrow> has_loop h (arr ! 0);
        r2 \<leftarrow> has_loop2 h (arr ! 0);
        Some (r1, r2) })"

section \<open>The specification\<close>

text \<open>The pointer after following \<open>k\<close> links; NULL stays NULL.\<close>

definition follow :: "node heap \<Rightarrow> addr \<Rightarrow> addr" where
  "follow h p = (if p = NULL then NULL else case h p of None \<Rightarrow> NULL | Some n \<Rightarrow> nextp n)"

definition walk_from :: "node heap \<Rightarrow> addr \<Rightarrow> nat \<Rightarrow> addr" where
  "walk_from h p k = (follow h ^^ k) p"

text \<open>The list never ends.\<close>

definition cyclic :: "node heap \<Rightarrow> addr \<Rightarrow> bool" where
  "cyclic h head \<longleftrightarrow> (\<forall>k. walk_from h head k \<noteq> NULL)"

text \<open>Every pointer that is reached is NULL or points to a node.\<close>

definition list_ok :: "node heap \<Rightarrow> addr \<Rightarrow> bool" where
  "list_ok h head \<longleftrightarrow> finite (dom h) \<and> (\<forall>k. walk_from h head k \<noteq> NULL \<longrightarrow> walk_from h head k \<in> dom h)"

section \<open>Walks\<close>

lemma walk_0 [simp]: "walk_from h p 0 = p"
  by (simp add: walk_from_def)

lemma walk_Suc: "walk_from h p (Suc k) = follow h (walk_from h p k)"
  by (simp add: walk_from_def)

lemma walk_next:
  assumes "list_ok h head" and "walk_from h head k \<noteq> NULL"
  shows "deref nextp h (walk_from h head k) = Some (walk_from h head (Suc k))"
proof -
  obtain n where "h (walk_from h head k) = Some n"
    using assms unfolding list_ok_def by blast
  then show ?thesis
    using assms(2) by (simp add: c_simps walk_Suc follow_def)
qed

lemma walk_NULL: "walk_from h p k = NULL \<Longrightarrow> walk_from h p (k + m) = NULL"
  by (induction m) (simp_all add: walk_Suc follow_def)

lemma walk_period:
  assumes "walk_from h p a = walk_from h p (a + c)"
  shows "walk_from h p (a + k + m * c) = walk_from h p (a + k)"
proof -
  have shift: "walk_from h p (a + k + c) = walk_from h p (a + k)" for k
  proof (induction k)
    case 0
    then show ?case
      using assms by simp
  next
    case (Suc k)
    then show ?case
      by (simp add: walk_Suc)
  qed
  show ?thesis
  proof (induction m)
    case (Suc m)
    have "walk_from h p (a + k + Suc m * c) = walk_from h p (a + (k + m * c) + c)"
      by (simp add: algebra_simps)
    then show ?case
      using Suc shift [of "k + m * c"] by (simp add: add.assoc)
  qed simp
qed

text \<open>A pointer that is met twice means that the list never ends.\<close>

lemma repeat_cyclic:
  assumes "walk_from h p a = walk_from h p (a + c)" and "0 < c" and "walk_from h p a \<noteq> NULL"
  shows "cyclic h p"
  unfolding cyclic_def
proof
  fix k
  have "walk_from h p (a + 0 + k * c) \<noteq> NULL"
    using walk_period [OF assms(1), of 0 k] assms(3) by simp
  moreover have "k \<le> a + k * c"
    using assms(2) by (cases c) auto
  ultimately show "walk_from h p k \<noteq> NULL"
    using walk_NULL [of h p k "a + k * c - k"] by auto
qed

lemma cyclic_repeats:
  assumes "list_ok h p" and "cyclic h p"
  shows "\<exists>a c. 0 < c \<and> a + c \<le> card (dom h) \<and> walk_from h p a = walk_from h p (a + c)"
proof -
  let ?n = "card (dom h)"
  have "walk_from h p ` {0..?n} \<subseteq> dom h" "finite (dom h)"
    using assms by (auto simp: list_ok_def cyclic_def)
  then have "card (walk_from h p ` {0..?n}) \<le> ?n"
    by (rule card_mono [rotated])
  then have "\<not> inj_on (walk_from h p) {0..?n}"
    using card_image [of "walk_from h p" "{0..?n}"] by auto
  then obtain i j where ij: "i < j" "j \<le> ?n" "walk_from h p i = walk_from h p j"
    unfolding inj_on_def by (metis atLeastAtMost_iff linorder_neqE_nat)
  then show ?thesis
    by (intro exI [of _ i] exI [of _ "j - i"]) simp
qed

text \<open>A set of pointers that the links do not leave.\<close>

lemma walk_within:
  assumes "p \<in> S" and "\<And>q. q \<in> S \<Longrightarrow> q \<noteq> NULL \<Longrightarrow> \<exists>n. h q = Some n \<and> nextp n \<in> S"
  shows "walk_from h p k = NULL \<or> walk_from h p k \<in> S \<inter> dom h"
proof -
  have "walk_from h p k = NULL \<or> walk_from h p k \<in> S"
    using assms by (induction k) (force simp: walk_Suc follow_def)+
  then show ?thesis
    using assms(2) [of "walk_from h p k"] by blast
qed

lemma list_okI:
  assumes "p \<in> S" and "\<And>q. q \<in> S \<Longrightarrow> q \<noteq> NULL \<Longrightarrow> \<exists>n. h q = Some n \<and> nextp n \<in> S" and "finite (dom h)"
  shows "list_ok h p"
proof -
  have "walk_from h p k = NULL \<or> walk_from h p k \<in> S \<inter> dom h" for k
    by (rule walk_within) (fact assms)+
  then have "\<forall>k. walk_from h p k \<noteq> NULL \<longrightarrow> walk_from h p k \<in> dom h"
    by (metis IntD2)
  then show ?thesis
    using assms(3) unfolding list_ok_def by (rule conjI [rotated])
qed

lemma cyclicI:
  assumes "p \<in> S" and "\<And>q. q \<in> S \<Longrightarrow> \<exists>n. h q = Some n \<and> nextp n \<in> S" and "NULL \<notin> S"
  shows "cyclic h p"
proof -
  have "walk_from h p k \<in> S" for k
  proof (induction k)
    case (Suc k)
    then obtain n where "h (walk_from h p k) = Some n" "nextp n \<in> S" "walk_from h p k \<noteq> NULL"
      using assms(2) [of "walk_from h p k"] assms(3) by metis
    then show ?case
      by (simp add: walk_Suc follow_def)
  qed (simp add: assms(1))
  then show ?thesis
    using assms(3) by (metis cyclic_def)
qed

section \<open>Two pointers\<close>

lemma two_speeds_step:
  assumes "list_ok h head" and "walk_from h head i \<noteq> NULL" and "walk_from h head (2 * i) \<noteq> NULL"
  shows "has_loop2_from h (walk_from h head i) (walk_from h head (2 * i)) =
    (let p = walk_from h head (Suc i); q = walk_from h head (2 * Suc i) in
     if p \<noteq> NULL \<and> p = q then Some 1 else has_loop2_from h p q)"
proof -
  let ?q = "walk_from h head (Suc (2 * i))"
  have "(if ?q \<noteq> NULL then deref nextp h ?q else Some ?q) = Some (walk_from h head (2 * Suc i))"
    using walk_next [OF assms(1), of "Suc (2 * i)"] walk_NULL [of h head "Suc (2 * i)" 1] by auto
  then show ?thesis
    using assms walk_next [OF assms(1)]
    by (subst has_loop2_from.simps) (simp add: Let_def)
qed

lemma has_loop2_acyclic:
  assumes ok: "list_ok h head" and "\<not> cyclic h head" and "walk_from h head n = NULL" and "i \<le> n"
  shows "has_loop2_from h (walk_from h head i) (walk_from h head (2 * i)) = Some 0"
  using assms(4)
proof (induction i rule: inc_induct)
  case base
  show ?case
    using assms(3) by (subst has_loop2_from.simps) simp
next
  case (step i)
  let ?p = "walk_from h head (Suc i)" and ?q = "walk_from h head (2 * Suc i)"
  have "\<not> (?p \<noteq> NULL \<and> ?p = ?q)"
    using repeat_cyclic [of h head "Suc i" "Suc i"] assms(2) by (auto simp: mult_2)
  then show ?case
    using two_speeds_step [OF ok, of i] step.IH has_loop2_from.simps [of h "walk_from h head i"]
    by (cases "walk_from h head i \<noteq> NULL \<and> walk_from h head (2 * i) \<noteq> NULL")
      (auto simp only: Let_def if_False)
qed

lemma has_loop2_cyclic:
  assumes ok: "list_ok h head" and cyc: "cyclic h head"
    and meet: "walk_from h head n = walk_from h head (2 * n)" and "i < n"
  shows "has_loop2_from h (walk_from h head i) (walk_from h head (2 * i)) = Some 1"
proof -
  obtain m where "Suc m = n" "i \<le> m"
    using assms(4) by (cases n) auto
  from this(2) show ?thesis
  proof (induction i rule: inc_induct)
    case base
    show ?case
      using two_speeds_step [OF ok, of m] cyc meet \<open>Suc m = n\<close> by (simp add: cyclic_def)
  next
    case (step i)
    then show ?case
      using two_speeds_step [OF ok, of i] cyc by (simp add: cyclic_def Let_def)
  qed
qed

lemma has_loop2_result:
  assumes "list_ok h head"
  shows "has_loop2 h head = Some (if cyclic h head then 1 else 0)"
proof (cases "cyclic h head")
  case True
  obtain a c where ac: "0 < c" "walk_from h head a = walk_from h head (a + c)"
    using cyclic_repeats [OF assms True] by blast
  define n where "n = Suc a * c"
  have "a \<le> n" "0 < n"
    using ac(1) by (cases c; simp add: n_def)+
  then have "walk_from h head n = walk_from h head (2 * n)"
    using walk_period [OF ac(2), of "n - a" "Suc a", folded n_def] by (simp add: mult_2)
  then show ?thesis
    using has_loop2_cyclic [OF assms True, of n 0] \<open>0 < n\<close> True by (simp add: has_loop2_def)
next
  case False
  then obtain n where "walk_from h head n = NULL"
    by (auto simp: cyclic_def)
  then show ?thesis
    using has_loop2_acyclic [OF assms False, of n 0] False by (simp add: has_loop2_def)
qed

section \<open>Counting positions\<close>

text \<open>The inner loop stops at the first position that holds \<open>cur1\<close>.\<close>

lemma find_cur_first:
  assumes ok: "list_ok h head" and first: "\<And>j. j < m \<Longrightarrow> walk_from h head j \<noteq> walk_from h head m"
    and live: "walk_from h head m \<noteq> NULL" and fits: "in_int (int m + 1)" and "j \<le> m"
  shows "find_cur h (walk_from h head m) pos1 (walk_from h head j) (int j) = Some (pos1 \<noteq> int m + 1)"
  using \<open>j \<le> m\<close>
proof (induction j rule: inc_induct)
  case base
  show ?case
    using live fits by (subst find_cur.simps) (simp add: c_int_def)
next
  case (step j)
  have "walk_from h head j \<noteq> NULL"
    using live walk_NULL [of h head j "m - j"] step.hyps by auto
  moreover have "in_int (int j + 1)"
    using fits step.hyps by (auto simp: in_int_def INT_MIN_def)
  ultimately show ?case
    using step first [of j] walk_next [OF ok, of j]
    by (subst find_cur.simps) (simp add: c_int_def add.commute)
qed

lemma has_loop_step:
  assumes ok: "list_ok h head" and live: "walk_from h head k \<noteq> NULL" and fits: "in_int (int k + 1)"
    and m: "m \<le> k" "walk_from h head m = walk_from h head k"
    and first: "\<And>j. j < m \<Longrightarrow> walk_from h head j \<noteq> walk_from h head m"
  shows "has_loop_from h head (walk_from h head k) (int k) =
    (if m < k then Some 1 else has_loop_from h head (walk_from h head (Suc k)) (int (Suc k)))"
proof -
  have "in_int (int m + 1)"
    using fits m(1) by (auto simp: in_int_def INT_MIN_def)
  then have "find_cur h (walk_from h head m) (int k + 1) (walk_from h head 0) (int 0) = Some (int k + 1 \<noteq> int m + 1)"
    using live m(2) by (intro find_cur_first [OF ok first]) simp_all
  then have "find_cur h (walk_from h head k) (int k + 1) head 0 = Some (m < k)"
    using m by auto
  then show ?thesis
    using live fits walk_next [OF ok live]
    by (subst has_loop_from.simps) (simp add: c_int_def add.commute)
qed

lemma has_loop_upto:
  assumes ok: "list_ok h head" and fits: "in_int (int n)" and "k \<le> n"
    and fresh: "\<And>i j. j < i \<Longrightarrow> i < n \<Longrightarrow> walk_from h head j \<noteq> walk_from h head i"
    and live: "\<And>i. i < n \<Longrightarrow> walk_from h head i \<noteq> NULL"
  shows "has_loop_from h head (walk_from h head k) (int k) = has_loop_from h head (walk_from h head n) (int n)"
  using \<open>k \<le> n\<close>
proof (induction k rule: inc_induct)
  case (step k)
  have "in_int (int k + 1)"
    using fits step.hyps by (auto simp: in_int_def INT_MIN_def)
  then show ?case
    using has_loop_step [OF ok live [of k], of k] fresh step by simp
qed simp

lemma has_loop_result:
  assumes ok: "list_ok h head" and few: "int (card (dom h)) < INT_MAX"
  shows "has_loop h head = Some (if cyclic h head then 1 else 0)"
proof (cases "cyclic h head")
  case True
  let ?again = "\<lambda>n. \<exists>m<n. walk_from h head m = walk_from h head n"
  define n where "n = (LEAST n. ?again n)"
  obtain a c where ac: "0 < c" "a + c \<le> card (dom h)" "walk_from h head a = walk_from h head (a + c)"
    using cyclic_repeats [OF ok True] by blast
  then have again: "?again (a + c)"
    by (intro exI [of _ a]) simp
  have "?again n" "n \<le> a + c"
    unfolding n_def by (rule LeastI, rule again) (rule Least_le, rule again)
  moreover have fresh: "\<not> ?again i" if "i < n" for i
    using that not_less_Least unfolding n_def by blast
  moreover have "in_int (int n + 1)" "in_int (int n)"
    using few ac(2) \<open>n \<le> a + c\<close> by (auto simp: in_int_def INT_MIN_def)
  moreover obtain m where m: "m < n" "walk_from h head m = walk_from h head n"
    using \<open>?again n\<close> by blast
  moreover have "walk_from h head j \<noteq> walk_from h head m" if "j < m" for j
    using fresh [OF m(1)] that by blast
  ultimately have "has_loop_from h head (walk_from h head n) (int n) = Some 1"
    using has_loop_step [OF ok, of n m] True by (simp add: cyclic_def)
  then show ?thesis
    using has_loop_upto [OF ok \<open>in_int (int n)\<close>, of 0] True fresh
    by (simp add: has_loop_def cyclic_def)
next
  case False
  define n where "n = (LEAST n. walk_from h head n = NULL)"
  have stop: "walk_from h head n = NULL"
    using False unfolding cyclic_def n_def not_all not_not by (rule LeastI_ex)
  have live: "walk_from h head i \<noteq> NULL" if "i < n" for i
    using that not_less_Least unfolding n_def by blast
  have fresh: "walk_from h head j \<noteq> walk_from h head i" if "j < i" "i < n" for i j
    using repeat_cyclic [of h head j "i - j"] that live [of j] False by auto
  have "inj_on (walk_from h head) {..<n}"
    unfolding inj_on_def using fresh by (metis lessThan_iff linorder_neqE_nat)
  moreover have "walk_from h head ` {..<n} \<subseteq> dom h" "finite (dom h)"
    using ok live by (auto simp: list_ok_def)
  ultimately have "n \<le> card (dom h)"
    using card_inj_on_le [of "walk_from h head" "{..<n}" "dom h"] by simp
  then have "in_int (int n)"
    using few by (auto simp: in_int_def INT_MIN_def)
  then show ?thesis
    using has_loop_upto [OF ok _ _ fresh live, of n 0] stop False has_loop_from.simps [of h head NULL]
    by (simp add: has_loop_def)
qed

text \<open>
  C31: on every list whose links lead to nodes or to NULL, with fewer nodes than an \<open>int\<close> can
  count, both tests end and return the same answer: 1 when the list never ends, 0 when
  following its links reaches NULL.
\<close>

theorem loop_tests_decide:
  assumes "list_ok h head" and "int (card (dom h)) < INT_MAX"
  shows "has_loop h head = Some (if cyclic h head then 1 else 0) \<and> has_loop2 h head = has_loop h head"
  using has_loop_result [OF assms] has_loop2_result [OF assms(1)] by simp

theorem loop_tests_decide_witness:
  "let h = [1 \<mapsto> \<lparr>val = CHR ''a'', nextp = 2\<rparr>, 2 \<mapsto> \<lparr>val = CHR ''b'', nextp = 2\<rparr>] in
   list_ok h 1 \<and> int (card (dom h)) < INT_MAX \<and> has_loop h 1 = Some 1 \<and> has_loop2 h 1 = Some 1"
proof -
  let ?h = "[1 \<mapsto> \<lparr>val = CHR ''a'', nextp = 2\<rparr>, 2 \<mapsto> \<lparr>val = CHR ''b'', nextp = 2\<rparr>]"
  have ok: "list_ok ?h 1"
    by (rule list_okI [of _ "{1, 2}"]) auto
  have "cyclic ?h 1"
    by (rule cyclicI [of _ "{1, 2}"]) auto
  moreover have few: "int (card (dom ?h)) < INT_MAX"
    by (simp add: INT_MAX_def card_insert_if)
  ultimately have "has_loop ?h 1 = Some 1 \<and> has_loop2 ?h 1 = Some 1"
    using loop_tests_decide [OF ok few] by presburger
  then show ?thesis
    unfolding Let_def using ok few by blast
qed

section \<open>The program's own list\<close>

definition linked :: "node heap \<Rightarrow> addr list \<Rightarrow> bool" where
  "linked h arr \<longleftrightarrow> arr \<noteq> [] \<and> distinct arr \<and> NULL \<notin> set arr \<and> dom h = set arr \<and>
     (\<forall>i. Suc i < length arr \<longrightarrow> (\<exists>n. h (arr ! i) = Some n \<and> nextp n = arr ! Suc i))"

lemma link_nodes_linked:
  assumes malloc: "malloc_ok malloc" "malloc_total malloc" and "linked h arr"
  shows "\<exists>h' arr'. link_nodes malloc fresh k h arr = Some (h', arr') \<and> linked h' arr' \<and> length arr' = length arr + k"
  using assms(3)
proof (induction k arbitrary: h arr)
  case (Suc k)
  define p where "p = malloc h"
  have "finite (dom h)"
    using Suc.prems by (simp add: linked_def)
  then have "p \<noteq> NULL"
    using malloc(2) unfolding p_def malloc_total_def by blast
  then have p: "p \<noteq> NULL" "p \<notin> dom h"
    using malloc_okD [OF malloc(1), of h] by (simp_all add: p_def domIff)
  have last: "last arr = arr ! (length arr - 1)" "last arr \<in> set arr"
    using Suc.prems by (auto simp: linked_def last_conv_nth)
  moreover have "dom h = set arr" "NULL \<notin> set arr"
    using Suc.prems by (simp_all add: linked_def)
  ultimately obtain n where n: "h (last arr) = Some n" "last arr \<noteq> NULL" "last arr \<noteq> p"
    using p(2) by (metis domD)
  let ?h = "h(p \<mapsto> fresh, last arr \<mapsto> n\<lparr>nextp := p\<rparr>)"
  have "linked ?h (arr @ [p])"
    unfolding linked_def
  proof (intro conjI allI impI)
    show "dom ?h = set (arr @ [p])" "distinct (arr @ [p])" "NULL \<notin> set (arr @ [p])"
      using Suc.prems p last by (auto simp: linked_def)
    fix i assume i: "Suc i < length (arr @ [p])"
    then have "arr ! i \<in> set arr" "arr ! i = last arr \<longleftrightarrow> Suc i = length arr"
      using Suc.prems last(1) by (auto simp: linked_def nth_eq_iff_index_eq)
    then show "\<exists>n. ?h ((arr @ [p]) ! i) = Some n \<and> nextp n = (arr @ [p]) ! Suc i"
      using Suc.prems p i by (auto simp: linked_def nth_append)
  qed simp
  then have "\<exists>h' arr'. link_nodes malloc fresh k ?h (arr @ [p]) = Some (h', arr') \<and> linked h' arr' \<and>
      length arr' = length (arr @ [p]) + k"
    by (rule Suc.IH)
  moreover have "link_nodes malloc fresh (Suc k) h arr = link_nodes malloc fresh k ?h (arr @ [p])"
    using n p(1) by (simp add: Let_def p_def [symmetric] store_def load_def)
  ultimately show ?case
    by simp
qed simp

text \<open>With a working allocator \<open>main\<close> reports a cycle by both methods.\<close>

lemma closed_cycle:
  assumes "linked h arr" and "length arr = LEN" and "h (arr ! 6) = Some n6" and "h (arr ! 7) = Some n7"
  defines "h' \<equiv> h(arr ! 7 \<mapsto> n7\<lparr>nextp := NULL\<rparr>, arr ! 6 \<mapsto> n6\<lparr>nextp := arr ! 0\<rparr>)"
  shows "list_ok h' (arr ! 0) \<and> cyclic h' (arr ! 0) \<and> card (dom h') = LEN"
proof -
  let ?S = "(!) arr ` {..<7}"
  have inj: "arr ! i = arr ! j \<longleftrightarrow> i = j" if "i < LEN" "j < LEN" for i j
    using assms(1,2) that by (simp add: linked_def nth_eq_iff_index_eq)
  have step: "\<exists>n. h' q = Some n \<and> nextp n \<in> ?S" if "q \<in> ?S" for q
  proof -
    obtain i where i: "i < 7" "q = arr ! i"
      using \<open>q \<in> ?S\<close> by blast
    show ?thesis
    proof (cases "i = 6")
      case False
      then have "Suc i < length arr" "q \<noteq> arr ! 6" "q \<noteq> arr ! 7"
        using i assms(2) inj [of i 6] inj [of i 7] by (auto simp: LEN_def)
      moreover obtain n where "h q = Some n" "nextp n = arr ! Suc i"
        using assms(1) \<open>Suc i < length arr\<close> i(2) unfolding linked_def by blast
      ultimately show ?thesis
        using i False by (simp add: h'_def)
    qed (use i in \<open>simp add: h'_def\<close>)
  qed
  have "set arr = dom h'" "NULL \<notin> set arr" "distinct arr"
    using assms by (auto simp: linked_def)
  moreover from this have "card (dom h') = LEN" "finite (dom h')"
    using distinct_card [of arr] assms(2) by (metis, metis List.finite_set)
  moreover have "?S \<subseteq> set arr" "arr ! 0 \<in> ?S"
    using assms(2) by (auto simp: LEN_def)
  moreover have "list_ok h' (arr ! 0)"
    by (rule list_okI, fact, rule step) (simp_all add: calculation)
  moreover have "cyclic h' (arr ! 0)"
    by (rule cyclicI, fact, rule step) (use calculation in blast)+
  ultimately show ?thesis
    by blast
qed

lemma loop_main_finds:
  assumes "malloc_ok malloc" and "malloc_total malloc"
  shows "loop_main malloc fresh = Some (1, 1)"
proof -
  define p where "p = malloc (Map.empty :: node heap)"
  have "p \<noteq> NULL"
    using assms(2) unfolding p_def malloc_total_def by simp
  then have "linked [p \<mapsto> fresh] [p]"
    by (simp add: linked_def)
  then obtain h arr where link: "link_nodes malloc fresh (LEN - 1) [p \<mapsto> fresh] [p] = Some (h, arr)"
    and ok: "linked h arr" and len: "length arr = LEN"
    using link_nodes_linked [OF assms, of "[p \<mapsto> fresh]" "[p]" fresh "LEN - 1"] by (auto simp: LEN_def)
  have "arr ! i \<noteq> NULL \<and> arr ! i \<in> dom h" if "i < LEN" for i
    using ok that len nth_mem [of i arr] unfolding linked_def by metis
  from this [of 6] this [of 7] obtain n6 n7 where
    n: "h (arr ! 6) = Some n6" "h (arr ! 7) = Some n7" "arr ! 6 \<noteq> NULL" "arr ! 7 \<noteq> NULL"
    by (auto simp: LEN_def)
  moreover have "arr ! 6 \<noteq> arr ! 7"
    using ok len by (simp add: linked_def nth_eq_iff_index_eq LEN_def)
  moreover define h' where "h' = h(arr ! 7 \<mapsto> n7\<lparr>nextp := NULL\<rparr>, arr ! 6 \<mapsto> n6\<lparr>nextp := arr ! 0\<rparr>)"
  moreover have h': "list_ok h' (arr ! 0)" "cyclic h' (arr ! 0)" "card (dom h') = LEN"
    using closed_cycle [OF ok len n(1,2)] unfolding h'_def by blast+
  moreover have "has_loop h' (arr ! 0) = Some 1" "has_loop2 h' (arr ! 0) = Some 1"
    using has_loop_result [OF h'(1)] has_loop2_result [OF h'(1)] h'(2,3) by (simp_all add: LEN_def INT_MAX_def)
  ultimately show ?thesis
    using link \<open>p \<noteq> NULL\<close>
    by (simp add: loop_main_def Let_def p_def [symmetric] LEN_def store_def load_def)
qed

end
