(* ===== verification/Linked_List.thy ===== *)
theory Linked_List
  imports C_Prelude
begin

text \<open>
  The singly linked list of \<^verbatim>\<open>data_struct/linked_list/list.c\<close> and its \<open>main\<close>: the eleven
  operations over a heap of nodes, each of them described by what it does to the sequence of
  elements. The messages are left out, except the elements that \<open>printList\<close> prints; the
  numbers that \<^verbatim>\<open>scanf\<close> reads are a list, and \<^verbatim>\<open>malloc\<close> is an argument.
\<close>

section \<open>The program\<close>

record Node =
  element :: int
  nextn :: addr

definition initList :: addr where
  "initList = NULL"

text \<open>
  A fresh node, cleared and filled by \<^verbatim>\<open>scanf\<close>: at the end of the input the element keeps
  the 0 of \<^verbatim>\<open>memset\<close>. Without memory the program exits.
\<close>

definition read_node :: "(Node heap \<Rightarrow> addr) \<Rightarrow> Node heap \<Rightarrow> int list \<Rightarrow> (addr \<times> Node heap \<times> int list) outcome" where
  "read_node malloc h input =
     (let p1 = malloc h in
      if p1 = NULL then Exit 0
      else let (x, rest) = (case input of [] \<Rightarrow> (0, []) | x # rest \<Rightarrow> (x, rest)) in
           Ret (p1, h(p1 \<mapsto> \<lparr>element = x, nextn = NULL\<rparr>), rest))"

partial_function (option) creat_loop :: "(Node heap \<Rightarrow> addr) \<Rightarrow> Node heap \<Rightarrow> addr \<Rightarrow> addr \<Rightarrow> addr
    \<Rightarrow> int list \<Rightarrow> (addr \<times> Node heap) outcome option" where
  "creat_loop malloc h pHead p1 p2 input = do {
     x \<leftarrow> deref element h p1;
     (if 0 < x then do {
        (pHead, h) \<leftarrow> (if pHead = NULL then Some (p1, h)
                       else do { h \<leftarrow> store (nextn_update (\<lambda>_. p1)) h p2; Some (pHead, h) });
        (case read_node malloc h input of
           Exit c \<Rightarrow> Some (Exit c)
         | Ret (p, h, input) \<Rightarrow> creat_loop malloc h pHead p p1 input) }
      else Some (Ret (pHead, h))) }"

definition creatList :: "(Node heap \<Rightarrow> addr) \<Rightarrow> Node heap \<Rightarrow> addr \<Rightarrow> int list
    \<Rightarrow> (addr \<times> Node heap) outcome option" where
  "creatList malloc h pHead input =
     (case read_node malloc h input of
        Exit c \<Rightarrow> Some (Exit c)
      | Ret (p1, h, input) \<Rightarrow> creat_loop malloc h pHead p1 p1 input)"

text \<open>The elements that are printed; none for the message about the empty list.\<close>

partial_function (option) printList :: "Node heap \<Rightarrow> addr \<Rightarrow> int list option" where
  "printList h pHead =
     (if pHead = NULL then Some []
      else do {
        x \<leftarrow> deref element h pHead;
        pHead \<leftarrow> deref nextn h pHead;
        xs \<leftarrow> printList h pHead;
        Some (x # xs) })"

partial_function (option) clear_loop :: "Node heap \<Rightarrow> addr \<Rightarrow> Node heap option" where
  "clear_loop h pHead = do {
     pNext \<leftarrow> deref nextn h pHead;
     (if pNext \<noteq> NULL then do { h \<leftarrow> c_free h pHead; clear_loop h pNext } else Some h) }"

definition clearList :: "Node heap \<Rightarrow> addr \<Rightarrow> Node heap option" where
  "clearList h pHead = (if pHead = NULL then Some h else clear_loop h pHead)"

partial_function (option) size_loop :: "Node heap \<Rightarrow> addr \<Rightarrow> int \<Rightarrow> int option" where
  "size_loop h pHead n =
     (if pHead = NULL then Some n
      else do {
        n \<leftarrow> c_int (n + 1);
        pHead \<leftarrow> deref nextn h pHead;
        size_loop h pHead n })"

definition sizeList :: "Node heap \<Rightarrow> addr \<Rightarrow> int option" where
  "sizeList h pHead = size_loop h pHead 0"

definition isEmptyList :: "addr \<Rightarrow> int" where
  "isEmptyList pHead = (if pHead = NULL then 1 else 0)"

text \<open>The loop that \<open>getElement\<close> and \<open>modifyElem\<close> share: the node and the counter it ends with.\<close>

partial_function (option) seek :: "Node heap \<Rightarrow> int \<Rightarrow> addr \<Rightarrow> int \<Rightarrow> (addr \<times> int) option" where
  "seek h pos pHead i =
     (if pHead = NULL then Some (pHead, i)
      else do {
        i \<leftarrow> c_int (i + 1);
        (if i = pos then Some (pHead, i)
         else do { pHead \<leftarrow> deref nextn h pHead; seek h pos pHead i }) })"

definition getElement :: "Node heap \<Rightarrow> addr \<Rightarrow> int \<Rightarrow> int option" where
  "getElement h pHead pos =
     (if pos < 1 then Some 0
      else if pHead = NULL then Some 0
      else do {
        (pHead, i) \<leftarrow> seek h pos pHead 0;
        (if i < pos then Some 0 else deref element h pHead) })"

partial_function (option) find_elem :: "Node heap \<Rightarrow> int \<Rightarrow> addr \<Rightarrow> addr option" where
  "find_elem h x pHead = do {
     y \<leftarrow> deref element h pHead;
     pNext \<leftarrow> deref nextn h pHead;
     (if y \<noteq> x \<and> pNext \<noteq> NULL then find_elem h x pNext else Some pHead) }"

text \<open>The element is the first member of its node, so the two addresses are the same.\<close>

definition getElemAddr :: "Node heap \<Rightarrow> addr \<Rightarrow> int \<Rightarrow> addr option" where
  "getElemAddr h pHead x =
     (if pHead = NULL then Some NULL
      else if x < 0 then Some NULL
      else do {
        pHead \<leftarrow> find_elem h x pHead;
        y \<leftarrow> deref element h pHead;
        (if y \<noteq> x \<and> pHead \<noteq> NULL then Some NULL else Some pHead) })"

definition modifyElem :: "Node heap \<Rightarrow> addr \<Rightarrow> int \<Rightarrow> int \<Rightarrow> (int \<times> Node heap) option" where
  "modifyElem h pNode pos x =
     (if pos < 1 then Some (0, h)
      else do {
        (pHead, i) \<leftarrow> seek h pos pNode 0;
        (if i < pos then Some (0, h)
         else do { h \<leftarrow> store (element_update (\<lambda>_. x)) h pHead; Some (1, h) }) })"

text \<open>\<^verbatim>\<open>malloc\<close> and \<^verbatim>\<open>memset\<close>: clearing a block that was not allocated is undefined.\<close>

definition zeroed_node :: "(Node heap \<Rightarrow> addr) \<Rightarrow> Node heap \<Rightarrow> (addr \<times> Node heap) option" where
  "zeroed_node malloc h =
     (let p = malloc h in
      if p = NULL then None else Some (p, h(p \<mapsto> \<lparr>element = 0, nextn = NULL\<rparr>)))"

definition insertHeadList :: "(Node heap \<Rightarrow> addr) \<Rightarrow> Node heap \<Rightarrow> addr \<Rightarrow> int \<Rightarrow> (addr \<times> Node heap) option" where
  "insertHeadList malloc h pNode insertElem = do {
     (pInsert, h) \<leftarrow> zeroed_node malloc h;
     h \<leftarrow> store (element_update (\<lambda>_. insertElem)) h pInsert;
     h \<leftarrow> store (nextn_update (\<lambda>_. pNode)) h pInsert;
     Some (pInsert, h) }"

partial_function (option) last_node :: "Node heap \<Rightarrow> addr \<Rightarrow> addr option" where
  "last_node h pHead = do {
     pNext \<leftarrow> deref nextn h pHead;
     (if pNext \<noteq> NULL then last_node h pNext else Some pHead) }"

definition insertLastList :: "(Node heap \<Rightarrow> addr) \<Rightarrow> Node heap \<Rightarrow> addr \<Rightarrow> int \<Rightarrow> (addr \<times> Node heap) option" where
  "insertLastList malloc h pNode insertElem = do {
     (pInsert, h) \<leftarrow> zeroed_node malloc h;
     h \<leftarrow> store (element_update (\<lambda>_. insertElem)) h pInsert;
     pHead \<leftarrow> last_node h pNode;
     h \<leftarrow> store (nextn_update (\<lambda>_. pInsert)) h pHead;
     Some (pNode, h) }"

text \<open>The lists that \<open>main\<close> prints, and the heap it leaves.\<close>

definition list_main :: "(Node heap \<Rightarrow> addr) \<Rightarrow> int list \<Rightarrow> (int list list \<times> Node heap) outcome option" where
  "list_main malloc input = do {
     pList \<leftarrow> Some initList;
     out0 \<leftarrow> printList Map.empty pList;
     created \<leftarrow> creatList malloc Map.empty pList input;
     (case created of Exit c \<Rightarrow> Some (Exit c) | Ret (pList, h) \<Rightarrow> do {
        out1 \<leftarrow> printList h pList;
        _ \<leftarrow> sizeList h pList;
        out2 \<leftarrow> printList h pList;
        _ \<leftarrow> Some (isEmptyList pList);
        posElem \<leftarrow> getElement h pList 3;
        out3 \<leftarrow> printList h pList;
        _ \<leftarrow> getElemAddr h pList 5;
        (_, h) \<leftarrow> modifyElem h pList 4 1;
        out4 \<leftarrow> printList h pList;
        (pList, h) \<leftarrow> insertHeadList malloc h pList 5;
        out5 \<leftarrow> printList h pList;
        (pList, h) \<leftarrow> insertLastList malloc h pList 10;
        out6 \<leftarrow> printList h pList;
        h \<leftarrow> clearList h pList;
        Some (Ret ([out0, out1, out2, [posElem], out3, out4, out5, out6], h)) }) }"

section \<open>Lists in the heap\<close>

text \<open>\<open>chain h p ns\<close>: from \<open>p\<close> the links lead through the nodes \<open>ns\<close>, given with their elements, to NULL.\<close>

fun chain :: "Node heap \<Rightarrow> addr \<Rightarrow> (addr \<times> int) list \<Rightarrow> bool" where
  "chain h p [] \<longleftrightarrow> p = NULL"
| "chain h p ((q, x) # ns) \<longleftrightarrow>
     p = q \<and> q \<noteq> NULL \<and> (\<exists>nx. h q = Some \<lparr>element = x, nextn = nx\<rparr> \<and> chain h nx ns)"

abbreviation nodes :: "(addr \<times> int) list \<Rightarrow> addr set" where
  "nodes ns \<equiv> fst ` set ns"

lemma chain_cases:
  assumes "chain h p ns"
  obtains "p = NULL" "ns = []"
  | x nx ms where "p \<noteq> NULL" "ns = (p, x) # ms" "h p = Some \<lparr>element = x, nextn = nx\<rparr>" "chain h nx ms"
proof (cases ns)
  case Nil
  then show thesis
    using assms that(1) by simp
next
  case (Cons n ms)
  obtain q x where "n = (q, x)"
    by (cases n)
  then show thesis
    using assms that(2) Cons by fastforce
qed

lemma chain_NULL_iff: "chain h p ns \<Longrightarrow> p = NULL \<longleftrightarrow> ns = []"
  by (erule chain_cases) auto

lemma chain_unique: "chain h p ns \<Longrightarrow> chain h p ms \<Longrightarrow> ns = ms"
proof (induction ns arbitrary: p ms)
  case Nil
  then show ?case
    by (cases ms) auto
next
  case (Cons n ns)
  then show ?case
    by (cases n; cases ms) auto
qed

lemma chain_append:
  "chain h p (as @ bs) \<Longrightarrow> \<exists>q. chain h q bs"
  by (induction as arbitrary: p) auto

lemma chain_distinct: "chain h p ns \<Longrightarrow> distinct (map fst ns)"
proof (induction ns arbitrary: p)
  case (Cons n ns)
  obtain q x where n: "n = (q, x)"
    by (cases n)
  have "q \<notin> nodes ns"
  proof
    assume "q \<in> nodes ns"
    then obtain as y bs where ns: "ns = as @ (q, y) # bs"
      by (auto simp: in_set_conv_decomp)
    then obtain r where "chain h r ((q, y) # bs)"
      using Cons.prems chain_append [of h _ "n # as" "(q, y) # bs"] by fastforce
    then have "chain h q ((q, y) # bs)"
      by simp
    then have "n # ns = (q, y) # bs"
      using chain_unique Cons.prems n by (metis chain.simps(2))
    then show False
      using ns by (metis length_Cons length_append list.inject not_add_less2 lessI)
  qed
  then show ?case
    using Cons n by auto
qed simp

lemma chain_frame: "chain h p ns \<Longrightarrow> (\<And>q. q \<in> nodes ns \<Longrightarrow> h' q = h q) \<Longrightarrow> chain h' p ns"
  by (induction ns arbitrary: p) force+

lemma chain_at:
  assumes "chain h p ns" and "k < length ns"
  shows "fst (ns ! k) \<noteq> NULL \<and> (\<exists>nx. h (fst (ns ! k)) = Some \<lparr>element = snd (ns ! k), nextn = nx\<rparr>)"
  using assms
proof (induction ns arbitrary: p k)
  case (Cons n ns)
  then show ?case
    by (cases n; cases k) auto
qed simp

lemma chain_nodes: "chain h p ns \<Longrightarrow> nodes ns \<subseteq> dom h \<and> NULL \<notin> nodes ns"
proof (induction ns arbitrary: p)
  case (Cons n ns)
  then show ?case
    by (cases n) auto
qed simp

text \<open>Writing an element, and linking a node behind the last one.\<close>

lemma chain_modify:
  assumes "chain h p ns" and "k < length ns" and "h (fst (ns ! k)) = Some n"
  shows "chain (h(fst (ns ! k) \<mapsto> n\<lparr>element := x\<rparr>)) p (ns[k := (fst (ns ! k), x)])"
  using assms
proof (induction ns arbitrary: p k)
  case (Cons m ns)
  obtain q y where m: "m = (q, y)"
    by (cases m)
  have fresh: "q \<notin> nodes ns"
    using chain_distinct [OF Cons.prems(1)] m by simp
  obtain nx where nx: "p = q" "q \<noteq> NULL" "h q = Some \<lparr>element = y, nextn = nx\<rparr>" "chain h nx ns"
    using Cons.prems(1) m by auto
  show ?case
  proof (cases k)
    case 0
    have "chain (h(q \<mapsto> n\<lparr>element := x\<rparr>)) nx ns"
      using fresh by (intro chain_frame [OF nx(4)]) auto
    moreover have "n\<lparr>element := x\<rparr> = \<lparr>element = x, nextn = nx\<rparr>"
      using Cons.prems(3) m nx(3) 0 by auto
    ultimately show ?thesis
      using m nx(1,2) 0 by (auto simp only: nth_Cons_0 fst_conv list_update_code chain.simps fun_upd_same)
  next
    case (Suc j)
    then have "fst (ns ! j) \<in> nodes ns"
      using Cons.prems(2) by simp
    then show ?thesis
      using Cons.IH [OF nx(4), of j] Cons.prems m nx Suc fresh by auto
  qed
qed simp

lemma chain_snoc:
  assumes "chain h p (ns @ [(q, x)])" and "r \<noteq> NULL" and "r \<notin> nodes (ns @ [(q, x)])"
    and "h r = Some \<lparr>element = y, nextn = NULL\<rparr>"
  shows "chain (h(q \<mapsto> \<lparr>element = x, nextn = r\<rparr>)) p (ns @ [(q, x), (r, y)])"
  using assms(1,3)
proof (induction ns arbitrary: p)
  case (Cons m ns)
  then show ?case
    using chain_distinct [OF Cons.prems(1)] by (cases m) auto
qed (use assms(2,4) in auto)

section \<open>What the operations do to the sequence of elements\<close>

lemma printList_chain: "chain h p ns \<Longrightarrow> printList h p = Some (map snd ns)"
  by (induction ns arbitrary: p) (subst printList.simps; force simp: c_simps)+

lemma size_loop_chain:
  assumes "chain h p ns" and "0 \<le> n" and "in_int (n + int (length ns))"
  shows "size_loop h p n = Some (n + int (length ns))"
  using assms
proof (induction ns arbitrary: p n)
  case (Cons m ns)
  have "in_int (n + 1)"
    using Cons.prems by (auto simp: in_int_def INT_MIN_def)
  then show ?case
    using Cons by (cases m; subst size_loop.simps) (auto simp: c_simps c_int_def add.assoc)
qed (simp add: size_loop.simps)

lemma seek_chain:
  assumes "chain h p ns" and "0 \<le> i" and "i < pos" and "in_int (i + int (length ns))"
  shows "seek h pos p i = Some (if pos \<le> i + int (length ns) then (fst (ns ! nat (pos - i - 1)), pos)
    else (NULL, i + int (length ns)))"
  using assms
proof (induction ns arbitrary: p i)
  case (Cons m ns)
  obtain q x where m: "m = (q, x)"
    by (cases m)
  obtain nx where nx: "p = q" "q \<noteq> NULL" "h q = Some \<lparr>element = x, nextn = nx\<rparr>" "chain h nx ns"
    using Cons.prems(1) m by auto
  have "in_int (i + 1)"
    using Cons.prems by (auto simp: in_int_def INT_MIN_def)
  moreover have "(m # ns) ! nat (pos - i - 1) = ns ! nat (pos - (i + 1) - 1)" if "i + 1 < pos"
  proof -
    have "nat (pos - i - 1) = Suc (nat (pos - (i + 1) - 1))"
      using that by simp
    then show ?thesis
      by simp
  qed
  ultimately show ?case
    using Cons.IH [OF nx(4), of "i + 1"] Cons.prems nx m
    by (subst seek.simps) (auto simp: c_simps c_int_def add.assoc)
qed (simp add: seek.simps)

lemma getElement_chain:
  assumes "chain h p ns" and "in_int (int (length ns))"
  shows "getElement h p pos =
    Some (if 1 \<le> pos \<and> pos \<le> int (length ns) then map snd ns ! nat (pos - 1) else 0)"
proof (cases "1 \<le> pos")
  case True
  then have "nat (pos - 1) < length ns" if "pos \<le> int (length ns)"
    using that by simp
  then show ?thesis
    using True seek_chain [OF assms(1), of 0 pos] chain_at [OF assms(1), of "nat (pos - 1)"]
      chain_NULL_iff [OF assms(1)] assms(2)
    by (auto simp: getElement_def c_simps)
qed (simp add: getElement_def)

lemma find_elem_chain:
  assumes "chain h p ns" and "ns \<noteq> []"
  shows "\<exists>q y nx. find_elem h x p = Some q \<and> q \<noteq> NULL \<and> h q = Some \<lparr>element = y, nextn = nx\<rparr> \<and>
    (case find (\<lambda>n. snd n = x) ns of Some n \<Rightarrow> q = fst n \<and> y = x | None \<Rightarrow> y \<noteq> x)"
  using assms
proof (induction ns arbitrary: p)
  case (Cons m ns)
  then show ?case
    by (cases m; cases ns; subst find_elem.simps) (auto simp: c_simps)
qed simp

lemma getElemAddr_chain:
  assumes "chain h p ns"
  shows "getElemAddr h p x = Some (if x < 0 then NULL
    else case find (\<lambda>n. snd n = x) ns of Some n \<Rightarrow> fst n | None \<Rightarrow> NULL)"
  using find_elem_chain [OF assms, of x] chain_NULL_iff [OF assms]
  by (cases "ns = []") (auto simp: getElemAddr_def c_simps split: option.splits)

lemma modifyElem_chain:
  assumes "chain h p ns" and "in_int (int (length ns))"
  shows "\<exists>h'. modifyElem h p pos x = Some (if 1 \<le> pos \<and> pos \<le> int (length ns) then 1 else 0, h') \<and>
    chain h' p (if 1 \<le> pos \<and> pos \<le> int (length ns)
      then ns[nat (pos - 1) := (fst (ns ! nat (pos - 1)), x)] else ns) \<and> dom h' = dom h"
proof (cases "1 \<le> pos \<and> pos \<le> int (length ns)")
  case True
  let ?k = "nat (pos - 1)"
  have k: "?k < length ns"
    using True by (auto simp: nat_less_iff)
  obtain nx where "fst (ns ! ?k) \<noteq> NULL" "h (fst (ns ! ?k)) = Some \<lparr>element = snd (ns ! ?k), nextn = nx\<rparr>"
    using chain_at [OF assms(1) k] by auto
  moreover have "seek h pos p 0 = Some (fst (ns ! ?k), pos)"
    using seek_chain [OF assms(1), of 0 pos] True assms(2) by simp
  ultimately show ?thesis
    using True chain_modify [OF assms(1) k, of _ x] by (auto simp: modifyElem_def c_simps)
next
  case False
  then show ?thesis
    using seek_chain [OF assms(1), of 0 pos] assms by (auto simp: modifyElem_def)
qed

lemma insertHeadList_chain:
  assumes "chain h p ns" and "malloc_ok malloc" and "malloc h \<noteq> NULL"
  shows "\<exists>q h'. insertHeadList malloc h p x = Some (q, h') \<and> chain h' q ((q, x) # ns) \<and>
    q \<notin> dom h \<and> dom h' = insert q (dom h)"
proof -
  let ?q = "malloc h" and ?h = "h(malloc h \<mapsto> \<lparr>element = x, nextn = p\<rparr>)"
  have fresh: "h ?q = None"
    using assms(2,3) by (rule malloc_okD)
  then have "chain ?h p ns"
    using chain_nodes [OF assms(1)] by (intro chain_frame [OF assms(1)]) (auto simp: domIff)
  then have "chain ?h ?q ((?q, x) # ns)"
    using assms(3) by simp
  moreover have "insertHeadList malloc h p x = Some (?q, ?h)"
    using assms(3) by (simp add: insertHeadList_def zeroed_node_def Let_def store_def load_def)
  ultimately show ?thesis
    using fresh by (intro exI [of _ ?q] exI [of _ ?h]) (simp add: domIff)
qed

lemma last_node_chain: "chain h p (ns @ [(q, x)]) \<Longrightarrow> last_node h p = Some q"
proof (induction ns arbitrary: p)
  case (Cons n ns)
  obtain r y where n: "n = (r, y)"
    by (cases n)
  then obtain nx where "p = r" "r \<noteq> NULL" "h r = Some \<lparr>element = y, nextn = nx\<rparr>" "chain h nx (ns @ [(q, x)])"
    using Cons.prems by auto
  then show ?case
    using Cons.IH chain_NULL_iff by (subst last_node.simps) (force simp: c_simps)
qed (subst last_node.simps; auto simp: c_simps)

lemma insertLastList_chain:
  assumes "chain h p ns" and "ns \<noteq> []" and "malloc_ok malloc" and "malloc h \<noteq> NULL"
  shows "\<exists>q h'. insertLastList malloc h p x = Some (p, h') \<and> chain h' p (ns @ [(q, x)]) \<and>
    q \<notin> dom h \<and> dom h' = insert q (dom h)"
proof -
  obtain ms r y where ns: "ns = ms @ [(r, y)]"
    using assms(2) by (metis rev_exhaust surj_pair)
  let ?q = "malloc h" and ?h = "h(malloc h \<mapsto> \<lparr>element = x, nextn = NULL\<rparr>)"
  let ?h' = "?h(r \<mapsto> \<lparr>element = y, nextn = ?q\<rparr>)"
  have fresh: "h ?q = None" "?q \<notin> nodes ns"
    using malloc_okD [OF assms(3,4)] chain_nodes [OF assms(1)] by (auto simp: domIff)
  have r: "r \<noteq> NULL" "h r = Some \<lparr>element = y, nextn = NULL\<rparr>" "r \<noteq> ?q"
    using chain_append [of h p ms "[(r, y)]"] assms(1) fresh(2) ns by auto
  have chain: "chain ?h p ns"
    using fresh(2) by (intro chain_frame [OF assms(1)]) (metis fun_upd_other)
  have "chain ?h' p (ms @ [(r, y), (?q, x)])"
    using chain_snoc [of ?h p ms r y ?q x] chain fresh(2) assms(4) ns by simp
  moreover have "last_node ?h p = Some r"
    using chain ns by (simp add: last_node_chain)
  then have "insertLastList malloc h p x = Some (p, ?h')"
    using assms(4) r by (simp add: insertLastList_def zeroed_node_def Let_def store_def load_def)
  moreover have "dom ?h' = insert ?q (dom h)"
    using r by auto
  ultimately show ?thesis
    using fresh(1) ns by (intro exI [of _ ?q] exI [of _ ?h']) (simp add: domIff)
qed

text \<open>On the empty list \<open>insertLastList\<close> dereferences NULL.\<close>

lemma insertLastList_empty: "insertLastList malloc h NULL x = None"
proof -
  have "last_node h' NULL = None" for h'
    by (subst last_node.simps) simp
  then show ?thesis
    by (auto simp: insertLastList_def bind_eq_None_conv split: prod.splits)
qed

text \<open>\<open>clearList\<close> frees every node but the last.\<close>

lemma clearList_chain:
  assumes "chain h p (ns @ [(q, x)])"
  shows "clearList h p = Some (h |` (- nodes ns))"
proof -
  have "clear_loop h p = Some (h |` (- nodes ns))"
    using assms
  proof (induction ns arbitrary: h p)
    case Nil
    then show ?case
      by (subst clear_loop.simps) (auto simp: c_simps)
  next
    case (Cons n ns)
    obtain r y where n: "n = (r, y)"
      by (cases n)
    then obtain nx where r: "p = r" "r \<noteq> NULL" "h r = Some \<lparr>element = y, nextn = nx\<rparr>"
      and rest: "chain h nx (ns @ [(q, x)])"
      using Cons.prems by auto
    have "r \<notin> nodes (ns @ [(q, x)])"
      using chain_distinct [OF Cons.prems] n by auto
    then have "chain (h(r := None)) nx (ns @ [(q, x)])"
      by (intro chain_frame [OF rest]) auto
    then have "clear_loop (h(r := None)) nx = Some (h(r := None) |` (- nodes ns))"
      by (rule Cons.IH)
    moreover have "h(r := None) |` (- nodes ns) = h |` (- nodes (n # ns))"
      by (auto simp: restrict_map_def n)
    ultimately show ?case
      using r chain_NULL_iff [OF rest] by (subst clear_loop.simps) (simp add: c_simps)
  qed
  then show ?thesis
    using chain_NULL_iff [OF assms] by (simp add: clearList_def)
qed

text \<open>
  Between the rounds of \<open>creatList\<close>: a list \<open>ns\<close> whose last node is \<open>p2\<close>, and the node \<open>p1\<close>
  that has just been read.
\<close>

definition creating :: "Node heap \<Rightarrow> addr \<Rightarrow> (addr \<times> int) list \<Rightarrow> addr \<Rightarrow> addr \<Rightarrow> int \<Rightarrow> bool" where
  "creating h pHead ns p1 p2 x \<longleftrightarrow> chain h pHead ns \<and> (ns \<noteq> [] \<longrightarrow> p2 = fst (last ns)) \<and> p1 \<noteq> NULL \<and>
     p1 \<notin> nodes ns \<and> h p1 = Some \<lparr>element = x, nextn = NULL\<rparr> \<and> dom h = insert p1 (nodes ns)"

lemma append_round:
  assumes "creating h pHead ns p1 p2 x"
  shows "\<exists>pHead' h'. (if pHead = NULL then Some (p1, h)
      else do { h \<leftarrow> store (nextn_update (\<lambda>_. p1)) h p2; Some (pHead, h) }) = Some (pHead', h') \<and>
    chain h' pHead' (ns @ [(p1, x)]) \<and> dom h' = nodes (ns @ [(p1, x)])"
proof (cases "ns = []")
  case True
  then show ?thesis
    using assms by (simp add: creating_def)
next
  case False
  obtain ms r y where ns: "ns = ms @ [(r, y)]"
    using False by (metis rev_exhaust surj_pair)
  note inv = assms [unfolded creating_def]
  have r: "r \<noteq> NULL" "h r = Some \<lparr>element = y, nextn = NULL\<rparr>" "p2 = r"
    using chain_append [of h pHead ms "[(r, y)]"] inv ns by auto
  have "chain (h(r \<mapsto> \<lparr>element = y, nextn = p1\<rparr>)) pHead (ns @ [(p1, x)])"
    using chain_snoc [of h pHead ms r y p1 x] inv ns by simp
  then show ?thesis
    using r inv chain_NULL_iff [of h pHead ns] False ns by (auto simp: store_def load_def)
qed

lemma read_node_fresh:
  assumes "malloc_ok malloc" and "malloc_total malloc" and "chain h pHead ns" and "dom h = nodes ns"
  shows "\<exists>q h'. read_node malloc h input = Ret (q, h', tl input) \<and>
    creating h' pHead ns q (fst (last ns)) (case input of [] \<Rightarrow> 0 | x # _ \<Rightarrow> x)"
proof -
  let ?y = "case input of [] \<Rightarrow> 0 | x # _ \<Rightarrow> x"
  define q where "q = malloc h"
  let ?h = "h(q \<mapsto> \<lparr>element = ?y, nextn = NULL\<rparr>)"
  have "finite (dom h)"
    using assms(4) by simp
  then have q: "q \<noteq> NULL"
    using assms(2) unfolding q_def malloc_total_def by blast
  then have fresh: "q \<notin> nodes ns"
    using malloc_okD [OF assms(1), of h] assms(4) by (metis domIff q_def)
  then have "chain ?h pHead ns"
    by (intro chain_frame [OF assms(3)]) (metis fun_upd_other)
  then have "creating ?h pHead ns q (fst (last ns)) ?y"
    using q fresh assms(4) by (simp add: creating_def)
  moreover have "read_node malloc h input = Ret (q, ?h, tl input)"
    using q by (simp add: read_node_def q_def [symmetric] Let_def split: list.split)
  ultimately show ?thesis
    by blast
qed

lemma creat_loop_end:
  assumes "creating h pHead ns p1 p2 x" and "\<not> 0 < x"
  shows "creat_loop malloc h pHead p1 p2 input = Some (Ret (pHead, h))"
  using assms by (subst creat_loop.simps) (simp add: creating_def c_simps)

lemma creat_loop_stop:
  assumes "creating h pHead ns p1 p2 x" and "\<not> 0 < x"
  shows "\<exists>p h' ns' q. creat_loop malloc h pHead p1 p2 input = Some (Ret (p, h')) \<and> chain h' p ns' \<and>
    map snd ns' = map snd ns \<and> q \<notin> nodes ns' \<and> dom h' = insert q (nodes ns')"
  using creat_loop_end [OF assms] assms(1) [unfolded creating_def] by blast

lemma creat_loop_round:
  assumes "malloc_ok malloc" and "malloc_total malloc" and "creating h pHead ns p1 p2 x" and "0 < x"
  shows "\<exists>pHead' h' q. creat_loop malloc h pHead p1 p2 input = creat_loop malloc h' pHead' q p1 (tl input) \<and>
    creating h' pHead' (ns @ [(p1, x)]) q p1 (case input of [] \<Rightarrow> 0 | x # _ \<Rightarrow> x)"
proof -
  obtain pHead' h1 where round: "(if pHead = NULL then Some (p1, h)
      else do { h \<leftarrow> store (nextn_update (\<lambda>_. p1)) h p2; Some (pHead, h) }) = Some (pHead', h1)"
    and h1: "chain h1 pHead' (ns @ [(p1, x)])" "dom h1 = nodes (ns @ [(p1, x)])"
    using append_round [OF assms(3)] by blast
  obtain q h' where read: "read_node malloc h1 input = Ret (q, h', tl input)"
    and inv: "creating h' pHead' (ns @ [(p1, x)]) q p1 (case input of [] \<Rightarrow> 0 | x # _ \<Rightarrow> x)"
    using read_node_fresh [OF assms(1,2) h1, of input] by auto
  have "creat_loop malloc h pHead p1 p2 input = creat_loop malloc h' pHead' q p1 (tl input)"
    using round read assms(3,4) by (subst creat_loop.simps) (simp add: creating_def c_simps)
  then show ?thesis
    using inv by blast
qed

lemma creat_loop_chain:
  assumes "malloc_ok malloc" and "malloc_total malloc" and "creating h pHead ns p1 p2 x"
  shows "\<exists>p h' ns' q. creat_loop malloc h pHead p1 p2 input = Some (Ret (p, h')) \<and> chain h' p ns' \<and>
    map snd ns' = map snd ns @ takeWhile (\<lambda>x. 0 < x) (x # input) \<and> q \<notin> nodes ns' \<and> dom h' = insert q (nodes ns')"
  using assms(3)
proof (induction input arbitrary: h pHead ns p1 p2 x)
  case Nil
  show ?case
  proof (cases "0 < x")
    case True
    obtain pHead' h' q where "creat_loop malloc h pHead p1 p2 [] = creat_loop malloc h' pHead' q p1 []"
      and inv: "creating h' pHead' (ns @ [(p1, x)]) q p1 0"
      using creat_loop_round [OF assms(1,2) Nil True, of "[]"] by auto
    then have "creat_loop malloc h pHead p1 p2 [] = Some (Ret (pHead', h'))"
      using creat_loop_end [OF inv] by simp
    then show ?thesis
      using inv True by (intro exI [of _ pHead'] exI [of _ h'] exI [of _ "ns @ [(p1, x)]"] exI [of _ q])
        (simp add: creating_def)
  next
    case False
    then show ?thesis
      using creat_loop_stop [OF Nil] by simp
  qed
next
  case (Cons y input)
  show ?case
  proof (cases "0 < x")
    case True
    obtain pHead' h' q where "creat_loop malloc h pHead p1 p2 (y # input) = creat_loop malloc h' pHead' q p1 input"
      and inv: "creating h' pHead' (ns @ [(p1, x)]) q p1 y"
      using creat_loop_round [OF assms(1,2) Cons.prems True, of "y # input"] by auto
    then show ?thesis
      using Cons.IH [OF inv] True by simp
  next
    case False
    then show ?thesis
      using creat_loop_stop [OF Cons.prems] by simp
  qed
qed

lemma creatList_chain:
  assumes "malloc_ok malloc" and "malloc_total malloc"
  shows "\<exists>p h' ns q. creatList malloc Map.empty NULL input = Some (Ret (p, h')) \<and> chain h' p ns \<and>
    map snd ns = takeWhile (\<lambda>x. 0 < x) input \<and> q \<notin> nodes ns \<and> dom h' = insert q (nodes ns)"
proof -
  obtain q h' where read: "read_node malloc Map.empty input = Ret (q, h', tl input)"
    and inv: "creating h' NULL [] q q (case input of [] \<Rightarrow> 0 | x # _ \<Rightarrow> x)"
    using read_node_fresh [OF assms, of Map.empty NULL "[]" input] by (auto simp: creating_def)
  from creat_loop_chain [OF assms inv, of "tl input"] show ?thesis
    using read by (cases input) (simp_all add: creatList_def)
qed

text \<open>The parts of \<open>main\<close> after the list has been created; \<open>q\<close> is the node that is not in the list.\<close>

lemma modify_fourth:
  assumes "chain h p ns" and "in_int (int (length ns))"
  shows "\<exists>r h' ms. modifyElem h p 4 1 = Some (r, h') \<and> chain h' p ms \<and> dom h' = dom h \<and>
    map snd ms = (map snd ns)[3 := 1] \<and> nodes ms = nodes ns"
proof -
  let ?ms = "if 4 \<le> length ns then ns[3 := (fst (ns ! 3), 1)] else ns"
  have "map fst ?ms = map fst ns"
    by (simp add: map_update list_update_same_conv)
  then have "nodes ?ms = nodes ns"
    by (metis list.set_map)
  moreover have "map snd ?ms = (map snd ns)[3 := 1]"
    by (simp add: map_update list_update_beyond)
  moreover have "\<exists>r h'. modifyElem h p 4 1 = Some (r, h') \<and> chain h' p ?ms \<and> dom h' = dom h"
    using modifyElem_chain [OF assms, of 4 1] by auto
  ultimately show ?thesis
    by blast
qed

lemma insert_and_clear:
  assumes "chain h p ns" and "dom h = insert q (nodes ns)" and "q \<notin> nodes ns"
    and "malloc_ok malloc" and "malloc_total malloc"
  shows "\<exists>p1 h1 h2 h3. insertHeadList malloc h p 5 = Some (p1, h1) \<and> printList h1 p1 = Some (5 # map snd ns) \<and>
    insertLastList malloc h1 p1 10 = Some (p1, h2) \<and> printList h2 p1 = Some (5 # map snd ns @ [10]) \<and>
    clearList h2 p1 = Some h3 \<and> card (dom h3) = 2"
proof -
  have alloc: "malloc h \<noteq> NULL" if "finite (dom h)" for h
    using assms(5) that unfolding malloc_total_def by blast
  have "finite (dom h)"
    using assms(2) by simp
  then obtain p1 h1 where first: "insertHeadList malloc h p 5 = Some (p1, h1)"
    and h1: "chain h1 p1 ((p1, 5) # ns)" "p1 \<notin> dom h" "dom h1 = insert p1 (dom h)"
    using insertHeadList_chain [OF assms(1,4) alloc] by blast
  have "finite (dom h1)"
    using h1(3) assms(2) by simp
  then obtain q2 h2 where last: "insertLastList malloc h1 p1 10 = Some (p1, h2)"
    and h2: "chain h2 p1 (((p1, 5) # ns) @ [(q2, 10)])" "q2 \<notin> dom h1" "dom h2 = insert q2 (dom h1)"
    using insertLastList_chain [OF h1(1) _ assms(4) alloc] by blast
  have "dom (h2 |` (- nodes ((p1, 5) # ns))) = {q, q2}"
    using h1(2,3) h2(2,3) assms(2,3) by auto
  moreover have "q \<noteq> q2"
    using h2(2) h1(3) assms(2) by auto
  ultimately have "card (dom (h2 |` (- nodes ((p1, 5) # ns)))) = 2"
    by simp
  then show ?thesis
    using first last printList_chain [OF h1(1)] printList_chain [OF h2(1)] clearList_chain [OF h2(1)] by simp
qed

text \<open>
  C32: what \<open>main\<close> of \<^verbatim>\<open>list.c\<close> does on every input, with an allocator that does not fail. It
  runs to its end without touching a node that is not live. The list it builds holds the
  numbers before the first one that is not positive; it prints this list, its third element
  or 0, the list with the fourth element replaced, and the list with 5 in front and with 10
  behind. At the end two nodes are still allocated: the one read last by \<open>creatList\<close>, and the
  last one of the list, which \<open>clearList\<close> does not free.
\<close>

theorem list_main_result:
  assumes "malloc_ok malloc" and "malloc_total malloc" and "int (length input) < INT_MAX"
  shows "\<exists>h. list_main malloc input =
      (let xs = takeWhile (\<lambda>x. 0 < x) input; ys = xs[3 := 1] in
       Some (Ret ([[], xs, xs, [if 3 \<le> length xs then xs ! 2 else 0], xs, ys, 5 # ys, 5 # ys @ [10]], h))) \<and>
    card (dom h) = 2"
proof -
  obtain p h ns q where create: "creatList malloc Map.empty NULL input = Some (Ret (p, h))"
    and c: "chain h p ns" "map snd ns = takeWhile (\<lambda>x. 0 < x) input" "q \<notin> nodes ns" "dom h = insert q (nodes ns)"
    using creatList_chain [OF assms(1,2)] by blast
  have "length ns \<le> length input"
    using c(2) length_takeWhile_le [of "\<lambda>x. 0 < x" input] by (metis length_map)
  then have len: "in_int (int (length ns))"
    using assms(3) by (simp add: in_int_def INT_MIN_def)
  obtain r h' ms where modify: "modifyElem h p 4 1 = Some (r, h')" and c': "chain h' p ms" "dom h' = dom h"
    and ms: "map snd ms = (map snd ns)[3 := 1]" "nodes ms = nodes ns"
    using modify_fourth [OF c(1) len] by (elim exE conjE) (rule that)
  have "dom h' = insert q (nodes ms)" "q \<notin> nodes ms"
    using c'(2) c(3,4) ms(2) by simp_all
  from insert_and_clear [OF c'(1) this assms(1,2)] obtain p1 h1 h2 h3 where
    inserts: "insertHeadList malloc h' p 5 = Some (p1, h1)" "printList h1 p1 = Some (5 # map snd ms)"
      "insertLastList malloc h1 p1 10 = Some (p1, h2)" "printList h2 p1 = Some (5 # map snd ms @ [10])"
      "clearList h2 p1 = Some h3" "card (dom h3) = 2"
    by blast
  have "getElement h p 3 = Some (if 3 \<le> length ns then map snd ns ! 2 else 0)"
    using getElement_chain [OF c(1) len, of 3] by auto
  moreover obtain n where "sizeList h p = Some n"
    using size_loop_chain [OF c(1), of 0] len by (simp add: sizeList_def)
  moreover obtain a where "getElemAddr h p 5 = Some a"
    using getElemAddr_chain [OF c(1), of 5] by blast
  moreover note printList_chain [OF c(1)] printList_chain [OF c'(1)] printList_chain [of Map.empty NULL "[]"]
  ultimately have "list_main malloc input = Some (Ret ([[], map snd ns, map snd ns,
      [if 3 \<le> length ns then map snd ns ! 2 else 0], map snd ns, map snd ms, 5 # map snd ms, 5 # map snd ms @ [10]], h3))"
    using create modify inserts(1-5) by (simp add: list_main_def initList_def)
  then show ?thesis
    using inserts(6) length_map [of snd ns] unfolding c(2) ms(1) Let_def by metis
qed

theorem list_main_result_witness:
  "malloc_ok (bump_malloc :: Node heap \<Rightarrow> addr) \<and> malloc_total (bump_malloc :: Node heap \<Rightarrow> addr) \<and>
   (\<exists>h. list_main bump_malloc [7, 8, 9, 6, 0, 3] =
     Some (Ret ([[], [7, 8, 9, 6], [7, 8, 9, 6], [9], [7, 8, 9, 6], [7, 8, 9, 1], [5, 7, 8, 9, 1],
       [5, 7, 8, 9, 1, 10]], h)) \<and> card (dom h) = 2)"
  using list_main_result [OF bump_malloc_ok, of "[7, 8, 9, 6, 0, 3]"]
  by (simp add: INT_MAX_def Let_def numeral_eq_Suc bump_malloc_ok)

end
