(* ===== verification/Binary_Tree.thy ===== *)
theory Binary_Tree
  imports C_Prelude "HOL-Library.Char_ord"
begin

text \<open>
  The binary tree of \<^verbatim>\<open>data_struct/btree\<close>: \<^verbatim>\<open>BinaryTree.cpp\<close> reads a tree from its
  generalized list, such as \<open>A(B(C),D(E(F,G),H(,I)))\<close>, with a stack of \<open>MS\<close> nodes, and prints
  the letters in order. A local variable that has no value yet is \<open>None\<close>, and reading it is
  undefined.
\<close>

section \<open>The program\<close>

definition MS :: int where
  "MS = 10"

text \<open>The member \<open>data\<close> is a signed character, given by its value.\<close>

record BT =
  data :: int
  left :: addr
  right :: addr

record creation =
  heap :: "BT heap"
  bt :: addr
  last_p :: "addr option"
  stack_s :: "addr option list"
  top_i :: int
  side_k :: "int option"

definition is_letter :: "char \<Rightarrow> bool" where
  "is_letter c \<longleftrightarrow> (CHR ''a'' \<le> c \<and> c \<le> CHR ''z'') \<or> (CHR ''A'' \<le> c \<and> c \<le> CHR ''Z'')"

text \<open>An opening parenthesis pushes the last node.\<close>

definition open_paren :: "creation \<Rightarrow> creation outcome option" where
  "open_paren st =
     (if top_i st = MS - 1 then Some (Exit 1)
      else do {
        q \<leftarrow> last_p st;
        s' \<leftarrow> aput (stack_s st) (nat (top_i st + 1)) (Some q);
        Some (Ret (st\<lparr>top_i := top_i st + 1, stack_s := s', side_k := Some 1\<rparr>)) })"

definition close_paren :: "creation \<Rightarrow> creation outcome option" where
  "close_paren st = (if top_i st = -1 then Some (Exit 1) else Some (Ret (st\<lparr>top_i := top_i st - 1\<rparr>)))"

text \<open>A letter becomes a node: the root, or a child of the node on top of the stack.\<close>

definition attach :: "creation \<Rightarrow> addr \<Rightarrow> creation option" where
  "attach st q =
     (if bt st = NULL then Some (st\<lparr>bt := q\<rparr>)
      else do {
        side \<leftarrow> side_k st;
        _ \<leftarrow> c_assert (0 \<le> top_i st);
        slot \<leftarrow> aget (stack_s st) (nat (top_i st));
        parent \<leftarrow> slot;
        h \<leftarrow> store (if side = 1 then left_update (\<lambda>_. q) else right_update (\<lambda>_. q)) (heap st) parent;
        Some (st\<lparr>heap := h\<rparr>) })"

definition letter :: "(BT heap \<Rightarrow> addr) \<Rightarrow> creation \<Rightarrow> char \<Rightarrow> creation outcome option" where
  "letter malloc st c =
     (let q = malloc (heap st) in
      if q = NULL then None
      else map_option Ret
        (attach (st\<lparr>last_p := Some q, heap := (heap st)(q \<mapsto> \<lparr>data = of_char c, left = NULL, right = NULL\<rparr>)\<rparr>) q))"

definition create_char :: "(BT heap \<Rightarrow> addr) \<Rightarrow> creation \<Rightarrow> char \<Rightarrow> creation outcome option" where
  "create_char malloc st c =
     (if c = CHR '' '' then Some (Ret st)
      else if c = CHR ''('' then open_paren st
      else if c = CHR '')'' then close_paren st
      else if c = CHR '','' then Some (Ret (st\<lparr>side_k := Some 2\<rparr>))
      else if is_letter c then letter malloc st c
      else Some (Exit 1))"

fun create_loop :: "(BT heap \<Rightarrow> addr) \<Rightarrow> creation \<Rightarrow> string \<Rightarrow> creation outcome option" where
  "create_loop malloc st [] = Some (Ret st)"
| "create_loop malloc st (c # cs) =
     (case create_char malloc st c of
        Some (Ret st) \<Rightarrow> create_loop malloc st cs
      | res \<Rightarrow> res)"

definition CreateBTree :: "(BT heap \<Rightarrow> addr) \<Rightarrow> BT heap \<Rightarrow> string \<Rightarrow> (addr \<times> BT heap) outcome option" where
  "CreateBTree malloc h a =
     (case create_loop malloc \<lparr>heap = h, bt = NULL, last_p = None, stack_s = replicate (nat MS) None,
        top_i = -1, side_k = None\<rparr> a of
        None \<Rightarrow> None
      | Some (Exit c) \<Rightarrow> Some (Exit c)
      | Some (Ret st) \<Rightarrow> Some (Ret (bt st, heap st)))"

definition InitBTree :: addr where
  "InitBTree = NULL"

text \<open>The characters that are printed.\<close>

partial_function (option) Inorder :: "BT heap \<Rightarrow> addr \<Rightarrow> int list option" where
  "Inorder h q =
     (if q \<noteq> NULL then do {
        l \<leftarrow> deref left h q;
        xs \<leftarrow> Inorder h l;
        x \<leftarrow> deref data h q;
        r \<leftarrow> deref right h q;
        ys \<leftarrow> Inorder h r;
        Some (xs @ x # ys) }
      else Some [])"

section \<open>Trees and their generalized lists\<close>

datatype 'a tree = Tip | Nd 'a "'a tree" "'a tree"

fun inorder :: "'a tree \<Rightarrow> 'a list" where
  "inorder Tip = []"
| "inorder (Nd x l r) = inorder l @ x # inorder r"

fun show_tree :: "char tree \<Rightarrow> string" where
  "show_tree Tip = []"
| "show_tree (Nd c l r) = c #
     (if l = Tip \<and> r = Tip then []
      else ''('' @ show_tree l @ (if r = Tip then [] else '','' @ show_tree r) @ '')'')"

text \<open>How deep the parentheses nest.\<close>

fun nest :: "'a tree \<Rightarrow> int" where
  "nest Tip = 0"
| "nest (Nd c l r) = (if l = Tip \<and> r = Tip then 0 else 1 + max (nest l) (nest r))"

text \<open>A tree whose nodes carry their addresses, as it lies in the heap.\<close>

fun rep :: "BT heap \<Rightarrow> addr \<Rightarrow> (addr \<times> int) tree \<Rightarrow> bool" where
  "rep h q Tip \<longleftrightarrow> q = NULL"
| "rep h q (Nd (a, x) l r) \<longleftrightarrow> q = a \<and> a \<noteq> NULL \<and>
     (\<exists>lp rp. h a = Some \<lparr>data = x, left = lp, right = rp\<rparr> \<and> rep h lp l \<and> rep h rp r)"

abbreviation addrs :: "(addr \<times> int) tree \<Rightarrow> addr set" where
  "addrs t \<equiv> fst ` set_tree t"

text \<open>The tree without its addresses.\<close>

abbreviation erase :: "(addr \<times> int) tree \<Rightarrow> int tree" where
  "erase t \<equiv> map_tree snd t"

lemma rep_frame: "rep h q t \<Longrightarrow> (\<And>a. a \<in> addrs t \<Longrightarrow> h' a = h a) \<Longrightarrow> rep h' q t"
proof (induction t arbitrary: q)
  case (Nd n l r)
  obtain a x where n: "n = (a, x)"
    by (cases n)
  obtain lp rp where a: "q = a" "a \<noteq> NULL" "h a = Some \<lparr>data = x, left = lp, right = rp\<rparr>" "rep h lp l" "rep h rp r"
    using Nd.prems(1) n by auto
  have "h' a = h a"
    using Nd.prems(2) [of a] n by auto
  moreover have "rep h' lp l" "rep h' rp r"
    using a Nd.IH Nd.prems(2) by auto
  ultimately show ?case
    using a n by simp
qed simp

lemma Inorder_rep: "rep h q t \<Longrightarrow> Inorder h q = Some (inorder (erase t))"
proof (induction t arbitrary: q)
  case Tip
  then show ?case
    by (subst Inorder.simps) simp
next
  case (Nd n l r)
  then show ?case
    by (cases n; subst Inorder.simps) (auto simp: c_simps)
qed

section \<open>Reading a generalized list\<close>

fun root :: "(addr \<times> int) tree \<Rightarrow> addr" where
  "root Tip = NULL"
| "root (Nd (a, x) l r) = a"

definition put_child :: "int \<Rightarrow> addr \<Rightarrow> BT \<Rightarrow> BT" where
  "put_child d v n = (if d = 1 then n\<lparr>left := v\<rparr> else n\<lparr>right := v\<rparr>)"

definition child :: "int \<Rightarrow> BT \<Rightarrow> addr" where
  "child d n = (if d = 1 then left n else right n)"

text \<open>The states in which a tree can be read.\<close>

definition ready :: "creation \<Rightarrow> bool" where
  "ready st \<longleftrightarrow> finite (dom (heap st)) \<and> bt st \<noteq> NULL \<and> length (stack_s st) = nat MS \<and>
     -1 \<le> top_i st \<and> top_i st \<le> MS - 1"

text \<open>The node \<open>q\<close> with the content \<open>n\<close> is on top of the stack, and its child \<open>d\<close> is to be read.\<close>

definition expects :: "creation \<Rightarrow> addr \<Rightarrow> BT \<Rightarrow> int \<Rightarrow> bool" where
  "expects st q n d \<longleftrightarrow> ready st \<and> 0 \<le> top_i st \<and> stack_s st ! nat (top_i st) = Some q \<and> q \<noteq> NULL \<and>
     heap st q = Some n \<and> child d n = NULL"

text \<open>
  From \<open>st\<close> to \<open>st'\<close> the nodes \<open>A\<close> are new, \<open>q\<close> has the content \<open>n\<close>, and nothing else has changed,
  neither in the heap nor on the stack.
\<close>

definition grown :: "creation \<Rightarrow> creation \<Rightarrow> addr \<Rightarrow> BT \<Rightarrow> addr set \<Rightarrow> bool" where
  "grown st st' q n A \<longleftrightarrow> bt st' = bt st \<and> top_i st' = top_i st \<and> length (stack_s st') = length (stack_s st) \<and>
     (\<forall>i. int i \<le> top_i st \<longrightarrow> stack_s st' ! i = stack_s st ! i) \<and>
     finite A \<and> A \<inter> dom (heap st) = {} \<and> dom (heap st') = dom (heap st) \<union> A \<and>
     (\<forall>a\<in>dom (heap st). a \<noteq> q \<longrightarrow> heap st' a = heap st a) \<and> heap st' q = Some n"

text \<open>What it means that the tree \<open>t\<close> is read: as a child of \<open>q\<close>, or the program exits for want of stack.\<close>

definition reads :: "(BT heap \<Rightarrow> addr) \<Rightarrow> char tree \<Rightarrow> bool" where
  "reads malloc t \<longleftrightarrow> (\<forall>st q n d rest. expects st q n d \<longrightarrow> (t \<noteq> Tip \<longrightarrow> side_k st = Some d) \<longrightarrow>
     (if top_i st + nest t \<le> MS - 1
      then \<exists>st' u. create_loop malloc st (show_tree t @ rest) = create_loop malloc st' rest \<and>
             erase u = map_tree of_char t \<and> grown st st' q (put_child d (root u) n) (addrs u) \<and>
             rep (heap st') (root u) u
      else create_loop malloc st (show_tree t @ rest) = Some (Exit 1)))"

lemma finite_addrs: "finite (addrs u)"
  by (induction u) auto

lemma nest_nonneg: "0 \<le> nest t"
  by (induction t) auto

lemma reads_Tip: "reads malloc Tip"
proof -
  have "put_child d NULL n = n" if "child d n = NULL" for d n
    using that by (cases n) (auto simp: put_child_def child_def)
  then show ?thesis
    unfolding reads_def
    by (auto simp: expects_def ready_def grown_def intro!: exI [of _ Tip])
qed

text \<open>One step each: the parentheses, the comma and a letter.\<close>

lemma read_open:
  assumes "ready st" and "last_p st = Some q" and "q \<noteq> NULL" and "heap st q = Some n" and "left n = NULL"
    and "top_i st < MS - 1"
  defines "st' \<equiv> st\<lparr>top_i := top_i st + 1, stack_s := (stack_s st)[nat (top_i st + 1) := Some q], side_k := Some 1\<rparr>"
  shows "create_loop malloc st (CHR ''('' # cs) = create_loop malloc st' cs \<and> expects st' q n 1"
  using assms(1-6) unfolding st'_def
  by (auto simp: create_char_def open_paren_def aput_def ready_def expects_def child_def MS_def)

lemma read_open_full:
  assumes "top_i st = MS - 1"
  shows "create_loop malloc st (CHR ''('' # cs) = Some (Exit 1)"
  using assms by (simp add: create_char_def open_paren_def)

lemma read_close:
  assumes "0 \<le> top_i st"
  shows "create_loop malloc st (CHR '')'' # cs) = create_loop malloc (st\<lparr>top_i := top_i st - 1\<rparr>) cs"
  using assms by (simp add: create_char_def close_paren_def)

lemma read_comma:
  "create_loop malloc st (CHR '','' # cs) = create_loop malloc (st\<lparr>side_k := Some 2\<rparr>) cs"
  by (simp add: create_char_def)

lemma letter_char:
  assumes "is_letter c"
  shows "create_char malloc st c = letter malloc st c"
  using assms by (auto simp: create_char_def is_letter_def)

lemma readsD:
  assumes "reads malloc t" and "expects st q n d" and "t \<noteq> Tip \<Longrightarrow> side_k st = Some d"
  shows "top_i st + nest t \<le> MS - 1 \<Longrightarrow>
      \<exists>st' u. create_loop malloc st (show_tree t @ rest) = create_loop malloc st' rest \<and>
        erase u = map_tree of_char t \<and> grown st st' q (put_child d (root u) n) (addrs u) \<and> rep (heap st') (root u) u"
    and "\<not> top_i st + nest t \<le> MS - 1 \<Longrightarrow> create_loop malloc st (show_tree t @ rest) = Some (Exit 1)"
  using assms unfolding reads_def by meson+

lemma read_second:
  assumes "reads malloc r" and "expects st q n 2"
  defines "cs \<equiv> if r = Tip then [] else '','' @ show_tree r"
  shows "top_i st + nest r \<le> MS - 1 \<Longrightarrow>
      \<exists>st' u. create_loop malloc st (cs @ rest) = create_loop malloc st' rest \<and>
        erase u = map_tree of_char r \<and> grown st st' q (put_child 2 (root u) n) (addrs u) \<and> rep (heap st') (root u) u"
    and "\<not> top_i st + nest r \<le> MS - 1 \<Longrightarrow> create_loop malloc st (cs @ rest) = Some (Exit 1)"
proof -
  let ?st = "st\<lparr>side_k := Some 2\<rparr>"
  have "expects ?st q n 2"
    using assms(2) by (simp add: expects_def ready_def)
  note comma = readsD [OF assms(1) this, of rest, simplified]
  have same: "grown ?st st' q m A \<longleftrightarrow> grown st st' q m A" for st' m A
    by (simp add: grown_def)
  show "\<exists>st' u. create_loop malloc st (cs @ rest) = create_loop malloc st' rest \<and>
      erase u = map_tree of_char r \<and> grown st st' q (put_child 2 (root u) n) (addrs u) \<and> rep (heap st') (root u) u"
    if "top_i st + nest r \<le> MS - 1"
    using comma(1) that readsD(1) [OF assms(1,2), of rest] unfolding same
    by (cases "r = Tip") (simp_all add: cs_def read_comma del: create_loop.simps)
  show "create_loop malloc st (cs @ rest) = Some (Exit 1)" if "\<not> top_i st + nest r \<le> MS - 1"
    using comma(2) that readsD(2) [OF assms(1,2), of rest]
    by (cases "r = Tip") (simp_all add: cs_def read_comma del: create_loop.simps)
qed

text \<open>Two changes of the same node one after the other.\<close>

lemma grown_trans:
  assumes "grown st st1 q n A" and "grown st1 st2 q n' B"
  shows "grown st st2 q n' (A \<union> B)"
  using assms by (auto simp: grown_def)

lemma grown_rep:
  assumes "grown st st1 q n A" and "grown st1 st2 q n' B" and "rep (heap st1) a u" and "addrs u = A" and "q \<in> dom (heap st)"
  shows "rep (heap st2) a u"
proof (rule rep_frame [OF assms(3)])
  fix b
  assume "b \<in> addrs u"
  then have "b \<in> dom (heap st1)" "b \<noteq> q"
    using assms(1,4,5) unfolding grown_def by blast+
  then show "heap st2 b = heap st1 b"
    using assms(2) unfolding grown_def by blast
qed

lemma grown_expects:
  assumes "grown st st' q n' A" and "expects st q n d" and "child e n' = NULL"
  shows "expects st' q n' e"
  using assms by (auto simp: grown_def expects_def ready_def)

text \<open>Both children of a node, and the node with its children in parentheses.\<close>

lemma read_pair:
  assumes "reads malloc l" and "reads malloc r" and "expects st q \<lparr>data = x, left = NULL, right = NULL\<rparr> 1"
    and side: "side_k st = Some 1"
  defines "cs \<equiv> show_tree l @ (if r = Tip then [] else '','' @ show_tree r)"
  shows "if top_i st + max (nest l) (nest r) \<le> MS - 1
    then \<exists>st' u v. create_loop malloc st (cs @ rest) = create_loop malloc st' rest \<and>
      erase u = map_tree of_char l \<and> erase v = map_tree of_char r \<and>
      grown st st' q \<lparr>data = x, left = root u, right = root v\<rparr> (addrs u \<union> addrs v) \<and>
      rep (heap st') (root u) u \<and> rep (heap st') (root v) v
    else create_loop malloc st (cs @ rest) = Some (Exit 1)"
proof (cases "top_i st + nest l \<le> MS - 1")
  case False
  then show ?thesis
    using readsD(2) [OF assms(1,3) side] by (simp add: cs_def max_def)
next
  case True
  let ?tail = "(if r = Tip then [] else '','' @ show_tree r) @ rest"
  let ?n = "\<lparr>data = x, left = NULL, right = NULL\<rparr>"
  obtain st2 u where left: "create_loop malloc st (show_tree l @ ?tail) = create_loop malloc st2 ?tail"
      "erase u = map_tree of_char l" "rep (heap st2) (root u) u"
    and g2: "grown st st2 q (put_child 1 (root u) ?n) (addrs u)"
    using readsD(1) [OF assms(1,3) side True, of ?tail] by blast
  have e2: "expects st2 q (put_child 1 (root u) ?n) 2"
    by (rule grown_expects [OF g2 assms(3)]) (simp add: put_child_def child_def)
  have top: "top_i st2 = top_i st"
    using g2 by (simp add: grown_def)
  show ?thesis
  proof (cases "top_i st + nest r \<le> MS - 1")
    case False
    then show ?thesis
      using read_second(2) [OF assms(2) e2, of rest] left(1) top by (simp add: cs_def max_def)
  next
    case fits: True
    obtain st3 v where right: "create_loop malloc st2 ?tail = create_loop malloc st3 rest"
        "erase v = map_tree of_char r" "rep (heap st3) (root v) v"
      and g3: "grown st2 st3 q (put_child 2 (root v) (put_child 1 (root u) ?n)) (addrs v)"
      using read_second(1) [OF assms(2) e2, of rest] fits top by auto
    have "q \<in> dom (heap st)"
      using assms(3) by (auto simp: expects_def)
    then have "rep (heap st3) (root u) u"
      by (rule grown_rep [OF g2 g3 left(3) refl])
    moreover have "grown st st3 q \<lparr>data = x, left = root u, right = root v\<rparr> (addrs u \<union> addrs v)"
      using grown_trans [OF g2 g3] by (simp add: put_child_def)
    moreover have "create_loop malloc st (cs @ rest) = create_loop malloc st3 rest"
      using left(1) right(1) by (simp add: cs_def)
    ultimately show ?thesis
      using True fits left(2) right(2,3) by auto
  qed
qed

lemma grown_paren:
  assumes "top_i st1 = top_i st + 1" and "stack_s st1 = (stack_s st)[nat (top_i st + 1) := v]"
    and "heap st1 = heap st" and "bt st1 = bt st" and "grown st1 st2 q n A" and "-1 \<le> top_i st"
  shows "grown st (st2\<lparr>top_i := top_i st2 - 1\<rparr>) q n A"
  using assms by (auto simp: grown_def nth_list_update)

lemma read_kids:
  assumes "reads malloc l" and "reads malloc r" and "ready st" and q: "last_p st = Some q" "q \<noteq> NULL"
    and n: "heap st q = Some \<lparr>data = x, left = NULL, right = NULL\<rparr>" and kids: "\<not> (l = Tip \<and> r = Tip)"
  defines "cs \<equiv> ''('' @ show_tree l @ (if r = Tip then [] else '','' @ show_tree r) @ '')''"
  shows "if top_i st + nest (Nd c l r) \<le> MS - 1
    then \<exists>st' u v. create_loop malloc st (cs @ rest) = create_loop malloc st' rest \<and>
      erase u = map_tree of_char l \<and> erase v = map_tree of_char r \<and>
      grown st st' q \<lparr>data = x, left = root u, right = root v\<rparr> (addrs u \<union> addrs v) \<and>
      rep (heap st') (root u) u \<and> rep (heap st') (root v) v
    else create_loop malloc st (cs @ rest) = Some (Exit 1)"
proof (cases "top_i st = MS - 1")
  case True
  have "\<not> top_i st + nest (Nd c l r) \<le> MS - 1"
    using True kids nest_nonneg [of l] by auto
  then show ?thesis
    using True by (simp add: cs_def read_open_full del: create_loop.simps nest.simps)
next
  case False
  then have "top_i st < MS - 1" "-1 \<le> top_i st"
    using assms(3) by (simp_all add: ready_def)
  let ?n = "\<lparr>data = x, left = NULL, right = NULL\<rparr>"
  define st1 where "st1 = st\<lparr>top_i := top_i st + 1, stack_s := (stack_s st)[nat (top_i st + 1) := Some q], side_k := Some 1\<rparr>"
  have st1: "top_i st1 = top_i st + 1" "stack_s st1 = (stack_s st)[nat (top_i st + 1) := Some q]"
      "heap st1 = heap st" "bt st1 = bt st" "side_k st1 = Some 1"
    by (simp_all add: st1_def)
  let ?kids = "show_tree l @ (if r = Tip then [] else '','' @ show_tree r)"
  have cs: "create_loop malloc st (cs @ rest) = create_loop malloc st1 (?kids @ '')'' @ rest)" "expects st1 q ?n 1"
    using read_open [OF assms(3) q n] \<open>top_i st < MS - 1\<close> by (simp_all add: cs_def st1_def del: create_loop.simps)
  note pair = read_pair [OF assms(1,2) cs(2) st1(5), of "'')'' @ rest"]
  have nest: "top_i st1 + max (nest l) (nest r) = top_i st + nest (Nd c l r)"
    using kids st1(1) by auto
  show ?thesis
  proof (cases "top_i st + nest (Nd c l r) \<le> MS - 1")
    case True
    obtain st2 u v where st2: "create_loop malloc st1 (?kids @ '')'' @ rest) = create_loop malloc st2 ('')'' @ rest)"
      and uv: "erase u = map_tree of_char l" "erase v = map_tree of_char r"
        "rep (heap st2) (root u) u" "rep (heap st2) (root v) v"
      and g: "grown st1 st2 q \<lparr>data = x, left = root u, right = root v\<rparr> (addrs u \<union> addrs v)"
      using pair unfolding nest if_P [OF True] by blast
    let ?st = "st2\<lparr>top_i := top_i st2 - 1\<rparr>"
    have "0 \<le> top_i st2"
      using g st1(1) \<open>-1 \<le> top_i st\<close> by (simp add: grown_def)
    then have "create_loop malloc st (cs @ rest) = create_loop malloc ?st rest"
      using cs(1) st2 by (simp add: read_close del: create_loop.simps)
    moreover have "grown st ?st q \<lparr>data = x, left = root u, right = root v\<rparr> (addrs u \<union> addrs v)"
      by (rule grown_paren [OF st1(1-4) g \<open>-1 \<le> top_i st\<close>])
    moreover have "rep (heap ?st) (root u) u" "rep (heap ?st) (root v) v"
      using uv(3,4) by simp_all
    ultimately show ?thesis
      using True uv(1,2) by (simp only: if_True) blast
  next
    case False
    then show ?thesis
      using pair cs(1) unfolding nest by (simp only: if_False)
  qed
qed

lemma grown_child:
  assumes "grown st st1 q n {a}" and "grown st1 st2 a m A" and "q \<noteq> a"
  shows "grown st st2 q n (insert a A)"
proof -
  have dom: "q \<in> dom (heap st1)" "dom (heap st) \<subseteq> dom (heap st1)" "a \<notin> dom (heap st)"
    using assms(1) by (auto simp: grown_def)
  have same: "heap st2 b = heap st1 b" if "b \<in> dom (heap st1)" "b \<noteq> a" for b
    using assms(2) that unfolding grown_def by blast
  have "heap st2 q = Some n" "\<forall>b\<in>dom (heap st). b \<noteq> q \<longrightarrow> heap st2 b = heap st b"
    using same dom assms(1,3) unfolding grown_def by (metis, metis subsetD)
  then show ?thesis
    using assms by (auto simp: grown_def)
qed

lemma fresh_node:
  assumes "malloc_ok malloc" and "malloc_total malloc" and "finite (dom h)"
  shows "malloc h \<noteq> NULL" and "malloc h \<notin> dom h"
proof -
  show "malloc h \<noteq> NULL"
    using assms(2,3) unfolding malloc_total_def by blast
  then show "malloc h \<notin> dom h"
    using malloc_okD [OF assms(1)] by (simp add: domIff)
qed

lemma read_letter:
  assumes "malloc_ok malloc" and "malloc_total malloc" and "expects st q n d" and "side_k st = Some d" and "is_letter c"
  shows "\<exists>a st'. create_loop malloc st (c # cs) = create_loop malloc st' cs \<and> ready st' \<and> last_p st' = Some a \<and>
    a \<noteq> NULL \<and> q \<noteq> a \<and> heap st' a = Some \<lparr>data = of_char c, left = NULL, right = NULL\<rparr> \<and>
    grown st st' q (put_child d a n) {a}"
proof -
  define a where "a = malloc (heap st)"
  have st: "finite (dom (heap st))" "heap st q = Some n" "q \<noteq> NULL"
    using assms(3) by (auto simp: expects_def ready_def)
  have a: "a \<noteq> NULL" "a \<notin> dom (heap st)"
    using fresh_node [OF assms(1,2) st(1)] by (simp_all add: a_def)
  then have "q \<noteq> a"
    using st(2) by auto
  let ?st = "st\<lparr>last_p := Some a, heap := (heap st)(a \<mapsto> \<lparr>data = of_char c, left = NULL, right = NULL\<rparr>, q \<mapsto> put_child d a n)\<rparr>"
  have "letter malloc st c = Some (Ret ?st)"
    using assms(3,4) a st \<open>q \<noteq> a\<close>
    by (auto simp: letter_def a_def [symmetric] Let_def attach_def expects_def ready_def aget_def MS_def
        store_def load_def put_child_def)
  then have "create_loop malloc st (c # cs) = create_loop malloc ?st cs"
    using letter_char [OF assms(5)] by simp
  moreover have "ready ?st"
    using assms(3) by (simp add: expects_def ready_def)
  moreover have "grown st ?st q (put_child d a n) {a}"
    using a st(2) by (auto simp: grown_def)
  ultimately show ?thesis
    using a(1) \<open>q \<noteq> a\<close> by (intro exI [of _ a] exI [of _ ?st]) simp
qed

text \<open>What follows the letter of a node.\<close>

definition kids_text :: "char tree \<Rightarrow> char tree \<Rightarrow> string" where
  "kids_text l r = (if l = Tip \<and> r = Tip then []
     else ''('' @ show_tree l @ (if r = Tip then [] else '','' @ show_tree r) @ '')'')"

lemma show_Nd: "show_tree (Nd c l r) @ rest = c # kids_text l r @ rest"
  by (simp add: kids_text_def)

lemma read_below:
  assumes "reads malloc l" and "reads malloc r" and "ready st" and "last_p st = Some q" and "q \<noteq> NULL"
    and "heap st q = Some \<lparr>data = x, left = NULL, right = NULL\<rparr>"
  shows "top_i st + nest (Nd c l r) \<le> MS - 1 \<Longrightarrow>
      \<exists>st' u. create_loop malloc st (kids_text l r @ rest) = create_loop malloc st' rest \<and>
        root u = q \<and> erase u = Nd x (map_tree of_char l) (map_tree of_char r) \<and>
        (\<exists>m. grown st st' q m (addrs u - {q})) \<and> rep (heap st') q u"
    and "\<not> top_i st + nest (Nd c l r) \<le> MS - 1 \<Longrightarrow> create_loop malloc st (kids_text l r @ rest) = Some (Exit 1)"
proof -
  have *: "if top_i st + nest (Nd c l r) \<le> MS - 1
    then \<exists>st' u v. create_loop malloc st (kids_text l r @ rest) = create_loop malloc st' rest \<and>
      erase u = map_tree of_char l \<and> erase v = map_tree of_char r \<and>
      grown st st' q \<lparr>data = x, left = root u, right = root v\<rparr> (addrs u \<union> addrs v) \<and>
      rep (heap st') (root u) u \<and> rep (heap st') (root v) v
    else create_loop malloc st (kids_text l r @ rest) = Some (Exit 1)"
  proof (cases "l = Tip \<and> r = Tip")
    case True
    then have "grown st st q \<lparr>data = x, left = root Tip, right = root Tip\<rparr> (addrs Tip \<union> addrs Tip)"
      using assms(6) by (simp add: grown_def)
    moreover have "top_i st \<le> MS - 1"
      using assms(3) by (simp add: ready_def)
    ultimately show ?thesis
      using True by (auto simp: kids_text_def intro!: exI [of _ Tip])
  next
    case False
    then show ?thesis
      using read_kids [OF assms False, of c rest] unfolding kids_text_def if_not_P [OF False] by blast
  qed
  show "\<not> top_i st + nest (Nd c l r) \<le> MS - 1 \<Longrightarrow> create_loop malloc st (kids_text l r @ rest) = Some (Exit 1)"
    using * by presburger
  assume fits: "top_i st + nest (Nd c l r) \<le> MS - 1"
  obtain st' u v where st': "create_loop malloc st (kids_text l r @ rest) = create_loop malloc st' rest"
      "erase u = map_tree of_char l" "erase v = map_tree of_char r"
      "rep (heap st') (root u) u" "rep (heap st') (root v) v"
    and g: "grown st st' q \<lparr>data = x, left = root u, right = root v\<rparr> (addrs u \<union> addrs v)"
    using * [unfolded if_P [OF fits]] by blast
  let ?u = "Nd (q, x) u v"
  have "q \<notin> addrs u \<union> addrs v"
    using g assms(6) by (auto simp: grown_def)
  then have "addrs ?u - {q} = addrs u \<union> addrs v"
    by auto
  moreover have "rep (heap st') q ?u"
    using st'(4,5) g assms(5) by (simp add: grown_def)
  ultimately show "\<exists>st' u. create_loop malloc st (kids_text l r @ rest) = create_loop malloc st' rest \<and>
      root u = q \<and> erase u = Nd x (map_tree of_char l) (map_tree of_char r) \<and>
      (\<exists>m. grown st st' q m (addrs u - {q})) \<and> rep (heap st') q u"
    using st'(1-3) g by (intro exI [of _ st'] exI [of _ ?u]) auto
qed

lemma reads_Nd:
  assumes malloc: "malloc_ok malloc" "malloc_total malloc" and "is_letter c" and "reads malloc l" and "reads malloc r"
  shows "reads malloc (Nd c l r)"
  unfolding reads_def
proof (intro allI impI)
  fix st q n d rest
  assume e: "expects st q n d" and "Nd c l r \<noteq> Tip \<longrightarrow> side_k st = Some d"
  then obtain a st1 where st1: "create_loop malloc st (show_tree (Nd c l r) @ rest) = create_loop malloc st1 (kids_text l r @ rest)"
    "ready st1" "last_p st1 = Some a" "a \<noteq> NULL" "heap st1 a = Some \<lparr>data = of_char c, left = NULL, right = NULL\<rparr>"
    and a: "q \<noteq> a" and g: "grown st st1 q (put_child d a n) {a}"
    using read_letter [OF malloc e _ assms(3), of "kids_text l r @ rest"] unfolding show_Nd by blast
  have top: "top_i st1 = top_i st"
    using g by (simp add: grown_def)
  show "if top_i st + nest (Nd c l r) \<le> MS - 1
      then \<exists>st' u. create_loop malloc st (show_tree (Nd c l r) @ rest) = create_loop malloc st' rest \<and>
             erase u = map_tree of_char (Nd c l r) \<and> grown st st' q (put_child d (root u) n) (addrs u) \<and>
             rep (heap st') (root u) u
      else create_loop malloc st (show_tree (Nd c l r) @ rest) = Some (Exit 1)"
  proof (cases "top_i st + nest (Nd c l r) \<le> MS - 1")
    case True
    then obtain st2 u m where st2: "create_loop malloc st1 (kids_text l r @ rest) = create_loop malloc st2 rest"
      "root u = a" "erase u = Nd (of_char c) (map_tree of_char l) (map_tree of_char r)" "rep (heap st2) a u"
      and g2: "grown st1 st2 a m (addrs u - {a})"
      using read_below(1) [OF assms(4,5) st1(2-5), of c rest] top by metis
    have "a \<in> addrs u"
      using st2(2,3) by (cases u) auto
    then have "insert a (addrs u - {a}) = addrs u"
      by blast
    then have "grown st st2 q (put_child d (root u) n) (addrs u)"
      using grown_child [OF g g2 a] st2(2) by simp
    then show ?thesis
      using True st1(1) st2 by auto
  next
    case False
    then show ?thesis
      using read_below(2) [OF assms(4,5) st1(2-5), of c rest] top st1(1) by presburger
  qed
qed

lemma reads_letters:
  assumes "malloc_ok malloc" and "malloc_total malloc" and "\<forall>c\<in>set_tree t. is_letter c"
  shows "reads malloc t"
  using assms(3) by (induction t) (simp_all add: reads_Tip reads_Nd assms(1,2))

text \<open>The first letter becomes the root.\<close>

lemma read_root:
  assumes "malloc_ok malloc" and "malloc_total malloc" and "finite (dom h)" and "is_letter c"
  defines "st \<equiv> \<lparr>heap = h, bt = NULL, last_p = None, stack_s = replicate (nat MS) None, top_i = -1, side_k = None\<rparr>"
  shows "\<exists>a st'. create_loop malloc st (c # cs) = create_loop malloc st' cs \<and> ready st' \<and> last_p st' = Some a \<and>
    a \<noteq> NULL \<and> a \<notin> dom h \<and> bt st' = a \<and> top_i st' = -1 \<and>
    heap st' = h(a \<mapsto> \<lparr>data = of_char c, left = NULL, right = NULL\<rparr>)"
proof -
  define a where "a = malloc h"
  have a: "a \<noteq> NULL" "a \<notin> dom h"
    using fresh_node [OF assms(1-3)] by (simp_all add: a_def)
  let ?st = "st\<lparr>last_p := Some a, heap := h(a \<mapsto> \<lparr>data = of_char c, left = NULL, right = NULL\<rparr>), bt := a\<rparr>"
  have "letter malloc st c = Some (Ret ?st)"
    using a(1) by (simp add: letter_def attach_def Let_def st_def a_def [symmetric])
  then have "create_loop malloc st (c # cs) = create_loop malloc ?st cs"
    using letter_char [OF assms(4)] by simp
  moreover have "ready ?st"
    using a(1) assms(3) by (simp add: ready_def st_def MS_def)
  ultimately show ?thesis
    using a by (intro exI [of _ a] exI [of _ ?st]) (simp add: st_def)
qed

lemma map_tree_inorder: "inorder (map_tree f t) = map f (inorder t)"
  by (induction t) simp_all

lemma CreateBTree_letters:
  assumes malloc: "malloc_ok malloc" "malloc_total malloc" "finite (dom h)"
    and t: "t = Nd c l r" and letters: "\<forall>c\<in>set_tree t. is_letter c"
  shows "nest t \<le> MS \<Longrightarrow> \<exists>q h' u. CreateBTree malloc h (show_tree t) = Some (Ret (q, h')) \<and> rep h' q u \<and>
      erase u = map_tree of_char t \<and> addrs u \<inter> dom h = {} \<and> dom h' = dom h \<union> addrs u \<and>
      (\<forall>a\<in>dom h. h' a = h a) \<and> Inorder h' q = Some (map of_char (inorder t))"
    and "\<not> nest t \<le> MS \<Longrightarrow> CreateBTree malloc h (show_tree t) = Some (Exit 1)"
proof -
  define st where "st = \<lparr>heap = h, bt = NULL, last_p = None, stack_s = replicate (nat MS) None, top_i = -1, side_k = None\<rparr>"
  obtain a st1 where st1: "create_loop malloc st (show_tree t @ []) = create_loop malloc st1 (kids_text l r @ [])"
    "ready st1" "last_p st1 = Some a" "a \<noteq> NULL" "a \<notin> dom h" "bt st1 = a" "top_i st1 = -1"
    "heap st1 = h(a \<mapsto> \<lparr>data = of_char c, left = NULL, right = NULL\<rparr>)"
    using read_root [OF malloc, of c "kids_text l r @ []"] letters unfolding t show_Nd st_def by auto
  have node: "heap st1 a = Some \<lparr>data = of_char c, left = NULL, right = NULL\<rparr>"
    using st1(8) by simp
  have "reads malloc l" "reads malloc r"
    using reads_letters [OF malloc(1,2)] letters t by simp_all
  note below = read_below [OF this st1(2-4) node, of c "[]", folded t]
  show "CreateBTree malloc h (show_tree t) = Some (Exit 1)" if "\<not> nest t \<le> MS"
    using that below(2) st1(1,7) by (simp add: CreateBTree_def st_def [symmetric])
  assume "nest t \<le> MS"
  then obtain st2 u m where st2: "create_loop malloc st1 (kids_text l r @ []) = create_loop malloc st2 []"
      "root u = a" "erase u = Nd (of_char c) (map_tree of_char l) (map_tree of_char r)" "rep (heap st2) a u"
    and g: "grown st1 st2 a m (addrs u - {a})"
    using below(1) st1(7) by auto
  have "CreateBTree malloc h (show_tree t) = Some (Ret (a, heap st2))"
    using st1(1,6) st2(1) g by (simp add: CreateBTree_def st_def [symmetric] grown_def)
  moreover have "a \<in> addrs u"
    using st2(2,3) by (cases u) auto
  moreover have "addrs u \<inter> dom h = {}" "dom (heap st2) = dom h \<union> addrs u"
    using g st1(5,8) \<open>a \<in> addrs u\<close> by (auto simp: grown_def)
  moreover have "\<forall>b\<in>dom h. heap st2 b = h b"
  proof
    fix b
    assume "b \<in> dom h"
    then have "b \<noteq> a" "b \<in> dom (heap st1)"
      using st1(5,8) by auto
    then show "heap st2 b = h b"
      using g st1(8) unfolding grown_def by (metis fun_upd_other)
  qed
  moreover have "Inorder (heap st2) a = Some (map of_char (inorder t))"
    using Inorder_rep [OF st2(4)] st2(3) t by (simp add: map_tree_inorder)
  ultimately show "\<exists>q h' u. CreateBTree malloc h (show_tree t) = Some (Ret (q, h')) \<and> rep h' q u \<and>
      erase u = map_tree of_char t \<and> addrs u \<inter> dom h = {} \<and> dom h' = dom h \<union> addrs u \<and>
      (\<forall>a\<in>dom h. h' a = h a) \<and> Inorder h' q = Some (map of_char (inorder t))"
    using st2(3,4) t by (simp only: tree.map) blast
qed

text \<open>
  C30: reading back a generalized list. For every tree of letters, with an allocator that does
  not fail, \<open>CreateBTree\<close> on the text of the tree builds exactly this tree from new nodes,
  changes no other node, and \<open>Inorder\<close> prints its letters in order. When the parentheses
  nest deeper than the \<open>MS\<close> entries of the stack the program exits with status 1 instead of
  writing beyond the stack.
\<close>

theorem btree_roundtrip:
  assumes "malloc_ok malloc" and "malloc_total malloc" and "finite (dom h)"
    and "t \<noteq> Tip" and "\<forall>c\<in>set_tree t. is_letter c"
  shows "if nest t \<le> MS
    then \<exists>q h' u. CreateBTree malloc h (show_tree t) = Some (Ret (q, h')) \<and> rep h' q u \<and>
      erase u = map_tree of_char t \<and> addrs u \<inter> dom h = {} \<and> dom h' = dom h \<union> addrs u \<and>
      (\<forall>a\<in>dom h. h' a = h a) \<and> Inorder h' q = Some (map of_char (inorder t))
    else CreateBTree malloc h (show_tree t) = Some (Exit 1)"
proof -
  obtain c l r where "t = Nd c l r"
    using assms(4) by (cases t) auto
  then show ?thesis
    using CreateBTree_letters [OF assms(1-3) _ assms(5)] by simp
qed

theorem btree_roundtrip_witness:
  "let t = Nd CHR ''A'' (Nd CHR ''B'' (Nd CHR ''C'' Tip Tip) Tip)
     (Nd CHR ''D'' (Nd CHR ''E'' (Nd CHR ''F'' Tip Tip) (Nd CHR ''G'' Tip Tip)) (Nd CHR ''H'' Tip (Nd CHR ''I'' Tip Tip))) in
   malloc_ok (bump_malloc :: BT heap \<Rightarrow> addr) \<and> malloc_total (bump_malloc :: BT heap \<Rightarrow> addr) \<and>
   show_tree t = ''A(B(C),D(E(F,G),H(,I)))'' \<and> (\<forall>c\<in>set_tree t. is_letter c) \<and>
   (\<exists>q h'. CreateBTree bump_malloc Map.empty ''A(B(C),D(E(F,G),H(,I)))'' = Some (Ret (q, h')) \<and>
     Inorder h' q = Some (map of_char ''CBAFEGDHI''))"
proof -
  let ?t = "Nd CHR ''A'' (Nd CHR ''B'' (Nd CHR ''C'' Tip Tip) Tip)
    (Nd CHR ''D'' (Nd CHR ''E'' (Nd CHR ''F'' Tip Tip) (Nd CHR ''G'' Tip Tip)) (Nd CHR ''H'' Tip (Nd CHR ''I'' Tip Tip)))"
  have letters: "\<forall>c\<in>set_tree ?t. is_letter c"
    by (simp add: is_letter_def less_eq_char_def)
  have shown: "show_tree ?t = ''A(B(C),D(E(F,G),H(,I)))''"
    by simp
  have "nest ?t \<le> MS" "inorder ?t = ''CBAFEGDHI''"
    by (simp_all add: MS_def)
  then have "\<exists>q h'. CreateBTree bump_malloc Map.empty ''A(B(C),D(E(F,G),H(,I)))'' = Some (Ret (q, h')) \<and>
     Inorder h' q = Some (map of_char ''CBAFEGDHI'')"
    using btree_roundtrip [OF bump_malloc_ok _ _ letters, of Map.empty] unfolding shown by (auto simp del: list.map)
  then show ?thesis
    unfolding Let_def using letters shown by (intro conjI bump_malloc_ok)
qed

end
