(* ===== verification/Huffman.thy ===== *)
theory Huffman
  imports Binary_Tree "HOL-Library.Multiset"
begin

text \<open>
  The Huffman tree of \<^verbatim>\<open>data_struct/btree/HuffmanTree.cpp\<close>, built over the nodes of
  \<open>Binary_Tree\<close>, and the \<open>main\<close> of \<^verbatim>\<open>btree\<close>. The array of pointers is a list in which NULL
  marks an entry that has been merged. The weights are stored in characters, so the conversion
  from \<open>int\<close> is part of the model.
\<close>

section \<open>The program\<close>

definition to_char :: "int \<Rightarrow> int" where
  "to_char x = (x + 128) mod 256 - 128"

fun make_leaves :: "(BT heap \<Rightarrow> addr) \<Rightarrow> BT heap \<Rightarrow> int list \<Rightarrow> (BT heap \<times> addr list) option" where
  "make_leaves malloc h [] = Some (h, [])"
| "make_leaves malloc h (x # xs) =
     (let q = malloc h in
      if q = NULL then None
      else do {
        (h, b) \<leftarrow> make_leaves malloc (h(q \<mapsto> \<lparr>data = to_char x, left = NULL, right = NULL\<rparr>)) xs;
        Some (h, q # b) })"

text \<open>The first two entries that are not NULL; \<open>None\<close> is the \<open>-1\<close> of \<open>k1\<close> and the missing value of \<open>k2\<close>.\<close>

fun first_two :: "nat \<Rightarrow> nat option \<Rightarrow> addr list \<Rightarrow> nat option \<times> nat option" where
  "first_two j k1 [] = (k1, None)"
| "first_two j k1 (q # b) =
     (if q \<noteq> NULL \<and> k1 = None then first_two (Suc j) (Some j) b
      else if q \<noteq> NULL then (k1, Some j)
      else first_two (Suc j) k1 b)"

definition entry_data :: "BT heap \<Rightarrow> addr list \<Rightarrow> nat \<Rightarrow> int option" where
  "entry_data h b j = do { q \<leftarrow> aget b j; deref data h q }"

fun smallest_two :: "BT heap \<Rightarrow> addr list \<Rightarrow> nat \<Rightarrow> nat \<Rightarrow> nat list \<Rightarrow> (nat \<times> nat) option" where
  "smallest_two h b k1 k2 [] = Some (k1, k2)"
| "smallest_two h b k1 k2 (j # js) = do {
     q \<leftarrow> aget b j;
     (if q \<noteq> NULL then do {
        x \<leftarrow> entry_data h b j;
        x1 \<leftarrow> entry_data h b k1;
        (if x < x1 then smallest_two h b j k1 js
         else do {
           x2 \<leftarrow> entry_data h b k2;
           (if x < x2 then smallest_two h b k1 j js else smallest_two h b k1 k2 js) }) }
      else smallest_two h b k1 k2 js) }"

definition merge_round :: "(BT heap \<Rightarrow> addr) \<Rightarrow> BT heap \<Rightarrow> addr list \<Rightarrow> (BT heap \<times> addr list \<times> addr) option" where
  "merge_round malloc h b =
     (case first_two 0 None b of
        (Some k1, Some k2) \<Rightarrow> do {
          (k1, k2) \<leftarrow> smallest_two h b k1 k2 [k2..<length b];
          x1 \<leftarrow> entry_data h b k1;
          x2 \<leftarrow> entry_data h b k2;
          l \<leftarrow> aget b k1;
          r \<leftarrow> aget b k2;
          q \<leftarrow> Some (malloc h);
          (if q = NULL then None
           else Some (h(q \<mapsto> \<lparr>data = to_char (x1 + x2), left = l, right = r\<rparr>), b[k1 := q, k2 := NULL], q)) }
      | _ \<Rightarrow> None)"

fun merge_rounds :: "(BT heap \<Rightarrow> addr) \<Rightarrow> nat \<Rightarrow> BT heap \<Rightarrow> addr list \<Rightarrow> addr option \<Rightarrow> (BT heap \<times> addr option) option" where
  "merge_rounds malloc 0 h b q = Some (h, q)"
| "merge_rounds malloc (Suc i) h b q = do {
     (h, b, q) \<leftarrow> merge_round malloc h b;
     merge_rounds malloc i h b (Some q) }"

text \<open>For a single weight the returned pointer has never been assigned.\<close>

definition CreateHuffman :: "(BT heap \<Rightarrow> addr) \<Rightarrow> BT heap \<Rightarrow> int list \<Rightarrow> (addr \<times> BT heap) option" where
  "CreateHuffman malloc h a = do {
     (h, b) \<leftarrow> make_leaves malloc h a;
     (h, q) \<leftarrow> merge_rounds malloc (length a - 1) h b None;
     q \<leftarrow> q;
     Some (q, h) }"

text \<open>The characters that \<open>main\<close> prints.\<close>

definition btree_main :: "(BT heap \<Rightarrow> addr) \<Rightarrow> (int list \<times> int list) outcome option" where
  "btree_main malloc = do {
     created \<leftarrow> CreateBTree malloc Map.empty ''A(B(C),D(E(F,G),H(,I)))'';
     (case created of
        Exit c \<Rightarrow> Some (Exit c)
      | Ret (q, h) \<Rightarrow> do {
          out1 \<leftarrow> Inorder h q;
          (hufp, h) \<leftarrow> CreateHuffman malloc h [3, 9, 5, 12, 6, 15];
          out2 \<leftarrow> Inorder h hufp;
          Some (Ret (out1, out2)) }) }"

section \<open>Weighted trees\<close>

fun wt :: "int tree \<Rightarrow> int" where
  "wt Tip = 0"
| "wt (Nd x l r) = x"

text \<open>Every inner node has two children.\<close>

fun full :: "int tree \<Rightarrow> bool" where
  "full Tip \<longleftrightarrow> False"
| "full (Nd x l r) \<longleftrightarrow> l = Tip \<and> r = Tip \<or> full l \<and> full r"

text \<open>Every inner node carries the sum of its children.\<close>

fun sums :: "int tree \<Rightarrow> bool" where
  "sums Tip \<longleftrightarrow> True"
| "sums (Nd x l r) \<longleftrightarrow> l = Tip \<and> r = Tip \<or> x = wt l + wt r \<and> sums l \<and> sums r"

text \<open>The leaves with their depths, and the weighted length of the paths to them.\<close>

fun leaf_depths :: "nat \<Rightarrow> int tree \<Rightarrow> (nat \<times> int) multiset" where
  "leaf_depths d Tip = {#}"
| "leaf_depths d (Nd x l r) =
     (if l = Tip \<and> r = Tip then {#(d, x)#} else leaf_depths (Suc d) l + leaf_depths (Suc d) r)"

definition leaves :: "int tree \<Rightarrow> int multiset" where
  "leaves t = image_mset snd (leaf_depths 0 t)"

definition path_cost :: "(nat \<times> int) multiset \<Rightarrow> int" where
  "path_cost M = (\<Sum>(d, x)\<in>#M. int d * x)"

definition path_length :: "int tree \<Rightarrow> int" where
  "path_length t = path_cost (leaf_depths 0 t)"

fun inner :: "int tree \<Rightarrow> int" where
  "inner Tip = 0"
| "inner (Nd x l r) = (if l = Tip \<and> r = Tip then 0 else x + inner l + inner r)"

lemma snd_leaf_depths: "image_mset snd (leaf_depths d t) = leaves t"
proof -
  have "image_mset snd (leaf_depths d t) = image_mset snd (leaf_depths e t)" for e
    by (induction t arbitrary: d e) (simp, simp, metis)
  then show ?thesis
    by (simp add: leaves_def)
qed

lemma leaves_simps [simp]:
  "leaves Tip = {#}"
  "leaves (Nd x l r) = (if l = Tip \<and> r = Tip then {#x#} else leaves l + leaves r)"
  by (simp_all add: leaves_def [of Tip] leaves_def [of "Nd x l r"] snd_leaf_depths)

lemma path_cost_simps [simp]:
  "path_cost {#} = 0" "path_cost (add_mset (d, x) M) = int d * x + path_cost M"
  "path_cost (M + N) = path_cost M + path_cost N"
  by (simp_all add: path_cost_def)

text \<open>The weighted path length is the sum of the inner nodes.\<close>

lemma sums_leaves: "sums t \<Longrightarrow> full t \<Longrightarrow> wt t = sum_mset (leaves t)"
  by (induction t) auto

lemma path_cost_inner: "sums t \<Longrightarrow> full t \<Longrightarrow> path_cost (leaf_depths d t) = inner t + int d * wt t"
proof (induction t arbitrary: d)
  case (Nd x l r)
  then show ?case
    by (cases "l = Tip \<and> r = Tip") (auto simp: algebra_simps)
qed simp

lemma path_length_inner: "sums t \<Longrightarrow> full t \<Longrightarrow> path_length t = inner t"
  using path_cost_inner [of t 0] by (simp add: path_length_def)

section \<open>Merging the two smallest weights is optimal\<close>

text \<open>The depths of the leaves of a full binary tree.\<close>

inductive shape :: "nat multiset \<Rightarrow> bool" where
  shape_leaf: "shape {#0#}"
| shape_split: "shape (add_mset d D) \<Longrightarrow> shape (add_mset (Suc d) (add_mset (Suc d) D))"

lemma shape_tree:
  "full t \<Longrightarrow> shape (add_mset d D) \<Longrightarrow> shape (image_mset fst (leaf_depths d t) + D)"
proof (induction t arbitrary: d D)
  case (Nd x l r)
  show ?case
  proof (cases "l = Tip \<and> r = Tip")
    case False
    then have "full l" "full r"
      using Nd.prems(1) by auto
    have "shape (add_mset (Suc d) (add_mset (Suc d) D))"
      using Nd.prems(2) by (rule shape_split)
    then have "shape (image_mset fst (leaf_depths (Suc d) l) + add_mset (Suc d) D)"
      by (rule Nd.IH(1) [OF \<open>full l\<close>])
    then have "shape (image_mset fst (leaf_depths (Suc d) r) + (image_mset fst (leaf_depths (Suc d) l) + D))"
      by (intro Nd.IH(2) [OF \<open>full r\<close>]) simp
    moreover have "leaf_depths d (Nd x l r) = leaf_depths (Suc d) l + leaf_depths (Suc d) r"
      using False by auto
    ultimately show ?thesis
      by (simp only: image_mset_union ac_simps)
  qed (use Nd.prems in simp)
qed simp

text \<open>The two deepest leaves are siblings and can be replaced by their parent.\<close>

lemma shape_deepest:
  "shape D \<Longrightarrow> 1 < size D \<Longrightarrow>
    \<exists>m E. D = add_mset (Suc m) (add_mset (Suc m) E) \<and> (\<forall>d\<in>#E. d \<le> Suc m) \<and> shape (add_mset m E)"
proof (induction rule: shape.induct)
  case (shape_split d D)
  show ?case
  proof (cases "D = {#}")
    case True
    then show ?thesis
      using shape_split.hyps by (intro exI [of _ d] exI [of _ D]) simp
  next
    case False
    then have "1 < size (add_mset d D)"
      by (simp add: nonempty_has_size)
    then obtain m E where m: "add_mset d D = add_mset (Suc m) (add_mset (Suc m) E)"
      "\<forall>d\<in>#E. d \<le> Suc m" "shape (add_mset m E)"
      using shape_split.IH by blast
    show ?thesis
    proof (cases "d = Suc m")
      case True
      then have "D = add_mset (Suc m) E"
        using m(1) by simp
      then show ?thesis
        using True m(2) shape_split.hyps by (intro exI [of _ d] exI [of _ D]) auto
    next
      case False
      then obtain F where F: "E = add_mset d F" "D = add_mset (Suc m) (add_mset (Suc m) F)"
        using m(1) by (auto simp: add_eq_conv_ex)
      have "shape (add_mset (Suc d) (add_mset (Suc d) (add_mset m F)))"
        using m(3) F(1) by (intro shape.shape_split) (simp add: add_mset_commute)
      moreover have "Suc d \<le> Suc m" "\<forall>e\<in>#F. e \<le> Suc m"
        using m(2) F(1) False by auto
      ultimately show ?thesis
        using F(2)
        by (intro exI [of _ m] exI [of _ "add_mset (Suc d) (add_mset (Suc d) F)"]) (auto simp: add_mset_commute)
    qed
  qed
qed simp

text \<open>Exchanging the weights so that a deepest leaf has a smallest one does not cost more.\<close>

lemma exchange:
  assumes "m \<in># image_mset fst M" and "a \<in># image_mset snd M"
    and "\<forall>d\<in>#image_mset fst M. d \<le> m" and "\<forall>x\<in>#image_mset snd M. a \<le> x"
  shows "\<exists>N. image_mset fst M = add_mset m (image_mset fst N) \<and> image_mset snd M = add_mset a (image_mset snd N) \<and>
    path_cost (add_mset (m, a) N) \<le> path_cost M"
proof (cases "(m, a) \<in># M")
  case True
  then obtain N where "M = add_mset (m, a) N"
    by (meson multi_member_split)
  then show ?thesis
    by auto
next
  case False
  obtain x d where x: "(m, x) \<in># M" "(d, a) \<in># M"
    using assms(1,2) by auto
  then obtain M1 where M1: "M = add_mset (m, x) M1"
    by (meson multi_member_split)
  moreover have "(d, a) \<noteq> (m, x)"
    using False x by auto
  ultimately obtain N where N: "M1 = add_mset (d, a) N"
    using x(2) by (metis insert_noteq_member mset_add)
  have "d \<le> m" "a \<le> x"
    using assms(3,4) x by force+
  then have "0 \<le> (int m - int d) * (x - a)"
    by simp
  then have "int m * a + int d * x \<le> int m * x + int d * a"
    by (simp add: algebra_simps)
  then show ?thesis
    using M1 N by (intro exI [of _ "add_mset (d, x) N"]) (simp add: add_mset_commute)
qed

text \<open>So some tree that is not more expensive has two smallest weights as siblings.\<close>

lemma merge_smallest:
  assumes "shape (image_mset fst M)" and "image_mset snd M = add_mset a (add_mset b R)"
    and "a \<le> b" and "\<forall>x\<in>#R. b \<le> x"
  shows "\<exists>N. shape (image_mset fst N) \<and> image_mset snd N = add_mset (a + b) R \<and> path_cost N + (a + b) \<le> path_cost M"
proof -
  have "size (image_mset fst M) = size (image_mset snd M)"
    by simp
  then have "1 < size (image_mset fst M)"
    unfolding assms(2) by simp
  then obtain m E where m: "image_mset fst M = add_mset (Suc m) (add_mset (Suc m) E)"
    "\<forall>d\<in>#E. d \<le> Suc m" "shape (add_mset m E)"
    using shape_deepest [OF assms(1)] by blast
  obtain N1 where N1: "image_mset fst M = add_mset (Suc m) (image_mset fst N1)"
    "image_mset snd M = add_mset a (image_mset snd N1)" "path_cost (add_mset (Suc m, a) N1) \<le> path_cost M"
    using exchange [of "Suc m" M a] m assms(2-4) by force
  have fst: "image_mset fst N1 = add_mset (Suc m) E" and snd: "image_mset snd N1 = add_mset b R"
    using N1(1,2) m(1) assms(2) by simp_all
  obtain N2 where N2: "image_mset fst N1 = add_mset (Suc m) (image_mset fst N2)"
    "image_mset snd N1 = add_mset b (image_mset snd N2)" "path_cost (add_mset (Suc m, b) N2) \<le> path_cost N1"
    using exchange [of "Suc m" N1 b] m(2) assms(4) unfolding fst snd by auto
  have "shape (image_mset fst (add_mset (m, a + b) N2))" "image_mset snd (add_mset (m, a + b) N2) = add_mset (a + b) R"
    using m(3) N2(1,2) fst snd by simp_all
  moreover have "path_cost (add_mset (m, a + b) N2) + (a + b) \<le> path_cost M"
    using N1(3) N2(3) by (simp add: algebra_simps)
  ultimately show ?thesis
    by blast
qed

text \<open>The cost of merging the two smallest weights until one is left.\<close>

inductive greedy :: "int multiset \<Rightarrow> int \<Rightarrow> bool" where
  greedy_one: "greedy {#w#} 0"
| greedy_merge: "greedy (add_mset (a + b) R) c \<Longrightarrow> a \<le> b \<Longrightarrow> \<forall>x\<in>#R. b \<le> x \<Longrightarrow>
    greedy (add_mset a (add_mset b R)) (c + (a + b))"

lemma shape_one: "shape D \<Longrightarrow> size D = 1 \<Longrightarrow> D = {#0#}"
  by (erule shape.cases) auto

lemma greedy_minimal:
  "greedy W c \<Longrightarrow> shape (image_mset fst M) \<Longrightarrow> image_mset snd M = W \<Longrightarrow> c \<le> path_cost M"
proof (induction arbitrary: M rule: greedy.induct)
  case (greedy_one w)
  then have "size M = 1"
    by (metis size_image_mset size_single)
  then obtain d x where "M = {#(d, x)#}"
    by (metis size_1_singleton_mset surj_pair)
  then show ?case
    using shape_one [OF greedy_one.prems(1)] by simp
next
  case (greedy_merge a b R c)
  obtain N where "shape (image_mset fst N)" "image_mset snd N = add_mset (a + b) R" "path_cost N + (a + b) \<le> path_cost M"
    using merge_smallest [OF greedy_merge.prems greedy_merge.hyps(2,3)] by blast
  then show ?case
    using greedy_merge.IH [of N] by linarith
qed

lemma greedy_optimal:
  assumes "greedy (leaves t) c" and "full t"
  shows "c \<le> path_length t"
proof -
  have "shape (image_mset fst (leaf_depths 0 t))"
    using shape_tree [OF assms(2), of 0 "{#}"] shape_leaf by simp
  then show ?thesis
    using greedy_minimal [OF assms(1)] by (simp add: path_length_def leaves_def)
qed

section \<open>The two smallest entries\<close>

lemma first_two_second:
  "i < length b \<Longrightarrow> b ! i \<noteq> NULL \<Longrightarrow>
    \<exists>m<length b. first_two j (Some k1) b = (Some k1, Some (j + m)) \<and> b ! m \<noteq> NULL \<and> (\<forall>i<m. b ! i = NULL)"
proof (induction b arbitrary: i j)
  case (Cons q b)
  show ?case
  proof (cases "q = NULL")
    case True
    then obtain i' where "i = Suc i'" "i' < length b" "b ! i' \<noteq> NULL"
      using Cons.prems by (cases i) auto
    from Cons.IH [OF this(2,3), of "Suc j"] True show ?thesis
      by (force simp: less_Suc_eq_0_disj)
  qed force
qed simp

lemma first_two_live:
  "i < i' \<Longrightarrow> i' < length b \<Longrightarrow> b ! i \<noteq> NULL \<Longrightarrow> b ! i' \<noteq> NULL \<Longrightarrow>
    \<exists>m m'. m < m' \<and> m' < length b \<and> first_two j None b = (Some (j + m), Some (j + m')) \<and> b ! m \<noteq> NULL \<and>
      b ! m' \<noteq> NULL \<and> (\<forall>l<m'. l \<noteq> m \<longrightarrow> b ! l = NULL)"
proof (induction b arbitrary: i i' j)
  case (Cons q b)
  obtain n' where n': "i' = Suc n'" "n' < length b" "b ! n' \<noteq> NULL"
    using Cons.prems by (cases i') auto
  show ?case
  proof (cases "q = NULL")
    case True
    then obtain n where "i = Suc n" "b ! n \<noteq> NULL" "n < n'"
      using Cons.prems n' by (cases i) auto
    from Cons.IH [OF this(3) n'(2) this(2) n'(3), of "Suc j"] obtain m m' where
      "m < m'" "m' < length b" "first_two (Suc j) None b = (Some (Suc j + m), Some (Suc j + m'))"
      "b ! m \<noteq> NULL" "b ! m' \<noteq> NULL" "\<forall>l<m'. l \<noteq> m \<longrightarrow> b ! l = NULL"
      by blast
    then show ?thesis
      using True by (intro exI [of _ "Suc m"] exI [of _ "Suc m'"]) (auto simp: less_Suc_eq_0_disj)
  next
    case False
    obtain m where "m < length b" "first_two (Suc j) (Some j) b = (Some j, Some (Suc j + m))"
      "b ! m \<noteq> NULL" "\<forall>i<m. b ! i = NULL"
      using first_two_second [OF n'(2,3)] by blast
    then show ?thesis
      using False by (intro exI [of _ 0] exI [of _ "Suc m"]) (auto simp: less_Suc_eq_0_disj)
  qed
qed simp

text \<open>\<open>k1\<close> and \<open>k2\<close> are the smallest of the live entries below \<open>j\<close>.\<close>

definition smallest_below :: "nat set \<Rightarrow> (nat \<Rightarrow> int) \<Rightarrow> nat \<Rightarrow> nat \<Rightarrow> nat \<Rightarrow> bool" where
  "smallest_below L w j k1 k2 \<longleftrightarrow> k1 \<noteq> k2 \<and> k1 \<in> L \<and> k2 \<in> L \<and> k1 < j \<and> k2 < j \<and> w k1 \<le> w k2 \<and>
     (\<forall>i\<in>L. i < j \<longrightarrow> i \<noteq> k1 \<longrightarrow> i \<noteq> k2 \<longrightarrow> w k2 \<le> w i)"

lemma smallest_two_result:
  assumes entries: "\<And>i. i < length b \<Longrightarrow> b ! i \<noteq> NULL \<longleftrightarrow> i \<in> L" "\<And>i. i \<in> L \<Longrightarrow> entry_data h b i = Some (w i)"
    and "j \<le> length b" and "smallest_below L w j k1 k2"
  shows "\<exists>m1 m2. smallest_two h b k1 k2 [j..<length b] = Some (m1, m2) \<and> smallest_below L w (length b) m1 m2"
  using assms(3,4)
proof (induction j arbitrary: k1 k2 rule: inc_induct)
  case (step j)
  have js: "[j..<length b] = j # [Suc j..<length b]"
    using step.hyps by (simp add: upt_rec)
  have k: "entry_data h b k1 = Some (w k1)" "entry_data h b k2 = Some (w k2)"
    using step.prems entries(2) by (simp_all add: smallest_below_def)
  show ?case
  proof (cases "j \<in> L")
    case False
    then have "smallest_below L w (Suc j) k1 k2"
      using step.prems by (auto simp: smallest_below_def less_Suc_eq)
    then show ?thesis
      using step.IH False entries(1) step.hyps unfolding js by (simp add: aget_def)
  next
    case True
    consider "w j < w k1" "smallest_below L w (Suc j) j k1" | "\<not> w j < w k1" "w j < w k2" "smallest_below L w (Suc j) k1 j"
      | "\<not> w j < w k1" "\<not> w j < w k2" "smallest_below L w (Suc j) k1 k2"
      using step.prems True by (fastforce simp: smallest_below_def less_Suc_eq)
    then show ?thesis
      using step.IH entries True step.hyps k unfolding js by cases (simp_all add: aget_def)
  qed
qed simp

lemma select_two:
  assumes entries: "\<And>i. i < length b \<Longrightarrow> b ! i \<noteq> NULL \<longleftrightarrow> i \<in> L" "\<And>i. i \<in> L \<Longrightarrow> entry_data h b i = Some (w i)"
    and "L \<subseteq> {..<length b}" and "1 < card L"
  shows "\<exists>k1 k2 m1 m2. first_two 0 None b = (Some k1, Some k2) \<and>
    smallest_two h b k1 k2 [k2..<length b] = Some (m1, m2) \<and> smallest_below L w (length b) m1 m2"
proof -
  have "finite L"
    using assms(3) finite_subset by blast
  then have "\<not> (\<forall>i\<in>L. \<forall>i'\<in>L. i = i')"
    using card_le_Suc0_iff_eq [of L] assms(4) by simp
  then obtain i i' where "i \<in> L" "i' \<in> L" "i < i'"
    by (metis linorder_neqE_nat)
  then have "\<exists>m m'. m < m' \<and> m' < length b \<and> first_two 0 None b = (Some (0 + m), Some (0 + m')) \<and> b ! m \<noteq> NULL \<and>
      b ! m' \<noteq> NULL \<and> (\<forall>l<m'. l \<noteq> m \<longrightarrow> b ! l = NULL)"
    using assms(3) entries(1) by (intro first_two_live [of i i']) auto
  then obtain k1 k2 where k: "k1 < k2" "k2 < length b" "first_two 0 None b = (Some k1, Some k2)"
    "b ! k1 \<noteq> NULL" "b ! k2 \<noteq> NULL" "\<forall>l<k2. l \<noteq> k1 \<longrightarrow> b ! l = NULL"
    by auto
  have L: "k1 \<in> L" "k2 \<in> L"
    using k(1,2,4,5) entries(1) by simp_all
  have below: "\<not> (i \<in> L \<and> i < Suc k2 \<and> i \<noteq> k1 \<and> i \<noteq> k2)" for i
    using k(2,6) entries(1) [of i] by (auto simp: less_Suc_eq)
  have js: "[k2..<length b] = k2 # [Suc k2..<length b]"
    using k(2) by (simp add: upt_rec)
  have small: "smallest_below L w (Suc k2) k2 k1" if "w k2 < w k1"
    unfolding smallest_below_def using that L k(1) below by auto
  have small': "smallest_below L w (Suc k2) k1 k2" if "\<not> w k2 < w k1"
    unfolding smallest_below_def using that L k(1) below by auto
  have "\<exists>m1 m2. smallest_two h b k1 k2 [k2..<length b] = Some (m1, m2) \<and> smallest_below L w (length b) m1 m2"
    using smallest_two_result [OF entries _ small] smallest_two_result [OF entries _ small'] k(2,5) entries(2) L(1,2)
    unfolding js by (cases "w k2 < w k1") (simp_all add: aget_def Suc_leI)
  then show ?thesis
    using k(3) by blast
qed

section \<open>Forests\<close>

text \<open>The trees of the entries of the array; \<open>Tip\<close> for an entry that is NULL.\<close>

definition live :: "(addr \<times> int) tree list \<Rightarrow> nat set" where
  "live ts = {i. i < length ts \<and> ts ! i \<noteq> Tip}"

definition forest_sum :: "(int tree \<Rightarrow> 'b :: comm_monoid_add) \<Rightarrow> (addr \<times> int) tree list \<Rightarrow> 'b" where
  "forest_sum f ts = (\<Sum>i\<in>live ts. f (erase (ts ! i)))"

lemma erase_Tip [simp]: "erase t = Tip \<longleftrightarrow> t = Tip"
  by (cases t) simp_all

lemma finite_live: "finite (live ts)"
  by (simp add: live_def)

text \<open>Joining the trees at \<open>k1\<close> and \<open>k2\<close>.\<close>

definition joined :: "(addr \<times> int) tree list \<Rightarrow> nat \<Rightarrow> nat \<Rightarrow> addr \<Rightarrow> (addr \<times> int) tree list" where
  "joined ts k1 k2 q =
     ts[k1 := Nd (q, wt (erase (ts ! k1)) + wt (erase (ts ! k2))) (ts ! k1) (ts ! k2), k2 := Tip]"

lemma live_joined:
  assumes "k1 \<in> live ts" and "k2 \<in> live ts" and "k1 \<noteq> k2"
  shows "live (joined ts k1 k2 q) = live ts - {k2}"
  using assms by (auto simp: live_def joined_def nth_list_update)

lemma joined_other: "i \<noteq> k1 \<Longrightarrow> i \<noteq> k2 \<Longrightarrow> joined ts k1 k2 q ! i = ts ! i"
  by (simp add: joined_def)

lemma joined_at:
  assumes "k1 \<in> live ts" and "k1 \<noteq> k2"
  shows "joined ts k1 k2 q ! k1 = Nd (q, wt (erase (ts ! k1)) + wt (erase (ts ! k2))) (ts ! k1) (ts ! k2)"
  using assms by (simp add: joined_def live_def)

lemma forest_sum_split:
  assumes "k1 \<in> live ts" and "k2 \<in> live ts" and "k1 \<noteq> k2"
  shows "forest_sum f ts = f (erase (ts ! k1)) + f (erase (ts ! k2)) + (\<Sum>i\<in>live ts - {k1, k2}. f (erase (ts ! i)))"
proof -
  have "live ts = insert k1 (insert k2 (live ts - {k1, k2}))"
    using assms by blast
  then have "forest_sum f ts = (\<Sum>i\<in>insert k1 (insert k2 (live ts - {k1, k2})). f (erase (ts ! i)))"
    by (simp only: forest_sum_def)
  also have "\<dots> = f (erase (ts ! k1)) + f (erase (ts ! k2)) + (\<Sum>i\<in>live ts - {k1, k2}. f (erase (ts ! i)))"
    using finite_live [of ts] assms(3) by (simp add: add.assoc)
  finally show ?thesis .
qed

lemma forest_sum_joined:
  assumes "k1 \<in> live ts" and "k2 \<in> live ts" and "k1 \<noteq> k2"
  shows "forest_sum f (joined ts k1 k2 q) =
    f (Nd (wt (erase (ts ! k1)) + wt (erase (ts ! k2))) (erase (ts ! k1)) (erase (ts ! k2))) +
    (\<Sum>i\<in>live ts - {k1, k2}. f (erase (ts ! i)))"
proof -
  have "live (joined ts k1 k2 q) = insert k1 (live ts - {k1, k2})"
    using live_joined [OF assms] assms by auto
  then have "forest_sum f (joined ts k1 k2 q) =
      f (erase (joined ts k1 k2 q ! k1)) + (\<Sum>i\<in>live ts - {k1, k2}. f (erase (joined ts k1 k2 q ! i)))"
    using finite_live [of ts] by (simp add: forest_sum_def)
  also have "(\<Sum>i\<in>live ts - {k1, k2}. f (erase (joined ts k1 k2 q ! i))) = (\<Sum>i\<in>live ts - {k1, k2}. f (erase (ts ! i)))"
    by (rule sum.cong) (auto simp: joined_other)
  finally show ?thesis
    by (simp add: joined_at [OF assms(1,3)])
qed

lemma rep_facts:
  assumes "rep h q t"
  shows "q \<noteq> NULL \<longleftrightarrow> t \<noteq> Tip" and "root t = q" and "addrs t \<subseteq> dom h"
    and "t \<noteq> Tip \<Longrightarrow> deref data h q = Some (wt (erase t))"
proof -
  show "q \<noteq> NULL \<longleftrightarrow> t \<noteq> Tip" "root t = q"
    using assms by (cases "(h, q, t)" rule: rep.cases; auto)+
  show "t \<noteq> Tip \<Longrightarrow> deref data h q = Some (wt (erase t))"
    using assms by (cases "(h, q, t)" rule: rep.cases) (auto simp: c_simps)
  show "addrs t \<subseteq> dom h"
    using assms
  proof (induction t arbitrary: q)
    case (Nd n l r)
    obtain a x where n: "n = (a, x)"
      by (cases n)
    then obtain lp rp where "rep h lp l" "rep h rp r" "a \<in> dom h"
      using Nd.prems by auto
    then have "addrs l \<subseteq> dom h" "addrs r \<subseteq> dom h" "a \<in> dom h"
      using Nd.IH by blast+
    then show ?case
      using n by auto
  qed simp
qed

text \<open>
  The state between two rounds: the live entries are full trees of sums, the weights fit into
  a character, and the nodes of \<open>h0\<close> are as they were.
\<close>

definition good :: "BT heap \<Rightarrow> BT heap \<Rightarrow> addr list \<Rightarrow> (addr \<times> int) tree list \<Rightarrow> bool" where
  "good h0 h b ts \<longleftrightarrow> finite (dom h) \<and> list_all2 (rep h) b ts \<and>
     (\<forall>i\<in>live ts. full (erase (ts ! i)) \<and> sums (erase (ts ! i)) \<and> 0 \<le> wt (erase (ts ! i))) \<and>
     forest_sum wt ts \<le> 127 \<and> (\<forall>a\<in>dom h0. h a = h0 a) \<and> dom h0 \<subseteq> dom h"

lemma good_entries:
  assumes "good h0 h b ts"
  shows "i < length b \<Longrightarrow> b ! i \<noteq> NULL \<longleftrightarrow> i \<in> live ts"
    and "i \<in> live ts \<Longrightarrow> entry_data h b i = Some (wt (erase (ts ! i)))"
    and "length b = length ts"
proof -
  have rep: "i < length ts \<Longrightarrow> rep h (b ! i) (ts ! i)" and "length b = length ts" for i
    using assms by (auto simp: good_def list_all2_conv_all_nth)
  then show "length b = length ts" "i < length b \<Longrightarrow> b ! i \<noteq> NULL \<longleftrightarrow> i \<in> live ts"
    "i \<in> live ts \<Longrightarrow> entry_data h b i = Some (wt (erase (ts ! i)))"
    using rep_facts [OF rep, of i] by (simp_all add: live_def entry_data_def aget_def)
qed

lemma to_char_id: "0 \<le> x \<Longrightarrow> x \<le> 127 \<Longrightarrow> to_char x = x"
  by (simp add: to_char_def)

lemma good_join:
  assumes "good h0 h b ts" and "k1 \<in> live ts" and "k2 \<in> live ts" and "k1 \<noteq> k2" and "q \<noteq> NULL" and "q \<notin> dom h"
  defines "w \<equiv> wt (erase (ts ! k1)) + wt (erase (ts ! k2))"
  shows "to_char w = w"
    and "good h0 (h(q \<mapsto> \<lparr>data = w, left = b ! k1, right = b ! k2\<rparr>)) (b[k1 := q, k2 := NULL]) (joined ts k1 k2 q)"
proof -
  let ?h = "h(q \<mapsto> \<lparr>data = w, left = b ! k1, right = b ! k2\<rparr>)" and ?ts = "joined ts k1 k2 q"
  have len: "length b = length ts" and rep: "\<And>i. i < length ts \<Longrightarrow> rep h (b ! i) (ts ! i)"
    using assms(1) by (auto simp: good_def list_all2_conv_all_nth)
  have ok: "\<forall>i\<in>live ts. full (erase (ts ! i)) \<and> sums (erase (ts ! i)) \<and> 0 \<le> wt (erase (ts ! i))"
    using assms(1) by (simp add: good_def)
  have k: "k1 < length ts" "k2 < length ts"
    using assms(2,3) by (simp_all add: live_def)
  have "0 \<le> (\<Sum>i\<in>live ts - {k1, k2}. wt (erase (ts ! i)))"
    using ok by (intro sum_nonneg) simp
  then have "0 \<le> w" "w \<le> 127"
    using forest_sum_split [OF assms(2-4), of wt] assms(1) ok assms(2,3) by (simp_all add: w_def good_def)
  then show "to_char w = w"
    by (rule to_char_id)
  have rep': "rep ?h (b ! i) (ts ! i)" if "i < length ts" for i
    using rep_facts(3) [OF rep [OF that]] assms(6) by (intro rep_frame [OF rep [OF that]]) auto
  have "rep ?h q (Nd (q, w) (ts ! k1) (ts ! k2))"
    using rep' k assms(5) by simp
  then have "list_all2 (rep ?h) (b[k1 := q, k2 := NULL]) ?ts"
    using rep' k len assms(4) by (auto simp: joined_def list_all2_conv_all_nth nth_list_update w_def)
  moreover have "full (erase (?ts ! i)) \<and> sums (erase (?ts ! i)) \<and> 0 \<le> wt (erase (?ts ! i))" if "i \<in> live ?ts" for i
    using that live_joined [OF assms(2-4), of q] ok assms(2-4) \<open>0 \<le> w\<close> joined_at [OF assms(2,4), of q]
      joined_other [of i k1 k2 ts q] by (cases "i = k1") (auto simp: w_def)
  moreover have "forest_sum wt ?ts = forest_sum wt ts"
    using forest_sum_split [OF assms(2-4), of wt] forest_sum_joined [OF assms(2-4), of wt q] by simp
  ultimately show "good h0 ?h (b[k1 := q, k2 := NULL]) ?ts"
    using assms(1,6) unfolding good_def by auto
qed

lemma merge_round_good:
  assumes "malloc_ok malloc" and "malloc_total malloc" and "good h0 h b ts" and "1 < card (live ts)"
  shows "\<exists>k1 k2 q h'. merge_round malloc h b = Some (h', b[k1 := q, k2 := NULL], q) \<and>
    smallest_below (live ts) (\<lambda>i. wt (erase (ts ! i))) (length ts) k1 k2 \<and> good h0 h' (b[k1 := q, k2 := NULL]) (joined ts k1 k2 q)"
proof -
  let ?w = "\<lambda>i. wt (erase (ts ! i))"
  note entries = good_entries [OF assms(3)]
  obtain i1 i2 k1 k2 where sel: "first_two 0 None b = (Some i1, Some i2)"
    "smallest_two h b i1 i2 [i2..<length b] = Some (k1, k2)" and k: "smallest_below (live ts) ?w (length ts) k1 k2"
    using select_two [of b "live ts" h ?w] entries assms(4) by (auto simp: live_def)
  have live: "k1 \<in> live ts" "k2 \<in> live ts" "k1 \<noteq> k2"
    using k by (simp_all add: smallest_below_def)
  define q where "q = malloc h"
  have q: "q \<noteq> NULL" "q \<notin> dom h"
    using fresh_node [OF assms(1,2), of h] assms(3) by (auto simp: q_def good_def)
  note join = good_join [OF assms(3) live q]
  have "aget b k1 = Some (b ! k1)" "aget b k2 = Some (b ! k2)"
    using live entries(3) by (simp_all add: aget_def live_def)
  then have "merge_round malloc h b =
      Some (h(q \<mapsto> \<lparr>data = ?w k1 + ?w k2, left = b ! k1, right = b ! k2\<rparr>), b[k1 := q, k2 := NULL], q)"
    using sel entries(2) live q(1) join(1) by (simp add: merge_round_def q_def [symmetric])
  then show ?thesis
    using k join(2) by blast
qed

lemma mem_sum_single: "finite A \<Longrightarrow> x \<in># (\<Sum>i\<in>A. {#f i#}) \<longleftrightarrow> x \<in> f ` A"
  by (induction rule: finite_induct) auto

lemma greedy_joined:
  assumes "smallest_below (live ts) (\<lambda>i. wt (erase (ts ! i))) (length ts) k1 k2"
    and "greedy (forest_sum (\<lambda>t. {#wt t#}) (joined ts k1 k2 q)) (c - forest_sum inner (joined ts k1 k2 q))"
  shows "greedy (forest_sum (\<lambda>t. {#wt t#}) ts) (c - forest_sum inner ts)"
proof -
  let ?w = "\<lambda>i. wt (erase (ts ! i))" and ?rest = "live ts - {k1, k2}"
  let ?R = "\<Sum>i\<in>?rest. {#?w i#}"
  have k: "k1 \<in> live ts" "k2 \<in> live ts" "k1 \<noteq> k2" "?w k1 \<le> ?w k2"
    using assms(1) by (simp_all add: smallest_below_def)
  have "\<forall>x\<in>?w ` ?rest. ?w k2 \<le> x"
    using assms(1) by (auto simp: smallest_below_def live_def)
  moreover have "set_mset ?R = ?w ` ?rest"
    using mem_sum_single [of ?rest _ ?w] finite_live [of ts] by (intro set_eqI) simp
  ultimately have "\<forall>x\<in>#?R. ?w k2 \<le> x"
    by simp
  moreover have "greedy (add_mset (?w k1 + ?w k2) ?R) (c - forest_sum inner (joined ts k1 k2 q))"
    using assms(2) forest_sum_joined [OF k(1-3), of "\<lambda>t. {#wt t#}" q] by simp
  ultimately have "greedy (add_mset (?w k1) (add_mset (?w k2) ?R)) (c - forest_sum inner (joined ts k1 k2 q) + (?w k1 + ?w k2))"
    using k(4) by (intro greedy_merge)
  moreover have "forest_sum inner (joined ts k1 k2 q) = forest_sum inner ts + (?w k1 + ?w k2)"
    using forest_sum_joined [OF k(1-3), of inner q] forest_sum_split [OF k(1-3), of inner] k(1)
    by (simp add: live_def)
  moreover have "forest_sum (\<lambda>t. {#wt t#}) ts = add_mset (?w k1) (add_mset (?w k2) ?R)"
    using forest_sum_split [OF k(1-3), of "\<lambda>t. {#wt t#}"] by simp
  ultimately show ?thesis
    by simp
qed

lemma merge_rounds_good:
  assumes malloc: "malloc_ok malloc" "malloc_total malloc"
  shows "good h0 h b ts \<Longrightarrow> card (live ts) = Suc n \<Longrightarrow> (n = 0 \<Longrightarrow> \<forall>i\<in>live ts. q = Some (b ! i)) \<Longrightarrow>
    \<exists>h' p u. merge_rounds malloc n h b q = Some (h', Some p) \<and> rep h' p u \<and> full (erase u) \<and> sums (erase u) \<and>
      leaves (erase u) = forest_sum leaves ts \<and>
      greedy (forest_sum (\<lambda>t. {#wt t#}) ts) (inner (erase u) - forest_sum inner ts) \<and> (\<forall>a\<in>dom h0. h' a = h0 a)"
proof (induction n arbitrary: h b ts q)
  case 0
  then obtain i where i: "live ts = {i}"
    by (auto simp: card_Suc_eq)
  then have "i < length ts"
    by (auto simp: live_def)
  then have "rep h (b ! i) (ts ! i)" "full (erase (ts ! i))" "sums (erase (ts ! i))" "\<forall>a\<in>dom h0. h a = h0 a"
    using 0(1) i by (simp_all add: good_def list_all2_conv_all_nth)
  moreover have "forest_sum leaves ts = leaves (erase (ts ! i))" "forest_sum inner ts = inner (erase (ts ! i))"
    "forest_sum (\<lambda>t. {#wt t#}) ts = {#wt (erase (ts ! i))#}"
    by (simp_all add: forest_sum_def i)
  ultimately show ?case
    using 0(3) i by (intro exI [of _ h] exI [of _ "b ! i"] exI [of _ "ts ! i"]) (simp add: greedy_one)
next
  case (Suc n)
  obtain k1 k2 p h' where round: "merge_round malloc h b = Some (h', b[k1 := p, k2 := NULL], p)"
    and k: "smallest_below (live ts) (\<lambda>i. wt (erase (ts ! i))) (length ts) k1 k2"
    and good: "good h0 h' (b[k1 := p, k2 := NULL]) (joined ts k1 k2 p)"
    using merge_round_good [OF malloc Suc.prems(1)] Suc.prems(2) by auto
  have live: "k1 \<in> live ts" "k2 \<in> live ts" "k1 \<noteq> k2"
    using k by (simp_all add: smallest_below_def)
  have card: "card (live (joined ts k1 k2 p)) = Suc n"
    using live_joined [OF live] live Suc.prems(2) finite_live [of ts] by simp
  moreover have "\<forall>i\<in>live (joined ts k1 k2 p). Some p = Some (b[k1 := p, k2 := NULL] ! i)" if "n = 0"
  proof -
    have "k1 \<in> live (joined ts k1 k2 p)"
      using live_joined [OF live] live by simp
    then have "live (joined ts k1 k2 p) = {k1}"
      using card that by (auto simp: card_Suc_eq)
    then show ?thesis
      using live good_entries(3) [OF Suc.prems(1)] by (simp add: live_def)
  qed
  ultimately obtain h'' p' u where u: "merge_rounds malloc n h' (b[k1 := p, k2 := NULL]) (Some p) = Some (h'', Some p')"
    "rep h'' p' u" "full (erase u)" "sums (erase u)" "leaves (erase u) = forest_sum leaves (joined ts k1 k2 p)"
    "\<forall>a\<in>dom h0. h'' a = h0 a"
    and greedy: "greedy (forest_sum (\<lambda>t. {#wt t#}) (joined ts k1 k2 p)) (inner (erase u) - forest_sum inner (joined ts k1 k2 p))"
    using Suc.IH [OF good] by blast
  have "forest_sum leaves (joined ts k1 k2 p) = forest_sum leaves ts"
    using forest_sum_joined [OF live, of leaves p] forest_sum_split [OF live, of leaves] live(1) by (simp add: live_def)
  then show ?case
    using u round greedy_joined [OF k greedy] by (intro exI [of _ h''] exI [of _ p'] exI [of _ u]) simp
qed

lemma make_leaves_good:
  assumes malloc: "malloc_ok malloc" "malloc_total malloc"
  shows "finite (dom h) \<Longrightarrow> \<forall>x\<in>set a. 0 \<le> x \<and> x \<le> 127 \<Longrightarrow>
    \<exists>h' b. make_leaves malloc h a = Some (h', b) \<and> length b = length a \<and> finite (dom h') \<and> dom h \<subseteq> dom h' \<and>
      (\<forall>c\<in>dom h. h' c = h c) \<and> list_all2 (rep h') b (map (\<lambda>n. Nd n Tip Tip) (zip b a))"
proof (induction a arbitrary: h)
  case (Cons x a)
  define q where "q = malloc h"
  have q: "q \<noteq> NULL" "q \<notin> dom h"
    using fresh_node [OF malloc Cons.prems(1)] by (simp_all add: q_def)
  let ?h = "h(q \<mapsto> \<lparr>data = x, left = NULL, right = NULL\<rparr>)"
  have x: "to_char x = x"
    using Cons.prems(2) by (simp add: to_char_id)
  obtain h' b where h': "make_leaves malloc ?h a = Some (h', b)" "length b = length a" "finite (dom h')"
    "dom ?h \<subseteq> dom h'" "\<forall>c\<in>dom ?h. h' c = ?h c" "list_all2 (rep h') b (map (\<lambda>n. Nd n Tip Tip) (zip b a))"
  proof -
    have "finite (dom ?h)" "\<forall>x\<in>set a. 0 \<le> x \<and> x \<le> 127"
      using Cons.prems by simp_all
    from Cons.IH [OF this] show thesis
      using that by blast
  qed
  have "h' q = ?h q" "\<forall>c\<in>dom h. h' c = h c"
    using h'(5) q(2) by auto
  then show ?case
    using h' q x by (intro exI [of _ h'] exI [of _ "q # b"]) (simp add: q_def [symmetric] Let_def)
qed simp

lemma forest_sum_leaves:
  assumes "length b = length a"
  shows "forest_sum f (map (\<lambda>n. Nd n Tip Tip) (zip b a)) = sum_list (map (\<lambda>x. f (Nd x Tip Tip)) a)"
proof -
  have "live (map (\<lambda>n. Nd n Tip Tip) (zip b a)) = {0..<length a}"
    using assms by (auto simp: live_def)
  then show ?thesis
    using assms by (simp add: forest_sum_def sum_list_sum_nth)
qed

lemma sum_list_singletons: "sum_list (map (\<lambda>x. {#x#}) a) = mset a"
  by (induction a) simp_all

lemma CreateHuffman_greedy:
  assumes "malloc_ok malloc" and "malloc_total malloc" and "finite (dom h)"
    and "2 \<le> length a" and "\<forall>x\<in>set a. 0 \<le> x" and "sum_list a \<le> 127"
  shows "\<exists>q h' u. CreateHuffman malloc h a = Some (q, h') \<and> rep h' q u \<and> full (erase u) \<and> sums (erase u) \<and>
    leaves (erase u) = mset a \<and> (\<forall>c\<in>dom h. h' c = h c) \<and> greedy (mset a) (path_length (erase u))"
proof -
  have small: "\<forall>x\<in>set a. 0 \<le> x \<and> x \<le> 127"
    using assms(5,6) member_le_sum_list [of _ a] by force
  obtain h1 b where h1: "make_leaves malloc h a = Some (h1, b)" "length b = length a" "finite (dom h1)"
    "dom h \<subseteq> dom h1" "\<forall>c\<in>dom h. h1 c = h c" "list_all2 (rep h1) b (map (\<lambda>n. Nd n Tip Tip) (zip b a))"
    using make_leaves_good [OF assms(1-3) small] by blast
  let ?ts = "map (\<lambda>n. Nd n Tip Tip) (zip b a)"
  note fsum = forest_sum_leaves [OF h1(2)]
  have "live ?ts = {0..<length a}"
    using h1(2) by (auto simp: live_def)
  then have card: "card (live ?ts) = Suc (length a - 1)"
    using assms(4) by simp
  have good: "good h h1 b ?ts"
    using h1 assms(5,6) fsum [of wt] by (auto simp: good_def live_def)
  obtain h' q u where u: "merge_rounds malloc (length a - 1) h1 b None = Some (h', Some q)" "rep h' q u"
    "full (erase u)" "sums (erase u)" "leaves (erase u) = forest_sum leaves ?ts" "\<forall>c\<in>dom h. h' c = h c"
    and greedy: "greedy (forest_sum (\<lambda>t. {#wt t#}) ?ts) (inner (erase u) - forest_sum inner ?ts)"
    using merge_rounds_good [OF assms(1,2) good card, of None] assms(4) by auto
  have "forest_sum leaves ?ts = mset a" "forest_sum (\<lambda>t. {#wt t#}) ?ts = mset a" "forest_sum inner ?ts = 0"
    using fsum [of leaves] fsum [of "\<lambda>t. {#wt t#}"] fsum [of inner] by (simp_all add: sum_list_singletons)
  then show ?thesis
    using h1(1) u greedy path_length_inner [OF u(4,3)]
    by (intro exI [of _ q] exI [of _ h'] exI [of _ u]) (simp add: CreateHuffman_def)
qed

text \<open>With a single weight the code returns a pointer that it has not assigned.\<close>

lemma huffman_single: "CreateHuffman malloc h [x] = None"
  by (simp add: CreateHuffman_def Let_def bind_eq_None_conv split: option.splits)

text \<open>\<open>main\<close> prints the letters of its tree in order, and an optimal tree of its weights.\<close>

lemma btree_main_prints:
  assumes "malloc_ok malloc" and "malloc_total malloc"
  shows "\<exists>t. btree_main malloc = Some (Ret (map of_char ''CBAFEGDHI'', inorder t)) \<and> full t \<and> sums t \<and>
    leaves t = mset [3, 9, 5, 12, 6, 15] \<and> greedy (mset [3, 9, 5, 12, 6, 15]) (path_length t)"
proof -
  let ?l = "Nd CHR ''B'' (Nd CHR ''C'' Tip Tip) Tip"
  let ?r = "Nd CHR ''D'' (Nd CHR ''E'' (Nd CHR ''F'' Tip Tip) (Nd CHR ''G'' Tip Tip)) (Nd CHR ''H'' Tip (Nd CHR ''I'' Tip Tip))"
  let ?t = "Nd CHR ''A'' ?l ?r" and ?a = "[3, 9, 5, 12, 6, 15] :: int list"
  have t: "show_tree ?t = ''A(B(C),D(E(F,G),H(,I)))''" "inorder ?t = ''CBAFEGDHI''" "nest ?t \<le> MS"
    "\<forall>c\<in>set_tree ?t. is_letter c"
    by (simp_all add: MS_def is_letter_def less_eq_char_def)
  have "finite (dom (Map.empty :: BT heap))"
    by simp
  note letters = CreateBTree_letters(1) [OF assms this refl t(4,3), unfolded t(1,2)]
  then obtain q h u where h: "CreateBTree malloc Map.empty ''A(B(C),D(E(F,G),H(,I)))'' = Some (Ret (q, h))"
    "dom h = addrs u" "Inorder h q = Some (map of_char ''CBAFEGDHI'')"
    by (simp only: dom_empty Un_empty_left) blast
  have "finite (dom h)" "2 \<le> length ?a" "\<forall>x\<in>set ?a. 0 \<le> x" "sum_list ?a \<le> 127"
    using h(2) finite_addrs by simp_all
  then obtain q' h' v where v: "CreateHuffman malloc h ?a = Some (q', h')" "rep h' q' v" "full (erase v)" "sums (erase v)"
    "leaves (erase v) = mset ?a" "greedy (mset ?a) (path_length (erase v))"
    using CreateHuffman_greedy [OF assms] by blast
  have "btree_main malloc = Some (Ret (map of_char ''CBAFEGDHI'', inorder (erase v)))"
    using h(1,3) v(1) Inorder_rep [OF v(2)] by (simp add: btree_main_def)
  then show ?thesis
    using v(3-6) by blast
qed



end
