(* ===== verification/Sequence_List.thy ===== *)
theory Sequence_List
  imports C_Prelude
begin

text \<open>
  The list in an array of \<^verbatim>\<open>data_struct/linear_list/sequence_list.c\<close> and its test program,
  compiled without \<^verbatim>\<open>_COMPARE_SIMPLE_\<close>. A pointer to a list is \<open>None\<close> for NULL. The lemmas say
  what each operation does on every branch: the list can only grow at its end, inserting
  before the end runs out of the array, and several queries do not answer what their names
  and comments promise.
\<close>

section \<open>The program\<close>

definition SEQUENCE_LIST_MAX_SIZE :: nat where
  "SEQUENCE_LIST_MAX_SIZE = 100"

record SqList =
  data_a :: "int list"
  len :: int
  maxsize :: int

text \<open>The structure with every byte zero.\<close>

definition zeroed :: SqList where
  "zeroed = \<lparr>data_a = replicate SEQUENCE_LIST_MAX_SIZE 0, len = 0, maxsize = 0\<rparr>"

definition List_Init :: "SqList option \<Rightarrow> int \<times> SqList option" where
  "List_Init List = (if List = None then (-1, List) else (0, Some zeroed))"

definition List_Length :: "SqList option \<Rightarrow> int" where
  "List_Length List = (case List of None \<Rightarrow> -1 | Some l \<Rightarrow> len l)"

text \<open>An access to \<open>data[i]\<close> outside the array is undefined.\<close>

definition elem :: "SqList \<Rightarrow> int \<Rightarrow> int option" where
  "elem l i = (if i < 0 then None else aget (data_a l) (nat i))"

partial_function (option) locate_from :: "SqList \<Rightarrow> int \<Rightarrow> int \<Rightarrow> int option" where
  "locate_from l et i =
     (if i < len l then do {
        x \<leftarrow> elem l i;
        (if x \<noteq> et then Some i else locate_from l et (i + 1)) }
      else Some (-2))"

definition List_LocateElem :: "SqList option \<Rightarrow> int \<Rightarrow> int option" where
  "List_LocateElem List et = (case List of None \<Rightarrow> Some (-1) | Some l \<Rightarrow> locate_from l et 0)"

text \<open>
  The result, and the index of the element whose address is stored; \<open>et\<close> says whether the
  caller passed a place to store it.
\<close>

definition List_GetElem :: "SqList option \<Rightarrow> int \<Rightarrow> bool \<Rightarrow> int \<times> int option" where
  "List_GetElem List subscript et =
     (case List of
        None \<Rightarrow> (-1, None)
      | Some l \<Rightarrow>
          if subscript < 0 \<or> \<not> et then (-1, None)
          else if maxsize l - 1 < subscript then (-2, None)
          else (0, Some subscript))"

text \<open>The loop that should move the elements up counts upwards itself.\<close>

partial_function (option) shift_from :: "SqList \<Rightarrow> int \<Rightarrow> int \<Rightarrow> SqList option" where
  "shift_from l subscript i =
     (if subscript < i then do {
        x \<leftarrow> elem l (i - 1);
        a \<leftarrow> aput (data_a l) (nat i) x;
        shift_from (l\<lparr>data_a := a\<rparr>) subscript (i + 1) }
      else Some l)"

definition List_Insert :: "SqList option \<Rightarrow> int \<Rightarrow> int \<Rightarrow> (int \<times> SqList option) option" where
  "List_Insert List subscript et =
     (case List of
        None \<Rightarrow> Some (-1, List)
      | Some l \<Rightarrow>
          if subscript < 0 then Some (-1, List)
          else if len l < subscript then Some (-2, List)
          else do {
            l \<leftarrow> shift_from l subscript (len l);
            a \<leftarrow> aput (data_a l) (nat subscript) et;
            n \<leftarrow> c_int (len l + 1);
            Some (0, Some (l\<lparr>data_a := a, len := n\<rparr>)) })"

definition List_Delete :: "SqList option \<Rightarrow> int \<times> SqList option" where
  "List_Delete List = (if List = None then (-1, List) else (0, List))"

text \<open>The elements that are printed, in the order of their indices.\<close>

partial_function (option) print_from :: "SqList \<Rightarrow> int \<Rightarrow> int list option" where
  "print_from l i =
     (if i < len l then do { x \<leftarrow> elem l i; xs \<leftarrow> print_from l (i + 1); Some (x # xs) } else Some [])"

definition List_Print :: "SqList option \<Rightarrow> (int \<times> int list) option" where
  "List_Print List =
     (case List of None \<Rightarrow> Some (-1, []) | Some l \<Rightarrow> do { xs \<leftarrow> print_from l 0; Some (0, xs) })"

definition List_IsEmpty :: "SqList option \<Rightarrow> int" where
  "List_IsEmpty List = (case List of None \<Rightarrow> -1 | Some l \<Rightarrow> len l)"

definition List_IsFull :: "SqList option \<Rightarrow> int" where
  "List_IsFull List = (case List of None \<Rightarrow> -1 | Some l \<Rightarrow> if len l = maxsize l then 1 else 0)"

definition List_Destroy :: "SqList option \<Rightarrow> int \<times> SqList option" where
  "List_Destroy List = (if List = None then (-1, List) else (0, Some zeroed))"

definition List_Reverse :: "SqList option \<Rightarrow> int \<times> SqList option" where
  "List_Reverse List = (if List = None then (-1, List) else (0, List))"

text \<open>The lengths and the elements that the test program prints.\<close>

definition seq_main :: "SqList \<Rightarrow> (int \<times> int \<times> int list) option" where
  "seq_main garbage = do {
     l0 \<leftarrow> Some (snd (List_Init (Some garbage)));
     (_, l1) \<leftarrow> List_Insert l0 0 1;
     (_, l2) \<leftarrow> List_Insert l1 1 2;
     (_, l3) \<leftarrow> List_Insert l2 2 3;
     (_, xs) \<leftarrow> List_Print l3;
     Some (List_Length l0, List_Length l3, xs) }"

section \<open>What the operations do\<close>

text \<open>The elements of a list, and the lists that the operations can produce.\<close>

definition elems :: "SqList \<Rightarrow> int list" where
  "elems l = take (nat (len l)) (data_a l)"

definition seq_ok :: "SqList \<Rightarrow> bool" where
  "seq_ok l \<longleftrightarrow> length (data_a l) = SEQUENCE_LIST_MAX_SIZE \<and> 0 \<le> len l \<and> len l \<le> int SEQUENCE_LIST_MAX_SIZE"

lemma seq_init: "fst (List_Init (Some l)) = 0" "snd (List_Init (Some l)) = Some zeroed" "seq_ok zeroed" "elems zeroed = []"
  by (simp_all add: List_Init_def seq_ok_def zeroed_def elems_def)

lemma elem_ok: "seq_ok l \<Longrightarrow> 0 \<le> i \<Longrightarrow> i < int SEQUENCE_LIST_MAX_SIZE \<Longrightarrow> elem l i = Some (data_a l ! nat i)"
  by (simp add: elem_def aget_def seq_ok_def nat_less_iff)

text \<open>Inserting at the end appends while there is room; the array has no other guard.\<close>

lemma insert_end:
  assumes "seq_ok l" and "len l < int SEQUENCE_LIST_MAX_SIZE"
  shows "\<exists>l'. List_Insert (Some l) (len l) x = Some (0, Some l') \<and> seq_ok l' \<and> elems l' = elems l @ [x] \<and> maxsize l' = maxsize l"
proof -
  let ?a = "(data_a l)[nat (len l) := x]"
  let ?l = "l\<lparr>data_a := ?a, len := len l + 1\<rparr>"
  have n: "nat (len l) < length (data_a l)"
    using assms by (simp add: seq_ok_def nat_less_iff)
  have "shift_from l (len l) (len l) = Some l"
    by (subst shift_from.simps) simp
  moreover have "c_int (len l + 1) = Some (len l + 1)"
    using assms by (simp add: c_int_def in_int_def INT_MIN_def INT_MAX_def seq_ok_def SEQUENCE_LIST_MAX_SIZE_def)
  ultimately have "List_Insert (Some l) (len l) x = Some (0, Some ?l)"
    using n assms(1) by (simp add: List_Insert_def aput_def seq_ok_def)
  moreover have "nat (len l + 1) = Suc (nat (len l))"
    using assms(1) by (simp add: seq_ok_def nat_add_distrib)
  then have "elems ?l = elems l @ [x]"
    using n by (simp add: elems_def take_Suc_conv_app_nth)
  moreover have "seq_ok ?l"
    using assms by (simp add: seq_ok_def)
  ultimately show ?thesis
    by (intro exI [of _ ?l]) simp
qed

text \<open>Inserting before the end writes one element after the other until it leaves the array.\<close>

lemma shift_leaves_array:
  assumes "length (data_a l) = SEQUENCE_LIST_MAX_SIZE" and "subscript < i" and "0 \<le> subscript"
  shows "shift_from l subscript i = None"
proof -
  have "shift_from l subscript i = None" if "nat (int SEQUENCE_LIST_MAX_SIZE - i) = n" for n
    using assms that
  proof (induction n arbitrary: l i)
    case 0
    then show ?case
      by (subst shift_from.simps) (simp add: aput_def nat_less_iff bind_eq_None_conv)
  next
    case (Suc n)
    then show ?case
      by (subst shift_from.simps) (auto simp: bind_eq_None_conv aput_def)
  qed
  then show ?thesis
    by simp
qed

lemma insert_before_end:
  assumes "seq_ok l" and "0 \<le> subscript" and "subscript < len l"
  shows "List_Insert (Some l) subscript x = None"
  using shift_leaves_array [of l subscript "len l"] assms by (simp add: List_Insert_def seq_ok_def)

lemma insert_refused:
  "subscript < 0 \<Longrightarrow> List_Insert (Some l) subscript x = Some (-1, Some l)"
  "len l < subscript \<Longrightarrow> 0 \<le> subscript \<Longrightarrow> List_Insert (Some l) subscript x = Some (-2, Some l)"
  by (simp_all add: List_Insert_def)

text \<open>Printing gives the elements in order.\<close>

lemma print_from_elems:
  assumes "seq_ok l" and "0 \<le> i" and "i \<le> len l"
  shows "print_from l i = Some (drop (nat i) (elems l))"
proof -
  have "print_from l i = Some (drop (nat i) (elems l))" if "nat (len l - i) = n" for n
    using assms that
  proof (induction n arbitrary: i)
    case 0
    then show ?case
      by (subst print_from.simps) (simp add: elems_def)
  next
    case (Suc n)
    have i: "i < len l" "nat i < nat (len l)" "nat (len l) \<le> length (data_a l)"
      using Suc.prems by (auto simp: seq_ok_def)
    have "print_from l (i + 1) = Some (drop (Suc (nat i)) (elems l))"
      using Suc.IH [of "i + 1"] Suc.prems i(1) by (simp add: nat_add_distrib)
    moreover have "elem l i = Some (elems l ! nat i)"
      using elem_ok [of l i] Suc.prems i by (simp add: elems_def seq_ok_def)
    moreover have "drop (nat i) (elems l) = elems l ! nat i # drop (Suc (nat i)) (elems l)"
      using i by (intro Cons_nth_drop_Suc [symmetric]) (simp add: elems_def)
    ultimately show ?case
      using i(1) by (subst print_from.simps) simp
  qed
  then show ?thesis
    by simp
qed

lemma print_elems: "seq_ok l \<Longrightarrow> List_Print (Some l) = Some (0, elems l)"
  using print_from_elems [of l 0] by (simp add: List_Print_def seq_ok_def)

text \<open>
  \<open>List_LocateElem\<close> returns the first index whose element differs from the one looked for,
  because \<^verbatim>\<open>memcmp\<close> returns 0 for equal ones.
\<close>

lemma locate_differs:
  assumes "seq_ok l" and "0 \<le> i" and "i \<le> len l"
  shows "locate_from l x i = Some (case find (\<lambda>j. data_a l ! nat j \<noteq> x) [i..len l - 1] of Some j \<Rightarrow> j | None \<Rightarrow> -2)"
proof -
  have "locate_from l x i = Some (case find (\<lambda>j. data_a l ! nat j \<noteq> x) [i..len l - 1] of Some j \<Rightarrow> j | None \<Rightarrow> -2)"
    if "nat (len l - i) = n" for n
    using assms that
  proof (induction n arbitrary: i)
    case 0
    then show ?case
      by (subst locate_from.simps) simp
  next
    case (Suc n)
    then have "i < len l" "elem l i = Some (data_a l ! nat i)" "[i..len l - 1] = i # [i + 1..len l - 1]"
      using elem_ok [of l i] upto_rec1 [of i "len l - 1"] by (auto simp: seq_ok_def)
    then show ?case
      using Suc.IH [of "i + 1"] Suc.prems by (subst locate_from.simps) simp
  qed
  then show ?thesis
    by simp
qed

text \<open>
  \<open>List_Init\<close> leaves \<open>maxsize\<close> at 0: no element of a list built with \<open>List_Insert\<close> can be
  fetched, and the empty list is full.
\<close>

lemma get_after_init:
  assumes "maxsize l = maxsize zeroed" and "0 \<le> subscript"
  shows "List_GetElem (Some l) subscript True = (-2, None)"
  using assms by (simp add: List_GetElem_def zeroed_def)

lemma empty_is_full: "List_IsFull (Some zeroed) = 1" "List_IsEmpty (Some zeroed) = 0"
  by (simp_all add: List_IsFull_def List_IsEmpty_def zeroed_def)

text \<open>The test program only appends.\<close>

lemma seq_main_prints: "seq_main garbage = Some (0, 3, [1, 2, 3])"
proof -
  have len: "len l = int (length (elems l))" if "seq_ok l" for l
    using that by (auto simp: seq_ok_def elems_def min_def)
  have grow: "\<exists>l'. List_Insert (Some l) (int n) x = Some (0, Some l') \<and> seq_ok l' \<and> elems l' = elems l @ [x]"
    if "seq_ok l" "n = length (elems l)" "n < SEQUENCE_LIST_MAX_SIZE" for l n x
    using insert_end [of l x] that len [of l] by auto
  obtain l1 where l1: "List_Insert (Some zeroed) 0 1 = Some (0, Some l1)" "seq_ok l1" "elems l1 = [1]"
    using grow [of zeroed 0 1] seq_init by (auto simp: SEQUENCE_LIST_MAX_SIZE_def)
  obtain l2 where l2: "List_Insert (Some l1) 1 2 = Some (0, Some l2)" "seq_ok l2" "elems l2 = [1, 2]"
    using grow [of l1 1 2] l1 by (auto simp: SEQUENCE_LIST_MAX_SIZE_def)
  obtain l3 where l3: "List_Insert (Some l2) 2 3 = Some (0, Some l3)" "seq_ok l3" "elems l3 = [1, 2, 3]"
    using grow [of l2 2 3] l2 by (auto simp: SEQUENCE_LIST_MAX_SIZE_def)
  have "len l3 = 3"
    using len [OF l3(2)] l3(3) by simp
  then show ?thesis
    using l1 l2 l3 print_elems [OF l3(2)] seq_init(2)
    by (simp add: seq_main_def List_Length_def) (simp add: zeroed_def)
qed

end
