(* ===== verification/Hash_Functions.thy ===== *)
theory Hash_Functions
  imports Main "HOL-Library.Word"
begin

unbundle bit_operations_syntax

text \<open>
  The string hash functions of \<^verbatim>\<open>GeneralHashFunctions_C\<close> on 32-bit words. The argument is the
  list of the \<^verbatim>\<open>len\<close> bytes that the loops read; a byte is a signed character, so it is sign
  extended before it is added to the unsigned hash.
\<close>

section \<open>The program\<close>

type_synonym byte = "8 word"
type_synonym hash = "32 word"

definition ext :: "byte \<Rightarrow> hash" where
  "ext c = scast c"

fun rs_loop :: "hash \<Rightarrow> hash \<Rightarrow> byte list \<Rightarrow> hash" where
  "rs_loop a hash [] = hash"
| "rs_loop a hash (c # str) = rs_loop (a * 378551) (hash * a + ext c) str"

definition RSHash :: "byte list \<Rightarrow> hash" where
  "RSHash str = rs_loop 63689 0 str"

definition JSHash :: "byte list \<Rightarrow> hash" where
  "JSHash str = foldl (\<lambda>hash c. hash XOR (push_bit 5 hash + ext c + drop_bit 2 hash)) 1315423911 str"

definition HighBits :: hash where
  "HighBits = push_bit 28 0xFFFFFFFF"

definition pjw_step :: "hash \<Rightarrow> byte \<Rightarrow> hash" where
  "pjw_step hash c =
     (let hash = push_bit 4 hash + ext c; test = hash AND HighBits in
      if test \<noteq> 0 then (hash XOR drop_bit 24 test) AND NOT HighBits else hash)"

definition PJWHash :: "byte list \<Rightarrow> hash" where
  "PJWHash str = foldl pjw_step 0 str"

definition elf_step :: "hash \<Rightarrow> byte \<Rightarrow> hash" where
  "elf_step hash c =
     (let hash = push_bit 4 hash + ext c; x = hash AND 0xF0000000;
          hash = (if x \<noteq> 0 then hash XOR drop_bit 24 x else hash) in
      hash AND NOT x)"

definition ELFHash :: "byte list \<Rightarrow> hash" where
  "ELFHash str = foldl elf_step 0 str"

definition BKDRHash :: "byte list \<Rightarrow> hash" where
  "BKDRHash str = foldl (\<lambda>hash c. hash * 131 + ext c) 0 str"

definition SDBMHash :: "byte list \<Rightarrow> hash" where
  "SDBMHash str = foldl (\<lambda>hash c. ext c + push_bit 6 hash + push_bit 16 hash - hash) 0 str"

definition DJBHash :: "byte list \<Rightarrow> hash" where
  "DJBHash str = foldl (\<lambda>hash c. push_bit 5 hash + hash + ext c) 5381 str"

definition DEKHash :: "byte list \<Rightarrow> hash" where
  "DEKHash str = foldl (\<lambda>hash c. push_bit 5 hash XOR drop_bit 27 hash XOR ext c) (of_nat (length str)) str"

definition BPHash :: "byte list \<Rightarrow> hash" where
  "BPHash str = foldl (\<lambda>hash c. push_bit 7 hash XOR ext c) 0 str"

definition FNVHash :: "byte list \<Rightarrow> hash" where
  "FNVHash str = foldl (\<lambda>hash c. (hash * 0x811C9DC5) XOR ext c) 0 str"

fun ap_loop :: "nat \<Rightarrow> hash \<Rightarrow> byte list \<Rightarrow> hash" where
  "ap_loop i hash [] = hash"
| "ap_loop i hash (c # str) = ap_loop (Suc i)
     (hash XOR (if even i then push_bit 7 hash XOR (ext c * drop_bit 3 hash)
                else NOT (push_bit 11 hash + (ext c XOR drop_bit 5 hash)))) str"

definition APHash :: "byte list \<Rightarrow> hash" where
  "APHash str = ap_loop 0 0xAAAAAAAA str"

section \<open>Polynomials modulo \<open>2\<^sup>3\<^sup>2\<close>\<close>

text \<open>The value at \<open>k\<close> of the polynomial whose coefficients are \<open>s\<close> and the bytes, highest first.\<close>

fun poly :: "hash \<Rightarrow> hash \<Rightarrow> byte list \<Rightarrow> hash" where
  "poly k s [] = s"
| "poly k s (c # str) = s * k ^ length (c # str) + poly k (ext c) str"

lemma horner: "foldl (\<lambda>hash c. hash * k + ext c) s str = poly k s str"
proof (induction str arbitrary: s)
  case (Cons c str)
  have shift: "poly k (a + b) str = a * k ^ length str + poly k b str" for a b
    by (cases str) (simp_all add: algebra_simps)
  show ?case
    using Cons [of "s * k + ext c"] shift [of "s * k" "ext c"] by simp
qed simp

lemma push_bit_times: "push_bit n w = w * 2 ^ n" for w :: hash
  by (simp add: push_bit_eq_mult)

lemma BKDR_poly: "BKDRHash str = poly 131 0 str"
  by (simp add: BKDRHash_def horner)

lemma SDBM_poly: "SDBMHash str = poly 65599 0 str"
proof -
  have "ext c + push_bit 6 h + push_bit 16 h - h = h * 65599 + ext c" for c h
    by (simp add: push_bit_times algebra_simps)
  then show ?thesis
    by (simp only: SDBMHash_def horner)
qed

lemma DJB_poly: "DJBHash str = poly 33 5381 str"
proof -
  have "push_bit 5 h + h + ext c = h * 33 + ext c" for c h
    by (simp add: push_bit_times algebra_simps)
  then show ?thesis
    by (simp only: DJBHash_def horner)
qed

section \<open>The hash of Weinberger\<close>

lemma high_mask: "(0xF0000000 :: hash) = HighBits"
  by (simp add: HighBits_def push_bit_times)

lemma bit_high: "bit HighBits n \<longleftrightarrow> 28 \<le> n \<and> n < 32"
proof -
  have high: "HighBits = push_bit 28 (mask 4)"
    by (simp add: HighBits_def push_bit_times mask_eq_exp_minus_1)
  show ?thesis
    unfolding high bit_push_bit_iff bit_mask_iff by auto
qed

lemma pjw_elf_step: "pjw_step h c = elf_step h c"
proof -
  define g where "g = push_bit 4 h + ext c"
  define x where "x = g AND HighBits"
  have bit_x: "bit x n \<longleftrightarrow> bit g n \<and> 28 \<le> n" for n
    by (auto simp: x_def bit_and_iff bit_high dest: bit_imp_le_length)
  have "(g XOR drop_bit 24 x) AND NOT HighBits = (g XOR drop_bit 24 x) AND NOT x"
    by (rule bit_word_eqI)
      (auto simp: bit_and_iff bit_xor_iff bit_not_iff bit_drop_bit_eq bit_high bit_x dest: bit_imp_le_length)
  moreover have "pjw_step h c = (if x \<noteq> 0 then (g XOR drop_bit 24 x) AND NOT HighBits else g)"
    by (simp only: pjw_step_def g_def x_def Let_def)
  moreover have "elf_step h c = (if x \<noteq> 0 then g XOR drop_bit 24 x else g) AND NOT x"
    by (simp only: elf_step_def high_mask g_def x_def Let_def)
  ultimately show ?thesis
    by simp
qed

lemma low_bits:
  fixes w :: hash
  assumes "\<And>n. bit w n \<Longrightarrow> n < 28"
  shows "take_bit 28 w = w"
  by (rule bit_word_eqI) (use assms in \<open>auto simp: bit_take_bit_iff\<close>)

lemma pjw_step_low: "take_bit 28 (pjw_step h c) = pjw_step h c"
proof (rule low_bits)
  fix n
  define g where "g = push_bit 4 h + ext c"
  assume n: "bit (pjw_step h c) n"
  then have "n < 32"
    by (auto dest: bit_imp_le_length)
  show "n < 28"
  proof (cases "g AND HighBits = 0")
    case True
    then have "\<not> bit (g AND HighBits) n" "bit g n"
      using n by (simp_all add: pjw_step_def g_def [symmetric] Let_def)
    then show ?thesis
      using \<open>n < 32\<close> by (auto simp: bit_and_iff bit_high)
  next
    case False
    then have "bit (NOT HighBits) n"
      using n by (simp add: pjw_step_def g_def [symmetric] Let_def bit_and_iff)
    then show ?thesis
      using \<open>n < 32\<close> by (auto simp: bit_not_iff bit_high)
  qed
qed

text \<open>
  \<open>PJWHash\<close> and \<open>ELFHash\<close> are the same function, although they clear the high bits in
  different ways, and their values have at most 28 bits.
\<close>

theorem pjw_is_elf: "PJWHash str = ELFHash str \<and> unat (PJWHash str) < 2 ^ 28"
proof -
  have "take_bit 28 (foldl pjw_step s str) = foldl pjw_step s str" if "take_bit 28 s = s" for s
    using that by (induction str arbitrary: s) (simp_all add: pjw_step_low)
  then have "take_bit 28 (PJWHash str) = PJWHash str"
    by (simp add: PJWHash_def)
  then have "unat (PJWHash str) < 2 ^ 28"
    by (metis take_bit_nat_less_exp unsigned_take_bit_eq)
  moreover have "pjw_step = elf_step"
    by (intro ext) (rule pjw_elf_step)
  ultimately show ?thesis
    by (simp add: PJWHash_def ELFHash_def)
qed

section \<open>What the other functions see of the string\<close>

text \<open>\<open>BPHash\<close> shifts a byte out after five more: only the last five count.\<close>

lemma bp_from:
  "foldl (\<lambda>hash c. push_bit 7 hash XOR ext c) s str =
    push_bit (7 * length str) s XOR foldl (\<lambda>hash c. push_bit 7 hash XOR ext c) 0 str"
proof (induction str arbitrary: s)
  case (Cons c str)
  show ?case
    using Cons [of "push_bit 7 s XOR ext c"] Cons [of "ext c"]
    by (simp add: push_bit_xor xor.assoc add.commute)
qed simp

lemma BP_last_five:
  assumes "5 \<le> length ys"
  shows "BPHash (xs @ ys) = BPHash ys"
proof -
  have "push_bit (7 * length ys) s = 0" for s :: hash
    by (rule bit_word_eqI) (use assms in \<open>auto simp: bit_push_bit_iff\<close>)
  then show ?thesis
    using bp_from [of "BPHash xs" ys] by (simp add: BPHash_def)
qed

text \<open>The two shifts of \<open>DEKHash\<close> are a rotation by five.\<close>

lemma DEK_rotates: "push_bit 5 h XOR drop_bit 27 h = word_rotl 5 h" for h :: hash
proof (rule bit_word_eqI)
  fix n
  assume "n < LENGTH(32)"
  then have "(n + 27) mod 32 = (if 5 \<le> n then n - 5 else n + 27)"
    by (cases "5 \<le> n") (simp_all add: mod_if)
  then show "bit (push_bit 5 h XOR drop_bit 27 h) n = bit (word_rotl 5 h) n"
    using \<open>n < LENGTH(32)\<close>
    by (auto simp: bit_xor_iff bit_push_bit_iff bit_drop_bit_eq bit_word_rotl_iff add.commute dest: bit_imp_le_length)
qed

end
