(* ===== verification/Cli_Token.thy ===== *)
theory Cli_Token
  imports C_String
begin

unbundle bit_operations_syntax

text \<open>
  The tokens of the command line parser (\<^verbatim>\<open>cli_parser-0.5/src/cparser_token.c\<close>): the nodes of
  the parse tree, the functions that match the characters typed so far against a node, and the
  functions that turn a matched token into a value.

  A parse tree is static data, so a pointer to a node is the tree below it, and the chain of
  siblings is a list. A token with its length is the list of its characters. \<open>None\<close> is a failed
  assertion, a read behind an array or an overflow of a signed number.
\<close>

section \<open>Nodes and results\<close>

datatype cparser_result = CPARSER_OK | CPARSER_NOT_OK | CPARSER_ERR_INVALID_PARAMS | CPARSER_ERR_NOT_EXIST
  | CPARSER_ERR_OUT_OF_RES | CPARSER_ERR_PARSE_ERR | CPARSER_ERR_INCOMP_CMD

datatype cparser_node_type = CPARSER_NODE_ROOT | CPARSER_NODE_END | CPARSER_NODE_KEYWORD | CPARSER_NODE_STRING
  | CPARSER_NODE_UINT | CPARSER_NODE_UINT64 | CPARSER_NODE_INT | CPARSER_NODE_INT64 | CPARSER_NODE_HEX
  | CPARSER_NODE_HEX64 | CPARSER_NODE_FLOAT | CPARSER_NODE_MACADDR | CPARSER_NODE_IPV4ADDR | CPARSER_NODE_FILE
  | CPARSER_NODE_LIST

text \<open>The field \<open>param\<close>: a string, the keywords of a list node, or the function of an end node.\<close>

datatype node_param = Str string | Keywords "string list" | Glue nat | No_param

datatype cparser_node = Node (ntype: cparser_node_type) (nflags: "32 word") (nparam: node_param)
  (ndesc: "string option") (nchildren: "cparser_node list")

definition OPT_START :: "32 word" where "OPT_START = 1"
definition OPT_END :: "32 word" where "OPT_END = 2"
definition OPT_PARTIAL :: "32 word" where "OPT_PARTIAL = 4"
definition HIDDEN :: "32 word" where "HIDDEN = 8"

definition hidden :: "cparser_node \<Rightarrow> bool" where
  "hidden n \<longleftrightarrow> nflags n AND HIDDEN \<noteq> 0"

definition CPARSER_MAX_TOKEN_SIZE :: nat where "CPARSER_MAX_TOKEN_SIZE = 256"

record cparser_token =
  begin_ptr :: int
  token_len :: nat
  tbuf :: "char list"
  tparent :: "cparser_node option"
  tnode :: "cparser_node option"

text \<open>The characters of a token, as the loops over \<open>token_len\<close> read them.\<close>

definition tok_chars :: "cparser_token \<Rightarrow> string option" where
  "tok_chars t = (if token_len t \<le> length (tbuf t) then Some (take (token_len t) (tbuf t)) else None)"

section \<open>Characters\<close>

definition isdigit :: "char \<Rightarrow> bool" where
  "isdigit c = (let n = of_char c :: nat in 48 \<le> n \<and> n \<le> 57)"

definition isxdigit :: "char \<Rightarrow> bool" where
  "isxdigit c = (let n = of_char c :: nat in 48 \<le> n \<and> n \<le> 57 \<or> 97 \<le> n \<and> n \<le> 102 \<or> 65 \<le> n \<and> n \<le> 70)"

definition isspace :: "char \<Rightarrow> bool" where
  "isspace c = (let n = of_char c :: nat in n = 32 \<or> 9 \<le> n \<and> n \<le> 13)"

definition digit_val :: "char \<Rightarrow> nat" where
  "digit_val c = (let n = of_char c in if n \<le> 57 then n - 48 else if n \<le> 70 then n - 55 else n - 87)"

text \<open>Whether \<^verbatim>\<open>strncmp\<close> returns 0, and whether it returns a positive number.\<close>

definition strncmp_eq :: "string \<Rightarrow> string \<Rightarrow> nat \<Rightarrow> bool" where
  "strncmp_eq a b n \<longleftrightarrow> take n a = take n b"

fun str_greater :: "string \<Rightarrow> string \<Rightarrow> bool" where
  "str_greater (a # as) (b # bs) =
     (if a = b then str_greater as bs else (of_char a :: nat) > of_char b)"
| "str_greater as bs = (bs = [] \<and> as \<noteq> [])"

definition strncmp_pos :: "string \<Rightarrow> string \<Rightarrow> nat \<Rightarrow> bool" where
  "strncmp_pos a b n = str_greater (take n a) (take n b)"

section \<open>Match functions\<close>

text \<open>The result and the value of \<open>is_complete\<close>.\<close>

type_synonym match = "(cparser_result \<times> bool) option"

definition cparser_match_root :: "string \<Rightarrow> cparser_node \<Rightarrow> match" where
  "cparser_match_root tok node = None"

definition cparser_match_end :: "string \<Rightarrow> cparser_node \<Rightarrow> match" where
  "cparser_match_end tok node = Some (CPARSER_NOT_OK, False)"

definition cparser_match_keyword :: "string \<Rightarrow> cparser_node \<Rightarrow> match" where
  "cparser_match_keyword tok node = (case nparam node of Str kw \<Rightarrow>
       (if length tok > length kw then Some (CPARSER_NOT_OK, False)
        else let match_len = (if length kw < length tok then length kw else length tok) in
          if strncmp_eq tok kw match_len then Some (CPARSER_OK, match_len = length kw)
          else Some (CPARSER_NOT_OK, False))
     | _ \<Rightarrow> None)"

definition cparser_match_string :: "string \<Rightarrow> cparser_node \<Rightarrow> match" where
  "cparser_match_string tok node = Some (CPARSER_OK, True)"

definition cparser_match_uint :: "string \<Rightarrow> cparser_node \<Rightarrow> match" where
  "cparser_match_uint tok node = do {
     c_assert (0 < length tok);
     if \<not> isdigit (tok ! 0) then Some (CPARSER_NOT_OK, False)
     else if length tok = 1 then Some (CPARSER_OK, True)
     else if tok ! 1 = CHR ''x'' \<and> tok ! 0 \<noteq> CHR ''0'' then Some (CPARSER_NOT_OK, False)
     else if tok ! 1 \<noteq> CHR ''x'' \<and> \<not> isdigit (tok ! 1) then Some (CPARSER_NOT_OK, False)
     else let is_dec = (tok ! 1 \<noteq> CHR ''x'') in
       if length tok = 2 then Some (CPARSER_OK, is_dec)
       else if list_all (if is_dec then isdigit else isxdigit) (drop 2 tok) then Some (CPARSER_OK, True)
       else Some (CPARSER_NOT_OK, False) }"

definition cparser_match_int :: "string \<Rightarrow> cparser_node \<Rightarrow> match" where
  "cparser_match_int tok node = do {
     c_assert (0 < length tok);
     if \<not> isdigit (tok ! 0) \<and> CHR ''-'' \<noteq> tok ! 0 \<and> CHR ''+'' \<noteq> tok ! 0 then Some (CPARSER_NOT_OK, False)
     else if length tok = 1 then Some (CPARSER_OK, isdigit (tok ! 0))
     else if list_all isdigit (drop 1 tok) then Some (CPARSER_OK, True)
     else Some (CPARSER_NOT_OK, False) }"

definition cparser_match_hex :: "string \<Rightarrow> cparser_node \<Rightarrow> match" where
  "cparser_match_hex tok node = do {
     c_assert (0 < length tok);
     if CHR ''0'' \<noteq> tok ! 0 then Some (CPARSER_NOT_OK, False)
     else if length tok = 1 then Some (CPARSER_OK, False)
     else if CHR ''x'' \<noteq> tok ! 1 then Some (CPARSER_NOT_OK, False)
     else if length tok = 2 then Some (CPARSER_OK, False)
     else if list_all isxdigit (drop 2 tok) then Some (CPARSER_OK, True)
     else Some (CPARSER_NOT_OK, False) }"

fun float_loop :: "bool \<Rightarrow> string \<Rightarrow> cparser_result \<times> bool" where
  "float_loop has_dec_pt [] = (CPARSER_OK, True)"
| "float_loop has_dec_pt (c # cs) =
     (if c = CHR ''.'' then (if has_dec_pt then (CPARSER_NOT_OK, False) else float_loop True cs)
      else if \<not> isdigit c then (CPARSER_NOT_OK, True) else float_loop has_dec_pt cs)"

definition cparser_match_float :: "string \<Rightarrow> cparser_node \<Rightarrow> match" where
  "cparser_match_float tok node = do {
     c_assert (0 < length tok);
     let sign = (CHR ''+'' = tok ! 0 \<or> CHR ''-'' = tok ! 0);
     if sign \<and> length tok = 1 then Some (CPARSER_OK, False)
     else let base = (if sign then 1 else 0) in
       if CHR ''.'' = tok ! base then
         (if length tok = 2 then Some (CPARSER_OK, False) else Some (float_loop True (drop base tok)))
       else if \<not> isdigit (tok ! base) then Some (CPARSER_NOT_OK, False)
       else Some (float_loop False (drop base tok)) }"

fun mac_loop :: "nat \<Rightarrow> nat \<Rightarrow> string \<Rightarrow> cparser_result \<times> bool" where
  "mac_loop num_digit num_colon [] = (CPARSER_OK, num_colon = 5 \<and> 0 < num_digit)"
| "mac_loop num_digit num_colon (c # cs) =
     (if num_digit = 0 then
        (if \<not> isxdigit c then (CPARSER_NOT_OK, False) else mac_loop 1 num_colon cs)
      else if num_digit = 1 then
        (if \<not> isxdigit c \<and> CHR '':'' \<noteq> c then (CPARSER_NOT_OK, False)
         else if CHR '':'' = c then
           (if num_colon + 1 > 5 then (CPARSER_NOT_OK, False) else mac_loop 0 (num_colon + 1) cs)
         else mac_loop 2 num_colon cs)
      else if CHR '':'' \<noteq> c then (CPARSER_NOT_OK, False)
      else if num_colon + 1 > 5 then (CPARSER_NOT_OK, False)
      else mac_loop 0 (num_colon + 1) cs)"

definition cparser_match_macaddr :: "string \<Rightarrow> cparser_node \<Rightarrow> match" where
  "cparser_match_macaddr tok node = Some (mac_loop 0 0 tok)"

text \<open>The argument \<open>prev\<close> holds the characters before position \<open>n\<close>, the last one first.\<close>

fun ipv4_loop :: "nat \<Rightarrow> nat \<Rightarrow> string \<Rightarrow> string \<Rightarrow> match" where
  "ipv4_loop num_digit num_dot prev [] = Some (CPARSER_OK, num_dot = 3 \<and> 0 < num_digit)"
| "ipv4_loop num_digit num_dot prev (c # cs) = do {
     c_assert (num_digit < 4);
     if num_digit = 0 then
       (if \<not> isdigit c then Some (CPARSER_NOT_OK, False) else ipv4_loop 1 num_dot (c # prev) cs)
     else if num_digit = 3 then
       (if CHR ''.'' \<noteq> c then Some (CPARSER_NOT_OK, False)
        else if num_dot + 1 > 3 then Some (CPARSER_NOT_OK, False)
        else ipv4_loop 0 (num_dot + 1) (c # prev) cs)
     else if \<not> isdigit c \<and> CHR ''.'' \<noteq> c then Some (CPARSER_NOT_OK, False)
     else if CHR ''.'' = c then
       (if num_dot + 1 > 3 then Some (CPARSER_NOT_OK, False)
        else ipv4_loop 0 (num_dot + 1) (c # prev) cs)
     else if num_digit + 1 = 3 then do {
       a0 \<leftarrow> aget prev 1;
       a1 \<leftarrow> aget prev 0;
       if strncmp_pos [a0, a1, c] ''255'' 3 then Some (CPARSER_NOT_OK, False)
       else ipv4_loop 3 num_dot (c # prev) cs }
     else ipv4_loop (num_digit + 1) num_dot (c # prev) cs }"

definition cparser_match_ipv4addr :: "string \<Rightarrow> cparser_node \<Rightarrow> match" where
  "cparser_match_ipv4addr tok node = ipv4_loop 0 0 [] tok"

definition cparser_match_file :: "string \<Rightarrow> cparser_node \<Rightarrow> match" where
  "cparser_match_file tok node = Some (CPARSER_OK, True)"

definition cparser_match_list :: "string \<Rightarrow> cparser_node \<Rightarrow> match" where
  "cparser_match_list tok node = (case nparam node of Keywords kws \<Rightarrow> do {
       c_assert (kws \<noteq> []);
       let num_matches = length (filter (\<lambda>kw. strncmp_eq tok kw (length tok)) kws);
       Some (if num_matches \<noteq> 0 then CPARSER_OK else CPARSER_NOT_OK, num_matches = 1) }
     | _ \<Rightarrow> None)"

fun cparser_match_fn_tbl :: "cparser_node_type \<Rightarrow> string \<Rightarrow> cparser_node \<Rightarrow> match" where
  "cparser_match_fn_tbl CPARSER_NODE_ROOT = cparser_match_root"
| "cparser_match_fn_tbl CPARSER_NODE_END = cparser_match_end"
| "cparser_match_fn_tbl CPARSER_NODE_KEYWORD = cparser_match_keyword"
| "cparser_match_fn_tbl CPARSER_NODE_STRING = cparser_match_string"
| "cparser_match_fn_tbl CPARSER_NODE_UINT = cparser_match_uint"
| "cparser_match_fn_tbl CPARSER_NODE_UINT64 = cparser_match_uint"
| "cparser_match_fn_tbl CPARSER_NODE_INT = cparser_match_int"
| "cparser_match_fn_tbl CPARSER_NODE_INT64 = cparser_match_int"
| "cparser_match_fn_tbl CPARSER_NODE_HEX = cparser_match_hex"
| "cparser_match_fn_tbl CPARSER_NODE_HEX64 = cparser_match_hex"
| "cparser_match_fn_tbl CPARSER_NODE_FLOAT = cparser_match_float"
| "cparser_match_fn_tbl CPARSER_NODE_MACADDR = cparser_match_macaddr"
| "cparser_match_fn_tbl CPARSER_NODE_IPV4ADDR = cparser_match_ipv4addr"
| "cparser_match_fn_tbl CPARSER_NODE_FILE = cparser_match_file"
| "cparser_match_fn_tbl CPARSER_NODE_LIST = cparser_match_list"

section \<open>Completion of a list\<close>

text \<open>
  The search of \<^verbatim>\<open>cparser_complete_list\<close>: the first keyword that starts with the token, and the
  length of what all such keywords have in common.
\<close>

definition char_at :: "string \<Rightarrow> nat \<Rightarrow> char" where
  "char_at s n = (if n < length s then s ! n else NUL)"

fun common_len :: "string \<Rightarrow> string \<Rightarrow> nat \<Rightarrow> nat \<Rightarrow> nat" where
  "common_len kw mkw n 0 = n"
| "common_len kw mkw n (Suc k) = (if char_at kw n \<noteq> char_at mkw n then n else common_len kw mkw (Suc n) k)"

fun list_matches :: "string \<Rightarrow> (string \<times> nat) option \<Rightarrow> string list \<Rightarrow> (string \<times> nat) option" where
  "list_matches tok found [] = found"
| "list_matches tok found (kw # kws) =
     (if strncmp_eq kw tok (length tok) then
        (case found of None \<Rightarrow> list_matches tok (Some (kw, length kw)) kws
         | Some (mkw, match_len) \<Rightarrow>
             list_matches tok (Some (mkw, common_len kw mkw (length tok) (match_len - length tok))) kws)
      else list_matches tok found kws)"

section \<open>The language of a node\<close>

text \<open>
  Addresses are groups of digits with a separator between them. The locale collects what the
  two kinds of addresses need of their groups: \<open>part\<close> holds of the prefixes of a group, the
  separator is in none of them, and there is a group.
\<close>

definition joined :: "char \<Rightarrow> string list \<Rightarrow> string" where
  "joined sep gs = (case gs of [] \<Rightarrow> [] | g # gs' \<Rightarrow> g @ concat (map ((#) sep) gs'))"

locale grouped =
  fixes part :: "string \<Rightarrow> bool" and sep :: char and first :: char
  assumes part_prefix: "part (p @ q) \<Longrightarrow> part p"
    and part_sep: "\<not> part (p @ [sep])"
    and part_first: "part [first]"
begin

definition rest :: "nat \<Rightarrow> string \<Rightarrow> string \<Rightarrow> bool" where
  "rest n p w \<longleftrightarrow> (\<exists>g gs. w = g @ concat (map ((#) sep) gs) \<and> p @ g \<noteq> [] \<and> part (p @ g) \<and> length gs = n \<and>
     (\<forall>x\<in>set gs. part x \<and> x \<noteq> []))"

lemma rest_Nil: "rest n p [] \<longleftrightarrow> n = 0 \<and> p \<noteq> [] \<and> part p"
  by (auto simp: rest_def)

lemma rest_Cons: "rest n p (x # w) \<longleftrightarrow> (part (p @ [x]) \<and> rest n (p @ [x]) w) \<or>
  (x = sep \<and> p \<noteq> [] \<and> part p \<and> 0 < n \<and> rest (n - 1) [] w)"
  (is "_ \<longleftrightarrow> ?A \<or> ?B")
proof
  assume "rest n p (x # w)"
  then obtain g gs where w: "x # w = g @ concat (map ((#) sep) gs)" and g: "p @ g \<noteq> []" "part (p @ g)"
    and gs: "length gs = n" "\<forall>x\<in>set gs. part x \<and> x \<noteq> []"
    by (auto simp: rest_def)
  show "?A \<or> ?B"
  proof (cases g)
    case Nil
    then obtain y ys where "gs = y # ys" using w by (cases gs) auto
    then have "x = sep" "w = y @ concat (map ((#) sep) ys)" "n = Suc (length ys)" "part y" "y \<noteq> []"
      "\<forall>x\<in>set ys. part x \<and> x \<noteq> []"
      using w Nil gs by auto
    then have "rest (n - 1) [] w" unfolding rest_def by auto
    then show ?thesis using \<open>x = sep\<close> \<open>n = _\<close> g Nil by simp
  next
    case (Cons y g')
    then have y: "y = x" "w = g' @ concat (map ((#) sep) gs)" using w by auto
    have "part (p @ [x])"
      using g(2) part_prefix [of "p @ [x]" g'] Cons y by simp
    moreover have "rest n (p @ [x]) w"
      unfolding rest_def by (intro exI [of _ g'] exI [of _ gs]) (use g gs Cons y in auto)
    ultimately show ?thesis by blast
  qed
next
  assume "?A \<or> ?B"
  then show "rest n p (x # w)"
  proof
    assume ?A
    then obtain g gs where "w = g @ concat (map ((#) sep) gs)" "part ((p @ [x]) @ g)" "length gs = n"
      "\<forall>x\<in>set gs. part x \<and> x \<noteq> []"
      by (auto simp: rest_def)
    then show ?thesis
      unfolding rest_def by (intro exI [of _ "x # g"] exI [of _ gs]) simp
  next
    assume B: ?B
    then obtain g gs where "w = g @ concat (map ((#) sep) gs)" "part g" "g \<noteq> []" "length gs = n - 1"
      "\<forall>x\<in>set gs. part x \<and> x \<noteq> []"
      by (auto simp: rest_def)
    then show ?thesis
      using B unfolding rest_def by (intro exI [of _ "[]"] exI [of _ "g # gs"]) auto
  qed
qed

lemma rest_nonempty: "part p \<Longrightarrow> \<exists>w. rest n p w"
proof -
  assume p: "part p"
  have g: "\<exists>g. p @ g \<noteq> [] \<and> part (p @ g)"
    using p part_first by (cases p) (auto intro: exI [of _ "[]"])
  have "\<forall>x\<in>set (replicate n [first]). part x \<and> x \<noteq> []" "length (replicate n [first]) = n"
    using part_first by auto
  then show ?thesis using g unfolding rest_def by blast
qed

lemma rest_joined: "rest n [] w \<longleftrightarrow> (\<exists>gs. length gs = Suc n \<and> (\<forall>g\<in>set gs. part g \<and> g \<noteq> []) \<and> w = joined sep gs)"
proof
  assume "rest n [] w"
  then obtain g gs where "w = g @ concat (map ((#) sep) gs)" "g \<noteq> []" "part g" "length gs = n"
    "\<forall>x\<in>set gs. part x \<and> x \<noteq> []"
    by (auto simp: rest_def)
  then show "\<exists>gs. length gs = Suc n \<and> (\<forall>g\<in>set gs. part g \<and> g \<noteq> []) \<and> w = joined sep gs"
    by (intro exI [of _ "g # gs"]) (simp add: joined_def)
next
  assume "\<exists>gs. length gs = Suc n \<and> (\<forall>g\<in>set gs. part g \<and> g \<noteq> []) \<and> w = joined sep gs"
  then obtain g gs where "length gs = n" "\<forall>x\<in>set (g # gs). part x \<and> x \<noteq> []" "w = joined sep (g # gs)"
    by (metis length_Suc_conv)
  then show "rest n [] w"
    unfolding rest_def by (intro exI [of _ g] exI [of _ gs]) (simp add: joined_def)
qed

end

text \<open>The value of a string of digits.\<close>

definition base_val :: "nat \<Rightarrow> string \<Rightarrow> nat" where
  "base_val b s = foldl (\<lambda>a c. b * a + digit_val c) 0 s"

definition mac_part :: "string \<Rightarrow> bool" where
  "mac_part g \<longleftrightarrow> length g \<le> 2 \<and> list_all isxdigit g"

definition ipv4_part :: "string \<Rightarrow> bool" where
  "ipv4_part g \<longleftrightarrow> length g \<le> 3 \<and> list_all isdigit g \<and> (length g = 3 \<longrightarrow> base_val 10 g \<le> 255)"

lemma isdigit_sep [simp]: "\<not> isdigit (CHR ''.'')" "\<not> isdigit (CHR ''x'')" "\<not> isdigit (CHR ''+'')" "\<not> isdigit (CHR ''-'')"
  "isdigit (CHR ''0'')" "\<not> isxdigit (CHR '':'')" "isxdigit (CHR ''0'')"
  by (simp_all add: isdigit_def isxdigit_def)

interpretation macg: grouped mac_part "CHR '':''" "CHR ''0''"
  by unfold_locales (auto simp: mac_part_def)

interpretation ipg: grouped ipv4_part "CHR ''.''" "CHR ''0''"
  by unfold_locales (auto simp: ipv4_part_def)

definition hex_number :: "string \<Rightarrow> bool" where
  "hex_number w \<longleftrightarrow> (\<exists>h. w = ''0x'' @ h \<and> h \<noteq> [] \<and> list_all isxdigit h)"

definition int_number :: "string \<Rightarrow> bool" where
  "int_number w \<longleftrightarrow> (let d = (if w \<noteq> [] \<and> hd w \<in> {CHR ''+'', CHR ''-''} then tl w else w) in d \<noteq> [] \<and> list_all isdigit d)"

text \<open>The words a node stands for, and the types of the nodes for which this is defined.\<close>

definition in_lang :: "cparser_node \<Rightarrow> string \<Rightarrow> bool" where
  "in_lang node w = (case ntype node of
     CPARSER_NODE_KEYWORD \<Rightarrow> nparam node = Str w
   | CPARSER_NODE_STRING \<Rightarrow> True
   | CPARSER_NODE_FILE \<Rightarrow> True
   | CPARSER_NODE_UINT \<Rightarrow> w \<noteq> [] \<and> list_all isdigit w \<or> hex_number w
   | CPARSER_NODE_UINT64 \<Rightarrow> w \<noteq> [] \<and> list_all isdigit w \<or> hex_number w
   | CPARSER_NODE_INT \<Rightarrow> int_number w
   | CPARSER_NODE_INT64 \<Rightarrow> int_number w
   | CPARSER_NODE_HEX \<Rightarrow> hex_number w
   | CPARSER_NODE_HEX64 \<Rightarrow> hex_number w
   | CPARSER_NODE_MACADDR \<Rightarrow>
       \<exists>gs. length gs = 6 \<and> (\<forall>g\<in>set gs. mac_part g \<and> g \<noteq> []) \<and> w = joined (CHR '':'') gs
   | CPARSER_NODE_IPV4ADDR \<Rightarrow>
       \<exists>gs. length gs = 4 \<and> (\<forall>g\<in>set gs. ipv4_part g \<and> g \<noteq> []) \<and> w = joined (CHR ''.'') gs
   | _ \<Rightarrow> False)"

definition regular_type :: "cparser_node \<Rightarrow> bool" where
  "regular_type node \<longleftrightarrow> ntype node \<notin> {CPARSER_NODE_ROOT, CPARSER_NODE_FLOAT, CPARSER_NODE_LIST} \<and>
     (ntype node = CPARSER_NODE_KEYWORD \<longrightarrow> (\<exists>kw. nparam node = Str kw))"

lemma mac_loop_rest:
  "length p = d \<Longrightarrow> mac_part p \<Longrightarrow> c \<le> 5 \<Longrightarrow>
    (fst (mac_loop d c s) = CPARSER_OK \<longleftrightarrow> (\<exists>w. macg.rest (5 - c) p (s @ w))) \<and>
    (mac_loop d c s = (CPARSER_OK, True) \<longleftrightarrow> macg.rest (5 - c) p s)"
proof (induction s arbitrary: p d c)
  case Nil
  then show ?case
    using macg.rest_nonempty [of p "5 - c"] by (auto simp: macg.rest_Nil)
next
  case (Cons x s)
  have step: "mac_part (p @ [x]) \<longleftrightarrow> d < 2 \<and> isxdigit x"
    using Cons.prems by (auto simp: mac_part_def)
  have p: "p \<noteq> [] \<longleftrightarrow> 0 < d" using Cons.prems(1) by auto
  have nil: "mac_part []" by (simp add: mac_part_def)
  have digit: ?case if "isxdigit x" "d < 2"
  proof -
    have "x \<noteq> CHR '':''" using that by auto
    moreover have "d = 0 \<or> d = 1" using that by linarith
    then have "mac_loop d c (x # s) = mac_loop (Suc d) c s"
      using that \<open>x \<noteq> _\<close> by (elim disjE) (simp_all add: numeral_2_eq_2)
    ultimately show ?thesis
      using Cons.IH [of "p @ [x]" "Suc d" c] step that Cons.prems by (simp add: macg.rest_Cons)
  qed
  have colon: ?case if "x = CHR '':''" "0 < d" "c < 5"
  proof -
    have "mac_loop d c (x # s) = mac_loop 0 (c + 1) s" using that by simp
    moreover have "5 - (c + 1) = 5 - c - 1" by simp
    ultimately show ?thesis
      using Cons.IH [of "[]" 0 "c + 1"] nil step that p Cons.prems by (simp add: macg.rest_Cons)
  qed
  have no: ?case if "\<not> (isxdigit x \<and> d < 2)" "\<not> (x = CHR '':'' \<and> 0 < d \<and> c < 5)"
  proof -
    have "d \<le> 2" using Cons.prems by (simp add: mac_part_def)
    then have "mac_loop d c (x # s) = (CPARSER_NOT_OK, False)"
      using that by (cases "d = 0"; cases "d = 1") auto
    moreover have "\<not> macg.rest (5 - c) p (x # u)" for u
      using that step p by (auto simp: macg.rest_Cons)
    ultimately show ?thesis by simp
  qed
  show ?case using digit colon no by blast
qed

lemma digit_chars: "isdigit c \<Longrightarrow> \<exists>k<10. c = char_of (48 + k) \<and> digit_val c = k \<and> of_char c = 48 + k" for c :: char
  by (rule exI [of _ "of_char c - 48"]) (auto simp: isdigit_def digit_val_def Let_def)

lemma char_code: "c = d \<longleftrightarrow> (of_char c :: nat) = of_char d" for c d :: char
  by simp

lemma three_digits:
  assumes "isdigit a" "isdigit b" "isdigit c"
  shows "strncmp_pos [a, b, c] ''255'' 3 \<longleftrightarrow> base_val 10 [a, b, c] > 255"
proof -
  have v: "digit_val a = of_char a - 48" "digit_val b = of_char b - 48" "digit_val c = of_char c - 48"
    "48 \<le> (of_char a :: nat)" "48 \<le> (of_char b :: nat)" "48 \<le> (of_char c :: nat)"
    "(of_char a :: nat) \<le> 57" "(of_char b :: nat) \<le> 57" "(of_char c :: nat) \<le> 57"
    using assms by (auto simp: isdigit_def digit_val_def Let_def)
  have e: "a = CHR ''2'' \<longleftrightarrow> of_char a = (50 :: nat)" "b = CHR ''5'' \<longleftrightarrow> of_char b = (53 :: nat)"
    "c = CHR ''5'' \<longleftrightarrow> of_char c = (53 :: nat)"
    using char_code [of a "CHR ''2''"] char_code [of b "CHR ''5''"] char_code [of c "CHR ''5''"] by simp_all
  show ?thesis
    using v e by (auto simp: strncmp_pos_def base_val_def numeral_3_eq_3)
qed

lemma ipv4_part_snoc:
  "ipv4_part p \<Longrightarrow> ipv4_part (p @ [x]) \<longleftrightarrow> length p < 3 \<and> isdigit x \<and> (length p = 2 \<longrightarrow> base_val 10 (p @ [x]) \<le> 255)"
  by (auto simp: ipv4_part_def)

lemma two_digits: "length p = 2 \<Longrightarrow> \<exists>a b. p = [a, b]"
  by (auto simp: length_Suc_conv numeral_2_eq_2)

lemma ipv4_loop_digit:
  assumes "ipv4_part p" and "isdigit x" and "length p < 3"
  shows "ipv4_loop (length p) c (rev p @ pre) (x # s) =
    (if ipv4_part (p @ [x]) then ipv4_loop (Suc (length p)) c (rev (p @ [x]) @ pre) s else Some (CPARSER_NOT_OK, False))"
proof (cases "length p = 2")
  case True
  then obtain a b where p: "p = [a, b]" using two_digits by blast
  have ab: "isdigit a" "isdigit b" using assms(1) p by (auto simp: ipv4_part_def)
  have "strncmp_pos [a, b, x] ''255'' 3 \<longleftrightarrow> \<not> ipv4_part (p @ [x])"
    using three_digits [OF ab assms(2)] ab assms(2) p by (auto simp: ipv4_part_def)
  moreover have "x \<noteq> CHR ''.''" using assms(2) by auto
  ultimately show ?thesis
    using assms(2) p by (simp add: aget_def numeral_3_eq_3)
next
  case False
  then have "length p = 0 \<or> length p = 1" using assms(3) by linarith
  moreover have "x \<noteq> CHR ''.''" using assms(2) by auto
  ultimately show ?thesis
    using assms by (auto simp: ipv4_part_snoc length_Suc_conv)
qed

lemma ipv4_loop_rest:
  "ipv4_part p \<Longrightarrow> c \<le> 3 \<Longrightarrow> \<exists>r b. ipv4_loop (length p) c (rev p @ pre) s = Some (r, b) \<and>
    (r = CPARSER_OK \<longleftrightarrow> (\<exists>w. ipg.rest (3 - c) p (s @ w))) \<and>
    (r = CPARSER_OK \<and> b \<longleftrightarrow> ipg.rest (3 - c) p s)"
proof (induction s arbitrary: p c pre)
  case Nil
  then show ?case
    using ipg.rest_nonempty [of p "3 - c"] by (auto simp: ipg.rest_Nil)
next
  case (Cons x s)
  have len: "length p \<le> 3" using Cons.prems by (simp add: ipv4_part_def)
  have nil: "ipv4_part []" by (simp add: ipv4_part_def)
  have nosep: "\<not> ipv4_part (p @ [CHR ''.''])" by (rule ipg.part_sep)
  have digit: ?case if "isdigit x" "length p < 3"
  proof (cases "ipv4_part (p @ [x])")
    case True
    have "x \<noteq> CHR ''.''" using that by auto
    then show ?thesis
      using ipv4_loop_digit [OF Cons.prems(1) that, of c pre s] True Cons.IH [of "p @ [x]" c pre] Cons.prems
      by (simp add: ipg.rest_Cons del: ipv4_loop.simps)
  next
    case False
    have "x \<noteq> CHR ''.''" using that by auto
    then show ?thesis
      using ipv4_loop_digit [OF Cons.prems(1) that, of c pre s] False
      by (auto simp: ipg.rest_Cons simp del: ipv4_loop.simps)
  qed
  have dot: ?case if "x = CHR ''.''" "0 < length p" "c < 3"
  proof -
    have "ipv4_loop (length p) c (rev p @ pre) (x # s) = ipv4_loop 0 (c + 1) (x # rev p @ pre) s"
      using that len by auto
    moreover have "3 - (c + 1) = 3 - c - 1" by simp
    ultimately show ?thesis
      using Cons.IH [of "[]" "c + 1" "x # rev p @ pre"] nil that Cons.prems nosep
      by (simp add: ipg.rest_Cons del: ipv4_loop.simps)
  qed
  have no: ?case if "\<not> (isdigit x \<and> length p < 3)" "\<not> (x = CHR ''.'' \<and> 0 < length p \<and> c < 3)"
  proof -
    have "ipv4_loop (length p) c (rev p @ pre) (x # s) = Some (CPARSER_NOT_OK, False)"
      using that len by auto
    moreover have "\<not> ipg.rest (3 - c) p (x # u)" for u
      using that Cons.prems(1) by (auto simp: ipg.rest_Cons ipv4_part_snoc)
    ultimately show ?thesis by (auto simp del: ipv4_loop.simps)
  qed
  show ?case using digit dot no by blast
qed

text \<open>A match function decides about the characters typed so far.\<close>

definition decides :: "cparser_node \<Rightarrow> string \<Rightarrow> match \<Rightarrow> bool" where
  "decides node tok m \<longleftrightarrow> (\<exists>r b. m = Some (r, b) \<and> (r = CPARSER_OK \<longleftrightarrow> (\<exists>w. in_lang node (tok @ w))) \<and>
     (r = CPARSER_OK \<and> b \<longleftrightarrow> in_lang node tok))"

lemma decides_keyword:
  assumes "ntype node = CPARSER_NODE_KEYWORD" and "nparam node = Str kw"
  shows "decides node tok (cparser_match_keyword tok node)"
proof -
  have l: "in_lang node w \<longleftrightarrow> w = kw" for w using assms by (auto simp: in_lang_def)
  have p: "(\<exists>w. tok @ w = kw) \<longleftrightarrow> length tok \<le> length kw \<and> take (length tok) kw = tok"
    by (metis append_eq_conv_conj append_take_drop_id length_append le_add1)
  show ?thesis
    using assms unfolding decides_def l p
    by (auto simp: cparser_match_keyword_def strncmp_eq_def Let_def)
qed

lemma decides_mac:
  assumes "ntype node = CPARSER_NODE_MACADDR"
  shows "decides node tok (cparser_match_macaddr tok node)"
proof -
  have "in_lang node w \<longleftrightarrow> macg.rest 5 [] w" for w
    using assms by (simp add: in_lang_def macg.rest_joined)
  then show ?thesis
    using mac_loop_rest [of "[]" 0 0 tok] unfolding decides_def cparser_match_macaddr_def
    by (cases "mac_loop 0 0 tok") (auto simp: mac_part_def)
qed

lemma decides_ipv4:
  assumes "ntype node = CPARSER_NODE_IPV4ADDR"
  shows "decides node tok (cparser_match_ipv4addr tok node)"
proof -
  have "in_lang node w \<longleftrightarrow> ipg.rest 3 [] w" for w
    using assms by (simp add: in_lang_def ipg.rest_joined)
  then show ?thesis
    using ipv4_loop_rest [of "[]" 0 "[]" tok] unfolding decides_def cparser_match_ipv4addr_def
    by (simp add: ipv4_part_def)
qed

lemma hex_number_iff: "hex_number w \<longleftrightarrow> 2 < length w \<and> w ! 0 = CHR ''0'' \<and> w ! 1 = CHR ''x'' \<and> list_all isxdigit (drop 2 w)"
  by (cases w; cases "tl w") (auto simp: hex_number_def)

lemma hex_prefix: "(\<exists>w. hex_number (tok @ w)) \<longleftrightarrow>
  (tok = [] \<or> tok ! 0 = CHR ''0'' \<and> (length tok = 1 \<or> tok ! 1 = CHR ''x'' \<and> list_all isxdigit (drop 2 tok)))"
proof (cases tok)
  case Nil
  then show ?thesis by (auto simp: hex_number_def intro!: exI [of _ "''0''"])
next
  case (Cons a tl1)
  show ?thesis
  proof (cases tl1)
    case Nil
    then show ?thesis using Cons by (auto simp: hex_number_def intro!: exI [of _ "''0''"])
  next
    case (Cons b tl2)
    have "hex_number (tok @ ''0'')" if "a = CHR ''0''" "b = CHR ''x''" "list_all isxdigit tl2"
      using that \<open>tok = _\<close> Cons by (auto simp: hex_number_def)
    then show ?thesis
      using Cons \<open>tok = _\<close> by (auto simp: hex_number_def intro!: exI [of _ "''0''"])
  qed
qed

lemma decides_hex:
  assumes "ntype node = CPARSER_NODE_HEX \<or> ntype node = CPARSER_NODE_HEX64" and "tok \<noteq> []"
  shows "decides node tok (cparser_match_hex tok node)"
proof -
  have l: "in_lang node w \<longleftrightarrow> hex_number w" for w using assms(1) by (auto simp: in_lang_def)
  obtain a as where t: "tok = a # as" using assms(2) by (cases tok) auto
  show ?thesis
    unfolding decides_def l hex_prefix
    by (cases as) (auto simp: cparser_match_hex_def hex_number_iff t)
qed

lemma digits_prefix: "(\<exists>w. tok @ w \<noteq> [] \<and> list_all isdigit (tok @ w)) \<longleftrightarrow> list_all isdigit tok"
  by (auto intro: exI [of _ "''0''"])

lemma decides_uint:
  assumes "ntype node = CPARSER_NODE_UINT \<or> ntype node = CPARSER_NODE_UINT64" and "tok \<noteq> []"
  shows "decides node tok (cparser_match_uint tok node)"
proof -
  have l: "in_lang node w \<longleftrightarrow> w \<noteq> [] \<and> list_all isdigit w \<or> hex_number w" for w using assms(1) by (auto simp: in_lang_def)
  have ex: "(\<exists>w. in_lang node (tok @ w)) \<longleftrightarrow> list_all isdigit tok \<or> (\<exists>w. hex_number (tok @ w))"
    unfolding l using digits_prefix [of tok] by blast
  obtain a as where t: "tok = a # as" using assms(2) by (cases tok) auto
  show ?thesis
    unfolding decides_def ex unfolding l hex_prefix
    by (cases as) (auto simp: cparser_match_uint_def hex_number_iff t)
qed

lemma decides_int:
  assumes "ntype node = CPARSER_NODE_INT \<or> ntype node = CPARSER_NODE_INT64" and "tok \<noteq> []"
  shows "decides node tok (cparser_match_int tok node)"
proof -
  have l: "in_lang node (c # cs) \<longleftrightarrow> isdigit c \<and> list_all isdigit cs \<or> c \<in> {CHR ''+'', CHR ''-''} \<and> cs \<noteq> [] \<and> list_all isdigit cs"
    for c cs
    using assms(1) by (auto simp: in_lang_def int_number_def Let_def split: if_splits)
  obtain a as where t: "tok = a # as" using assms(2) by (cases tok) auto
  have ex: "(\<exists>w. in_lang node (tok @ w)) \<longleftrightarrow> (isdigit a \<or> a \<in> {CHR ''+'', CHR ''-''}) \<and> list_all isdigit as"
    unfolding t append_Cons l using digits_prefix [of as] by (auto intro: exI [of _ "''0''"])
  show ?thesis
    unfolding decides_def ex unfolding t l
    by (cases as) (auto simp: cparser_match_int_def)
qed

lemma match_decides:
  assumes "regular_type node" and "tok \<noteq> []"
  shows "decides node tok (cparser_match_fn_tbl (ntype node) tok node)"
proof -
  have any: "decides node tok (Some (CPARSER_OK, True))" if "ntype node = CPARSER_NODE_STRING \<or> ntype node = CPARSER_NODE_FILE"
    using that by (auto simp: decides_def in_lang_def)
  have none: "decides node tok (Some (CPARSER_NOT_OK, False))" if "ntype node = CPARSER_NODE_END"
    using that by (auto simp: decides_def in_lang_def)
  show ?thesis
    using assms any none decides_keyword decides_mac decides_ipv4 decides_hex decides_uint decides_int
    by (cases "ntype node") (auto simp: regular_type_def cparser_match_string_def cparser_match_file_def cparser_match_end_def)
qed

text \<open>
  C37: while a token is typed, the match function of a node accepts the characters exactly as long
  as they can be continued to a word the node stands for, and calls the token complete exactly when
  it is such a word: a keyword, a decimal or hexadecimal number, a signed number, a MAC address, an
  IPv4 address, or anything for a string and a file. The check for 255 in IPv4 addresses, which compares strings, is a comparison of
  numbers. Floating-point numbers and lists of keywords are left out; there the statement is false, see
  \<open>match_float_point\<close> and \<open>match_list_prefix_keyword\<close>.
\<close>

theorem match_is_prefix_test:
  assumes "regular_type node" and "tok \<noteq> []"
  shows "\<exists>r b. cparser_match_fn_tbl (ntype node) tok node = Some (r, b) \<and>
    (r = CPARSER_OK \<longleftrightarrow> (\<exists>w. in_lang node (tok @ w))) \<and> (r = CPARSER_OK \<and> b \<longleftrightarrow> in_lang node tok)"
  using match_decides [OF assms] by (simp add: decides_def)

theorem match_is_prefix_test_witness:
  "\<exists>b. cparser_match_fn_tbl CPARSER_NODE_IPV4ADDR ''10.25'' (Node CPARSER_NODE_IPV4ADDR 0 No_param None []) = Some (CPARSER_OK, b) \<and> \<not> b"
proof -
  let ?n = "Node CPARSER_NODE_IPV4ADDR 0 No_param None []"
  have r: "regular_type ?n" by (simp add: regular_type_def)
  have "''10.25'' @ ''.0.1'' = joined (CHR ''.'') [''10'', ''25'', ''0'', ''1'']" by (simp add: joined_def)
  then have "in_lang ?n (''10.25'' @ ''.0.1'')"
    unfolding in_lang_def
    by (simp only: cparser_node.sel cparser_node_type.case)
      (rule exI [of _ "[''10'', ''25'', ''0'', ''1'']"], simp add: ipv4_part_def isdigit_def)
  moreover have "\<not> ipg.rest 3 [] ''10.25''"
    by (simp add: ipg.rest_Cons ipg.rest_Nil ipv4_part_def isdigit_def)
  then have "\<not> in_lang ?n ''10.25''" by (simp add: in_lang_def ipg.rest_joined)
  ultimately show ?thesis
    using match_is_prefix_test [OF r, of "''10.25''"] by auto
qed

text \<open>
  Numbers with a point are matched differently: a word that begins with a point is never accepted
  as a number, but any two characters that begin with a point count as the beginning of one.
\<close>

lemma match_float_point:
  "cparser_match_float ''.'' node = Some (CPARSER_NOT_OK, False)"
  "cparser_match_float [CHR ''.'', c] node = Some (CPARSER_OK, False)"
  "cparser_match_float (CHR ''.'' # c # d # cs) node = Some (CPARSER_NOT_OK, False)"
  by (simp_all add: cparser_match_float_def)

lemma float_loop_digits:
  "(fst (float_loop pt s) = CPARSER_OK) \<longleftrightarrow> (\<forall>c\<in>set s. isdigit c \<or> c = CHR ''.'') \<and> count_list s (CHR ''.'') + of_bool pt \<le> 1"
  by (induction pt s rule: float_loop.induct) auto

text \<open>A keyword that is the beginning of another one in a list is never complete.\<close>

lemma match_list_prefix_keyword:
  assumes "nparam node = Keywords kws" and "kws = us @ kw # vs" and "(kw @ w) \<in> set (us @ vs)"
  shows "\<exists>b. cparser_match_list kw node = Some (CPARSER_OK, b) \<and> \<not> b"
proof -
  let ?m = "\<lambda>k. strncmp_eq kw k (length kw)"
  have "(kw @ w) \<in> set (filter ?m (us @ vs))"
    using assms(3) by (auto simp: strncmp_eq_def)
  then have "0 < length (filter ?m (us @ vs))" by (rule length_pos_if_in_set)
  moreover have "?m kw" by (simp add: strncmp_eq_def)
  ultimately have "1 < length (filter ?m kws)" using assms(2) by simp
  then show ?thesis
    using assms by (auto simp: cparser_match_list_def)
qed

end
