(* ===== verification/Cli_Value.thy ===== *)
theory Cli_Value
  imports Cli_Token
begin

unbundle bit_operations_syntax

text \<open>
  The second half of \<^verbatim>\<open>cparser_token.c\<close>: the functions that turn the token of a command into
  the value its action receives.
\<close>

section \<open>Values of tokens\<close>

definition cparser_get_string :: "cparser_token \<Rightarrow> cparser_result \<times> char list option" where
  "cparser_get_string t = (if token_len t = 0 then (CPARSER_NOT_OK, None) else (CPARSER_OK, Some (tbuf t)))"

text \<open>
  The loops of the functions for 32 and for 64 bits are the same but for the width of \<open>new\<close>,
  \<open>old\<close> and \<open>d\<close>.
\<close>

fun uint_loop :: "'a::len word \<Rightarrow> string \<Rightarrow> (cparser_result \<times> 'a word) option" where
  "uint_loop old [] = Some (CPARSER_OK, old)"
| "uint_loop old (c # cs) =
     (if isdigit c then
        let d = of_nat (of_char c - 48); new = old * 10 + d in
        if (new - d) div 10 \<noteq> old then Some (CPARSER_NOT_OK, 0) else uint_loop new cs
      else None)"

definition cparser_get_uint_internal :: "string \<Rightarrow> (cparser_result \<times> 32 word) option" where
  "cparser_get_uint_internal tok = uint_loop 0 tok"

definition cparser_get_uint64_internal :: "string \<Rightarrow> (cparser_result \<times> 64 word) option" where
  "cparser_get_uint64_internal tok = uint_loop 0 tok"

fun hex_loop :: "'a::len word \<Rightarrow> string \<Rightarrow> (cparser_result \<times> 'a word) option" where
  "hex_loop old [] = Some (CPARSER_OK, old)"
| "hex_loop old (c # cs) =
     (let n = of_char c :: nat in
      if 48 \<le> n \<and> n \<le> 57 \<or> 97 \<le> n \<and> n \<le> 102 \<or> 65 \<le> n \<and> n \<le> 70 then
        let d = of_nat (if n \<le> 57 then n - 48 else if 97 \<le> n then n - 97 + 10 else n - 65 + 10);
            new = push_bit 4 old + d in
        if drop_bit 4 (new - d) \<noteq> old then Some (CPARSER_NOT_OK, 0) else hex_loop new cs
      else None)"

definition get_hex_token :: "cparser_token \<Rightarrow> (cparser_result \<times> 'a::len word) option" where
  "get_hex_token t =
     (if token_len t = 0 then Some (CPARSER_NOT_OK, 0)
      else do {
        s \<leftarrow> tok_chars t;
        c_assert (token_len t > 2 \<and> CHR ''0'' = s ! 0 \<and> CHR ''x'' = s ! 1);
        hex_loop 0 (drop 2 s) })"

definition cparser_get_hex :: "cparser_token \<Rightarrow> (cparser_result \<times> 32 word) option" where
  "cparser_get_hex t = get_hex_token t"

definition cparser_get_hex64 :: "cparser_token \<Rightarrow> (cparser_result \<times> 64 word) option" where
  "cparser_get_hex64 t = get_hex_token t"

definition cparser_get_uint :: "cparser_token \<Rightarrow> (cparser_result \<times> 32 word) option" where
  "cparser_get_uint t =
     (if token_len t = 0 then Some (CPARSER_NOT_OK, 0)
      else do {
        s \<leftarrow> tok_chars t;
        if 1 < token_len t \<and> CHR ''x'' = s ! 1 then cparser_get_hex t
        else cparser_get_uint_internal s })"

definition cparser_get_uint64 :: "cparser_token \<Rightarrow> (cparser_result \<times> 64 word) option" where
  "cparser_get_uint64 t =
     (if token_len t = 0 then Some (CPARSER_NOT_OK, 0)
      else do {
        s \<leftarrow> tok_chars t;
        if 1 < token_len t \<and> CHR ''x'' = s ! 1 then cparser_get_hex64 t
        else cparser_get_uint64_internal s })"

text \<open>The sign of a signed number and how many characters it takes.\<close>

definition sign_of :: "string \<Rightarrow> int \<times> nat" where
  "sign_of s = (if CHR ''-'' = s ! 0 then (-1, 1) else if CHR ''+'' = s ! 0 then (1, 1) else (1, 0))"

definition cparser_get_int :: "cparser_token \<Rightarrow> (cparser_result \<times> int) option" where
  "cparser_get_int t =
     (if token_len t = 0 then Some (CPARSER_NOT_OK, 0)
      else do {
        s \<leftarrow> tok_chars t;
        let (sign, init_pos) = sign_of s;
        (rc, tmp) \<leftarrow> cparser_get_uint_internal (drop init_pos s);
        if rc \<noteq> CPARSER_OK then Some (CPARSER_NOT_OK, 0)
        else if sign = 1 then
          (if tmp > 0x7fffffff then Some (CPARSER_NOT_OK, 0) else Some (CPARSER_OK, sint tmp))
        else if tmp > 0x80000000 then Some (CPARSER_NOT_OK, 0)
        else do { v \<leftarrow> c_int (- sint tmp); Some (CPARSER_OK, v) } })"

definition c_int64 :: "int \<Rightarrow> int option" where
  "c_int64 x = (if - (2 ^ 63) \<le> x \<and> x < 2 ^ 63 then Some x else None)"

definition cparser_get_int64 :: "cparser_token \<Rightarrow> (cparser_result \<times> int) option" where
  "cparser_get_int64 t =
     (if token_len t = 0 then Some (CPARSER_NOT_OK, 0)
      else do {
        s \<leftarrow> tok_chars t;
        let (sign, init_pos) = sign_of s;
        (rc, tmp) \<leftarrow> cparser_get_uint64_internal (drop init_pos s);
        if rc \<noteq> CPARSER_OK then Some (CPARSER_NOT_OK, 0)
        else if sign = 1 then
          (if tmp > 0x7fffffffffffffff then Some (CPARSER_NOT_OK, 0) else Some (CPARSER_OK, sint tmp))
        else if tmp > 0x8000000000000000 then Some (CPARSER_NOT_OK, 0)
        else do { v \<leftarrow> c_int64 (- sint tmp); Some (CPARSER_OK, v) } })"

subsection \<open>Addresses\<close>

text \<open>
  What \<^verbatim>\<open>sscanf\<close> reads for \<^verbatim>\<open>%lu\<close> and \<^verbatim>\<open>%lx\<close>: blanks, a sign, for base 16 the prefix \<^verbatim>\<open>0x\<close>,
  and at least one digit; too large a number is \<^verbatim>\<open>ULONG_MAX\<close>.
\<close>

definition scan_sign :: "string \<Rightarrow> bool \<times> string" where
  "scan_sign s = (case s of c # cs \<Rightarrow> (if c = CHR ''-'' then (True, cs) else if c = CHR ''+'' then (False, cs) else (False, s))
     | [] \<Rightarrow> (False, []))"

definition scan_prefix :: "string \<Rightarrow> string" where
  "scan_prefix s = (case s of a # b # cs \<Rightarrow> (if a = CHR ''0'' \<and> (b = CHR ''x'' \<or> b = CHR ''X'') then cs else s) | _ \<Rightarrow> s)"

definition scan_ulong :: "nat \<Rightarrow> string \<Rightarrow> (nat \<times> string) option" where
  "scan_ulong b s = (
     let (neg, s1) = scan_sign (dropWhile isspace s);
         s2 = (if b = 16 then scan_prefix s1 else s1);
         isd = (if b = 16 then isxdigit else isdigit);
         ds = takeWhile isd s2;
         v = min (base_val b ds) (2 ^ 64 - 1) in
     if ds = [] then None
     else Some (if neg then (2 ^ 64 - v) mod 2 ^ 64 else v, dropWhile isd s2))"

text \<open>\<open>n + 1\<close> numbers with the character \<open>sep\<close> between them; \<open>None\<close> when \<^verbatim>\<open>sscanf\<close> returns less.\<close>

fun scan_fields :: "nat \<Rightarrow> char \<Rightarrow> nat \<Rightarrow> string \<Rightarrow> nat list option" where
  "scan_fields b sep n s = (case scan_ulong b s of None \<Rightarrow> None
     | Some (v, rest) \<Rightarrow> (case n of 0 \<Rightarrow> Some [v]
       | Suc m \<Rightarrow> (case rest of c # cs \<Rightarrow> (if c = sep then map_option ((#) v) (scan_fields b sep m cs) else None)
                    | [] \<Rightarrow> None)))"

definition cparser_get_macaddr :: "cparser_token \<Rightarrow> (cparser_result \<times> 8 word list) option" where
  "cparser_get_macaddr t =
     (if token_len t = 0 then Some (CPARSER_NOT_OK, replicate 6 0)
      else do {
        s \<leftarrow> cstr (tbuf t) 0;
        case scan_fields 16 (CHR '':'') 5 s of
          Some vs \<Rightarrow> (if \<exists>v\<in>set vs. v > 255 then Some (CPARSER_NOT_OK, replicate 6 0)
                     else Some (CPARSER_OK, map of_nat vs))
        | None \<Rightarrow> Some (CPARSER_NOT_OK, replicate 6 0) })"

definition ipv4_word :: "nat list \<Rightarrow> 32 word" where
  "ipv4_word vs = push_bit 24 (of_nat (vs ! 0)) OR push_bit 16 (of_nat (vs ! 1)) OR
     push_bit 8 (of_nat (vs ! 2)) OR of_nat (vs ! 3)"

definition cparser_get_ipv4addr :: "cparser_token \<Rightarrow> (cparser_result \<times> 32 word) option" where
  "cparser_get_ipv4addr t =
     (if token_len t = 0 then Some (CPARSER_NOT_OK, 0)
      else do {
        s \<leftarrow> cstr (tbuf t) 0;
        case scan_fields 10 (CHR ''.'') 3 s of
          Some vs \<Rightarrow> (if \<exists>v\<in>set vs. v > 255 then Some (CPARSER_NOT_OK, 0)
                     else Some (CPARSER_OK, ipv4_word vs))
        | None \<Rightarrow> Some (CPARSER_NOT_OK, 0) })"

text \<open>The argument says which paths name a regular file.\<close>

definition cparser_get_file :: "(string \<Rightarrow> bool) \<Rightarrow> cparser_token \<Rightarrow> (cparser_result \<times> char list option) option" where
  "cparser_get_file regular t =
     (if token_len t = 0 then Some (CPARSER_NOT_OK, None)
      else do {
        s \<leftarrow> cstr (tbuf t) 0;
        Some (if \<not> regular s then (CPARSER_NOT_OK, None) else (CPARSER_OK, Some (tbuf t))) })"

text \<open>The second argument is what \<open>*ptr\<close> holds before the call.\<close>

definition cparser_get_list :: "cparser_token \<Rightarrow> string option \<Rightarrow> (cparser_result \<times> string option) option" where
  "cparser_get_list t ptr = (case tnode t of None \<Rightarrow> Some (CPARSER_NOT_OK, ptr)
     | Some node \<Rightarrow> do {
         c_assert (ntype node = CPARSER_NODE_LIST);
         s \<leftarrow> cstr (tbuf t) 0;
         case nparam node of Keywords kws \<Rightarrow>
           (case find (\<lambda>kw. strncmp_eq s kw (min (length kw) (token_len t))) kws of
              Some kw \<Rightarrow> Some (CPARSER_OK, Some kw)
            | None \<Rightarrow> Some (CPARSER_NOT_OK, None))
         | _ \<Rightarrow> None })"

section \<open>Numbers\<close>

definition val_from :: "nat \<Rightarrow> nat \<Rightarrow> string \<Rightarrow> nat" where
  "val_from b a s = foldl (\<lambda>a c. b * a + digit_val c) a s"

lemma base_val_from: "base_val b s = val_from b 0 s"
  by (simp add: base_val_def val_from_def)

lemma val_from_simps [simp]: "val_from b a [] = a" "val_from b a (c # s) = val_from b (b * a + digit_val c) s"
  "val_from b a (s @ [c]) = b * val_from b a s + digit_val c"
  by (simp_all add: val_from_def)

lemma val_from_ge: "0 < b \<Longrightarrow> a \<le> val_from b a s"
proof (induction s arbitrary: a)
  case (Cons c s)
  have "a \<le> b * a + digit_val c" using Cons.prems by (simp add: trans_le_add1)
  also have "\<dots> \<le> val_from b a (c # s)" using Cons by simp
  finally show ?case .
qed simp

lemma digit_code: "isdigit c \<Longrightarrow> of_char c - 48 = digit_val c \<and> digit_val c < 10" for c
  by (auto simp: isdigit_def digit_val_def Let_def)

lemma unat_10: "4 \<le> LENGTH('a) \<Longrightarrow> unat (10 :: 'a::len word) = 10"
proof -
  assume "4 \<le> LENGTH('a)"
  then have "(2::nat) ^ 4 \<le> 2 ^ LENGTH('a)" by (intro power_increasing) auto
  then show ?thesis by (simp add: unat_numeral take_bit_eq_mod)
qed

lemma unat_small: "n < 2 ^ LENGTH('a) \<Longrightarrow> unat (of_nat n :: 'a::len word) = n"
  by (simp add: unsigned_of_nat take_bit_nat_eq_self_iff)

text \<open>The test for an overflow sees only the multiplication.\<close>

lemma times_10_check:
  fixes old d :: "'a::len word"
  assumes len: "4 \<le> LENGTH('a)"
  shows "(old * 10 + d - d) div 10 = old \<longleftrightarrow> unat old * 10 < 2 ^ LENGTH('a)"
proof -
  let ?N = "(2::nat) ^ LENGTH('a)"
  have N: "16 \<le> ?N" using power_increasing [OF len, of "2::nat"] by simp
  have u: "unat ((old * 10 + d - d) div 10) = (unat old * 10 mod ?N) div 10"
    using unat_10 [OF len] by (simp add: unat_div unat_word_ariths)
  show ?thesis
  proof (cases "unat old * 10 < ?N")
    case True
    then have "unat ((old * 10 + d - d) div 10) = unat old" using u by simp
    then have "(old * 10 + d - d) div 10 = old" by (simp only: word_unat_eq_iff)
    then show ?thesis using True by blast
  next
    case False
    then have "unat old * 10 mod ?N \<le> unat old * 10 - ?N"
      by (metis le_mod_geq mod_less_eq_dividend not_less)
    then have "unat old * 10 mod ?N < unat old * 10 - 9" using N False by linarith
    then have "(unat old * 10 mod ?N) div 10 \<noteq> unat old" by linarith
    then have "(old * 10 + d - d) div 10 \<noteq> old" using u by metis
    then show ?thesis using False by blast
  qed
qed

lemma uint_loop_step:
  fixes old :: "'a::len word"
  assumes "4 \<le> LENGTH('a)" and "isdigit c"
  shows "uint_loop old (c # cs) = (if unat old * 10 < 2 ^ LENGTH('a)
    then uint_loop (of_nat (10 * unat old + digit_val c)) cs else Some (CPARSER_NOT_OK, 0))"
  using times_10_check [OF assms(1), of old "of_nat (digit_val c)"] digit_code [OF assms(2)] assms(2)
  by (simp add: Let_def mult.commute)

text \<open>A value too large for the type, that a wrong addition brought back into it.\<close>

definition wraps :: "nat \<Rightarrow> nat \<Rightarrow> string \<Rightarrow> bool" where
  "wraps N a s \<longleftrightarrow> (\<exists>n\<le>length s. N \<le> val_from 10 a (take n s) \<and> val_from 10 a (take n s) < N + 4)"

lemma wraps_Nil: "wraps N a [] \<longleftrightarrow> N \<le> a \<and> a < N + 4"
  by (simp add: wraps_def)

lemma wraps_Cons: "a < N \<Longrightarrow> wraps N a (c # s) \<longleftrightarrow> wraps N (10 * a + digit_val c) s"
proof -
  assume a: "a < N"
  show ?thesis
  proof
    assume "wraps N a (c # s)"
    then obtain n where n: "n \<le> Suc (length s)" "N \<le> val_from 10 a (take n (c # s))" "val_from 10 a (take n (c # s)) < N + 4"
      by (auto simp: wraps_def)
    then obtain m where "n = Suc m" using a by (cases n) auto
    then show "wraps N (10 * a + digit_val c) s" using n by (auto simp: wraps_def)
  next
    assume "wraps N (10 * a + digit_val c) s"
    then obtain n where "n \<le> length s" "N \<le> val_from 10 (10 * a + digit_val c) (take n s)"
      "val_from 10 (10 * a + digit_val c) (take n s) < N + 4"
      by (auto simp: wraps_def)
    then show "wraps N a (c # s)" unfolding wraps_def by (intro exI [of _ "Suc n"]) simp
  qed
qed

lemma uint_loop_value:
  fixes old :: "'a::len word"
  assumes len: "4 \<le> LENGTH('a)" and six: "(2::nat) ^ LENGTH('a) mod 10 = 6"
  shows "list_all isdigit s \<Longrightarrow> (val_from 10 (unat old) s < 2 ^ LENGTH('a) \<longrightarrow>
      uint_loop old s = Some (CPARSER_OK, of_nat (val_from 10 (unat old) s))) \<and>
    (2 ^ LENGTH('a) \<le> val_from 10 (unat old) s \<longrightarrow> \<not> wraps (2 ^ LENGTH('a)) (unat old) s \<longrightarrow>
      uint_loop old s = Some (CPARSER_NOT_OK, 0))"
proof (induction s arbitrary: old)
  case Nil
  have "unat old < 2 ^ LENGTH('a)" by simp
  then show ?case by (simp del: unsigned_less)
next
  case (Cons c s)
  let ?N = "(2::nat) ^ LENGTH('a)" and ?v = "10 * unat old + digit_val c"
  have c: "isdigit c" "digit_val c < 10" "list_all isdigit s" using Cons.prems digit_code by auto
  have old: "unat old < ?N" by simp
  have bound: "?v \<le> val_from 10 ?v s" by (rule val_from_ge) simp
  note step = uint_loop_step [OF len c(1), of old s]
  show ?case
  proof (cases "?v < ?N")
    case True
    then have "unat (of_nat ?v :: 'a word) = ?v" by (rule unat_small)
    moreover have "unat old * 10 < ?N" using True by linarith
    ultimately show ?thesis
      using Cons.IH [OF c(3), of "of_nat ?v"] step wraps_Cons [OF old, of c s]
      by (simp only: val_from_simps if_True)
  next
    case False
    have "?N \<le> unat old * 10 \<or> wraps ?N (unat old) (c # s)"
    proof (cases "?v < ?N + 4")
      case True
      then show ?thesis using False unfolding wraps_def by (intro disjI2 exI [of _ 1]) simp
    next
      case big: False
      obtain q where q: "?N = 10 * q + 6" using six by (metis mult_div_mod_eq)
      then have "q < unat old" using big c(2) by linarith
      then have "?N \<le> unat old * 10" using q by linarith
      then show ?thesis ..
    qed
    then have "\<not> wraps ?N (unat old) (c # s) \<Longrightarrow> uint_loop old (c # s) = Some (CPARSER_NOT_OK, 0)"
      using step by (auto simp del: uint_loop.simps)
    then show ?thesis
      using False bound by (simp only: val_from_simps) linarith
  qed
qed

lemma times_16_check:
  fixes old d :: "'a::len word"
  shows "drop_bit 4 (push_bit 4 old + d - d) = old \<longleftrightarrow> unat old * 16 < 2 ^ LENGTH('a)"
proof -
  let ?N = "(2::nat) ^ LENGTH('a)"
  have u: "unat (drop_bit 4 (push_bit 4 old + d - d)) = (unat old * 16 mod ?N) div 16"
  proof -
    have "push_bit 4 old + d - d = push_bit 4 old" by simp
    then show ?thesis
      by (simp only: unsigned_drop_bit_eq unsigned_push_bit_eq) (simp add: drop_bit_eq_div push_bit_eq_mult take_bit_eq_mod)
  qed
  show ?thesis
  proof (cases "unat old * 16 < ?N")
    case True
    then have "unat (drop_bit 4 (push_bit 4 old + d - d)) = unat old" using u by simp
    then have "drop_bit 4 (push_bit 4 old + d - d) = old" by (simp only: word_unat_eq_iff)
    then show ?thesis using True by blast
  next
    case False
    moreover have "unat old * 16 mod ?N < ?N" by simp
    ultimately have "unat old * 16 mod ?N < unat old * 16" by linarith
    then have "(unat old * 16 mod ?N) div 16 \<noteq> unat old" by linarith
    then have "drop_bit 4 (push_bit 4 old + d - d) \<noteq> old" using u by metis
    then show ?thesis using False by blast
  qed
qed

lemma hex_code:
  assumes "isxdigit c"
  shows "digit_val c < 16" and "hex_loop (old :: 'a::len word) (c # cs) =
    (if unat old * 16 < 2 ^ LENGTH('a) then hex_loop (of_nat (16 * unat old + digit_val c)) cs else Some (CPARSER_NOT_OK, 0))"
proof -
  let ?n = "of_char c :: nat"
  have r: "48 \<le> ?n \<and> ?n \<le> 57 \<or> 97 \<le> ?n \<and> ?n \<le> 102 \<or> 65 \<le> ?n \<and> ?n \<le> 70"
    using assms by (simp add: isxdigit_def Let_def)
  have v: "(if ?n \<le> 57 then ?n - 48 else if 97 \<le> ?n then ?n - 97 + 10 else ?n - 65 + 10) = digit_val c"
    using r by (auto simp: digit_val_def Let_def)
  show "digit_val c < 16" using r by (auto simp: digit_val_def Let_def)
  have new: "push_bit 4 old + of_nat (digit_val c) = of_nat (16 * unat old + digit_val c)"
    by (simp add: push_bit_eq_mult mult.commute)
  show "hex_loop old (c # cs) =
    (if unat old * 16 < 2 ^ LENGTH('a) then hex_loop (of_nat (16 * unat old + digit_val c)) cs else Some (CPARSER_NOT_OK, 0))"
    unfolding hex_loop.simps Let_def v using r times_16_check [of old "of_nat (digit_val c)"] new by simp
qed

lemma hex_loop_value:
  fixes old :: "'a::len word"
  assumes len: "4 \<le> LENGTH('a)"
  shows "list_all isxdigit s \<Longrightarrow> hex_loop old s = Some (if val_from 16 (unat old) s < 2 ^ LENGTH('a)
    then (CPARSER_OK, of_nat (val_from 16 (unat old) s)) else (CPARSER_NOT_OK, 0))"
proof (induction s arbitrary: old)
  case Nil
  then show ?case by simp
next
  case (Cons c s)
  let ?N = "(2::nat) ^ LENGTH('a)" and ?v = "16 * unat old + digit_val c"
  have c: "isxdigit c" "list_all isxdigit s" using Cons.prems by auto
  have bound: "?v \<le> val_from 16 ?v s" by (rule val_from_ge) simp
  obtain k where k: "?N = 16 * k"
    using le_imp_power_dvd [OF len, of "2::nat"] by (auto simp: dvd_def)
  show ?case
  proof (cases "unat old * 16 < ?N")
    case True
    then have "unat old < k" using k by linarith
    then have v: "?v < ?N" using k hex_code(1) [OF c(1)] by linarith
    then have "unat (of_nat ?v :: 'a word) = ?v" by (rule unat_small)
    then show ?thesis
      using Cons.IH [OF c(2), of "of_nat ?v"] hex_code(2) [OF c(1), of old s] True
      by (simp only: val_from_simps if_True)
  next
    case False
    then show ?thesis
      using hex_code(2) [OF c(1), of old s] bound by (simp del: hex_loop.simps)
  qed
qed

lemma get_uint_values:
  assumes "tok_chars t = Some s"
  shows "hex_number s \<longrightarrow> cparser_get_uint t = Some (if base_val 16 (drop 2 s) < 2 ^ 32
      then (CPARSER_OK, of_nat (base_val 16 (drop 2 s))) else (CPARSER_NOT_OK, 0))"
    and "hex_number s \<longrightarrow> cparser_get_uint64 t = Some (if base_val 16 (drop 2 s) < 2 ^ 64
      then (CPARSER_OK, of_nat (base_val 16 (drop 2 s))) else (CPARSER_NOT_OK, 0))"
    and "s \<noteq> [] \<and> list_all isdigit s \<and> base_val 10 s < 2 ^ 32 \<longrightarrow> cparser_get_uint t = Some (CPARSER_OK, of_nat (base_val 10 s))"
    and "s \<noteq> [] \<and> list_all isdigit s \<and> base_val 10 s < 2 ^ 64 \<longrightarrow> cparser_get_uint64 t = Some (CPARSER_OK, of_nat (base_val 10 s))"
    and "s \<noteq> [] \<and> list_all isdigit s \<and> 2 ^ 32 \<le> base_val 10 s \<and> \<not> wraps (2 ^ 32) 0 s \<longrightarrow> cparser_get_uint t = Some (CPARSER_NOT_OK, 0)"
    and "s \<noteq> [] \<and> list_all isdigit s \<and> 2 ^ 64 \<le> base_val 10 s \<and> \<not> wraps (2 ^ 64) 0 s \<longrightarrow> cparser_get_uint64 t = Some (CPARSER_NOT_OK, 0)"
proof -
  have len: "token_len t = length s" using assms by (auto simp: tok_chars_def split: if_splits)
  have hex: "cparser_get_uint t = hex_loop 0 (drop 2 s)" "cparser_get_uint64 t = hex_loop 0 (drop 2 s)" if "hex_number s"
    using that assms len
    by (auto simp: cparser_get_uint_def cparser_get_uint64_def cparser_get_hex_def cparser_get_hex64_def get_hex_token_def hex_number_iff)
  have dec: "cparser_get_uint t = uint_loop 0 s" "cparser_get_uint64 t = uint_loop 0 s" if "s \<noteq> []" "list_all isdigit s"
  proof -
    have "s ! 1 \<noteq> CHR ''x''" if "1 < length s"
      using that \<open>list_all isdigit s\<close> by (auto simp: list_all_length)
    then show "cparser_get_uint t = uint_loop 0 s" "cparser_get_uint64 t = uint_loop 0 s"
      using that assms len by (auto simp: cparser_get_uint_def cparser_get_uint64_def cparser_get_uint_internal_def cparser_get_uint64_internal_def)
  qed
  show "hex_number s \<longrightarrow> cparser_get_uint t = Some (if base_val 16 (drop 2 s) < 2 ^ 32
      then (CPARSER_OK, of_nat (base_val 16 (drop 2 s))) else (CPARSER_NOT_OK, 0))"
    "hex_number s \<longrightarrow> cparser_get_uint64 t = Some (if base_val 16 (drop 2 s) < 2 ^ 64
      then (CPARSER_OK, of_nat (base_val 16 (drop 2 s))) else (CPARSER_NOT_OK, 0))"
    using hex hex_loop_value [of "drop 2 s" "0 :: 32 word"] hex_loop_value [of "drop 2 s" "0 :: 64 word"]
    by (simp_all add: hex_number_iff base_val_from)
  show "s \<noteq> [] \<and> list_all isdigit s \<and> base_val 10 s < 2 ^ 32 \<longrightarrow> cparser_get_uint t = Some (CPARSER_OK, of_nat (base_val 10 s))"
    "s \<noteq> [] \<and> list_all isdigit s \<and> 2 ^ 32 \<le> base_val 10 s \<and> \<not> wraps (2 ^ 32) 0 s \<longrightarrow> cparser_get_uint t = Some (CPARSER_NOT_OK, 0)"
    using dec uint_loop_value [of s "0 :: 32 word"] by (simp_all add: base_val_from)
  show "s \<noteq> [] \<and> list_all isdigit s \<and> base_val 10 s < 2 ^ 64 \<longrightarrow> cparser_get_uint64 t = Some (CPARSER_OK, of_nat (base_val 10 s))"
    "s \<noteq> [] \<and> list_all isdigit s \<and> 2 ^ 64 \<le> base_val 10 s \<and> \<not> wraps (2 ^ 64) 0 s \<longrightarrow> cparser_get_uint64 t = Some (CPARSER_NOT_OK, 0)"
    using dec uint_loop_value [of s "0 :: 64 word"] by (simp_all add: base_val_from)
qed

text \<open>
  C39: the value of an unsigned number. Hexadecimal numbers are read exactly, and one that does
  not fit is refused. Decimal numbers that fit are read exactly. One that does not fit is refused,
  unless one of its prefixes lies within four of the first number too large for the type.
\<close>

theorem get_uint_value:
  assumes "tok_chars t = Some s"
  shows "(hex_number s \<longrightarrow> cparser_get_uint t = Some (if base_val 16 (drop 2 s) < 2 ^ 32 then (CPARSER_OK, of_nat (base_val 16 (drop 2 s))) else (CPARSER_NOT_OK, 0))) \<and>
    (hex_number s \<longrightarrow> cparser_get_uint64 t = Some (if base_val 16 (drop 2 s) < 2 ^ 64 then (CPARSER_OK, of_nat (base_val 16 (drop 2 s))) else (CPARSER_NOT_OK, 0))) \<and>
    (s \<noteq> [] \<and> list_all isdigit s \<and> base_val 10 s < 2 ^ 32 \<longrightarrow> cparser_get_uint t = Some (CPARSER_OK, of_nat (base_val 10 s))) \<and>
    (s \<noteq> [] \<and> list_all isdigit s \<and> base_val 10 s < 2 ^ 64 \<longrightarrow> cparser_get_uint64 t = Some (CPARSER_OK, of_nat (base_val 10 s))) \<and>
    (s \<noteq> [] \<and> list_all isdigit s \<and> 2 ^ 32 \<le> base_val 10 s \<and> \<not> wraps (2 ^ 32) 0 s \<longrightarrow> cparser_get_uint t = Some (CPARSER_NOT_OK, 0)) \<and>
    (s \<noteq> [] \<and> list_all isdigit s \<and> 2 ^ 64 \<le> base_val 10 s \<and> \<not> wraps (2 ^ 64) 0 s \<longrightarrow> cparser_get_uint64 t = Some (CPARSER_NOT_OK, 0))"
  by (intro conjI get_uint_values [OF assms])

definition sample_token :: "string \<Rightarrow> cparser_token" where
  "sample_token s = \<lparr>begin_ptr = 0, token_len = length s, tbuf = s @ replicate (256 - length s) NUL, tparent = None, tnode = None\<rparr>"

lemma sample_token_chars: "tok_chars (sample_token s) = Some s"
  by (simp add: sample_token_def tok_chars_def)

theorem get_uint_value_witness:
  "cparser_get_uint (sample_token ''0xFFFFFFFF'') = Some (CPARSER_OK, 4294967295) \<and>
   cparser_get_uint (sample_token ''9876543210'') = Some (CPARSER_NOT_OK, 0) \<and>
   cparser_get_uint64 (sample_token ''18446744073709551615'') = Some (CPARSER_OK, 18446744073709551615)"
proof (intro conjI)
  show "cparser_get_uint (sample_token ''0xFFFFFFFF'') = Some (CPARSER_OK, 4294967295)"
    using get_uint_value [OF sample_token_chars, of "''0xFFFFFFFF''"]
    by (simp add: hex_number_iff isxdigit_def base_val_def digit_val_def)
  have "\<not> wraps (2 ^ 32) 0 ''9876543210''"
    by (simp add: wraps_Cons wraps_Nil digit_val_def)
  then show "cparser_get_uint (sample_token ''9876543210'') = Some (CPARSER_NOT_OK, 0)"
    using get_uint_value [OF sample_token_chars, of "''9876543210''"]
    by (simp add: isdigit_def base_val_def digit_val_def Let_def)
  show "cparser_get_uint64 (sample_token ''18446744073709551615'') = Some (CPARSER_OK, 18446744073709551615)"
    using get_uint_value [OF sample_token_chars, of "''18446744073709551615''"]
    by (simp add: isdigit_def base_val_def digit_val_def Let_def)
qed

text \<open>The first numbers too large for 32 and for 64 bits are read as 0 and 3.\<close>

lemma get_uint_accepts_overflow:
  "cparser_get_uint (sample_token ''4294967296'') = Some (CPARSER_OK, 0)"
  "cparser_get_uint64 (sample_token ''18446744073709551619'') = Some (CPARSER_OK, 3)"
  by (simp_all add: cparser_get_uint_def cparser_get_uint64_def sample_token_chars cparser_get_uint_internal_def
      cparser_get_uint64_internal_def isdigit_def Let_def) (simp_all add: sample_token_def)

section \<open>Signed numbers\<close>

definition signed_val :: "string \<Rightarrow> int" where
  "signed_val s = fst (sign_of s) * int (base_val 10 (drop (snd (sign_of s)) s))"

lemma sint_of_small: "n < 2 ^ (LENGTH('a) - 1) \<Longrightarrow> sint (of_nat n :: 'a::len word) = int n"
proof -
  assume "n < 2 ^ (LENGTH('a) - 1)"
  then have "int n < 2 ^ (LENGTH('a) - 1)" "- (2 ^ (LENGTH('a) - 1)) \<le> int n"
    by (simp_all add: order_trans [of _ 0])
  then show ?thesis by (simp add: signed_of_nat signed_take_bit_int_eq_self)
qed

text \<open>
  A signed number whose value is strictly between the smallest and the first too large value of
  its type is read exactly. For the smallest value itself the conversion negates a number that
  has no negative in the type.
\<close>

lemma get_int_value:
  assumes "tok_chars t = Some s" and "int_number s"
  shows "\<bar>signed_val s\<bar> < 2 ^ 31 \<Longrightarrow> cparser_get_int t = Some (CPARSER_OK, signed_val s)"
    and "\<bar>signed_val s\<bar> < 2 ^ 63 \<Longrightarrow> cparser_get_int64 t = Some (CPARSER_OK, signed_val s)"
    and "signed_val s = - (2 ^ 31) \<Longrightarrow> cparser_get_int t = None"
    and "signed_val s = - (2 ^ 63) \<Longrightarrow> cparser_get_int64 t = None"
proof -
  obtain g i where gi: "sign_of s = (g, i)" by fastforce
  have len: "token_len t = length s" "s \<noteq> []"
    using assms by (auto simp: tok_chars_def int_number_def Let_def split: if_splits)
  have d: "list_all isdigit (drop i s)"
    using assms(2) gi len(2) by (cases s) (auto simp: int_number_def sign_of_def Let_def split: if_splits)
  have g: "g = 1 \<or> g = -1" using gi by (auto simp: sign_of_def split: if_splits)
  let ?v = "base_val 10 (drop i s)"
  have sv: "signed_val s = g * int ?v" "\<bar>signed_val s\<bar> = int ?v" using g by (auto simp: signed_val_def gi)
  have u32: "uint_loop 0 (drop i s) = Some (CPARSER_OK, of_nat ?v :: 32 word)" if "?v < 2 ^ 32"
    using uint_loop_value [of "drop i s" "0 :: 32 word"] d that by (simp add: base_val_from)
  have u64: "uint_loop 0 (drop i s) = Some (CPARSER_OK, of_nat ?v :: 64 word)" if "?v < 2 ^ 64"
    using uint_loop_value [of "drop i s" "0 :: 64 word"] d that by (simp add: base_val_from)
  note defs = cparser_get_int_def cparser_get_int64_def cparser_get_uint_internal_def cparser_get_uint64_internal_def
  show "cparser_get_int t = Some (CPARSER_OK, signed_val s)" if "\<bar>signed_val s\<bar> < 2 ^ 31"
  proof -
    have v: "?v < 2 ^ 31" using that sv(2) by simp
    then have w: "unat (of_nat ?v :: 32 word) = ?v" "sint (of_nat ?v :: 32 word) = int ?v"
      by (auto intro: unat_small sint_of_small)
    then have "\<not> (of_nat ?v :: 32 word) > 0x7fffffff" "\<not> (of_nat ?v :: 32 word) > 0x80000000"
      using v by (simp_all add: word_less_nat_alt)
    then show ?thesis
      using u32 v w(2) g sv(1) assms(1) len gi by (auto simp: defs c_int_def in_int_def INT_MIN_def INT_MAX_def)
  qed
  show "cparser_get_int64 t = Some (CPARSER_OK, signed_val s)" if "\<bar>signed_val s\<bar> < 2 ^ 63"
  proof -
    have v: "?v < 2 ^ 63" using that sv(2) by simp
    then have w: "unat (of_nat ?v :: 64 word) = ?v" "sint (of_nat ?v :: 64 word) = int ?v"
      by (auto intro: unat_small sint_of_small)
    then have "\<not> (of_nat ?v :: 64 word) > 0x7fffffffffffffff" "\<not> (of_nat ?v :: 64 word) > 0x8000000000000000"
      using v by (simp_all add: word_less_nat_alt)
    then show ?thesis
      using u64 v w(2) g sv(1) assms(1) len gi by (auto simp: defs c_int64_def)
  qed
  show "cparser_get_int t = None" if "signed_val s = - (2 ^ 31)"
  proof -
    have "g = -1" "?v = 2 ^ 31" using that sv g by (auto split: if_splits)
    then show ?thesis using u32 assms(1) len gi by (simp add: defs c_int_def in_int_def INT_MIN_def INT_MAX_def)
  qed
  show "cparser_get_int64 t = None" if "signed_val s = - (2 ^ 63)"
  proof -
    have "g = -1" "?v = 2 ^ 63" using that sv g by (auto split: if_splits)
    then show ?thesis using u64 assms(1) len gi by (simp add: defs c_int64_def)
  qed
qed

section \<open>Reading addresses\<close>

lemma isdigit_not_space: "isxdigit c \<Longrightarrow> \<not> isspace c \<and> c \<noteq> CHR ''-'' \<and> c \<noteq> CHR ''+''"
  by (auto simp: isxdigit_def isspace_def Let_def)

lemma isdigit_isxdigit: "isdigit c \<Longrightarrow> isxdigit c"
  by (simp add: isdigit_def isxdigit_def Let_def)

text \<open>A group of digits that is followed by something else.\<close>

lemma scan_group:
  fixes g r :: string
  assumes "b = 10 \<and> list_all isdigit g \<or> b = 16 \<and> list_all isxdigit g" and "g \<noteq> []" and "base_val b g < 2 ^ 64"
    and "r = [] \<or> \<not> isxdigit (hd r)" and "\<not> (tl g @ r \<noteq> [] \<and> hd (tl g @ r) \<in> {CHR ''x'', CHR ''X''})"
  shows "scan_ulong b (g @ r) = Some (base_val b g, r)"
proof -
  let ?p = "if b = 16 then isxdigit else isdigit"
  obtain c cs where g: "g = c # cs" using assms(2) by (cases g) auto
  have all: "\<And>x. x \<in> set g \<Longrightarrow> ?p x" using assms(1) by (auto simp: list_all_iff)
  have c: "isxdigit c" using all [of c] g isdigit_isxdigit by (auto split: if_splits)
  have r: "r = [] \<or> \<not> ?p (hd r)" using assms(4) isdigit_isxdigit by auto
  have tw: "takeWhile ?p (g @ r) = g" "dropWhile ?p (g @ r) = r"
    using all r by (cases r; simp add: takeWhile_append2 dropWhile_append2)+
  have sg: "dropWhile isspace (g @ r) = g @ r" "scan_sign (g @ r) = (False, g @ r)"
    using isdigit_not_space [OF c] g by (simp_all add: scan_sign_def)
  have pre: "scan_prefix (g @ r) = g @ r"
    using assms(5) g by (cases cs; cases r) (auto simp: scan_prefix_def)
  show ?thesis
    unfolding scan_ulong_def sg using pre tw assms(2,3) by (cases "b = 16") (simp_all add: Let_def min_def)
qed

lemma no_hex_prefix:
  assumes "list_all isxdigit g" and "r = [] \<or> hd r \<in> {CHR ''.'', CHR '':''}"
  shows "\<not> (tl g @ r \<noteq> [] \<and> hd (tl g @ r) \<in> {CHR ''x'', CHR ''X''})"
proof -
  have "\<not> isxdigit (CHR ''x'')" "\<not> isxdigit (CHR ''X'')" by (simp_all add: isxdigit_def)
  then show ?thesis using assms by (cases g; cases "tl g"; cases r) auto
qed

lemma all_isxdigit: "list_all (if b = 16 then isxdigit else isdigit) x \<Longrightarrow> list_all isxdigit x"
  using isdigit_isxdigit by (auto simp: list_all_iff split: if_splits)

lemma scan_fields_groups:
  assumes "b = 10 \<and> sep = CHR ''.'' \<or> b = 16 \<and> sep = CHR '':''"
    and "\<forall>x\<in>set (g # gs). x \<noteq> [] \<and> list_all (if b = 16 then isxdigit else isdigit) x \<and> base_val b x < 2 ^ 64"
  shows "scan_fields b sep (length gs) (g @ concat (map ((#) sep) gs)) = Some (map (base_val b) (g # gs))"
  using assms(2)
proof (induction gs arbitrary: g)
  case Nil
  then have "scan_ulong b (g @ []) = Some (base_val b g, [])"
    using assms(1) no_hex_prefix [OF all_isxdigit, of b g "[]"] by (intro scan_group) auto
  then show ?case by simp
next
  case (Cons y ys)
  let ?r = "concat (map ((#) sep) (y # ys))"
  have "scan_ulong b (g @ ?r) = Some (base_val b g, ?r)"
    using assms(1) Cons.prems no_hex_prefix [OF all_isxdigit, of b g ?r]
    by (intro scan_group) (auto simp: isxdigit_def)
  then show ?case
    using Cons.IH [of y] Cons.prems by simp
qed

lemma val_from_bound: "\<forall>c\<in>set s. digit_val c < b \<Longrightarrow> val_from b a s < (a + 1) * b ^ length s"
proof (induction s arbitrary: a)
  case (Cons c s)
  have "val_from b (b * a + digit_val c) s < (b * a + digit_val c + 1) * b ^ length s"
    using Cons by simp
  also have "\<dots> \<le> (b * (a + 1)) * b ^ length s"
    using Cons.prems by (intro mult_le_mono1) (simp add: algebra_simps Suc_le_eq)
  finally show ?case by (simp add: algebra_simps)
qed simp

lemma group_bound:
  "ipv4_part g \<Longrightarrow> base_val 10 g \<le> 255" "mac_part g \<Longrightarrow> base_val 16 g \<le> 255"
proof -
  show "base_val 10 g \<le> 255" if "ipv4_part g"
  proof (cases "length g = 3")
    case False
    then have "length g \<le> 2" using that by (simp add: ipv4_part_def)
    moreover have "\<forall>c\<in>set g. digit_val c < 10" using that digit_code by (auto simp: ipv4_part_def list_all_iff)
    then have "val_from 10 0 g < 10 ^ length g" using val_from_bound [of g 10 0] by simp
    ultimately show ?thesis
      using power_increasing [of "length g" 2 "10 :: nat"] by (simp add: base_val_from)
  qed (use that in \<open>simp add: ipv4_part_def\<close>)
  show "base_val 16 g \<le> 255" if "mac_part g"
  proof -
    have "\<forall>c\<in>set g. digit_val c < 16" using that hex_code(1) by (auto simp: mac_part_def list_all_iff)
    then have "val_from 16 0 g < 16 ^ length g" using val_from_bound [of g 16 0] by simp
    then show ?thesis
      using that power_increasing [of "length g" 2 "16 :: nat"] by (simp add: base_val_from mac_part_def)
  qed
qed

lemma scan_fields_address:
  assumes "b = 10 \<and> sep = CHR ''.'' \<and> (\<forall>g\<in>set gs. ipv4_part g \<and> g \<noteq> []) \<or>
      b = 16 \<and> sep = CHR '':'' \<and> (\<forall>g\<in>set gs. mac_part g \<and> g \<noteq> [])"
    and "length gs = Suc n"
  shows "scan_fields b sep n (joined sep gs) = Some (map (base_val b) gs)"
proof -
  obtain g ys where g: "gs = g # ys" "length ys = n" using assms(2) by (cases gs) auto
  have "base_val b x < 2 ^ 64" if "x \<in> set gs" for x
    using that assms(1) group_bound [of x] by fastforce
  then show ?thesis
    using scan_fields_groups [of b sep g ys] assms(1) g
    by (auto simp: joined_def ipv4_part_def mac_part_def simp del: scan_fields.simps)
qed

lemma get_address:
  assumes "cstr (tbuf t) 0 = Some s" and "token_len t \<noteq> 0"
  shows "length gs = 4 \<Longrightarrow> \<forall>g\<in>set gs. ipv4_part g \<and> g \<noteq> [] \<Longrightarrow> s = joined (CHR ''.'') gs \<Longrightarrow>
      cparser_get_ipv4addr t = Some (CPARSER_OK, ipv4_word (map (base_val 10) gs))"
    and "length gs = 6 \<Longrightarrow> \<forall>g\<in>set gs. mac_part g \<and> g \<noteq> [] \<Longrightarrow> s = joined (CHR '':'') gs \<Longrightarrow>
      cparser_get_macaddr t = Some (CPARSER_OK, map (\<lambda>g. of_nat (base_val 16 g)) gs)"
proof -
  show "cparser_get_ipv4addr t = Some (CPARSER_OK, ipv4_word (map (base_val 10) gs))"
    if "length gs = 4" "\<forall>g\<in>set gs. ipv4_part g \<and> g \<noteq> []" "s = joined (CHR ''.'') gs"
  proof -
    have "scan_fields 10 (CHR ''.'') 3 s = Some (map (base_val 10) gs)" using scan_fields_address [of 10 "CHR ''.''" gs 3] that by (simp del: scan_fields.simps)
    moreover have "\<not> (\<exists>v\<in>set (map (base_val 10) gs). v > 255)" using that group_bound(1) by (auto simp: not_less)
    ultimately show ?thesis using assms by (simp add: cparser_get_ipv4addr_def del: scan_fields.simps)
  qed
  show "cparser_get_macaddr t = Some (CPARSER_OK, map (\<lambda>g. of_nat (base_val 16 g)) gs)"
    if "length gs = 6" "\<forall>g\<in>set gs. mac_part g \<and> g \<noteq> []" "s = joined (CHR '':'') gs"
  proof -
    have "scan_fields 16 (CHR '':'') 5 s = Some (map (base_val 16) gs)" using scan_fields_address [of 16 "CHR '':''" gs 5] that by (simp del: scan_fields.simps)
    moreover have "\<not> (\<exists>v\<in>set (map (base_val 16) gs). v > 255)" using that group_bound(2) by (auto simp: not_less)
    ultimately show ?thesis using assms by (simp add: cparser_get_macaddr_def comp_def del: scan_fields.simps)
  qed
qed

lemma or_low_byte:
  fixes x :: "32 word"
  assumes "a < 256" and "8 \<le> k"
  shows "push_bit k x OR of_nat a = push_bit k x + of_nat a"
proof (rule disjunctive_add [symmetric])
  fix n
  have "bit (of_nat a :: 32 word) n \<Longrightarrow> n < 8"
  proof -
    assume b: "bit (of_nat a :: 32 word) n"
    have "take_bit 8 a = a" using assms(1) by (simp add: take_bit_nat_eq_self_iff)
    then have "bit (take_bit 8 a) n" using b by (simp add: bit_of_nat_iff)
    then show "n < 8" by (simp add: bit_take_bit_iff)
  qed
  then show "\<not> bit (push_bit k x) n \<or> \<not> bit (of_nat a :: 32 word) n"
    using assms(2) by (auto simp: bit_push_bit_iff)
qed

lemma ipv4_word_value:
  assumes "a < 256" "b < 256" "c < 256" "d < 256"
  shows "ipv4_word [a, b, c, d] = of_nat (((a * 256 + b) * 256 + c) * 256 + d)"
proof -
  let ?a = "of_nat a :: 32 word" and ?b = "of_nat b :: 32 word" and ?c = "of_nat c :: 32 word" and ?d = "of_nat d :: 32 word"
  have 1: "push_bit 24 ?a OR push_bit 16 ?b = push_bit 16 (push_bit 8 ?a + ?b)"
    using or_low_byte [OF assms(2), of 8 ?a] push_bit_or [of 16 "push_bit 8 ?a" ?b] by (simp add: push_bit_push_bit)
  have 2: "push_bit 16 x OR push_bit 8 ?c = push_bit 8 (push_bit 8 x + ?c)" for x
    using or_low_byte [OF assms(3), of 8 x] push_bit_or [of 8 "push_bit 8 x" ?c] by (simp add: push_bit_push_bit)
  have 3: "push_bit 8 x OR ?d = push_bit 8 x + ?d" for x
    using or_low_byte [OF assms(4), of 8 x] by simp
  have "ipv4_word [a, b, c, d] = ((push_bit 24 ?a OR push_bit 16 ?b) OR push_bit 8 ?c) OR ?d"
    by (simp add: ipv4_word_def or.assoc numeral_2_eq_2 numeral_3_eq_3)
  also have "\<dots> = push_bit 8 (push_bit 8 (push_bit 8 ?a + ?b) + ?c) + ?d"
    by (simp only: 1 2 3)
  also have "\<dots> = of_nat (((a * 256 + b) * 256 + c) * 256 + d)"
    by (simp add: push_bit_eq_mult)
  finally show ?thesis .
qed

text \<open>
  C38: whatever a token matched completely as an address, the conversion of it succeeds: the IPv4
  address is the number with the four groups as its digits to base 256, and the MAC address has the
  six groups as its octets. The conversion reads the string in the buffer of the token, which has
  to end where the token ends.
\<close>

theorem addresses_read:
  assumes "cstr (tbuf t) 0 = Some s" and "token_len t = length s" and "s \<noteq> []"
  shows "(ntype node = CPARSER_NODE_IPV4ADDR \<and> cparser_match_ipv4addr s node = Some (CPARSER_OK, True) \<longrightarrow>
      (\<exists>a b c d. s = joined (CHR ''.'') [a, b, c, d] \<and> cparser_get_ipv4addr t = Some (CPARSER_OK,
        of_nat (((base_val 10 a * 256 + base_val 10 b) * 256 + base_val 10 c) * 256 + base_val 10 d)))) \<and>
    (ntype node = CPARSER_NODE_MACADDR \<and> cparser_match_macaddr s node = Some (CPARSER_OK, True) \<longrightarrow>
      (\<exists>gs. s = joined (CHR '':'') gs \<and> length gs = 6 \<and>
        cparser_get_macaddr t = Some (CPARSER_OK, map (\<lambda>g. of_nat (base_val 16 g)) gs)))"
proof (intro conjI impI)
  assume m: "ntype node = CPARSER_NODE_IPV4ADDR \<and> cparser_match_ipv4addr s node = Some (CPARSER_OK, True)"
  then have "in_lang node s" using decides_ipv4 [of node s] by (auto simp: decides_def)
  then obtain gs where gs: "length gs = 4" "\<forall>g\<in>set gs. ipv4_part g \<and> g \<noteq> []" "s = joined (CHR ''.'') gs"
    using m by (auto simp: in_lang_def)
  then obtain a b c d where l: "gs = [a, b, c, d]" by (auto simp: length_Suc_conv eval_nat_numeral)
  have "base_val 10 g < 256" if "g \<in> set gs" for g
    using gs(2) that group_bound(1) [of g] by auto
  then show "\<exists>a b c d. s = joined (CHR ''.'') [a, b, c, d] \<and> cparser_get_ipv4addr t = Some (CPARSER_OK,
        of_nat (((base_val 10 a * 256 + base_val 10 b) * 256 + base_val 10 c) * 256 + base_val 10 d))"
    using get_address(1) [OF assms(1) _ gs] assms(2,3) gs(3) l
      ipv4_word_value [of "base_val 10 a" "base_val 10 b" "base_val 10 c" "base_val 10 d"]
    by (intro exI [of _ a] exI [of _ b] exI [of _ c] exI [of _ d]) simp
next
  assume m: "ntype node = CPARSER_NODE_MACADDR \<and> cparser_match_macaddr s node = Some (CPARSER_OK, True)"
  then have "in_lang node s" using decides_mac [of node s] by (auto simp: decides_def)
  then obtain gs where gs: "length gs = 6" "\<forall>g\<in>set gs. mac_part g \<and> g \<noteq> []" "s = joined (CHR '':'') gs"
    using m by (auto simp: in_lang_def)
  then show "\<exists>gs. s = joined (CHR '':'') gs \<and> length gs = 6 \<and>
        cparser_get_macaddr t = Some (CPARSER_OK, map (\<lambda>g. of_nat (base_val 16 g)) gs)"
    using get_address(2) [OF assms(1) _ gs] assms(2,3) by (intro exI [of _ gs]) simp
qed

theorem addresses_read_witness:
  "\<exists>a b c d. ''10.0.0.255'' = joined (CHR ''.'') [a, b, c, d] \<and> cparser_get_ipv4addr (sample_token ''10.0.0.255'') = Some (CPARSER_OK,
     of_nat (((base_val 10 a * 256 + base_val 10 b) * 256 + base_val 10 c) * 256 + base_val 10 d))"
proof -
  let ?n = "Node CPARSER_NODE_IPV4ADDR 0 No_param None []"
  have "cstr (tbuf (sample_token ''10.0.0.255'')) 0 = Some ''10.0.0.255''"
    by (simp add: sample_token_def cstr_def eval_nat_numeral)
  moreover have "cparser_match_ipv4addr ''10.0.0.255'' ?n = Some (CPARSER_OK, True)"
    by (simp add: cparser_match_ipv4addr_def isdigit_def aget_def strncmp_pos_def)
  ultimately show ?thesis
    using addresses_read [of "sample_token ''10.0.0.255''" "''10.0.0.255''" ?n] by (simp add: sample_token_def)
qed

end
