(* ===== verification/Cli_Line.thy ===== *)
theory Cli_Line
  imports Cli_Token
begin

unbundle bit_operations_syntax

text \<open>
  The state of the command line parser (\<^verbatim>\<open>inc/cparser.h\<close>) and its line buffers
  (\<^verbatim>\<open>cparser_line.c\<close>): insertion, deletion and cursor movement with the characters they print, and
  the history of lines. What is printed is shown by a terminal that knows the cursor movement of
  a backspace and nothing more; the lemmas at the end say that the row of the terminal is the
  prompt and the line after every operation.
\<close>

section \<open>The state of the parser\<close>

definition CPARSER_MAX_LINE_SIZE :: nat where "CPARSER_MAX_LINE_SIZE = 383"
definition CPARSER_MAX_LINES :: nat where "CPARSER_MAX_LINES = 10"
definition CPARSER_MAX_NUM_TOKENS :: nat where "CPARSER_MAX_NUM_TOKENS = 32"
definition CPARSER_MAX_NESTED_LEVELS :: nat where "CPARSER_MAX_NESTED_LEVELS = 4"
definition CPARSER_MAX_PROMPT :: nat where "CPARSER_MAX_PROMPT = 16"

abbreviation BS :: char where "BS \<equiv> CHR 0x08"
abbreviation BEL :: char where "BEL \<equiv> CHR 0x07"

record cparser_line =
  llast :: nat
  lcurrent :: nat
  lbuf :: "char list"

record cparser_cfg =
  cfg_root :: cparser_node
  ch_complete :: char
  ch_erase :: char
  ch_del :: char
  ch_help :: char
  cfg_prompt :: string
  cfg_fd :: int
  debug_flag :: bool

datatype cparser_state = CPARSER_STATE_WHITESPACE | CPARSER_STATE_TOKEN | CPARSER_STATE_ERROR

text \<open>
  The prompts are the strings in their arrays. The cookies of the context and the callback of the
  user input are numbers, and \<open>out\<close> is what was written to the terminal.
\<close>

record cparser =
  cfg :: cparser_cfg
  root_level :: nat
  roots :: "cparser_node list"
  prompts :: "string list"
  cur_node :: cparser_node
  state :: cparser_state
  token_tos :: nat
  current_pos :: nat
  last_good :: int
  tokens :: "cparser_token list"
  is_privileged_mode :: bool
  max_line :: nat
  cur_line :: nat
  lines :: "cparser_line list"
  finished :: bool
  cookie :: "nat list"
  user_buf :: "char list option"
  user_buf_size :: nat
  user_buf_count :: nat
  user_do_echo :: bool
  user_input_cb :: "nat option"
  last_line_idx :: int
  last_rc :: cparser_result
  last_end_node :: "cparser_node option"
  out :: string

section \<open>Output\<close>

text \<open>A write to the descriptor -1 has no effect.\<close>

definition printc :: "char \<Rightarrow> cparser \<Rightarrow> cparser" where
  "printc ch p = (if cfg_fd (cfg p) = -1 then p else p\<lparr>out := out p @ [ch]\<rparr>)"

definition prints :: "string \<Rightarrow> cparser \<Rightarrow> cparser" where
  "prints s p = (if cfg_fd (cfg p) = -1 then p else p\<lparr>out := out p @ s\<rparr>)"

definition cparser_is_in_privileged_mode :: "cparser \<Rightarrow> bool" where
  "cparser_is_in_privileged_mode p = is_privileged_mode p"

definition cparser_print_prompt :: "cparser \<Rightarrow> cparser option" where
  "cparser_print_prompt p = do {
     let p = (if cparser_is_in_privileged_mode p then printc (CHR ''+'') p else p);
     s \<leftarrow> aget (prompts p) (root_level p);
     Some (prints s p) }"

section \<open>Line buffers\<close>

definition empty_line :: cparser_line where
  "empty_line = \<lparr>llast = 0, lcurrent = 0, lbuf = replicate (CPARSER_MAX_LINE_SIZE + 1) NUL\<rparr>"

definition cparser_line_reset :: "cparser_line \<Rightarrow> cparser_line" where
  "cparser_line_reset l = empty_line"

definition this_line :: "cparser \<Rightarrow> cparser_line option" where
  "this_line p = aget (lines p) (cur_line p)"

definition put_line :: "cparser_line \<Rightarrow> cparser \<Rightarrow> cparser option" where
  "put_line l p = map_option (\<lambda>ls. p\<lparr>lines := ls\<rparr>) (aput (lines p) (cur_line p) l)"

text \<open>The loops that move the end of the line one to the right and one to the left.\<close>

fun shift_up :: "char list \<Rightarrow> nat \<Rightarrow> nat \<Rightarrow> char list option" where
  "shift_up b 0 c = Some b"
| "shift_up b (Suc n) c = (if Suc n > c then do { x \<leftarrow> aget b n; b \<leftarrow> aput b (Suc n) x; shift_up b n c } else Some b)"

fun shift_down :: "char list \<Rightarrow> nat \<Rightarrow> nat \<Rightarrow> char list option" where
  "shift_down b n 0 = Some b"
| "shift_down b n (Suc k) = do { x \<leftarrow> aget b n; b \<leftarrow> aput b (n - 1) x; shift_down b (Suc n) k }"

definition cparser_line_insert :: "char \<Rightarrow> cparser \<Rightarrow> (cparser_result \<times> cparser) option" where
  "cparser_line_insert ch p =
     (if ch = NUL then Some (CPARSER_ERR_INVALID_PARAMS, p)
      else do {
        l \<leftarrow> this_line p;
        if CPARSER_MAX_LINE_SIZE \<le> llast l then Some (CPARSER_ERR_OUT_OF_RES, p)
        else do {
          b \<leftarrow> shift_up (lbuf l) (llast l) (lcurrent l);
          b \<leftarrow> aput b (llast l + 1) NUL;
          b \<leftarrow> aput b (lcurrent l) ch;
          let l = \<lparr>llast = llast l + 1, lcurrent = lcurrent l + 1, lbuf = b\<rparr>;
          p \<leftarrow> put_line l (printc ch p);
          s \<leftarrow> cstr b (lcurrent l);
          Some (CPARSER_OK, prints (replicate (llast l - lcurrent l) BS) (prints s p)) } })"

definition cparser_line_delete :: "cparser \<Rightarrow> (cparser_result \<times> cparser) option" where
  "cparser_line_delete p = do {
     l \<leftarrow> this_line p;
     c_assert (lcurrent l \<le> llast l);
     if llast l = 0 \<or> lcurrent l = 0 then Some (CPARSER_ERR_NOT_EXIST, p)
     else do {
       b \<leftarrow> shift_down (lbuf l) (lcurrent l) (llast l - lcurrent l);
       b \<leftarrow> aput b (llast l - 1) NUL;
       let l = \<lparr>llast = llast l - 1, lcurrent = lcurrent l - 1, lbuf = b\<rparr>;
       p \<leftarrow> put_line l (printc BS p);
       s \<leftarrow> cstr b (lcurrent l);
       Some (CPARSER_OK, prints (replicate (llast l - lcurrent l) BS) (prints [CHR '' '', BS] (prints s p))) } }"

definition cparser_line_print :: "bool \<Rightarrow> bool \<Rightarrow> cparser \<Rightarrow> cparser option" where
  "cparser_line_print print_prompt new_line p = do {
     let p = (if new_line then printc LF p else p);
     p \<leftarrow> (if print_prompt then cparser_print_prompt p else Some p);
     l \<leftarrow> this_line p;
     s \<leftarrow> cstr (lbuf l) 0;
     Some (prints (replicate (llast l - lcurrent l) BS) (prints s p)) }"

definition cparser_line_current :: "cparser \<Rightarrow> nat option" where
  "cparser_line_current p = map_option lcurrent (this_line p)"

definition cparser_line_last :: "cparser \<Rightarrow> nat option" where
  "cparser_line_last p = map_option llast (this_line p)"

definition cparser_line_current_char :: "cparser \<Rightarrow> char option" where
  "cparser_line_current_char p = do { l \<leftarrow> this_line p; aget (lbuf l) (lcurrent l) }"

definition cparser_line_char :: "cparser \<Rightarrow> nat \<Rightarrow> char option" where
  "cparser_line_char p pos = do { l \<leftarrow> this_line p; c_assert (pos < llast l); aget (lbuf l) pos }"

text \<open>The character to be fed into the parser, which is \<open>NUL\<close> at the end of the line.\<close>

definition cparser_line_next_char :: "cparser \<Rightarrow> (char \<times> cparser) option" where
  "cparser_line_next_char p = do {
     l \<leftarrow> this_line p;
     if llast l = lcurrent l then Some (NUL, p)
     else do {
       retval \<leftarrow> aget (lbuf l) (lcurrent l);
       p \<leftarrow> put_line (l\<lparr>lcurrent := lcurrent l + 1\<rparr>) (printc retval p);
       Some (retval, p) } }"

definition cparser_line_prev_char :: "cparser \<Rightarrow> (char \<times> cparser) option" where
  "cparser_line_prev_char p = do {
     l \<leftarrow> this_line p;
     if lcurrent l = 0 then Some (NUL, p)
     else do {
       p \<leftarrow> put_line (l\<lparr>lcurrent := lcurrent l - 1\<rparr>) (printc BS p);
       Some (BS, p) } }"

definition next_index :: "cparser \<Rightarrow> nat" where
  "next_index p = (if max_line p < cur_line p + 1 then 0 else cur_line p + 1)"

definition prev_index :: "cparser \<Rightarrow> nat" where
  "prev_index p = (if cur_line p = 0 then max_line p else cur_line p - 1)"

definition cparser_line_next_line :: "cparser \<Rightarrow> (cparser_result \<times> cparser) option" where
  "cparser_line_next_line p = do {
     n \<leftarrow> cparser_line_last p;
     let p = prints (concat (replicate n [BS, CHR '' '', BS])) p;
     let p = p\<lparr>cur_line := next_index p\<rparr>;
     p \<leftarrow> cparser_line_print False False p;
     Some (CPARSER_OK, p) }"

definition cparser_line_prev_line :: "cparser \<Rightarrow> (cparser_result \<times> cparser) option" where
  "cparser_line_prev_line p = do {
     n \<leftarrow> cparser_line_last p;
     let p = prints (concat (replicate n [BS, CHR '' '', BS])) p;
     let p = p\<lparr>cur_line := prev_index p\<rparr>;
     p \<leftarrow> cparser_line_print False False p;
     Some (CPARSER_OK, p) }"

definition cparser_line_advance :: "cparser \<Rightarrow> (cparser_result \<times> cparser) option" where
  "cparser_line_advance p = do {
     let n = (if CPARSER_MAX_LINES \<le> cur_line p + 1 then 0 else cur_line p + 1);
     let p = p\<lparr>cur_line := n, max_line := max (max_line p) n\<rparr>;
     l \<leftarrow> this_line p;
     p \<leftarrow> put_line (cparser_line_reset l) p;
     Some (CPARSER_OK, p) }"

section \<open>The text of a line\<close>

text \<open>A line holds the text \<open>s\<close> with the cursor before its character \<open>k\<close>.\<close>

definition line_rep :: "cparser_line \<Rightarrow> string \<Rightarrow> nat \<Rightarrow> bool" where
  "line_rep l s k \<longleftrightarrow> llast l = length s \<and> lcurrent l = k \<and> k \<le> length s \<and> NUL \<notin> set s \<and>
     length (lbuf l) = CPARSER_MAX_LINE_SIZE + 1 \<and> (\<exists>z. lbuf l = s @ NUL # z)"

lemma line_repD:
  assumes "line_rep l s k"
  shows "llast l = length s" "lcurrent l = k" "k \<le> length s" "NUL \<notin> set s" "length s \<le> CPARSER_MAX_LINE_SIZE"
    "length (lbuf l) = CPARSER_MAX_LINE_SIZE + 1"
  using assms by (auto simp: line_rep_def)

lemma line_rep_cstr: "line_rep l s k \<Longrightarrow> j \<le> length s \<Longrightarrow> cstr (lbuf l) j = Some (drop j s)"
  by (auto simp: line_rep_def cstr_iff dest: in_set_dropD)

lemma empty_line_rep: "line_rep empty_line [] 0"
  by (simp add: line_rep_def empty_line_def)

lemma line_rep_move: "line_rep l s k \<Longrightarrow> j \<le> length s \<Longrightarrow> line_rep (l\<lparr>lcurrent := j\<rparr>) s j"
  by (simp add: line_rep_def)

lemma line_rep_nth: "line_rep l s k \<Longrightarrow> j < length s \<Longrightarrow> aget (lbuf l) j = Some (s ! j)"
  by (auto simp: line_rep_def aget_def nth_append)

lemma shift_up_done: "shift_up b c c = Some b"
  by (cases c) auto

lemma shift_up_text:
  "length u = c \<Longrightarrow> n = c + length v \<Longrightarrow> \<exists>x. shift_up (u @ v @ y # z) n c = Some (u @ x # v @ z)"
proof (induction v arbitrary: n y z rule: rev_induct)
  case Nil
  then show ?case using shift_up_done by auto
next
  case (snoc a v)
  then obtain m where m: "n = Suc m" "m = c + length v" by (cases n) auto
  let ?b = "u @ (v @ [a]) @ y # z"
  have "aget ?b m = Some a" using m snoc.prems by (simp add: aget_def nth_append)
  moreover have "aput ?b (Suc m) a = Some (u @ v @ a # a # z)"
    using m snoc.prems by (simp add: aput_def list_update_append)
  ultimately show ?case
    using snoc.IH [of m a "a # z"] snoc.prems m by simp
qed

lemma shift_down_text:
  "length u = n - 1 \<Longrightarrow> 0 < n \<Longrightarrow> \<exists>x. shift_down (u @ y # v @ z) n (length v) = Some (u @ v @ x # z)"
proof (induction v arbitrary: u n y)
  case Nil
  then show ?case by simp
next
  case (Cons a v)
  let ?b = "u @ y # (a # v) @ z"
  have "aget ?b n = Some a" using Cons.prems by (cases n) (auto simp: aget_def nth_append)
  moreover have "aput ?b (n - 1) a = Some ((u @ [a]) @ a # v @ z)"
    using Cons.prems by (simp add: aput_def list_update_append)
  ultimately show ?case
    using Cons.IH [of "u @ [a]" "Suc n" a] Cons.prems by simp
qed

named_theorems out_simps \<open>what is printed, in one piece\<close>

lemma printc_prints [out_simps]: "printc ch p = prints [ch] p"
  by (simp add: printc_def prints_def)

lemma prints_prints [out_simps]: "prints s (prints r p) = prints (r @ s) p"
  by (simp add: prints_def)

lemma prints_Nil [simp]: "prints [] p = p"
  by (simp add: prints_def)

lemma prints_fields [simp]:
  "cfg (prints s p) = cfg p" "root_level (prints s p) = root_level p" "roots (prints s p) = roots p"
  "prompts (prints s p) = prompts p" "cur_node (prints s p) = cur_node p" "state (prints s p) = state p"
  "token_tos (prints s p) = token_tos p" "current_pos (prints s p) = current_pos p"
  "last_good (prints s p) = last_good p" "tokens (prints s p) = tokens p"
  "is_privileged_mode (prints s p) = is_privileged_mode p" "max_line (prints s p) = max_line p"
  "cur_line (prints s p) = cur_line p" "lines (prints s p) = lines p" "user_buf (prints s p) = user_buf p"
  "user_buf_size (prints s p) = user_buf_size p" "user_buf_count (prints s p) = user_buf_count p"
  "user_input_cb (prints s p) = user_input_cb p" "user_do_echo (prints s p) = user_do_echo p"
  "finished (prints s p) = finished p" "cookie (prints s p) = cookie p"
  "last_line_idx (prints s p) = last_line_idx p" "last_rc (prints s p) = last_rc p"
  "last_end_node (prints s p) = last_end_node p"
  by (simp_all add: prints_def)

lemma out_prints: "cfg_fd (cfg p) \<noteq> -1 \<Longrightarrow> out (prints s p) = out p @ s"
  by (simp add: prints_def)

lemma prints_lines [out_simps]: "prints s (p\<lparr>lines := ls\<rparr>) = (prints s p)\<lparr>lines := ls\<rparr>"
  by (simp add: prints_def)

lemma prints_cur_line [out_simps]: "prints s (p\<lparr>cur_line := n\<rparr>) = (prints s p)\<lparr>cur_line := n\<rparr>"
  by (simp add: prints_def)

text \<open>The current line of a parser, and a parser with another text in it.\<close>

definition at_line :: "cparser \<Rightarrow> string \<Rightarrow> nat \<Rightarrow> bool" where
  "at_line p s k \<longleftrightarrow> (\<exists>l. this_line p = Some l \<and> line_rep l s k)"

definition with_line :: "cparser \<Rightarrow> cparser_line \<Rightarrow> cparser" where
  "with_line p l = p\<lparr>lines := (lines p)[cur_line p := l]\<rparr>"

lemma at_line_bound: "at_line p s k \<Longrightarrow> cur_line p < length (lines p)"
  by (auto simp: at_line_def this_line_def aget_def split: if_splits)

lemma this_line_with: "cur_line p < length (lines p) \<Longrightarrow> this_line (with_line p l) = Some l"
  by (simp add: with_line_def this_line_def aget_def)

lemma put_line_with: "cur_line p < length (lines p) \<Longrightarrow> put_line l (prints s p) = Some (with_line (prints s p) l)"
  by (simp add: put_line_def aput_def with_line_def)

lemma prints_with_line [out_simps]: "prints s (with_line p l) = with_line (prints s p) l"
  by (simp add: with_line_def prints_def)

lemma line_insert_text:
  assumes "at_line p s k" and "length s < CPARSER_MAX_LINE_SIZE" and "ch \<noteq> NUL"
  obtains l where "cparser_line_insert ch p =
      Some (CPARSER_OK, with_line (prints (ch # drop k s @ replicate (length s - k) BS) p) l)"
    and "line_rep l (take k s @ ch # drop k s) (Suc k)"
proof -
  obtain l where l: "this_line p = Some l" "line_rep l s k" using assms(1) by (auto simp: at_line_def)
  note d = line_repD [OF l(2)]
  obtain z where z: "lbuf l = s @ NUL # z" using l(2) by (auto simp: line_rep_def)
  have "length z = CPARSER_MAX_LINE_SIZE - length s" using d(6) z by simp
  then obtain y z' where y: "z = y # z'" using assms(2) by (cases z) auto
  have k: "length (take k s) = k" using d(3) by simp
  obtain x where up: "shift_up (lbuf l) (length s) k = Some (take k s @ x # drop k s @ z)"
    using shift_up_text [OF k, of "length s" "drop k s" NUL z] d(3) z
    by (metis append.assoc append_take_drop_id le_add_diff_inverse length_drop)
  let ?b = "take k s @ ch # drop k s @ NUL # z'"
  have b1: "aput (take k s @ x # drop k s @ z) (length s + 1) NUL = Some (take k s @ x # drop k s @ NUL # z')"
    using d(3) y by (simp add: aput_def list_update_append Suc_diff_le)
  have b2: "aput (take k s @ x # drop k s @ NUL # z') k ch = Some ?b"
    using k by (simp add: aput_def list_update_append)
  let ?l = "\<lparr>llast = length s + 1, lcurrent = k + 1, lbuf = ?b\<rparr>"
  have rep: "line_rep ?l (take k s @ ch # drop k s) (Suc k)"
    unfolding line_rep_def using d z y assms(3) by (auto dest: in_set_takeD in_set_dropD)
  have cs: "cstr ?b (k + 1) = Some (drop k s)"
    using line_rep_cstr [OF rep, of "Suc k"] k d(3) by simp
  have "cparser_line_insert ch p =
      Some (CPARSER_OK, with_line (prints (ch # drop k s @ replicate (length s - k) BS) p) ?l)"
    unfolding cparser_line_insert_def
    using l(1) d(1,2) assms(2,3) up b1 b2 cs at_line_bound [OF assms(1)]
    by (simp add: put_line_with out_simps)
  with rep show thesis using that by blast
qed

lemma line_delete_text:
  assumes "at_line p s k" and "0 < k"
  obtains l where "cparser_line_delete p =
      Some (CPARSER_OK, with_line (prints (BS # drop k s @ CHR '' '' # BS # replicate (length s - k) BS) p) l)"
    and "line_rep l (take (k - 1) s @ drop k s) (k - 1)"
proof -
  obtain l where l: "this_line p = Some l" "line_rep l s k" using assms(1) by (auto simp: at_line_def)
  note d = line_repD [OF l(2)]
  obtain z where z: "lbuf l = s @ NUL # z" using l(2) by (auto simp: line_rep_def)
  have k: "length (take (k - 1) s) = k - 1" using d(3) by simp
  have "s = take (k - 1) s @ s ! (k - 1) # drop k s"
    using id_take_nth_drop [of "k - 1" s] assms(2) d(3) by simp
  then have b: "lbuf l = take (k - 1) s @ s ! (k - 1) # drop k s @ NUL # z" using z by (metis append.assoc append_Cons)
  obtain x where down: "shift_down (lbuf l) k (length s - k) = Some (take (k - 1) s @ drop k s @ x # NUL # z)"
    using shift_down_text [OF k assms(2), of "s ! (k - 1)" "drop k s" "NUL # z"] b by auto
  let ?b = "take (k - 1) s @ drop k s @ NUL # NUL # z"
  have b1: "aput (take (k - 1) s @ drop k s @ x # NUL # z) (length s - 1) NUL = Some ?b"
    using d(3) assms(2) by (auto simp: aput_def list_update_append Suc_diff_le)
  let ?l = "\<lparr>llast = length s - 1, lcurrent = k - 1, lbuf = ?b\<rparr>"
  have rep: "line_rep ?l (take (k - 1) s @ drop k s) (k - 1)"
    unfolding line_rep_def using d assms(2) z by (auto dest: in_set_takeD in_set_dropD)
  have cs: "cstr ?b (k - 1) = Some (drop k s)"
    using line_rep_cstr [OF rep, of "k - 1"] k by simp
  have e: "length s - Suc 0 - (k - Suc 0) = length s - k" "s \<noteq> []" using assms(2) d(3) by auto
  have "cparser_line_delete p =
      Some (CPARSER_OK, with_line (prints (BS # drop k s @ CHR '' '' # BS # replicate (length s - k) BS) p) ?l)"
    unfolding cparser_line_delete_def
    using l(1) d(1-3) assms(2) down b1 cs e at_line_bound [OF assms(1)]
    by (simp add: put_line_with out_simps)
  with rep show thesis using that by blast
qed

lemma line_move_text:
  assumes "at_line p s k"
  shows "k < length s \<Longrightarrow> \<exists>l. cparser_line_next_char p = Some (s ! k, with_line (prints [s ! k] p) l) \<and> line_rep l s (Suc k)"
    and "k = length s \<Longrightarrow> cparser_line_next_char p = Some (NUL, p)"
    and "0 < k \<Longrightarrow> \<exists>l. cparser_line_prev_char p = Some (BS, with_line (prints [BS] p) l) \<and> line_rep l s (k - 1)"
    and "k = 0 \<Longrightarrow> cparser_line_prev_char p = Some (NUL, p)"
proof -
  obtain l where l: "this_line p = Some l" "line_rep l s k" using assms by (auto simp: at_line_def)
  note d = line_repD [OF l(2)]
  show "\<exists>l. cparser_line_next_char p = Some (s ! k, with_line (prints [s ! k] p) l) \<and> line_rep l s (Suc k)" if "k < length s"
    using l d that at_line_bound [OF assms] line_rep_move [OF l(2), of "Suc k"] line_rep_nth [OF l(2) that]
    by (intro exI [of _ "l\<lparr>lcurrent := Suc k\<rparr>"]) (simp add: cparser_line_next_char_def put_line_with out_simps)
  show "cparser_line_next_char p = Some (NUL, p)" if "k = length s"
    using l d that by (simp add: cparser_line_next_char_def)
  show "\<exists>l. cparser_line_prev_char p = Some (BS, with_line (prints [BS] p) l) \<and> line_rep l s (k - 1)" if "0 < k"
    using l d that at_line_bound [OF assms] line_rep_move [OF l(2), of "k - 1"]
    by (intro exI [of _ "l\<lparr>lcurrent := k - 1\<rparr>"]) (simp add: cparser_line_prev_char_def put_line_with out_simps)
  show "cparser_line_prev_char p = Some (NUL, p)" if "k = 0"
    using l d that by (simp add: cparser_line_prev_char_def)
qed

lemma line_reads:
  assumes "at_line p s k"
  shows "cparser_line_current p = Some k" "cparser_line_last p = Some (length s)"
    "j < length s \<Longrightarrow> cparser_line_char p j = Some (s ! j)"
    "cparser_line_print False False p = Some (prints (s @ replicate (length s - k) BS) p)"
proof -
  obtain l where l: "this_line p = Some l" "line_rep l s k" using assms by (auto simp: at_line_def)
  note d = line_repD [OF l(2)]
  show "cparser_line_current p = Some k" "cparser_line_last p = Some (length s)"
    using l d by (simp_all add: cparser_line_current_def cparser_line_last_def)
  show "cparser_line_char p j = Some (s ! j)" if "j < length s"
    using l d that line_rep_nth [OF l(2) that] by (simp add: cparser_line_char_def)
  show "cparser_line_print False False p = Some (prints (s @ replicate (length s - k) BS) p)"
    using l d line_rep_cstr [OF l(2), of 0] by (simp add: cparser_line_print_def out_simps)
qed

definition erase_line :: "nat \<Rightarrow> string" where
  "erase_line n = concat (replicate n [BS, CHR '' '', BS])"

lemma index_prints [simp]: "next_index (prints s p) = next_index p" "prev_index (prints s p) = prev_index p"
  by (simp_all add: next_index_def prev_index_def)

lemma line_history_text:
  assumes "at_line p s k"
  shows "at_line (p\<lparr>cur_line := next_index p\<rparr>) s' k' \<Longrightarrow> cparser_line_next_line p = Some (CPARSER_OK,
      (prints (erase_line (length s) @ s' @ replicate (length s' - k') BS) p)\<lparr>cur_line := next_index p\<rparr>)"
    and "at_line (p\<lparr>cur_line := prev_index p\<rparr>) s' k' \<Longrightarrow> cparser_line_prev_line p = Some (CPARSER_OK,
      (prints (erase_line (length s) @ s' @ replicate (length s' - k') BS) p)\<lparr>cur_line := prev_index p\<rparr>)"
proof -
  have at: "at_line ((prints w p)\<lparr>cur_line := n\<rparr>) s' k'" if "at_line (p\<lparr>cur_line := n\<rparr>) s' k'" for n w
    using that by (simp add: at_line_def this_line_def)
  show "cparser_line_next_line p = Some (CPARSER_OK,
      (prints (erase_line (length s) @ s' @ replicate (length s' - k') BS) p)\<lparr>cur_line := next_index p\<rparr>)"
    if "at_line (p\<lparr>cur_line := next_index p\<rparr>) s' k'"
    using line_reads(2) [OF assms] line_reads(4) [OF at [OF that, of "erase_line (length s)"]]
    by (simp add: cparser_line_next_line_def erase_line_def out_simps)
  show "cparser_line_prev_line p = Some (CPARSER_OK,
      (prints (erase_line (length s) @ s' @ replicate (length s' - k') BS) p)\<lparr>cur_line := prev_index p\<rparr>)"
    if "at_line (p\<lparr>cur_line := prev_index p\<rparr>) s' k'"
    using line_reads(2) [OF assms] line_reads(4) [OF at [OF that, of "erase_line (length s)"]]
    by (simp add: cparser_line_prev_line_def erase_line_def out_simps)
qed

section \<open>The terminal\<close>

text \<open>
  The row of the terminal that has the cursor, and the column of the cursor. A backspace moves
  the cursor, a line feed begins an empty row, the bell changes nothing, and any other character is
  written at the cursor.
\<close>

fun tty :: "string \<times> nat \<Rightarrow> char \<Rightarrow> string \<times> nat" where
  "tty (row, col) c =
     (if c = BS then (row, col - 1)
      else if c = LF then ([], 0)
      else if c = BEL then (row, col)
      else (take col row @ replicate (col - length row) (CHR '' '') @ c # drop (Suc col) row, Suc col))"

definition screen :: "string \<Rightarrow> string \<times> nat" where
  "screen w = foldl tty ([], 0) w"

definition printable :: "string \<Rightarrow> bool" where
  "printable s \<longleftrightarrow> BS \<notin> set s \<and> LF \<notin> set s \<and> BEL \<notin> set s"

text \<open>The row shows a text, followed by blanks only, with the cursor in a column.\<close>

definition showing :: "string \<times> nat \<Rightarrow> string \<Rightarrow> nat \<Rightarrow> bool" where
  "showing t s k \<longleftrightarrow> (\<exists>n. t = (s @ replicate n (CHR '' ''), k))"

lemma screen_append: "screen (w @ v) = foldl tty (screen w) v"
  by (simp add: screen_def)

lemma tty_text: "printable w \<Longrightarrow> length a = col \<Longrightarrow> foldl tty (a @ x, col) w = (a @ w @ drop (length w) x, col + length w)"
proof (induction w arbitrary: a x col)
  case (Cons c w)
  have "tty (a @ x, col) c = ((a @ [c]) @ drop 1 x, Suc col)"
    using Cons.prems by (auto simp: printable_def)
  then show ?case
    using Cons.IH [of "a @ [c]" "Suc col" "drop 1 x"] Cons.prems by (simp add: printable_def)
qed simp

lemma tty_back: "foldl tty (row, col) (replicate n BS) = (row, col - n)"
  by (induction n arbitrary: col) simp_all

lemma drop_blanks: "drop n (s @ replicate m (CHR '' '')) = replicate (length s + m - n) (CHR '' '')" if "length s \<le> n"
  using that by simp

lemma showing_insert:
  assumes "showing t (pr @ s) (length pr + k)" and "k \<le> length s" and "printable (ch # s)"
  shows "showing (foldl tty t (ch # drop k s @ replicate (length s - k) BS)) (pr @ take k s @ ch # drop k s) (length pr + Suc k)"
proof -
  obtain n where t: "t = ((pr @ take k s) @ (drop k s @ replicate n (CHR '' '')), length pr + k)"
    using assms(1) unfolding showing_def by (metis append.assoc append_take_drop_id)
  have "printable (ch # drop k s)" using assms(3) by (auto simp: printable_def dest: in_set_dropD)
  then have "foldl tty t (ch # drop k s) =
      ((pr @ take k s) @ (ch # drop k s) @ drop (Suc (length s - k)) (drop k s @ replicate n (CHR '' '')), length pr + k + Suc (length s - k))"
    unfolding t by (subst tty_text) (use assms(2) in auto)
  then have "foldl tty t (ch # drop k s @ replicate (length s - k) BS) =
      ((pr @ take k s @ ch # drop k s) @ replicate (n - 1) (CHR '' ''), length pr + Suc k)"
    unfolding append_Cons [symmetric] foldl_append using assms(2) tty_back by simp
  then show ?thesis by (auto simp: showing_def)
qed

lemma showing_delete:
  assumes "showing t (pr @ s) (length pr + k)" and "0 < k" and "k \<le> length s" and "printable s"
  shows "showing (foldl tty t (BS # drop k s @ CHR '' '' # BS # replicate (length s - k) BS))
    (pr @ take (k - 1) s @ drop k s) (length pr + (k - 1))"
proof -
  have s: "s = take (k - 1) s @ s ! (k - 1) # drop k s" using id_take_nth_drop [of "k - 1" s] assms(2,3) by simp
  obtain n where "t = (pr @ s @ replicate n (CHR '' ''), length pr + k)" using assms(1) by (auto simp: showing_def)
  then have t: "t = ((pr @ take (k - 1) s) @ (s ! (k - 1) # drop k s @ replicate n (CHR '' '')), length pr + k)"
    using s by (metis append.assoc append_Cons)
  have e: "BS # drop k s @ CHR '' '' # BS # replicate (length s - k) BS = BS # (drop k s @ '' '') @ replicate (Suc (length s - k)) BS"
    by simp
  have pr: "printable (drop k s @ '' '')" using assms(4) by (auto simp: printable_def dest: in_set_dropD)
  have "foldl tty t (BS # (drop k s @ '' '')) =
      ((pr @ take (k - 1) s) @ (drop k s @ '' '') @ replicate n (CHR '' ''), length pr + (k - 1) + Suc (length s - k))"
  proof -
    have "tty t BS = ((pr @ take (k - 1) s) @ (s ! (k - 1) # drop k s @ replicate n (CHR '' '')), length pr + (k - 1))"
      unfolding t using assms(2) by simp
    then show ?thesis
      using tty_text [OF pr, of "pr @ take (k - 1) s" "length pr + (k - 1)" "s ! (k - 1) # drop k s @ replicate n (CHR '' '')"] assms(3)
      by simp
  qed
  then have "foldl tty t (BS # (drop k s @ '' '') @ replicate (Suc (length s - k)) BS) =
      ((pr @ take (k - 1) s @ drop k s) @ replicate (Suc n) (CHR '' ''), length pr + (k - 1))"
    unfolding append_Cons [symmetric] foldl_append by (simp add: tty_back)
  then show ?thesis unfolding e showing_def by blast
qed

lemma showing_right:
  assumes "showing t (pr @ s) (length pr + k)" and "k < length s" and "printable s"
  shows "showing (tty t (s ! k)) (pr @ s) (length pr + Suc k)"
proof -
  have s: "s = take k s @ s ! k # drop (Suc k) s" using id_take_nth_drop [OF assms(2)] .
  obtain n where t: "t = (pr @ s @ replicate n (CHR '' ''), length pr + k)" using assms(1) by (auto simp: showing_def)
  have "printable [s ! k]" using assms(2,3) by (auto simp: printable_def)
  then have "foldl tty ((pr @ take k s) @ (s ! k # drop (Suc k) s @ replicate n (CHR '' '')), length pr + k) [s ! k] =
      ((pr @ take k s) @ [s ! k] @ drop (Suc k) s @ replicate n (CHR '' ''), length pr + Suc k)"
    by (subst tty_text) (use assms(2) in auto)
  moreover have "t = ((pr @ take k s) @ (s ! k # drop (Suc k) s @ replicate n (CHR '' '')), length pr + k)"
    using t s by (metis append.assoc append_Cons)
  ultimately have "tty t (s ! k) = (pr @ (take k s @ s ! k # drop (Suc k) s) @ replicate n (CHR '' ''), length pr + Suc k)"
    by simp
  then show ?thesis using s unfolding showing_def by (metis append.assoc)
qed

lemma showing_left: "showing t s k \<Longrightarrow> showing (tty t BS) s (k - 1)"
  by (auto simp: showing_def)

lemma showing_bell: "showing t s k \<Longrightarrow> showing (tty t BEL) s k"
  by (auto simp: showing_def)

lemma tty_erase:
  "foldl tty (pr @ s @ replicate n (CHR '' ''), length pr + length s) (erase_line (length s)) = (pr @ replicate (length s + n) (CHR '' ''), length pr)"
proof (induction s arbitrary: n rule: rev_induct)
  case Nil
  then show ?case by (simp add: erase_line_def)
next
  case (snoc c s)
  have "erase_line (length (s @ [c])) = [BS, CHR '' '', BS] @ erase_line (length s)"
    by (simp add: erase_line_def)
  moreover have "foldl tty (pr @ (s @ [c]) @ replicate n (CHR '' ''), length pr + length (s @ [c])) [BS, CHR '' '', BS] =
      (pr @ s @ replicate (Suc n) (CHR '' ''), length pr + length s)"
    by simp
  ultimately show ?case using snoc.IH [of "Suc n"] by (simp only: foldl_append) simp
qed

lemma showing_line:
  assumes "showing t pr (length pr)" and "k \<le> length s" and "printable s"
  shows "showing (foldl tty t (s @ replicate (length s - k) BS)) (pr @ s) (length pr + k)"
proof -
  obtain n where t: "t = (pr @ replicate n (CHR '' ''), length pr)" using assms(1) by (auto simp: showing_def)
  have "foldl tty t s = ((pr @ s) @ replicate (n - length s) (CHR '' ''), length pr + length s)"
    unfolding t by (subst tty_text) (use assms in auto)
  then show ?thesis using assms(2) by (simp add: tty_back showing_def)
qed

lemma showing_history:
  assumes "showing t (pr @ s) (length pr + length s)" and "k' \<le> length s'" and "printable s'"
  shows "showing (foldl tty t (erase_line (length s) @ s' @ replicate (length s' - k') BS)) (pr @ s') (length pr + k')"
proof -
  obtain n where "t = (pr @ s @ replicate n (CHR '' ''), length pr + length s)" using assms(1) by (auto simp: showing_def)
  then have "showing (foldl tty t (erase_line (length s))) pr (length pr)"
    using tty_erase [of pr s n] by (simp add: showing_def)
  then show ?thesis using showing_line [OF _ assms(2,3)] by (simp only: foldl_append)
qed

text \<open>
  The functions that change to another line erase backwards from the cursor, so they expect it at
  the end of the line. With the cursor at the start, two characters erase the end of the prompt.
\<close>

lemma history_erases_prompt:
  "foldl tty (''> ab'', 2) (erase_line (length ''ab'') @ ''x'') = (''x ab'', 1)"
  by (simp add: erase_line_def numeral_2_eq_2)

end
