(* ===== verification/Cli_Fsm.thy ===== *)
theory Cli_Fsm
  imports Cli_Line
begin

unbundle bit_operations_syntax

text \<open>
  The state machine of the command line parser (\<^verbatim>\<open>cparser_fsm.c\<close>). It reads the line character
  by character, keeps a stack of the tokens that are complete, and can take characters back. The
  state machine is compared with a description that has no arrays, no indices and no separate
  error position, where taking back a character is obviously the inverse of reading it.
\<close>

section \<open>Matching a token against the children of a node\<close>

definition NODE_USABLE :: "cparser \<Rightarrow> cparser_node \<Rightarrow> bool" where
  "NODE_USABLE p n \<longleftrightarrow> is_privileged_mode p \<or> \<not> hidden n"

fun match_loop :: "(cparser_node \<Rightarrow> bool) \<Rightarrow> string \<Rightarrow> cparser_node list \<Rightarrow> nat \<Rightarrow> cparser_node option \<Rightarrow> bool \<Rightarrow>
    (nat \<times> cparser_node option \<times> bool) option" where
  "match_loop usable tok [] num_matches m is_complete = Some (num_matches, m, is_complete)"
| "match_loop usable tok (child # cs) num_matches m is_complete =
     (if \<not> usable child then match_loop usable tok cs num_matches m is_complete
      else do {
        (rc, local_is_complete) \<leftarrow> cparser_match_fn_tbl (ntype child) tok child;
        if rc = CPARSER_OK then
          (if m = None \<or> \<not> is_complete \<and> local_is_complete
           then match_loop usable tok cs (num_matches + 1) (Some child) local_is_complete
           else match_loop usable tok cs (num_matches + 1) m is_complete)
        else match_loop usable tok cs num_matches m is_complete })"

text \<open>The number of matches, the best match, and whether it is complete.\<close>

definition node_match :: "(cparser_node \<Rightarrow> bool) \<Rightarrow> string \<Rightarrow> cparser_node \<Rightarrow> (nat \<times> cparser_node option \<times> bool) option" where
  "node_match usable tok parent = do {
     (num_matches, m, is_complete) \<leftarrow> match_loop usable tok (nchildren parent) 0 None False;
     if num_matches = 1 then do {
       n \<leftarrow> m;
       Some (num_matches, m, is_complete \<or> ntype n = CPARSER_NODE_KEYWORD) }
     else Some (num_matches, m, is_complete) }"

definition cparser_match :: "cparser \<Rightarrow> string \<Rightarrow> cparser_node \<Rightarrow> (nat \<times> cparser_node option \<times> bool) option" where
  "cparser_match p tok parent = node_match (NODE_USABLE p) tok parent"

section \<open>The token stack\<close>

definition empty_token :: cparser_token where
  "empty_token = \<lparr>begin_ptr = -1, token_len = 0, tbuf = replicate CPARSER_MAX_TOKEN_SIZE NUL, tparent = None, tnode = None\<rparr>"

definition cparser_token_stack_reset :: "cparser \<Rightarrow> cparser" where
  "cparser_token_stack_reset p = p\<lparr>last_good := -1, current_pos := 0, token_tos := 0,
     tokens := replicate CPARSER_MAX_NUM_TOKENS empty_token\<rparr>"

definition CUR_TOKEN :: "cparser \<Rightarrow> cparser_token option" where
  "CUR_TOKEN p = aget (tokens p) (token_tos p)"

definition put_token :: "nat \<Rightarrow> cparser_token \<Rightarrow> cparser \<Rightarrow> cparser option" where
  "put_token i t p = map_option (\<lambda>ts. p\<lparr>tokens := ts\<rparr>) (aput (tokens p) i t)"

definition INSERT_TOK_STK :: "cparser_token \<Rightarrow> char \<Rightarrow> cparser_token option" where
  "INSERT_TOK_STK t ch = map_option (\<lambda>b. t\<lparr>tbuf := b, token_len := token_len t + 1\<rparr>) (aput (tbuf t) (token_len t) ch)"

definition DELETE_TOK_STK :: "cparser_token \<Rightarrow> cparser_token option" where
  "DELETE_TOK_STK t = map_option (\<lambda>b. t\<lparr>tbuf := b, token_len := token_len t - 1\<rparr>) (aput (tbuf t) (token_len t - 1) NUL)"

section \<open>The functions of the states\<close>

text \<open>The new state, whether the character is used, and the parser.\<close>

type_synonym fsm_result = "(cparser_state \<times> bool \<times> cparser) option"

definition cparser_ws_erase :: "cparser \<Rightarrow> fsm_result" where
  "cparser_ws_erase p =
     (if current_pos p > 0 then
        let p = p\<lparr>current_pos := current_pos p - 1\<rparr> in
        (if 0 < token_tos p then do {
           t \<leftarrow> aget (tokens p) (token_tos p - 1);
           if begin_ptr t + int (token_len t) \<ge> int (current_pos p) then do {
             n \<leftarrow> tparent t;
             p \<leftarrow> put_token (token_tos p - 1) (t\<lparr>tparent := None\<rparr>) (p\<lparr>cur_node := n\<rparr>);
             c \<leftarrow> CUR_TOKEN p;
             b \<leftarrow> aput (tbuf c) 0 NUL;
             p \<leftarrow> put_token (token_tos p)
               \<lparr>begin_ptr = -1, token_len = 0, tbuf = b, tparent = None, tnode = None\<rparr> p;
             Some (CPARSER_STATE_TOKEN, True, p\<lparr>token_tos := token_tos p - 1\<rparr>) }
           else Some (CPARSER_STATE_WHITESPACE, True, p) }
         else Some (CPARSER_STATE_WHITESPACE, True, p))
      else Some (CPARSER_STATE_WHITESPACE, False, p))"

definition cparser_ws_space :: "cparser \<Rightarrow> fsm_result" where
  "cparser_ws_space p = Some (CPARSER_STATE_WHITESPACE, True, p)"

definition cparser_ws_char :: "char \<Rightarrow> cparser \<Rightarrow> fsm_result" where
  "cparser_ws_char ch p = do {
     (num, m, is_complete) \<leftarrow> cparser_match p [ch] (cur_node p);
     if num = 0 then Some (CPARSER_STATE_ERROR, True, p)
     else do {
       t \<leftarrow> CUR_TOKEN p;
       t \<leftarrow> INSERT_TOK_STK (t\<lparr>begin_ptr := int (current_pos p)\<rparr>) ch;
       p \<leftarrow> put_token (token_tos p) t p;
       Some (CPARSER_STATE_TOKEN, True, p) } }"

definition cparser_tok_erase :: "cparser \<Rightarrow> fsm_result" where
  "cparser_tok_erase p = do {
     t \<leftarrow> CUR_TOKEN p;
     t \<leftarrow> DELETE_TOK_STK t;
     let p = p\<lparr>current_pos := current_pos p - 1\<rparr>;
     if token_len t = 0 then do {
       p \<leftarrow> put_token (token_tos p) (t\<lparr>begin_ptr := -1\<rparr>) p;
       Some (CPARSER_STATE_WHITESPACE, True, p) }
     else do {
       p \<leftarrow> put_token (token_tos p) t p;
       Some (CPARSER_STATE_TOKEN, True, p) } }"

definition cparser_tok_space :: "cparser \<Rightarrow> fsm_result" where
  "cparser_tok_space p = do {
     t \<leftarrow> CUR_TOKEN p;
     s \<leftarrow> tok_chars t;
     (num, m, is_complete) \<leftarrow> cparser_match p s (cur_node p);
     if 1 \<le> num \<and> is_complete then do {
       n \<leftarrow> m;
       b \<leftarrow> aput (tbuf t) (token_len t) NUL;
       p \<leftarrow> put_token (token_tos p) (t\<lparr>tparent := Some (cur_node p), tnode := m, tbuf := b\<rparr>) p;
       let p = p\<lparr>token_tos := token_tos p + 1\<rparr>;
       c_assert (CPARSER_MAX_NUM_TOKENS > token_tos p);
       t \<leftarrow> CUR_TOKEN p;
       c_assert (begin_ptr t = -1);
       c_assert (token_len t = 0);
       c_assert (tparent t = None);
       Some (CPARSER_STATE_WHITESPACE, True, p\<lparr>cur_node := n\<rparr>) }
     else Some (CPARSER_STATE_ERROR, True, p) }"

definition cparser_tok_char :: "char \<Rightarrow> cparser \<Rightarrow> fsm_result" where
  "cparser_tok_char ch p = do {
     t \<leftarrow> CUR_TOKEN p;
     if token_len t < CPARSER_MAX_TOKEN_SIZE then do {
       t \<leftarrow> INSERT_TOK_STK t ch;
       s \<leftarrow> tok_chars t;
       (num, m, is_complete) \<leftarrow> cparser_match p s (cur_node p);
       if num = 0 then do {
         t \<leftarrow> DELETE_TOK_STK t;
         p \<leftarrow> put_token (token_tos p) t p;
         Some (CPARSER_STATE_ERROR, True, p) }
       else do {
         p \<leftarrow> put_token (token_tos p) t p;
         Some (CPARSER_STATE_TOKEN, True, p) } }
     else Some (CPARSER_STATE_ERROR, True, p) }"

definition cparser_err_erase :: "cparser \<Rightarrow> fsm_result" where
  "cparser_err_erase p = do {
     c_assert (0 < current_pos p);
     let p = p\<lparr>current_pos := current_pos p - 1\<rparr>;
     if last_good p + 1 = int (current_pos p) then do {
       t \<leftarrow> CUR_TOKEN p;
       Some (if begin_ptr t + int (token_len t) \<ge> int (current_pos p) then CPARSER_STATE_TOKEN
             else CPARSER_STATE_WHITESPACE, True, p) }
     else Some (CPARSER_STATE_ERROR, True, p) }"

definition cparser_err_space :: "cparser \<Rightarrow> fsm_result" where
  "cparser_err_space p = Some (CPARSER_STATE_ERROR, True, p)"

definition cparser_err_char :: "char \<Rightarrow> cparser \<Rightarrow> fsm_result" where
  "cparser_err_char ch p = Some (CPARSER_STATE_ERROR, True, p)"

datatype input_type = Erase | Blank | Regular

fun cparser_state_func_tbl :: "cparser_state \<Rightarrow> input_type \<Rightarrow> char \<Rightarrow> cparser \<Rightarrow> fsm_result" where
  "cparser_state_func_tbl CPARSER_STATE_WHITESPACE Erase = (\<lambda>_. cparser_ws_erase)"
| "cparser_state_func_tbl CPARSER_STATE_WHITESPACE Blank = (\<lambda>_. cparser_ws_space)"
| "cparser_state_func_tbl CPARSER_STATE_WHITESPACE Regular = cparser_ws_char"
| "cparser_state_func_tbl CPARSER_STATE_TOKEN Erase = (\<lambda>_. cparser_tok_erase)"
| "cparser_state_func_tbl CPARSER_STATE_TOKEN Blank = (\<lambda>_. cparser_tok_space)"
| "cparser_state_func_tbl CPARSER_STATE_TOKEN Regular = cparser_tok_char"
| "cparser_state_func_tbl CPARSER_STATE_ERROR Erase = (\<lambda>_. cparser_err_erase)"
| "cparser_state_func_tbl CPARSER_STATE_ERROR Blank = (\<lambda>_. cparser_err_space)"
| "cparser_state_func_tbl CPARSER_STATE_ERROR Regular = cparser_err_char"

text \<open>What is printed when debugging is on.\<close>

definition state_name :: "cparser_state \<Rightarrow> string" where
  "state_name s = (case s of CPARSER_STATE_WHITESPACE \<Rightarrow> ''State: WHITESPACE'' | CPARSER_STATE_TOKEN \<Rightarrow> ''State: TOKEN''
     | CPARSER_STATE_ERROR \<Rightarrow> ''State: ERROR'') @ [LF]"

fun gather :: "('a \<Rightarrow> 'b list option) \<Rightarrow> 'a list \<Rightarrow> 'b list option" where
  "gather f [] = Some []"
| "gather f (x # xs) = do { a \<leftarrow> f x; b \<leftarrow> gather f xs; Some (a @ b) }"

definition debug_token :: "cparser \<Rightarrow> nat \<Rightarrow> string option" where
  "debug_token p n = do {
     t \<leftarrow> aget (tokens p) n;
     s \<leftarrow> gather (\<lambda>m. map_option (\<lambda>c. [c]) (aget (tbuf t) m)) [0 ..< token_len t + 1];
     Some (''['' @ s @ '']'' @ [LF]) }"

definition fsm_debug :: "cparser \<Rightarrow> cparser option" where
  "fsm_debug p =
     (if debug_flag (cfg p) then do {
        s \<leftarrow> gather (\<lambda>n. map_option (\<lambda>c. [c]) (cparser_line_char p n)) [0 ..< current_pos p];
        ts \<leftarrow> gather (debug_token p) [0 ..< token_tos p + 1];
        cparser_line_print True True (prints ([LF] @ state_name (state p) @ s @ [LF] @ ts) p) }
      else Some p)"

definition is_erase :: "cparser \<Rightarrow> char \<Rightarrow> bool" where
  "is_erase p ch \<longleftrightarrow> ch_erase (cfg p) = ch \<or> ch_del (cfg p) = ch"

definition cparser_fsm_input :: "char \<Rightarrow> cparser \<Rightarrow> cparser option" where
  "cparser_fsm_input ch p = do {
     c_assert (is_erase p ch \<longrightarrow> 0 < current_pos p);
     if \<not> is_erase p ch \<and> current_pos p \<ge> CPARSER_MAX_LINE_SIZE - 1 then Some (printc BEL p)
     else do {
       let input_type = (if is_erase p ch then Erase else if ch = CHR '' '' then Blank else Regular);
       (st, ch_processed, p) \<leftarrow> cparser_state_func_tbl (state p) input_type ch p;
       let p = p\<lparr>state := st\<rparr>;
       let p = (if ch_processed \<and> input_type \<noteq> Erase then p\<lparr>current_pos := current_pos p + 1\<rparr> else p);
       let p = (if ch_processed \<and> st \<noteq> CPARSER_STATE_ERROR then p\<lparr>last_good := int (current_pos p) - 1\<rparr> else p);
       fsm_debug p } }"

definition cparser_fsm_reset :: "cparser \<Rightarrow> cparser option" where
  "cparser_fsm_reset p = do {
     let p = cparser_token_stack_reset p;
     r \<leftarrow> aget (roots p) (root_level p);
     Some (p\<lparr>cur_node := r, state := CPARSER_STATE_WHITESPACE\<rparr>) }"

section \<open>Parse trees\<close>

definition child_ok :: "cparser_node \<Rightarrow> bool" where
  "child_ok n \<longleftrightarrow> ntype n \<noteq> CPARSER_NODE_ROOT \<and> (ntype n = CPARSER_NODE_KEYWORD \<longrightarrow> (\<exists>kw. nparam n = Str kw)) \<and>
     (ntype n = CPARSER_NODE_LIST \<longrightarrow> (\<exists>kws. nparam n = Keywords kws \<and> kws \<noteq> []))"

text \<open>Below an end node begins the tree of a submode, which is not part of the same command.\<close>

fun tree_ok :: "cparser_node \<Rightarrow> bool" where
  "tree_ok (Node ty fl pa de cs) \<longleftrightarrow> (ty \<noteq> CPARSER_NODE_END \<longrightarrow> (\<forall>c\<in>set cs. child_ok c \<and> tree_ok c))"

fun height :: "cparser_node \<Rightarrow> nat" where
  "height (Node ty fl pa de cs) = (if ty = CPARSER_NODE_END then 1 else Suc (foldr max (map height cs) 0))"

lemma foldr_max_ge: "x \<in> set xs \<Longrightarrow> x \<le> foldr max xs (0::nat)"
  by (induction xs) auto

lemma height_child: "ntype n \<noteq> CPARSER_NODE_END \<Longrightarrow> c \<in> set (nchildren n) \<Longrightarrow> Suc (height c) \<le> height n"
  by (cases n) (auto intro: foldr_max_ge)

lemma height_pos: "0 < height n"
  by (cases n) simp

lemma tree_child: "tree_ok n \<Longrightarrow> ntype n \<noteq> CPARSER_NODE_END \<Longrightarrow> c \<in> set (nchildren n) \<Longrightarrow> child_ok c \<and> tree_ok c"
  by (cases n) auto

lemma match_total:
  assumes "child_ok c" and "tok \<noteq> []"
  obtains r b where "cparser_match_fn_tbl (ntype c) tok c = Some (r, b)"
proof (cases "regular_type c")
  case True
  then show ?thesis using match_decides [OF True assms(2)] that by (auto simp: decides_def)
next
  case False
  then have "ntype c = CPARSER_NODE_FLOAT \<or> ntype c = CPARSER_NODE_LIST"
    using assms(1) by (auto simp: child_ok_def regular_type_def)
  then show ?thesis
  proof
    assume f: "ntype c = CPARSER_NODE_FLOAT"
    have "cparser_match_float tok c \<noteq> None"
      using assms(2) by (auto simp: cparser_match_float_def Let_def)
    then show ?thesis using that f by auto
  next
    assume l: "ntype c = CPARSER_NODE_LIST"
    then show ?thesis using assms that by (auto simp: child_ok_def cparser_match_list_def)
  qed
qed

lemma end_never_matches: "ntype c = CPARSER_NODE_END \<Longrightarrow> cparser_match_fn_tbl (ntype c) tok c = Some (CPARSER_NOT_OK, False)"
  by (simp add: cparser_match_end_def)

definition a_match :: "cparser_node \<Rightarrow> string \<Rightarrow> bool" where
  "a_match c tok \<longleftrightarrow> (\<exists>b. cparser_match_fn_tbl (ntype c) tok c = Some (CPARSER_OK, b))"

definition full_match :: "cparser_node \<Rightarrow> string \<Rightarrow> bool" where
  "full_match c tok \<longleftrightarrow> cparser_match_fn_tbl (ntype c) tok c = Some (CPARSER_OK, True)"

text \<open>
  What the loop over the children finds: the first one that matches completely, or else the first
  one that matches at all.
\<close>

definition best :: "(cparser_node \<Rightarrow> bool) \<Rightarrow> string \<Rightarrow> cparser_node list \<Rightarrow> cparser_node option" where
  "best u tok cs = (case find (\<lambda>c. u c \<and> full_match c tok) cs of Some c \<Rightarrow> Some c | None \<Rightarrow> find (\<lambda>c. u c \<and> a_match c tok) cs)"

lemma match_loop_best:
  assumes "\<forall>c\<in>set cs. child_ok c" and "tok \<noteq> []" and "m = None \<longrightarrow> \<not> cp"
  shows "match_loop u tok cs num m cp = Some (num + length (filter (\<lambda>c. u c \<and> a_match c tok) cs),
    (if cp then m else case find (\<lambda>c. u c \<and> full_match c tok) cs of Some c \<Rightarrow> Some c
      | None \<Rightarrow> (if m \<noteq> None then m else find (\<lambda>c. u c \<and> a_match c tok) cs)),
    cp \<or> (\<exists>c\<in>set cs. u c \<and> full_match c tok))"
  using assms
proof (induction cs arbitrary: num m cp)
  case Nil
  then show ?case by simp
next
  case (Cons c cs)
  obtain r b where rb: "cparser_match_fn_tbl (ntype c) tok c = Some (r, b)"
    using match_total [of c tok] Cons.prems by auto
  have am: "a_match c tok \<longleftrightarrow> r = CPARSER_OK" "full_match c tok \<longleftrightarrow> r = CPARSER_OK \<and> b"
    using rb by (auto simp: a_match_def full_match_def)
  have cs: "\<forall>c\<in>set cs. child_ok c" using Cons.prems by simp
  show ?case
  proof (cases "u c \<and> r = CPARSER_OK")
    case False
    then show ?thesis
      using Cons.IH [OF cs assms(2) Cons.prems(3)] rb am by (auto split: option.splits)
  next
    case True
    show ?thesis
    proof (cases "m = None \<or> \<not> cp \<and> b")
      case c: True
      then have "\<not> cp" using Cons.prems(3) by auto
      then show ?thesis
        using True c rb am Cons.IH [OF cs assms(2), of "Some c" b "num + 1"] by (auto split: option.splits)
    next
      case False
      then show ?thesis
        using True rb am Cons.IH [OF cs assms(2) Cons.prems(3), of "num + 1"] by (auto split: option.splits)
    qed
  qed
qed

text \<open>Some child matches the word; and the child that a complete word leads to.\<close>

definition opens :: "(cparser_node \<Rightarrow> bool) \<Rightarrow> cparser_node \<Rightarrow> string \<Rightarrow> bool" where
  "opens u n w \<longleftrightarrow> (\<exists>c\<in>set (nchildren n). u c \<and> a_match c w)"

definition closes :: "(cparser_node \<Rightarrow> bool) \<Rightarrow> cparser_node \<Rightarrow> string \<Rightarrow> cparser_node option" where
  "closes u n w = (case filter (\<lambda>c. u c \<and> a_match c w) (nchildren n) of
     [c] \<Rightarrow> (if ntype c = CPARSER_NODE_KEYWORD \<or> full_match c w then Some c else None)
   | _ \<Rightarrow> find (\<lambda>c. u c \<and> full_match c w) (nchildren n))"

lemma full_a_match: "full_match c w \<Longrightarrow> a_match c w"
  by (auto simp: full_match_def a_match_def)

lemma find_filter: "find P xs = (case filter P xs of [] \<Rightarrow> None | x # _ \<Rightarrow> Some x)"
  by (induction xs) auto

lemma node_match_iff:
  assumes "\<forall>c\<in>set (nchildren n). child_ok c" and "w \<noteq> []"
  obtains k m b where "node_match u w n = Some (k, m, b)" and "k = 0 \<longleftrightarrow> \<not> opens u n w"
    and "1 \<le> k \<and> b \<longleftrightarrow> closes u n w \<noteq> None" and "1 \<le> k \<and> b \<Longrightarrow> m = closes u n w"
proof -
  let ?A = "filter (\<lambda>c. u c \<and> a_match c w) (nchildren n)"
  let ?full = "\<exists>c\<in>set (nchildren n). u c \<and> full_match c w"
  have loop: "match_loop u w (nchildren n) 0 None False = Some (length ?A, best u w (nchildren n), ?full)"
    using match_loop_best [OF assms, of None False u 0] by (auto simp: best_def split: option.splits)
  have F: "filter (\<lambda>c. u c \<and> full_match c w) (nchildren n) = filter (\<lambda>c. full_match c w) ?A"
    using full_a_match by (auto intro: filter_cong)
  have fullA: "?full \<longleftrightarrow> (\<exists>c\<in>set ?A. full_match c w)" using full_a_match by auto
  have opens: "opens u n w \<longleftrightarrow> ?A \<noteq> []" by (auto simp: opens_def filter_empty_conv)
  show thesis
  proof (cases ?A)
    case Nil
    then have "node_match u w n = Some (0, best u w (nchildren n), False)"
      using loop fullA by (simp add: node_match_def)
    moreover have "closes u n w = None" using Nil F by (simp add: closes_def find_filter)
    ultimately show thesis using that opens Nil by simp
  next
    case (Cons c cs)
    show thesis
    proof (cases cs)
      case Nil
      have "best u w (nchildren n) = Some c"
        using Cons Nil F by (auto simp: best_def find_filter)
      then have "node_match u w n = Some (1, Some c, full_match c w \<or> ntype c = CPARSER_NODE_KEYWORD)"
        using loop Cons Nil fullA by (simp add: node_match_def)
      moreover have "closes u n w = (if ntype c = CPARSER_NODE_KEYWORD \<or> full_match c w then Some c else None)"
        using Cons Nil by (simp add: closes_def)
      ultimately show thesis
        using that [of 1 "Some c" "full_match c w \<or> ntype c = CPARSER_NODE_KEYWORD"] opens Cons by (auto split: if_splits)
    next
      case two: (Cons d ds)
      have cl: "closes u n w = find (\<lambda>c. u c \<and> full_match c w) (nchildren n)"
        using Cons two by (simp add: closes_def)
      have "node_match u w n = Some (length ?A, best u w (nchildren n), ?full)"
        using loop Cons two by (simp add: node_match_def)
      moreover have "?full \<longleftrightarrow> closes u n w \<noteq> None" unfolding cl by (auto simp: find_None_iff)
      moreover have "best u w (nchildren n) = closes u n w" if ?full
        using that unfolding cl by (auto simp: best_def find_None_iff split: option.splits)
      ultimately show thesis using that [of "length ?A" "best u w (nchildren n)" ?full] opens Cons by auto
    qed
  qed
qed

lemma closes_child: "closes u n w = Some c \<Longrightarrow> c \<in> set (nchildren n) \<and> u c \<and> a_match c w"
proof -
  assume c: "closes u n w = Some c"
  let ?A = "filter (\<lambda>c. u c \<and> a_match c w) (nchildren n)"
  have A: "c \<in> set ?A \<Longrightarrow> ?thesis" by simp
  have f: "?thesis" if "find (\<lambda>c. u c \<and> full_match c w) (nchildren n) = Some c"
    using that full_a_match by (auto simp: find_Some_iff)
  show ?thesis
  proof (cases ?A)
    case Nil
    then show ?thesis using c f by (simp add: closes_def)
  next
    case (Cons a as)
    then show ?thesis using c f A by (cases as) (auto simp: closes_def split: if_splits)
  qed
qed

lemma opens_end: "opens u n w \<Longrightarrow> \<exists>c. c \<in> set (nchildren n)"
  by (auto simp: opens_def)

section \<open>The state machine without arrays\<close>

text \<open>
  A token that was closed by a blank; and the states: between tokens at a position, inside a token
  with what was read of it, and after an error, with the state before it and the number of
  characters since.
\<close>

datatype closed = Closed (cparent: cparser_node) (cbegin: nat) (cword: string) (cnode: cparser_node)

datatype parse = Space "closed list" cparser_node nat | Tok "closed list" cparser_node nat string | Err parse nat

fun ppos :: "parse \<Rightarrow> nat" where
  "ppos (Space st cur n) = n"
| "ppos (Tok st cur b w) = b + length w"
| "ppos (Err q n) = ppos q + n"

fun pstep :: "(cparser_node \<Rightarrow> bool) \<Rightarrow> parse \<Rightarrow> char \<Rightarrow> parse" where
  "pstep u (Space st cur n) c =
     (if c = CHR '' '' then Space st cur (Suc n)
      else if opens u cur [c] then Tok st cur n [c] else Err (Space st cur n) 1)"
| "pstep u (Tok st cur b w) c =
     (if c = CHR '' '' then
        (case closes u cur w of Some m \<Rightarrow> Space (st @ [Closed cur b w m]) m (Suc (b + length w))
         | None \<Rightarrow> Err (Tok st cur b w) 1)
      else if length w < CPARSER_MAX_TOKEN_SIZE \<and> opens u cur (w @ [c]) then Tok st cur b (w @ [c])
      else Err (Tok st cur b w) 1)"
| "pstep u (Err q n) c = Err q (Suc n)"

definition parse_of :: "(cparser_node \<Rightarrow> bool) \<Rightarrow> cparser_node \<Rightarrow> string \<Rightarrow> parse" where
  "parse_of u root s = foldl (pstep u) (Space [] root 0) s"

definition cend :: "closed \<Rightarrow> nat" where
  "cend e = cbegin e + length (cword e)"

fun punstep :: "parse \<Rightarrow> parse" where
  "punstep (Space st cur n) =
     (if st \<noteq> [] \<and> n = Suc (cend (last st))
      then Tok (butlast st) (cparent (last st)) (cbegin (last st)) (cword (last st)) else Space st cur (n - 1))"
| "punstep (Tok st cur b w) = (if length w = 1 then Space st cur b else Tok st cur b (butlast w))"
| "punstep (Err q n) = (if n = 1 then q else Err q (n - 1))"

text \<open>What holds of all states that are reached.\<close>

fun pvalid :: "parse \<Rightarrow> bool" where
  "pvalid (Space st cur n) \<longleftrightarrow> (st \<noteq> [] \<longrightarrow> cend (last st) < n) \<and> list_all (\<lambda>e. cword e \<noteq> [] \<and> length (cword e) \<le> CPARSER_MAX_TOKEN_SIZE) st"
| "pvalid (Tok st cur b w) \<longleftrightarrow> (st \<noteq> [] \<longrightarrow> cend (last st) < b) \<and> list_all (\<lambda>e. cword e \<noteq> [] \<and> length (cword e) \<le> CPARSER_MAX_TOKEN_SIZE) st \<and>
     w \<noteq> [] \<and> length w \<le> CPARSER_MAX_TOKEN_SIZE"
| "pvalid (Err q n) \<longleftrightarrow> pvalid q \<and> 0 < n \<and> (\<forall>r m. q \<noteq> Err r m)"

lemma pvalid_step: "pvalid a \<Longrightarrow> pvalid (pstep u a c)"
  by (cases a) (auto simp: cend_def CPARSER_MAX_TOKEN_SIZE_def split: option.splits)

lemma punstep_pstep: "pvalid a \<Longrightarrow> punstep (pstep u a c) = a"
  by (cases a) (auto split: option.splits simp: cend_def)

lemma ppos_pstep [simp]: "ppos (pstep u a c) = Suc (ppos a)"
  by (cases a) (auto split: option.splits)

lemma parse_of_Nil [simp]: "parse_of u root [] = Space [] root 0"
  by (simp add: parse_of_def)

lemma parse_of_snoc: "parse_of u root (s @ [c]) = pstep u (parse_of u root s) c"
  by (simp add: parse_of_def)

lemma pvalid_parse: "pvalid (parse_of u root s)"
  by (induction s rule: rev_induct) (auto simp: parse_of_snoc intro: pvalid_step)

lemma ppos_parse [simp]: "ppos (parse_of u root s) = length s"
  by (induction s rule: rev_induct) (auto simp: parse_of_snoc)

lemma punstep_parse: "punstep (parse_of u root (s @ [c])) = parse_of u root s"
  by (simp add: parse_of_snoc punstep_pstep pvalid_parse)

text \<open>The tokens follow a path in the tree.\<close>

fun pstack :: "parse \<Rightarrow> closed list" where
  "pstack (Space st cur n) = st" | "pstack (Tok st cur b w) = st" | "pstack (Err q n) = pstack q"

fun pcur :: "parse \<Rightarrow> cparser_node" where
  "pcur (Space st cur n) = cur" | "pcur (Tok st cur b w) = cur" | "pcur (Err q n) = pcur q"

definition on_path :: "cparser_node \<Rightarrow> parse \<Rightarrow> bool" where
  "on_path root a \<longleftrightarrow> tree_ok (pcur a) \<and> length (pstack a) + height (pcur a) \<le> height root \<and> ntype (pcur a) \<noteq> CPARSER_NODE_END"

lemma closes_not_end: "closes u n w = Some c \<Longrightarrow> ntype c \<noteq> CPARSER_NODE_END"
  using closes_child [of u n w c] by (auto simp: a_match_def cparser_match_end_def)

lemma on_path_step: "on_path root a \<Longrightarrow> on_path root (pstep u a c)"
proof (cases a)
  case (Tok st cur b w)
  assume a: "on_path root a"
  have "on_path root (Space (st @ [Closed cur b w m]) m k)" if "closes u cur w = Some m" for m k
    using closes_child [OF that] closes_not_end [OF that] a Tok height_child [of cur m] tree_child [of cur m]
    by (auto simp: on_path_def)
  then show ?thesis using a Tok by (auto simp: on_path_def split: option.splits)
qed (auto simp: on_path_def)

lemma on_path_parse: "tree_ok root \<Longrightarrow> ntype root \<noteq> CPARSER_NODE_END \<Longrightarrow> on_path root (parse_of u root s)"
  by (induction s rule: rev_induct) (auto simp: parse_of_snoc intro: on_path_step, simp add: on_path_def)

section \<open>The arrays represent the state\<close>

definition tok_rep :: "cparser_token \<Rightarrow> int \<Rightarrow> string \<Rightarrow> cparser_node option \<Rightarrow> bool" where
  "tok_rep t b w par \<longleftrightarrow> begin_ptr t = b \<and> token_len t = length w \<and> length w \<le> CPARSER_MAX_TOKEN_SIZE \<and>
     tbuf t = w @ replicate (CPARSER_MAX_TOKEN_SIZE - length w) NUL \<and> tparent t = par"

definition stack_rep :: "cparser \<Rightarrow> closed list \<Rightarrow> int \<Rightarrow> string \<Rightarrow> bool" where
  "stack_rep p st b w \<longleftrightarrow> length (tokens p) = CPARSER_MAX_NUM_TOKENS \<and> token_tos p = length st \<and>
     length st < CPARSER_MAX_NUM_TOKENS \<and>
     (\<forall>i<length st. tok_rep (tokens p ! i) (int (cbegin (st ! i))) (cword (st ! i)) (Some (cparent (st ! i))) \<and>
        tnode (tokens p ! i) = Some (cnode (st ! i))) \<and>
     tok_rep (tokens p ! length st) b w None \<and>
     (\<forall>i. length st < i \<and> i < CPARSER_MAX_NUM_TOKENS \<longrightarrow> tok_rep (tokens p ! i) (-1) [] None)"

fun core :: "cparser \<Rightarrow> parse \<Rightarrow> bool" where
  "core p (Space st cur n) \<longleftrightarrow> stack_rep p st (-1) [] \<and> cur_node p = cur"
| "core p (Tok st cur b w) \<longleftrightarrow> stack_rep p st (int b) w \<and> cur_node p = cur"
| "core p (Err q n) \<longleftrightarrow> core p q"

fun pstate :: "parse \<Rightarrow> cparser_state" where
  "pstate (Space st cur n) = CPARSER_STATE_WHITESPACE"
| "pstate (Tok st cur b w) = CPARSER_STATE_TOKEN"
| "pstate (Err q n) = CPARSER_STATE_ERROR"

fun good :: "parse \<Rightarrow> nat" where
  "good (Err q n) = good q"
| "good a = ppos a"

definition fsm_rep :: "cparser \<Rightarrow> parse \<Rightarrow> bool" where
  "fsm_rep p a \<longleftrightarrow> core p a \<and> state p = pstate a \<and> current_pos p = ppos a \<and> last_good p = int (good a) - 1"

text \<open>The fields of the state machine are the only ones that change.\<close>

definition fsm_frame :: "cparser \<Rightarrow> cparser \<Rightarrow> bool" where
  "fsm_frame p p' \<longleftrightarrow> p' = p\<lparr>cur_node := cur_node p', state := state p', token_tos := token_tos p',
     current_pos := current_pos p', last_good := last_good p', tokens := tokens p'\<rparr>"

lemma tok_rep_chars: "tok_rep t b w par \<Longrightarrow> tok_chars t = Some w"
  by (simp add: tok_rep_def tok_chars_def)

lemma tok_rep_insert:
  assumes "tok_rep t b w par" and "length w < CPARSER_MAX_TOKEN_SIZE"
  shows "\<exists>t'. INSERT_TOK_STK t c = Some t' \<and> tok_rep t' b (w @ [c]) par \<and> tnode t' = tnode t"
proof -
  obtain k where k: "CPARSER_MAX_TOKEN_SIZE - length w = Suc k" using assms(2) by (cases "CPARSER_MAX_TOKEN_SIZE - length w") auto
  then show ?thesis
    using assms by (auto simp: INSERT_TOK_STK_def aput_def tok_rep_def list_update_append)
qed

lemma tok_rep_delete:
  assumes "tok_rep t b w par" and "w \<noteq> []"
  shows "\<exists>t'. DELETE_TOK_STK t = Some t' \<and> tok_rep t' b (butlast w) par \<and> tnode t' = tnode t \<and> token_len t' = length w - 1"
proof -
  obtain v c where w: "w = v @ [c]" using assms(2) by (cases w rule: rev_cases) auto
  then have k: "CPARSER_MAX_TOKEN_SIZE - length v = Suc (CPARSER_MAX_TOKEN_SIZE - length w)"
    using assms(1) by (simp add: tok_rep_def Suc_diff_Suc)
  show ?thesis
    using assms(1) w k by (auto simp: DELETE_TOK_STK_def aput_def tok_rep_def list_update_append)
qed

lemma stack_rep_cur: "stack_rep p st b w \<Longrightarrow> CUR_TOKEN p = Some (tokens p ! length st) \<and> tok_rep (tokens p ! length st) b w None"
  by (simp add: stack_rep_def CUR_TOKEN_def aget_def)

lemma stack_rep_put:
  assumes "stack_rep p st b w" and "tok_rep t b' w' None"
  shows "put_token (token_tos p) t p = Some (p\<lparr>tokens := (tokens p)[token_tos p := t]\<rparr>)"
    and "stack_rep (p\<lparr>tokens := (tokens p)[token_tos p := t]\<rparr>) st b' w'"
  using assms by (auto simp: stack_rep_def put_token_def aput_def nth_list_update)

lemma stack_rep_cong:
  "stack_rep p st b w \<Longrightarrow> tokens p' = tokens p \<Longrightarrow> token_tos p' = token_tos p \<Longrightarrow> stack_rep p' st b w"
  by (simp add: stack_rep_def)

lemma core_cong:
  "core p a \<Longrightarrow> tokens p' = tokens p \<Longrightarrow> token_tos p' = token_tos p \<Longrightarrow> cur_node p' = cur_node p \<Longrightarrow> core p' a"
  by (induction a) (auto intro: stack_rep_cong)

lemma NODE_USABLE_cong: "is_privileged_mode p = is_privileged_mode p' \<Longrightarrow> NODE_USABLE p = NODE_USABLE p'"
  by (simp add: NODE_USABLE_def fun_eq_iff)

lemma stack_rep_push:
  assumes "stack_rep p st (int b) w" and "Suc (length st) < CPARSER_MAX_NUM_TOKENS" and "w \<noteq> []" and "length w < CPARSER_MAX_TOKEN_SIZE"
    and "closes (NODE_USABLE p) cur w = Some m" and "cur_node p = cur" and "\<forall>c\<in>set (nchildren cur). child_ok c"
  shows "\<exists>p'. cparser_tok_space p = Some (CPARSER_STATE_WHITESPACE, True, p') \<and> stack_rep p' (st @ [Closed cur b w m]) (-1) [] \<and>
    cur_node p' = m \<and> current_pos p' = current_pos p \<and> last_good p' = last_good p \<and> fsm_frame p p'"
proof -
  let ?t = "tokens p ! length st"
  note cur = stack_rep_cur [OF assms(1)]
  obtain k mm bb where nm: "node_match (NODE_USABLE p) w cur = Some (k, mm, bb)" "1 \<le> k \<and> bb \<longleftrightarrow> closes (NODE_USABLE p) cur w \<noteq> None"
    "1 \<le> k \<and> bb \<Longrightarrow> mm = closes (NODE_USABLE p) cur w"
    using node_match_iff [OF assms(7,3), of "NODE_USABLE p"] by metis
  obtain j where "CPARSER_MAX_TOKEN_SIZE - length w = Suc j" using assms(4) by (cases "CPARSER_MAX_TOKEN_SIZE - length w") auto
  then have nul: "aput (tbuf ?t) (token_len ?t) NUL = Some (tbuf ?t)"
    using cur assms(4) by (auto simp: tok_rep_def aput_def list_update_append)
  let ?t' = "?t\<lparr>tparent := Some cur, tnode := Some m, tbuf := tbuf ?t\<rparr>"
  let ?q = "p\<lparr>tokens := (tokens p)[length st := ?t'], token_tos := Suc (length st), cur_node := m\<rparr>"
  have next_tok: "tok_rep (tokens p ! Suc (length st)) (-1) [] None"
    using assms(1,2) by (simp add: stack_rep_def)
  have "cparser_tok_space p = Some (CPARSER_STATE_WHITESPACE, True, ?q)"
    unfolding cparser_tok_space_def cparser_match_def
    using cur tok_rep_chars [OF conjunct2 [OF cur]] nm assms nul next_tok
    by (auto simp: put_token_def aput_def stack_rep_def CUR_TOKEN_def aget_def tok_rep_def)
  moreover have "stack_rep ?q (st @ [Closed cur b w m]) (-1) []"
    using assms(1,2) cur next_tok by (auto simp: stack_rep_def nth_append nth_list_update tok_rep_def less_Suc_eq)
  ultimately show ?thesis by (auto simp: fsm_frame_def)
qed

definition fsm_quiet :: "cparser \<Rightarrow> bool" where
  "fsm_quiet p \<longleftrightarrow> \<not> debug_flag (cfg p)"

lemma fsm_frame_refl: "fsm_frame p p"
  by (simp add: fsm_frame_def)

lemma fsm_frameD:
  assumes "fsm_frame p p'"
  shows "cfg p' = cfg p" "root_level p' = root_level p" "roots p' = roots p" "prompts p' = prompts p"
    "is_privileged_mode p' = is_privileged_mode p" "max_line p' = max_line p" "cur_line p' = cur_line p" "lines p' = lines p"
    "user_buf p' = user_buf p" "user_input_cb p' = user_input_cb p" "user_buf_size p' = user_buf_size p" "out p' = out p"
    "finished p' = finished p" "cookie p' = cookie p"
  by (subst assms [unfolded fsm_frame_def], simp)+

lemma fsm_frame_trans: "fsm_frame p q \<Longrightarrow> fsm_frame q r \<Longrightarrow> fsm_frame p r"
  unfolding fsm_frame_def by (cases p; cases q; cases r) simp

lemma fsm_frame_fields [simp]:
  "fsm_frame p (q\<lparr>cur_node := a\<rparr>) = fsm_frame p q" "fsm_frame p (q\<lparr>state := s\<rparr>) = fsm_frame p q"
  "fsm_frame p (q\<lparr>token_tos := n\<rparr>) = fsm_frame p q" "fsm_frame p (q\<lparr>current_pos := n\<rparr>) = fsm_frame p q"
  "fsm_frame p (q\<lparr>last_good := i\<rparr>) = fsm_frame p q" "fsm_frame p (q\<lparr>tokens := ts\<rparr>) = fsm_frame p q"
  by (cases p; cases q; auto simp: fsm_frame_def)+

lemma stack_rep_fields [simp]:
  "stack_rep (q\<lparr>cur_node := a\<rparr>) = stack_rep q" "stack_rep (q\<lparr>state := s\<rparr>) = stack_rep q"
  "stack_rep (q\<lparr>current_pos := n\<rparr>) = stack_rep q" "stack_rep (q\<lparr>last_good := i\<rparr>) = stack_rep q"
  by (simp_all add: stack_rep_def fun_eq_iff)

lemma core_fields [simp]:
  "core (q\<lparr>state := s\<rparr>) a = core q a" "core (q\<lparr>current_pos := n\<rparr>) a = core q a" "core (q\<lparr>last_good := i\<rparr>) a = core q a"
  by (induction a) simp_all

lemma fsm_input_read:
  assumes "\<not> is_erase p c" and "current_pos p < CPARSER_MAX_LINE_SIZE - 1" and "fsm_quiet p"
    and "cparser_state_func_tbl (state p) (if c = CHR '' '' then Blank else Regular) c p = Some (st, True, q)" and "fsm_frame p q"
  shows "cparser_fsm_input c p = Some (q\<lparr>state := st, current_pos := Suc (current_pos q),
    last_good := (if st \<noteq> CPARSER_STATE_ERROR then int (current_pos q) else last_good q)\<rparr>)"
  using assms fsm_frameD(1) [OF assms(5)]
  by (auto simp: cparser_fsm_input_def fsm_debug_def fsm_quiet_def Let_def)

lemma fsm_input_erase:
  assumes "is_erase p c" and "0 < current_pos p" and "fsm_quiet p"
    and "cparser_state_func_tbl (state p) Erase c p = Some (st, True, q)" and "fsm_frame p q"
  shows "cparser_fsm_input c p = Some (q\<lparr>state := st,
    last_good := (if st \<noteq> CPARSER_STATE_ERROR then int (current_pos q) - 1 else last_good q)\<rparr>)"
  using assms fsm_frameD(1) [OF assms(5)]
  by (auto simp: cparser_fsm_input_def fsm_debug_def fsm_quiet_def Let_def)

text \<open>Reading a character that is not a blank.\<close>

lemma fsm_ws_char:
  assumes "stack_rep p st (-1) []" and "\<forall>x\<in>set (nchildren (cur_node p)). child_ok x" and "current_pos p = n"
  shows "\<exists>q. cparser_ws_char c p = Some (if opens (NODE_USABLE p) (cur_node p) [c] then CPARSER_STATE_TOKEN else CPARSER_STATE_ERROR, True, q) \<and>
    (if opens (NODE_USABLE p) (cur_node p) [c] then stack_rep q st (int n) [c] else q = p) \<and>
    cur_node q = cur_node p \<and> current_pos q = n \<and> last_good q = last_good p \<and> fsm_frame p q"
proof -
  obtain k m b where nm: "node_match (NODE_USABLE p) [c] (cur_node p) = Some (k, m, b)" "k = 0 \<longleftrightarrow> \<not> opens (NODE_USABLE p) (cur_node p) [c]"
    using node_match_iff [OF assms(2), of "[c]" "NODE_USABLE p"] by (metis list.discI)
  note cur = stack_rep_cur [OF assms(1)]
  let ?t = "(tokens p ! length st)\<lparr>begin_ptr := int n\<rparr>"
  have "tok_rep ?t (int n) [] None" using cur by (simp add: tok_rep_def)
  then obtain t' where t': "INSERT_TOK_STK ?t c = Some t'" "tok_rep t' (int n) [c] None"
    using tok_rep_insert [of ?t "int n" "[]" None c] by (auto simp: CPARSER_MAX_TOKEN_SIZE_def)
  note put = stack_rep_put [OF assms(1) t'(2)]
  show ?thesis
    using nm cur t' put assms(3)
    by (auto simp: cparser_ws_char_def cparser_match_def fsm_frame_def)
qed

lemma fsm_tok_char:
  assumes "stack_rep p st b w" and "\<forall>x\<in>set (nchildren (cur_node p)). child_ok x"
  shows "\<exists>q. let ok = length w < CPARSER_MAX_TOKEN_SIZE \<and> opens (NODE_USABLE p) (cur_node p) (w @ [c]) in
    cparser_tok_char c p = Some (if ok then CPARSER_STATE_TOKEN else CPARSER_STATE_ERROR, True, q) \<and>
    stack_rep q st b (if ok then w @ [c] else w) \<and>
    cur_node q = cur_node p \<and> current_pos q = current_pos p \<and> last_good q = last_good p \<and> fsm_frame p q"
proof -
  note cur = stack_rep_cur [OF assms(1)]
  have len: "token_len (tokens p ! length st) = length w" using cur by (simp add: tok_rep_def)
  show ?thesis
  proof (cases "length w < CPARSER_MAX_TOKEN_SIZE")
    case False
    then show ?thesis using cur len assms(1) by (auto simp: cparser_tok_char_def Let_def fsm_frame_refl)
  next
    case True
    obtain k m bb where nm: "node_match (NODE_USABLE p) (w @ [c]) (cur_node p) = Some (k, m, bb)"
      "k = 0 \<longleftrightarrow> \<not> opens (NODE_USABLE p) (cur_node p) (w @ [c])"
      using node_match_iff [OF assms(2), of "w @ [c]" "NODE_USABLE p"] by (metis append_is_Nil_conv list.discI)
    obtain t1 where t1: "INSERT_TOK_STK (tokens p ! length st) c = Some t1" "tok_rep t1 b (w @ [c]) None"
      using tok_rep_insert [OF conjunct2 [OF cur] True] by blast
    obtain t2 where t2: "DELETE_TOK_STK t1 = Some t2" "tok_rep t2 b w None"
      using tok_rep_delete [OF t1(2)] by auto
    show ?thesis
      using nm cur len True t1 t2 tok_rep_chars [OF t1(2)] stack_rep_put [OF assms(1) t1(2)] stack_rep_put [OF assms(1) t2(2)]
      by (auto simp: cparser_tok_char_def cparser_match_def Let_def fsm_frame_def)
  qed
qed

text \<open>Room in the arrays for one more character.\<close>

fun roomy :: "parse \<Rightarrow> bool" where
  "roomy (Tok st cur b w) \<longleftrightarrow> length w < CPARSER_MAX_TOKEN_SIZE \<and> Suc (length st) < CPARSER_MAX_NUM_TOKENS"
| "roomy a \<longleftrightarrow> True"

lemma fsm_rep_SpaceI:
  "stack_rep p st (-1) [] \<Longrightarrow> cur_node p = cur \<Longrightarrow> state p = CPARSER_STATE_WHITESPACE \<Longrightarrow> current_pos p = n \<Longrightarrow>
    last_good p = int n - 1 \<Longrightarrow> fsm_rep p (Space st cur n)"
  by (simp add: fsm_rep_def)

lemma fsm_rep_TokI:
  "stack_rep p st (int b) w \<Longrightarrow> cur_node p = cur \<Longrightarrow> state p = CPARSER_STATE_TOKEN \<Longrightarrow> current_pos p = b + length w \<Longrightarrow>
    last_good p = int (b + length w) - 1 \<Longrightarrow> fsm_rep p (Tok st cur b w)"
  by (simp add: fsm_rep_def)

lemma fsm_rep_ErrI:
  "core p q \<Longrightarrow> state p = CPARSER_STATE_ERROR \<Longrightarrow> current_pos p = ppos q + n \<Longrightarrow>
    last_good p = int (good q) - 1 \<Longrightarrow> fsm_rep p (Err q n)"
  by (simp add: fsm_rep_def)

lemma fsm_read_space:
  assumes rep: "fsm_rep p a" and ok: "\<forall>x\<in>set (nchildren (pcur a)). child_ok x" and Space: "a = Space st cur n"
    and c: "\<not> is_erase p c" and pos: "ppos a < CPARSER_MAX_LINE_SIZE - 1" and quiet: "fsm_quiet p"
  shows "\<exists>p'. cparser_fsm_input c p = Some p' \<and> fsm_rep p' (pstep (NODE_USABLE p) a c) \<and> fsm_frame p p'"
proof -
  have pos': "current_pos p < CPARSER_MAX_LINE_SIZE - 1" using rep pos by (simp add: fsm_rep_def)
  note read = fsm_input_read [OF c pos' quiet]
  have s: "stack_rep p st (-1) []" "cur_node p = cur" "current_pos p = n" "state p = CPARSER_STATE_WHITESPACE" "last_good p = int n - 1"
    using rep Space by (auto simp: fsm_rep_def)
  show ?thesis
  proof (cases "c = CHR '' ''")
    case True
    then show ?thesis
      using read [of CPARSER_STATE_WHITESPACE p] s Space
      by (auto simp: cparser_ws_space_def fsm_frame_refl intro!: fsm_rep_SpaceI)
  next
    case False
    have ok': "\<forall>x\<in>set (nchildren (cur_node p)). child_ok x" using ok s(2) Space by simp
    obtain q where q: "cparser_ws_char c p = Some (if opens (NODE_USABLE p) (cur_node p) [c] then CPARSER_STATE_TOKEN else CPARSER_STATE_ERROR, True, q)"
      "if opens (NODE_USABLE p) (cur_node p) [c] then stack_rep q st (int n) [c] else q = p"
      "cur_node q = cur_node p" "current_pos q = n" "last_good q = last_good p" "fsm_frame p q"
      using fsm_ws_char [OF s(1) ok' s(3), of c] by blast
    then show ?thesis
      using read [of _ q] False s Space
      by (auto split: if_splits intro!: fsm_rep_TokI fsm_rep_ErrI)
  qed
qed

lemma fsm_read_token:
  assumes rep: "fsm_rep p a" and valid: "pvalid a" and room: "roomy a" and ok: "\<forall>x\<in>set (nchildren (pcur a)). child_ok x" and Tok: "a = Tok st cur b w"
    and c: "\<not> is_erase p c" and pos: "ppos a < CPARSER_MAX_LINE_SIZE - 1" and quiet: "fsm_quiet p"
  shows "\<exists>p'. cparser_fsm_input c p = Some p' \<and> fsm_rep p' (pstep (NODE_USABLE p) a c) \<and> fsm_frame p p'"
proof -
  have pos': "current_pos p < CPARSER_MAX_LINE_SIZE - 1" using rep pos by (simp add: fsm_rep_def)
  note read = fsm_input_read [OF c pos' quiet]
  have s: "stack_rep p st (int b) w" "cur_node p = cur" "current_pos p = b + length w" "state p = CPARSER_STATE_TOKEN"
    "last_good p = int (b + length w) - 1"
    using rep Tok by (auto simp: fsm_rep_def)
  have ok': "\<forall>x\<in>set (nchildren (cur_node p)). child_ok x" using ok s(2) Tok by simp
  show ?thesis
  proof (cases "c = CHR '' ''")
    case False
    obtain q where q: "let ok = length w < CPARSER_MAX_TOKEN_SIZE \<and> opens (NODE_USABLE p) (cur_node p) (w @ [c]) in
        cparser_tok_char c p = Some (if ok then CPARSER_STATE_TOKEN else CPARSER_STATE_ERROR, True, q) \<and>
        stack_rep q st (int b) (if ok then w @ [c] else w) \<and>
        cur_node q = cur_node p \<and> current_pos q = current_pos p \<and> last_good q = last_good p \<and> fsm_frame p q"
      using fsm_tok_char [OF s(1) ok', of c] by blast
    then show ?thesis
      using read [of _ q] False s Tok
      by (auto simp: Let_def split: if_splits intro!: fsm_rep_TokI fsm_rep_ErrI)
  next
    case True
    have w: "w \<noteq> []" "length w < CPARSER_MAX_TOKEN_SIZE" "Suc (length st) < CPARSER_MAX_NUM_TOKENS"
      using valid room Tok by auto
    show ?thesis
    proof (cases "closes (NODE_USABLE p) (cur_node p) w")
      case (Some m)
      then show ?thesis
        using stack_rep_push [OF s(1) w(3,1,2) _ refl ok'] read [of CPARSER_STATE_WHITESPACE] True s Tok
        by (fastforce intro!: fsm_rep_SpaceI)
    next
      case None
      obtain k mm bb where nm: "node_match (NODE_USABLE p) w (cur_node p) = Some (k, mm, bb)" "1 \<le> k \<and> bb \<longleftrightarrow> closes (NODE_USABLE p) (cur_node p) w \<noteq> None"
        using node_match_iff [OF ok' w(1), of "NODE_USABLE p"] by metis
      then have "cparser_tok_space p = Some (CPARSER_STATE_ERROR, True, p)"
        using None stack_rep_cur [OF s(1)] tok_rep_chars by (auto simp: cparser_tok_space_def cparser_match_def)
      then show ?thesis
        using read [of CPARSER_STATE_ERROR p] True s Tok None by (auto simp: fsm_frame_refl intro!: fsm_rep_ErrI)
    qed
  qed
qed

lemma fsm_read:
  assumes rep: "fsm_rep p a" and valid: "pvalid a" and room: "roomy a" and ok: "\<forall>x\<in>set (nchildren (pcur a)). child_ok x"
    and c: "\<not> is_erase p c" and pos: "ppos a < CPARSER_MAX_LINE_SIZE - 1" and quiet: "fsm_quiet p"
  shows "\<exists>p'. cparser_fsm_input c p = Some p' \<and> fsm_rep p' (pstep (NODE_USABLE p) a c) \<and> fsm_frame p p'"
proof (cases a)
  case (Space st cur n)
  then show ?thesis using fsm_read_space [OF rep ok Space c pos quiet] by simp
next
  case (Tok st cur b w)
  then show ?thesis using fsm_read_token [OF rep valid room ok Tok c pos quiet] by simp
next
  case (Err q n)
  have "current_pos p < CPARSER_MAX_LINE_SIZE - 1" using rep pos by (simp add: fsm_rep_def)
  then show ?thesis
    using fsm_input_read [OF c _ quiet, of CPARSER_STATE_ERROR p] rep Err
    by (cases "c = CHR '' ''")
      (auto simp: cparser_err_space_def cparser_err_char_def fsm_rep_def fsm_frame_refl)
qed

text \<open>Taking the last character back.\<close>

lemma ws_erase_pop:
  assumes rep: "stack_rep p (st @ [e]) (-1) []" and pos: "current_pos p = Suc (cend e)"
  shows "\<exists>q. cparser_ws_erase p = Some (CPARSER_STATE_TOKEN, True, q) \<and> stack_rep q st (int (cbegin e)) (cword e) \<and>
    cur_node q = cparent e \<and> current_pos q = cend e \<and> fsm_frame p q"
proof -
  let ?t = "tokens p ! length st" and ?c = "tokens p ! Suc (length st)"
  have t: "tok_rep ?t (int (cbegin e)) (cword e) (Some (cparent e))" "length (tokens p) = CPARSER_MAX_NUM_TOKENS"
    "token_tos p = Suc (length st)" "Suc (length st) < CPARSER_MAX_NUM_TOKENS" "tok_rep ?c (-1) [] None"
    using rep by (auto simp: stack_rep_def nth_append)
  have others: "i < length st \<Longrightarrow> tok_rep (tokens p ! i) (int (cbegin (st ! i))) (cword (st ! i)) (Some (cparent (st ! i))) \<and>
      tnode (tokens p ! i) = Some (cnode (st ! i))"
    "Suc (length st) < i \<Longrightarrow> i < CPARSER_MAX_NUM_TOKENS \<Longrightarrow> tok_rep (tokens p ! i) (-1) [] None" for i
    using rep unfolding stack_rep_def by (auto simp: nth_append dest: spec [of _ i])
  let ?e = "\<lparr>begin_ptr = -1, token_len = 0, tbuf = replicate CPARSER_MAX_TOKEN_SIZE NUL, tparent = None, tnode = None\<rparr>"
  have b: "aput (tbuf ?c) 0 NUL = Some (replicate CPARSER_MAX_TOKEN_SIZE NUL)"
    using t(5) by (simp add: tok_rep_def aput_def CPARSER_MAX_TOKEN_SIZE_def list_update_same_conv)
  let ?q = "p\<lparr>current_pos := cend e, cur_node := cparent e, token_tos := length st,
    tokens := (tokens p)[length st := ?t\<lparr>tparent := None\<rparr>, Suc (length st) := ?e]\<rparr>"
  have "cparser_ws_erase p = Some (CPARSER_STATE_TOKEN, True, ?q)"
    using t(1-4) b pos by (simp add: cparser_ws_erase_def put_token_def aput_def [of "tokens _"] aget_def CUR_TOKEN_def tok_rep_def cend_def)
  moreover have "stack_rep ?q st (int (cbegin e)) (cword e)"
    using t others by (auto simp: stack_rep_def nth_list_update tok_rep_def)
  ultimately show ?thesis by (auto simp: fsm_frame_refl)
qed

lemma ws_erase_stay:
  assumes rep: "stack_rep p st (-1) []" and pos: "0 < current_pos p" and st: "st \<noteq> [] \<Longrightarrow> cend (last st) < current_pos p - 1"
  shows "cparser_ws_erase p = Some (CPARSER_STATE_WHITESPACE, True, p\<lparr>current_pos := current_pos p - 1\<rparr>)"
proof (cases st rule: rev_cases)
  case Nil
  then show ?thesis using rep pos by (simp add: cparser_ws_erase_def stack_rep_def)
next
  case (snoc st' e)
  let ?t = "tokens p ! length st'"
  have t: "tok_rep ?t (int (cbegin e)) (cword e) (Some (cparent e))" "length st' < length (tokens p)" "token_tos p = Suc (length st')"
    using rep snoc by (auto simp: stack_rep_def nth_append)
  then have "\<not> begin_ptr ?t + int (token_len ?t) \<ge> int (current_pos p - 1)"
    using st snoc by (simp add: tok_rep_def cend_def)
  then show ?thesis
    using t pos by (simp add: cparser_ws_erase_def aget_def Let_def)
qed

lemma tok_erase_rep:
  assumes rep: "stack_rep p st (int b) w" and w: "w \<noteq> []"
  shows "\<exists>q. cparser_tok_erase p = Some (if length w = 1 then CPARSER_STATE_WHITESPACE else CPARSER_STATE_TOKEN, True, q) \<and>
    stack_rep q st (if length w = 1 then -1 else int b) (butlast w) \<and> cur_node q = cur_node p \<and>
    current_pos q = current_pos p - 1 \<and> fsm_frame p q"
proof -
  let ?p = "p\<lparr>current_pos := current_pos p - 1\<rparr>"
  have rep': "stack_rep ?p st (int b) w" using rep by simp
  obtain t where t: "DELETE_TOK_STK (tokens p ! length st) = Some t" "tok_rep t (int b) (butlast w) None" "token_len t = length w - 1"
    using tok_rep_delete [OF conjunct2 [OF stack_rep_cur [OF rep]] w] by blast
  show ?thesis
  proof (cases "length w = 1")
    case True
    then have bl: "butlast w = []" by (cases w) auto
    then have "tok_rep (t\<lparr>begin_ptr := -1\<rparr>) (-1) [] None" using t(2) by (simp add: tok_rep_def)
    from stack_rep_put [OF rep' this] show ?thesis
      using stack_rep_cur [OF rep] t True bl by (simp add: cparser_tok_erase_def fsm_frame_refl Let_def)
  next
    case False
    have "1 < length w" using False w by (cases w) auto
    then show ?thesis
      using stack_rep_put [OF rep' t(2)] stack_rep_cur [OF rep] t by (simp add: cparser_tok_erase_def fsm_frame_refl Let_def)
  qed
qed

lemma err_erase_rep:
  assumes core: "core p q" and valid: "pvalid (Err q n)" and pos: "current_pos p = ppos q + n" and last: "last_good p = int (ppos q) - 1"
  shows "cparser_err_erase p = Some (if n = 1 then pstate q else CPARSER_STATE_ERROR, True, p\<lparr>current_pos := ppos q + n - 1\<rparr>)"
proof (cases "n = 1")
  case False
  then show ?thesis using assms by (auto simp: cparser_err_erase_def Let_def)
next
  case True
  show ?thesis
  proof (cases q)
    case (Space st cur k)
    then show ?thesis
      using assms True stack_rep_cur [of p st "-1" "[]"] by (auto simp: cparser_err_erase_def Let_def CUR_TOKEN_def tok_rep_def)
  next
    case (Tok st cur b w)
    then show ?thesis
      using assms True stack_rep_cur [of p st "int b" w] by (auto simp: cparser_err_erase_def Let_def CUR_TOKEN_def tok_rep_def)
  next
    case (Err r m)
    then show ?thesis using valid by auto
  qed
qed

lemma good_ppos: "pvalid (Err q n) \<Longrightarrow> good q = ppos q"
  by (cases q) auto

lemma fsm_erase:
  assumes rep: "fsm_rep p a" and valid: "pvalid a" and c: "is_erase p c" and pos: "0 < ppos a" and quiet: "fsm_quiet p"
  shows "\<exists>p'. cparser_fsm_input c p = Some p' \<and> fsm_rep p' (punstep a) \<and> fsm_frame p p'"
proof -
  have pos': "0 < current_pos p" using rep pos by (simp add: fsm_rep_def)
  note erase = fsm_input_erase [OF c pos' quiet]
  show ?thesis
  proof (cases a)
    case (Space st cur n)
    then have s: "stack_rep p st (-1) []" "cur_node p = cur" "current_pos p = n" "state p = CPARSER_STATE_WHITESPACE" "last_good p = int n - 1"
      using rep by (auto simp: fsm_rep_def)
    show ?thesis
    proof (cases "st \<noteq> [] \<and> n = Suc (cend (last st))")
      case True
      then obtain st' e where st: "st = st' @ [e]" by (cases st rule: rev_cases) auto
      obtain q where "cparser_ws_erase p = Some (CPARSER_STATE_TOKEN, True, q)" "stack_rep q st' (int (cbegin e)) (cword e)"
        "cur_node q = cparent e" "current_pos q = cend e" "fsm_frame p q"
        using ws_erase_pop [of p st' e] s True st by auto
      then show ?thesis
        using erase [of CPARSER_STATE_TOKEN q] s Space True st by (auto simp: cend_def intro!: fsm_rep_TokI)
    next
      case False
      have "st \<noteq> [] \<Longrightarrow> cend (last st) < current_pos p - 1" using False valid Space s(3) by auto
      from ws_erase_stay [OF s(1) pos' this] show ?thesis
        using erase [of CPARSER_STATE_WHITESPACE "p\<lparr>current_pos := n - 1\<rparr>"] s Space False pos
        by (auto simp: fsm_frame_refl intro!: fsm_rep_SpaceI)
    qed
  next
    case (Tok st cur b w)
    then have s: "stack_rep p st (int b) w" "cur_node p = cur" "current_pos p = b + length w" "state p = CPARSER_STATE_TOKEN" "w \<noteq> []"
      using rep valid by (auto simp: fsm_rep_def)
    obtain q where q: "cparser_tok_erase p = Some (if length w = 1 then CPARSER_STATE_WHITESPACE else CPARSER_STATE_TOKEN, True, q)"
      "stack_rep q st (if length w = 1 then -1 else int b) (butlast w)" "cur_node q = cur_node p" "current_pos q = current_pos p - 1" "fsm_frame p q"
      using tok_erase_rep [OF s(1,5)] by blast
    have "length w = 1 \<Longrightarrow> butlast w = []" by (cases w) auto
    then show ?thesis
      using erase [of _ q] q s Tok by (cases "length w = 1") (auto intro!: fsm_rep_SpaceI fsm_rep_TokI simp: Suc_leI)
  next
    case (Err q n)
    then have s: "core p q" "state p = CPARSER_STATE_ERROR" "current_pos p = ppos q + n" "last_good p = int (ppos q) - 1" "0 < n"
      using rep valid good_ppos by (auto simp: fsm_rep_def)
    then show ?thesis
      using erase [of _ "p\<lparr>current_pos := ppos q + n - 1\<rparr>"] err_erase_rep [of p q n] valid Err good_ppos [of q n]
      by (cases q) (auto simp: fsm_frame_refl fsm_rep_def)
  qed
qed

section \<open>Reading and taking back\<close>

fun pword :: "parse \<Rightarrow> string" where
  "pword (Space st cur n) = []" | "pword (Tok st cur b w) = w" | "pword (Err q n) = pword q"

lemma pword_step: "(pword a \<noteq> [] \<Longrightarrow> nchildren (pcur a) \<noteq> []) \<Longrightarrow> pword (pstep u a c) \<noteq> [] \<Longrightarrow> nchildren (pcur (pstep u a c)) \<noteq> []"
  by (cases a) (auto simp: opens_def split: option.splits if_splits)

lemma pword_parse: "pword (parse_of u root s) \<noteq> [] \<Longrightarrow> nchildren (pcur (parse_of u root s)) \<noteq> []"
proof (induction s rule: rev_induct)
  case (snoc c s)
  show ?case using pword_step [of "parse_of u root s" u c] snoc by (simp add: parse_of_snoc)
qed simp

text \<open>A tree of commands that fits into the token stack.\<close>

definition root_ok :: "cparser_node \<Rightarrow> bool" where
  "root_ok root \<longleftrightarrow> tree_ok root \<and> ntype root \<noteq> CPARSER_NODE_END \<and> height root \<le> CPARSER_MAX_NUM_TOKENS"

lemma parse_children_ok:
  assumes "root_ok root"
  shows "\<forall>x\<in>set (nchildren (pcur (parse_of u root s))). child_ok x"
  using on_path_parse [of root u s] assms tree_child by (auto simp: root_ok_def on_path_def)

lemma parse_roomy:
  assumes "root_ok root" and "length s < CPARSER_MAX_TOKEN_SIZE"
  shows "roomy (parse_of u root s)"
proof (cases "parse_of u root s")
  case (Tok st cur b w)
  have "b + length w = length s" using ppos_parse [of u root s] Tok by simp
  moreover have v: "w \<noteq> []" using pvalid_parse [of u root s] Tok by simp
  then obtain x where x: "x \<in> set (nchildren cur)" using pword_parse [of u root s] Tok by (cases "nchildren cur") auto
  have path: "length st + height cur \<le> height root" "ntype cur \<noteq> CPARSER_NODE_END"
    using on_path_parse [of root u s] assms(1) Tok by (auto simp: root_ok_def on_path_def)
  have "Suc (length st) < CPARSER_MAX_NUM_TOKENS"
    using height_child [OF path(2) x] height_pos [of x] path(1) assms(1) by (simp add: root_ok_def)
  ultimately show ?thesis using Tok assms(2) by simp
qed simp_all

lemma fsm_read_text:
  assumes "fsm_rep p (parse_of (NODE_USABLE p) root s)" and "root_ok root" and "length s < CPARSER_MAX_TOKEN_SIZE"
    and "\<not> is_erase p c" and "fsm_quiet p"
  shows "\<exists>p'. cparser_fsm_input c p = Some p' \<and> fsm_rep p' (parse_of (NODE_USABLE p) root (s @ [c])) \<and> fsm_frame p p'"
  using fsm_read [OF assms(1) pvalid_parse parse_roomy [OF assms(2,3)] parse_children_ok [OF assms(2)] assms(4) _ assms(5)] assms(3)
  by (simp add: parse_of_snoc CPARSER_MAX_TOKEN_SIZE_def CPARSER_MAX_LINE_SIZE_def)

lemma fsm_erase_text:
  assumes "fsm_rep p (parse_of (NODE_USABLE p) root s)" and "s \<noteq> []" and "is_erase p c" and "fsm_quiet p"
  shows "\<exists>p'. cparser_fsm_input c p = Some p' \<and> fsm_rep p' (parse_of (NODE_USABLE p) root (butlast s)) \<and> fsm_frame p p'"
proof -
  obtain r x where s: "s = r @ [x]" using assms(2) by (cases s rule: rev_cases) auto
  then show ?thesis
    using fsm_erase [OF assms(1) pvalid_parse assms(3) _ assms(4)] by (simp add: punstep_parse)
qed

lemma fsm_reset_text:
  assumes "aget (roots p) (root_level p) = Some root"
  shows "\<exists>p'. cparser_fsm_reset p = Some p' \<and> fsm_rep p' (parse_of u root []) \<and> fsm_frame p p'"
proof -
  let ?q = "(cparser_token_stack_reset p)\<lparr>cur_node := root, state := CPARSER_STATE_WHITESPACE\<rparr>"
  have "cparser_fsm_reset p = Some ?q"
    using assms by (simp add: cparser_fsm_reset_def cparser_token_stack_reset_def)
  moreover have "fsm_rep ?q (parse_of u root [])"
    by (simp add: fsm_rep_def cparser_token_stack_reset_def stack_rep_def tok_rep_def empty_token_def CPARSER_MAX_NUM_TOKENS_def)
  moreover have "fsm_frame p ?q" by (simp add: cparser_token_stack_reset_def fsm_frame_refl)
  ultimately show ?thesis by blast
qed

text \<open>A sequence of inputs, and what it leaves of the text.\<close>

fun fsm_inputs :: "string \<Rightarrow> cparser \<Rightarrow> cparser option" where
  "fsm_inputs [] p = Some p"
| "fsm_inputs (c # cs) p = do { p \<leftarrow> cparser_fsm_input c p; fsm_inputs cs p }"

fun edited :: "(char \<Rightarrow> bool) \<Rightarrow> string \<Rightarrow> string \<Rightarrow> string" where
  "edited e s [] = s"
| "edited e s (c # cs) = edited e (if e c then butlast s else s @ [c]) cs"

text \<open>No character is taken back from an empty text, and the text is shorter than a token may be.\<close>

fun sensible :: "(char \<Rightarrow> bool) \<Rightarrow> string \<Rightarrow> string \<Rightarrow> bool" where
  "sensible e s [] \<longleftrightarrow> True"
| "sensible e s (c # cs) \<longleftrightarrow> (if e c then s \<noteq> [] else length s < CPARSER_MAX_TOKEN_SIZE) \<and> sensible e (if e c then butlast s else s @ [c]) cs"

lemma fsm_frame_props:
  "fsm_frame p p' \<Longrightarrow> NODE_USABLE p' = NODE_USABLE p \<and> is_erase p' = is_erase p \<and> fsm_quiet p' = fsm_quiet p"
  using fsm_frameD(1,5) [of p p'] NODE_USABLE_cong [of p' p] by (simp add: is_erase_def fsm_quiet_def fun_eq_iff)

lemma fsm_inputs_text:
  "fsm_rep p (parse_of (NODE_USABLE p) root s) \<Longrightarrow> root_ok root \<Longrightarrow> fsm_quiet p \<Longrightarrow> sensible (is_erase p) s cs \<Longrightarrow>
    \<exists>p'. fsm_inputs cs p = Some p' \<and> fsm_rep p' (parse_of (NODE_USABLE p) root (edited (is_erase p) s cs)) \<and> fsm_frame p p'"
proof (induction cs arbitrary: p s)
  case Nil
  then show ?case by (simp add: fsm_frame_refl)
next
  case (Cons c cs)
  let ?s = "if is_erase p c then butlast s else s @ [c]"
  obtain q where q: "cparser_fsm_input c p = Some q" "fsm_rep q (parse_of (NODE_USABLE p) root ?s)" "fsm_frame p q"
    using fsm_erase_text [OF Cons.prems(1), of c] fsm_read_text [OF Cons.prems(1,2), of c] Cons.prems(3,4) by (cases "is_erase p c") auto
  have e: "NODE_USABLE q = NODE_USABLE p" "is_erase q = is_erase p" "fsm_quiet q"
    using fsm_frame_props [OF q(3)] Cons.prems(3) by auto
  then obtain r where "fsm_inputs cs q = Some r" "fsm_rep r (parse_of (NODE_USABLE p) root (edited (is_erase p) ?s cs))" "fsm_frame q r"
    using Cons.IH [of q ?s] q(2) Cons.prems by auto
  then show ?case using q fsm_frame_trans [OF q(3)] by auto
qed

section \<open>Words\<close>

text \<open>
  The words of a text that are followed by a blank, and the word at its end. A sequence of words
  leads from a node to another one when each of them is accepted character by character and is
  then complete.
\<close>

fun split_step :: "string list \<times> string \<Rightarrow> char \<Rightarrow> string list \<times> string" where
  "split_step (ws, w) c = (if c = CHR '' '' then (if w = [] then (ws, []) else (ws @ [w], [])) else (ws, w @ [c]))"

definition split_text :: "string \<Rightarrow> string list \<times> string" where
  "split_text s = foldl split_step ([], []) s"

definition starts :: "(cparser_node \<Rightarrow> bool) \<Rightarrow> cparser_node \<Rightarrow> string \<Rightarrow> bool" where
  "starts u n w \<longleftrightarrow> (\<forall>k. 0 < k \<and> k \<le> length w \<longrightarrow> opens u n (take k w))"

fun path :: "(cparser_node \<Rightarrow> bool) \<Rightarrow> cparser_node \<Rightarrow> string list \<Rightarrow> cparser_node option" where
  "path u n [] = Some n"
| "path u n (w # ws) = (if starts u n w then (case closes u n w of Some m \<Rightarrow> path u m ws | None \<Rightarrow> None) else None)"

lemma starts_snoc: "starts u n (w @ [c]) \<longleftrightarrow> starts u n w \<and> opens u n (w @ [c])"
  unfolding starts_def by (auto simp: le_Suc_eq)

lemma starts_Nil [simp]: "starts u n []"
  by (simp add: starts_def)

lemma path_snoc: "path u n (ws @ [w]) = (case path u n ws of Some m \<Rightarrow> (if starts u m w then closes u m w else None) | None \<Rightarrow> None)"
  by (induction ws arbitrary: n) (auto split: option.splits)

lemma split_text_snoc: "split_text (s @ [c]) = split_step (split_text s) c"
  by (simp add: split_text_def)

text \<open>The state that the words describe.\<close>

definition described :: "(cparser_node \<Rightarrow> bool) \<Rightarrow> cparser_node \<Rightarrow> string list \<times> string \<Rightarrow> parse \<Rightarrow> bool" where
  "described u root x a = (case path u root (fst x) of
     Some n \<Rightarrow> (if starts u n (snd x) then map cword (pstack a) = fst x \<and> pcur a = n \<and> pword a = snd x \<and>
         pstate a = (if snd x = [] then CPARSER_STATE_WHITESPACE else CPARSER_STATE_TOKEN)
       else pstate a = CPARSER_STATE_ERROR)
   | None \<Rightarrow> pstate a = CPARSER_STATE_ERROR)"

lemma described_step:
  assumes "described u root (ws, w) a" and "pvalid a" and "length w < CPARSER_MAX_TOKEN_SIZE"
  shows "described u root (split_step (ws, w) c) (pstep u a c)"
proof (cases a)
  case (Space st cur n)
  then have "path u root ws = Some cur" "map cword st = ws" "w = []"
    using assms(1) by (auto simp: described_def split: option.splits if_splits)
  then show ?thesis
    using Space starts_snoc [of u cur "[]" c] by (auto simp: described_def)
next
  case (Tok st cur b v)
  then have "path u root ws = Some cur" "map cword st = ws" "w = v" "starts u cur v" "v \<noteq> []"
    using assms(1,2) by (auto simp: described_def split: option.splits if_splits)
  then show ?thesis
    using Tok assms(3) by (auto simp: described_def starts_snoc path_snoc split: option.splits)
next
  case (Err q k)
  then have "case path u root ws of Some n \<Rightarrow> \<not> starts u n w | None \<Rightarrow> True"
    using assms(1) by (auto simp: described_def split: option.splits if_splits)
  then show ?thesis
    using Err by (auto simp: described_def starts_snoc path_snoc split: option.splits)
qed

lemma split_text_length: "length (snd (split_text s)) \<le> length s"
proof (induction s rule: rev_induct)
  case (snoc c s)
  then show ?case by (cases "split_text s") (auto simp: split_text_snoc)
qed (simp add: split_text_def)

lemma parse_described: "length s \<le> CPARSER_MAX_TOKEN_SIZE \<Longrightarrow> described u root (split_text s) (parse_of u root s)"
proof (induction s rule: rev_induct)
  case Nil
  then show ?case by (simp add: described_def split_text_def)
next
  case (snoc c s)
  obtain ws w where x: "split_text s = (ws, w)" by fastforce
  then have "length w < CPARSER_MAX_TOKEN_SIZE" using split_text_length [of s] snoc.prems by simp
  then show ?case
    using described_step [of u root ws w "parse_of u root s" c] snoc x pvalid_parse by (simp add: split_text_snoc parse_of_snoc)
qed

lemma fsm_rep_fields:
  assumes "fsm_rep p a"
  shows "cur_node p = pcur a" "state p = pstate a" "token_tos p = length (pstack a)"
    "map tok_chars (take (token_tos p) (tokens p)) = map (Some \<circ> cword) (pstack a)"
proof -
  obtain b w where st: "stack_rep p (pstack a) b w" "cur_node p = pcur a"
  proof -
    have "core p a \<Longrightarrow> \<exists>b w. stack_rep p (pstack a) b w \<and> cur_node p = pcur a" by (induction a) auto
    then show thesis using that assms by (auto simp: fsm_rep_def)
  qed
  then show "cur_node p = pcur a" "state p = pstate a" "token_tos p = length (pstack a)"
    using assms by (auto simp: fsm_rep_def stack_rep_def)
  show "map tok_chars (take (token_tos p) (tokens p)) = map (Some \<circ> cword) (pstack a)"
    using st(1) tok_rep_chars by (intro nth_equalityI) (fastforce simp: stack_rep_def)+
qed

lemma edited_length: "sensible e s cs \<Longrightarrow> length s \<le> CPARSER_MAX_TOKEN_SIZE \<Longrightarrow> length (edited e s cs) \<le> CPARSER_MAX_TOKEN_SIZE"
  by (induction cs arbitrary: s) (auto split: if_splits)

text \<open>
  C35: whatever is typed and taken back, the state machine is in the state that the words of the
  remaining text describe. Started by a reset and fed with characters and erasures that never
  take back more than there is, with at most 256 characters at any time and a tree of at most 32
  levels, it neither fails an assertion nor leaves its arrays. If the complete words lead to a node
  and the last word can be continued there, the current node is this node, the token stack holds
  the complete words, and the state tells whether a word has been begun; otherwise the state is the
  error state.
\<close>

theorem fsm_state_is_words:
  assumes "aget (roots p) (root_level p) = Some root" and "root_ok root" and "fsm_quiet p"
    and "sensible (is_erase p) [] cs" and "split_text (edited (is_erase p) [] cs) = (ws, w)"
  shows "\<exists>q r. cparser_fsm_reset p = Some q \<and> fsm_inputs cs q = Some r \<and>
    (case path (NODE_USABLE p) root ws of
       Some n \<Rightarrow> (if starts (NODE_USABLE p) n w
         then cur_node r = n \<and> state r = (if w = [] then CPARSER_STATE_WHITESPACE else CPARSER_STATE_TOKEN) \<and>
           map tok_chars (take (token_tos r) (tokens r)) = map Some ws
         else state r = CPARSER_STATE_ERROR)
     | None \<Rightarrow> state r = CPARSER_STATE_ERROR)"
proof -
  let ?u = "NODE_USABLE p" and ?s = "edited (is_erase p) [] cs"
  obtain q where q: "cparser_fsm_reset p = Some q" "fsm_rep q (parse_of ?u root [])" "fsm_frame p q"
    using fsm_reset_text [OF assms(1)] by blast
  have e: "NODE_USABLE q = ?u" "is_erase q = is_erase p" "fsm_quiet q" using fsm_frame_props [OF q(3)] assms(3) by auto
  obtain r where r: "fsm_inputs cs q = Some r" "fsm_rep r (parse_of ?u root ?s)"
    using fsm_inputs_text [of q root "[]" cs] q(2) assms e by auto
  have "described ?u root (ws, w) (parse_of ?u root ?s)"
    using parse_described [of ?s ?u root] edited_length [OF assms(4)] assms(5) by simp
  then show ?thesis
    using q(1) r(1) fsm_rep_fields [OF r(2)] by (auto simp: described_def split: option.splits)
qed

lemma starts_code: "starts u n w = list_all (\<lambda>k. opens u n (take k w)) [1 ..< Suc (length w)]"
  by (auto simp: starts_def list_all_iff less_Suc_eq_le Suc_le_eq simp del: upt_Suc)

definition sample_root :: cparser_node where
  "sample_root = Node CPARSER_NODE_ROOT 0 No_param None
     [Node CPARSER_NODE_KEYWORD 0 (Str ''show'') None
       [Node CPARSER_NODE_UINT 0 (Str ''<UINT:n>'') None [Node CPARSER_NODE_END 0 (Glue 0) None []]]]"

definition sample_parser :: cparser where
  "sample_parser = \<lparr>cfg = \<lparr>cfg_root = sample_root, ch_complete = CHR 0x09, ch_erase = BS, ch_del = CHR 0x7F, ch_help = CHR ''?'',
       cfg_prompt = ''> '', cfg_fd = 1, debug_flag = False\<rparr>,
     root_level = 0, roots = replicate 4 sample_root, prompts = replicate 4 ''> '', cur_node = sample_root,
     state = CPARSER_STATE_WHITESPACE, token_tos = 0, current_pos = 0, last_good = -1, tokens = replicate 32 empty_token,
     is_privileged_mode = False, max_line = 0, cur_line = 0, lines = replicate 10 empty_line, finished = False,
     cookie = replicate 4 0, user_buf = None, user_buf_size = 0, user_buf_count = 0, user_do_echo = False,
     user_input_cb = None, last_line_idx = -1, last_rc = CPARSER_OK, last_end_node = None, out = []\<rparr>"

lemma sample_root_ok: "root_ok sample_root"
  by (simp add: root_ok_def sample_root_def child_ok_def CPARSER_MAX_NUM_TOKENS_def)

lemmas match_eval = opens_def a_match_def full_match_def closes_def cparser_match_keyword_def cparser_match_uint_def strncmp_eq_def
  isdigit_def cparser_match_end_def

theorem fsm_state_is_words_witness:
  "\<exists>q r. cparser_fsm_reset sample_parser = Some q \<and> fsm_inputs (''shoe'' @ [BS] @ ''w 12'') q = Some r \<and>
     state r = CPARSER_STATE_TOKEN \<and> map tok_chars (take (token_tos r) (tokens r)) = [Some ''show'']"
proof -
  let ?cs = "''shoe'' @ [BS] @ ''w 12''" and ?e = "is_erase sample_parser" and ?u = "NODE_USABLE sample_parser"
  have e: "?e c \<longleftrightarrow> c = BS \<or> c = CHR 0x7F" for c by (auto simp: is_erase_def sample_parser_def)
  have u: "?u (Node ty 0 pa de cs)" for ty pa de cs by (simp add: NODE_USABLE_def hidden_def)
  obtain n where n: "nchildren sample_root = [Node CPARSER_NODE_KEYWORD 0 (Str ''show'') None [n]]"
    "n = Node CPARSER_NODE_UINT 0 (Str ''<UINT:n>'') None [Node CPARSER_NODE_END 0 (Glue 0) None []]"
    by (simp add: sample_root_def)
  have s: "sensible ?e [] ?cs" "split_text (edited ?e [] ?cs) = ([''show''], ''12'')"
    by (simp_all add: e CPARSER_MAX_TOKEN_SIZE_def split_text_def)
  have p: "path ?u sample_root [''show''] = Some (Node CPARSER_NODE_KEYWORD 0 (Str ''show'') None [n])"
    by (simp add: starts_code match_eval n(1) u)
  have st: "starts ?u (Node CPARSER_NODE_KEYWORD 0 (Str ''show'') None [n]) ''12''"
    by (auto simp: starts_code match_eval n(2) u)
  have r: "aget (roots sample_parser) (root_level sample_parser) = Some sample_root" "fsm_quiet sample_parser"
    by (simp_all add: sample_parser_def aget_def fsm_quiet_def)
  show ?thesis
    using fsm_state_is_words [OF r(1) sample_root_ok r(2) s] p st by auto
qed

text \<open>
  The buffer of a token has no room for the end of a string behind 256 characters, and the function
  that closes a token writes it there.
\<close>

lemma full_token_overflow:
  assumes "stack_rep p st b w" and "length w = CPARSER_MAX_TOKEN_SIZE" and "closes (NODE_USABLE p) (cur_node p) w \<noteq> None"
    and "\<forall>c\<in>set (nchildren (cur_node p)). child_ok c"
  shows "cparser_tok_space p = None"
proof -
  have w: "w \<noteq> []" using assms(2) by (auto simp: CPARSER_MAX_TOKEN_SIZE_def)
  obtain k m bb where "node_match (NODE_USABLE p) w (cur_node p) = Some (k, m, bb)" "1 \<le> k \<and> bb" "m = closes (NODE_USABLE p) (cur_node p) w"
    using node_match_iff [OF assms(4) w, of "NODE_USABLE p"] assms(3) by metis
  moreover have "tok_chars (tokens p ! length st) = Some w" "CUR_TOKEN p = Some (tokens p ! length st)"
    using stack_rep_cur [OF assms(1)] tok_rep_chars by auto
  moreover have "aput (tbuf (tokens p ! length st)) (token_len (tokens p ! length st)) NUL = None"
    using stack_rep_cur [OF assms(1)] assms(2) by (simp add: tok_rep_def aput_def)
  ultimately show ?thesis
    using assms(3) by (auto simp: cparser_tok_space_def cparser_match_def)
qed

end
