(* ===== verification/Cli_Input.thy ===== *)
theory Cli_Input
  imports Cli_Fsm
begin

unbundle bit_operations_syntax

text \<open>
  The entry points of the command line parser (\<^verbatim>\<open>cparser.c\<close>): keys, completion, help, execution of
  commands, submodes and the input of users. A key may complete a keyword, which enters the rest of
  the keyword as if it were typed, so the function for keys calls itself; it is a partial function
  that is \<open>None\<close> also when this does not end.

  The functions behind the end nodes and the callbacks of the user input are generated or written
  by the users of the parser, and \<^verbatim>\<open>glob\<close> reads the file system: they are arguments.
\<close>

section \<open>Keys and printing\<close>

datatype cparser_char = CPARSER_CHAR_UNKNOWN | CPARSER_CHAR_REGULAR | CPARSER_CHAR_UP_ARROW | CPARSER_CHAR_DOWN_ARROW
  | CPARSER_CHAR_LEFT_ARROW | CPARSER_CHAR_RIGHT_ARROW | CPARSER_CHAR_FIRST | CPARSER_CHAR_LAST

record cli_env =
  glue_fn :: "nat \<Rightarrow> cparser \<Rightarrow> (cparser_result \<times> cparser) option"
  input_cb :: "nat \<Rightarrow> char list \<Rightarrow> nat \<Rightarrow> cparser \<Rightarrow> (cparser_result \<times> cparser) option"
  glob_fn :: "string \<Rightarrow> string list option"

definition cparser_help_print_node :: "cparser_node \<Rightarrow> bool \<Rightarrow> bool \<Rightarrow> cparser \<Rightarrow> cparser option" where
  "cparser_help_print_node node add_lf print_desc p =
     (if \<not> NODE_USABLE p node then Some p
      else let p = (if add_lf then printc LF p else p) in
        (case ntype node of
           CPARSER_NODE_ROOT \<Rightarrow> None
         | CPARSER_NODE_END \<Rightarrow> Some (prints ''<LF>'' p)
         | CPARSER_NODE_LIST \<Rightarrow> (case nparam node of
             Keywords (kw # kws) \<Rightarrow> Some (prints '' ]'' (prints (concat (map (\<lambda>w. '' | '' @ w) kws)) (prints kw (prints ''[ '' p))))
           | _ \<Rightarrow> None)
         | _ \<Rightarrow> (case nparam node of
             Str s \<Rightarrow> (case (print_desc, ndesc node) of
                 (True, Some d) \<Rightarrow> Some (prints d (prints '' - '' (prints s p)))
               | _ \<Rightarrow> Some (prints s p))
           | _ \<Rightarrow> None)))"

definition cparser_print_error :: "string \<Rightarrow> cparser \<Rightarrow> cparser option" where
  "cparser_print_error msg p = do {
     s \<leftarrow> aget (prompts p) (root_level p);
     let m = int (length s) + 1;
     Some (prints msg (printc (CHR ''^'') (prints (replicate (nat (m + last_good p)) (CHR '' '')) (printc LF p)))) }"

definition cparser_input_reset :: "cparser \<Rightarrow> cparser" where
  "cparser_input_reset p = p\<lparr>user_buf := None, user_buf_size := 0, user_buf_count := 0, user_input_cb := None\<rparr>"

text \<open>Whether user input is read, and whether it is echoed.\<close>

definition cparser_is_user_input :: "cparser \<Rightarrow> (bool \<times> bool) option" where
  "cparser_is_user_input p =
     (if user_buf p \<noteq> None then do {
        c_assert (user_input_cb p \<noteq> None \<and> user_buf_size p \<noteq> 0);
        Some (True, user_do_echo p) }
      else do {
        c_assert (user_input_cb p = None \<and> user_buf_size p = 0);
        Some (False, False) })"

definition cparser_record_command :: "cparser_result \<Rightarrow> cparser \<Rightarrow> cparser" where
  "cparser_record_command rc p = p\<lparr>last_line_idx := int (cur_line p), last_rc := rc, last_end_node := Some (cur_node p)\<rparr>"

section \<open>Help\<close>

fun help_nodes :: "cparser_node list \<Rightarrow> cparser \<Rightarrow> cparser option" where
  "help_nodes [] p = Some p"
| "help_nodes (n # ns) p = do { p \<leftarrow> cparser_help_print_node n True True p; help_nodes ns p }"

fun help_matches :: "string \<Rightarrow> cparser_node list \<Rightarrow> cparser \<Rightarrow> cparser option" where
  "help_matches tok [] p = Some p"
| "help_matches tok (n # ns) p =
     (if \<not> NODE_USABLE p n then help_matches tok ns p
      else do {
        (rc, b) \<leftarrow> cparser_match_fn_tbl (ntype n) tok n;
        p \<leftarrow> (if rc = CPARSER_OK then cparser_help_print_node n True True p else Some p);
        help_matches tok ns p })"

definition cparser_help :: "cparser \<Rightarrow> cparser option" where
  "cparser_help p = do {
     p \<leftarrow> (case state p of
         CPARSER_STATE_WHITESPACE \<Rightarrow> help_nodes (nchildren (cur_node p)) p
       | CPARSER_STATE_ERROR \<Rightarrow> do {
           p \<leftarrow> cparser_print_error ''Last known good parse point.'' p;
           help_nodes (nchildren (cur_node p)) p }
       | CPARSER_STATE_TOKEN \<Rightarrow> do {
           t \<leftarrow> CUR_TOKEN p;
           s \<leftarrow> tok_chars t;
           help_matches s (nchildren (cur_node p)) p });
     cparser_line_print True True p }"

section \<open>Completion\<close>

text \<open>The character at a position of a string, whose end is \<open>NUL\<close>.\<close>

definition str_at :: "string \<Rightarrow> nat \<Rightarrow> char option" where
  "str_at s n = (if n < length s then Some (s ! n) else if n = length s then Some NUL else None)"

fun match_prefix_loop :: "cparser \<Rightarrow> string \<Rightarrow> cparser_node list \<Rightarrow> char \<Rightarrow> nat \<Rightarrow> cparser_result option" where
  "match_prefix_loop p tok [] ch offset = Some CPARSER_OK"
| "match_prefix_loop p tok (child # cs) ch offset =
     (if \<not> NODE_USABLE p child then match_prefix_loop p tok cs ch offset
      else do {
        (rc, b) \<leftarrow> cparser_match_fn_tbl (ntype child) tok child;
        if rc = CPARSER_NOT_OK then match_prefix_loop p tok cs ch offset
        else if ntype child \<noteq> CPARSER_NODE_KEYWORD then Some CPARSER_NOT_OK
        else (case nparam child of
            Str kw \<Rightarrow> do {
              c \<leftarrow> str_at kw offset;
              if c \<noteq> ch then Some CPARSER_NOT_OK else match_prefix_loop p tok cs ch offset }
          | _ \<Rightarrow> None) })"

definition cparser_match_prefix :: "cparser \<Rightarrow> string \<Rightarrow> cparser_node \<Rightarrow> char \<Rightarrow> nat \<Rightarrow> cparser_result option" where
  "cparser_match_prefix p tok parent ch offset = do {
     c_assert (ch \<noteq> NUL);
     match_prefix_loop p tok (nchildren parent) ch offset }"

text \<open>The function for keys, as the completion calls it.\<close>

type_synonym keys = "char \<Rightarrow> cparser \<Rightarrow> (cparser_result \<times> cparser) option"

fun feed :: "keys \<Rightarrow> string \<Rightarrow> cparser \<Rightarrow> cparser option" where
  "feed inp [] p = Some p"
| "feed inp (c # cs) p = do { (rc, p) \<leftarrow> inp c p; c_assert (rc = CPARSER_OK); feed inp cs p }"

definition cparser_complete_keyword :: "keys \<Rightarrow> cparser_node \<Rightarrow> nat \<Rightarrow> cparser \<Rightarrow> cparser option" where
  "cparser_complete_keyword inp node len p = (case nparam node of
     Str kw \<Rightarrow> do { c_assert (len \<le> length kw); feed inp (drop len kw) p }
   | _ \<Rightarrow> None)"

definition cparser_complete_file :: "(string \<Rightarrow> string list option) \<Rightarrow> keys \<Rightarrow> char list \<Rightarrow> nat \<Rightarrow> cparser \<Rightarrow> cparser option" where
  "cparser_complete_file glob inp b len p = do {
     c_assert (len \<noteq> 0);
     s \<leftarrow> cstr b 0;
     (case glob s of Some [file] \<Rightarrow> feed inp (drop len file) p | _ \<Rightarrow> Some p) }"

definition cparser_complete_list :: "keys \<Rightarrow> cparser_node \<Rightarrow> string \<Rightarrow> cparser \<Rightarrow> cparser option" where
  "cparser_complete_list inp node tok p = do {
     c_assert (tok \<noteq> []);
     (case nparam node of
        Keywords kws \<Rightarrow> (case list_matches tok None kws of
            Some (kw, len) \<Rightarrow> feed inp (take (len - length tok) (drop (length tok) kw)) p
          | None \<Rightarrow> Some p)
      | _ \<Rightarrow> None) }"

definition cparser_complete_fn :: "(string \<Rightarrow> string list option) \<Rightarrow> keys \<Rightarrow> cparser_node \<Rightarrow> cparser_token \<Rightarrow> cparser \<Rightarrow> cparser option" where
  "cparser_complete_fn glob inp node t p = do {
     s \<leftarrow> tok_chars t;
     if ntype node = CPARSER_NODE_KEYWORD then cparser_complete_keyword inp node (token_len t) p
     else if ntype node = CPARSER_NODE_FILE then cparser_complete_file glob inp (tbuf t) (token_len t) p
     else if ntype node = CPARSER_NODE_LIST then cparser_complete_list inp node s p
     else Some p }"

text \<open>The loop that enters what all matching keywords have in common; \<open>i\<close> is the index of the token.\<close>

fun complete_common :: "keys \<Rightarrow> nat \<Rightarrow> string \<Rightarrow> nat \<Rightarrow> cparser \<Rightarrow> (nat \<times> cparser) option" where
  "complete_common inp i [] offset p = Some (offset, p)"
| "complete_common inp i (c # cs) offset p = do {
     t \<leftarrow> aget (tokens p) i;
     s \<leftarrow> tok_chars t;
     rc \<leftarrow> cparser_match_prefix p s (cur_node p) c offset;
     if rc = CPARSER_OK then do { p \<leftarrow> feed inp [c] p; complete_common inp i cs (offset + 1) p }
     else Some (offset, p) }"

definition complete_whitespace :: "keys \<Rightarrow> cparser \<Rightarrow> (bool \<times> cparser) option" where
  "complete_whitespace inp p = (case nchildren (cur_node p) of
     [n] \<Rightarrow> (if ntype n = CPARSER_NODE_KEYWORD then (case nparam n of
             Str kw \<Rightarrow> do { p \<leftarrow> feed inp kw p; p \<leftarrow> feed inp '' '' p; Some (False, p) }
           | _ \<Rightarrow> None)
         else do { p \<leftarrow> cparser_help p; Some (False, p) })
   | _ \<Rightarrow> do { p \<leftarrow> cparser_help p; Some (False, p) })"

definition complete_token :: "(string \<Rightarrow> string list option) \<Rightarrow> keys \<Rightarrow> cparser \<Rightarrow> (bool \<times> cparser) option" where
  "complete_token glob inp p = do {
     t \<leftarrow> CUR_TOKEN p;
     s \<leftarrow> tok_chars t;
     (num, m, is_complete) \<leftarrow> cparser_match p s (cur_node p);
     n \<leftarrow> m;
     if num = 1 \<and> is_complete then do {
       p \<leftarrow> cparser_complete_fn glob inp n t p;
       p \<leftarrow> feed inp '' '' p;
       Some (True, p) }
     else (case nparam n of
       Str kw \<Rightarrow> do {
         c_assert (token_len t \<le> length kw);
         (offset, p) \<leftarrow> complete_common inp (token_tos p) (drop (token_len t) kw) (token_len t) p;
         p \<leftarrow> (if offset = token_len t then cparser_help p else Some p);
         Some (False, p) }
     | _ \<Rightarrow> None) }"

definition cparser_complete_one_level :: "(string \<Rightarrow> string list option) \<Rightarrow> keys \<Rightarrow> cparser \<Rightarrow> (bool \<times> cparser) option" where
  "cparser_complete_one_level glob inp p =
     (if state p = CPARSER_STATE_ERROR then Some (False, printc BEL p)
      else if state p = CPARSER_STATE_WHITESPACE then complete_whitespace inp p
      else complete_token glob inp p)"

section \<open>Execution\<close>

text \<open>The error that ends a command which is not complete.\<close>

definition incomplete_command :: "cparser \<Rightarrow> (cparser_result \<times> cparser) option" where
  "incomplete_command p = do {
     p \<leftarrow> cparser_print_error (''Incomplete command'' @ [LF]) p;
     p \<leftarrow> cparser_fsm_reset (cparser_record_command CPARSER_ERR_INCOMP_CMD p);
     p \<leftarrow> cparser_print_prompt p;
     Some (CPARSER_ERR_INCOMP_CMD, p) }"

text \<open>The end of the function when a command was executed or could not be parsed.\<close>

definition finish_command :: "cparser_result \<Rightarrow> cparser \<Rightarrow> (cparser_result \<times> cparser) option" where
  "finish_command rc p = do {
     p \<leftarrow> cparser_fsm_reset (cparser_record_command rc p);
     (b, do_echo) \<leftarrow> cparser_is_user_input p;
     p \<leftarrow> (if \<not> b then cparser_print_prompt p else Some p);
     Some (rc, p) }"

text \<open>In the state of a token: the token is completed, and a blank is entered.\<close>

definition execute_token :: "(string \<Rightarrow> string list option) \<Rightarrow> keys \<Rightarrow> cparser \<Rightarrow> (bool \<times> cparser) option" where
  "execute_token glob inp p = do {
     t \<leftarrow> CUR_TOKEN p;
     s \<leftarrow> tok_chars t;
     (num, m, is_complete) \<leftarrow> cparser_match p s (cur_node p);
     if 1 \<le> num \<and> is_complete then do {
       n \<leftarrow> m;
       p \<leftarrow> cparser_complete_fn glob inp n t p;
       p \<leftarrow> feed inp '' '' p;
       Some (True, p) }
     else Some (False, p) }"

text \<open>One turn of the loop over single keywords; the result says whether there was one.\<close>

definition execute_keyword :: "keys \<Rightarrow> cparser \<Rightarrow> (bool \<times> cparser) option" where
  "execute_keyword inp p = (case nchildren (cur_node p) of
     [] \<Rightarrow> None
   | child # cs \<Rightarrow>
       (if ntype child = CPARSER_NODE_KEYWORD \<and> NODE_USABLE p child \<and> cs = [] then do {
          t \<leftarrow> CUR_TOKEN p;
          p \<leftarrow> cparser_complete_keyword inp child (token_len t) p;
          p \<leftarrow> feed inp '' '' p;
          Some (True, p) }
        else Some (False, p)))"

definition execute_end :: "cli_env \<Rightarrow> cparser \<Rightarrow> (cparser_result \<times> cparser) option" where
  "execute_end env p = (case find (\<lambda>n. ntype n = CPARSER_NODE_END \<and> NODE_USABLE p n) (nchildren (cur_node p)) of
     Some n \<Rightarrow> (case nparam n of
         Glue g \<Rightarrow> do {
           (rc, p) \<leftarrow> glue_fn env g (printc LF (p\<lparr>cur_node := n\<rparr>));
           finish_command rc p }
       | _ \<Rightarrow> None)
   | None \<Rightarrow>
       (if token_tos p \<noteq> 0 then incomplete_command p
        else do {
          p \<leftarrow> cparser_fsm_reset (cparser_record_command CPARSER_OK p);
          p \<leftarrow> cparser_print_prompt (printc LF p);
          Some (CPARSER_OK, p) }))"

text \<open>The argument \<open>keywords\<close> is the loop over single keywords.\<close>

definition cparser_execute_cmd :: "cli_env \<Rightarrow> keys \<Rightarrow> (cparser \<Rightarrow> (cparser_result \<times> cparser) option) \<Rightarrow> cparser \<Rightarrow> (cparser_result \<times> cparser) option" where
  "cparser_execute_cmd env inp keywords p =
     (if state p = CPARSER_STATE_ERROR then do {
        p \<leftarrow> cparser_print_error (''Parse error'' @ [LF]) p;
        finish_command CPARSER_ERR_PARSE_ERR p }
      else do {
        (ok, p) \<leftarrow> (if state p = CPARSER_STATE_TOKEN then execute_token (glob_fn env) inp p else Some (True, p));
        if \<not> ok then incomplete_command p
        else do {
          (rc, p) \<leftarrow> keywords p;
          execute_end env p } })"

section \<open>Keys\<close>

text \<open>Input for the user of the parser, which goes into their buffer.\<close>

definition user_key :: "cli_env \<Rightarrow> char \<Rightarrow> cparser_char \<Rightarrow> cparser \<Rightarrow> (cparser_result \<times> cparser) option" where
  "user_key env ch ch_type p =
     (if ch_type \<noteq> CPARSER_CHAR_REGULAR then Some (CPARSER_OK, p)
      else do {
        b \<leftarrow> user_buf p;
        if ch = LF then do {
          cb \<leftarrow> user_input_cb p;
          b \<leftarrow> aput b (user_buf_count p) NUL;
          (rc, p) \<leftarrow> input_cb env cb b (user_buf_count p) (p\<lparr>user_buf := Some b\<rparr>);
          p \<leftarrow> cparser_print_prompt (cparser_input_reset p);
          Some (rc, p) }
        else if is_erase p ch then
          let p = p\<lparr>user_buf_count := user_buf_count p - 1\<rparr> in
          Some (CPARSER_OK, if user_do_echo p then printc BS p else p)
        else if user_buf_count p + 1 < user_buf_size p then do {
          b \<leftarrow> aput b (user_buf_count p) ch;
          let p = p\<lparr>user_buf := Some b, user_buf_count := user_buf_count p + 1\<rparr>;
          Some (CPARSER_OK, if user_do_echo p then printc ch p else p) }
        else Some (CPARSER_OK, p) })"

text \<open>The characters of a line from a position on are fed into the state machine.\<close>

fun fsm_line :: "nat list \<Rightarrow> cparser \<Rightarrow> cparser option" where
  "fsm_line [] p = Some p"
| "fsm_line (n # ns) p = do { c \<leftarrow> cparser_line_char p n; p \<leftarrow> cparser_fsm_input c p; fsm_line ns p }"

text \<open>After a change of the line the state machine reads it again.\<close>

definition reread_line :: "cparser \<Rightarrow> (cparser_result \<times> cparser) option" where
  "reread_line p = do {
     p \<leftarrow> cparser_fsm_reset p;
     k \<leftarrow> cparser_line_current p;
     p \<leftarrow> fsm_line [0 ..< k] p;
     Some (CPARSER_OK, p) }"

partial_function (option) go_first :: "cparser \<Rightarrow> cparser option" where
  "go_first p = do {
     (ch, p) \<leftarrow> cparser_line_prev_char p;
     if ch \<noteq> NUL then do { p \<leftarrow> cparser_fsm_input ch p; go_first p } else Some p }"

partial_function (option) go_last :: "cparser \<Rightarrow> cparser option" where
  "go_last p = do {
     (ch, p) \<leftarrow> cparser_line_next_char p;
     if ch \<noteq> NUL then do { p \<leftarrow> cparser_fsm_input ch p; go_last p } else Some p }"

text \<open>
  The first half of the function for keys, which changes the line: either the key is done, or a
  character remains for the second half.
\<close>

datatype edit_result = Done cparser_result cparser | Remains char cparser

definition edit_regular :: "char \<Rightarrow> cparser \<Rightarrow> edit_result option" where
  "edit_regular ch p =
     (if ch_complete (cfg p) = ch \<or> ch_help (cfg p) = ch then Some (Remains ch p)
      else if is_erase p ch then do {
        (rc, p) \<leftarrow> cparser_line_delete p;
        c_assert (rc \<noteq> CPARSER_ERR_INVALID_PARAMS);
        Some (if rc = CPARSER_ERR_NOT_EXIST then Done CPARSER_OK p else Remains ch p) }
      else if ch = LF then do {
        j \<leftarrow> cparser_line_current p;
        k \<leftarrow> cparser_line_last p;
        p \<leftarrow> fsm_line [j ..< k] p;
        Some (Remains ch p) }
      else do {
        (rc, p) \<leftarrow> cparser_line_insert ch p;
        Some (Remains ch p) })"

definition edit_key :: "char \<Rightarrow> cparser_char \<Rightarrow> cparser \<Rightarrow> edit_result option" where
  "edit_key ch ch_type p = (case ch_type of
     CPARSER_CHAR_REGULAR \<Rightarrow> edit_regular ch p
   | CPARSER_CHAR_UP_ARROW \<Rightarrow> do {
       (rc, p) \<leftarrow> cparser_line_prev_line p;
       (rc, p) \<leftarrow> reread_line p;
       Some (Done rc p) }
   | CPARSER_CHAR_DOWN_ARROW \<Rightarrow> do {
       (rc, p) \<leftarrow> cparser_line_next_line p;
       (rc, p) \<leftarrow> reread_line p;
       Some (Done rc p) }
   | CPARSER_CHAR_LEFT_ARROW \<Rightarrow> do {
       (c, p) \<leftarrow> cparser_line_prev_char p;
       Some (if c = NUL then Done CPARSER_OK (printc BEL p) else Remains c p) }
   | CPARSER_CHAR_RIGHT_ARROW \<Rightarrow> do {
       (c, p) \<leftarrow> cparser_line_next_char p;
       Some (if c = NUL then Done CPARSER_OK (printc BEL p) else Remains c p) }
   | CPARSER_CHAR_FIRST \<Rightarrow> do { p \<leftarrow> go_first p; Some (Done CPARSER_OK p) }
   | CPARSER_CHAR_LAST \<Rightarrow> do { p \<leftarrow> go_last p; Some (Done CPARSER_OK p) }
   | CPARSER_CHAR_UNKNOWN \<Rightarrow> Some (Done CPARSER_NOT_OK (printc BEL p)))"

text \<open>
  The functions that call each other: a key, the loop of the completion, and the loop over single
  keywords of the execution.
\<close>

datatype call = Key char cparser_char | Completing | Keywording

type_synonym calls = "call \<Rightarrow> cparser \<Rightarrow> (cparser_result \<times> cparser) option"

definition run_key :: "cli_env \<Rightarrow> calls \<Rightarrow> char \<Rightarrow> cparser \<Rightarrow> (cparser_result \<times> cparser) option" where
  "run_key env f ch p =
     (if ch = ch_complete (cfg p) then f Completing p
      else if ch = ch_help (cfg p) then do { p \<leftarrow> cparser_help p; Some (CPARSER_OK, p) }
      else if ch = LF then do {
        (rc, p) \<leftarrow> cparser_execute_cmd env (\<lambda>c. f (Key c CPARSER_CHAR_REGULAR)) (f Keywording) p;
        (_, p) \<leftarrow> cparser_line_advance p;
        Some (rc, p) }
      else do { p \<leftarrow> cparser_fsm_input ch p; Some (CPARSER_OK, p) })"

definition input_body :: "cli_env \<Rightarrow> calls \<Rightarrow> char \<Rightarrow> cparser_char \<Rightarrow> cparser \<Rightarrow> (cparser_result \<times> cparser) option" where
  "input_body env f ch ch_type p = do {
     (b, do_echo) \<leftarrow> cparser_is_user_input p;
     if b then user_key env ch ch_type p
     else do {
       e \<leftarrow> edit_key ch ch_type p;
       (case e of Done rc p \<Rightarrow> Some (rc, p) | Remains ch p \<Rightarrow> run_key env f ch p) } }"

definition call_body :: "cli_env \<Rightarrow> calls \<Rightarrow> call \<Rightarrow> cparser \<Rightarrow> (cparser_result \<times> cparser) option" where
  "call_body env f c p = (case c of
     Key ch ch_type \<Rightarrow> input_body env f ch ch_type p
   | Completing \<Rightarrow> do {
       (keep_going, p) \<leftarrow> cparser_complete_one_level (glob_fn env) (\<lambda>c. f (Key c CPARSER_CHAR_REGULAR)) p;
       if keep_going then f Completing p else Some (CPARSER_OK, p) }
   | Keywording \<Rightarrow> do {
       (again, p) \<leftarrow> execute_keyword (\<lambda>c. f (Key c CPARSER_CHAR_REGULAR)) p;
       if again then f Keywording p else Some (CPARSER_OK, p) })"

subsection \<open>The recursion is monotone\<close>

text \<open>
  Each function of the completion and of the execution is monotone in the functions it calls, which
  is what the definition of the recursive function needs.
\<close>

lemma mono_cases [partial_function_mono]:
  "(\<And>a b. mono_option (\<lambda>f. F f a b)) \<Longrightarrow> mono_option (\<lambda>f. case x of (a, b) \<Rightarrow> F f a b)"
  "mono_option (\<lambda>f. N f) \<Longrightarrow> (\<And>a. mono_option (\<lambda>f. S f a)) \<Longrightarrow> mono_option (\<lambda>f. case y of None \<Rightarrow> N f | Some a \<Rightarrow> S f a)"
  "mono_option (\<lambda>f. N f) \<Longrightarrow> (\<And>a as. mono_option (\<lambda>f. L f a as)) \<Longrightarrow> mono_option (\<lambda>f. case z of [] \<Rightarrow> N f | a # as \<Rightarrow> L f a as)"
  "(\<And>s. mono_option (\<lambda>f. A f s)) \<Longrightarrow> (\<And>k. mono_option (\<lambda>f. B f k)) \<Longrightarrow> (\<And>g. mono_option (\<lambda>f. C f g)) \<Longrightarrow> mono_option (\<lambda>f. D f) \<Longrightarrow>
    mono_option (\<lambda>f. case v of Str s \<Rightarrow> A f s | Keywords k \<Rightarrow> B f k | Glue g \<Rightarrow> C f g | No_param \<Rightarrow> D f)"
  "(\<And>r p. mono_option (\<lambda>f. E f r p)) \<Longrightarrow> (\<And>c p. mono_option (\<lambda>f. G f c p)) \<Longrightarrow>
    mono_option (\<lambda>f. case e of Done r p \<Rightarrow> E f r p | Remains c p \<Rightarrow> G f c p)"
  subgoal by (cases x) simp
  subgoal by (cases y) simp_all
  subgoal by (cases z) simp_all
  subgoal by (cases v) simp_all
  subgoal by (cases e) simp_all
  done

lemma feed_mono [partial_function_mono]:
  "(\<And>c p. mono_option (\<lambda>f. inp f c p)) \<Longrightarrow> mono_option (\<lambda>f. feed (inp f) cs p)"
  by (induction cs arbitrary: p) (auto intro!: partial_function_mono)

lemma complete_fn_mono [partial_function_mono]:
  assumes "\<And>c p. mono_option (\<lambda>f. inp f c p)"
  shows "mono_option (\<lambda>f. cparser_complete_fn glob (inp f) node t p)"
    and "mono_option (\<lambda>f. cparser_complete_keyword (inp f) node len p)"
  unfolding cparser_complete_fn_def cparser_complete_keyword_def cparser_complete_file_def cparser_complete_list_def
  by (intro partial_function_mono assms)+

lemma complete_common_mono [partial_function_mono]:
  assumes "\<And>c p. mono_option (\<lambda>f. inp f c p)"
  shows "mono_option (\<lambda>f. complete_common (inp f) i cs offset p)"
proof (induction cs arbitrary: offset p)
  case (Cons c cs)
  show ?case unfolding complete_common.simps by (intro partial_function_mono assms Cons)
qed (simp add: option.const_mono)

lemma complete_one_level_mono [partial_function_mono]:
  assumes "\<And>c p. mono_option (\<lambda>f. inp f c p)"
  shows "mono_option (\<lambda>f. cparser_complete_one_level glob (inp f) p)"
  unfolding cparser_complete_one_level_def complete_whitespace_def complete_token_def
  by (intro partial_function_mono assms)

lemma execute_mono [partial_function_mono]:
  assumes "\<And>c p. mono_option (\<lambda>f. inp f c p)" and "\<And>p. mono_option (\<lambda>f. kw f p)"
  shows "mono_option (\<lambda>f. cparser_execute_cmd env (inp f) (kw f) p)"
  unfolding cparser_execute_cmd_def execute_token_def
  by (intro partial_function_mono assms)

lemma execute_keyword_mono [partial_function_mono]:
  assumes "\<And>c p. mono_option (\<lambda>f. inp f c p)"
  shows "mono_option (\<lambda>f. execute_keyword (inp f) p)"
  unfolding execute_keyword_def
  by (intro partial_function_mono assms)

lemma call_body_mono [partial_function_mono]:
  assumes "\<And>c p. mono_option (\<lambda>f. F f c p)"
  shows "mono_option (\<lambda>f. call_body env (F f) c p)"
  unfolding call_body_def input_body_def run_key_def
  by (cases c; simp; intro partial_function_mono assms)

partial_function (option) cparser_call :: "cli_env \<Rightarrow> call \<Rightarrow> cparser \<Rightarrow> (cparser_result \<times> cparser) option" where
  "cparser_call env c p = call_body env (cparser_call env) c p"

definition cparser_input :: "cli_env \<Rightarrow> char \<Rightarrow> cparser_char \<Rightarrow> cparser \<Rightarrow> (cparser_result \<times> cparser) option" where
  "cparser_input env ch ch_type p = cparser_call env (Key ch ch_type) p"

section \<open>The other entry points\<close>

text \<open>The keys that arrive until the parser is done or no more come.\<close>

fun cparser_run_loop :: "cli_env \<Rightarrow> (char \<times> cparser_char) list \<Rightarrow> cparser \<Rightarrow> cparser option" where
  "cparser_run_loop env [] p = Some p"
| "cparser_run_loop env ((ch, ty) # ks) p =
     (if finished p then Some p else do { (rc, p) \<leftarrow> cparser_input env ch ty p; cparser_run_loop env ks p })"

definition cparser_run :: "cli_env \<Rightarrow> (char \<times> cparser_char) list \<Rightarrow> cparser \<Rightarrow> (cparser_result \<times> cparser) option" where
  "cparser_run env ks p = do {
     p \<leftarrow> cparser_print_prompt p;
     p \<leftarrow> cparser_run_loop env ks (p\<lparr>finished := False\<rparr>);
     Some (CPARSER_OK, p) }"

text \<open>The string that \<^verbatim>\<open>snprintf\<close> leaves in the array of a prompt.\<close>

definition prompt_text :: "string \<Rightarrow> string" where
  "prompt_text s = take (CPARSER_MAX_PROMPT - 1) s"

definition cparser_init :: "cparser_cfg \<Rightarrow> cparser \<Rightarrow> (cparser_result \<times> cparser) option" where
  "cparser_init c p =
     (if ch_erase c = NUL then Some (CPARSER_ERR_INVALID_PARAMS, p)
      else do {
        let p = p\<lparr>cfg := c\<lparr>cfg_prompt := prompt_text (cfg_prompt c)\<rparr>, root_level := 0\<rparr>;
        rs \<leftarrow> aput (roots p) 0 (cfg_root c);
        ps \<leftarrow> aput (prompts p) 0 (prompt_text (cfg_prompt (cfg p)));
        p \<leftarrow> cparser_fsm_reset (p\<lparr>roots := rs, prompts := ps, cookie := replicate CPARSER_MAX_NESTED_LEVELS 0,
          max_line := 0, cur_line := 0, lines := replicate CPARSER_MAX_LINES empty_line\<rparr>);
        Some (CPARSER_OK, cparser_input_reset (p\<lparr>is_privileged_mode := False\<rparr>)) })"

definition cparser_quit :: "cparser \<Rightarrow> cparser_result \<times> cparser" where
  "cparser_quit p = (CPARSER_OK, p\<lparr>finished := True\<rparr>)"

definition cparser_submode_enter :: "nat \<Rightarrow> string \<Rightarrow> cparser \<Rightarrow> (cparser_result \<times> cparser) option" where
  "cparser_submode_enter ck prompt p =
     (if root_level p = CPARSER_MAX_NESTED_LEVELS - 1 then Some (CPARSER_NOT_OK, p)
      else do {
        let l = root_level p + 1;
        c_assert (nchildren (cur_node p) \<noteq> []);
        let new_root = hd (nchildren (cur_node p));
        c_assert (ntype new_root = CPARSER_NODE_ROOT);
        rs \<leftarrow> aput (roots p) l new_root;
        ps \<leftarrow> aput (prompts p) l (prompt_text prompt);
        cs \<leftarrow> aput (cookie p) l ck;
        Some (CPARSER_OK, p\<lparr>root_level := l, roots := rs, prompts := ps, cookie := cs\<rparr>) })"

definition cparser_submode_exit :: "cparser \<Rightarrow> cparser_result \<times> cparser" where
  "cparser_submode_exit p = (if root_level p = 0 then (CPARSER_NOT_OK, p) else (CPARSER_OK, p\<lparr>root_level := root_level p - 1\<rparr>))"

definition cparser_set_root_context :: "nat \<Rightarrow> cparser \<Rightarrow> (cparser_result \<times> cparser) option" where
  "cparser_set_root_context ck p = do { cs \<leftarrow> aput (cookie p) 0 ck; Some (CPARSER_OK, p\<lparr>cookie := cs\<rparr>) }"

definition cparser_get_root_context :: "cparser \<Rightarrow> (cparser_result \<times> nat) option" where
  "cparser_get_root_context p = do { ck \<leftarrow> aget (cookie p) 0; Some (CPARSER_OK, ck) }"

definition cparser_set_privileged_mode :: "bool \<Rightarrow> cparser \<Rightarrow> cparser_result \<times> cparser" where
  "cparser_set_privileged_mode enable p = (CPARSER_OK, p\<lparr>is_privileged_mode := enable\<rparr>)"

definition cparser_user_input :: "string option \<Rightarrow> bool \<Rightarrow> char list \<Rightarrow> nat \<Rightarrow> nat option \<Rightarrow> cparser \<Rightarrow> (cparser_result \<times> cparser) option" where
  "cparser_user_input prompt do_echo buf buf_size cb p =
     (if buf_size = 0 then Some (CPARSER_ERR_INVALID_PARAMS, p)
      else do {
        (b, _) \<leftarrow> cparser_is_user_input p;
        if b then Some (CPARSER_NOT_OK, p)
        else do {
          let p = (case prompt of Some s \<Rightarrow> prints s p | None \<Rightarrow> p);
          let p = p\<lparr>user_buf := Some buf, user_buf_size := buf_size, user_input_cb := cb, user_do_echo := do_echo\<rparr>;
          c_assert (user_buf_count p = 0);
          Some (CPARSER_OK, p) } })"

definition cparser_abort_user_input :: "cli_env \<Rightarrow> cparser \<Rightarrow> (cparser_result \<times> cparser) option" where
  "cparser_abort_user_input env p = do {
     (b, _) \<leftarrow> cparser_is_user_input p;
     if \<not> b then Some (CPARSER_ERR_NOT_EXIST, p)
     else do {
       buf \<leftarrow> user_buf p;
       cb \<leftarrow> user_input_cb p;
       buf \<leftarrow> aput buf 0 NUL;
       (_, p) \<leftarrow> input_cb env cb buf 0 (p\<lparr>user_buf := Some buf\<rparr>);
       p \<leftarrow> cparser_print_prompt (cparser_input_reset p);
       Some (CPARSER_OK, p) } }"

text \<open>The line, the result code and whether the command was hidden.\<close>

definition cparser_last_command :: "cparser \<Rightarrow> (char list option \<times> cparser_result \<times> bool) option" where
  "cparser_last_command p =
     (if 0 \<le> last_line_idx p then do {
        l \<leftarrow> aget (lines p) (nat (last_line_idx p));
        Some (Some (lbuf l), last_rc p, case last_end_node p of None \<Rightarrow> False | Some n \<Rightarrow> hidden n) }
      else do {
        c_assert (last_rc p = CPARSER_ERR_NOT_EXIST \<and> last_end_node p = None);
        Some (None, last_rc p, False) })"

end
