(* ===== verification/Cli_Edit.thy ===== *)
theory Cli_Edit
  imports Cli_Input
begin

text \<open>
  What a user sees and what the parser knows while a line is edited. The line, the state machine
  and the terminal are three copies of the same text that every key has to keep in step. An editor
  without buffers says what the keys mean, and the invariant ties the parser to it.
\<close>

section \<open>An editor without buffers\<close>

text \<open>
  The mode, the prompt, the lines of the history with their cursors, the number of the current one,
  and whether every change of the line was made with the cursor at the end of the line.
\<close>

record editor =
  epriv :: bool
  eprompt :: string
  elines :: "(string \<times> nat) list"
  eidx :: nat
  clean :: bool

definition etext :: "editor \<Rightarrow> string" where "etext e = fst (elines e ! eidx e)"
definition ecur :: "editor \<Rightarrow> nat" where "ecur e = snd (elines e ! eidx e)"

definition eput :: "editor \<Rightarrow> string \<Rightarrow> nat \<Rightarrow> editor" where
  "eput e s k = e\<lparr>elines := (elines e)[eidx e := (s, k)]\<rparr>"

definition erases :: "cparser_cfg \<Rightarrow> char \<Rightarrow> bool" where
  "erases c ch \<longleftrightarrow> ch_erase c = ch \<or> ch_del c = ch"

definition eregular :: "cparser_cfg \<Rightarrow> char \<Rightarrow> editor \<Rightarrow> editor" where
  "eregular c ch e = (let s = etext e; k = ecur e in
     if erases c ch then (if k = 0 then e else eput e (take (k - 1) s @ drop k s) (k - 1))
     else eput e (take k s @ ch # drop k s) (Suc k))"

fun ekey :: "cparser_cfg \<Rightarrow> char \<times> cparser_char \<Rightarrow> editor \<Rightarrow> editor" where
  "ekey c (ch, CPARSER_CHAR_REGULAR) e = eregular c ch e"
| "ekey c (ch, CPARSER_CHAR_LEFT_ARROW) e = eput e (etext e) (ecur e - 1)"
| "ekey c (ch, CPARSER_CHAR_RIGHT_ARROW) e = eput e (etext e) (min (Suc (ecur e)) (length (etext e)))"
| "ekey c (ch, CPARSER_CHAR_FIRST) e = eput e (etext e) 0"
| "ekey c (ch, CPARSER_CHAR_LAST) e = eput e (etext e) (length (etext e))"
| "ekey c (ch, CPARSER_CHAR_UP_ARROW) e =
     e\<lparr>eidx := (if eidx e = 0 then length (elines e) - 1 else eidx e - 1), clean := clean e \<and> ecur e = length (etext e)\<rparr>"
| "ekey c (ch, CPARSER_CHAR_DOWN_ARROW) e =
     e\<lparr>eidx := (if length (elines e) \<le> Suc (eidx e) then 0 else Suc (eidx e)), clean := clean e \<and> ecur e = length (etext e)\<rparr>"
| "ekey c (ch, CPARSER_CHAR_UNKNOWN) e = e"

text \<open>Characters that can stand in a line, and keys that edit: everything but completion, help and enter.\<close>

definition char_ok :: "cparser_cfg \<Rightarrow> char \<Rightarrow> bool" where
  "char_ok c ch \<longleftrightarrow> ch \<noteq> NUL \<and> ch \<noteq> LF \<and> ch \<noteq> BS \<and> ch \<noteq> BEL \<and> ch \<noteq> ch_complete c \<and> ch \<noteq> ch_help c \<and> \<not> erases c ch"

definition text_ok :: "cparser_cfg \<Rightarrow> string \<Rightarrow> bool" where
  "text_ok c s \<longleftrightarrow> (\<forall>ch\<in>set s. char_ok c ch) \<and> length s < CPARSER_MAX_TOKEN_SIZE"

fun key_ok :: "cparser_cfg \<Rightarrow> editor \<Rightarrow> char \<times> cparser_char \<Rightarrow> bool" where
  "key_ok c e (ch, CPARSER_CHAR_REGULAR) \<longleftrightarrow> ch \<noteq> LF \<and> ch \<noteq> ch_complete c \<and> ch \<noteq> ch_help c \<and>
     (erases c ch \<or> char_ok c ch \<and> Suc (length (etext e)) < CPARSER_MAX_TOKEN_SIZE)"
| "key_ok c e k \<longleftrightarrow> True"

text \<open>A backspace takes a character back, and the other special characters are none that the editor writes.\<close>

definition cfg_ok :: "cparser_cfg \<Rightarrow> bool" where
  "cfg_ok c \<longleftrightarrow> erases c BS \<and> ch_complete c \<noteq> BS \<and> ch_help c \<noteq> BS \<and> \<not> debug_flag c"

section \<open>The invariant\<close>

definition shown_prompt :: "cparser \<Rightarrow> string" where
  "shown_prompt p = (if is_privileged_mode p then ''+'' else []) @ prompts p ! root_level p"

definition mode_ok :: "cparser \<Rightarrow> cparser_node \<Rightarrow> bool" where
  "mode_ok p root \<longleftrightarrow> root_level p < length (prompts p) \<and> aget (roots p) (root_level p) = Some root \<and> root_ok root \<and>
     cfg_ok (cfg p) \<and> user_buf p = None \<and> user_input_cb p = None \<and> user_buf_size p = 0 \<and> \<not> finished p"

definition lines_ok :: "cparser \<Rightarrow> editor \<Rightarrow> bool" where
  "lines_ok p e \<longleftrightarrow> length (lines p) = CPARSER_MAX_LINES \<and> max_line p < CPARSER_MAX_LINES \<and> length (elines e) = Suc (max_line p) \<and>
     cur_line p = eidx e \<and> eidx e \<le> max_line p \<and>
     (\<forall>i\<le>max_line p. line_rep (lines p ! i) (fst (elines e ! i)) (snd (elines e ! i)) \<and> text_ok (cfg p) (fst (elines e ! i)))"

definition in_step :: "cparser \<Rightarrow> cparser_node \<Rightarrow> editor \<Rightarrow> bool" where
  "in_step p root e \<longleftrightarrow> fsm_rep p (parse_of (NODE_USABLE p) root (take (ecur e) (etext e)))"

definition displayed :: "cparser \<Rightarrow> editor \<Rightarrow> bool" where
  "displayed p e \<longleftrightarrow> is_privileged_mode p = epriv e \<and> shown_prompt p = eprompt e \<and> (clean e \<and> cfg_fd (cfg p) \<noteq> -1 \<longrightarrow>
     showing (screen (out p)) (eprompt e @ etext e) (length (eprompt e) + ecur e))"

definition editing :: "cparser \<Rightarrow> cparser_node \<Rightarrow> editor \<Rightarrow> bool" where
  "editing p root e \<longleftrightarrow> mode_ok p root \<and> lines_ok p e \<and> in_step p root e \<and> displayed p e"

lemma lines_ok_at:
  assumes "lines_ok p e"
  shows "at_line p (etext e) (ecur e)" and "text_ok (cfg p) (etext e)" and "ecur e \<le> length (etext e)" and "eidx e < length (elines e)"
proof -
  have l: "line_rep (lines p ! eidx e) (etext e) (ecur e)" "text_ok (cfg p) (etext e)" "eidx e < length (elines e)"
    "cur_line p < length (lines p)" "cur_line p = eidx e"
    using assms by (auto simp: lines_ok_def etext_def ecur_def)
  then show "at_line p (etext e) (ecur e)" by (simp add: at_line_def this_line_def aget_def)
  show "text_ok (cfg p) (etext e)" "ecur e \<le> length (etext e)" "eidx e < length (elines e)"
    using l line_repD(3) [OF l(1)] by auto
qed

lemma text_ok_printable: "text_ok c s \<Longrightarrow> printable s"
  by (auto simp: text_ok_def char_ok_def printable_def)

lemma eput_simps [simp]:
  "eidx e < length (elines e) \<Longrightarrow> etext (eput e s k) = s" "eidx e < length (elines e) \<Longrightarrow> ecur (eput e s k) = k"
  "eidx (eput e s k) = eidx e" "epriv (eput e s k) = epriv e" "eprompt (eput e s k) = eprompt e" "clean (eput e s k) = clean e" "length (elines (eput e s k)) = length (elines e)"
  by (simp_all add: eput_def etext_def ecur_def)

lemma is_erase_erases: "is_erase p ch \<longleftrightarrow> erases (cfg p) ch"
  by (simp add: is_erase_def erases_def)

text \<open>A new text in the current line, with the output that shows it.\<close>

lemma editing_line:
  assumes ed: "editing p root e" and l: "line_rep l s k" "text_ok (cfg p) s"
    and fr: "fsm_frame (with_line (prints w p) l) p'" and rep: "fsm_rep p' (parse_of (NODE_USABLE p) root (take k s))"
    and shw: "\<And>t pr. showing t (pr @ etext e) (length pr + ecur e) \<Longrightarrow> showing (foldl tty t w) (pr @ s) (length pr + k)"
  shows "editing p' root (eput e s k)"
proof -
  note f = fsm_frameD [OF fr, unfolded with_line_def, simplified]
  have lo: "lines_ok p e" and mo: "mode_ok p root" and di: "displayed p e" using ed by (auto simp: editing_def)
  note idx = lines_ok_at(4) [OF lo]
  have cfg': "cfg p' = cfg p" and usable: "NODE_USABLE p' = NODE_USABLE p" using f(1) NODE_USABLE_cong [OF f(5)] by auto
  have "mode_ok p' root" using mo f by (simp add: mode_ok_def)
  moreover have "lines_ok p' (eput e s k)"
    using lo l f unfolding lines_ok_def by (auto simp: eput_def nth_list_update)
  moreover have "in_step p' root (eput e s k)" using rep usable idx by (simp add: in_step_def)
  moreover have "displayed p' (eput e s k)"
  proof -
    have "shown_prompt p' = shown_prompt p" using f by (simp add: shown_prompt_def)
    moreover have "out p' = out p @ w" if "cfg_fd (cfg p) \<noteq> -1" using f out_prints [OF that] by (simp add: with_line_def)
    ultimately show ?thesis using di shw idx f by (auto simp: displayed_def screen_append)
  qed
  ultimately show ?thesis by (simp add: editing_def)
qed

lemma fsm_rep_cong:
  "tokens q = tokens p \<Longrightarrow> token_tos q = token_tos p \<Longrightarrow> cur_node q = cur_node p \<Longrightarrow> state q = state p \<Longrightarrow>
    current_pos q = current_pos p \<Longrightarrow> last_good q = last_good p \<Longrightarrow> fsm_rep q a = fsm_rep p a"
  using core_cong [of q a p] core_cong [of p a q] by (auto simp: fsm_rep_def)

lemma fsm_rep_other [simp]: "fsm_rep (with_line p l) a = fsm_rep p a" "fsm_rep (prints w p) a = fsm_rep p a"
  "fsm_rep (p\<lparr>cur_line := n\<rparr>) a = fsm_rep p a"
  by (rule fsm_rep_cong; simp add: with_line_def)+

section \<open>Every key keeps the three copies in step\<close>

lemma with_line_props [simp]:
  "NODE_USABLE (with_line (prints w p) l) = NODE_USABLE p" "is_erase (with_line (prints w p) l) = is_erase p"
  "fsm_quiet (with_line (prints w p) l) = fsm_quiet p" "cfg (with_line (prints w p) l) = cfg p"
  by (simp_all add: NODE_USABLE_def is_erase_def fsm_quiet_def with_line_def fun_eq_iff)

lemma editing_parts:
  assumes "editing p root e"
  shows "root_ok root" "fsm_quiet p" "is_erase p BS" "fsm_rep p (parse_of (NODE_USABLE p) root (take (ecur e) (etext e)))"
  using assms by (auto simp: editing_def mode_ok_def cfg_ok_def fsm_quiet_def is_erase_erases in_step_def)

lemma butlast_take_Suc: "k \<le> length s \<Longrightarrow> butlast (take k s) = take (k - 1) s"
  by (simp add: butlast_take)

lemma editing_left:
  assumes "editing p root e" and "0 < ecur e"
  shows "\<exists>q p'. cparser_line_prev_char p = Some (BS, q) \<and> cparser_fsm_input BS q = Some p' \<and>
    editing p' root (eput e (etext e) (ecur e - 1)) \<and> cfg p' = cfg p \<and> cfg q = cfg p"
proof -
  have lo: "lines_ok p e" using assms(1) by (simp add: editing_def)
  note at = lines_ok_at [OF lo] and parts = editing_parts [OF assms(1)]
  obtain l where l: "cparser_line_prev_char p = Some (BS, with_line (prints [BS] p) l)" "line_rep l (etext e) (ecur e - 1)"
    using line_move_text(3) [OF at(1) assms(2)] by blast
  let ?q = "with_line (prints [BS] p) l"
  have ne: "take (ecur e) (etext e) \<noteq> []" using assms(2) at(3) by (cases "etext e") auto
  obtain p' where p': "cparser_fsm_input BS ?q = Some p'" "fsm_rep p' (parse_of (NODE_USABLE p) root (butlast (take (ecur e) (etext e))))"
    "fsm_frame ?q p'"
    using fsm_erase_text [of ?q root "take (ecur e) (etext e)" BS] parts ne by auto
  have "editing p' root (eput e (etext e) (ecur e - 1))"
    using p'(2) butlast_take_Suc [OF at(3)] assms(2) by (intro editing_line [OF assms(1) l(2) at(2) p'(3)]) (auto dest: showing_left)
  then show ?thesis using l(1) p'(1) fsm_frameD(1) [OF p'(3)] by auto
qed

lemma editing_right:
  assumes "editing p root e" and "ecur e < length (etext e)"
  shows "\<exists>q p'. cparser_line_next_char p = Some (etext e ! ecur e, q) \<and> cparser_fsm_input (etext e ! ecur e) q = Some p' \<and>
    editing p' root (eput e (etext e) (Suc (ecur e))) \<and> cfg p' = cfg p \<and> cfg q = cfg p"
proof -
  have lo: "lines_ok p e" using assms(1) by (simp add: editing_def)
  note at = lines_ok_at [OF lo] and parts = editing_parts [OF assms(1)]
  let ?c = "etext e ! ecur e"
  have c: "char_ok (cfg p) ?c" "length (etext e) < CPARSER_MAX_TOKEN_SIZE" using at(2) assms(2) by (auto simp: text_ok_def)
  obtain l where l: "cparser_line_next_char p = Some (?c, with_line (prints [?c] p) l)" "line_rep l (etext e) (Suc (ecur e))"
    using line_move_text(1) [OF at(1) assms(2)] by blast
  let ?q = "with_line (prints [?c] p) l"
  obtain p' where p': "cparser_fsm_input ?c ?q = Some p'" "fsm_rep p' (parse_of (NODE_USABLE p) root (take (ecur e) (etext e) @ [?c]))"
    "fsm_frame ?q p'"
    using fsm_read_text [of ?q root "take (ecur e) (etext e)" ?c] parts c assms(2) by (auto simp: char_ok_def is_erase_erases)
  have "editing p' root (eput e (etext e) (Suc (ecur e)))"
    using p'(2) assms(2) text_ok_printable [OF at(2)]
    by (intro editing_line [OF assms(1) l(2) at(2) p'(3)]) (auto simp: take_Suc_conv_app_nth dest: showing_right)
  then show ?thesis using l(1) p'(1) fsm_frameD(1) [OF p'(3)] by auto
qed

lemma editing_insert:
  assumes "editing p root e" and "char_ok (cfg p) c" and "Suc (length (etext e)) < CPARSER_MAX_TOKEN_SIZE"
  shows "\<exists>q p'. cparser_line_insert c p = Some (CPARSER_OK, q) \<and> cparser_fsm_input c q = Some p' \<and>
    editing p' root (eput e (take (ecur e) (etext e) @ c # drop (ecur e) (etext e)) (Suc (ecur e))) \<and> cfg p' = cfg p \<and> cfg q = cfg p"
proof -
  have lo: "lines_ok p e" using assms(1) by (simp add: editing_def)
  note at = lines_ok_at [OF lo] and parts = editing_parts [OF assms(1)]
  let ?s = "take (ecur e) (etext e) @ c # drop (ecur e) (etext e)" and ?w = "c # drop (ecur e) (etext e) @ replicate (length (etext e) - ecur e) BS"
  have c: "c \<noteq> NUL" "\<not> is_erase p c" "printable (c # etext e)" "length (etext e) < CPARSER_MAX_LINE_SIZE"
    using assms(2,3) text_ok_printable [OF at(2)]
    by (auto simp: char_ok_def is_erase_erases printable_def CPARSER_MAX_LINE_SIZE_def CPARSER_MAX_TOKEN_SIZE_def)
  obtain l where l: "cparser_line_insert c p = Some (CPARSER_OK, with_line (prints ?w p) l)" "line_rep l ?s (Suc (ecur e))"
    using line_insert_text [OF at(1) c(4,1)] by blast
  let ?q = "with_line (prints ?w p) l"
  obtain p' where p': "cparser_fsm_input c ?q = Some p'" "fsm_rep p' (parse_of (NODE_USABLE p) root (take (ecur e) (etext e) @ [c]))"
    "fsm_frame ?q p'"
    using fsm_read_text [of ?q root "take (ecur e) (etext e)" c] parts c assms(3) at(3) by auto
  have "text_ok (cfg p) ?s" using at(2) assms(2,3) by (auto simp: text_ok_def dest: in_set_takeD in_set_dropD)
  moreover have "take (Suc (ecur e)) ?s = take (ecur e) (etext e) @ [c]" using at(3) by simp
  ultimately have "editing p' root (eput e ?s (Suc (ecur e)))"
    using p'(2) showing_insert [OF _ at(3) c(3)] by (intro editing_line [OF assms(1) l(2) _ p'(3)]) auto
  then show ?thesis using l(1) p'(1) fsm_frameD(1) [OF p'(3)] by auto
qed

lemma editing_delete:
  assumes "editing p root e" and "is_erase p c" and "0 < ecur e"
  shows "\<exists>q p'. cparser_line_delete p = Some (CPARSER_OK, q) \<and> cparser_fsm_input c q = Some p' \<and>
    editing p' root (eput e (take (ecur e - 1) (etext e) @ drop (ecur e) (etext e)) (ecur e - 1)) \<and> cfg p' = cfg p \<and> cfg q = cfg p"
proof -
  have lo: "lines_ok p e" using assms(1) by (simp add: editing_def)
  note at = lines_ok_at [OF lo] and parts = editing_parts [OF assms(1)]
  let ?s = "take (ecur e - 1) (etext e) @ drop (ecur e) (etext e)"
  let ?w = "BS # drop (ecur e) (etext e) @ CHR '' '' # BS # replicate (length (etext e) - ecur e) BS"
  obtain l where l: "cparser_line_delete p = Some (CPARSER_OK, with_line (prints ?w p) l)" "line_rep l ?s (ecur e - 1)"
    using line_delete_text [OF at(1) assms(3)] by blast
  let ?q = "with_line (prints ?w p) l"
  have ne: "take (ecur e) (etext e) \<noteq> []" using assms(3) at(3) by (cases "etext e") auto
  obtain p' where p': "cparser_fsm_input c ?q = Some p'" "fsm_rep p' (parse_of (NODE_USABLE p) root (butlast (take (ecur e) (etext e))))"
    "fsm_frame ?q p'"
    using fsm_erase_text [of ?q root "take (ecur e) (etext e)" c] parts ne assms(2) by auto
  have "text_ok (cfg p) ?s" using at(2) by (auto simp: text_ok_def dest: in_set_takeD in_set_dropD)
  moreover have "take (ecur e - 1) ?s = butlast (take (ecur e) (etext e))" using at(3) butlast_take_Suc [OF at(3)] by simp
  ultimately have "editing p' root (eput e ?s (ecur e - 1))"
    using p'(2) showing_delete [OF _ assms(3) at(3) text_ok_printable [OF at(2)]] by (intro editing_line [OF assms(1) l(2) _ p'(3)]) auto
  then show ?thesis using l(1) p'(1) fsm_frameD(1) [OF p'(3)] by auto
qed

lemma eput_eput [simp]: "eput (eput e s k) s' k' = eput e s' k'"
  by (simp add: eput_def)

lemma eput_same: "eidx e < length (elines e) \<Longrightarrow> eput e (etext e) (ecur e) = e"
  by (simp add: eput_def etext_def ecur_def)

lemma editing_first: "editing p root e \<Longrightarrow> \<exists>p'. go_first p = Some p' \<and> editing p' root (eput e (etext e) 0) \<and> cfg p' = cfg p"
proof (induction "ecur e" arbitrary: p e)
  case 0
  have lo: "lines_ok p e" using 0(2) by (simp add: editing_def)
  note at = lines_ok_at [OF lo]
  have "go_first p = Some p"
    using line_move_text(4) [OF at(1)] 0(1) by (subst go_first.simps) simp
  then show ?case using 0 eput_same [OF at(4)] by auto
next
  case (Suc n)
  have "0 < ecur e" using Suc(2) by simp
  from editing_left [OF Suc.prems this]
  obtain q p' where s: "cparser_line_prev_char p = Some (BS, q)" "cparser_fsm_input BS q = Some p'"
    "editing p' root (eput e (etext e) (ecur e - 1))" "cfg p' = cfg p"
    by blast
  have idx: "eidx e < length (elines e)" using Suc.prems lines_ok_at(4) [of p e] by (simp add: editing_def)
  have "ecur (eput e (etext e) (ecur e - 1)) = n" using Suc(2) idx by simp
  from Suc(1) [OF this [symmetric] s(3)] obtain r where "go_first p' = Some r" "editing r root (eput e (etext e) 0)" "cfg r = cfg p'"
    using idx by auto
  moreover have "go_first p = go_first p'" using s by (subst go_first.simps) simp
  ultimately show ?case using s(4) by auto
qed

lemma editing_last:
  "editing p root e \<Longrightarrow> \<exists>p'. go_last p = Some p' \<and> editing p' root (eput e (etext e) (length (etext e))) \<and> cfg p' = cfg p"
proof (induction "length (etext e) - ecur e" arbitrary: p e)
  case 0
  have lo: "lines_ok p e" using 0(2) by (simp add: editing_def)
  note at = lines_ok_at [OF lo]
  have k: "ecur e = length (etext e)" using 0(1) at(3) by simp
  have "go_last p = Some p"
    using line_move_text(2) [OF at(1) k] by (subst go_last.simps) simp
  then show ?case using 0 eput_same [OF at(4)] k by auto
next
  case (Suc n)
  have lt: "ecur e < length (etext e)" using Suc(2) by simp
  from editing_right [OF Suc.prems this]
  obtain q p' where s: "cparser_line_next_char p = Some (etext e ! ecur e, q)" "cparser_fsm_input (etext e ! ecur e) q = Some p'"
    "editing p' root (eput e (etext e) (Suc (ecur e)))" "cfg p' = cfg p"
    by blast
  have lo: "lines_ok p e" using Suc.prems by (simp add: editing_def)
  note at = lines_ok_at [OF lo]
  have nn: "etext e ! ecur e \<noteq> NUL" using at(2) lt by (auto simp: text_ok_def char_ok_def)
  have "n = length (etext (eput e (etext e) (Suc (ecur e)))) - ecur (eput e (etext e) (Suc (ecur e)))" using Suc(2) at(4) by simp
  from Suc(1) [OF this s(3)] obtain r where "go_last p' = Some r" "editing r root (eput e (etext e) (length (etext e)))" "cfg r = cfg p'"
    using at(4) by auto
  moreover have "go_last p = go_last p'" using s nn by (subst go_last.simps) simp
  ultimately show ?case using s(4) by auto
qed

text \<open>Feeding a part of the line into the state machine.\<close>

lemma at_line_frame: "fsm_frame p q \<Longrightarrow> at_line q s k = at_line p s k"
  using fsm_frameD(7,8) [of p q] by (simp add: at_line_def this_line_def)

lemma fsm_line_text:
  "fsm_rep p (parse_of (NODE_USABLE p) root (take j s)) \<Longrightarrow> at_line p s k \<Longrightarrow> text_ok (cfg p) s \<Longrightarrow> root_ok root \<Longrightarrow> fsm_quiet p \<Longrightarrow>
    j + n \<le> length s \<Longrightarrow> \<exists>p'. fsm_line [j ..< j + n] p = Some p' \<and> fsm_rep p' (parse_of (NODE_USABLE p) root (take (j + n) s)) \<and> fsm_frame p p'"
proof (induction n arbitrary: j p)
  case 0
  then show ?case by (simp add: fsm_frame_refl)
next
  case (Suc n)
  have j: "j < length s" using Suc.prems(6) by simp
  have c: "char_ok (cfg p) (s ! j)" "length (take j s) < CPARSER_MAX_TOKEN_SIZE" using Suc.prems(3) j by (auto simp: text_ok_def)
  obtain q where q: "cparser_fsm_input (s ! j) p = Some q" "fsm_rep q (parse_of (NODE_USABLE p) root (take j s @ [s ! j]))" "fsm_frame p q"
    using fsm_read_text [OF Suc.prems(1,4) c(2) _ Suc.prems(5), of "s ! j"] c(1) by (auto simp: char_ok_def is_erase_erases)
  have e: "NODE_USABLE q = NODE_USABLE p" "fsm_quiet q" "cfg q = cfg p"
    using fsm_frame_props [OF q(3)] fsm_frameD(1) [OF q(3)] Suc.prems(5) by auto
  have "fsm_rep q (parse_of (NODE_USABLE q) root (take (Suc j) s))" using q(2) j e by (simp add: take_Suc_conv_app_nth)
  moreover have "at_line q s k" using at_line_frame [OF q(3)] Suc.prems(2) by simp
  ultimately obtain r where r: "fsm_line [Suc j ..< Suc j + n] q = Some r" "fsm_rep r (parse_of (NODE_USABLE p) root (take (Suc j + n) s))" "fsm_frame q r"
    using Suc.IH [of q "Suc j"] e Suc.prems(3-6) by auto
  have "[j ..< j + Suc n] = j # [Suc j ..< Suc j + n]" by (simp add: upt_conv_Cons)
  then show ?case
    using r q fsm_frame_trans [OF q(3) r(3)] line_reads(3) [OF Suc.prems(2) j] by (simp del: upt_Suc)
qed

lemma reread_text:
  assumes "at_line p s k" and "text_ok (cfg p) s" and "mode_ok p root"
  shows "\<exists>p'. reread_line p = Some (CPARSER_OK, p') \<and> fsm_rep p' (parse_of (NODE_USABLE p) root (take k s)) \<and> fsm_frame p p'"
proof -
  have m: "aget (roots p) (root_level p) = Some root" "root_ok root" "fsm_quiet p"
    using assms(3) by (auto simp: mode_ok_def cfg_ok_def fsm_quiet_def)
  obtain q where q: "cparser_fsm_reset p = Some q" "fsm_rep q (parse_of (NODE_USABLE p) root [])" "fsm_frame p q"
    using fsm_reset_text [OF m(1)] by blast
  have e: "NODE_USABLE q = NODE_USABLE p" "fsm_quiet q" "cfg q = cfg p" "at_line q s k"
    using fsm_frame_props [OF q(3)] fsm_frameD(1) [OF q(3)] at_line_frame [OF q(3)] m(3) assms(1) by auto
  have k: "k \<le> length s" using assms(1) line_repD(3) by (auto simp: at_line_def)
  obtain r where "fsm_line [0 ..< 0 + k] q = Some r" "fsm_rep r (parse_of (NODE_USABLE p) root (take (0 + k) s))" "fsm_frame q r"
    using fsm_line_text [of q root 0 s k k] q(2) e assms(2) m k by auto
  then show ?thesis
    using q(1) line_reads(1) [OF e(4)] fsm_frame_trans [OF q(3)] by (auto simp: reread_line_def)
qed

text \<open>Another line of the history.\<close>

lemma editing_other_line:
  assumes ed: "editing p root e" and n: "n \<le> max_line p"
    and e': "e' = e\<lparr>eidx := n, clean := clean e \<and> ecur e = length (etext e)\<rparr>"
    and q: "q = (prints (erase_line (length (etext e)) @ etext e' @ replicate (length (etext e') - ecur e') BS) p)\<lparr>cur_line := n\<rparr>"
  shows "\<exists>p'. reread_line q = Some (CPARSER_OK, p') \<and> editing p' root e' \<and> cfg p' = cfg p"
proof -
  have lo: "lines_ok p e" and mo: "mode_ok p root" and di: "displayed p e" using ed by (auto simp: editing_def)
  have lq: "lines_ok q e'" using lo n e' q unfolding lines_ok_def by auto
  have mq: "mode_ok q root" "cfg q = cfg p" "NODE_USABLE q = NODE_USABLE p"
    using mo q by (auto simp: mode_ok_def NODE_USABLE_def fun_eq_iff)
  note at = lines_ok_at [OF lq]
  obtain p' where p': "reread_line q = Some (CPARSER_OK, p')" "fsm_rep p' (parse_of (NODE_USABLE q) root (take (ecur e') (etext e')))" "fsm_frame q p'"
    using reread_text [OF at(1,2) mq(1)] by blast
  note f = fsm_frameD [OF p'(3)]
  have u: "NODE_USABLE p' = NODE_USABLE q" using NODE_USABLE_cong [OF f(5)] .
  have "mode_ok p' root" using mq(1) f by (simp add: mode_ok_def)
  moreover have "lines_ok p' e'" using lq f by (simp add: lines_ok_def)
  moreover have "in_step p' root e'" using p'(2) u by (simp add: in_step_def)
  moreover have "displayed p' e'"
  proof -
    have sp: "is_privileged_mode p' = epriv e'" "shown_prompt p' = eprompt e'" "eprompt e' = eprompt e" using f q di e' by (auto simp: shown_prompt_def displayed_def)
    have "showing (screen (out p')) (eprompt e' @ etext e') (length (eprompt e') + ecur e')"
      if c: "clean e'" "cfg_fd (cfg p') \<noteq> -1"
    proof -
      have "cfg_fd (cfg p) \<noteq> -1" using c(2) f(1) mq(2) by simp
      then have "out p' = out p @ erase_line (length (etext e)) @ etext e' @ replicate (length (etext e') - ecur e') BS"
        using f(12) q by (simp add: prints_def)
      moreover have "showing (screen (out p)) (eprompt e @ etext e) (length (eprompt e) + length (etext e))"
        using di c e' \<open>cfg_fd (cfg p) \<noteq> -1\<close> by (auto simp: displayed_def)
      ultimately show ?thesis
        using showing_history [OF _ at(3) text_ok_printable [OF at(2)]] sp(3) by (simp add: screen_append)
    qed
    then show ?thesis using sp(1,2) by (auto simp: displayed_def)
  qed
  ultimately show ?thesis using p'(1) f(1) mq(2) by (auto simp: editing_def)
qed

lemma history_at:
  assumes "editing p root e" and "n \<le> max_line p"
  shows "at_line (p\<lparr>cur_line := n\<rparr>) (fst (elines e ! n)) (snd (elines e ! n))"
  using assms by (auto simp: editing_def lines_ok_def at_line_def this_line_def aget_def)

lemma editing_history:
  assumes "editing p root e"
  shows "\<exists>q p'. cparser_line_prev_line p = Some (CPARSER_OK, q) \<and> reread_line q = Some (CPARSER_OK, p') \<and>
      editing p' root (ekey (cfg p) (ch, CPARSER_CHAR_UP_ARROW) e) \<and> cfg p' = cfg p"
    and "\<exists>q p'. cparser_line_next_line p = Some (CPARSER_OK, q) \<and> reread_line q = Some (CPARSER_OK, p') \<and>
      editing p' root (ekey (cfg p) (ch, CPARSER_CHAR_DOWN_ARROW) e) \<and> cfg p' = cfg p"
proof -
  have lo: "lines_ok p e" using assms by (simp add: editing_def)
  note at = lines_ok_at [OF lo]
  have l: "length (elines e) = Suc (max_line p)" "cur_line p = eidx e" "eidx e \<le> max_line p" using lo by (auto simp: lines_ok_def)
  have pi: "prev_index p = (if eidx e = 0 then length (elines e) - 1 else eidx e - 1)" "prev_index p \<le> max_line p"
    using l by (auto simp: prev_index_def)
  have ni: "next_index p = (if length (elines e) \<le> Suc (eidx e) then 0 else Suc (eidx e))" "next_index p \<le> max_line p"
    using l by (auto simp: next_index_def)
  let ?u = "e\<lparr>eidx := prev_index p, clean := clean e \<and> ecur e = length (etext e)\<rparr>"
  let ?d = "e\<lparr>eidx := next_index p, clean := clean e \<and> ecur e = length (etext e)\<rparr>"
  show "\<exists>q p'. cparser_line_prev_line p = Some (CPARSER_OK, q) \<and> reread_line q = Some (CPARSER_OK, p') \<and>
      editing p' root (ekey (cfg p) (ch, CPARSER_CHAR_UP_ARROW) e) \<and> cfg p' = cfg p"
    using line_history_text(2) [OF at(1) history_at [OF assms pi(2)]] editing_other_line [OF assms pi(2) refl refl] pi(1)
    by (auto simp: etext_def ecur_def)
  show "\<exists>q p'. cparser_line_next_line p = Some (CPARSER_OK, q) \<and> reread_line q = Some (CPARSER_OK, p') \<and>
      editing p' root (ekey (cfg p) (ch, CPARSER_CHAR_DOWN_ARROW) e) \<and> cfg p' = cfg p"
    using line_history_text(1) [OF at(1) history_at [OF assms ni(2)]] editing_other_line [OF assms ni(2) refl refl] ni(1)
    by (auto simp: etext_def ecur_def)
qed

lemma editing_bell: "editing p root e \<Longrightarrow> editing (printc BEL p) root e"
proof -
  assume ed: "editing p root e"
  have "displayed (printc BEL p) e"
    using ed showing_bell by (auto simp: editing_def displayed_def out_simps shown_prompt_def out_prints screen_append)
  then show ?thesis
    using ed NODE_USABLE_cong [of "prints [BEL] p" p] by (auto simp: editing_def mode_ok_def lines_ok_def in_step_def out_simps)
qed

lemma input_unfold: "cparser_input env ch ty p = input_body env (cparser_call env) ch ty p"
  unfolding cparser_input_def by (subst cparser_call.simps) (simp add: call_body_def)

lemma editing_input:
  "editing p root e \<Longrightarrow> cparser_input env ch ty p =
    do { x \<leftarrow> edit_key ch ty p; case x of Done rc p \<Rightarrow> Some (rc, p) | Remains ch p \<Rightarrow> run_key env (cparser_call env) ch p }"
  by (simp add: input_unfold input_body_def cparser_is_user_input_def editing_def mode_ok_def)

lemma run_key_plain:
  "ch \<noteq> ch_complete (cfg p) \<Longrightarrow> ch \<noteq> ch_help (cfg p) \<Longrightarrow> ch \<noteq> LF \<Longrightarrow>
    run_key env f ch p = map_option (\<lambda>p. (CPARSER_OK, p)) (cparser_fsm_input ch p)"
  by (cases "cparser_fsm_input ch p") (auto simp: run_key_def)

lemma key_step_regular:
  assumes "editing p root e" and "key_ok (cfg p) e (ch, CPARSER_CHAR_REGULAR)"
  shows "\<exists>p'. cparser_input env ch CPARSER_CHAR_REGULAR p = Some (CPARSER_OK, p') \<and> editing p' root (ekey (cfg p) (ch, CPARSER_CHAR_REGULAR) e) \<and> cfg p' = cfg p"
proof -
  have lo: "lines_ok p e" using assms(1) by (simp add: editing_def)
  note at = lines_ok_at [OF lo]
  have k: "ch \<noteq> LF" "ch \<noteq> ch_complete (cfg p)" "ch \<noteq> ch_help (cfg p)" using assms(2) by auto
  show ?thesis
  proof (cases "erases (cfg p) ch")
    case True
    show ?thesis
    proof (cases "ecur e = 0")
      case zero: True
      obtain l where "this_line p = Some l" "line_rep l (etext e) (ecur e)" using at(1) by (auto simp: at_line_def)
      then have "cparser_line_delete p = Some (CPARSER_ERR_NOT_EXIST, p)"
        using zero line_repD [of l "etext e" "ecur e"] by (simp add: cparser_line_delete_def)
      then show ?thesis
        using True zero k assms(1) by (auto simp: editing_input edit_key_def edit_regular_def is_erase_erases eregular_def Let_def)
    next
      case False
      then obtain q p' where "cparser_line_delete p = Some (CPARSER_OK, q)" "cparser_fsm_input ch q = Some p'"
        "editing p' root (eput e (take (ecur e - 1) (etext e) @ drop (ecur e) (etext e)) (ecur e - 1))" "cfg p' = cfg p" "cfg q = cfg p"
        using editing_delete [OF assms(1), of ch] True by (auto simp: is_erase_erases)
      then show ?thesis
        using True False k assms(1) run_key_plain [of ch q env "cparser_call env"]
        by (auto simp: editing_input edit_key_def edit_regular_def is_erase_erases eregular_def Let_def)
    qed
  next
    case False
    then obtain q p' where "cparser_line_insert ch p = Some (CPARSER_OK, q)" "cparser_fsm_input ch q = Some p'"
      "editing p' root (eput e (take (ecur e) (etext e) @ ch # drop (ecur e) (etext e)) (Suc (ecur e)))" "cfg p' = cfg p" "cfg q = cfg p"
      using editing_insert [OF assms(1), of ch] assms(2) by auto
    then show ?thesis
      using False k assms(1) run_key_plain [of ch q env "cparser_call env"]
      by (auto simp: editing_input edit_key_def edit_regular_def is_erase_erases eregular_def Let_def)
  qed
qed

lemma key_step_arrows:
  assumes "editing p root e"
  shows "\<exists>rc p'. cparser_input env ch CPARSER_CHAR_LEFT_ARROW p = Some (rc, p') \<and> editing p' root (ekey (cfg p) (ch, CPARSER_CHAR_LEFT_ARROW) e) \<and> cfg p' = cfg p"
    and "\<exists>rc p'. cparser_input env ch CPARSER_CHAR_RIGHT_ARROW p = Some (rc, p') \<and> editing p' root (ekey (cfg p) (ch, CPARSER_CHAR_RIGHT_ARROW) e) \<and> cfg p' = cfg p"
proof -
  have lo: "lines_ok p e" and c: "cfg_ok (cfg p)" using assms by (auto simp: editing_def mode_ok_def)
  note at = lines_ok_at [OF lo] and bell = editing_bell [OF assms]
  show "\<exists>rc p'. cparser_input env ch CPARSER_CHAR_LEFT_ARROW p = Some (rc, p') \<and> editing p' root (ekey (cfg p) (ch, CPARSER_CHAR_LEFT_ARROW) e) \<and> cfg p' = cfg p"
  proof (cases "ecur e = 0")
    case True
    then show ?thesis
      using line_move_text(4) [OF at(1) True] bell assms eput_same [OF at(4)] by (simp add: editing_input edit_key_def out_simps)
  next
    case False
    then obtain q p' where "cparser_line_prev_char p = Some (BS, q)" "cparser_fsm_input BS q = Some p'"
      "editing p' root (eput e (etext e) (ecur e - 1))" "cfg p' = cfg p" "cfg q = cfg p"
      using editing_left [OF assms] by auto
    then show ?thesis
      using assms c run_key_plain [of BS q env "cparser_call env"] by (auto simp: editing_input edit_key_def cfg_ok_def)
  qed
  show "\<exists>rc p'. cparser_input env ch CPARSER_CHAR_RIGHT_ARROW p = Some (rc, p') \<and> editing p' root (ekey (cfg p) (ch, CPARSER_CHAR_RIGHT_ARROW) e) \<and> cfg p' = cfg p"
  proof (cases "ecur e = length (etext e)")
    case True
    then show ?thesis
      using line_move_text(2) [OF at(1) True] bell assms eput_same [OF at(4)] by (simp add: editing_input edit_key_def out_simps)
  next
    case False
    then have lt: "ecur e < length (etext e)" using at(3) by simp
    then have ch: "char_ok (cfg p) (etext e ! ecur e)" using at(2) by (auto simp: text_ok_def)
    obtain q p' where "cparser_line_next_char p = Some (etext e ! ecur e, q)" "cparser_fsm_input (etext e ! ecur e) q = Some p'"
      "editing p' root (eput e (etext e) (Suc (ecur e)))" "cfg p' = cfg p" "cfg q = cfg p"
      using editing_right [OF assms lt] by auto
    then show ?thesis
      using assms ch lt run_key_plain [of "etext e ! ecur e" q env "cparser_call env"]
      by (auto simp: editing_input edit_key_def char_ok_def min_def)
  qed
qed

lemma key_step:
  assumes "editing p root e" and "key_ok (cfg p) e (ch, ty)"
  shows "\<exists>rc p'. cparser_input env ch ty p = Some (rc, p') \<and> editing p' root (ekey (cfg p) (ch, ty) e) \<and> cfg p' = cfg p"
proof (cases ty)
  case CPARSER_CHAR_REGULAR
  then show ?thesis using key_step_regular assms by blast
next
  case CPARSER_CHAR_LEFT_ARROW
  then show ?thesis using key_step_arrows(1) [OF assms(1)] by simp
next
  case CPARSER_CHAR_RIGHT_ARROW
  then show ?thesis using key_step_arrows(2) [OF assms(1)] by simp
next
  case CPARSER_CHAR_FIRST
  then show ?thesis using editing_first [OF assms(1)] assms(1) by (auto simp: editing_input edit_key_def)
next
  case CPARSER_CHAR_LAST
  then show ?thesis using editing_last [OF assms(1)] assms(1) by (auto simp: editing_input edit_key_def)
next
  case CPARSER_CHAR_UP_ARROW
  then show ?thesis using editing_history(1) [OF assms(1), of ch] assms(1) by (fastforce simp: editing_input edit_key_def)
next
  case CPARSER_CHAR_DOWN_ARROW
  then show ?thesis using editing_history(2) [OF assms(1), of ch] assms(1) by (fastforce simp: editing_input edit_key_def)
next
  case CPARSER_CHAR_UNKNOWN
  then show ?thesis using editing_bell [OF assms(1)] assms(1) by (auto simp: editing_input edit_key_def out_simps)
qed

section \<open>A session of editing keys\<close>

fun keys_ok :: "cparser_cfg \<Rightarrow> editor \<Rightarrow> (char \<times> cparser_char) list \<Rightarrow> bool" where
  "keys_ok c e [] \<longleftrightarrow> True"
| "keys_ok c e (k # ks) \<longleftrightarrow> key_ok c e k \<and> keys_ok c (ekey c k e) ks"

definition new_editor :: "string \<Rightarrow> editor" where
  "new_editor pr = \<lparr>epriv = False, eprompt = pr, elines = [([], 0)], eidx = 0, clean = True\<rparr>"

lemma editing_keys:
  "editing p root e \<Longrightarrow> keys_ok (cfg p) e ks \<Longrightarrow>
    \<exists>p'. cparser_run_loop env ks p = Some p' \<and> editing p' root (fold (ekey (cfg p)) ks e) \<and> cfg p' = cfg p"
proof (induction ks arbitrary: p e)
  case (Cons k ks)
  obtain ch ty where k: "k = (ch, ty)" by (cases k)
  then obtain rc q where q: "cparser_input env ch ty p = Some (rc, q)" "editing q root (ekey (cfg p) k e)" "cfg q = cfg p"
    using key_step [OF Cons.prems(1)] Cons.prems(2) by fastforce
  have "\<not> finished p" using Cons.prems(1) by (simp add: editing_def mode_ok_def)
  then show ?case using Cons.IH [OF q(2)] Cons.prems(2) q k by auto
qed simp

lemma config_prompt:
  "key_ok (c\<lparr>cfg_prompt := x\<rparr>) e k = key_ok c e k" "ekey (c\<lparr>cfg_prompt := x\<rparr>) k e = ekey c k e"
proof -
  have e: "erases (c\<lparr>cfg_prompt := x\<rparr>) = erases c" by (simp add: erases_def fun_eq_iff)
  show "key_ok (c\<lparr>cfg_prompt := x\<rparr>) e k = key_ok c e k" by (cases "(c, e, k)" rule: key_ok.cases) (simp_all add: e char_ok_def)
  show "ekey (c\<lparr>cfg_prompt := x\<rparr>) k e = ekey c k e" by (cases "(c, k, e)" rule: ekey.cases) (simp_all add: e eregular_def)
qed

lemma keys_prompt:
  "keys_ok (c\<lparr>cfg_prompt := x\<rparr>) e ks = keys_ok c e ks" "fold (ekey (c\<lparr>cfg_prompt := x\<rparr>)) ks e = fold (ekey c) ks e"
  by (induction ks arbitrary: e) (simp_all add: config_prompt)

lemma init_editing:
  assumes c: "cfg_ok c" "ch_erase c \<noteq> NUL" "root_ok (cfg_root c)" "printable (cfg_prompt c)"
    and p0: "roots p0 \<noteq> []" "prompts p0 \<noteq> []" "out p0 = []"
  shows "\<exists>p q. cparser_init c p0 = Some (CPARSER_OK, p) \<and> cparser_print_prompt p = Some q \<and>
    editing (q\<lparr>finished := False\<rparr>) (cfg_root c) (new_editor (prompt_text (cfg_prompt c))) \<and> cfg q = c\<lparr>cfg_prompt := prompt_text (cfg_prompt c)\<rparr>"
proof -
  let ?c = "c\<lparr>cfg_prompt := prompt_text (cfg_prompt c)\<rparr>" and ?s = "prompt_text (cfg_prompt c)"
  let ?p = "p0\<lparr>cfg := ?c, root_level := 0, roots := (roots p0)[0 := cfg_root c], prompts := (prompts p0)[0 := prompt_text ?s],
    cookie := replicate CPARSER_MAX_NESTED_LEVELS 0, max_line := 0, cur_line := 0, lines := replicate CPARSER_MAX_LINES empty_line\<rparr>"
  have ss: "prompt_text ?s = ?s" by (simp add: prompt_text_def)
  obtain q where q: "cparser_fsm_reset ?p = Some q" "\<And>u. fsm_rep q (parse_of u (cfg_root c) [])" "fsm_frame ?p q"
    using fsm_reset_text [of ?p "cfg_root c"] p0(1) by (auto simp: aget_def)
  note f = fsm_frameD [OF q(3), simplified]
  let ?q = "cparser_input_reset (q\<lparr>is_privileged_mode := False\<rparr>)"
  have "cparser_init c p0 = Some (CPARSER_OK, ?q)"
    using c(2) p0 q(1) by (simp add: cparser_init_def aput_def Let_def)
  moreover have "cparser_print_prompt ?q = Some (prints ?s ?q)"
    using f p0(2) ss by (simp add: cparser_print_prompt_def cparser_input_reset_def cparser_is_in_privileged_mode_def aget_def)
  moreover have "cfg (prints ?s ?q) = ?c" using f by (simp add: cparser_input_reset_def)
  moreover have "editing ((prints ?s ?q)\<lparr>finished := False\<rparr>) (cfg_root c) (new_editor ?s)"
  proof -
    let ?r = "(prints ?s ?q)\<lparr>finished := False\<rparr>"
    have "mode_ok ?r (cfg_root c)"
      using c f p0 by (simp add: mode_ok_def cparser_input_reset_def aget_def cfg_ok_def erases_def)
    moreover have "lines_ok ?r (new_editor ?s)"
      using f empty_line_rep by (simp add: lines_ok_def cparser_input_reset_def new_editor_def text_ok_def CPARSER_MAX_LINES_def CPARSER_MAX_TOKEN_SIZE_def)
    moreover have "in_step ?r (cfg_root c) (new_editor ?s)"
      using q(2) fsm_rep_cong [of ?r q] by (simp add: in_step_def new_editor_def etext_def ecur_def cparser_input_reset_def)
    moreover have "displayed ?r (new_editor ?s)"
    proof -
      have "printable ?s" using c(4) by (auto simp: printable_def prompt_text_def dest: in_set_takeD)
      then have "screen ?s = (?s, length ?s)" using tty_text [of ?s "[]" 0 "[]"] by (simp add: screen_def)
      then show ?thesis
        using f p0 ss by (simp add: displayed_def shown_prompt_def showing_def new_editor_def etext_def ecur_def cparser_input_reset_def out_prints)
    qed
    ultimately show ?thesis by (simp add: editing_def)
  qed
  ultimately show ?thesis by blast
qed

text \<open>
  C34: From the first prompt on, and for every sequence of keys that edit (characters, erase, the four
  arrows, first and last), the run returns, and the text and the cursor in the current line buffer are
  those of an editor without buffers, as long as lines have less than 256 characters. The state machine has read the part of the line before the
  cursor and nothing else. As long as lines of the history were only left with the cursor at their end,
  the terminal shows the prompt and the text with the cursor in its place, and blanks behind them.
\<close>

theorem run_edits_in_step:
  assumes "cfg_ok c" "ch_erase c \<noteq> NUL" "root_ok (cfg_root c)" "printable (cfg_prompt c)"
    and "roots p0 \<noteq> []" "prompts p0 \<noteq> []" "out p0 = []" and "keys_ok c (new_editor pr) ks" and "pr = prompt_text (cfg_prompt c)"
  shows "\<exists>p q. cparser_init c p0 = Some (CPARSER_OK, p) \<and> cparser_run env ks p = Some (CPARSER_OK, q) \<and>
    (let e = fold (ekey c) ks (new_editor pr) in
       at_line q (etext e) (ecur e) \<and> fsm_rep q (parse_of (NODE_USABLE q) (cfg_root c) (take (ecur e) (etext e))) \<and>
       (clean e \<and> cfg_fd c \<noteq> -1 \<longrightarrow> showing (screen (out q)) (eprompt e @ etext e) (length (eprompt e) + ecur e)))"
proof -
  obtain p q where i: "cparser_init c p0 = Some (CPARSER_OK, p)" "cparser_print_prompt p = Some q"
    "editing (q\<lparr>finished := False\<rparr>) (cfg_root c) (new_editor pr)" "cfg q = c\<lparr>cfg_prompt := pr\<rparr>"
    using init_editing [OF assms(1-7)] assms(9) by blast
  obtain r where r: "cparser_run_loop env ks (q\<lparr>finished := False\<rparr>) = Some r"
    "editing r (cfg_root c) (fold (ekey c) ks (new_editor pr))" "cfg r = cfg q"
    using editing_keys [OF i(3), of ks env] assms(8) i(4) by (auto simp: keys_prompt)
  have "cparser_run env ks p = Some (CPARSER_OK, r)" using i(2) r(1) by (simp add: cparser_run_def)
  then show ?thesis
    using i(1,4) r(2,3) lines_ok_at(1) by (fastforce simp: Let_def editing_def in_step_def displayed_def)
qed

theorem run_edits_in_step_witness:
  "\<forall>env. \<exists>p q. cparser_init (cfg sample_parser) sample_parser = Some (CPARSER_OK, p) \<and>
     cparser_run env [(CHR ''s'', CPARSER_CHAR_REGULAR), (CHR ''o'', CPARSER_CHAR_REGULAR), (NUL, CPARSER_CHAR_LEFT_ARROW), (CHR ''h'', CPARSER_CHAR_REGULAR)] p =
       Some (CPARSER_OK, q) \<and>
     at_line q ''sho'' 2 \<and> fsm_rep q (parse_of (NODE_USABLE q) sample_root ''sh'') \<and> showing (screen (out q)) ''> sho'' 4"
proof -
  let ?c = "cfg sample_parser"
  let ?ks = "[(CHR ''s'', CPARSER_CHAR_REGULAR), (CHR ''o'', CPARSER_CHAR_REGULAR), (NUL, CPARSER_CHAR_LEFT_ARROW), (CHR ''h'', CPARSER_CHAR_REGULAR)]"
  have c: "cfg_ok ?c" "ch_erase ?c \<noteq> NUL" "root_ok (cfg_root ?c)" "printable (cfg_prompt ?c)"
    "roots sample_parser \<noteq> []" "prompts sample_parser \<noteq> []" "out sample_parser = []" "''> '' = prompt_text (cfg_prompt ?c)"
    using sample_root_ok by (simp_all add: sample_parser_def cfg_ok_def erases_def printable_def prompt_text_def CPARSER_MAX_PROMPT_def)
  have k: "keys_ok ?c (new_editor ''> '') ?ks" and e: "fold (ekey ?c) ?ks (new_editor ''> '') = \<lparr>epriv = False, eprompt = ''> '', elines = [(''sho'', 2)], eidx = 0, clean = True\<rparr>"
    by (simp_all add: sample_parser_def char_ok_def erases_def eregular_def eput_def etext_def ecur_def new_editor_def CPARSER_MAX_TOKEN_SIZE_def Let_def)
  have n: "Suc (Suc (Suc (Suc 0))) = 4" by simp
  show ?thesis
    using run_edits_in_step [OF c(1-7) k c(8)] unfolding e by (simp add: sample_parser_def etext_def ecur_def Let_def n)
qed

end
