(* ===== verification/Cli_Command.thy ===== *)
theory Cli_Command
  imports Cli_Edit
begin

text \<open>
  What the enter key does with the line. The words of the line name a command of the tree; a last
  word that is an abbreviation is completed, and keywords that are the only way on are added. Then the
  function behind the end node runs, or an error is printed.
\<close>

section \<open>Trees of commands\<close>

text \<open>Keywords that can be typed, and nodes that lead somewhere.\<close>

definition word_ok :: "cparser_cfg \<Rightarrow> string \<Rightarrow> bool" where
  "word_ok c w \<longleftrightarrow> w \<noteq> [] \<and> hd w \<noteq> CHR ''.'' \<and> (\<forall>ch\<in>set w. char_ok c ch \<and> ch \<noteq> CHR '' '')"

fun cmd_ok :: "cparser_cfg \<Rightarrow> cparser_node \<Rightarrow> bool" where
  "cmd_ok c (Node ty fl pa de cs) \<longleftrightarrow> (ty = CPARSER_NODE_KEYWORD \<longrightarrow> (\<forall>kw. pa = Str kw \<longrightarrow> word_ok c kw)) \<and>
     (if ty = CPARSER_NODE_END then \<exists>g. pa = Glue g else cs \<noteq> [] \<and> (\<forall>n\<in>set cs. cmd_ok c n))"

lemma cmd_child: "cmd_ok c n \<Longrightarrow> ntype n \<noteq> CPARSER_NODE_END \<Longrightarrow> x \<in> set (nchildren n) \<Longrightarrow> cmd_ok c x"
  by (cases n) auto

lemma cmd_children: "cmd_ok c n \<Longrightarrow> ntype n \<noteq> CPARSER_NODE_END \<Longrightarrow> nchildren n \<noteq> []"
  by (cases n) auto

lemma cmd_keyword: "cmd_ok c n \<Longrightarrow> ntype n = CPARSER_NODE_KEYWORD \<Longrightarrow> nparam n = Str kw \<Longrightarrow> word_ok c kw"
  by (cases n) auto

text \<open>The word that a node makes of what was typed, and the words that follow because there is no choice.\<close>

definition full_word :: "cparser_node \<Rightarrow> string \<Rightarrow> string" where
  "full_word n w = (case nparam n of Str kw \<Rightarrow> (if ntype n = CPARSER_NODE_KEYWORD then kw else w) | _ \<Rightarrow> w)"

fun run_on :: "(cparser_node \<Rightarrow> bool) \<Rightarrow> cparser_node \<Rightarrow> string list \<times> cparser_node" where
  "run_on u (Node ty fl pa de [n]) =
     (if ntype n = CPARSER_NODE_KEYWORD \<and> u n then (full_word n [] # fst (run_on u n), snd (run_on u n))
      else ([], Node ty fl pa de [n]))"
| "run_on u (Node ty fl pa de cs) = ([], Node ty fl pa de cs)"

section \<open>Completed words lead to the same node\<close>

lemma float_loop_prefix: "fst (float_loop pt (w @ v)) = CPARSER_OK \<Longrightarrow> fst (float_loop pt w) = CPARSER_OK"
  by (auto simp: float_loop_digits)

lemma float_prefix:
  assumes "a_match c (w @ v)" and "ntype c = CPARSER_NODE_FLOAT" and "w \<noteq> []" and "hd w \<noteq> CHR ''.''"
  shows "a_match c w"
proof -
  have ok: "a_match c x \<longleftrightarrow> (\<exists>y. cparser_match_float x c = Some y \<and> fst y = CPARSER_OK)" for x
    using assms(2) by (auto simp: a_match_def)
  obtain a r where w: "w = a # r" "a \<noteq> CHR ''.''" using assms(3,4) by (cases w) auto
  show ?thesis
  proof (cases r)
    case Nil
    then show ?thesis
      using assms(1) w float_loop_prefix [of False "[a]" v] by (auto simp: ok cparser_match_float_def Let_def split: if_splits)
  next
    case (Cons b t)
    then show ?thesis
      using assms(1) w float_loop_prefix [of False "a # b # t" v] float_loop_prefix [of False "b # t" v]
      by (auto simp: ok cparser_match_float_def Let_def prod_eq_iff split: if_splits)
  qed
qed

lemma match_prefix:
  assumes "child_ok c" and "a_match c (w @ v)" and "w \<noteq> []" and "hd w \<noteq> CHR ''.''"
  shows "a_match c w"
proof (cases "regular_type c")
  case True
  then show ?thesis
    using match_decides [OF True, of w] match_decides [OF True, of "w @ v"] assms(2,3)
    by (auto simp: decides_def a_match_def)
next
  case False
  then consider "ntype c = CPARSER_NODE_FLOAT" | "ntype c = CPARSER_NODE_LIST"
    using assms(1) by (auto simp: child_ok_def regular_type_def)
  then show ?thesis
  proof cases
    case 1
    then show ?thesis using float_prefix assms by blast
  next
    case 2
    then obtain kws where k: "nparam c = Keywords kws" "kws \<noteq> []" using assms(1) by (auto simp: child_ok_def)
    have "strncmp_eq (w @ v) kw (length (w @ v)) \<Longrightarrow> strncmp_eq w kw (length w)" for kw
      by (simp add: strncmp_eq_def append_eq_conv_conj min_def split: if_splits)
    then show ?thesis using assms(2) 2 k by (auto simp: a_match_def cparser_match_list_def filter_empty_conv Let_def split: if_splits)
  qed
qed

text \<open>A keyword that was abbreviated leads to its node also when it is written out.\<close>

lemma filter_subset_single: "filter P xs = [x] \<Longrightarrow> (\<And>y. y \<in> set xs \<Longrightarrow> Q y \<Longrightarrow> P y) \<Longrightarrow> Q x \<Longrightarrow> filter Q xs = [x]"
  by (induction xs) (auto split: if_splits simp: filter_empty_conv)

lemma keyword_match:
  assumes "ntype n = CPARSER_NODE_KEYWORD" and "nparam n = Str kw" and "w \<noteq> []"
  shows "a_match n w \<longleftrightarrow> w = take (length w) kw" and "full_match n w \<longleftrightarrow> w = kw"
  using assms by (auto simp: a_match_def full_match_def cparser_match_keyword_def strncmp_eq_def Let_def min_def not_le dest: arg_cong [of _ _ length])

lemma keyword_starts:
  assumes "x \<in> set (nchildren n)" and "ntype x = CPARSER_NODE_KEYWORD" and "nparam x = Str kw" and "u x"
  shows "starts u n kw"
  unfolding starts_def opens_def
proof (intro allI impI)
  fix k assume k: "0 < k \<and> k \<le> length kw"
  then have "take k kw \<noteq> []" by auto
  then have "a_match x (take k kw)" using keyword_match(1) [OF assms(2,3), of "take k kw"] k by (simp add: min_def)
  then show "\<exists>c\<in>set (nchildren n). u c \<and> a_match c (take k kw)" using assms by blast
qed

lemma closes_complete:
  assumes ok: "\<forall>x\<in>set (nchildren n). child_ok x" and w: "w \<noteq> []" and cl: "closes u n w = Some m" and st: "starts u n w"
    and kw: "\<And>kw. ntype m = CPARSER_NODE_KEYWORD \<Longrightarrow> nparam m = Str kw \<Longrightarrow> kw \<noteq> [] \<and> hd kw \<noteq> CHR ''.''"
  shows "starts u n (full_word m w) \<and> closes u n (full_word m w) = Some m"
proof (cases "ntype m = CPARSER_NODE_KEYWORD")
  case False
  then show ?thesis using cl st by (auto simp: full_word_def split: node_param.splits)
next
  case True
  note m = closes_child [OF cl]
  obtain k where k: "nparam m = Str k" using m ok True by (auto simp: child_ok_def)
  have f: "full_word m w = k" using k True by (simp add: full_word_def)
  show ?thesis
  proof (cases "w = k")
    case True
    then show ?thesis using cl st f by simp
  next
    case False
    have p: "w = take (length w) k" using keyword_match(1) [OF True k w] m by simp
    then have kd: "k = w @ drop (length w) k" by (metis append_take_drop_id)
    then have hd: "hd w \<noteq> CHR ''.''" using kw [OF True k] w by (metis hd_append2)
    have km: "a_match m k" using keyword_match(1) [OF True k, of k] kw [OF True k] by simp
    have "\<not> full_match m w" using keyword_match(2) [OF True k w] False by simp
    then have "filter (\<lambda>c. u c \<and> a_match c w) (nchildren n) = [m]"
      using cl by (auto simp: closes_def find_Some_iff split: list.splits if_splits)
    then have "filter (\<lambda>c. u c \<and> a_match c k) (nchildren n) = [m]"
    proof (rule filter_subset_single)
      show "u y \<and> a_match y w" if "y \<in> set (nchildren n)" "u y \<and> a_match y k" for y
        using match_prefix [of y w "drop (length w) k"] that ok kd w hd by auto
    qed (use m km in simp)
    then show ?thesis using f keyword_starts [OF _ True k] m True by (simp add: closes_def)
  qed
qed

text \<open>A keyword that is the only child is the way on.\<close>

lemma closes_only:
  assumes "nchildren n = [x]" and "ntype x = CPARSER_NODE_KEYWORD" and "nparam x = Str kw" and "kw \<noteq> []" and "u x"
  shows "starts u n kw" and "closes u n kw = Some x"
  using assms keyword_starts [of x n kw u] keyword_match(1) [OF assms(2,3), of kw] by (auto simp: closes_def)

section \<open>Texts and words\<close>

lemma split_text_word: "CHR '' '' \<notin> set v \<Longrightarrow> split_text (s @ v) = (fst (split_text s), snd (split_text s) @ v)"
proof (induction v rule: rev_induct)
  case (snoc c v)
  then show ?case using split_text_snoc [of "s @ v" c] by auto
qed simp

lemma split_text_blank: "split_text s = (ws, w) \<Longrightarrow> w \<noteq> [] \<Longrightarrow> split_text (s @ '' '') = (ws @ [w], [])"
  by (simp add: split_text_snoc)

lemma path_ok:
  "path u root ws = Some n \<Longrightarrow> tree_ok root \<Longrightarrow> cmd_ok c root \<Longrightarrow> ntype root \<noteq> CPARSER_NODE_END \<Longrightarrow>
    tree_ok n \<and> cmd_ok c n \<and> ntype n \<noteq> CPARSER_NODE_END"
proof (induction ws arbitrary: root)
  case (Cons w ws)
  then obtain m where m: "closes u root w = Some m" "path u m ws = Some n" by (auto split: if_splits option.splits)
  show ?case
    using Cons.IH [OF m(2)] closes_child [OF m(1)] closes_not_end [OF m(1)] tree_child [of root m] cmd_child [of c root m] Cons.prems by blast
qed simp

section \<open>Execution of the words read so far\<close>

text \<open>
  The execution enters characters itself, and needs of the state only that they extend the text the
  state machine has read. The locale is this contract: the invariant holds of a state with some
  description of it, the description has a text, and entered characters extend it.
\<close>

abbreviation keyed :: "cli_env \<Rightarrow> keys" where
  "keyed env \<equiv> (\<lambda>c. cparser_call env (Key c CPARSER_CHAR_REGULAR))"

abbreviation executing :: "cli_env \<Rightarrow> cparser \<Rightarrow> (cparser_result \<times> cparser) option" where
  "executing env p \<equiv> cparser_execute_cmd env (keyed env) (cparser_call env Keywording) p"

definition cli_ok :: "cparser_cfg \<Rightarrow> cparser_node \<Rightarrow> bool" where
  "cli_ok c root \<longleftrightarrow> cmd_ok c root \<and> char_ok c (CHR '' '') \<and> ch_complete c \<noteq> LF \<and> ch_help c \<noteq> LF \<and> \<not> erases c LF"

definition line_of :: "string list \<Rightarrow> string" where
  "line_of vs = concat (map (\<lambda>v. v @ '' '') vs)"

lemma feed_append: "feed inp (v @ v') p = do { p \<leftarrow> feed inp v p; feed inp v' p }"
  by (induction v arbitrary: p) (auto split: Option.bind_splits)

lemma full_word_rest:
  assumes "child_ok m" and "a_match m w" and "w \<noteq> []" and "\<And>kw. ntype m = CPARSER_NODE_KEYWORD \<Longrightarrow> nparam m = Str kw \<Longrightarrow> word_ok c kw"
  shows "w @ drop (length w) (full_word m w) = full_word m w" and "length w \<le> length (full_word m w)"
    and "\<forall>ch\<in>set (drop (length w) (full_word m w)). char_ok c ch \<and> ch \<noteq> CHR '' ''"
proof -
  have "w @ drop (length w) (full_word m w) = full_word m w \<and> (\<forall>ch\<in>set (drop (length w) (full_word m w)). char_ok c ch \<and> ch \<noteq> CHR '' '')"
  proof (cases "ntype m = CPARSER_NODE_KEYWORD")
    case True
    then obtain kw where k: "nparam m = Str kw" using assms(1) by (auto simp: child_ok_def)
    have "w = take (length w) kw" using keyword_match(1) [OF True k assms(3)] assms(2) by simp
    then have "w @ drop (length w) kw = kw" by (metis append_take_drop_id)
    then show ?thesis using assms(4) [OF True k] True k by (auto simp: full_word_def word_ok_def dest: in_set_dropD)
  next
    case False
    then show ?thesis by (simp add: full_word_def split: node_param.splits)
  qed
  then show w: "w @ drop (length w) (full_word m w) = full_word m w" and "\<forall>ch\<in>set (drop (length w) (full_word m w)). char_ok c ch \<and> ch \<noteq> CHR '' ''"
    by auto
  show "length w \<le> length (full_word m w)" using arg_cong [OF w, of length] by simp
qed

lemma keywording_unfold:
  "cparser_call env Keywording p = do { (again, p) \<leftarrow> execute_keyword (keyed env) p; if again then cparser_call env Keywording p else Some (CPARSER_OK, p) }"
  by (subst cparser_call.simps) (simp add: call_body_def)

lemma run_on_cases:
  assumes "run_on u n = (vs, k)"
  obtains "vs = []" "k = n" "\<not> (\<exists>x. nchildren n = [x] \<and> ntype x = CPARSER_NODE_KEYWORD \<and> u x)"
  | x vs' where "nchildren n = [x]" "ntype x = CPARSER_NODE_KEYWORD" "u x" "vs = full_word x [] # vs'" "run_on u x = (vs', k)"
  using assms by (cases "(u, n)" rule: run_on.cases) (auto split: if_splits)

lemma execute_words:
  assumes "state p \<noteq> CPARSER_STATE_ERROR"
  shows "executing env p = do {
    (ok, p) \<leftarrow> (if state p = CPARSER_STATE_TOKEN then execute_token (glob_fn env) (keyed env) p else Some (True, p));
    if \<not> ok then incomplete_command p else do { (rc, p) \<leftarrow> cparser_call env Keywording p; execute_end env p } }"
  using assms by (simp add: cparser_execute_cmd_def)

datatype outcome = Bad | Unfinished string | Nothing string | Run "string list" string cparser_node

text \<open>
  The last two functions say what a line means: the words that follow without a choice are added, and
  the first end node that can be used decides; before that the last word is completed. The texts are
  the line with everything that was added.
\<close>

definition ending :: "(cparser_node \<Rightarrow> bool) \<Rightarrow> string list \<Rightarrow> string \<Rightarrow> cparser_node \<Rightarrow> outcome" where
  "ending u ws s n = (let (vs, k) = run_on u n; t = s @ line_of vs in
     case find (\<lambda>x. ntype x = CPARSER_NODE_END \<and> u x) (nchildren k) of
       Some x \<Rightarrow> Run (ws @ vs) t x
     | None \<Rightarrow> (if ws @ vs = [] then Nothing t else Unfinished t))"

definition meaning :: "(cparser_node \<Rightarrow> bool) \<Rightarrow> cparser_node \<Rightarrow> string \<Rightarrow> outcome" where
  "meaning u root s = (case split_text s of (ws, w) \<Rightarrow>
     (case path u root ws of
        None \<Rightarrow> Bad
      | Some n \<Rightarrow>
          (if \<not> starts u n w then Bad
           else if w = [] then ending u ws s n
           else (case closes u n w of
               None \<Rightarrow> Unfinished s
             | Some m \<Rightarrow> ending u (ws @ [full_word m w]) (s @ drop (length w) (full_word m w) @ '' '') m))))"

fun line_after :: "string \<Rightarrow> outcome \<Rightarrow> string" where
  "line_after s Bad = s" | "line_after s (Unfinished t) = t" | "line_after s (Nothing t) = t" | "line_after s (Run ws t x) = t"

text \<open>The completion of the last word does not ask the file system or a list of words.\<close>

definition plain_word :: "(cparser_node \<Rightarrow> bool) \<Rightarrow> cparser_node \<Rightarrow> string \<Rightarrow> bool" where
  "plain_word u root s = (case split_text s of (ws, w) \<Rightarrow>
     (case path u root ws of None \<Rightarrow> True
      | Some n \<Rightarrow> (case closes u n w of None \<Rightarrow> True | Some m \<Rightarrow> ntype m \<noteq> CPARSER_NODE_FILE \<and> ntype m \<noteq> CPARSER_NODE_LIST)))"

lemma ending_not_bad: "ending u ws s n \<noteq> Bad"
  by (auto simp: ending_def Let_def split: prod.splits option.splits)


text \<open>The text that the execution adds to a line.\<close>

definition added :: "string \<Rightarrow> outcome \<Rightarrow> string" where
  "added s d = drop (length s) (line_after s d)"

lemma ending_added: "\<exists>v. \<forall>s'. line_after s' (ending u ws s n) = s @ v"
  by (auto simp: ending_def Let_def split: prod.splits option.splits)

lemma meaning_added: "\<exists>v. line_after s (meaning u root s) = s @ v"
proof -
  have "\<exists>v. line_after s (ending u ws (s @ v') n) = s @ v" for ws v' n
    using ending_added [of u ws "s @ v'" n] by auto
  note this [of _ "[]"] this
  then show ?thesis by (auto simp: meaning_def split: prod.splits option.splits)
qed

text \<open>The rest of the execution, in a state where everything was added.\<close>

definition conclude :: "cli_env \<Rightarrow> outcome \<Rightarrow> cparser \<Rightarrow> (cparser_result \<times> cparser) option" where
  "conclude env d q = (case d of
     Bad \<Rightarrow> do { q \<leftarrow> cparser_print_error (''Parse error'' @ [LF]) q; finish_command CPARSER_ERR_PARSE_ERR q }
   | Unfinished t \<Rightarrow> incomplete_command q
   | Nothing t \<Rightarrow> do { q \<leftarrow> cparser_fsm_reset (cparser_record_command CPARSER_OK q); q \<leftarrow> cparser_print_prompt (printc LF q); Some (CPARSER_OK, q) }
   | Run ws t x \<Rightarrow> (case nparam x of Glue g \<Rightarrow> do { (rc, q) \<leftarrow> glue_fn env g (printc LF (q\<lparr>cur_node := x\<rparr>)); finish_command rc q } | _ \<Rightarrow> None))"

definition ready :: "outcome \<Rightarrow> cparser \<Rightarrow> bool" where
  "ready d q = (case d of Run ws t x \<Rightarrow> (\<exists>g. nparam x = Glue g) \<and> map tok_chars (take (token_tos q) (tokens q)) = map Some ws | _ \<Rightarrow> True)"

locale typing =
  fixes typed :: "cparser \<Rightarrow> cparser_node \<Rightarrow> 's \<Rightarrow> bool" and said :: "'s \<Rightarrow> string" and more :: "'s \<Rightarrow> string \<Rightarrow> 's"
  assumes typed_fsm: "typed p root e \<Longrightarrow> root_ok root \<and> fsm_rep p (parse_of (NODE_USABLE p) root (said e)) \<and> length (said e) < CPARSER_MAX_TOKEN_SIZE"
    and typed_feed: "typed p root e \<Longrightarrow> \<forall>ch\<in>set v. char_ok (cfg p) ch \<Longrightarrow> length (said e @ v) < CPARSER_MAX_TOKEN_SIZE \<Longrightarrow>
      \<exists>p'. feed (keyed env) v p = Some p' \<and> typed p' root (more e v) \<and> cfg p' = cfg p \<and> NODE_USABLE p' = NODE_USABLE p"
    and said_more: "typed p root e \<Longrightarrow> said (more e v) = said e @ v"
    and more_more: "typed p root e \<Longrightarrow> more (more e v) v' = more e (v @ v')"
    and more_Nil: "typed p root e \<Longrightarrow> more e [] = e"
begin

lemma typed_words:
  assumes "typed p root e" and "split_text (said e) = (ws, w)" and "path (NODE_USABLE p) root ws = Some n" and "starts (NODE_USABLE p) n w"
  shows "cur_node p = n" and "state p = (if w = [] then CPARSER_STATE_WHITESPACE else CPARSER_STATE_TOKEN)"
    and "map tok_chars (take (token_tos p) (tokens p)) = map Some ws" and "token_tos p = length ws"
    and "\<exists>t. CUR_TOKEN p = Some t \<and> tok_chars t = Some w \<and> token_len t = length w"
proof -
  let ?a = "parse_of (NODE_USABLE p) root (said e)"
  have rep: "fsm_rep p ?a" using typed_fsm [OF assms(1)] by simp
  have "length (said e) \<le> CPARSER_MAX_TOKEN_SIZE" using typed_fsm [OF assms(1)] by simp
  then have d: "map cword (pstack ?a) = ws" "pcur ?a = n" "pword ?a = w" "pstate ?a = (if w = [] then CPARSER_STATE_WHITESPACE else CPARSER_STATE_TOKEN)"
    using parse_described [of "said e" "NODE_USABLE p" root] assms(2-4) by (auto simp: described_def)
  note f = fsm_rep_fields [OF rep]
  show "cur_node p = n" "state p = (if w = [] then CPARSER_STATE_WHITESPACE else CPARSER_STATE_TOKEN)"
    "map tok_chars (take (token_tos p) (tokens p)) = map Some ws" "token_tos p = length ws"
    using f d by auto
  obtain b where "stack_rep p (pstack ?a) b w"
    using rep d by (cases ?a) (auto simp: fsm_rep_def split: if_splits)
  then have "CUR_TOKEN p = Some (tokens p ! token_tos p)" "tok_rep (tokens p ! token_tos p) b w None"
    by (auto simp: stack_rep_def CUR_TOKEN_def aget_def)
  then show "\<exists>t. CUR_TOKEN p = Some t \<and> tok_chars t = Some w \<and> token_len t = length w"
    using tok_rep_chars by (auto simp: tok_rep_def)
qed

lemma typed_error:
  assumes "typed p root e" and "meaning (NODE_USABLE p) root (said e) = Bad"
  shows "state p = CPARSER_STATE_ERROR"
proof -
  let ?u = "NODE_USABLE p"
  obtain ws w where s: "split_text (said e) = (ws, w)" by fastforce
  have rep: "fsm_rep p (parse_of ?u root (said e))" "length (said e) \<le> CPARSER_MAX_TOKEN_SIZE" using typed_fsm [OF assms(1)] by auto
  have "case path ?u root ws of None \<Rightarrow> True | Some n \<Rightarrow> \<not> starts ?u n w"
    using assms(2) s ending_not_bad by (auto simp: meaning_def split: option.splits if_splits)
  then show ?thesis
    using parse_described [of "said e" ?u root] s fsm_rep_fields(2) [OF rep(1)] rep(2) by (auto simp: described_def split: option.splits)
qed

lemma execute_token_text:
  assumes ed: "typed p root e" and wd: "split_text (said e) = (ws, w)" "w \<noteq> []"
    and n: "path (NODE_USABLE p) root ws = Some n" "starts (NODE_USABLE p) n w" and ok: "cli_ok (cfg p) root"
  shows "closes (NODE_USABLE p) n w = None \<Longrightarrow> execute_token glob (keyed env) p = Some (False, p)"
    and "closes (NODE_USABLE p) n w = Some m \<Longrightarrow> ntype m \<notin> {CPARSER_NODE_FILE, CPARSER_NODE_LIST} \<Longrightarrow>
      v = drop (length w) (full_word m w) @ '' '' \<Longrightarrow> length (said e @ v) < CPARSER_MAX_TOKEN_SIZE \<Longrightarrow>
      \<exists>p'. execute_token glob (keyed env) p = Some (True, p') \<and> typed p' root (more e v) \<and> cfg p' = cfg p \<and> NODE_USABLE p' = NODE_USABLE p \<and>
        split_text (said e @ v) = (ws @ [full_word m w], []) \<and> path (NODE_USABLE p) root (ws @ [full_word m w]) = Some m"
proof -
  let ?u = "NODE_USABLE p"
  have r: "root_ok root" using typed_fsm [OF ed] by simp
  have nn: "tree_ok n" "cmd_ok (cfg p) n" "ntype n \<noteq> CPARSER_NODE_END"
    using path_ok [OF n(1)] r ok by (auto simp: root_ok_def cli_ok_def)
  have ch: "\<forall>x\<in>set (nchildren n). child_ok x" using tree_child [OF nn(1,3)] by blast
  note k = typed_words [OF ed wd(1) n]
  obtain t where t: "CUR_TOKEN p = Some t" "tok_chars t = Some w" "token_len t = length w" using k(5) by blast
  obtain j x b where j: "cparser_match p w (cur_node p) = Some (j, x, b)" "1 \<le> j \<and> b \<longleftrightarrow> closes ?u n w \<noteq> None" "1 \<le> j \<and> b \<Longrightarrow> x = closes ?u n w"
    using node_match_iff [OF ch wd(2), of ?u] k(1) by (metis cparser_match_def)
  show "execute_token glob (keyed env) p = Some (False, p)" if "closes ?u n w = None"
    using t j that by (auto simp: execute_token_def)
  show "\<exists>p'. execute_token glob (keyed env) p = Some (True, p') \<and> typed p' root (more e v) \<and> cfg p' = cfg p \<and> NODE_USABLE p' = NODE_USABLE p \<and>
      split_text (said e @ v) = (ws @ [full_word m w], []) \<and> path ?u root (ws @ [full_word m w]) = Some m"
    if m: "closes ?u n w = Some m" "ntype m \<notin> {CPARSER_NODE_FILE, CPARSER_NODE_LIST}"
      and v: "v = drop (length w) (full_word m w) @ '' ''" "length (said e @ v) < CPARSER_MAX_TOKEN_SIZE"
  proof -
    note mc = closes_child [OF m(1)]
    have mk: "word_ok (cfg p) kw" if "ntype m = CPARSER_NODE_KEYWORD" "nparam m = Str kw" for kw
      using cmd_keyword cmd_child [OF nn(2,3)] mc that by blast
    have full: "starts ?u n (full_word m w) \<and> closes ?u n (full_word m w) = Some m"
      using closes_complete [OF ch wd(2) m(1) n(2)] mk by (auto simp: word_ok_def)
    note w = full_word_rest [of m w "cfg p", OF _ _ wd(2) mk]
    have mo: "child_ok m" "a_match m w" using mc ch by auto
    have "\<forall>c\<in>set v. char_ok (cfg p) c" using w(3) [OF mo] ok v(1) by (auto simp: cli_ok_def)
    then obtain p' where p': "feed (keyed env) v p = Some p'" "typed p' root (more e v)" "cfg p' = cfg p" "NODE_USABLE p' = ?u"
      using typed_feed [OF ed, of v env] v(2) by auto
    have "cparser_complete_fn glob (keyed env) m t p = feed (keyed env) (drop (length w) (full_word m w)) p"
      using t m(2) w(2) [OF mo] mo(1) by (auto simp: cparser_complete_fn_def cparser_complete_keyword_def full_word_def child_ok_def split: node_param.splits)
    then have "execute_token glob (keyed env) p = map_option (\<lambda>p. (True, p)) (feed (keyed env) v p)"
      using t j m(1) v(1) by (auto simp: execute_token_def feed_append split: Option.bind_splits)
    moreover have "split_text (said e @ v) = (ws @ [full_word m w], [])"
    proof -
      have "split_text (said e @ drop (length w) (full_word m w)) = (ws, full_word m w)"
        using split_text_word [of "drop (length w) (full_word m w)" "said e"] wd(1) w(1,3) [OF mo] by auto
      moreover have "full_word m w \<noteq> []" using w(2) [OF mo] wd(2) by auto
      ultimately show ?thesis using split_text_blank v(1) by (metis append.assoc)
    qed
    moreover have "path ?u root (ws @ [full_word m w]) = Some m" using full n(1) by (simp add: path_snoc)
    ultimately show ?thesis using p' by simp
  qed
qed

text \<open>The loop over keywords without an alternative.\<close>

lemma execute_keyword_text:
  assumes ed: "typed p root e" and wd: "split_text (said e) = (ws, [])" and n: "path (NODE_USABLE p) root ws = Some n"
    and ok: "cli_ok (cfg p) root"
  shows "\<not> (\<exists>x. nchildren n = [x] \<and> ntype x = CPARSER_NODE_KEYWORD \<and> NODE_USABLE p x) \<Longrightarrow> execute_keyword (keyed env) p = Some (False, p)"
    and "nchildren n = [x] \<Longrightarrow> ntype x = CPARSER_NODE_KEYWORD \<Longrightarrow> NODE_USABLE p x \<Longrightarrow> v = full_word x [] \<Longrightarrow>
      length (said e @ v @ '' '') < CPARSER_MAX_TOKEN_SIZE \<Longrightarrow>
      \<exists>p'. execute_keyword (keyed env) p = Some (True, p') \<and> typed p' root (more e (v @ '' '')) \<and> cfg p' = cfg p \<and> NODE_USABLE p' = NODE_USABLE p \<and>
        split_text (said e @ v @ '' '') = (ws @ [v], []) \<and> path (NODE_USABLE p) root (ws @ [v]) = Some x"
proof -
  let ?u = "NODE_USABLE p"
  have r: "root_ok root" using typed_fsm [OF ed] by simp
  have nn: "tree_ok n" "cmd_ok (cfg p) n" "ntype n \<noteq> CPARSER_NODE_END"
    using path_ok [OF n] r ok by (auto simp: root_ok_def cli_ok_def)
  note k = typed_words [OF ed wd n starts_Nil]
  obtain t where t: "CUR_TOKEN p = Some t" "token_len t = 0" using k(5) by auto
  show "execute_keyword (keyed env) p = Some (False, p)" if "\<not> (\<exists>x. nchildren n = [x] \<and> ntype x = CPARSER_NODE_KEYWORD \<and> ?u x)"
    using that cmd_children [OF nn(2,3)] k(1) by (auto simp: execute_keyword_def split: list.splits)
  show "\<exists>p'. execute_keyword (keyed env) p = Some (True, p') \<and> typed p' root (more e (v @ '' '')) \<and> cfg p' = cfg p \<and> NODE_USABLE p' = NODE_USABLE p \<and>
      split_text (said e @ v @ '' '') = (ws @ [v], []) \<and> path ?u root (ws @ [v]) = Some x"
    if x: "nchildren n = [x]" "ntype x = CPARSER_NODE_KEYWORD" "?u x" and v: "v = full_word x []" "length (said e @ v @ '' '') < CPARSER_MAX_TOKEN_SIZE"
  proof -
    have "child_ok x" using tree_child [OF nn(1,3)] x(1) by simp
    then have p: "nparam x = Str v" using x(2) v(1) by (auto simp: child_ok_def full_word_def)
    have w: "word_ok (cfg p) v" using cmd_keyword [OF cmd_child [OF nn(2,3)]] x p by simp
    then have "\<forall>c\<in>set (v @ '' ''). char_ok (cfg p) c" using ok by (auto simp: word_ok_def cli_ok_def)
    then obtain p' where p': "feed (keyed env) (v @ '' '') p = Some p'" "typed p' root (more e (v @ '' ''))" "cfg p' = cfg p" "NODE_USABLE p' = ?u"
      using typed_feed [OF ed, of "v @ '' ''" env] v(2) by auto
    have "execute_keyword (keyed env) p = map_option (\<lambda>p. (True, p)) (feed (keyed env) (v @ '' '') p)"
      using x t p k(1) by (auto simp: execute_keyword_def cparser_complete_keyword_def feed_append split: Option.bind_splits)
    moreover have "split_text (said e @ v) = (ws, v)" "v \<noteq> []"
      using split_text_word [of v "said e"] wd w by (auto simp: word_ok_def)
    then have "split_text (said e @ v @ '' '') = (ws @ [v], [])" using split_text_blank by (metis append.assoc)
    moreover have "path ?u root (ws @ [v]) = Some x"
      using closes_only [OF x(1,2) p] x(3) n w by (simp add: path_snoc word_ok_def)
    ultimately show ?thesis using p' by simp
  qed
qed

lemma keywording_text:
  assumes "typed p root e" and "split_text (said e) = (ws, [])" and "path (NODE_USABLE p) root ws = Some n"
    and "cli_ok (cfg p) root" and "run_on (NODE_USABLE p) n = (vs, k)" and "length (said e @ line_of vs) < CPARSER_MAX_TOKEN_SIZE"
  shows "\<exists>p'. cparser_call env Keywording p = Some (CPARSER_OK, p') \<and> typed p' root (more e (line_of vs)) \<and> cfg p' = cfg p \<and>
    NODE_USABLE p' = NODE_USABLE p \<and> split_text (said e @ line_of vs) = (ws @ vs, []) \<and> path (NODE_USABLE p) root (ws @ vs) = Some k"
  using assms
proof (induction vs arbitrary: p e ws n)
  case Nil
  have "\<not> (\<exists>x. nchildren n = [x] \<and> ntype x = CPARSER_NODE_KEYWORD \<and> NODE_USABLE p x)" "k = n"
    using run_on_cases [OF Nil.prems(5)] by blast+
  then show ?case
    using execute_keyword_text(1) [OF Nil.prems(1-4), of env] keywording_unfold [of env p] Nil.prems more_Nil
    by (simp add: line_of_def)
next
  case (Cons v vs)
  let ?u = "NODE_USABLE p"
  obtain x where x: "nchildren n = [x]" "ntype x = CPARSER_NODE_KEYWORD" "?u x" "v = full_word x []" "run_on ?u x = (vs, k)"
    using run_on_cases [OF Cons.prems(5)] by blast
  obtain q where q: "execute_keyword (keyed env) p = Some (True, q)" "typed q root (more e (v @ '' ''))" "cfg q = cfg p" "NODE_USABLE q = ?u"
    "split_text (said e @ v @ '' '') = (ws @ [v], [])" "path ?u root (ws @ [v]) = Some x"
    using execute_keyword_text(2) [OF Cons.prems(1-4) x(1-4), of env] Cons.prems(6) by (auto simp: line_of_def)
  show ?case
    using Cons.IH [OF q(2), of "ws @ [v]" x] q x(5) Cons.prems(1,4,6) keywording_unfold [of env p] said_more more_more
    by (simp add: line_of_def)
qed

text \<open>
  The execution adds what the meaning of the text says and concludes as it says; only the completion of
  a file or a word of a list is left out.
\<close>

lemma ending_cases:
  assumes "typed p root e" and "split_text (said e) = (ws, [])" and "path (NODE_USABLE p) root ws = Some n" and "cli_ok (cfg p) root"
    and "d = ending (NODE_USABLE p) ws (said e) n" and "length (line_after (said e) d) < CPARSER_MAX_TOKEN_SIZE"
  shows "\<exists>q. typed q root (more e (added (said e) d)) \<and> cfg q = cfg p \<and> NODE_USABLE q = NODE_USABLE p \<and> ready d q \<and>
    (do { (rc, q) \<leftarrow> cparser_call env Keywording p; execute_end env q }) = conclude env d q"
proof -
  let ?u = "NODE_USABLE p"
  obtain vs k where vk: "run_on ?u n = (vs, k)" by fastforce
  have v: "line_after (said e) d = said e @ line_of vs" "added (said e) d = line_of vs"
    using assms(5) vk by (auto simp: added_def ending_def Let_def split: option.splits)
  obtain q where q: "cparser_call env Keywording p = Some (CPARSER_OK, q)" "typed q root (more e (line_of vs))" "cfg q = cfg p"
    "NODE_USABLE q = ?u" "split_text (said e @ line_of vs) = (ws @ vs, [])" "path ?u root (ws @ vs) = Some k"
    using keywording_text [OF assms(1-4) vk] assms(6) v(1) by auto
  have k: "cur_node q = k" "token_tos q = length (ws @ vs)" "map tok_chars (take (token_tos q) (tokens q)) = map Some (ws @ vs)"
    using typed_words [OF q(2), of "ws @ vs" "[]" k] q said_more [OF assms(1)] by auto
  have "\<exists>g. nparam x = Glue g" if "find (\<lambda>x. ntype x = CPARSER_NODE_END \<and> ?u x) (nchildren k) = Some x" for x
  proof -
    have "tree_ok root" "ntype root \<noteq> CPARSER_NODE_END" "cmd_ok (cfg p) root" using typed_fsm [OF assms(1)] assms(4) by (auto simp: root_ok_def cli_ok_def)
    then have "cmd_ok (cfg p) x" "ntype x = CPARSER_NODE_END"
      using path_ok [OF q(6)] cmd_child [of "cfg p" k x] that by (auto simp: find_Some_iff)
    then show ?thesis by (cases x) auto
  qed
  then have "ready d q" "execute_end env q = conclude env d q"
    using assms(5) vk k q(4) by (auto simp: ready_def execute_end_def conclude_def ending_def Let_def split: option.splits)
  then show ?thesis using q(1-4) v(2) by auto
qed

lemma token_cases:
  assumes ed: "typed p root e" and ok: "cli_ok (cfg p) root" and wd: "split_text (said e) = (ws, w)" "w \<noteq> []"
    and n: "path (NODE_USABLE p) root ws = Some n" "starts (NODE_USABLE p) n w"
    and m: "closes (NODE_USABLE p) n w = Some m" "ntype m \<notin> {CPARSER_NODE_FILE, CPARSER_NODE_LIST}"
    and d: "d = ending (NODE_USABLE p) (ws @ [full_word m w]) (said e @ drop (length w) (full_word m w) @ '' '') m"
    and len: "length (line_after (said e) d) < CPARSER_MAX_TOKEN_SIZE"
  shows "\<exists>q. typed q root (more e (added (said e) d)) \<and> cfg q = cfg p \<and> NODE_USABLE q = NODE_USABLE p \<and> ready d q \<and> executing env p = conclude env d q"
proof -
  let ?v = "drop (length w) (full_word m w) @ '' ''"
  obtain v' where v': "\<And>s. line_after s d = (said e @ ?v) @ v'"
    using ending_added d by blast
  have "length (said e @ ?v) < CPARSER_MAX_TOKEN_SIZE" using len v' by simp
  then obtain q where q: "execute_token (glob_fn env) (keyed env) p = Some (True, q)" "typed q root (more e ?v)" "cfg q = cfg p" "NODE_USABLE q = NODE_USABLE p"
    "split_text (said e @ ?v) = (ws @ [full_word m w], [])" "path (NODE_USABLE p) root (ws @ [full_word m w]) = Some m"
    using execute_token_text(2) [OF ed wd n ok m refl, of "glob_fn env" env] by blast
  note t = said_more [OF ed, of ?v]
  obtain r where r: "typed r root (more (more e ?v) (added (said e @ ?v) d))" "cfg r = cfg q" "NODE_USABLE r = NODE_USABLE q" "ready d r"
    "(do { (rc, q) \<leftarrow> cparser_call env Keywording q; execute_end env q }) = conclude env d r"
    using ending_cases [OF q(2), of "ws @ [full_word m w]" m d env] q t d ok len v' by auto
  have "more (more e ?v) (added (said e @ ?v) d) = more e (added (said e) d)" using more_more [OF ed] v' by (simp add: added_def)
  moreover have "executing env p = do { (rc, q) \<leftarrow> cparser_call env Keywording q; execute_end env q }"
    using execute_words [of p env] typed_words(2) [OF ed wd(1) n] wd(2) q(1) by simp
  ultimately show ?thesis using r q(3,4) by auto
qed

lemma executing_cases:
  assumes "typed p root e" and "cli_ok (cfg p) root" and "plain_word (NODE_USABLE p) root (said e)" and d: "d = meaning (NODE_USABLE p) root (said e)"
    and "length (line_after (said e) d) < CPARSER_MAX_TOKEN_SIZE"
  shows "\<exists>q. typed q root (more e (added (said e) d)) \<and> cfg q = cfg p \<and> NODE_USABLE q = NODE_USABLE p \<and> ready d q \<and> executing env p = conclude env d q"
proof -
  let ?u = "NODE_USABLE p"
  obtain ws w where sp: "split_text (said e) = (ws, w)" by fastforce
  show ?thesis
  proof (cases "d = Bad")
    case True
    then have "executing env p = conclude env d p" using typed_error [OF assms(1)] d by (simp add: conclude_def cparser_execute_cmd_def)
    then show ?thesis using True assms(1) more_Nil by (auto simp: ready_def added_def)
  next
    case False
    then obtain n where n: "path ?u root ws = Some n" "starts ?u n w"
      using d sp by (auto simp: meaning_def split: option.splits if_splits)
    note wd = typed_words(2) [OF assms(1) sp n] and ex = execute_words [of p env]
    consider "w = []" | "w \<noteq> []" "closes ?u n w = None" | m where "w \<noteq> []" "closes ?u n w = Some m" by fastforce
    then show ?thesis
    proof cases
      case 1
      then show ?thesis
        using ending_cases [OF assms(1) _ n(1) assms(2), of d env] d assms(5) sp n wd ex by (simp add: meaning_def)
    next
      case 2
      then have "d = Unfinished (said e)" using d sp n by (simp add: meaning_def)
      then show ?thesis
        using execute_token_text(1) [OF assms(1) sp 2(1) n assms(2) 2(2), of "glob_fn env" env] 2(1) wd ex more_Nil assms(1)
        by (auto simp: ready_def added_def conclude_def)
    next
      case (3 m)
      then show ?thesis
        using token_cases [OF assms(1,2) sp 3(1) n 3(2), of d env] d assms(3,5) sp n by (simp add: meaning_def plain_word_def)
    qed
  qed
qed

end

section \<open>The line that is edited\<close>

definition etyped :: "editor \<Rightarrow> string \<Rightarrow> editor" where
  "etyped e v = eput e (etext e @ v) (length (etext e @ v))"

definition at_end :: "editor \<Rightarrow> bool" where
  "at_end e \<longleftrightarrow> ecur e = length (etext e)"

lemma etyped_simps:
  assumes "eidx e < length (elines e)"
  shows "etext (etyped e v) = etext e @ v" "at_end (etyped e v)" "eidx (etyped e v) = eidx e" "length (elines (etyped e v)) = length (elines e)"
    "etyped (etyped e v) v' = etyped e (v @ v')" "eprompt (etyped e v) = eprompt e" "epriv (etyped e v) = epriv e" "clean (etyped e v) = clean e"
  using assms by (simp_all add: etyped_def at_end_def eput_def etext_def ecur_def)

lemma etyped_Nil: "eidx e < length (elines e) \<Longrightarrow> at_end e \<Longrightarrow> etyped e [] = e"
  using eput_same [of e] by (simp add: etyped_def at_end_def)

lemma editing_usable: "editing p root e \<Longrightarrow> editing q root' e' \<Longrightarrow> epriv e' = epriv e \<Longrightarrow> NODE_USABLE q = NODE_USABLE p"
  using NODE_USABLE_cong [of q p] by (simp add: editing_def displayed_def)

lemma feed_text:
  "editing p root e \<Longrightarrow> at_end e \<Longrightarrow> \<forall>ch\<in>set v. char_ok (cfg p) ch \<Longrightarrow> length (etext e) + length v < CPARSER_MAX_TOKEN_SIZE \<Longrightarrow>
    \<exists>p'. feed (keyed env) v p = Some p' \<and> editing p' root (etyped e v) \<and> cfg p' = cfg p"
proof (induction v arbitrary: p e)
  case Nil
  have "eidx e < length (elines e)" using Nil.prems(1) lines_ok_at(4) by (auto simp: editing_def)
  then show ?case using Nil etyped_Nil by simp
next
  case (Cons c v)
  have i: "eidx e < length (elines e)" using Cons.prems(1) lines_ok_at(4) by (auto simp: editing_def)
  have ch: "char_ok (cfg p) c" "\<not> erases (cfg p) c" using Cons.prems(3) by (auto simp: char_ok_def)
  have "key_ok (cfg p) e (c, CPARSER_CHAR_REGULAR)" using ch Cons.prems(4) by (auto simp: char_ok_def)
  then obtain q where q: "cparser_input env c CPARSER_CHAR_REGULAR p = Some (CPARSER_OK, q)" "editing q root (etyped e [c])" "cfg q = cfg p"
    using key_step_regular [OF Cons.prems(1), of c env] ch(2) Cons.prems(2) by (auto simp: eregular_def etyped_def at_end_def Let_def)
  note s = etyped_simps [OF i]
  show ?case
    using Cons.IH [OF q(2) s(2)] Cons.prems q s by (auto simp: cparser_input_def)
qed

interpretation ln: typing "\<lambda>p root e. editing p root e \<and> at_end e" etext etyped
proof (unfold_locales, goal_cases)
  case (1 p root e)
  then have "lines_ok p e" by (simp add: editing_def)
  then show ?case using 1 editing_parts(1,4) [of p root e] lines_ok_at(2) [of p e] by (simp add: at_end_def text_ok_def)
next
  case (2 p root e v env)
  then have "eidx e < length (elines e)" using lines_ok_at(4) by (auto simp: editing_def)
  then show ?case
    using feed_text [of p root e v env] 2 etyped_simps [of e v] editing_usable [of p root e _ root "etyped e v"] by fastforce
next
  case (3 p root e v)
  then show ?case using etyped_simps(1) lines_ok_at(4) by (auto simp: editing_def)
next
  case (4 p root e v v')
  then show ?case using etyped_simps(5) lines_ok_at(4) by (auto simp: editing_def)
next
  case (5 p root e)
  then show ?case using etyped_Nil lines_ok_at(4) by (auto simp: editing_def)
qed

section \<open>The next prompt\<close>

text \<open>The next line becomes the current one, and is empty.\<close>

definition eenter :: "editor \<Rightarrow> editor" where
  "eenter e = (let n = (if CPARSER_MAX_LINES \<le> Suc (eidx e) then 0 else Suc (eidx e)) in
     e\<lparr>elines := (if n < length (elines e) then (elines e)[n := ([], 0)] else elines e @ [([], 0)]), eidx := n, clean := True\<rparr>)"

text \<open>The lines and the mode are as the editor has them, whatever the state machine and the terminal show.\<close>

definition settled :: "cparser \<Rightarrow> cparser_node \<Rightarrow> editor \<Rightarrow> bool" where
  "settled p root e \<longleftrightarrow> mode_ok p root \<and> lines_ok p e \<and> is_privileged_mode p = epriv e \<and> shown_prompt p = eprompt e \<and> printable (eprompt e)"

lemma settled_editing: "editing p root e \<Longrightarrow> printable (eprompt e) \<Longrightarrow> settled p root e"
  by (simp add: editing_def displayed_def settled_def)

lemma settled_prints [simp]: "settled (prints w p) root e = settled p root e" "settled (p\<lparr>cur_node := x\<rparr>) root e = settled p root e"
  by (simp_all add: settled_def mode_ok_def lines_ok_def shown_prompt_def)

lemma screen_LF [simp]: "screen (w @ [LF]) = ([], 0)"
  by (cases "screen w") (simp add: screen_append)

lemma reset_settled:
  assumes "settled p root e"
  shows "\<exists>q. cparser_fsm_reset (cparser_record_command rc p) = Some q \<and> settled q root e \<and> fsm_rep q (parse_of u root []) \<and> out q = out p \<and> cfg q = cfg p"
proof -
  let ?p = "cparser_record_command rc p"
  have r: "aget (roots ?p) (root_level ?p) = Some root" using assms by (simp add: settled_def mode_ok_def cparser_record_command_def)
  obtain q where q: "cparser_fsm_reset ?p = Some q" "fsm_rep q (parse_of u root [])" "fsm_frame ?p q"
    using fsm_reset_text [OF r, of u] by blast
  note f = fsm_frameD [OF q(3), unfolded cparser_record_command_def, simplified]
  have "shown_prompt q = shown_prompt p" using f by (simp add: shown_prompt_def)
  then have "settled q root e" using assms f by (simp add: settled_def mode_ok_def lines_ok_def)
  then show ?thesis using q f by auto
qed

lemma eenter_simps:
  assumes "eidx e < length (elines e)" and "length (elines e) \<le> CPARSER_MAX_LINES"
  shows "etext (eenter e) = []" "ecur (eenter e) = 0" "eprompt (eenter e) = eprompt e" "epriv (eenter e) = epriv e" "clean (eenter e)"
  using assms by (auto simp: eenter_def etext_def ecur_def Let_def nth_append)

lemma lines_ok_enter:
  assumes "lines_ok q e" and "n = (if CPARSER_MAX_LINES \<le> Suc (eidx e) then 0 else Suc (eidx e))" and "cfg q' = cfg q"
  shows "lines_ok (q'\<lparr>cur_line := n, max_line := max (max_line q) n, lines := (lines q)[n := empty_line]\<rparr>) (eenter e)"
proof -
  have "n < CPARSER_MAX_LINES" "text_ok (cfg q) []" using assms(2) by (simp_all add: CPARSER_MAX_LINES_def text_ok_def CPARSER_MAX_TOKEN_SIZE_def)
  moreover have "eenter e = e\<lparr>elines := (if n < length (elines e) then (elines e)[n := ([], 0)] else elines e @ [([], 0)]), eidx := n, clean := True\<rparr>"
    using assms(2) by (simp add: eenter_def Let_def)
  ultimately show ?thesis
    using assms empty_line_rep unfolding lines_ok_def by (auto simp: nth_list_update nth_append max_def)
qed

lemma prompt_advance:
  assumes st: "settled q root e" and rep: "fsm_rep q (parse_of (NODE_USABLE q) root [])" and scr: "cfg_fd (cfg q) \<noteq> -1 \<Longrightarrow> screen (out q) = ([], 0)"
  shows "\<exists>r s. cparser_print_prompt q = Some r \<and> cparser_line_advance r = Some (CPARSER_OK, s) \<and> editing s root (eenter e) \<and> cfg s = cfg q"
proof -
  let ?r = "prints (eprompt e) q" and ?n = "if CPARSER_MAX_LINES \<le> Suc (eidx e) then 0 else Suc (eidx e)"
  have lo: "lines_ok q e" and mo: "mode_ok q root" and pr: "shown_prompt q = eprompt e" "printable (eprompt e)"
    using st by (auto simp: settled_def)
  let ?s = "?r\<lparr>cur_line := ?n, max_line := max (max_line q) ?n, lines := (lines q)[?n := empty_line]\<rparr>"
  have "cparser_print_prompt q = Some ?r"
    using mo pr(1) by (auto simp: cparser_print_prompt_def cparser_is_in_privileged_mode_def mode_ok_def aget_def shown_prompt_def out_simps)
  moreover have n: "?n < CPARSER_MAX_LINES" by (simp add: CPARSER_MAX_LINES_def)
  have "cparser_line_advance ?r = Some (CPARSER_OK, ?s)"
    using lo n by (simp add: cparser_line_advance_def lines_ok_def this_line_def put_line_def aget_def aput_def cparser_line_reset_def Let_def)
  moreover have "editing ?s root (eenter e)"
  proof -
    have "eidx e < length (elines e)" "length (elines e) \<le> CPARSER_MAX_LINES" using lo by (auto simp: lines_ok_def)
    note t = eenter_simps [OF this]
    have "mode_ok ?s root" using mo by (simp add: mode_ok_def)
    moreover have "lines_ok ?s (eenter e)" by (rule lines_ok_enter [OF lo refl]) simp
    moreover have "in_step ?s root (eenter e)"
      using rep fsm_rep_cong [of ?s q] NODE_USABLE_cong [of ?s q] t by (simp add: in_step_def)
    moreover have "displayed ?s (eenter e)"
    proof -
      have "screen (out q @ eprompt e) = (eprompt e, length (eprompt e))" if "screen (out q) = ([], 0)"
        using that tty_text [OF pr(2), of "[]" 0 "[]"] by (simp add: screen_append)
      then show ?thesis using st scr t pr(1) by (auto simp: displayed_def settled_def shown_prompt_def out_prints showing_def)
    qed
    ultimately show ?thesis by (simp add: editing_def)
  qed
  ultimately show ?thesis by auto
qed

section \<open>The enter key\<close>

abbreviation entering :: "cli_env \<Rightarrow> cparser \<Rightarrow> (cparser_result \<times> cparser) option" where
  "entering env p \<equiv> cparser_input env LF CPARSER_CHAR_REGULAR p"

lemma enter_unfold:
  assumes "editing p root e" and "at_end e" and "cli_ok (cfg p) root"
  shows "entering env p = do { (rc, q) \<leftarrow> executing env p; (_, r) \<leftarrow> cparser_line_advance q; Some (rc, r) }"
proof -
  have lo: "lines_ok p e" using assms(1) by (simp add: editing_def)
  have "cparser_line_current p = Some (length (etext e))" "cparser_line_last p = Some (length (etext e))"
    using line_reads(1,2) [OF lines_ok_at(1) [OF lo]] assms(2) by (simp_all add: at_end_def)
  moreover have "ch_complete (cfg p) \<noteq> LF" "ch_help (cfg p) \<noteq> LF" "\<not> is_erase p LF"
    using assms(3) by (auto simp: cli_ok_def is_erase_erases)
  ultimately show ?thesis
    by (simp add: editing_input [OF assms(1)] edit_key_def edit_regular_def run_key_def)
qed

text \<open>An error ends the command and gives a new prompt.\<close>

lemma error_settled:
  assumes "settled p root e"
  shows "\<exists>q. cparser_print_error (m @ [LF]) p = Some q \<and> settled q root e \<and> cfg q = cfg p \<and> (cfg_fd (cfg q) \<noteq> -1 \<longrightarrow> screen (out q) = ([], 0))"
proof -
  define w where "w = LF # replicate (nat (int (length (prompts p ! root_level p)) + 1 + last_good p)) (CHR '' '') @ CHR ''^'' # m"
  have "cparser_print_error (m @ [LF]) p = Some (prints (w @ [LF]) p)"
    using assms by (simp add: cparser_print_error_def settled_def mode_ok_def aget_def out_simps w_def)
  moreover have "screen (out (prints (w @ [LF]) p)) = ([], 0)" if "cfg_fd (cfg p) \<noteq> -1"
    using out_prints [OF that, of "w @ [LF]"] by (metis append.assoc screen_LF)
  ultimately show ?thesis using assms by simp
qed

lemma settled_input: "settled p root e \<Longrightarrow> cparser_is_user_input p = Some (False, False)"
  by (simp add: settled_def mode_ok_def cparser_is_user_input_def)

lemma incomplete_text:
  assumes "settled p root e"
  shows "\<exists>q r. incomplete_command p = Some (CPARSER_ERR_INCOMP_CMD, q) \<and> cparser_line_advance q = Some (CPARSER_OK, r) \<and> editing r root (eenter e)"
proof -
  obtain p1 where p1: "cparser_print_error (''Incomplete command'' @ [LF]) p = Some p1" "settled p1 root e"
    "cfg_fd (cfg p1) \<noteq> -1 \<longrightarrow> screen (out p1) = ([], 0)"
    using error_settled [OF assms] by blast
  obtain p2 where p2: "cparser_fsm_reset (cparser_record_command CPARSER_ERR_INCOMP_CMD p1) = Some p2" "settled p2 root e"
    "\<And>u. fsm_rep p2 (parse_of u root [])" "out p2 = out p1" "cfg p2 = cfg p1"
    using reset_settled [OF p1(2)] by fastforce
  show ?thesis
    using prompt_advance [OF p2(2,3)] p1 p2 by (fastforce simp: incomplete_command_def)
qed

lemma finish_text:
  assumes "settled p root e" and "cfg_fd (cfg p) \<noteq> -1 \<longrightarrow> screen (out p) = ([], 0)"
  shows "\<exists>q r. finish_command rc p = Some (rc, q) \<and> cparser_line_advance q = Some (CPARSER_OK, r) \<and> editing r root (eenter e)"
proof -
  obtain p2 where p2: "cparser_fsm_reset (cparser_record_command rc p) = Some p2" "settled p2 root e"
    "\<And>u. fsm_rep p2 (parse_of u root [])" "out p2 = out p" "cfg p2 = cfg p"
    using reset_settled [OF assms(1)] by fastforce
  show ?thesis
    using prompt_advance [OF p2(2,3)] settled_input [OF p2(2)] assms(2) p2 by (fastforce simp: finish_command_def)
qed

lemma blank_text:
  assumes "settled p root e"
  shows "\<exists>q q' r. cparser_fsm_reset (cparser_record_command CPARSER_OK p) = Some q \<and> cparser_print_prompt (printc LF q) = Some q' \<and>
    cparser_line_advance q' = Some (CPARSER_OK, r) \<and> editing r root (eenter e)"
proof -
  obtain q where q: "cparser_fsm_reset (cparser_record_command CPARSER_OK p) = Some q" "settled q root e"
    "\<And>u. fsm_rep q (parse_of u root [])" "out q = out p" "cfg q = cfg p"
    using reset_settled [OF assms] by fastforce
  have "screen (out (prints [LF] q)) = ([], 0)" if "cfg_fd (cfg q) \<noteq> -1" using out_prints [OF that, of "[LF]"] by simp
  then show ?thesis
    using prompt_advance [of "prints [LF] q" root e] q by (fastforce simp: out_simps)
qed

text \<open>What an outcome means for the parser.\<close>

definition carries_out :: "cli_env \<Rightarrow> cparser_node \<Rightarrow> editor \<Rightarrow> (cparser_result \<times> cparser) option \<Rightarrow> outcome \<Rightarrow> bool" where
  "carries_out env root e res d = (let e' = eput e (line_after (etext e) d) (length (line_after (etext e) d)) in case d of
     Run ws t x \<Rightarrow> \<exists>g q. nparam x = Glue g \<and> cur_node q = x \<and> map tok_chars (take (token_tos q) (tokens q)) = map Some ws \<and> settled q root e' \<and>
       res = do { (rc, q) \<leftarrow> glue_fn env g q; (rc, q) \<leftarrow> finish_command rc q; (_, r) \<leftarrow> cparser_line_advance q; Some (rc, r) }
   | Bad \<Rightarrow> \<exists>r. res = Some (CPARSER_ERR_PARSE_ERR, r) \<and> editing r root (eenter e')
   | Unfinished t \<Rightarrow> \<exists>r. res = Some (CPARSER_ERR_INCOMP_CMD, r) \<and> editing r root (eenter e')
   | Nothing t \<Rightarrow> \<exists>r. res = Some (CPARSER_OK, r) \<and> editing r root (eenter e'))"

text \<open>
  C33: pressing enter at the end of a line does what the words of the line mean. Words that no path in
  the tree accepts give a parse error. Otherwise the last word is completed when it is an abbreviation
  (the words before it stay as they were typed), keywords without an alternative are added, and the function of the first usable end node there is called
  exactly once, with this node as the current one and exactly these words on the token stack; without
  such a node the command is incomplete, or the line was blank. After an error or a blank line the parser
  is ready for the next line: the line is in the history, the state machine and the next line buffer are
  empty, and the terminal shows the prompt. Lines stay below 256 characters with what is added, the last word is not a
  file or one of a list, the tree has at most 32 levels and keywords of ordinary characters, debugging is off and no input of a user
  is pending.
\<close>

theorem enter_means:
  assumes "editing p root e" and "at_end e" and "printable (eprompt e)" and "cli_ok (cfg p) root"
    and "plain_word (NODE_USABLE p) root (etext e)" and "meaning (NODE_USABLE p) root (etext e) = d"
    and "length (line_after (etext e) d) < CPARSER_MAX_TOKEN_SIZE"
  shows "carries_out env root e (cparser_input env LF CPARSER_CHAR_REGULAR p) d"
proof -
  let ?t = "line_after (etext e) d"
  have i: "eidx e < length (elines e)" using assms(1) lines_ok_at(4) by (auto simp: editing_def)
  have "\<exists>v. ?t = etext e @ v" using meaning_added assms(6) by blast
  then have e: "etyped e (added (etext e) d) = eput e ?t (length ?t)" by (auto simp: etyped_def added_def)
  obtain q where q: "editing q root (eput e ?t (length ?t))" "ready d q" "executing env p = conclude env d q"
    using ln.executing_cases [of p root e d env] assms e by auto
  have st: "settled q root (eput e ?t (length ?t))" using settled_editing [OF q(1)] assms(3) i by simp
  note en = enter_unfold [OF assms(1,2,4), of env, unfolded q(3)]
  show ?thesis
  proof (cases d)
    case Bad
    obtain r where r: "cparser_print_error (''Parse error'' @ [LF]) q = Some r" "settled r root (eput e ?t (length ?t))"
      "cfg_fd (cfg r) \<noteq> -1 \<longrightarrow> screen (out r) = ([], 0)"
      using error_settled [OF st] by blast
    obtain q1 r1 where "finish_command CPARSER_ERR_PARSE_ERR r = Some (CPARSER_ERR_PARSE_ERR, q1)" "cparser_line_advance q1 = Some (CPARSER_OK, r1)"
      "editing r1 root (eenter (eput e ?t (length ?t)))"
      using finish_text [OF r(2,3)] by blast
    then show ?thesis using en Bad r(1) by (simp add: carries_out_def conclude_def Let_def)
  next
    case (Unfinished t)
    then show ?thesis using incomplete_text [OF st] en by (auto simp: carries_out_def conclude_def Let_def)
  next
    case (Nothing t)
    then show ?thesis using blank_text [OF st] en by (auto simp: carries_out_def conclude_def Let_def)
  next
    case (Run ws t x)
    then obtain g where g: "nparam x = Glue g" "map tok_chars (take (token_tos q) (tokens q)) = map Some ws" using q(2) by (auto simp: ready_def)
    then show ?thesis
      using en Run st by (auto simp: carries_out_def conclude_def Let_def split_def out_simps intro!: exI [of _ "prints [LF] (q\<lparr>cur_node := x\<rparr>)"])
  qed
qed

definition sample_keys :: "(char \<times> cparser_char) list" where
  "sample_keys = map (\<lambda>c. (c, CPARSER_CHAR_REGULAR)) ''sh 12''"

lemma sample_session:
  obtains p where "editing p sample_root \<lparr>epriv = False, eprompt = ''> '', elines = [(''sh 12'', 5)], eidx = 0, clean = True\<rparr>"
    and "NODE_USABLE p = (\<lambda>n. \<not> hidden n)" and "cfg p = cfg sample_parser"
proof -
  let ?c = "cfg sample_parser"
  let ?e = "\<lparr>epriv = False, eprompt = ''> '', elines = [(''sh 12'', 5)], eidx = 0, clean = True\<rparr>"
  have pt: "prompt_text (cfg_prompt ?c) = ''> ''" "?c\<lparr>cfg_prompt := ''> ''\<rparr> = ?c"
    by (simp_all add: sample_parser_def prompt_text_def CPARSER_MAX_PROMPT_def)
  have c: "cfg_ok ?c" "ch_erase ?c \<noteq> NUL" "root_ok (cfg_root ?c)" "printable (cfg_prompt ?c)"
    "roots sample_parser \<noteq> []" "prompts sample_parser \<noteq> []" "out sample_parser = []" "cfg_root ?c = sample_root"
    using sample_root_ok by (simp_all add: sample_parser_def cfg_ok_def erases_def printable_def)
  have k: "keys_ok ?c (new_editor ''> '') sample_keys" "fold (ekey ?c) sample_keys (new_editor ''> '') = ?e"
    by (simp_all add: sample_keys_def sample_parser_def char_ok_def erases_def eregular_def eput_def etext_def ecur_def new_editor_def
        CPARSER_MAX_TOKEN_SIZE_def Let_def)
  obtain q where q: "editing (q\<lparr>finished := False\<rparr>) sample_root (new_editor ''> '')" "cfg q = ?c"
    using init_editing [OF c(1-7)] pt c(8) by auto
  obtain p where p: "editing p sample_root ?e" "cfg p = ?c"
    using editing_keys [OF q(1), of sample_keys] k q(2) by auto
  moreover have "NODE_USABLE p = (\<lambda>n. \<not> hidden n)"
    using p(1) by (simp add: editing_def displayed_def NODE_USABLE_def fun_eq_iff)
  ultimately show thesis using that by blast
qed

theorem enter_means_witness:
  "\<exists>p q. map tok_chars (take (token_tos q) (tokens q)) = [Some ''sh'', Some ''12''] \<and>
     cparser_input \<lparr>glue_fn = \<lambda>g p. Some (CPARSER_OK, p\<lparr>finished := g = 0\<rparr>), input_cb = \<lambda>n b k p. None, glob_fn = \<lambda>s. None\<rparr> LF CPARSER_CHAR_REGULAR p =
       do { (rc, q) \<leftarrow> finish_command CPARSER_OK (q\<lparr>finished := True\<rparr>); (_, r) \<leftarrow> cparser_line_advance q; Some (rc, r) }"
proof -
  let ?e = "\<lparr>epriv = False, eprompt = ''> '', elines = [(''sh 12'', 5)], eidx = 0, clean = True\<rparr>"
  let ?env = "\<lparr>glue_fn = \<lambda>g p. Some (CPARSER_OK, p\<lparr>finished := g = 0\<rparr>), input_cb = \<lambda>n b k p. None, glob_fn = \<lambda>s. None\<rparr>"
  let ?u = "\<lambda>n. \<not> hidden n"
  let ?x = "Node CPARSER_NODE_END 0 (Glue 0) None []"
  obtain p where p: "editing p sample_root ?e" "NODE_USABLE p = ?u" "cfg p = cfg sample_parser" using sample_session by blast
  have u: "\<not> hidden (Node ty 0 pa de cs)" for ty pa de cs by (simp add: hidden_def)
  have sp: "split_text ''sh 12'' = ([''sh''], ''12'')" by (simp add: split_text_def)
  have m: "meaning ?u sample_root ''sh 12'' = Run [''sh'', ''12''] ''sh 12 '' ?x"
    by (auto simp: meaning_def sp sample_root_def starts_code match_eval u full_word_def ending_def line_of_def)
  have pl: "plain_word ?u sample_root ''sh 12''"
    by (auto simp: plain_word_def sp sample_root_def starts_code match_eval u)
  have e: "etext ?e = ''sh 12''" "at_end ?e" "printable (eprompt ?e)" by (simp_all add: etext_def ecur_def at_end_def printable_def)
  have ok: "cli_ok (cfg p) sample_root"
    unfolding p(3) by (simp add: sample_root_def sample_parser_def cli_ok_def word_ok_def char_ok_def erases_def)
  show ?thesis
    using enter_means [OF p(1) e(2,3) ok, of "Run [''sh'', ''12''] ''sh 12 '' ?x"
        ?env] m pl e(1) p(2)
    by (simp add: carries_out_def CPARSER_MAX_TOKEN_SIZE_def) metis
qed

end
