(* ===== verification/Cli_Load.thy ===== *)
theory Cli_Load
  imports Cli_Command
begin

text \<open>
  Commands from a file (\<^verbatim>\<open>cparser_load_cmd\<close> of \<^verbatim>\<open>cparser.c\<close>). The characters go to the state machine
  without the line buffer, a line feed executes the line, and a smaller indentation leaves submodes.
  While the file is read nothing is written to the terminal.
\<close>

section \<open>Reading a file\<close>

record loader =
  indent :: int
  last_indent :: int
  new_line :: bool
  line_num :: int

text \<open>A number as \<^verbatim>\<open>%d\<close> prints it.\<close>

fun dec :: "nat \<Rightarrow> string" where
  "dec n = (if n < 10 then [char_of (48 + n)] else dec (n div 10) @ [char_of (48 + n mod 10)])"

definition put_fd :: "int \<Rightarrow> cparser \<Rightarrow> cparser" where
  "put_fd fd p = p\<lparr>cfg := (cfg p)\<lparr>cfg_fd := fd\<rparr>\<rparr>"

fun exit_submodes :: "nat \<Rightarrow> cparser \<Rightarrow> cparser option" where
  "exit_submodes 0 p = Some p"
| "exit_submodes (Suc k) p = (case cparser_submode_exit p of (rc, p) \<Rightarrow>
     (if rc \<noteq> CPARSER_OK then Some p else do { p \<leftarrow> cparser_fsm_reset p; exit_submodes k p }))"

text \<open>What a character other than a line feed does before the state machine gets it.\<close>

definition load_indent :: "char \<Rightarrow> loader \<Rightarrow> cparser \<Rightarrow> (loader \<times> cparser) option" where
  "load_indent c l p =
     (if c = CHR '' '' then
        (if new_line l then do { i \<leftarrow> c_int (indent l + 1); Some (l\<lparr>indent := i\<rparr>, p) } else Some (l, p))
      else if new_line l then do {
        p \<leftarrow> (if indent l < last_indent l then exit_submodes (nat (last_indent l - indent l)) p else Some p);
        Some (l\<lparr>new_line := False, last_indent := indent l\<rparr>, p) }
      else Some (l, p))"

text \<open>The message for a line that failed; other results of a command fail an assertion.\<close>

definition load_error :: "cparser_result \<Rightarrow> int \<Rightarrow> string option" where
  "load_error rc n = (case rc of
     CPARSER_ERR_PARSE_ERR \<Rightarrow> Some (''Line '' @ dec (nat n) @ '': Parse error.'' @ [LF])
   | CPARSER_ERR_INCOMP_CMD \<Rightarrow> Some (''Line '' @ dec (nat n) @ '': Incomplete command.'' @ [LF])
   | _ \<Rightarrow> None)"

text \<open>The loop over the characters; the first result is \<open>None\<close> at the end of the file.\<close>

fun load_loop :: "cli_env \<Rightarrow> int \<Rightarrow> string \<Rightarrow> loader \<Rightarrow> cparser \<Rightarrow> (cparser_result option \<times> cparser) option" where
  "load_loop env fd [] l p = Some (None, p)"
| "load_loop env fd (c # cs) l p =
     (if c = LF then do {
        n \<leftarrow> c_int (line_num l + 1);
        (rc, p) \<leftarrow> executing env p;
        if rc = CPARSER_OK then load_loop env fd cs (l\<lparr>line_num := n, indent := 0, new_line := True\<rparr>) p
        else do { m \<leftarrow> load_error rc n; Some (Some CPARSER_NOT_OK, prints m (put_fd fd p)) } }
      else do {
        (l, p) \<leftarrow> load_indent c l p;
        p \<leftarrow> cparser_fsm_input c p;
        load_loop env fd cs l p })"

fun leave_submodes :: "nat \<Rightarrow> cparser \<Rightarrow> cparser option" where
  "leave_submodes 0 p = Some p"
| "leave_submodes (Suc n) p = do { p \<leftarrow> cparser_fsm_reset (snd (cparser_submode_exit p)); leave_submodes n p }"

text \<open>The argument is the content of the file, or \<open>None\<close> when it cannot be opened.\<close>

definition cparser_load_cmd :: "cli_env \<Rightarrow> string option \<Rightarrow> cparser \<Rightarrow> (cparser_result \<times> cparser) option" where
  "cparser_load_cmd env file p = (
     let fd = cfg_fd (cfg p); p = put_fd (-1) p in
     case file of None \<Rightarrow> Some (CPARSER_NOT_OK, p)
     | Some s \<Rightarrow> do {
         p \<leftarrow> cparser_fsm_reset p;
         (rc, p) \<leftarrow> load_loop env fd s \<lparr>indent = 0, last_indent = -1, new_line = True, line_num = 0\<rparr> p;
         (case rc of Some rc \<Rightarrow> Some (rc, p)
          | None \<Rightarrow> do { p \<leftarrow> leave_submodes (root_level p) p; Some (CPARSER_OK, put_fd fd p) }) })"

section \<open>The state between two characters\<close>

text \<open>
  The trees of the modes that are open, the first one in front, and the cookies. In a state between two characters
  there are the text of the line so far, these levels and the output. The current line buffer holds something,
  which the execution appends to, but what it holds has no effect.
\<close>

type_synonym levels = "cparser_node list \<times> nat list"

type_synonym progress = "string \<times> levels \<times> string"

definition levels :: "cparser \<Rightarrow> levels" where
  "levels p = (take (Suc (root_level p)) (roots p), cookie p)"

definition idle :: "cparser \<Rightarrow> cparser_node \<Rightarrow> levels \<Rightarrow> string \<Rightarrow> bool" where
  "idle p root ck w \<longleftrightarrow> mode_ok p root \<and> levels p = ck \<and> length (roots p) = CPARSER_MAX_NESTED_LEVELS \<and>
     length (prompts p) = CPARSER_MAX_NESTED_LEVELS \<and> length (cookie p) = CPARSER_MAX_NESTED_LEVELS \<and>
     cfg_fd (cfg p) = -1 \<and> out p = w \<and> (\<exists>t k. at_line p t k)"

definition loading :: "cparser \<Rightarrow> cparser_node \<Rightarrow> progress \<Rightarrow> bool" where
  "loading p root a = (case a of (s, ck, w) \<Rightarrow>
     idle p root ck w \<and> fsm_rep p (parse_of (NODE_USABLE p) root s) \<and> length s < CPARSER_MAX_TOKEN_SIZE)"

lemma idle_levels:
  assumes "idle p root (rs, ck) w"
  shows "root_level p = length rs - 1" and "rs \<noteq> []" and "last rs = root" and "length rs \<le> CPARSER_MAX_NESTED_LEVELS" and "cookie p = ck"
    and "take (length rs) (roots p) = rs"
proof -
  have l: "root_level p < CPARSER_MAX_NESTED_LEVELS" "roots p ! root_level p = root" "length (roots p) = CPARSER_MAX_NESTED_LEVELS"
    "rs = take (Suc (root_level p)) (roots p)" "cookie p = ck"
    using assms by (auto simp: idle_def mode_ok_def levels_def aget_def split: if_splits)
  then have n: "length rs = Suc (root_level p)" by simp
  then show "root_level p = length rs - 1" "rs \<noteq> []" "length rs \<le> CPARSER_MAX_NESTED_LEVELS" "cookie p = ck" using l by auto
  show "last rs = root" using l n by (simp add: take_Suc_conv_app_nth)
  show "take (length rs) (roots p) = rs" using l n by simp
qed

lemma at_line_same: "lines q = lines p \<Longrightarrow> cur_line q = cur_line p \<Longrightarrow> at_line q t k = at_line p t k"
  by (simp add: at_line_def this_line_def)

lemma idle_frame: "idle p root ck w \<Longrightarrow> fsm_frame p q \<Longrightarrow> idle q root ck w"
  using fsm_frameD [of p q] at_line_same [of q p] by (auto simp: idle_def levels_def mode_ok_def)

lemma idle_prints: "idle p root ck w \<Longrightarrow> prints s p = p"
  by (simp add: idle_def prints_def)

lemma idle_other [simp]:
  "idle (p\<lparr>cur_node := x\<rparr>) root ck w = idle p root ck w" "idle (cparser_record_command rc p) root ck w = idle p root ck w"
  by (simp_all add: idle_def levels_def mode_ok_def at_line_def this_line_def cparser_record_command_def)

lemma insert_anyway:
  assumes "at_line p t k" and "ch \<noteq> NUL" and "cfg_fd (cfg p) = -1"
  shows "\<exists>rc l t' k'. cparser_line_insert ch p = Some (rc, with_line p l) \<and> line_rep l t' k'"
proof (cases "length t < CPARSER_MAX_LINE_SIZE")
  case True
  then show ?thesis using line_insert_text [OF assms(1) _ assms(2)] assms(3) by (metis prints_def)
next
  case False
  obtain l where l: "this_line p = Some l" "line_rep l t k" using assms(1) by (auto simp: at_line_def)
  have "llast l = length t" using l(2) by (simp add: line_rep_def)
  then have "cparser_line_insert ch p = Some (CPARSER_ERR_OUT_OF_RES, p)"
    using False assms(2) l(1) by (simp add: cparser_line_insert_def)
  moreover have "lines p ! cur_line p = l" using l(1) by (simp add: this_line_def aget_def split: if_splits)
  then have "with_line p l = p" by (cases p) (auto simp: with_line_def)
  ultimately show ?thesis using l(2) by metis
qed

lemma idle_line: "idle p root ck w \<Longrightarrow> line_rep l t k \<Longrightarrow> idle (with_line p l) root ck w"
  by (auto simp: idle_def levels_def mode_ok_def at_line_def this_line_def with_line_def aget_def split: if_splits)

lemma loading_read:
  assumes "loading p root (s, ck, w)" and "\<not> erases (cfg p) c" and "Suc (length s) < CPARSER_MAX_TOKEN_SIZE"
  shows "\<exists>p'. cparser_fsm_input c p = Some p' \<and> loading p' root (s @ [c], ck, w) \<and> cfg p' = cfg p \<and> NODE_USABLE p' = NODE_USABLE p"
proof -
  have i: "idle p root ck w" and rep: "fsm_rep p (parse_of (NODE_USABLE p) root s)" using assms(1) by (auto simp: loading_def)
  have r: "root_ok root" "fsm_quiet p" using i by (auto simp: idle_def mode_ok_def cfg_ok_def fsm_quiet_def)
  obtain q where q: "cparser_fsm_input c p = Some q" "fsm_rep q (parse_of (NODE_USABLE p) root (s @ [c]))" "fsm_frame p q"
    using fsm_read_text [OF rep r(1) _ _ r(2), of c] assms(2,3) by (auto simp: is_erase_erases)
  have "NODE_USABLE q = NODE_USABLE p" "cfg q = cfg p" using fsm_frame_props [OF q(3)] fsm_frameD(1) [OF q(3)] by auto
  then show ?thesis using q idle_frame [OF i q(3)] assms(3) by (auto simp: loading_def)
qed

text \<open>A character that the execution enters.\<close>

lemma loading_key:
  assumes "loading p root (s, ck, w)" and "char_ok (cfg p) c" and "Suc (length s) < CPARSER_MAX_TOKEN_SIZE"
  shows "\<exists>p'. cparser_input env c CPARSER_CHAR_REGULAR p = Some (CPARSER_OK, p') \<and> loading p' root (s @ [c], ck, w) \<and>
    cfg p' = cfg p \<and> NODE_USABLE p' = NODE_USABLE p"
proof -
  have i: "idle p root ck w" using assms(1) by (auto simp: loading_def)
  have c: "c \<noteq> NUL" "c \<noteq> LF" "c \<noteq> ch_complete (cfg p)" "c \<noteq> ch_help (cfg p)" "\<not> erases (cfg p) c" using assms(2) by (auto simp: char_ok_def)
  obtain t k where "at_line p t k" "cfg_fd (cfg p) = -1" using i by (auto simp: idle_def)
  then obtain rc l t' k' where l: "cparser_line_insert c p = Some (rc, with_line p l)" "line_rep l t' k'"
    using insert_anyway [OF _ c(1)] by metis
  let ?q = "with_line p l"
  have q: "cfg ?q = cfg p" "NODE_USABLE ?q = NODE_USABLE p" by (simp_all add: with_line_def NODE_USABLE_def fun_eq_iff)
  then have "loading ?q root (s, ck, w)" using assms(1) idle_line [OF i l(2)] by (simp add: loading_def)
  then obtain p' where p': "cparser_fsm_input c ?q = Some p'" "loading p' root (s @ [c], ck, w)" "cfg p' = cfg p" "NODE_USABLE p' = NODE_USABLE p"
    using loading_read [of ?q root s ck w c] c(5) assms(3) q by auto
  have "cparser_is_user_input p = Some (False, False)" using i by (simp add: idle_def mode_ok_def cparser_is_user_input_def)
  then show ?thesis
    using p' l(1) c q run_key_plain [of c ?q env "cparser_call env"]
    by (auto simp: input_unfold input_body_def edit_key_def edit_regular_def is_erase_erases)
qed

lemma loading_feed:
  "loading p root (s, ck, w) \<Longrightarrow> \<forall>ch\<in>set v. char_ok (cfg p) ch \<Longrightarrow> length (s @ v) < CPARSER_MAX_TOKEN_SIZE \<Longrightarrow>
    \<exists>p'. feed (keyed env) v p = Some p' \<and> loading p' root (s @ v, ck, w) \<and> cfg p' = cfg p \<and> NODE_USABLE p' = NODE_USABLE p"
proof (induction v arbitrary: p s)
  case (Cons c v)
  obtain q where q: "cparser_input env c CPARSER_CHAR_REGULAR p = Some (CPARSER_OK, q)" "loading q root (s @ [c], ck, w)" "cfg q = cfg p"
    "NODE_USABLE q = NODE_USABLE p"
    using loading_key [OF Cons.prems(1), of c env] Cons.prems(2,3) by auto
  then show ?case using Cons.IH [OF q(2)] Cons.prems by (auto simp: cparser_input_def)
qed simp

interpretation ld: typing loading fst "\<lambda>(s, r) v. (s @ v, r)"
proof (unfold_locales, goal_cases)
  case (1 p root e)
  then show ?case by (auto simp: loading_def idle_def mode_ok_def)
next
  case (2 p root e v env)
  then show ?case using loading_feed [of p root "fst e" "fst (snd e)" "snd (snd e)" v env] by (auto simp: split_def)
qed auto

section \<open>A line\<close>

lemma idle_prompt: "idle p root ck w \<Longrightarrow> aget (prompts p) (root_level p) = Some (prompts p ! root_level p)"
  by (auto simp: idle_def mode_ok_def aget_def)

lemma idle_reset:
  assumes "idle p root ck w"
  shows "\<exists>q. cparser_fsm_reset (cparser_record_command rc p) = Some q \<and> loading q root ([], ck, w) \<and> cfg q = cfg p \<and> NODE_USABLE q = NODE_USABLE p \<and>
    cparser_is_user_input q = Some (False, False) \<and> cparser_print_prompt q = Some q"
proof -
  let ?p = "cparser_record_command rc p"
  have i: "idle ?p root ck w" using assms by simp
  then have "aget (roots ?p) (root_level ?p) = Some root" unfolding idle_def mode_ok_def by blast
  then obtain q where q: "cparser_fsm_reset ?p = Some q" "\<And>u. fsm_rep q (parse_of u root [])" "fsm_frame ?p q"
    using fsm_reset_text by fastforce
  have iq: "idle q root ck w" by (rule idle_frame [OF i q(3)])
  have c: "cfg q = cfg p" "NODE_USABLE q = NODE_USABLE p"
    using fsm_frame_props [OF q(3)] fsm_frameD(1) [OF q(3)] by (auto simp: cparser_record_command_def NODE_USABLE_def fun_eq_iff)
  have "cparser_is_user_input q = Some (False, False)" using iq by (simp add: idle_def mode_ok_def cparser_is_user_input_def)
  moreover have "cparser_print_prompt q = Some q"
    using idle_prompt [OF iq] idle_prints [OF iq] by (simp add: cparser_print_prompt_def out_simps)
  ultimately show ?thesis using q iq c by (auto simp: loading_def CPARSER_MAX_TOKEN_SIZE_def)
qed

lemma idle_error: "idle p root ck w \<Longrightarrow> cparser_print_error m p = Some p"
  using idle_prompt [of p root ck w] by (simp add: cparser_print_error_def out_simps) (erule idle_prints)

lemma idle_finish:
  "idle p root ck w \<Longrightarrow> \<exists>q. finish_command rc p = Some (rc, q) \<and> loading q root ([], ck, w) \<and> cfg q = cfg p \<and> NODE_USABLE q = NODE_USABLE p"
  using idle_reset [of p root ck w rc] by (auto simp: finish_command_def)

section \<open>What the functions of the commands do\<close>

text \<open>
  A function behind an end node works on the cookies with the words of its command and the level it is called on. It returns
  a result of its own, or enters a submode or leaves one and returns what that returns; the functions of
  \<^verbatim>\<open>test_cli_cmd.c\<close> are of this kind.
\<close>

datatype action = Return cparser_result | Enter nat string | Leave

type_synonym behaviour = "nat \<Rightarrow> string option list \<Rightarrow> nat \<Rightarrow> nat list \<Rightarrow> nat list \<times> action"

fun perform :: "action \<Rightarrow> cparser \<Rightarrow> (cparser_result \<times> cparser) option" where
  "perform (Return rc) q = Some (rc, q)"
| "perform (Enter c pr) q = cparser_submode_enter c pr q"
| "perform Leave q = Some (cparser_submode_exit q)"

definition acting :: "cli_env \<Rightarrow> behaviour \<Rightarrow> bool" where
  "acting env act \<longleftrightarrow> (\<forall>g q. glue_fn env g q = (case act g (map tok_chars (take (token_tos q) (tokens q))) (root_level q) (cookie q) of
     (ck, a) \<Rightarrow> perform a (q\<lparr>cookie := ck\<rparr>))) \<and> (\<forall>g ws l ck. length (fst (act g ws l ck)) = length ck)"

text \<open>The same on the levels; \<open>None\<close> is an end node without a submode.\<close>

fun act_levels :: "action \<Rightarrow> cparser_node \<Rightarrow> levels \<Rightarrow> (cparser_result \<times> levels) option" where
  "act_levels (Return rc) x (rs, ck) = Some (rc, rs, ck)"
| "act_levels (Enter c pr) x (rs, ck) =
     (if length rs = CPARSER_MAX_NESTED_LEVELS then Some (CPARSER_NOT_OK, rs, ck)
      else (case nchildren x of [] \<Rightarrow> None
        | r # _ \<Rightarrow> (if ntype r = CPARSER_NODE_ROOT then Some (CPARSER_OK, rs @ [r], ck[length rs := c]) else None)))"
| "act_levels Leave x (rs, ck) = Some (if length rs = 1 then (CPARSER_NOT_OK, rs, ck) else (CPARSER_OK, butlast rs, ck))"

fun after_line :: "behaviour \<Rightarrow> outcome \<Rightarrow> levels \<Rightarrow> (cparser_result \<times> levels) option" where
  "after_line act Bad m = Some (CPARSER_ERR_PARSE_ERR, m)"
| "after_line act (Unfinished t) m = Some (CPARSER_ERR_INCOMP_CMD, m)"
| "after_line act (Nothing t) m = Some (CPARSER_OK, m)"
| "after_line act (Run ws t x) (rs, ck) = (case nparam x of
     Glue g \<Rightarrow> (case act g (map Some ws) (length rs - 1) ck of (ck, a) \<Rightarrow> act_levels a x (rs, ck)) | _ \<Rightarrow> None)"

text \<open>All trees that can be entered from a tree are well-formed.\<close>

fun subnodes :: "cparser_node \<Rightarrow> cparser_node list" where
  "subnodes (Node ty fl pa de cs) = Node ty fl pa de cs # concat (map subnodes cs)"

definition modes_ok :: "cparser_cfg \<Rightarrow> cparser_node \<Rightarrow> bool" where
  "modes_ok c root \<longleftrightarrow> root_ok root \<and> cli_ok c root \<and> (\<forall>r\<in>set (subnodes root). ntype r = CPARSER_NODE_ROOT \<longrightarrow> root_ok r \<and> cli_ok c r)"

lemma subnodes_self [simp]: "n \<in> set (subnodes n)"
  by (cases n) simp

lemma subnodes_child: "x \<in> set (nchildren n) \<Longrightarrow> set (subnodes x) \<subseteq> set (subnodes n)"
  by (cases n) auto

lemma subnodes_trans: "x \<in> set (subnodes n) \<Longrightarrow> set (subnodes x) \<subseteq> set (subnodes n)"
proof (induction n)
  case (Node ty fl pa de cs)
  then show ?case by (cases "x = Node ty fl pa de cs") fastforce+
qed

lemma path_subnodes: "path u n ws = Some m \<Longrightarrow> m \<in> set (subnodes n)"
proof (induction ws arbitrary: n)
  case (Cons w ws)
  then obtain k where "closes u n w = Some k" "path u k ws = Some m" by (auto split: if_splits option.splits)
  then show ?case using Cons.IH closes_child subnodes_child by blast
qed simp

lemma run_on_subnodes: "run_on u n = (vs, k) \<Longrightarrow> k \<in> set (subnodes n)"
proof (induction n arbitrary: vs)
  case (Node ty fl pa de cs)
  from Node.prems show ?case
  proof (cases rule: run_on_cases)
    case (2 x vs')
    then have "k \<in> set (subnodes x)" using Node.IH [of x vs'] by simp
    then show ?thesis using 2(1) by auto
  qed simp
qed

lemma ending_subnodes: "ending u ws s n = Run vs t x \<Longrightarrow> set (nchildren x) \<subseteq> set (subnodes n)"
proof -
  assume "ending u ws s n = Run vs t x"
  then obtain us k where k: "run_on u n = (us, k)" "find (\<lambda>x. ntype x = CPARSER_NODE_END \<and> u x) (nchildren k) = Some x"
    by (auto simp: ending_def Let_def split: prod.splits option.splits if_splits)
  have "set (subnodes k) \<subseteq> set (subnodes n)" using subnodes_trans run_on_subnodes [OF k(1)] by blast
  moreover have "x \<in> set (nchildren k)" using k(2) by (auto simp: find_Some_iff)
  moreover have "set (nchildren x) \<subseteq> set (subnodes x)" using subnodes_child subnodes_self by blast
  ultimately show ?thesis using subnodes_child by blast
qed

lemma meaning_subnodes:
  assumes "meaning u root s = Run vs t x"
  shows "set (nchildren x) \<subseteq> set (subnodes root)"
proof -
  obtain ws w where sp: "split_text s = (ws, w)" by fastforce
  obtain n where n: "path u root ws = Some n" using assms by (auto simp: meaning_def sp split: option.splits)
  have below: "set (subnodes n) \<subseteq> set (subnodes root)" by (rule subnodes_trans [OF path_subnodes [OF n]])
  have "\<exists>m ws s. ending u ws s m = Run vs t x \<and> set (subnodes m) \<subseteq> set (subnodes n)"
  proof (cases "w = []")
    case True
    then show ?thesis using assms n by (auto simp: meaning_def sp split: if_splits)
  next
    case False
    then show ?thesis using assms n closes_child subnodes_child by (fastforce simp: meaning_def sp split: if_splits option.splits)
  qed
  then show ?thesis using ending_subnodes below by blast
qed

lemma modes_ok_entered: "modes_ok c root \<Longrightarrow> r \<in> set (subnodes root) \<Longrightarrow> ntype r = CPARSER_NODE_ROOT \<Longrightarrow> modes_ok c r"
  using subnodes_trans [of r root] by (auto simp: modes_ok_def)

section \<open>Levels\<close>

lemma idle_take:
  assumes "idle p root (rs, ck) w" and "k < length rs" and "root_ok (rs ! k)"
  shows "idle (p\<lparr>root_level := k\<rparr>) (rs ! k) (take (Suc k) rs, ck) w"
proof -
  note l = idle_levels [OF assms(1)]
  have k: "k < length (roots p)" "k < length (prompts p)" using assms(1,2) l(4) by (auto simp: idle_def)
  have "roots p ! k = rs ! k" using assms(2) l(6) by (metis nth_take)
  moreover have "take (Suc k) (roots p) = take (Suc k) rs" using assms(2) l(6) by (metis Suc_leI min.absorb1 take_take)
  ultimately show ?thesis
    using assms l(5) k by (auto simp: idle_def levels_def mode_ok_def aget_def at_line_def this_line_def)
qed

lemma idle_cookie: "idle p root (rs, ck) w \<Longrightarrow> length ck' = length ck \<Longrightarrow> idle (p\<lparr>cookie := ck'\<rparr>) root (rs, ck') w"
  by (auto simp: idle_def levels_def mode_ok_def at_line_def this_line_def)

lemma idle_enter:
  assumes "idle p root (rs, ck) w" and "length rs < CPARSER_MAX_NESTED_LEVELS" and "root_ok r"
  shows "idle (p\<lparr>root_level := length rs, roots := (roots p)[length rs := r], prompts := (prompts p)[length rs := pr], cookie := ck[length rs := c]\<rparr>) r
    (rs @ [r], ck[length rs := c]) w"
proof -
  note l = idle_levels [OF assms(1)]
  have n: "length (roots p) = CPARSER_MAX_NESTED_LEVELS" using assms(1) by (simp add: idle_def)
  have "take (Suc (length rs)) ((roots p)[length rs := r]) = rs @ [r]" using assms(2) n l(6) by (simp add: take_Suc_conv_app_nth)
  then show ?thesis
    using assms n l(5) by (auto simp: idle_def levels_def mode_ok_def aget_def at_line_def this_line_def)
qed

lemma idle_exit:
  assumes "idle p root (rs, ck) w" and "\<forall>r\<in>set rs. root_ok r" and "1 < length rs"
  shows "\<exists>q. cparser_submode_exit p = (CPARSER_OK, q) \<and> idle q (last (butlast rs)) (butlast rs, ck) w \<and> cfg q = cfg p \<and> NODE_USABLE q = NODE_USABLE p"
proof -
  have n: "length rs - 2 < length rs" "root_level p \<noteq> 0" "root_level p - 1 = length rs - 2" "Suc (length rs - 2) = length rs - 1" "butlast rs \<noteq> []"
    using idle_levels(1) [OF assms(1)] assms(3) by (cases rs; auto)+
  have "last (butlast rs) = rs ! (length rs - 2)" using n by (simp add: last_conv_nth nth_butlast numeral_2_eq_2)
  then show ?thesis
    using n idle_take [OF assms(1) n(1)] assms(2) by (auto simp: cparser_submode_exit_def butlast_conv_take NODE_USABLE_def fun_eq_iff)
qed

lemma perform_levels:
  assumes "idle q root (rs, ck) w" and "cur_node q = x" and "\<forall>r\<in>set rs. root_ok r" and "\<And>r. r \<in> set (nchildren x) \<Longrightarrow> ntype r = CPARSER_NODE_ROOT \<Longrightarrow> root_ok r"
  shows "case act_levels a x (rs, ck) of None \<Rightarrow> perform a q = None
    | Some (rc, m) \<Rightarrow> \<exists>q'. perform a q = Some (rc, q') \<and> idle q' (last (fst m)) m w \<and> cfg q' = cfg q \<and> NODE_USABLE q' = NODE_USABLE q"
proof -
  note l = idle_levels [OF assms(1)]
  show ?thesis
  proof (cases a)
    case (Return rc)
    then show ?thesis using assms(1) l(3) by simp
  next
    case (Enter c pr)
    have full: "root_level q = CPARSER_MAX_NESTED_LEVELS - 1 \<longleftrightarrow> length rs = CPARSER_MAX_NESTED_LEVELS"
      using l(1,2,4) by (cases rs) (auto simp: CPARSER_MAX_NESTED_LEVELS_def)
    have lv: "Suc (root_level q) = length rs" using l(1,2) by (cases rs) auto
    show ?thesis
    proof (cases "length rs = CPARSER_MAX_NESTED_LEVELS \<or> nchildren x = [] \<or> ntype (hd (nchildren x)) \<noteq> CPARSER_NODE_ROOT")
      case True
      then show ?thesis using Enter assms(1,2) l(3) full
        by (auto simp: cparser_submode_enter_def c_assert_def split: list.splits)
    next
      case False
      then obtain r cs where r: "nchildren x = r # cs" "ntype r = CPARSER_NODE_ROOT" "length rs < CPARSER_MAX_NESTED_LEVELS"
        using l(4) by (cases "nchildren x") auto
      have sz: "length (roots q) = CPARSER_MAX_NESTED_LEVELS" "length (prompts q) = CPARSER_MAX_NESTED_LEVELS" "length (cookie q) = CPARSER_MAX_NESTED_LEVELS"
        using assms(1) by (auto simp: idle_def)
      have "root_ok r" using r assms(4) by auto
      then show ?thesis
        using Enter r full lv assms(2) l(5) sz idle_enter [OF assms(1) r(3), of r c "prompt_text pr"]
        by (auto simp: cparser_submode_enter_def c_assert_def aput_def NODE_USABLE_def fun_eq_iff Let_def)
    qed
  next
    case Leave
    show ?thesis
    proof (cases "length rs = 1")
      case True
      then show ?thesis using Leave assms(1) l(1,3) by (simp add: cparser_submode_exit_def)
    next
      case False
      then have "1 < length rs" using l(2) by (cases rs) auto
      then show ?thesis using Leave False idle_exit [OF assms(1,3)] by auto
    qed
  qed
qed

section \<open>The execution of a line\<close>

definition line_ok :: "cparser_cfg \<Rightarrow> (cparser_node \<Rightarrow> bool) \<Rightarrow> cparser_node \<Rightarrow> string \<Rightarrow> bool" where
  "line_ok c u root s \<longleftrightarrow> (\<forall>ch\<in>set s. ch \<noteq> LF \<and> \<not> erases c ch) \<and> length (line_after s (meaning u root s)) < CPARSER_MAX_TOKEN_SIZE \<and> plain_word u root s"

lemma loading_run:
  assumes "idle q root (rs, ck) w" and "acting env act" and "nparam x = Glue g" and "map tok_chars (take (token_tos q) (tokens q)) = map Some ws"
    and "\<forall>r\<in>set rs. root_ok r" and "\<And>r. r \<in> set (nchildren x) \<Longrightarrow> ntype r = CPARSER_NODE_ROOT \<Longrightarrow> root_ok r"
  shows "case after_line act (Run ws t x) (rs, ck) of None \<Rightarrow> conclude env (Run ws t x) q = None
    | Some (rc, m) \<Rightarrow> \<exists>r. conclude env (Run ws t x) q = Some (rc, r) \<and> loading r (last (fst m)) ([], m, w) \<and> cfg r = cfg q \<and> NODE_USABLE r = NODE_USABLE q"
proof -
  note l = idle_levels [OF assms(1)]
  obtain ck' a where act: "act g (map Some ws) (length rs - 1) ck = (ck', a)" by fastforce
  let ?q = "q\<lparr>cur_node := x\<rparr>" and ?r = "q\<lparr>cur_node := x, cookie := ck'\<rparr>"
  have i: "idle ?q root (rs, ck) w" using assms(1) by simp
  have "length ck' = length ck" using assms(2) act by (auto simp: acting_def) (metis fst_conv)
  then have r: "idle ?r root (rs, ck') w" using idle_cookie [OF i] by simp
  have "printc LF ?q = ?q" unfolding printc_prints by (rule idle_prints [OF i])
  then have g: "glue_fn env g (printc LF ?q) = perform a ?r"
    using assms(2,4) act l(1,5) by (simp add: acting_def)
  note pl = perform_levels [OF r _ assms(5), of x a]
  show ?thesis
  proof (cases "act_levels a x (rs, ck')")
    case None
    then show ?thesis using pl g act assms(3,6) by (simp add: conclude_def)
  next
    case (Some y)
    then obtain rc m where y: "act_levels a x (rs, ck') = Some (rc, m)" by (cases y) auto
    then obtain q' where q': "perform a ?r = Some (rc, q')" "idle q' (last (fst m)) m w" "cfg q' = cfg ?r" "NODE_USABLE q' = NODE_USABLE ?r"
      using pl assms(6) by auto
    then show ?thesis using idle_finish [OF q'(2), of rc] g act y assms(3) by (auto simp: conclude_def NODE_USABLE_def fun_eq_iff)
  qed
qed

lemma loading_line:
  assumes "loading p root (s, (rs, ck), w)" and "cli_ok (cfg p) root" and "acting env act" and "line_ok (cfg p) (NODE_USABLE p) root s"
    and "\<forall>r\<in>set rs. root_ok r" and "modes_ok (cfg p) root"
  shows "case after_line act (meaning (NODE_USABLE p) root s) (rs, ck) of None \<Rightarrow> executing env p = None
    | Some (rc, m) \<Rightarrow> \<exists>q. executing env p = Some (rc, q) \<and> loading q (last (fst m)) ([], m, w) \<and> cfg q = cfg p \<and> NODE_USABLE q = NODE_USABLE p"
proof -
  let ?d = "meaning (NODE_USABLE p) root s"
  obtain q where q: "loading q root (s @ added s ?d, (rs, ck), w)" "cfg q = cfg p" "NODE_USABLE q = NODE_USABLE p" "ready ?d q" "executing env p = conclude env ?d q"
    using ld.executing_cases [of p root "(s, (rs, ck), w)" ?d env] assms(1,2,4) by (auto simp: line_ok_def)
  have i: "idle q root (rs, ck) w" using q(1) by (simp add: loading_def)
  note l = idle_levels(3) [OF i]
  show ?thesis
  proof (cases ?d)
    case Bad
    then show ?thesis using q l idle_finish [OF i, of CPARSER_ERR_PARSE_ERR] idle_error [OF i] by (auto simp: conclude_def)
  next
    case (Unfinished t)
    then show ?thesis using q l idle_reset [OF i, of CPARSER_ERR_INCOMP_CMD] idle_error [OF i] by (auto simp: conclude_def incomplete_command_def)
  next
    case (Nothing t)
    obtain r where r: "cparser_fsm_reset (cparser_record_command CPARSER_OK q) = Some r" "loading r root ([], (rs, ck), w)" "cfg r = cfg q"
      "NODE_USABLE r = NODE_USABLE q" "cparser_print_prompt r = Some r"
      using idle_reset [OF i] by blast
    have "printc LF r = r" using r(2) idle_prints by (auto simp: loading_def out_simps)
    then show ?thesis using q r l Nothing by (auto simp: conclude_def)
  next
    case (Run ws t x)
    then obtain g where g: "nparam x = Glue g" "map tok_chars (take (token_tos q) (tokens q)) = map Some ws" using q(4) by (auto simp: ready_def)
    have "r \<in> set (nchildren x) \<Longrightarrow> ntype r = CPARSER_NODE_ROOT \<Longrightarrow> root_ok r" for r
      using meaning_subnodes [OF Run] assms(6) by (auto simp: modes_ok_def)
    then show ?thesis
      using loading_run [OF i assms(3) g assms(5), of t] q Run by (auto split: option.splits)
  qed
qed

section \<open>A file\<close>

text \<open>
  What a line does before it is executed: a line that is not blank leaves as many modes as it has spaces less in front than the
  line before, but not the first one.
\<close>

definition indentation :: "string \<Rightarrow> nat" where
  "indentation s = length (takeWhile (\<lambda>c. c = CHR '' '') s)"

definition dedent :: "nat \<Rightarrow> cparser_node list \<Rightarrow> cparser_node list" where
  "dedent d rs = take (max 1 (length rs - d)) rs"

definition line_levels :: "string \<Rightarrow> int \<Rightarrow> cparser_node list \<Rightarrow> int \<times> cparser_node list" where
  "line_levels s li rs = (if indentation s = length s then (li, rs) else (int (indentation s), dedent (nat (li - int (indentation s))) rs))"

text \<open>
  The result, the levels and the message of a sequence of lines, the first of which has the number \<open>n\<close> plus one; \<open>None\<close> is
  an assertion that fails: a command that fails otherwise than by a parse error, or an end node without a submode.
\<close>

fun load_lines :: "behaviour \<Rightarrow> (cparser_node \<Rightarrow> bool) \<Rightarrow> string list \<Rightarrow> nat \<Rightarrow> int \<Rightarrow> levels \<Rightarrow> (cparser_result \<times> levels \<times> string) option" where
  "load_lines act u [] n li (rs, ck) = Some (CPARSER_OK, ([hd rs], ck), [])"
| "load_lines act u (s # ss) n li (rs, ck) = (case line_levels s li rs of (li, rs) \<Rightarrow>
     (case after_line act (meaning u (last rs) s) (rs, ck) of
        None \<Rightarrow> None
      | Some (rc, m) \<Rightarrow>
          (if rc = CPARSER_OK then load_lines act u ss (Suc n) li m
           else map_option (\<lambda>t. (CPARSER_NOT_OK, m, t)) (load_error rc (int (Suc n))))))"

fun file_ok :: "cparser_cfg \<Rightarrow> (cparser_node \<Rightarrow> bool) \<Rightarrow> behaviour \<Rightarrow> string list \<Rightarrow> int \<Rightarrow> levels \<Rightarrow> bool" where
  "file_ok c u act [] li m \<longleftrightarrow> True"
| "file_ok c u act (s # ss) li (rs, ck) \<longleftrightarrow> (case line_levels s li rs of (li, rs) \<Rightarrow> line_ok c u (last rs) s \<and>
     (case after_line act (meaning u (last rs) s) (rs, ck) of None \<Rightarrow> True | Some (rc, m) \<Rightarrow> rc = CPARSER_OK \<longrightarrow> file_ok c u act ss li m))"

lemma dedent_0 [simp]: "rs \<noteq> [] \<Longrightarrow> dedent 0 rs = rs"
  by (cases rs) (simp_all add: dedent_def)

lemma dedent_1 [simp]: "length rs = 1 \<Longrightarrow> dedent d rs = rs"
  by (simp add: dedent_def)

lemma dedent_Suc: "1 < length rs \<Longrightarrow> dedent (Suc d) rs = dedent d (butlast rs)"
  by (auto simp: dedent_def butlast_conv_take min_def max_def)

lemma set_dedent: "set (dedent d rs) \<subseteq> set rs"
  by (simp add: dedent_def set_take_subset)

lemma dedent_not_Nil: "rs \<noteq> [] \<Longrightarrow> dedent d rs \<noteq> []"
  by (simp add: dedent_def)

lemma loading_exit:
  assumes "idle p root (rs, ck) w" and "\<forall>r\<in>set rs. root_ok r" and "1 < length rs"
  shows "\<exists>q r. cparser_submode_exit p = (CPARSER_OK, q) \<and> cparser_fsm_reset q = Some r \<and> loading r (last (butlast rs)) ([], (butlast rs, ck), w) \<and>
    cfg r = cfg p \<and> NODE_USABLE r = NODE_USABLE p"
proof -
  obtain q where q: "cparser_submode_exit p = (CPARSER_OK, q)" "idle q (last (butlast rs)) (butlast rs, ck) w" "cfg q = cfg p" "NODE_USABLE q = NODE_USABLE p"
    using idle_exit [OF assms] by blast
  obtain r where r: "cparser_fsm_reset q = Some r" "\<And>u. fsm_rep r (parse_of u (last (butlast rs)) [])" "fsm_frame q r"
    using fsm_reset_text [of q "last (butlast rs)"] q(2) by (fastforce simp: idle_def mode_ok_def)
  then show ?thesis
    using q idle_frame [OF q(2) r(3)] fsm_frame_props [OF r(3)] fsm_frameD(1) [OF r(3)]
    by (auto simp: loading_def CPARSER_MAX_TOKEN_SIZE_def)
qed

lemma exit_submodes_levels:
  "loading p root (s, (rs, ck), w) \<Longrightarrow> \<forall>r\<in>set rs. root_ok r \<Longrightarrow>
    \<exists>q. exit_submodes d p = Some q \<and> loading q (last (dedent d rs)) (if d = 0 \<or> length rs = 1 then s else [], (dedent d rs, ck), w) \<and>
      cfg q = cfg p \<and> NODE_USABLE q = NODE_USABLE p"
proof (induction d arbitrary: p root s rs)
  case 0
  then show ?case using idle_levels [of p root rs ck w] by (auto simp: loading_def)
next
  case (Suc d)
  have i: "idle p root (rs, ck) w" using Suc.prems(1) by (simp add: loading_def)
  note l = idle_levels [OF i]
  show ?case
  proof (cases "length rs = 1")
    case True
    then show ?thesis using Suc.prems(1) l by (simp add: cparser_submode_exit_def)
  next
    case False
    then have n: "1 < length rs" using l(2) by (cases rs) auto
    obtain q r where r: "cparser_submode_exit p = (CPARSER_OK, q)" "cparser_fsm_reset q = Some r" "loading r (last (butlast rs)) ([], (butlast rs, ck), w)"
      "cfg r = cfg p" "NODE_USABLE r = NODE_USABLE p"
      using loading_exit [OF i Suc.prems(2) n] by blast
    have "\<forall>r\<in>set (butlast rs). root_ok r" using Suc.prems(2) in_set_butlastD by fast
    then show ?thesis using Suc.IH [OF r(3)] r False n by (auto simp: dedent_Suc)
  qed
qed

lemma leave_submodes_levels:
  "loading p root (s, (rs, ck), w) \<Longrightarrow> \<forall>r\<in>set rs. root_ok r \<Longrightarrow>
    \<exists>q s'. leave_submodes (length rs - 1) p = Some q \<and> loading q (hd rs) (s', ([hd rs], ck), w) \<and> cfg q = cfg p"
proof (induction "length rs - 1" arbitrary: p root s rs)
  case 0
  have i: "idle p root (rs, ck) w" using 0 by (simp add: loading_def)
  then have "rs = [root]" using idle_levels(2,3) [OF i] 0(1) by (cases rs) auto
  then show ?case using 0 by auto
next
  case (Suc d)
  have i: "idle p root (rs, ck) w" using Suc.prems(1) by (simp add: loading_def)
  have n: "1 < length rs" using Suc(2) by simp
  obtain q r where r: "cparser_submode_exit p = (CPARSER_OK, q)" "cparser_fsm_reset q = Some r" "loading r (last (butlast rs)) ([], (butlast rs, ck), w)"
    "cfg r = cfg p" "NODE_USABLE r = NODE_USABLE p"
    using loading_exit [OF i Suc.prems(2) n] by blast
  have b: "\<forall>r\<in>set (butlast rs). root_ok r" "hd (butlast rs) = hd rs" "d = length (butlast rs) - 1" "length rs - 1 = Suc d"
    using Suc.prems(2) in_set_butlastD n Suc(2) by (fastforce, cases rs, auto)
  then show ?case using Suc.hyps(1) [OF b(3) r(3) b(1)] r by (auto simp: b(3,4) [symmetric] simp del: length_butlast)
qed

subsection \<open>The characters of a line\<close>

lemma load_spaces:
  "loading p root (s, m, w) \<Longrightarrow> \<not> erases (cfg p) (CHR '' '') \<Longrightarrow> length s + k < CPARSER_MAX_TOKEN_SIZE \<Longrightarrow> new_line l \<Longrightarrow>
    0 \<le> indent l \<Longrightarrow> indent l + int k < 2 ^ 31 \<Longrightarrow>
    \<exists>q. load_loop env fd (replicate k (CHR '' '') @ rest) l p = load_loop env fd rest (l\<lparr>indent := indent l + int k\<rparr>) q \<and>
      loading q root (s @ replicate k (CHR '' ''), m, w) \<and> cfg q = cfg p \<and> NODE_USABLE q = NODE_USABLE p"
proof (induction k arbitrary: p s l)
  case (Suc k)
  obtain q where q: "cparser_fsm_input (CHR '' '') p = Some q" "loading q root (s @ '' '', m, w)" "cfg q = cfg p" "NODE_USABLE q = NODE_USABLE p"
    using loading_read [of p root s m w "CHR '' ''"] Suc.prems by auto
  have "load_indent (CHR '' '') l p = Some (l\<lparr>indent := indent l + 1\<rparr>, p)"
    using Suc.prems(4-6) by (auto simp: load_indent_def c_int_def in_int_def INT_MAX_def INT_MIN_def)
  then show ?case
    using Suc.IH [OF q(2), of "l\<lparr>indent := indent l + 1\<rparr>"] Suc.prems q by (auto simp: add.commute add.left_commute)
qed auto

lemma load_rest:
  "loading p root (s, m, w) \<Longrightarrow> \<forall>c\<in>set cs. c \<noteq> LF \<and> \<not> erases (cfg p) c \<Longrightarrow> length (s @ cs) < CPARSER_MAX_TOKEN_SIZE \<Longrightarrow> \<not> new_line l \<Longrightarrow>
    \<exists>q. load_loop env fd (cs @ rest) l p = load_loop env fd rest l q \<and> loading q root (s @ cs, m, w) \<and> cfg q = cfg p \<and> NODE_USABLE q = NODE_USABLE p"
proof (induction cs arbitrary: p s)
  case (Cons c cs)
  obtain q where q: "cparser_fsm_input c p = Some q" "loading q root (s @ [c], m, w)" "cfg q = cfg p" "NODE_USABLE q = NODE_USABLE p"
    using loading_read [OF Cons.prems(1), of c] Cons.prems(2,3) by auto
  moreover have "load_indent c l p = Some (l, p)" using Cons.prems(4) by (simp add: load_indent_def)
  ultimately show ?case using Cons.IH [OF q(2)] Cons.prems by auto
qed auto

definition read_text :: "string \<Rightarrow> int \<Rightarrow> cparser_node list \<Rightarrow> string" where
  "read_text s li rs = (if indentation s = length s \<or> li \<le> int (indentation s) \<or> length rs = 1 then s else drop (indentation s) s)"

lemma spaces_drop: "replicate (indentation s) (CHR '' '') @ drop (indentation s) s = s"
proof -
  have "takeWhile (\<lambda>c. c = CHR '' '') s = replicate (indentation s) (CHR '' '')"
    unfolding indentation_def by (rule replicate_eqI) (auto dest: set_takeWhileD)
  moreover have "drop (indentation s) s = dropWhile (\<lambda>c. c = CHR '' '') s" by (simp add: indentation_def dropWhile_eq_drop)
  ultimately show ?thesis by (metis takeWhile_dropWhile_id)
qed

lemma load_text:
  assumes "loading p root ([], (rs, ck), w)" and "\<forall>r\<in>set rs. root_ok r" and "\<forall>c\<in>set s. c \<noteq> LF \<and> \<not> erases (cfg p) c" and "\<not> erases (cfg p) (CHR '' '')"
    and "length s < CPARSER_MAX_TOKEN_SIZE" and "new_line l" and "indent l = 0" and "line_levels s (last_indent l) rs = (li, rs')"
  shows "\<exists>q l'. load_loop env fd (s @ rest) l p = load_loop env fd rest l' q \<and> loading q (last rs') (read_text s (last_indent l) rs, (rs', ck), w) \<and>
    cfg q = cfg p \<and> NODE_USABLE q = NODE_USABLE p \<and> line_num l' = line_num l \<and> last_indent l' = li"
proof -
  let ?k = "indentation s" and ?b = "drop (indentation s) s"
  have root: "last rs = root" "rs \<noteq> []" using idle_levels(2,3) [of p root rs ck w] assms(1) by (auto simp: loading_def)
  have k: "?k \<le> length s" by (simp add: indentation_def length_takeWhile_le)
  obtain q where q: "load_loop env fd (replicate ?k (CHR '' '') @ ?b @ rest) l p = load_loop env fd (?b @ rest) (l\<lparr>indent := int ?k\<rparr>) q"
    "loading q root (replicate ?k (CHR '' ''), (rs, ck), w)" "cfg q = cfg p" "NODE_USABLE q = NODE_USABLE p"
    using load_spaces [OF assms(1,4), of ?k l env fd "?b @ rest"] assms(5-7) k by (auto simp: CPARSER_MAX_TOKEN_SIZE_def)
  have e: "load_loop env fd (s @ rest) l p = load_loop env fd (?b @ rest) (l\<lparr>indent := int ?k\<rparr>) q"
    using q(1) spaces_drop [of s] by (metis append.assoc)
  show ?thesis
  proof (cases "?k = length s")
    case True
    then have "replicate ?k (CHR '' '') = s" "li = last_indent l" "rs' = rs" using spaces_drop [of s] assms(8) by (auto simp: line_levels_def)
    then show ?thesis using e q True root by (intro exI [of _ q] exI [of _ "l\<lparr>indent := int ?k\<rparr>"]) (simp add: read_text_def)
  next
    case False
    then obtain c cs where c: "?b = c # cs" using k by (cases ?b) auto
    have nsp: "c \<noteq> CHR '' ''" using c hd_dropWhile [of "\<lambda>c. c = CHR '' ''" s] by (auto simp: indentation_def dropWhile_eq_drop)
    have cs: "\<forall>c\<in>set (c # cs). c \<noteq> LF \<and> \<not> erases (cfg p) c" using assms(3) c by (metis in_set_dropD)
    let ?d = "nat (last_indent l - int ?k)" and ?l = "l\<lparr>indent := int ?k\<rparr>" and ?l' = "l\<lparr>indent := int ?k, new_line := False, last_indent := int ?k\<rparr>"
    have rs': "rs' = dedent ?d rs" "li = int ?k" using assms(8) False by (auto simp: line_levels_def)
    obtain r where r: "exit_submodes ?d q = Some r" "loading r (last rs') (if ?d = 0 \<or> length rs = 1 then replicate ?k (CHR '' '') else [], (rs', ck), w)"
      "cfg r = cfg p" "NODE_USABLE r = NODE_USABLE p"
      using exit_submodes_levels [OF q(2) assms(2), of ?d] q rs' by auto
    have ind: "load_indent c ?l q = Some (?l', r)"
      using nsp assms(6) r(1) by (cases "int ?k < last_indent l") (auto simp: load_indent_def)
    have read: "(if ?d = 0 \<or> length rs = 1 then replicate ?k (CHR '' '') else []) @ ?b = read_text s (last_indent l) rs"
      using False spaces_drop [of s] by (auto simp: read_text_def)
    have len: "length ((if ?d = 0 \<or> length rs = 1 then replicate ?k (CHR '' '') else []) @ c # cs) < CPARSER_MAX_TOKEN_SIZE"
      using read c assms(5) length_drop [of ?k s] by (auto simp: read_text_def split: if_splits)
    obtain r1 where r1: "cparser_fsm_input c r = Some r1" "loading r1 (last rs') ((if ?d = 0 \<or> length rs = 1 then replicate ?k (CHR '' '') else []) @ [c], (rs', ck), w)"
      "cfg r1 = cfg p" "NODE_USABLE r1 = NODE_USABLE p"
      using loading_read [OF r(2), of c] r(3,4) cs len by (auto split: if_splits)
    obtain r2 where r2: "load_loop env fd (cs @ rest) ?l' r1 = load_loop env fd rest ?l' r2" "loading r2 (last rs') (read_text s (last_indent l) rs, (rs', ck), w)"
      "cfg r2 = cfg p" "NODE_USABLE r2 = NODE_USABLE p"
      using load_rest [OF r1(2), of cs ?l' env fd rest] r1(3,4) cs len read c by auto
    have "load_loop env fd (?b @ rest) ?l q = load_loop env fd rest ?l' r2" using c cs ind r1(1) r2(1) by simp
    then show ?thesis using e r2 rs'(2) by (intro exI [of _ r2] exI [of _ ?l']) simp
  qed
qed

subsection \<open>Leading spaces\<close>

lemma split_text_spaces: "split_text (replicate k (CHR '' '') @ s) = split_text s"
  by (induction k) (simp_all add: split_text_def)

lemma after_ending: "after_line act (ending u ws s n) m = after_line act (ending u ws s' n) m"
  by (cases m) (auto simp: ending_def Let_def split: prod.splits option.splits)

lemma after_spaces: "after_line act (meaning u root (replicate k (CHR '' '') @ s)) m = after_line act (meaning u root s) m"
  unfolding meaning_def split_text_spaces
  by (cases "split_text s") (auto split: option.splits intro: after_ending)

lemma ending_length: "length (line_after s' (ending u ws s n)) = length s + length (line_of (fst (run_on u n)))"
  by (auto simp: ending_def Let_def split: prod.splits option.splits)

lemma meaning_length: "length (line_after (r @ s) (meaning u root (r @ s))) = length r + length (line_after s (meaning u root s))" if "split_text (r @ s) = split_text s"
  using that unfolding meaning_def by (cases "split_text s") (auto simp: ending_length split: option.splits)

lemma line_ok_drop: "line_ok c u root s \<Longrightarrow> line_ok c u root (drop (indentation s) s)"
  using meaning_length [of "replicate (indentation s) (CHR '' '')" "drop (indentation s) s" u root, OF split_text_spaces]
    split_text_spaces [of "indentation s" "drop (indentation s) s"] spaces_drop [of s] in_set_dropD [of _ "indentation s" s]
  by (auto simp: line_ok_def plain_word_def)

lemma line_ok_read: "line_ok c u root s \<Longrightarrow> line_ok c u root (read_text s li rs)"
  using line_ok_drop by (simp add: read_text_def)

lemma after_read: "after_line act (meaning u root (read_text s li rs)) m = after_line act (meaning u root s) m"
  using after_spaces [of act u root "indentation s" "drop (indentation s) s" m] spaces_drop [of s] by (simp add: read_text_def)

subsection \<open>All lines\<close>

lemma after_line_modes:
  assumes "after_line act (meaning u root s) (rs, ck) = Some (rc, (rs', ck'))" and "modes_ok c root" and "\<forall>r\<in>set rs. modes_ok c r"
  shows "\<forall>r\<in>set rs'. modes_ok c r"
proof (cases "meaning u root s")
  case (Run ws t x)
  then obtain g ck1 a where a: "act_levels a x (rs, ck1) = Some (rc, (rs', ck'))"
    using assms(1) by (auto split: node_param.splits prod.splits)
  have "modes_ok c r" if "r \<in> set (nchildren x)" "ntype r = CPARSER_NODE_ROOT" for r
    using modes_ok_entered [OF assms(2)] meaning_subnodes [OF Run] that by blast
  then show ?thesis using a assms(3) by (cases a) (auto split: if_splits list.splits dest: in_set_butlastD)
qed (use assms in auto)

definition finishes :: "cparser \<Rightarrow> int \<Rightarrow> string \<Rightarrow> (cparser_result \<times> levels \<times> string) option \<Rightarrow> (cparser_result option \<times> cparser) option \<Rightarrow> bool" where
  "finishes p fd w spec res = (case spec of
     None \<Rightarrow> res = None
   | Some (rc, m, t) \<Rightarrow>
       (if rc = CPARSER_OK
        then \<exists>q s rs. res = Some (None, q) \<and> loading q (last rs) (s, (rs, snd m), w) \<and> (\<forall>r\<in>set rs. root_ok r) \<and> m = ([hd rs], snd m) \<and> cfg q = cfg p
        else \<exists>q. rc = CPARSER_NOT_OK \<and> res = Some (Some CPARSER_NOT_OK, prints t (put_fd fd q)) \<and> loading q (last (fst m)) ([], m, w) \<and> cfg q = cfg p))"

lemma hd_dedent: "rs \<noteq> [] \<Longrightarrow> hd (dedent d rs) = hd rs"
  by (simp add: dedent_def hd_take)

lemma load_loop_end:
  assumes "loading p root ([], (rs, ck), w)" and "\<forall>r\<in>set rs. root_ok r" and "\<forall>c\<in>set t. c \<noteq> LF \<and> \<not> erases (cfg p) c" and "\<not> erases (cfg p) (CHR '' '')"
    and "length t < CPARSER_MAX_TOKEN_SIZE" and "new_line l" and "indent l = 0"
  shows "finishes p fd w (Some (CPARSER_OK, ([hd rs], ck), [])) (load_loop env fd t l p)"
proof -
  have rs: "rs \<noteq> []" using idle_levels(2) [of p root rs ck w] assms(1) by (auto simp: loading_def)
  obtain li rs' where ll: "line_levels t (last_indent l) rs = (li, rs')" by fastforce
  then have rs': "hd rs' = hd rs" "set rs' \<subseteq> set rs" using rs set_dedent by (auto simp: line_levels_def hd_dedent split: if_splits)
  obtain q l' where "load_loop env fd (t @ []) l p = load_loop env fd [] l' q" "loading q (last rs') (read_text t (last_indent l) rs, (rs', ck), w)" "cfg q = cfg p"
    using load_text [OF assms(1-7) ll, of env fd "[]"] by blast
  then show ?thesis
    unfolding finishes_def using rs' assms(2)
    by (auto intro!: exI [of _ "read_text t (last_indent l) rs"] exI [of _ rs'])
qed

lemma finishes_cfg: "cfg q = cfg p \<Longrightarrow> finishes q fd w spec res = finishes p fd w spec res"
  by (simp only: finishes_def)

lemma load_loop_lines:
  "loading p (last rs) ([], (rs, ck), w) \<Longrightarrow> \<forall>r\<in>set rs. modes_ok (cfg p) r \<Longrightarrow> acting env act \<Longrightarrow>
    file_ok (cfg p) (NODE_USABLE p) act ss (last_indent l) (rs, ck) \<Longrightarrow>
    \<forall>c\<in>set t. c \<noteq> LF \<and> \<not> erases (cfg p) c \<Longrightarrow> length t < CPARSER_MAX_TOKEN_SIZE \<Longrightarrow> line_num l = int n \<Longrightarrow> indent l = 0 \<Longrightarrow> new_line l \<Longrightarrow> n + length ss < 2 ^ 31 \<Longrightarrow>
    finishes p fd w (load_lines act (NODE_USABLE p) ss n (last_indent l) (rs, ck)) (load_loop env fd (concat (map (\<lambda>s. s @ [LF]) ss) @ t) l p)"
proof (induction ss arbitrary: p l n rs ck)
  case Nil
  have rs: "rs \<noteq> []" using idle_levels(2) [of p "last rs" rs ck w] Nil.prems(1) by (auto simp: loading_def)
  have "\<forall>r\<in>set rs. root_ok r" "\<not> erases (cfg p) (CHR '' '')"
    using Nil.prems(2) rs by (cases rs; auto simp: modes_ok_def cli_ok_def char_ok_def)+
  then show ?case using load_loop_end [OF Nil.prems(1)] Nil.prems by simp
next
  case (Cons s ss)
  let ?u = "NODE_USABLE p" and ?rest = "concat (map (\<lambda>s. s @ [LF]) ss) @ t"
  have rs: "rs \<noteq> []" using idle_levels(2) [of p "last rs" rs ck w] Cons.prems(1) by (auto simp: loading_def)
  obtain li rs1 where ll: "line_levels s (last_indent l) rs = (li, rs1)" by fastforce
  then have rs1: "rs1 \<noteq> []" "\<forall>r\<in>set rs1. modes_ok (cfg p) r"
    using rs set_dedent [of _ rs] Cons.prems(2) by (auto simp: line_levels_def dedent_not_Nil split: if_splits)
  have ok: "line_ok (cfg p) ?u (last rs1) s" "last rs1 \<in> set rs1" using Cons.prems(4) ll rs1(1) by auto
  have m: "\<forall>r\<in>set rs. root_ok r" "\<forall>r\<in>set rs1. root_ok r" "cli_ok (cfg p) (last rs1)" "\<not> erases (cfg p) (CHR '' '')" "modes_ok (cfg p) (last rs1)"
    using Cons.prems(2) rs1(2) ok(2) by (auto simp: modes_ok_def cli_ok_def char_ok_def)
  obtain v where "line_after s (meaning ?u (last rs1) s) = s @ v" using meaning_added by blast
  then have len: "length s < CPARSER_MAX_TOKEN_SIZE" "\<forall>c\<in>set s. c \<noteq> LF \<and> \<not> erases (cfg p) c" using ok by (auto simp: line_ok_def)
  let ?s = "read_text s (last_indent l) rs"
  obtain l' q where q: "load_loop env fd (s @ LF # ?rest) l p = load_loop env fd (LF # ?rest) l' q" "loading q (last rs1) (?s, (rs1, ck), w)" "cfg q = cfg p"
    "NODE_USABLE q = ?u" "line_num l' = line_num l" "last_indent l' = li"
    using load_text [OF Cons.prems(1) m(1) len(2) m(4) len(1) Cons.prems(9,8) ll, of env fd "LF # ?rest"] by blast
  have n: "c_int (line_num l' + 1) = Some (int (Suc n))"
    using Cons.prems(7,10) q(5) by (simp add: c_int_def in_int_def INT_MAX_def INT_MIN_def)
  have ex: "case after_line act (meaning ?u (last rs1) s) (rs1, ck) of None \<Rightarrow> executing env q = None
    | Some (rc, m) \<Rightarrow> \<exists>r. executing env q = Some (rc, r) \<and> loading r (last (fst m)) ([], m, w) \<and> cfg r = cfg q \<and> NODE_USABLE r = NODE_USABLE q"
    using loading_line [OF q(2) _ Cons.prems(3) _ m(2)] q(3,4) m(3,5) line_ok_read [OF ok(1)] by (simp add: after_read)
  show ?case
  proof (cases "after_line act (meaning ?u (last rs1) s) (rs1, ck)")
    case None
    then show ?thesis using ex q(1) n ll by (simp add: finishes_def)
  next
    case (Some y)
    obtain rc rs2 ck2 where "y = (rc, (rs2, ck2))" by (cases y) auto
    then have a: "after_line act (meaning ?u (last rs1) s) (rs1, ck) = Some (rc, (rs2, ck2))" using Some by simp
    then obtain r where r: "executing env q = Some (rc, r)" "loading r (last rs2) ([], (rs2, ck2), w)" "cfg r = cfg p" "NODE_USABLE r = ?u"
      using ex q(3,4) by auto
    show ?thesis
    proof (cases "rc = CPARSER_OK")
      case True
      let ?l = "l'\<lparr>line_num := int (Suc n), indent := 0, new_line := True\<rparr>"
      have "finishes r fd w (load_lines act (NODE_USABLE r) ss (Suc n) (last_indent ?l) (rs2, ck2)) (load_loop env fd ?rest ?l r)"
        by (rule Cons.IH) (use r after_line_modes [OF a m(5) rs1(2)] Cons.prems ll a True q(6) in auto)
      then show ?thesis using True r n a ll q(1,6) finishes_cfg [OF r(3)] by simp
    next
      case False
      then show ?thesis using r n a ll q(1) by (cases "load_error rc (int (Suc n))") (auto simp: finishes_def)
    qed
  qed
qed

lemma config_fd:
  "erases (c\<lparr>cfg_fd := x\<rparr>) = erases c" "char_ok (c\<lparr>cfg_fd := x\<rparr>) = char_ok c" "word_ok (c\<lparr>cfg_fd := x\<rparr>) = word_ok c"
  "cfg_ok (c\<lparr>cfg_fd := x\<rparr>) = cfg_ok c" "line_ok (c\<lparr>cfg_fd := x\<rparr>) = line_ok c" "cli_ok (c\<lparr>cfg_fd := x\<rparr>) root = cli_ok c root"
proof -
  show e: "erases (c\<lparr>cfg_fd := x\<rparr>) = erases c" and ch: "char_ok (c\<lparr>cfg_fd := x\<rparr>) = char_ok c"
    by (simp_all add: fun_eq_iff erases_def char_ok_def)
  show w: "word_ok (c\<lparr>cfg_fd := x\<rparr>) = word_ok c" "cfg_ok (c\<lparr>cfg_fd := x\<rparr>) = cfg_ok c" "line_ok (c\<lparr>cfg_fd := x\<rparr>) = line_ok c"
    using e ch by (simp_all add: fun_eq_iff word_ok_def cfg_ok_def line_ok_def)
  have "cmd_ok (c\<lparr>cfg_fd := x\<rparr>) n = cmd_ok c n" for n by (induction n) (simp add: w)
  then show "cli_ok (c\<lparr>cfg_fd := x\<rparr>) root = cli_ok c root" using e ch by (simp add: cli_ok_def)
qed

lemma load_lines_ok: "load_lines act u ss n li m = Some (CPARSER_OK, m', t) \<Longrightarrow> t = []"
proof (induction ss arbitrary: n li m)
  case Nil
  then show ?case by (cases m) auto
next
  case (Cons s ss)
  then show ?case by (cases m) (auto split: prod.splits option.splits if_splits)
qed

lemma load_start:
  assumes "idle (put_fd (-1) p) root m w"
  shows "\<exists>q. cparser_fsm_reset (put_fd (-1) p) = Some q \<and> loading q root ([], m, w) \<and> cfg q = (cfg p)\<lparr>cfg_fd := -1\<rparr> \<and> NODE_USABLE q = NODE_USABLE p"
proof -
  let ?p = "put_fd (-1) p"
  obtain q where q: "cparser_fsm_reset ?p = Some q" "\<And>u. fsm_rep q (parse_of u root [])" "fsm_frame ?p q"
    using fsm_reset_text [of ?p root] assms by (fastforce simp: idle_def mode_ok_def)
  moreover have "cfg q = cfg ?p" "NODE_USABLE q = NODE_USABLE p"
    using fsm_frame_props [OF q(3)] fsm_frameD(1) [OF q(3)] by (auto simp: put_fd_def NODE_USABLE_def fun_eq_iff)
  ultimately show ?thesis using idle_frame [OF assms] by (auto simp: loading_def put_fd_def CPARSER_MAX_TOKEN_SIZE_def)
qed

definition loadable :: "cparser \<Rightarrow> cparser_node \<Rightarrow> bool" where
  "loadable p root \<longleftrightarrow> mode_ok p root \<and> root_level p = 0 \<and> modes_ok (cfg p) root \<and> length (roots p) = CPARSER_MAX_NESTED_LEVELS \<and>
     length (prompts p) = CPARSER_MAX_NESTED_LEVELS \<and> length (cookie p) = CPARSER_MAX_NESTED_LEVELS \<and> (\<exists>t k. at_line p t k)"

lemma loadable_idle: "loadable p root \<Longrightarrow> idle (put_fd (-1) p) root ([root], cookie p) (out p)"
  by (auto simp: loadable_def idle_def levels_def mode_ok_def put_fd_def config_fd at_line_def this_line_def aget_def take_Suc_conv_app_nth split: if_splits)

lemma modes_ok_fd: "modes_ok (c\<lparr>cfg_fd := x\<rparr>) root = modes_ok c root"
  by (simp add: modes_ok_def config_fd)

lemma file_ok_fd: "file_ok (c\<lparr>cfg_fd := x\<rparr>) u act ss li m = file_ok c u act ss li m"
proof (induction ss arbitrary: li m)
  case (Cons s ss)
  then show ?case by (cases m) (auto simp: config_fd split: prod.splits option.splits)
qed simp

text \<open>
  C36: loading a file does what its lines mean, one after the other, in whatever modes they lead to. A line that is not blank first leaves one
  mode for every space that it has less in front than the line before; then its words are looked up in the tree of the mode, and the function of the
  command is called with exactly these words. It may return any result, or enter or leave a mode. As long as the results are good the loading goes on;
  at the end all modes are left, and the descriptor of the terminal is the one before. A parse error or an incomplete command
  ends the loading with a message that has the number of the line, the only thing that is printed, and the parser stays in the mode of this line.
  Every other result fails an assertion; the same holds for a command that enters a mode and has none. The text behind the last line feed
  is never executed. The trees have at most 32 levels, and lines less than 256 characters, the last word of which is not a file or one of a list.
\<close>

theorem load_does_lines:
  assumes "loadable p root" and "acting env act" and "file_ok (cfg p) (NODE_USABLE p) act ss (-1) ([root], cookie p)" and "length ss < 2 ^ 31"
    and "\<forall>c\<in>set t. c \<noteq> LF \<and> \<not> erases (cfg p) c" and "length t < CPARSER_MAX_TOKEN_SIZE"
  shows "case load_lines act (NODE_USABLE p) ss 0 (-1) ([root], cookie p) of
      None \<Rightarrow> cparser_load_cmd env (Some (concat (map (\<lambda>s. s @ [LF]) ss) @ t)) p = None
    | Some (rc, (rs, ck), m) \<Rightarrow> \<exists>q. cparser_load_cmd env (Some (concat (map (\<lambda>s. s @ [LF]) ss) @ t)) p = Some (rc, q) \<and>
        root_level q = length rs - 1 \<and> take (length rs) (roots q) = rs \<and> cookie q = ck \<and> cfg q = cfg p \<and> out q = out (prints m p)"
proof -
  let ?fd = "cfg_fd (cfg p)" and ?l = "\<lparr>indent = 0, last_indent = -1, new_line = True, line_num = 0\<rparr>"
  let ?f = "concat (map (\<lambda>s. s @ [LF]) ss) @ t"
  obtain q where q: "cparser_fsm_reset (put_fd (-1) p) = Some q" "loading q root ([], ([root], cookie p), out p)" "cfg q = (cfg p)\<lparr>cfg_fd := -1\<rparr>" "NODE_USABLE q = NODE_USABLE p"
    using load_start [OF loadable_idle [OF assms(1)]] by blast
  have fin: "finishes q ?fd (out p) (load_lines act (NODE_USABLE p) ss 0 (-1) ([root], cookie p)) (load_loop env ?fd ?f ?l q)"
    using load_loop_lines [of q "[root]" "cookie p" "out p" env act ss ?l t 0 ?fd] q assms by (auto simp: config_fd modes_ok_fd file_ok_fd loadable_def)
  have run: "cparser_load_cmd env (Some ?f) p = do { (rc, p) \<leftarrow> load_loop env ?fd ?f ?l q;
      (case rc of Some rc \<Rightarrow> Some (rc, p) | None \<Rightarrow> do { p \<leftarrow> leave_submodes (root_level p) p; Some (CPARSER_OK, put_fd ?fd p) }) }"
    using q(1) by (simp add: cparser_load_cmd_def Let_def)
  have fd: "cfg (put_fd ?fd r) = cfg p" if "cfg r = cfg q" for r using that q(3) by (simp add: put_fd_def)
  show ?thesis
  proof (cases "load_lines act (NODE_USABLE p) ss 0 (-1) ([root], cookie p)")
    case None
    then show ?thesis using fin run by (simp add: finishes_def)
  next
    case (Some y)
    obtain rc rs ck m where y: "y = (rc, (rs, ck), m)" by (cases y) auto
    show ?thesis
    proof (cases "rc = CPARSER_OK")
      case True
      then obtain r s rs' where r: "load_loop env ?fd ?f ?l q = Some (None, r)" "loading r (last rs') (s, (rs', ck), out p)" "\<forall>r\<in>set rs'. root_ok r"
        "rs = [hd rs']" "cfg r = cfg q"
        using fin Some y by (auto simp: finishes_def)
      have lv: "root_level r = length rs' - 1" using idle_levels(1) [of r "last rs'" rs' ck "out p"] r(2) by (simp add: loading_def)
      obtain r' s' where r': "leave_submodes (length rs' - 1) r = Some r'" "loading r' (hd rs') (s', (rs, ck), out p)" "cfg r' = cfg r"
        using leave_submodes_levels [OF r(2,3)] r(4) by blast
      note l = idle_levels [of r' "hd rs'" rs ck "out p"]
      have "out r' = out p" "m = []" using r'(2) load_lines_ok Some y True by (auto simp: loading_def idle_def)
      then show ?thesis
        using run r(1,5) lv r' l fd [of r'] Some y True by (auto simp: loading_def put_fd_def prints_def)
    next
      case False
      then obtain r where r: "rc = CPARSER_NOT_OK" "load_loop env ?fd ?f ?l q = Some (Some CPARSER_NOT_OK, prints m (put_fd ?fd r))"
        "loading r (last rs) ([], (rs, ck), out p)" "cfg r = cfg q"
        using fin Some y by (auto simp: finishes_def)
      note l = idle_levels [of r "last rs" rs ck "out p"]
      have "out (prints m (put_fd ?fd r)) = out (prints m p)" using r(3,4) fd [OF r(4)] by (simp add: prints_def put_fd_def loading_def idle_def)
      then show ?thesis
        using run r l fd [OF r(4)] Some y False by (auto simp: loading_def put_fd_def prints_def)
    qed
  qed
qed

section \<open>An example\<close>

definition sample_mode :: cparser_node where
  "sample_mode = Node CPARSER_NODE_ROOT 0 No_param None
     [Node CPARSER_NODE_KEYWORD 0 (Str ''set'') None
       [Node CPARSER_NODE_UINT 0 (Str ''<UINT:n>'') None [Node CPARSER_NODE_END 0 (Glue 2) None []]]]"

definition sample_modes :: cparser_node where
  "sample_modes = Node CPARSER_NODE_ROOT 0 No_param None
     [Node CPARSER_NODE_KEYWORD 0 (Str ''show'') None
       [Node CPARSER_NODE_UINT 0 (Str ''<UINT:n>'') None [Node CPARSER_NODE_END 0 (Glue 0) None []]],
      Node CPARSER_NODE_KEYWORD 0 (Str ''in'') None [Node CPARSER_NODE_END 0 (Glue 1) None [sample_mode]]]"

definition modes_parser :: cparser where
  "modes_parser = sample_parser\<lparr>roots := replicate 4 sample_modes, cur_node := sample_modes\<rparr>"

definition sample_act :: behaviour where
  "sample_act g ws l ck = (if g = 1 then (ck, Enter 9 ''in> '') else (ck[l := g + length ws], Return CPARSER_OK))"

definition sample_env :: cli_env where
  "sample_env = \<lparr>glue_fn = \<lambda>g q. (case sample_act g (map tok_chars (take (token_tos q) (tokens q))) (root_level q) (cookie q) of (ck, a) \<Rightarrow> perform a (q\<lparr>cookie := ck\<rparr>)),
     input_cb = \<lambda>n b k p. None, glob_fn = \<lambda>s. None\<rparr>"

lemma sample_meanings:
  defines "u \<equiv> NODE_USABLE modes_parser"
  shows "meaning u sample_modes ''in'' = Run [''in''] ''in '' (Node CPARSER_NODE_END 0 (Glue 1) None [sample_mode])"
    "meaning u sample_mode '' set 5'' = Run [''set'', ''5''] '' set 5 '' (Node CPARSER_NODE_END 0 (Glue 2) None [])"
    "meaning u sample_modes ''show 7'' = Run [''show'', ''7''] ''show 7 '' (Node CPARSER_NODE_END 0 (Glue 0) None [])"
    "meaning u sample_modes ''sh'' = Unfinished ''show ''"
    "plain_word u sample_modes ''in''" "plain_word u sample_mode '' set 5''" "plain_word u sample_modes ''show 7''" "plain_word u sample_modes ''sh''"
proof -
  have u: "u (Node ty 0 pa de cs)" for ty pa de cs by (simp add: u_def NODE_USABLE_def hidden_def)
  have sp: "split_text ''show 7'' = ([''show''], ''7'')" "split_text ''sh'' = ([], ''sh'')" "split_text ''in'' = ([], ''in'')" "split_text '' set 5'' = ([''set''], ''5'')"
    by (simp_all add: split_text_def)
  show "meaning u sample_modes ''in'' = Run [''in''] ''in '' (Node CPARSER_NODE_END 0 (Glue 1) None [sample_mode])"
    "meaning u sample_mode '' set 5'' = Run [''set'', ''5''] '' set 5 '' (Node CPARSER_NODE_END 0 (Glue 2) None [])"
    "meaning u sample_modes ''show 7'' = Run [''show'', ''7''] ''show 7 '' (Node CPARSER_NODE_END 0 (Glue 0) None [])"
    "meaning u sample_modes ''sh'' = Unfinished ''show ''"
    by (auto simp: meaning_def sp sample_modes_def starts_code match_eval u full_word_def ending_def line_of_def)
      (auto simp: meaning_def sp sample_mode_def starts_code match_eval u full_word_def ending_def line_of_def)
  show "plain_word u sample_modes ''in''" "plain_word u sample_mode '' set 5''" "plain_word u sample_modes ''show 7''" "plain_word u sample_modes ''sh''"
    by (auto simp: plain_word_def sp sample_modes_def starts_code match_eval u) (auto simp: plain_word_def sp sample_mode_def starts_code match_eval u)
qed

lemma modes_parser_ok: "loadable modes_parser sample_modes"
proof -
  have r: "root_ok sample_modes" "root_ok sample_mode"
    by (simp_all add: root_ok_def sample_modes_def sample_mode_def child_ok_def CPARSER_MAX_NUM_TOKENS_def)
  have "cli_ok (cfg modes_parser) sample_modes" "cli_ok (cfg modes_parser) sample_mode"
    by (simp_all add: sample_modes_def sample_mode_def cli_ok_def word_ok_def char_ok_def erases_def modes_parser_def sample_parser_def)
  moreover have "set (subnodes sample_modes) \<subseteq> {n. ntype n = CPARSER_NODE_ROOT \<longrightarrow> n = sample_modes \<or> n = sample_mode}"
    by (simp add: sample_modes_def) (simp add: sample_mode_def)
  ultimately have "modes_ok (cfg modes_parser) sample_modes" using r by (auto simp: modes_ok_def)
  moreover have "\<exists>t k. at_line modes_parser t k"
    using empty_line_rep by (auto simp: at_line_def this_line_def aget_def modes_parser_def sample_parser_def)
  ultimately show ?thesis
    using r by (simp add: loadable_def mode_ok_def modes_parser_def sample_parser_def aget_def cfg_ok_def erases_def CPARSER_MAX_NESTED_LEVELS_def)
qed

theorem load_does_lines_witness:
  "\<exists>q. cparser_load_cmd sample_env (Some (''in'' @ [LF] @ '' set 5'' @ [LF] @ ''show 7'' @ [LF] @ ''sh'' @ [LF] @ ''x'')) modes_parser = Some (CPARSER_NOT_OK, q) \<and>
     cookie q = [2, 4, 0, 0] \<and> root_level q = 0 \<and> out q = ''Line 4: Incomplete command.'' @ [LF]"
proof -
  let ?p = modes_parser and ?ss = "[''in'', '' set 5'', ''show 7'', ''sh'']" and ?u = "NODE_USABLE modes_parser" and ?r = sample_modes
  note ms = sample_meanings
  have e: "acting sample_env sample_act" by (auto simp: acting_def sample_env_def sample_act_def)
  have ck: "cookie ?p = [0, 0, 0, 0]" by (simp add: modes_parser_def sample_parser_def numeral_eq_Suc)
  have er: "\<forall>c\<in>set (concat ?ss @ ''x''). c \<noteq> LF \<and> \<not> erases (cfg ?p) c" by (simp add: modes_parser_def sample_parser_def erases_def)
  have ll: "line_levels ''in'' (-1) [?r] = (0, [?r])" "line_levels '' set 5'' 0 [?r, sample_mode] = (1, [?r, sample_mode])"
    "line_levels ''show 7'' 1 [?r, sample_mode] = (0, [?r])" "line_levels ''sh'' 0 [?r] = (0, [?r])"
    by (simp_all add: line_levels_def indentation_def dedent_def)
  have root: "ntype sample_mode = CPARSER_NODE_ROOT" by (simp add: sample_mode_def)
  have f: "file_ok (cfg ?p) ?u sample_act ?ss (-1) ([?r], cookie ?p)"
    using ms er root by (simp add: ll line_ok_def sample_act_def ck CPARSER_MAX_TOKEN_SIZE_def CPARSER_MAX_NESTED_LEVELS_def)
  have d: "dec 4 = ''4''" by code_simp
  have m: "load_lines sample_act ?u ?ss 0 (-1) ([?r], cookie ?p) = Some (CPARSER_NOT_OK, ([?r], [2, 4, 0, 0]), ''Line 4: Incomplete command.'' @ [LF])"
    using ms d root by (simp add: ll sample_act_def ck load_error_def CPARSER_MAX_NESTED_LEVELS_def del: dec.simps)
  have t: "\<forall>c\<in>set ''x''. c \<noteq> LF \<and> \<not> erases (cfg ?p) c" "length ''x'' < CPARSER_MAX_TOKEN_SIZE" "length ?ss < 2 ^ 31"
    using er by (simp_all add: CPARSER_MAX_TOKEN_SIZE_def)
  show ?thesis
    using load_does_lines [OF modes_parser_ok e f t(3,1,2)] m by (auto simp: prints_def modes_parser_def sample_parser_def)
qed

text \<open>A file that cannot be opened leaves the parser without its terminal.\<close>

lemma load_missing_file: "cparser_load_cmd env None p = Some (CPARSER_NOT_OK, p\<lparr>cfg := (cfg p)\<lparr>cfg_fd := -1\<rparr>\<rparr>)"
  by (simp add: cparser_load_cmd_def put_fd_def Let_def)

end
