(* ===== verification/Cli_Help.thy ===== *)
theory Cli_Help
  imports Cli_Input
begin

text \<open>
  Walks over the parse tree and the list of all commands (\<^verbatim>\<open>cparser_walk\<close> and \<^verbatim>\<open>cparser_help_cmd\<close> of
  \<^verbatim>\<open>cparser.c\<close>). The walk calls a function before and one after the children of every node; the help keeps
  the nodes from the root to the current one in a stack of 34 entries.
\<close>

section \<open>Walks\<close>

type_synonym 's walker = "cparser_node \<Rightarrow> cparser \<Rightarrow> 's \<Rightarrow> (cparser_result \<times> cparser \<times> 's) option"

definition walk_fn :: "'s walker option \<Rightarrow> 's walker" where
  "walk_fn f n p s = (case f of None \<Rightarrow> Some (CPARSER_OK, p, s) | Some g \<Rightarrow> g n p s)"

fun cparser_walk_internal :: "'s walker option \<Rightarrow> 's walker option \<Rightarrow> 's walker"
  and walk_children :: "'s walker option \<Rightarrow> 's walker option \<Rightarrow> cparser_node list \<Rightarrow> cparser \<Rightarrow> 's \<Rightarrow> (cparser \<times> 's) option" where
  "cparser_walk_internal pre post (Node ty fl pa de cs) p s = do {
     (rc, p, s) \<leftarrow> walk_fn pre (Node ty fl pa de cs) p s;
     if rc \<noteq> CPARSER_OK then Some (rc, p, s)
     else do {
       (p, s) \<leftarrow> (if ty \<noteq> CPARSER_NODE_END then walk_children pre post cs p s else Some (p, s));
       walk_fn post (Node ty fl pa de cs) p s } }"
| "walk_children pre post [] p s = Some (p, s)"
| "walk_children pre post (c # cs) p s = do {
     (rc, p, s) \<leftarrow> cparser_walk_internal pre post c p s;
     walk_children pre post cs p s }"

definition cparser_walk :: "'s walker option \<Rightarrow> 's walker option \<Rightarrow> cparser \<Rightarrow> 's \<Rightarrow> (cparser_result \<times> cparser \<times> 's) option" where
  "cparser_walk pre post p s =
     (if pre = None \<and> post = None then Some (CPARSER_ERR_INVALID_PARAMS, p, s)
      else do { root \<leftarrow> aget (roots p) (root_level p); cparser_walk_internal pre post root p s })"

section \<open>The list of commands\<close>

record help_stack =
  hfilter :: "string option"
  htos :: nat
  hnodes :: "cparser_node option list"

definition cparser_help_pre_walker :: "help_stack walker" where
  "cparser_help_pre_walker node p hs = do {
     ns \<leftarrow> aput (hnodes hs) (htos hs) (Some node);
     Some (CPARSER_OK, p, hs\<lparr>hnodes := ns, htos := htos hs + 1\<rparr>) }"

text \<open>Whether a string occurs in another one, as \<^verbatim>\<open>strstr\<close> says.\<close>

fun strstr :: "string \<Rightarrow> string \<Rightarrow> bool" where
  "strstr [] w \<longleftrightarrow> w = []"
| "strstr (c # cs) w \<longleftrightarrow> take (length w) (c # cs) = w \<or> strstr cs w"

text \<open>The search for the filter in the keywords of the stack.\<close>

fun filter_matches :: "string \<Rightarrow> cparser_node list \<Rightarrow> bool option" where
  "filter_matches f [] = Some False"
| "filter_matches f (n # ns) =
     (if ntype n = CPARSER_NODE_LIST then (case nparam n of
          Keywords (kw # kws) \<Rightarrow> if list_ex (\<lambda>k. strstr k f) (kw # kws) then Some True else filter_matches f ns
        | _ \<Rightarrow> None)
      else if ntype n \<noteq> CPARSER_NODE_KEYWORD then filter_matches f ns
      else (case nparam n of Str kw \<Rightarrow> if strstr kw f then Some True else filter_matches f ns | _ \<Rightarrow> None))"

definition flag :: "cparser_node \<Rightarrow> 32 word \<Rightarrow> bool" where
  "flag n m \<longleftrightarrow> and (nflags n) m \<noteq> 0"

text \<open>The command as it is written; \<open>b\<close> is the number of open braces.\<close>

fun help_words :: "nat \<Rightarrow> cparser_node list \<Rightarrow> cparser \<Rightarrow> cparser option" where
  "help_words b [] p = Some p"
| "help_words b (n # ns) p =
     (if ntype n = CPARSER_NODE_ROOT \<or> ntype n = CPARSER_NODE_END then help_words b ns p
      else let p = (if flag n OPT_START then prints ''{ '' p else p); b = (if flag n OPT_START then b + 1 else b) in do {
        p \<leftarrow> cparser_help_print_node n False False p;
        let p = printc (CHR '' '') p;
        help_words b ns (if flag n OPT_END then prints (concat (replicate b ''} '')) p else p) })"

definition help_do_print :: "string option \<Rightarrow> cparser_node \<Rightarrow> cparser_node list \<Rightarrow> cparser \<Rightarrow> bool option" where
  "help_do_print f node ns p = (case f of
     Some w \<Rightarrow> do { b \<leftarrow> filter_matches w ns; Some (b \<and> NODE_USABLE p node) }
   | None \<Rightarrow> Some (NODE_USABLE p node))"

definition help_command :: "string option \<Rightarrow> cparser_node \<Rightarrow> cparser_node list \<Rightarrow> cparser \<Rightarrow> cparser option" where
  "help_command f node ns p =
     (if ntype node = CPARSER_NODE_END \<and> \<not> flag node OPT_PARTIAL then do {
        do_print \<leftarrow> help_do_print f node ns p;
        if do_print then do {
          let p = (case ndesc node of Some d \<Rightarrow> prints ([CR, LF] @ ''  '') (prints d p) | None \<Rightarrow> prints (CR # ''  '') p);
          p \<leftarrow> help_words 0 ns p;
          Some (prints [CR, LF, LF] p) }
        else Some p }
      else Some p)"

text \<open>The entries of the stack below its top, which have all been written.\<close>

definition stack_nodes :: "help_stack \<Rightarrow> cparser_node list option" where
  "stack_nodes hs = (if htos hs \<le> length (hnodes hs) \<and> list_all (\<lambda>n. n \<noteq> None) (take (htos hs) (hnodes hs))
     then Some (map the (take (htos hs) (hnodes hs))) else None)"

definition cparser_help_post_walker :: "help_stack walker" where
  "cparser_help_post_walker node p hs = do {
     ns \<leftarrow> stack_nodes hs;
     p \<leftarrow> help_command (hfilter hs) node ns p;
     Some (CPARSER_OK, p, hs\<lparr>htos := htos hs - 1\<rparr>) }"

definition cparser_help_cmd :: "string option \<Rightarrow> cparser \<Rightarrow> (cparser_result \<times> cparser) option" where
  "cparser_help_cmd str p = do {
     (rc, p, hs) \<leftarrow> cparser_walk (Some cparser_help_pre_walker) (Some cparser_help_post_walker) p
       \<lparr>hfilter = str, htos = 0, hnodes = replicate (CPARSER_MAX_NUM_TOKENS + 2) None\<rparr>;
     Some (rc, p) }"

section \<open>The commands of a tree\<close>

text \<open>The nodes on the way to every end node, in the order of the tree.\<close>

fun commands :: "cparser_node \<Rightarrow> cparser_node list list" where
  "commands (Node ty fl pa de cs) = map ((#) (Node ty fl pa de cs)) (if ty = CPARSER_NODE_END then [[]] else concat (map commands cs))"

fun help_all :: "string option \<Rightarrow> cparser_node list list \<Rightarrow> cparser \<Rightarrow> cparser option" where
  "help_all f [] p = Some p"
| "help_all f (ns # nss) p = do { p \<leftarrow> help_command f (last ns) ns p; help_all f nss p }"

lemma help_all_append: "help_all f (xs @ ys) p = do { p \<leftarrow> help_all f xs p; help_all f ys p }"
  by (induction xs arbitrary: p) (auto split: Option.bind_splits)

definition hstack :: "help_stack \<Rightarrow> string option \<Rightarrow> cparser_node list \<Rightarrow> bool" where
  "hstack hs f ns \<longleftrightarrow> hfilter hs = f \<and> htos hs = length ns \<and> length (hnodes hs) = CPARSER_MAX_NUM_TOKENS + 2 \<and>
     take (length ns) (hnodes hs) = map Some ns"

lemma hstack_nodes: "hstack hs f ns \<Longrightarrow> length ns \<le> CPARSER_MAX_NUM_TOKENS + 2 \<Longrightarrow> stack_nodes hs = Some ns"
  by (auto simp: hstack_def stack_nodes_def list_all_iff o_def)

lemma hstack_push:
  assumes "hstack hs f ns" and "length ns < CPARSER_MAX_NUM_TOKENS + 2"
  shows "\<exists>hs'. walk_fn (Some cparser_help_pre_walker) n p hs = Some (CPARSER_OK, p, hs') \<and> hstack hs' f (ns @ [n])"
  using assms by (auto simp: hstack_def walk_fn_def cparser_help_pre_walker_def aput_def take_Suc_conv_app_nth)

lemma hstack_pop:
  assumes "hstack hs f (ns @ [n])" and "length ns < CPARSER_MAX_NUM_TOKENS + 2"
  shows "walk_fn (Some cparser_help_post_walker) m p hs = do { p \<leftarrow> help_command f m (ns @ [n]) p; Some (CPARSER_OK, p, hs\<lparr>htos := length ns\<rparr>) }"
    and "hstack (hs\<lparr>htos := length ns\<rparr>) f ns"
  using assms hstack_nodes [OF assms(1)] by (auto simp: hstack_def walk_fn_def cparser_help_post_walker_def take_Suc_conv_app_nth)

abbreviation help_walk :: "help_stack walker" where
  "help_walk \<equiv> cparser_walk_internal (Some cparser_help_pre_walker) (Some cparser_help_post_walker)"

text \<open>
  Inner nodes are no end nodes, so the function after their children only takes them from the stack;
  the commands of a subtree are printed with the way to it in front.
\<close>

definition lists_commands :: "cparser_node \<Rightarrow> bool" where
  "lists_commands n \<longleftrightarrow> (\<forall>hs f ns p. hstack hs f ns \<longrightarrow> length ns + height n \<le> CPARSER_MAX_NUM_TOKENS + 2 \<longrightarrow>
    (\<exists>hs'. hstack hs' f ns \<and> help_walk n p hs = map_option (\<lambda>p. (CPARSER_OK, p, hs')) (help_all f (map ((@) ns) (commands n)) p)))"

lemma lists_commandsD:
  "lists_commands n \<Longrightarrow> hstack hs f ns \<Longrightarrow> length ns + height n \<le> CPARSER_MAX_NUM_TOKENS + 2 \<Longrightarrow>
    \<exists>hs'. hstack hs' f ns \<and> help_walk n p hs = map_option (\<lambda>p. (CPARSER_OK, p, hs')) (help_all f (map ((@) ns) (commands n)) p)"
  unfolding lists_commands_def by blast

lemma help_walk_children:
  "\<forall>c\<in>set cs. lists_commands c \<and> length ns + height c \<le> CPARSER_MAX_NUM_TOKENS + 2 \<Longrightarrow> hstack hs f ns \<Longrightarrow>
    \<exists>hs'. hstack hs' f ns \<and> walk_children (Some cparser_help_pre_walker) (Some cparser_help_post_walker) cs p hs =
      map_option (\<lambda>p. (p, hs')) (help_all f (map ((@) ns) (concat (map commands cs))) p)"
proof (induction cs arbitrary: p hs)
  case (Cons c cs)
  obtain hs1 where h: "hstack hs1 f ns" "help_walk c p hs = map_option (\<lambda>p. (CPARSER_OK, p, hs1)) (help_all f (map ((@) ns) (commands c)) p)"
    using lists_commandsD [of c hs f ns p] Cons.prems by auto
  show ?case
  proof (cases "help_all f (map ((@) ns) (commands c)) p")
    case None
    then show ?thesis using h by (auto simp: help_all_append)
  next
    case (Some q)
    obtain hs2 where "hstack hs2 f ns" "walk_children (Some cparser_help_pre_walker) (Some cparser_help_post_walker) cs q hs1 =
        map_option (\<lambda>p. (p, hs2)) (help_all f (map ((@) ns) (concat (map commands cs))) q)"
      using Cons.IH [of hs1 q] Cons.prems(1) h(1) by auto
    then show ?thesis using h(2) Some by (auto simp: help_all_append)
  qed
qed auto

lemma help_walk_lists: "lists_commands n"
proof (induction n)
  case (Node ty fl pa de cs)
  let ?n = "Node ty fl pa de cs"
  show ?case
    unfolding lists_commands_def
  proof (intro allI impI)
    fix hs f ns p
    assume h: "hstack hs f ns" and len: "length ns + height ?n \<le> CPARSER_MAX_NUM_TOKENS + 2"
    have l: "length ns < CPARSER_MAX_NUM_TOKENS + 2" using len height_pos [of ?n] by simp
    obtain hs1 where h1: "walk_fn (Some cparser_help_pre_walker) ?n p hs = Some (CPARSER_OK, p, hs1)" "hstack hs1 f (ns @ [?n])"
      using hstack_push [OF h l] by blast
    show "\<exists>hs'. hstack hs' f ns \<and> help_walk ?n p hs = map_option (\<lambda>p. (CPARSER_OK, p, hs')) (help_all f (map ((@) ns) (commands ?n)) p)"
    proof (cases "ty = CPARSER_NODE_END")
      case True
      then show ?thesis using h1 hstack_pop [OF h1(2) l] by (auto split: Option.bind_splits)
    next
      case False
      have "\<forall>c\<in>set cs. lists_commands c \<and> length (ns @ [?n]) + height c \<le> CPARSER_MAX_NUM_TOKENS + 2"
        using Node.IH height_child [of ?n] False len by fastforce
      then obtain hs2 where h2: "hstack hs2 f (ns @ [?n])" "walk_children (Some cparser_help_pre_walker) (Some cparser_help_post_walker) cs p hs1 =
          map_option (\<lambda>p. (p, hs2)) (help_all f (map ((@) (ns @ [?n])) (concat (map commands cs))) p)"
        using help_walk_children h1(2) by blast
      have "map ((@) ns) (commands ?n) = map ((@) (ns @ [?n])) (concat (map commands cs))" using False by (simp add: o_def)
      moreover have "walk_fn (Some cparser_help_post_walker) ?n q hs2 = Some (CPARSER_OK, q, hs2\<lparr>htos := length ns\<rparr>)" for q
        using hstack_pop(1) [OF h2(1) l] False by (simp add: help_command_def)
      ultimately show ?thesis
        using h1(1) h2(2) hstack_pop(2) [OF h2(1) l] False
        by (cases "help_all f (map ((@) (ns @ [?n])) (concat (map commands cs))) p") (auto simp del: commands.simps)
    qed
  qed
qed

section \<open>What the list says\<close>

text \<open>
  The list as a function of the tree, independent of the loops: the words a node can be typed as,
  how it is written, and the entry of a command. An optional part opens with a brace at every node with
  \<open>OPT_START\<close>; at a node with \<open>OPT_END\<close> as many braces are closed as have been opened before.
\<close>

definition occurs :: "string \<Rightarrow> string \<Rightarrow> bool" where
  "occurs w s \<longleftrightarrow> (\<exists>x y. s = x @ w @ y)"

definition spellings :: "cparser_node \<Rightarrow> string list" where
  "spellings n = (case (ntype n, nparam n) of
     (CPARSER_NODE_KEYWORD, Str kw) \<Rightarrow> [kw] | (CPARSER_NODE_LIST, Keywords kws) \<Rightarrow> kws | _ \<Rightarrow> [])"

fun alternatives :: "string list \<Rightarrow> string" where
  "alternatives [] = []" | "alternatives [kw] = kw" | "alternatives (kw # kws) = kw @ '' | '' @ alternatives kws"

definition written :: "cparser_node \<Rightarrow> string" where
  "written n = (case nparam n of Str s \<Rightarrow> s | Keywords kws \<Rightarrow> ''[ '' @ alternatives kws @ '' ]'' | _ \<Rightarrow> [])"

definition inner :: "cparser_node \<Rightarrow> bool" where
  "inner n \<longleftrightarrow> ntype n \<noteq> CPARSER_NODE_ROOT \<and> ntype n \<noteq> CPARSER_NODE_END"

definition opened :: "cparser_node list \<Rightarrow> nat" where
  "opened ns = length (filter (\<lambda>n. flag n OPT_START) ns)"

definition usage_word :: "(cparser_node \<Rightarrow> bool) \<Rightarrow> nat \<Rightarrow> cparser_node \<Rightarrow> string" where
  "usage_word u b n = (if flag n OPT_START then ''{ '' else []) @ (if u n then written n else []) @ '' '' @
     (if flag n OPT_END then concat (replicate b ''} '') else [])"

definition usage :: "(cparser_node \<Rightarrow> bool) \<Rightarrow> cparser_node list \<Rightarrow> string" where
  "usage u ns = concat (map (\<lambda>i. usage_word u (opened (take (Suc i) ns)) (ns ! i)) [0..<length ns])"

definition help_entry :: "(cparser_node \<Rightarrow> bool) \<Rightarrow> cparser_node list \<Rightarrow> string" where
  "help_entry u ns = (case ndesc (last ns) of Some d \<Rightarrow> d @ [CR, LF] | None \<Rightarrow> [CR]) @ ''  '' @ usage u (filter inner ns) @ [CR, LF, LF]"

text \<open>
  A command is listed when its end node is usable and is not the end of a partial command, and when the filter, if
  there is one, occurs in a word of it.
\<close>

definition listed :: "(cparser_node \<Rightarrow> bool) \<Rightarrow> string option \<Rightarrow> cparser_node list \<Rightarrow> bool" where
  "listed u f ns \<longleftrightarrow> u (last ns) \<and> \<not> flag (last ns) OPT_PARTIAL \<and>
     (case f of None \<Rightarrow> True | Some w \<Rightarrow> \<exists>n\<in>set ns. \<exists>k\<in>set (spellings n). occurs w k)"

definition help_text :: "(cparser_node \<Rightarrow> bool) \<Rightarrow> string option \<Rightarrow> cparser_node \<Rightarrow> string" where
  "help_text u f root = concat (map (help_entry u) (filter (listed u f) (commands root)))"

text \<open>The nodes have the parameters that the parser generator gives them.\<close>

definition named :: "cparser_node \<Rightarrow> bool" where
  "named n \<longleftrightarrow> inner n \<longrightarrow> (if ntype n = CPARSER_NODE_LIST then \<exists>kw kws. nparam n = Keywords (kw # kws) else \<exists>s. nparam n = Str s)"

fun named_tree :: "cparser_node \<Rightarrow> bool" where
  "named_tree (Node ty fl pa de cs) \<longleftrightarrow> named (Node ty fl pa de cs) \<and> (ty = CPARSER_NODE_END \<or> (\<forall>c\<in>set cs. named_tree c))"

lemma strstr_occurs: "strstr s w \<longleftrightarrow> occurs w s"
proof (induction s)
  case Nil
  then show ?case by (auto simp: occurs_def)
next
  case (Cons c cs)
  have "occurs w (c # cs) \<longleftrightarrow> (\<exists>y. c # cs = w @ y) \<or> occurs w cs"
    unfolding occurs_def by (auto simp: Cons_eq_append_conv intro: exI [of _ "[]"])
  moreover have "(\<exists>y. c # cs = w @ y) \<longleftrightarrow> take (length w) (c # cs) = w"
    by (metis append_eq_conv_conj append_take_drop_id)
  ultimately show ?case using Cons by simp
qed

lemma named_path: "ns \<in> set (commands t) \<Longrightarrow> named_tree t \<Longrightarrow> \<forall>n\<in>set ns. named n"
proof (induction t arbitrary: ns)
  case (Node ty fl pa de cs)
  then show ?case by (cases "ty = CPARSER_NODE_END") fastforce+
qed

lemma command_last: "ns \<in> set (commands t) \<Longrightarrow> ns \<noteq> [] \<and> ntype (last ns) = CPARSER_NODE_END"
proof (induction t arbitrary: ns)
  case (Node ty fl pa de cs)
  then show ?case by (cases "ty = CPARSER_NODE_END") fastforce+
qed

lemma filter_matches_spellings:
  "\<forall>n\<in>set ns. named n \<Longrightarrow> filter_matches f ns = Some (\<exists>n\<in>set ns. \<exists>k\<in>set (spellings n). occurs f k)"
proof (induction ns)
  case (Cons n ns)
  have n: "named n" "filter_matches f ns = Some (\<exists>n\<in>set ns. \<exists>k\<in>set (spellings n). occurs f k)" using Cons by auto
  consider "ntype n = CPARSER_NODE_LIST" | "ntype n = CPARSER_NODE_KEYWORD" | "ntype n \<noteq> CPARSER_NODE_LIST" "ntype n \<noteq> CPARSER_NODE_KEYWORD" by blast
  then show ?case
  proof cases
    case 1
    then obtain kw kws where "nparam n = Keywords (kw # kws)" using n(1) by (auto simp: named_def inner_def)
    then show ?thesis using 1 n(2) by (auto simp: spellings_def strstr_occurs list_ex_iff)
  next
    case 2
    then obtain kw where "nparam n = Str kw" using n(1) by (auto simp: named_def inner_def)
    then show ?thesis using 2 n(2) by (auto simp: spellings_def strstr_occurs)
  next
    case 3
    then show ?thesis using n(2) by (auto simp: spellings_def split: cparser_node_type.splits)
  qed
qed simp

lemma alternatives_concat: "alternatives (kw # kws) = kw @ concat (map ((@) '' | '') kws)"
proof (induction kws arbitrary: kw)
  case (Cons w ws)
  then show ?case by simp
qed simp

lemma print_node_text:
  assumes "named n" and "inner n"
  shows "cparser_help_print_node n False False p = Some (prints (if NODE_USABLE p n then written n else []) p)"
proof (cases "ntype n = CPARSER_NODE_LIST")
  case True
  then obtain kw kws where "nparam n = Keywords (kw # kws)" using assms by (auto simp: named_def)
  then show ?thesis using True by (simp add: cparser_help_print_node_def written_def alternatives_concat out_simps del: alternatives.simps)
next
  case False
  then obtain s where "nparam n = Str s" using assms by (auto simp: named_def)
  then show ?thesis using assms(2) False by (auto simp: cparser_help_print_node_def written_def inner_def out_simps split: cparser_node_type.splits)
qed

lemma usage_Cons:
  "concat (map (\<lambda>i. usage_word u (b + opened (take (Suc i) (n # ns))) ((n # ns) ! i)) [0..<length (n # ns)]) =
   usage_word u (b + opened [n]) n @ concat (map (\<lambda>i. usage_word u (b + opened [n] + opened (take (Suc i) ns)) (ns ! i)) [0..<length ns])"
proof -
  have "[0..<length (n # ns)] = 0 # map Suc [0..<length ns]" by (simp add: map_Suc_upt upt_conv_Cons del: upt_Suc)
  then show ?thesis by (simp add: o_def opened_def add_ac del: upt_Suc)
qed

lemma usable_prints [simp]: "NODE_USABLE (prints s p) = NODE_USABLE p"
  by (simp add: NODE_USABLE_def fun_eq_iff prints_def)

lemma help_words_text:
  "\<forall>n\<in>set ns. named n \<Longrightarrow> help_words b ns p = Some (prints
    (concat (map (\<lambda>i. usage_word (NODE_USABLE p) (b + opened (take (Suc i) (filter inner ns))) (filter inner ns ! i)) [0..<length (filter inner ns)])) p)"
proof (induction ns arbitrary: b p)
  case Nil
  then show ?case by (simp add: out_simps)
next
  case (Cons n ns)
  show ?case
  proof (cases "inner n")
    case False
    then show ?thesis using Cons by (auto simp: inner_def)
  next
    case True
    let ?p = "prints (usage_word (NODE_USABLE p) (b + opened [n]) n) p"
    have "help_words b (n # ns) p = help_words (b + opened [n]) ns ?p"
      using True Cons.prems print_node_text [of n] by (auto simp: inner_def usage_word_def opened_def out_simps Let_def)
    then show ?thesis
      using Cons.IH [of "b + opened [n]" ?p] Cons.prems True usage_Cons [of "NODE_USABLE p" b n "filter inner ns"]
      by (simp add: out_simps del: upt_Suc)
  qed
qed

lemma help_command_text:
  assumes "\<forall>n\<in>set ns. named n" and "ntype (last ns) = CPARSER_NODE_END"
  shows "help_command f (last ns) ns p = Some (prints (if listed (NODE_USABLE p) f ns then help_entry (NODE_USABLE p) ns else []) p)"
proof -
  have do_print: "help_do_print f (last ns) ns p = Some (NODE_USABLE p (last ns) \<and> (case f of None \<Rightarrow> True | Some w \<Rightarrow> \<exists>n\<in>set ns. \<exists>k\<in>set (spellings n). occurs w k))"
    using filter_matches_spellings [OF assms(1)] by (auto simp: help_do_print_def split: option.splits)
  have words: "help_words 0 ns q = Some (prints (usage (NODE_USABLE q) (filter inner ns)) q)" for q
    using help_words_text [OF assms(1), of 0 q] by (simp add: usage_def)
  show ?thesis
    using assms(2) by (auto simp: help_command_def do_print words listed_def help_entry_def out_simps split: option.splits)
qed

lemma help_all_text:
  "\<forall>ns\<in>set nss. (\<forall>n\<in>set ns. named n) \<and> ntype (last ns) = CPARSER_NODE_END \<Longrightarrow>
   help_all f nss p = Some (prints (concat (map (help_entry (NODE_USABLE p)) (filter (listed (NODE_USABLE p) f) nss))) p)"
proof (induction nss arbitrary: p)
  case Nil
  then show ?case by (simp add: out_simps)
next
  case (Cons ns nss)
  then show ?case using help_command_text [of ns f p] by (simp add: out_simps)
qed

text \<open>
  C40: for a parse tree of at most 34 levels whose nodes have the parameters of their types, the command
  \<^verbatim>\<open>help\<close> prints exactly the entries of the commands of the tree, in the order of the tree: one for every way
  from the root to an end node that is usable (not hidden, or the mode is privileged) and not the end of a partial command, and, with a
  filter, on whose way the filter occurs in a keyword. The stack of 34 nodes is never left.
\<close>

theorem help_lists_commands:
  assumes "aget (roots p) (root_level p) = Some root" and "height root \<le> CPARSER_MAX_NUM_TOKENS + 2" and "named_tree root"
  shows "cparser_help_cmd f p = Some (CPARSER_OK, prints (help_text (NODE_USABLE p) f root) p)"
proof -
  let ?hs = "\<lparr>hfilter = f, htos = 0, hnodes = replicate (CPARSER_MAX_NUM_TOKENS + 2) None\<rparr>"
  have "hstack ?hs f []" by (simp add: hstack_def)
  moreover have "map ((@) []) (commands root) = commands root" by (simp add: map_idI)
  ultimately obtain hs' where "help_walk root p ?hs = map_option (\<lambda>p. (CPARSER_OK, p, hs')) (help_all f (commands root) p)"
    using lists_commandsD [OF help_walk_lists, of ?hs f "[]" root p] assms(2) by auto
  moreover have "help_all f (commands root) p = Some (prints (help_text (NODE_USABLE p) f root) p)"
    unfolding help_text_def by (rule help_all_text) (use named_path [OF _ assms(3)] command_last in blast)
  ultimately show ?thesis
    using assms(1) by (simp add: cparser_help_cmd_def cparser_walk_def)
qed

theorem help_lists_commands_witness:
  "\<exists>q. cparser_help_cmd (Some ''ho'') sample_parser = Some (CPARSER_OK, q) \<and> out q = [CR] @ ''  show <UINT:n> '' @ [CR, LF, LF]"
proof -
  have h: "aget (roots sample_parser) (root_level sample_parser) = Some sample_root" "height sample_root \<le> CPARSER_MAX_NUM_TOKENS + 2"
    "named_tree sample_root"
    by (simp_all add: sample_parser_def aget_def sample_root_def CPARSER_MAX_NUM_TOKENS_def named_def inner_def)
  have u: "NODE_USABLE sample_parser (Node ty 0 pa de cs)" for ty pa de cs by (simp add: NODE_USABLE_def hidden_def)
  have o: "out (prints s sample_parser) = s" for s by (simp add: prints_def sample_parser_def)
  have "help_text (NODE_USABLE sample_parser) (Some ''ho'') sample_root = [CR] @ ''  show <UINT:n> '' @ [CR, LF, LF]"
    by (simp add: sample_root_def help_text_def listed_def spellings_def strstr_occurs [symmetric] flag_def u help_entry_def usage_def
        inner_def usage_word_def written_def)
  then show ?thesis using help_lists_commands [OF h, of "Some ''ho''"] o by auto
qed

end
