(* ===== verification/Cli_Keys.thy ===== *)
theory Cli_Keys
  imports Cli_Input
begin

text \<open>
  Keys from a terminal (\<^verbatim>\<open>cparser_unix_getch\<close> of \<^verbatim>\<open>cparser_io_unix.c\<close>). The characters of the terminal
  are a string; behind its end \<^verbatim>\<open>getchar\<close> returns -1.
\<close>

definition getchar :: "string \<Rightarrow> int \<times> string" where
  "getchar s = (case s of [] \<Rightarrow> (-1, []) | c # cs \<Rightarrow> (int (of_char c), cs))"

text \<open>The value of a \<^verbatim>\<open>char\<close>, which is signed, in a comparison.\<close>

definition schar :: "char \<Rightarrow> int" where
  "schar c = (let n = int (of_char c) in if n < 128 then n else n - 256)"

definition isalnum :: "int \<Rightarrow> bool" where
  "isalnum n \<longleftrightarrow> 48 \<le> n \<and> n \<le> 57 \<or> 65 \<le> n \<and> n \<le> 90 \<or> 97 \<le> n \<and> n \<le> 122"

definition ispunct :: "int \<Rightarrow> bool" where
  "ispunct n \<longleftrightarrow> 33 \<le> n \<and> n \<le> 47 \<or> 58 \<le> n \<and> n \<le> 64 \<or> 91 \<le> n \<and> n \<le> 96 \<or> 123 \<le> n \<and> n \<le> 126"

definition CTRL_A :: int where "CTRL_A = 1"
definition CTRL_E :: int where "CTRL_E = 5"
definition CTRL_N :: int where "CTRL_N = 14"
definition CTRL_P :: int where "CTRL_P = 16"

definition arrow_key :: "int \<Rightarrow> cparser_char" where
  "arrow_key ch = (if ch = 65 then CPARSER_CHAR_UP_ARROW else if ch = 66 then CPARSER_CHAR_DOWN_ARROW
     else if ch = 67 then CPARSER_CHAR_RIGHT_ARROW else if ch = 68 then CPARSER_CHAR_LEFT_ARROW else CPARSER_CHAR_UNKNOWN)"

definition cparser_unix_getch :: "cparser_cfg \<Rightarrow> string \<Rightarrow> int \<times> cparser_char \<times> string" where
  "cparser_unix_getch c s = (case getchar s of (ch, s) \<Rightarrow>
     if ch = 27 then
       (case getchar s of (ch, s) \<Rightarrow>
          if ch = 91 then (case getchar s of (ch, s) \<Rightarrow> (ch, arrow_key ch, s)) else (ch, CPARSER_CHAR_UNKNOWN, s))
     else if ch = CTRL_P then (ch, CPARSER_CHAR_UP_ARROW, s)
     else if ch = CTRL_N then (ch, CPARSER_CHAR_DOWN_ARROW, s)
     else if ch = CTRL_A then (ch, CPARSER_CHAR_FIRST, s)
     else if ch = CTRL_E then (ch, CPARSER_CHAR_LAST, s)
     else if isalnum ch \<or> ch = 10 \<or> ispunct ch \<or> ch = 32 \<or>
       ch = schar (ch_erase c) \<or> ch = schar (ch_del c) \<or> ch = schar (ch_help c) \<or> ch = schar (ch_complete c)
     then (ch, CPARSER_CHAR_REGULAR, s)
     else (ch, CPARSER_CHAR_UNKNOWN, s))"

lemma getch_consumes: "s \<noteq> [] \<Longrightarrow> length (snd (snd (cparser_unix_getch c s))) < length s"
  by (auto simp: cparser_unix_getch_def getchar_def neq_Nil_conv less_Suc_eq_le split: list.splits prod.splits)

text \<open>The keys of all characters of the terminal, as the loop of \<^verbatim>\<open>cparser_run\<close> gets them.\<close>

function unix_keys :: "cparser_cfg \<Rightarrow> string \<Rightarrow> (char \<times> cparser_char) list" where
  "unix_keys c s = (if s = [] then []
     else let x = cparser_unix_getch c s in (char_of (nat (fst x mod 256)), fst (snd x)) # unix_keys c (snd (snd x)))"
  by auto

termination
  by (relation "measure (length \<circ> snd)") (auto intro: getch_consumes)

declare unix_keys.simps [simp del]

text \<open>Printable characters, blanks and line feeds are regular keys; and the end of the input is an unknown key, again and again.\<close>

definition plain_char :: "char \<Rightarrow> bool" where
  "plain_char ch \<longleftrightarrow> ch = LF \<or> 32 \<le> (of_char ch :: nat) \<and> (of_char ch :: nat) < 127"

lemma getch_plain: "plain_char ch \<Longrightarrow> cparser_unix_getch c (ch # s) = (int (of_char ch), CPARSER_CHAR_REGULAR, s)"
proof -
  assume p: "plain_char ch"
  define n where "n = (of_char ch :: nat)"
  have n: "n = 10 \<or> 32 \<le> n \<and> n < 127" using p by (auto simp: plain_char_def n_def)
  then have "isalnum (int n) \<or> int n = 10 \<or> ispunct (int n) \<or> int n = 32" unfolding isalnum_def ispunct_def by linarith
  moreover have "int n \<noteq> 27" "int n \<noteq> CTRL_P" "int n \<noteq> CTRL_N" "int n \<noteq> CTRL_A" "int n \<noteq> CTRL_E"
    using n by (auto simp: CTRL_A_def CTRL_E_def CTRL_N_def CTRL_P_def)
  ultimately show ?thesis by (auto simp: cparser_unix_getch_def getchar_def n_def [symmetric])
qed

lemma unix_keys_text: "list_all plain_char s \<Longrightarrow> unix_keys c (s @ r) = map (\<lambda>ch. (ch, CPARSER_CHAR_REGULAR)) s @ unix_keys c r"
proof (induction s)
  case (Cons ch s)
  then show ?case using getch_plain [of ch c "s @ r"] by (subst unix_keys.simps) (simp add: Let_def)
qed simp

lemma unix_keys_arrows:
  "unix_keys c (CHR 0x1B # CHR ''['' # CHR ''A'' # r) = (CHR ''A'', CPARSER_CHAR_UP_ARROW) # unix_keys c r"
  "unix_keys c (CHR 0x1B # CHR ''['' # CHR ''D'' # r) = (CHR ''D'', CPARSER_CHAR_LEFT_ARROW) # unix_keys c r"
  using char_of_char [of "CHR ''A''", where 'a = nat] char_of_char [of "CHR ''D''", where 'a = nat]
  by (subst unix_keys.simps, simp add: cparser_unix_getch_def getchar_def arrow_key_def Let_def)+

lemma getch_end:
  "\<forall>ch\<in>{ch_erase c, ch_del c, ch_help c, ch_complete c}. schar ch \<noteq> -1 \<Longrightarrow> cparser_unix_getch c [] = (-1, CPARSER_CHAR_UNKNOWN, [])"
  by (auto simp: cparser_unix_getch_def getchar_def isalnum_def ispunct_def CTRL_A_def CTRL_E_def CTRL_N_def CTRL_P_def)

end
