(* ===== verification/Spec2Isabelle.thy ===== *)
theory Spec2Isabelle
  imports RB_Dict MB_Poll Timer_Pair Timer_Wheel HTTP_Parser Thread_Pool Web_Server
    Dijkstra Loop_Detect Linked_List Huffman Sequence_List Hash_Functions
    Cli_Value Cli_Load Cli_Help Cli_Keys
begin

text \<open>
  Verification of the components of the repository: its data structures, the Modbus stack of
  \<^verbatim>\<open>xukai871105-makefile-example\<close>, the timers and the web server of
  \<^verbatim>\<open>Linux High Perfermance Server Program\<close>, the command line parser \<^verbatim>\<open>cli_parser-0.5\<close>, and the
  string hash functions. File names below
  are relative to \<^verbatim>\<open>src/src\<close>. The definitions keep the names of the C functions.

  \<^bold>\<open>How C is modelled\<close> (\<^verbatim>\<open>C_Prelude\<close>, \<^verbatim>\<open>C_String\<close>). An object in memory is a record in a map from
  addresses to records; reading, writing or freeing an address that is not allocated gives
  \<open>None\<close>, and so does an access outside an array, a failed assertion or an overflow of a signed
  number. So \<open>Some\<close> says that a function returns and that nothing undefined happens on the
  way. Functions that may not end are partial functions in the option monad, where not ending is
  \<open>None\<close> as well, hence the theorems that give \<open>Some\<close> are about termination too. No function
  runs on fuel. Unsigned numbers are words of their width. \<open>malloc\<close> is an argument, with the
  hypothesis that what it returns is fresh; sockets, files and clocks enter as arguments: the
  bytes that arrive, the results of \<open>send\<close>, the time of a tick.

  \<^bold>\<open>Red-black tree\<close> (\<^verbatim>\<open>data_struct/btree/rbtree.c\<close>). \<^verbatim>\<open>RB_Heap\<close> has the node, the rotations, search,
  insertion and erasure as they act on memory. \<^verbatim>\<open>RB_Tree\<close> has trees, one-hole contexts and the
  predicate that ties memory to a tree; \<^verbatim>\<open>RB_Rotate\<close> lifts the assignments of the loops to
  trees; \<^verbatim>\<open>RB_Insert\<close> and \<^verbatim>\<open>RB_Erase\<close> prove the loops. \<^verbatim>\<open>RB_Dict\<close> has the contract \<open>heap_dict\<close>,
  its interpretation \<open>rbd\<close>, the refinement of finite maps, the bound on descents and the program
  \<open>main\<close>. Keys are compared by the sign of their difference; \<open>comparable\<close> says when no difference on the way down
  overflows, and the theorems say what happens in either case.

  \<^bold>\<open>Modbus\<close> (\<^verbatim>\<open>freemodbus-v1.5.0-linuxtcp-only\<close>). \<^verbatim>\<open>MB_CRC\<close> is \<^verbatim>\<open>mbcrc.c\<close> with its tables against the
  bitwise CRC; \<^verbatim>\<open>MB_Utils\<close> the bit fields of \<^verbatim>\<open>mbutils.c\<close>; \<^verbatim>\<open>MB_Func\<close> the handlers of
  \<^verbatim>\<open>modbus/functions\<close>, which call the application through the interface \<open>mb_application\<close>;
  \<^verbatim>\<open>MB_Demo\<close> the application of \<^verbatim>\<open>demo.c\<close>, which interprets it; \<^verbatim>\<open>MB_Port\<close> the event queue;
  \<^verbatim>\<open>MB_RTU\<close>, \<^verbatim>\<open>MB_ASCII\<close> and \<^verbatim>\<open>MB_TCP\<close> the three framings with their state machines. \<^verbatim>\<open>MB_Poll\<close> is
  \<^verbatim>\<open>mb.c\<close>: the loop \<open>eMBPoll\<close> is verified once over the interface \<open>frame_layer\<close>, and the
  interpretations \<open>rtu_demo\<close>, \<open>ascii_demo\<close> and \<open>tcp_demo\<close> give it for the whole stacks. Shown:
  whatever bytes come from the line, a turn of the loop returns and stays in the frame buffers, but for a serial frame of 256 bytes,
  which fails an assertion; frames survive encoding and
  decoding, a request over TCP gets the answer of the specification. In \<^verbatim>\<open>MB_TCP\<close> the function \<open>pool_call\<close> tells the ways in which
  reading from a client can go wrong apart; a length field that is too large makes it write behind the buffer.

  \<^bold>\<open>Timers\<close> (\<^verbatim>\<open>codes/11\<close>). \<^verbatim>\<open>Timer_Spec\<close> states what the loop that owns the timers relies on, as the
  locale \<open>timer_container\<close>; \<^verbatim>\<open>Timer_Heap\<close> (\<^verbatim>\<open>11-6time_heap.h\<close>) and \<^verbatim>\<open>Timer_List\<close>
  (\<^verbatim>\<open>11-2lst_timer.h\<close>) interpret it as \<open>th\<close> and \<open>tl\<close>. \<^verbatim>\<open>Timer_Links\<close> has doubly linked lists for any
  node with two links, used by the list and by the slots of \<^verbatim>\<open>Timer_Wheel\<close> (\<^verbatim>\<open>11-5tw_timer.h\<close>).
  \<^verbatim>\<open>Timer_Pair\<close> compares two containers; below, the heap and the list are shown to be
  interchangeable. Shown: every timer runs once, at the first tick not before its time, and no
  operation touches a freed timer.

  \<^bold>\<open>Web server\<close> (\<^verbatim>\<open>codes/8\<close>, \<^verbatim>\<open>codes/15\<close>). \<^verbatim>\<open>HTTP_Line\<close> has the line scanner that both servers share;
  \<^verbatim>\<open>HTTP_Parser\<close> is \<^verbatim>\<open>8-3httpparser.cpp\<close>, equal to a parser of the whole text however the bytes
  are cut; \<^verbatim>\<open>HTTP_Conn\<close>, \<^verbatim>\<open>HTTP_Exchange\<close> and \<^verbatim>\<open>HTTP_Types\<close> are the connection class of
  \<^verbatim>\<open>15-5http_conn.cpp\<close>, whole requests and responses on it down to the bytes that the peer receives, and the types of all its operations;
  \<^verbatim>\<open>Thread_Pool\<close> is \<^verbatim>\<open>15-3threadpool.h\<close> as interleavings of atomic steps of the threads, without the destruction of
  its members;
  \<^verbatim>\<open>Web_Server\<close> is \<^verbatim>\<open>15-6main.cpp\<close> with all connections and workers: every access to what the threads share is a step of its own, and
  the work on the buffers of one connection is one step. For a file system without empty files no two threads
  work on one connection; with an empty file a worker closes a connection, and \<open>empty_file_race\<close> is a run in which it damages a new one.

  \<^bold>\<open>Command line parser\<close> (\<^verbatim>\<open>cli_parser-0.5\<close>). A parse tree of keywords and parameters is walked while a
  command is typed. \<^verbatim>\<open>Cli_Token\<close> has the nodes and the match functions of \<^verbatim>\<open>cparser_token.c\<close>, which are tests
  for prefixes of the words a node stands for; addresses share the locale \<open>grouped\<close>. \<^verbatim>\<open>Cli_Value\<close> has the
  functions that give the values of tokens. \<^verbatim>\<open>Cli_Line\<close> has the record of the parser, the line buffers of
  \<^verbatim>\<open>cparser_line.c\<close> and a terminal of one row, which says what the characters written to it show. \<^verbatim>\<open>Cli_Fsm\<close>
  is \<^verbatim>\<open>cparser_fsm.c\<close>: the arrays of tokens implement an automaton on the text that can take every character
  back. \<^verbatim>\<open>Cli_Input\<close> has the entry points of \<^verbatim>\<open>cparser.c\<close>; completion enters characters through the function for
  keys, so this function is a partial function that calls itself. \<^verbatim>\<open>Cli_Edit\<close> shows that line, automaton and
  terminal agree with an editor without buffers after every key. \<^verbatim>\<open>Cli_Command\<close> gives lines a meaning and shows
  that enter carries it out; what the execution needs of the state is the locale \<open>typing\<close>, interpreted as \<open>ln\<close>
  for the edited line and in \<^verbatim>\<open>Cli_Load\<close> as \<open>ld\<close> for commands from a file, which enter and leave modes. \<^verbatim>\<open>Cli_Help\<close> has the walks over the tree
  and the list of commands, with a description of its text that does not use them, \<^verbatim>\<open>Cli_Keys\<close> the keys of a Unix terminal. The glue functions of the generated parser,
  the callbacks for user input and \<^verbatim>\<open>glob\<close> are arguments. The bounds of the theorems are those of the arrays:
  lines of less than 256 characters, since one token may fill a line, and trees of at most 32 levels (34 for the list of commands).

  \<^bold>\<open>Other data structures.\<close> \<^verbatim>\<open>Dijkstra\<close> (\<^verbatim>\<open>graphics/dijkstra.cpp\<close>, shortest paths), \<^verbatim>\<open>Loop_Detect\<close>
  (\<^verbatim>\<open>linked_list/loop.c\<close>, both cycle tests end and agree), \<^verbatim>\<open>Linked_List\<close> (\<^verbatim>\<open>linked_list/list.c\<close>),
  \<^verbatim>\<open>Binary_Tree\<close> (\<^verbatim>\<open>btree/BinaryTree.cpp\<close>, a round trip), \<^verbatim>\<open>Huffman\<close> (\<^verbatim>\<open>btree/HuffmanTree.cpp\<close>,
  optimality), \<^verbatim>\<open>Sequence_List\<close> (\<^verbatim>\<open>linear_list/sequence_list.c\<close>) and \<^verbatim>\<open>Hash_Functions\<close>
  (\<^verbatim>\<open>GeneralHashFunctions_C\<close>).

  \<^bold>\<open>Not modelled.\<close> The programs under \<^verbatim>\<open>windows\<close> are calls of the Windows socket, service
  provider, driver and window interfaces with no algorithm of their own. The remaining chapters of the
  server book, \<^verbatim>\<open>telnet_client\<close>, \<^verbatim>\<open>ping\<close>, \<^verbatim>\<open>download\<close>, \<^verbatim>\<open>epoll\<close>, \<^verbatim>\<open>udp\<close>, \<^verbatim>\<open>signal\<close>, \<^verbatim>\<open>thread\<close> and
  the like are sequences of system calls: what they do is what the kernel does. The process pool
  and the clients of the timers are loops around \<open>fork\<close>, signals and \<open>epoll_wait\<close>. The exercises
  of \<^verbatim>\<open>example\<close> and the other small directories show one library call or one language feature each.
  \<^verbatim>\<open>linked_list/str_list.c\<close> writes through a pointer that is never assigned. Of the demo of the
  Modbus stack, the thread and the console loop are left out. Of the command line parser, the conversion of
  tokens to \<open>double\<close> by \<^verbatim>\<open>sscanf\<close>, the modes of the terminal, the test programs and the generator
  \<^verbatim>\<open>mk_parser.py\<close>, a Python script that writes the tables of the parse tree, are not modelled.
\<close>

section \<open>The two containers of timers\<close>

text \<open>
  C19: the heap and the sorted list of timers can be exchanged. When both hold the same timers,
  with the same expiry times and callbacks, then after any sequence of ticks both have run the
  same callbacks and keep the same timers; when no two timers expire at the same time the
  callbacks have run in the same order.
\<close>

theorem timers_interchangeable:
  assumes "Timer_Heap.heap_ok s" and "Timer_List.list_ok r" and "Timer_Heap.heap_set s = Timer_List.list_set r"
    and "\<forall>p\<in>Timer_Heap.heap_set s. Timer_Heap.key (time_heap.timers s) p = Timer_List.key (sort_timer_lst.nodes r) p \<and>
      Timer_Heap.call_of (time_heap.timers s) p = Timer_List.call_of (sort_timer_lst.nodes r) p"
  shows "\<exists>s' r' k1 k2. ticks Timer_Heap.tick cs s = Some s' \<and> ticks Timer_List.tick cs r = Some r' \<and>
    Timer_Heap.heap_ok s' \<and> Timer_List.list_ok r' \<and> Timer_Heap.heap_set s' = Timer_List.list_set r' \<and>
    time_heap.calls s' = time_heap.calls s @ k1 \<and> sort_timer_lst.calls r' = sort_timer_lst.calls r @ k2 \<and>
    mset k1 = mset k2 \<and> (inj_on (Timer_Heap.key (time_heap.timers s)) (Timer_Heap.heap_set s) \<longrightarrow> k1 = k2)"
proof -
  have "hl.same_timers s r"
    using assms by (simp add: hl.same_timers_def)
  from hl.ticks_same [OF this, of cs] show ?thesis
    unfolding hl.same_timers_def hl.same_calls_def by blast
qed

theorem timers_interchangeable_witness:
  "\<exists>s' r' k. ticks Timer_Heap.tick [4, 6] sample_heap = Some s' \<and> ticks Timer_List.tick [4, 6] sample_list = Some r' \<and>
    Timer_Heap.heap_set s' = Timer_List.list_set r' \<and> time_heap.calls s' = k \<and> sort_timer_lst.calls r' = k"
proof -
  have sets: "Timer_List.list_ok sample_list" "Timer_List.list_set sample_list = {8, 16}" "Timer_Heap.heap_set sample_heap = {8, 16}"
    using sample_list_rep list_set_rep [OF sample_list_rep]
    by (auto simp: Timer_List.list_ok_def Timer_Heap.heap_set_def sample_heap_def)
  have same: "Timer_Heap.key (time_heap.timers sample_heap) p = Timer_List.key (sort_timer_lst.nodes sample_list) p"
    "Timer_Heap.call_of (time_heap.timers sample_heap) p = Timer_List.call_of (sort_timer_lst.nodes sample_list) p"
    if "p \<in> {8, 16}" for p
    using that by (auto simp: sample_heap_def sample_list_def Timer_Heap.key_def Timer_List.key_def Timer_Heap.call_of_def
        Timer_List.call_of_def Timer_List.data_def)
  have "inj_on (Timer_Heap.key (time_heap.timers sample_heap)) {8, 16}"
    by (simp add: sample_heap_def Timer_Heap.key_def)
  moreover have "time_heap.calls sample_heap = []" "sort_timer_lst.calls sample_list = []"
    by (simp_all add: sample_heap_def sample_list_def)
  ultimately show ?thesis
    using timers_interchangeable [OF sample_heap_ok sets(1), of "[4, 6]"] same sets by auto
qed

end
